(* ===== verification/Heu_Prelude.thy ===== *)
theory Heu_Prelude
  imports Main "HOL-Library.Word"
begin

unbundle bit_operations_syntax

text \<open>
  Shared vocabulary of the development: the names of the C++ integer types, the collections
  of rewrite rules that the component theories extend, and the generic facts on words, lists of
  64-bit limbs and results with errors that more than one component uses.
\<close>

section \<open>Types\<close>

type_synonym u8 = "8 word"
type_synonym u16 = "16 word"
type_synonym u32 = "32 word"
type_synonym u64 = "64 word"
type_synonym u128 = "128 word"

text \<open>A C++ exception that leaves a function, by its class and its message.\<close>

datatype exn =
    Logic_error string
  | Invalid_argument string
  | Runtime_error string
  | Out_of_range string
  | Enforce_error string
  | Bad_alloc

type_synonym 'a res = "exn + 'a"

text \<open>Sequencing of computations that may throw: the first exception is the result.\<close>

definition rbind :: "'a res \<Rightarrow> ('a \<Rightarrow> 'b res) \<Rightarrow> 'b res" where
  "rbind r f = (case r of Inl e \<Rightarrow> Inl e | Inr a \<Rightarrow> f a)"

lemma rbind_simps [simp]:
  "rbind (Inl e) f = Inl e"
  "rbind (Inr a) f = f a"
  by (simp_all add: rbind_def)

lemma rbind_Inr_iff: "rbind r f = Inr b \<longleftrightarrow> (\<exists>a. r = Inr a \<and> f a = Inr b)"
  by (cases r) auto

lemma rbind_cong [fundef_cong]:
  "r = r' \<Longrightarrow> (\<And>a. r' = Inr a \<Longrightarrow> f a = g a) \<Longrightarrow> rbind r f = rbind r' g"
  by (cases r') auto

section \<open>Collections\<close>

text \<open>
  \<open>word_nat\<close>: reading word operations as natural-number arithmetic.
  \<open>limb\<close>: the value of a little-endian list of 64-bit limbs.
\<close>

named_theorems word_nat
named_theorems limb

section \<open>Words as numbers\<close>

lemma unat_lt64 [simp]: "unat (x :: u64) < 18446744073709551616"
  using unsigned_less [of x, where 'a=nat] by simp

lemma unat_le64 [simp]: "unat (x :: u64) \<le> 18446744073709551615"
  using unat_lt64 [of x] by linarith

lemma unat_lt8 [simp]: "unat (x :: u8) < 256"
  using unsigned_less [of x, where 'a=nat] by simp

lemma unat_add64 [word_nat]:
  "unat ((x :: u64) + y) = (unat x + unat y) mod 18446744073709551616"
  by (simp add: unat_word_ariths)

lemma unat_mul64 [word_nat]:
  "unat ((x :: u64) * y) = (unat x * unat y) mod 18446744073709551616"
  by (simp add: unat_word_ariths)

lemma unat_sub64 [word_nat]:
  "unat ((x :: u64) - y) =
     (if unat y \<le> unat x then unat x - unat y else unat x + 18446744073709551616 - unat y)"
  using unat_sub_if_size [of x y] by (simp add: word_size)

lemma unat_not64 [word_nat]: "unat (NOT (x :: u64)) = 18446744073709551615 - unat x"
proof -
  have "NOT x = - 1 - x" by (simp add: not_eq_complement)
  then show ?thesis by (simp add: unat_sub64 unsigned_minus_1_eq_mask mask_eq_exp_minus_1)
qed

lemma unat_ucast8_64 [simp]: "unat (ucast (c :: u8) :: u64) = unat c"
proof -
  have "unat c < 2 ^ 64" using unat_lt8 [of c] by (simp del: unat_lt8)
  then show ?thesis by (simp add: unsigned_ucast_eq take_bit_nat_eq_self)
qed

lemma unat_of_bool [simp]: "unat (of_bool b :: 'a::len word) = of_bool b"
  by (cases b) simp_all

lemma unat_push64 [word_nat]:
  "unat (push_bit n (x :: u64)) = (unat x * 2 ^ n) mod 18446744073709551616"
  by (simp add: unsigned_push_bit_eq push_bit_eq_mult [where 'a=nat] take_bit_eq_mod [where 'a=nat])

lemma unat_drop64 [word_nat]: "unat (drop_bit n (x :: u64)) = unat x div 2 ^ n"
  by (simp add: unat_drop_bit_eq drop_bit_eq_div [where 'a=nat])

lemma unat_or_disjoint:
  fixes x y :: "'a::len word"
  assumes "x AND y = 0"
  shows "unat (x OR y) = unat x + unat y"
proof -
  have "unat x AND unat y = 0"
    using assms by (simp flip: unsigned_and_eq)
  then have "unat x OR unat y = unat x + unat y"
    by (simp add: disjunctive_add_eq_or)
  then show ?thesis by (simp add: unsigned_or_eq)
qed

text \<open>
  The double-word shifts of the code: \<open>(x << b) | (p >> (64 - b))\<close> moves the top bits of the
  lower limb into the upper one, and \<open>(x >> b) | (q << (64 - b))\<close> the reverse.
\<close>

lemma shl_or_disjoint:
  fixes x p :: u64
  assumes "0 < b" "b < 64"
  shows "push_bit b x AND drop_bit (64 - b) p = 0"
  using assms by (auto simp: bit_eq_iff bit_simps dest: bit_imp_le_length)

lemma unat_shl_or [word_nat]:
  fixes x p :: u64
  assumes "0 < b" "b < 64"
  shows "unat (push_bit b x OR drop_bit (64 - b) p) =
    (unat x * 2 ^ b) mod 18446744073709551616 + unat p div 2 ^ (64 - b)"
  using unat_or_disjoint [OF shl_or_disjoint [OF assms, of x p]]
  by (simp add: unat_push64 unat_drop64)

lemma unat_shr_or [word_nat]:
  fixes x q :: u64
  assumes "0 < b" "b < 64"
  shows "unat (drop_bit b x OR push_bit (64 - b) q) =
    unat x div 2 ^ b + (unat q * 2 ^ (64 - b)) mod 18446744073709551616"
  using unat_shl_or [of "64 - b" q x] assms by (simp add: or.commute add.commute)

section \<open>Little-endian limb lists\<close>

text \<open>The number a \<open>uint64_t\<close> array stands for, least significant limb first.\<close>

primrec uval :: "u64 list \<Rightarrow> nat" where
  "uval [] = 0"
| "uval (x # xs) = unat x + 18446744073709551616 * uval xs"

lemma uval_append [limb]:
  "uval (xs @ ys) = uval xs + 18446744073709551616 ^ length xs * uval ys"
  by (induction xs) (simp_all add: algebra_simps)

lemma uval_replicate_0 [simp, limb]: "uval (replicate n 0) = 0"
  by (induction n) simp_all

lemma digit_step:
  fixes x b u p :: nat
  assumes "x < b" "u < p"
  shows "x + b * u < b * p"
proof -
  have "b * Suc u \<le> b * p" using assms(2) by (intro mult_le_mono2) simp
  with assms(1) show ?thesis by simp
qed

lemma uval_lt: "uval xs < 18446744073709551616 ^ length xs"
  by (induction xs) (simp_all add: digit_step)

lemma uval_eq_0_iff: "uval xs = 0 \<longleftrightarrow> (\<forall>x\<in>set xs. x = 0)"
  by (induction xs) (auto simp: unsigned_eq_0_iff)

lemma uval_inj: "length xs = length ys \<Longrightarrow> uval xs = uval ys \<Longrightarrow> xs = ys"
proof (induction xs ys rule: list_induct2)
  case Nil
  then show ?case by simp
next
  case (Cons x xs y ys)
  have "unat x = unat y"
    using arg_cong [OF Cons.prems, of "\<lambda>n. n mod 18446744073709551616"] by simp
  moreover from this Cons.prems have "uval xs = uval ys" by simp
  ultimately show ?case using Cons.IH by (simp add: word_unat_eq_iff)
qed

lemma uval_take_drop: "uval xs = uval (take n xs) + 18446744073709551616 ^ min n (length xs) * uval (drop n xs)"
  using uval_append [of "take n xs" "drop n xs"] by (simp add: min.commute)

lemma uval_take: "n \<le> length xs \<Longrightarrow> uval (take n xs) = uval xs mod 18446744073709551616 ^ n"
  using uval_take_drop [of xs n] uval_lt [of "take n xs"] by simp

lemma uval_drop: "n \<le> length xs \<Longrightarrow> uval (drop n xs) = uval xs div 18446744073709551616 ^ n"
  using uval_take_drop [of xs n] uval_lt [of "take n xs"] by simp

lemma uval_map_0 [simp]: "uval (map (\<lambda>_. 0) xs) = 0"
  by (induction xs) simp_all

section \<open>The bit length of a number\<close>

fun nbits :: "nat \<Rightarrow> nat" where
  "nbits n = (if n = 0 then 0 else Suc (nbits (n div 2)))"

declare nbits.simps [simp del]

lemma nbits_0 [simp]: "nbits 0 = 0"
  by (simp add: nbits.simps)

lemma nbits_le_iff: "nbits n \<le> k \<longleftrightarrow> n < 2 ^ k"
proof (induction n arbitrary: k rule: nbits.induct)
  case (1 n)
  show ?case
  proof (cases "n = 0")
    case True
    then show ?thesis by simp
  next
    case False
    show ?thesis
    proof (cases k)
      case 0
      then show ?thesis using False by (simp add: nbits.simps [of n])
    next
      case (Suc j)
      then have "nbits n \<le> k \<longleftrightarrow> nbits (n div 2) \<le> j" using False by (simp add: nbits.simps [of n])
      also have "\<dots> \<longleftrightarrow> n div 2 < 2 ^ j" using "1.IH" [OF False] .
      also have "\<dots> \<longleftrightarrow> n < 2 ^ k" using Suc by auto
      finally show ?thesis .
    qed
  qed
qed

lemma nbits_less_iff: "k < nbits n \<longleftrightarrow> 2 ^ k \<le> n"
  using nbits_le_iff [of n k] by linarith

lemma nbits_eqI: "2 ^ (k - 1) \<le> n \<Longrightarrow> n < 2 ^ k \<Longrightarrow> 0 < k \<Longrightarrow> nbits n = k"
  using nbits_le_iff [of n k] nbits_less_iff [of "k - 1" n] by linarith

lemma nbits_eq_0_iff [simp]: "nbits n = 0 \<longleftrightarrow> n = 0"
  using nbits_le_iff [of n 0] by simp

lemma less_exp_nbits: "n < 2 ^ nbits n"
  using nbits_le_iff [of n "nbits n"] by simp

lemma exp_nbits_le: "0 < n \<Longrightarrow> 2 ^ (nbits n - 1) \<le> n"
  using nbits_less_iff [of "nbits n - 1" n] by (cases "nbits n") auto

lemma nbits_mono: "m \<le> n \<Longrightarrow> nbits m \<le> nbits n"
  using nbits_le_iff [of m "nbits n"] less_exp_nbits [of n] by simp

lemma nbits_pos_iff [simp]: "0 < nbits n \<longleftrightarrow> 0 < n"
  using nbits_eq_0_iff [of n] by linarith

lemma nbits_mult_exp:
  assumes "0 < n"
  shows "nbits (n * 2 ^ k) = nbits n + k"
proof (rule nbits_eqI)
  have "nbits n + k - 1 = (nbits n - 1) + k" using assms by (cases "nbits n") auto
  then show "2 ^ (nbits n + k - 1) \<le> n * 2 ^ k"
    using exp_nbits_le [OF assms] by (simp add: power_add)
  show "n * 2 ^ k < 2 ^ (nbits n + k)" using less_exp_nbits [of n] by (simp add: power_add)
  show "0 < nbits n + k" using assms by simp
qed

lemma nbits_digits: "0 < y \<Longrightarrow> x < 2 ^ k \<Longrightarrow> nbits (x + 2 ^ k * y) = k + nbits y"
proof (rule nbits_eqI)
  assume y: "0 < y" and x: "x < 2 ^ k"
  have "2 ^ k * 2 ^ (nbits y - 1) \<le> 2 ^ k * y" using exp_nbits_le [OF y] by simp
  moreover have "k + nbits y - 1 = k + (nbits y - 1)" using y by (cases "nbits y") auto
  ultimately show "2 ^ (k + nbits y - 1) \<le> x + 2 ^ k * y" by (simp only: power_add)
  show "x + 2 ^ k * y < 2 ^ (k + nbits y)"
    using digit_step [OF x less_exp_nbits [of y]] by (simp add: power_add)
  show "0 < k + nbits y" using y by simp
qed

end
