(* ===== verification/Byte_Stream.thy ===== *)
theory Byte_Stream
  imports Heu_Prelude
begin

text \<open>
  The interface of the incremental hash functions: a state that takes a message in chunks, of which
  only a view matters, and the function by which the view absorbs bytes. The provider shows that one
  chunk acts on the view as \<open>absorb\<close> and that absorbing is a monoid action; a client may then cut a
  message in any way.
\<close>

locale byte_stream =
  fixes upd :: "'s \<Rightarrow> u8 list \<Rightarrow> 's"
    and inv :: "'s \<Rightarrow> bool"
    and view :: "'s \<Rightarrow> 'c"
    and absorb :: "'c \<Rightarrow> u8 list \<Rightarrow> 'c"
  assumes inv_upd: "inv s \<Longrightarrow> inv (upd s x)"
    and view_upd: "inv s \<Longrightarrow> view (upd s x) = absorb (view s) x"
    and absorb_Nil: "inv s \<Longrightarrow> absorb (view s) [] = view s"
    and absorb_append: "absorb (absorb c x) y = absorb c (x @ y)"
begin

lemma inv_chunks: "inv s \<Longrightarrow> inv (foldl upd s chunks)"
  by (induction chunks arbitrary: s) (simp_all add: inv_upd)

lemma view_chunks: "inv s \<Longrightarrow> view (foldl upd s chunks) = absorb (view s) (concat chunks)"
  by (induction chunks arbitrary: s) (simp_all add: absorb_Nil inv_upd view_upd absorb_append)

text \<open>Two ways to cut the same message leave the same view.\<close>

lemma chunking_irrelevant:
  "inv s \<Longrightarrow> concat chunks = concat chunks' \<Longrightarrow> view (foldl upd s chunks) = view (foldl upd s chunks')"
  by (simp add: view_chunks)

end

end
