(* ===== verification/Blake2b.thy ===== *)
theory Blake2b
  imports Byte_Stream
begin

unbundle bit_operations_syntax

text \<open>
  BLAKE2b: the byte-order helpers of \<open>blake2-impl.h\<close>, the parameter block and state of \<open>blake2.h\<close>
  and the functions of \<open>blake2b.c\<close> (all under \<open>heu/library/algorithms/seal_gpu/utils/\<close>).
  Memory is a list of bytes. A pointer that may be \<open>NULL\<close> is an \<open>option\<close>; a function that writes
  through \<open>out\<close> returns the buffer as it is afterwards; the integer result is the return code.
\<close>

section \<open>Byte order\<close>

text \<open>The portable branch; on a little-endian host \<open>memcpy\<close> gives the same bytes.\<close>

definition load32 :: "u8 list \<Rightarrow> u32" where
  "load32 p = ucast (p ! 0) OR push_bit 8 (ucast (p ! 1)) OR push_bit 16 (ucast (p ! 2)) OR
     push_bit 24 (ucast (p ! 3))"

definition load64 :: "u8 list \<Rightarrow> u64" where
  "load64 p = ucast (p ! 0) OR push_bit 8 (ucast (p ! 1)) OR push_bit 16 (ucast (p ! 2)) OR
     push_bit 24 (ucast (p ! 3)) OR push_bit 32 (ucast (p ! 4)) OR push_bit 40 (ucast (p ! 5)) OR
     push_bit 48 (ucast (p ! 6)) OR push_bit 56 (ucast (p ! 7))"

definition load16 :: "u8 list \<Rightarrow> u16" where
  "load16 p = ucast ((ucast (p ! 0) :: u32) OR push_bit 8 (ucast (p ! 1)))"

definition load48 :: "u8 list \<Rightarrow> u64" where
  "load48 p = ucast (p ! 0) OR push_bit 8 (ucast (p ! 1)) OR push_bit 16 (ucast (p ! 2)) OR
     push_bit 24 (ucast (p ! 3)) OR push_bit 32 (ucast (p ! 4)) OR push_bit 40 (ucast (p ! 5))"

definition store16 :: "u16 \<Rightarrow> u8 list" where
  "store16 w = [ucast w, ucast (drop_bit 8 w)]"

definition store32 :: "u32 \<Rightarrow> u8 list" where
  "store32 w = [ucast w, ucast (drop_bit 8 w), ucast (drop_bit 16 w), ucast (drop_bit 24 w)]"

definition store64 :: "u64 \<Rightarrow> u8 list" where
  "store64 w = [ucast w, ucast (drop_bit 8 w), ucast (drop_bit 16 w), ucast (drop_bit 24 w),
     ucast (drop_bit 32 w), ucast (drop_bit 40 w), ucast (drop_bit 48 w), ucast (drop_bit 56 w)]"

definition store48 :: "u64 \<Rightarrow> u8 list" where
  "store48 w = [ucast w, ucast (drop_bit 8 w), ucast (drop_bit 16 w), ucast (drop_bit 24 w),
     ucast (drop_bit 32 w), ucast (drop_bit 40 w)]"

definition rotr32 :: "u32 \<Rightarrow> nat \<Rightarrow> u32" where
  "rotr32 w c = drop_bit c w OR push_bit (32 - c) w"

definition rotr64 :: "u64 \<Rightarrow> nat \<Rightarrow> u64" where
  "rotr64 w c = drop_bit c w OR push_bit (64 - c) w"

definition secure_zero_memory :: "nat \<Rightarrow> u8 list" where
  "secure_zero_memory n = replicate n 0"

text \<open>\<open>memcpy(dst + off, src, length src)\<close> inside a buffer.\<close>

definition memcpy_at :: "u8 list \<Rightarrow> nat \<Rightarrow> u8 list \<Rightarrow> u8 list" where
  "memcpy_at dst off src = take off dst @ src @ drop (off + length src) dst"

section \<open>Parameter block and state\<close>

definition BLAKE2B_BLOCKBYTES :: nat where "BLAKE2B_BLOCKBYTES = 128"
definition BLAKE2B_OUTBYTES :: nat where "BLAKE2B_OUTBYTES = 64"
definition BLAKE2B_KEYBYTES :: nat where "BLAKE2B_KEYBYTES = 64"
definition BLAKE2B_SALTBYTES :: nat where "BLAKE2B_SALTBYTES = 16"
definition BLAKE2B_PERSONALBYTES :: nat where "BLAKE2B_PERSONALBYTES = 16"

lemmas blake2b_constant = BLAKE2B_BLOCKBYTES_def BLAKE2B_OUTBYTES_def BLAKE2B_KEYBYTES_def
  BLAKE2B_SALTBYTES_def BLAKE2B_PERSONALBYTES_def

text \<open>The multi-byte fields hold the bytes that \<open>store32\<close> leaves in memory.\<close>

record blake2b_param =
  digest_length :: u8
  key_length :: u8
  fanout :: u8
  depth :: u8
  leaf_length :: "u8 list"
  node_offset :: "u8 list"
  xof_length :: "u8 list"
  node_depth :: u8
  inner_length :: u8
  reserved :: "u8 list"
  salt :: "u8 list"
  personal :: "u8 list"

text \<open>The packed struct as memory.\<close>

definition param_bytes :: "blake2b_param \<Rightarrow> u8 list" where
  "param_bytes P = [digest_length P, key_length P, fanout P, depth P] @ leaf_length P @
     node_offset P @ xof_length P @ [node_depth P, inner_length P] @ reserved P @ salt P @ personal P"

record blake2b_state =
  st_h :: "u64 list"
  st_t :: "u64 list"
  st_f :: "u64 list"
  buf :: "u8 list"
  buflen :: nat
  outlen :: nat
  last_node :: u8

definition blake2b_IV :: "u64 list" where
  "blake2b_IV =
    [0x6a09e667f3bcc908, 0xbb67ae8584caa73b, 0x3c6ef372fe94f82b,
     0xa54ff53a5f1d36f1, 0x510e527fade682d1, 0x9b05688c2b3e6c1f,
     0x1f83d9abfb41bd6b, 0x5be0cd19137e2179]"

definition blake2b_sigma :: "nat list list" where
  "blake2b_sigma =
    [[0, 1, 2, 3, 4, 5, 6, 7, 8, 9, 10, 11, 12, 13, 14, 15],
     [14, 10, 4, 8, 9, 15, 13, 6, 1, 12, 0, 2, 11, 7, 5, 3],
     [11, 8, 12, 0, 5, 2, 15, 13, 10, 14, 3, 6, 7, 1, 9, 4],
     [7, 9, 3, 1, 13, 12, 11, 14, 2, 6, 5, 10, 4, 0, 15, 8],
     [9, 0, 5, 7, 2, 4, 10, 15, 14, 1, 11, 12, 6, 8, 3, 13],
     [2, 12, 6, 10, 0, 11, 8, 3, 4, 13, 7, 5, 15, 14, 1, 9],
     [12, 5, 1, 15, 14, 13, 4, 10, 0, 7, 6, 3, 9, 2, 8, 11],
     [13, 11, 7, 14, 12, 1, 3, 9, 5, 0, 15, 4, 8, 6, 2, 10],
     [6, 15, 14, 9, 11, 3, 0, 8, 12, 2, 13, 7, 1, 4, 10, 5],
     [10, 2, 8, 4, 7, 6, 1, 5, 15, 11, 9, 14, 3, 12, 13, 0],
     [0, 1, 2, 3, 4, 5, 6, 7, 8, 9, 10, 11, 12, 13, 14, 15],
     [14, 10, 4, 8, 9, 15, 13, 6, 1, 12, 0, 2, 11, 7, 5, 3]]"

section \<open>State helpers\<close>

definition blake2b_set_lastnode :: "blake2b_state \<Rightarrow> blake2b_state" where
  "blake2b_set_lastnode S = S\<lparr>st_f := (st_f S)[1 := - 1]\<rparr>"

definition blake2b_is_lastblock :: "blake2b_state \<Rightarrow> bool" where
  "blake2b_is_lastblock S = (st_f S ! 0 \<noteq> 0)"

definition blake2b_set_lastblock :: "blake2b_state \<Rightarrow> blake2b_state" where
  "blake2b_set_lastblock S =
     (let S = (if last_node S \<noteq> 0 then blake2b_set_lastnode S else S)
      in S\<lparr>st_f := (st_f S)[0 := - 1]\<rparr>)"

definition blake2b_increment_counter :: "blake2b_state \<Rightarrow> u64 \<Rightarrow> blake2b_state" where
  "blake2b_increment_counter S inc =
     (let S = S\<lparr>st_t := (st_t S)[0 := st_t S ! 0 + inc]\<rparr>
      in S\<lparr>st_t := (st_t S)[1 := st_t S ! 1 + of_bool (st_t S ! 0 < inc)]\<rparr>)"

definition blake2b_init0 :: blake2b_state where
  "blake2b_init0 = \<lparr>st_h = map (\<lambda>i. blake2b_IV ! i) [0..<8], st_t = [0, 0], st_f = [0, 0],
     buf = replicate BLAKE2B_BLOCKBYTES 0, buflen = 0, outlen = 0, last_node = 0\<rparr>"

definition blake2b_init_param :: "blake2b_param \<Rightarrow> int \<times> blake2b_state" where
  "blake2b_init_param P =
     (let p = param_bytes P;
          S = blake2b_init0;
          S = S\<lparr>st_h := map (\<lambda>i. st_h S ! i XOR load64 (drop (8 * i) p)) [0..<8]\<rparr>;
          S = S\<lparr>outlen := unat (digest_length P)\<rparr>
      in (0, S))"

text \<open>A function that returns \<open>-1\<close> before it touches the state leaves it as it was.\<close>

definition blake2b_init :: "blake2b_state \<Rightarrow> nat \<Rightarrow> int \<times> blake2b_state" where
  "blake2b_init S out_len =
     (if out_len = 0 \<or> out_len > BLAKE2B_OUTBYTES then (- 1, S)
      else blake2b_init_param
        \<lparr>digest_length = of_nat out_len, key_length = 0, fanout = 1, depth = 1,
         leaf_length = store32 0, node_offset = store32 0, xof_length = store32 0,
         node_depth = 0, inner_length = 0, reserved = replicate 14 0,
         salt = replicate BLAKE2B_SALTBYTES 0, personal = replicate BLAKE2B_PERSONALBYTES 0\<rparr>)"

section \<open>Compression\<close>

text \<open>The macro \<open>G(r, i, v[a], v[b], v[c], v[d])\<close> on the working vector \<open>v\<close>.\<close>

definition G :: "u64 list \<Rightarrow> nat \<Rightarrow> nat \<Rightarrow> nat \<Rightarrow> nat \<Rightarrow> nat \<Rightarrow> nat \<Rightarrow> u64 list \<Rightarrow> u64 list" where
  "G m r i a b c d v =
     (let v = v[a := v ! a + v ! b + m ! (blake2b_sigma ! r ! (2 * i + 0))];
          v = v[d := rotr64 (v ! d XOR v ! a) 32];
          v = v[c := v ! c + v ! d];
          v = v[b := rotr64 (v ! b XOR v ! c) 24];
          v = v[a := v ! a + v ! b + m ! (blake2b_sigma ! r ! (2 * i + 1))];
          v = v[d := rotr64 (v ! d XOR v ! a) 16];
          v = v[c := v ! c + v ! d];
          v = v[b := rotr64 (v ! b XOR v ! c) 63]
      in v)"

definition ROUND :: "u64 list \<Rightarrow> nat \<Rightarrow> u64 list \<Rightarrow> u64 list" where
  "ROUND m r v =
     (let v = G m r 0 0 4 8 12 v;
          v = G m r 1 1 5 9 13 v;
          v = G m r 2 2 6 10 14 v;
          v = G m r 3 3 7 11 15 v;
          v = G m r 4 0 5 10 15 v;
          v = G m r 5 1 6 11 12 v;
          v = G m r 6 2 7 8 13 v;
          v = G m r 7 3 4 9 14 v
      in v)"

definition blake2b_compress :: "blake2b_state \<Rightarrow> u8 list \<Rightarrow> blake2b_state" where
  "blake2b_compress S block =
     (let m = map (\<lambda>i. load64 (drop (i * 8) block)) [0..<16];
          v = map (\<lambda>i. st_h S ! i) [0..<8] @
            [blake2b_IV ! 0, blake2b_IV ! 1, blake2b_IV ! 2, blake2b_IV ! 3,
             blake2b_IV ! 4 XOR st_t S ! 0, blake2b_IV ! 5 XOR st_t S ! 1,
             blake2b_IV ! 6 XOR st_f S ! 0, blake2b_IV ! 7 XOR st_f S ! 1];
          v = ROUND m 0 v; v = ROUND m 1 v; v = ROUND m 2 v; v = ROUND m 3 v;
          v = ROUND m 4 v; v = ROUND m 5 v; v = ROUND m 6 v; v = ROUND m 7 v;
          v = ROUND m 8 v; v = ROUND m 9 v; v = ROUND m 10 v; v = ROUND m 11 v
      in S\<lparr>st_h := map (\<lambda>i. st_h S ! i XOR v ! i XOR v ! (i + 8)) [0..<8]\<rparr>)"

section \<open>Update and final\<close>

text \<open>The loop over the full blocks of the input, which keeps the last block back.\<close>

function blake2b_update_loop :: "blake2b_state \<Rightarrow> u8 list \<Rightarrow> blake2b_state \<times> u8 list" where
  "blake2b_update_loop S inp =
     (if length inp > BLAKE2B_BLOCKBYTES then
        let S = blake2b_increment_counter S (of_nat BLAKE2B_BLOCKBYTES);
            S = blake2b_compress S (take BLAKE2B_BLOCKBYTES inp)
        in blake2b_update_loop S (drop BLAKE2B_BLOCKBYTES inp)
      else (S, inp))"
  by pat_completeness auto

termination
  by (relation "measure (\<lambda>(S, inp). length inp)") (auto simp: BLAKE2B_BLOCKBYTES_def)

declare blake2b_update_loop.simps [simp del]

definition blake2b_update :: "blake2b_state \<Rightarrow> u8 list \<Rightarrow> int \<times> blake2b_state" where
  "blake2b_update S pin =
     (if length pin > 0 then
        let left = buflen S;
            fill = BLAKE2B_BLOCKBYTES - left;
            (S, inp) =
              (if length pin > fill then
                 let S = S\<lparr>buflen := 0\<rparr>;
                     S = S\<lparr>buf := memcpy_at (buf S) left (take fill pin)\<rparr>;
                     S = blake2b_increment_counter S (of_nat BLAKE2B_BLOCKBYTES);
                     S = blake2b_compress S (buf S)
                 in blake2b_update_loop S (drop fill pin)
               else (S, pin));
            S = S\<lparr>buf := memcpy_at (buf S) (buflen S) inp\<rparr>;
            S = S\<lparr>buflen := buflen S + length inp\<rparr>
        in (0, S)
      else (0, S))"

definition blake2b_init_key :: "blake2b_state \<Rightarrow> nat \<Rightarrow> u8 list option \<Rightarrow> nat \<Rightarrow> int \<times> blake2b_state" where
  "blake2b_init_key S out_len key keylen =
     (if out_len = 0 \<or> out_len > BLAKE2B_OUTBYTES then (- 1, S)
      else case key of None \<Rightarrow> (- 1, S)
      | Some key \<Rightarrow>
        if keylen = 0 \<or> keylen > BLAKE2B_KEYBYTES then (- 1, S)
        else
          let (r, S) = blake2b_init_param
                \<lparr>digest_length = of_nat out_len, key_length = of_nat keylen, fanout = 1, depth = 1,
                 leaf_length = store32 0, node_offset = store32 0, xof_length = store32 0,
                 node_depth = 0, inner_length = 0, reserved = replicate 14 0,
                 salt = replicate BLAKE2B_SALTBYTES 0, personal = replicate BLAKE2B_PERSONALBYTES 0\<rparr>
          in if r < 0 then (- 1, S)
             else let block = replicate BLAKE2B_BLOCKBYTES 0;
                      block = memcpy_at block 0 (take keylen key)
                  in (0, snd (blake2b_update S block)))"

text \<open>The result is the return code, the state and the output buffer.\<close>

definition blake2b_final ::
  "blake2b_state \<Rightarrow> u8 list option \<Rightarrow> nat \<Rightarrow> int \<times> blake2b_state \<times> u8 list option" where
  "blake2b_final S out out_len =
     (case out of None \<Rightarrow> (- 1, S, out)
      | Some dst \<Rightarrow>
        if out_len < outlen S then (- 1, S, out)
        else if blake2b_is_lastblock S then (- 1, S, out)
        else
          let S = blake2b_increment_counter S (of_nat (buflen S));
              S = blake2b_set_lastblock S;
              S = S\<lparr>buf := memcpy_at (buf S) (buflen S) (replicate (BLAKE2B_BLOCKBYTES - buflen S) 0)\<rparr>;
              S = blake2b_compress S (buf S);
              buffer = concat (map (\<lambda>i. store64 (st_h S ! i)) [0..<8])
          in (0, S, Some (memcpy_at dst 0 (take (outlen S) buffer))))"

text \<open>The state on the stack is uninitialised; every branch that goes on initialises it.\<close>

definition blake2b :: "blake2b_state \<Rightarrow> u8 list option \<Rightarrow> nat \<Rightarrow> u8 list option \<Rightarrow> nat \<Rightarrow>
    u8 list option \<Rightarrow> nat \<Rightarrow> int \<times> u8 list option" where
  "blake2b stack_S out out_len inp inlen key keylen =
     (if inp = None \<and> inlen > 0 then (- 1, out)
      else if out = None then (- 1, out)
      else if key = None \<and> keylen > 0 then (- 1, out)
      else if out_len = 0 \<or> out_len > BLAKE2B_OUTBYTES then (- 1, out)
      else if keylen > BLAKE2B_KEYBYTES then (- 1, out)
      else
        let (r, S) = (if keylen > 0 then blake2b_init_key stack_S out_len key keylen
                      else blake2b_init stack_S out_len)
        in if r < 0 then (- 1, out)
           else let (r, S) = blake2b_update S (case inp of None \<Rightarrow> [] | Some pin \<Rightarrow> take inlen pin);
                    (r, S, out) = blake2b_final S out out_len
                in (0, out))"

definition blake2 :: "blake2b_state \<Rightarrow> u8 list option \<Rightarrow> nat \<Rightarrow> u8 list option \<Rightarrow> nat \<Rightarrow>
    u8 list option \<Rightarrow> nat \<Rightarrow> int \<times> u8 list option" where
  "blake2 stack_S out out_len inp inlen key keylen = blake2b stack_S out out_len inp inlen key keylen"

section \<open>Byte order round trips\<close>

lemma bit_byte [simp]: "bit (ucast (ucast (drop_bit k w :: u64) :: u8) :: u64) i \<longleftrightarrow> i < 8 \<and> bit w (k + i)"
  by (auto simp: bit_simps dest: bit_imp_le_length)

lemma bit_byte_0 [simp]: "bit (ucast (ucast (w :: u64) :: u8) :: u64) i \<longleftrightarrow> i < 8 \<and> bit w i"
  by (auto simp: bit_simps dest: bit_imp_le_length)

lemma load64_store64: "load64 (store64 w @ rest) = w"
proof (rule bit_word_eqI)
  fix i
  assume "i < LENGTH(64)"
  then have "i < 64" by simp
  then consider "i < 8" | "8 \<le> i" "i < 16" | "16 \<le> i" "i < 24" | "24 \<le> i" "i < 32" | "32 \<le> i" "i < 40"
    | "40 \<le> i" "i < 48" | "48 \<le> i" "i < 56" | "56 \<le> i" "i < 64" by linarith
  then show "bit (load64 (store64 w @ rest)) i = bit w i"
    by cases (simp_all add: load64_def store64_def bit_or_iff bit_push_bit_iff bit_drop_bit_eq less_diff_conv2)
qed

lemma load32_store32: "load32 (store32 w @ rest) = w"
proof (rule bit_word_eqI)
  fix i
  assume "i < LENGTH(32)"
  then have "i < 32" by simp
  then consider "i < 8" | "8 \<le> i" "i < 16" | "16 \<le> i" "i < 24" | "24 \<le> i" "i < 32" by linarith
  then show "bit (load32 (store32 w @ rest)) i = bit w i"
    by cases (simp_all add: load32_def store32_def bit_simps less_diff_conv2)
qed

lemma load48_store48: "load48 (store48 w @ rest) = take_bit 48 w"
proof (rule bit_word_eqI)
  fix i
  assume "i < LENGTH(64)"
  then have "i < 64" by simp
  then consider "i < 8" | "8 \<le> i" "i < 16" | "16 \<le> i" "i < 24" | "24 \<le> i" "i < 32" | "32 \<le> i" "i < 40"
    | "40 \<le> i" "i < 48" | "48 \<le> i" by linarith
  then show "bit (load48 (store48 w @ rest)) i = bit (take_bit 48 w) i"
    by cases (simp_all add: load48_def store48_def bit_or_iff bit_push_bit_iff bit_take_bit_iff bit_drop_bit_eq less_diff_conv2)
qed

lemma load16_store16: "load16 (store16 w @ rest) = w"
proof (rule bit_word_eqI)
  fix i
  assume "i < LENGTH(16)"
  then have "i < 16" by simp
  then consider "i < 8" | "8 \<le> i" "i < 16" by linarith
  then show "bit (load16 (store16 w @ rest)) i = bit w i"
    by cases (simp_all add: load16_def store16_def bit_simps less_diff_conv2)
qed

lemma length_store [simp]: "length (store16 v) = 2" "length (store32 x) = 4" "length (store64 w) = 8" "length (store48 w) = 6"
  by (simp_all add: store16_def store32_def store64_def store48_def)

lemma bit_byte_ge [simp]: "8 \<le> n \<Longrightarrow> \<not> bit (x :: u8) n"
  by (auto dest: bit_imp_le_length)

lemma store64_load64:
  assumes "length p = 8"
  shows "store64 (load64 p) = p"
proof -
  obtain a b c d e f' g h where p: "p = [a, b, c, d, e, f', g, h]"
    using assms by (auto simp: eval_nat_numeral length_Suc_conv)
  show ?thesis unfolding p store64_def load64_def
    by (auto intro!: bit_eqI simp: bit_simps)
qed

section \<open>The streaming state\<close>

lemma length_memcpy_at: "off + length src \<le> length dst \<Longrightarrow> length (memcpy_at dst off src) = length dst"
  by (simp add: memcpy_at_def)

definition wf_state :: "blake2b_state \<Rightarrow> bool" where
  "wf_state S \<longleftrightarrow> length (buf S) = 128 \<and> buflen S \<le> 128 \<and> length (st_h S) = 8 \<and>
     length (st_t S) = 2 \<and> length (st_f S) = 2"

text \<open>Counter and compression neither read nor write the buffer.\<close>

definition with_buf :: "u8 list \<Rightarrow> nat \<Rightarrow> blake2b_state \<Rightarrow> blake2b_state" where
  "with_buf b n S = S\<lparr>buf := b, buflen := n\<rparr>"

lemma with_buf_step:
  "blake2b_increment_counter (with_buf b n S) inc = with_buf b n (blake2b_increment_counter S inc)"
  "blake2b_compress (with_buf b n S) block = with_buf b n (blake2b_compress S block)"
  by (simp_all add: with_buf_def blake2b_increment_counter_def blake2b_compress_def Let_def)

lemma with_buf_fields [simp]:
  "buf (with_buf b n S) = b" "buflen (with_buf b n S) = n" "st_h (with_buf b n S) = st_h S"
  "st_t (with_buf b n S) = st_t S" "st_f (with_buf b n S) = st_f S" "outlen (with_buf b n S) = outlen S"
  "last_node (with_buf b n S) = last_node S" "with_buf b' n' (with_buf b n S) = with_buf b' n' S"
  by (simp_all add: with_buf_def)

lemma buf_step [simp]:
  "buf (blake2b_increment_counter S inc) = buf S" "buflen (blake2b_increment_counter S inc) = buflen S"
  "buf (blake2b_compress S block) = buf S" "buflen (blake2b_compress S block) = buflen S"
  by (simp_all add: blake2b_increment_counter_def blake2b_compress_def Let_def)

lemma update_loop_with_buf:
  "blake2b_update_loop (with_buf b n S) inp =
    (with_buf b n (fst (blake2b_update_loop S inp)), snd (blake2b_update_loop S inp))"
proof (induction S inp rule: blake2b_update_loop.induct)
  case (1 S inp)
  show ?case
    using 1 blake2b_update_loop.simps [of "with_buf b n S" inp] blake2b_update_loop.simps [of S inp]
    by (simp add: with_buf_step Let_def)
qed

lemma update_loop_buf:
  "buf (fst (blake2b_update_loop S inp)) = buf S" "buflen (fst (blake2b_update_loop S inp)) = buflen S"
proof (induction S inp rule: blake2b_update_loop.induct)
  case (1 S inp)
  case 1
  then show ?case using "1.IH"(1) blake2b_update_loop.simps [of S inp] by (simp add: Let_def)
  case 2
  then show ?case using "1.IH"(2) blake2b_update_loop.simps [of S inp] by (simp add: Let_def)
qed

lemma update_loop_short: "length inp \<le> 128 \<Longrightarrow> blake2b_update_loop S inp = (S, inp)"
  by (simp add: blake2b_update_loop.simps [of S inp] BLAKE2B_BLOCKBYTES_def)

lemma update_loop_length: "length (snd (blake2b_update_loop S inp)) \<le> 128"
proof (induction S inp rule: blake2b_update_loop.induct)
  case (1 S inp)
  then show ?case
    by (simp add: blake2b_update_loop.simps [of S inp] Let_def BLAKE2B_BLOCKBYTES_def)
qed

text \<open>The abstraction: the state without its buffer, and the bytes that are waiting in it.\<close>

definition pending :: "blake2b_state \<Rightarrow> blake2b_state \<times> u8 list" where
  "pending S = (with_buf [] 0 S, take (buflen S) (buf S))"

lemma length_steps:
  "length (st_h (blake2b_compress S block)) = 8" "length (st_t (blake2b_compress S block)) = length (st_t S)"
  "length (st_f (blake2b_compress S block)) = length (st_f S)"
  "length (st_h (blake2b_increment_counter S inc)) = length (st_h S)"
  "length (st_t (blake2b_increment_counter S inc)) = length (st_t S)"
  "length (st_f (blake2b_increment_counter S inc)) = length (st_f S)"
  by (simp_all add: blake2b_compress_def blake2b_increment_counter_def Let_def)

lemma update_loop_lengths:
  "length (st_h S) = 8 \<Longrightarrow> length (st_h (fst (blake2b_update_loop S inp))) = 8 \<and>
   length (st_t (fst (blake2b_update_loop S inp))) = length (st_t S) \<and>
   length (st_f (fst (blake2b_update_loop S inp))) = length (st_f S)"
proof (induction S inp rule: blake2b_update_loop.induct)
  case (1 S inp)
  then show ?case
    by (cases "length inp > BLAKE2B_BLOCKBYTES")
      (simp_all add: blake2b_update_loop.simps [of S inp] Let_def length_steps)
qed

lemma update_refines:
  assumes wf: "wf_state S"
  shows "\<exists>S'. blake2b_update S inp = (0, S') \<and> wf_state S' \<and>
    pending S' = blake2b_update_loop (fst (pending S)) (snd (pending S) @ inp)"
proof -
  let ?p = "take (buflen S) (buf S)" and ?n = "buflen S"
  have lp: "length ?p = ?n" "?n \<le> 128" using wf by (simp_all add: wf_state_def)
  consider "inp = []" | "inp \<noteq> []" "length inp \<le> 128 - ?n" | "128 - ?n < length inp" by linarith
  then show ?thesis
  proof cases
    case 1
    then show ?thesis using wf lp update_loop_short [of ?p "with_buf [] 0 S"]
      by (simp add: blake2b_update_def pending_def)
  next
    case 2
    define S' where "S' = S\<lparr>buf := memcpy_at (buf S) ?n inp, buflen := ?n + length inp\<rparr>"
    have "blake2b_update S inp = (0, S')"
      using 2 by (simp add: blake2b_update_def Let_def BLAKE2B_BLOCKBYTES_def S'_def)
    moreover have "?n + length inp \<le> 128" using 2 lp by linarith
    then have "wf_state S'" using wf by (simp add: wf_state_def S'_def length_memcpy_at)
    moreover have "pending S' = (with_buf [] 0 S, ?p @ inp)"
      using wf by (simp add: pending_def S'_def memcpy_at_def with_buf_def wf_state_def)
    moreover have "blake2b_update_loop (with_buf [] 0 S) (?p @ inp) = (with_buf [] 0 S, ?p @ inp)"
      using 2 lp by (intro update_loop_short) simp
    ultimately show ?thesis by (simp add: pending_def)
  next
    case 3
    let ?fill = "128 - ?n"
    define b1 where "b1 = memcpy_at (buf S) ?n (take ?fill inp)"
    define S1 where "S1 = blake2b_compress (blake2b_increment_counter (with_buf b1 0 S) 128) b1"
    obtain S2 rest where l: "blake2b_update_loop S1 (drop ?fill inp) = (S2, rest)" by fastforce
    define S' where "S' = S2\<lparr>buf := memcpy_at (buf S2) 0 rest, buflen := length rest\<rparr>"
    have b1: "b1 = ?p @ take ?fill inp" "length b1 = 128"
      using wf 3 by (simp_all add: b1_def memcpy_at_def wf_state_def)
    have wb: "with_buf b1 0 S = S\<lparr>buflen := 0, buf := b1\<rparr>" by (simp add: with_buf_def)
    have S2: "buf S2 = b1" "buflen S2 = 0"
      using update_loop_buf [of S1 "drop ?fill inp"] unfolding l by (simp_all add: S1_def)
    have "blake2b_update S inp = (0, S')"
      using 3 S2 by (auto simp: blake2b_update_def Let_def BLAKE2B_BLOCKBYTES_def S'_def b1_def [symmetric]
          wb [symmetric] S1_def [symmetric] l)
    moreover have lr: "length rest \<le> 128" using update_loop_length [of S1 "drop ?fill inp"] l by simp
    moreover have "wf_state S'"
      using lr b1 S2 update_loop_lengths [of S1 "drop ?fill inp", unfolded l] wf
      by (simp add: wf_state_def S'_def length_memcpy_at S1_def length_steps)
    moreover have "blake2b_update_loop (with_buf [] 0 S) (?p @ inp) = pending S'"
    proof -
      have gt: "128 < ?n + length inp" using 3 by linarith
      have "blake2b_update_loop (with_buf [] 0 S) (?p @ inp) =
          blake2b_update_loop (with_buf [] 0 S1) (drop ?fill inp)"
        using gt lp b1(1)
        by (subst blake2b_update_loop.simps) (simp add: BLAKE2B_BLOCKBYTES_def S1_def with_buf_step Let_def)
      also have "\<dots> = (with_buf [] 0 S2, rest)" by (simp add: update_loop_with_buf l)
      also have "\<dots> = pending S'" using lr by (simp add: pending_def S'_def with_buf_def memcpy_at_def)
      finally show ?thesis .
    qed
    ultimately show ?thesis by (simp add: pending_def [of S])
  qed
qed

lemma update_loop_append:
  "blake2b_update_loop (fst (blake2b_update_loop S x)) (snd (blake2b_update_loop S x) @ y) =
   blake2b_update_loop S (x @ y)"
proof (induction S x rule: blake2b_update_loop.induct)
  case (1 S x)
  show ?case
  proof (cases "length x > 128")
    case True
    then show ?thesis
      using 1 blake2b_update_loop.simps [of S x] blake2b_update_loop.simps [of S "x @ y"]
      by (simp add: BLAKE2B_BLOCKBYTES_def Let_def)
  next
    case False
    then show ?thesis by (simp add: update_loop_short)
  qed
qed

text \<open>Any number of updates, one after the other.\<close>

definition updates :: "blake2b_state \<Rightarrow> u8 list list \<Rightarrow> blake2b_state" where
  "updates S chunks = foldl (\<lambda>S x. snd (blake2b_update S x)) S chunks"

interpretation blake2b_stream: byte_stream "\<lambda>S x. snd (blake2b_update S x)" wf_state pending
  "\<lambda>c x. blake2b_update_loop (fst c) (snd c @ x)"
proof unfold_locales
  fix S x
  assume "wf_state S"
  then show "wf_state (snd (blake2b_update S x))"
    "pending (snd (blake2b_update S x)) = blake2b_update_loop (fst (pending S)) (snd (pending S) @ x)"
    "blake2b_update_loop (fst (pending S)) (snd (pending S) @ []) = pending S"
    using update_refines [of S x] by (auto simp: pending_def update_loop_short wf_state_def)
qed (use update_loop_append in simp)

lemmas updates_refines = blake2b_stream.inv_chunks [folded updates_def]
  blake2b_stream.view_chunks [folded updates_def]

section \<open>The hash of RFC 7693\<close>

text \<open>The mixing function, the compression function \<open>F\<close> and the hash as the RFC states them.\<close>

definition rfc_mix :: "nat \<Rightarrow> nat \<Rightarrow> nat \<Rightarrow> nat \<Rightarrow> u64 \<Rightarrow> u64 \<Rightarrow> u64 list \<Rightarrow> u64 list" where
  "rfc_mix a b c d x y v =
     (let v = v[a := v ! a + v ! b + x];
          v = v[d := rotr64 (v ! d XOR v ! a) 32];
          v = v[c := v ! c + v ! d];
          v = v[b := rotr64 (v ! b XOR v ! c) 24];
          v = v[a := v ! a + v ! b + y];
          v = v[d := rotr64 (v ! d XOR v ! a) 16];
          v = v[c := v ! c + v ! d]
      in v[b := rotr64 (v ! b XOR v ! c) 63])"

definition rfc_round :: "u64 list \<Rightarrow> nat \<Rightarrow> u64 list \<Rightarrow> u64 list" where
  "rfc_round m i v =
     (let s = blake2b_sigma ! (i mod 10);
          v = rfc_mix 0 4 8 12 (m ! (s ! 0)) (m ! (s ! 1)) v;
          v = rfc_mix 1 5 9 13 (m ! (s ! 2)) (m ! (s ! 3)) v;
          v = rfc_mix 2 6 10 14 (m ! (s ! 4)) (m ! (s ! 5)) v;
          v = rfc_mix 3 7 11 15 (m ! (s ! 6)) (m ! (s ! 7)) v;
          v = rfc_mix 0 5 10 15 (m ! (s ! 8)) (m ! (s ! 9)) v;
          v = rfc_mix 1 6 11 12 (m ! (s ! 10)) (m ! (s ! 11)) v;
          v = rfc_mix 2 7 8 13 (m ! (s ! 12)) (m ! (s ! 13)) v
      in rfc_mix 3 4 9 14 (m ! (s ! 14)) (m ! (s ! 15)) v)"

definition rfc_F :: "u64 list \<Rightarrow> u8 list \<Rightarrow> nat \<Rightarrow> bool \<Rightarrow> u64 list" where
  "rfc_F h block n final =
     (let m = map (\<lambda>i. load64 (drop (8 * i) block)) [0..<16];
          v = h @ blake2b_IV;
          v = v[12 := v ! 12 XOR of_nat n];
          v = v[13 := v ! 13 XOR of_nat (n div 2 ^ 64)];
          v = (if final then v[14 := NOT (v ! 14)] else v);
          v = fold (rfc_round m) [0..<12] v
      in map (\<lambda>i. h ! i XOR v ! i XOR v ! (i + 8)) [0..<8])"

function rfc_blocks :: "u64 list \<Rightarrow> nat \<Rightarrow> u8 list \<Rightarrow> u64 list" where
  "rfc_blocks h off d =
     (if length d > 128 then rfc_blocks (rfc_F h (take 128 d) (off + 128) False) (off + 128) (drop 128 d)
      else rfc_F h (d @ replicate (128 - length d) 0) (off + length d) True)"
  by pat_completeness auto

termination
  by (relation "measure (\<lambda>(h, off, d). length d)") auto

declare rfc_blocks.simps [simp del]

definition rfc_blake2b :: "nat \<Rightarrow> u8 list \<Rightarrow> u8 list \<Rightarrow> u8 list" where
  "rfc_blake2b nn key msg =
     (let h = blake2b_IV[0 := blake2b_IV ! 0 XOR 0x01010000 XOR push_bit 8 (of_nat (length key)) XOR of_nat nn];
          d = (if key = [] then [] else key @ replicate (128 - length key) 0) @ msg
      in take nn (concat (map store64 (rfc_blocks h 0 d))))"

section \<open>The code computes it\<close>

lemma G_mix: "G m r i a b c d v = rfc_mix a b c d (m ! (blake2b_sigma ! r ! (2 * i + 0))) (m ! (blake2b_sigma ! r ! (2 * i + 1))) v"
  by (simp add: G_def rfc_mix_def)

lemma sigma_mod: "r < 12 \<Longrightarrow> blake2b_sigma ! (r mod 10) = blake2b_sigma ! r"
proof -
  assume "r < 12"
  then consider "r < 10" | "r = 10" | "r = 11" by linarith
  then show ?thesis by cases (simp_all add: blake2b_sigma_def)
qed

lemma ROUND_rfc: "r < 12 \<Longrightarrow> ROUND m r v = rfc_round m r v"
  by (simp add: ROUND_def rfc_round_def G_mix sigma_mod Let_def)

lemma fold_12: "fold f [0..<12] v = f 11 (f 10 (f 9 (f 8 (f 7 (f 6 (f 5 (f 4 (f 3 (f 2 (f (Suc 0) (f 0 v)))))))))))"
  by (simp add: upt_rec eval_nat_numeral)

definition counter_words :: "nat \<Rightarrow> u64 list" where
  "counter_words n = [of_nat n, of_nat (n div 2 ^ 64)]"

lemma compress_rfc:
  assumes "length (st_h S) = 8" "st_t S = counter_words n" "st_f S = [if final then - 1 else 0, 0]"
  shows "st_h (blake2b_compress S block) = rfc_F (st_h S) block n final"
proof -
  let ?v = "map (\<lambda>i. st_h S ! i) [0..<8] @
            [blake2b_IV ! 0, blake2b_IV ! 1, blake2b_IV ! 2, blake2b_IV ! 3,
             blake2b_IV ! 4 XOR st_t S ! 0, blake2b_IV ! 5 XOR st_t S ! 1,
             blake2b_IV ! 6 XOR st_f S ! 0, blake2b_IV ! 7 XOR st_f S ! 1]"
  let ?w = "(st_h S @ blake2b_IV)[12 := (st_h S @ blake2b_IV) ! 12 XOR of_nat n]"
  let ?x = "?w[13 := ?w ! 13 XOR of_nat (n div 2 ^ 64)]"
  have h: "map (\<lambda>i. st_h S ! i) [0..<8] = st_h S" using assms(1) by (metis map_nth)
  have v: "?v = (if final then ?x[14 := NOT (?x ! 14)] else ?x)"
    unfolding h using assms
    by (simp add: blake2b_IV_def counter_words_def nth_append list_update_append not_eq_complement [symmetric]
        split: nat.splits)
  show ?thesis
    unfolding blake2b_compress_def rfc_F_def Let_def fold_12 v
    by (simp add: ROUND_rfc mult.commute)
qed

lemma increment_counter_words:
  assumes "st_t S = counter_words n" "k < 2 ^ 64"
  shows "st_t (blake2b_increment_counter S (of_nat k)) = counter_words (n + k)"
proof -
  let ?B = "18446744073709551616 :: nat"
  have k: "k < ?B" using assms(2) by simp
  have r: "n mod ?B < ?B" by simp
  have uk: "unat (of_nat k :: u64) = k" using k by (simp add: unat_of_nat)
  have un: "unat (of_nat (n + k) :: u64) = (n mod ?B + k) mod ?B" by (simp add: unat_of_nat mod_add_left_eq del: of_nat_add)
  have carry: "(of_nat (n + k) :: u64) < of_nat k \<longleftrightarrow> ?B \<le> n mod ?B + k"
  proof (cases "n mod ?B + k < ?B")
    case True
    then show ?thesis unfolding word_less_nat_alt uk un by simp
  next
    case False
    then have "(n mod ?B + k) mod ?B = n mod ?B + k - ?B" using k r by (subst le_mod_geq) simp_all
    then show ?thesis using False r k unfolding word_less_nat_alt uk un by linarith
  qed
  have "(n + k) div ?B = n div ?B + (n mod ?B + k) div ?B"
    using div_mult_self1 [of ?B "n mod ?B + k" "n div ?B"] by (simp add: add.commute add.left_commute)
  also have "(n mod ?B + k) div ?B = of_bool (?B \<le> n mod ?B + k)"
  proof (cases "n mod ?B + k < ?B")
    case False
    then have "(n mod ?B + k) div ?B = 1" using k r by (intro div_nat_eqI) simp_all
    then show ?thesis using False by simp
  qed simp
  finally have d: "(n + k) div ?B = n div ?B + of_bool (?B \<le> n mod ?B + k)" .
  show ?thesis
    using assms(1) carry by (simp add: blake2b_increment_counter_def counter_words_def d)
qed

text \<open>What \<open>blake2b_final\<close> does to the state and the waiting bytes.\<close>

definition finish :: "blake2b_state \<times> u8 list \<Rightarrow> blake2b_state" where
  "finish = (\<lambda>(S, p). blake2b_compress (blake2b_set_lastblock (blake2b_increment_counter S (of_nat (length p))))
     (p @ replicate (128 - length p) 0))"

lemma set_lastblock_with_buf: "blake2b_set_lastblock (with_buf b n S) = with_buf b n (blake2b_set_lastblock S)"
  by (simp add: blake2b_set_lastblock_def blake2b_set_lastnode_def with_buf_def)

lemma set_lastblock_fields [simp]:
  "buf (blake2b_set_lastblock S) = buf S" "buflen (blake2b_set_lastblock S) = buflen S"
  "outlen (blake2b_set_lastblock S) = outlen S" "st_h (blake2b_set_lastblock S) = st_h S"
  "st_t (blake2b_set_lastblock S) = st_t S"
  by (simp_all add: blake2b_set_lastblock_def blake2b_set_lastnode_def Let_def)

lemma outlen_step [simp]:
  "outlen (blake2b_increment_counter S inc) = outlen S" "outlen (blake2b_compress S block) = outlen S"
  "st_f (blake2b_increment_counter S inc) = st_f S" "st_h (blake2b_increment_counter S inc) = st_h S"
  "st_t (blake2b_compress S block) = st_t S" "st_f (blake2b_compress S block) = st_f S"
  "last_node (blake2b_increment_counter S inc) = last_node S" "last_node (blake2b_compress S block) = last_node S"
  by (simp_all add: blake2b_increment_counter_def blake2b_compress_def Let_def)

definition digest :: "blake2b_state \<Rightarrow> u8 list" where
  "digest S = take (outlen S) (concat (map store64 (st_h S)))"

lemma final_result:
  assumes wf: "wf_state S"
  shows "\<exists>S'. blake2b_final S (Some dst) n =
    (if n < outlen S \<or> st_f S ! 0 \<noteq> 0 then (- 1, S, Some dst)
     else (0, S', Some (memcpy_at dst 0 (digest (finish (pending S)))))) \<and>
     (st_f S' ! 0 \<noteq> 0)"
proof (cases "n < outlen S \<or> st_f S ! 0 \<noteq> 0")
  case True
  then show ?thesis
    by (intro exI [of _ "blake2b_init0\<lparr>st_f := [1]\<rparr>"]) (auto simp: blake2b_final_def blake2b_is_lastblock_def)
next
  case False
  let ?n = "buflen S"
  define S1 where "S1 = blake2b_set_lastblock (blake2b_increment_counter S (of_nat ?n))"
  define b where "b = memcpy_at (buf S) ?n (replicate (128 - ?n) 0)"
  define S2 where "S2 = blake2b_compress (S1\<lparr>buf := b\<rparr>) b"
  have b: "b = take ?n (buf S) @ replicate (128 - ?n) 0"
    using wf by (simp add: b_def memcpy_at_def wf_state_def)
  have l: "min (length (buf S)) ?n = ?n" using wf by (simp add: wf_state_def)
  have "finish (pending S) = with_buf [] 0 (blake2b_compress S1 b)"
    by (simp add: finish_def pending_def l with_buf_step set_lastblock_with_buf S1_def b)
  moreover have "S2 = with_buf b ?n (blake2b_compress S1 b)"
    by (simp add: S2_def with_buf_def S1_def with_buf_step(2) [unfolded with_buf_def] blake2b_compress_def Let_def)
  ultimately have d: "digest (finish (pending S)) = digest S2" by (simp add: digest_def)
  have "length (st_h S2) = 8" by (simp add: S2_def blake2b_compress_def Let_def)
  then have m: "map (\<lambda>i. store64 (st_h S2 ! i)) [0..<8] = map store64 (st_h S2)"
    by (intro nth_equalityI) simp_all
  have o1: "outlen S1 = outlen S" by (simp add: S1_def)
  have f: "st_f S2 ! 0 \<noteq> 0"
    using wf by (simp add: S2_def S1_def blake2b_set_lastblock_def blake2b_set_lastnode_def wf_state_def Let_def)
  have "blake2b_final S (Some dst) n = (0, S2, Some (memcpy_at dst 0 (digest S2)))"
    using False by (simp add: blake2b_final_def blake2b_is_lastblock_def Let_def BLAKE2B_BLOCKBYTES_def
        S1_def [symmetric] S2_def b_def m [unfolded S2_def b_def] digest_def o1)
  then show ?thesis using False d f by auto
qed

lemma finish_rfc:
  "length (st_h S) = 8 \<Longrightarrow> st_t S = counter_words off \<Longrightarrow> st_f S = [0, 0] \<Longrightarrow> last_node S = 0 \<Longrightarrow>
   st_h (finish (blake2b_update_loop S d)) = rfc_blocks (st_h S) off d"
proof (induction S d arbitrary: off rule: blake2b_update_loop.induct)
  case (1 S d)
  show ?case
  proof (cases "length d > 128")
    case True
    let ?S = "blake2b_compress (blake2b_increment_counter S (of_nat 128)) (take 128 d)"
    have c: "st_t (blake2b_increment_counter S (of_nat 128)) = counter_words (off + 128)"
      by (rule increment_counter_words [OF "1.prems"(2)]) simp
    have "st_h (finish (blake2b_update_loop ?S (drop 128 d))) = rfc_blocks (st_h ?S) (off + 128) (drop 128 d)"
      using "1.IH" [OF _ refl refl, of "off + 128"] True "1.prems" c length_steps(1)
      by (simp add: BLAKE2B_BLOCKBYTES_def)
    moreover have "st_h ?S = rfc_F (st_h S) (take 128 d) (off + 128) False"
      using compress_rfc [of "blake2b_increment_counter S (of_nat 128)" "off + 128" False] "1.prems" c by simp
    ultimately show ?thesis
      using True by (simp add: blake2b_update_loop.simps [of S d] rfc_blocks.simps [of "st_h S"] BLAKE2B_BLOCKBYTES_def Let_def)
  next
    case False
    let ?S = "blake2b_set_lastblock (blake2b_increment_counter S (of_nat (length d)))"
    have c: "st_t (blake2b_increment_counter S (of_nat (length d))) = counter_words (off + length d)"
      by (rule increment_counter_words [OF "1.prems"(2)]) (use False in simp)
    have "st_f ?S = [- 1, 0]" using "1.prems" by (simp add: blake2b_set_lastblock_def)
    then have "st_h (blake2b_compress ?S (d @ replicate (128 - length d) 0)) =
        rfc_F (st_h S) (d @ replicate (128 - length d) 0) (off + length d) True"
      using compress_rfc [of ?S "off + length d" True] "1.prems" c by simp
    then show ?thesis
      using False by (simp add: update_loop_short finish_def rfc_blocks.simps [of "st_h S"])
  qed
qed

section \<open>Initialisation and the one-call hash\<close>

definition plain_param :: "nat \<Rightarrow> nat \<Rightarrow> blake2b_param" where
  "plain_param nn kk =
     \<lparr>digest_length = of_nat nn, key_length = of_nat kk, fanout = 1, depth = 1,
      leaf_length = store32 0, node_offset = store32 0, xof_length = store32 0,
      node_depth = 0, inner_length = 0, reserved = replicate 14 0,
      salt = replicate BLAKE2B_SALTBYTES 0, personal = replicate BLAKE2B_PERSONALBYTES 0\<rparr>"

lemma plain_param_bytes:
  "param_bytes (plain_param nn kk) = [of_nat nn, of_nat kk, 1, 1] @ replicate 60 0"
proof -
  have "[0, 0] = replicate 2 (0 :: u8)" "[0, 0, 0, 0] = replicate 4 (0 :: u8)"
    by (simp_all add: eval_nat_numeral)
  then show ?thesis
    by (simp add: param_bytes_def plain_param_def store32_def blake2b_constant flip: replicate_add append_assoc)
qed

lemma load64_zeros: "8 \<le> n \<Longrightarrow> load64 (replicate n 0) = 0"
  by (simp add: load64_def)

lemma load64_first:
  "load64 ([a, b, 1, 1] @ replicate 60 0) = 0x01010000 XOR push_bit 8 (ucast b) XOR ucast a"
proof -
  define k where "k = (0x01010000 :: u64)"
  have "k = push_bit 24 1 OR push_bit 16 1" by (simp add: k_def)
  then have nb: "bit k i \<longleftrightarrow> i = 16 \<or> i = 24" for i
    by (simp only: bit_or_iff bit_push_bit_iff) (auto simp: bit_1_iff)
  have z: "load64 ([a, b, 1, 1] @ replicate 60 0) = ucast a OR push_bit 8 (ucast b) OR k"
    by (simp add: load64_def nth_append k_def or.assoc)
  show ?thesis
    unfolding z k_def [symmetric] by (rule bit_word_eqI)
      (auto simp: nb bit_xor_iff bit_or_iff bit_push_bit_iff bit_unsigned_iff bit_1_iff dest: bit_imp_le_length)
qed

lemma init_param_state:
  assumes "nn < 256" "kk < 256"
  shows "blake2b_init_param (plain_param nn kk) =
    (0, \<lparr>st_h = blake2b_IV[0 := blake2b_IV ! 0 XOR 0x01010000 XOR push_bit 8 (of_nat kk) XOR of_nat nn],
         st_t = [0, 0], st_f = [0, 0], buf = replicate 128 0, buflen = 0, outlen = nn, last_node = 0\<rparr>)"
proof -
  have u: "(ucast (of_nat n :: u8) :: u64) = of_nat n" "unat (of_nat n :: u8) = n" if "n < 256" for n
    using that by (simp_all add: word_unat_eq_iff unsigned_ucast_eq unat_of_nat take_bit_nat_eq_self_iff)
  have up: "[0..<8] = [0, 1, 2, 3, 4, 5, 6, 7]" by (simp add: upt_rec eval_nat_numeral)
  have d: "load64 (drop (8 * i) ([a, b, 1, 1] @ replicate 60 0)) = 0" if "1 \<le> i" "i \<le> 7" for i a b
  proof -
    have "drop (8 * i) ([a, b, 1, 1] @ replicate 60 0) = replicate (64 - 8 * i) 0"
      using that by (simp only: drop_append drop_replicate) simp
    then show ?thesis using that by (simp only: load64_zeros)
  qed
  have "map (\<lambda>i. blake2b_IV ! i XOR load64 (drop (8 * i) (param_bytes (plain_param nn kk)))) [0..<8] =
    blake2b_IV[0 := blake2b_IV ! 0 XOR 0x01010000 XOR push_bit 8 (of_nat kk) XOR of_nat nn]"
    unfolding up plain_param_bytes list.map
    by (simp only: d mult_0_right drop_0 load64_first u(1) [OF assms(1)] u(1) [OF assms(2)])
       (simp add: d blake2b_IV_def xor.assoc)
  moreover have "map ((!) blake2b_IV) [0..<8] = blake2b_IV"
    by (rule nth_equalityI) (simp_all add: blake2b_IV_def)
  ultimately show ?thesis
    by (simp add: blake2b_init_param_def Let_def blake2b_init0_def BLAKE2B_BLOCKBYTES_def)
       (simp add: plain_param_def u(2) [OF assms(1)])
qed

text \<open>The state after initialisation, with the key block already in the buffer when there is a key.\<close>

definition start_h :: "nat \<Rightarrow> nat \<Rightarrow> u64 list" where
  "start_h nn kk = blake2b_IV[0 := blake2b_IV ! 0 XOR 0x01010000 XOR push_bit 8 (of_nat kk) XOR of_nat nn]"

definition started :: "nat \<Rightarrow> u8 list \<Rightarrow> blake2b_state \<Rightarrow> bool" where
  "started nn key S \<longleftrightarrow> wf_state S \<and> outlen S = nn \<and> st_f S = [0, 0] \<and>
     pending S = (\<lparr>st_h = start_h nn (length key), st_t = [0, 0], st_f = [0, 0], buf = [], buflen = 0,
        outlen = nn, last_node = 0\<rparr>, if key = [] then [] else key @ replicate (128 - length key) 0)"

lemma init_started:
  assumes "0 < nn" "nn \<le> 64"
  shows "\<exists>S. blake2b_init S0 nn = (0, S) \<and> started nn [] S"
proof -
  have "blake2b_init S0 nn = blake2b_init_param (plain_param nn 0)"
    using assms by (simp add: blake2b_init_def BLAKE2B_OUTBYTES_def plain_param_def)
  then show ?thesis
    using init_param_state [of nn 0] assms
    by (simp add: started_def wf_state_def pending_def with_buf_def start_h_def) (simp add: blake2b_IV_def)
qed

lemma init_key_started:
  assumes "0 < nn" "nn \<le> 64" "key \<noteq> []" "length key \<le> 64"
  shows "\<exists>S. blake2b_init_key S0 nn (Some key) (length key) = (0, S) \<and> started nn key S"
proof -
  obtain S where S: "blake2b_init_param (plain_param nn (length key)) = (0, S)"
    and S': "S = \<lparr>st_h = start_h nn (length key), st_t = [0, 0], st_f = [0, 0], buf = replicate 128 0,
      buflen = 0, outlen = nn, last_node = 0\<rparr>"
    using init_param_state [of nn "length key"] assms by (simp add: start_h_def)
  define block where "block = memcpy_at (replicate 128 0) 0 key"
  have block: "block = key @ replicate (128 - length key) 0" by (simp add: block_def memcpy_at_def)
  then have lb: "length block = 128" using assms(4) by simp
  have "wf_state S" by (simp add: S' wf_state_def start_h_def blake2b_IV_def)
  then obtain S2 where S2: "blake2b_update S block = (0, S2)" "wf_state S2"
    "pending S2 = blake2b_update_loop (fst (pending S)) (snd (pending S) @ block)"
    using update_refines by blast
  have p: "pending S2 = (with_buf [] 0 S, block)"
    unfolding S2(3) using lb by (simp add: pending_def S' update_loop_short)
  have "blake2b_init_key S0 nn (Some key) (length key) = (0, S2)"
    using assms S S2(1) by (simp add: blake2b_init_key_def BLAKE2B_OUTBYTES_def BLAKE2B_KEYBYTES_def
        BLAKE2B_BLOCKBYTES_def plain_param_def [symmetric] block_def [symmetric])
  moreover have "with_buf [] 0 S2 = with_buf [] 0 S" using p by (simp add: pending_def)
  from arg_cong [OF this, of outlen] arg_cong [OF this, of st_f]
  have "outlen S2 = nn" "st_f S2 = [0, 0]" by (simp_all add: S')
  ultimately show ?thesis
    using p S2(2) assms(3) block by (simp add: started_def with_buf_def S')
qed

text \<open>The digest of any sequence of updates after an initialisation.\<close>

lemma final_from:
  assumes wf: "wf_state S" and C: "pending S = (C, d)"
    and C0: "length (st_h C) = 8" "st_t C = [0, 0]" "st_f C = [0, 0]" "last_node C = 0" "outlen C \<le> n"
  shows "\<exists>S'. blake2b_final (updates S chunks) (Some dst) n =
      (0, S', Some (memcpy_at dst 0 (take (outlen C) (concat (map store64 (rfc_blocks (st_h C) 0 (d @ concat chunks))))))) \<and>
      st_f S' ! 0 \<noteq> 0"
proof -
  let ?T = "updates S chunks"
  have T: "wf_state ?T" "pending ?T = blake2b_update_loop C (d @ concat chunks)"
    using updates_refines [OF wf, of chunks] by (simp_all add: C)
  have keep: "outlen (fst (blake2b_update_loop A x)) = outlen A \<and> st_f (fst (blake2b_update_loop A x)) = st_f A" for A x
  proof (induction A x rule: blake2b_update_loop.induct)
    case (1 A x)
    then show ?case by (simp add: blake2b_update_loop.simps [of A x] Let_def)
  qed
  have fields: "outlen ?T = outlen (fst (pending ?T))" "st_f ?T = st_f (fst (pending ?T))"
    by (simp_all add: pending_def)
  have ok: "outlen ?T = outlen C" "st_f ?T = [0, 0]" unfolding fields T(2) using keep C0 by simp_all
  have "st_t C = counter_words 0" by (simp add: C0 counter_words_def)
  from finish_rfc [OF C0(1) this C0(3,4)]
  have h: "st_h (finish (pending ?T)) = rfc_blocks (st_h C) 0 (d @ concat chunks)" unfolding T(2) .
  have "outlen (finish (pending ?T)) = outlen C"
    using ok(1) by (simp add: finish_def pending_def split: prod.splits)
  then show ?thesis using final_result [OF T(1), of dst n] ok C0(5) h by (auto simp: digest_def)
qed

lemma streaming_rfc:
  assumes "started nn key S" "nn \<le> n"
  shows "\<exists>S'. blake2b_final (updates S chunks) (Some dst) n =
      (0, S', Some (memcpy_at dst 0 (rfc_blake2b nn key (concat chunks)))) \<and> st_f S' ! 0 \<noteq> 0"
proof -
  have wf: "wf_state S" using assms(1) by (simp add: started_def)
  have "length (start_h nn (length key)) = 8" by (simp add: start_h_def blake2b_IV_def)
  then show ?thesis
    using final_from [OF wf, of _ _ n chunks dst] assms
    by (simp add: started_def rfc_blake2b_def start_h_def Let_def)
qed

lemma blake2b_rfc:
  assumes "0 < nn" "nn \<le> 64" "length key \<le> 64" "kp = Some key \<or> key = []"
  shows "blake2b S0 (Some dst) nn (Some msg) (length msg) kp (length key) =
    (0, Some (memcpy_at dst 0 (rfc_blake2b nn key msg)))"
proof -
  obtain S where S: "(if length key > 0 then blake2b_init_key S0 nn kp (length key) else blake2b_init S0 nn) = (0, S)"
    "started nn key S"
  proof (cases "key = []")
    case True
    then show ?thesis using that init_started [OF assms(1,2), of S0] by auto
  next
    case False
    then show ?thesis using that init_key_started [OF assms(1,2) False assms(3), of S0] assms(4) by auto
  qed
  obtain S' where S': "blake2b_final (updates S [msg]) (Some dst) nn =
      (0, S', Some (memcpy_at dst 0 (rfc_blake2b nn key (concat [msg]))))"
    using streaming_rfc [OF S(2) order_refl] by blast
  have kp: "\<not> (kp = None \<and> length key > 0)" using assms(4) by auto
  obtain r U where U: "blake2b_update S msg = (r, U)" by fastforce
  show ?thesis
    using S(1) S' kp assms by (simp add: blake2b_def BLAKE2B_OUTBYTES_def BLAKE2B_KEYBYTES_def U updates_def)
qed

section \<open>Properties\<close>

text \<open>
  C28. The one-call \<open>blake2b\<close> is the hash of RFC 7693: for a digest of 1 to 64 bytes, a key of at
  most 64 bytes and any message it returns 0 and writes exactly the digest at the start of the
  output buffer.
\<close>

theorem blake2b_is_rfc7693:
  assumes "0 < nn" "nn \<le> 64" "length key \<le> 64" "kp = Some key \<or> key = []"
  shows "blake2b S0 (Some dst) nn (Some msg) (length msg) kp (length key) =
    (0, Some (memcpy_at dst 0 (rfc_blake2b nn key msg)))"
  using assms by (rule blake2b_rfc)

theorem blake2b_is_rfc7693_witness:
  "blake2b blake2b_init0 (Some (replicate 64 0)) 64 (Some [97, 98, 99]) (length [97 :: u8, 98, 99]) None (length ([] :: u8 list)) =
    (0, Some (memcpy_at (replicate 64 0) 0 (rfc_blake2b 64 [] [97, 98, 99])))"
  by (rule blake2b_is_rfc7693) simp_all

text \<open>
  C29. The streaming interface gives the same digest however the message is cut: after
  \<open>blake2b_init\<close> or \<open>blake2b_init_key\<close>, any sequence of updates, empty ones too, and a final into a
  buffer that is announced as long enough write the RFC's digest of the concatenation. A second
  final returns \<open>-1\<close> and changes neither the state nor the buffer.
\<close>

theorem blake2b_streaming:
  assumes "0 < nn" "nn \<le> 64" "length key \<le> 64" "nn \<le> n"
  shows "\<exists>S S'.
    (if key = [] then blake2b_init S0 nn else blake2b_init_key S0 nn (Some key) (length key)) = (0, S) \<and>
    blake2b_final (updates S chunks) (Some dst) n =
      (0, S', Some (memcpy_at dst 0 (rfc_blake2b nn key (concat chunks)))) \<and>
    blake2b_final S' (Some dst') n' = (- 1, S', Some dst')"
proof -
  obtain S where S: "(if key = [] then blake2b_init S0 nn else blake2b_init_key S0 nn (Some key) (length key)) = (0, S)"
    "started nn key S"
    using init_started [OF assms(1,2), of S0] init_key_started [OF assms(1,2) _ assms(3), of S0] by metis
  obtain S' where f: "blake2b_final (updates S chunks) (Some dst) n =
      (0, S', Some (memcpy_at dst 0 (rfc_blake2b nn key (concat chunks))))" "st_f S' ! 0 \<noteq> 0"
    using streaming_rfc [OF S(2) assms(4)] by blast
  from this(2) have "blake2b_final S' (Some dst') n' = (- 1, S', Some dst')"
    by (simp add: blake2b_final_def blake2b_is_lastblock_def)
  with S(1) f(1) show ?thesis by blast
qed

theorem blake2b_streaming_witness:
  "\<exists>S S'.
    (if [7 :: u8] = [] then blake2b_init blake2b_init0 32 else blake2b_init_key blake2b_init0 32 (Some [7]) (length [7 :: u8])) = (0, S) \<and>
    blake2b_final (updates S [[1, 2], [], [3]]) (Some (replicate 32 0)) 32 =
      (0, S', Some (memcpy_at (replicate 32 0) 0 (rfc_blake2b 32 [7] (concat [[1, 2], [], [3]])))) \<and>
    blake2b_final S' (Some []) 0 = (- 1, S', Some [])"
  by (rule blake2b_streaming) simp_all

end
