(* ===== verification/Blake2xb.thy ===== *)
theory Blake2xb
  imports Blake2b
begin

unbundle bit_operations_syntax

text \<open>
  BLAKE2Xb, the extensible-output version: \<open>blake2xb.c\<close> of
  \<open>heu/library/algorithms/seal_gpu/utils/\<close>. The conventions are those of \<open>Blake2b\<close>.
\<close>

section \<open>The functions of the code\<close>

record blake2xb_state =
  xb_S :: blake2b_state
  xb_P :: blake2b_param

definition blake2xb_init_key ::
  "blake2xb_state \<Rightarrow> nat \<Rightarrow> u8 list option \<Rightarrow> nat \<Rightarrow> int \<times> blake2xb_state" where
  "blake2xb_init_key S out_len key keylen =
     (if out_len = 0 \<or> out_len > 0xFFFFFFFF then (- 1, S)
      else if key \<noteq> None \<and> keylen > BLAKE2B_KEYBYTES then (- 1, S)
      else if key = None \<and> keylen > 0 then (- 1, S)
      else
        let P = \<lparr>digest_length = of_nat BLAKE2B_OUTBYTES, key_length = of_nat keylen, fanout = 1,
              depth = 1, leaf_length = store32 0, node_offset = store32 0,
              xof_length = store32 (of_nat out_len), node_depth = 0, inner_length = 0,
              reserved = replicate 14 0, salt = replicate BLAKE2B_SALTBYTES 0,
              personal = replicate BLAKE2B_PERSONALBYTES 0\<rparr>;
            (r, root_S) = blake2b_init_param P
        in if r < 0 then (- 1, \<lparr>xb_S = root_S, xb_P = P\<rparr>)
           else let root_S = (case key of
                      Some key \<Rightarrow>
                        if keylen > 0 then
                          let block = replicate BLAKE2B_BLOCKBYTES 0;
                              block = memcpy_at block 0 (take keylen key)
                          in snd (blake2b_update root_S block)
                        else root_S
                    | None \<Rightarrow> root_S)
                in (0, \<lparr>xb_S = root_S, xb_P = P\<rparr>))"

definition blake2xb_init :: "blake2xb_state \<Rightarrow> nat \<Rightarrow> int \<times> blake2xb_state" where
  "blake2xb_init S out_len = blake2xb_init_key S out_len None 0"

definition blake2xb_update :: "blake2xb_state \<Rightarrow> u8 list \<Rightarrow> int \<times> blake2xb_state" where
  "blake2xb_update S inp =
     (let (r, root_S) = blake2b_update (xb_S S) inp in (r, S\<lparr>xb_S := root_S\<rparr>))"

text \<open>
  The loop that expands the root hash: the result is the return code and the output buffer. The
  pointer \<open>(uint8_t *)out + i * BLAKE2B_OUTBYTES\<close> is the rest of the buffer from there on.
\<close>

function blake2xb_final_loop :: "blake2b_param \<Rightarrow> u8 list \<Rightarrow> u8 list \<Rightarrow> nat \<Rightarrow> nat \<Rightarrow> int \<times> u8 list" where
  "blake2xb_final_loop P root out i out_len =
     (if out_len > 0 then
        let block_size = (if out_len < BLAKE2B_OUTBYTES then out_len else BLAKE2B_OUTBYTES);
            P = P\<lparr>digest_length := of_nat block_size\<rparr>;
            P = P\<lparr>node_offset := store32 (of_nat i)\<rparr>;
            (_, C) = blake2b_init_param P;
            (_, C) = blake2b_update C (take BLAKE2B_OUTBYTES root);
            (r, C, dst) = blake2b_final C (Some (drop (i * BLAKE2B_OUTBYTES) out)) block_size;
            out = take (i * BLAKE2B_OUTBYTES) out @ the dst
        in if r < 0 then (- 1, out)
           else blake2xb_final_loop P root out (i + 1) (out_len - block_size)
      else (0, out))"
  by pat_completeness auto

termination
  by (relation "measure (\<lambda>(P, root, out, i, out_len). out_len)") (auto simp: BLAKE2B_OUTBYTES_def)

declare blake2xb_final_loop.simps [simp del]

text \<open>\<open>root\<close> is uninitialised in the code; \<open>blake2b_final\<close> fills the 64 bytes that are read.\<close>

definition blake2xb_final ::
  "blake2xb_state \<Rightarrow> u8 list option \<Rightarrow> nat \<Rightarrow> int \<times> blake2xb_state \<times> u8 list option" where
  "blake2xb_final S out out_len =
     (let xof = load32 (xof_length (xb_P S)) in
      case out of None \<Rightarrow> (- 1, S, out)
      | Some dst \<Rightarrow>
        if xof = 0xFFFFFFFF \<and> out_len = 0 then (- 1, S, out)
        else if xof \<noteq> 0xFFFFFFFF \<and> out_len \<noteq> unat xof then (- 1, S, out)
        else
          let root = replicate BLAKE2B_BLOCKBYTES 0;
              (r, root_S, root') = blake2b_final (xb_S S) (Some root) BLAKE2B_OUTBYTES;
              S = S\<lparr>xb_S := root_S\<rparr>
          in if r < 0 then (- 1, S, out)
             else let P = xb_P S;
                      P = P\<lparr>key_length := 0\<rparr>;
                      P = P\<lparr>fanout := 0\<rparr>;
                      P = P\<lparr>depth := 0\<rparr>;
                      P = P\<lparr>leaf_length := store32 (of_nat BLAKE2B_OUTBYTES)\<rparr>;
                      P = P\<lparr>inner_length := of_nat BLAKE2B_OUTBYTES\<rparr>;
                      P = P\<lparr>node_depth := 0\<rparr>;
                      (r, dst) = blake2xb_final_loop P (the root') dst 0 out_len
                  in (r, S, Some dst))"

definition blake2xb :: "blake2xb_state \<Rightarrow> u8 list option \<Rightarrow> nat \<Rightarrow> u8 list option \<Rightarrow> nat \<Rightarrow>
    u8 list option \<Rightarrow> nat \<Rightarrow> int \<times> u8 list option" where
  "blake2xb stack_S out out_len inp inlen key keylen =
     (if inp = None \<and> inlen > 0 then (- 1, out)
      else if out = None then (- 1, out)
      else if key = None \<and> keylen > 0 then (- 1, out)
      else if keylen > BLAKE2B_KEYBYTES then (- 1, out)
      else if out_len = 0 then (- 1, out)
      else
        let (r, S) = blake2xb_init_key stack_S out_len key keylen
        in if r < 0 then (- 1, out)
           else let (r, S) = blake2xb_update S (case inp of None \<Rightarrow> [] | Some pin \<Rightarrow> take inlen pin);
                    (r, S, out) = blake2xb_final S out out_len
                in (r, out))"

section \<open>The hash of one parameter block\<close>

definition param_h :: "blake2b_param \<Rightarrow> u64 list" where
  "param_h P = map (\<lambda>i. blake2b_IV ! i XOR load64 (drop (8 * i) (param_bytes P))) [0..<8]"

definition hash_with :: "blake2b_param \<Rightarrow> u8 list \<Rightarrow> u8 list" where
  "hash_with P d = take (unat (digest_length P)) (concat (map store64 (rfc_blocks (param_h P) 0 d)))"

lemma init_param_any:
  "blake2b_init_param P = (0, \<lparr>st_h = param_h P, st_t = [0, 0], st_f = [0, 0], buf = replicate 128 0,
     buflen = 0, outlen = unat (digest_length P), last_node = 0\<rparr>)"
proof -
  have "map ((!) blake2b_IV) [0..<8] = blake2b_IV"
    by (rule nth_equalityI) (simp_all add: blake2b_IV_def)
  then show ?thesis
    by (simp add: blake2b_init_param_def Let_def blake2b_init0_def BLAKE2B_BLOCKBYTES_def param_h_def)
qed

lemma length_param_h [simp]: "length (param_h P) = 8"
  by (simp add: param_h_def)

lemma length_rfc_blocks [simp]: "length (rfc_blocks h off d) = 8"
proof (induction h off d rule: rfc_blocks.induct)
  case (1 h off d)
  then show ?case by (simp add: rfc_blocks.simps [of h off d] rfc_F_def Let_def)
qed

lemma length_concat_store64: "length (concat (map store64 ws)) = 8 * length ws"
  by (induction ws) simp_all

lemma length_hash_with: "unat (digest_length P) \<le> 64 \<Longrightarrow> length (hash_with P d) = unat (digest_length P)"
  by (simp add: hash_with_def length_concat_store64)

text \<open>A state of the parameter block \<open>P\<close> that has taken the bytes \<open>d\<close>.\<close>

definition hashing :: "blake2b_param \<Rightarrow> u8 list \<Rightarrow> blake2b_state \<Rightarrow> bool" where
  "hashing P d S \<longleftrightarrow> wf_state S \<and> (\<exists>d0 chunks S0. wf_state S0 \<and> S = updates S0 chunks \<and> d = d0 @ concat chunks \<and>
     pending S0 = (\<lparr>st_h = param_h P, st_t = [0, 0], st_f = [0, 0], buf = [], buflen = 0,
       outlen = unat (digest_length P), last_node = 0\<rparr>, d0))"

lemma hashing_init: "hashing P [] (snd (blake2b_init_param P))"
  unfolding hashing_def
proof (intro conjI exI)
  show "wf_state (snd (blake2b_init_param P))" by (simp add: init_param_any wf_state_def)
  then show "wf_state (snd (blake2b_init_param P))" .
  show "snd (blake2b_init_param P) = updates (snd (blake2b_init_param P)) []" by (simp add: updates_def)
qed (simp_all add: init_param_any pending_def with_buf_def)

lemma hashing_update: "hashing P d S \<Longrightarrow> hashing P (d @ x) (snd (blake2b_update S x))"
proof -
  assume h: "hashing P d S"
  then obtain d0 chunks S0 where S0: "wf_state S0" "S = updates S0 chunks" "d = d0 @ concat chunks"
    "pending S0 = (\<lparr>st_h = param_h P, st_t = [0, 0], st_f = [0, 0], buf = [], buflen = 0,
       outlen = unat (digest_length P), last_node = 0\<rparr>, d0)" by (auto simp: hashing_def)
  have "snd (blake2b_update S x) = updates S0 (chunks @ [x])" by (simp add: S0(2) updates_def)
  moreover have "wf_state (snd (blake2b_update S x))" using h update_refines [of S x] by (auto simp: hashing_def)
  ultimately show ?thesis using S0
    unfolding hashing_def by (intro conjI exI [of _ d0] exI [of _ "chunks @ [x]"] exI [of _ S0]) auto
qed

lemma hashing_final:
  assumes "hashing P d S" "unat (digest_length P) \<le> n"
  shows "\<exists>S'. blake2b_final S (Some dst) n = (0, S', Some (memcpy_at dst 0 (hash_with P d))) \<and> st_f S' ! 0 \<noteq> 0"
proof -
  obtain d0 chunks S0 where S0: "wf_state S0" "S = updates S0 chunks" "d = d0 @ concat chunks"
    "pending S0 = (\<lparr>st_h = param_h P, st_t = [0, 0], st_f = [0, 0], buf = [], buflen = 0,
       outlen = unat (digest_length P), last_node = 0\<rparr>, d0)" using assms(1) by (auto simp: hashing_def)
  show ?thesis using final_from [OF S0(1,4), of n chunks dst] assms(2) by (simp add: S0(2,3) hash_with_def)
qed

section \<open>The extensible output\<close>

text \<open>
  The specification of BLAKE2Xb: the root hash of the message, and block \<open>j\<close> of the output as the
  hash of the root hash under a parameter block that holds its number and its length.
\<close>

definition root_param :: "nat \<Rightarrow> nat \<Rightarrow> blake2b_param" where
  "root_param n kk = \<lparr>digest_length = 64, key_length = of_nat kk, fanout = 1, depth = 1,
     leaf_length = store32 0, node_offset = store32 0, xof_length = store32 (of_nat n), node_depth = 0,
     inner_length = 0, reserved = replicate 14 0, salt = replicate 16 0, personal = replicate 16 0\<rparr>"

definition xof_block :: "blake2b_param \<Rightarrow> u8 list \<Rightarrow> nat \<Rightarrow> nat \<Rightarrow> u8 list" where
  "xof_block P root n j =
     hash_with (P\<lparr>digest_length := of_nat (min 64 (n - 64 * j)), node_offset := store32 (of_nat j)\<rparr>) root"

definition block_param :: "blake2b_param \<Rightarrow> blake2b_param" where
  "block_param P = P\<lparr>key_length := 0, fanout := 0, depth := 0, leaf_length := store32 64,
     inner_length := 64, node_depth := 0\<rparr>"

definition xof_spec :: "nat \<Rightarrow> u8 list \<Rightarrow> u8 list \<Rightarrow> u8 list" where
  "xof_spec n key msg =
     (let P = root_param n (length key);
          root = hash_with P ((if key = [] then [] else key @ replicate (128 - length key) 0) @ msg)
      in concat (map (xof_block (block_param P) root n) [0..<(n + 63) div 64]))"

lemma unat_block_size: "m \<le> 64 \<Longrightarrow> unat (of_nat m :: u8) = m"
  by (simp add: unat_of_nat)

lemma length_xof_block: "length (xof_block P root n j) = min 64 (n - 64 * j)"
  by (simp add: xof_block_def length_hash_with unat_block_size)

lemma length_xof_spec: "length (xof_spec n key msg) = n"
proof -
  have "sum_list (map (\<lambda>j. min 64 (n - 64 * j)) [0..<k]) = min n (64 * k)" for k
    by (induction k) (auto simp: min_def)
  then show ?thesis by (simp add: xof_spec_def length_concat comp_def length_xof_block Let_def)
qed

text \<open>The loop writes the blocks one after the other and nothing past the requested length.\<close>

definition same_but_offset :: "blake2b_param \<Rightarrow> blake2b_param \<Rightarrow> bool" where
  "same_but_offset P Q \<longleftrightarrow> P\<lparr>digest_length := 0, node_offset := []\<rparr> = Q\<lparr>digest_length := 0, node_offset := []\<rparr>"

lemma same_but_offset_update:
  "same_but_offset P Q \<Longrightarrow> P\<lparr>digest_length := a, node_offset := b\<rparr> = Q\<lparr>digest_length := a, node_offset := b\<rparr>"
  by (cases P; cases Q) (simp add: same_but_offset_def)

lemma final_loop_blocks:
  "same_but_offset P Q \<Longrightarrow> length root \<ge> 64 \<Longrightarrow> 64 * i \<le> n \<Longrightarrow> n \<le> length out \<Longrightarrow>
   blake2xb_final_loop P root out i (n - 64 * i) =
     (0, take (64 * i) out @ concat (map (xof_block Q (take 64 root) n) [i..<(n + 63) div 64]) @ drop n out)"
proof (induction "n - 64 * i" arbitrary: P i out rule: less_induct)
  case less
  show ?case
  proof (cases "n = 64 * i")
    case True
    then have "(n + 63) div 64 = i" by linarith
    then show ?thesis using True by (simp add: blake2xb_final_loop.simps)
  next
    case False
    define bs where "bs = min 64 (n - 64 * i)"
    have bs: "0 < bs" "bs \<le> 64" "64 * i + bs \<le> n" using False less.prems(3) by (auto simp: bs_def)
    define P' where "P' = P\<lparr>digest_length := of_nat bs, node_offset := store32 (of_nat i)\<rparr>"
    have P': "P' = Q\<lparr>digest_length := of_nat bs, node_offset := store32 (of_nat i)\<rparr>" "same_but_offset P' Q"
    proof -
      show "P' = Q\<lparr>digest_length := of_nat bs, node_offset := store32 (of_nat i)\<rparr>"
        unfolding P'_def by (rule same_but_offset_update [OF less.prems(1)])
      then show "same_but_offset P' Q" by (simp add: same_but_offset_def)
    qed
    define blk where "blk = xof_block Q (take 64 root) n i"
    have blk: "blk = hash_with P' (take 64 root)" by (simp add: blk_def xof_block_def P'(1) bs_def)
    have lb: "length blk = bs" by (simp add: blk_def length_xof_block bs_def)
    obtain r1 C1 where C1: "blake2b_init_param P' = (r1, C1)" by fastforce
    obtain r2 C2 where C2: "blake2b_update C1 (take 64 root) = (r2, C2)" by fastforce
    have "hashing P' (take 64 root) C2"
      using hashing_update [OF hashing_init, of P' "take 64 root"] by (simp add: C1 C2)
    moreover have "unat (digest_length P') \<le> bs" using bs by (simp add: P'_def unat_block_size)
    ultimately obtain C' where C': "blake2b_final C2 (Some (drop (i * 64) out)) bs =
        (0, C', Some (memcpy_at (drop (i * 64) out) 0 blk))"
      unfolding blk using hashing_final by blast
    define out' where "out' = take (64 * i) out @ blk @ drop (64 * i + bs) out"
    have step: "blake2xb_final_loop P root out i (n - 64 * i) = blake2xb_final_loop P' root out' (i + 1) (n - 64 * i - bs)"
    proof -
      have c: "(if n - 64 * i < 64 then n - 64 * i else 64) = bs" by (auto simp: bs_def)
      have c2: "(0 < n - 64 * i) = True" "((0 :: int) < 0) = False" using False less.prems(3) by simp_all
      have o': "take (i * 64) out @ memcpy_at (drop (i * 64) out) 0 blk = out'"
        by (simp add: out'_def memcpy_at_def lb mult.commute add.commute)
      show ?thesis
        by (subst blake2xb_final_loop.simps)
          (simp only: BLAKE2B_OUTBYTES_def Let_def c c2 if_True if_False P'_def [symmetric] C1 C2 C' prod.case option.sel o')
    qed
    have lo: "length out' = length out" using less.prems(3,4) lb bs by (simp add: out'_def)
    have k: "[i..<(n + 63) div 64] = i # [i + 1..<(n + 63) div 64]"
    proof -
      have "i < (n + 63) div 64" using False less.prems(3) by linarith
      then show ?thesis by (simp add: upt_conv_Cons)
    qed
    have dn: "drop n out' = drop n out"
      using lb bs less.prems(3,4) by (auto simp: out'_def add.commute min_def)
    show ?thesis
    proof (cases "bs = 64")
      case True
      have i1: "64 * (i + 1) \<le> n" using True bs(3) by simp
      have m: "n - 64 * i - bs = n - 64 * (i + 1)" using True by simp
      have "n - 64 * (i + 1) < n - 64 * i" using i1 by (intro diff_less_mono2) simp_all
      from less.hyps [OF this P'(2) less.prems(2) i1, of out'] lo less.prems(4)
      have "blake2xb_final_loop P' root out' (i + 1) (n - 64 * (i + 1)) =
        (0, take (64 * (i + 1)) out' @ concat (map (xof_block Q (take 64 root) n) [i + 1..<(n + 63) div 64]) @ drop n out')"
        by simp
      moreover have "take (64 * (i + 1)) out' = take (64 * i) out @ blk"
        using lb True bs(3) less.prems(3,4) by (auto simp: out'_def min_def)
      ultimately show ?thesis unfolding step m k dn by (simp add: blk_def)
    next
      case False
      then have e: "bs = n - 64 * i" "n = 64 * i + bs" using less.prems(3) by (auto simp: bs_def min_def split: if_splits)
      have "(n + 63) div 64 = i + 1" using e bs False by linarith
      moreover have "blake2xb_final_loop P' root out' (i + 1) (n - 64 * i - bs) = (0, out')"
        using e by (subst blake2xb_final_loop.simps) simp
      ultimately show ?thesis unfolding step using e(2) by (simp add: out'_def blk_def)
    qed
  qed
qed

lemma memcpy_at_0: "memcpy_at dst 0 src = src @ drop (length src) dst"
  by (simp add: memcpy_at_def)

lemma blake2xb_init_key_hashing:
  assumes "0 < n" "n \<le> 0xFFFFFFFF" "length key \<le> 64" "kp = Some key \<or> key = [] \<and> kp = None"
  shows "\<exists>S. blake2xb_init_key S0 n kp (length key) = (0, S) \<and> xb_P S = root_param n (length key) \<and>
    hashing (root_param n (length key)) (if key = [] then [] else key @ replicate (128 - length key) 0) (xb_S S)"
proof -
  let ?P = "root_param n (length key)"
  obtain S1 where S1: "blake2b_init_param ?P = (0, S1)" by (simp add: init_param_any)
  have h1: "hashing ?P [] S1" using hashing_init [of ?P] S1 by simp
  have g: "(n = 0 \<or> n > 0xFFFFFFFF) = False" "(kp \<noteq> None \<and> length key > BLAKE2B_KEYBYTES) = False"
    "(kp = None \<and> length key > 0) = False"
    using assms by (auto simp: BLAKE2B_KEYBYTES_def)
  define block where "block = memcpy_at (replicate 128 0) 0 (take (length key) key)"
  have block: "block = key @ replicate (128 - length key) 0" by (simp add: block_def memcpy_at_def)
  define S2 where "S2 = (if key = [] then S1 else snd (blake2b_update S1 block))"
  have "hashing ?P (if key = [] then [] else key @ replicate (128 - length key) 0) S2"
    using hashing_update [OF h1, of block] h1 by (cases "key = []") (simp_all add: S2_def block)
  moreover have "blake2xb_init_key S0 n kp (length key) = (0, \<lparr>xb_S = S2, xb_P = ?P\<rparr>)"
  proof -
    have P: "\<lparr>digest_length = of_nat BLAKE2B_OUTBYTES, key_length = of_nat (length key), fanout = 1, depth = 1,
      leaf_length = store32 0, node_offset = store32 0, xof_length = store32 (of_nat n), node_depth = 0,
      inner_length = 0, reserved = replicate 14 0, salt = replicate BLAKE2B_SALTBYTES 0,
      personal = replicate BLAKE2B_PERSONALBYTES 0\<rparr> = ?P"
      by (simp add: root_param_def blake2b_constant)
    have k: "(case kp of Some key' \<Rightarrow> if length key > 0
        then snd (blake2b_update S1 (memcpy_at (replicate BLAKE2B_BLOCKBYTES 0) 0 (take (length key) key')))
        else S1 | None \<Rightarrow> S1) = S2"
      using assms(4) by (auto simp: S2_def block_def BLAKE2B_BLOCKBYTES_def)
    have z: "((0 :: int) < 0) = False" by simp
    show ?thesis
      unfolding blake2xb_init_key_def g if_False Let_def P S1 prod.case z k by simp
  qed
  ultimately show ?thesis by auto
qed

lemma blake2xb_final_spec:
  assumes h: "hashing (root_param n (length key)) ((if key = [] then [] else key @ replicate (128 - length key) 0) @ msg) (xb_S S)"
    and P: "xb_P S = root_param n (length key)" and n: "0 < n" "n \<le> 0xFFFFFFFF" "n \<le> length dst"
  shows "\<exists>S'. blake2xb_final S (Some dst) n = (0, S', Some (memcpy_at dst 0 (xof_spec n key msg)))"
proof -
  let ?P = "root_param n (length key)"
  let ?d = "(if key = [] then [] else key @ replicate (128 - length key) 0) @ msg"
  let ?root = "memcpy_at (replicate 128 0) 0 (hash_with ?P ?d)"
  have dl: "unat (digest_length ?P) = 64" by (simp add: root_param_def)
  then obtain S' where S': "blake2b_final (xb_S S) (Some (replicate 128 0)) 64 = (0, S', Some ?root)"
    using hashing_final [OF h, of 64 "replicate 128 0"] by auto
  have root: "take 64 ?root = hash_with ?P ?d" "length ?root \<ge> 64"
    using length_hash_with [of ?P ?d] dl by (simp_all add: memcpy_at_0)
  have xof: "load32 (xof_length (xb_P S)) = of_nat n"
    using load32_store32 [of "of_nat n" "[]"] by (simp add: P root_param_def)
  have un: "unat (of_nat n :: u32) = n" using n(2) by (simp add: unat_of_nat)
  have g: "(load32 (xof_length (xb_P S)) = 0xFFFFFFFF \<and> n = 0) = False"
    "(load32 (xof_length (xb_P S)) \<noteq> 0xFFFFFFFF \<and> n \<noteq> unat (load32 (xof_length (xb_P S)))) = False"
    using n(1) un by (simp_all add: xof)
  have bp: "xb_P (S\<lparr>xb_S := S'\<rparr>)\<lparr>key_length := 0, fanout := 0, depth := 0, leaf_length := store32 (of_nat 64),
      inner_length := of_nat 64, node_depth := 0\<rparr> = block_param ?P" by (simp add: P block_param_def)
  have loop: "blake2xb_final_loop (block_param ?P) ?root dst 0 n = (0, memcpy_at dst 0 (xof_spec n key msg))"
    using final_loop_blocks [of "block_param ?P" "block_param ?P" ?root 0 n dst] root n(3)
      length_xof_spec [of n key msg]
    by (simp add: same_but_offset_def xof_spec_def memcpy_at_0 [of dst] Let_def)
  have "blake2xb_final S (Some dst) n = (0, S\<lparr>xb_S := S'\<rparr>, Some (memcpy_at dst 0 (xof_spec n key msg)))"
    unfolding blake2xb_final_def Let_def option.case g if_False BLAKE2B_OUTBYTES_def BLAKE2B_BLOCKBYTES_def
      S' prod.case option.sel bp loop
    by simp
  then show ?thesis by blast
qed

text \<open>The stream of updates.\<close>

definition xb_updates :: "blake2xb_state \<Rightarrow> u8 list list \<Rightarrow> blake2xb_state" where
  "xb_updates S chunks = foldl (\<lambda>S x. snd (blake2xb_update S x)) S chunks"

interpretation blake2xb_stream: byte_stream "\<lambda>S x. snd (blake2xb_update S x)"
  "\<lambda>S. wf_state (xb_S S)" "\<lambda>S. (xb_P S, pending (xb_S S))"
  "\<lambda>c x. (fst c, blake2b_update_loop (fst (snd c)) (snd (snd c) @ x))"
proof unfold_locales
  fix S :: blake2xb_state and x
  assume "wf_state (xb_S S)"
  then show "wf_state (xb_S (snd (blake2xb_update S x)))"
    "(xb_P (snd (blake2xb_update S x)), pending (xb_S (snd (blake2xb_update S x)))) =
      (fst (xb_P S, pending (xb_S S)), blake2b_update_loop (fst (snd (xb_P S, pending (xb_S S)))) (snd (snd (xb_P S, pending (xb_S S))) @ x))"
    "(fst (xb_P S, pending (xb_S S)), blake2b_update_loop (fst (snd (xb_P S, pending (xb_S S)))) (snd (snd (xb_P S, pending (xb_S S))) @ [])) = (xb_P S, pending (xb_S S))"
    using blake2b_stream.inv_upd [of "xb_S S" x] blake2b_stream.view_upd [of "xb_S S" x]
      blake2b_stream.absorb_Nil [of "xb_S S"]
    by (auto simp: blake2xb_update_def split: prod.splits)
qed (use blake2b_stream.absorb_append in simp)

lemma xb_updates_fields:
  "xb_P (xb_updates S chunks) = xb_P S \<and> xb_S (xb_updates S chunks) = updates (xb_S S) chunks"
  by (induction chunks arbitrary: S) (auto simp: xb_updates_def updates_def blake2xb_update_def split: prod.splits)

lemma hashing_updates: "hashing P d S \<Longrightarrow> hashing P (d @ concat chunks) (updates S chunks)"
  by (induction chunks arbitrary: d S) (simp_all add: updates_def hashing_update flip: append_assoc)

section \<open>Properties\<close>

text \<open>
  C30. BLAKE2Xb through its streaming interface: after \<open>blake2xb_init_key\<close> for \<open>n\<close> bytes of output,
  any sequence of updates and \<open>blake2xb_final\<close> into a buffer of at least \<open>n\<close> bytes return 0 and write
  exactly the \<open>n\<close> bytes of the specification, the concatenation of the hashes of the root hash; no
  byte past them changes.
\<close>

theorem blake2xb_correct:
  assumes "0 < n" "n \<le> 0xFFFFFFFF" "n \<le> length dst" "length key \<le> 64" "kp = Some key \<or> key = [] \<and> kp = None"
  shows "\<exists>S S'. blake2xb_init_key S0 n kp (length key) = (0, S) \<and>
    blake2xb_final (xb_updates S chunks) (Some dst) n =
      (0, S', Some (xof_spec n key (concat chunks) @ drop n dst)) \<and>
    length (xof_spec n key (concat chunks)) = n"
proof -
  obtain S where S: "blake2xb_init_key S0 n kp (length key) = (0, S)" "xb_P S = root_param n (length key)"
    "hashing (root_param n (length key)) (if key = [] then [] else key @ replicate (128 - length key) 0) (xb_S S)"
    using blake2xb_init_key_hashing [OF assms(1,2,4,5)] by blast
  have "hashing (root_param n (length key))
      ((if key = [] then [] else key @ replicate (128 - length key) 0) @ concat chunks) (xb_S (xb_updates S chunks))"
    using hashing_updates [OF S(3), of chunks] by (simp add: xb_updates_fields)
  from blake2xb_final_spec [OF this _ assms(1-3)] S(2)
  obtain S' where "blake2xb_final (xb_updates S chunks) (Some dst) n =
      (0, S', Some (memcpy_at dst 0 (xof_spec n key (concat chunks))))" by (auto simp: xb_updates_fields)
  then show ?thesis using S(1) by (auto simp: memcpy_at_0 length_xof_spec)
qed

theorem blake2xb_correct_witness:
  "\<exists>S S'. blake2xb_init_key \<lparr>xb_S = blake2b_init0, xb_P = root_param 1 0\<rparr> 100 None (length ([] :: u8 list)) = (0, S) \<and>
    blake2xb_final (xb_updates S [[1], [2]]) (Some (replicate 100 0)) 100 =
      (0, S', Some (xof_spec 100 [] (concat [[1], [2]]) @ drop 100 (replicate 100 0))) \<and>
    length (xof_spec 100 [] (concat [[1], [2]])) = 100"
  by (rule blake2xb_correct) simp_all

end
