(* ===== verification/Fips202.thy ===== *)
theory Fips202
  imports Heu_Prelude "HOL-Library.Monad_Syntax"
begin

unbundle bit_operations_syntax

text \<open>
  Keccak, SHAKE and SHA-3: \<open>heu/library/algorithms/seal_gpu/utils/fips202.c\<close>. The Keccak state is the
  list of its 25 lanes, memory is a list of bytes. The body of the permutation's loop does two
  rounds, the first from the variables \<open>A..\<close> to \<open>E..\<close>, the second back; each half is one definition
  over the same local variables. The absorbing loop does not end for a rate of zero, which is the
  value \<open>None\<close> here; the theorems show that it ends for the rates of the code.
\<close>

section \<open>The functions of the code\<close>

definition SHAKE128_RATE :: nat where "SHAKE128_RATE = 168"
definition SHAKE256_RATE :: nat where "SHAKE256_RATE = 136"
definition SHA3_256_RATE :: nat where "SHA3_256_RATE = 136"
definition SHA3_512_RATE :: nat where "SHA3_512_RATE = 72"
definition NROUNDS :: nat where "NROUNDS = 24"

definition ROL :: "u64 \<Rightarrow> nat \<Rightarrow> u64" where
  "ROL a offset = push_bit offset a XOR drop_bit (64 - offset) a"

definition keccak_load64 :: "u8 list \<Rightarrow> u64" where
  "keccak_load64 x = fold (\<lambda>i r. r OR push_bit (8 * i) (ucast (x ! i))) [0..<8] 0"

definition keccak_store64 :: "u64 \<Rightarrow> u8 list" where
  "keccak_store64 u = map (\<lambda>i. ucast (drop_bit (8 * i) u)) [0..<8]"

definition KeccakF_RoundConstants :: "u64 list" where
  "KeccakF_RoundConstants =
    [0x0000000000000001, 0x0000000000008082, 0x800000000000808a, 0x8000000080008000,
     0x000000000000808b, 0x0000000080000001, 0x8000000080008081, 0x8000000000008009,
     0x000000000000008a, 0x0000000000000088, 0x0000000080008009, 0x000000008000000a,
     0x000000008000808b, 0x800000000000008b, 0x8000000000008089, 0x8000000000008003,
     0x8000000000008002, 0x8000000000000080, 0x000000000000800a, 0x800000008000000a,
     0x8000000080008081, 0x8000000000008080, 0x0000000080000001, 0x8000000080008008]"

definition keccak_round_AE :: "nat \<Rightarrow> u64 list \<Rightarrow> u64 list" where
  "keccak_round_AE round state =
     (let Aba = state ! 0; Abe = state ! 1; Abi = state ! 2; Abo = state ! 3; Abu = state ! 4;
          Aga = state ! 5; Age = state ! 6; Agi = state ! 7; Ago = state ! 8; Agu = state ! 9;
          Aka = state ! 10; Ake = state ! 11; Aki = state ! 12; Ako = state ! 13; Aku = state ! 14;
          Ama = state ! 15; Ame = state ! 16; Ami = state ! 17; Amo = state ! 18; Amu = state ! 19;
          Asa = state ! 20; Ase = state ! 21; Asi = state ! 22; Aso = state ! 23; Asu = state ! 24;
          BCa = Aba XOR Aga XOR Aka XOR Ama XOR Asa; BCe = Abe XOR Age XOR Ake XOR Ame XOR Ase;
          BCi = Abi XOR Agi XOR Aki XOR Ami XOR Asi; BCo = Abo XOR Ago XOR Ako XOR Amo XOR Aso;
          BCu = Abu XOR Agu XOR Aku XOR Amu XOR Asu; Da = BCu XOR ROL BCe 1;
          De = BCa XOR ROL BCi 1; Di = BCe XOR ROL BCo 1; Do = BCi XOR ROL BCu 1;
          Du = BCo XOR ROL BCa 1; Aba = Aba XOR Da; BCa = Aba; Age = Age XOR De;
          BCe = ROL Age 44; Aki = Aki XOR Di; BCi = ROL Aki 43; Amo = Amo XOR Do;
          BCo = ROL Amo 21; Asu = Asu XOR Du; BCu = ROL Asu 14;
          Eba = BCa XOR ((NOT BCe) AND BCi); Eba = Eba XOR KeccakF_RoundConstants ! round;
          Ebe = BCe XOR ((NOT BCi) AND BCo); Ebi = BCi XOR ((NOT BCo) AND BCu);
          Ebo = BCo XOR ((NOT BCu) AND BCa); Ebu = BCu XOR ((NOT BCa) AND BCe); Abo = Abo XOR Do;
          BCa = ROL Abo 28; Agu = Agu XOR Du; BCe = ROL Agu 20; Aka = Aka XOR Da;
          BCi = ROL Aka 3; Ame = Ame XOR De; BCo = ROL Ame 45; Asi = Asi XOR Di;
          BCu = ROL Asi 61; Ega = BCa XOR ((NOT BCe) AND BCi); Ege = BCe XOR ((NOT BCi) AND BCo);
          Egi = BCi XOR ((NOT BCo) AND BCu); Ego = BCo XOR ((NOT BCu) AND BCa);
          Egu = BCu XOR ((NOT BCa) AND BCe); Abe = Abe XOR De; BCa = ROL Abe 1; Agi = Agi XOR Di;
          BCe = ROL Agi 6; Ako = Ako XOR Do; BCi = ROL Ako 25; Amu = Amu XOR Du; BCo = ROL Amu 8;
          Asa = Asa XOR Da; BCu = ROL Asa 18; Eka = BCa XOR ((NOT BCe) AND BCi);
          Eke = BCe XOR ((NOT BCi) AND BCo); Eki = BCi XOR ((NOT BCo) AND BCu);
          Eko = BCo XOR ((NOT BCu) AND BCa); Eku = BCu XOR ((NOT BCa) AND BCe); Abu = Abu XOR Du;
          BCa = ROL Abu 27; Aga = Aga XOR Da; BCe = ROL Aga 36; Ake = Ake XOR De;
          BCi = ROL Ake 10; Ami = Ami XOR Di; BCo = ROL Ami 15; Aso = Aso XOR Do;
          BCu = ROL Aso 56; Ema = BCa XOR ((NOT BCe) AND BCi); Eme = BCe XOR ((NOT BCi) AND BCo);
          Emi = BCi XOR ((NOT BCo) AND BCu); Emo = BCo XOR ((NOT BCu) AND BCa);
          Emu = BCu XOR ((NOT BCa) AND BCe); Abi = Abi XOR Di; BCa = ROL Abi 62;
          Ago = Ago XOR Do; BCe = ROL Ago 55; Aku = Aku XOR Du; BCi = ROL Aku 39;
          Ama = Ama XOR Da; BCo = ROL Ama 41; Ase = Ase XOR De; BCu = ROL Ase 2;
          Esa = BCa XOR ((NOT BCe) AND BCi); Ese = BCe XOR ((NOT BCi) AND BCo);
          Esi = BCi XOR ((NOT BCo) AND BCu); Eso = BCo XOR ((NOT BCu) AND BCa);
          Esu = BCu XOR ((NOT BCa) AND BCe)
      in [Eba, Ebe, Ebi, Ebo, Ebu,
          Ega, Ege, Egi, Ego, Egu,
          Eka, Eke, Eki, Eko, Eku,
          Ema, Eme, Emi, Emo, Emu,
          Esa, Ese, Esi, Eso, Esu])"

definition keccak_round_EA :: "nat \<Rightarrow> u64 list \<Rightarrow> u64 list" where
  "keccak_round_EA round state =
     (let Eba = state ! 0; Ebe = state ! 1; Ebi = state ! 2; Ebo = state ! 3; Ebu = state ! 4;
          Ega = state ! 5; Ege = state ! 6; Egi = state ! 7; Ego = state ! 8; Egu = state ! 9;
          Eka = state ! 10; Eke = state ! 11; Eki = state ! 12; Eko = state ! 13; Eku = state ! 14;
          Ema = state ! 15; Eme = state ! 16; Emi = state ! 17; Emo = state ! 18; Emu = state ! 19;
          Esa = state ! 20; Ese = state ! 21; Esi = state ! 22; Eso = state ! 23; Esu = state ! 24;
          BCa = Eba XOR Ega XOR Eka XOR Ema XOR Esa; BCe = Ebe XOR Ege XOR Eke XOR Eme XOR Ese;
          BCi = Ebi XOR Egi XOR Eki XOR Emi XOR Esi; BCo = Ebo XOR Ego XOR Eko XOR Emo XOR Eso;
          BCu = Ebu XOR Egu XOR Eku XOR Emu XOR Esu; Da = BCu XOR ROL BCe 1;
          De = BCa XOR ROL BCi 1; Di = BCe XOR ROL BCo 1; Do = BCi XOR ROL BCu 1;
          Du = BCo XOR ROL BCa 1; Eba = Eba XOR Da; BCa = Eba; Ege = Ege XOR De;
          BCe = ROL Ege 44; Eki = Eki XOR Di; BCi = ROL Eki 43; Emo = Emo XOR Do;
          BCo = ROL Emo 21; Esu = Esu XOR Du; BCu = ROL Esu 14;
          Aba = BCa XOR ((NOT BCe) AND BCi); Aba = Aba XOR KeccakF_RoundConstants ! (round + 1);
          Abe = BCe XOR ((NOT BCi) AND BCo); Abi = BCi XOR ((NOT BCo) AND BCu);
          Abo = BCo XOR ((NOT BCu) AND BCa); Abu = BCu XOR ((NOT BCa) AND BCe); Ebo = Ebo XOR Do;
          BCa = ROL Ebo 28; Egu = Egu XOR Du; BCe = ROL Egu 20; Eka = Eka XOR Da;
          BCi = ROL Eka 3; Eme = Eme XOR De; BCo = ROL Eme 45; Esi = Esi XOR Di;
          BCu = ROL Esi 61; Aga = BCa XOR ((NOT BCe) AND BCi); Age = BCe XOR ((NOT BCi) AND BCo);
          Agi = BCi XOR ((NOT BCo) AND BCu); Ago = BCo XOR ((NOT BCu) AND BCa);
          Agu = BCu XOR ((NOT BCa) AND BCe); Ebe = Ebe XOR De; BCa = ROL Ebe 1; Egi = Egi XOR Di;
          BCe = ROL Egi 6; Eko = Eko XOR Do; BCi = ROL Eko 25; Emu = Emu XOR Du; BCo = ROL Emu 8;
          Esa = Esa XOR Da; BCu = ROL Esa 18; Aka = BCa XOR ((NOT BCe) AND BCi);
          Ake = BCe XOR ((NOT BCi) AND BCo); Aki = BCi XOR ((NOT BCo) AND BCu);
          Ako = BCo XOR ((NOT BCu) AND BCa); Aku = BCu XOR ((NOT BCa) AND BCe); Ebu = Ebu XOR Du;
          BCa = ROL Ebu 27; Ega = Ega XOR Da; BCe = ROL Ega 36; Eke = Eke XOR De;
          BCi = ROL Eke 10; Emi = Emi XOR Di; BCo = ROL Emi 15; Eso = Eso XOR Do;
          BCu = ROL Eso 56; Ama = BCa XOR ((NOT BCe) AND BCi); Ame = BCe XOR ((NOT BCi) AND BCo);
          Ami = BCi XOR ((NOT BCo) AND BCu); Amo = BCo XOR ((NOT BCu) AND BCa);
          Amu = BCu XOR ((NOT BCa) AND BCe); Ebi = Ebi XOR Di; BCa = ROL Ebi 62;
          Ego = Ego XOR Do; BCe = ROL Ego 55; Eku = Eku XOR Du; BCi = ROL Eku 39;
          Ema = Ema XOR Da; BCo = ROL Ema 41; Ese = Ese XOR De; BCu = ROL Ese 2;
          Asa = BCa XOR ((NOT BCe) AND BCi); Ase = BCe XOR ((NOT BCi) AND BCo);
          Asi = BCi XOR ((NOT BCo) AND BCu); Aso = BCo XOR ((NOT BCu) AND BCa);
          Asu = BCu XOR ((NOT BCa) AND BCe)
      in [Aba, Abe, Abi, Abo, Abu,
          Aga, Age, Agi, Ago, Agu,
          Aka, Ake, Aki, Ako, Aku,
          Ama, Ame, Ami, Amo, Amu,
          Asa, Ase, Asi, Aso, Asu])"

definition KeccakF1600_StatePermute :: "u64 list \<Rightarrow> u64 list" where
  "KeccakF1600_StatePermute state =
     fold (\<lambda>round state. keccak_round_EA round (keccak_round_AE round state))
       (map (\<lambda>i. 2 * i) [0..<NROUNDS div 2]) state"

text \<open>\<open>for (i = 0; i < r / 8; i++) s[i] ^= load64(m + 8 * i)\<close>\<close>

definition xor_block :: "u64 list \<Rightarrow> nat \<Rightarrow> u8 list \<Rightarrow> u64 list" where
  "xor_block s r m = fold (\<lambda>i s. s[i := s ! i XOR keccak_load64 (drop (8 * i) m)]) [0..<r div 8] s"

partial_function (option) keccak_absorb_loop :: "u64 list \<Rightarrow> nat \<Rightarrow> u8 list \<Rightarrow> (u64 list \<times> u8 list) option" where
  "keccak_absorb_loop s r m =
     (if length m \<ge> r then
        let s = xor_block s r m;
            s = KeccakF1600_StatePermute s
        in keccak_absorb_loop s r (drop r m)
      else Some (s, m))"

declare keccak_absorb_loop.simps [code]

definition keccak_absorb :: "nat \<Rightarrow> u8 list \<Rightarrow> u8 \<Rightarrow> u64 list option" where
  "keccak_absorb r m p =
     (let t = replicate 200 0;
          s = replicate 25 0
      in Option.bind (keccak_absorb_loop s r m) (\<lambda>(s, m).
           let t = m @ drop (length m) t;
               t = t[length m := p];
               t = t[r - 1 := t ! (r - 1) OR 128]
           in Some (xor_block s r t)))"

fun keccak_squeezeblocks :: "nat \<Rightarrow> u64 list \<Rightarrow> nat \<Rightarrow> u8 list \<times> u64 list" where
  "keccak_squeezeblocks 0 s r = ([], s)"
| "keccak_squeezeblocks (Suc nblocks) s r =
     (let s = KeccakF1600_StatePermute s;
          block = concat (map (\<lambda>i. keccak_store64 (s ! i)) [0..<r div 8]);
          (out, s) = keccak_squeezeblocks nblocks s r
      in (block @ out, s))"

definition shake128_absorb :: "u8 list \<Rightarrow> u64 list option" where
  "shake128_absorb inp = keccak_absorb SHAKE128_RATE inp 0x1F"

definition shake128_squeezeblocks :: "nat \<Rightarrow> u64 list \<Rightarrow> u8 list \<times> u64 list" where
  "shake128_squeezeblocks nblocks state = keccak_squeezeblocks nblocks state SHAKE128_RATE"

definition shake256_absorb :: "u8 list \<Rightarrow> u64 list option" where
  "shake256_absorb inp = keccak_absorb SHAKE256_RATE inp 0x1F"

definition shake256_squeezeblocks :: "nat \<Rightarrow> u64 list \<Rightarrow> u8 list \<times> u64 list" where
  "shake256_squeezeblocks nblocks state = keccak_squeezeblocks nblocks state SHAKE256_RATE"

definition shake128 :: "nat \<Rightarrow> u8 list \<Rightarrow> u8 list option" where
  "shake128 outlen inp =
     (let nblocks = outlen div SHAKE128_RATE in
      Option.bind (shake128_absorb inp) (\<lambda>state.
        let (out, state) = shake128_squeezeblocks nblocks state;
            outlen = outlen - nblocks * SHAKE128_RATE
        in if outlen \<noteq> 0 then
             let (t, state) = shake128_squeezeblocks 1 state in Some (out @ take outlen t)
           else Some out))"

definition shake256 :: "nat \<Rightarrow> u8 list \<Rightarrow> u8 list option" where
  "shake256 outlen inp =
     (let nblocks = outlen div SHAKE256_RATE in
      Option.bind (shake256_absorb inp) (\<lambda>state.
        let (out, state) = shake256_squeezeblocks nblocks state;
            outlen = outlen - nblocks * SHAKE256_RATE
        in if outlen \<noteq> 0 then
             let (t, state) = shake256_squeezeblocks 1 state in Some (out @ take outlen t)
           else Some out))"

definition sha3_256 :: "u8 list \<Rightarrow> u8 list option" where
  "sha3_256 inp =
     Option.bind (keccak_absorb SHA3_256_RATE inp 0x06) (\<lambda>s.
       let (t, s) = keccak_squeezeblocks 1 s SHA3_256_RATE in Some (take 32 t))"

definition sha3_512 :: "u8 list \<Rightarrow> u8 list option" where
  "sha3_512 inp =
     Option.bind (keccak_absorb SHA3_512_RATE inp 0x06) (\<lambda>s.
       let (t, s) = keccak_squeezeblocks 1 s SHA3_512_RATE in Some (take 64 t))"

section \<open>The permutation of FIPS 202\<close>

text \<open>The step mappings on the lanes \<open>A[x, y]\<close>, with the offsets and round constants computed as the
standard defines them.\<close>

definition lane :: "u64 list \<Rightarrow> nat \<Rightarrow> nat \<Rightarrow> u64" where
  "lane A x y = A ! (x + 5 * y)"

definition lanes :: "(nat \<Rightarrow> nat \<Rightarrow> u64) \<Rightarrow> u64 list" where
  "lanes f = map (\<lambda>i. f (i mod 5) (i div 5)) [0..<25]"

definition theta :: "u64 list \<Rightarrow> u64 list" where
  "theta A =
     (let C = (\<lambda>x. lane A x 0 XOR lane A x 1 XOR lane A x 2 XOR lane A x 3 XOR lane A x 4);
          D = (\<lambda>x. C ((x + 4) mod 5) XOR word_rotl 1 (C ((x + 1) mod 5)))
      in lanes (\<lambda>x y. lane A x y XOR D x))"

primrec rho_pos :: "nat \<Rightarrow> nat \<times> nat" where
  "rho_pos 0 = (1, 0)"
| "rho_pos (Suc t) = (let (x, y) = rho_pos t in (y, (2 * x + 3 * y) mod 5))"

definition rho :: "u64 list \<Rightarrow> u64 list" where
  "rho A = fold (\<lambda>t A'. let (x, y) = rho_pos t in
     A'[x + 5 * y := word_rotl ((t + 1) * (t + 2) div 2 mod 64) (lane A x y)]) [0..<24] A"

definition pi :: "u64 list \<Rightarrow> u64 list" where
  "pi A = lanes (\<lambda>x y. lane A ((x + 3 * y) mod 5) x)"

definition chi :: "u64 list \<Rightarrow> u64 list" where
  "chi A = lanes (\<lambda>x y. lane A x y XOR (NOT (lane A ((x + 1) mod 5) y) AND lane A ((x + 2) mod 5) y))"

fun lfsr_step :: "bool list \<Rightarrow> bool list" where
  "lfsr_step R =
     (let R = False # R;
          R = R[0 := (R ! 0 \<noteq> R ! 8)];
          R = R[4 := (R ! 4 \<noteq> R ! 8)];
          R = R[5 := (R ! 5 \<noteq> R ! 8)];
          R = R[6 := (R ! 6 \<noteq> R ! 8)]
      in take 8 R)"

text \<open>The output bits of the register; seven of them make one round constant, at bits \<open>2^j - 1\<close>.\<close>

primrec lfsr_bits :: "nat \<Rightarrow> bool list \<Rightarrow> bool list" where
  "lfsr_bits 0 R = []"
| "lfsr_bits (Suc n) R = R ! 0 # lfsr_bits n (lfsr_step R)"

definition round_constant :: "nat \<Rightarrow> u64" where
  "round_constant ir =
     (let bits = take 7 (drop (7 * ir) (lfsr_bits (7 * 24) (True # replicate 7 False)))
      in fold (\<lambda>(b, k) c. if b then c OR push_bit k 1 else c) (zip bits [0, 1, 3, 7, 15, 31, 63]) 0)"

definition iota :: "nat \<Rightarrow> u64 list \<Rightarrow> u64 list" where
  "iota ir A = A[0 := A ! 0 XOR round_constant ir]"

definition keccak_f :: "u64 list \<Rightarrow> u64 list" where
  "keccak_f A = fold (\<lambda>ir A. iota ir (chi (pi (rho (theta A))))) [0..<24] A"

section \<open>The code computes it\<close>

lemma ROL_rotl:
  assumes "0 < n" "n < 64"
  shows "ROL a n = word_rotl n a"
proof (rule bit_word_eqI)
  fix i
  assume "i < LENGTH(64)"
  then have i: "i < 64" by simp
  have n: "n mod 64 = n" using assms by simp
  show "bit (ROL a n) i = bit (word_rotl n a) i"
  proof (cases "n \<le> i")
    case True
    then have "(i + (64 - n)) mod 64 = i - n" using assms i by (simp add: le_mod_geq)
    moreover have "\<not> bit a (64 - n + i)" using True assms i by (auto dest: bit_imp_le_length)
    ultimately show ?thesis using True i n
      by (simp add: ROL_def bit_word_rotl_iff bit_xor_iff bit_push_bit_iff bit_drop_bit_eq)
  next
    case False
    then have "(i + (64 - n)) mod 64 = 64 - n + i" using assms i by simp
    then show ?thesis using False i n
      by (simp add: ROL_def bit_word_rotl_iff bit_xor_iff bit_push_bit_iff bit_drop_bit_eq)
  qed
qed

lemma word_rotl_0 [simp]: "word_rotl 0 (a :: u64) = a"
  by (rule bit_word_eqI) (simp add: bit_word_rotl_iff)

lemma upt_25: "[0..<25] = [0, 1, 2, 3, 4, 5, 6, 7, 8, 9, 10, 11, 12, 13, 14, 15, 16, 17, 18, 19, 20, 21, 22, 23, 24]"
  by (simp add: upt_rec)

lemma upt_24: "[0..<24] = [0, 1, 2, 3, 4, 5, 6, 7, 8, 9, 10, 11, 12, 13, 14, 15, 16, 17, 18, 19, 20, 21, 22, 23]"
  by (simp add: upt_rec)

lemma lfsr_output: "lfsr_bits (7 * 24) (True # replicate 7 False) =
   [True, False, False, False, False, False, False, False, True, False, True, True, False, False,
    False, True, True, True, True, False, True, False, False, False, False, True, True, True, True,
    True, True, True, True, False, False, True, False, False, False, False, True, False, True,
    False, False, True, True, True, True, True, False, True, False, True, False, True, False, True,
    True, True, False, False, False, False, False, True, True, False, False, False, True, False,
    True, False, True, True, False, False, True, True, False, False, True, False, True, True, True,
    True, True, True, False, True, True, True, True, False, False, True, True, False, True, True,
    True, False, True, True, True, False, False, True, False, True, False, True, False, False,
    True, False, True, False, False, False, True, False, False, True, False, True, True, False,
    True, False, False, False, True, True, False, False, True, True, True, False, False, True,
    True, True, True, False, False, False, True, True, False, True, True, False, False, False,
    False, True, False, False, False, True, False, True, True, True]"
  by code_simp

lemma RoundConstants: "map round_constant [0..<24] = KeccakF_RoundConstants"
  unfolding upt_24 list.map round_constant_def lfsr_output Let_def
  by (simp add: KeccakF_RoundConstants_def)

lemma list_25: "length A = 25 \<Longrightarrow> A = [A ! 0, A ! 1, A ! 2, A ! 3, A ! 4, A ! 5, A ! 6, A ! 7, A ! 8, A ! 9, A ! 10, A ! 11, A ! 12, A ! 13, A ! 14, A ! 15, A ! 16, A ! 17, A ! 18, A ! 19, A ! 20, A ! 21, A ! 22, A ! 23, A ! 24]"
  using map_nth [of A] unfolding upt_25 by (simp add: upt_25)

lemma rho_positions: "map rho_pos [0..<24] = [(1, 0), (0, 2), (2, 1), (1, 2), (2, 3), (3, 3), (3, 0), (0, 1), (1, 3), (3, 1), (1, 4), (4, 4), (4, 0), (0, 3), (3, 4), (4, 3), (3, 2), (2, 2), (2, 0), (0, 4), (4, 2), (2, 4), (4, 1), (1, 1)]"
  by code_simp

lemma rho_list:
  "rho [b0, b1, b2, b3, b4, b5, b6, b7, b8, b9, b10, b11, b12, b13, b14, b15, b16, b17, b18, b19, b20, b21, b22, b23, b24] =
    [b0, word_rotl 1 b1, word_rotl 62 b2, word_rotl 28 b3, word_rotl 27 b4, word_rotl 36 b5, word_rotl 44 b6, word_rotl 6 b7, word_rotl 55 b8, word_rotl 20 b9, word_rotl 3 b10, word_rotl 10 b11, word_rotl 43 b12, word_rotl 25 b13, word_rotl 39 b14, word_rotl 41 b15, word_rotl 45 b16, word_rotl 15 b17, word_rotl 21 b18, word_rotl 8 b19, word_rotl 18 b20, word_rotl 2 b21, word_rotl 61 b22, word_rotl 56 b23, word_rotl 14 b24]"
proof -
  have e: "rho A = fold (\<lambda>(t, x, y) A'. A'[x + 5 * y := word_rotl ((t + 1) * (t + 2) div 2 mod 64) (lane A x y)])
      (zip [0..<24] (map rho_pos [0..<24])) A" for A
    by (simp add: rho_def zip_map2 zip_same_conv_map fold_map comp_def Let_def split_def)
  show ?thesis unfolding e rho_positions unfolding upt_24 by (simp add: lane_def)
qed

lemma pi_list:
  "pi [b0, b1, b2, b3, b4, b5, b6, b7, b8, b9, b10, b11, b12, b13, b14, b15, b16, b17, b18, b19, b20, b21, b22, b23, b24] =
    [b0, b6, b12, b18, b24, b3, b9, b10, b16, b22, b1, b7, b13, b19, b20, b4, b5, b11, b17, b23, b2, b8, b14, b15, b21]"
  unfolding pi_def lanes_def lane_def upt_25 by simp

lemma theta_list:
  "theta [a0, a1, a2, a3, a4, a5, a6, a7, a8, a9, a10, a11, a12, a13, a14, a15, a16, a17, a18, a19, a20, a21, a22, a23, a24] =
    [a0 XOR (a4 XOR a9 XOR a14 XOR a19 XOR a24 XOR word_rotl 1 (a1 XOR a6 XOR a11 XOR a16 XOR a21)), a1 XOR (a0 XOR a5 XOR a10 XOR a15 XOR a20 XOR word_rotl 1 (a2 XOR a7 XOR a12 XOR a17 XOR a22)), a2 XOR (a1 XOR a6 XOR a11 XOR a16 XOR a21 XOR word_rotl 1 (a3 XOR a8 XOR a13 XOR a18 XOR a23)), a3 XOR (a2 XOR a7 XOR a12 XOR a17 XOR a22 XOR word_rotl 1 (a4 XOR a9 XOR a14 XOR a19 XOR a24)), a4 XOR (a3 XOR a8 XOR a13 XOR a18 XOR a23 XOR word_rotl 1 (a0 XOR a5 XOR a10 XOR a15 XOR a20)), a5 XOR (a4 XOR a9 XOR a14 XOR a19 XOR a24 XOR word_rotl 1 (a1 XOR a6 XOR a11 XOR a16 XOR a21)), a6 XOR (a0 XOR a5 XOR a10 XOR a15 XOR a20 XOR word_rotl 1 (a2 XOR a7 XOR a12 XOR a17 XOR a22)), a7 XOR (a1 XOR a6 XOR a11 XOR a16 XOR a21 XOR word_rotl 1 (a3 XOR a8 XOR a13 XOR a18 XOR a23)), a8 XOR (a2 XOR a7 XOR a12 XOR a17 XOR a22 XOR word_rotl 1 (a4 XOR a9 XOR a14 XOR a19 XOR a24)), a9 XOR (a3 XOR a8 XOR a13 XOR a18 XOR a23 XOR word_rotl 1 (a0 XOR a5 XOR a10 XOR a15 XOR a20)), a10 XOR (a4 XOR a9 XOR a14 XOR a19 XOR a24 XOR word_rotl 1 (a1 XOR a6 XOR a11 XOR a16 XOR a21)), a11 XOR (a0 XOR a5 XOR a10 XOR a15 XOR a20 XOR word_rotl 1 (a2 XOR a7 XOR a12 XOR a17 XOR a22)), a12 XOR (a1 XOR a6 XOR a11 XOR a16 XOR a21 XOR word_rotl 1 (a3 XOR a8 XOR a13 XOR a18 XOR a23)), a13 XOR (a2 XOR a7 XOR a12 XOR a17 XOR a22 XOR word_rotl 1 (a4 XOR a9 XOR a14 XOR a19 XOR a24)), a14 XOR (a3 XOR a8 XOR a13 XOR a18 XOR a23 XOR word_rotl 1 (a0 XOR a5 XOR a10 XOR a15 XOR a20)), a15 XOR (a4 XOR a9 XOR a14 XOR a19 XOR a24 XOR word_rotl 1 (a1 XOR a6 XOR a11 XOR a16 XOR a21)), a16 XOR (a0 XOR a5 XOR a10 XOR a15 XOR a20 XOR word_rotl 1 (a2 XOR a7 XOR a12 XOR a17 XOR a22)), a17 XOR (a1 XOR a6 XOR a11 XOR a16 XOR a21 XOR word_rotl 1 (a3 XOR a8 XOR a13 XOR a18 XOR a23)), a18 XOR (a2 XOR a7 XOR a12 XOR a17 XOR a22 XOR word_rotl 1 (a4 XOR a9 XOR a14 XOR a19 XOR a24)), a19 XOR (a3 XOR a8 XOR a13 XOR a18 XOR a23 XOR word_rotl 1 (a0 XOR a5 XOR a10 XOR a15 XOR a20)), a20 XOR (a4 XOR a9 XOR a14 XOR a19 XOR a24 XOR word_rotl 1 (a1 XOR a6 XOR a11 XOR a16 XOR a21)), a21 XOR (a0 XOR a5 XOR a10 XOR a15 XOR a20 XOR word_rotl 1 (a2 XOR a7 XOR a12 XOR a17 XOR a22)), a22 XOR (a1 XOR a6 XOR a11 XOR a16 XOR a21 XOR word_rotl 1 (a3 XOR a8 XOR a13 XOR a18 XOR a23)), a23 XOR (a2 XOR a7 XOR a12 XOR a17 XOR a22 XOR word_rotl 1 (a4 XOR a9 XOR a14 XOR a19 XOR a24)), a24 XOR (a3 XOR a8 XOR a13 XOR a18 XOR a23 XOR word_rotl 1 (a0 XOR a5 XOR a10 XOR a15 XOR a20))]"
  unfolding theta_def lanes_def lane_def upt_25 Let_def by (simp add: xor.assoc)

lemma chi_list:
  "chi [b0, b1, b2, b3, b4, b5, b6, b7, b8, b9, b10, b11, b12, b13, b14, b15, b16, b17, b18, b19, b20, b21, b22, b23, b24] =
    [b0 XOR (NOT b1 AND b2), b1 XOR (NOT b2 AND b3), b2 XOR (NOT b3 AND b4), b3 XOR (NOT b4 AND b0), b4 XOR (NOT b0 AND b1), b5 XOR (NOT b6 AND b7), b6 XOR (NOT b7 AND b8), b7 XOR (NOT b8 AND b9), b8 XOR (NOT b9 AND b5), b9 XOR (NOT b5 AND b6), b10 XOR (NOT b11 AND b12), b11 XOR (NOT b12 AND b13), b12 XOR (NOT b13 AND b14), b13 XOR (NOT b14 AND b10), b14 XOR (NOT b10 AND b11), b15 XOR (NOT b16 AND b17), b16 XOR (NOT b17 AND b18), b17 XOR (NOT b18 AND b19), b18 XOR (NOT b19 AND b15), b19 XOR (NOT b15 AND b16), b20 XOR (NOT b21 AND b22), b21 XOR (NOT b22 AND b23), b22 XOR (NOT b23 AND b24), b23 XOR (NOT b24 AND b20), b24 XOR (NOT b20 AND b21)]"
  unfolding chi_def lanes_def lane_def upt_25 by simp


lemma round_AE_list:
  assumes "r < 24"
  shows "keccak_round_AE r [a0, a1, a2, a3, a4, a5, a6, a7, a8, a9, a10, a11, a12, a13, a14, a15, a16, a17, a18, a19, a20, a21, a22, a23, a24] =
   iota r (chi (pi (rho (theta [a0, a1, a2, a3, a4, a5, a6, a7, a8, a9, a10, a11, a12, a13, a14, a15, a16, a17, a18, a19, a20, a21, a22, a23, a24]))))"
proof -
  have rc: "KeccakF_RoundConstants ! r = round_constant r"
    using assms by (simp flip: RoundConstants)
  show ?thesis
    unfolding theta_list rho_list pi_list chi_list keccak_round_AE_def Let_def iota_def rc
    by (simp add: ROL_rotl xor.assoc)
qed

lemma length_pi: "length (pi A) = 25" by (simp add: pi_def lanes_def)

lemma keccak_round_EA_eq: "keccak_round_EA r s = keccak_round_AE (r + 1) s"
  unfolding keccak_round_EA_def keccak_round_AE_def Let_def by (rule refl)

lemma length_chi: "length (chi A) = 25" by (simp add: chi_def lanes_def)

lemma length_iota [simp]: "length (iota r A) = length A" by (simp add: iota_def)

lemma round_AE_correct:
  assumes "length A = 25" "r < 24"
  shows "keccak_round_AE r A = iota r (chi (pi (rho (theta A))))"
  by (subst (1 2) list_25 [OF assms(1)]) (rule round_AE_list [OF assms(2)])

lemma fold_pairs:
  "fold (\<lambda>i x. f (2 * i + 1) (f (2 * i) x)) [0..<n] x = fold f [0..<2 * n] x"
  by (induction n) simp_all

lemma fold_cong_upt:
  assumes "\<And>i x. i < n \<Longrightarrow> P x \<Longrightarrow> f i x = g i x \<and> P (g i x)" "P x"
  shows "fold f [0..<n] x = fold g [0..<n] x \<and> P (fold g [0..<n] x)"
  using assms by (induction n) auto

lemma StatePermute_is_keccak_f:
  assumes "length A = 25"
  shows "KeccakF1600_StatePermute A = keccak_f A"
proof -
  have "KeccakF1600_StatePermute A = fold (\<lambda>i x. keccak_round_AE (2 * i + 1) (keccak_round_AE (2 * i) x)) [0..<12] A"
    by (simp add: KeccakF1600_StatePermute_def NROUNDS_def fold_map comp_def keccak_round_EA_eq)
  also have "\<dots> = fold keccak_round_AE [0..<24] A"
    using fold_pairs [of keccak_round_AE 12 A] by simp
  also have "\<dots> = keccak_f A"
    unfolding keccak_f_def
    by (rule conjunct1, rule fold_cong_upt [where P = "\<lambda>x. length x = 25"])
       (simp_all add: round_AE_correct length_chi assms)
  finally show ?thesis .
qed

lemma length_keccak_f:
  assumes "length A = 25"
  shows "length (keccak_f A) = 25"
  unfolding keccak_f_def
  by (rule conjunct2, rule fold_cong_upt [where P = "\<lambda>x. length x = 25" and
        f = "\<lambda>ir A. iota ir (chi (pi (rho (theta A))))"])
     (simp_all add: length_chi assms)

section \<open>The sponge of FIPS 202\<close>

text \<open>Strings of bits as lists of bytes: bit \<open>k\<close> of the string is bit \<open>k mod 8\<close> of byte \<open>k div 8\<close>, and bit
\<open>k\<close> of a state is bit \<open>k mod 64\<close> of lane \<open>k div 64\<close>.\<close>

definition lane_in :: "u8 list \<Rightarrow> nat \<Rightarrow> u64" where
  "lane_in bs i = horner_sum of_bool 2 (map (\<lambda>z. bit (bs ! ((64 * i + z) div 8)) ((64 * i + z) mod 8)) [0..<64])"

definition byte_out :: "u64 list \<Rightarrow> nat \<Rightarrow> u8" where
  "byte_out s j = horner_sum of_bool 2 (map (\<lambda>b. bit (s ! ((8 * j + b) div 64)) ((8 * j + b) mod 64)) [0..<8])"

text \<open>The message followed by the domain bits \<open>p\<close> and \<open>pad10*1\<close>, up to a multiple of the rate.\<close>

definition sponge_pad :: "nat \<Rightarrow> u8 \<Rightarrow> u8 list \<Rightarrow> u8 list" where
  "sponge_pad r p m =
     (let q = r - length m mod r
      in m @ (if q = 1 then [p OR 128] else p # replicate (q - 2) 0 @ [128]))"

definition absorb_block :: "nat \<Rightarrow> u64 list \<Rightarrow> u8 list \<Rightarrow> u64 list" where
  "absorb_block r s P = map (\<lambda>i. s ! i XOR lane_in (P @ replicate (200 - r) 0) i) [0..<25]"

definition sponge_state :: "nat \<Rightarrow> u8 \<Rightarrow> u8 list \<Rightarrow> u64 list" where
  "sponge_state r p m =
     (let M = sponge_pad r p m
      in fold (\<lambda>k s. keccak_f (absorb_block r s (take r (drop (k * r) M)))) [0..<length M div r] (replicate 25 0))"

definition sponge :: "nat \<Rightarrow> u8 \<Rightarrow> u8 list \<Rightarrow> nat \<Rightarrow> u8 list" where
  "sponge r p m d = map (\<lambda>j. byte_out ((keccak_f ^^ (j div r)) (sponge_state r p m)) (j mod r)) [0..<d]"

lemma bit_lane_in: "bit (lane_in bs i) n \<longleftrightarrow> n < 64 \<and> bit (bs ! ((64 * i + n) div 8)) ((64 * i + n) mod 8)"
  by (auto simp add: lane_in_def bit_horner_sum_bit_word_iff)

lemma bit_byte_out: "bit (byte_out s j) n \<longleftrightarrow> n < 8 \<and> bit (s ! ((8 * j + n) div 64)) ((8 * j + n) mod 64)"
  by (auto simp add: byte_out_def bit_horner_sum_bit_word_iff)

lemma bit_keccak_load64: "bit (keccak_load64 x) n \<longleftrightarrow> n < 64 \<and> bit (x ! (n div 8)) (n mod 8)"
proof -
  have s: "bit (fold (\<lambda>i r. r OR push_bit (8 * i) (ucast (x ! i))) [0..<k] (0 :: u64)) n
     \<longleftrightarrow> n < 64 \<and> n div 8 < k \<and> bit (x ! (n div 8)) (n mod 8)" if "k \<le> 8" for k
    using that
  proof (induction k)
    case 0
    then show ?case by simp
  next
    case (Suc k)
    have e: "bit (push_bit (8 * k) (ucast (x ! k)) :: u64) n \<longleftrightarrow> n < 64 \<and> n div 8 = k \<and> bit (x ! (n div 8)) (n mod 8)"
    proof (cases "n < 64 \<and> 8 * k \<le> n")
      case True
      show ?thesis
      proof (cases "n div 8 = k")
        case e: True
        have "n - 8 * k = n mod 8" unfolding e [symmetric] by (simp add: minus_mult_div_eq_mod)
        moreover have "n mod 8 < 64" by (rule less_trans [OF mod_less_divisor]) simp_all
        ultimately show ?thesis using True e by (simp add: bit_push_bit_iff bit_ucast_iff)
      next
        case False
        then have "8 \<le> n - 8 * k" using True by linarith
        then have "\<not> bit (x ! k) (n - 8 * k)" by (auto dest: bit_imp_le_length)
        then show ?thesis using True False by (simp add: bit_push_bit_iff bit_ucast_iff)
      qed
    next
      case False
      then show ?thesis by (auto simp: bit_push_bit_iff dest: bit_imp_le_length)
    qed
    show ?case using Suc e by (auto simp: bit_or_iff less_Suc_eq)
  qed
  show ?thesis unfolding keccak_load64_def using s [of 8] by auto
qed

lemma byte_of_bit:
  fixes i n :: nat
  shows "(64 * i + n) div 8 = 8 * i + n div 8" "(64 * i + n) mod 8 = n mod 8"
proof -
  have e: "64 * i + n = n + 8 * (8 * i)" by simp
  show "(64 * i + n) div 8 = 8 * i + n div 8" unfolding e by (subst div_mult_self2) simp_all
  show "(64 * i + n) mod 8 = n mod 8" unfolding e by (rule mod_mult_self2)
qed

lemma load64_lane_in:
  assumes "8 * i + 8 \<le> length x"
  shows "keccak_load64 (drop (8 * i) x) = lane_in x i"
proof (rule bit_word_eqI)
  fix n
  show "bit (keccak_load64 (drop (8 * i) x)) n = bit (lane_in x i) n"
    using assms by (simp add: bit_keccak_load64 bit_lane_in byte_of_bit)
qed

lemma lane_in_cong:
  assumes "\<And>j. j < 8 \<Longrightarrow> x ! (8 * i + j) = y ! (8 * i + j)"
  shows "lane_in x i = lane_in y i"
proof (rule bit_word_eqI)
  fix n
  show "bit (lane_in x i) n = bit (lane_in y i) n"
    using assms [of "n div 8"] by (auto simp: bit_lane_in byte_of_bit)
qed

lemma lane_in_zero:
  assumes "\<And>j. j < 8 \<Longrightarrow> x ! (8 * i + j) = 0"
  shows "lane_in x i = 0"
proof (rule bit_word_eqI)
  fix n
  show "bit (lane_in x i) n = bit 0 n"
    using assms [of "n div 8"] by (auto simp: bit_lane_in byte_of_bit)
qed

lemma length_fold_update:
  "length (fold (\<lambda>i s. s[i := f i (s ! i)]) xs s) = length s"
  by (induction xs arbitrary: s) simp_all

lemma nth_fold_update:
  assumes "n \<le> length s" "i < length s"
  shows "fold (\<lambda>i s. s[i := f i (s ! i)]) [0..<n] s ! i = (if i < n then f i (s ! i) else s ! i)"
  using assms by (induction n) (auto simp: length_fold_update nth_list_update less_Suc_eq)

lemma length_xor_block [simp]: "length (xor_block s r m) = length s"
  unfolding xor_block_def by (rule length_fold_update [of "\<lambda>i v. v XOR keccak_load64 (drop (8 * i) m)"])

lemma nth_xor_block:
  assumes "r div 8 \<le> length s" "i < length s"
  shows "xor_block s r m ! i = (if i < r div 8 then s ! i XOR keccak_load64 (drop (8 * i) m) else s ! i)"
  unfolding xor_block_def
  by (rule nth_fold_update [of _ _ _ "\<lambda>i v. v XOR keccak_load64 (drop (8 * i) m)", OF assms])

lemma xor_block_is_absorb:
  assumes s: "length s = 25" and r: "8 dvd r" "r \<le> 200" and m: "r \<le> length m"
  shows "xor_block s r m = absorb_block r s (take r m)"
proof (rule nth_equalityI)
  show "length (xor_block s r m) = length (absorb_block r s (take r m))"
    by (simp add: s absorb_block_def)
  fix i
  assume "i < length (xor_block s r m)"
  then have i: "i < 25" by (simp add: s)
  obtain k where k: "r = 8 * k" using r by (elim dvdE)
  have a: "absorb_block r s (take r m) ! i = s ! i XOR lane_in (take r m @ replicate (200 - r) 0) i"
    using i by (simp add: absorb_block_def)
  show "xor_block s r m ! i = absorb_block r s (take r m) ! i"
  proof (cases "i < k")
    case True
    then have b: "8 * i + 8 \<le> r" using k by linarith
    have "keccak_load64 (drop (8 * i) m) = lane_in m i"
      using b m by (intro load64_lane_in) linarith
    also have "\<dots> = lane_in (take r m @ replicate (200 - r) 0) i"
      using b m by (intro lane_in_cong) (simp add: nth_append)
    finally show ?thesis unfolding a using True i r k by (simp add: nth_xor_block s)
  next
    case False
    then have b: "r \<le> 8 * i" using k by linarith
    have "lane_in (take r m @ replicate (200 - r) 0) i = 0"
      using b m i r by (intro lane_in_zero) (auto simp: nth_append)
    then show ?thesis unfolding a using False i r k by (simp add: nth_xor_block s)
  qed
qed

lemma nth_concat_chunks:
  assumes "\<And>i. i < k \<Longrightarrow> length (f i) = c" "0 < c"
  shows "concat (map f [0..<k]) = map (\<lambda>j. f (j div c) ! (j mod c)) [0..<k * c]"
  using assms(1)
proof (induction k)
  case 0
  then show ?case by simp
next
  case (Suc k)
  have l: "length (f k) = c" using Suc.prems by simp
  have "map (\<lambda>j. f (j div c) ! (j mod c)) [k * c..<k * c + c] = map (\<lambda>j. f k ! j) [0..<c]"
    using \<open>0 < c\<close> by (intro nth_equalityI) simp_all
  also have "\<dots> = f k" using map_nth [of "f k"] l by simp
  finally have e: "map (\<lambda>j. f (j div c) ! (j mod c)) [k * c..<k * c + c] = f k" .
  have "[0..<Suc k * c] = [0..<k * c] @ [k * c..<k * c + c]"
    using upt_add_eq_append [of 0 "k * c" c] by (simp add: add.commute)
  then show ?case using Suc e by simp
qed

lemma store64_byte_out:
  assumes "b < 8"
  shows "keccak_store64 (s ! i) ! b = byte_out s (8 * i + b)"
proof (rule bit_word_eqI)
  fix n
  assume "n < LENGTH(8)"
  then have n: "n < 8" by simp
  have "8 * (8 * i + b) + n = 64 * i + (8 * b + n)" "8 * b + n < 64"
    using assms n by simp_all
  moreover have "(64 * i + z) div 64 = i \<and> (64 * i + z) mod 64 = z" if "z < 64" for z :: nat
    using that by simp
  ultimately have "(8 * (8 * i + b) + n) div 64 = i" "(8 * (8 * i + b) + n) mod 64 = 8 * b + n"
    by presburger+
  then show "bit (keccak_store64 (s ! i) ! b) n = bit (byte_out s (8 * i + b)) n"
    using assms n by (simp add: keccak_store64_def bit_byte_out bit_ucast_iff bit_drop_bit_eq)
qed

lemma squeeze_block:
  assumes "8 dvd r"
  shows "concat (map (\<lambda>i. keccak_store64 (s ! i)) [0..<r div 8]) = map (byte_out s) [0..<r]"
proof -
  have "concat (map (\<lambda>i. keccak_store64 (s ! i)) [0..<r div 8])
      = map (\<lambda>j. keccak_store64 (s ! (j div 8)) ! (j mod 8)) [0..<r div 8 * 8]"
    by (rule nth_concat_chunks) (simp_all add: keccak_store64_def)
  also have "\<dots> = map (byte_out s) [0..<r]"
    using assms by (simp add: store64_byte_out)
  finally show ?thesis .
qed

lemma length_keccak_f_pow: "length s = 25 \<Longrightarrow> length ((keccak_f ^^ n) s) = 25"
  by (induction n) (simp_all add: length_keccak_f)

lemma squeezeblocks_correct:
  assumes "8 dvd r" "0 < r" "length s = 25"
  shows "keccak_squeezeblocks n s r =
    (map (\<lambda>j. byte_out ((keccak_f ^^ (j div r + 1)) s) (j mod r)) [0..<n * r], (keccak_f ^^ n) s)"
  using assms(3)
proof (induction n arbitrary: s)
  case 0
  then show ?case by simp
next
  case (Suc n)
  let ?g = "\<lambda>s j. byte_out ((keccak_f ^^ (j div r + 1)) s) (j mod r)"
  have "map (?g s) [r..<r + n * r] = map (?g (keccak_f s)) [0..<n * r]"
    using assms(2) by (intro nth_equalityI) (simp_all add: funpow_swap1 div_add_self1)
  moreover have "map (?g s) [0..<r] = map (byte_out (keccak_f s)) [0..<r]"
    by (rule map_cong) simp_all
  moreover have "[0..<Suc n * r] = [0..<r] @ [r..<r + n * r]"
    using upt_add_eq_append [of 0 r "n * r"] by simp
  ultimately have "map (?g s) [0..<Suc n * r] = map (byte_out (keccak_f s)) [0..<r] @ map (?g (keccak_f s)) [0..<n * r]"
    by (simp only: map_append)
  then show ?case
    using Suc.IH [OF length_keccak_f [OF Suc.prems]] Suc.prems
    by (simp add: Let_def StatePermute_is_keccak_f squeeze_block [OF assms(1)] funpow_swap1 del: upt_Suc)
qed

lemma length_absorb_block [simp]: "length (absorb_block r s P) = 25"
  by (simp add: absorb_block_def)

lemma length_absorb_fold:
  "length s = 25 \<Longrightarrow> length (fold (\<lambda>k s. keccak_f (absorb_block r s (P k))) ks s) = 25"
  by (induction ks arbitrary: s) (simp_all add: length_keccak_f)

lemma absorb_loop_correct:
  assumes "8 dvd r" "0 < r" "r \<le> 200" "length s = 25"
  shows "keccak_absorb_loop s r m =
    Some (fold (\<lambda>k s. keccak_f (absorb_block r s (take r (drop (k * r) m)))) [0..<length m div r] s,
          drop (length m div r * r) m)"
  using assms(4)
proof (induction m arbitrary: s rule: length_induct)
  case (1 m)
  show ?case
  proof (cases "r \<le> length m")
    case False
    then show ?thesis by (simp add: keccak_absorb_loop.simps)
  next
    case True
    let ?s = "keccak_f (absorb_block r s (take r m))"
    have st: "KeccakF1600_StatePermute (xor_block s r m) = ?s"
      using True assms "1.prems" by (simp add: xor_block_is_absorb StatePermute_is_keccak_f)
    have d: "length m div r = Suc (length (drop r m) div r)"
      using True assms(2) by (simp add: le_div_geq)
    have "keccak_absorb_loop s r m = keccak_absorb_loop ?s r (drop r m)"
      by (subst keccak_absorb_loop.simps) (simp add: True st Let_def)
    also have "\<dots> = Some (fold (\<lambda>k s. keccak_f (absorb_block r s (take r (drop (k * r) (drop r m)))))
        [0..<length (drop r m) div r] ?s, drop (length (drop r m) div r * r) (drop r m))"
      using 1 True assms(2) by (simp add: length_keccak_f)
    also have "\<dots> = Some (fold (\<lambda>k s. keccak_f (absorb_block r s (take r (drop (k * r) m)))) [0..<length m div r] s,
          drop (length m div r * r) m)"
      unfolding d upt_conv_Cons [OF zero_less_Suc]
      by (simp add: map_Suc_upt [symmetric] fold_map comp_def add.commute del: upt_Suc length_drop)
    finally show ?thesis .
  qed
qed

lemma length_sponge_pad:
  assumes "0 < r"
  shows "length (sponge_pad r p m) = (length m div r + 1) * r"
proof -
  have "length m mod r < r" using assms by simp
  then have "length (sponge_pad r p m) = length m + (r - length m mod r)"
    by (auto simp: sponge_pad_def Let_def)
  also have "\<dots> = length m div r * r + r"
    using \<open>length m mod r < r\<close> div_mult_mod_eq [of "length m" r] by linarith
  finally show ?thesis by simp
qed

lemma final_block:
  fixes p :: u8
  assumes r: "0 < r" "r \<le> 200" and x: "length x < r"
  defines "t \<equiv> (x @ drop (length x) (replicate 200 0))[length x := p]"
  shows "take r (t[r - 1 := t ! (r - 1) OR 128]) =
    x @ (if r - length x = 1 then [p OR 128] else p # replicate (r - length x - 2) 0 @ [128 :: u8])"
    (is "?l = ?r")
proof (rule nth_equalityI)
  show "length ?l = length ?r" using r x by (auto simp: t_def)
next
  fix i
  assume "i < length ?l"
  then have i: "i < r" by simp
  have t: "t ! j = (if j < length x then x ! j else if j = length x then p else 0)" if "j < 200" for j
    using that x by (simp add: t_def nth_append nth_list_update)
  have lt: "length t = 200" using r x by (simp add: t_def)
  show "?l ! i = ?r ! i"
    using i x r lt by (auto simp: t nth_append nth_list_update nth_Cons')
qed


lemma absorb_correct:
  assumes "8 dvd r" "0 < r" "r \<le> 200"
  obtains s where "keccak_absorb r m p = Some s" "length s = 25" "keccak_f s = sponge_state r p m"
proof -
  let ?q = "length m div r"
  let ?M = "sponge_pad r p m"
  let ?step = "\<lambda>M k s. keccak_f (absorb_block r s (take r (drop (k * r) M)))"
  let ?s = "fold (?step m) [0..<?q] (replicate 25 0)"
  let ?x = "drop (?q * r) m"
  let ?t = "(?x @ drop (length ?x) (replicate 200 0))[length ?x := p]"
  let ?t' = "?t[r - 1 := ?t ! (r - 1) OR 128]"
  have q: "?q * r \<le> length m" and lx: "length ?x = length m mod r" and x: "length ?x < r"
    using assms(2) by (simp_all add: minus_div_mult_eq_mod)
  have M: "?M = m @ (if r - length ?x = 1 then [p OR 128] else p # replicate (r - length ?x - 2) 0 @ [128])"
    by (simp only: sponge_pad_def lx Let_def)
  have ls: "length ?s = 25" by (rule length_absorb_fold) simp
  have lt: "r \<le> length ?t'" using assms(3) x by simp
  have code: "keccak_absorb r m p = Some (absorb_block r ?s (take r ?t'))"
    by (simp only: keccak_absorb_def Let_def absorb_loop_correct [OF assms length_replicate]
        Option.bind.bind_lunit prod.case xor_block_is_absorb [OF ls assms(1) assms(3) lt])
  have last: "take r ?t' = drop (?q * r) ?M"
    unfolding M using q final_block [OF assms(2,3) x, of p] by simp
  have full: "?step ?M k s = ?step m k s" if "k < ?q" for k s
  proof -
    have "k * r + r \<le> ?q * r" using that mult_le_mono1 [of "Suc k" ?q r] by simp
    then have "k * r + r \<le> length m" using q by linarith
    then have "take r (drop (k * r) (m @ z)) = take r (drop (k * r) m)" for z by simp
    then show ?thesis unfolding M by (simp only:)
  qed
  have "take r (drop (?q * r) ?M) = drop (?q * r) ?M"
    using assms(2) by (simp add: length_sponge_pad)
  then have "sponge_state r p m = keccak_f (absorb_block r (fold (?step ?M) [0..<?q] (replicate 25 0)) (drop (?q * r) ?M))"
    using assms(2) by (simp add: sponge_state_def Let_def length_sponge_pad)
  also have "fold (?step ?M) [0..<?q] (replicate 25 0) = ?s"
    using full by (intro fold_cong) simp_all
  finally show ?thesis using that [OF code] last by simp
qed

lemma sponge_squeezed:
  assumes "8 dvd r" "0 < r" "length s = 25" "keccak_f s = sponge_state r p m" "k \<le> n * r"
  shows "take k (fst (keccak_squeezeblocks n s r)) = sponge r p m k"
  unfolding squeezeblocks_correct [OF assms(1-3)] fst_conv sponge_def take_map assms(4) [symmetric]
  using assms(5) by (simp add: take_upt funpow_swap1)

lemma squeezeblocks_append:
  "keccak_squeezeblocks (n + k) s r =
    (let (a, s) = keccak_squeezeblocks n s r; (b, s) = keccak_squeezeblocks k s r in (a @ b, s))"
  by (induction n arbitrary: s) (simp_all add: Let_def split_def)

lemma shake_correct:
  assumes r: "8 dvd r" "0 < r" "r \<le> 200"
  shows "Option.bind (keccak_absorb r inp p) (\<lambda>state.
        let (out, state) = keccak_squeezeblocks (outlen div r) state r;
            rest = outlen - outlen div r * r
        in if rest \<noteq> 0 then
             let (t, state) = keccak_squeezeblocks 1 state r in Some (out @ take rest t)
           else Some out) = Some (sponge r p inp outlen)"
proof -
  obtain s where s: "keccak_absorb r inp p = Some s" "length s = 25" "keccak_f s = sponge_state r p inp"
    using absorb_correct [OF r] by blast
  let ?n = "outlen div r"
  let ?rest = "outlen - ?n * r"
  obtain a s1 where a: "keccak_squeezeblocks ?n s r = (a, s1)" by fastforce
  obtain b s2 where b: "keccak_squeezeblocks 1 s1 r = (b, s2)" by fastforce
  have ab: "keccak_squeezeblocks (?n + 1) s r = (a @ b, s2)"
    by (simp only: squeezeblocks_append a b Let_def prod.case)
  have la: "length a = ?n * r"
    using arg_cong [OF a, of "\<lambda>z. length (fst z)"] by (simp add: squeezeblocks_correct [OF r(1,2) s(2)])
  have le: "outlen \<le> (?n + 1) * r"
    using div_mult_mod_eq [of outlen r] mod_less_divisor [OF r(2), of outlen]
    unfolding add_mult_distrib by linarith
  have out: "take outlen (a @ b) = sponge r p inp outlen"
    using sponge_squeezed [OF r(1,2) s(2,3) le] unfolding ab fst_conv .
  moreover have "take outlen a = a" using la by (simp add: div_times_less_eq_dividend)
  ultimately show ?thesis
    unfolding s(1) Option.bind.bind_lunit a prod.case b Let_def by (auto simp: la)
qed

lemma sha3_correct:
  assumes r: "8 dvd r" "0 < r" "r \<le> 200" and k: "k \<le> r"
  shows "Option.bind (keccak_absorb r inp p) (\<lambda>s.
      let (t, s) = keccak_squeezeblocks 1 s r in Some (take k t)) = Some (sponge r p inp k)"
proof -
  obtain s where s: "keccak_absorb r inp p = Some s" "length s = 25" "keccak_f s = sponge_state r p inp"
    using absorb_correct [OF r] by blast
  show ?thesis
    using sponge_squeezed [OF r(1,2) s(2,3), of k 1] k by (simp add: s(1) split_def Let_def)
qed

text \<open>
  C31. \<open>shake128\<close> and \<open>shake256\<close> return the FIPS 202 sponge output with rates 168 and 136 and domain suffix
  \<open>1111\<close> for every message and every output length, and \<open>sha3_256\<close> and \<open>sha3_512\<close> that of SHA-3; in particular
  the absorbing loop ends.
\<close>

theorem shake_sha3_fips202:
  "shake128 outlen inp = Some (sponge 168 0x1F inp outlen)
   \<and> shake256 outlen inp = Some (sponge 136 0x1F inp outlen)
   \<and> sha3_256 inp = Some (sponge 136 0x06 inp 32)
   \<and> sha3_512 inp = Some (sponge 72 0x06 inp 64)"
  using shake_correct [where r = 168 and inp = inp and p = "0x1F" and outlen = outlen]
    shake_correct [where r = 136 and inp = inp and p = "0x1F" and outlen = outlen]
    sha3_correct [where r = 136 and inp = inp and p = 6 and k = 32]
    sha3_correct [where r = 72 and inp = inp and p = 6 and k = 64]
  unfolding shake128_def shake128_absorb_def shake128_squeezeblocks_def SHAKE128_RATE_def
      shake256_def shake256_absorb_def shake256_squeezeblocks_def SHAKE256_RATE_def
      sha3_256_def SHA3_256_RATE_def sha3_512_def SHA3_512_RATE_def Let_def
  by (intro conjI) simp_all
end
