(* ===== verification/Random_Gen.thy ===== *)
theory Random_Gen
  imports Blake2xb Fips202
begin

unbundle bit_operations_syntax

text \<open>
  The seeded generators of random bytes: \<open>heu/library/algorithms/seal_gpu/randomgen.h\<close> and
  \<open>randomgen.cpp\<close>. A generator keeps a buffer of 4096 bytes, a position in it and the number of the
  next block; the two classes differ in the function that computes a block. The contract of that
  function is a locale, interpreted for both. Words are laid out in memory as on a little-endian
  machine.
\<close>

section \<open>Random bytes of the system\<close>

text \<open>The successive words of the random device are \<open>rd 0\<close>, \<open>rd 1\<close> and so on.\<close>

fun random_bytes_loop :: "(nat \<Rightarrow> u32) \<Rightarrow> nat \<Rightarrow> nat \<Rightarrow> u8 list" where
  "random_bytes_loop rd n cnt =
     (if cnt \<ge> 4 then store32 (rd n) @ random_bytes_loop rd (n + 1) (cnt - 4)
      else if cnt \<noteq> 0 then take cnt (store32 (rd n))
      else [])"

definition random_bytes :: "(nat \<Rightarrow> u32) \<Rightarrow> nat \<Rightarrow> u8 list" where
  "random_bytes rd cnt = random_bytes_loop rd 0 cnt"

definition random_uint64 :: "(nat \<Rightarrow> u32) \<Rightarrow> u64" where
  "random_uint64 rd = load64 (random_bytes rd 8)"

section \<open>The generator\<close>

datatype PRNGType = PRNG_unknown | PRNG_blake2xb | PRNG_shake256

definition prng_seed_uint64_count :: nat where "prng_seed_uint64_count = 8"
definition prng_seed_byte_count :: nat where "prng_seed_byte_count = prng_seed_uint64_count * 8"
definition buffer_size :: nat where "buffer_size = 4096"

record UniformRandomGenerator =
  gen_type :: PRNGType
  gen_seed :: "u64 list"
  gen_buffer :: "u8 list"
  gen_current :: nat
  gen_counter :: u64

record UniformRandomGeneratorInfo =
  info_type :: PRNGType
  info_seed :: "u64 list"

definition words_bytes :: "u64 list \<Rightarrow> u8 list" where
  "words_bytes ws = concat (map store64 ws)"

text \<open>The constructor; \<open>mem\<close> is the memory that the buffer finds.\<close>

definition new_generator :: "u8 list \<Rightarrow> PRNGType \<Rightarrow> u64 list \<Rightarrow> UniformRandomGenerator" where
  "new_generator mem ty seed =
     \<lparr>gen_type = ty, gen_seed = take prng_seed_uint64_count seed, gen_buffer = mem,
      gen_current = 4096, gen_counter = 0\<rparr>"

definition generator_seed :: "UniformRandomGenerator \<Rightarrow> u64 list" where
  "generator_seed g = take prng_seed_uint64_count (gen_seed g)"

text \<open>The hash state on the stack is uninitialised: an argument.\<close>

definition Blake2xb_refill_buffer ::
    "blake2xb_state \<Rightarrow> UniformRandomGenerator \<Rightarrow> UniformRandomGenerator res option" where
  "Blake2xb_refill_buffer stack_S g =
     (let (r, out) = blake2xb stack_S (Some (gen_buffer g)) buffer_size
            (Some (store64 (gen_counter g))) 8
            (Some (words_bytes (gen_seed g))) (length (gen_seed g) * 8)
      in Some (if r \<noteq> 0 then Inl (Runtime_error ''blake2xb failed'')
               else Inr (g\<lparr>gen_buffer := the out, gen_counter := gen_counter g + 1\<rparr>)))"

definition Shake256_refill_buffer :: "UniformRandomGenerator \<Rightarrow> UniformRandomGenerator res option" where
  "Shake256_refill_buffer g =
     (let seed_ext = take prng_seed_uint64_count (gen_seed g) @ [gen_counter g]
      in map_option (\<lambda>out. Inr (g\<lparr>gen_buffer := out, gen_counter := gen_counter g + 1\<rparr>))
           (shake256 buffer_size (words_bytes seed_ext)))"

text \<open>The virtual call; there is no class for the unknown type.\<close>

definition refill_buffer ::
    "blake2xb_state \<Rightarrow> UniformRandomGenerator \<Rightarrow> UniformRandomGenerator res option" where
  "refill_buffer stack_S g =
     (case gen_type g of
        PRNG_blake2xb \<Rightarrow> Blake2xb_refill_buffer stack_S g
      | PRNG_shake256 \<Rightarrow> Shake256_refill_buffer g
      | PRNG_unknown \<Rightarrow> None)"

text \<open>The loop of \<open>generate\<close>; the result is the generator and the bytes written so far.\<close>

partial_function (option) generate_loop ::
    "(UniformRandomGenerator \<Rightarrow> UniformRandomGenerator res option) \<Rightarrow> nat \<Rightarrow> u8 list \<Rightarrow>
     UniformRandomGenerator \<Rightarrow> (UniformRandomGenerator \<times> u8 list) res option" where
  "generate_loop refill byte_count destination g =
     (if byte_count \<noteq> 0 then
        let current_bytes = min byte_count (buffer_size - gen_current g);
            destination = destination @ take current_bytes (drop (gen_current g) (gen_buffer g));
            g = g\<lparr>gen_current := gen_current g + current_bytes\<rparr>;
            byte_count = byte_count - current_bytes
        in if gen_current g = buffer_size
           then Option.bind (refill g) (\<lambda>r. case r of
                  Inl e \<Rightarrow> Some (Inl e)
                | Inr g \<Rightarrow> generate_loop refill byte_count destination (g\<lparr>gen_current := 0\<rparr>))
           else generate_loop refill byte_count destination g
      else Some (Inr (g, destination)))"

declare generate_loop.simps [code]

definition generate ::
    "blake2xb_state \<Rightarrow> nat \<Rightarrow> UniformRandomGenerator \<Rightarrow> (UniformRandomGenerator \<times> u8 list) res option" where
  "generate stack_S byte_count g = generate_loop (refill_buffer stack_S) byte_count [] g"

definition generate32 ::
    "blake2xb_state \<Rightarrow> UniformRandomGenerator \<Rightarrow> (UniformRandomGenerator \<times> u32) res option" where
  "generate32 stack_S g =
     map_option (\<lambda>r. rbind r (\<lambda>(g, bytes). Inr (g, load32 bytes))) (generate stack_S 4 g)"

definition refresh ::
    "blake2xb_state \<Rightarrow> UniformRandomGenerator \<Rightarrow> UniformRandomGenerator res option" where
  "refresh stack_S g = refill_buffer stack_S g"

definition generator_info :: "UniformRandomGenerator \<Rightarrow> UniformRandomGeneratorInfo" where
  "generator_info g =
     \<lparr>info_type = gen_type g, info_seed = take prng_seed_uint64_count (gen_seed g)\<rparr>"

definition make_prng :: "u8 list \<Rightarrow> UniformRandomGeneratorInfo \<Rightarrow> UniformRandomGenerator option" where
  "make_prng mem info =
     (case info_type info of
        PRNG_blake2xb \<Rightarrow> Some (new_generator mem PRNG_blake2xb (info_seed info))
      | PRNG_shake256 \<Rightarrow> Some (new_generator mem PRNG_shake256 (info_seed info))
      | PRNG_unknown \<Rightarrow> None)"

definition info_eq :: "UniformRandomGeneratorInfo \<Rightarrow> UniformRandomGeneratorInfo \<Rightarrow> bool" where
  "info_eq i compare = (info_seed i = info_seed compare \<and> info_type i = info_type compare)"

definition info_clear :: "UniformRandomGeneratorInfo \<Rightarrow> UniformRandomGeneratorInfo" where
  "info_clear info = info\<lparr>info_type := PRNG_unknown, info_seed := replicate prng_seed_uint64_count 0\<rparr>"

definition has_valid_PRNGType :: "UniformRandomGeneratorInfo \<Rightarrow> bool" where
  "has_valid_PRNGType info =
     (case info_type info of PRNG_blake2xb \<Rightarrow> True | PRNG_shake256 \<Rightarrow> True | PRNG_unknown \<Rightarrow> True)"

section \<open>Factories\<close>

text \<open>The class of the factory is the type of the generators it makes.\<close>

record UniformRandomGeneratorFactory =
  fac_type :: PRNGType
  fac_default_seed :: "u64 list"
  fac_use_random_seed :: bool

definition new_factory :: "PRNGType \<Rightarrow> UniformRandomGeneratorFactory" where
  "new_factory ty = \<lparr>fac_type = ty, fac_default_seed = replicate 8 0, fac_use_random_seed = True\<rparr>"

definition new_factory_seed :: "PRNGType \<Rightarrow> u64 list \<Rightarrow> UniformRandomGeneratorFactory" where
  "new_factory_seed ty default_seed =
     \<lparr>fac_type = ty, fac_default_seed = default_seed, fac_use_random_seed = False\<rparr>"

definition create_impl :: "u8 list \<Rightarrow> UniformRandomGeneratorFactory \<Rightarrow> u64 list \<Rightarrow> UniformRandomGenerator" where
  "create_impl mem f seed = new_generator mem (fac_type f) seed"

definition random_seed :: "(nat \<Rightarrow> u32) \<Rightarrow> u64 list" where
  "random_seed rd =
     (let bytes = random_bytes rd prng_seed_byte_count
      in map (\<lambda>i. load64 (drop (8 * i) bytes)) [0..<prng_seed_uint64_count])"

definition factory_create :: "(nat \<Rightarrow> u32) \<Rightarrow> u8 list \<Rightarrow> UniformRandomGeneratorFactory \<Rightarrow> UniformRandomGenerator" where
  "factory_create rd mem f =
     (if fac_use_random_seed f then create_impl mem f (random_seed rd)
      else create_impl mem f (fac_default_seed f))"

definition factory_create_seed :: "u8 list \<Rightarrow> UniformRandomGeneratorFactory \<Rightarrow> u64 list \<Rightarrow> UniformRandomGenerator" where
  "factory_create_seed mem f seed = create_impl mem f seed"

definition DefaultFactory :: UniformRandomGeneratorFactory where
  "DefaultFactory = new_factory PRNG_blake2xb"


section \<open>The contract of a block function\<close>

text \<open>
  What \<open>generate\<close> needs of \<open>refill_buffer\<close>: it replaces the buffer by the block that the key of the
  generator (its class and its seed) and the counter determine, and counts up.
\<close>

locale block_source =
  fixes refill :: "UniformRandomGenerator \<Rightarrow> UniformRandomGenerator res option"
    and ok :: "UniformRandomGenerator \<Rightarrow> bool"
    and key :: "UniformRandomGenerator \<Rightarrow> 'k"
    and block :: "'k \<Rightarrow> u64 \<Rightarrow> u8 list"
  assumes ok_buffer: "ok g \<Longrightarrow> ok (g\<lparr>gen_buffer := b, gen_counter := c\<rparr>)"
    and ok_current: "ok g \<Longrightarrow> ok (g\<lparr>gen_current := i\<rparr>)"
    and key_buffer: "key (g\<lparr>gen_buffer := b, gen_counter := c\<rparr>) = key g"
    and key_current: "key (g\<lparr>gen_current := i\<rparr>) = key g"
    and refill_block: "ok g \<Longrightarrow> length (gen_buffer g) = 4096 \<Longrightarrow>
      refill g = Some (Inr (g\<lparr>gen_buffer := block (key g) (gen_counter g), gen_counter := gen_counter g + 1\<rparr>))"
    and length_block: "ok g \<Longrightarrow> length (block (key g) c) = 4096"
begin

text \<open>The infinite stream of a seed, and the position of a generator in it.\<close>

definition stream :: "'k \<Rightarrow> nat \<Rightarrow> u8" where
  "stream k p = block k (of_nat (p div 4096)) ! (p mod 4096)"

definition at :: "UniformRandomGenerator \<Rightarrow> nat \<Rightarrow> bool" where
  "at g p \<longleftrightarrow> ok g \<and> length (gen_buffer g) = 4096 \<and> gen_current g \<le> 4096 \<and>
     (\<exists>k. gen_counter g = of_nat k \<and> p + 4096 = 4096 * k + gen_current g \<and>
        (0 < k \<longrightarrow> gen_buffer g = block (key g) (of_nat (k - 1))))"

lemma at_new:
  assumes "ok (new_generator mem ty seed)" "length mem = 4096"
  shows "at (new_generator mem ty seed) 0"
  using assms by (auto simp: at_def new_generator_def intro!: exI [of _ 0])

lemma at_refill:
  assumes "at g p"
  obtains g' where "refill g = Some (Inr g')" "at g' (p + 4096)" "key g' = key g"
    "gen_current g' = gen_current g" "gen_current g = 4096 \<Longrightarrow> at (g'\<lparr>gen_current := 0\<rparr>) p"
proof -
  obtain k where k: "ok g" "length (gen_buffer g) = 4096" "gen_current g \<le> 4096" "gen_counter g = of_nat k"
    "p + 4096 = 4096 * k + gen_current g"
    using assms unfolding at_def by blast
  let ?g = "g\<lparr>gen_buffer := block (key g) (gen_counter g), gen_counter := gen_counter g + 1\<rparr>"
  have ok: "ok ?g" "ok (?g\<lparr>gen_current := 0\<rparr>)" using ok_buffer [OF k(1)] ok_current by blast+
  have "at ?g (p + 4096)"
    unfolding at_def using ok k key_buffer key_current length_block [OF k(1)] by (auto intro!: exI [of _ "Suc k"])
  moreover have "at (?g\<lparr>gen_current := 0\<rparr>) p" if "gen_current g = 4096"
    unfolding at_def using that ok k key_buffer key_current length_block [OF k(1)] by (auto intro!: exI [of _ "Suc k"])
  ultimately show ?thesis using that [OF refill_block [OF k(1,2)]] key_buffer by simp
qed

lemma at_chunk:
  assumes "at g p" "gen_current g + n \<le> 4096"
  shows "take n (drop (gen_current g) (gen_buffer g)) = map (stream (key g)) [p..<p + n]"
    and "at (g\<lparr>gen_current := gen_current g + n\<rparr>) (p + n)"
proof -
  obtain k where k: "ok g" "length (gen_buffer g) = 4096" "gen_counter g = of_nat k"
    "p + 4096 = 4096 * k + gen_current g" "0 < k \<longrightarrow> gen_buffer g = block (key g) (of_nat (k - 1))"
    using assms(1) unfolding at_def by blast
  show "take n (drop (gen_current g) (gen_buffer g)) = map (stream (key g)) [p..<p + n]"
  proof (rule nth_equalityI)
    show "length (take n (drop (gen_current g) (gen_buffer g))) = length (map (stream (key g)) [p..<p + n])"
      using k(2) assms(2) by simp
    fix i
    assume "i < length (take n (drop (gen_current g) (gen_buffer g)))"
    then have i: "i < n" "gen_current g + i < 4096" using assms(2) by simp_all
    have k0: "0 < k" using k(4) i(2) by (cases k) auto
    then have p: "p + i = (k - 1) * 4096 + (gen_current g + i)" using k(4) by (cases k) auto
    have "(p + i) div 4096 = k - 1" "(p + i) mod 4096 = gen_current g + i"
      unfolding p using i(2) by simp_all
    then show "take n (drop (gen_current g) (gen_buffer g)) ! i = map (stream (key g)) [p..<p + n] ! i"
      using i k k0 by (simp add: stream_def)
  qed
  show "at (g\<lparr>gen_current := gen_current g + n\<rparr>) (p + n)"
    unfolding at_def using k assms(2) ok_current [OF k(1)] key_current by auto
qed

lemma generate_loop_0: "generate_loop f 0 out g = Some (Inr (g, out))"
  by (subst generate_loop.simps) simp

lemma generate_loop_stream:
  assumes "at g p"
  shows "\<exists>g'. generate_loop refill n out g = Some (Inr (g', out @ map (stream (key g)) [p..<p + n])) \<and>
    at g' (p + n) \<and> key g' = key g"
  using assms
proof (induction "2 * n + of_bool (gen_current g = 4096)" arbitrary: n out g p rule: less_induct)
  case less
  show ?case
  proof (cases "n = 0")
    case True
    then show ?thesis using less.prems by (subst generate_loop.simps) simp
  next
    case False
    let ?cur = "gen_current g" and ?m = "min n (4096 - gen_current g)"
    let ?g = "g\<lparr>gen_current := gen_current g + ?m\<rparr>" and ?out = "out @ map (stream (key g)) [p..<p + ?m]"
    have cur: "?cur \<le> 4096" "?cur + ?m \<le> 4096" using less.prems by (auto simp: at_def)
    note c = at_chunk [OF less.prems cur(2)]
    have map: "map (stream (key g)) [p..<p + ?m] @ map (stream (key g)) [p + ?m..<p + n]
        = map (stream (key g)) [p..<p + n]"
      using upt_add_eq_append [of p "p + ?m" "n - ?m"] by simp
    have loop: "generate_loop refill n out g = (if ?cur + ?m = 4096
      then Option.bind (refill ?g) (\<lambda>r. case r of Inl e \<Rightarrow> Some (Inl e)
        | Inr g \<Rightarrow> generate_loop refill (n - ?m) ?out (g\<lparr>gen_current := 0\<rparr>))
      else generate_loop refill (n - ?m) ?out ?g)"
      by (subst generate_loop.simps, unfold Let_def buffer_size_def c(1)) (simp add: False)
    show ?thesis
    proof (cases "?cur + ?m = 4096")
      case full: True
      obtain g' where g': "refill ?g = Some (Inr g')" "key g' = key g"
        "at (g'\<lparr>gen_current := 0\<rparr>) (p + ?m)"
        by (rule at_refill [OF c(2)]) (use full key_current in simp_all)
      have "2 * (n - ?m) + of_bool (gen_current (g'\<lparr>gen_current := 0\<rparr>) = 4096) < 2 * n + of_bool (?cur = 4096)"
        using False cur full by (cases "?cur = 4096") auto
      from less.hyps [OF this g'(3), of ?out] g' show ?thesis
        unfolding loop using full map key_current by (auto simp: add.assoc)
    next
      case False
      then have m: "?m = n" using cur by (auto simp: min_def split: if_splits)
      have "generate_loop refill n out g = Some (Inr (?g, ?out))"
        unfolding loop if_not_P [OF False] unfolding m diff_self_eq_0 by (rule generate_loop_0)
      then show ?thesis using c(2) key_current unfolding m by auto
    qed
  qed
qed

end


section \<open>The two block functions\<close>

lemma length_words_bytes [simp]: "length (words_bytes ws) = 8 * length ws"
  by (simp add: words_bytes_def length_concat_store64)

lemma blake2xb_value:
  assumes "0 < n" "n \<le> 0xFFFFFFFF" "n \<le> length dst" "length key \<le> 64"
  shows "blake2xb stack_S (Some dst) n (Some msg) (length msg) (Some key) (length key) =
    (0, Some (xof_spec n key msg @ drop n dst))"
proof -
  let ?d = "if key = [] then [] else key @ replicate (128 - length key) 0"
  obtain S where S: "blake2xb_init_key stack_S n (Some key) (length key) = (0, S)"
    "xb_P S = root_param n (length key)" "hashing (root_param n (length key)) ?d (xb_S S)"
    using blake2xb_init_key_hashing [OF assms(1,2,4)] by blast
  let ?S = "snd (blake2xb_update S msg)"
  have upd: "xb_S ?S = snd (blake2b_update (xb_S S) msg)" "xb_P ?S = xb_P S"
    by (auto simp: blake2xb_update_def split: prod.splits)
  have "hashing (root_param n (length key)) (?d @ msg) (xb_S ?S)"
    unfolding upd by (rule hashing_update [OF S(3)])
  then obtain S' where S': "blake2xb_final ?S (Some dst) n = (0, S', Some (memcpy_at dst 0 (xof_spec n key msg)))"
    using blake2xb_final_spec [of n key msg ?S dst] assms(1-3) S(2) upd(2) by auto
  show ?thesis
    using S(1) S' assms(1,4)
    by (auto simp: blake2xb_def BLAKE2B_KEYBYTES_def memcpy_at_0 length_xof_spec split: prod.splits)
qed

lemma shake256_value: "shake256 n inp = Some (sponge 136 0x1F inp n)"
  using shake_correct [of 136 inp "0x1F" n]
  unfolding shake256_def shake256_absorb_def shake256_squeezeblocks_def SHAKE256_RATE_def Let_def by simp

definition seeded :: "PRNGType \<Rightarrow> UniformRandomGenerator \<Rightarrow> bool" where
  "seeded ty g \<longleftrightarrow> gen_type g = ty \<and> length (gen_seed g) = 8"

definition blake2xb_block :: "u64 list \<Rightarrow> u64 \<Rightarrow> u8 list" where
  "blake2xb_block seed c = xof_spec 4096 (words_bytes seed) (store64 c)"

definition shake256_block :: "u64 list \<Rightarrow> u64 \<Rightarrow> u8 list" where
  "shake256_block seed c = sponge 136 0x1F (words_bytes (seed @ [c])) 4096"

interpretation blake: block_source "Blake2xb_refill_buffer stack_S" "seeded PRNG_blake2xb" gen_seed blake2xb_block
  for stack_S
proof
  fix g :: UniformRandomGenerator
  assume g: "seeded PRNG_blake2xb g" "length (gen_buffer g) = 4096"
  have "blake2xb stack_S (Some (gen_buffer g)) 4096 (Some (store64 (gen_counter g))) 8
      (Some (words_bytes (gen_seed g))) (length (gen_seed g) * 8) =
    (0, Some (blake2xb_block (gen_seed g) (gen_counter g)))"
    using blake2xb_value [of 4096 "gen_buffer g" "words_bytes (gen_seed g)" stack_S "store64 (gen_counter g)"] g
    by (simp add: seeded_def blake2xb_block_def mult.commute)
  then show "Blake2xb_refill_buffer stack_S g = Some (Inr (g\<lparr>gen_buffer := blake2xb_block (gen_seed g) (gen_counter g),
      gen_counter := gen_counter g + 1\<rparr>))"
    by (simp add: Blake2xb_refill_buffer_def buffer_size_def)
qed (simp_all add: seeded_def blake2xb_block_def length_xof_spec)

interpretation shake: block_source Shake256_refill_buffer "seeded PRNG_shake256" gen_seed shake256_block
  by unfold_locales (simp_all add: seeded_def shake256_block_def sponge_def Shake256_refill_buffer_def
      buffer_size_def prng_seed_uint64_count_def shake256_value)

text \<open>The virtual call has the contract of either class.\<close>

fun prng_block :: "PRNGType \<times> u64 list \<Rightarrow> u64 \<Rightarrow> u8 list" where
  "prng_block (PRNG_blake2xb, seed) c = blake2xb_block seed c"
| "prng_block (PRNG_shake256, seed) c = shake256_block seed c"
| "prng_block (PRNG_unknown, seed) c = []"

definition prng_ok :: "UniformRandomGenerator \<Rightarrow> bool" where
  "prng_ok g \<longleftrightarrow> seeded PRNG_blake2xb g \<or> seeded PRNG_shake256 g"

definition prng_key :: "UniformRandomGenerator \<Rightarrow> PRNGType \<times> u64 list" where
  "prng_key g = (gen_type g, gen_seed g)"

interpretation prng: block_source "refill_buffer stack_S" prng_ok prng_key prng_block
  for stack_S
proof
  fix g :: UniformRandomGenerator
  assume g: "prng_ok g" "length (gen_buffer g) = 4096"
  then show "refill_buffer stack_S g = Some (Inr (g\<lparr>gen_buffer := prng_block (prng_key g) (gen_counter g),
      gen_counter := gen_counter g + 1\<rparr>))"
    using blake.refill_block [of g stack_S] shake.refill_block [of g]
    by (auto simp: prng_ok_def seeded_def refill_buffer_def prng_key_def)
next
  fix g c
  assume "prng_ok g"
  then show "length (prng_block (prng_key g) c) = 4096"
    using blake.length_block [of g c] shake.length_block [of g c]
    by (auto simp: prng_ok_def seeded_def prng_key_def)
qed (simp_all add: prng_ok_def seeded_def prng_key_def)

section \<open>Sequences of calls\<close>

datatype prng_op = Generate nat | Refresh

fun run_ops ::
    "blake2xb_state \<Rightarrow> prng_op list \<Rightarrow> UniformRandomGenerator \<Rightarrow> (UniformRandomGenerator \<times> u8 list list) res option" where
  "run_ops stack_S [] g = Some (Inr (g, []))"
| "run_ops stack_S (Generate n # ops) g =
     Option.bind (generate stack_S n g) (\<lambda>r. case r of Inl e \<Rightarrow> Some (Inl e)
       | Inr (g, bytes) \<Rightarrow> map_option (\<lambda>r. rbind r (\<lambda>(g, outs). Inr (g, bytes # outs))) (run_ops stack_S ops g))"
| "run_ops stack_S (Refresh # ops) g =
     Option.bind (refresh stack_S g) (\<lambda>r. case r of Inl e \<Rightarrow> Some (Inl e) | Inr g \<Rightarrow> run_ops stack_S ops g)"

text \<open>The abstract generator is a position in an infinite stream; a refresh skips one block.\<close>

definition prng_stream :: "UniformRandomGeneratorInfo \<Rightarrow> nat \<Rightarrow> u8" where
  "prng_stream info p = prng_block (info_type info, info_seed info) (of_nat (p div 4096)) ! (p mod 4096)"

fun spec_ops :: "(nat \<Rightarrow> u8) \<Rightarrow> nat \<Rightarrow> prng_op list \<Rightarrow> u8 list list" where
  "spec_ops S p [] = []"
| "spec_ops S p (Generate n # ops) = map S [p..<p + n] # spec_ops S (p + n) ops"
| "spec_ops S p (Refresh # ops) = spec_ops S (p + 4096) ops"

lemma run_ops_stream:
  assumes "prng.at g p"
  shows "\<exists>g'. run_ops stack_S ops g = Some (Inr (g', spec_ops (prng.stream (prng_key g)) p ops)) \<and>
    prng_key g' = prng_key g"
  using assms
proof (induction ops arbitrary: g p)
  case Nil
  then show ?case by simp
next
  case (Cons c ops)
  show ?case
  proof (cases c)
    case (Generate n)
    obtain g1 where g1: "generate stack_S n g = Some (Inr (g1, map (prng.stream (prng_key g)) [p..<p + n]))"
      "prng.at g1 (p + n)" "prng_key g1 = prng_key g"
      using prng.generate_loop_stream [OF Cons.prems, of stack_S n "[]"] by (auto simp: generate_def)
    obtain g' where "run_ops stack_S ops g1 = Some (Inr (g', spec_ops (prng.stream (prng_key g)) (p + n) ops))"
      "prng_key g' = prng_key g" using Cons.IH [OF g1(2)] unfolding g1(3) by blast
    then show ?thesis by (simp add: Generate g1(1))
  next
    case Refresh
    obtain g1 where g1: "refresh stack_S g = Some (Inr g1)" "prng.at g1 (p + 4096)" "prng_key g1 = prng_key g"
      unfolding refresh_def by (rule prng.at_refill [OF Cons.prems, of stack_S])
    show ?thesis using Cons.IH [OF g1(2)] unfolding g1(3) by (simp add: Refresh g1(1))
  qed
qed

lemma make_prng_at:
  assumes "info_type info \<noteq> PRNG_unknown" "length (info_seed info) = 8" "length mem = 4096"
  obtains g where "make_prng mem info = Some g" "prng.at g 0" "prng_key g = (info_type info, info_seed info)"
proof -
  let ?g = "new_generator mem (info_type info) (info_seed info)"
  have "make_prng mem info = Some ?g" using assms(1) by (cases "info_type info") (simp_all add: make_prng_def)
  moreover have "prng_ok ?g"
    using assms(1,2) by (cases "info_type info")
      (simp_all add: prng_ok_def seeded_def new_generator_def prng_seed_uint64_count_def)
  ultimately show ?thesis
    using prng.at_new [of mem "info_type info" "info_seed info"] assms(2,3)
    by (intro that [of ?g]) (simp_all add: prng_key_def new_generator_def prng_seed_uint64_count_def)
qed

text \<open>The generator as a state machine.\<close>

inductive prng_step :: "blake2xb_state \<Rightarrow> UniformRandomGenerator \<Rightarrow> prng_op \<Rightarrow> UniformRandomGenerator \<Rightarrow> bool"
  for stack_S where
  step_generate: "generate stack_S n g = Some (Inr (g', bytes)) \<Longrightarrow> prng_step stack_S g (Generate n) g'"
| step_refresh: "refresh stack_S g = Some (Inr g') \<Longrightarrow> prng_step stack_S g Refresh g'"

inductive_cases prng_step_generateE: "prng_step stack_S g (Generate n) g'"
inductive_cases prng_step_refreshE: "prng_step stack_S g Refresh g'"

inductive prng_reachable :: "blake2xb_state \<Rightarrow> UniformRandomGeneratorInfo \<Rightarrow> UniformRandomGenerator \<Rightarrow> bool"
  for stack_S info where
  reach_new: "length mem = 4096 \<Longrightarrow> make_prng mem info = Some g \<Longrightarrow> prng_reachable stack_S info g"
| reach_step: "prng_reachable stack_S info g \<Longrightarrow> prng_step stack_S g c g' \<Longrightarrow> prng_reachable stack_S info g'"

definition prng_invariant :: "UniformRandomGeneratorInfo \<Rightarrow> UniformRandomGenerator \<Rightarrow> bool" where
  "prng_invariant info g \<longleftrightarrow> generator_info g = info \<and> length (gen_buffer g) = 4096 \<and> gen_current g \<le> 4096 \<and>
     (gen_current g < 4096 \<longrightarrow>
        gen_buffer g = prng_block (info_type info, info_seed info) (gen_counter g - 1))"

lemma at_step:
  assumes "prng.at g p" "prng_step stack_S g c g'"
  shows "\<exists>p'. prng.at g' p' \<and> prng_key g' = prng_key g"
proof (cases c)
  case (Generate n)
  show ?thesis
    using assms(2) unfolding Generate
    by (rule prng_step_generateE)
      (use prng.generate_loop_stream [OF assms(1), of stack_S n "[]"] in \<open>auto simp: generate_def\<close>)
next
  case Refresh
  show ?thesis
    using assms(2) unfolding Refresh
    by (rule prng_step_refreshE)
      (use prng.at_refill [OF assms(1), of stack_S] in \<open>metis refresh_def option.inject sum.inject(2)\<close>)
qed

lemma reachable_at:
  assumes "prng_reachable stack_S info g" "info_type info \<noteq> PRNG_unknown" "length (info_seed info) = 8"
  shows "\<exists>p. prng.at g p \<and> prng_key g = (info_type info, info_seed info)"
  using assms
proof (induction rule: prng_reachable.induct)
  case (reach_new mem g)
  then show ?case using make_prng_at [of info mem] by (metis option.inject)
next
  case (reach_step g c g')
  then show ?case using at_step by (metis (no_types))
qed

lemma at_invariant:
  assumes "prng.at g p" "prng_key g = (info_type info, info_seed info)" "length (info_seed info) = 8"
  shows "prng_invariant info g"
proof -
  obtain k where k: "gen_counter g = of_nat k" "p + 4096 = 4096 * k + gen_current g"
    "0 < k \<longrightarrow> gen_buffer g = prng_block (prng_key g) (of_nat (k - 1))"
    "length (gen_buffer g) = 4096" "gen_current g \<le> 4096"
    using assms(1) unfolding prng.at_def by blast
  have "gen_buffer g = prng_block (prng_key g) (gen_counter g - 1)" if "gen_current g < 4096"
    using k that by (cases k) auto
  moreover have "generator_info g = info"
    using assms(2,3) by (simp add: generator_info_def prng_key_def prng_seed_uint64_count_def)
  ultimately show ?thesis using k assms(2) by (simp add: prng_invariant_def)
qed

section \<open>Properties\<close>

lemma length_random_bytes: "length (random_bytes rd n) = n"
proof -
  have "length (random_bytes_loop rd k n) = n" for k
    by (induction rd k n rule: random_bytes_loop.induct) (subst random_bytes_loop.simps, auto simp: store32_def)
  then show ?thesis by (simp add: random_bytes_def)
qed

text \<open>
  C32. A generator made from a type and a seed is a position in one infinite stream of bytes that the
  type and the seed determine: whatever calls are made, every call returns, \<open>generate\<close> of \<open>n\<close> bytes
  returns the next \<open>n\<close> bytes of the stream, and \<open>refresh\<close> skips one block of 4096. The generator reports
  the type and the seed it was made from, so that a second generator made from its information
  replays the same bytes.
\<close>

theorem prng_refines_stream:
  assumes "info_type info \<noteq> PRNG_unknown" "length (info_seed info) = 8" "length mem = 4096"
  shows "\<exists>g g'. make_prng mem info = Some g \<and> generator_info g = info \<and>
    run_ops stack_S ops g = Some (Inr (g', spec_ops (prng_stream info) 0 ops)) \<and> generator_info g' = info"
proof -
  obtain g where g: "make_prng mem info = Some g" "prng.at g 0" "prng_key g = (info_type info, info_seed info)"
    by (rule make_prng_at [OF assms])
  then obtain g' where g': "run_ops stack_S ops g = Some (Inr (g', spec_ops (prng.stream (prng_key g)) 0 ops))"
    "prng_key g' = prng_key g" using run_ops_stream by blast
  have "prng.stream (prng_key g) = prng_stream info"
    unfolding g(3) by (rule ext) (simp add: prng.stream_def prng_stream_def)
  then show ?thesis
    using g g' assms(2) by (simp add: generator_info_def prng_key_def prng_seed_uint64_count_def)
qed

theorem prng_refines_stream_witness:
  "\<exists>g g'. make_prng (replicate 4096 0) \<lparr>info_type = PRNG_shake256, info_seed = [1, 2, 3, 4, 5, 6, 7, 8]\<rparr> = Some g \<and>
    generator_info g = \<lparr>info_type = PRNG_shake256, info_seed = [1, 2, 3, 4, 5, 6, 7, 8]\<rparr> \<and>
    run_ops \<lparr>xb_S = blake2b_init0, xb_P = root_param 1 0\<rparr> [Generate 5000, Refresh, Generate 7] g =
      Some (Inr (g', spec_ops (prng_stream \<lparr>info_type = PRNG_shake256, info_seed = [1, 2, 3, 4, 5, 6, 7, 8]\<rparr>) 0
        [Generate 5000, Refresh, Generate 7])) \<and>
    generator_info g' = \<lparr>info_type = PRNG_shake256, info_seed = [1, 2, 3, 4, 5, 6, 7, 8]\<rparr>"
  by (rule prng_refines_stream) simp_all

text \<open>
  C33. In every state that a new generator can reach, the buffer has 4096 bytes, the position does not
  pass its end, the type and the seed are those given, and unread bytes belong to the block before
  the counter; and from every such state every call succeeds: neither class throws and the loop of
  \<open>generate\<close> ends.
\<close>

theorem prng_reachable_invariant:
  assumes "prng_reachable stack_S info g" "info_type info \<noteq> PRNG_unknown" "length (info_seed info) = 8"
  shows "prng_invariant info g \<and> (\<forall>c. \<exists>g'. prng_step stack_S g c g')"
proof -
  obtain p where p: "prng.at g p" "prng_key g = (info_type info, info_seed info)"
    using reachable_at [OF assms] by blast
  have "\<exists>g'. prng_step stack_S g c g'" for c
  proof (cases c)
    case (Generate n)
    obtain g' bytes where "generate stack_S n g = Some (Inr (g', bytes))"
      using prng.generate_loop_stream [OF p(1), of stack_S n "[]"] unfolding generate_def by blast
    then show ?thesis unfolding Generate by (blast intro: step_generate)
  next
    case Refresh
    obtain g' where "refresh stack_S g = Some (Inr g')"
      unfolding refresh_def by (rule prng.at_refill [OF p(1), of stack_S])
    then show ?thesis unfolding Refresh by (blast intro: step_refresh)
  qed
  then show ?thesis using at_invariant [OF p assms(3)] by blast
qed

theorem prng_reachable_invariant_witness:
  "\<exists>g. prng_invariant \<lparr>info_type = PRNG_blake2xb, info_seed = replicate 8 5\<rparr> g \<and>
    (\<forall>c. \<exists>g'. prng_step \<lparr>xb_S = blake2b_init0, xb_P = root_param 1 0\<rparr> g c g')"
proof -
  let ?info = "\<lparr>info_type = PRNG_blake2xb, info_seed = replicate 8 5\<rparr>"
  obtain g where "make_prng (replicate 4096 0) ?info = Some g" by (simp add: make_prng_def)
  then have "prng_reachable \<lparr>xb_S = blake2b_init0, xb_P = root_param 1 0\<rparr> ?info g"
    by (intro reach_new) simp_all
  from prng_reachable_invariant [OF this] show ?thesis by auto
qed

end
