(* ===== verification/Seal_Common.thy ===== *)
theory Seal_Common
  imports Heu_Prelude
begin

text \<open>
  The helpers of \<open>heu/library/algorithms/seal_gpu/utils/common.h\<close>: bit counts, hexadecimal digits,
  the range-checked casts and arithmetic (\<open>fitsIn\<close>, \<open>safe_cast\<close>, \<open>add_safe\<close>, \<open>sub_safe\<close>,
  \<open>mul_safe\<close>), bit reversal and the Hamming weight. The templates over integer types take the
  type as an argument of type \<open>ctype\<close>; their floating-point instances are not modelled.
\<close>

section \<open>Constants and bit counts\<close>

definition bytesPerUint64 :: int where "bytesPerUint64 = 8"
definition bitsPerNibble :: int where "bitsPerNibble = 4"
definition bitsPerByte :: int where "bitsPerByte = 8"
definition bitsPerUint64 :: int where "bitsPerUint64 = bytesPerUint64 * bitsPerByte"
definition nibblesPerByte :: int where "nibblesPerByte = 2"
definition nibblesPerUint64 :: int where "nibblesPerUint64 = bytesPerUint64 * nibblesPerByte"

lemma bits_consts [simp]:
  "bytesPerUint64 = 8" "bitsPerNibble = 4" "bitsPerByte = 8" "bitsPerUint64 = 64"
  "nibblesPerByte = 2" "nibblesPerUint64 = 16"
  by (simp_all add: bytesPerUint64_def bitsPerNibble_def bitsPerByte_def bitsPerUint64_def
      nibblesPerByte_def nibblesPerUint64_def)

text \<open>The compiler's \<open>__builtin_clzll\<close>: the number of zero bits above the highest set one.\<close>

definition builtin_clzll :: "u64 \<Rightarrow> nat" where
  "builtin_clzll v = length (takeWhile (\<lambda>i. \<not> bit v i) (rev [0..<64]))"

definition getSignificantBitCount :: "u64 \<Rightarrow> int" where
  "getSignificantBitCount value =
     (if value = 0 then 0
      else let result = 63 - int (builtin_clzll value) in result + 1)"

section \<open>Hexadecimal digits\<close>

definition isHexChar :: "char \<Rightarrow> bool" where
  "isHexChar hex =
     (if of_char hex \<ge> (48 :: int) \<and> of_char hex \<le> (57 :: int) then True
      else if of_char hex \<ge> (65 :: int) \<and> of_char hex \<le> (70 :: int) then True
      else if of_char hex \<ge> (97 :: int) \<and> of_char hex \<le> (102 :: int) then True
      else False)"

definition nibbleToUpperHex :: "int \<Rightarrow> char" where
  "nibbleToUpperHex nibble =
     (if nibble < 10 then char_of (nibble + 48) else char_of (nibble + 65 - 10))"

definition hexToNibble :: "char \<Rightarrow> int" where
  "hexToNibble hex =
     (if of_char hex \<ge> (48 :: int) \<and> of_char hex \<le> (57 :: int) then of_char hex - 48
      else if of_char hex \<ge> (65 :: int) \<and> of_char hex \<le> (70 :: int) then of_char hex - 65 + 10
      else if of_char hex \<ge> (97 :: int) \<and> of_char hex \<le> (102 :: int) then of_char hex - 97 + 10
      else - 1)"

text \<open>The loop over the characters; the list is the rest of the string from \<open>i\<close> on.\<close>

fun getHexStringBitCount :: "string \<Rightarrow> int" where
  "getHexStringBitCount [] = 0"
| "getHexStringBitCount (hex # rest) =
     (let nibble = hexToNibble hex in
      if nibble \<noteq> 0 then
        getSignificantBitCount (word_of_int nibble) + int (length rest) * bitsPerNibble
      else getHexStringBitCount rest)"

section \<open>Range-checked casts and arithmetic\<close>

text \<open>A C++ integer type: its width and whether it is signed.\<close>

record ctype =
  bits :: nat
  signed_t :: bool

definition type_min :: "ctype \<Rightarrow> int" where
  "type_min T = (if signed_t T then - (2 ^ (bits T - 1)) else 0)"

definition type_max :: "ctype \<Rightarrow> int" where
  "type_max T = (if signed_t T then 2 ^ (bits T - 1) - 1 else 2 ^ bits T - 1)"

text \<open>\<open>static_cast<T>(v)\<close> between integer types: reduction modulo the width of \<open>T\<close>.\<close>

definition static_cast :: "ctype \<Rightarrow> int \<Rightarrow> int" where
  "static_cast T v =
     (if signed_t T then signed_take_bit (bits T - 1) v else take_bit (bits T) v)"

abbreviation uint64_t :: ctype where "uint64_t \<equiv> \<lparr>bits = 64, signed_t = False\<rparr>"
abbreviation uint32_t :: ctype where "uint32_t \<equiv> \<lparr>bits = 32, signed_t = False\<rparr>"
abbreviation int64_t :: ctype where "int64_t \<equiv> \<lparr>bits = 64, signed_t = True\<rparr>"
abbreviation int32_t :: ctype where "int32_t \<equiv> \<lparr>bits = 32, signed_t = True\<rparr>"

text \<open>
  The two \<open>if constexpr\<close> chains of \<open>fitsIn\<close> for integral \<open>T\<close> and \<open>S\<close>. The second chain always
  runs for integral types and overwrites what the first one computed.
\<close>

definition fitsIn :: "ctype \<Rightarrow> ctype \<Rightarrow> int \<Rightarrow> bool" where
  "fitsIn T S value =
     (let result = False;
          result =
            (if T = S then True
             else if bits S \<le> bits T then
               (if signed_t T = signed_t S then True
                else if \<not> signed_t T \<and> signed_t S then value \<ge> 0
                else result)
             else result);
          result =
            (if \<not> signed_t S then
               static_cast int64_t value \<ge> static_cast int64_t (type_min T)
             else if value \<ge> 0 then
               static_cast uint64_t value \<le> static_cast uint64_t (type_max T)
             else static_cast int64_t value \<ge> static_cast int64_t (type_min T))
      in result)"

definition safe_cast :: "ctype \<Rightarrow> ctype \<Rightarrow> int \<Rightarrow> int res" where
  "safe_cast T S value =
     (if T \<noteq> S \<and> \<not> fitsIn T S value then Inl (Logic_error ''cast failed'')
      else Inr (static_cast T value))"

definition add_safe :: "ctype \<Rightarrow> int \<Rightarrow> int \<Rightarrow> int res" where
  "add_safe T in1 in2 =
     (if \<not> signed_t T then
        (if in2 > type_max T - in1 then Inl (Logic_error ''unsigned overflow'')
         else Inr (static_cast T (in1 + in2)))
      else if in1 > 0 \<and> in2 > type_max T - in1 then Inl (Logic_error ''signed overflow'')
      else if in1 < 0 \<and> in2 < type_min T - in1 then Inl (Logic_error ''signed underflow'')
      else Inr (static_cast T (in1 + in2)))"

definition sub_safe :: "ctype \<Rightarrow> int \<Rightarrow> int \<Rightarrow> int res" where
  "sub_safe T in1 in2 =
     (if \<not> signed_t T then
        (if in1 < in2 then Inl (Logic_error ''unsigned underflow'')
         else Inr (static_cast T (in1 - in2)))
      else if in1 < 0 \<and> in2 > type_max T + in1 then Inl (Logic_error ''signed underflow'')
      else if in1 > 0 \<and> in2 < type_min T + in1 then Inl (Logic_error ''signed overflow'')
      else Inr (static_cast T (in1 - in2)))"

text \<open>Division of C++ integers rounds towards zero.\<close>

definition tdiv :: "int \<Rightarrow> int \<Rightarrow> int" where
  "tdiv a b = sgn a * sgn b * (\<bar>a\<bar> div \<bar>b\<bar>)"

definition mul_safe :: "ctype \<Rightarrow> int \<Rightarrow> int \<Rightarrow> int res" where
  "mul_safe T in1 in2 =
     (if \<not> signed_t T then
        (if in1 \<noteq> 0 \<and> in2 > tdiv (type_max T) in1 then Inl (Logic_error ''unsigned overflow'')
         else Inr (static_cast T (in1 * in2)))
      else if in1 > 0 \<and> in2 > 0 \<and> in2 > tdiv (type_max T) in1
        then Inl (Logic_error ''signed overflow'')
      else if in1 < 0 \<and> in2 < 0 \<and> - in2 > tdiv (type_max T) (- in1)
        then Inl (Logic_error ''signed overflow'')
      else if in1 < 0 \<and> in2 > 0 \<and> in2 > tdiv (type_max T) (- in1)
        then Inl (Logic_error ''signed underflow'')
      else if in1 > 0 \<and> in2 < 0 \<and> in2 < tdiv (type_min T) in1
        then Inl (Logic_error ''signed underflow'')
      else Inr (static_cast T (in1 * in2)))"

definition productFitsIn :: "ctype \<Rightarrow> int \<Rightarrow> int \<Rightarrow> bool res" where
  "productFitsIn T in1 in2 = rbind (mul_safe T in1 in2) (\<lambda>p. Inr (fitsIn T T p))"

definition divideRoundUp :: "ctype \<Rightarrow> int \<Rightarrow> int \<Rightarrow> int res" where
  "divideRoundUp T value divisor =
     rbind (add_safe T value (static_cast T (divisor - 1))) (\<lambda>s. Inr (tdiv s divisor))"

definition unsigned_eq :: "int \<Rightarrow> int \<Rightarrow> bool" where
  "unsigned_eq in1 in2 = (static_cast uint64_t in1 = static_cast uint64_t in2)"

definition unsigned_lt :: "int \<Rightarrow> int \<Rightarrow> bool" where
  "unsigned_lt in1 in2 = (static_cast uint64_t in1 < static_cast uint64_t in2)"

definition unsigned_gt :: "int \<Rightarrow> int \<Rightarrow> bool" where
  "unsigned_gt in1 in2 = (static_cast uint64_t in1 > static_cast uint64_t in2)"

definition isZero :: "int \<Rightarrow> bool" where
  "isZero value = (value = 0)"

section \<open>Bit reversal and Hamming weight\<close>

definition reverseBits32 :: "u32 \<Rightarrow> u32" where
  "reverseBits32 operand0 =
     (let operand1 = drop_bit 1 (operand0 AND 0xaaaaaaaa) OR push_bit 1 (operand0 AND 0x55555555);
          operand2 = drop_bit 2 (operand1 AND 0xcccccccc) OR push_bit 2 (operand1 AND 0x33333333);
          operand3 = drop_bit 4 (operand2 AND 0xf0f0f0f0) OR push_bit 4 (operand2 AND 0x0f0f0f0f);
          operand4 = drop_bit 8 (operand3 AND 0xff00ff00) OR push_bit 8 (operand3 AND 0x00ff00ff)
      in drop_bit 16 operand4 OR push_bit 16 operand4)"

definition reverseBits64 :: "u64 \<Rightarrow> u64" where
  "reverseBits64 operand0 =
     ucast (reverseBits32 (ucast (drop_bit 32 operand0))) OR
     push_bit 32 (ucast (reverseBits32 (ucast (operand0 AND 0xFFFFFFFF))))"

definition reverseBits32_count :: "u32 \<Rightarrow> int \<Rightarrow> u32" where
  "reverseBits32_count operand0 bit_count =
     (if bit_count = 0 then 0 else drop_bit (nat (32 - bit_count)) (reverseBits32 operand0))"

definition reverseBits64_count :: "u64 \<Rightarrow> int \<Rightarrow> u64" where
  "reverseBits64_count operand0 bit_count =
     (if bit_count = 0 then 0 else drop_bit (nat (64 - bit_count)) (reverseBits64 operand0))"

definition hammingWeight :: "u8 \<Rightarrow> int" where
  "hammingWeight value =
     (let t = uint value;
          t = t - (drop_bit 1 t AND 0x55);
          t = (t AND 0x33) + (drop_bit 2 t AND 0x33)
      in (t + drop_bit 4 t) AND 0x0F)"

section \<open>The highest set bit\<close>

lemma clz_scan:
  "length (takeWhile (\<lambda>i. \<not> bit v i) (rev [0..<n])) \<le> n \<and>
   (\<forall>i. n - length (takeWhile (\<lambda>i. \<not> bit v i) (rev [0..<n])) \<le> i \<and> i < n \<longrightarrow> \<not> bit v i) \<and>
   (length (takeWhile (\<lambda>i. \<not> bit v i) (rev [0..<n])) < n \<longrightarrow>
    bit v (n - length (takeWhile (\<lambda>i. \<not> bit v i) (rev [0..<n])) - 1))"
proof (induction n)
  case 0
  then show ?case by simp
next
  case (Suc n)
  define c where "c = length (takeWhile (\<lambda>i. \<not> bit v i) (rev [0..<n]))"
  have IH: "c \<le> n" "\<And>i. n - c \<le> i \<Longrightarrow> i < n \<Longrightarrow> \<not> bit v i" "c < n \<Longrightarrow> bit v (n - c - 1)"
    using Suc.IH unfolding c_def by blast+
  show ?case
  proof (cases "bit v n")
    case True
    then have z: "length (takeWhile (\<lambda>i. \<not> bit v i) (rev [0..<Suc n])) = 0" by simp
    show ?thesis unfolding z using True by auto
  next
    case False
    then have "length (takeWhile (\<lambda>i. \<not> bit v i) (rev [0..<Suc n])) = Suc c"
      by (simp add: c_def)
    then show ?thesis using IH False by (auto simp: less_Suc_eq simp del: upt_Suc)
  qed
qed

lemma builtin_clzll_top:
  fixes v :: u64
  assumes "v \<noteq> 0"
  shows "builtin_clzll v < 64" "bit v (63 - builtin_clzll v)"
    "63 - builtin_clzll v < i \<Longrightarrow> \<not> bit v i"
proof -
  let ?c = "builtin_clzll v"
  have c: "?c \<le> 64" and none: "\<And>i. 64 - ?c \<le> i \<Longrightarrow> i < 64 \<Longrightarrow> \<not> bit v i"
    and top: "?c < 64 \<Longrightarrow> bit v (64 - ?c - 1)"
    using clz_scan [of v 64] unfolding builtin_clzll_def by blast+
  show lt: "?c < 64"
  proof (rule ccontr)
    assume "\<not> ?c < 64"
    then have "\<And>i. i < 64 \<Longrightarrow> \<not> bit v i" using none by simp
    then have "v = 0" by (intro bit_eqI) (simp add: bit_imp_le_length)
    with assms show False by simp
  qed
  show "bit v (63 - ?c)" using top [OF lt] by simp
  show "\<not> bit v i" if "63 - ?c < i"
  proof (cases "i < 64")
    case True
    with that none [of i] show ?thesis by simp
  next
    case False
    then show ?thesis by (auto dest: bit_imp_le_length)
  qed
qed

lemma unat_ge_bit:
  fixes v :: "'a::len word"
  assumes "bit v k"
  shows "2 ^ k \<le> unat v"
proof (rule ccontr)
  assume "\<not> 2 ^ k \<le> unat v"
  then have "unat v div 2 ^ k = 0" by simp
  then have "\<not> bit (unat v) k" by (simp add: bit_iff_odd)
  with assms show False by (simp add: bit_unsigned_iff)
qed

lemma unat_less_top:
  fixes v :: "'a::len word"
  assumes "\<And>i. k \<le> i \<Longrightarrow> \<not> bit v i"
  shows "unat v < 2 ^ k"
proof -
  have "take_bit k v = v"
    using assms by (intro bit_eqI) (auto simp: bit_take_bit_iff not_less [symmetric])
  then have "unat v = take_bit k (unat v)" by (metis unsigned_take_bit_eq)
  then show ?thesis by (metis take_bit_nat_less_exp)
qed

lemma getSignificantBitCount_0 [simp]: "getSignificantBitCount 0 = 0"
  by (simp add: getSignificantBitCount_def)

lemma getSignificantBitCount_bounds:
  assumes "v \<noteq> 0"
  shows "1 \<le> getSignificantBitCount v" "getSignificantBitCount v \<le> 64"
    "2 ^ (nat (getSignificantBitCount v) - 1) \<le> unat v"
    "unat v < 2 ^ nat (getSignificantBitCount v)"
proof -
  note t = builtin_clzll_top [OF assms]
  have n: "nat (getSignificantBitCount v) = Suc (63 - builtin_clzll v)"
    using assms t(1) by (simp add: getSignificantBitCount_def)
  show "1 \<le> getSignificantBitCount v" "getSignificantBitCount v \<le> 64"
    using n by linarith+
  show "2 ^ (nat (getSignificantBitCount v) - 1) \<le> unat v"
    unfolding n using unat_ge_bit [OF t(2)] by simp
  show "unat v < 2 ^ nat (getSignificantBitCount v)"
    unfolding n by (rule unat_less_top) (simp add: t(3) Suc_le_eq)
qed

lemma getSignificantBitCount_nonneg [simp]: "0 \<le> getSignificantBitCount v"
  by (cases "v = 0") (use getSignificantBitCount_bounds(1) [of v] in auto)

section \<open>Hexadecimal digits, inverted\<close>

lemma hexToNibble_nibbleToUpperHex:
  assumes "0 \<le> k" "k < 16"
  shows "hexToNibble (nibbleToUpperHex k) = k"
proof -
  have "\<forall>k\<in>set [0..15]. hexToNibble (nibbleToUpperHex k) = k" by code_simp
  with assms show ?thesis by simp
qed

lemma isHexChar_iff: "isHexChar c \<longleftrightarrow> hexToNibble c \<noteq> - 1"
  by (simp add: isHexChar_def hexToNibble_def)

lemma hexToNibble_range: "hexToNibble c \<noteq> - 1 \<Longrightarrow> 0 \<le> hexToNibble c \<and> hexToNibble c < 16"
  by (simp add: hexToNibble_def split: if_splits)

section \<open>When the checked arithmetic throws\<close>

text \<open>The values of a type, and the widths the templates are used at.\<close>

definition in_type :: "ctype \<Rightarrow> int \<Rightarrow> bool" where
  "in_type T v \<longleftrightarrow> type_min T \<le> v \<and> v \<le> type_max T"

definition wf_ctype :: "ctype \<Rightarrow> bool" where
  "wf_ctype T \<longleftrightarrow> 0 < bits T \<and> bits T \<le> 64"

lemma type_min_le_0 [simp]: "type_min T \<le> 0"
  by (simp add: type_min_def)

lemma in_type_nonneg: "0 \<le> v \<Longrightarrow> v \<le> type_max T \<Longrightarrow> in_type T v"
  unfolding in_type_def using order_trans [OF type_min_le_0] by blast

lemma static_cast_id: "0 < bits T \<Longrightarrow> in_type T v \<Longrightarrow> static_cast T v = v"
  by (simp add: in_type_def static_cast_def type_min_def type_max_def take_bit_int_eq_self_iff
      signed_take_bit_int_eq_self_iff split: if_splits)

lemma add_safe_Inr_iff:
  assumes "wf_ctype T" "in_type T a" "in_type T b"
  shows "add_safe T a b = Inr r \<longleftrightarrow> r = a + b \<and> in_type T (a + b)"
  using assms static_cast_id [of T "a + b"]
  by (auto simp: add_safe_def in_type_def wf_ctype_def type_min_def)

lemma tdiv_nonneg: "0 \<le> a \<Longrightarrow> 0 < b \<Longrightarrow> tdiv a b = a div b"
  by (auto simp: tdiv_def sgn_if)

lemma int_div_less_iff:
  fixes a b m :: int
  assumes "0 < a"
  shows "m div a < b \<longleftrightarrow> m < b * a"
proof
  assume "m div a < b"
  then have "a * (m div a + 1) \<le> a * b" using assms by (intro mult_left_mono) simp_all
  moreover have "m < a * (m div a + 1)"
    using pos_mod_bound [OF assms, of m] mult_div_mod_eq [of a m] unfolding distrib_left by linarith
  ultimately show "m < b * a" by (simp add: mult.commute)
next
  assume *: "m < b * a"
  show "m div a < b"
  proof (rule ccontr)
    assume "\<not> m div a < b"
    then have "b * a \<le> (m div a) * a" using assms by (intro mult_right_mono) simp_all
    also have "\<dots> \<le> m" using assms by (metis mult.commute mult_div_mod_eq pos_mod_sign le_add_same_cancel1)
    finally show False using * by simp
  qed
qed

lemma mul_safe_unsigned:
  assumes "wf_ctype T" "\<not> signed_t T" "in_type T a" "in_type T b"
  shows "mul_safe T a b = Inr r \<longleftrightarrow> r = a * b \<and> in_type T (a * b)"
proof (cases "a = 0")
  case True
  then show ?thesis using assms
    by (auto simp: mul_safe_def in_type_def static_cast_def type_min_def type_max_def)
next
  case False
  with assms have a: "0 < a" and b: "0 \<le> b" by (auto simp: in_type_def type_min_def)
  have "b > tdiv (type_max T) a \<longleftrightarrow> b * a > type_max T"
    using a assms(2) by (simp add: tdiv_nonneg type_max_def int_div_less_iff) 
  then show ?thesis using assms False static_cast_id [of T "a * b"] a b
    by (auto simp: mul_safe_def in_type_def wf_ctype_def type_min_def mult.commute)
qed


lemma sub_safe_unsigned:
  assumes "wf_ctype T" "\<not> signed_t T" "in_type T a" "in_type T b"
  shows "sub_safe T a b = Inr r \<longleftrightarrow> r = a - b \<and> in_type T (a - b)"
  using assms static_cast_id [of T "a - b"]
  by (auto simp: sub_safe_def in_type_def wf_ctype_def type_min_def)

text \<open>
  The signed guard of \<open>sub_safe\<close> rejects the difference \<open>type_min\<close> of a negative first operand and
  lets the difference \<open>type_max + 1\<close> of a non-negative one through.
\<close>

lemma sub_safe_signed:
  assumes "wf_ctype T" "signed_t T" "in_type T a" "in_type T b"
    and "a - b \<noteq> type_max T + 1" "a - b \<noteq> type_min T"
  shows "sub_safe T a b = Inr r \<longleftrightarrow> r = a - b \<and> in_type T (a - b)"
  using assms static_cast_id [of T "a - b"]
  by (auto simp: sub_safe_def in_type_def wf_ctype_def type_min_def type_max_def)

lemma mul_safe_signed:
  assumes "wf_ctype T" "signed_t T" "in_type T a" "in_type T b"
    and "a \<noteq> type_min T" "b \<noteq> type_min T" "mul_safe T a b = Inr r"
  shows "r = a * b \<and> in_type T (a * b)"
proof -
  have M: "0 \<le> type_max T" "type_min T = - type_max T - 1"
    using assms(1,2) by (auto simp: type_max_def type_min_def)
  have r: "r = static_cast T (a * b)" using assms(2,7) by (auto simp: mul_safe_def split: if_splits)
  have "in_type T (a * b)"
  proof -
    consider "a = 0 \<or> b = 0" | "0 < a" "0 < b" | "a < 0" "b < 0" | "a < 0" "0 < b" | "0 < a" "b < 0"
      by linarith
    then show ?thesis
    proof cases
      case 1
      then show ?thesis using M by (auto simp: in_type_def)
    next
      case 2
      then have "\<not> type_max T div a < b" using assms(2,7) M by (auto simp: mul_safe_def tdiv_nonneg split: if_splits)
      then show ?thesis using 2 M by (simp add: int_div_less_iff in_type_def mult.commute)
         (smt (verit) mult_pos_pos)
    next
      case 3
      then have "\<not> type_max T div (- a) < - b"
        using assms(2,7) M by (auto simp: mul_safe_def tdiv_nonneg split: if_splits)
      then show ?thesis using 3 M mult_neg_neg [OF 3] by (simp add: int_div_less_iff in_type_def mult.commute)
    next
      case 4
      then have "\<not> type_max T div (- a) < b"
        using assms(2,7) M by (auto simp: mul_safe_def tdiv_nonneg split: if_splits)
      then show ?thesis using 4 M mult_neg_pos [OF 4] by (simp add: int_div_less_iff in_type_def mult.commute)
    next
      case 5
      then have "\<not> b < tdiv (type_min T) a"
        using assms(2,7) M by (auto simp: mul_safe_def tdiv_nonneg split: if_splits)
      moreover have "tdiv (type_min T) a = - ((type_max T + 1) div a)"
        using 5 M by (simp add: tdiv_def add.commute)
      ultimately have "\<not> (type_max T + 1) div a < - b" by simp
      then show ?thesis using 5 M mult_pos_neg [OF 5] by (simp add: int_div_less_iff in_type_def mult.commute)
    qed
  qed
  with r assms(1) show ?thesis by (simp add: static_cast_id wf_ctype_def)
qed

lemma divideRoundUp_value:
  assumes "wf_ctype T" "in_type T v" "in_type T d" "0 \<le> v" "0 < d" "in_type T (v + (d - 1))"
  shows "divideRoundUp T v d = Inr ((v + (d - 1)) div d)"
proof -
  have "in_type T (d - 1)"
    using assms(3,5) by (intro in_type_nonneg) (simp_all add: in_type_def)
  then have "static_cast T (d - 1) = d - 1" "add_safe T v (d - 1) = Inr (v + (d - 1))"
    using assms add_safe_Inr_iff [of T v "d - 1"] by (auto simp: static_cast_id wf_ctype_def)
  then show ?thesis using assms by (simp add: divideRoundUp_def tdiv_nonneg)
qed

section \<open>Casts\<close>

lemma fitsIn_signed_source:
  assumes "wf_ctype T" "wf_ctype S" "signed_t S" "in_type S v"
  shows "fitsIn T S v \<longleftrightarrow> in_type T v"
proof -
  have le: "(2::int) ^ (n - 1) \<le> 2 ^ 63" "(2::int) ^ n \<le> 2 ^ 64" if "n \<le> 64" for n
    using that power_increasing [of "n - 1" 63 "2 :: int"] power_increasing [of n 64 "2 :: int"] by simp_all
  have v: "- (2 ^ 63) \<le> v" "v < 2 ^ 63"
    using assms le [of "bits S"] by (auto simp: in_type_def type_min_def type_max_def wf_ctype_def)
  have lo: "- (2 ^ 63) \<le> type_min T" "type_max T < 2 ^ 64" "0 \<le> type_max T"
    using assms(1) le [of "bits T"] by (auto simp: type_min_def type_max_def wf_ctype_def)
  have "type_min T \<le> type_max int64_t" by (rule order_trans [OF type_min_le_0]) (simp add: type_max_def)
  then have m: "in_type int64_t (type_min T)" "in_type uint64_t (type_max T)"
    using lo by (simp_all add: in_type_def type_min_def [of int64_t] type_min_def [of uint64_t] type_max_def [of uint64_t])
  have c: "static_cast int64_t v = v" "static_cast int64_t (type_min T) = type_min T"
     "static_cast uint64_t (type_max T) = type_max T"
    using v m by (auto intro!: static_cast_id simp: in_type_def type_min_def type_max_def)
  have u: "0 \<le> v \<Longrightarrow> static_cast uint64_t v = v"
    using v by (auto intro!: static_cast_id simp: in_type_def type_min_def type_max_def)
  show ?thesis
    using assms(1,3) c u by (auto simp: fitsIn_def in_type_def type_min_def type_max_def split: if_splits)
qed

lemma fitsIn_unsigned_source:
  assumes "\<not> signed_t T" "\<not> signed_t S" "in_type S v" "wf_ctype S"
  shows "fitsIn T S v \<longleftrightarrow> v < 2 ^ 63"
proof -
  have "(2::int) ^ bits S \<le> 2 ^ 64"
    using assms(4) by (intro power_increasing) (simp_all add: wf_ctype_def)
  then have v: "0 \<le> v" "v < 2 ^ 64"
    using assms(2,3) by (auto simp: in_type_def type_min_def type_max_def)
  have "bit v 63 \<longleftrightarrow> 2 ^ 63 \<le> v"
  proof (cases "v < 2 ^ 63")
    case True
    then have "v div 2 ^ 63 = 0" using v by simp
    then show ?thesis using True by (simp add: bit_iff_odd)
  next
    case False
    then have "v div 2 ^ 63 = 1" using v by (intro div_pos_geq [THEN trans]) simp_all
    then show ?thesis using False by (simp add: bit_iff_odd)
  qed
  then show ?thesis
    using assms(1,2) by (auto simp: fitsIn_def static_cast_def type_min_def signed_take_bit_nonnegative_iff)
qed

section \<open>What bit reversal does\<close>

lemma all_less_Suc: "(\<forall>i<Suc n. P i) \<longleftrightarrow> P n \<and> (\<forall>i<n. P i)"
  by (auto simp: less_Suc_eq)

lemma all_less_32: "(\<forall>i<32. P (i::nat)) \<longleftrightarrow>
  P 0 \<and> P 1 \<and> P 2 \<and> P 3 \<and> P 4 \<and> P 5 \<and> P 6 \<and> P 7 \<and> P 8 \<and> P 9 \<and> P 10 \<and> P 11 \<and> P 12 \<and> P 13 \<and> P 14 \<and> P 15 \<and>
  P 16 \<and> P 17 \<and> P 18 \<and> P 19 \<and> P 20 \<and> P 21 \<and> P 22 \<and> P 23 \<and> P 24 \<and> P 25 \<and> P 26 \<and> P 27 \<and> P 28 \<and> P 29 \<and> P 30 \<and> P 31"
  by (simp add: numeral_eq_Suc all_less_Suc) blast

text \<open>One round of the reversal swaps adjacent blocks of \<open>s\<close> bits.\<close>

definition swap_blocks :: "nat \<Rightarrow> u32 \<Rightarrow> u32 \<Rightarrow> u32 \<Rightarrow> u32" where
  "swap_blocks s hi lo x = drop_bit s (x AND hi) OR push_bit s (x AND lo)"

definition block_swap :: "nat \<Rightarrow> nat \<Rightarrow> nat" where
  "block_swap s i = (if even (i div s) then i + s else i - s)"

lemma bit_swap_blocks:
  "bit (swap_blocks s hi lo x) i \<longleftrightarrow>
    bit x (s + i) \<and> bit hi (s + i) \<or> s \<le> i \<and> i < 32 \<and> bit x (i - s) \<and> bit lo (i - s)"
  by (auto simp: swap_blocks_def bit_simps dest: bit_imp_le_length)

lemma bit_numeral_1:
  "bit (numeral k :: u32) 1 = bit (numeral k :: u32) (Suc 0)"
  "bit (numeral k :: int) 1 = bit (numeral k :: int) (Suc 0)"
  "bit (numeral k :: nat) 1 = bit (numeral k :: nat) (Suc 0)"
  by simp_all

lemma swap_blocks_1: "\<forall>i<32. bit (swap_blocks 1 0xaaaaaaaa 0x55555555 x) i = bit x (block_swap 1 i)"
  unfolding all_less_32 bit_swap_blocks block_swap_def by (simp add: bit_numeral_1 del: One_nat_def)

lemma swap_blocks_2: "\<forall>i<32. bit (swap_blocks 2 0xcccccccc 0x33333333 x) i = bit x (block_swap 2 i)"
  unfolding all_less_32 bit_swap_blocks block_swap_def
  by (simp add: bit_numeral_1 del: One_nat_def) (simp add: numeral_2_eq_2)

lemma swap_blocks_4: "\<forall>i<32. bit (swap_blocks 4 0xf0f0f0f0 0x0f0f0f0f x) i = bit x (block_swap 4 i)"
  unfolding all_less_32 bit_swap_blocks block_swap_def by (simp add: bit_numeral_1 del: One_nat_def)

lemma swap_blocks_8: "\<forall>i<32. bit (swap_blocks 8 0xff00ff00 0x00ff00ff x) i = bit x (block_swap 8 i)"
  unfolding all_less_32 bit_swap_blocks block_swap_def by (simp add: bit_numeral_1 del: One_nat_def)

lemma swap_halves_bits:
  "\<forall>i<32. bit (drop_bit 16 (x :: u32) OR push_bit 16 x) i = bit x (block_swap 16 i)"
proof -
  have "bit (drop_bit 16 x OR push_bit 16 x) i \<longleftrightarrow> bit x (16 + i) \<or> 16 \<le> i \<and> i < 32 \<and> bit x (i - 16)" for i
    by (auto simp: bit_simps dest: bit_imp_le_length)
  moreover have "\<not> bit x i" if "32 \<le> i" for i using that by (auto dest: bit_imp_le_length)
  ultimately show ?thesis unfolding all_less_32 block_swap_def by (simp del: One_nat_def)
qed

lemma block_swap_chain:
  "\<forall>i<32. block_swap 16 i < 32 \<and> block_swap 8 (block_swap 16 i) < 32 \<and>
     block_swap 4 (block_swap 8 (block_swap 16 i)) < 32 \<and>
     block_swap 2 (block_swap 4 (block_swap 8 (block_swap 16 i))) < 32 \<and>
     block_swap 1 (block_swap 2 (block_swap 4 (block_swap 8 (block_swap 16 i)))) = 31 - i"
  unfolding all_less_32 by (simp add: block_swap_def)

lemma bit_reverseBits32: "bit (reverseBits32 x) i \<longleftrightarrow> i < 32 \<and> bit x (31 - i)"
proof (cases "i < 32")
  case True
  have "reverseBits32 x = (let y = swap_blocks 8 0xff00ff00 0x00ff00ff
      (swap_blocks 4 0xf0f0f0f0 0x0f0f0f0f (swap_blocks 2 0xcccccccc 0x33333333
        (swap_blocks 1 0xaaaaaaaa 0x55555555 x))) in drop_bit 16 y OR push_bit 16 y)"
    by (simp add: reverseBits32_def swap_blocks_def Let_def)
  then show ?thesis
    using True block_swap_chain
    by (simp add: Let_def swap_halves_bits [rule_format] swap_blocks_1 [rule_format] swap_blocks_2 [rule_format]
        swap_blocks_4 [rule_format] swap_blocks_8 [rule_format] del: One_nat_def)
next
  case False
  then show ?thesis by (auto dest: bit_imp_le_length)
qed

lemma bit_reverseBits64: "bit (reverseBits64 x) i \<longleftrightarrow> i < 64 \<and> bit x (63 - i)"
proof -
  have "(x AND 0xFFFFFFFF :: u64) = take_bit 32 x"
    by (simp add: take_bit_eq_mask mask_eq_exp_minus_1)
  then show ?thesis
    by (cases "i < 32") (auto simp: reverseBits64_def bit_simps bit_reverseBits32 not_less
        intro: arg_cong [of _ _ "bit x"])
qed

lemma bit_reverseBits64_count:
  assumes "0 \<le> k" "k \<le> 64"
  shows "bit (reverseBits64_count x k) i \<longleftrightarrow> i < nat k \<and> bit x (nat k - 1 - i)"
  using assms
  by (auto simp: reverseBits64_count_def bit_simps bit_reverseBits64 nat_diff_distrib)

lemma bit_reverseBits32_count:
  assumes "0 \<le> k" "k \<le> 32"
  shows "bit (reverseBits32_count x k) i \<longleftrightarrow> i < nat k \<and> bit x (nat k - 1 - i)"
  using assms
  by (auto simp: reverseBits32_count_def bit_simps bit_reverseBits32 nat_diff_distrib)

lemma hammingWeight_table:
  "\<forall>v\<in>set [0..255].
     (let t = v - (drop_bit 1 v AND 0x55);
          t = (t AND 0x33) + (drop_bit 2 t AND 0x33)
      in (t + drop_bit 4 t) AND 0x0F) = int (length (filter (bit v) [0..<8]))"
  by code_simp

lemma hammingWeight_popcount:
  "hammingWeight w = int (card {i. i < 8 \<and> bit w i})"
proof -
  have "uint w \<in> set [0..255]" using uint_lt2p [of w] by simp
  then have "hammingWeight w = int (length (filter (bit (uint w)) [0..<8]))"
    using hammingWeight_table by (simp add: hammingWeight_def Let_def)
  also have "filter (bit (uint w)) [0..<8] = filter (bit w) [0..<8]"
    by (rule filter_cong) (simp_all add: bit_uint_iff)
  also have "length (filter (bit w) [0..<8]) = card {i. i < 8 \<and> bit w i}"
    by (subst distinct_card [symmetric]) (auto intro: arg_cong [of _ _ card])
  finally show ?thesis .
qed

section \<open>Properties\<close>

text \<open>
  The checked arithmetic of every unsigned integer type of at most 64 bits is exact: for
  operands of the type, \<open>add_safe\<close>, \<open>sub_safe\<close> and \<open>mul_safe\<close> return a value exactly when the
  mathematical result is a value of the type, and then that result; otherwise they throw.
\<close>

theorem unsigned_arithmetic_exact:
  assumes "wf_ctype T" "\<not> signed_t T" "in_type T a" "in_type T b"
  shows "(add_safe T a b = Inr r \<longleftrightarrow> r = a + b \<and> in_type T (a + b)) \<and>
    (sub_safe T a b = Inr r \<longleftrightarrow> r = a - b \<and> in_type T (a - b)) \<and>
    (mul_safe T a b = Inr r \<longleftrightarrow> r = a * b \<and> in_type T (a * b))"
  using assms by (simp add: add_safe_Inr_iff sub_safe_unsigned mul_safe_unsigned)

theorem unsigned_arithmetic_exact_witness:
  "mul_safe uint64_t 4294967296 4294967295 = Inr 18446744069414584320 \<and>
   add_safe uint64_t 4294967296 4294967295 = Inr 8589934591"
  using unsigned_arithmetic_exact [of uint64_t 4294967296 4294967295 18446744069414584320]
    unsigned_arithmetic_exact [of uint64_t 4294967296 4294967295 8589934591]
  by (simp add: wf_ctype_def in_type_def type_min_def type_max_def)

text \<open>
  Bit reversal on \<open>bit_count\<close> bits: bit \<open>i\<close> of the result is bit \<open>bit_count - 1 - i\<close> of the
  operand, and every bit from \<open>bit_count\<close> on is zero, for 32-bit and for 64-bit operands.
\<close>

theorem reverseBits_count_bits:
  assumes "0 \<le> k" "k \<le> 32" "0 \<le> m" "m \<le> 64"
  shows "(bit (reverseBits32_count x k) i \<longleftrightarrow> i < nat k \<and> bit x (nat k - 1 - i)) \<and>
    (bit (reverseBits64_count y m) j \<longleftrightarrow> j < nat m \<and> bit y (nat m - 1 - j))"
  using assms by (simp add: bit_reverseBits32_count bit_reverseBits64_count)

theorem reverseBits_count_bits_witness:
  "bit (reverseBits64_count 1 40) 39 \<and> \<not> bit (reverseBits32_count 1 5) 0"
  using reverseBits_count_bits [of 5 40 1 0 1 39] by simp

end
