(* ===== verification/Dwt.thy ===== *)
theory Dwt
  imports Seal_Common
begin

text \<open>
  The fast discrete weighted transform: \<open>utils/dwthandler.h\<close> of \<open>heu/library/algorithms/seal_gpu/\<close>. The class
  template \<open>Arithmetic\<close> is a record of functions, its contract a locale in which the transforms are
  proved; \<open>Ntt\<close> interprets it with the lazy modular arithmetic. A pointer into the values or the
  roots is an index.
\<close>

section \<open>The transforms\<close>

record ('v, 'r, 's) Arithmetic =
  ar_add :: "'v \<Rightarrow> 'v \<Rightarrow> 'v"
  ar_sub :: "'v \<Rightarrow> 'v \<Rightarrow> 'v"
  ar_mulRoot :: "'v \<Rightarrow> 'r \<Rightarrow> 'v"
  ar_mulScalar :: "'v \<Rightarrow> 's \<Rightarrow> 'v"
  ar_mulRootScalar :: "'r \<Rightarrow> 's \<Rightarrow> 'r"
  ar_guard :: "'v \<Rightarrow> 'v"

text \<open>
  The body of every inner loop reads the two values at \<open>x\<close> and \<open>y\<close> and writes two values there; \<open>bf\<close> is
  the pair of values written. The loops advance both pointers; they are unrolled by four when the gap
  allows it.
\<close>

definition butterfly :: "('v \<Rightarrow> 'v \<Rightarrow> 'v \<times> 'v) \<Rightarrow> nat \<Rightarrow> nat \<Rightarrow> 'v list \<Rightarrow> 'v list" where
  "butterfly bf x y values =
     (let (a, b) = bf (values ! x) (values ! y) in values[x := a, y := b])"

function butterflies1 :: "('v \<Rightarrow> 'v \<Rightarrow> 'v \<times> 'v) \<Rightarrow> nat \<Rightarrow> nat \<Rightarrow> nat \<Rightarrow> nat \<Rightarrow> 'v list \<Rightarrow> 'v list" where
  "butterflies1 bf gap j x y values =
     (if j < gap then butterflies1 bf gap (j + 1) (x + 1) (y + 1) (butterfly bf x y values) else values)"
  by pat_completeness auto

termination
  by (relation "measure (\<lambda>(bf, gap, j, x, y, values). gap - j)") auto

function butterflies4 :: "('v \<Rightarrow> 'v \<Rightarrow> 'v \<times> 'v) \<Rightarrow> nat \<Rightarrow> nat \<Rightarrow> nat \<Rightarrow> nat \<Rightarrow> 'v list \<Rightarrow> 'v list" where
  "butterflies4 bf gap j x y values =
     (if j < gap then
        let values = butterfly bf x y values;
            values = butterfly bf (x + 1) (y + 1) values;
            values = butterfly bf (x + 2) (y + 2) values;
            values = butterfly bf (x + 3) (y + 3) values
        in butterflies4 bf gap (j + 4) (x + 4) (y + 4) values
      else values)"
  by pat_completeness auto

termination
  by (relation "measure (\<lambda>(bf, gap, j, x, y, values). gap - j)") auto

declare butterflies1.simps [simp del] butterflies4.simps [simp del]

definition butterflies :: "('v \<Rightarrow> 'v \<Rightarrow> 'v \<times> 'v) \<Rightarrow> nat \<Rightarrow> nat \<Rightarrow> 'v list \<Rightarrow> 'v list" where
  "butterflies bf gap x values =
     (if gap < 4 then butterflies1 bf gap 0 x (x + gap) values
      else butterflies4 bf gap 0 x (x + gap) values)"

definition to_rev_bf :: "('v, 'r, 's) Arithmetic \<Rightarrow> 'r \<Rightarrow> 'v \<Rightarrow> 'v \<Rightarrow> 'v \<times> 'v" where
  "to_rev_bf A r x y =
     (let u = ar_guard A x; v = ar_mulRoot A y r in (ar_add A u v, ar_sub A u v))"

definition to_rev_scaled_bf :: "('v, 'r, 's) Arithmetic \<Rightarrow> 's \<Rightarrow> 'r \<Rightarrow> 'v \<Rightarrow> 'v \<Rightarrow> 'v \<times> 'v" where
  "to_rev_scaled_bf A scalar scaled_r x y =
     (let u = ar_mulScalar A (ar_guard A x) scalar; v = ar_mulRoot A y scaled_r
      in (ar_add A u v, ar_sub A u v))"

definition from_rev_bf :: "('v, 'r, 's) Arithmetic \<Rightarrow> 'r \<Rightarrow> 'v \<Rightarrow> 'v \<Rightarrow> 'v \<times> 'v" where
  "from_rev_bf A r u v =
     (ar_guard A (ar_add A u v), ar_mulRoot A (ar_sub A u v) r)"

definition from_rev_scaled_bf :: "('v, 'r, 's) Arithmetic \<Rightarrow> 's \<Rightarrow> 'r \<Rightarrow> 'v \<Rightarrow> 'v \<Rightarrow> 'v \<times> 'v" where
  "from_rev_scaled_bf A scalar scaled_r x v =
     (let u = ar_guard A x
      in (ar_mulScalar A (ar_guard A (ar_add A u v)) scalar, ar_mulRoot A (ar_sub A u v) scaled_r))"

text \<open>One pass over the values: \<open>m\<close> blocks, each with the next root. \<open>rid\<close> is the last root read.\<close>

function blocks :: "('r \<Rightarrow> 'v \<Rightarrow> 'v \<Rightarrow> 'v \<times> 'v) \<Rightarrow> 'r list \<Rightarrow> nat \<Rightarrow> nat \<Rightarrow> nat \<Rightarrow> nat \<Rightarrow> nat \<Rightarrow> 'v list \<Rightarrow> nat \<times> 'v list" where
  "blocks bf roots gap m i offset rid values =
     (if i < m then
        let rid = rid + 1; r = roots ! rid
        in blocks bf roots gap m (i + 1) (offset + 2 * gap) rid (butterflies (bf r) gap offset values)
      else (rid, values))"
  by pat_completeness auto

termination
  by (relation "measure (\<lambda>(bf, roots, gap, m, i, offset, rid, values). m - i)") auto

declare blocks.simps [simp del]

text \<open>The outer loop of \<open>transformToRev\<close>; \<open>m\<close> starts at one and doubles (zero, where it would not end, does not occur).\<close>

function to_rev_levels ::
    "('v, 'r, 's) Arithmetic \<Rightarrow> 'r list \<Rightarrow> nat \<Rightarrow> nat \<Rightarrow> nat \<Rightarrow> nat \<Rightarrow> 'v list \<Rightarrow> nat \<times> nat \<times> 'v list" where
  "to_rev_levels A roots n gap m rid values =
     (if 0 < m \<and> m < n div 2 then
        let (rid, values) = blocks (to_rev_bf A) roots gap m 0 0 rid values
        in to_rev_levels A roots n (gap div 2) (2 * m) rid values
      else (m, rid, values))"
  by pat_completeness auto

termination
  by (relation "measure (\<lambda>(A, roots, n, gap, m, rid, values). n div 2 - m)") auto

declare to_rev_levels.simps [simp del]

text \<open>The last loop works on neighbours, without the unrolled variant.\<close>

function last_blocks :: "('r \<Rightarrow> 'v \<Rightarrow> 'v \<Rightarrow> 'v \<times> 'v) \<Rightarrow> 'r list \<Rightarrow> nat \<Rightarrow> nat \<Rightarrow> nat \<Rightarrow> nat \<Rightarrow> 'v list \<Rightarrow> 'v list" where
  "last_blocks bf roots m i pos rid values =
     (if i < m then
        let rid = rid + 1; r = roots ! rid
        in last_blocks bf roots m (i + 1) (pos + 2) rid (butterfly (bf r) pos (pos + 1) values)
      else values)"
  by pat_completeness auto

termination
  by (relation "measure (\<lambda>(bf, roots, m, i, pos, rid, values). m - i)") auto

declare last_blocks.simps [simp del]

definition transformToRev ::
    "('v, 'r, 's) Arithmetic \<Rightarrow> 'v list \<Rightarrow> nat \<Rightarrow> 'r list \<Rightarrow> 's option \<Rightarrow> 'v list" where
  "transformToRev A values log_n roots scalar =
     (let n = push_bit log_n 1;
          (m, rid, values) = to_rev_levels A roots n (n div 2) 1 0 values
      in case scalar of
           Some s \<Rightarrow> last_blocks (\<lambda>r. to_rev_scaled_bf A s (ar_mulRootScalar A r s)) roots m 0 0 rid values
         | None \<Rightarrow> last_blocks (to_rev_bf A) roots m 0 0 rid values)"

function from_rev_levels ::
    "('v, 'r, 's) Arithmetic \<Rightarrow> 'r list \<Rightarrow> nat \<Rightarrow> nat \<Rightarrow> nat \<Rightarrow> 'v list \<Rightarrow> nat \<times> nat \<times> 'v list" where
  "from_rev_levels A roots gap m rid values =
     (if m > 1 then
        let (rid, values) = blocks (from_rev_bf A) roots gap m 0 0 rid values
        in from_rev_levels A roots (2 * gap) (m div 2) rid values
      else (gap, rid, values))"
  by pat_completeness auto

termination
  by (relation "measure (\<lambda>(A, roots, gap, m, rid, values). m)") auto

declare from_rev_levels.simps [simp del]

definition transformFromRev ::
    "('v, 'r, 's) Arithmetic \<Rightarrow> 'v list \<Rightarrow> nat \<Rightarrow> 'r list \<Rightarrow> 's option \<Rightarrow> 'v list" where
  "transformFromRev A values log_n roots scalar =
     (let n = push_bit log_n 1;
          (gap, rid, values) = from_rev_levels A roots 1 (n div 2) 0 values;
          r = roots ! (rid + 1)
      in case scalar of
           Some s \<Rightarrow> butterflies (from_rev_scaled_bf A s (ar_mulRootScalar A r s)) gap 0 values
         | None \<Rightarrow> butterflies (from_rev_bf A r) gap 0 values)"


section \<open>The loops by index\<close>

text \<open>One pass in terms of the index: the first half of each block of \<open>2 * g\<close> values takes the first value.\<close>

definition pair_up :: "('v \<Rightarrow> 'v \<Rightarrow> 'v \<times> 'v) \<Rightarrow> nat \<Rightarrow> nat \<Rightarrow> nat \<Rightarrow> 'v list \<Rightarrow> 'v list" where
  "pair_up bf d x y vs = map (\<lambda>k.
     if x \<le> k \<and> k < x + d then fst (bf (vs ! k) (vs ! (k - x + y)))
     else if y \<le> k \<and> k < y + d then snd (bf (vs ! (k - y + x)) (vs ! k))
     else vs ! k) [0..<length vs]"

lemma length_butterfly [simp]: "length (butterfly bf x y vs) = length vs"
  by (simp add: butterfly_def split: prod.splits)

lemma pair_up_Suc:
  assumes "Suc d + x \<le> y" "y + Suc d \<le> length vs"
  shows "pair_up bf d (Suc x) (Suc y) (butterfly bf x y vs) = pair_up bf (Suc d) x y vs"
proof (rule nth_equalityI)
  fix k
  assume "k < length (pair_up bf d (Suc x) (Suc y) (butterfly bf x y vs))"
  then have k: "k < length vs" by (simp add: pair_up_def)
  have at: "butterfly bf x y vs ! i = (if i = y then snd (bf (vs ! x) (vs ! y))
      else if i = x then fst (bf (vs ! x) (vs ! y)) else vs ! i)" if "i < length vs" for i
    using that assms by (auto simp: butterfly_def nth_list_update split: prod.splits)
  consider "k = x" | "k = y" | "Suc x \<le> k" "k < Suc x + d" | "Suc y \<le> k" "k < Suc y + d"
    | "k \<noteq> x" "k \<noteq> y" "\<not> (Suc x \<le> k \<and> k < Suc x + d)" "\<not> (Suc y \<le> k \<and> k < Suc y + d)" by blast
  then show "pair_up bf d (Suc x) (Suc y) (butterfly bf x y vs) ! k = pair_up bf (Suc d) x y vs ! k"
    by cases (use k assms at in \<open>auto simp: pair_up_def not_le Suc_diff_le Suc_diff_Suc\<close>)
qed (simp add: pair_up_def)

lemma pair_up_0: "pair_up bf 0 x y vs = vs"
  by (rule nth_equalityI) (auto simp: pair_up_def)

lemma butterflies1_pair_up:
  "j + d = gap \<Longrightarrow> d + x \<le> y \<Longrightarrow> y + d \<le> length vs \<Longrightarrow>
   butterflies1 bf gap j x y vs = pair_up bf d x y vs"
proof (induction d arbitrary: j x y vs)
  case 0
  then show ?case by (subst butterflies1.simps) (simp add: pair_up_0)
next
  case (Suc d)
  then have "butterflies1 bf gap j x y vs = butterflies1 bf gap (Suc j) (Suc x) (Suc y) (butterfly bf x y vs)"
    by (subst butterflies1.simps) simp
  also have "\<dots> = pair_up bf d (Suc x) (Suc y) (butterfly bf x y vs)"
    using Suc.prems by (intro Suc.IH) simp_all
  finally show ?case using pair_up_Suc [of d x y vs bf] Suc.prems by simp
qed

text \<open>The unrolled loop does the same on a multiple of four.\<close>

lemma butterflies4_eq:
  "gap - j = 4 * d \<Longrightarrow> butterflies4 bf gap j x y vs = butterflies1 bf gap j x y vs"
proof (induction d arbitrary: j x y vs)
  case 0
  then show ?case by (subst butterflies1.simps, subst butterflies4.simps) simp
next
  case (Suc d)
  have j: "j < gap" "j + 1 < gap" "j + 2 < gap" "j + 3 < gap" using Suc.prems by presburger+
  have step: "butterflies1 bf gap j x y vs = butterflies1 bf gap (j + 1) (x + 1) (y + 1) (butterfly bf x y vs)"
    if "j < gap" for j x y vs
    using that by (subst butterflies1.simps) simp
  have "butterflies1 bf gap j x y vs = butterflies1 bf gap (j + 4) (x + 4) (y + 4)
      (butterfly bf (x + 3) (y + 3) (butterfly bf (x + 2) (y + 2) (butterfly bf (x + 1) (y + 1) (butterfly bf x y vs))))"
    using step [OF j(1), of x y vs] step [OF j(2), of "x + 1" "y + 1"] step [OF j(3), of "x + 2" "y + 2"]
      step [OF j(4), of "x + 3" "y + 3"] by (simp add: numeral_eq_Suc)
  moreover have "gap - (j + 4) = 4 * d" using Suc.prems by presburger
  ultimately show ?case using Suc.IH [of "j + 4"] j(1) by (subst butterflies4.simps) (simp add: Let_def)
qed

lemma butterflies_pair_up:
  assumes "gap < 4 \<or> 4 dvd gap" "x + 2 * gap \<le> length vs"
  shows "butterflies bf gap x vs = pair_up bf gap x (x + gap) vs"
proof -
  have "butterflies bf gap x vs = butterflies1 bf gap 0 x (x + gap) vs"
    using assms(1) butterflies4_eq [of gap 0 "gap div 4"] by (auto simp: butterflies_def)
  then show ?thesis using butterflies1_pair_up [of 0 gap gap x "x + gap" vs bf] assms(2) by simp
qed

definition level :: "('r \<Rightarrow> 'v \<Rightarrow> 'v \<Rightarrow> 'v \<times> 'v) \<Rightarrow> 'r list \<Rightarrow> nat \<Rightarrow> nat \<Rightarrow> 'v list \<Rightarrow> 'v list" where
  "level bf roots g rid vs = map (\<lambda>k.
     let r = roots ! (rid + 1 + k div (2 * g))
     in if k mod (2 * g) < g then fst (bf r (vs ! k) (vs ! (k + g)))
        else snd (bf r (vs ! (k - g)) (vs ! k))) [0..<length vs]"

lemma length_level [simp]: "length (level bf roots g rid vs) = length vs"
  by (simp add: level_def)

lemma block_index:
  assumes "(2 * g) * i \<le> k" "k < (2 * g) * (i + 1)"
  shows "k div (2 * g) = (i :: nat)" "k mod (2 * g) = k - (2 * g) * i"
proof -
  show d: "k div (2 * g) = i" using assms by (intro div_nat_eqI) (simp_all add: mult.commute)
  show "k mod (2 * g) = k - (2 * g) * i" unfolding minus_div_mult_eq_mod [symmetric] d by (simp add: mult.commute)
qed

lemma blocks_prefix:
  assumes "gap < 4 \<or> 4 dvd gap" "length vs = 2 * gap * m" "0 < gap"
  shows "i \<le> m \<Longrightarrow> length ws = length vs \<Longrightarrow>
    (\<forall>k < 2 * gap * i. ws ! k = level bf roots gap rid vs ! k) \<Longrightarrow>
    (\<forall>k < length vs. 2 * gap * i \<le> k \<longrightarrow> ws ! k = vs ! k) \<Longrightarrow>
    blocks bf roots gap m i (2 * gap * i) (rid + i) ws = (rid + m, level bf roots gap rid vs)"
proof (induction "m - i" arbitrary: i ws)
  case 0
  then have "i = m" by simp
  then have "ws = level bf roots gap rid vs" using 0 assms(2) by (intro nth_equalityI) simp_all
  then show ?case using \<open>i = m\<close> by (subst blocks.simps) simp
next
  case (Suc d)
  let ?r = "roots ! (rid + 1 + i)" and ?x = "2 * gap * i"
  let ?ws = "pair_up (bf ?r) gap ?x (?x + gap) ws"
  have i: "i < m" using Suc.hyps(2) by simp
  have "2 * gap * (i + 1) \<le> 2 * gap * m" using i by (intro mult_le_mono2) simp
  then have len: "?x + 2 * gap \<le> length vs" unfolding assms(2) by (simp add: algebra_simps)
  have "?ws ! k = level bf roots gap rid vs ! k" if k: "k < 2 * gap * (i + 1)" for k
  proof (cases "k < ?x")
    case True
    then show ?thesis using Suc.prems(2,3) len by (simp add: pair_up_def)
  next
    case False
    then have kx: "?x \<le> k" by simp
    note b = block_index [OF kx k]
    have k': "k < ?x + 2 * gap" using k by (simp add: algebra_simps)
    have same: "ws ! l = vs ! l" if "?x \<le> l" "l < ?x + 2 * gap" for l
      using Suc.prems(4) that len by simp
    show ?thesis
    proof (cases "k < ?x + gap")
      case lo: True
      have "k - ?x + (?x + gap) = k + gap" "k - ?x < gap" using kx lo by linarith+
      then show ?thesis
        using lo kx k' len b same [of k] same [of "k + gap"] Suc.prems(2) by (simp add: pair_up_def level_def Let_def)
    next
      case hi: False
      have "k - (?x + gap) + ?x = k - gap" "\<not> k - ?x < gap" using hi kx by linarith+
      then show ?thesis
        using hi kx k' len b same [of k] same [of "k - gap"] Suc.prems(2) by (simp add: pair_up_def level_def Let_def)
    qed
  qed
  moreover have "?ws ! k = vs ! k" if "k < length vs" "2 * gap * (i + 1) \<le> k" for k
    using that Suc.prems(2,4) by (simp add: pair_up_def algebra_simps)
  ultimately have "blocks bf roots gap m (i + 1) (2 * gap * (i + 1)) (rid + (i + 1)) ?ws = (rid + m, level bf roots gap rid vs)"
    using Suc i by (intro Suc.hyps(1)) (simp_all add: pair_up_def)
  moreover have "butterflies (bf ?r) gap ?x ws = ?ws"
    using len Suc.prems(2) by (intro butterflies_pair_up [OF assms(1)]) simp
  ultimately show ?case using i by (subst blocks.simps) (simp add: algebra_simps)
qed

lemma blocks_level:
  assumes "gap < 4 \<or> 4 dvd gap" "length vs = 2 * gap * m" "0 < gap"
  shows "blocks bf roots gap m 0 0 rid vs = (rid + m, level bf roots gap rid vs)"
  using blocks_prefix [OF assms, of 0 vs bf roots rid] by simp

lemma last_blocks_eq:
  "last_blocks bf roots m i pos rid vs = snd (blocks bf roots 1 m i pos rid vs)"
proof (induction bf roots m i pos rid vs rule: last_blocks.induct)
  case (1 bf roots m i pos rid vs)
  have "butterflies f 1 pos vs = butterfly f pos (pos + 1) vs" for f
    by (simp add: butterflies_def butterflies1.simps)
  then show ?case using 1 by (subst last_blocks.simps, subst blocks.simps) (simp add: Let_def)
qed

lemma last_blocks_level: "length vs = 2 * m \<Longrightarrow> last_blocks bf roots m 0 0 rid vs = level bf roots 1 rid vs"
  unfolding last_blocks_eq by (subst blocks_level) simp_all


section \<open>Congruence\<close>

definition eqm :: "int \<Rightarrow> int \<Rightarrow> int \<Rightarrow> bool" where
  "eqm q x y \<longleftrightarrow> x mod q = y mod q"

named_theorems eqm

lemma eqm_refl [eqm, simp]: "eqm q x x" by (simp add: eqm_def)
lemma eqm_sym: "eqm q x y \<Longrightarrow> eqm q y x" by (simp add: eqm_def)
lemma eqm_trans [trans]: "eqm q x y \<Longrightarrow> eqm q y z \<Longrightarrow> eqm q x z" by (simp add: eqm_def)
lemma eqm_add [eqm]: "eqm q x x' \<Longrightarrow> eqm q y y' \<Longrightarrow> eqm q (x + y) (x' + y')"
  unfolding eqm_def by (rule mod_add_cong)
lemma eqm_diff [eqm]: "eqm q x x' \<Longrightarrow> eqm q y y' \<Longrightarrow> eqm q (x - y) (x' - y')"
  unfolding eqm_def by (rule mod_diff_cong)
lemma eqm_mult [eqm]: "eqm q x x' \<Longrightarrow> eqm q y y' \<Longrightarrow> eqm q (x * y) (x' * y')"
  unfolding eqm_def by (rule mod_mult_cong)
lemma eqm_minus [eqm]: "eqm q x x' \<Longrightarrow> eqm q (- x) (- x')"
  unfolding eqm_def by (metis mod_minus_eq)
lemma eqm_power [eqm]: "eqm q x x' \<Longrightarrow> eqm q (x ^ n) (x' ^ n)"
  unfolding eqm_def by (metis power_mod)
lemma eqm_sum [eqm]: "(\<And>i. i \<in> A \<Longrightarrow> eqm q (f i) (g i)) \<Longrightarrow> eqm q (\<Sum>i\<in>A. f i) (\<Sum>i\<in>A. g i)"
  by (induction A rule: infinite_finite_induct) (auto intro: eqm_add)

section \<open>Bit reversal of numbers\<close>

fun revn :: "nat \<Rightarrow> nat \<Rightarrow> nat" where
  "revn 0 i = 0"
| "revn (Suc s) i = revn s (i div 2) + 2 ^ s * (i mod 2)"

lemma revn_less: "revn s i < 2 ^ s"
proof (induction s arbitrary: i)
  case (Suc s)
  have "(2 :: nat) ^ s * (i mod 2) \<le> 2 ^ s" by simp
  then show ?case using Suc [of "i div 2"] unfolding revn.simps power_Suc by linarith
qed simp

lemma revn_low: "i < 2 ^ s \<Longrightarrow> revn (Suc s) i = 2 * revn s i"
proof (induction s arbitrary: i)
  case (Suc s)
  then have "revn (Suc s) (i div 2) = 2 * revn s (i div 2)" by (intro Suc.IH) simp
  then show ?case by (simp add: algebra_simps)
qed simp

lemma revn_high: "i < 2 ^ s \<Longrightarrow> revn (Suc s) (2 ^ s + i) = 2 * revn s i + 1"
proof (induction s arbitrary: i)
  case (Suc s)
  then have "revn (Suc s) (2 ^ s + i div 2) = 2 * revn s (i div 2) + 1" by (intro Suc.IH) simp
  then show ?case by (simp add: algebra_simps)
qed simp

lemma revn_shift: "t < 2 ^ s \<Longrightarrow> revn (s + d) t = 2 ^ d * revn s t"
proof (induction d)
  case (Suc d)
  have "(2 :: nat) ^ s \<le> 2 ^ (s + d)" by (intro power_increasing) simp_all
  then have "t < 2 ^ (s + d)" using Suc.prems by linarith
  then show ?case using revn_low [of t "s + d"] Suc by simp
qed simp

lemma revn_involution: "i < 2 ^ s \<Longrightarrow> revn s (revn s i) = i"
proof (induction s arbitrary: i)
  case (Suc s)
  then have IH: "revn s (revn s (i div 2)) = i div 2" by (intro Suc.IH) simp
  show ?case
  proof (cases "even i")
    case True
    then show ?thesis using revn_low [OF revn_less, of s "i div 2"] IH by simp
  next
    case False
    then have "i mod 2 = 1" by presburger
    then show ?thesis
      using revn_high [OF revn_less, of s "i div 2"] IH div_mult_mod_eq [of i 2] by (simp add: add.commute)
  qed
qed simp

lemma revn_inj: "i < 2 ^ s \<Longrightarrow> j < 2 ^ s \<Longrightarrow> revn s i = revn s j \<Longrightarrow> i = j"
  by (metis revn_involution)

text \<open>The exponent of the root of a block, in both orders in which the roots are stored.\<close>

lemma revn_root:
  assumes "i < 2 ^ s" "s < p"
  shows "revn p (2 ^ s + i) = (2 * revn s i + 1) * 2 ^ (p - s - 1)"
proof -
  have "revn (Suc s + (p - s - 1)) (2 ^ s + i) = 2 ^ (p - s - 1) * revn (Suc s) (2 ^ s + i)"
    using assms(1) by (intro revn_shift) simp
  then show ?thesis unfolding revn_high [OF assms(1)] using assms(2) by (simp add: mult.commute)
qed

lemma revn_inv_root:
  assumes "i < 2 ^ s" "s < p"
  shows "revn p (2 ^ p - 2 * 2 ^ s + i) + 1 = (2 * revn s i + 1) * 2 ^ (p - s - 1)"
proof -
  have "revn (Suc s + d) (2 ^ (Suc s + d) - 2 * 2 ^ s + i) + 1 = (2 * revn s i + 1) * 2 ^ d" for d
  proof (induction d)
    case 0
    then show ?case using revn_low [OF assms(1)] by simp
  next
    case (Suc d)
    let ?t = "2 ^ (Suc s + d) - 2 * 2 ^ s + i"
    have le: "2 * (2 :: nat) ^ s \<le> 2 ^ (Suc s + d)" by simp
    then have "?t < 2 ^ (Suc s + d)" using assms(1) by linarith
    from revn_high [OF this]
    have "revn (Suc (Suc s + d)) (2 ^ (Suc s + d) + ?t) = 2 * revn (Suc s + d) ?t + 1" .
    moreover have "2 ^ (Suc s + d) + ?t = 2 ^ (Suc s + Suc d) - 2 * 2 ^ s + i"
    proof -
      have "(2 :: nat) ^ (Suc s + Suc d) = 2 * 2 ^ (Suc s + d)" by simp
      then show ?thesis using le by linarith
    qed
    ultimately show ?case using Suc by (simp del: revn.simps)
  qed
  from this [of "p - s - 1"] show ?thesis using assms(2) by simp
qed

section \<open>The values between the levels\<close>

text \<open>
  Value \<open>j\<close> of block \<open>i\<close> after \<open>s\<close> levels: the coefficient \<open>j\<close> of the polynomial modulo
  \<open>x ^ (2 ^ (p - s)) - w\<close>, where \<open>w\<close> is the power of \<open>\<psi>\<close> that belongs to the block.
\<close>

definition stage :: "nat \<Rightarrow> int \<Rightarrow> (nat \<Rightarrow> int) \<Rightarrow> nat \<Rightarrow> nat \<Rightarrow> nat \<Rightarrow> int" where
  "stage p \<psi> a s i j =
     (\<Sum>c<2 ^ s. a (j + c * 2 ^ (p - s)) * \<psi> ^ ((2 * revn s i + 1) * 2 ^ (p - s) * c))"

text \<open>The transform: the polynomial at an odd power of \<open>\<psi>\<close>.\<close>

definition evaluation :: "nat \<Rightarrow> int \<Rightarrow> (nat \<Rightarrow> int) \<Rightarrow> nat \<Rightarrow> int" where
  "evaluation p \<psi> a k = (\<Sum>c<2 ^ p. a c * \<psi> ^ ((2 * revn p k + 1) * c))"

lemma stage_0: "stage p \<psi> a 0 0 j = a j"
  by (simp add: stage_def)

lemma stage_p: "stage p \<psi> a p k 0 = evaluation p \<psi> a k"
  by (simp add: stage_def evaluation_def)

lemma sum_even_odd: "(\<Sum>c<2 * (n :: nat). f c) = (\<Sum>c<n. f (2 * c) + f (2 * c + 1) :: int)"
  by (induction n) simp_all

lemma stage_split:
  assumes "s < p"
  shows "(\<Sum>c<2 ^ Suc s. a (j + c * 2 ^ (p - Suc s)) * r ^ c) =
    (\<Sum>c<2 ^ s. a (j + c * 2 ^ (p - s)) * (r * r) ^ c) + r * (\<Sum>c<2 ^ s. a (j + 2 ^ (p - Suc s) + c * 2 ^ (p - s)) * (r * r :: int) ^ c)"
proof -
  have e: "2 ^ (p - s) = 2 * 2 ^ (p - Suc s)" using assms by (simp flip: power_Suc add: Suc_diff_Suc)
  have "(\<Sum>c<2 ^ Suc s. a (j + c * 2 ^ (p - Suc s)) * r ^ c) =
    (\<Sum>c<2 ^ s. a (j + c * 2 ^ (p - s)) * (r * r) ^ c + r * (a (j + 2 ^ (p - Suc s) + c * 2 ^ (p - s)) * (r * r) ^ c))"
    unfolding power_Suc sum_even_odd e
    by (intro sum.cong refl) (simp add: algebra_simps power_mult power2_eq_square)
  then show ?thesis by (simp only: sum.distrib sum_distrib_left)
qed

lemma stage_step:
  assumes "s < p" "i < 2 ^ s" "eqm q (\<psi> ^ 2 ^ p) (- 1)"
  defines "r \<equiv> \<psi> ^ ((2 * revn s i + 1) * 2 ^ (p - s - 1))"
  shows "stage p \<psi> a (Suc s) (2 * i) j = stage p \<psi> a s i j + r * stage p \<psi> a s i (j + 2 ^ (p - s - 1))"
    and "eqm q (stage p \<psi> a (Suc s) (2 * i + 1) j) (stage p \<psi> a s i j - r * stage p \<psi> a s i (j + 2 ^ (p - s - 1)))"
proof -
  have e: "2 ^ (p - s) = 2 * (2 :: nat) ^ (p - Suc s)" using assms(1) by (simp flip: power_Suc add: Suc_diff_Suc)
  have d: "p - s - 1 = p - Suc s" by simp
  have w: "\<psi> ^ ((2 * revn s i + 1) * 2 ^ (p - s) * c) = (r * r) ^ c" for c
    unfolding r_def e d by (simp add: power_mult_distrib algebra_simps flip: power_mult power_add)
  have st: "stage p \<psi> a s i j' = (\<Sum>c<2 ^ s. a (j' + c * 2 ^ (p - s)) * (r * r) ^ c)" for j'
    unfolding stage_def w ..
  have "revn (Suc s) (2 * i) = revn s i" by simp
  then have "stage p \<psi> a (Suc s) (2 * i) j = (\<Sum>c<2 ^ Suc s. a (j + c * 2 ^ (p - Suc s)) * r ^ c)"
    unfolding stage_def r_def d by (simp only: power_mult)
  then show "stage p \<psi> a (Suc s) (2 * i) j = stage p \<psi> a s i j + r * stage p \<psi> a s i (j + 2 ^ (p - s - 1))"
    unfolding stage_split [OF assms(1)] st d .
  have p: "2 ^ Suc s * 2 ^ (p - Suc s) = (2 :: nat) ^ p"
    using assms(1) by (metis Suc_leI le_add_diff_inverse power_add)
  have "revn (Suc s) (2 * i + 1) = revn s i + 2 ^ s" by simp
  then have "(2 * revn (Suc s) (2 * i + 1) + 1) * 2 ^ (p - Suc s) = (2 * revn s i + 1) * 2 ^ (p - Suc s) + 2 ^ p"
    unfolding p [symmetric] by (simp add: algebra_simps)
  then have "stage p \<psi> a (Suc s) (2 * i + 1) j = (\<Sum>c<2 ^ Suc s. a (j + c * 2 ^ (p - Suc s)) * (r * \<psi> ^ 2 ^ p) ^ c)"
    unfolding stage_def r_def d by (simp only: power_mult power_add)
  moreover have "eqm q (r * \<psi> ^ 2 ^ p) (- r)" using eqm_mult [OF eqm_refl assms(3), of r] by simp
  ultimately have "eqm q (stage p \<psi> a (Suc s) (2 * i + 1) j) (\<Sum>c<2 ^ Suc s. a (j + c * 2 ^ (p - Suc s)) * (- r) ^ c)"
    by (auto intro: eqm)
  then show "eqm q (stage p \<psi> a (Suc s) (2 * i + 1) j) (stage p \<psi> a s i j - r * stage p \<psi> a s i (j + 2 ^ (p - s - 1)))"
    unfolding stage_split [OF assms(1)] st d by simp
qed


section \<open>The contract of the arithmetic\<close>

text \<open>
  What the transforms need of \<open>Arithmetic\<close>: the operations are those of a ring of residues on values
  of two sizes. A \<open>wide\<close> value is what a sum or a difference leaves, a \<open>lazy\<close> one what a guard or a product
  leaves; sums and differences may only be taken of lazy values.
\<close>

locale dwt_arith =
  fixes A :: "('v, 'r, 's) Arithmetic"
    and q :: int and val :: "'v \<Rightarrow> int" and rval :: "'r \<Rightarrow> int" and sval :: "'s \<Rightarrow> int"
    and lazy :: "'v \<Rightarrow> bool" and wide :: "'v \<Rightarrow> bool" and okr :: "'r \<Rightarrow> bool" and oks :: "'s \<Rightarrow> bool"
  assumes lazy_wide: "lazy x \<Longrightarrow> wide x"
    and guard: "wide x \<Longrightarrow> lazy (ar_guard A x) \<and> eqm q (val (ar_guard A x)) (val x)"
    and mulRoot: "wide x \<Longrightarrow> okr r \<Longrightarrow> lazy (ar_mulRoot A x r) \<and> eqm q (val (ar_mulRoot A x r)) (val x * rval r)"
    and mulScalar: "wide x \<Longrightarrow> oks s \<Longrightarrow> lazy (ar_mulScalar A x s) \<and> eqm q (val (ar_mulScalar A x s)) (val x * sval s)"
    and mulRootScalar: "okr r \<Longrightarrow> oks s \<Longrightarrow>
      okr (ar_mulRootScalar A r s) \<and> eqm q (rval (ar_mulRootScalar A r s)) (rval r * sval s)"
    and add: "lazy x \<Longrightarrow> lazy y \<Longrightarrow> wide (ar_add A x y) \<and> eqm q (val (ar_add A x y)) (val x + val y)"
    and sub: "lazy x \<Longrightarrow> lazy y \<Longrightarrow> wide (ar_sub A x y) \<and> eqm q (val (ar_sub A x y)) (val x - val y)"
begin

text \<open>What a butterfly computes, up to a scalar.\<close>

definition forward :: "int \<Rightarrow> ('r \<Rightarrow> 'v \<Rightarrow> 'v \<Rightarrow> 'v \<times> 'v) \<Rightarrow> bool" where
  "forward \<sigma> bf \<longleftrightarrow> (\<forall>r x y. wide x \<longrightarrow> wide y \<longrightarrow> okr r \<longrightarrow>
     wide (fst (bf r x y)) \<and> eqm q (val (fst (bf r x y))) (\<sigma> * (val x + rval r * val y)) \<and>
     wide (snd (bf r x y)) \<and> eqm q (val (snd (bf r x y))) (\<sigma> * (val x - rval r * val y)))"

definition backward :: "int \<Rightarrow> ('r \<Rightarrow> 'v \<Rightarrow> 'v \<Rightarrow> 'v \<times> 'v) \<Rightarrow> bool" where
  "backward \<sigma> bf \<longleftrightarrow> (\<forall>r x y. lazy x \<longrightarrow> lazy y \<longrightarrow> okr r \<longrightarrow>
     lazy (fst (bf r x y)) \<and> eqm q (val (fst (bf r x y))) (\<sigma> * (val x + val y)) \<and>
     lazy (snd (bf r x y)) \<and> eqm q (val (snd (bf r x y))) (\<sigma> * ((val x - val y) * rval r)))"

lemma forward_bf: "forward 1 (to_rev_bf A)"
  unfolding forward_def
proof (intro allI impI)
  fix r x y
  assume x: "wide x" and y: "wide y" and r: "okr r"
  note g = guard [OF x] and m = mulRoot [OF y r]
  note a = add [OF g [THEN conjunct1] m [THEN conjunct1]] and s = sub [OF g [THEN conjunct1] m [THEN conjunct1]]
  have "eqm q (val (ar_add A (ar_guard A x) (ar_mulRoot A y r))) (val x + val y * rval r)"
    by (rule eqm_trans [OF a [THEN conjunct2]]) (intro eqm_add g [THEN conjunct2] m [THEN conjunct2])
  moreover have "eqm q (val (ar_sub A (ar_guard A x) (ar_mulRoot A y r))) (val x - val y * rval r)"
    by (rule eqm_trans [OF s [THEN conjunct2]]) (intro eqm_diff g [THEN conjunct2] m [THEN conjunct2])
  ultimately show "wide (fst (to_rev_bf A r x y)) \<and> eqm q (val (fst (to_rev_bf A r x y))) (1 * (val x + rval r * val y)) \<and>
     wide (snd (to_rev_bf A r x y)) \<and> eqm q (val (snd (to_rev_bf A r x y))) (1 * (val x - rval r * val y))"
    using a s by (simp add: to_rev_bf_def Let_def mult.commute)
qed

lemma forward_scaled_bf:
  assumes s: "oks s"
  shows "forward (sval s) (\<lambda>r. to_rev_scaled_bf A s (ar_mulRootScalar A r s))"
  unfolding forward_def
proof (intro allI impI)
  fix r x y
  assume x: "wide x" and y: "wide y" and r: "okr r"
  let ?u = "ar_mulScalar A (ar_guard A x) s" and ?r = "ar_mulRootScalar A r s"
  note g = guard [OF x] and rs = mulRootScalar [OF r s]
  note u = mulScalar [OF lazy_wide [OF g [THEN conjunct1]] s] and m = mulRoot [OF y rs [THEN conjunct1]]
  note a = add [OF u [THEN conjunct1] m [THEN conjunct1]] and d = sub [OF u [THEN conjunct1] m [THEN conjunct1]]
  have u': "eqm q (val ?u) (val x * sval s)"
    by (rule eqm_trans [OF u [THEN conjunct2]]) (intro eqm_mult eqm_refl g [THEN conjunct2])
  have m': "eqm q (val (ar_mulRoot A y ?r)) (val y * (rval r * sval s))"
    by (rule eqm_trans [OF m [THEN conjunct2]]) (intro eqm_mult eqm_refl rs [THEN conjunct2])
  have "eqm q (val (ar_add A ?u (ar_mulRoot A y ?r))) (val x * sval s + val y * (rval r * sval s))"
    by (rule eqm_trans [OF a [THEN conjunct2]]) (intro eqm_add u' m')
  moreover have "eqm q (val (ar_sub A ?u (ar_mulRoot A y ?r))) (val x * sval s - val y * (rval r * sval s))"
    by (rule eqm_trans [OF d [THEN conjunct2]]) (intro eqm_diff u' m')
  ultimately show "wide (fst (to_rev_scaled_bf A s ?r x y)) \<and>
     eqm q (val (fst (to_rev_scaled_bf A s ?r x y))) (sval s * (val x + rval r * val y)) \<and>
     wide (snd (to_rev_scaled_bf A s ?r x y)) \<and>
     eqm q (val (snd (to_rev_scaled_bf A s ?r x y))) (sval s * (val x - rval r * val y))"
    using a d by (simp add: to_rev_scaled_bf_def Let_def algebra_simps)
qed

lemma backward_bf: "backward 1 (from_rev_bf A)"
  unfolding backward_def
proof (intro allI impI)
  fix r x y
  assume x: "lazy x" and y: "lazy y" and r: "okr r"
  note a = add [OF x y] and s = sub [OF x y]
  note g = guard [OF a [THEN conjunct1]] and m = mulRoot [OF s [THEN conjunct1] r]
  have "eqm q (val (ar_guard A (ar_add A x y))) (val x + val y)"
    by (rule eqm_trans [OF g [THEN conjunct2] a [THEN conjunct2]])
  moreover have "eqm q (val (ar_mulRoot A (ar_sub A x y) r)) ((val x - val y) * rval r)"
    by (rule eqm_trans [OF m [THEN conjunct2]]) (intro eqm_mult eqm_refl s [THEN conjunct2])
  ultimately show "lazy (fst (from_rev_bf A r x y)) \<and> eqm q (val (fst (from_rev_bf A r x y))) (1 * (val x + val y)) \<and>
     lazy (snd (from_rev_bf A r x y)) \<and> eqm q (val (snd (from_rev_bf A r x y))) (1 * ((val x - val y) * rval r))"
    using g m by (simp add: from_rev_bf_def)
qed

lemma backward_scaled_bf:
  assumes s: "oks s"
  shows "backward (sval s) (\<lambda>r. from_rev_scaled_bf A s (ar_mulRootScalar A r s))"
  unfolding backward_def
proof (intro allI impI)
  fix r x y
  assume x: "lazy x" and y: "lazy y" and r: "okr r"
  let ?u = "ar_guard A x" and ?r = "ar_mulRootScalar A r s"
  note u = guard [OF lazy_wide [OF x]] and rs = mulRootScalar [OF r s]
  note a = add [OF u [THEN conjunct1] y] and d = sub [OF u [THEN conjunct1] y]
  note g = guard [OF a [THEN conjunct1]] and m = mulRoot [OF d [THEN conjunct1] rs [THEN conjunct1]]
  note ms = mulScalar [OF lazy_wide [OF g [THEN conjunct1]] s]
  have "eqm q (val (ar_guard A (ar_add A ?u y))) (val x + val y)"
    by (rule eqm_trans [OF g [THEN conjunct2] eqm_trans [OF a [THEN conjunct2]]])
      (intro eqm_add eqm_refl u [THEN conjunct2])
  then have "eqm q (val (ar_mulScalar A (ar_guard A (ar_add A ?u y)) s)) ((val x + val y) * sval s)"
    by (intro eqm_trans [OF ms [THEN conjunct2]] eqm_mult eqm_refl)
  moreover have "eqm q (val (ar_sub A ?u y)) (val x - val y)"
    by (rule eqm_trans [OF d [THEN conjunct2]]) (intro eqm_diff eqm_refl u [THEN conjunct2])
  then have "eqm q (val (ar_mulRoot A (ar_sub A ?u y) ?r)) ((val x - val y) * (rval r * sval s))"
    by (intro eqm_trans [OF m [THEN conjunct2]] eqm_mult rs [THEN conjunct2])
  ultimately show "lazy (fst (from_rev_scaled_bf A s ?r x y)) \<and>
     eqm q (val (fst (from_rev_scaled_bf A s ?r x y))) (sval s * (val x + val y)) \<and>
     lazy (snd (from_rev_scaled_bf A s ?r x y)) \<and>
     eqm q (val (snd (from_rev_scaled_bf A s ?r x y))) (sval s * ((val x - val y) * rval r))"
    using ms m by (simp add: from_rev_scaled_bf_def Let_def algebra_simps)
qed

end


text \<open>The stage of the value with index \<open>k\<close>, and the lists that hold a multiple of all of them.\<close>

definition stage_at :: "nat \<Rightarrow> int \<Rightarrow> (nat \<Rightarrow> int) \<Rightarrow> nat \<Rightarrow> nat \<Rightarrow> int" where
  "stage_at p \<psi> a s k = stage p \<psi> a s (k div 2 ^ (p - s)) (k mod 2 ^ (p - s))"

lemma halves:
  fixes g :: nat
  assumes "0 < g"
  shows "k mod (2 * g) < g \<longleftrightarrow> even (k div g)"
    and "even (k div g) \<Longrightarrow> k div g = 2 * (k div (2 * g)) \<and> k mod g = k mod (2 * g)"
    and "odd (k div g) \<Longrightarrow> k div g = 2 * (k div (2 * g)) + 1 \<and> k mod (2 * g) = k mod g + g"
    and "even (k div g) \<Longrightarrow> (k + g) div (2 * g) = k div (2 * g) \<and> (k + g) mod (2 * g) = k mod (2 * g) + g"
    and "odd (k div g) \<Longrightarrow> g \<le> k \<and> (k - g) div (2 * g) = k div (2 * g) \<and> (k - g) mod (2 * g) = k mod g"
proof -
  have d: "n div (2 * g) = n div g div 2" for n by (simp add: div_mult2_eq mult.commute)
  have m: "n mod (2 * g) = g * (n div g mod 2) + n mod g" for n
    using mod_mult2_eq [of n g 2] by (simp add: mult.commute)
  have lt: "n mod g < g" for n using assms by simp
  show "k mod (2 * g) < g \<longleftrightarrow> even (k div g)"
    using lt [of k] by (cases "even (k div g)") (auto simp: m even_iff_mod_2_eq_zero odd_iff_mod_2_eq_one)
  show "k div g = 2 * (k div (2 * g)) \<and> k mod g = k mod (2 * g)" if "even (k div g)"
    using that by (simp add: d m)
  show "k div g = 2 * (k div (2 * g)) + 1 \<and> k mod (2 * g) = k mod g + g" if "odd (k div g)"
    using that by (simp add: d m odd_iff_mod_2_eq_one)
  have up: "(k + g) div g = k div g + 1" "(k + g) mod g = k mod g" using assms div_add_self2 [of g k] by simp_all
  show "(k + g) div (2 * g) = k div (2 * g) \<and> (k + g) mod (2 * g) = k mod (2 * g) + g" if "even (k div g)"
  proof -
    have "(u + 1) div 2 = u div 2 \<and> (u + 1) mod 2 = 1 \<and> u mod 2 = 0" if "even u" for u :: nat
      using that by presburger
    from this [OF that] show ?thesis by (simp only: d m up) simp
  qed
  have ge: "g \<le> k" if "odd (k div g)" using that by (metis div_less even_zero not_le)
  then have down: "(k - g) div g = k div g - 1" "(k - g) mod g = k mod g" if "odd (k div g)"
    using that assms by (simp_all add: le_div_geq le_mod_geq)
  show "g \<le> k \<and> (k - g) div (2 * g) = k div (2 * g) \<and> (k - g) mod (2 * g) = k mod g" if "odd (k div g)"
    using that ge [OF that] by (auto simp: d m down elim!: oddE)
qed

lemma block_less:
  assumes "k < 2 ^ p" "s \<le> p"
  shows "k div 2 ^ (p - s) < (2 :: nat) ^ s"
proof -
  have "(2 :: nat) ^ p = 2 ^ (p - s) * 2 ^ s" using assms(2) by (simp flip: power_add)
  then show ?thesis using assms(1) by (simp add: less_mult_imp_div_less mult.commute)
qed

context dwt_arith
begin

definition at_stage :: "('v \<Rightarrow> bool) \<Rightarrow> nat \<Rightarrow> int \<Rightarrow> (nat \<Rightarrow> int) \<Rightarrow> int \<Rightarrow> nat \<Rightarrow> 'v list \<Rightarrow> bool" where
  "at_stage P p \<psi> a c s vs \<longleftrightarrow> length vs = 2 ^ p \<and>
     (\<forall>k<2 ^ p. P (vs ! k) \<and> eqm q (val (vs ! k)) (c * stage_at p \<psi> a s k))"

text \<open>Roots in bit-reversed order, and inverse roots in the scrambled order.\<close>

definition roots_of :: "nat \<Rightarrow> int \<Rightarrow> 'r list \<Rightarrow> bool" where
  "roots_of p \<psi> roots \<longleftrightarrow> (\<forall>t. 0 < t \<and> t < 2 ^ p \<longrightarrow>
     okr (roots ! t) \<and> eqm q (rval (roots ! t)) (\<psi> ^ revn p t))"

definition inv_roots_of :: "nat \<Rightarrow> int \<Rightarrow> 'r list \<Rightarrow> bool" where
  "inv_roots_of p \<phi> roots \<longleftrightarrow> (\<forall>t. 0 < t \<and> t < 2 ^ p \<longrightarrow>
     okr (roots ! t) \<and> eqm q (rval (roots ! t)) (\<phi> ^ (revn p (t - 1) + 1)))"

lemma forward_level:
  assumes bf: "forward \<sigma> bf" and st: "at_stage wide p \<psi> a c s vs" and s: "s < p"
    and roots: "roots_of p \<psi> roots" and \<psi>: "eqm q (\<psi> ^ 2 ^ p) (- 1)"
  shows "at_stage wide p \<psi> a (\<sigma> * c) (Suc s) (level bf roots (2 ^ (p - s - 1)) (2 ^ s - 1) vs)"
  unfolding at_stage_def
proof (intro conjI allI impI)
  let ?g = "2 ^ (p - s - 1) :: nat" and ?vs' = "level bf roots (2 ^ (p - s - 1)) (2 ^ s - 1) vs"
  have g2: "2 ^ (p - s) = 2 * ?g" using s by (simp flip: power_Suc)
  have g1: "p - Suc s = p - s - 1" by simp
  show len: "length ?vs' = 2 ^ p" using st by (simp add: at_stage_def)
  fix k :: nat
  assume k: "k < 2 ^ p"
  let ?i = "k div (2 * ?g)"
  let ?r = "roots ! (2 ^ s + ?i)" and ?R = "\<psi> ^ ((2 * revn s ?i + 1) * ?g)"
  have g0: "0 < ?g" by simp
  have i: "?i < 2 ^ s" using block_less [OF k, of s] s by (simp add: g2)
  have "2 ^ s + ?i < 2 * 2 ^ s" "2 * (2 :: nat) ^ s \<le> 2 ^ p"
    using i s power_increasing [of "Suc s" p "2 :: nat"] by simp_all
  then have "0 < 2 ^ s + ?i \<and> 2 ^ s + ?i < 2 ^ p" by simp
  from roots [unfolded roots_of_def, rule_format, OF this] have r: "okr ?r" "eqm q (rval ?r) ?R"
    unfolding revn_root [OF i s] by simp_all
  have vs: "wide (vs ! l)" "eqm q (val (vs ! l)) (c * stage p \<psi> a s (l div (2 * ?g)) (l mod (2 * ?g)))"
    if "l < 2 ^ p" for l using st that by (simp_all add: at_stage_def stage_at_def g2)
  have at: "?vs' ! k = (if k mod (2 * ?g) < ?g then fst (bf ?r (vs ! k) (vs ! (k + ?g)))
      else snd (bf ?r (vs ! (k - ?g)) (vs ! k)))"
    using k len by (simp add: level_def Let_def)
  note step = stage_step [OF s i \<psi>, of a]
  have comb: "eqm q (\<sigma> * (x + rval ?r * y)) (\<sigma> * c * (X + ?R * Y))" "eqm q (\<sigma> * (x - rval ?r * y)) (\<sigma> * c * (X - ?R * Y))"
    if "eqm q x (c * X)" "eqm q y (c * Y)" for x y X Y
  proof -
    have y: "eqm q (rval ?r * y) (?R * (c * Y))" by (intro eqm_mult r(2) that(2))
    have "eqm q (\<sigma> * (x + rval ?r * y)) (\<sigma> * (c * X + ?R * (c * Y)))"
      "eqm q (\<sigma> * (x - rval ?r * y)) (\<sigma> * (c * X - ?R * (c * Y)))"
      by (intro eqm_mult eqm_refl eqm_add eqm_diff that(1) y)+
    then show "eqm q (\<sigma> * (x + rval ?r * y)) (\<sigma> * c * (X + ?R * Y))" "eqm q (\<sigma> * (x - rval ?r * y)) (\<sigma> * c * (X - ?R * Y))"
      by (simp_all add: algebra_simps)
  qed
  have "wide (?vs' ! k) \<and> eqm q (val (?vs' ! k)) (\<sigma> * c * stage p \<psi> a (Suc s) (k div ?g) (k mod ?g))"
  proof (cases "even (k div ?g)")
    case True
    note h = halves(2,4) [OF g0 True]
    have kg: "k + ?g < 2 ^ p"
    proof -
      have "(k + ?g) div (2 * ?g) < 2 ^ s" using h(2) i by simp
      then have "k + ?g < 2 ^ s * (2 * ?g)" by (simp add: div_less_iff_less_mult)
      also have "2 ^ s * (2 * ?g) = (2 :: nat) ^ p" unfolding g2 [symmetric] using s by (simp flip: power_add)
      finally show ?thesis .
    qed
    have A: "wide (?vs' ! k) \<and> eqm q (val (?vs' ! k)) (\<sigma> * (val (vs ! k) + rval ?r * val (vs ! (k + ?g))))"
      using bf vs(1) [OF k] vs(1) [OF kg] r(1) at halves(1) [OF g0, of k] True by (simp add: forward_def)
    have B: "eqm q (\<sigma> * (val (vs ! k) + rval ?r * val (vs ! (k + ?g))))
        (\<sigma> * c * (stage p \<psi> a s ?i (k mod ?g) + ?R * stage p \<psi> a s ?i (k mod ?g + ?g)))"
    proof (rule comb(1))
      show "eqm q (val (vs ! k)) (c * stage p \<psi> a s ?i (k mod ?g))"
        using vs(2) [OF k] unfolding h(1) [THEN conjunct2] .
      show "eqm q (val (vs ! (k + ?g))) (c * stage p \<psi> a s ?i (k mod ?g + ?g))"
        using vs(2) [OF kg] unfolding h(2) [THEN conjunct1] h(2) [THEN conjunct2] h(1) [THEN conjunct2] .
    qed
    show ?thesis
      unfolding h(1) [THEN conjunct1] step(1)
      by (intro conjI A [THEN conjunct1] eqm_trans [OF A [THEN conjunct2] B])
  next
    case False
    note h = halves(3,5) [OF g0 False]
    have kg: "k - ?g < 2 ^ p" using k by simp
    have A: "wide (?vs' ! k) \<and> eqm q (val (?vs' ! k)) (\<sigma> * (val (vs ! (k - ?g)) - rval ?r * val (vs ! k)))"
      using bf vs(1) [OF k] vs(1) [OF kg] r(1) at halves(1) [OF g0, of k] False by (simp add: forward_def)
    have B: "eqm q (\<sigma> * (val (vs ! (k - ?g)) - rval ?r * val (vs ! k)))
        (\<sigma> * c * (stage p \<psi> a s ?i (k mod ?g) - ?R * stage p \<psi> a s ?i (k mod ?g + ?g)))"
    proof (rule comb(2))
      show "eqm q (val (vs ! (k - ?g))) (c * stage p \<psi> a s ?i (k mod ?g))"
        using vs(2) [OF kg] unfolding h(2) [THEN conjunct2, THEN conjunct1] h(2) [THEN conjunct2, THEN conjunct2] .
      show "eqm q (val (vs ! k)) (c * stage p \<psi> a s ?i (k mod ?g + ?g))"
        using vs(2) [OF k] unfolding h(1) [THEN conjunct2] .
    qed
    have C: "eqm q (\<sigma> * c * (stage p \<psi> a s ?i (k mod ?g) - ?R * stage p \<psi> a s ?i (k mod ?g + ?g)))
        (\<sigma> * c * stage p \<psi> a (Suc s) (2 * ?i + 1) (k mod ?g))"
      by (intro eqm_mult eqm_refl eqm_sym [OF step(2)])
    show ?thesis
      unfolding h(1) [THEN conjunct1]
      by (intro conjI A [THEN conjunct1] eqm_trans [OF A [THEN conjunct2] eqm_trans [OF B C]])
  qed
  note res = this
  show "wide (?vs' ! k)" by (rule res [THEN conjunct1])
  show "eqm q (val (?vs' ! k)) (\<sigma> * c * stage_at p \<psi> a (Suc s) k)"
    unfolding stage_at_def g1 by (rule res [THEN conjunct2])
qed

end


context dwt_arith
begin

lemma backward_level:
  assumes bf: "backward \<sigma> bf" and st: "at_stage lazy p \<psi> a c (Suc s) vs" and s: "s < p"
    and roots: "inv_roots_of p \<phi> roots" and \<psi>: "eqm q (\<psi> ^ 2 ^ p) (- 1)" and \<phi>: "eqm q (\<psi> * \<phi>) 1"
  shows "at_stage lazy p \<psi> a (2 * \<sigma> * c) s (level bf roots (2 ^ (p - s - 1)) (2 ^ p - 2 * 2 ^ s) vs)"
  unfolding at_stage_def
proof (intro conjI allI impI)
  let ?g = "2 ^ (p - s - 1) :: nat" and ?vs' = "level bf roots (2 ^ (p - s - 1)) (2 ^ p - 2 * 2 ^ s) vs"
  have g2: "2 ^ (p - s) = 2 * ?g" using s by (simp flip: power_Suc)
  have g1: "p - Suc s = p - s - 1" by simp
  show len: "length ?vs' = 2 ^ p" using st by (simp add: at_stage_def)
  fix k :: nat
  assume k: "k < 2 ^ p"
  let ?i = "k div (2 * ?g)" and ?w = "k mod ?g"
  let ?t = "2 ^ p - 2 * 2 ^ s + ?i"
  let ?r = "roots ! (?t + 1)" and ?E = "(2 * revn s ?i + 1) * ?g"
  have g0: "0 < ?g" by simp
  have i: "?i < 2 ^ s" using block_less [OF k, of s] s by (simp add: g2)
  have "2 * (2 :: nat) ^ s \<le> 2 ^ p" using s power_increasing [of "Suc s" p "2 :: nat"] by simp
  then have "0 < ?t + 1 \<and> ?t + 1 < 2 ^ p" using i by linarith
  from roots [unfolded inv_roots_of_def, rule_format, OF this] have r: "okr ?r" "eqm q (rval ?r) (\<phi> ^ ?E)"
    unfolding add_diff_cancel_right' revn_inv_root [OF i s] by simp_all
  have unit: "eqm q (\<psi> ^ ?E * rval ?r) 1"
  proof -
    have "eqm q (\<psi> ^ ?E * rval ?r) ((\<psi> * \<phi>) ^ ?E)"
      unfolding power_mult_distrib by (intro eqm_mult eqm_refl r(2))
    also have "eqm q ((\<psi> * \<phi>) ^ ?E) (1 ^ ?E)" by (rule eqm_power [OF \<phi>])
    finally show ?thesis by simp
  qed
  have vs: "lazy (vs ! l)" "eqm q (val (vs ! l)) (c * stage p \<psi> a (Suc s) (l div ?g) (l mod ?g))"
    if "l < 2 ^ p" for l using st that unfolding at_stage_def stage_at_def g1 by blast+
  have at: "?vs' ! k = (if k mod (2 * ?g) < ?g then fst (bf ?r (vs ! k) (vs ! (k + ?g)))
      else snd (bf ?r (vs ! (k - ?g)) (vs ! k)))"
    using k len by (simp add: level_def Let_def)
  note step = stage_step [OF s i \<psi>, of a]
  have "lazy (?vs' ! k) \<and> eqm q (val (?vs' ! k)) (2 * \<sigma> * c * stage p \<psi> a s ?i (k mod (2 * ?g)))"
  proof (cases "even (k div ?g)")
    case True
    note h = halves(2,4) [OF g0 True]
    have up: "(k + ?g) div ?g = k div ?g + 1" "(k + ?g) mod ?g = ?w"
      using div_add_self2 [of ?g k] by simp_all
    have kg: "k + ?g < 2 ^ p"
    proof -
      have "(k + ?g) div (2 * ?g) < 2 ^ s" using h(2) i by simp
      then have "k + ?g < 2 ^ s * (2 * ?g)" by (simp add: div_less_iff_less_mult)
      also have "2 ^ s * (2 * ?g) = (2 :: nat) ^ p" unfolding g2 [symmetric] using s by (simp flip: power_add)
      finally show ?thesis .
    qed
    have A: "lazy (?vs' ! k) \<and> eqm q (val (?vs' ! k)) (\<sigma> * (val (vs ! k) + val (vs ! (k + ?g))))"
      using bf vs(1) [OF k] vs(1) [OF kg] r(1) at halves(1) [OF g0, of k] True by (simp add: backward_def)
    have x: "eqm q (val (vs ! k)) (c * stage p \<psi> a (Suc s) (2 * ?i) ?w)"
      using vs(2) [OF k] unfolding h(1) [THEN conjunct1] .
    have y: "eqm q (val (vs ! (k + ?g))) (c * stage p \<psi> a (Suc s) (2 * ?i + 1) ?w)"
      using vs(2) [OF kg] unfolding up h(1) [THEN conjunct1] .
    have "eqm q (val (vs ! k) + val (vs ! (k + ?g)))
        (c * (stage p \<psi> a s ?i ?w + \<psi> ^ ?E * stage p \<psi> a s ?i (?w + ?g)) +
         c * (stage p \<psi> a s ?i ?w - \<psi> ^ ?E * stage p \<psi> a s ?i (?w + ?g)))"
      by (intro eqm_add x [unfolded step(1)] eqm_trans [OF y] eqm_mult eqm_refl step(2))
    then have "eqm q (\<sigma> * (val (vs ! k) + val (vs ! (k + ?g)))) (\<sigma> * (c * (2 * stage p \<psi> a s ?i ?w)))"
      by (intro eqm_mult eqm_refl) (simp add: algebra_simps)
    then show ?thesis
      using A h(1) [THEN conjunct2] eqm_trans [OF A [THEN conjunct2]] by (simp add: mult_ac)
  next
    case False
    note h = halves(3,5) [OF g0 False]
    have kg: "k - ?g < 2 ^ p" using k by simp
    have down: "(k - ?g) div ?g = 2 * ?i" "(k - ?g) mod ?g = ?w"
      using h le_div_geq [OF g0, of k] le_mod_geq [of ?g k] by simp_all
    have A: "lazy (?vs' ! k) \<and> eqm q (val (?vs' ! k)) (\<sigma> * ((val (vs ! (k - ?g)) - val (vs ! k)) * rval ?r))"
      using bf vs(1) [OF k] vs(1) [OF kg] r(1) at halves(1) [OF g0, of k] False by (simp add: backward_def)
    have x: "eqm q (val (vs ! (k - ?g))) (c * stage p \<psi> a (Suc s) (2 * ?i) ?w)"
      using vs(2) [OF kg] unfolding down .
    have y: "eqm q (val (vs ! k)) (c * stage p \<psi> a (Suc s) (2 * ?i + 1) ?w)"
      using vs(2) [OF k] unfolding h(1) [THEN conjunct1] .
    have "eqm q (val (vs ! (k - ?g)) - val (vs ! k))
        (c * (stage p \<psi> a s ?i ?w + \<psi> ^ ?E * stage p \<psi> a s ?i (?w + ?g)) -
         c * (stage p \<psi> a s ?i ?w - \<psi> ^ ?E * stage p \<psi> a s ?i (?w + ?g)))"
      by (intro eqm_diff x [unfolded step(1)] eqm_trans [OF y] eqm_mult eqm_refl step(2))
    then have "eqm q ((val (vs ! (k - ?g)) - val (vs ! k)) * rval ?r)
        (c * (2 * stage p \<psi> a s ?i (?w + ?g)) * \<psi> ^ ?E * rval ?r)"
      by (intro eqm_mult eqm_refl) (simp add: algebra_simps)
    also have "eqm q (c * (2 * stage p \<psi> a s ?i (?w + ?g)) * \<psi> ^ ?E * rval ?r) (c * (2 * stage p \<psi> a s ?i (?w + ?g)) * 1)"
      unfolding mult.assoc [of "c * (2 * stage p \<psi> a s ?i (?w + ?g))"] by (intro eqm_mult eqm_refl unit)
    finally have "eqm q (\<sigma> * ((val (vs ! (k - ?g)) - val (vs ! k)) * rval ?r)) (\<sigma> * (c * (2 * stage p \<psi> a s ?i (?w + ?g)) * 1))"
      by (rule eqm_mult [OF eqm_refl])
    then have "eqm q (val (?vs' ! k)) (\<sigma> * (c * (2 * stage p \<psi> a s ?i (?w + ?g)) * 1))"
      by (rule eqm_trans [OF A [THEN conjunct2]])
    then show ?thesis using A unfolding h(1) [THEN conjunct2] by (simp add: mult_ac)
  qed
  note res = this
  show "lazy (?vs' ! k)" by (rule res [THEN conjunct1])
  show "eqm q (val (?vs' ! k)) (2 * \<sigma> * c * stage_at p \<psi> a s k)"
    unfolding stage_at_def g2 by (rule res [THEN conjunct2])
qed

end


lemma power_gap: "(2 :: nat) ^ e < 4 \<or> 4 dvd (2 :: nat) ^ e"
proof (cases "e < 2")
  case True
  then show ?thesis by (cases e) auto
next
  case False
  then have "(2 :: nat) ^ 2 dvd 2 ^ e" by (intro le_imp_power_dvd) simp
  then show ?thesis by simp
qed

lemma level_length: "s < p \<Longrightarrow> (2 :: nat) ^ p = 2 * 2 ^ (p - s - 1) * 2 ^ s"
  by (simp flip: power_Suc power_add)

context dwt_arith
begin

lemma to_rev_levels_stage:
  assumes roots: "roots_of p \<psi> roots" and \<psi>: "eqm q (\<psi> ^ 2 ^ p) (- 1)"
  shows "s < p \<Longrightarrow> at_stage wide p \<psi> a 1 s vs \<Longrightarrow>
    \<exists>vs'. to_rev_levels A roots (2 ^ p) (2 ^ (p - s - 1)) (2 ^ s) (2 ^ s - 1) vs = (2 ^ (p - 1), 2 ^ (p - 1) - 1, vs') \<and>
      at_stage wide p \<psi> a 1 (p - 1) vs'"
proof (induction "p - 1 - s" arbitrary: s vs)
  case 0
  then have "s = p - 1" by simp
  then show ?case using 0 by (subst to_rev_levels.simps) (cases p; simp)
next
  case (Suc d)
  let ?vs = "level (to_rev_bf A) roots (2 ^ (p - s - 1)) (2 ^ s - 1) vs"
  have len: "length vs = 2 * 2 ^ (p - s - 1) * 2 ^ s"
    using Suc.prems level_length by (simp add: at_stage_def)
  have b: "blocks (to_rev_bf A) roots (2 ^ (p - s - 1)) (2 ^ s) 0 0 (2 ^ s - 1) vs = (2 ^ s - 1 + 2 ^ s, ?vs)"
    by (rule blocks_level [OF power_gap len]) simp
  have st: "at_stage wide p \<psi> a 1 (Suc s) ?vs"
    using forward_level [OF forward_bf Suc.prems(2,1) roots \<psi>] by simp
  have s: "Suc s < p" using Suc.hyps(2) by simp
  have "(2 :: nat) ^ s < 2 ^ (p - 1)" using s by (intro power_strict_increasing) simp_all
  also have "(2 :: nat) ^ (p - 1) = 2 ^ p div 2" using s by (cases p) simp_all
  finally have m: "0 < (2 :: nat) ^ s \<and> (2 :: nat) ^ s < 2 ^ p div 2" by simp
  have "2 ^ (p - s - 1) div 2 = (2 :: nat) ^ (p - Suc s - 1)"
    using s by (metis Suc_diff_Suc diff_Suc_1 diff_diff_left plus_1_eq_Suc add.commute nonzero_mult_div_cancel_left power_Suc zero_neq_numeral)
  then have "to_rev_levels A roots (2 ^ p) (2 ^ (p - s - 1)) (2 ^ s) (2 ^ s - 1) vs
      = to_rev_levels A roots (2 ^ p) (2 ^ (p - Suc s - 1)) (2 ^ Suc s) (2 ^ Suc s - 1) ?vs"
    by (subst to_rev_levels.simps, subst if_P [OF m], subst b) (simp add: mult_2)
  then show ?case using Suc.hyps(1) [OF _ s st] Suc.hyps(2) by simp
qed

lemma at_stage_0:
  assumes "length vs = 2 ^ p" "\<forall>x\<in>set vs. P x"
  shows "at_stage P p \<psi> (\<lambda>k. val (vs ! k)) 1 0 vs"
  using assms by (simp add: at_stage_def stage_at_def stage_0)

lemma at_stage_p:
  "at_stage P p \<psi> a c p vs \<longleftrightarrow> length vs = 2 ^ p \<and>
    (\<forall>k<2 ^ p. P (vs ! k) \<and> eqm q (val (vs ! k)) (c * evaluation p \<psi> a k))"
  by (simp add: at_stage_def stage_at_def stage_p)

lemma transformToRev_evaluates:
  assumes p: "0 < p" "length vs = 2 ^ p" "\<forall>x\<in>set vs. wide x"
    and roots: "roots_of p \<psi> roots" and \<psi>: "eqm q (\<psi> ^ 2 ^ p) (- 1)"
  shows "at_stage wide p \<psi> (\<lambda>k. val (vs ! k)) 1 p (transformToRev A vs p roots None)"
    and "oks s \<Longrightarrow> at_stage wide p \<psi> (\<lambda>k. val (vs ! k)) (sval s) p (transformToRev A vs p roots (Some s))"
proof -
  have n: "push_bit p 1 = (2 :: nat) ^ p" "(2 :: nat) ^ p div 2 = 2 ^ (p - 0 - 1)"
    using p(1) by (simp_all add: push_bit_eq_mult) (cases p; simp)
  obtain vs' where vs': "to_rev_levels A roots (2 ^ p) (2 ^ p div 2) 1 0 vs = (2 ^ (p - 1), 2 ^ (p - 1) - 1, vs')"
    "at_stage wide p \<psi> (\<lambda>k. val (vs ! k)) 1 (p - 1) vs'"
    using to_rev_levels_stage [OF roots \<psi> p(1) at_stage_0 [OF p(2,3)]] unfolding n(2) by auto
  have len: "length vs' = 2 * 2 ^ (p - 1)" using vs'(2) p(1) by (cases p) (simp_all add: at_stage_def)
  have g: "2 ^ (p - (p - 1) - 1) = (1 :: nat)" "Suc (p - 1) = p" "p - 1 < p" using p(1) by simp_all
  have "at_stage wide p \<psi> (\<lambda>k. val (vs ! k)) (\<sigma> * 1) p (last_blocks bf roots (2 ^ (p - 1)) 0 0 (2 ^ (p - 1) - 1) vs')"
    if "forward \<sigma> bf" for \<sigma> bf
    unfolding last_blocks_level [OF len] using forward_level [OF that vs'(2) g(3) roots \<psi>] unfolding g(1,2) .
  note last = this
  have "transformToRev A vs p roots None = last_blocks (to_rev_bf A) roots (2 ^ (p - 1)) 0 0 (2 ^ (p - 1) - 1) vs'"
    "transformToRev A vs p roots (Some s) =
      last_blocks (\<lambda>r. to_rev_scaled_bf A s (ar_mulRootScalar A r s)) roots (2 ^ (p - 1)) 0 0 (2 ^ (p - 1) - 1) vs'"
    unfolding transformToRev_def n(1) Let_def vs'(1) by simp_all
  then show "at_stage wide p \<psi> (\<lambda>k. val (vs ! k)) 1 p (transformToRev A vs p roots None)"
    "oks s \<Longrightarrow> at_stage wide p \<psi> (\<lambda>k. val (vs ! k)) (sval s) p (transformToRev A vs p roots (Some s))"
    using last [OF forward_bf] last [OF forward_scaled_bf] by simp_all
qed

lemma from_rev_levels_stage:
  assumes roots: "inv_roots_of p \<phi> roots" and \<psi>: "eqm q (\<psi> ^ 2 ^ p) (- 1)" and \<phi>: "eqm q (\<psi> * \<phi>) 1"
  shows "s < p \<Longrightarrow> at_stage lazy p \<psi> a c (Suc s) vs \<Longrightarrow>
    \<exists>vs'. from_rev_levels A roots (2 ^ (p - s - 1)) (2 ^ s) (2 ^ p - 2 * 2 ^ s) vs = (2 ^ (p - 1), 2 ^ p - 2, vs') \<and>
      at_stage lazy p \<psi> a (2 ^ s * c) 1 vs'"
proof (induction s arbitrary: c vs)
  case 0
  then show ?case by (subst from_rev_levels.simps) simp
next
  case (Suc s)
  let ?vs = "level (from_rev_bf A) roots (2 ^ (p - Suc s - 1)) (2 ^ p - 2 * 2 ^ Suc s) vs"
  have len: "length vs = 2 * 2 ^ (p - Suc s - 1) * 2 ^ Suc s"
    using Suc.prems level_length by (simp add: at_stage_def)
  have b: "blocks (from_rev_bf A) roots (2 ^ (p - Suc s - 1)) (2 ^ Suc s) 0 0 (2 ^ p - 2 * 2 ^ Suc s) vs
      = (2 ^ p - 2 * 2 ^ Suc s + 2 ^ Suc s, ?vs)"
    by (rule blocks_level [OF power_gap len]) simp
  have st: "at_stage lazy p \<psi> a (2 * c) (Suc s) ?vs"
    using backward_level [OF backward_bf Suc.prems(2,1) roots \<psi> \<phi>] by simp
  have "2 * (2 :: nat) ^ Suc s \<le> 2 ^ p" using Suc.prems(1) power_increasing [of "Suc (Suc s)" p "2 :: nat"] by simp
  then have rid: "2 ^ p - 2 * 2 ^ Suc s + 2 ^ Suc s = (2 :: nat) ^ p - 2 * 2 ^ s" by simp
  have m: "(2 :: nat) ^ Suc s > 1" using one_less_power [of "2 :: nat" "Suc s"] by simp
  have gap: "2 * 2 ^ (p - Suc s - 1) = (2 :: nat) ^ (p - s - 1)"
    using Suc.prems(1) by (simp flip: power_Suc add: Suc_diff_Suc)
  have "from_rev_levels A roots (2 ^ (p - Suc s - 1)) (2 ^ Suc s) (2 ^ p - 2 * 2 ^ Suc s) vs
      = from_rev_levels A roots (2 ^ (p - s - 1)) (2 ^ s) (2 ^ p - 2 * 2 ^ s) ?vs"
    by (subst from_rev_levels.simps, subst if_P [OF m], subst b) (simp only: rid gap Let_def split, simp)
  then show ?case using Suc.IH [OF _ st] Suc.prems(1) by (simp add: mult_ac)
qed

lemma butterflies_level:
  assumes "length vs = 2 * 2 ^ e"
  shows "butterflies (bf (roots ! (rid + 1))) (2 ^ e) 0 vs = level bf roots (2 ^ e) rid vs"
proof -
  have "blocks bf roots (2 ^ e) 1 0 0 rid vs = (rid + 1, butterflies (bf (roots ! (rid + 1))) (2 ^ e) 0 vs)"
    by (subst blocks.simps, subst blocks.simps) (simp add: Let_def)
  then show ?thesis using blocks_level [OF power_gap, of vs e 1 bf roots rid] assms by simp
qed

lemma transformFromRev_inverts:
  assumes p: "0 < p" and vs: "at_stage lazy p \<psi> a 1 p vs"
    and roots: "inv_roots_of p \<phi> roots" and \<psi>: "eqm q (\<psi> ^ 2 ^ p) (- 1)" and \<phi>: "eqm q (\<psi> * \<phi>) 1"
  shows "at_stage lazy p \<psi> a (2 ^ p) 0 (transformFromRev A vs p roots None)"
    and "oks s \<Longrightarrow> at_stage lazy p \<psi> a (sval s * 2 ^ p) 0 (transformFromRev A vs p roots (Some s))"
proof -
  have n: "push_bit p 1 = (2 :: nat) ^ p" "(2 :: nat) ^ p div 2 = 2 ^ (p - 1)"
    "2 ^ (p - (p - 1) - 1) = (1 :: nat)" "(2 :: nat) ^ p - 2 * 2 ^ (p - 1) = 0"
    using p by (simp_all add: push_bit_eq_mult) (cases p; simp)+
  obtain vs' where vs': "from_rev_levels A roots 1 (2 ^ (p - 1)) 0 vs = (2 ^ (p - 1), 2 ^ p - 2, vs')"
    "at_stage lazy p \<psi> a (2 ^ (p - 1)) (Suc 0) vs'"
    using from_rev_levels_stage [OF roots \<psi> \<phi>, of "p - 1" a 1 vs] p vs unfolding n by auto
  have len: "length vs' = 2 * 2 ^ (p - 1)" using vs'(2) p by (cases p) (simp_all add: at_stage_def)
  have two: "2 * (2 :: int) ^ (p - 1) = 2 ^ p" using p by (cases p) simp_all
  have "at_stage lazy p \<psi> a (\<sigma> * 2 ^ p) 0 (butterflies (bf (roots ! (2 ^ p - 2 + 1))) (2 ^ (p - 1)) 0 vs')"
    if "backward \<sigma> bf" for \<sigma> bf
    unfolding butterflies_level [OF len] two [symmetric]
    using backward_level [OF that vs'(2) p roots \<psi> \<phi>] by (simp add: mult_ac)
  note last = this
  have "transformFromRev A vs p roots None = butterflies (from_rev_bf A (roots ! (2 ^ p - 2 + 1))) (2 ^ (p - 1)) 0 vs'"
    "transformFromRev A vs p roots (Some s) =
      butterflies (from_rev_scaled_bf A s (ar_mulRootScalar A (roots ! (2 ^ p - 2 + 1)) s)) (2 ^ (p - 1)) 0 vs'"
    unfolding transformFromRev_def n(1) Let_def n(2) vs'(1) by simp_all
  then show "at_stage lazy p \<psi> a (2 ^ p) 0 (transformFromRev A vs p roots None)"
    "oks s \<Longrightarrow> at_stage lazy p \<psi> a (sval s * 2 ^ p) 0 (transformFromRev A vs p roots (Some s))"
    using last [OF backward_bf] last [OF backward_scaled_bf] by simp_all
qed

end

end
