(* ===== verification/Uint_Core.thy ===== *)
theory Uint_Core
  imports Seal_Common
begin

text \<open>
  Multi-word unsigned integers as \<open>uint64_t\<close> arrays:
  \<open>heu/library/algorithms/seal_gpu/utils/uintcore.h\<close> and the hexadecimal printer of
  \<open>uintcore.cpp\<close>. A pointer passed with its word count is the list of the words it points to,
  least significant word first; a write through a result pointer is the list that is returned.
  Every loop here reads a word before it can be overwritten through an aliased result pointer.
  Reading past the end of an array is left unspecified by the list index.
\<close>

section \<open>Allocation, assignment and tests\<close>

text \<open>\<open>HostArray(cnt)\<close> fills its memory with zero bytes.\<close>

definition allocateUint :: "nat \<Rightarrow> u64 list" where
  "allocateUint uint64_count = replicate uint64_count 0"

definition setZeroUint :: "nat \<Rightarrow> u64 list" where
  "setZeroUint uint64_count = replicate uint64_count 0"

definition allocateZeroUint :: "nat \<Rightarrow> u64 list" where
  "allocateZeroUint uint64_count =
     (let result = replicate uint64_count 0 in setZeroUint (length (result :: u64 list)))"

text \<open>\<open>setUint(value, count, result)\<close> of one word: at least one word is written.\<close>

definition setUint_word :: "u64 \<Rightarrow> nat \<Rightarrow> u64 list" where
  "setUint_word value uint64_count = value # replicate (uint64_count - 1) 0"

definition setUint :: "u64 list \<Rightarrow> u64 list" where
  "setUint value = value"

text \<open>\<open>setUint(value, value_count, result_count, result)\<close>: copy, truncate or zero-extend.\<close>

definition setUint_counts :: "u64 list \<Rightarrow> nat \<Rightarrow> u64 list" where
  "setUint_counts value result_uint64_count =
     (if length value = 0 then replicate result_uint64_count 0
      else let min_uint64_count = min (length value) result_uint64_count in
        take min_uint64_count value @ replicate (result_uint64_count - min_uint64_count) 0)"

definition isZeroUint :: "u64 list \<Rightarrow> bool" where
  "isZeroUint value = list_all (\<lambda>coeff. coeff = 0) value"

definition isEqualUint_word :: "u64 list \<Rightarrow> u64 \<Rightarrow> bool" where
  "isEqualUint_word value scalar =
     (if hd value \<noteq> scalar then False else list_all (\<lambda>coeff. coeff = 0) (tl value))"

definition isHighBitSetUint :: "u64 list \<Rightarrow> bool" where
  "isHighBitSetUint value = (drop_bit 63 (value ! (length value - 1)) \<noteq> 0)"

definition isBitSetUint :: "u64 list \<Rightarrow> nat \<Rightarrow> bool" where
  "isBitSetUint value bit_index =
     (let uint64_index = bit_index div 64;
          sub_bit_index = bit_index - uint64_index * 64
      in (drop_bit sub_bit_index (value ! uint64_index) AND 1) \<noteq> 0)"

definition setBitUint :: "u64 list \<Rightarrow> nat \<Rightarrow> u64 list" where
  "setBitUint value bit_index =
     (let uint64_index = bit_index div 64;
          sub_bit_index = bit_index mod 64
      in value[uint64_index := value ! uint64_index OR push_bit sub_bit_index 1])"

section \<open>Counting bits and words\<close>

text \<open>The scan from the top word down to the last non-zero word, stopping at the first word.\<close>

fun topWord_scan :: "u64 list \<Rightarrow> nat \<Rightarrow> nat" where
  "topWord_scan value uint64_count =
     (if value ! (uint64_count - 1) = 0 \<and> uint64_count > 1
      then topWord_scan value (uint64_count - 1) else uint64_count)"

declare topWord_scan.simps [simp del]

definition getSignificantBitCountUint :: "u64 list \<Rightarrow> int" where
  "getSignificantBitCountUint value =
     (let uint64_count = topWord_scan value (length value) in
      int (uint64_count - 1) * bitsPerUint64 + getSignificantBitCount (value ! (uint64_count - 1)))"

fun getSignificantUint64CountUint_loop :: "u64 list \<Rightarrow> nat \<Rightarrow> nat" where
  "getSignificantUint64CountUint_loop value 0 = 0"
| "getSignificantUint64CountUint_loop value (Suc n) =
     (if value ! n = 0 then getSignificantUint64CountUint_loop value n else Suc n)"

definition getSignificantUint64CountUint :: "u64 list \<Rightarrow> nat" where
  "getSignificantUint64CountUint value = getSignificantUint64CountUint_loop value (length value)"

fun getNonzeroUint64CountUint_loop :: "u64 list \<Rightarrow> nat \<Rightarrow> nat \<Rightarrow> nat" where
  "getNonzeroUint64CountUint_loop value 0 nonzero_count = nonzero_count"
| "getNonzeroUint64CountUint_loop value (Suc n) nonzero_count =
     getNonzeroUint64CountUint_loop value n
       (if value ! n = 0 then nonzero_count - 1 else nonzero_count)"

definition getNonzeroUint64CountUint :: "u64 list \<Rightarrow> nat" where
  "getNonzeroUint64CountUint value =
     getNonzeroUint64CountUint_loop value (length value) (length value)"

text \<open>If the value is a power of two, the power; otherwise \<open>-1\<close>.\<close>

definition getPowerOfTwo :: "u64 \<Rightarrow> int" where
  "getPowerOfTwo value =
     (if value = 0 \<or> (value AND (value - 1)) \<noteq> 0 then - 1
      else 63 - int (builtin_clzll value))"

definition filterHighbitsUint :: "u64 list \<Rightarrow> nat \<Rightarrow> u64 list res" where
  "filterHighbitsUint operand bit_count =
     rbind (mul_safe uint64_t (int (length operand)) 64) (\<lambda>total.
       if unsigned_eq (int bit_count) total then Inr operand
       else let uint64_index = bit_count div 64;
                subbit_index = bit_count - uint64_index * 64;
                operand = operand[uint64_index :=
                  operand ! uint64_index AND (push_bit subbit_index 1 - 1)]
            in Inr (take (uint64_index + 1) operand
                    @ replicate (length operand - (uint64_index + 1)) 0))"

definition duplicateUintIfNeeded :: "u64 list \<Rightarrow> nat \<Rightarrow> bool \<Rightarrow> u64 list" where
  "duplicateUintIfNeeded input new_uint64_count force =
     (if \<not> force \<and> length input \<ge> new_uint64_count then input
      else setUint_counts input new_uint64_count)"

section \<open>Comparison\<close>

text \<open>\<open>(a > b) - (a < b)\<close> on two words.\<close>

definition word_cmp :: "u64 \<Rightarrow> u64 \<Rightarrow> int" where
  "word_cmp a b = of_bool (a > b) - of_bool (a < b)"

fun compareUint_loop :: "u64 list \<Rightarrow> u64 list \<Rightarrow> nat \<Rightarrow> int" where
  "compareUint_loop operand1 operand2 0 = 0"
| "compareUint_loop operand1 operand2 (Suc n) =
     (let result = word_cmp (operand1 ! n) (operand2 ! n) in
      if result = 0 then compareUint_loop operand1 operand2 n else result)"

definition compareUint :: "u64 list \<Rightarrow> u64 list \<Rightarrow> int" where
  "compareUint operand1 operand2 = compareUint_loop operand1 operand2 (length operand1)"

text \<open>
  Operands of different lengths: the extra top words of the longer operand are scanned first.
  \<open>n\<close> is the number of words left to scan above index \<open>lo\<close>.
\<close>

fun extraWords_loop :: "u64 list \<Rightarrow> nat \<Rightarrow> nat \<Rightarrow> int" where
  "extraWords_loop operand lo 0 = 0"
| "extraWords_loop operand lo (Suc n) =
     (let result = of_bool (operand ! (lo + n) > 0) in
      if result = 0 then extraWords_loop operand lo n else result)"

definition compareUint_counts :: "u64 list \<Rightarrow> u64 list \<Rightarrow> int" where
  "compareUint_counts operand1 operand2 =
     (let min_uint64_count = min (length operand1) (length operand2);
          result = extraWords_loop operand1 min_uint64_count (length operand1 - min_uint64_count);
          result = (if result = 0
            then - extraWords_loop operand2 min_uint64_count (length operand2 - min_uint64_count)
            else result)
      in if result = 0 then compareUint_loop operand1 operand2 min_uint64_count else result)"

definition isGreaterThanUint :: "u64 list \<Rightarrow> u64 list \<Rightarrow> bool" where
  "isGreaterThanUint operand1 operand2 = (compareUint operand1 operand2 > 0)"

definition isGreaterThanOrEqualUint :: "u64 list \<Rightarrow> u64 list \<Rightarrow> bool" where
  "isGreaterThanOrEqualUint operand1 operand2 = (compareUint operand1 operand2 \<ge> 0)"

definition isLessThanUint :: "u64 list \<Rightarrow> u64 list \<Rightarrow> bool" where
  "isLessThanUint operand1 operand2 = (compareUint operand1 operand2 < 0)"

definition isLessThanOrEqualUint :: "u64 list \<Rightarrow> u64 list \<Rightarrow> bool" where
  "isLessThanOrEqualUint operand1 operand2 = (compareUint operand1 operand2 \<le> 0)"

definition isEqualUint :: "u64 list \<Rightarrow> u64 list \<Rightarrow> bool" where
  "isEqualUint operand1 operand2 = (compareUint operand1 operand2 = 0)"

definition isGreaterThanUint_counts :: "u64 list \<Rightarrow> u64 list \<Rightarrow> bool" where
  "isGreaterThanUint_counts operand1 operand2 = (compareUint_counts operand1 operand2 > 0)"

definition isGreaterThanOrEqualUint_counts :: "u64 list \<Rightarrow> u64 list \<Rightarrow> bool" where
  "isGreaterThanOrEqualUint_counts operand1 operand2 = (compareUint_counts operand1 operand2 \<ge> 0)"

definition isLessThanUint_counts :: "u64 list \<Rightarrow> u64 list \<Rightarrow> bool" where
  "isLessThanUint_counts operand1 operand2 = (compareUint_counts operand1 operand2 < 0)"

definition isLessThanOrEqualUint_counts :: "u64 list \<Rightarrow> u64 list \<Rightarrow> bool" where
  "isLessThanOrEqualUint_counts operand1 operand2 = (compareUint_counts operand1 operand2 \<le> 0)"

definition isEqualUint_counts :: "u64 list \<Rightarrow> u64 list \<Rightarrow> bool" where
  "isEqualUint_counts operand1 operand2 = (compareUint_counts operand1 operand2 = 0)"

section \<open>Hexadecimal strings\<close>

text \<open>
  \<open>hexStringToUint\<close> walks the string from its end. The inner loop reads up to sixteen digits into
  one word; \<open>chars\<close> is what is left of the string, last character first.
\<close>

fun hexStringToUint_word :: "nat \<Rightarrow> string \<Rightarrow> u64 \<Rightarrow> (u64 \<times> string) res" where
  "hexStringToUint_word bit_index chars value =
     (if bit_index < 64 then
        (case chars of
           [] \<Rightarrow> Inr (value, [])
         | hex # chars \<Rightarrow>
             let nibble = hexToNibble hex in
             if nibble = - 1 then Inl (Invalid_argument ''hex_value'')
             else hexStringToUint_word (bit_index + 4) chars
                    (value OR push_bit bit_index (word_of_int nibble)))
      else Inr (value, chars))"

declare hexStringToUint_word.simps [simp del]

fun hexStringToUint_loop :: "nat \<Rightarrow> string \<Rightarrow> u64 list res" where
  "hexStringToUint_loop 0 chars = Inr []"
| "hexStringToUint_loop (Suc n) chars =
     rbind (hexStringToUint_word 0 chars 0) (\<lambda>(value, chars).
       rbind (hexStringToUint_loop n chars) (\<lambda>result. Inr (value # result)))"

definition hexStringToUint :: "string \<Rightarrow> nat \<Rightarrow> u64 list res" where
  "hexStringToUint hex_string uint64_count = hexStringToUint_loop uint64_count (rev hex_string)"

text \<open>
  \<open>uintToHexString\<close>: the state of the loops is \<open>nibble_index\<close>, \<open>leftmost_non_zero_pos\<close> and the
  output string; \<open>j\<close> counts the nibbles of the current word that are left.
\<close>

fun uintToHexString_word :: "nat \<Rightarrow> u64 \<Rightarrow> nat \<times> nat \<times> string \<Rightarrow> nat \<times> nat \<times> string" where
  "uintToHexString_word 0 part st = st"
| "uintToHexString_word (Suc j) part (nibble_index, leftmost_non_zero_pos, output) =
     (let nibble = part AND 0x0F;
          nibble_index = nibble_index - 1;
          pos = nibble_index;
          (leftmost_non_zero_pos, output) =
            (if nibble \<noteq> 0 then (pos, output[pos := nibbleToUpperHex (uint nibble)])
             else (leftmost_non_zero_pos, output))
      in uintToHexString_word j (drop_bit 4 part) (nibble_index, leftmost_non_zero_pos, output))"

fun uintToHexString_loop :: "u64 list \<Rightarrow> nat \<times> nat \<times> string \<Rightarrow> nat \<times> nat \<times> string" where
  "uintToHexString_loop [] st = st"
| "uintToHexString_loop (part # value) st =
     uintToHexString_loop value (uintToHexString_word 16 part st)"

definition uintToHexString :: "u64 list \<Rightarrow> string res" where
  "uintToHexString value =
     rbind (mul_safe uint64_t (int (length value)) nibblesPerUint64) (\<lambda>num_nibbles.
       let output = replicate (nat num_nibbles) (CHR ''0'');
           (_, leftmost_non_zero_pos, output) =
             uintToHexString_loop value (nat num_nibbles, nat num_nibbles, output);
           output = drop leftmost_non_zero_pos output
       in if output = [] then Inr ''0'' else Inr output)"

section \<open>Bit counts of words and values of arrays\<close>

lemma getSignificantBitCount_nbits: "getSignificantBitCount v = int (nbits (unat v))"
proof (cases "v = 0")
  case True
  then show ?thesis by simp
next
  case False
  note b = getSignificantBitCount_bounds [OF False]
  have "nbits (unat v) = nat (getSignificantBitCount v)"
    using b by (intro nbits_eqI) auto
  then show ?thesis by simp
qed

section \<open>Values of the elementary operations\<close>

lemma uval_setUint_word: "uval (setUint_word v n) = unat v"
  by (simp add: setUint_word_def)

lemma length_setUint_word [simp]: "0 < n \<Longrightarrow> length (setUint_word v n) = n"
  by (simp add: setUint_word_def)

lemma length_setUint_counts [simp]: "length (setUint_counts xs n) = n"
  by (simp add: setUint_counts_def Let_def)

lemma uval_setUint_counts: "uval (setUint_counts xs n) = uval xs mod 18446744073709551616 ^ n"
proof (cases "n \<le> length xs")
  case True
  then show ?thesis by (auto simp: setUint_counts_def Let_def uval_append uval_take)
next
  case False
  have "uval xs < 18446744073709551616 ^ length xs" by (rule uval_lt)
  also have "\<dots> \<le> 18446744073709551616 ^ n" using False by (intro power_increasing) auto
  finally show ?thesis using False by (simp add: setUint_counts_def Let_def uval_append)
qed

lemma isZeroUint_iff: "isZeroUint xs \<longleftrightarrow> uval xs = 0"
  by (simp add: isZeroUint_def uval_eq_0_iff list_all_iff)

lemma isEqualUint_word_iff:
  "xs \<noteq> [] \<Longrightarrow> isEqualUint_word xs w \<longleftrightarrow> uval xs = unat w"
proof (cases xs)
  case (Cons x ys)
  have "unat x + 18446744073709551616 * uval ys = unat w \<longleftrightarrow> unat x = unat w \<and> uval ys = 0"
    using unat_lt64 [of x] unat_lt64 [of w] by (cases "uval ys") (auto simp del: unat_lt64)
  then show ?thesis
    using Cons by (auto simp: isEqualUint_word_def list_all_iff uval_eq_0_iff word_unat_eq_iff)
qed simp

section \<open>Comparison\<close>

lemma sgn_digits:
  fixes a b :: nat and x y p :: nat
  assumes "a < p" "b < p"
  shows "sgn (int (a + p * x) - int (b + p * y)) =
    (if x = y then sgn (int a - int b) else sgn (int x - int y))"
proof (cases x y rule: linorder_cases)
  case less
  have "a + p * x < p * Suc x" using assms(1) by simp
  also have "p * Suc x \<le> p * y" using less by (intro mult_le_mono2) simp
  finally have "a + p * x < b + p * y" by simp
  then have "int (a + p * x) - int (b + p * y) < 0" by (simp only: of_nat_less_iff diff_less_0_iff_less)
  then show ?thesis using less by (simp only: sgn_neg) simp
next
  case equal
  then show ?thesis by simp
next
  case greater
  have "b + p * y < p * Suc y" using assms(2) by simp
  also have "p * Suc y \<le> p * x" using greater by (intro mult_le_mono2) simp
  finally have "b + p * y < a + p * x" by simp
  then have "int (a + p * x) - int (b + p * y) > 0" by (simp only: of_nat_less_iff diff_gt_0_iff_gt)
  then show ?thesis using greater by (simp only: sgn_pos) simp
qed

lemma word_cmp_sgn: "word_cmp a b = sgn (uint a - uint b)"
  by (auto simp: word_cmp_def word_less_def sgn_if word_uint_eq_iff)

lemma uval_take_Suc:
  "n < length xs \<Longrightarrow> uval (take (Suc n) xs) = uval (take n xs) + 18446744073709551616 ^ n * unat (xs ! n)"
  by (simp add: take_Suc_conv_app_nth uval_append)

lemma uval_take_lt: "n \<le> length xs \<Longrightarrow> uval (take n xs) < 18446744073709551616 ^ n"
  using uval_lt [of "take n xs"] by (simp add: min_absorb2)

lemma compareUint_loop_sgn:
  "n \<le> length xs \<Longrightarrow> n \<le> length ys \<Longrightarrow>
   compareUint_loop xs ys n = sgn (int (uval (take n xs)) - int (uval (take n ys)))"
proof (induction n)
  case 0
  then show ?case by simp
next
  case (Suc n)
  then have "sgn (int (uval (take (Suc n) xs)) - int (uval (take (Suc n) ys))) =
      (if unat (xs ! n) = unat (ys ! n) then sgn (int (uval (take n xs)) - int (uval (take n ys)))
       else sgn (int (unat (xs ! n)) - int (unat (ys ! n))))"
    unfolding uval_take_Suc [OF Suc_le_lessD [OF Suc.prems(1)]] uval_take_Suc [OF Suc_le_lessD [OF Suc.prems(2)]]
    by (intro sgn_digits uval_take_lt) simp_all
  then show ?case
    using Suc by (auto simp: word_cmp_sgn sgn_0_0 simp flip: word_unat_eq_iff word_uint_eq_iff)
qed

lemma compareUint_sgn:
  "length xs = length ys \<Longrightarrow> compareUint xs ys = sgn (int (uval xs) - int (uval ys))"
  by (simp add: compareUint_def compareUint_loop_sgn)


lemma extraWords_loop_pos:
  "lo + n \<le> length xs \<Longrightarrow>
   extraWords_loop xs lo n = of_bool (uval (take n (drop lo xs)) \<noteq> 0)"
proof (induction n)
  case (Suc n)
  then show ?case
    by (simp add: uval_take_Suc word_less_nat_alt unsigned_eq_0_iff unat_gt_0) 
qed simp

lemma compareUint_counts_sgn:
  "compareUint_counts xs ys = sgn (int (uval xs) - int (uval ys))"
proof -
  define m where "m = min (length xs) (length ys)"
  define B where "B = (18446744073709551616::nat) ^ m"
  have x: "uval xs = uval (take m xs) + B * uval (drop m xs)"
    and y: "uval ys = uval (take m ys) + B * uval (drop m ys)"
    using uval_take_drop [of xs m] uval_take_drop [of ys m] by (simp_all add: m_def B_def)
  have lt: "uval (take m xs) < B" "uval (take m ys) < B"
    unfolding B_def by (rule uval_take_lt; simp add: m_def)+
  have ex: "extraWords_loop xs m (length xs - m) = of_bool (uval (drop m xs) \<noteq> 0)"
    "extraWords_loop ys m (length ys - m) = of_bool (uval (drop m ys) \<noteq> 0)"
    using extraWords_loop_pos [of m "length xs - m" xs] extraWords_loop_pos [of m "length ys - m" ys]
    by (simp_all add: m_def)
  have one: "uval (drop m xs) = 0 \<or> uval (drop m ys) = 0" by (auto simp: m_def min_def)
  have low: "compareUint_loop xs ys m = sgn (int (uval (take m xs)) - int (uval (take m ys)))"
    by (rule compareUint_loop_sgn) (simp_all add: m_def)
  show ?thesis
    unfolding x y sgn_digits [OF lt] compareUint_counts_def Let_def m_def [symmetric] ex low
    using one by (auto simp: sgn_if)
qed

lemma comparisons:
  assumes "length xs = length ys"
  shows "isGreaterThanUint xs ys \<longleftrightarrow> uval ys < uval xs"
    "isGreaterThanOrEqualUint xs ys \<longleftrightarrow> uval ys \<le> uval xs"
    "isLessThanUint xs ys \<longleftrightarrow> uval xs < uval ys"
    "isLessThanOrEqualUint xs ys \<longleftrightarrow> uval xs \<le> uval ys"
    "isEqualUint xs ys \<longleftrightarrow> uval xs = uval ys"
  using assms
  by (auto simp: isGreaterThanUint_def isGreaterThanOrEqualUint_def isLessThanUint_def
      isLessThanOrEqualUint_def isEqualUint_def compareUint_sgn sgn_if)

lemma comparisons_counts:
  "isGreaterThanUint_counts xs ys \<longleftrightarrow> uval ys < uval xs"
  "isGreaterThanOrEqualUint_counts xs ys \<longleftrightarrow> uval ys \<le> uval xs"
  "isLessThanUint_counts xs ys \<longleftrightarrow> uval xs < uval ys"
  "isLessThanOrEqualUint_counts xs ys \<longleftrightarrow> uval xs \<le> uval ys"
  "isEqualUint_counts xs ys \<longleftrightarrow> uval xs = uval ys"
  by (auto simp: isGreaterThanUint_counts_def isGreaterThanOrEqualUint_counts_def
      isLessThanUint_counts_def isLessThanOrEqualUint_counts_def isEqualUint_counts_def
      compareUint_counts_sgn sgn_if)

section \<open>Counts\<close>

lemma topWord_scan_spec:
  "0 < n \<Longrightarrow> n \<le> length xs \<Longrightarrow>
   let k = topWord_scan xs n in 0 < k \<and> k \<le> n \<and> uval (take n xs) = uval (take k xs) \<and>
     (k = 1 \<or> xs ! (k - 1) \<noteq> 0)"
proof (induction xs n rule: topWord_scan.induct)
  case (1 xs n)
  show ?case
  proof (cases "xs ! (n - 1) = 0 \<and> n > 1")
    case True
    then have k: "topWord_scan xs n = topWord_scan xs (n - 1)" by (subst topWord_scan.simps) simp
    obtain m where m: "n = Suc m" using True by (cases n) auto
    have "uval (take n xs) = uval (take (n - 1) xs)"
      using True "1.prems" uval_take_Suc [of m xs] by (simp add: m)
    moreover have "0 < n - 1" "n - 1 \<le> length xs" using True "1.prems" by linarith+
    ultimately show ?thesis using "1.IH" [OF True] unfolding k Let_def by fastforce
  next
    case False
    then have "topWord_scan xs n = n" by (subst topWord_scan.simps) auto
    then show ?thesis using False "1.prems" by (auto simp: Let_def)
  qed
qed

lemma getSignificantBitCountUint_nbits:
  assumes "xs \<noteq> []"
  shows "getSignificantBitCountUint xs = int (nbits (uval xs))"
proof -
  define k where "k = topWord_scan xs (length xs)"
  have k: "0 < k" "k \<le> length xs" "uval xs = uval (take k xs)" "k = 1 \<or> xs ! (k - 1) \<noteq> 0"
    using topWord_scan_spec [of "length xs" xs] assms by (auto simp: Let_def k_def)
  obtain j where j: "k = Suc j" using k(1) by (cases k) auto
  have v: "uval xs = uval (take j xs) + 2 ^ (64 * j) * unat (xs ! j)"
    using k uval_take_Suc [of j xs] by (simp add: j power_mult)
  have "nbits (uval xs) = 64 * j + nbits (unat (xs ! j))"
  proof (cases "xs ! j = 0")
    case True
    then show ?thesis using k(4) j v by simp
  next
    case False
    then have "0 < unat (xs ! j)" by (simp add: unat_gt_0)
    moreover have "uval (take j xs) < 2 ^ (64 * j)"
      using uval_take_lt [of j xs] k(2) by (simp add: j power_mult)
    ultimately show ?thesis unfolding v by (rule nbits_digits)
  qed
  then show ?thesis
    by (simp add: getSignificantBitCountUint_def Let_def k_def [symmetric] j getSignificantBitCount_nbits)
qed

lemma getSignificantUint64CountUint_loop_spec:
  "n \<le> length xs \<Longrightarrow>
   let k = getSignificantUint64CountUint_loop xs n in
     k \<le> n \<and> uval (take n xs) = uval (take k xs) \<and> (k \<noteq> 0 \<longrightarrow> xs ! (k - 1) \<noteq> 0)"
  by (induction n) (auto simp: Let_def uval_take_Suc)

lemma getSignificantUint64CountUint_spec:
  fixes xs defines "k \<equiv> getSignificantUint64CountUint xs"
  shows "k \<le> length xs" "uval (take k xs) = uval xs" "k \<noteq> 0 \<Longrightarrow> xs ! (k - 1) \<noteq> 0"
  using getSignificantUint64CountUint_loop_spec [of "length xs" xs]
  by (auto simp: k_def getSignificantUint64CountUint_def Let_def)

lemma getNonzeroUint64CountUint_loop_eq:
  "n \<le> length xs \<Longrightarrow> n \<le> c \<Longrightarrow>
   getNonzeroUint64CountUint_loop xs n c = c - length (filter (\<lambda>x. x = 0) (take n xs))"
proof (induction n arbitrary: c)
  case (Suc n)
  then show ?case by (auto simp: take_Suc_conv_app_nth)
qed simp

lemma getNonzeroUint64CountUint_eq:
  "getNonzeroUint64CountUint xs = length (filter (\<lambda>x. x \<noteq> 0) xs)"
  using sum_length_filter_compl [of "\<lambda>x. x = 0" xs]
  by (simp add: getNonzeroUint64CountUint_def getNonzeroUint64CountUint_loop_eq)


section \<open>Powers of two, single bits and masks\<close>

lemma exp_and_pred: "(2 ^ k :: u64) AND (2 ^ k - 1) = 0"
  by (rule bit_eqI) (auto simp: bit_and_iff bit_exp_iff bit_mask_iff simp flip: mask_eq_exp_minus_1)

lemma getPowerOfTwo_spec:
  "getPowerOfTwo v = int k \<longleftrightarrow> unat v = 2 ^ k"
proof (cases "v = 0")
  case True
  then show ?thesis by (simp add: getPowerOfTwo_def)
next
  case False
  note top = builtin_clzll_top [OF False]
  define j where "j = 63 - builtin_clzll v"
  have j: "bit v j" "j < 64" "63 - int (builtin_clzll v) = int j" using top by (auto simp: j_def)
  have ge: "2 ^ j \<le> unat v" by (rule unat_ge_bit [OF j(1)])
  have lt: "unat v < 2 ^ Suc j"
    by (rule unat_less_top) (use top(3) in \<open>auto simp: j_def Suc_le_eq\<close>)
  show ?thesis
  proof (cases "unat v = 2 ^ j")
    case True
    have "v = of_nat (unat v)" by simp
    also have "\<dots> = 2 ^ j" unfolding True by simp
    finally have "v = 2 ^ j" .
    then have "getPowerOfTwo v = int j"
      using False j by (simp add: getPowerOfTwo_def exp_and_pred)
    then show ?thesis using True by simp
  next
    case neq: False
    have v1: "unat (v - 1) = unat v - 1"
      using False by (simp add: unat_sub64 Suc_leI unat_gt_0)
    have "unat v - 1 \<ge> 2 ^ j" "unat v - 1 < 2 ^ Suc j" using neq ge lt by linarith+
    then have "(unat v - 1) div 2 ^ j = 1" by (intro div_nat_eqI) simp_all
    then have "bit (unat (v - 1)) j" unfolding v1 bit_iff_odd by simp
    then have "bit (v - 1) j" by (simp add: bit_unsigned_iff)
    then have "bit (v AND (v - 1)) j" using j(1) by (simp add: bit_and_iff)
    then have "v AND (v - 1) \<noteq> 0" by (metis bit_0_eq bot_apply bot_bool_def)
    then have "getPowerOfTwo v = - 1" using False by (simp add: getPowerOfTwo_def)
    moreover have "unat v \<noteq> 2 ^ k"
    proof
      assume k: "unat v = 2 ^ k"
      then have "(2::nat) ^ k < 2 ^ Suc j" "(2::nat) ^ j \<le> 2 ^ k" using ge lt by simp_all
      then have "k = j" by (simp add: power_strict_increasing_iff power_increasing_iff del: power_Suc)
      with k neq show False by simp
    qed
    ultimately show ?thesis by simp
  qed
qed

lemma add_shift_eq_or:
  fixes x y :: nat
  assumes "x < 2 ^ k"
  shows "x + 2 ^ k * y = x OR push_bit k y"
proof -
  have "\<not> bit x n" if "k \<le> n" for n
    using that assms by (metis bit_take_bit_iff take_bit_nat_eq_self_iff not_less)
  then have "x AND push_bit k y = 0"
    by (intro bit_eqI) (auto simp: bit_and_iff bit_push_bit_iff)
  then show ?thesis by (simp add: disjunctive_add_eq_or push_bit_eq_mult mult.commute flip: disjunctive_add_eq_or)
qed

lemma bit_uval: "i < 64 * length xs \<Longrightarrow> bit (uval xs) i \<longleftrightarrow> bit (xs ! (i div 64)) (i mod 64)"
proof (induction xs arbitrary: i)
  case (Cons x xs)
  have "uval (x # xs) = unat x OR push_bit 64 (uval xs)"
    using add_shift_eq_or [of "unat x" 64 "uval xs"] by simp
  then have "bit (uval (x # xs)) i \<longleftrightarrow> bit x i \<or> 64 \<le> i \<and> bit (uval xs) (i - 64)"
    by (simp only: bit_or_iff bit_push_bit_iff bit_unsigned_iff) (auto dest: bit_imp_le_length)
  moreover have "\<not> bit x i" if "64 \<le> i" using that by (auto dest: bit_imp_le_length)
  moreover have "i div 64 = Suc ((i - 64) div 64)" "i mod 64 = (i - 64) mod 64" if "64 \<le> i"
    using that by (simp_all add: le_div_geq le_mod_geq)
  ultimately show ?case
    using Cons.IH [of "i - 64"] Cons.prems by (cases "i < 64") auto
qed simp

lemma drop_and_1_iff: "drop_bit n (x :: u64) AND 1 \<noteq> 0 \<longleftrightarrow> bit x n"
  by (simp add: and_one_eq bit_iff_odd_drop_bit mod2_eq_if)

lemma isBitSetUint_iff:
  "i < 64 * length xs \<Longrightarrow> isBitSetUint xs i \<longleftrightarrow> bit (uval xs) i"
  by (simp only: isBitSetUint_def Let_def drop_and_1_iff bit_uval minus_div_mult_eq_mod)

lemma setBitUint_uval:
  assumes "i < 64 * length xs"
  shows "uval (setBitUint xs i) = uval xs OR 2 ^ i"
proof -
  have "bit (uval (setBitUint xs i)) j \<longleftrightarrow> bit (uval xs OR 2 ^ i) j" for j
  proof (cases "j < 64 * length xs")
    case True
    have "i div 64 < length xs" using assms by (simp add: less_mult_imp_div_less mult.commute)
    moreover have "j div 64 = i div 64 \<and> j mod 64 = i mod 64 \<longleftrightarrow> j = i"
      by (metis div_mult_mod_eq)
    ultimately show ?thesis
      using True by (auto simp: bit_uval setBitUint_def Let_def nth_list_update bit_simps)
  next
    case False
    have z: "\<not> bit (uval ys) j" if "length ys = length xs" for ys
    proof -
      have "uval ys < 2 ^ (64 * length xs)" using uval_lt [of ys] that by (simp add: power_mult)
      also have "(2::nat) ^ (64 * length xs) \<le> 2 ^ j" using False by (intro power_increasing) auto
      finally show ?thesis by (simp add: bit_iff_odd)
    qed
    then show ?thesis using False assms by (auto simp: bit_simps setBitUint_def Let_def)
  qed
  then show ?thesis by (simp add: bit_eq_iff)
qed

lemma filterHighbitsUint_mod:
  assumes "k \<le> 64 * length xs" "64 * length xs < 2 ^ 64"
  shows "\<exists>ys. filterHighbitsUint xs k = Inr ys \<and> length ys = length xs \<and> uval ys = uval xs mod 2 ^ k"
proof -
  have mul: "mul_safe uint64_t (int (length xs)) 64 = Inr (int (length xs) * 64)"
    using assms(2) by (subst mul_safe_unsigned) (auto simp: wf_ctype_def in_type_def type_min_def type_max_def)
  have eq: "unsigned_eq (int k) (int (length xs) * 64) \<longleftrightarrow> k = 64 * length xs"
    using assms by (auto simp: unsigned_eq_def static_cast_id in_type_def type_min_def type_max_def)
  show ?thesis
  proof (cases "k = 64 * length xs")
    case True
    moreover have "uval xs mod 2 ^ k = uval xs" using uval_lt [of xs] by (simp add: True power_mult)
    ultimately show ?thesis using eq by (simp add: filterHighbitsUint_def mul)
  next
    case False
    define d where "d = k div 64"
    have d: "d < length xs" using False assms(1) by (simp add: d_def less_mult_imp_div_less mult.commute)
    have k: "k = 64 * d + k mod 64" by (simp add: d_def)
    have m: "k - d * 64 = k mod 64" by (simp add: d_def minus_div_mult_eq_mod)
    let ?w = "xs ! d AND (push_bit (k mod 64) 1 - 1)"
    have "?w = take_bit (k mod 64) (xs ! d)"
      by (simp only: take_bit_eq_mask mask_eq_exp_minus_1 push_bit_of_1)
    then have w: "unat ?w = unat (xs ! d) mod 2 ^ (k mod 64)"
      by (simp only: unsigned_take_bit_eq take_bit_eq_mod [where 'a=nat])
    have "uval (take (d + 1) (xs[d := ?w])) = uval (take d xs) + 2 ^ (64 * d) * (unat (xs ! d) mod 2 ^ (k mod 64))"
      using d by (simp add: uval_take_Suc w [unfolded push_bit_of_1] power_mult)
    also have "\<dots> = uval (take (Suc d) xs) mod 2 ^ k"
    proof -
      have "uval (take d xs) < 2 ^ (64 * d)" using uval_take_lt [of d xs] d by (simp add: power_mult)
      then show ?thesis using d
        by (subst k, simp only: power_add mod_mult2_eq uval_take_Suc) (simp add: power_mult)
    qed
    also have "\<dots> = uval xs mod 2 ^ k"
    proof -
      have "(2::nat) ^ k dvd 18446744073709551616 ^ Suc d"
      proof -
        have "(18446744073709551616::nat) ^ Suc d = (2 ^ 64) ^ Suc d" by simp
        also have "\<dots> = 2 ^ (64 * Suc d)" by (rule power_mult [symmetric])
        also have "(2::nat) ^ k dvd \<dots>" by (rule le_imp_power_dvd) (use k in simp)
        finally show ?thesis .
      qed
      then show ?thesis using d by (simp add: uval_take mod_mod_cancel del: power_Suc)
    qed
    finally show ?thesis
      using False d by (simp add: filterHighbitsUint_def mul eq Let_def d_def [symmetric] m uval_append)
  qed
qed

section \<open>Properties\<close>

text \<open>
  The comparison of two arrays of any two lengths is the comparison of the numbers they stand
  for: the result of \<open>compareUint\<close> is the sign of their difference.
\<close>

theorem compareUint_counts_correct:
  "compareUint_counts xs ys = sgn (int (uval xs) - int (uval ys))"
  by (rule compareUint_counts_sgn)

text \<open>
  \<open>filterHighbitsUint\<close> keeps exactly the low \<open>bit_count\<close> bits: on an array whose bit count fits
  a \<open>size_t\<close>, for every \<open>bit_count\<close> up to that count, it returns an array of the same length whose
  number is the operand's modulo \<open>2^bit_count\<close>.
\<close>

theorem filterHighbitsUint_correct:
  assumes "k \<le> 64 * length xs" "64 * length xs < 2 ^ 64"
  shows "\<exists>ys. filterHighbitsUint xs k = Inr ys \<and> length ys = length xs \<and>
    uval ys = uval xs mod 2 ^ k"
  using assms by (rule filterHighbitsUint_mod)

theorem filterHighbitsUint_correct_witness:
  "\<exists>ys. filterHighbitsUint [5, 7] 65 = Inr ys \<and> length ys = length [5 :: u64, 7] \<and>
     uval ys = uval [5, 7] mod 2 ^ 65"
  by (rule filterHighbitsUint_correct) simp_all

end
