(* ===== verification/Uint_Arith.thy ===== *)
theory Uint_Arith
  imports Uint_Core
begin

unbundle bit_operations_syntax

text \<open>
  Multi-word addition, subtraction, shifts, bitwise operations and multiplication:
  \<open>heu/library/algorithms/seal_gpu/utils/uintarith.h\<close> and the multiplications of
  \<open>uintarith.cpp\<close>. As in \<open>Uint_Core\<close> an array is the list of its words; a function that returns a
  carry and writes through a result pointer gives the pair of the carry and the written words.
  The loops are recursions over the words in the order in which the code visits them; where the
  code unrolls the first iteration the equation for the empty array is missing, because the code
  reads the first word without looking at the count.
\<close>

section \<open>Addition\<close>

definition addUint64_carry :: "u64 \<Rightarrow> u64 \<Rightarrow> u8 \<Rightarrow> u8 \<times> u64" where
  "addUint64_carry operand1 operand2 carry =
     (let operand1 = operand1 + operand2 in
      (of_bool (operand1 < operand2 \<or> NOT operand1 < ucast carry), operand1 + ucast carry))"

definition addUint64 :: "u64 \<Rightarrow> u64 \<Rightarrow> u8 \<times> u64" where
  "addUint64 operand1 operand2 =
     (let result = operand1 + operand2 in (of_bool (result < operand1), result))"

definition addUint128 :: "u64 list \<Rightarrow> u64 list \<Rightarrow> u8 \<times> u64 list" where
  "addUint128 operand1 operand2 =
     (let (carry, r0) = addUint64 (operand1 ! 0) (operand2 ! 0);
          (carry, r1) = addUint64_carry (operand1 ! 1) (operand2 ! 1) carry
      in (carry, [r0, r1]))"

text \<open>Reading the next word of an operand, or zero past its end.\<close>

fun next_word :: "u64 list \<Rightarrow> u64 \<times> u64 list" where
  "next_word [] = (0, [])"
| "next_word (x # xs) = (x, xs)"

fun addUint_counts :: "u64 list \<Rightarrow> u64 list \<Rightarrow> u8 \<Rightarrow> nat \<Rightarrow> u8 \<times> u64 list" where
  "addUint_counts operand1 operand2 carry 0 = (carry, [])"
| "addUint_counts operand1 operand2 carry (Suc n) =
     (let (x, operand1) = next_word operand1;
          (y, operand2) = next_word operand2;
          (carry, temp_result) = addUint64_carry x y carry;
          (carry, result) = addUint_counts operand1 operand2 carry n
      in (carry, temp_result # result))"

fun addUint_loop :: "u64 list \<Rightarrow> u64 list \<Rightarrow> u8 \<Rightarrow> u8 \<times> u64 list" where
  "addUint_loop [] [] carry = (carry, [])"
| "addUint_loop (x # operand1) (y # operand2) carry =
     (let (carry, temp_result) = addUint64_carry x y carry;
          (carry, result) = addUint_loop operand1 operand2 carry
      in (carry, temp_result # result))"

fun addUint :: "u64 list \<Rightarrow> u64 list \<Rightarrow> u8 \<times> u64 list" where
  "addUint (x # operand1) (y # operand2) =
     (let (carry, r0) = addUint64 x y;
          (carry, result) = addUint_loop operand1 operand2 carry
      in (carry, r0 # result))"

fun addUint_word_loop :: "u64 list \<Rightarrow> u8 \<Rightarrow> u8 \<times> u64 list" where
  "addUint_word_loop [] carry = (carry, [])"
| "addUint_word_loop (x # operand1) carry =
     (let (carry, temp_result) = addUint64_carry x 0 carry;
          (carry, result) = addUint_word_loop operand1 carry
      in (carry, temp_result # result))"

fun addUint_word :: "u64 list \<Rightarrow> u64 \<Rightarrow> u8 \<times> u64 list" where
  "addUint_word (x # operand1) operand2 =
     (let (carry, r0) = addUint64 x operand2;
          (carry, result) = addUint_word_loop operand1 carry
      in (carry, r0 # result))"

section \<open>Subtraction\<close>

definition subUint64_borrow :: "u64 \<Rightarrow> u64 \<Rightarrow> u8 \<Rightarrow> u8 \<times> u64" where
  "subUint64_borrow operand1 operand2 borrow =
     (let diff = operand1 - operand2 in
      (of_bool (diff > operand1 \<or> diff < ucast borrow), diff - of_bool (borrow \<noteq> 0)))"

definition subUint64 :: "u64 \<Rightarrow> u64 \<Rightarrow> u8 \<times> u64" where
  "subUint64 operand1 operand2 = (of_bool (operand2 > operand1), operand1 - operand2)"

fun subUint_counts :: "u64 list \<Rightarrow> u64 list \<Rightarrow> u8 \<Rightarrow> nat \<Rightarrow> u8 \<times> u64 list" where
  "subUint_counts operand1 operand2 borrow 0 = (borrow, [])"
| "subUint_counts operand1 operand2 borrow (Suc n) =
     (let (x, operand1) = next_word operand1;
          (y, operand2) = next_word operand2;
          (borrow, temp_result) = subUint64_borrow x y borrow;
          (borrow, result) = subUint_counts operand1 operand2 borrow n
      in (borrow, temp_result # result))"

fun subUint_loop :: "u64 list \<Rightarrow> u64 list \<Rightarrow> u8 \<Rightarrow> u8 \<times> u64 list" where
  "subUint_loop [] [] borrow = (borrow, [])"
| "subUint_loop (x # operand1) (y # operand2) borrow =
     (let (borrow, temp_result) = subUint64_borrow x y borrow;
          (borrow, result) = subUint_loop operand1 operand2 borrow
      in (borrow, temp_result # result))"

fun subUint :: "u64 list \<Rightarrow> u64 list \<Rightarrow> u8 \<times> u64 list" where
  "subUint (x # operand1) (y # operand2) =
     (let (borrow, r0) = subUint64 x y;
          (borrow, result) = subUint_loop operand1 operand2 borrow
      in (borrow, r0 # result))"

fun subUint_word_loop :: "u64 list \<Rightarrow> u8 \<Rightarrow> u8 \<times> u64 list" where
  "subUint_word_loop [] borrow = (borrow, [])"
| "subUint_word_loop (x # operand1) borrow =
     (let (borrow, temp_result) = subUint64_borrow x 0 borrow;
          (borrow, result) = subUint_word_loop operand1 borrow
      in (borrow, temp_result # result))"

fun subUint_word :: "u64 list \<Rightarrow> u64 \<Rightarrow> u8 \<times> u64 list" where
  "subUint_word (x # operand1) operand2 =
     (let (borrow, r0) = subUint64 x operand2;
          (borrow, result) = subUint_word_loop operand1 borrow
      in (borrow, r0 # result))"

definition incrementUint :: "u64 list \<Rightarrow> u8 \<times> u64 list" where
  "incrementUint operand = addUint_word operand 1"

definition decrementUint :: "u64 list \<Rightarrow> u8 \<times> u64 list" where
  "decrementUint operand = subUint_word operand 1"

fun negateUint_loop :: "u64 list \<Rightarrow> u8 \<Rightarrow> u64 list" where
  "negateUint_loop [] carry = []"
| "negateUint_loop (x # operand) carry =
     (let (carry, temp_result) = addUint64_carry (NOT x) 0 carry
      in temp_result # negateUint_loop operand carry)"

fun negateUint :: "u64 list \<Rightarrow> u64 list" where
  "negateUint (x # operand) =
     (let (carry, r0) = addUint64 (NOT x) 1 in r0 # negateUint_loop operand carry)"

section \<open>Shifts\<close>

text \<open>
  The loops that move words and those that move bits write every position from positions that
  are not yet overwritten, in place or not: the list of what is written at each index \<open>i\<close>.
\<close>

definition leftShiftUint :: "u64 list \<Rightarrow> nat \<Rightarrow> u64 list" where
  "leftShiftUint operand shift_amount =
     (let uint64_count = length operand;
          uint64_shift_amount = shift_amount div 64;
          result = map (\<lambda>i. if i < uint64_shift_amount then 0 else operand ! (i - uint64_shift_amount))
                     [0..<uint64_count];
          bit_shift_amount = shift_amount - uint64_shift_amount * 64
      in if bit_shift_amount \<noteq> 0 then
           (let neg_bit_shift_amount = 64 - bit_shift_amount in
            map (\<lambda>i. if i > 0 then push_bit bit_shift_amount (result ! i) OR
                                  drop_bit neg_bit_shift_amount (result ! (i - 1))
                      else push_bit bit_shift_amount (result ! 0)) [0..<uint64_count])
         else result)"

definition rightShiftUint :: "u64 list \<Rightarrow> nat \<Rightarrow> u64 list" where
  "rightShiftUint operand shift_amount =
     (let uint64_count = length operand;
          uint64_shift_amount = shift_amount div 64;
          result = map (\<lambda>i. if i < uint64_count - uint64_shift_amount
                            then operand ! (i + uint64_shift_amount) else 0) [0..<uint64_count];
          bit_shift_amount = shift_amount - uint64_shift_amount * 64
      in if bit_shift_amount \<noteq> 0 then
           (let neg_bit_shift_amount = 64 - bit_shift_amount in
            map (\<lambda>i. if i < uint64_count - 1 then drop_bit bit_shift_amount (result ! i) OR
                                  push_bit neg_bit_shift_amount (result ! (i + 1))
                      else drop_bit bit_shift_amount (result ! i)) [0..<uint64_count])
         else result)"

definition leftShiftUint128 :: "u64 list \<Rightarrow> nat \<Rightarrow> u64 list" where
  "leftShiftUint128 operand shift_amount =
     (let (r0, r1) = (if shift_amount AND 64 \<noteq> 0 then (0, operand ! 0)
                      else (operand ! 0, operand ! 1));
          bit_shift_amount = shift_amount AND (64 - 1)
      in if bit_shift_amount \<noteq> 0 then
           (let neg_bit_shift_amount = 64 - bit_shift_amount;
                r1 = push_bit bit_shift_amount r1 OR drop_bit neg_bit_shift_amount r0;
                r0 = push_bit bit_shift_amount r0 in [r0, r1])
         else [r0, r1])"

definition rightShiftUint128 :: "u64 list \<Rightarrow> nat \<Rightarrow> u64 list" where
  "rightShiftUint128 operand shift_amount =
     (let (r0, r1) = (if shift_amount AND 64 \<noteq> 0 then (operand ! 1, 0)
                      else (operand ! 0, operand ! 1));
          bit_shift_amount = shift_amount AND (64 - 1)
      in if bit_shift_amount \<noteq> 0 then
           (let neg_bit_shift_amount = 64 - bit_shift_amount;
                r0 = drop_bit bit_shift_amount r0 OR push_bit neg_bit_shift_amount r1;
                r1 = drop_bit bit_shift_amount r1 in [r0, r1])
         else [r0, r1])"

definition leftShiftUint192 :: "u64 list \<Rightarrow> nat \<Rightarrow> u64 list" where
  "leftShiftUint192 operand shift_amount =
     (let (r0, r1, r2) =
            (if shift_amount AND push_bit 1 64 \<noteq> 0 then (0, 0, operand ! 0)
             else if shift_amount AND 64 \<noteq> 0 then (0, operand ! 0, operand ! 1)
             else (operand ! 0, operand ! 1, operand ! 2));
          bit_shift_amount = shift_amount AND (64 - 1)
      in if bit_shift_amount \<noteq> 0 then
           (let neg_bit_shift_amount = 64 - bit_shift_amount;
                r2 = push_bit bit_shift_amount r2 OR drop_bit neg_bit_shift_amount r1;
                r1 = push_bit bit_shift_amount r1 OR drop_bit neg_bit_shift_amount r0;
                r0 = push_bit bit_shift_amount r0 in [r0, r1, r2])
         else [r0, r1, r2])"

definition rightShiftUint192 :: "u64 list \<Rightarrow> nat \<Rightarrow> u64 list" where
  "rightShiftUint192 operand shift_amount =
     (let (r0, r1, r2) =
            (if shift_amount AND push_bit 1 64 \<noteq> 0 then (operand ! 2, 0, 0)
             else if shift_amount AND 64 \<noteq> 0 then (operand ! 1, operand ! 2, 0)
             else (operand ! 0, operand ! 1, operand ! 2));
          bit_shift_amount = shift_amount AND (64 - 1)
      in if bit_shift_amount \<noteq> 0 then
           (let neg_bit_shift_amount = 64 - bit_shift_amount;
                r0 = drop_bit bit_shift_amount r0 OR push_bit neg_bit_shift_amount r1;
                r1 = drop_bit bit_shift_amount r1 OR push_bit neg_bit_shift_amount r2;
                r2 = drop_bit bit_shift_amount r2 in [r0, r1, r2])
         else [r0, r1, r2])"

definition halfRoundUpUint :: "u64 list \<Rightarrow> u64 list" where
  "halfRoundUpUint operand =
     (let uint64_count = length operand in
      if uint64_count = 0 then operand
      else let low_bit_set = ((operand ! 0) AND 1 \<noteq> 0);
               result = map (\<lambda>i. if i < uint64_count - 1
                                 then drop_bit 1 (operand ! i) OR push_bit (64 - 1) (operand ! (i + 1))
                                 else drop_bit 1 (operand ! i)) [0..<uint64_count]
           in if low_bit_set then snd (incrementUint result) else result)"

section \<open>Bitwise operations\<close>

definition notUint :: "u64 list \<Rightarrow> u64 list" where
  "notUint operand = map (\<lambda>x. NOT x) operand"

definition andUint :: "u64 list \<Rightarrow> u64 list \<Rightarrow> u64 list" where
  "andUint operand1 operand2 = map2 (\<lambda>x y. x AND y) operand1 operand2"

definition orUint :: "u64 list \<Rightarrow> u64 list \<Rightarrow> u64 list" where
  "orUint operand1 operand2 = map2 (\<lambda>x y. x OR y) operand1 operand2"

definition xorUint :: "u64 list \<Rightarrow> u64 list \<Rightarrow> u64 list" where
  "xorUint operand1 operand2 = map2 (\<lambda>x y. x XOR y) operand1 operand2"

section \<open>Multiplication\<close>

definition multiplyUint64 :: "u64 \<Rightarrow> u64 \<Rightarrow> u64 \<times> u64" where
  "multiplyUint64 operand1 operand2 =
     (let product = (ucast operand1 :: u128) * ucast operand2
      in (ucast product, ucast (drop_bit 64 product)))"

definition multiplyUint64HW64 :: "u64 \<Rightarrow> u64 \<Rightarrow> u64" where
  "multiplyUint64HW64 operand1 operand2 =
     ucast (drop_bit 64 ((ucast operand1 :: u128) * (ucast operand2 :: u128)))"

text \<open>Multiplication by one word: the loop gives the written words and the last carry.\<close>

fun multiplyUint_word_loop :: "u64 list \<Rightarrow> u64 \<Rightarrow> u64 \<Rightarrow> u64 list \<times> u64" where
  "multiplyUint_word_loop [] operand2 carry = ([], carry)"
| "multiplyUint_word_loop (x # operand1) operand2 carry =
     (let (temp_result0, temp_result1) = multiplyUint64 x operand2;
          (c, temp) = addUint64_carry temp_result0 carry 0;
          carry = temp_result1 + ucast c;
          (result, carry) = multiplyUint_word_loop operand1 operand2 carry
      in (temp # result, carry))"

definition multiplyUint_word :: "u64 list \<Rightarrow> u64 \<Rightarrow> nat \<Rightarrow> u64 list" where
  "multiplyUint_word operand1 operand2 result_uint64_count =
     (if length operand1 = 0 \<or> operand2 = 0 then setZeroUint result_uint64_count
      else if result_uint64_count = 1 then [operand1 ! 0 * operand2]
      else let result = setZeroUint result_uint64_count;
               operand1_index_max = min (length operand1) result_uint64_count;
               (low, carry) = multiplyUint_word_loop (take operand1_index_max operand1) operand2 0
           in if operand1_index_max < result_uint64_count
              then low @ carry # drop (operand1_index_max + 1) result else low)"

text \<open>
  The inner loop of the multiplication of two arrays adds the product of one word of the first
  operand and the words of the second one to the result: it gives the words it has written, the
  rest of the result and the last carry.
\<close>

fun multiplyUint_inner :: "u64 \<Rightarrow> u64 list \<Rightarrow> u64 list \<Rightarrow> u64 \<Rightarrow> u64 list \<times> u64 list \<times> u64" where
  "multiplyUint_inner operand1 [] inner_result carry = ([], inner_result, carry)"
| "multiplyUint_inner operand1 (y # inner_operand2) (r # inner_result) carry =
     (let (temp_result0, temp_result1) = multiplyUint64 operand1 y;
          (c, temp_result0) = addUint64_carry temp_result0 carry 0;
          carry = temp_result1 + ucast c;
          (c, temp) = addUint64_carry r temp_result0 0;
          carry = carry + ucast c;
          (low, rest, carry) = multiplyUint_inner operand1 inner_operand2 inner_result carry
      in (temp # low, rest, carry))"

fun multiplyUint_outer :: "u64 list \<Rightarrow> u64 list \<Rightarrow> u64 list \<Rightarrow> u64 list" where
  "multiplyUint_outer [] operand2 result = result"
| "multiplyUint_outer (x # operand1) operand2 result =
     (let operand2_index_max = min (length operand2) (length result);
          (low, rest, carry) = multiplyUint_inner x (take operand2_index_max operand2) result 0;
          result = low @ (case rest of [] \<Rightarrow> [] | _ # rest \<Rightarrow> carry # rest)
      in hd result # multiplyUint_outer operand1 operand2 (tl result))"

definition multiplyUint_counts :: "u64 list \<Rightarrow> u64 list \<Rightarrow> nat \<Rightarrow> u64 list" where
  "multiplyUint_counts operand1 operand2 result_uint64_count =
     (if length operand1 = 0 \<or> length operand2 = 0 then setZeroUint result_uint64_count
      else if result_uint64_count = 1 then [operand1 ! 0 * operand2 ! 0]
      else let operand1_uint64_count = getSignificantUint64CountUint operand1;
               operand2_uint64_count = getSignificantUint64CountUint operand2
           in if operand1_uint64_count = 1
              then multiplyUint_word (take operand2_uint64_count operand2) (operand1 ! 0) result_uint64_count
              else if operand2_uint64_count = 1
              then multiplyUint_word (take operand1_uint64_count operand1) (operand2 ! 0) result_uint64_count
              else let result = setZeroUint result_uint64_count;
                       operand1_index_max = min operand1_uint64_count result_uint64_count
                   in multiplyUint_outer (take operand1_index_max operand1)
                        (take operand2_uint64_count operand2) result)"

definition multiplyUint :: "u64 list \<Rightarrow> u64 list \<Rightarrow> u64 list" where
  "multiplyUint operand1 operand2 = multiplyUint_counts operand1 operand2 (length operand1 * 2)"

definition multiplyTruncateUint :: "u64 list \<Rightarrow> u64 list \<Rightarrow> u64 list" where
  "multiplyTruncateUint operand1 operand2 = multiplyUint_counts operand1 operand2 (length operand1)"

text \<open>\<open>setUint(temp_mpi, i + 1, result)\<close> overwrites the first \<open>i + 1\<close> words.\<close>

definition multiplyManyUint64 :: "u64 list \<Rightarrow> u64 list" where
  "multiplyManyUint64 operands =
     (let count = length operands in
      if count = 0 then []
      else fold (\<lambda>i result.
             let temp_mpi = multiplyUint_word (take i result) (operands ! i) (i + 1)
             in setUint temp_mpi @ drop (i + 1) result)
           [1..<count] (setUint_word (operands ! 0) count))"

definition multiplyManyUint64Except :: "u64 list \<Rightarrow> nat \<Rightarrow> u64 list" where
  "multiplyManyUint64Except operands except =
     (let count = length operands in
      if count = 1 \<and> except = 0 then setUint_word 1 count
      else fold (\<lambda>i result.
             if i \<noteq> except then
               let temp_mpi = multiplyUint_word (take i result) (operands ! i) (i + 1)
               in setUint temp_mpi @ drop (i + 1) result
             else result)
           [1..<count] (setUint_word (if except = 0 then 1 else operands ! 0) count))"

fun multiplyAccumulateUint64 :: "u64 list \<Rightarrow> u64 list \<Rightarrow> u64 list \<Rightarrow> u64 list" where
  "multiplyAccumulateUint64 [] [] accumulator = accumulator"
| "multiplyAccumulateUint64 (x # operand1) (y # operand2) accumulator =
     (let (qword0, qword1) = multiplyUint64 x y;
          accumulator = multiplyAccumulateUint64 operand1 operand2 accumulator
      in snd (addUint128 [qword0, qword1] accumulator))"

section \<open>Values of sums and differences\<close>

lemma unat_ucast_of_bool [simp]: "unat (ucast (of_bool b :: u8) :: u64) = of_bool b"
  by (cases b) simp_all

lemma unat_add64_cases:
  fixes a b :: u64
  obtains "unat a + unat b < 18446744073709551616" "unat (a + b) = unat a + unat b" "\<not> a + b < b"
  | "18446744073709551616 \<le> unat a + unat b" "unat (a + b) + 18446744073709551616 = unat a + unat b" "a + b < b"
proof (cases "unat a + unat b < 18446744073709551616")
  case True
  then show ?thesis using that by (simp add: word_less_nat_alt unat_add64)
next
  case False
  then have "(unat a + unat b) mod 18446744073709551616 = unat a + unat b - 18446744073709551616"
    using unat_lt64 [of a] unat_lt64 [of b] by (subst le_mod_geq) (simp_all del: unat_lt64)
  then have "unat (a + b) + 18446744073709551616 = unat a + unat b" using False by (simp add: unat_add64)
  moreover from this have "a + b < b" using unat_lt64 [of a] unfolding word_less_nat_alt by linarith
  ultimately show ?thesis using that False by simp
qed

lemma addUint64_carry_value:
  assumes "addUint64_carry a b c = (c', r)" "unat c \<le> 1"
  shows "unat r + 18446744073709551616 * unat c' = unat a + unat b + unat c" "unat c' \<le> 1"
proof -
  let ?c = "ucast c :: u64"
  have r: "r = a + b + ?c" and c': "c' = of_bool (a + b < b \<or> NOT (a + b) < ?c)"
    using assms(1) by (auto simp: addUint64_carry_def Let_def)
  have uc: "unat ?c = unat c" by simp
  have n: "NOT (a + b) < ?c \<longleftrightarrow> 18446744073709551616 \<le> unat (a + b) + unat c"
    using unat_lt64 [of "a + b"] unfolding word_less_nat_alt unat_not64 uc by linarith
  show "unat c' \<le> 1" by (simp add: c')
  show "unat r + 18446744073709551616 * unat c' = unat a + unat b + unat c"
  proof (cases a b rule: unat_add64_cases)
    case 1
    then show ?thesis unfolding c' r n
      by (cases "a + b" ?c rule: unat_add64_cases) (simp_all add: uc)
  next
    case 2
    then have "unat (a + b) + unat c < 18446744073709551616"
      using unat_lt64 [of a] unat_lt64 [of b] assms(2) by linarith
    then show ?thesis using 2 unfolding c' r n
      by (cases "a + b" ?c rule: unat_add64_cases) (simp_all add: uc)
  qed
qed

lemma addUint64_value:
  assumes "addUint64 a b = (c', r)"
  shows "unat r + 18446744073709551616 * unat c' = unat a + unat b" "unat c' \<le> 1"
  using assms unat_lt64 [of a] unat_lt64 [of b]
  by (auto simp: addUint64_def Let_def word_less_nat_alt unat_add64 mod_if simp del: unat_lt64)

lemma addUint128_value:
  assumes "addUint128 [a0, a1] [b0, b1] = (c', r)"
  shows "uval r + 340282366920938463463374607431768211456 * unat c' = uval [a0, a1] + uval [b0, b1]"
    "length r = 2" "unat c' \<le> 1"
proof -
  obtain c0 r0 where 0: "addUint64 a0 b0 = (c0, r0)" by fastforce
  obtain c1 r1 where 1: "addUint64_carry a1 b1 c0 = (c1, r1)" by fastforce
  have "c' = c1" "r = [r0, r1]" using assms by (simp_all add: addUint128_def 0 1)
  with addUint64_value [OF 0] addUint64_carry_value [OF 1]
  show "uval r + 340282366920938463463374607431768211456 * unat c' = uval [a0, a1] + uval [b0, b1]"
    "length r = 2" "unat c' \<le> 1" by auto
qed

lemma addUint_counts_value:
  "addUint_counts xs ys c n = (c', r) \<Longrightarrow> unat c \<le> 1 \<Longrightarrow>
   length r = n \<and> unat c' \<le> 1 \<and>
   uval r + 18446744073709551616 ^ n * unat c' = uval (take n xs) + uval (take n ys) + unat c"
proof (induction n arbitrary: xs ys c c' r)
  case (Suc n)
  obtain x xs' where x: "next_word xs = (x, xs')" by fastforce
  obtain y ys' where y: "next_word ys = (y, ys')" by fastforce
  obtain c1 t where t: "addUint64_carry x y c = (c1, t)" by fastforce
  obtain c2 r' where r': "addUint_counts xs' ys' c1 n = (c2, r')" by fastforce
  have r: "c' = c2" "r = t # r'" using Suc.prems(1) by (simp_all add: x y t r')
  have ux: "uval (take (Suc n) xs) = unat x + 18446744073709551616 * uval (take n xs')"
    using x by (cases xs) auto
  have uy: "uval (take (Suc n) ys) = unat y + 18446744073709551616 * uval (take n ys')"
    using y by (cases ys) auto
  note t' = addUint64_carry_value [OF t Suc.prems(2)]
  show ?case
    using Suc.IH [OF r' t'(2)] t' unfolding r ux uy by (auto simp: algebra_simps)
qed simp

lemma addUint_loop_value:
  "addUint_loop xs ys c = (c', r) \<Longrightarrow> length xs = length ys \<Longrightarrow> unat c \<le> 1 \<Longrightarrow>
   length r = length xs \<and> unat c' \<le> 1 \<and>
   uval r + 18446744073709551616 ^ length xs * unat c' = uval xs + uval ys + unat c"
proof (induction xs ys c arbitrary: c' r rule: addUint_loop.induct)
  case (2 x xs y ys c)
  obtain c1 t where t: "addUint64_carry x y c = (c1, t)" by fastforce
  note t' = addUint64_carry_value [OF t "2.prems"(3)]
  obtain c2 r' where r': "addUint_loop xs ys c1 = (c2, r')" by fastforce
  have r: "c' = c2" "r = t # r'" using "2.prems"(1) by (simp_all add: t r')
  show ?case
    using "2.prems"(2) "2.IH" [OF t [symmetric] refl r'] t' by (auto simp: r algebra_simps)
qed simp_all

lemma addUint_value:
  assumes "addUint xs ys = (c, r)" "length xs = length ys" "xs \<noteq> []"
  shows "length r = length xs" "unat c \<le> 1"
    "uval r + 18446744073709551616 ^ length xs * unat c = uval xs + uval ys"
proof -
  obtain x xs' y ys' where e: "xs = x # xs'" "ys = y # ys'"
    using assms(2,3) by (cases xs; cases ys) auto
  obtain c1 t where t: "addUint64 x y = (c1, t)" by fastforce
  obtain c2 r' where r': "addUint_loop xs' ys' c1 = (c2, r')" by fastforce
  have "c = c2" "r = t # r'" "length xs' = length ys'" using assms by (simp_all add: e t r')
  with addUint64_value [OF t] addUint_loop_value [OF r'] show "length r = length xs" "unat c \<le> 1"
    "uval r + 18446744073709551616 ^ length xs * unat c = uval xs + uval ys"
    by (auto simp: e algebra_simps)
qed

lemma addUint_word_loop_value:
  "addUint_word_loop xs c = (c', r) \<Longrightarrow> unat c \<le> 1 \<Longrightarrow>
   length r = length xs \<and> unat c' \<le> 1 \<and>
   uval r + 18446744073709551616 ^ length xs * unat c' = uval xs + unat c"
proof (induction xs c arbitrary: c' r rule: addUint_word_loop.induct)
  case (2 x xs c)
  obtain c1 t where t: "addUint64_carry x 0 c = (c1, t)" by fastforce
  note t' = addUint64_carry_value [OF t "2.prems"(2)]
  obtain c2 r' where r': "addUint_word_loop xs c1 = (c2, r')" by fastforce
  have r: "c' = c2" "r = t # r'" using "2.prems"(1) by (simp_all add: t r')
  show ?case
    using "2.IH" [OF t [symmetric] refl r'] t' by (auto simp: r algebra_simps)
qed simp

lemma addUint_word_value:
  assumes "addUint_word xs y = (c, r)" "xs \<noteq> []"
  shows "length r = length xs" "unat c \<le> 1"
    "uval r + 18446744073709551616 ^ length xs * unat c = uval xs + unat y"
proof -
  obtain x xs' where e: "xs = x # xs'" using assms(2) by (cases xs) auto
  obtain c1 t where t: "addUint64 x y = (c1, t)" by fastforce
  obtain c2 r' where r': "addUint_word_loop xs' c1 = (c2, r')" by fastforce
  have "c = c2" "r = t # r'" using assms by (simp_all add: e t r')
  with addUint64_value [OF t] addUint_word_loop_value [OF r'] show "length r = length xs" "unat c \<le> 1"
    "uval r + 18446744073709551616 ^ length xs * unat c = uval xs + unat y"
    by (auto simp: e algebra_simps)
qed

lemma subUint64_borrow_value:
  assumes "subUint64_borrow a b c = (c', r)" "unat c \<le> 1"
  shows "unat r + unat b + unat c = unat a + 18446744073709551616 * unat c'" "unat c' \<le> 1"
proof -
  let ?c = "ucast c :: u64"
  have uc: "unat ?c = unat c" by simp
  have c: "c = of_bool (c \<noteq> 0)" using assms(2) by (cases "c = 0") (auto simp: word_unat_eq_iff le_Suc_eq)
  have r: "r = a - b - of_bool (c \<noteq> 0)" and c': "c' = of_bool (a - b > a \<or> a - b < ?c)"
    using assms(1) by (auto simp: subUint64_borrow_def Let_def)
  show "unat c' \<le> 1" by (simp add: c')
  show "unat r + unat b + unat c = unat a + 18446744073709551616 * unat c'"
  proof (cases "c = 0")
    case True
    then show ?thesis using unat_lt64 [of a] unat_lt64 [of b] unfolding c' r
      by (auto simp add: word_less_nat_alt unat_sub64 simp del: unat_lt64)
  next
    case False
    then have "c = 1" using c by simp
    then show ?thesis using unat_lt64 [of a] unat_lt64 [of b] unfolding c' r
      by (auto simp add: word_less_nat_alt unat_sub64 simp del: unat_lt64 split: if_splits)
  qed
qed

lemma subUint64_value:
  assumes "subUint64 a b = (c', r)"
  shows "unat r + unat b = unat a + 18446744073709551616 * unat c'" "unat c' \<le> 1"
  using assms unat_lt64 [of a] unat_lt64 [of b]
  by (auto simp: subUint64_def Let_def word_less_nat_alt unat_sub64 simp del: unat_lt64)

lemma subUint_counts_value:
  "subUint_counts xs ys c n = (c', r) \<Longrightarrow> unat c \<le> 1 \<Longrightarrow>
   length r = n \<and> unat c' \<le> 1 \<and>
   uval r + uval (take n ys) + unat c = uval (take n xs) + 18446744073709551616 ^ n * unat c'"
proof (induction n arbitrary: xs ys c c' r)
  case (Suc n)
  obtain x xs' where x: "next_word xs = (x, xs')" by fastforce
  obtain y ys' where y: "next_word ys = (y, ys')" by fastforce
  obtain c1 t where t: "subUint64_borrow x y c = (c1, t)" by fastforce
  obtain c2 r' where r': "subUint_counts xs' ys' c1 n = (c2, r')" by fastforce
  have r: "c' = c2" "r = t # r'" using Suc.prems(1) by (simp_all add: x y t r')
  have ux: "uval (take (Suc n) xs) = unat x + 18446744073709551616 * uval (take n xs')"
    using x by (cases xs) auto
  have uy: "uval (take (Suc n) ys) = unat y + 18446744073709551616 * uval (take n ys')"
    using y by (cases ys) auto
  note t' = subUint64_borrow_value [OF t Suc.prems(2)]
  show ?case
    using Suc.IH [OF r' t'(2)] t' unfolding r ux uy by (auto simp: algebra_simps)
qed simp

lemma subUint_loop_value:
  "subUint_loop xs ys c = (c', r) \<Longrightarrow> length xs = length ys \<Longrightarrow> unat c \<le> 1 \<Longrightarrow>
   length r = length xs \<and> unat c' \<le> 1 \<and>
   uval r + uval ys + unat c = uval xs + 18446744073709551616 ^ length xs * unat c'"
proof (induction xs ys c arbitrary: c' r rule: subUint_loop.induct)
  case (2 x xs y ys c)
  obtain c1 t where t: "subUint64_borrow x y c = (c1, t)" by fastforce
  note t' = subUint64_borrow_value [OF t "2.prems"(3)]
  obtain c2 r' where r': "subUint_loop xs ys c1 = (c2, r')" by fastforce
  have r: "c' = c2" "r = t # r'" using "2.prems"(1) by (simp_all add: t r')
  show ?case
    using "2.prems"(2) "2.IH" [OF t [symmetric] refl r'] t' by (auto simp: r algebra_simps)
qed simp_all

lemma subUint_value:
  assumes "subUint xs ys = (c, r)" "length xs = length ys" "xs \<noteq> []"
  shows "length r = length xs" "unat c \<le> 1"
    "uval r + uval ys = uval xs + 18446744073709551616 ^ length xs * unat c"
proof -
  obtain x xs' y ys' where e: "xs = x # xs'" "ys = y # ys'"
    using assms(2,3) by (cases xs; cases ys) auto
  obtain c1 t where t: "subUint64 x y = (c1, t)" by fastforce
  obtain c2 r' where r': "subUint_loop xs' ys' c1 = (c2, r')" by fastforce
  have "c = c2" "r = t # r'" "length xs' = length ys'" using assms by (simp_all add: e t r')
  with subUint64_value [OF t] subUint_loop_value [OF r'] show "length r = length xs" "unat c \<le> 1"
    "uval r + uval ys = uval xs + 18446744073709551616 ^ length xs * unat c"
    by (auto simp: e algebra_simps)
qed

lemma subUint_word_loop_value:
  "subUint_word_loop xs c = (c', r) \<Longrightarrow> unat c \<le> 1 \<Longrightarrow>
   length r = length xs \<and> unat c' \<le> 1 \<and>
   uval r + unat c = uval xs + 18446744073709551616 ^ length xs * unat c'"
proof (induction xs c arbitrary: c' r rule: subUint_word_loop.induct)
  case (2 x xs c)
  obtain c1 t where t: "subUint64_borrow x 0 c = (c1, t)" by fastforce
  note t' = subUint64_borrow_value [OF t "2.prems"(2)]
  obtain c2 r' where r': "subUint_word_loop xs c1 = (c2, r')" by fastforce
  have r: "c' = c2" "r = t # r'" using "2.prems"(1) by (simp_all add: t r')
  show ?case
    using "2.IH" [OF t [symmetric] refl r'] t' by (auto simp: r algebra_simps)
qed simp

lemma subUint_word_value:
  assumes "subUint_word xs y = (c, r)" "xs \<noteq> []"
  shows "length r = length xs" "unat c \<le> 1"
    "uval r + unat y = uval xs + 18446744073709551616 ^ length xs * unat c"
proof -
  obtain x xs' where e: "xs = x # xs'" using assms(2) by (cases xs) auto
  obtain c1 t where t: "subUint64 x y = (c1, t)" by fastforce
  obtain c2 r' where r': "subUint_word_loop xs' c1 = (c2, r')" by fastforce
  have "c = c2" "r = t # r'" using assms by (simp_all add: e t r')
  with subUint64_value [OF t] subUint_word_loop_value [OF r'] show "length r = length xs" "unat c \<le> 1"
    "uval r + unat y = uval xs + 18446744073709551616 ^ length xs * unat c"
    by (auto simp: e algebra_simps)
qed

section \<open>Values of shifts\<close>

lemma exp64_power: "(18446744073709551616 :: nat) ^ n = 2 ^ (64 * n)"
  by (simp add: power_mult)

lemma shl_split:
  fixes x :: nat
  assumes "b \<le> 64"
  shows "x * 2 ^ b = x * 2 ^ b mod 18446744073709551616 + 18446744073709551616 * (x div 2 ^ (64 - b))"
proof -
  have B: "(18446744073709551616 :: nat) = 2 ^ (64 - b) * 2 ^ b"
    using assms by (simp flip: power_add)
  have "x * 2 ^ b div (2 ^ (64 - b) * 2 ^ b) = x div 2 ^ (64 - b)" by (rule div_mult_mult2) simp
  then show ?thesis using mod_mult_div_eq [of "x * 2 ^ b" 18446744073709551616] by (simp flip: B)
qed

text \<open>The bit loop of the left shift, and of the right shift.\<close>

definition shl_words :: "nat \<Rightarrow> u64 list \<Rightarrow> nat \<Rightarrow> u64" where
  "shl_words b r i = (if i > 0 then push_bit b (r ! i) OR drop_bit (64 - b) (r ! (i - 1))
                      else push_bit b (r ! 0))"

definition shr_words :: "nat \<Rightarrow> u64 list \<Rightarrow> nat \<Rightarrow> u64" where
  "shr_words b r i = (if i < length r - 1 then drop_bit b (r ! i) OR push_bit (64 - b) (r ! (i + 1))
                      else drop_bit b (r ! i))"

lemma uval_shl_words_take:
  assumes "0 < b" "b < 64"
  shows "k \<le> length r \<Longrightarrow>
    uval (map (shl_words b r) [0..<k]) +
      18446744073709551616 ^ k * (if k = 0 then 0 else unat (r ! (k - 1)) div 2 ^ (64 - b)) =
    uval (take k r) * 2 ^ b"
proof (induction k)
  case (Suc k)
  have "unat (shl_words b r k) = unat (r ! k) * 2 ^ b mod 18446744073709551616 +
      (if k = 0 then 0 else unat (r ! (k - 1)) div 2 ^ (64 - b))"
    using unat_shl_or [OF assms] by (simp add: shl_words_def unat_push64)
  moreover have "unat (r ! k) * 2 ^ b = unat (r ! k) * 2 ^ b mod 18446744073709551616 +
      18446744073709551616 * (unat (r ! k) div 2 ^ (64 - b))"
    using assms by (intro shl_split) simp
  ultimately have "unat (shl_words b r k) + 18446744073709551616 * (unat (r ! k) div 2 ^ (64 - b)) =
     unat (r ! k) * 2 ^ b + (if k = 0 then 0 else unat (r ! (k - 1)) div 2 ^ (64 - b))"
    by linarith
  from this [THEN arg_cong, of "\<lambda>n. 18446744073709551616 ^ k * n"] Suc show ?case
    by (simp add: uval_take_Suc uval_append distrib_left distrib_right mult.assoc mult.left_commute)
qed simp

lemma uval_shl_words:
  assumes "0 < b" "b < 64"
  shows "uval (map (shl_words b r) [0..<length r]) = uval r * 2 ^ b mod 18446744073709551616 ^ length r"
proof -
  have "uval (map (shl_words b r) [0..<length r]) < 18446744073709551616 ^ length r"
    using uval_lt [of "map (shl_words b r) [0..<length r]"] by simp
  then show ?thesis
    using arg_cong [OF uval_shl_words_take [OF assms order_refl, of r], of "\<lambda>n. n mod 18446744073709551616 ^ length r"]
    by simp
qed

lemma uval_shr_words_drop:
  assumes "0 < b" "b < 64"
  shows "k \<le> length r \<Longrightarrow> uval (map (shr_words b r) [k..<length r]) = uval (drop k r) div 2 ^ b"
proof (induction "length r - k" arbitrary: k)
  case (Suc d)
  let ?U = "uval (drop (Suc k) r)"
  from Suc have k: "k < length r" by simp
  have B: "(18446744073709551616 :: nat) = 2 ^ (64 - b) * 2 ^ b"
    using assms by (simp flip: power_add)
  have r: "drop k r = r ! k # drop (Suc k) r" using k by (simp add: Cons_nth_drop_Suc)
  have g: "unat (shr_words b r k) = unat (r ! k) div 2 ^ b + ?U * 2 ^ (64 - b) mod 18446744073709551616"
  proof (cases "k < length r - 1")
    case True
    then have "drop (Suc k) r = r ! (k + 1) # drop (Suc (Suc k)) r"
      by (simp add: Cons_nth_drop_Suc)
    then have "?U * 2 ^ (64 - b) mod 18446744073709551616 = unat (r ! (k + 1)) * 2 ^ (64 - b) mod 18446744073709551616"
      by (simp add: distrib_right mult.assoc)
    then show ?thesis using True unat_shr_or [OF assms] by (simp add: shr_words_def)
  next
    case False
    then show ?thesis by (simp add: shr_words_def unat_drop64)
  qed
  have "?U * 2 ^ (64 - b) = ?U * 2 ^ (64 - b) mod 18446744073709551616 +
      18446744073709551616 * (?U div 2 ^ b)"
    using shl_split [of "64 - b" ?U] assms by simp
  moreover have "uval (drop k r) div 2 ^ b = unat (r ! k) div 2 ^ b + ?U * 2 ^ (64 - b)"
    unfolding r B uval.simps
    by (simp add: mult.assoc mult.commute [of _ "2 ^ b"] mult.left_commute [of _ "2 ^ b"])
  moreover have "[k..<length r] = k # [Suc k..<length r]" using k by (rule upt_conv_Cons)
  moreover have "uval (map (shr_words b r) [Suc k..<length r]) = ?U div 2 ^ b"
    using Suc by simp
  ultimately show ?case using g by simp
qed simp

lemma shl_moves:
  assumes "s \<le> length xs"
  shows "map (\<lambda>i. if i < s then 0 else xs ! (i - s)) [0..<length xs] =
    replicate s 0 @ take (length xs - s) xs"
  using assms by (intro nth_equalityI) (auto simp: nth_append)

lemma shr_moves:
  assumes "s \<le> length xs"
  shows "map (\<lambda>i. if i < length xs - s then xs ! (i + s) else 0) [0..<length xs] =
    drop s xs @ replicate s 0"
  using assms by (intro nth_equalityI) (auto simp: nth_append add.commute)

lemma length_leftShiftUint [simp]: "length (leftShiftUint xs s) = length xs"
  by (simp add: leftShiftUint_def Let_def)

lemma length_rightShiftUint [simp]: "length (rightShiftUint xs s) = length xs"
  by (simp add: rightShiftUint_def Let_def)

lemma leftShiftUint_value:
  assumes "s \<le> 64 * length xs"
  shows "uval (leftShiftUint xs s) = uval xs * 2 ^ s mod 18446744073709551616 ^ length xs"
proof -
  define w where "w = s div 64"
  define b where "b = s - w * 64"
  define r where "r = map (\<lambda>i. if i < w then 0 else xs ! (i - w)) [0..<length xs]"
  have w: "w \<le> length xs" using assms by (simp add: w_def)
  have s: "s = 64 * w + b" "b < 64" by (simp_all add: w_def b_def minus_div_mult_eq_mod)
  have B: "(18446744073709551616 :: nat) ^ length xs = 18446744073709551616 ^ w * 18446744073709551616 ^ (length xs - w)"
    using w by (simp flip: power_add)
  have r: "uval r = uval xs * 18446744073709551616 ^ w mod 18446744073709551616 ^ length xs"
    unfolding r_def shl_moves [OF w] B
    by (simp only: uval_append uval_replicate_0 uval_take diff_le_self length_replicate add_0 mult_mod_right mult.commute)
  have "leftShiftUint xs s = (if b \<noteq> 0 then map (shl_words b r) [0..<length r] else r)"
    by (simp add: leftShiftUint_def Let_def w_def b_def r_def shl_words_def [abs_def])
  moreover have "length r = length xs" by (simp add: r_def)
  moreover from this have "uval r mod 18446744073709551616 ^ length xs = uval r"
    using uval_lt [of r] by (intro mod_less) simp
  ultimately have "uval (leftShiftUint xs s) = uval r * 2 ^ b mod 18446744073709551616 ^ length xs"
    using uval_shl_words [of b r] s(2) by (cases "b = 0") simp_all
  also have "\<dots> = uval xs * 2 ^ s mod 18446744073709551616 ^ length xs"
    unfolding r by (simp only: mod_mult_left_eq s(1) power_add exp64_power mult.assoc)
  finally show ?thesis .
qed

lemma rightShiftUint_value:
  assumes "s \<le> 64 * length xs"
  shows "uval (rightShiftUint xs s) = uval xs div 2 ^ s"
proof -
  define w where "w = s div 64"
  define b where "b = s - w * 64"
  define r where "r = map (\<lambda>i. if i < length xs - w then xs ! (i + w) else 0) [0..<length xs]"
  have w: "w \<le> length xs" using assms by (simp add: w_def)
  have s: "s = 64 * w + b" "b < 64" by (simp_all add: w_def b_def minus_div_mult_eq_mod)
  have r: "uval r = uval xs div 18446744073709551616 ^ w"
    using w by (simp add: r_def shr_moves uval_append uval_drop)
  have "rightShiftUint xs s = (if b \<noteq> 0 then map (shr_words b r) [0..<length r] else r)"
    by (simp add: rightShiftUint_def Let_def w_def b_def r_def shr_words_def [abs_def])
  then have "uval (rightShiftUint xs s) = uval r div 2 ^ b"
    using uval_shr_words_drop [of b 0 r] s(2) by auto
  also have "\<dots> = uval xs div 2 ^ s"
    unfolding r by (simp add: s(1) power_add exp64_power div_mult2_eq)
  finally show ?thesis .
qed

lemma and_64_iff: "(s :: nat) AND 64 = 0 \<longleftrightarrow> even (s div 64)" "0 < s AND 64 \<longleftrightarrow> odd (s div 64)"
  using and_exp_eq_0_iff_not_bit [of s 6] by (auto simp add: bit_iff_odd zero_less_iff_neq_zero)

lemma and_128_iff: "(s :: nat) AND 128 = 0 \<longleftrightarrow> even (s div 128)" "0 < s AND 128 \<longleftrightarrow> odd (s div 128)"
  using and_exp_eq_0_iff_not_bit [of s 7] by (auto simp add: bit_iff_odd zero_less_iff_neq_zero)

lemma and_63: "(s :: nat) AND 63 = s mod 64"
  using take_bit_eq_mask [of 6 s] by (simp add: take_bit_eq_mod mask_eq_exp_minus_1)

lemma upt_2: "[0..<Suc (Suc 0)] = [0, Suc 0]"
  by (simp add: upt_rec)

lemma upt_3: "[0..<Suc (Suc (Suc 0))] = [0, Suc 0, Suc (Suc 0)]"
  by (simp add: upt_rec)

lemma shift_cases:
  assumes "(s :: nat) < 192"
  obtains w b where "s = 64 * w + b" "b < 64" "w = 0 \<or> w = 1 \<or> w = 2" "(64 * w + b) div 128 = w div 2"
proof -
  have "s div 128 = s div (64 * 2)" by simp
  also have "\<dots> = s div 64 div 2" by (rule div_mult2_eq)
  finally show ?thesis using that [of "s div 64" "s mod 64"] assms by fastforce
qed

lemmas shift_simps = leftShiftUint128_def rightShiftUint128_def leftShiftUint192_def rightShiftUint192_def
  leftShiftUint_def rightShiftUint_def Let_def and_64_iff and_128_iff and_63 upt_2 upt_3

lemma shift128_eq:
  assumes "s < 128"
  shows "leftShiftUint128 [x0, x1] s = leftShiftUint [x0, x1] s"
    "rightShiftUint128 [x0, x1] s = rightShiftUint [x0, x1] s"
proof -
  obtain w b where "s = 64 * w + b" "b < 64" "w = 0 \<or> w = 1 \<or> w = 2"
    using assms shift_cases [of s] by auto
  then show "leftShiftUint128 [x0, x1] s = leftShiftUint [x0, x1] s"
    "rightShiftUint128 [x0, x1] s = rightShiftUint [x0, x1] s"
    using assms by (auto simp: shift_simps)
qed

lemma shift192_eq:
  assumes "s < 192"
  shows "leftShiftUint192 [x0, x1, x2] s = leftShiftUint [x0, x1, x2] s"
    "rightShiftUint192 [x0, x1, x2] s = rightShiftUint [x0, x1, x2] s"
proof -
  obtain w b where "s = 64 * w + b" "b < 64" "w = 0 \<or> w = 1 \<or> w = 2" "(64 * w + b) div 128 = w div 2"
    using assms by (rule shift_cases)
  then show "leftShiftUint192 [x0, x1, x2] s = leftShiftUint [x0, x1, x2] s"
    "rightShiftUint192 [x0, x1, x2] s = rightShiftUint [x0, x1, x2] s"
    by (auto simp: shift_simps)
qed

lemma halfRoundUpUint_eq:
  assumes "xs \<noteq> []"
  shows "halfRoundUpUint xs = (if odd (uval xs) then snd (incrementUint (rightShiftUint xs 1)) else rightShiftUint xs 1)"
proof -
  obtain x ys where xs: "xs = x # ys" using assms by (cases xs) auto
  have "x AND 1 \<noteq> 0 \<longleftrightarrow> odd (unat x)" using drop_and_1_iff [of 0 x] bit_unsigned_iff [of x 0, where 'a=nat] by (simp add: bit_0)
  then have odd: "(xs ! 0) AND 1 \<noteq> 0 \<longleftrightarrow> odd (uval xs)" by (simp add: xs)
  have "map (\<lambda>i. if i < length xs - 1 then drop_bit 1 (xs ! i) OR push_bit (64 - 1) (xs ! (i + 1)) else drop_bit 1 (xs ! i))
      [0..<length xs] = rightShiftUint xs 1"
    by (auto simp: rightShiftUint_def Let_def intro!: map_cong)
  with odd show ?thesis using assms by (simp add: halfRoundUpUint_def)
qed

lemma halfRoundUpUint_value:
  assumes "xs \<noteq> []"
  shows "uval (halfRoundUpUint xs) = (uval xs + 1) div 2"
proof (cases "odd (uval xs)")
  case False
  then show ?thesis using assms rightShiftUint_value [of 1 xs] by (simp add: halfRoundUpUint_eq Suc_leI)
next
  case True
  define r where "r = rightShiftUint xs 1"
  have r: "uval r = uval xs div 2" "length r = length xs"
    using assms rightShiftUint_value [of 1 xs] by (simp_all add: r_def Suc_leI)
  obtain c u where u: "addUint_word r 1 = (c, u)" by fastforce
  have "r \<noteq> []" using r(2) assms by auto
  note u' = addUint_word_value [OF u this]
  have "uval xs < 18446744073709551616 ^ length xs" "uval u < 18446744073709551616 ^ length xs"
    using uval_lt [of xs] uval_lt [of u] u'(1) r(2) by simp_all
  moreover have "unat c = 0 \<or> unat c = 1" using u'(2) by linarith
  ultimately have "uval u = uval xs div 2 + 1"
    using u'(3) r True by (elim disjE) (simp_all, presburger?)
  then show ?thesis using assms True u by (simp add: halfRoundUpUint_eq incrementUint_def r_def)
qed

section \<open>Negation and bitwise operations\<close>

lemma negateUint_loop_eq: "negateUint_loop xs c = snd (addUint_word_loop (notUint xs) c)"
  by (induction xs c rule: negateUint_loop.induct) (auto simp: notUint_def split: prod.splits)

lemma negateUint_eq: "xs \<noteq> [] \<Longrightarrow> negateUint xs = snd (addUint_word (notUint xs) 1)"
  by (cases xs) (auto simp: negateUint_loop_eq notUint_def split: prod.splits)

lemma uval_notUint: "uval (notUint xs) + uval xs + 1 = 18446744073709551616 ^ length xs"
proof (induction xs)
  case (Cons x xs)
  have "unat (NOT x) + unat x = 18446744073709551615" by (simp add: unat_not64)
  then show ?case using Cons by (simp add: notUint_def algebra_simps)
qed (simp add: notUint_def)

lemma negateUint_value:
  assumes "xs \<noteq> []"
  shows "length (negateUint xs) = length xs"
    "uval (negateUint xs) = (18446744073709551616 ^ length xs - uval xs) mod 18446744073709551616 ^ length xs"
proof -
  obtain c r where r: "addUint_word (notUint xs) 1 = (c, r)" by fastforce
  have "notUint xs \<noteq> []" using assms by (simp add: notUint_def)
  note r' = addUint_word_value [OF r this]
  have l: "length (notUint xs) = length xs" by (simp add: notUint_def)
  have "uval r + 18446744073709551616 ^ length xs * unat c = 18446744073709551616 ^ length xs - uval xs"
    using r'(3) uval_notUint [of xs] by (simp add: l)
  moreover have "uval r < 18446744073709551616 ^ length xs" using uval_lt [of r] r'(1) l by simp
  ultimately show "length (negateUint xs) = length xs"
    "uval (negateUint xs) = (18446744073709551616 ^ length xs - uval xs) mod 18446744073709551616 ^ length xs"
    using r'(1) l assms by (simp_all add: negateUint_eq r) (metis mod_less mod_mult_self2)
qed

lemma bit_uval_ge:
  assumes "64 * length xs \<le> i"
  shows "\<not> bit (uval xs) i"
proof -
  have "uval xs < 2 ^ (64 * length xs)" using uval_lt [of xs] by (simp add: power_mult)
  also have "(2::nat) ^ (64 * length xs) \<le> 2 ^ i" using assms by (intro power_increasing) auto
  finally show ?thesis by (simp add: bit_iff_odd)
qed

lemma div_64_less: "i < 64 * n \<Longrightarrow> i div 64 < (n :: nat)"
  by (simp add: less_mult_imp_div_less mult.commute)

lemma bitwise_values:
  assumes "length xs = length ys"
  shows "uval (andUint xs ys) = uval xs AND uval ys" "uval (orUint xs ys) = uval xs OR uval ys"
    "uval (xorUint xs ys) = uval xs XOR uval ys"
proof -
  show "uval (andUint xs ys) = uval xs AND uval ys"
  proof (rule bit_eqI)
    fix i show "bit (uval (andUint xs ys)) i = bit (uval xs AND uval ys) i"
      using assms div_64_less [of i "length ys"]
      by (cases "i < 64 * length ys") (simp_all add: bit_uval bit_uval_ge bit_simps andUint_def)
  qed
  show "uval (orUint xs ys) = uval xs OR uval ys"
  proof (rule bit_eqI)
    fix i show "bit (uval (orUint xs ys)) i = bit (uval xs OR uval ys) i"
      using assms div_64_less [of i "length ys"]
      by (cases "i < 64 * length ys") (simp_all add: bit_uval bit_uval_ge bit_simps orUint_def)
  qed
  show "uval (xorUint xs ys) = uval xs XOR uval ys"
  proof (rule bit_eqI)
    fix i show "bit (uval (xorUint xs ys)) i = bit (uval xs XOR uval ys) i"
      using assms div_64_less [of i "length ys"]
      by (cases "i < 64 * length ys") (simp_all add: bit_uval bit_uval_ge bit_simps xorUint_def)
  qed
qed

section \<open>Values of products\<close>

lemma word_product_bound:
  fixes x y :: u64
  shows "unat x * unat y + 2 * 18446744073709551615 < 340282366920938463463374607431768211456"
proof -
  have "unat x * unat y \<le> 18446744073709551615 * 18446744073709551615"
    by (intro mult_mono) simp_all
  then show ?thesis by simp
qed

lemma unat_product128: "unat ((ucast x :: u128) * ucast y) = unat (x :: u64) * unat (y :: u64)"
proof -
  have "unat (ucast x :: u128) = unat x" "unat (ucast y :: u128) = unat y"
    by (simp_all add: unsigned_ucast_eq take_bit_nat_eq_self_iff less_trans [OF unat_lt64])
  then show ?thesis using word_product_bound [of x y] by (simp add: unat_word_ariths)
qed

lemma multiplyUint64_value:
  assumes "multiplyUint64 x y = (lo, hi)"
  shows "unat lo + 18446744073709551616 * unat hi = unat x * unat y"
proof -
  let ?p = "(ucast x :: u128) * ucast y"
  have "lo = ucast ?p" "hi = ucast (drop_bit 64 ?p)" using assms by (simp_all add: multiplyUint64_def Let_def)
  moreover have "unat (ucast ?p :: u64) = unat ?p mod 18446744073709551616"
    by (simp only: unsigned_ucast_eq take_bit_eq_mod) simp
  moreover have "unat (ucast (drop_bit 64 ?p) :: u64) = unat ?p div 18446744073709551616"
  proof -
    have "unat ?p div 18446744073709551616 < 18446744073709551616"
      using unsigned_less [of ?p, where 'a=nat] by (simp add: less_mult_imp_div_less)
    then show ?thesis
      by (simp only: unsigned_ucast_eq unat_drop_bit_eq drop_bit_eq_div [where 'a=nat] take_bit_eq_mod [where 'a=nat]) simp
  qed
  ultimately show ?thesis by (simp add: unat_product128)
qed

lemma multiplyUint64HW64_eq: "multiplyUint64HW64 x y = snd (multiplyUint64 x y)"
  by (simp add: multiplyUint64HW64_def multiplyUint64_def Let_def)

lemma multiplyUint64HW64_value: "unat (multiplyUint64HW64 x y) = unat x * unat y div 18446744073709551616"
proof -
  obtain lo hi where m: "multiplyUint64 x y = (lo, hi)" by fastforce
  show ?thesis using multiplyUint64_value [OF m, symmetric] by (simp add: multiplyUint64HW64_eq m)
qed

text \<open>The step of the multiplication loops: multiply two words and add the carry.\<close>

lemma carry_fits:
  fixes h :: u64 and c :: u8
  assumes "unat t + 18446744073709551616 * (unat h + unat c) = n"
    and "n < 340282366920938463463374607431768211456"
  shows "unat (h + ucast c) = unat h + unat c"
  using assms by (simp add: unat_add64)

lemma multiply_step:
  assumes "multiplyUint64 x y = (lo, hi)" "addUint64_carry lo c 0 = (c0, t)"
  shows "unat t + 18446744073709551616 * unat (hi + ucast c0) = unat x * unat y + unat c"
proof -
  have "unat t + 18446744073709551616 * (unat hi + unat c0) = unat x * unat y + unat c"
    using multiplyUint64_value [OF assms(1)] addUint64_carry_value [OF assms(2)] by simp
  moreover from this have "unat (hi + ucast c0) = unat hi + unat c0"
    by (rule carry_fits) (use word_product_bound [of x y] unat_le64 [of c] in linarith)
  ultimately show ?thesis by simp
qed

lemma multiply_step2:
  assumes "multiplyUint64 x y = (lo, hi)" "addUint64_carry lo c 0 = (c0, t0)"
    and "addUint64_carry r t0 0 = (c1, t)"
  shows "unat t + 18446744073709551616 * unat (hi + ucast c0 + ucast c1) =
    unat x * unat y + unat r + unat c"
proof -
  have "unat t + 18446744073709551616 * (unat (hi + ucast c0) + unat c1) =
    unat x * unat y + unat r + unat c"
    using multiply_step [OF assms(1,2)] addUint64_carry_value [OF assms(3)] by simp
  moreover from this have "unat (hi + ucast c0 + ucast c1) = unat (hi + ucast c0) + unat c1"
    by (rule carry_fits) (use word_product_bound [of x y] unat_le64 [of c] unat_le64 [of r] in linarith)
  ultimately show ?thesis by simp
qed

lemma multiplyUint_word_loop_value:
  "multiplyUint_word_loop xs y c = (r, c') \<Longrightarrow>
   length r = length xs \<and>
   uval r + 18446744073709551616 ^ length xs * unat c' = uval xs * unat y + unat c"
proof (induction xs y c arbitrary: r c' rule: multiplyUint_word_loop.induct)
  case (2 x xs y c)
  obtain lo hi where m: "multiplyUint64 x y = (lo, hi)" by fastforce
  obtain c0 t where t: "addUint64_carry lo c 0 = (c0, t)" by fastforce
  obtain r' c1 where r': "multiplyUint_word_loop xs y (hi + ucast c0) = (r', c1)" by fastforce
  have r: "r = t # r'" "c' = c1" using "2.prems" by (simp_all add: m t r')
  show ?case
    using multiply_step [OF m t] "2.IH" [OF m [symmetric] refl t [symmetric] refl refl r']
    by (auto simp: r algebra_simps)
qed simp

lemma mod_exp_append:
  assumes "uval low + 18446744073709551616 ^ length low * c = n"
  shows "uval low = n mod 18446744073709551616 ^ length low"
  using assms uval_lt [of low] by auto

lemma multiplyUint_word_value:
  "length (multiplyUint_word xs y n) = n \<and>
   uval (multiplyUint_word xs y n) = uval xs * unat y mod 18446744073709551616 ^ n"
proof -
  consider "xs = [] \<or> y = 0" | "xs \<noteq> []" "y \<noteq> 0" "n = 1" | "xs \<noteq> []" "y \<noteq> 0" "n \<noteq> 1" by blast
  then show ?thesis
  proof cases
    case 1
    then show ?thesis by (auto simp: multiplyUint_word_def setZeroUint_def)
  next
    case 2
    then obtain x ys where xs: "xs = x # ys" by (cases xs) auto
    have "(unat x + 18446744073709551616 * uval ys) * unat y mod 18446744073709551616 =
       unat x * unat y mod 18446744073709551616"
      by (simp add: distrib_right mult.assoc)
    then show ?thesis using 2 by (simp add: multiplyUint_word_def xs unat_mul64)
  next
    case 3
    define m where "m = min (length xs) n"
    obtain r c where r: "multiplyUint_word_loop (take m xs) y 0 = (r, c)" by fastforce
    note r' = multiplyUint_word_loop_value [OF r]
    have l: "length r = m" using r' by (simp add: m_def)
    show ?thesis
    proof (cases "m < n")
      case True
      then have "take m xs = xs" by (simp add: m_def)
      then have v: "uval r + 18446744073709551616 ^ m * unat c = uval xs * unat y"
        using r' l by simp
      have e: "multiplyUint_word xs y n = r @ c # replicate (n - Suc m) 0"
        using 3 True r by (simp add: multiplyUint_word_def Let_def m_def setZeroUint_def)
      have "uval (multiplyUint_word xs y n) < 18446744073709551616 ^ n"
        using uval_lt [of "multiplyUint_word xs y n"] True l by (simp add: e)
      moreover have "uval (multiplyUint_word xs y n) = uval xs * unat y" by (simp add: e uval_append l v)
      ultimately show ?thesis using True l by (simp add: e)
    next
      case False
      then have m: "m = n" by (simp add: m_def)
      have "multiplyUint_word xs y n = r"
        using 3 m r by (simp add: multiplyUint_word_def Let_def m_def)
      moreover have "uval r = uval (take n xs) * unat y mod 18446744073709551616 ^ n"
      proof -
        have "uval r + 18446744073709551616 ^ length r * unat c = uval (take n xs) * unat y"
          using r' unfolding m by simp
        from mod_exp_append [OF this] show ?thesis by (simp only: l m)
      qed
      moreover have "n \<le> length xs" using m by (simp add: m_def)
      ultimately show ?thesis using l m by (simp add: uval_take mod_mult_left_eq)
    qed
  qed
qed

lemma multiplyUint_inner_value:
  "multiplyUint_inner x ys rs c = (low, rest, c') \<Longrightarrow> length ys \<le> length rs \<Longrightarrow>
   length low = length ys \<and> rest = drop (length ys) rs \<and>
   uval low + 18446744073709551616 ^ length ys * unat c' =
     unat x * uval ys + uval (take (length ys) rs) + unat c"
proof (induction x ys rs c arbitrary: low rest c' rule: multiplyUint_inner.induct)
  case (2 x y ys r rs c)
  obtain lo hi where m: "multiplyUint64 x y = (lo, hi)" by fastforce
  obtain c0 t0 where t0: "addUint64_carry lo c 0 = (c0, t0)" by fastforce
  obtain c1 t where t: "addUint64_carry r t0 0 = (c1, t)" by fastforce
  obtain low' rest' c2 where r': "multiplyUint_inner x ys rs (hi + ucast c0 + ucast c1) = (low', rest', c2)"
    by (metis prod_cases3)
  have r: "low = t # low'" "rest = rest'" "c' = c2" using "2.prems" by (simp_all add: m t0 t r')
  show ?case
    using multiply_step2 [OF m t0 t] "2.prems"(2)
      "2.IH" [OF m [symmetric] refl t0 [symmetric] refl refl t [symmetric] refl refl r']
    by (auto simp: r algebra_simps)
qed simp_all

text \<open>
  Each row leaves zeros in the result words past the second operand and the row's carry, so that
  the carry of the next row overwrites a zero.
\<close>

lemma digit_mod:
  fixes x b :: nat
  assumes "x < b"
  shows "(x + b * u) mod (b * p) = x + b * (u mod p)"
  using assms by (simp add: mod_mult2_eq)

lemma mod_row:
  fixes p :: nat
  shows "(x * (y mod p) + r) mod p = (r + x * y) mod p"
  by (metis add.commute mod_add_left_eq mod_mult_right_eq)

lemma multiplyUint_row:
  assumes i: "multiplyUint_inner x (take m ys) rs 0 = (low, rest, c)"
    and m: "m = min (length ys) (length rs)"
    and zero: "uval (drop (length ys) rs) = 0"
    and r: "r = low @ (case rest of [] \<Rightarrow> [] | _ # rest \<Rightarrow> c # rest)"
  shows "length r = length rs"
    "uval r = (uval rs + unat x * uval ys) mod 18446744073709551616 ^ length rs"
    "uval (drop (Suc (length ys)) r) = 0"
proof -
  have ml: "length (take m ys) = m" "m \<le> length rs" by (simp_all add: m)
  note i' = multiplyUint_inner_value [OF i, unfolded ml(1), OF ml(2)]
  have "length r = length rs \<and> uval r = (uval rs + unat x * uval ys) mod 18446744073709551616 ^ length rs \<and>
    uval (drop (Suc (length ys)) r) = 0"
  proof (cases "length rs \<le> length ys")
    case True
    then have m: "m = length rs" by (simp add: m)
    then have low: "r = low" "length low = length rs" using i' by (simp_all add: r)
    have "uval r = (unat x * uval (take m ys) + uval rs) mod 18446744073709551616 ^ length rs"
    proof -
      have "uval low + 18446744073709551616 ^ length low * unat c = unat x * uval (take m ys) + uval rs"
        using i' m by (simp add: low)
      from mod_exp_append [OF this] show ?thesis by (simp only: low)
    qed
    also have "\<dots> = (uval rs + unat x * uval ys) mod 18446744073709551616 ^ length rs"
      unfolding m uval_take [OF True] by (rule mod_row)
    finally show ?thesis using True low by simp
  next
    case False
    then have m: "m = length ys" by (simp add: m)
    obtain z zs where z: "drop (length ys) rs = z # zs" using False by (cases "drop (length ys) rs") auto
    have z0: "uval zs = 0" "z = 0" using zero by (simp_all add: z unsigned_eq_0_iff)
    have re: "r = low @ c # zs" using i' by (simp add: r m z)
    have len: "length (drop (length ys) rs) = Suc (length zs)" by (simp add: z)
    have "uval rs = uval (take m rs)" using uval_take_drop [of rs m] zero m by simp
    then have "uval r = uval rs + unat x * uval ys"
      using i' by (simp add: re uval_append z0 m)
    moreover have "length r = length rs" using i' len False by (simp add: re m)
    ultimately show ?thesis using uval_lt [of r] i' z0 by (simp add: re m)
  qed
  then show "length r = length rs" "uval (drop (Suc (length ys)) r) = 0"
    "uval r = (uval rs + unat x * uval ys) mod 18446744073709551616 ^ length rs" by auto
qed

lemma multiplyUint_outer_value:
  "length xs \<le> length rs \<Longrightarrow> uval (drop (length ys) rs) = 0 \<Longrightarrow>
   length (multiplyUint_outer xs ys rs) = length rs \<and>
   uval (multiplyUint_outer xs ys rs) = (uval rs + uval xs * uval ys) mod 18446744073709551616 ^ length rs"
proof (induction xs arbitrary: rs)
  case Nil
  then show ?case using uval_lt [of rs] by simp
next
  case (Cons x xs)
  define m where "m = min (length ys) (length rs)"
  obtain low rest c where i: "multiplyUint_inner x (take m ys) rs 0 = (low, rest, c)"
    by (metis prod_cases3)
  define r where "r = low @ (case rest of [] \<Rightarrow> [] | _ # rest \<Rightarrow> c # rest)"
  note row = multiplyUint_row [OF i m_def Cons.prems(2) r_def]
  obtain h t where r: "r = h # t" using row(1) Cons.prems(1) by (cases r) auto
  have lt: "length rs = Suc (length t)" using row(1) r by simp
  have IH: "length (multiplyUint_outer xs ys t) = length t"
      "uval (multiplyUint_outer xs ys t) = (uval t + uval xs * uval ys) mod 18446744073709551616 ^ length t"
    using Cons.IH [of t] Cons.prems(1) row(3) lt r by simp_all
  have out: "multiplyUint_outer (x # xs) ys rs = h # multiplyUint_outer xs ys t"
    using i r by (simp add: m_def [symmetric] r_def [symmetric])
  let ?B = "18446744073709551616 :: nat" and ?k = "length rs"
  have "unat h + ?B * ((uval t + uval xs * uval ys) mod ?B ^ length t) =
     (unat h + ?B * (uval t + uval xs * uval ys)) mod (?B * ?B ^ length t)"
    by (rule digit_mod [symmetric]) simp
  also have "\<dots> = (uval r + ?B * (uval xs * uval ys)) mod ?B ^ ?k"
    by (simp only: r uval.simps lt power_Suc distrib_left add.assoc)
  also have "\<dots> = (uval rs + unat x * uval ys + ?B * (uval xs * uval ys)) mod ?B ^ ?k"
    unfolding row(2) by (rule mod_add_left_eq)
  also have "\<dots> = (uval rs + uval (x # xs) * uval ys) mod ?B ^ ?k"
    by (simp only: uval.simps distrib_right add.assoc mult.assoc)
  finally show ?case using IH out lt by simp
qed

lemma multiplyUint_counts_value:
  "length (multiplyUint_counts xs ys n) = n \<and>
   uval (multiplyUint_counts xs ys n) = uval xs * uval ys mod 18446744073709551616 ^ n"
proof -
  let ?a = "getSignificantUint64CountUint xs" and ?b = "getSignificantUint64CountUint ys"
  note a = getSignificantUint64CountUint_spec [of xs] and b = getSignificantUint64CountUint_spec [of ys]
  have one: "uval zs = unat (zs ! 0)" if "getSignificantUint64CountUint zs = 1" for zs
    using getSignificantUint64CountUint_spec [of zs] that by (cases zs) auto
  consider "xs = [] \<or> ys = []" | "xs \<noteq> []" "ys \<noteq> []" "n = 1"
    | "xs \<noteq> []" "ys \<noteq> []" "n \<noteq> 1" "?a = 1" | "xs \<noteq> []" "ys \<noteq> []" "n \<noteq> 1" "?a \<noteq> 1" "?b = 1"
    | "xs \<noteq> []" "ys \<noteq> []" "n \<noteq> 1" "?a \<noteq> 1" "?b \<noteq> 1" by blast
  then show ?thesis
  proof cases
    case 1
    then show ?thesis by (auto simp: multiplyUint_counts_def setZeroUint_def)
  next
    case 2
    then obtain x xs' y ys' where "xs = x # xs'" "ys = y # ys'" by (cases xs; cases ys) auto
    moreover from this have "uval xs * uval ys mod 18446744073709551616 = unat x * unat y mod 18446744073709551616"
      using mod_mult_eq [of "uval xs" 18446744073709551616 "uval ys"] by simp
    ultimately show ?thesis using 2 by (simp add: multiplyUint_counts_def unat_mul64 del: uval.simps) (simp add: unat_mul64)
  next
    case 3
    then show ?thesis using multiplyUint_word_value [of "take ?b ys" "xs ! 0" n] b one [of xs]
      by (simp add: multiplyUint_counts_def Let_def mult.commute)
  next
    case 4
    then show ?thesis using multiplyUint_word_value [of "take ?a xs" "ys ! 0" n] a one [of ys]
      by (simp add: multiplyUint_counts_def Let_def)
  next
    case 5
    let ?m = "min ?a n"
    have e: "multiplyUint_counts xs ys n = multiplyUint_outer (take ?m xs) (take ?b ys) (replicate n 0)"
      using 5 by (simp add: multiplyUint_counts_def Let_def setZeroUint_def)
    have "uval (take ?m xs) * uval ys mod 18446744073709551616 ^ n = uval xs * uval ys mod 18446744073709551616 ^ n"
    proof (cases "?a \<le> n")
      case True
      then show ?thesis using a by (simp add: min_def)
    next
      case False
      then have "n \<le> length xs" "?m = n" using a(1) by simp_all
      then show ?thesis by (simp add: uval_take mod_mult_left_eq)
    qed
    then show ?thesis
      using multiplyUint_outer_value [of "take ?m xs" "replicate n 0" "take ?b ys"] b
      by (simp add: e)
  qed
qed

lemma uval_drop_0: "uval (drop k r) = 0 \<Longrightarrow> uval r = uval (take k r)"
  using uval_take_drop [of r k] by simp

lemma multiplyMany_step:
  assumes "k < length r" "uval (drop k r) = 0"
    and r': "r' = setUint (multiplyUint_word (take k r) x (k + 1)) @ drop (k + 1) r"
  shows "length r' = length r" "uval r' = uval r * unat x" "uval (drop (Suc k) r') = 0"
proof -
  let ?t = "multiplyUint_word (take k r) x (k + 1)"
  have t: "length ?t = k + 1" using multiplyUint_word_value [of "take k r" x "k + 1"] by simp
  have d: "uval (drop (k + 1) r) = 0"
    using assms(1,2) by (simp add: Cons_nth_drop_Suc [symmetric])
  have "uval (take k r) * unat x < 18446744073709551616 ^ k * 18446744073709551616"
    using uval_lt [of "take k r"] assms(1) by (intro mult_strict_mono') simp_all
  then have "uval ?t = uval (take k r) * unat x"
    using multiplyUint_word_value [of "take k r" x "k + 1"] by (simp add: mult.commute)
  then show "length r' = length r" "uval r' = uval r * unat x" "uval (drop (Suc k) r') = 0"
    using assms(1) t d uval_drop_0 [OF assms(2)] by (simp_all add: r' setUint_def uval_append)
qed

lemma setUint_word_init:
  assumes "0 < n"
  shows "length (setUint_word x n) = n" "uval (setUint_word x n) = unat x"
    "uval (drop (Suc 0) (setUint_word x n)) = 0"
  using assms by (simp_all add: setUint_word_def)

lemma multiplyMany_loop:
  assumes f: "f = (\<lambda>i result.
             if i \<noteq> except then
               let temp_mpi = multiplyUint_word (take i result) (ops ! i) (i + 1)
               in setUint temp_mpi @ drop (i + 1) result
             else result)"
  shows "0 < k \<Longrightarrow> k \<le> length ops \<Longrightarrow>
    r = fold f [1..<k] (setUint_word (if except = 0 then 1 else ops ! 0) (length ops)) \<Longrightarrow>
    length r = length ops \<and> uval (drop k r) = 0 \<and>
      uval r = (\<Prod>i\<in>{..<k} - {except}. unat (ops ! i))"
proof (induction k arbitrary: r)
  case (Suc k)
  show ?case
  proof (cases "k = 0")
    case True
    have "{..<Suc 0} - {except} = (if except = 0 then {} else {0})" by auto
    moreover have "0 < length ops" using Suc.prems(2) by linarith
    ultimately show ?thesis using True Suc.prems(3) setUint_word_init [OF \<open>0 < length ops\<close>] by simp
  next
    case False
    define s where "s = fold f [1..<k] (setUint_word (if except = 0 then 1 else ops ! 0) (length ops))"
    have IH: "length s = length ops" "uval (drop k s) = 0"
      "uval s = (\<Prod>i\<in>{..<k} - {except}. unat (ops ! i))"
      using Suc.IH [OF _ _ s_def] Suc.prems(2) False by simp_all
    have r: "r = f k s" using False Suc.prems(3) by (simp add: s_def)
    have k: "k < length s" using IH(1) Suc.prems(2) by simp
    show ?thesis
    proof (cases "k = except")
      case True
      have "{..<Suc k} - {except} = {..<k} - {except}" using True by auto
      moreover have "uval (drop (Suc k) s) = 0"
        using IH(2) k by (simp add: Cons_nth_drop_Suc [symmetric])
      moreover have "r = s" using True by (simp add: r f)
      ultimately show ?thesis using IH by simp
    next
      case neq: False
      have "{..<Suc k} - {except} = insert k ({..<k} - {except})" using neq by auto
      moreover have "r = setUint (multiplyUint_word (take k s) (ops ! k) (k + 1)) @ drop (k + 1) s"
        using neq by (simp add: r f)
      note step = multiplyMany_step [OF k IH(2) this]
      ultimately show ?thesis
        using IH step by (simp add: mult.commute)
    qed
  qed
qed simp

lemma multiplyManyUint64Except_value:
  assumes "ops \<noteq> []"
  shows "length (multiplyManyUint64Except ops e) = length ops"
    "uval (multiplyManyUint64Except ops e) = (\<Prod>i\<in>{..<length ops} - {e}. unat (ops ! i))"
proof -
  have "length (multiplyManyUint64Except ops e) = length ops \<and>
    uval (multiplyManyUint64Except ops e) = (\<Prod>i\<in>{..<length ops} - {e}. unat (ops ! i))"
  proof (cases "length ops = 1 \<and> e = 0")
    case True
    have "{..<length ops} - {e} = {}" using True by auto
    then have "(\<Prod>i\<in>{..<length ops} - {e}. unat (ops ! i)) = 1" by (simp only: prod.empty)
    then show ?thesis using True setUint_word_init [of 1 1] by (simp add: multiplyManyUint64Except_def)
  next
    case False
    then have "multiplyManyUint64Except ops e = fold (\<lambda>i result.
             if i \<noteq> e then
               let temp_mpi = multiplyUint_word (take i result) (ops ! i) (i + 1)
               in setUint temp_mpi @ drop (i + 1) result
             else result) [1..<length ops] (setUint_word (if e = 0 then 1 else ops ! 0) (length ops))"
      unfolding multiplyManyUint64Except_def Let_def by (rule if_not_P)
    moreover have "0 < length ops" using assms by simp
    ultimately show ?thesis using multiplyMany_loop [OF refl _ order_refl] by blast
  qed
  then show "length (multiplyManyUint64Except ops e) = length ops"
    "uval (multiplyManyUint64Except ops e) = (\<Prod>i\<in>{..<length ops} - {e}. unat (ops ! i))" by auto
qed

text \<open>Without an exception every factor is multiplied in: the exception is past the end.\<close>

lemma multiplyManyUint64_eq:
  assumes "ops \<noteq> []"
  shows "multiplyManyUint64 ops = multiplyManyUint64Except ops (length ops)"
proof -
  have "fold (\<lambda>i result. let temp_mpi = multiplyUint_word (take i result) (ops ! i) (i + 1)
             in setUint temp_mpi @ drop (i + 1) result) [1..<length ops] r =
    fold (\<lambda>i result. if i \<noteq> length ops then
               let temp_mpi = multiplyUint_word (take i result) (ops ! i) (i + 1)
               in setUint temp_mpi @ drop (i + 1) result
             else result) [1..<length ops] r" for r
    by (rule fold_cong) auto
  then show ?thesis using assms by (simp add: multiplyManyUint64_def multiplyManyUint64Except_def)
qed

lemma multiplyManyUint64_value:
  "uval (multiplyManyUint64 ops) = (if ops = [] then 0 else \<Prod>i<length ops. unat (ops ! i))"
  "length (multiplyManyUint64 ops) = length ops"
proof -
  have "{..<length ops} - {length ops} = {..<length ops}" by auto
  then show "uval (multiplyManyUint64 ops) = (if ops = [] then 0 else \<Prod>i<length ops. unat (ops ! i))"
    "length (multiplyManyUint64 ops) = length ops"
    using multiplyManyUint64Except_value [of ops "length ops"] multiplyManyUint64_eq [of ops]
    by (cases "ops = []"; simp add: multiplyManyUint64_def)+
qed

lemma mod_acc:
  fixes p :: nat
  shows "(xy + (a + s) mod p) mod p = (a + (xy + s)) mod p"
  by (simp add: mod_add_right_eq ac_simps)

lemma multiplyAccumulateUint64_value:
  "length xs = length ys \<Longrightarrow> length acc = 2 \<Longrightarrow>
   length (multiplyAccumulateUint64 xs ys acc) = 2 \<and>
   uval (multiplyAccumulateUint64 xs ys acc) =
     (uval acc + (\<Sum>(x, y)\<leftarrow>zip xs ys. unat x * unat y)) mod 340282366920938463463374607431768211456"
proof (induction xs ys rule: list_induct2)
  case Nil
  then show ?case using uval_lt [of acc] by simp
next
  case (Cons x xs y ys)
  obtain lo hi where m: "multiplyUint64 x y = (lo, hi)" by fastforce
  let ?a = "multiplyAccumulateUint64 xs ys acc"
  obtain a0 a1 where a: "?a = [a0, a1]" using Cons.IH [OF Cons.prems] by (auto simp: numeral_2_eq_2 length_Suc_conv)
  obtain c r where r: "addUint128 [lo, hi] [a0, a1] = (c, r)" by fastforce
  note r' = addUint128_value [OF r]
  have "uval r = (uval r + 340282366920938463463374607431768211456 * unat c) mod 340282366920938463463374607431768211456"
    using uval_lt [of r] r'(2) by simp
  also have "\<dots> = (unat x * unat y + uval ?a) mod 340282366920938463463374607431768211456"
    using r'(1) multiplyUint64_value [OF m] by (simp add: a)
  also have "\<dots> = (uval acc + (unat x * unat y + (\<Sum>(x, y)\<leftarrow>zip xs ys. unat x * unat y))) mod
      340282366920938463463374607431768211456"
    unfolding conjunct2 [OF Cons.IH [OF Cons.prems]] by (rule mod_acc)
  finally show ?case using r'(2) by (simp add: m a r)
qed

section \<open>Properties\<close>

text \<open>
  Addition and subtraction of arrays with operands and result of any lengths, an incoming carry
  or borrow of at most one: the written words with the outgoing carry are exactly the sum of the
  operands, cut to the result's length, and the carry; the written words and the outgoing borrow
  are exactly the difference. The outgoing carry and borrow are at most one again.
\<close>

theorem addUint_subUint_exact:
  assumes "unat c \<le> 1" "addUint_counts xs ys c n = (c', r)" "subUint_counts xs ys c n = (b, d)"
  shows "length r = n \<and> unat c' \<le> 1 \<and>
      uval r + 18446744073709551616 ^ n * unat c' = uval (take n xs) + uval (take n ys) + unat c \<and>
    length d = n \<and> unat b \<le> 1 \<and>
      uval d + uval (take n ys) + unat c = uval (take n xs) + 18446744073709551616 ^ n * unat b"
  using addUint_counts_value [OF assms(2,1)] subUint_counts_value [OF assms(3,1)] by blast

theorem addUint_subUint_exact_witness:
  "length (snd (addUint_counts [18446744073709551615] [1] 0 2)) = 2"
  using addUint_subUint_exact [of 0 "[18446744073709551615]" "[1]" 2 _ _
      "fst (subUint_counts [18446744073709551615] [1] 0 2)"
      "snd (subUint_counts [18446744073709551615] [1] 0 2)"]
  by (metis prod.collapse unsigned_0 zero_le_one)

text \<open>
  Shifting an array of \<open>n\<close> words by any amount up to \<open>64 n\<close> bits multiplies its number by the
  power of two modulo \<open>2^(64 n)\<close>, or divides it; the special functions for two and three words
  write the same words.
\<close>

theorem shiftUint_correct:
  assumes "s \<le> 64 * length xs"
  shows "uval (leftShiftUint xs s) = uval xs * 2 ^ s mod 18446744073709551616 ^ length xs \<and>
    uval (rightShiftUint xs s) = uval xs div 2 ^ s \<and>
    (t < 128 \<longrightarrow> leftShiftUint128 [a, b] t = leftShiftUint [a, b] t \<and>
      rightShiftUint128 [a, b] t = rightShiftUint [a, b] t) \<and>
    (u < 192 \<longrightarrow> leftShiftUint192 [a, b, c] u = leftShiftUint [a, b, c] u \<and>
      rightShiftUint192 [a, b, c] u = rightShiftUint [a, b, c] u)"
  using leftShiftUint_value [OF assms] rightShiftUint_value [OF assms] shift128_eq shift192_eq by blast

theorem shiftUint_correct_witness:
  "uval (leftShiftUint [3, 5] 70) = uval [3, 5] * 2 ^ 70 mod 18446744073709551616 ^ 2 \<and>
   leftShiftUint192 [1, 2, 3] 150 = leftShiftUint [1, 2, 3] 150"
proof -
  have "70 \<le> 64 * length [3 :: u64, 5]" by simp
  from shiftUint_correct [OF this, where u = 150 and a = 1 and b = 2 and c = 3] show ?thesis by (simp add: numeral_2_eq_2)
qed

text \<open>
  Multiplication of two arrays, with leading zeros, one-word operands and truncation: the result
  has the requested length and is the product of the two numbers modulo \<open>2^(64 n)\<close>.
\<close>

theorem multiplyUint_correct:
  "length (multiplyUint_counts xs ys n) = n \<and>
   uval (multiplyUint_counts xs ys n) = uval xs * uval ys mod 18446744073709551616 ^ n"
  by (rule multiplyUint_counts_value)

text \<open>
  The product of many words, and of all words but one, is exact: it always fits the array that
  has one word per factor.
\<close>

theorem multiplyMany_correct:
  assumes "ops \<noteq> []"
  shows "uval (multiplyManyUint64 ops) = (\<Prod>i<length ops. unat (ops ! i)) \<and>
    uval (multiplyManyUint64Except ops e) = (\<Prod>i\<in>{..<length ops} - {e}. unat (ops ! i))"
  using assms by (simp add: multiplyManyUint64_value multiplyManyUint64Except_value)

theorem multiplyMany_correct_witness:
  "uval (multiplyManyUint64 [6, 7]) = (\<Prod>i<length [6 :: u64, 7]. unat ([6 :: u64, 7] ! i))"
  using multiplyMany_correct [of "[6, 7]" 0] by blast

end
