(* ===== verification/Uint_Divide.thy ===== *)
theory Uint_Divide
  imports Uint_Arith "HOL-Library.Monad_Syntax"
begin

unbundle bit_operations_syntax

text \<open>
  Multi-word division: \<open>divideUintInplace\<close>, \<open>divide_uint128_uint64_inplace_generic\<close> and
  \<open>divideUint192Inplace\<close> of \<open>uintarith.cpp\<close>, \<open>divideUint\<close> and \<open>divideUint128Inplace\<close> of
  \<open>uintarith.h\<close>, and the decimal printer of \<open>uintcore.cpp\<close>.

  The three bitwise divisions share their loop, which shifts numerator and quotient with functions
  of their own; these functions are parameters of \<open>divide_loop\<close>. The loop is a partial function:
  \<open>None\<close> stands for not returning, and the theorems show that it returns.
\<close>

section \<open>The bitwise division loop\<close>

text \<open>
  The state is \<open>(numerator, quotient, numerator_bits, remaining_shifts)\<close>; \<open>dbl\<close> shifts the quotient
  by one bit and \<open>shl\<close> shifts an array.
\<close>

partial_function (option) divide_loop ::
  "(u64 list \<Rightarrow> u64 list) \<Rightarrow> (u64 list \<Rightarrow> nat \<Rightarrow> u64 list) \<Rightarrow> u64 list \<Rightarrow> int \<Rightarrow>
   u64 list \<times> u64 list \<times> int \<times> int \<Rightarrow> (u64 list \<times> u64 list \<times> int \<times> int) option" where
  "divide_loop dbl shl shifted_denominator denominator_bits st =
     (let (numerator, quotient, numerator_bits, remaining_shifts) = st in
      if numerator_bits \<noteq> denominator_bits then Some st
      else let (borrow, difference) = subUint numerator shifted_denominator in
        if borrow \<noteq> 0 \<and> remaining_shifts = 0 then Some st
        else let (difference, quotient, remaining_shifts) =
                   (if borrow \<noteq> 0
                    then (snd (addUint difference numerator), dbl quotient, remaining_shifts - 1)
                    else (difference, quotient, remaining_shifts));
                 quotient = quotient[0 := quotient ! 0 OR 1];
                 numerator_bits = getSignificantBitCountUint difference;
                 numerator_shift = denominator_bits - numerator_bits;
                 numerator_shift = (if numerator_shift > remaining_shifts then remaining_shifts
                                    else numerator_shift);
                 (numerator, numerator_bits) =
                   (if numerator_bits > 0
                    then (shl difference (nat numerator_shift), numerator_bits + numerator_shift)
                    else (setZeroUint (length numerator), numerator_bits));
                 quotient = shl quotient (nat numerator_shift);
                 remaining_shifts = remaining_shifts - numerator_shift
             in divide_loop dbl shl shifted_denominator denominator_bits
                  (numerator, quotient, numerator_bits, remaining_shifts))"

declare divide_loop.simps [code]

text \<open>The result is the pair of the numerator, which has become the remainder, and the quotient.\<close>

type_synonym division = "(u64 list \<times> u64 list) res option"

definition divideUintInplace :: "u64 list \<Rightarrow> u64 list \<Rightarrow> division" where
  "divideUintInplace numerator denominator =
     (let uint64_count = length numerator in
      if uint64_count = 0 then Some (Inr (numerator, []))
      else
        let quotient = setZeroUint uint64_count;
            numerator_bits = getSignificantBitCountUint numerator;
            denominator_bits = getSignificantBitCountUint denominator
        in if numerator_bits < denominator_bits then Some (Inr (numerator, quotient))
        else (case rbind (divideRoundUp int32_t numerator_bits bitsPerUint64) (safe_cast uint64_t int32_t) of
          Inl e \<Rightarrow> Some (Inl e)
        | Inr count \<Rightarrow>
          let uint64_count = nat count in
          if uint64_count = 1 then
            let q = numerator ! 0 div denominator ! 0
            in Some (Inr (numerator[0 := numerator ! 0 - q * denominator ! 0], quotient[0 := q]))
          else
            let denominator_shift = numerator_bits - denominator_bits;
                shifted_denominator = leftShiftUint (take uint64_count denominator) (nat denominator_shift);
                denominator_bits = denominator_bits + denominator_shift
            in (case divide_loop (\<lambda>q. leftShiftUint q 1) leftShiftUint shifted_denominator denominator_bits
                   (take uint64_count numerator, take uint64_count quotient, numerator_bits, denominator_shift) of
              None \<Rightarrow> None
            | Some (low_numerator, low_quotient, numerator_bits, remaining_shifts) \<Rightarrow>
                let low_numerator = (if numerator_bits > 0
                      then rightShiftUint low_numerator (nat denominator_shift) else low_numerator)
                in Some (Inr (low_numerator @ drop uint64_count numerator,
                              low_quotient @ drop uint64_count quotient)))))"

definition divideUint :: "u64 list \<Rightarrow> u64 list \<Rightarrow> division" where
  "divideUint numerator denominator =
     (let remainder = setUint numerator in divideUintInplace remainder denominator)"

definition divideUint128Inplace :: "u64 list \<Rightarrow> u64 \<Rightarrow> u64 list \<times> u64 list" where
  "divideUint128Inplace numerator denominator =
     (let n = push_bit 64 (ucast (numerator ! 1) :: u128) OR ucast (numerator ! 0);
          q = n div ucast denominator;
          n = n - q * ucast denominator
      in ([ucast n, 0], [ucast q, ucast (drop_bit 64 q)]))"

definition divide_uint128_uint64_inplace_generic :: "u64 list \<Rightarrow> u64 \<Rightarrow> (u64 list \<times> u64 list) option" where
  "divide_uint128_uint64_inplace_generic numerator denominator =
     (let quotient = [0, 0];
          numerator_bits = getSignificantBitCountUint numerator;
          denominator_bits = getSignificantBitCount denominator
      in if numerator_bits < denominator_bits then Some (numerator, quotient)
      else
        let denominator_shift = numerator_bits - denominator_bits;
            shifted_denominator = leftShiftUint128 [denominator, 0] (nat denominator_shift);
            denominator_bits = denominator_bits + denominator_shift
        in (case divide_loop (\<lambda>q. [push_bit 1 (q ! 0), push_bit 1 (q ! 1) OR drop_bit (64 - 1) (q ! 0)])
                   leftShiftUint128 shifted_denominator denominator_bits
                   (numerator, quotient, numerator_bits, denominator_shift) of
          None \<Rightarrow> None
        | Some (numerator, quotient, numerator_bits, remaining_shifts) \<Rightarrow>
            Some (if numerator_bits > 0 then rightShiftUint128 numerator (nat denominator_shift)
                  else numerator, quotient)))"

text \<open>
  On two significant words the code shifts vectors of two words as if they had three; the model
  then reads past the end of a list, which is left unspecified, and no theorem speaks about it.
\<close>

definition divideUint192Inplace :: "u64 list \<Rightarrow> u64 \<Rightarrow> division" where
  "divideUint192Inplace numerator denominator =
     (let uint64_count = (3 :: nat);
          quotient = [0, 0, 0];
          numerator_bits = getSignificantBitCountUint numerator;
          denominator_bits = getSignificantBitCount denominator
      in if numerator_bits < denominator_bits then Some (Inr (numerator, quotient))
      else (case rbind (divideRoundUp int32_t numerator_bits bitsPerUint64) (safe_cast uint64_t int32_t) of
        Inl e \<Rightarrow> Some (Inl e)
      | Inr count \<Rightarrow>
        let uint64_count = nat count in
        if uint64_count = 1 then
          let q = numerator ! 0 div denominator
          in Some (Inr (numerator[0 := numerator ! 0 - q * denominator], quotient[0 := q]))
        else
          let shifted_denominator = (replicate uint64_count 0)[0 := denominator];
              denominator_shift = numerator_bits - denominator_bits;
              shifted_denominator = leftShiftUint192 shifted_denominator (nat denominator_shift);
              denominator_bits = denominator_bits + denominator_shift
          in (case divide_loop (\<lambda>q. leftShiftUint192 q 1) leftShiftUint192 shifted_denominator
                   denominator_bits (numerator, quotient, numerator_bits, denominator_shift) of
            None \<Rightarrow> None
          | Some (numerator, quotient, numerator_bits, remaining_shifts) \<Rightarrow>
              Some (Inr (if numerator_bits > 0 then rightShiftUint192 numerator (nat denominator_shift)
                         else numerator, quotient)))))"

section \<open>Decimal strings\<close>

text \<open>
  \<open>uintToDecString\<close> divides by ten until nothing is left. The digits come lowest first and are
  reversed at the end; the quotient becomes the next numerator.
\<close>

partial_function (option) uintToDecString_loop :: "u64 list \<Rightarrow> u64 list \<Rightarrow> string \<Rightarrow> string res option" where
  "uintToDecString_loop remainder base output =
     (if isZeroUint remainder then Some (Inr output)
      else Option.bind (divideUintInplace remainder base) (\<lambda>r.
        case r of Inl e \<Rightarrow> Some (Inl e)
        | Inr (remainder, next) \<Rightarrow>
            let digit = char_of (unat (remainder ! 0 + 48))
            in uintToDecString_loop next base (output @ [digit])))"

declare uintToDecString_loop.simps [code]

definition uintToDecString :: "u64 list \<Rightarrow> string res option" where
  "uintToDecString value =
     (if length value = 0 then Some (Inr ''0'')
      else let base = setUint_word 10 (length value);
               remainder = setUint value
           in map_option (\<lambda>r. rbind r (\<lambda>output.
                let output = rev output in if output = [] then Inr ''0'' else Inr output))
              (uintToDecString_loop remainder base []))"

section \<open>The division loop returns quotient and remainder\<close>

lemma uval_or_1:
  assumes "q \<noteq> []" "even (uval q)"
  shows "uval (q[0 := q ! 0 OR 1]) = uval q + 1"
proof -
  obtain x xs where q: "q = x # xs" using assms(1) by (cases q) auto
  have "even (unat x)" using assms(2) by (simp add: q)
  then have "x AND 1 = 0"
    using drop_and_1_iff [of 0 x] bit_unsigned_iff [of x 0, where 'a=nat] by (simp add: bit_0)
  then have "unat (x OR 1) = unat x + 1" using unat_or_disjoint [of x 1] by simp
  then show ?thesis by (simp add: q)
qed

lemma quotient_bound:
  fixes n0 :: nat
  assumes "n0 * 2 ^ k = q * (d * 2 ^ s) + n" "k \<le> s" "0 < d"
  shows "q \<le> n0"
proof -
  have "q * d * 2 ^ s \<le> n0 * 2 ^ k" unfolding assms(1) by (simp add: mult.assoc)
  also have "\<dots> \<le> n0 * 2 ^ s" using assms(2) by simp
  finally have "q * d \<le> n0" by simp
  then show ?thesis using assms(3) by (metis One_nat_def Suc_leI le_trans mult_le_mono2 nat_mult_1_right)
qed

text \<open>
  What the loop asks of its two shift functions, on arrays of \<open>w\<close> words. Together with the shifted
  denominator this is the interface of the loop.
\<close>

locale division_shifts =
  fixes w :: nat
    and dbl :: "u64 list \<Rightarrow> u64 list"
    and shl :: "u64 list \<Rightarrow> nat \<Rightarrow> u64 list"
  assumes w_pos: "0 < w"
    and length_shl: "length xs = w \<Longrightarrow> s < 64 * w \<Longrightarrow> length (shl xs s) = w"
    and uval_shl: "length xs = w \<Longrightarrow> s < 64 * w \<Longrightarrow>
        uval (shl xs s) = uval xs * 2 ^ s mod 18446744073709551616 ^ w"
    and length_dbl: "length xs = w \<Longrightarrow> length (dbl xs) = w"
    and uval_dbl: "length xs = w \<Longrightarrow> uval (dbl xs) = uval xs * 2 mod 18446744073709551616 ^ w"
begin

text \<open>
  The invariant: numerator and quotient are those of the division of \<open>n0\<close> shifted by the shifts
  done so far; the quotient has room for the next bit; the loop stops only when no shift is left.
\<close>

definition div_inv :: "nat \<Rightarrow> nat \<Rightarrow> nat \<Rightarrow> nat \<Rightarrow> u64 list \<times> u64 list \<times> int \<times> int \<Rightarrow> bool" where
  "div_inv n0 d s0 db = (\<lambda>(n, q, nb, r). length n = w \<and> length q = w \<and> 0 \<le> r \<and> r \<le> int s0 \<and>
     n0 * 2 ^ (s0 - nat r) = uval q * (d * 2 ^ s0) + uval n \<and> nb = int (nbits (uval n)) \<and>
     uval n < 2 ^ db \<and> (d * 2 ^ s0 \<le> uval n \<longrightarrow> even (uval q)) \<and> (nb \<noteq> int db \<longrightarrow> r = 0))"

lemma subtract_step:
  assumes inv: "div_inv n0 d s0 db (n, q, int db, r)"
    and D: "0 < d" "nbits (d * 2 ^ s0) = db" "db \<le> 64 * w" "n0 < 2 ^ db"
    and sd: "length sd = w" "uval sd = d * 2 ^ s0"
    and sub: "subUint n sd = (b, diff)"
    and go: "\<not> (b \<noteq> 0 \<and> r = 0)"
    and step: "(diff', q1, r1) = (if b \<noteq> 0 then (snd (addUint diff n), dbl q, r - 1) else (diff, q, r))"
    and q2: "q2 = q1[0 := q1 ! 0 OR 1]"
  shows "length diff' = w" "length q2 = w" "0 \<le> r1" "r1 \<le> r" "uval diff' < d * 2 ^ s0"
    "n0 * 2 ^ (s0 - nat r1) = uval q2 * (d * 2 ^ s0) + uval diff'"
    "nbits (uval diff') < db \<or> r1 < r"
proof -
  let ?S = "d * 2 ^ s0"
  have n: "length n = w" "length q = w" "0 \<le> r" "r \<le> int s0"
    "n0 * 2 ^ (s0 - nat r) = uval q * ?S + uval n" "db = nbits (uval n)" "uval n < 2 ^ db"
    "?S \<le> uval n \<Longrightarrow> even (uval q)"
    using inv unfolding div_inv_def by auto
  have db: "0 < db" using D(1,2) by auto
  then have "0 < uval n" using n(6) by simp
  then have S: "2 ^ (db - 1) \<le> ?S" "?S < 2 ^ db" "2 ^ (db - 1) \<le> uval n"
    using exp_nbits_le [of ?S] less_exp_nbits [of ?S] exp_nbits_le [of "uval n"] D(1,2) n(6) by auto
  then have two: "(2::nat) ^ db = 2 * 2 ^ (db - 1)" by (cases db) simp_all
  have B: "(2::nat) ^ db \<le> 18446744073709551616 ^ w"
    using D(3) by (simp add: exp64_power)
  have ne: "n \<noteq> []" using n(1) w_pos by auto
  note sub' = subUint_value [OF sub _ ne, unfolded n(1) sd, OF refl]
  have "length diff' = w \<and> length q2 = w \<and> 0 \<le> r1 \<and> r1 \<le> r \<and> uval diff' < ?S \<and>
    n0 * 2 ^ (s0 - nat r1) = uval q2 * ?S + uval diff' \<and> (nbits (uval diff') < db \<or> r1 < r)"
  proof (cases "b = 0")
    case True
    then have e: "diff' = diff" "q1 = q" "r1 = r" using step by simp_all
    have d: "uval diff + ?S = uval n" using sub' True by simp
    then have "even (uval q)" using n(8) by linarith
    moreover have "q \<noteq> []" using n(2) w_pos by auto
    ultimately have "uval q2 = uval q + 1" using uval_or_1 by (simp add: q2 e)
    moreover have "uval diff < 2 ^ (db - 1)" using d S n(7) two by linarith
    then have "nbits (uval diff) < db" using nbits_le_iff [of "uval diff" "db - 1"] db by linarith
    ultimately show ?thesis
      using d sub' n \<open>uval diff < 2 ^ (db - 1)\<close> S by (simp add: e q2 algebra_simps)
  next
    case False
    then have b: "unat b = 1" using sub' by (cases "unat b") (auto simp: unsigned_eq_0_iff)
    obtain c u where u: "addUint diff n = (c, u)" by fastforce
    have e: "diff' = u" "q1 = dbl q" "r1 = r - 1" using step False by (simp_all add: u)
    have d: "uval diff + ?S = uval n + 18446744073709551616 ^ w" using sub' b by simp
    have dne: "diff \<noteq> []" "length diff = w" using sub' w_pos by auto
    note u' = addUint_value [OF u _ dne(1), unfolded dne(2) n(1), OF refl]
    have lt: "uval diff < 18446744073709551616 ^ w" using uval_lt [of diff] dne by simp
    then have small: "uval n < ?S" using d by linarith
    have "uval u + 18446744073709551616 ^ w * unat c + ?S = 2 * uval n + 18446744073709551616 ^ w"
      using u' d by linarith
    moreover have "unat c = 1"
    proof -
      have "unat c \<noteq> 0"
      proof
        assume "unat c = 0"
        moreover have "uval u < 18446744073709551616 ^ w" using uval_lt [of u] u' by simp
        ultimately have "2 * uval n < ?S"
          using \<open>uval u + 18446744073709551616 ^ w * unat c + ?S = _\<close> by simp
        then show False using S two by linarith
      qed
      then show ?thesis using u' by linarith
    qed
    ultimately have uv: "uval u + ?S = 2 * uval n" by simp
    have r: "0 < r" using go False n(3) by simp
    then have k: "s0 - nat (r - 1) = Suc (s0 - nat r)" using n(3,4) by linarith
    have N: "n0 * 2 ^ (s0 - nat (r - 1)) = 2 * uval q * ?S + 2 * uval n"
      using n(5) unfolding k by simp
    have "2 * uval q \<le> n0" by (rule quotient_bound [OF N]) (use D(1) in simp_all)
    then have dq: "uval (dbl q) = 2 * uval q"
      using uval_dbl [OF n(2)] D(4) B by (simp add: mult.commute)
    have "length (dbl q) = w" "dbl q \<noteq> []" using length_dbl [OF n(2)] w_pos by auto
    then have "uval q2 = 2 * uval q + 1" "length q2 = w"
      using uval_or_1 [of "dbl q"] dq by (simp_all add: q2 e)
    then show ?thesis using N uv small r u' by (simp add: e algebra_simps)
  qed
  then show "length diff' = w" "length q2 = w" "0 \<le> r1" "r1 \<le> r" "uval diff' < d * 2 ^ s0"
    "n0 * 2 ^ (s0 - nat r1) = uval q2 * (d * 2 ^ s0) + uval diff'"
    "nbits (uval diff') < db \<or> r1 < r" by auto
qed

lemma align_step:
  assumes D: "0 < d" "nbits (d * 2 ^ s0) = db" "db \<le> 64 * w" "n0 < 2 ^ db"
    and f: "length diff = w" "length q2 = w" "0 \<le> r1" "r1 \<le> int s0" "uval diff < d * 2 ^ s0"
      "n0 * 2 ^ (s0 - nat r1) = uval q2 * (d * 2 ^ s0) + uval diff"
    and nb: "nb = int (nbits (uval diff))"
    and t: "t = (if int db - nb > r1 then r1 else int db - nb)"
    and n': "(n', nb') = (if nb > 0 then (shl diff (nat t), nb + t) else (setZeroUint w, nb))"
  shows "div_inv n0 d s0 db (n', shl q2 (nat t), nb', r1 - t)"
    "nb' = int db \<Longrightarrow> nbits (uval diff) < db \<Longrightarrow> r1 - t < r1" "r1 - t \<le> r1"
proof -
  let ?S = "d * 2 ^ s0"
  have "?S < 2 ^ db" using less_exp_nbits [of ?S] D(2) by simp
  then have "nbits (uval diff) \<le> db" using f(5) by (simp add: nbits_le_iff)
  then have t0: "0 \<le> t" "t \<le> r1" "t \<le> int db - nb" using t nb f(3) by auto
  have "2 ^ s0 \<le> ?S" using D(1) by simp
  then have s0: "s0 < db" using D(2) nbits_less_iff [of s0 ?S] by simp
  then have tw: "nat t < 64 * w" using t0 f(4) D(3) by linarith
  have B: "(2::nat) ^ db \<le> 18446744073709551616 ^ w" using D(3) by (simp add: exp64_power)
  have k: "s0 - nat (r1 - t) = (s0 - nat r1) + nat t" using t0 f(3,4) by linarith
  have N: "n0 * 2 ^ (s0 - nat (r1 - t)) = uval q2 * 2 ^ nat t * ?S + uval diff * 2 ^ nat t"
    using arg_cong [OF f(6), of "\<lambda>x. x * 2 ^ nat t"] unfolding k by (simp add: power_add algebra_simps)
  have "uval q2 * 2 ^ nat t \<le> n0" by (rule quotient_bound [OF N]) (use D(1) in simp_all)
  then have q': "uval (shl q2 (nat t)) = uval q2 * 2 ^ nat t" "length (shl q2 (nat t)) = w"
    using uval_shl [OF f(2) tw] length_shl [OF f(2) tw] D(4) B by simp_all
  have nn: "length n' = w \<and> uval n' = uval diff * 2 ^ nat t \<and> nb' = int (nbits (uval n')) \<and> uval n' < 2 ^ db"
  proof (cases "nb > 0")
    case True
    then have pos: "0 < uval diff" using nb by simp
    have "nbits (uval diff * 2 ^ nat t) = nbits (uval diff) + nat t" by (rule nbits_mult_exp [OF pos])
    then have le: "nbits (uval diff * 2 ^ nat t) \<le> db" using t0 nb by linarith
    then have "uval diff * 2 ^ nat t < 2 ^ db" by (simp add: nbits_le_iff)
    then show ?thesis
      using True n' uval_shl [OF f(1) tw] length_shl [OF f(1) tw] B nb t0
        \<open>nbits (uval diff * 2 ^ nat t) = _\<close> by simp
  next
    case False
    then have "uval diff = 0" using nb by simp
    then show ?thesis using False n' nb by (simp add: setZeroUint_def)
  qed
  have even: "even (uval q2 * 2 ^ nat t)" if "?S \<le> uval diff * 2 ^ nat t"
    using that f(5) by (cases "nat t = 0") auto
  have stop: "r1 - t = 0" if "nb' \<noteq> int db"
  proof (cases "nb > 0")
    case True
    then show ?thesis using that n' t by (auto split: if_splits)
  next
    case False
    then show ?thesis using t nb s0 f(4) by simp
  qed
  show "div_inv n0 d s0 db (n', shl q2 (nat t), nb', r1 - t)"
    using N q' nn even stop t0 f(3,4) by (auto simp: div_inv_def)
  show "r1 - t \<le> r1" using t0 by simp
  show "r1 - t < r1" if "nb' = int db" "nbits (uval diff) < db"
  proof -
    have "0 < t" using that n' t0 nb s0 by (auto split: if_splits)
    then show ?thesis by simp
  qed
qed

lemma final_state:
  assumes inv: "div_inv n0 d s0 db (n, q, nb, r)"
    and D: "0 < d" "nbits (d * 2 ^ s0) = db"
    and stop: "nb \<noteq> int db \<or> r = 0 \<and> uval n < d * 2 ^ s0"
  shows "length n = w \<and> length q = w \<and> uval q = n0 div d \<and> uval n = n0 mod d * 2 ^ s0 \<and>
    (0 < nb \<longleftrightarrow> 0 < uval n)"
proof -
  let ?S = "d * 2 ^ s0"
  have n: "length n = w" "length q = w"
    "n0 * 2 ^ (s0 - nat r) = uval q * ?S + uval n" "nb = int (nbits (uval n))" "uval n < 2 ^ db"
    "nb \<noteq> int db \<Longrightarrow> r = 0"
    using inv by (simp_all add: div_inv_def)
  have "2 ^ (db - 1) \<le> ?S" using exp_nbits_le [of ?S] D by simp
  moreover have "uval n < 2 ^ (db - 1)" if "nb \<noteq> int db"
  proof -
    have "nbits (uval n) \<le> db - 1" using that n(4,5) nbits_le_iff [of "uval n" db] by linarith
    then show ?thesis by (simp add: nbits_le_iff)
  qed
  ultimately have lt: "uval n < ?S" and r: "r = 0" using stop n(6) by auto
  have N: "n0 * 2 ^ s0 = uval q * d * 2 ^ s0 + uval n" using n(3) r by (simp add: mult.assoc)
  define m where "m = uval n div 2 ^ s0"
  have "2 ^ s0 dvd uval q * d * 2 ^ s0 + uval n" unfolding N [symmetric] by simp
  then have "2 ^ s0 dvd uval n" by (simp add: dvd_add_right_iff)
  then have m: "uval n = m * 2 ^ s0" by (simp add: m_def)
  then have "n0 * 2 ^ s0 = (uval q * d + m) * 2 ^ s0" using N by (simp add: distrib_right)
  then have n0: "n0 = uval q * d + m" by simp
  have "m < d" using lt m by simp
  then have "uval q = n0 div d" "m = n0 mod d" using n0 by simp_all
  then show ?thesis using n m by simp
qed

theorem divide_loop_correct:
  assumes D: "0 < d" "nbits (d * 2 ^ s0) = db" "db \<le> 64 * w" "n0 < 2 ^ db"
    and sd: "length sd = w" "uval sd = d * 2 ^ s0"
  shows "div_inv n0 d s0 db (n, q, nb, r) \<Longrightarrow>
    \<exists>n' q' nb' r'. divide_loop dbl shl sd (int db) (n, q, nb, r) = Some (n', q', nb', r') \<and>
      length n' = w \<and> length q' = w \<and> uval q' = n0 div d \<and> uval n' = n0 mod d * 2 ^ s0 \<and>
      (0 < nb' \<longleftrightarrow> 0 < uval n')"
proof (induction "nat r" arbitrary: n q nb r rule: less_induct)
  case less
  note inv = less.prems
  show ?case
  proof (cases "nb = int db")
    case False
    then show ?thesis using final_state [OF inv D(1,2)] by (subst divide_loop.simps) auto
  next
    case True
    obtain b diff where sub: "subUint n sd = (b, diff)" by fastforce
    show ?thesis
    proof (cases "b \<noteq> 0 \<and> r = 0")
      case stop: True
      have "length n = w" "n \<noteq> []" using inv w_pos by (auto simp: div_inv_def)
      note sub' = subUint_value [OF sub _ this(2), unfolded this(1) sd, OF refl]
      have "uval diff < 18446744073709551616 ^ w" using uval_lt [of diff] sub' by simp
      moreover have "unat b = 1" using sub' stop by (cases "unat b") (auto simp: unsigned_eq_0_iff)
      ultimately have "uval n < d * 2 ^ s0" using sub' by simp
      then show ?thesis using final_state [OF inv D(1,2)] stop sub True
        by (subst divide_loop.simps) auto
    next
      case go: False
      obtain diff' q1 r1 where st: "(diff', q1, r1) =
          (if b \<noteq> 0 then (snd (addUint diff n), dbl q, r - 1) else (diff, q, r))"
        by (metis prod_cases3)
      define q2 where "q2 = q1[0 := q1 ! 0 OR 1]"
      define nb1 where "nb1 = int (nbits (uval diff'))"
      define t where "t = (if int db - nb1 > r1 then r1 else int db - nb1)"
      obtain n' nb' where n': "(n', nb') = (if nb1 > 0 then (shl diff' (nat t), nb1 + t) else (setZeroUint w, nb1))"
        by (metis surj_pair)
      note s1 = subtract_step [OF inv [unfolded True] D sd sub go st q2_def]
      have rs: "r \<le> int s0" "length n = w" using inv by (simp_all add: div_inv_def)
      have r1s: "r1 \<le> int s0" using s1(4) rs by simp
      note s2 = align_step [OF D s1(1-3) r1s s1(5,6) nb1_def t_def n']
      have bits: "getSignificantBitCountUint diff' = nb1"
        using getSignificantBitCountUint_nbits [of diff'] s1(1) w_pos by (auto simp: nb1_def)
      have eq: "divide_loop dbl shl sd (int db) (n, q, nb, r) =
        divide_loop dbl shl sd (int db) (n', shl q2 (nat t), nb', r1 - t)"
      proof -
        have go': "(b \<noteq> 0 \<and> r = 0) = False" using go by simp
        show ?thesis
          unfolding True
          by (subst divide_loop.simps)
            (simp only: Let_def prod.case sub simp_thms go' if_False st [symmetric] q2_def [symmetric]
              bits t_def [symmetric] rs(2) n' [symmetric])
      qed
      show ?thesis
      proof (cases "nb' = int db")
        case nb': True
        have "r1 - t < r" using s1(4,7) s2(2) [OF nb'] s2(3) by linarith
        moreover have "0 \<le> r1 - t" using s2(1) by (simp add: div_inv_def)
        ultimately have "nat (r1 - t) < nat r" by linarith
        from less.hyps [OF this s2(1)] show ?thesis unfolding eq .
      next
        case False
        then show ?thesis unfolding eq using final_state [OF s2(1) D(1,2)]
          by (subst divide_loop.simps) auto
      qed
    qed
  qed
qed

end

section \<open>The three sets of shift functions\<close>

lemma leftShiftUint_mod:
  "length xs = w \<Longrightarrow> s < 64 * w \<Longrightarrow> uval (leftShiftUint xs s) = uval xs * 2 ^ s mod 18446744073709551616 ^ w"
  using leftShiftUint_value [of s xs] by simp

interpretation array_shifts: division_shifts "Suc v" "\<lambda>q. leftShiftUint q 1" leftShiftUint
  for v
proof unfold_locales
  fix xs :: "u64 list" and s :: nat
  assume l: "length xs = Suc v"
  show "length (leftShiftUint xs s) = Suc v" "length (leftShiftUint xs 1) = Suc v" using l by simp_all
  show "uval (leftShiftUint xs 1) = uval xs * 2 mod 18446744073709551616 ^ Suc v"
    using leftShiftUint_mod [OF l, of 1] by (simp del: power_Suc)
  show "uval (leftShiftUint xs s) = uval xs * 2 ^ s mod 18446744073709551616 ^ Suc v" if "s < 64 * Suc v"
    using leftShiftUint_mod [OF l that] .
qed simp

lemma length_2_cases: "length xs = 2 \<Longrightarrow> \<exists>a b. xs = [a, b]"
  by (auto simp: numeral_2_eq_2 length_Suc_conv)

lemma length_3_cases: "length xs = 3 \<Longrightarrow> \<exists>a b c. xs = [a, b, c]"
  by (auto simp: numeral_3_eq_3 length_Suc_conv)

lemma double_128: "[push_bit 1 a, push_bit 1 b OR drop_bit (64 - 1) a] = leftShiftUint [a, b] 1"
  by (simp add: leftShiftUint_def upt_2)

interpretation shifts_128: division_shifts 2
  "\<lambda>q. [push_bit 1 (q ! 0), push_bit 1 (q ! 1) OR drop_bit (64 - 1) (q ! 0)]" leftShiftUint128
proof unfold_locales
  fix xs :: "u64 list" and s :: nat
  assume l: "length xs = 2"
  then obtain a b where xs: "xs = [a, b]" using length_2_cases by blast
  show "length [push_bit 1 (xs ! 0), push_bit 1 (xs ! 1) OR drop_bit (64 - 1) (xs ! 0)] = 2" by simp
  show "uval [push_bit 1 (xs ! 0), push_bit 1 (xs ! 1) OR drop_bit (64 - 1) (xs ! 0)] =
      uval xs * 2 mod 18446744073709551616 ^ 2"
    using leftShiftUint_mod [OF l, of 1] double_128 [of a b] by (simp add: xs)
  assume s: "s < 64 * 2"
  have e: "leftShiftUint128 xs s = leftShiftUint xs s" using shift128_eq s by (simp add: xs)
  show "length (leftShiftUint128 xs s) = 2"
    "uval (leftShiftUint128 xs s) = uval xs * 2 ^ s mod 18446744073709551616 ^ 2"
    unfolding e using leftShiftUint_mod [OF l s] l by simp_all
qed simp

lemma leftShiftUint192_mod:
  assumes "length xs = 3" "s < 192"
  shows "leftShiftUint192 xs s = leftShiftUint xs s"
  using length_3_cases [OF assms(1)] shift192_eq [OF assms(2)] by auto

interpretation shifts_192: division_shifts 3 "\<lambda>q. leftShiftUint192 q 1" leftShiftUint192
  by unfold_locales (use leftShiftUint_mod [where s = 1] in \<open>auto simp: leftShiftUint192_mod leftShiftUint_mod\<close>)

section \<open>Division of arrays\<close>

lemma significant_words:
  assumes "0 \<le> nb" "nb + 63 < 2 ^ 31"
  shows "rbind (divideRoundUp int32_t nb bitsPerUint64) (safe_cast uint64_t int32_t) = Inr ((nb + 63) div 64)"
proof -
  have "divideRoundUp int32_t nb 64 = Inr ((nb + (64 - 1)) div 64)"
    by (rule divideRoundUp_value)
      (use assms in \<open>auto simp: wf_ctype_def in_type_def type_min_def type_max_def\<close>)
  moreover have r: "0 \<le> (nb + 63) div 64" "(nb + 63) div 64 < 2 ^ 31" using assms by linarith+
  then have "fitsIn uint64_t int32_t ((nb + 63) div 64)"
    by (subst fitsIn_signed_source) (auto simp: wf_ctype_def in_type_def type_min_def type_max_def)
  moreover have "static_cast uint64_t ((nb + 63) div 64) = (nb + 63) div 64"
    using r by (intro static_cast_id) (auto simp: in_type_def type_min_def type_max_def)
  ultimately show ?thesis by (simp add: safe_cast_def)
qed

lemma div_word_quot_rem:
  fixes a b :: u64
  shows "unat (a div b) = unat a div unat b" "unat (a - a div b * b) = unat a mod unat b"
  by (simp_all add: unat_div unat_mod minus_div_mult_eq_mod)

lemma uval_take_bits:
  assumes "uval xs < 2 ^ (64 * w)" "w \<le> length xs"
  shows "uval (take w xs) = uval xs" "uval (drop w xs) = 0"
  using assms by (simp_all add: uval_take uval_drop exp64_power)

theorem divideUintInplace_spec:
  assumes len: "length den = length num" "64 * length num + 63 < 2 ^ 31" and D: "0 < uval den"
  shows "\<exists>r q. divideUintInplace num den = Some (Inr (r, q)) \<and> length r = length num \<and>
    length q = length num \<and> uval q = uval num div uval den \<and> uval r = uval num mod uval den"
proof -
  let ?N = "uval num" and ?D = "uval den"
  let ?nb = "nbits ?N" and ?db = "nbits ?D"
  have ne: "num \<noteq> []" "den \<noteq> []" using len D by (cases den; auto)+
  note bits = getSignificantBitCountUint_nbits [OF ne(1)] getSignificantBitCountUint_nbits [OF ne(2)]
  show ?thesis
  proof (cases "?nb < ?db")
    case True
    then have "?N < ?D" using nbits_mono [of ?D ?N] by linarith
    then show ?thesis using ne True bits by (auto simp: divideUintInplace_def setZeroUint_def Let_def)
  next
    case ge: False
    define w where "w = nat ((int ?nb + 63) div 64)"
    have nb: "?nb \<le> 64 * length num"
      using uval_lt [of num] by (simp add: nbits_le_iff exp64_power)
    have db: "0 < ?db" using D by simp
    have w: "?nb \<le> 64 * w" "0 < w" "w \<le> length num" using nb db ge unfolding w_def by linarith+
    have small: "?N < 2 ^ (64 * w)" "?D < 2 ^ (64 * w)"
      using w(1) ge nbits_le_iff [of ?N "64 * w"] nbits_le_iff [of ?D "64 * w"] by linarith+
    note tn = uval_take_bits [OF small(1) w(3)]
    note td = uval_take_bits [OF small(2) w(3) [folded len(1)]]
    have words: "rbind (divideRoundUp int32_t (int ?nb) bitsPerUint64) (safe_cast uint64_t int32_t) = Inr (int w)"
      using significant_words [of "int ?nb"] nb len(2) by (simp add: w_def)
    show ?thesis
    proof (cases "w = 1")
      case True
      obtain x xs y ys where e: "num = x # xs" "den = y # ys" using ne by (cases num; cases den) auto
      have z: "uval xs = 0" "uval ys = 0" using tn(2) td(2) by (simp_all add: True e)
      show ?thesis
        using ne ge bits words True len(1)
        by (simp add: divideUintInplace_def Let_def e z div_word_quot_rem setZeroUint_def)
    next
      case False
      define s0 where "s0 = ?nb - ?db"
      define sd where "sd = leftShiftUint (take w den) s0"
      have s0: "?D * 2 ^ s0 < 2 ^ (64 * w)" "nbits (?D * 2 ^ s0) = ?nb"
        using nbits_mult_exp [OF D, of s0] ge nbits_le_iff [of "?D * 2 ^ s0" "64 * w"] w(1)
        by (simp_all add: s0_def)
      have s0w: "s0 < 64 * w" using db ge w(1) unfolding s0_def by linarith
      have sd: "length sd = w" "uval sd = ?D * 2 ^ s0"
        using w len(1) td(1) s0(1) s0w by (simp_all add: sd_def leftShiftUint_mod exp64_power)
      obtain v where v: "w = Suc v" using w(2) by (cases w) auto
      have inv: "array_shifts.div_inv v ?N ?D s0 ?nb (take w num, take w (replicate (length num) 0), int ?nb, int s0)"
        using w(2,3) tn(1) less_exp_nbits [of ?N] by (simp add: array_shifts.div_inv_def v)
      obtain r q nb' r' where loop: "divide_loop (\<lambda>q. leftShiftUint q 1) leftShiftUint sd (int ?nb)
            (take w num, take w (replicate (length num) 0), int ?nb, int s0) = Some (r, q, nb', r')"
        and res: "length r = w" "length q = w" "uval q = ?N div ?D" "uval r = ?N mod ?D * 2 ^ s0"
          "0 < nb' \<longleftrightarrow> 0 < uval r"
        using array_shifts.divide_loop_correct [OF D s0(2) _ less_exp_nbits _ _ inv, of sd] w sd by (auto simp: v)
      have rs: "uval (if nb' > 0 then rightShiftUint r s0 else r) = ?N mod ?D"
        using rightShiftUint_value [of s0 r] res s0w by simp
      have rl: "length (if nb' > 0 then rightShiftUint r s0 else r) = w" using res(1) by simp
      have "divideUintInplace num den = Some (Inr ((if nb' > 0 then rightShiftUint r s0 else r) @ drop w num,
          q @ drop w (replicate (length num) 0)))"
      proof -
        have c: "(length num = 0) = False" "(int ?nb < int ?db) = False" "(w = 1) = False"
          "int ?nb - int ?db = int s0" "int ?db + int s0 = int ?nb"
          using ne ge False by (simp_all add: s0_def)
        show ?thesis
          by (simp only: divideUintInplace_def Let_def setZeroUint_def bits words c nat_int if_False
              sum.case option.case prod.case sd_def [symmetric] loop)
      qed
      then show ?thesis using rs rl res(2,3) tn(2) w(3) by (simp add: uval_append)
    qed
  qed
qed

section \<open>Division of two and three words\<close>

lemma unat_ucast_64_128: "unat (ucast (x :: u64) :: u128) = unat x"
  by (simp add: unsigned_ucast_eq take_bit_nat_eq_self_iff less_trans [OF unat_lt64])

lemma unat_join128:
  "unat (push_bit 64 (ucast (h :: u64) :: u128) OR ucast (l :: u64)) = unat l + 18446744073709551616 * unat h"
proof -
  have "push_bit 64 (ucast h :: u128) AND ucast l = 0"
    by (rule bit_eqI) (auto simp: bit_simps dest: bit_imp_le_length)
  moreover have "take_bit 128 (unat h * 18446744073709551616) = unat h * 18446744073709551616"
    by (rule take_bit_nat_eq_self) (use unat_lt64 [of h] in \<open>simp del: unat_lt64\<close>)
  ultimately show ?thesis
    by (simp add: unat_or_disjoint unsigned_push_bit_eq unat_ucast_64_128 push_bit_eq_mult [where 'a=nat])
qed

lemma uval_split128: "uval [ucast (n :: u128), ucast (drop_bit 64 n)] = unat n"
proof -
  have "unat n div 18446744073709551616 < 18446744073709551616"
    using unsigned_less [of n, where 'a=nat] by (simp add: less_mult_imp_div_less)
  then have "unat (ucast (drop_bit 64 n) :: u64) = unat n div 18446744073709551616"
    by (simp only: unsigned_ucast_eq unat_drop_bit_eq drop_bit_eq_div [where 'a=nat] take_bit_eq_mod [where 'a=nat]) simp
  moreover have "unat (ucast n :: u64) = unat n mod 18446744073709551616"
    by (simp only: unsigned_ucast_eq take_bit_eq_mod [where 'a=nat]) simp
  ultimately show ?thesis by simp
qed

lemma divideUint128Inplace_spec:
  assumes "d \<noteq> 0" "divideUint128Inplace [n0, n1] d = (r, q)"
  shows "length r = 2" "length q = 2" "uval q = uval [n0, n1] div unat d" "uval r = uval [n0, n1] mod unat d"
proof -
  define n where "n = push_bit 64 (ucast n1 :: u128) OR ucast n0"
  define e where "e = (ucast d :: u128)"
  have n: "unat n = uval [n0, n1]" by (simp add: n_def unat_join128)
  have e: "unat e = unat d" by (simp add: e_def unat_ucast_64_128)
  have "unat d > 0" using assms(1) by (simp add: unat_gt_0)
  then have m: "unat (n mod e) < 18446744073709551616"
    using e less_trans [OF mod_less_divisor unat_lt64] by (simp add: unat_mod)
  have res: "r = [ucast (n mod e), 0]" "q = [ucast (n div e), ucast (drop_bit 64 (n div e))]"
    using assms(2) by (simp_all add: divideUint128Inplace_def n_def e_def Let_def minus_div_mult_eq_mod)
  have "unat (ucast (n mod e) :: u64) = unat (n mod e)"
    using m by (simp only: unsigned_ucast_eq take_bit_eq_mod [where 'a=nat]) simp
  then show "length r = 2" "length q = 2" "uval q = uval [n0, n1] div unat d" "uval r = uval [n0, n1] mod unat d"
    using n e unfolding res uval_split128 by (simp_all add: unat_div unat_mod)
qed

lemma word_bits: "getSignificantBitCount d = int (nbits (unat d))"
  by (rule getSignificantBitCount_nbits)

lemma divide_generic_spec:
  assumes len: "length num = 2" and D: "d \<noteq> 0"
  shows "\<exists>r q. divide_uint128_uint64_inplace_generic num d = Some (r, q) \<and> length r = 2 \<and> length q = 2 \<and>
    uval q = uval num div unat d \<and> uval r = uval num mod unat d"
proof -
  let ?N = "uval num" and ?nb = "nbits (uval num)" and ?db = "nbits (unat d)"
  have ne: "num \<noteq> []" using len by auto
  have Dp: "0 < unat d" using D by (simp add: unat_gt_0)
  note bits = getSignificantBitCountUint_nbits [OF ne] word_bits [of d]
  show ?thesis
  proof (cases "?nb < ?db")
    case True
    then have "?N < unat d" using nbits_mono [of "unat d" ?N] by linarith
    then show ?thesis using len True bits by (auto simp: divide_uint128_uint64_inplace_generic_def Let_def)
  next
    case False
    define s0 where "s0 = ?nb - ?db"
    define sd where "sd = leftShiftUint128 [d, 0] s0"
    have nb: "?nb \<le> 64 * 2" using uval_lt [of num] len nbits_le_iff [of ?N 128] by simp
    have db: "0 < ?db" using Dp by simp
    have "s0 < 64 * 2" using False nb db unfolding s0_def by linarith
    then have s0: "nbits (unat d * 2 ^ s0) = ?nb" "unat d * 2 ^ s0 < 2 ^ (64 * 2)" "s0 < 64 * 2"
      using nbits_mult_exp [OF Dp, of s0] False nbits_le_iff [of "unat d * 2 ^ s0" 128] nb
      by (auto simp: s0_def)
    have sd: "length sd = 2" "uval sd = unat d * 2 ^ s0"
      using shifts_128.length_shl [of "[d, 0]" s0] shifts_128.uval_shl [of "[d, 0]" s0] s0 by (simp_all add: sd_def)
    have inv: "shifts_128.div_inv ?N (unat d) s0 ?nb (num, [0, 0], int ?nb, int s0)"
      using len less_exp_nbits [of ?N] by (simp add: shifts_128.div_inv_def)
    from shifts_128.divide_loop_correct [OF Dp s0(1) nb less_exp_nbits sd inv]
    obtain r q nb' r' where loop: "divide_loop (\<lambda>q. [push_bit 1 (q ! 0), push_bit 1 (q ! 1) OR drop_bit (64 - 1) (q ! 0)])
          leftShiftUint128 sd (int ?nb) (num, [0, 0], int ?nb, int s0) = Some (r, q, nb', r')"
      and res: "length r = 2" "length q = 2" "uval q = ?N div unat d" "uval r = ?N mod unat d * 2 ^ s0"
        "0 < nb' \<longleftrightarrow> 0 < uval r"
      by (elim exE conjE) (rule that)
    have c: "(int ?nb < int ?db) = False" "int ?nb - int ?db = int s0" "int ?db + int s0 = int ?nb"
      using False by (simp_all add: s0_def)
    have run: "divide_uint128_uint64_inplace_generic num d =
        Some (if nb' > 0 then rightShiftUint128 r s0 else r, q)"
      by (simp only: divide_uint128_uint64_inplace_generic_def Let_def bits c nat_int if_False
          option.case prod.case sd_def [symmetric] loop)
    obtain a b where ab: "r = [a, b]" using length_2_cases [OF res(1)] by blast
    have "uval (if nb' > 0 then rightShiftUint128 r s0 else r) = ?N mod unat d"
      "length (if nb' > 0 then rightShiftUint128 r s0 else r) = 2"
      using rightShiftUint_value [of s0 r] shift128_eq(2) [of s0 a b] res s0(3) by (simp_all add: ab)
    then show ?thesis using run res(2,3) by blast
  qed
qed

lemma divide_generic_eq:
  assumes "d \<noteq> 0"
  shows "divide_uint128_uint64_inplace_generic [n0, n1] d = Some (divideUint128Inplace [n0, n1] d)"
proof -
  obtain r q where g: "divide_uint128_uint64_inplace_generic [n0, n1] d = Some (r, q)" "length r = 2" "length q = 2"
    "uval q = uval [n0, n1] div unat d" "uval r = uval [n0, n1] mod unat d"
    using divide_generic_spec [of "[n0, n1]" d] assms by auto
  obtain r' q' where e: "divideUint128Inplace [n0, n1] d = (r', q')" by fastforce
  note e' = divideUint128Inplace_spec [OF assms e]
  have "r = r'" "q = q'" using g e' by (auto intro!: uval_inj)
  then show ?thesis using g e by simp
qed

lemma divideUint192Inplace_spec:
  assumes len: "length num = 3" and D: "d \<noteq> 0" and big: "2 ^ 128 \<le> uval num \<or> uval num < 2 ^ 64"
  shows "\<exists>r q. divideUint192Inplace num d = Some (Inr (r, q)) \<and> length r = 3 \<and> length q = 3 \<and>
    uval q = uval num div unat d \<and> uval r = uval num mod unat d"
proof -
  let ?N = "uval num" and ?nb = "nbits (uval num)" and ?db = "nbits (unat d)"
  have ne: "num \<noteq> []" using len by auto
  have Dp: "0 < unat d" using D by (simp add: unat_gt_0)
  note bits = getSignificantBitCountUint_nbits [OF ne] word_bits [of d]
  show ?thesis
  proof (cases "?nb < ?db")
    case True
    then have "?N < unat d" using nbits_mono [of "unat d" ?N] by linarith
    then show ?thesis using len True bits by (auto simp: divideUint192Inplace_def Let_def)
  next
    case False
    define s0 where "s0 = ?nb - ?db"
    define w where "w = nat ((int ?nb + 63) div 64)"
    have nb: "?nb \<le> 64 * 3" using uval_lt [of num] len nbits_le_iff [of ?N 192] by simp
    have db: "0 < ?db" using Dp by simp
    have words: "rbind (divideRoundUp int32_t (int ?nb) bitsPerUint64) (safe_cast uint64_t int32_t) = Inr (int w)"
      using significant_words [of "int ?nb"] nb by (simp add: w_def)
    have c: "(int ?nb < int ?db) = False" "int ?nb - int ?db = int s0" "int ?db + int s0 = int ?nb"
      using False by (simp_all add: s0_def)
    obtain a b e where n: "num = [a, b, e]" using length_3_cases [OF len] by blast
    show ?thesis
    proof (cases "?N < 2 ^ 64")
      case True
      then have "?nb \<le> 64" by (simp add: nbits_le_iff)
      then have "w = 1" using False db unfolding w_def by linarith
      moreover have "uval [b, e] = 0" using True by (simp add: n)
      ultimately show ?thesis using False bits words
        by (simp add: divideUint192Inplace_def Let_def n div_word_quot_rem)
    next
      case big': False
      then have "128 < ?nb" using big by (simp add: nbits_less_iff)
      then have w: "w = 3" using nb unfolding w_def by linarith
      define sd where "sd = leftShiftUint192 [d, 0, 0] s0"
      have "s0 < 64 * 3" using False nb db unfolding s0_def by linarith
      then have s0: "nbits (unat d * 2 ^ s0) = ?nb" "unat d * 2 ^ s0 < 2 ^ (64 * 3)" "s0 < 64 * 3"
        using nbits_mult_exp [OF Dp, of s0] False nbits_le_iff [of "unat d * 2 ^ s0" 192] nb
        by (auto simp: s0_def)
      have sd: "length sd = 3" "uval sd = unat d * 2 ^ s0"
        using shifts_192.length_shl [of "[d, 0, 0]" s0] shifts_192.uval_shl [of "[d, 0, 0]" s0] s0 by (simp_all add: sd_def)
      have inv: "shifts_192.div_inv ?N (unat d) s0 ?nb (num, [0, 0, 0], int ?nb, int s0)"
        using len less_exp_nbits [of ?N] by (simp add: shifts_192.div_inv_def)
      from shifts_192.divide_loop_correct [OF Dp s0(1) nb less_exp_nbits sd inv]
      obtain r q nb' r' where loop: "divide_loop (\<lambda>q. leftShiftUint192 q 1)
            leftShiftUint192 sd (int ?nb) (num, [0, 0, 0], int ?nb, int s0) = Some (r, q, nb', r')"
        and res: "length r = 3" "length q = 3" "uval q = ?N div unat d" "uval r = ?N mod unat d * 2 ^ s0"
          "0 < nb' \<longleftrightarrow> 0 < uval r"
        by (elim exE conjE) (rule that)
      have z: "(replicate 3 0)[0 := d] = [d, 0, 0]" by (simp add: numeral_3_eq_3)
      have c1: "((3::nat) = 1) = False" by simp
      have run: "divideUint192Inplace num d =
          Some (Inr (if nb' > 0 then rightShiftUint192 r s0 else r, q))"
        by (simp only: divideUint192Inplace_def Let_def bits words c c1 w nat_int if_False z
            sum.case option.case prod.case sd_def [symmetric] loop)
      obtain x y u where xy: "r = [x, y, u]" using length_3_cases [OF res(1)] by blast
      have "uval (if nb' > 0 then rightShiftUint192 r s0 else r) = ?N mod unat d"
        "length (if nb' > 0 then rightShiftUint192 r s0 else r) = 3"
        using rightShiftUint_value [of s0 r] shift192_eq(2) [of s0 x y u] res s0(3) by (simp_all add: xy)
      then show ?thesis using run res(2,3) by blast
    qed
  qed
qed

section \<open>Decimal strings\<close>

text \<open>The number a string of decimal digits stands for.\<close>

definition decimal :: "string \<Rightarrow> nat" where
  "decimal s = foldl (\<lambda>n c. 10 * n + (of_char c - 48)) 0 s"

lemma decimal_snoc: "decimal (s @ [c]) = 10 * decimal s + (of_char c - 48)"
  by (simp add: decimal_def)

fun decimal_rev :: "string \<Rightarrow> nat" where
  "decimal_rev [] = 0"
| "decimal_rev (c # s) = (of_char c - 48) + 10 * decimal_rev s"

lemma decimal_rev: "decimal (rev s) = decimal_rev s"
  by (induction s) (simp_all add: decimal_snoc, simp add: decimal_def)

lemma decimal_rev_append: "decimal_rev (s @ t) = decimal_rev s + 10 ^ length s * decimal_rev t"
  by (induction s) (simp_all add: algebra_simps)

definition digits :: "string \<Rightarrow> bool" where
  "digits s \<longleftrightarrow> (\<forall>c\<in>set s. (48 :: nat) \<le> of_char c \<and> of_char c \<le> (57 :: nat))"

lemma digit_char:
  assumes "0 < length xs" "uval xs < 10"
  shows "of_char (char_of (unat (xs ! 0 + 48)) :: char) = uval xs + (48 :: nat)"
proof -
  obtain x ys where xs: "xs = x # ys" using assms(1) by (cases xs) auto
  have "uval ys = 0" using assms(2) by (simp add: xs)
  then show ?thesis using assms(2) by (simp add: xs unat_add64 take_bit_eq_mod)
qed

lemma uintToDecString_loop_spec:
  assumes base: "base = setUint_word 10 n" "0 < n" "64 * n + 63 < 2 ^ 31"
  shows "length xs = n \<Longrightarrow> \<exists>ds. uintToDecString_loop xs base out = Some (Inr (out @ ds)) \<and>
    decimal_rev ds = uval xs \<and> digits ds \<and> (ds \<noteq> [] \<longrightarrow> of_char (last ds) \<noteq> (48 :: nat)) \<and> (ds = [] \<longleftrightarrow> uval xs = 0)"
proof (induction "uval xs" arbitrary: xs out rule: less_induct)
  case less
  show ?case
  proof (cases "uval xs = 0")
    case True
    then show ?thesis by (subst uintToDecString_loop.simps) (simp add: isZeroUint_iff digits_def)
  next
    case False
    have b: "length base = length xs" "uval base = 10" using base less.prems by (simp_all add: uval_setUint_word)
    obtain r q where d: "divideUintInplace xs base = Some (Inr (r, q))" "length r = n" "length q = n"
      "uval q = uval xs div 10" "uval r = uval xs mod 10"
    proof -
      have "64 * length xs + 63 < 2 ^ 31" "0 < uval base" using base(3) less.prems b(2) by simp_all
      from divideUintInplace_spec [OF b(1) this] show ?thesis unfolding b(2) less.prems by (elim exE conjE) (rule that)
    qed
    define c where "c = (char_of (unat (r ! 0 + 48)) :: char)"
    have c: "of_char c = uval xs mod 10 + (48 :: nat)"
      unfolding c_def using digit_char [of r] d(2,5) base(2) by simp
    have run: "uintToDecString_loop xs base out = uintToDecString_loop q base (out @ [c])"
      using False by (subst uintToDecString_loop.simps) (simp add: isZeroUint_iff d(1) c_def)
    have "uval q < uval xs" using False d(4) by simp
    from less.hyps [OF this d(3), of "out @ [c]"] obtain ds where ds:
      "uintToDecString_loop q base (out @ [c]) = Some (Inr ((out @ [c]) @ ds))" "decimal_rev ds = uval q"
      "digits ds" "ds \<noteq> [] \<longrightarrow> of_char (last ds) \<noteq> (48 :: nat)" "ds = [] \<longleftrightarrow> uval q = 0"
      by (elim exE conjE) (rule that)
    have "decimal_rev (c # ds) = uval xs" using ds(2) d(4) by (simp add: c)
    moreover have "digits (c # ds)" using ds(3) by (auto simp: digits_def c)
    moreover have "of_char (last (c # ds)) \<noteq> (48 :: nat)"
      using ds(4,5) d(4) False by (auto simp: c)
    ultimately show ?thesis using run ds(1) False by (intro exI [of _ "c # ds"]) simp
  qed
qed

lemma uintToDecString_spec:
  assumes "64 * length xs + 63 < 2 ^ 31"
  shows "\<exists>s. uintToDecString xs = Some (Inr s) \<and> decimal s = uval xs \<and> digits s \<and>
    (of_char (hd s) = (48 :: nat) \<longrightarrow> s = ''0'')"
proof (cases "uval xs = 0")
  case True
  have "isZeroUint xs" using True by (simp add: isZeroUint_iff)
  then have "uintToDecString xs = Some (Inr ''0'')"
    by (simp add: uintToDecString_def setUint_def) (subst uintToDecString_loop.simps, simp)
  then show ?thesis using True by (simp add: decimal_def digits_def)
next
  case False
  then have "0 < length xs" by (cases xs) auto
  from uintToDecString_loop_spec [OF refl this assms refl, of "[]"] obtain ds where ds:
    "uintToDecString_loop xs (setUint_word 10 (length xs)) [] = Some (Inr ds)" "decimal_rev ds = uval xs"
    "digits ds" "ds \<noteq> []" "of_char (last ds) \<noteq> (48 :: nat)" using False by auto
  have "uintToDecString xs = Some (Inr (rev ds))"
    using ds \<open>0 < length xs\<close> by (simp add: uintToDecString_def setUint_def)
  moreover have "digits (rev ds)" using ds(3) by (simp add: digits_def)
  moreover have "of_char (hd (rev ds)) \<noteq> (48 :: nat)" using ds(4,5) by (simp add: hd_rev)
  ultimately show ?thesis using ds(2) decimal_rev [of ds] by auto
qed

section \<open>Properties\<close>

text \<open>
  C40. Long division returns and is right: for arrays of the same length whose bit count fits an
  \<open>int\<close> and a divisor that is not zero, \<open>divideUintInplace\<close> ends without an exception, with the
  quotient in one array and the remainder in the other, both at full length.
\<close>

theorem divideUintInplace_correct:
  assumes "length den = length num" "64 * length num + 63 < 2 ^ 31" "0 < uval den"
  shows "\<exists>r q. divideUintInplace num den = Some (Inr (r, q)) \<and> length r = length num \<and>
    length q = length num \<and> uval q = uval num div uval den \<and> uval r = uval num mod uval den"
  using assms by (rule divideUintInplace_spec)

theorem divideUintInplace_correct_witness:
  "\<exists>r q. divideUintInplace [7, 9, 1] [3, 2, 0] = Some (Inr (r, q)) \<and> length r = length [7 :: u64, 9, 1] \<and>
    length q = length [7 :: u64, 9, 1] \<and> uval q = uval [7, 9, 1] div uval [3, 2, 0] \<and>
    uval r = uval [7, 9, 1] mod uval [3, 2, 0]"
  by (rule divideUintInplace_correct) simp_all

text \<open>
  The two divisions of 128 bits by one word agree: the bitwise algorithm returns exactly the
  remainder and quotient words that the division on the compiler's 128-bit integers gives.
\<close>

theorem divide128_equivalent:
  assumes "d \<noteq> 0"
  shows "divide_uint128_uint64_inplace_generic [n0, n1] d = Some (divideUint128Inplace [n0, n1] d)"
  using assms by (rule divide_generic_eq)

theorem divide128_equivalent_witness:
  "divide_uint128_uint64_inplace_generic [5, 17] 3 = Some (divideUint128Inplace [5, 17] 3)"
  by (rule divide128_equivalent) simp

text \<open>
  The decimal printer returns the decimal numeral of the number in the array: a string of digits
  whose value is that number, without a leading zero unless it is the string \<open>0\<close>.
\<close>

theorem uintToDecString_correct:
  assumes "64 * length xs + 63 < 2 ^ 31"
  shows "\<exists>s. uintToDecString xs = Some (Inr s) \<and> decimal s = uval xs \<and> digits s \<and>
    (of_char (hd s) = (48 :: nat) \<longrightarrow> s = ''0'')"
  using assms by (rule uintToDecString_spec)

theorem uintToDecString_correct_witness:
  "\<exists>s. uintToDecString [0, 1] = Some (Inr s) \<and> decimal s = 18446744073709551616"
  using uintToDecString_correct [of "[0, 1]"] by auto

end
