(* ===== verification/Seal_Modulus.thy ===== *)
theory Seal_Modulus
  imports Uint_Divide
begin

unbundle bit_operations_syntax

text \<open>
  The class \<open>Modulus\<close> of \<open>heu/library/algorithms/seal_gpu/modulus.h\<close> with its accessors and
  comparisons, the security levels and the table of the standard parameters
  (\<open>utils/hestdparams.h\<close>). The constructor, which tests primality, follows in \<open>Num_Th\<close>.
\<close>

section \<open>The class\<close>

record Modulus =
  mod_value :: u64
  mod_const_ratio :: "u64 list"
  mod_uint64_count :: nat
  mod_bit_count :: int
  mod_is_prime :: bool

definition bitCount :: "Modulus \<Rightarrow> int" where "bitCount m = mod_bit_count m"
definition uint64Count :: "Modulus \<Rightarrow> nat" where "uint64Count m = mod_uint64_count m"
definition modulus_value :: "Modulus \<Rightarrow> u64" where "modulus_value m = mod_value m"
definition constRatio :: "Modulus \<Rightarrow> u64 list" where "constRatio m = mod_const_ratio m"
definition modulus_isZero :: "Modulus \<Rightarrow> bool" where "modulus_isZero m = (mod_value m = 0)"
definition modulus_isPrime :: "Modulus \<Rightarrow> bool" where "modulus_isPrime m = mod_is_prime m"

text \<open>The comparisons look at the values only.\<close>

definition modulus_eq :: "Modulus \<Rightarrow> Modulus \<Rightarrow> bool" where
  "modulus_eq m compare = (mod_value m = mod_value compare)"

definition modulus_neq :: "Modulus \<Rightarrow> Modulus \<Rightarrow> bool" where
  "modulus_neq m compare = (\<not> modulus_eq m compare)"

definition modulus_less :: "Modulus \<Rightarrow> Modulus \<Rightarrow> bool" where
  "modulus_less m compare = (mod_value m < mod_value compare)"

definition modulus_less_eq :: "Modulus \<Rightarrow> Modulus \<Rightarrow> bool" where
  "modulus_less_eq m compare = (mod_value m \<le> mod_value compare)"

definition modulus_greater :: "Modulus \<Rightarrow> Modulus \<Rightarrow> bool" where
  "modulus_greater m compare = (mod_value m > mod_value compare)"

definition modulus_greater_eq :: "Modulus \<Rightarrow> Modulus \<Rightarrow> bool" where
  "modulus_greater_eq m compare = (mod_value m \<ge> mod_value compare)"

text \<open>
  What the class keeps: the value is zero or has two to 61 bits, and the ratio is the quotient and
  the remainder of \<open>2 ^ 128\<close> by it. \<open>has_ratio\<close> is the part the reductions need; they work up to 63 bits.
\<close>

definition has_ratio :: "Modulus \<Rightarrow> bool" where
  "has_ratio m \<longleftrightarrow> 0 < unat (mod_value m) \<and> unat (mod_value m) \<le> 9223372036854775808 \<and>
     (\<exists>c0 c1 c2. mod_const_ratio m = [c0, c1, c2] \<and>
        uval [c0, c1] = 340282366920938463463374607431768211456 div unat (mod_value m) \<and>
        unat c2 = 340282366920938463463374607431768211456 mod unat (mod_value m))"

definition wf_modulus :: "Modulus \<Rightarrow> bool" where
  "wf_modulus m \<longleftrightarrow>
     1 < unat (mod_value m) \<and> unat (mod_value m) < 2305843009213693952 \<and> has_ratio m \<and>
     mod_bit_count m = int (nbits (unat (mod_value m))) \<and> mod_uint64_count m = 1"

section \<open>Security levels\<close>

datatype SecurityLevel = none | tc128 | tc192 | tc256

definition level_bits :: "SecurityLevel \<Rightarrow> int" where
  "level_bits s = (case s of none \<Rightarrow> 0 | tc128 \<Rightarrow> 128 | tc192 \<Rightarrow> 192 | tc256 \<Rightarrow> 256)"

text \<open>The enumeration has an underlying integer; its order is the order of the integers.\<close>

instantiation SecurityLevel :: linorder
begin

definition less_eq_SecurityLevel :: "SecurityLevel \<Rightarrow> SecurityLevel \<Rightarrow> bool" where
  "less_eq_SecurityLevel s t = (level_bits s \<le> level_bits t)"

definition less_SecurityLevel :: "SecurityLevel \<Rightarrow> SecurityLevel \<Rightarrow> bool" where
  "less_SecurityLevel s t = (level_bits s < level_bits t)"

instance
proof
  fix s t u :: SecurityLevel
  show "s < t \<longleftrightarrow> s \<le> t \<and> \<not> t \<le> s" "s \<le> s" "s \<le> t \<or> t \<le> s"
    by (auto simp: less_eq_SecurityLevel_def less_SecurityLevel_def)
  show "s \<le> u" if "s \<le> t" "t \<le> u"
    using that by (simp add: less_eq_SecurityLevel_def)
  show "s = t" if "s \<le> t" "t \<le> s"
    using that by (cases s; cases t) (simp_all add: less_eq_SecurityLevel_def level_bits_def)
qed

end

text \<open>
  The largest bit counts. Beyond the table the product of an \<open>int\<close> and a \<open>size_t\<close> is computed in
  64 bits and returned as an \<open>int\<close>.
\<close>

definition past_table :: "int \<Rightarrow> u64 \<Rightarrow> int" where
  "past_table per32768 n =
     (if n mod 32768 = 0 then static_cast int32_t (uint (word_of_int per32768 * (n div 32768))) else 0)"

definition seal_he_std_parms_128_tc :: "u64 \<Rightarrow> int" where
  "seal_he_std_parms_128_tc poly_modulus_degree =
     (if poly_modulus_degree = 1024 then 27 else if poly_modulus_degree = 2048 then 54
      else if poly_modulus_degree = 4096 then 109 else if poly_modulus_degree = 8192 then 218
      else if poly_modulus_degree = 16384 then 438 else if poly_modulus_degree = 32768 then 881
      else past_table 881 poly_modulus_degree)"

definition seal_he_std_parms_192_tc :: "u64 \<Rightarrow> int" where
  "seal_he_std_parms_192_tc poly_modulus_degree =
     (if poly_modulus_degree = 1024 then 19 else if poly_modulus_degree = 2048 then 37
      else if poly_modulus_degree = 4096 then 75 else if poly_modulus_degree = 8192 then 152
      else if poly_modulus_degree = 16384 then 305 else if poly_modulus_degree = 32768 then 611
      else past_table 611 poly_modulus_degree)"

definition seal_he_std_parms_256_tc :: "u64 \<Rightarrow> int" where
  "seal_he_std_parms_256_tc poly_modulus_degree =
     (if poly_modulus_degree = 1024 then 14 else if poly_modulus_degree = 2048 then 29
      else if poly_modulus_degree = 4096 then 58 else if poly_modulus_degree = 8192 then 118
      else if poly_modulus_degree = 16384 then 237 else if poly_modulus_degree = 32768 then 476
      else past_table 476 poly_modulus_degree)"

definition seal_he_std_parms_128_tq :: "u64 \<Rightarrow> int" where
  "seal_he_std_parms_128_tq poly_modulus_degree =
     (if poly_modulus_degree = 1024 then 25 else if poly_modulus_degree = 2048 then 51
      else if poly_modulus_degree = 4096 then 101 else if poly_modulus_degree = 8192 then 202
      else if poly_modulus_degree = 16384 then 411 else if poly_modulus_degree = 32768 then 827
      else past_table 827 poly_modulus_degree)"

definition seal_he_std_parms_192_tq :: "u64 \<Rightarrow> int" where
  "seal_he_std_parms_192_tq poly_modulus_degree =
     (if poly_modulus_degree = 1024 then 17 else if poly_modulus_degree = 2048 then 35
      else if poly_modulus_degree = 4096 then 70 else if poly_modulus_degree = 8192 then 141
      else if poly_modulus_degree = 16384 then 284 else if poly_modulus_degree = 32768 then 571
      else past_table 571 poly_modulus_degree)"

definition seal_he_std_parms_256_tq :: "u64 \<Rightarrow> int" where
  "seal_he_std_parms_256_tq poly_modulus_degree =
     (if poly_modulus_degree = 1024 then 13 else if poly_modulus_degree = 2048 then 27
      else if poly_modulus_degree = 4096 then 54 else if poly_modulus_degree = 8192 then 109
      else if poly_modulus_degree = 16384 then 220 else if poly_modulus_degree = 32768 then 443
      else past_table 443 poly_modulus_degree)"

definition MaxBitCount :: "u64 \<Rightarrow> SecurityLevel \<Rightarrow> int" where
  "MaxBitCount poly_modulus_degree sec_level =
     (case sec_level of
        tc128 \<Rightarrow> seal_he_std_parms_128_tc poly_modulus_degree
      | tc192 \<Rightarrow> seal_he_std_parms_192_tc poly_modulus_degree
      | tc256 \<Rightarrow> seal_he_std_parms_256_tc poly_modulus_degree
      | none \<Rightarrow> type_max int32_t)"

section \<open>Facts\<close>

text \<open>The comparisons are the total preorder of the values.\<close>

lemma modulus_compare:
  "modulus_less m n \<longleftrightarrow> modulus_less_eq m n \<and> \<not> modulus_eq m n"
  "modulus_less m n \<or> modulus_eq m n \<or> modulus_greater m n"
  "modulus_greater_eq m n \<longleftrightarrow> \<not> modulus_less m n"
  "modulus_neq m n \<longleftrightarrow> modulus_less m n \<or> modulus_greater m n"
  by (auto simp: modulus_less_def modulus_less_eq_def modulus_eq_def modulus_neq_def
      modulus_greater_def modulus_greater_eq_def not_less)

lemma wf_modulusD:
  assumes "wf_modulus m"
  shows "has_ratio m" "1 < unat (mod_value m)" "unat (mod_value m) < 2305843009213693952"
  using assms by (simp_all add: wf_modulus_def)

text \<open>
  On the degrees of the table a stronger level never allows more bits, and a larger degree always
  allows more.
\<close>

lemma MaxBitCount_antimono:
  assumes "n \<in> {1024, 2048, 4096, 8192, 16384, 32768}" "s \<le> t"
  shows "0 < MaxBitCount n t \<and> MaxBitCount n t \<le> MaxBitCount n s"
  using assms
  by (cases s; cases t)
     (auto simp: MaxBitCount_def less_eq_SecurityLevel_def level_bits_def type_max_def
      seal_he_std_parms_128_tc_def seal_he_std_parms_192_tc_def seal_he_std_parms_256_tc_def)

end
