(* ===== verification/Small_Mod.thy ===== *)
theory Small_Mod
  imports Seal_Modulus
begin

unbundle bit_operations_syntax

text \<open>
  Arithmetic modulo a word: \<open>utils/uintarithsmallmod.h\<close> and \<open>.cpp\<close> of
  \<open>heu/library/algorithms/seal_gpu/\<close>. The Barrett reductions, the products with a precomputed
  quotient, sums and differences, powers, the reduction of long numbers and the inner product.
\<close>

section \<open>The functions of the code\<close>

definition incrementUintMod :: "u64 \<Rightarrow> Modulus \<Rightarrow> u64" where
  "incrementUintMod operand modulus =
     (let operand = operand + 1
      in operand - (modulus_value modulus AND - of_bool (operand \<ge> modulus_value modulus)))"

definition decrementUintMod :: "u64 \<Rightarrow> Modulus \<Rightarrow> u64" where
  "decrementUintMod operand modulus =
     (let carry = of_bool (operand = 0)
      in operand - 1 + (modulus_value modulus AND - carry))"

definition negateUintMod :: "u64 \<Rightarrow> Modulus \<Rightarrow> u64" where
  "negateUintMod operand modulus =
     (let non_zero = of_bool (operand \<noteq> 0)
      in (modulus_value modulus - operand) AND - non_zero)"

definition div2UintMod :: "u64 \<Rightarrow> Modulus \<Rightarrow> u64" where
  "div2UintMod operand modulus =
     (if operand AND 1 \<noteq> 0 then
        let (carry, temp) = addUint64_carry operand (modulus_value modulus) 0;
            operand = drop_bit 1 temp
        in if carry \<noteq> 0 then operand OR push_bit 63 1 else operand
      else drop_bit 1 operand)"

definition addUintMod :: "u64 \<Rightarrow> u64 \<Rightarrow> Modulus \<Rightarrow> u64" where
  "addUintMod operand1 operand2 modulus =
     (let operand1 = operand1 + operand2
      in if operand1 \<ge> modulus_value modulus then operand1 - modulus_value modulus else operand1)"

text \<open>\<open>_subborrow_u64\<close> gives the wrapped difference and the borrow.\<close>

definition subUintMod :: "u64 \<Rightarrow> u64 \<Rightarrow> Modulus \<Rightarrow> u64" where
  "subUintMod operand1 operand2 modulus =
     (let borrow = of_bool (operand1 < operand2);
          temp = operand1 - operand2
      in temp + (modulus_value modulus AND - borrow))"

definition barrettReduce128 :: "u64 list \<Rightarrow> Modulus \<Rightarrow> u64" where
  "barrettReduce128 inp modulus =
     (let const_ratio = constRatio modulus;
          carry = multiplyUint64HW64 (inp ! 0) (const_ratio ! 0);
          (tmp2_0, tmp2_1) = multiplyUint64 (inp ! 0) (const_ratio ! 1);
          (c, tmp1) = addUint64 tmp2_0 carry;
          tmp3 = tmp2_1 + ucast c;
          (tmp2_0, tmp2_1) = multiplyUint64 (inp ! 1) (const_ratio ! 0);
          (c, tmp1) = addUint64 tmp1 tmp2_0;
          carry = tmp2_1 + ucast c;
          tmp1 = inp ! 1 * const_ratio ! 1 + tmp3 + carry;
          tmp3 = inp ! 0 - tmp1 * modulus_value modulus
      in if tmp3 \<ge> modulus_value modulus then tmp3 - modulus_value modulus else tmp3)"

definition barrettReduce64 :: "u64 \<Rightarrow> Modulus \<Rightarrow> u64" where
  "barrettReduce64 inp modulus =
     (let const_ratio = constRatio modulus;
          tmp1 = multiplyUint64HW64 inp (const_ratio ! 1);
          tmp0 = inp - tmp1 * modulus_value modulus
      in if tmp0 \<ge> modulus_value modulus then tmp0 - modulus_value modulus else tmp0)"

definition multiplyUintMod :: "u64 \<Rightarrow> u64 \<Rightarrow> Modulus \<Rightarrow> u64" where
  "multiplyUintMod operand1 operand2 modulus =
     (let (z0, z1) = multiplyUint64 operand1 operand2
      in barrettReduce128 [z0, z1] modulus)"

record MultiplyUIntModOperand =
  mop_operand :: u64
  mop_quotient :: u64

definition setQuotient :: "MultiplyUIntModOperand \<Rightarrow> Modulus \<Rightarrow> MultiplyUIntModOperand" where
  "setQuotient p modulus =
     (let (wide_coeff, wide_quotient) = divideUint128Inplace [0, mop_operand p] (modulus_value modulus)
      in p\<lparr>mop_quotient := wide_quotient ! 0\<rparr>)"

definition set_operand :: "u64 \<Rightarrow> Modulus \<Rightarrow> MultiplyUIntModOperand \<Rightarrow> MultiplyUIntModOperand" where
  "set_operand new_operand modulus p = setQuotient (p\<lparr>mop_operand := new_operand\<rparr>) modulus"

definition multiplyUintMod_operand :: "u64 \<Rightarrow> MultiplyUIntModOperand \<Rightarrow> Modulus \<Rightarrow> u64" where
  "multiplyUintMod_operand x y modulus =
     (let p = modulus_value modulus;
          tmp1 = multiplyUint64HW64 x (mop_quotient y);
          tmp2 = mop_operand y * x - tmp1 * p
      in if tmp2 \<ge> p then tmp2 - p else tmp2)"

definition multiplyUintModLazy :: "u64 \<Rightarrow> MultiplyUIntModOperand \<Rightarrow> Modulus \<Rightarrow> u64" where
  "multiplyUintModLazy x y modulus =
     (let p = modulus_value modulus;
          tmp1 = multiplyUint64HW64 x (mop_quotient y)
      in mop_operand y * x - tmp1 * p)"

text \<open>The loops over the words of a long number run from the top.\<close>

definition moduloUintInplace :: "u64 list \<Rightarrow> Modulus \<Rightarrow> u64 list" where
  "moduloUintInplace value modulus =
     (let value_uint64_count = length value;
          value = (if value_uint64_count = 1 \<and> \<not> value ! 0 < modulus_value modulus
                   then value[0 := barrettReduce64 (value ! 0) modulus] else value)
      in fold (\<lambda>i value. value[i := barrettReduce128 (drop i value) modulus, i + 1 := 0])
           (rev [0..<value_uint64_count - 1]) value)"

definition moduloUint :: "u64 list \<Rightarrow> Modulus \<Rightarrow> u64" where
  "moduloUint value modulus =
     (if length value = 1 then
        (if value ! 0 < modulus_value modulus then value ! 0 else barrettReduce64 (value ! 0) modulus)
      else let temp = [0, value ! (length value - 1)];
               temp = fold (\<lambda>k temp. let temp = temp[0 := value ! k]
                                     in temp[1 := barrettReduce128 temp modulus])
                        (rev [0..<length value - 1]) temp
           in temp ! 1)"

definition multiplyAddUintMod :: "u64 \<Rightarrow> u64 \<Rightarrow> u64 \<Rightarrow> Modulus \<Rightarrow> u64" where
  "multiplyAddUintMod operand1 operand2 operand3 modulus =
     (let (temp0, temp1) = multiplyUint64 operand1 operand2;
          (c, temp0) = addUint64 temp0 operand3;
          temp1 = temp1 + ucast c
      in barrettReduce128 [temp0, temp1] modulus)"

definition multiplyAddUintMod_operand :: "u64 \<Rightarrow> MultiplyUIntModOperand \<Rightarrow> u64 \<Rightarrow> Modulus \<Rightarrow> u64" where
  "multiplyAddUintMod_operand operand1 operand2 operand3 modulus =
     addUintMod (multiplyUintMod_operand operand1 operand2 modulus)
       (barrettReduce64 operand3 modulus) modulus"

lemma drop_1_less: "drop_bit 1 (e :: u64) \<noteq> 0 \<Longrightarrow> unat (drop_bit 1 e) < unat e"
  by (cases "unat e = 0") (simp_all add: unat_drop64 word_unat_eq_iff)

function exponentiate_loop :: "u64 \<Rightarrow> u64 \<Rightarrow> u64 \<Rightarrow> Modulus \<Rightarrow> u64" where
  "exponentiate_loop pow intermediate exponent modulus =
     (let intermediate = (if exponent AND 1 \<noteq> 0 then multiplyUintMod pow intermediate modulus
                          else intermediate);
          exponent = drop_bit 1 exponent
      in if exponent = 0 then intermediate
         else exponentiate_loop (multiplyUintMod pow pow modulus) intermediate exponent modulus)"
  by pat_completeness auto

termination
  using drop_1_less by (relation "measure (\<lambda>(pow, intermediate, exponent, modulus). unat exponent)") auto

declare exponentiate_loop.simps [simp del]

definition exponentiateUintMod :: "u64 \<Rightarrow> u64 \<Rightarrow> Modulus \<Rightarrow> u64" where
  "exponentiateUintMod operand exponent modulus =
     (if exponent = 0 then 1
      else if exponent = 1 then operand
      else exponentiate_loop operand 1 exponent modulus)"

text \<open>
  \<open>largest_case\<close> of the switch is reached with sixteen words, the shorter cases with as many as
  there are.
\<close>

function dotProductMod :: "u64 list \<Rightarrow> u64 list \<Rightarrow> Modulus \<Rightarrow> u64" where
  "dotProductMod operand1 operand2 modulus =
     (let count = length operand1 in
      if count = 0 then 0
      else if count \<le> 16 then
        barrettReduce128 (multiplyAccumulateUint64 operand1 operand2 [0, 0]) modulus
      else
        let accumulator0 = dotProductMod (drop 16 operand1) (drop 16 operand2) modulus
        in barrettReduce128
             (multiplyAccumulateUint64 (take 16 operand1) (take 16 operand2) [accumulator0, 0]) modulus)"
  by pat_completeness auto

termination
  by (relation "measure (\<lambda>(operand1, operand2, modulus). length operand1)") auto

declare dotProductMod.simps [simp del]

text \<open>
  The division of a long number. For no words at all \<open>uint64_count - 2\<close> wraps to a size that
  \<open>new\<close> cannot allocate; the result is the pair of the numerator and the quotient.
\<close>

partial_function (option) divideUintModInplace ::
  "u64 list \<Rightarrow> Modulus \<Rightarrow> nat \<Rightarrow> u64 list \<Rightarrow> (u64 list \<times> u64 list) res option" where
  "divideUintModInplace numerator modulus uint64_count quotient_ptr =
     (if uint64_count = 2 then
        let (r, q) = divideUint128Inplace (take 2 numerator) (modulus_value modulus)
        in Some (Inr (r @ drop 2 numerator, q @ drop 2 quotient_ptr))
      else if uint64_count = 1 then
        let numerator = numerator[0 := barrettReduce64 (numerator ! 0) modulus];
            quotient_ptr = quotient_ptr[0 := numerator ! 0 div modulus_value modulus]
        in Some (Inr (numerator, quotient_ptr))
      else if uint64_count = 0 then Some (Inl Bad_alloc)
      else
        let x1 = take (uint64_count - 2) (drop 2 numerator);
            x2 = take 2 numerator;
            quot = multiplyUint_counts x1 (take 2 (constRatio modulus)) uint64_count;
            rem = multiplyUint_word x1 (constRatio modulus ! 2) (uint64_count - 1);
            (carry, rem) = addUint_counts rem x2 0 uint64_count;
            remainder_uint64_count = getSignificantUint64CountUint rem
        in Option.bind (divideUintModInplace rem modulus remainder_uint64_count quotient_ptr) (\<lambda>res.
             case res of
               Inl e \<Rightarrow> Some (Inl e)
             | Inr (rem, quotient_ptr) \<Rightarrow>
                 let (carry, total) = addUint (take uint64_count quotient_ptr) quot
                 in Some (Inr (numerator[0 := rem ! 0], total @ drop uint64_count quotient_ptr))))"

declare divideUintModInplace.simps [code]

section \<open>Barrett reduction\<close>

text \<open>
  The estimate of the quotient of \<open>x * y\<close> by \<open>m\<close> from the precomputed \<open>y * K div m\<close> is at most one too
  small. The reductions use it with \<open>y = 1\<close>, the products with a fixed operand with that operand.
\<close>

lemma barrett_estimate:
  fixes m K x y :: nat
  assumes "0 < m" "0 < K" "x \<le> K"
  defines "q \<equiv> x * (y * K div m) div K"
  shows "q * m \<le> x * y" "x * y < q * m + 2 * m"
proof -
  let ?c = "y * K div m"
  have c: "?c * m \<le> y * K" "y * K < ?c * m + m"
    using div_mult_mod_eq [of "y * K" m] mod_less_divisor [OF assms(1), of "y * K"] by linarith+
  have q: "q * K \<le> x * ?c" "x * ?c < q * K + K"
    unfolding q_def using div_mult_mod_eq [of "x * ?c" K] mod_less_divisor [OF assms(2), of "x * ?c"]
    by linarith+
  have "(q * m) * K = q * K * m" by (simp only: ac_simps)
  also have "\<dots> \<le> x * ?c * m" by (rule mult_le_mono1 [OF q(1)])
  also have "\<dots> = x * (?c * m)" by (simp only: ac_simps)
  also have "\<dots> \<le> x * (y * K)" by (rule mult_le_mono2 [OF c(1)])
  also have "\<dots> = (x * y) * K" by (simp only: ac_simps)
  finally show "q * m \<le> x * y" using assms(2) by (simp only: mult_le_cancel2)
  have "(x * y) * K = x * (y * K)" by (simp only: ac_simps)
  also have "\<dots> \<le> x * (?c * m + m)" using c(2) by (intro mult_le_mono2) simp
  also have "\<dots> = x * ?c * m + x * m" by (simp add: algebra_simps)
  also have "\<dots> < (q * K + K) * m + K * m"
    using q(2) assms by (intro add_less_le_mono mult_strict_right_mono mult_right_mono) auto
  also have "\<dots> = (q * m + 2 * m) * K" by (simp add: algebra_simps)
  finally show "x * y < q * m + 2 * m" using assms(2) by (simp only: mult_less_cancel2)
qed

lemma word_2_64: "(18446744073709551616 :: u64) = 0"
  using word_exp_length_eq_0 [where 'a=64] by simp

lemma of_nat_uval: "of_nat (uval (x # xs)) = (x :: u64)"
  by (simp add: word_2_64)

text \<open>The final subtraction: \<open>x - q * m\<close> is computed modulo \<open>2 ^ 64\<close> and lies below \<open>2 * m\<close>.\<close>

lemma barrett_subtract:
  fixes v q :: u64
  assumes "0 < unat m" "unat m \<le> 9223372036854775808"
    and "Q * unat m \<le> x" "x < Q * unat m + 2 * unat m"
    and "v = of_nat x" "q = of_nat Q"
  shows "unat (v - q * m) = x - Q * unat m"
proof -
  have "v - q * m = of_nat (x - Q * unat m)"
    using assms(3,5,6) by (simp add: of_nat_diff)
  moreover have "x - Q * unat m < 2 ^ 64" using assms(1-4) by simp
  ultimately show ?thesis by (simp add: unat_of_nat)
qed

lemma subtract_once:
  fixes r m :: u64
  assumes "unat r < 2 * unat m" "unat r mod unat m = x mod unat m"
  shows "unat (if r \<ge> m then r - m else r) = x mod unat m"
proof (cases "m \<le> r")
  case True
  then have "unat m \<le> unat r" by (simp add: word_le_nat_alt)
  moreover from this have "unat (r - m) = unat r - unat m" by (simp add: unat_sub64)
  ultimately show ?thesis using assms True by (simp add: le_mod_geq)
next
  case False
  moreover from this have "unat r < unat m" by (simp add: word_le_nat_alt)
  ultimately show ?thesis using assms(2) by simp
qed

lemma mod_minus_mult: "Q * m \<le> x \<Longrightarrow> (x - Q * m) mod m = x mod (m :: nat)"
  using mod_mult_self2 [of "x - Q * m" m Q] by (simp add: ac_simps)

lemma has_ratioE:
  assumes "has_ratio m"
  obtains c0 c1 c2 where "mod_const_ratio m = [c0, c1, c2]"
    "uval [c0, c1] = 2 ^ 128 div unat (mod_value m)"
    "unat c1 = 2 ^ 64 div unat (mod_value m)"
    "unat c2 = 2 ^ 128 mod unat (mod_value m)"
proof -
  obtain c0 c1 c2 where c: "mod_const_ratio m = [c0, c1, c2]"
    "uval [c0, c1] = 2 ^ 128 div unat (mod_value m)" "unat c2 = 2 ^ 128 mod unat (mod_value m)"
    using assms by (auto simp: has_ratio_def)
  have "unat c1 = uval [c0, c1] div 18446744073709551616" by simp
  also have "\<dots> = 2 ^ 128 div 18446744073709551616 div unat (mod_value m)"
    unfolding c(2) by (simp only: div_mult2_eq [symmetric] mult.commute)
  finally show ?thesis using that c by simp
qed

lemma barrettReduce64_value:
  assumes "has_ratio m"
  shows "unat (barrettReduce64 x m) = unat x mod unat (mod_value m)"
proof -
  let ?m = "mod_value m"
  have m: "0 < unat ?m" "unat ?m \<le> 9223372036854775808" using assms by (auto simp: has_ratio_def)
  obtain c0 c1 c2 where c: "mod_const_ratio m = [c0, c1, c2]" "unat c1 = 2 ^ 64 div unat ?m"
    using has_ratioE [OF assms] by metis
  define q where "q = unat x * (2 ^ 64 div unat ?m) div 2 ^ 64"
  have q: "unat (multiplyUint64HW64 x c1) = q"
    by (simp add: multiplyUint64HW64_value q_def c)
  have est: "q * unat ?m \<le> unat x" "unat x < q * unat ?m + 2 * unat ?m"
    using barrett_estimate [OF m(1), of "2 ^ 64" "unat x" 1] unat_lt64 [of x]
    by (simp_all only: q_def mult_1_left mult_1_right) simp_all
  let ?r = "x - multiplyUint64HW64 x c1 * ?m"
  have r: "unat ?r = unat x - q * unat ?m"
    by (rule barrett_subtract [OF m est]) (simp_all flip: q)
  have "unat (if ?r \<ge> ?m then ?r - ?m else ?r) = unat x mod unat ?m"
    using est by (intro subtract_once) (simp_all add: r mod_minus_mult)
  then show ?thesis
    by (simp only: barrettReduce64_def constRatio_def modulus_value_def c Let_def nth_Cons_Suc One_nat_def nth_Cons_0)
qed

lemma product_high:
  fixes a0 a1 c0 c1 B :: nat
  assumes "0 < B"
  shows "(a0 + B * a1) * (c0 + B * c1) div (B * B) = a1 * c1 + (a0 * c0 div B + a0 * c1 + a1 * c0) div B"
proof -
  let ?S = "a0 * c1 + a1 * c0"
  have "(a0 + B * a1) * (c0 + B * c1) = a0 * c0 + B * (?S + B * (a1 * c1))" by (simp add: algebra_simps)
  then have "(a0 + B * a1) * (c0 + B * c1) div B = (a0 * c0 div B + ?S) + B * (a1 * c1)"
    using assms by simp
  then have "(a0 + B * a1) * (c0 + B * c1) div B div B = ((a0 * c0 div B + ?S) + B * (a1 * c1)) div B"
    by (rule arg_cong)
  also have "\<dots> = a1 * c1 + (a0 * c0 div B + ?S) div B" using assms by simp
  finally show ?thesis by (simp add: div_mult2_eq add.assoc)
qed

lemma barrett_quotient:
  assumes c: "multiplyUint64 a0 c1 = (l2, h2)" "addUint64 l2 (multiplyUint64HW64 a0 c0) = (k, t1)"
    "multiplyUint64 a1 c0 = (l3, h3)" "addUint64 t1 l3 = (k', t1')"
  shows "a1 * c1 + (h2 + ucast k) + (h3 + ucast k') = of_nat (uval [a0, a1] * uval [c0, c1] div 2 ^ 128)"
proof -
  let ?B = "18446744073709551616 :: nat"
  define h where "h = unat a0 * unat c0 div ?B"
  note e = multiplyUint64_value [OF c(1)] addUint64_value(1) [OF c(2), unfolded multiplyUint64HW64_value, folded h_def]
    multiplyUint64_value [OF c(3)] addUint64_value(1) [OF c(4)]
  have div_word_step: "(unat t1' + ?B * n) div ?B = n" for n
    using unat_lt64 [of t1'] by (simp del: unat_lt64)
  have s: "h + unat a0 * unat c1 + unat a1 * unat c0 = unat t1' + ?B * (unat h2 + unat k + (unat h3 + unat k'))"
    using e by (simp add: algebra_simps)
  have "uval [a0, a1] * uval [c0, c1] div 2 ^ 128 =
      unat a1 * unat c1 + (h + unat a0 * unat c1 + unat a1 * unat c0) div ?B"
    using product_high [of ?B "unat a0" "unat a1" "unat c0" "unat c1"] by (simp add: h_def)
  then have "uval [a0, a1] * uval [c0, c1] div 2 ^ 128 = unat a1 * unat c1 + (unat h2 + unat k + (unat h3 + unat k'))"
    unfolding s by (simp only: div_word_step)
  moreover have "of_nat (unat k) = (ucast k :: u64)" "of_nat (unat k') = (ucast k' :: u64)"
    by (metis of_nat_unat unat_ucast8_64)+
  ultimately show ?thesis by (simp add: add.assoc)
qed

lemma barrettReduce128_value:
  assumes "has_ratio m"
  shows "unat (barrettReduce128 [a0, a1] m) = uval [a0, a1] mod unat (mod_value m)"
proof -
  let ?m = "mod_value m" and ?x = "uval [a0, a1]"
  have m: "0 < unat ?m" "unat ?m \<le> 9223372036854775808" using assms by (auto simp: has_ratio_def)
  obtain c0 c1 c2 where c: "mod_const_ratio m = [c0, c1, c2]" "uval [c0, c1] = 2 ^ 128 div unat ?m"
    using has_ratioE [OF assms] by metis
  obtain l2 h2 where 1: "multiplyUint64 a0 c1 = (l2, h2)" by fastforce
  obtain k t1 where 2: "addUint64 l2 (multiplyUint64HW64 a0 c0) = (k, t1)" by fastforce
  obtain l3 h3 where 3: "multiplyUint64 a1 c0 = (l3, h3)" by fastforce
  obtain k' t1' where 4: "addUint64 t1 l3 = (k', t1')" by fastforce
  define Q where "Q = ?x * (2 ^ 128 div unat ?m) div 2 ^ 128"
  let ?q = "a1 * c1 + (h2 + ucast k) + (h3 + ucast k')"
  have q: "?q = of_nat Q" unfolding barrett_quotient [OF 1 2 3 4] Q_def c(2) ..
  have "?x < 18446744073709551616 ^ 2" using uval_lt [of "[a0, a1]"] by (simp only: list.size) simp
  then have x: "?x \<le> 2 ^ 128" by (simp only: power2_eq_square) simp
  have est: "Q * unat ?m \<le> ?x" "?x < Q * unat ?m + 2 * unat ?m"
    using barrett_estimate [OF m(1) zero_less_power x, of 1] by (simp_all only: Q_def mult_1_left mult_1_right)
  let ?r = "a0 - ?q * ?m"
  have r: "unat ?r = ?x - Q * unat ?m"
    by (rule barrett_subtract [OF m est of_nat_uval [symmetric] q])
  have "unat ?r < 2 * unat ?m" using est unfolding r by linarith
  moreover have "unat ?r mod unat ?m = ?x mod unat ?m" unfolding r by (rule mod_minus_mult [OF est(1)])
  ultimately have "unat (if ?r \<ge> ?m then ?r - ?m else ?r) = ?x mod unat ?m" by (rule subtract_once)
  then show ?thesis
    by (simp only: barrettReduce128_def constRatio_def modulus_value_def c Let_def nth_Cons_Suc One_nat_def nth_Cons_0
        1 2 3 4 prod.case add.assoc)
qed


section \<open>Products with a fixed operand\<close>

lemma multiplyUintMod_value:
  assumes "has_ratio m"
  shows "unat (multiplyUintMod a b m) = unat a * unat b mod unat (mod_value m)"
proof -
  obtain lo hi where p: "multiplyUint64 a b = (lo, hi)" by fastforce
  show ?thesis
    using barrettReduce128_value [OF assms, of lo hi] multiplyUint64_value [OF p]
    by (simp add: multiplyUintMod_def p)
qed

text \<open>The contract between \<open>setQuotient\<close> and the products that use the quotient.\<close>

definition operand_for :: "Modulus \<Rightarrow> MultiplyUIntModOperand \<Rightarrow> bool" where
  "operand_for m y \<longleftrightarrow> mop_operand y < mod_value m \<and>
     unat (mop_quotient y) = unat (mop_operand y) * 18446744073709551616 div unat (mod_value m)"

lemma set_operand_for:
  assumes "c < mod_value m"
  shows "operand_for m (set_operand c m p) \<and> mop_operand (set_operand c m p) = c"
proof -
  let ?m = "mod_value m"
  obtain r q where d: "divideUint128Inplace [0, c] ?m = (r, q)" by fastforce
  have m: "?m \<noteq> 0" using assms by auto
  note v = divideUint128Inplace_spec [OF m d]
  obtain q0 q1 where q: "q = [q0, q1]" using v(2) by (auto simp: numeral_2_eq_2 length_Suc_conv)
  have c: "unat c < unat ?m" using assms by (simp add: word_less_nat_alt)
  have "uval q = unat c * 18446744073709551616 div unat ?m" using v(3) by (simp add: mult.commute)
  moreover have "unat c * 18446744073709551616 div unat ?m < 18446744073709551616"
    using c by (simp add: less_mult_imp_div_less)
  ultimately have "unat q0 = unat c * 18446744073709551616 div unat ?m"
    unfolding q using unat_lt64 [of q0] by (cases "unat q1 = 0") (simp_all del: unat_lt64)
  then show ?thesis
    using assms by (simp add: operand_for_def set_operand_def setQuotient_def modulus_value_def d q)
qed

lemma multiplyUintModLazy_value:
  assumes "operand_for m y" "unat (mod_value m) \<le> 9223372036854775808"
  shows "unat (multiplyUintModLazy x y m) < 2 * unat (mod_value m)"
    "unat (multiplyUintModLazy x y m) mod unat (mod_value m)
      = unat x * unat (mop_operand y) mod unat (mod_value m)"
proof -
  let ?m = "mod_value m" and ?y = "unat (mop_operand y)"
  have m: "0 < unat ?m" using assms(1) by (auto simp: operand_for_def word_less_nat_alt)
  define q where "q = unat x * (?y * 18446744073709551616 div unat ?m) div 18446744073709551616"
  have q: "unat (multiplyUint64HW64 x (mop_quotient y)) = q"
    using assms(1) by (simp add: multiplyUint64HW64_value q_def operand_for_def)
  have est: "q * unat ?m \<le> unat x * ?y" "unat x * ?y < q * unat ?m + 2 * unat ?m"
    using barrett_estimate [OF m, of 18446744073709551616 "unat x" ?y] unat_le64 [of x]
    by (auto simp only: q_def)
  have r: "unat (multiplyUintModLazy x y m) = unat x * ?y - q * unat ?m"
    unfolding multiplyUintModLazy_def modulus_value_def Let_def
    by (rule barrett_subtract [OF m assms(2) est]) (simp_all add: mult.commute flip: q)
  show "unat (multiplyUintModLazy x y m) < 2 * unat ?m" using est unfolding r by linarith
  show "unat (multiplyUintModLazy x y m) mod unat ?m = unat x * ?y mod unat ?m"
    unfolding r by (rule mod_minus_mult [OF est(1)])
qed

lemma multiplyUintMod_operand_value:
  assumes "operand_for m y" "unat (mod_value m) \<le> 9223372036854775808"
  shows "unat (multiplyUintMod_operand x y m) = unat x * unat (mop_operand y) mod unat (mod_value m)"
proof -
  have "multiplyUintMod_operand x y m =
      (let r = multiplyUintModLazy x y m in if r \<ge> mod_value m then r - mod_value m else r)"
    by (simp add: multiplyUintMod_operand_def multiplyUintModLazy_def modulus_value_def Let_def)
  then show ?thesis using subtract_once [OF multiplyUintModLazy_value [OF assms]] by (simp add: Let_def)
qed

section \<open>Sums and differences\<close>

lemma word_and_mask: "(a :: u64) AND - of_bool b = (if b then a else 0)"
  by simp

lemma addUintMod_value:
  assumes "unat a + unat b < 2 * unat (mod_value m)" "unat (mod_value m) \<le> 9223372036854775808"
  shows "unat (addUintMod a b m) = (unat a + unat b) mod unat (mod_value m)"
proof -
  have "unat (a + b) = unat a + unat b" using assms by (simp add: unat_add64)
  then show ?thesis
    using subtract_once [of "a + b" "mod_value m" "unat a + unat b"] assms
    by (simp only: addUintMod_def modulus_value_def Let_def)
qed

lemma subUintMod_value:
  assumes "unat a < unat (mod_value m)" "unat b \<le> unat (mod_value m)"
  shows "unat (subUintMod a b m) = (unat a + unat (mod_value m) - unat b) mod unat (mod_value m)"
proof (cases "a < b")
  case True
  then have ab: "unat a < unat b" by (simp add: word_less_nat_alt)
  have "subUintMod a b m = mod_value m - (b - a)"
    using True by (simp add: subUintMod_def modulus_value_def)
  moreover have "unat b - unat a \<le> unat (mod_value m)" using assms by linarith
  ultimately show ?thesis using ab assms by (simp add: unat_sub64)
next
  case False
  then have ab: "unat b \<le> unat a" by (simp add: word_less_nat_alt)
  have "subUintMod a b m = a - b" using False by (simp add: subUintMod_def)
  moreover have "(unat a + unat (mod_value m) - unat b) mod unat (mod_value m) = (unat a - unat b) mod unat (mod_value m)"
    using ab by (metis Nat.add_diff_assoc2 mod_add_self2)
  ultimately show ?thesis using ab assms by (simp add: unat_sub64)
qed

lemma negateUintMod_value:
  assumes "unat a \<le> unat (mod_value m)"
  shows "unat (negateUintMod a m) = (if a = 0 then 0 else unat (mod_value m) - unat a)"
  using assms by (simp add: negateUintMod_def modulus_value_def unat_sub64)

lemma incrementUintMod_value:
  assumes "unat a + 1 < 2 * unat (mod_value m)" "unat (mod_value m) \<le> 9223372036854775808"
  shows "unat (incrementUintMod a m) = (unat a + 1) mod unat (mod_value m)"
proof -
  have "incrementUintMod a m = addUintMod a 1 m"
    by (simp add: incrementUintMod_def addUintMod_def Let_def)
  then show ?thesis using addUintMod_value [of a 1 m] assms by simp
qed

lemma decrementUintMod_value:
  assumes "unat a < unat (mod_value m)"
  shows "unat (decrementUintMod a m) = (unat a + unat (mod_value m) - 1) mod unat (mod_value m)"
proof -
  have "decrementUintMod a m = subUintMod a 1 m"
    by (simp add: decrementUintMod_def subUintMod_def word_less_1)
  then show ?thesis using subUintMod_value [of a m 1] assms by simp
qed

text \<open>Halving: the result is the one below the modulus whose double is the operand.\<close>

lemma odd_word_iff: "(a :: u64) AND 1 \<noteq> 0 \<longleftrightarrow> odd (unat a)"
  by (simp add: and_one_eq odd_iff_mod_2_eq_one word_unat_eq_iff unat_mod)

lemma div2UintMod_value:
  assumes "unat a < unat (mod_value m)" "odd (unat (mod_value m))"
  shows "unat (div2UintMod a m) < unat (mod_value m)"
    "2 * unat (div2UintMod a m) mod unat (mod_value m) = unat a"
proof -
  let ?m = "mod_value m"
  have v: "unat (div2UintMod a m) = (if odd (unat a) then (unat a + unat ?m) div 2 else unat a div 2)"
  proof (cases "odd (unat a)")
    case True
    obtain k t where kt: "addUint64_carry a ?m 0 = (k, t)" by fastforce
    note s = addUint64_carry_value [OF kt, simplified]
    have o: "unat (drop_bit 1 t OR push_bit 63 1) = unat t div 2 + 2 ^ 63"
    proof -
      have "drop_bit 1 t AND push_bit 63 1 = 0"
        by (rule bit_word_eqI)
           (auto simp: bit_and_iff bit_push_bit_iff bit_drop_bit_eq simp del: push_bit_numeral push_bit_of_1 dest: bit_imp_le_length)
      then show ?thesis by (simp add: unat_or_disjoint unat_drop64 unat_push64)
    qed
    have k: "unat k = 0 \<or> unat k = 1" using s(2) by linarith
    show ?thesis
    proof (cases "unat k = 0")
      case k0: True
      then have "k = 0" by (simp add: unat_eq_0)
      then show ?thesis
        using True s(1) by (simp add: div2UintMod_def odd_word_iff modulus_value_def kt unat_drop64)
    next
      case False
      then have k1: "unat k = 1" "k \<noteq> 0" using k by auto
      then have "unat a + unat ?m = unat t + 2 * 2 ^ 63" using s(1) by simp
      then have "(unat a + unat ?m) div 2 = unat t div 2 + 2 ^ 63" by simp
      then show ?thesis
        using True k1 o by (simp add: div2UintMod_def odd_word_iff modulus_value_def kt)
    qed
  next
    case False
    then show ?thesis by (simp add: div2UintMod_def odd_word_iff unat_drop64)
  qed
  show "unat (div2UintMod a m) < unat ?m" using assms unfolding v by auto
  show "2 * unat (div2UintMod a m) mod unat ?m = unat a"
  proof (cases "odd (unat a)")
    case True
    then have "2 * ((unat a + unat ?m) div 2) = unat a + unat ?m" using assms(2) by simp
    then show ?thesis using True assms(1) by (simp add: v)
  next
    case False
    then show ?thesis using assms(1) by (simp add: v)
  qed
qed

section \<open>Powers\<close>

lemma drop_1_and_1: "unat (e :: u64) = 2 * unat (drop_bit 1 e) + of_bool (e AND 1 \<noteq> 0)"
  unfolding odd_word_iff unat_drop64 by simp

lemma exponentiate_loop_value:
  assumes "has_ratio m" "e \<noteq> 0"
  shows "unat (exponentiate_loop p i e m) = unat i * unat p ^ unat e mod unat (mod_value m)"
  using assms
proof (induction p i e m rule: exponentiate_loop.induct)
  case (1 p i e m)
  let ?m = "unat (mod_value m)"
  let ?i = "if e AND 1 \<noteq> 0 then multiplyUintMod p i m else i"
  let ?e = "drop_bit 1 e" and ?b = "of_bool (e AND 1 \<noteq> 0) :: nat"
  have i: "unat ?i mod ?m = unat i * unat p ^ ?b mod ?m"
    by (simp add: multiplyUintMod_value [OF "1.prems"(1)] mult.commute)
  show ?case
  proof (cases "?e = 0")
    case True
    have e1: "unat e = ?b" using drop_1_and_1 [of e] True by simp
    with "1.prems"(2) have odd: "e AND 1 \<noteq> 0" by (metis of_bool_eq(1) unat_eq_0)
    show ?thesis using odd True e1
      by (subst exponentiate_loop.simps) (simp add: multiplyUintMod_value [OF "1.prems"(1)] mult.commute)
  next
    case False
    have "unat (exponentiate_loop p i e m) = unat (exponentiate_loop (multiplyUintMod p p m) ?i ?e m)"
      using False by (subst exponentiate_loop.simps) (simp only: Let_def if_False)
    also have "\<dots> = unat ?i * unat (multiplyUintMod p p m) ^ unat ?e mod ?m"
      by (rule "1.IH" [OF refl refl False "1.prems"(1) False])
    also have "\<dots> = (unat ?i mod ?m) * (unat (multiplyUintMod p p m) ^ unat ?e mod ?m) mod ?m"
      by (rule mod_mult_eq [symmetric])
    also have "unat (multiplyUintMod p p m) ^ unat ?e mod ?m = (unat p * unat p) ^ unat ?e mod ?m"
      unfolding multiplyUintMod_value [OF "1.prems"(1)] by (rule power_mod)
    also have "(unat ?i mod ?m) * ((unat p * unat p) ^ unat ?e mod ?m) mod ?m = unat i * unat p ^ ?b * (unat p * unat p) ^ unat ?e mod ?m"
      unfolding i by (rule mod_mult_eq)
    also have "\<dots> = unat i * (unat p ^ ?b * (unat p * unat p) ^ unat ?e) mod ?m"
      by (simp only: mult.assoc)
    also have "unat p ^ ?b * (unat p * unat p) ^ unat ?e = unat p ^ unat e"
      unfolding drop_1_and_1 [of e] by (simp add: power_add power_mult power2_eq_square)
    finally show ?thesis .
  qed
qed

lemma exponentiateUintMod_value:
  assumes "has_ratio m" "1 < unat (mod_value m)" "e \<noteq> 1 \<or> unat a < unat (mod_value m)"
  shows "unat (exponentiateUintMod a e m) = unat a ^ unat e mod unat (mod_value m)"
  using assms exponentiate_loop_value [OF assms(1), of e a 1]
  by (auto simp: exponentiateUintMod_def)

section \<open>Long numbers\<close>

lemma uval_step_mod:
  "uval [x, t] mod m = uval (x # ys) mod m" if "unat t mod m = uval ys mod m" for m :: nat
proof -
  have "unat (t :: u64) * 18446744073709551616 mod m = uval ys * 18446744073709551616 mod m"
    using that by (rule mod_mult_cong [OF _ refl])
  then have "(unat x + unat t * 18446744073709551616) mod m = (unat x + uval ys * 18446744073709551616) mod m"
    by (rule mod_add_cong [OF refl])
  then show ?thesis by (simp add: mult.commute)
qed

lemma moduloUint_loop:
  assumes "has_ratio m" "k < length xs"
  shows "\<exists>t0 t. fold (\<lambda>k temp. let temp = temp[0 := xs ! k] in temp[1 := barrettReduce128 temp m])
      (rev [k..<length xs - 1]) [0, xs ! (length xs - 1)] = [t0, t] \<and>
    unat t mod unat (mod_value m) = uval (drop k xs) mod unat (mod_value m) \<and>
    (k < length xs - 1 \<longrightarrow> unat t < unat (mod_value m))"
  using assms(2)
proof (induction "length xs - 1 - k" arbitrary: k)
  case 0
  then have "k = length xs - 1" by simp
  then have "drop k xs = [xs ! k]" using 0 by (metis Cons_nth_drop_Suc Suc_pred' drop_all gr_implies_not0 le_refl not_gr_zero)
  then show ?case using \<open>k = length xs - 1\<close> by simp
next
  case (Suc d)
  then have k: "k < length xs - 1" and hyp: "d = length xs - 1 - Suc k" "Suc k < length xs" by simp_all
  let ?f = "\<lambda>k temp. let temp = temp[0 := xs ! k] in temp[1 := barrettReduce128 temp m]"
  obtain t0 t where IH: "fold ?f (rev [Suc k..<length xs - 1]) [0, xs ! (length xs - 1)] = [t0, t]"
    "unat t mod unat (mod_value m) = uval (drop (Suc k) xs) mod unat (mod_value m)"
    using Suc.hyps(1) [OF hyp] by blast
  have "0 < unat (mod_value m)" using assms(1) by (simp add: has_ratio_def)
  have "rev [k..<length xs - 1] = rev [Suc k..<length xs - 1] @ [k]" using k by (simp add: upt_conv_Cons)
  then have "fold ?f (rev [k..<length xs - 1]) [0, xs ! (length xs - 1)] = [xs ! k, barrettReduce128 [xs ! k, t] m]"
    by (simp only: fold_append comp_apply IH(1)) (simp add: Let_def)
  moreover have "drop k xs = xs ! k # drop (Suc k) xs" using Suc.prems by (simp add: Cons_nth_drop_Suc)
  ultimately show ?case
    using uval_step_mod [OF IH(2), of "xs ! k"] \<open>0 < unat (mod_value m)\<close>
    by (simp add: barrettReduce128_value [OF assms(1)] del: uval.simps)
qed

lemma moduloUint_value:
  assumes "has_ratio m" "xs \<noteq> []"
  shows "unat (moduloUint xs m) = uval xs mod unat (mod_value m)"
proof (cases "length xs = 1")
  case True
  then obtain x where "xs = [x]" by (auto simp: length_Suc_conv)
  then show ?thesis
    using barrettReduce64_value [OF assms(1), of x]
    by (simp add: moduloUint_def modulus_value_def word_less_nat_alt)
next
  case False
  then have l: "0 < length xs - 1" using assms(2) by (cases xs) auto
  then obtain t0 t where t: "fold (\<lambda>k temp. let temp = temp[0 := xs ! k] in temp[1 := barrettReduce128 temp m])
      (rev [0..<length xs - 1]) [0, xs ! (length xs - 1)] = [t0, t]"
    "unat t mod unat (mod_value m) = uval xs mod unat (mod_value m)" "unat t < unat (mod_value m)"
    using moduloUint_loop [OF assms(1), of 0 xs] assms(2) by auto
  show ?thesis using False t(2,3) unfolding moduloUint_def Let_def t(1) [unfolded Let_def] by simp
qed

lemma moduloUintInplace_loop:
  assumes "has_ratio m" "k < length xs"
  shows "\<exists>t. fold (\<lambda>i value. value[i := barrettReduce128 (drop i value) m, i + 1 := 0])
      (rev [k..<length xs - 1]) xs = take k xs @ t # replicate (length xs - 1 - k) 0 \<and>
    unat t mod unat (mod_value m) = uval (drop k xs) mod unat (mod_value m) \<and>
    (k < length xs - 1 \<longrightarrow> unat t < unat (mod_value m))"
  using assms(2)
proof (induction "length xs - 1 - k" arbitrary: k)
  case 0
  then have k: "k = length xs - 1" by simp
  then have "drop k xs = [xs ! k]" using 0 by (metis Cons_nth_drop_Suc Suc_pred' drop_all gr_implies_not0 le_refl not_gr_zero)
  moreover from this have "xs = take k xs @ [xs ! k]" by (metis append_take_drop_id)
  ultimately show ?case using k by (auto intro!: exI [of _ "xs ! k"])
next
  case (Suc d)
  then have k: "k < length xs - 1" and hyp: "d = length xs - 1 - Suc k" "Suc k < length xs" by simp_all
  let ?f = "\<lambda>i value. value[i := barrettReduce128 (drop i value) m, i + 1 := 0]"
  obtain t where IH: "fold ?f (rev [Suc k..<length xs - 1]) xs = take (Suc k) xs @ t # replicate (length xs - 1 - Suc k) 0"
    "unat t mod unat (mod_value m) = uval (drop (Suc k) xs) mod unat (mod_value m)"
    using Suc.hyps(1) [OF hyp] by blast
  have m: "0 < unat (mod_value m)" using assms(1) by (simp add: has_ratio_def)
  have "rev [k..<length xs - 1] = rev [Suc k..<length xs - 1] @ [k]" using k by (simp add: upt_conv_Cons)
  then have "fold ?f (rev [k..<length xs - 1]) xs = ?f k (take (Suc k) xs @ t # replicate (length xs - 1 - Suc k) 0)"
    by (simp only: fold_append comp_apply IH(1)) simp
  also have "take (Suc k) xs @ t # replicate (length xs - 1 - Suc k) 0 =
      take k xs @ xs ! k # t # replicate (length xs - 1 - Suc k) 0"
    using Suc.prems by (simp add: take_Suc_conv_app_nth)
  also have "?f k \<dots> = take k xs @ barrettReduce128 [xs ! k, t] m # 0 # replicate (length xs - 1 - Suc k) 0"
    using Suc.prems by (simp add: list_update_append barrettReduce128_def)
  also have "0 # replicate (length xs - 1 - Suc k) 0 = replicate (length xs - 1 - k) (0 :: u64)"
    using k by (simp flip: replicate_Suc add: Suc_diff_Suc)
  finally have f: "fold ?f (rev [k..<length xs - 1]) xs =
      take k xs @ barrettReduce128 [xs ! k, t] m # replicate (length xs - 1 - k) 0" .
  have d: "drop k xs = xs ! k # drop (Suc k) xs" using Suc.prems by (simp add: Cons_nth_drop_Suc)
  have v: "unat (barrettReduce128 [xs ! k, t] m) = uval (drop k xs) mod unat (mod_value m)"
    unfolding d barrettReduce128_value [OF assms(1)] by (rule uval_step_mod [OF IH(2)])
  show ?case unfolding f using v m by (intro exI [of _ "barrettReduce128 [xs ! k, t] m"]) simp
qed

lemma moduloUintInplace_value:
  assumes "has_ratio m" "xs \<noteq> []"
  shows "moduloUintInplace xs m = moduloUint xs m # replicate (length xs - 1) 0"
proof (cases "length xs = 1")
  case True
  then obtain x where "xs = [x]" by (auto simp: length_Suc_conv)
  then show ?thesis by (simp add: moduloUintInplace_def moduloUint_def)
next
  case False
  then have l: "0 < length xs - 1" using assms(2) by (cases xs) auto
  then obtain t where t: "moduloUintInplace xs m = t # replicate (length xs - 1) 0"
    "unat t mod unat (mod_value m) = uval xs mod unat (mod_value m)" "unat t < unat (mod_value m)"
    using moduloUintInplace_loop [OF assms(1), of 0 xs] False assms(2) by (auto simp: moduloUintInplace_def)
  then have "unat t = unat (moduloUint xs m)" using moduloUint_value [OF assms] by simp
  then show ?thesis using t(1) by (simp add: word_unat_eq_iff)
qed

section \<open>Products and sums\<close>

lemma multiplyAddUintMod_value:
  assumes "has_ratio m"
  shows "unat (multiplyAddUintMod a b c m) = (unat a * unat b + unat c) mod unat (mod_value m)"
proof -
  obtain lo hi where p: "multiplyUint64 a b = (lo, hi)" by fastforce
  obtain k t where k: "addUint64 lo c = (k, t)" by fastforce
  note v = multiplyUint64_value [OF p] addUint64_value(1) [OF k]
  have e: "unat t + 18446744073709551616 * (unat hi + unat k) = unat a * unat b + unat c"
    using v by (simp add: algebra_simps)
  have "unat a * unat b + unat c < 340282366920938463463374607431768211456"
  proof -
    have "unat a * unat b \<le> 18446744073709551615 * 18446744073709551615"
      by (intro mult_le_mono unat_le64)
    then show ?thesis using unat_le64 [of c] by (simp del: unat_le64)
  qed
  from carry_fits [OF e this] have "unat (hi + ucast k) = unat hi + unat k" .
  then show ?thesis
    using barrettReduce128_value [OF assms, of t "hi + ucast k"] e
    by (simp add: multiplyAddUintMod_def p k)
qed

lemma multiplyAddUintMod_operand_value:
  assumes "has_ratio m" "operand_for m y"
  shows "unat (multiplyAddUintMod_operand x y c m) =
    (unat x * unat (mop_operand y) + unat c) mod unat (mod_value m)"
proof -
  have m: "0 < unat (mod_value m)" "unat (mod_value m) \<le> 9223372036854775808"
    using assms(1) by (auto simp: has_ratio_def)
  note v = multiplyUintMod_operand_value [OF assms(2) m(2), of x] barrettReduce64_value [OF assms(1), of c]
  have "unat (multiplyUintMod_operand x y m) + unat (barrettReduce64 c m) < 2 * unat (mod_value m)"
    using mod_less_divisor [OF m(1), of "unat x * unat (mop_operand y)"] mod_less_divisor [OF m(1), of "unat c"]
    unfolding v by linarith
  from addUintMod_value [OF this m(2)] show ?thesis
    by (simp add: multiplyAddUintMod_operand_def v mod_add_eq)
qed

section \<open>Inner products\<close>

definition dot :: "u64 list \<Rightarrow> u64 list \<Rightarrow> nat" where
  "dot xs ys = (\<Sum>(x, y)\<leftarrow>zip xs ys. unat x * unat y)"

lemma dot_append: "length xs = length ys \<Longrightarrow> dot (xs @ xs') (ys @ ys') = dot xs ys + dot xs' ys'"
  by (simp add: dot_def)

lemma dot_bound:
  assumes "\<forall>x\<in>set xs. unat x < 2 ^ 61" "\<forall>y\<in>set ys. unat y < 2 ^ 61"
  shows "dot xs ys \<le> length xs * 2 ^ 122"
  using assms
proof (induction xs arbitrary: ys)
  case Nil
  then show ?case by (simp add: dot_def)
next
  case (Cons x xs)
  show ?case
  proof (cases ys)
    case Nil
    then show ?thesis by (simp add: dot_def)
  next
    case (Cons y ys')
    have "unat x * unat y \<le> 2 ^ 61 * 2 ^ 61"
      using Cons.prems Cons by (intro mult_le_mono) (simp_all add: less_imp_le)
    then show ?thesis
      using Cons.IH [of ys'] Cons.prems Cons by (simp add: dot_def)
  qed
qed

lemma dot_block:
  assumes "has_ratio m" "length xs = length ys" "length xs \<le> 16"
    "\<forall>x\<in>set xs. unat x < 2 ^ 61" "\<forall>y\<in>set ys. unat y < 2 ^ 61"
  shows "unat (barrettReduce128 (multiplyAccumulateUint64 xs ys [a, 0]) m) = (unat a + dot xs ys) mod unat (mod_value m)"
proof -
  let ?r = "multiplyAccumulateUint64 xs ys [a, 0]"
  have r: "length ?r = 2" "uval ?r = (unat a + dot xs ys) mod 340282366920938463463374607431768211456"
    using multiplyAccumulateUint64_value [OF assms(2), of "[a, 0]"] by (simp_all add: dot_def)
  obtain r0 r1 where r01: "?r = [r0, r1]" using r(1) by (auto simp: numeral_2_eq_2 length_Suc_conv)
  have "dot xs ys \<le> 16 * 2 ^ 122"
    using dot_bound [OF assms(4,5)] mult_le_mono1 [OF assms(3), of "2 ^ 122"] by (rule order_trans)
  then have "unat a + dot xs ys < 340282366920938463463374607431768211456"
    using unat_le64 [of a] by (simp del: unat_le64)
  then have "uval [r0, r1] = unat a + dot xs ys" using r(2) unfolding r01 by simp
  then show ?thesis unfolding r01 barrettReduce128_value [OF assms(1)] by (rule arg_cong)
qed

lemma dotProductMod_value:
  assumes "has_ratio m" "length xs = length ys"
    "\<forall>x\<in>set xs. unat x < 2 ^ 61" "\<forall>y\<in>set ys. unat y < 2 ^ 61"
  shows "unat (dotProductMod xs ys m) = dot xs ys mod unat (mod_value m)"
  using assms
proof (induction xs ys m rule: dotProductMod.induct)
  case (1 xs ys m)
  consider "xs = []" | "xs \<noteq> []" "length xs \<le> 16" | "16 < length xs" by linarith
  then show ?case
  proof cases
    case 1
    then show ?thesis by (simp add: dotProductMod.simps dot_def)
  next
    case 2
    then have "dotProductMod xs ys m = barrettReduce128 (multiplyAccumulateUint64 xs ys [0, 0]) m"
      by (simp add: dotProductMod.simps)
    then show ?thesis using dot_block [OF "1.prems"(1,2) 2(2) "1.prems"(3,4), of 0] by simp
  next
    case 3
    let ?d = "dotProductMod (drop 16 xs) (drop 16 ys) m"
    have IH: "unat ?d = dot (drop 16 xs) (drop 16 ys) mod unat (mod_value m)"
      using "1.prems" 3 by (intro "1.IH") (auto dest: in_set_dropD)
    have "dotProductMod xs ys m = barrettReduce128 (multiplyAccumulateUint64 (take 16 xs) (take 16 ys) [?d, 0]) m"
      using 3 by (subst dotProductMod.simps) (auto simp: Let_def)
    then have "unat (dotProductMod xs ys m) = (unat ?d + dot (take 16 xs) (take 16 ys)) mod unat (mod_value m)"
      using dot_block [OF "1.prems"(1), of "take 16 xs" "take 16 ys" ?d] "1.prems"(2-4) 3
      by (auto dest: in_set_takeD)
    also have "\<dots> = (dot (drop 16 xs) (drop 16 ys) + dot (take 16 xs) (take 16 ys)) mod unat (mod_value m)"
      unfolding IH by (rule mod_add_left_eq)
    also have "dot (drop 16 xs) (drop 16 ys) + dot (take 16 xs) (take 16 ys) = dot xs ys"
      using dot_append [of "take 16 xs" "take 16 ys" "drop 16 xs" "drop 16 ys"] "1.prems"(2) by simp
    finally show ?thesis .
  qed
qed

section \<open>The division of a long number\<close>

lemma divideUintModInplace_two:
  assumes "mod_value m \<noteq> 0"
  shows "\<exists>r q. divideUintModInplace [n0, n1] m 2 [q0, q1] = Some (Inr (r, q)) \<and>
    uval r = uval [n0, n1] mod unat (mod_value m) \<and> uval q = uval [n0, n1] div unat (mod_value m)"
proof -
  obtain r q where d: "divideUint128Inplace [n0, n1] (mod_value m) = (r, q)" by fastforce
  have "divideUintModInplace [n0, n1] m 2 [q0, q1] = Some (Inr (r, q))"
    by (subst divideUintModInplace.simps) (simp add: d modulus_value_def)
  then show ?thesis using divideUint128Inplace_spec [OF assms d] by blast
qed

lemma divideUintModInplace_one:
  assumes "has_ratio m"
  shows "divideUintModInplace (n # ns) m 1 (q # qs) = Some (Inr (barrettReduce64 n m # ns, 0 # qs))"
proof -
  have "unat (barrettReduce64 n m) < unat (mod_value m)"
    using assms by (simp add: barrettReduce64_value has_ratio_def)
  then have "unat (barrettReduce64 n m div mod_value m) = 0" by (simp add: unat_div)
  then have "barrettReduce64 n m div mod_value m = 0" by (simp only: unat_eq_0)
  then show ?thesis by (subst divideUintModInplace.simps) (simp add: modulus_value_def)
qed

section \<open>Properties\<close>

definition modulus_17 :: Modulus where
  "modulus_17 = \<lparr>mod_value = 17, mod_const_ratio = [1085102592571150095, 1085102592571150095, 1],
     mod_uint64_count = 1, mod_bit_count = 5, mod_is_prime = True\<rparr>"

lemma has_ratio_17: "has_ratio modulus_17"
  by (simp add: has_ratio_def modulus_17_def)

text \<open>
  C39. The Barrett reductions of a word, of two words, of a product and of a product plus a word
  return exactly the remainder by the modulus, for every input and every modulus of at most 63
  bits whose ratio is the one the class stores.
\<close>

theorem barrett_reductions_exact:
  assumes "has_ratio m"
  shows "unat (barrettReduce64 x m) = unat x mod unat (mod_value m)
    \<and> unat (barrettReduce128 [x, y] m) = uval [x, y] mod unat (mod_value m)
    \<and> unat (multiplyUintMod x y m) = unat x * unat y mod unat (mod_value m)
    \<and> unat (multiplyAddUintMod x y z m) = (unat x * unat y + unat z) mod unat (mod_value m)"
  using assms
  by (intro conjI) (rule barrettReduce64_value barrettReduce128_value multiplyUintMod_value multiplyAddUintMod_value, assumption)+

theorem barrett_reductions_exact_witness:
  "unat (barrettReduce64 100 modulus_17) = unat (100 :: u64) mod unat (mod_value modulus_17)
    \<and> unat (barrettReduce128 [100, 7] modulus_17) = uval [100, 7] mod unat (mod_value modulus_17)
    \<and> unat (multiplyUintMod 100 7 modulus_17) = unat (100 :: u64) * unat (7 :: u64) mod unat (mod_value modulus_17)
    \<and> unat (multiplyAddUintMod 100 7 5 modulus_17) = (unat (100 :: u64) * unat (7 :: u64) + unat (5 :: u64)) mod unat (mod_value modulus_17)"
  by (rule barrett_reductions_exact) (rule has_ratio_17)

text \<open>
  The product with a precomputed operand: \<open>set\<close> stores the quotient that the products rely
  on, and then for every other factor the product is the remainder, the lazy one the remainder or
  the remainder plus the modulus, and the product with a sum the remainder of product and sum.
\<close>

theorem multiply_operand_correct:
  assumes "has_ratio m" "c < mod_value m"
  shows "unat (multiplyUintMod_operand x (set_operand c m p) m) = unat x * unat c mod unat (mod_value m)
    \<and> unat (multiplyUintModLazy x (set_operand c m p) m)
        \<in> {unat x * unat c mod unat (mod_value m), unat x * unat c mod unat (mod_value m) + unat (mod_value m)}
    \<and> unat (multiplyAddUintMod_operand x (set_operand c m p) y m) = (unat x * unat c + unat y) mod unat (mod_value m)"
proof -
  have m: "unat (mod_value m) \<le> 9223372036854775808" using assms(1) by (simp add: has_ratio_def)
  note o = set_operand_for [OF assms(2), of p, THEN conjunct1] set_operand_for [OF assms(2), of p, THEN conjunct2]
  note lazy = multiplyUintModLazy_value [OF o(1) m, of x, unfolded o(2)]
  have "unat (multiplyUintModLazy x (set_operand c m p) m)
      \<in> {unat x * unat c mod unat (mod_value m), unat x * unat c mod unat (mod_value m) + unat (mod_value m)}"
  proof (cases "unat (multiplyUintModLazy x (set_operand c m p) m) < unat (mod_value m)")
    case True
    then show ?thesis using lazy(2) by simp
  next
    case False
    with lazy(1) have "unat (multiplyUintModLazy x (set_operand c m p) m) mod unat (mod_value m) =
        unat (multiplyUintModLazy x (set_operand c m p) m) - unat (mod_value m)" by (simp add: le_mod_geq)
    with lazy(2) False have "unat (multiplyUintModLazy x (set_operand c m p) m) =
        unat x * unat c mod unat (mod_value m) + unat (mod_value m)" by linarith
    then show ?thesis by blast
  qed
  then show ?thesis
    using multiplyUintMod_operand_value [OF o(1) m, of x] multiplyAddUintMod_operand_value [OF assms(1) o(1), of x y]
    unfolding o(2) by blast
qed

theorem multiply_operand_correct_witness:
  "unat (multiplyUintMod_operand 9 (set_operand 5 modulus_17 \<lparr>mop_operand = 0, mop_quotient = 0\<rparr>) modulus_17)
      = unat (9 :: u64) * unat (5 :: u64) mod unat (mod_value modulus_17)"
  by (rule multiply_operand_correct [THEN conjunct1, OF has_ratio_17]) (simp add: modulus_17_def)

text \<open>
  The operations without a multiplication are those of the integers modulo the modulus, on
  operands already reduced (for halving the modulus must be odd): sum, difference, negation,
  increment, decrement, and the half whose double is the operand. Nothing wraps around.
\<close>

theorem small_mod_group_operations:
  assumes "has_ratio m" "a < mod_value m" "b < mod_value m"
  shows "unat (addUintMod a b m) = (unat a + unat b) mod unat (mod_value m)
    \<and> int (unat (subUintMod a b m)) = (int (unat a) - int (unat b)) mod int (unat (mod_value m))
    \<and> int (unat (negateUintMod a m)) = (- int (unat a)) mod int (unat (mod_value m))
    \<and> unat (incrementUintMod a m) = (unat a + 1) mod unat (mod_value m)
    \<and> int (unat (decrementUintMod a m)) = (int (unat a) - 1) mod int (unat (mod_value m))
    \<and> (odd (unat (mod_value m)) \<longrightarrow>
        div2UintMod a m < mod_value m \<and> addUintMod (div2UintMod a m) (div2UintMod a m) m = a)"
proof -
  let ?m = "unat (mod_value m)"
  have m: "?m \<le> 9223372036854775808" using assms(1) by (simp add: has_ratio_def)
  have ab: "unat a < ?m" "unat b < ?m" using assms by (simp_all add: word_less_nat_alt)
  have diff: "int ((x + ?m - k) mod ?m) = (int x - int k) mod int ?m" if "k \<le> ?m" for x k
  proof -
    have "int ((x + ?m - k) mod ?m) = (int x - int k + int ?m) mod int ?m"
      using that by (simp add: zmod_int of_nat_diff algebra_simps)
    then show ?thesis by simp
  qed
  have "unat (addUintMod a b m) = (unat a + unat b) mod ?m" by (rule addUintMod_value) (use ab m in linarith)+
  moreover have "int (unat (subUintMod a b m)) = (int (unat a) - int (unat b)) mod int ?m"
    using subUintMod_value [of a m b] diff [of "unat b" "unat a"] ab by simp
  moreover have "int (unat (negateUintMod a m)) = (- int (unat a)) mod int ?m"
  proof -
    have "unat (negateUintMod a m) = (0 + ?m - unat a) mod ?m"
    proof (cases "a = 0")
      case False
      then have "0 < unat a" by (simp add: unat_gt_0)
      then have "unat (mod_value m) - unat a < unat (mod_value m)" using ab by linarith
      then show ?thesis using negateUintMod_value [of a m] ab False by simp
    qed (use negateUintMod_value [of a m] in simp)
    then show ?thesis using diff [of "unat a" 0] ab by simp
  qed
  moreover have "unat (incrementUintMod a m) = (unat a + 1) mod ?m"
    by (rule incrementUintMod_value) (use ab m in linarith)+
  moreover have "int (unat (decrementUintMod a m)) = (int (unat a) - 1) mod int ?m"
    using decrementUintMod_value [OF ab(1)] diff [of 1 "unat a"] ab by simp
  moreover have "div2UintMod a m < mod_value m \<and> addUintMod (div2UintMod a m) (div2UintMod a m) m = a"
    if "odd ?m"
  proof -
    note h = div2UintMod_value [OF ab(1) that]
    have "unat (addUintMod (div2UintMod a m) (div2UintMod a m) m) = unat a"
      using addUintMod_value [of "div2UintMod a m" "div2UintMod a m" m] h m by (simp flip: mult_2)
    then show ?thesis using h(1) by (simp add: word_less_nat_alt word_unat_eq_iff)
  qed
  ultimately show ?thesis by blast
qed

theorem small_mod_group_operations_witness:
  "unat (addUintMod 9 12 modulus_17) = (unat (9 :: u64) + unat (12 :: u64)) mod unat (mod_value modulus_17)"
  by (rule small_mod_group_operations [THEN conjunct1, OF has_ratio_17]) (simp_all add: modulus_17_def)

text \<open>
  Binary exponentiation is the power modulo the modulus, for every 64-bit exponent. (With the
  exponent one the code returns the operand as it is, so the operand has to be reduced there.)
\<close>

theorem exponentiateUintMod_correct:
  assumes "has_ratio m" "1 < unat (mod_value m)" "e \<noteq> 1 \<or> a < mod_value m"
  shows "unat (exponentiateUintMod a e m) = unat a ^ unat e mod unat (mod_value m)"
  using assms by (intro exponentiateUintMod_value) (auto simp: word_less_nat_alt)

theorem exponentiateUintMod_correct_witness:
  "unat (exponentiateUintMod 3 16 modulus_17) = unat (3 :: u64) ^ unat (16 :: u64) mod unat (mod_value modulus_17)"
  by (rule exponentiateUintMod_correct [OF has_ratio_17]) (simp_all add: modulus_17_def)

text \<open>
  The loops over long inputs: reducing a number of any length, in place or not, gives its
  remainder and zeroes the other words, and the inner product of two vectors of any length, reduced
  once per sixteen products, is the inner product modulo the modulus, without overflow of the
  128-bit accumulator when the words are at most 61 bits long.
\<close>

theorem long_reductions_correct:
  assumes "has_ratio m" "xs \<noteq> []" "length xs = length ys"
    "\<forall>x\<in>set xs. unat x < 2 ^ 61" "\<forall>y\<in>set ys. unat y < 2 ^ 61"
  shows "unat (moduloUint xs m) = uval xs mod unat (mod_value m)
    \<and> moduloUintInplace xs m = moduloUint xs m # replicate (length xs - 1) 0
    \<and> unat (dotProductMod xs ys m) = (\<Sum>(x, y)\<leftarrow>zip xs ys. unat x * unat y) mod unat (mod_value m)"
  using moduloUint_value [OF assms(1,2)] moduloUintInplace_value [OF assms(1,2)]
    dotProductMod_value [OF assms(1,3-5)] unfolding dot_def by blast

theorem long_reductions_correct_witness:
  "unat (moduloUint [5, 6] modulus_17) = uval [5, 6] mod unat (mod_value modulus_17)
    \<and> moduloUintInplace [5, 6] modulus_17 = moduloUint [5, 6] modulus_17 # replicate (length [5 :: u64, 6] - 1) 0
    \<and> unat (dotProductMod [5, 6] [7, 8] modulus_17)
        = (\<Sum>(x, y)\<leftarrow>zip [5 :: u64, 6] [7 :: u64, 8]. unat x * unat y) mod unat (mod_value modulus_17)"
  by (rule long_reductions_correct) (simp_all add: has_ratio_17)

text \<open>
  The division of a long number by the modulus: for two words it leaves the remainder and the
  quotient. For one word the numerator is reduced before the quotient is taken from it, so that the
  quotient is zero whatever the numerator was. For a zero number of three words the recursion is
  called for no words at all and the allocation fails.
\<close>

theorem divideUintModInplace_cases:
  assumes "has_ratio m"
  shows "(\<exists>r q. divideUintModInplace [n0, n1] m 2 [q0, q1] = Some (Inr (r, q)) \<and>
      uval r = uval [n0, n1] mod unat (mod_value m) \<and> uval q = uval [n0, n1] div unat (mod_value m))
    \<and> divideUintModInplace [n0] m 1 [q0] = Some (Inr ([barrettReduce64 n0 m], [0]))
    \<and> divideUintModInplace [0, 0, 0] m 3 [q0, q1, q2] = Some (Inl Bad_alloc)"
proof -
  have m: "mod_value m \<noteq> 0" using assms by (auto simp: has_ratio_def)
  let ?r = "snd (addUint_counts (multiplyUint_word [0] (constRatio m ! 2) 2) [0, 0] 0 3)"
  obtain c r where cr: "addUint_counts (multiplyUint_word [0] (constRatio m ! 2) 2) [0, 0] 0 3 = (c, r)" by fastforce
  have "uval r = 0" "length r = 3"
    using addUint_counts_value [OF cr] multiplyUint_word_value [of "[0]" "constRatio m ! 2" 2] by simp_all
  then have "getSignificantUint64CountUint r = 0"
    using getSignificantUint64CountUint_spec [of r] by (auto simp: uval_eq_0_iff)
  moreover have "divideUintModInplace n m 0 q = Some (Inl Bad_alloc)" for n q
    by (subst divideUintModInplace.simps) simp
  ultimately have "divideUintModInplace [0, 0, 0] m 3 [q0, q1, q2] = Some (Inl Bad_alloc)"
    by (subst divideUintModInplace.simps) (simp add: cr)
  then show ?thesis
    using divideUintModInplace_two [OF m, of n0 n1 q0 q1] divideUintModInplace_one [OF assms, of n0 "[]" q0 "[]"]
    by simp
qed

theorem divideUintModInplace_cases_witness:
  "divideUintModInplace [40] modulus_17 1 [0] = Some (Inr ([barrettReduce64 40 modulus_17], [0]))"
  by (rule divideUintModInplace_cases [OF has_ratio_17, THEN conjunct2, THEN conjunct1])

end
