(* ===== verification/Prime_Facts.thy ===== *)
theory Prime_Facts
  imports Heu_Prelude
begin

text \<open>
  The number theory behind the primality test and the roots of unity: prime numbers, Fermat's
  theorem, the square roots of one, and the orders of powers. No code is modelled here.
\<close>

definition prime_nat :: "nat \<Rightarrow> bool" where
  "prime_nat p \<longleftrightarrow> 1 < p \<and> (\<forall>d. d dvd p \<longrightarrow> d = 1 \<or> d = p)"

lemma prime_natD: "prime_nat p \<Longrightarrow> 1 < p" "prime_nat p \<Longrightarrow> d dvd p \<Longrightarrow> d = 1 \<or> d = p"
  by (auto simp: prime_nat_def)

lemma prime_coprime: "prime_nat p \<Longrightarrow> \<not> p dvd a \<Longrightarrow> coprime a p"
  by (metis coprime_iff_gcd_eq_1 gcd_dvd1 gcd_dvd2 prime_natD(2))

lemma prime_dvd_mult:
  assumes "prime_nat p" "p dvd a * b"
  shows "p dvd a \<or> p dvd b"
  using prime_coprime [OF assms(1), of a] assms(2) coprime_dvd_mult_right_iff [of p a b]
  by (auto simp: coprime_commute)

lemma prime_dvd_prod:
  assumes "prime_nat p" "p dvd (\<Prod>i\<in>A. f i)" "finite A"
  shows "\<exists>i\<in>A. p dvd f i"
  using assms(3,2)
proof (induction A rule: finite_induct)
  case empty
  then show ?case using prime_natD(1) [OF assms(1)] by simp
next
  case (insert x A)
  then show ?case using prime_dvd_mult [OF assms(1), of "f x" "\<Prod>i\<in>A. f i"] by auto
qed

lemma mod_eq_dvd_diff: "(a :: nat) mod p = b mod p \<Longrightarrow> b \<le> a \<Longrightarrow> p dvd a - b"
  by (simp add: mod_eq_dvd_iff_nat)

lemma prime_cancel:
  assumes "prime_nat p" "\<not> p dvd c" "c * a mod p = c * b mod p"
  shows "a mod p = b mod p"
proof -
  have "x mod p = y mod p" if "y \<le> x" "c * x mod p = c * y mod p" for x y
  proof -
    have "p dvd c * (x - y)"
      using mod_eq_dvd_diff [OF that(2)] that(1) by (simp add: diff_mult_distrib2)
    then have "p dvd x - y" using prime_dvd_mult assms(1,2) by blast
    then show ?thesis using that(1) by (simp add: mod_eq_dvd_iff_nat)
  qed
  from this [of a b] this [of b a] show ?thesis
    using assms(3) by (metis nat_le_linear)
qed

text \<open>Multiplication by a unit permutes the non-zero remainders.\<close>

lemma mult_permutes:
  assumes "prime_nat p" "\<not> p dvd a"
  shows "bij_betw (\<lambda>i. a * i mod p) {1..<p} {1..<p}"
proof -
  have p: "1 < p" by (rule prime_natD(1) [OF assms(1)])
  have "inj_on (\<lambda>i. a * i mod p) {1..<p}"
  proof (rule inj_onI)
    fix x y
    assume x: "x \<in> {1..<p}" and y: "y \<in> {1..<p}" and "a * x mod p = a * y mod p"
    from prime_cancel [OF assms this(3)] have "x mod p = y mod p" .
    then show "x = y" using x y by simp
  qed
  moreover have "(\<lambda>i. a * i mod p) ` {1..<p} \<subseteq> {1..<p}"
  proof
    fix x
    assume "x \<in> (\<lambda>i. a * i mod p) ` {1..<p}"
    then obtain i where i: "1 \<le> i" "i < p" "x = a * i mod p" by auto
    have "\<not> p dvd i" using i by (auto dest: dvd_imp_le)
    then have "\<not> p dvd a * i" using prime_dvd_mult assms by blast
    then have "0 < x" unfolding i(3) by (simp add: dvd_eq_mod_eq_0)
    moreover have "x < p" unfolding i(3) using p by simp
    ultimately show "x \<in> {1..<p}" by simp
  qed
  ultimately show ?thesis
    by (simp add: bij_betw_def endo_inj_surj)
qed

theorem fermat_little:
  assumes "prime_nat p" "\<not> p dvd a"
  shows "a ^ (p - 1) mod p = 1"
proof -
  have p: "1 < p" by (rule prime_natD(1) [OF assms(1)])
  let ?F = "\<Prod>i\<in>{1..<p}. i"
  have "?F mod p = (\<Prod>i\<in>{1..<p}. a * i mod p) mod p"
    using prod.reindex_bij_betw [OF mult_permutes [OF assms], of "\<lambda>x. x"] by simp
  also have "\<dots> = (\<Prod>i\<in>{1..<p}. a * i) mod p" by (rule mod_prod_eq)
  also have "(\<Prod>i\<in>{1..<p}. a * i) = a ^ (p - 1) * ?F" by (simp add: prod.distrib)
  finally have e: "?F * a ^ (p - 1) mod p = ?F * 1 mod p" by (simp add: mult.commute)
  have "\<not> p dvd ?F"
  proof
    assume "p dvd ?F"
    then obtain i where "i \<in> {1..<p}" "p dvd i" using prime_dvd_prod [OF assms(1)] by blast
    then show False by (auto dest: dvd_imp_le)
  qed
  from prime_cancel [OF assms(1) this e] show ?thesis using p by simp
qed

lemma sqrt_one_mod_prime:
  assumes "prime_nat p" "x < p" "x * x mod p = 1"
  shows "x = 1 \<or> x = p - 1"
proof -
  have p: "1 < p" by (rule prime_natD(1) [OF assms(1)])
  have x: "0 < x" using assms(3) by (cases x) simp_all
  have "p dvd x * x - 1" using mod_eq_dvd_diff [of "x * x" p 1] assms(3) p x by (simp add: Suc_leI)
  moreover have "x * x - 1 = (x - 1) * (x + 1)" using x by (cases x) simp_all
  ultimately have "p dvd x - 1 \<or> p dvd x + 1" using prime_dvd_mult [OF assms(1)] by simp
  then show ?thesis
  proof
    assume "p dvd x - 1"
    then have "x - 1 = 0" using assms(2) by (auto dest: dvd_imp_le)
    then show ?thesis using x by simp
  next
    assume "p dvd x + 1"
    then have "p \<le> x + 1" by (auto dest: dvd_imp_le)
    then have "x = p - 1" using assms(2) by linarith
    then show ?thesis ..
  qed
qed

text \<open>The chain of squares of the Miller-Rabin test reaches \<open>- 1\<close> before it reaches one.\<close>

lemma miller_rabin_chain:
  assumes "prime_nat p" "\<not> p dvd a" "p - 1 = 2 ^ r * d"
  shows "a ^ d mod p = 1 \<or> (\<exists>k<r. a ^ (2 ^ k * d) mod p = p - 1)"
proof -
  have p: "1 < p" by (rule prime_natD(1) [OF assms(1)])
  define P where "P = (\<lambda>k. a ^ (2 ^ k * d) mod p = 1)"
  have "P r" unfolding P_def assms(3) [symmetric] by (rule fermat_little [OF assms(1,2)])
  define k where "k = (LEAST k. P k)"
  have k: "P k" "k \<le> r" "\<And>j. j < k \<Longrightarrow> \<not> P j"
    using \<open>P r\<close> by (auto simp: k_def intro: LeastI Least_le dest: not_less_Least)
  show ?thesis
  proof (cases k)
    case 0
    then show ?thesis using k(1) by (simp add: P_def)
  next
    case (Suc j)
    let ?x = "a ^ (2 ^ j * d) mod p"
    have "?x * ?x mod p = a ^ (2 ^ j * d) * a ^ (2 ^ j * d) mod p" by (rule mod_mult_eq)
    also have "a ^ (2 ^ j * d) * a ^ (2 ^ j * d) = a ^ (2 ^ k * d)"
      by (simp add: Suc algebra_simps flip: power_add mult_2)
    finally have "?x * ?x mod p = 1" using k(1) by (simp add: P_def)
    moreover have "?x < p" "?x \<noteq> 1" using p k(3) [of j] by (simp_all add: Suc P_def)
    ultimately have "?x = p - 1" using sqrt_one_mod_prime [OF assms(1)] by blast
    then show ?thesis using k(2) Suc by (intro disjI2 exI [of _ j]) simp
  qed
qed

section \<open>Primitive roots of a power of two\<close>

lemma minus_one_power:
  fixes m x :: nat
  assumes "1 < m" "x mod m = m - 1"
  shows "x ^ n mod m = (if even n then 1 else m - 1)"
proof -
  have sq: "(m - 1) * (m - 1) mod m = 1 mod m"
  proof -
    have m: "m = (m - 2) + 2" using assms(1) by simp
    define k where "k = m - 2"
    have m: "m = k + 2" using m by (simp add: k_def)
    have "m - 1 = k + 1" by (simp add: m)
    then have "(m - 1) * (m - 1) = 1 + k * m" unfolding m by (simp add: algebra_simps)
    then show ?thesis by (simp only: mod_mult_self1)
  qed
  show ?thesis
  proof (induction n)
    case 0
    then show ?case using assms(1) by simp
  next
    case (Suc n)
    have "x ^ Suc n mod m = (x mod m) * (x ^ n mod m) mod m" by (simp add: mod_mult_eq)
    also have "\<dots> = (m - 1) * (if even n then 1 else m - 1) mod m" unfolding assms(2) Suc ..
    also have "\<dots> = (if even (Suc n) then 1 else m - 1)" using assms(1) sq by simp
    finally show ?case .
  qed
qed

text \<open>
  A number whose \<open>2 ^ k\<close>-th power is \<open>- 1\<close> modulo \<open>m > 2\<close> has order exactly \<open>2 ^ (k + 1)\<close>.
\<close>

lemma odd_part:
  assumes "0 < (j :: nat)"
  obtains i s where "j = 2 ^ i * s" "odd s"
proof -
  have "\<exists>i s. j = 2 ^ i * s \<and> odd s"
    using assms
  proof (induction j rule: less_induct)
    case (less j)
    show ?case
    proof (cases "odd j")
      case True
      then show ?thesis by (intro exI [of _ 0] exI [of _ j]) simp
    next
      case False
      then obtain k where k: "j = 2 * k" by blast
      then obtain i s where "k = 2 ^ i * s" "odd s" using less.IH [of k] less.prems by auto
      then show ?thesis using k by (intro exI [of _ "Suc i"] exI [of _ s]) simp
    qed
  qed
  then show ?thesis using that by blast
qed

lemma order_of_root:
  fixes m x :: nat
  assumes "2 < m" "x ^ 2 ^ k mod m = m - 1" "x ^ j mod m = 1"
  shows "2 ^ Suc k dvd j"
proof (cases "j = 0")
  case False
  then obtain i s where j: "j = 2 ^ i * s" "odd s" using odd_part by blast
  have "Suc k \<le> i"
  proof (rule ccontr)
    assume "\<not> Suc k \<le> i"
    then obtain d where d: "k = i + d" using le_Suc_ex by (metis not_less_eq_eq)
    have "x ^ (j * 2 ^ d) = (x ^ 2 ^ k) ^ s"
      by (simp add: j d power_add flip: power_mult) (simp add: ac_simps)
    then have "x ^ (j * 2 ^ d) mod m = m - 1"
      using minus_one_power [of m "x ^ 2 ^ k" s] assms(1,2) j(2) by simp
    moreover have "x ^ (j * 2 ^ d) mod m = 1 ^ 2 ^ d mod m"
      unfolding power_mult using assms(3) power_mod [of "x ^ j" m "2 ^ d"] by simp
    ultimately show False using assms(1) by simp
  qed
  then have "2 ^ Suc k dvd (2 :: nat) ^ i" by (rule le_imp_power_dvd)
  then show ?thesis unfolding j(1) by (rule dvd_mult2)
qed simp

section \<open>No square root of minus one modulo \<open>4 * k + 3\<close>\<close>

lemma prime_factor_3_mod_4:
  "v mod 4 = (3 :: nat) \<Longrightarrow> \<exists>p. prime_nat p \<and> p dvd v \<and> p mod 4 = 3"
proof (induction v rule: less_induct)
  case (less v)
  show ?case
  proof (cases "prime_nat v")
    case True
    then show ?thesis using less.prems by (intro exI [of _ v]) simp
  next
    case False
    have "1 < v"
    proof (rule ccontr)
      assume "\<not> 1 < v"
      then have "v = 0 \<or> v = 1" by linarith
      then show False using less.prems by auto
    qed
    then obtain a where a: "a dvd v" "a \<noteq> 1" "a \<noteq> v" using False by (auto simp: prime_nat_def)
    then obtain b where v: "v = a * b" by (elim dvdE)
    have "0 < a" "0 < b" using v \<open>1 < v\<close> by (auto intro: Nat.gr0I)
    then have "1 < a" "a \<le> v" using a dvd_imp_le [OF a(1)] \<open>1 < v\<close> by linarith+
    then have "a < v" using a(3) by linarith
    have "b < v" using \<open>1 < a\<close> \<open>0 < b\<close> by (simp add: v)
    have "a mod 4 = 3 \<or> b mod 4 = 3"
    proof -
      have "(a mod 4) * (b mod 4) mod 4 = 3" using less.prems by (simp add: v mod_mult_eq)
      moreover have "a mod 4 \<in> {0, 1, 2, 3}" "b mod 4 \<in> {0, 1, 2, 3}" by auto
      ultimately show ?thesis by auto
    qed
    then show ?thesis
      using less.IH [OF \<open>a < v\<close>] less.IH [OF \<open>b < v\<close>] v by (metis dvd_mult dvd_mult2)
  qed
qed

lemma no_sqrt_minus_one:
  assumes "v mod 4 = 3" "x * x mod v = v - (1 :: nat)"
  shows False
proof -
  obtain p where p: "prime_nat p" "p dvd v" "p mod 4 = 3" using prime_factor_3_mod_4 [OF assms(1)] by blast
  have v: "0 < v" using assms(1) by (cases v) simp_all
  have "2 < p" using p(3) by (cases "p \<le> 2") (auto simp: numeral_2_eq_2 le_Suc_eq)
  have "v dvd x * x + 1"
    using assms(2) v by (metis Suc_eq_plus1 Suc_pred' dvd_eq_mod_eq_0 mod_Suc mod_mod_trivial)
  then have "p dvd x * x + 1" using p(2) dvd_trans by blast
  then have m1: "x * x mod p = p - 1"
    using \<open>2 < p\<close> by (auto simp: mod_Suc dvd_eq_mod_eq_0 split: if_splits)
  have "\<not> p dvd x"
  proof
    assume "p dvd x"
    then have "x * x mod p = 0" by simp
    then show False using m1 \<open>2 < p\<close> by simp
  qed
  then have "x ^ (p - 1) mod p = 1" by (rule fermat_little [OF p(1)])
  moreover have "p - 1 = 2 * ((p - 1) div 2)" "odd ((p - 1) div 2)" using p(3) \<open>2 < p\<close> by presburger+
  moreover have "x ^ (2 * ((p - 1) div 2)) = (x * x) ^ ((p - 1) div 2)" by (simp add: power_mult power2_eq_square)
  ultimately show False
    using minus_one_power [of p "x * x" "(p - 1) div 2"] m1 \<open>2 < p\<close> by simp
qed

text \<open>Strong probable primes, the notion the Miller-Rabin test decides for one base.\<close>

definition strong_probable_prime :: "nat \<Rightarrow> nat \<Rightarrow> bool" where
  "strong_probable_prime n a \<longleftrightarrow>
     (\<exists>r d. n - 1 = 2 ^ r * d \<and> odd d \<and> (a ^ d mod n = 1 \<or> (\<exists>k<r. a ^ (2 ^ k * d) mod n = n - 1)))"

lemma odd_part_unique:
  assumes "(2 :: nat) ^ r * d = 2 ^ r' * d'" "odd d" "odd d'"
  shows "r = r' \<and> d = d'"
  using assms
proof (induction r arbitrary: r')
  case 0
  then show ?case by (cases r') auto
next
  case (Suc r)
  then show ?case by (cases r') auto
qed

lemma strong_probable_prime_iff:
  assumes "n - 1 = 2 ^ r * d" "odd d"
  shows "strong_probable_prime n a \<longleftrightarrow> a ^ d mod n = 1 \<or> (\<exists>k<r. a ^ (2 ^ k * d) mod n = n - 1)"
proof
  assume "strong_probable_prime n a"
  then obtain r' d' where e: "n - 1 = 2 ^ r' * d'" "odd d'"
    "a ^ d' mod n = 1 \<or> (\<exists>k<r'. a ^ (2 ^ k * d') mod n = n - 1)"
    unfolding strong_probable_prime_def by (elim exE conjE) (rule that)
  have "r = r' \<and> d = d'" using odd_part_unique [OF _ assms(2) e(2)] assms(1) e(1) by metis
  then show "a ^ d mod n = 1 \<or> (\<exists>k<r. a ^ (2 ^ k * d) mod n = n - 1)" using e(3) by blast
next
  assume "a ^ d mod n = 1 \<or> (\<exists>k<r. a ^ (2 ^ k * d) mod n = n - 1)"
  then show "strong_probable_prime n a" unfolding strong_probable_prime_def using assms by blast
qed

text \<open>A prime is a strong probable prime to every base it does not divide.\<close>

lemma prime_strong_probable:
  assumes "prime_nat p" "2 < p" "\<not> p dvd a"
  shows "strong_probable_prime p a"
proof -
  obtain r d where "p - 1 = 2 ^ r * d" "odd d" using odd_part [of "p - 1"] assms(2) by auto
  then show ?thesis using miller_rabin_chain [OF assms(1,3)] strong_probable_prime_iff by blast
qed

end
