(* ===== verification/Num_Th.thy ===== *)
theory Num_Th
  imports Small_Mod Prime_Facts
begin

unbundle bit_operations_syntax

text \<open>
  Number theory: \<open>utils/numth.h\<close> and \<open>numth.cpp\<close> of \<open>heu/library/algorithms/seal_gpu/\<close>. The draws
  of \<open>random_device\<close> and of the distributions over it are arguments of the functions that make them.
\<close>

section \<open>The functions of the code\<close>

text \<open>The non-adjacent form. The loop counts the position of the digit.\<close>

lemma and_3_mod_4: "(v :: int) AND 3 = v mod 4"
  using take_bit_eq_mask [of 2 v] by (simp add: take_bit_eq_mod mask_eq_exp_minus_1)

lemma naf_step_less:
  assumes "0 < v"
  shows "nat (drop_bit 1 (v - (if v AND 1 \<noteq> 0 then 2 - (v AND 3) else 0))) < nat (v :: int)"
  using assms unfolding and_3_mod_4 by (simp add: drop_bit_eq_div and_one_eq) presburger

function naf_loop :: "bool \<Rightarrow> int \<Rightarrow> nat \<Rightarrow> int list" where
  "naf_loop sign value i =
     (if value \<le> 0 then []
      else let zi = (if value AND 1 \<noteq> 0 then 2 - (value AND 3) else 0);
               rest = naf_loop sign (drop_bit 1 (value - zi)) (i + 1)
           in if zi \<noteq> 0 then (if sign then - zi else zi) * 2 ^ i # rest else rest)"
  by pat_completeness auto

termination
  using naf_step_less by (relation "measure (\<lambda>(sign, value, i). nat value)") auto

definition naf :: "int \<Rightarrow> int list" where
  "naf value = naf_loop (value < 0) \<bar>value\<bar> 0"

function gcd64 :: "u64 \<Rightarrow> u64 \<Rightarrow> u64" where
  "gcd64 x y =
     (if x < y then gcd64 y x
      else if y = 0 then x
      else let f = x mod y in if f = 0 then y else gcd64 y f)"
  by pat_completeness auto

lemma word_mod_less: "(y :: u64) \<noteq> 0 \<Longrightarrow> unat (x mod y) < unat y"
  by (simp add: unat_mod unat_gt_0)

termination gcd64
  using word_mod_less by (relation "measure (\<lambda>(x, y). unat y)") (auto simp: word_less_nat_alt)

declare gcd64.simps [simp del]

definition areCoprime :: "u64 \<Rightarrow> u64 \<Rightarrow> bool" where
  "areCoprime x y = (\<not> gcd64 x y > 1)"

text \<open>
  The extended Euclidean algorithm on 64-bit words, with the checked arithmetic of \<open>common.h\<close>; each
  of its exceptions leaves the loop.
\<close>

function xgcd_loop :: "u64 \<Rightarrow> u64 \<Rightarrow> int \<Rightarrow> int \<Rightarrow> int \<Rightarrow> int \<Rightarrow> (u64 \<times> int \<times> int) res" where
  "xgcd_loop x y prev_a a prev_b b =
     (if y = 0 then Inr (x, prev_a, prev_b)
      else
        rbind (safe_cast int64_t uint64_t (uint (x div y))) (\<lambda>q.
        rbind (safe_cast int64_t uint64_t (uint (x mod y))) (\<lambda>temp.
        rbind (safe_cast uint64_t int64_t temp) (\<lambda>y'.
        rbind (mul_safe int64_t q a) (\<lambda>qa.
        rbind (sub_safe int64_t prev_a qa) (\<lambda>a'.
        rbind (mul_safe int64_t q b) (\<lambda>qb.
        rbind (sub_safe int64_t prev_b qb) (\<lambda>b'.
          xgcd_loop y (word_of_int y') a a' b b'))))))))"
  by pat_completeness auto

lemma safe_cast_Inr: "safe_cast T S v = Inr r \<Longrightarrow> r = static_cast T v"
  by (auto simp: safe_cast_def split: if_splits)

lemma cast_there_and_back:
  assumes "safe_cast int64_t uint64_t (uint (w :: u64)) = Inr t" "safe_cast uint64_t int64_t t = Inr r"
  shows "word_of_int r = w"
  using safe_cast_Inr [OF assms(1)] safe_cast_Inr [OF assms(2)]
  by (simp add: static_cast_def take_bit_signed_take_bit) (simp add: of_int_take_bit take_bit_word_eq_self)

termination xgcd_loop
  by (relation "measure (\<lambda>(x, y, _). unat y)") (auto simp: cast_there_and_back word_mod_less)

declare xgcd_loop.simps [simp del]

definition xgcd :: "u64 \<Rightarrow> u64 \<Rightarrow> (u64 \<times> int \<times> int) res" where
  "xgcd x y = xgcd_loop x y 1 0 0 1"

text \<open>The result is \<open>None\<close> for \<open>false\<close>; otherwise it is the value stored.\<close>

definition tryInvertUintMod :: "u64 \<Rightarrow> u64 \<Rightarrow> u64 option res" where
  "tryInvertUintMod value modulus =
     (if value = 0 then Inr None
      else rbind (xgcd value modulus) (\<lambda>(g, a, b).
        if g \<noteq> 1 then Inr None
        else if a < 0 then Inr (Some (word_of_int a + modulus))
        else Inr (Some (word_of_int a))))"

section \<open>The primality test\<close>

text \<open>\<open>while (0 == (d & 0x1))\<close>; the loop does not end for zero.\<close>

partial_function (option) odd_part_loop :: "u64 \<Rightarrow> nat \<Rightarrow> (u64 \<times> nat) option" where
  "odd_part_loop d r = (if d AND 1 = 0 then odd_part_loop (drop_bit 1 d) (r + 1) else Some (d, r))"

declare odd_part_loop.simps [code]

text \<open>The inner loop squares \<open>x\<close>; the comparison \<open>count < r - 1\<close> is of unsigned words with \<open>r > 0\<close>.\<close>

function squares_loop :: "u64 \<Rightarrow> nat \<Rightarrow> nat \<Rightarrow> Modulus \<Rightarrow> u64" where
  "squares_loop x count r modulus =
     (let x = multiplyUintMod x x modulus; count = count + 1
      in if x \<noteq> modulus_value modulus - 1 \<and> count < r - 1 then squares_loop x count r modulus else x)"
  by pat_completeness auto

termination
  by (relation "measure (\<lambda>(x, count, r, modulus). r - 1 - count)") auto

declare squares_loop.simps [simp del]

definition round_passes :: "u64 \<Rightarrow> u64 \<Rightarrow> nat \<Rightarrow> Modulus \<Rightarrow> bool" where
  "round_passes a d r modulus =
     (let x = exponentiateUintMod a d modulus
      in if x = 1 \<or> x = modulus_value modulus - 1 then True
         else squares_loop x 0 r modulus = modulus_value modulus - 1)"

definition isPrime :: "(nat \<Rightarrow> u64) \<Rightarrow> Modulus \<Rightarrow> nat \<Rightarrow> bool option" where
  "isPrime dist modulus num_rounds =
     (let value = modulus_value modulus in
      if value < 2 then Some False
      else if 2 = value then Some True
      else if 0 = value AND 1 then Some False
      else if 3 = value then Some True
      else if 0 = value mod 3 then Some False
      else if 5 = value then Some True
      else if 0 = value mod 5 then Some False
      else if 7 = value then Some True
      else if 0 = value mod 7 then Some False
      else if 11 = value then Some True
      else if 0 = value mod 11 then Some False
      else if 13 = value then Some True
      else if 0 = value mod 13 then Some False
      else Option.bind (odd_part_loop (value - 1) 0) (\<lambda>(d, r).
        if r = 0 then Some False
        else Some (\<forall>i\<in>set [0..<num_rounds].
          round_passes (if i \<noteq> 0 then dist i else 2) d r modulus)))"

section \<open>Roots of unity\<close>

definition isPrimitiveRoot :: "u64 \<Rightarrow> u64 \<Rightarrow> Modulus \<Rightarrow> bool" where
  "isPrimitiveRoot root degree modulus =
     (if root = 0 then False
      else exponentiateUintMod root (drop_bit 1 degree) modulus = modulus_value modulus - 1)"

text \<open>
  The loop draws up to a hundred candidates; the \<open>n\<close>-th one is made of the words \<open>rd (2 * n)\<close> and
  \<open>rd (2 * n + 1)\<close>. The result is the last candidate.
\<close>

definition root_candidate :: "(nat \<Rightarrow> u32) \<Rightarrow> u64 \<Rightarrow> Modulus \<Rightarrow> nat \<Rightarrow> u64" where
  "root_candidate rd size_quotient_group modulus n =
     exponentiateUintMod
       (barrettReduce64 (push_bit 32 (ucast (rd (2 * n))) OR ucast (rd (2 * n + 1))) modulus)
       size_quotient_group modulus"

function root_loop :: "(nat \<Rightarrow> u32) \<Rightarrow> u64 \<Rightarrow> u64 \<Rightarrow> Modulus \<Rightarrow> nat \<Rightarrow> u64" where
  "root_loop rd degree size_quotient_group modulus attempt_counter =
     (let destination = root_candidate rd size_quotient_group modulus attempt_counter;
          attempt_counter = attempt_counter + 1
      in if \<not> isPrimitiveRoot destination degree modulus \<and> attempt_counter < 100
         then root_loop rd degree size_quotient_group modulus attempt_counter
         else destination)"
  by pat_completeness auto

termination
  by (relation "measure (\<lambda>(rd, degree, q, modulus, n). 100 - n)") auto

declare root_loop.simps [simp del]

definition tryPrimitiveRoot :: "(nat \<Rightarrow> u32) \<Rightarrow> u64 \<Rightarrow> Modulus \<Rightarrow> u64 option" where
  "tryPrimitiveRoot rd degree modulus =
     (let size_entire_group = modulus_value modulus - 1;
          size_quotient_group = size_entire_group div degree
      in if size_entire_group - size_quotient_group * degree \<noteq> 0 then None
         else let destination = root_loop rd degree size_quotient_group modulus 0
              in if isPrimitiveRoot destination degree modulus then Some destination else None)"

text \<open>\<open>for (size_t i = 0; i < degree; i += 2)\<close> makes \<open>\<lceil>degree / 2\<rceil>\<close> rounds.\<close>

fun minimal_loop :: "nat \<Rightarrow> u64 \<Rightarrow> u64 \<Rightarrow> u64 \<Rightarrow> Modulus \<Rightarrow> u64" where
  "minimal_loop 0 root current_generator generator_sq modulus = root"
| "minimal_loop (Suc n) root current_generator generator_sq modulus =
     (let root = (if current_generator < root then current_generator else root)
      in minimal_loop n root (multiplyUintMod current_generator generator_sq modulus) generator_sq modulus)"

definition tryMinimalPrimitiveRoot :: "(nat \<Rightarrow> u32) \<Rightarrow> u64 \<Rightarrow> Modulus \<Rightarrow> u64 option" where
  "tryMinimalPrimitiveRoot rd degree modulus =
     (case tryPrimitiveRoot rd degree modulus of
        None \<Rightarrow> None
      | Some root \<Rightarrow>
          let generator_sq = multiplyUintMod root root modulus
          in Some (minimal_loop ((unat degree + 1) div 2) root root generator_sq modulus))"

section \<open>The non-adjacent form\<close>

declare naf_loop.simps [simp del]

lemma naf_loop_sum:
  "0 \<le> v \<Longrightarrow> sum_list (naf_loop sign v i) = (if sign then - v else v) * 2 ^ i"
proof (induction sign v i rule: naf_loop.induct)
  case (1 sign v i)
  show ?case
  proof (cases "v \<le> 0")
    case True
    then show ?thesis using "1.prems" by (simp add: naf_loop.simps)
  next
    case False
    define z where "z = (if v AND 1 \<noteq> 0 then 2 - (v AND 3) else 0)"
    have half: "2 * drop_bit 1 (v - z) = v - z" "0 \<le> drop_bit 1 (v - z)"
      using False unfolding z_def and_3_mod_4 by (simp_all add: drop_bit_eq_div and_one_eq) presburger+
    have IH: "sum_list (naf_loop sign (drop_bit 1 (v - z)) (i + 1)) =
        (if sign then - drop_bit 1 (v - z) else drop_bit 1 (v - z)) * 2 ^ (i + 1)"
      using "1.IH" [OF False z_def half(2)] .
    have "sum_list (naf_loop sign v i) = (if sign then - z else z) * 2 ^ i + sum_list (naf_loop sign (drop_bit 1 (v - z)) (i + 1))"
      by (subst naf_loop.simps) (simp add: False Let_def z_def)
    also have "\<dots> = (if sign then - (2 * drop_bit 1 (v - z) + z) else 2 * drop_bit 1 (v - z) + z) * 2 ^ i"
      unfolding IH by (simp add: algebra_simps)
    finally show ?thesis unfolding half(1) by simp
  qed
qed

lemma naf_sum: "sum_list (naf v) = v"
  unfolding naf_def by (subst naf_loop_sum) auto

text \<open>The digits: powers of two with a sign, and no two of them adjacent.\<close>

lemma naf_loop_digits:
  "0 \<le> v \<Longrightarrow> \<exists>ks. map abs (naf_loop sign v i) = map (\<lambda>k. 2 ^ k) ks \<and>
     sorted_wrt (\<lambda>j k. j + 2 \<le> k) ks \<and> (\<forall>k\<in>set ks. i \<le> k \<and> (even v \<longrightarrow> i < k) \<and> 2 * 2 ^ k \<le> (3 * v - 1 - of_bool (even v)) * 2 ^ i)"
proof (induction sign v i rule: naf_loop.induct)
  case (1 sign v i)
  show ?case
  proof (cases "v \<le> 0")
    case True
    then show ?thesis by (intro exI [of _ "[]"]) (simp add: naf_loop.simps)
  next
    case False
    define z where "z = (if v AND 1 \<noteq> 0 then 2 - (v AND 3) else 0)"
    define w where "w = drop_bit 1 (v - z)"
    have w: "2 * w = v - z" "0 \<le> w" and z: "z \<in> {- 1, 0, 1}" "odd v \<Longrightarrow> even w \<and> z \<noteq> 0" "even v \<Longrightarrow> z = 0"
      using False unfolding w_def z_def and_3_mod_4 by (simp_all add: drop_bit_eq_div and_one_eq) presburger+
    obtain ks where ks: "map abs (naf_loop sign w (i + 1)) = map (\<lambda>k. 2 ^ k) ks"
      "sorted_wrt (\<lambda>j k. j + 2 \<le> k) ks" "\<forall>k\<in>set ks. i + 1 \<le> k \<and> (even w \<longrightarrow> i + 1 < k) \<and> 2 * 2 ^ k \<le> (3 * w - 1 - of_bool (even w)) * 2 ^ (i + 1)"
      using "1.IH" [OF False z_def, folded w_def, OF w(2)] by auto
    show ?thesis
    proof (cases "even v")
      case True
      then have "naf_loop sign v i = naf_loop sign w (i + 1)"
        using z(3) by (subst naf_loop.simps) (simp add: False Let_def w_def flip: z_def)
      moreover have "\<forall>k\<in>set ks. i < k \<and> 2 * 2 ^ k \<le> (3 * v - 1 - of_bool (even v)) * 2 ^ i"
      proof
        fix k
        assume "k \<in> set ks"
        then have k: "i + 1 \<le> k" "2 * 2 ^ k \<le> (3 * w - 1 - of_bool (even w)) * 2 ^ (i + 1)" using ks(3) by auto
        have "(3 * w - 1 - of_bool (even w)) * 2 ^ (i + 1) = (2 * (3 * w - 1 - of_bool (even w))) * 2 ^ i" by simp
        also have "\<dots> \<le> (3 * v - 1 - of_bool (even v)) * 2 ^ i"
          using w(1) z(3) True by (intro mult_right_mono) auto
        finally have le: "(3 * w - 1 - of_bool (even w)) * 2 ^ (i + 1) \<le> (3 * v - 1 - of_bool (even v)) * 2 ^ i" .
        show "i < k \<and> 2 * 2 ^ k \<le> (3 * v - 1 - of_bool (even v)) * 2 ^ i"
          using k(1) order_trans [OF k(2) le] by linarith
      qed
      ultimately show ?thesis
        using ks(1,2) True by (intro exI [of _ ks]) (auto dest: less_imp_le)
    next
      case odd: False
      then have "naf_loop sign v i = (if sign then - z else z) * 2 ^ i # naf_loop sign w (i + 1)"
        using z(2) by (subst naf_loop.simps) (simp add: False Let_def w_def flip: z_def)
      moreover have "\<bar>(if sign then - z else z) * 2 ^ i\<bar> = 2 ^ i"
        using z(1,2) odd by (auto simp: abs_mult)
      moreover have "\<forall>k\<in>set ks. i + 2 \<le> k \<and> 2 * 2 ^ k \<le> (3 * v - 1) * 2 ^ i"
      proof
        fix k
        assume "k \<in> set ks"
        then have k: "i + 1 < k" "2 * 2 ^ k \<le> (3 * w - 2) * 2 ^ (i + 1)" using ks(3) z(2) odd by auto
        have "(3 * w - 2) * 2 ^ (i + 1) = (2 * (3 * w - 2)) * 2 ^ i" by simp
        also have "\<dots> \<le> (3 * v - 1) * 2 ^ i" using w(1) z(1) by (intro mult_right_mono) auto
        finally have le: "(3 * w - 2) * 2 ^ (i + 1) \<le> (3 * v - 1) * 2 ^ i" .
        show "i + 2 \<le> k \<and> 2 * 2 ^ k \<le> (3 * v - 1) * 2 ^ i"
          using k(1) order_trans [OF k(2) le] by linarith
      qed
      moreover have "2 * 2 ^ i \<le> (3 * v - 1) * 2 ^ i" using False by (intro mult_right_mono) auto
      ultimately show ?thesis
        using ks(1,2) odd by (intro exI [of _ "i # ks"]) (auto dest: add_leD1)
    qed
  qed
qed


section \<open>Greatest common divisors\<close>

lemma gcd64_value: "unat (gcd64 x y) = gcd (unat x) (unat y)"
proof (induction x y rule: gcd64.induct)
  case (1 x y)
  consider "x < y" | "\<not> x < y" "y = 0" | "\<not> x < y" "y \<noteq> 0" "x mod y = 0" | "\<not> x < y" "y \<noteq> 0" "x mod y \<noteq> 0" by blast
  then show ?case
  proof cases
    case 1
    then show ?thesis using "1.IH"(1) by (subst gcd64.simps) (simp add: gcd.commute)
  next
    case 2
    then show ?thesis by (subst gcd64.simps) simp
  next
    case 3
    have "unat y dvd unat x"
      using 3(3) by (metis dvd_eq_mod_eq_0 unat_0 unat_mod)
    then show ?thesis using 3 by (subst gcd64.simps) (simp add: gcd_nat.absorb2)
  next
    case 4
    then have "unat (gcd64 x y) = gcd (unat y) (unat (x mod y))"
      using "1.IH"(2) [OF 4(1,2) refl 4(3)] by (subst gcd64.simps) (simp add: Let_def)
    then show ?thesis by (simp add: unat_mod gcd_red_nat [symmetric] gcd.commute)
  qed
qed

lemma areCoprime_iff: "x \<noteq> 0 \<or> y \<noteq> 0 \<Longrightarrow> areCoprime x y \<longleftrightarrow> coprime (unat x) (unat y)"
  using gcd64_value [of x y]
  by (auto simp: areCoprime_def word_less_nat_alt coprime_iff_gcd_eq_1 not_less le_Suc_eq unat_eq_0)

section \<open>The extended algorithm\<close>

text \<open>
  No checked operation of the loop throws: with \<open>x0\<close> and \<open>y0\<close> below \<open>2 ^ 63\<close> the coefficients stay
  below them in absolute value.
\<close>

lemma mul_safe_int64:
  assumes "0 \<le> q" "q < 2 ^ 63" "\<bar>q * a\<bar> < 2 ^ 63" "\<bar>a\<bar> < 2 ^ 63"
  shows "mul_safe int64_t q a = Inr (q * a)"
proof (cases "q = 0 \<or> a = 0")
  case True
  then show ?thesis by (auto simp: mul_safe_def static_cast_def)
next
  case False
  then have q: "0 < q" using assms(1) by auto
  have cast: "static_cast int64_t (q * a) = q * a"
    by (rule static_cast_id) (use assms(3) in \<open>auto simp: in_type_def type_min_def type_max_def abs_less_iff\<close>)
  show ?thesis
  proof (cases "0 < a")
    case True
    have "\<not> type_max int64_t div q < a"
      using q True assms(3) by (simp add: int_div_less_iff type_max_def abs_mult mult.commute)
    then show ?thesis using q True cast by (simp add: mul_safe_def tdiv_nonneg type_max_def)
  next
    case neg: False
    then have a: "a < 0" using False by simp
    have "\<not> a < tdiv (type_min int64_t) q"
    proof -
      have "\<not> (2 ^ 63) div q < - a"
        using q a assms(3) by (simp add: int_div_less_iff abs_mult mult.commute)
      then show ?thesis using q by (simp add: tdiv_def type_min_def)
    qed
    then show ?thesis using q a cast by (simp add: mul_safe_def)
  qed
qed

lemma sub_safe_int64:
  assumes "\<bar>p\<bar> < 2 ^ 63" "\<bar>r\<bar> < 2 ^ 63" "\<bar>p - r\<bar> < 2 ^ 63"
  shows "sub_safe int64_t p r = Inr (p - r)"
  using assms static_cast_id [of int64_t "p - r"]
  by (auto simp: sub_safe_def in_type_def type_min_def type_max_def abs_less_iff)

lemma safe_cast_uint64_int64:
  assumes "0 \<le> v" "v < 2 ^ 63"
  shows "safe_cast int64_t uint64_t v = Inr v" "safe_cast uint64_t int64_t v = Inr v"
proof -
  have "static_cast int64_t v = v" "static_cast uint64_t v = v"
    by (rule static_cast_id; use assms in \<open>simp add: in_type_def type_min_def type_max_def\<close>)+
  then show "safe_cast int64_t uint64_t v = Inr v" "safe_cast uint64_t int64_t v = Inr v"
    using assms by (simp_all add: safe_cast_def fitsIn_def static_cast_def type_min_def type_max_def)
qed

text \<open>The coefficients alternate in sign, and their weighted sum is the other number.\<close>

lemma xgcd_loop_value:
  fixes x0 y0 :: int
  assumes "s = 1 \<or> s = - 1" "0 \<le> s * a" "s * pa \<le> 0" "s * b \<le> 0" "0 \<le> s * pb"
    "\<bar>a\<bar> * uint x + \<bar>pa\<bar> * uint y = y0" "\<bar>b\<bar> * uint x + \<bar>pb\<bar> * uint y = x0"
    "pa * x0 + pb * y0 = uint x" "a * x0 + b * y0 = uint y"
    "x0 < 2 ^ 63" "y0 < 2 ^ 63" "uint x < 2 ^ 63" "uint y < 2 ^ 63"
    "\<bar>a\<bar> < 2 ^ 63" "\<bar>b\<bar> < 2 ^ 63" "\<bar>pa\<bar> < 2 ^ 63" "\<bar>pb\<bar> < 2 ^ 63"
  shows "\<exists>g u v. xgcd_loop x y pa a pb b = Inr (g, u, v) \<and> uint g = gcd (uint x) (uint y) \<and>
    u * x0 + v * y0 = uint g \<and> (y \<noteq> 0 \<longrightarrow> \<bar>u\<bar> * 2 \<le> y0 \<or> u = a)"
  using assms
proof (induction "unat y" arbitrary: x y pa a pb b s rule: less_induct)
  case less
  show ?case
  proof (cases "y = 0")
    case True
    then show ?thesis using less.prems by (subst xgcd_loop.simps) simp
  next
    case False
    define q r where "q = uint (x div y)" and "r = uint (x mod y)"
    have y: "0 < uint y" using False unsigned_greater_eq [of y, where 'a=int] by (simp add: uint_0_iff less_le)
    have xqr: "uint x = q * uint y + r" "0 \<le> q" "0 \<le> r" "r < uint y"
      using y by (simp_all add: q_def r_def uint_div uint_mod pos_imp_zdiv_nonneg_iff)
    have "q * 1 \<le> q * uint y" using xqr(2) y by (intro mult_left_mono) simp_all
    then have q: "q < 2 ^ 63" and r: "r < 2 ^ 63" using less.prems(12,13) xqr by linarith+
    let ?a = "pa - q * a" and ?b = "pb - q * b"
    have abs: "\<bar>?a\<bar> = \<bar>pa\<bar> + q * \<bar>a\<bar>" "\<bar>?b\<bar> = \<bar>pb\<bar> + q * \<bar>b\<bar>"
    proof -
      have nn: "0 \<le> q * \<bar>a\<bar>" "0 \<le> q * \<bar>b\<bar>" using xqr(2) by simp_all
      from less.prems(1) show "\<bar>?a\<bar> = \<bar>pa\<bar> + q * \<bar>a\<bar>" "\<bar>?b\<bar> = \<bar>pb\<bar> + q * \<bar>b\<bar>"
        using less.prems(2-5) nn by (auto simp: abs_if split: if_splits)
    qed
    have sum: "\<bar>?a\<bar> * uint y + \<bar>a\<bar> * r = y0" "\<bar>?b\<bar> * uint y + \<bar>b\<bar> * r = x0"
      using less.prems(6,7) unfolding abs xqr(1) by (simp_all add: algebra_simps)
    have le: "\<bar>?a\<bar> * uint y \<le> y0" "\<bar>?b\<bar> * uint y \<le> x0"
      using sum xqr(3) by (smt (verit) mult_nonneg_nonneg)+
    have bound: "\<bar>?a\<bar> < 2 ^ 63" "\<bar>?b\<bar> < 2 ^ 63" "\<bar>q * a\<bar> < 2 ^ 63" "\<bar>q * b\<bar> < 2 ^ 63"
    proof -
      have ge: "\<bar>z\<bar> \<le> \<bar>z\<bar> * uint y" for z :: int
        using mult_left_mono [of 1 "uint y" "\<bar>z\<bar>"] y by simp
      show "\<bar>?a\<bar> < 2 ^ 63" "\<bar>?b\<bar> < 2 ^ 63"
        by (rule le_less_trans [OF order_trans [OF ge le(1)] less.prems(11)]
                 le_less_trans [OF order_trans [OF ge le(2)] less.prems(10)])+
      then show "\<bar>q * a\<bar> < 2 ^ 63" "\<bar>q * b\<bar> < 2 ^ 63"
        using abs_ge_zero [of pa] abs_ge_zero [of pb] abs xqr(2) by (simp_all add: abs_mult del: abs_ge_zero)
    qed
    have wr: "word_of_int r = x mod y" by (simp add: r_def)
    have step: "xgcd_loop x y pa a pb b = xgcd_loop y (x mod y) a ?a b ?b"
      using safe_cast_uint64_int64 xqr q r bound less.prems(14-17) False
      by (subst xgcd_loop.simps) (simp add: mul_safe_int64 sub_safe_int64 wr flip: q_def r_def)
    have lt: "unat (x mod y) < unat y" using False by (rule word_mod_less)
    have ur: "uint (x mod y) = r" by (simp add: r_def)
    have sa: "0 \<le> - s * ?a" "- s * a \<le> 0" "- s * ?b \<le> 0" "0 \<le> - s * b"
    proof -
      have nn: "0 \<le> q * (s * a)" "q * (s * b) \<le> 0"
        using xqr(2) less.prems(2,4) by (simp_all add: mult_nonneg_nonpos)
      then show "0 \<le> - s * ?a" "- s * ?b \<le> 0" using less.prems(3,5) by (simp_all add: algebra_simps)
    qed (use less.prems(2,4) in simp_all)
    have "?a * x0 + ?b * y0 = (pa * x0 + pb * y0) - q * (a * x0 + b * y0)" by (simp add: algebra_simps)
    then have comb: "?a * x0 + ?b * y0 = r" unfolding less.prems(8,9) xqr(1) by simp
    have s': "- s = 1 \<or> - s = - 1" using less.prems(1) by auto
    obtain g u v where IH: "xgcd_loop y (x mod y) a ?a b ?b = Inr (g, u, v)" "uint g = gcd (uint y) r"
      "u * x0 + v * y0 = uint g" "x mod y \<noteq> 0 \<longrightarrow> \<bar>u\<bar> * 2 \<le> y0 \<or> u = ?a"
      using less.hyps [OF lt s' sa sum [folded ur] less.prems(9) comb [folded ur] less.prems(10,11,13)
          r [folded ur] bound(1,2) less.prems(14,15)] unfolding ur by (elim exE conjE) (rule that)
    have "gcd (uint y) r = gcd (uint x) (uint y)"
      by (simp add: r_def uint_mod gcd_red_int [symmetric] gcd.commute)
    moreover have "\<bar>u\<bar> * 2 \<le> y0 \<or> u = a"
    proof (cases "x mod y = 0")
      case True
      then show ?thesis using IH(1) by (simp add: xgcd_loop.simps)
    next
      case ne: False
      have "0 < r" using ne xqr(3) by (simp add: r_def uint_0_iff less_le)
      then have "2 \<le> uint y" using xqr(4) by linarith
      then have "\<bar>?a\<bar> * 2 \<le> \<bar>?a\<bar> * uint y" by (intro mult_left_mono) simp_all
      then show ?thesis using IH(4) ne le(1) by auto
    qed
    ultimately show ?thesis using step IH(1-3) by simp
  qed
qed

section \<open>Inverses\<close>

lemma xgcd_value:
  assumes "uint x < 2 ^ 63" "uint y < 2 ^ 63" "y \<noteq> 0"
  shows "\<exists>g u v. xgcd x y = Inr (g, u, v) \<and> uint g = gcd (uint x) (uint y) \<and>
    u * uint x + v * uint y = uint g \<and> \<bar>u\<bar> * 2 \<le> uint y"
proof -
  obtain g u v where l: "xgcd_loop x y 1 0 0 1 = Inr (g, u, v)" "uint g = gcd (uint x) (uint y)"
    "u * uint x + v * uint y = uint g" "y \<noteq> 0 \<longrightarrow> \<bar>u\<bar> * 2 \<le> uint y \<or> u = 0"
    using xgcd_loop_value [of "- 1" 0 1 1 0 x y "uint y" "uint x"] assms(1,2) by auto
  have "\<bar>u\<bar> * 2 \<le> uint y" using l(4) assms(3) by auto
  then show ?thesis using l(1-3) by (auto simp: xgcd_def)
qed

lemma uint_word_of_int_id:
  assumes "0 \<le> k" "k < 18446744073709551616"
  shows "uint (word_of_int k :: u64) = k"
  using assms by (simp add: uint_word_of_int)

lemma tryInvertUintMod_value:
  assumes "v \<noteq> 0" "1 < unat m" "unat v < 2 ^ 63" "unat m < 2 ^ 63"
  shows "if coprime (unat v) (unat m)
    then \<exists>r. tryInvertUintMod v m = Inr (Some r) \<and> r < m \<and> unat v * unat r mod unat m = 1
    else tryInvertUintMod v m = Inr None"
proof -
  have ub: "uint v < 2 ^ 63" "uint m < 2 ^ 63" "1 < uint m"
  proof -
    have "int (unat v) < int (2 ^ 63)" "int (unat m) < int (2 ^ 63)" "int 1 < int (unat m)"
      using assms(2-4) by (simp_all only: of_nat_less_iff)
    then show "uint v < 2 ^ 63" "uint m < 2 ^ 63" "1 < uint m" by simp_all
  qed
  have m0: "m \<noteq> 0" using assms(2) by auto
  obtain g u w where x: "xgcd v m = Inr (g, u, w)" "uint g = gcd (uint v) (uint m)"
    "u * uint v + w * uint m = uint g" "\<bar>u\<bar> * 2 \<le> uint m"
    using xgcd_value [OF ub(1,2) m0] by (elim exE conjE) (rule that)
  have g: "g = 1 \<longleftrightarrow> coprime (unat v) (unat m)"
  proof -
    have "g = 1 \<longleftrightarrow> uint g = 1" by (simp add: word_uint_eq_iff)
    also have "\<dots> \<longleftrightarrow> coprime (uint v) (uint m)" by (simp add: x(2) coprime_iff_gcd_eq_1)
    also have "\<dots> \<longleftrightarrow> coprime (int (unat v)) (int (unat m))" by simp
    also have "\<dots> \<longleftrightarrow> coprime (unat v) (unat m)" by (rule coprime_int_iff)
    finally show ?thesis .
  qed
  show ?thesis
  proof (cases "g = 1")
    case False
    then show ?thesis using g x(1) assms(1) by (simp add: tryInvertUintMod_def)
  next
    case True
    define r where "r = (if u < 0 then word_of_int u + m else word_of_int u)"
    have "tryInvertUintMod v m = Inr (Some r)"
      using True x(1) assms(1) by (simp add: tryInvertUintMod_def r_def)
    moreover have ur: "uint r = (if u < 0 then u + uint m else u)"
    proof (cases "u < 0")
      case True
      have "r = word_of_int (u + uint m)" using True by (simp add: r_def)
      moreover have "uint (word_of_int (u + uint m) :: u64) = u + uint m"
        using True x(4) ub by (intro uint_word_of_int_id) simp_all
      ultimately show ?thesis using True by (simp only: if_True)
    next
      case False
      then show ?thesis using x(4) ub by (simp add: r_def uint_word_of_int_id)
    qed
    moreover have "r < m" using ur x(4) ub(3) by (auto simp: word_less_def split: if_splits)
    moreover have "unat v * unat r mod unat m = 1"
    proof -
      have "uint v * uint r mod uint m = u * uint v mod uint m"
        unfolding ur by (simp add: algebra_simps)
      also have "u * uint v = 1 + (- w) * uint m" using x(3) True by simp
      also have "(1 + (- w) * uint m) mod uint m = 1" using ub(3) by (simp only: mod_mult_self1) simp
      finally have "int (unat v * unat r mod unat m) = int 1" by (simp add: zmod_int)
      then show ?thesis by (simp only: of_nat_eq_iff)
    qed
    ultimately show ?thesis using g True by auto
  qed
qed

section \<open>The primality test\<close>

lemma odd_part_loop_value:
  assumes "d \<noteq> 0"
  shows "\<exists>d' r'. odd_part_loop d r = Some (d', r') \<and> odd (unat d') \<and> r \<le> r' \<and> unat d = 2 ^ (r' - r) * unat d'
    \<and> (even (unat d) \<longrightarrow> r < r')"
  using assms
proof (induction "unat d" arbitrary: d r rule: less_induct)
  case less
  show ?case
  proof (cases "odd (unat d)")
    case True
    then have "d AND 1 \<noteq> 0" using odd_word_iff [of d] by blast
    then have "odd_part_loop d r = Some (d, r)" by (subst odd_part_loop.simps) simp
    then show ?thesis using True by simp
  next
    case False
    then have e0: "d AND 1 = 0" using odd_word_iff [of d] by blast
    have half: "unat d = 2 * unat (drop_bit 1 d)"
      using drop_1_and_1 [of d] by (simp only: e0 simp_thms of_bool_eq add_0_right)
    have d0: "0 < unat d" using less.prems by (simp add: unat_gt_0)
    then have "drop_bit 1 d \<noteq> 0" "unat (drop_bit 1 d) < unat d" using half by auto
    from less.hyps [OF this(2,1), of "r + 1"] obtain d' r' where IH:
      "odd_part_loop (drop_bit 1 d) (r + 1) = Some (d', r')" "odd (unat d')" "r + 1 \<le> r'"
      "unat (drop_bit 1 d) = 2 ^ (r' - (r + 1)) * unat d'" by auto
    have "odd_part_loop d r = Some (d', r')"
      using IH(1) e0 by (subst odd_part_loop.simps) simp
    moreover have "unat d = 2 ^ (r' - r) * unat d'"
    proof -
      have "r' - r = Suc (r' - (r + 1))" using IH(3) by simp
      then show ?thesis using half IH(4) by simp
    qed
    ultimately show ?thesis using IH(2,3) by auto
  qed
qed

text \<open>The inner loop finds \<open>- 1\<close> exactly when one of the next squares is.\<close>

lemma ex_shift:
  assumes "\<not> Q 1"
  shows "(\<exists>k. 1 \<le> k \<and> k \<le> Suc K \<and> Q k) \<longleftrightarrow> (\<exists>k. 1 \<le> k \<and> k \<le> K \<and> Q (Suc k))"
proof
  assume "\<exists>k. 1 \<le> k \<and> k \<le> Suc K \<and> Q k"
  then obtain k where k: "1 \<le> k" "k \<le> Suc K" "Q k" by blast
  then have "k \<noteq> 1" using assms by blast
  then have "1 \<le> k - 1" "k - 1 \<le> K" "Q (Suc (k - 1))" using k by simp_all
  then show "\<exists>k. 1 \<le> k \<and> k \<le> K \<and> Q (Suc k)" by blast
next
  assume "\<exists>k. 1 \<le> k \<and> k \<le> K \<and> Q (Suc k)"
  then obtain k where "1 \<le> k" "k \<le> K" "Q (Suc k)" by blast
  then show "\<exists>k. 1 \<le> k \<and> k \<le> Suc K \<and> Q k" by (intro exI [of _ "Suc k"]) simp
qed

lemma squares_loop_value:
  assumes "has_ratio m"
  shows "squares_loop x count r m = mod_value m - 1 \<longleftrightarrow>
    (\<exists>k. 1 \<le> k \<and> k \<le> max 1 (r - 1 - count) \<and> unat x ^ 2 ^ k mod unat (mod_value m) = unat (mod_value m - 1))"
  using assms
proof (induction x count r m rule: squares_loop.induct)
  case (1 x count r m)
  let ?x = "multiplyUintMod x x m" and ?m = "unat (mod_value m)" and ?n = "mod_value m - 1"
  have x: "unat ?x = unat x ^ 2 ^ 1 mod ?m"
    by (simp add: multiplyUintMod_value [OF "1.prems"] power2_eq_square)
  show ?case
  proof (cases "?x \<noteq> ?n \<and> count + 1 < r - 1")
    case True
    have step: "unat ?x ^ 2 ^ k mod ?m = unat x ^ 2 ^ Suc k mod ?m" for k
      unfolding x power_mod by (simp add: power_mult [symmetric])
    have "unat x ^ 2 ^ 1 mod ?m \<noteq> unat ?n" using True x by (metis word_unat_eq_iff)
    moreover have "max 1 (r - 1 - count) = Suc (max 1 (r - 1 - (count + 1)))" using True by (auto simp: max_def)
    moreover have "squares_loop x count r m = squares_loop ?x (count + 1) r m"
      using True by (subst squares_loop.simps) (simp add: Let_def modulus_value_def)
    moreover have "squares_loop ?x (count + 1) r m = ?n \<longleftrightarrow>
      (\<exists>k. 1 \<le> k \<and> k \<le> max 1 (r - 1 - (count + 1)) \<and> unat ?x ^ 2 ^ k mod ?m = unat ?n)"
      using True "1.prems" by (intro "1.IH") (simp_all add: modulus_value_def)
    ultimately show ?thesis
      using ex_shift [of "\<lambda>k. unat x ^ 2 ^ k mod ?m = unat ?n" "max 1 (r - 1 - (count + 1))"] unfolding step by simp
  next
    case False
    have res: "squares_loop x count r m = ?x"
      using False by (subst squares_loop.simps) (simp only: Let_def modulus_value_def if_False)
    show ?thesis
    proof (cases "?x = ?n")
      case True
      then show ?thesis using res x by (auto intro!: exI [of _ 1])
    next
      case ne: False
      then have "max 1 (r - 1 - count) = 1" using False by simp
      moreover have "unat x ^ 2 ^ 1 mod ?m \<noteq> unat ?n" using ne x by (metis word_unat_eq_iff)
      ultimately show ?thesis using res ne by (auto simp: le_antisym)
    qed
  qed
qed

lemma unat_minus_one: "0 < unat (m :: u64) \<Longrightarrow> unat (m - 1) = unat m - 1"
  by (simp add: unat_sub64)

lemma round_passes_iff:
  assumes m: "has_ratio m" "2 < unat (mod_value m)" and a: "a < mod_value m"
    and r: "0 < r" "unat (mod_value m) - 1 = 2 ^ r * unat d" "odd (unat d)"
  shows "round_passes a d r m \<longleftrightarrow> strong_probable_prime (unat (mod_value m)) (unat a)"
proof -
  let ?v = "unat (mod_value m)" and ?x = "exponentiateUintMod a d m"
  have n: "unat (mod_value m - 1) = ?v - 1" using m(2) by (intro unat_minus_one) simp
  have x: "unat ?x = unat a ^ unat d mod ?v"
    using m a by (intro exponentiateUintMod_value) (auto simp: word_less_nat_alt)
  have pow: "unat ?x ^ 2 ^ k mod ?v = unat a ^ (2 ^ k * unat d) mod ?v" for k
    unfolding x power_mod by (simp add: mult.commute flip: power_mult)
  have "round_passes a d r m \<longleftrightarrow> ?x = 1 \<or> ?x = mod_value m - 1 \<or>
      (\<exists>k. 1 \<le> k \<and> k \<le> max 1 (r - 1) \<and> unat ?x ^ 2 ^ k mod ?v = ?v - 1)"
    using squares_loop_value [OF m(1), of ?x 0 r] by (simp add: round_passes_def Let_def modulus_value_def n)
  also have "\<dots> \<longleftrightarrow> unat a ^ unat d mod ?v = 1 \<or> unat a ^ (2 ^ 0 * unat d) mod ?v = ?v - 1 \<or>
      (\<exists>k. 1 \<le> k \<and> k \<le> max 1 (r - 1) \<and> unat a ^ (2 ^ k * unat d) mod ?v = ?v - 1)"
    unfolding pow by (simp add: word_unat_eq_iff n x)
  also have "\<dots> \<longleftrightarrow> unat a ^ unat d mod ?v = 1 \<or> (\<exists>k<r. unat a ^ (2 ^ k * unat d) mod ?v = ?v - 1)"
  proof (cases "r = 1")
    case True
    have "?v mod 4 = 3"
    proof -
      have "?v = 2 * unat d + 1" using r(2) m(2) True by simp
      then show ?thesis using r(3) by presburger
    qed
    moreover have "unat a ^ (2 ^ 1 * unat d) = unat a ^ unat d * unat a ^ unat d"
      by (simp add: mult_2 power_add)
    ultimately have "unat a ^ (2 ^ 1 * unat d) mod ?v \<noteq> ?v - 1"
      using no_sqrt_minus_one [of ?v "unat a ^ unat d"] by metis
    then show ?thesis using True by (auto simp: le_antisym)
  next
    case False
    then have mx: "max 1 (r - 1) = r - 1" using r(1) by simp
    have "(\<exists>k<r. Q k) \<longleftrightarrow> Q 0 \<or> (\<exists>k. 1 \<le> k \<and> k \<le> r - 1 \<and> Q k)" for Q
    proof
      assume "\<exists>k<r. Q k"
      then obtain k where "k < r" "Q k" by blast
      then show "Q 0 \<or> (\<exists>k. 1 \<le> k \<and> k \<le> r - 1 \<and> Q k)" by (cases k) auto
    next
      assume "Q 0 \<or> (\<exists>k. 1 \<le> k \<and> k \<le> r - 1 \<and> Q k)"
      then show "\<exists>k<r. Q k"
      proof
        assume "\<exists>k. 1 \<le> k \<and> k \<le> r - 1 \<and> Q k"
        then obtain k where "k \<le> r - 1" "Q k" by blast
        then show ?thesis using r(1) by (intro exI [of _ k]) simp
      qed (use r(1) in blast)
    qed
    from this [of "\<lambda>k. unat a ^ (2 ^ k * unat d) mod ?v = ?v - 1"] show ?thesis unfolding mx by blast
  qed
  also have "\<dots> \<longleftrightarrow> strong_probable_prime ?v (unat a)"
    by (rule strong_probable_prime_iff [symmetric]) (use r in simp_all)
  finally show ?thesis .
qed

text \<open>The trial divisions as one condition.\<close>

definition small_primes :: "nat list" where "small_primes = [2, 3, 5, 7, 11, 13]"

lemma isPrime_trial:
  assumes "1 < unat (mod_value m)"
  shows "isPrime dist m n =
    (if unat (mod_value m) \<in> set small_primes then Some True
     else if \<exists>q\<in>set small_primes. q dvd unat (mod_value m) then Some False
     else Option.bind (odd_part_loop (mod_value m - 1) 0) (\<lambda>(d, r).
        if r = 0 then Some False
        else Some (\<forall>i\<in>set [0..<n]. round_passes (if i \<noteq> 0 then dist i else 2) d r m)))"
proof -
  let ?v = "mod_value m"
  have dvd: "unat (numeral k :: u64) dvd unat ?v \<longleftrightarrow> 0 = ?v mod numeral k" for k
    by (auto simp: word_unat_eq_iff unat_mod dvd_eq_mod_eq_0)
  have eq: "unat ?v = unat (numeral k :: u64) \<longleftrightarrow> numeral k = ?v" for k
    by (auto simp: word_unat_eq_iff)
  have even: "even (unat ?v) \<longleftrightarrow> 0 = ?v AND 1" using odd_word_iff [of ?v] by auto
  have "\<not> ?v < 2" using assms by (simp add: word_less_nat_alt)
  then show ?thesis
    using dvd [of "num.Bit1 num.One"] dvd [of "num.Bit1 (num.Bit0 num.One)"] dvd [of "num.Bit1 (num.Bit1 num.One)"]
      dvd [of "num.Bit1 (num.Bit1 (num.Bit0 num.One))"] dvd [of "num.Bit1 (num.Bit0 (num.Bit1 num.One))"]
      eq [of "num.Bit0 num.One"] eq [of "num.Bit1 num.One"] eq [of "num.Bit1 (num.Bit0 num.One)"] eq [of "num.Bit1 (num.Bit1 num.One)"]
      eq [of "num.Bit1 (num.Bit1 (num.Bit0 num.One))"] eq [of "num.Bit1 (num.Bit0 (num.Bit1 num.One))"] even
    unfolding isPrime_def small_primes_def Let_def modulus_value_def
    by (simp cong: if_cong)
qed


lemma odd_mod_2: "unat (v :: u64) \<noteq> 0 \<Longrightarrow> odd (unat v) \<Longrightarrow> even (unat (v - 1))"
  by (simp add: unat_minus_one)

text \<open>Miller-Rabin: the test decides trial division and strong probable primality to every base drawn.\<close>

lemma isPrime_value:
  assumes m: "has_ratio m" "1 < unat (mod_value m)"
    and draws: "\<forall>i. 1 \<le> i \<and> i < n \<longrightarrow> 3 \<le> dist i \<and> dist i \<le> mod_value m - 1"
  defines "v \<equiv> unat (mod_value m)"
  shows "isPrime dist m n = Some
    (v \<in> set small_primes \<or>
     (\<forall>q\<in>set small_primes. \<not> q dvd v) \<and>
     (\<forall>i<n. strong_probable_prime v (if i = 0 then 2 else unat (dist i))))"
proof -
  consider "v \<in> set small_primes" | "v \<notin> set small_primes" "\<exists>q\<in>set small_primes. q dvd v"
    | "v \<notin> set small_primes" "\<forall>q\<in>set small_primes. \<not> q dvd v" by blast
  then show ?thesis
  proof cases
    case 3
    then have odd: "odd v" and v2: "2 < v" using m(2) by (auto simp: small_primes_def v_def)
    have n1: "unat (mod_value m - 1) = v - 1" using m(2) by (simp add: unat_minus_one v_def)
    then have "mod_value m - 1 \<noteq> 0" using v2 by (metis less_numeral_extra(3) unat_0 zero_less_diff less_trans one_less_numeral_iff semiring_norm(76))
    then obtain d r where dr: "odd_part_loop (mod_value m - 1) 0 = Some (d, r)" "odd (unat d)"
      "v - 1 = 2 ^ r * unat d" "even (v - 1) \<longrightarrow> 0 < r"
      using odd_part_loop_value [of "mod_value m - 1" 0] n1 by auto
    have r: "0 < r" using dr(4) odd v2 by simp
    have pass: "round_passes (if i \<noteq> 0 then dist i else 2) d r m \<longleftrightarrow>
        strong_probable_prime v (if i = 0 then 2 else unat (dist i))" if "i < n" for i
    proof -
      let ?a = "if i \<noteq> 0 then dist i else 2"
      have "?a < mod_value m"
      proof (cases "i = 0")
        case True
        then show ?thesis using v2 by (simp add: word_less_nat_alt v_def)
      next
        case False
        then have "dist i \<le> mod_value m - 1" using draws that by simp
        then show ?thesis using False n1 v2 by (simp add: word_le_nat_alt word_less_nat_alt v_def)
      qed
      from round_passes_iff [OF m(1) _ this r] show ?thesis
        using v2 dr(2,3) unfolding v_def by (auto split: if_splits)
    qed
    show ?thesis
      using 3 r pass unfolding isPrime_trial [OF m(2)] v_def [symmetric]
      by (simp add: dr(1)) (auto simp: small_primes_def)
  qed (use isPrime_trial [OF m(2)] in \<open>auto simp: v_def\<close>)
qed

lemma isPrime_complete:
  assumes m: "has_ratio m"
    and draws: "\<forall>i. 1 \<le> i \<and> i < n \<longrightarrow> 3 \<le> dist i \<and> dist i \<le> mod_value m - 1"
    and prime: "prime_nat (unat (mod_value m))"
  shows "isPrime dist m n = Some True"
proof -
  let ?v = "unat (mod_value m)"
  have v: "1 < ?v" by (rule prime_natD(1) [OF prime])
  have n1: "unat (mod_value m - 1) = ?v - 1" using v by (simp add: unat_minus_one)
  have no: "q dvd ?v \<longleftrightarrow> q = ?v" if "q \<in> set small_primes" for q
    using prime_natD(2) [OF prime, of q] that by (auto simp: small_primes_def)
  have spp: "strong_probable_prime ?v a" if "0 < a" "a < ?v" "2 < ?v" for a
    using that nat_dvd_not_less by (intro prime_strong_probable [OF prime]) auto
  show ?thesis
  proof (cases "?v \<in> set small_primes")
    case True
    then show ?thesis unfolding isPrime_value [OF m v draws] by simp
  next
    case False
    then have "2 \<noteq> ?v" by (auto simp: small_primes_def)
    then have v2: "2 < ?v" using v by simp
    have "strong_probable_prime ?v (if i = 0 then 2 else unat (dist i))" if "i < n" for i
    proof (cases "i = 0")
      case True
      then show ?thesis using spp [of 2] v2 by simp
    next
      case ne: False
      then have "3 \<le> dist i" "dist i \<le> mod_value m - 1" using draws that by simp_all
      then have "0 < unat (dist i)" "unat (dist i) < ?v"
        using n1 v by (simp_all add: word_le_nat_alt)
      then show ?thesis using spp v2 ne by simp
    qed
    then show ?thesis unfolding isPrime_value [OF m v draws] using False no by auto
  qed
qed

section \<open>Primitive roots\<close>

text \<open>A number of order exactly \<open>n\<close> modulo \<open>m\<close>.\<close>

definition has_order :: "nat \<Rightarrow> nat \<Rightarrow> nat \<Rightarrow> bool" where
  "has_order m n x \<longleftrightarrow> (\<forall>j. x ^ j mod m = 1 \<longleftrightarrow> n dvd j)"

lemma has_order_root:
  assumes "2 < m" "x ^ 2 ^ k mod m = m - 1"
  shows "has_order m (2 ^ Suc k) x"
  unfolding has_order_def
proof (intro allI iffI)
  fix j
  assume "x ^ j mod m = 1"
  then show "2 ^ Suc k dvd j" by (rule order_of_root [OF assms])
next
  fix j :: nat
  assume "2 ^ Suc k dvd j"
  then obtain i where "j = 2 ^ k * (2 * i)" by (auto elim!: dvdE)
  then have "x ^ j = (x ^ 2 ^ k) ^ (2 * i)" by (simp only: power_mult)
  then show "x ^ j mod m = 1" using minus_one_power [of m "x ^ 2 ^ k" "2 * i"] assms by simp
qed

lemma isPrimitiveRoot_iff:
  assumes "has_ratio m" "1 < unat (mod_value m)" "root < mod_value m" "unat degree = 2 ^ Suc k"
  shows "isPrimitiveRoot root degree m \<longleftrightarrow> unat root ^ 2 ^ k mod unat (mod_value m) = unat (mod_value m) - 1"
proof -
  have d: "unat (drop_bit 1 degree) = 2 ^ k" using assms(4) by (simp add: unat_drop64)
  have e: "unat (exponentiateUintMod root (drop_bit 1 degree) m) = unat root ^ 2 ^ k mod unat (mod_value m)"
    using exponentiateUintMod_value [OF assms(1,2), of "drop_bit 1 degree" root] assms(3)
    unfolding d by (simp add: word_less_nat_alt)
  show ?thesis
  proof (cases "root = 0")
    case True
    then show ?thesis using assms(2) by (simp add: isPrimitiveRoot_def power_0_left)
  next
    case False
    then show ?thesis
      using e assms(2) by (simp add: isPrimitiveRoot_def modulus_value_def word_unat_eq_iff unat_minus_one)
  qed
qed

lemma root_loop_candidate:
  "\<exists>n. root_loop rd degree q m i = root_candidate rd q m n"
proof (induction rd degree q m i rule: root_loop.induct)
  case (1 rd degree q m i)
  then show ?case by (subst root_loop.simps) (auto simp: Let_def)
qed

lemma root_candidate_less:
  assumes "has_ratio m" "1 < unat (mod_value m)"
  shows "root_candidate rd q m n < mod_value m"
proof -
  have m: "0 < unat (mod_value m)" using assms(2) by simp
  have "unat (barrettReduce64 x m) < unat (mod_value m)" for x
    using m by (simp add: barrettReduce64_value [OF assms(1)])
  then show ?thesis
    using m exponentiateUintMod_value [OF assms] by (simp add: root_candidate_def word_less_nat_alt)
qed

lemma tryPrimitiveRoot_sound:
  assumes "has_ratio m" "2 < unat (mod_value m)" "unat degree = 2 ^ Suc k"
    and "tryPrimitiveRoot rd degree m = Some root"
  shows "root < mod_value m" "unat root ^ 2 ^ k mod unat (mod_value m) = unat (mod_value m) - 1"
proof -
  obtain q where q: "isPrimitiveRoot (root_loop rd degree q m 0) degree m" "root = root_loop rd degree q m 0"
    using assms(4) by (auto simp: tryPrimitiveRoot_def Let_def split: if_splits)
  have m: "1 < unat (mod_value m)" using assms(2) by simp
  show "root < mod_value m"
    using root_loop_candidate [of rd degree q m 0] root_candidate_less [OF assms(1) m] unfolding q(2) by metis
  then show "unat root ^ 2 ^ k mod unat (mod_value m) = unat (mod_value m) - 1"
    using isPrimitiveRoot_iff [OF assms(1) m _ assms(3)] q by blast
qed

lemma minimal_loop_value:
  assumes "has_ratio m"
  shows "unat (minimal_loop n root cur gsq m) =
    Min (insert (unat root) ((\<lambda>i. if i = 0 then unat cur else unat cur * unat gsq ^ i mod unat (mod_value m)) ` {..<n}))"
proof (induction n arbitrary: root cur)
  case 0
  then show ?case by simp
next
  case (Suc n)
  let ?m = "unat (mod_value m)" and ?cur = "multiplyUintMod cur gsq m"
  let ?f = "\<lambda>c i. if i = 0 then unat c else unat c * unat gsq ^ i mod ?m"
  have c: "unat ?cur = unat cur * unat gsq mod ?m" by (rule multiplyUintMod_value [OF assms])
  have f: "?f ?cur i = ?f cur (Suc i)" for i
    by (simp add: c mod_mult_left_eq mult.assoc)
  have img: "?f cur ` {..<Suc n} = insert (unat cur) (?f ?cur ` {..<n})"
    unfolding lessThan_Suc_eq_insert_0 image_insert image_image using f by simp
  define A where "A = ?f ?cur ` {..<n}"
  have fin: "finite A" by (simp add: A_def)
  have "unat (minimal_loop (Suc n) root cur gsq m) = Min (insert (unat (if cur < root then cur else root)) A)"
    unfolding A_def by (simp only: minimal_loop.simps Let_def Suc.IH)
  also have "\<dots> = Min (insert (unat root) (insert (unat cur) A))"
  proof (cases "A = {}")
    case True
    then show ?thesis by (simp add: word_less_nat_alt)
  next
    case False
    then show ?thesis using fin by (auto simp: word_less_nat_alt min_def)
  qed
  finally show ?case unfolding img A_def .
qed

lemma sqrt_mod_prime:
  assumes "prime_nat p" "y * y mod p = h * h mod (p :: nat)"
  shows "y mod p = h mod p \<or> p dvd y + h"
proof -
  have main: "y mod p = h mod p \<or> p dvd y + h" if "h \<le> y" "y * y mod p = h * h mod p" for h y :: nat
  proof -
    have "p dvd y * y - h * h" using that mult_le_mono by (intro mod_eq_dvd_diff) blast+
    moreover have "y * y - h * h = (y - h) * (y + h)"
      using that(1) by (simp add: nat_distrib(2) diff_mult_distrib algebra_simps)
    ultimately have "p dvd y - h \<or> p dvd y + h" by (metis prime_dvd_mult [OF assms(1)])
    then show ?thesis using that(1) by (auto simp: mod_eq_dvd_iff_nat)
  qed
  show ?thesis
  proof (cases "h \<le> y")
    case True
    then show ?thesis using main assms(2) by blast
  next
    case False
    then show ?thesis using main [of y h] assms(2) by (auto simp: add.commute)
  qed
qed

lemma roots_of_two_power:
  assumes p: "prime_nat p" "2 < p" and g: "g ^ 2 ^ k mod p = p - 1"
  shows "j \<le> Suc k \<Longrightarrow> y ^ 2 ^ j mod p = 1 \<Longrightarrow> \<exists>i. y mod p = g ^ (i * 2 ^ (Suc k - j)) mod p"
proof (induction j arbitrary: y)
  case 0
  then have "y mod p = g ^ (0 * 2 ^ (Suc k - 0)) mod p" using p(2) by simp
  then show ?case by blast
next
  case (Suc j)
  have "(y * y) ^ 2 ^ j mod p = 1"
    using Suc.prems(2) by (simp add: power_mult_distrib mult_2 power_add)
  then obtain i where i: "y * y mod p = g ^ (i * 2 ^ (Suc k - j)) mod p" using Suc by fastforce
  let ?e = "i * 2 ^ (k - j)"
  have sq: "i * 2 ^ (Suc k - j) = ?e + ?e" using Suc.prems(1) by (simp add: Suc_diff_le)
  have "y * y mod p = g ^ ?e * g ^ ?e mod p" unfolding i sq power_add ..
  from sqrt_mod_prime [OF p(1) this] show ?case
  proof
    assume "y mod p = g ^ ?e mod p"
    then show ?thesis by auto
  next
    assume neg: "p dvd y + g ^ ?e"
    have e: "(i + 2 ^ j) * 2 ^ (k - j) = ?e + 2 ^ k"
      using Suc.prems(1) by (simp add: distrib_right flip: power_add)
    have "p dvd 1 + g ^ 2 ^ k"
      using p(2) mod_add_right_eq [of 1 "g ^ 2 ^ k" p] by (simp add: g dvd_eq_mod_eq_0)
    then have "p dvd g ^ ?e + g ^ (?e + 2 ^ k)"
      using dvd_mult [of p "1 + g ^ 2 ^ k" "g ^ ?e"] by (simp add: power_add distrib_left)
    then have "(g ^ ?e + y) mod p = (g ^ ?e + g ^ (?e + 2 ^ k)) mod p"
      using neg by (simp add: dvd_eq_mod_eq_0 add.commute)
    then have "y mod p = g ^ (?e + 2 ^ k) mod p" unfolding nat_mod_eq_iff by (simp only: add.assoc add_left_cancel)
    then show ?thesis unfolding e [symmetric] by auto
  qed
qed


text \<open>The elements of order \<open>2 ^ Suc k\<close> are the odd powers of any one of them.\<close>

lemma has_order_odd_power:
  assumes p: "prime_nat p" "2 < p" and g: "g ^ 2 ^ k mod p = p - 1" and x: "has_order p (2 ^ Suc k) x"
  obtains i where "i < 2 ^ k" "x mod p = g ^ (2 * i + 1) mod p"
proof -
  have one: "g ^ (2 ^ Suc k * q) mod p = 1" for q
    using has_order_root [OF p(2) g] by (simp add: has_order_def)
  have "x ^ 2 ^ Suc k mod p = 1" using x by (simp add: has_order_def)
  then obtain i where i: "x mod p = g ^ i mod p"
    using roots_of_two_power [OF p g, of "Suc k" x] by auto
  define r where "r = i mod 2 ^ Suc k"
  have "g ^ i = g ^ (2 ^ Suc k * (i div 2 ^ Suc k)) * g ^ r"
    unfolding r_def power_add [symmetric] by simp
  then have "g ^ i mod p = g ^ r mod p"
    using one [of "i div 2 ^ Suc k"] by (metis mod_mult_left_eq mult_1)
  then have r: "x mod p = g ^ r mod p" "r < 2 ^ Suc k" using i by (simp_all add: r_def)
  have "odd r"
  proof
    assume "even r"
    then obtain s where s: "r = 2 * s" by (rule evenE)
    have "x ^ 2 ^ k mod p = (g ^ r) ^ 2 ^ k mod p" by (metis r(1) power_mod)
    also have "(g ^ r) ^ 2 ^ k = g ^ (2 ^ Suc k * s)" by (simp add: s mult_ac flip: power_mult)
    finally have "x ^ 2 ^ k mod p = 1" using one by simp
    then have "2 ^ Suc k dvd (2::nat) ^ k" using x unfolding has_order_def by blast
    then show False by (simp add: nat_dvd_not_less dvd_imp_le)
  qed
  then obtain s where "r = 2 * s + 1" by (rule oddE)
  then show ?thesis using that [of s] r by simp
qed

lemma tryMinimalPrimitiveRoot_value:
  assumes "has_ratio m" "2 < unat (mod_value m)" "unat degree = 2 ^ Suc k"
    and "tryMinimalPrimitiveRoot rd degree m = Some r"
  obtains g where "tryPrimitiveRoot rd degree m = Some g"
    "unat r = Min ((\<lambda>i. unat g ^ (2 * i + 1) mod unat (mod_value m)) ` {..<2 ^ k})"
proof -
  let ?m = "unat (mod_value m)"
  obtain g where g: "tryPrimitiveRoot rd degree m = Some g"
    and r: "r = minimal_loop ((unat degree + 1) div 2) g g (multiplyUintMod g g m) m"
    using assms(4) by (auto simp: tryMinimalPrimitiveRoot_def Let_def split: option.splits)
  have gm: "unat g < ?m" using tryPrimitiveRoot_sound(1) [OF assms(1,2,3) g] by (simp add: word_less_nat_alt)
  have n: "(unat degree + 1) div 2 = 2 ^ k" using assms(3) by simp
  have sq: "unat (multiplyUintMod g g m) = unat g * unat g mod ?m" by (rule multiplyUintMod_value [OF assms(1)])
  have f: "(if i = 0 then unat g else unat g * unat (multiplyUintMod g g m) ^ i mod ?m)
      = unat g ^ (2 * i + 1) mod ?m" for i
  proof (cases "i = 0")
    case False
    have "unat g * (unat g * unat g mod ?m) ^ i mod ?m = unat g * (unat g * unat g) ^ i mod ?m"
      by (metis mod_mult_right_eq power_mod)
    then show ?thesis using False unfolding sq by (simp add: power_mult power2_eq_square)
  qed (use gm in simp)
  have "unat g \<in> (\<lambda>i. unat g ^ (2 * i + 1) mod ?m) ` {..<2 ^ k}"
    using gm by (intro image_eqI [of _ _ 0]) simp_all
  then have "unat r = Min ((\<lambda>i. unat g ^ (2 * i + 1) mod ?m) ` {..<2 ^ k})"
    unfolding r minimal_loop_value [OF assms(1)] n f by (simp only: insert_absorb)
  with g show ?thesis by (rule that)
qed

lemma tryMinimalPrimitiveRoot_least:
  assumes m: "has_ratio m" "2 < unat (mod_value m)" and d: "unat degree = 2 ^ Suc k"
    and r: "tryMinimalPrimitiveRoot rd degree m = Some r"
  shows "r < mod_value m" "has_order (unat (mod_value m)) (unat degree) (unat r)"
    "prime_nat (unat (mod_value m)) \<Longrightarrow> has_order (unat (mod_value m)) (unat degree) x \<Longrightarrow>
       unat r \<le> x mod unat (mod_value m)"
    "unat r ^ 2 ^ k mod unat (mod_value m) = unat (mod_value m) - 1"
proof -
  let ?m = "unat (mod_value m)"
  obtain g where g: "tryPrimitiveRoot rd degree m = Some g"
    "unat r = Min ((\<lambda>i. unat g ^ (2 * i + 1) mod ?m) ` {..<2 ^ k})"
    by (rule tryMinimalPrimitiveRoot_value [OF m d r])
  note gs = tryPrimitiveRoot_sound [OF m d g(1)]
  let ?A = "(\<lambda>i. unat g ^ (2 * i + 1) mod ?m) ` {..<2 ^ k}"
  have ne: "?A \<noteq> {}" by (auto simp: lessThan_empty_iff)
  have "unat r \<in> ?A" unfolding g(2) using ne by (intro Min_in) auto
  then obtain i where i: "unat r = unat g ^ (2 * i + 1) mod ?m" by blast
  show "r < mod_value m" using i m(2) by (simp add: word_less_nat_alt)
  have "unat r ^ 2 ^ k mod ?m = (unat g ^ (2 * i + 1)) ^ 2 ^ k mod ?m" unfolding i by (rule power_mod)
  also have "(unat g ^ (2 * i + 1)) ^ 2 ^ k = (unat g ^ 2 ^ k) ^ (2 * i + 1)"
    by (simp only: mult.commute flip: power_mult)
  also have "\<dots> mod ?m = ?m - 1" using minus_one_power [of ?m "unat g ^ 2 ^ k" "2 * i + 1"] gs(2) m(2) by simp
  finally show r: "unat r ^ 2 ^ k mod ?m = ?m - 1" .
  show "has_order ?m (unat degree) (unat r)" unfolding d by (rule has_order_root [OF m(2) r])
  assume x: "prime_nat ?m" "has_order ?m (unat degree) x"
  obtain j where "j < 2 ^ k" "x mod ?m = unat g ^ (2 * j + 1) mod ?m"
    by (rule has_order_odd_power [OF x(1) m(2) gs(2) x(2) [unfolded d]])
  then have "x mod ?m \<in> ?A" by blast
  then show "unat r \<le> x mod ?m" unfolding g(2) by (intro Min_le) auto
qed

section \<open>Properties\<close>

text \<open>
  The non-adjacent form: the digits add up to the number, each is a power of two with a sign, no
  two of them are adjacent, and none exceeds three quarters of the next power, so that the \<open>int\<close>s of
  the code do not overflow on inputs of up to 30 bits.
\<close>

theorem naf_correct:
  "sum_list (naf v) = v \<and>
   (\<exists>ks. map abs (naf v) = map (\<lambda>k. 2 ^ k) ks \<and> sorted_wrt (\<lambda>j k. j + 2 \<le> k) ks \<and>
      (\<forall>k\<in>set ks. 2 * 2 ^ k \<le> 3 * \<bar>v\<bar> - 1))"
proof -
  obtain ks where "map abs (naf v) = map (\<lambda>k. 2 ^ k) ks" "sorted_wrt (\<lambda>j k. j + 2 \<le> k) ks"
    "\<forall>k\<in>set ks. 2 * 2 ^ k \<le> 3 * \<bar>v\<bar> - 1 - of_bool (even \<bar>v\<bar>)"
    using naf_loop_digits [of "\<bar>v\<bar>" "v < 0" 0] unfolding naf_def by auto
  then have "\<exists>ks. map abs (naf v) = map (\<lambda>k. 2 ^ k) ks \<and> sorted_wrt (\<lambda>j k. j + 2 \<le> k) ks \<and>
      (\<forall>k\<in>set ks. 2 * 2 ^ k \<le> 3 * \<bar>v\<bar> - 1)"
    by (intro exI [of _ ks]) (cases "even v"; auto)
  then show ?thesis using naf_sum by blast
qed

theorem naf_correct_witness:
  "sum_list (naf 7) = 7 \<and>
   (\<exists>ks. map abs (naf 7) = map (\<lambda>k. 2 ^ k) ks \<and> sorted_wrt (\<lambda>j k. j + 2 \<le> k) ks \<and>
      (\<forall>k\<in>set ks. 2 * 2 ^ k \<le> 3 * \<bar>7\<bar> - (1 :: int)))"
  by (rule naf_correct)

text \<open>
  C36. Inverses: when the value and the modulus have no common divisor, the extended Euclidean
  algorithm on 64-bit words finds the inverse, reduced; otherwise the code reports that there is none.
  None of the checked operations of the loop throws.
\<close>

theorem tryInvertUintMod_correct:
  assumes "v \<noteq> 0" "1 < unat m" "unat v < 2 ^ 63" "unat m < 2 ^ 63"
  shows "if areCoprime v m
    then \<exists>r. tryInvertUintMod v m = Inr (Some r) \<and> r < m \<and> unat v * unat r mod unat m = 1
    else tryInvertUintMod v m = Inr None"
  using tryInvertUintMod_value [OF assms] areCoprime_iff [of v m] assms(1) by simp

theorem tryInvertUintMod_correct_witness:
  "\<exists>r. tryInvertUintMod 5 17 = Inr (Some r) \<and> r < 17 \<and> unat (5 :: u64) * unat r mod unat (17 :: u64) = 1"
proof -
  have "areCoprime 5 17" by (simp add: areCoprime_def gcd64.simps)
  with tryInvertUintMod_correct [of 5 17] show ?thesis by simp
qed

text \<open>
  C34. The primality test returns for every value and every choice of the bases within the range of
  the distribution; it accepts every prime, and it accepts exactly the small primes and the numbers
  without small factors that are strong probable primes to base two and to all the bases drawn.
\<close>

theorem isPrime_correct:
  assumes "has_ratio m" "1 < unat (mod_value m)"
    and "\<forall>i. 1 \<le> i \<and> i < n \<longrightarrow> 3 \<le> dist i \<and> dist i \<le> mod_value m - 1"
  shows "(prime_nat (unat (mod_value m)) \<longrightarrow> isPrime dist m n = Some True) \<and>
    isPrime dist m n = Some
      (unat (mod_value m) \<in> {2, 3, 5, 7, 11, 13} \<or>
       (\<forall>q\<in>{2, 3, 5, 7, 11, 13}. \<not> q dvd unat (mod_value m)) \<and>
       (\<forall>i<n. strong_probable_prime (unat (mod_value m)) (if i = 0 then 2 else unat (dist i))))"
  using isPrime_complete [OF assms(1,3)] isPrime_value [OF assms] unfolding small_primes_def by simp

theorem isPrime_correct_witness:
  "isPrime (\<lambda>i. 3) modulus_17 40 = Some
    (unat (mod_value modulus_17) \<in> {2, 3, 5, 7, 11, 13} \<or>
     (\<forall>q\<in>{2, 3, 5, 7, 11, 13}. \<not> q dvd unat (mod_value modulus_17)) \<and>
     (\<forall>i<40::nat. strong_probable_prime (unat (mod_value modulus_17)) (if i = 0 then 2 else unat (3 :: u64))))"
proof -
  have "1 < unat (mod_value modulus_17)"
    "\<forall>i. 1 \<le> i \<and> i < (40 :: nat) \<longrightarrow> 3 \<le> (3 :: u64) \<and> 3 \<le> mod_value modulus_17 - 1"
    by (simp_all add: modulus_17_def)
  from isPrime_correct [OF has_ratio_17 this] show ?thesis by (rule conjunct2)
qed

text \<open>
  C35. Roots of unity for a degree that is a power of two: a root the search returns is reduced and
  its order is exactly the degree, and modulo a prime the minimal root is the least such number.
\<close>

theorem primitive_roots_correct:
  assumes "has_ratio m" "2 < unat (mod_value m)" "unat degree = 2 ^ Suc k"
  shows "(tryPrimitiveRoot rd degree m = Some g \<longrightarrow>
      g < mod_value m \<and> has_order (unat (mod_value m)) (unat degree) (unat g)) \<and>
    (tryMinimalPrimitiveRoot rd degree m = Some r \<longrightarrow>
      r < mod_value m \<and> has_order (unat (mod_value m)) (unat degree) (unat r) \<and>
      (prime_nat (unat (mod_value m)) \<longrightarrow>
        (\<forall>x < unat (mod_value m). has_order (unat (mod_value m)) (unat degree) x \<longrightarrow> unat r \<le> x)))"
proof (intro conjI impI allI)
  assume g: "tryPrimitiveRoot rd degree m = Some g"
  note s = tryPrimitiveRoot_sound [OF assms g]
  show "g < mod_value m" by (rule s(1))
  show "has_order (unat (mod_value m)) (unat degree) (unat g)"
    unfolding assms(3) by (rule has_order_root [OF assms(2) s(2)])
next
  assume r: "tryMinimalPrimitiveRoot rd degree m = Some r"
  note s = tryMinimalPrimitiveRoot_least [OF assms r]
  show "r < mod_value m" "has_order (unat (mod_value m)) (unat degree) (unat r)" by (rule s(1,2))+
  show "unat r \<le> x" if "prime_nat (unat (mod_value m))" "x < unat (mod_value m)"
    "has_order (unat (mod_value m)) (unat degree) x" for x
    using s(3) [OF that(1,3)] that(2) by simp
qed

theorem primitive_roots_correct_witness:
  "tryPrimitiveRoot (\<lambda>n. 6) 4 modulus_17 = Some 13 \<and>
   has_order (unat (mod_value modulus_17)) (unat (4 :: u64)) (unat (13 :: u64)) \<and>
   tryMinimalPrimitiveRoot (\<lambda>n. 6) 4 modulus_17 = Some 4 \<and>
   has_order (unat (mod_value modulus_17)) (unat (4 :: u64)) (unat (4 :: u64))"
proof -
  have "2 < unat (mod_value modulus_17)" "unat (4 :: u64) = 2 ^ Suc 1" by (simp_all add: modulus_17_def)
  note c = primitive_roots_correct [OF has_ratio_17 this, of "\<lambda>n. 6"]
  have "tryPrimitiveRoot (\<lambda>n. 6) 4 modulus_17 = Some 13"
    "tryMinimalPrimitiveRoot (\<lambda>n. 6) 4 modulus_17 = Some 4" by code_simp+
  with c show ?thesis by blast
qed

end
