(* ===== verification/Ntt.thy ===== *)
theory Ntt
  imports Dwt Num_Th
begin

unbundle bit_operations_syntax

text \<open>
  The number-theoretic transform modulo a prime: \<open>utils/ntt.h\<close> and \<open>ntt.cpp\<close> of
  \<open>heu/library/algorithms/seal_gpu/\<close>. The tables of roots are built with the functions of \<open>Num_Th\<close>; the lazy
  arithmetic, whose values stay below four times the modulus, is an instance of the contract of
  \<open>Dwt\<close>. An operand is the list of the words the pointer leads to.
\<close>

section \<open>The lazy arithmetic\<close>

definition two_times_modulus :: "Modulus \<Rightarrow> u64" where
  "two_times_modulus modulus = push_bit 1 (modulus_value modulus)"

definition mod_arith :: "Modulus \<Rightarrow> (u64, MultiplyUIntModOperand, MultiplyUIntModOperand) Arithmetic" where
  "mod_arith modulus =
     \<lparr>ar_add = \<lambda>a b. a + b,
      ar_sub = \<lambda>a b. a + two_times_modulus modulus - b,
      ar_mulRoot = \<lambda>a r. multiplyUintModLazy a r modulus,
      ar_mulScalar = \<lambda>a s. multiplyUintModLazy a s modulus,
      ar_mulRootScalar = \<lambda>r s.
        set_operand (multiplyUintMod_operand (mop_operand r) s modulus) modulus \<lparr>mop_operand = 0, mop_quotient = 0\<rparr>,
      ar_guard = \<lambda>a. if a \<ge> two_times_modulus modulus then a - two_times_modulus modulus else a\<rparr>"

section \<open>The tables\<close>

record NTTTables =
  ntt_root :: u64
  ntt_inv_root :: u64
  ntt_coeff_count_power :: nat
  ntt_coeff_count :: nat
  ntt_modulus :: Modulus
  ntt_inv_degree_modulo :: MultiplyUIntModOperand
  ntt_root_powers :: "MultiplyUIntModOperand list"
  ntt_inv_root_powers :: "MultiplyUIntModOperand list"
  ntt_handler :: "(u64, MultiplyUIntModOperand, MultiplyUIntModOperand) Arithmetic"

text \<open>
  The loop that stores the successive powers of the root, each at the place \<open>place i\<close>.
\<close>

function fill_powers ::
    "Modulus \<Rightarrow> MultiplyUIntModOperand \<Rightarrow> (nat \<Rightarrow> nat) \<Rightarrow> nat \<Rightarrow> nat \<Rightarrow> u64 \<Rightarrow> MultiplyUIntModOperand list \<Rightarrow> MultiplyUIntModOperand list" where
  "fill_powers modulus root place n i pow powers =
     (if i < n then
        let powers = powers[place i := set_operand pow modulus (powers ! place i)];
            pow = multiplyUintMod_operand pow root modulus
        in fill_powers modulus root place n (i + 1) pow powers
      else powers)"
  by pat_completeness auto

termination
  by (relation "measure (\<lambda>(modulus, root, place, n, i, pow, powers). n - i)") auto

declare fill_powers.simps [simp del]

definition rev_index :: "nat \<Rightarrow> nat \<Rightarrow> nat" where
  "rev_index p i = unat (reverseBits64_count (of_nat i) (int p))"

definition root_table :: "nat \<Rightarrow> nat \<Rightarrow> u64 \<Rightarrow> Modulus \<Rightarrow> MultiplyUIntModOperand list" where
  "root_table n p root_value modulus =
     (let powers = replicate n \<lparr>mop_operand = 0, mop_quotient = 0\<rparr>;
          root = set_operand root_value modulus \<lparr>mop_operand = 0, mop_quotient = 0\<rparr>;
          powers = fill_powers modulus root (\<lambda>i. rev_index p i) n 1 root_value powers
      in powers[0 := set_operand 1 modulus (powers ! 0)])"

definition inv_root_table :: "nat \<Rightarrow> nat \<Rightarrow> u64 \<Rightarrow> Modulus \<Rightarrow> MultiplyUIntModOperand list" where
  "inv_root_table n p inv_root modulus =
     (let powers = replicate n \<lparr>mop_operand = 0, mop_quotient = 0\<rparr>;
          root = set_operand inv_root modulus \<lparr>mop_operand = 0, mop_quotient = 0\<rparr>;
          powers = fill_powers modulus root (\<lambda>i. rev_index p (i - 1) + 1) n 1 inv_root powers
      in powers[0 := set_operand 1 modulus (powers ! 0)])"

text \<open>The constructor; \<open>rd\<close> are the words drawn in the search for the root.\<close>

definition NTTTables_initialize :: "(nat \<Rightarrow> u32) \<Rightarrow> nat \<Rightarrow> Modulus \<Rightarrow> NTTTables res" where
  "NTTTables_initialize rd coeff_count_power modulus =
     (let coeff_count = push_bit coeff_count_power (1 :: u64);
          n = unat coeff_count
      in case tryMinimalPrimitiveRoot rd (2 * coeff_count) modulus of
           None \<Rightarrow> Inl (Invalid_argument ''invalid modulus'')
         | Some root \<Rightarrow>
             rbind (tryInvertUintMod root (modulus_value modulus)) (\<lambda>r1.
             case r1 of
               None \<Rightarrow> Inl (Invalid_argument ''invalid modulus'')
             | Some inv_root \<Rightarrow>
                 let root_powers = root_table n coeff_count_power root modulus;
                     inv_root_powers = inv_root_table n coeff_count_power inv_root modulus
                 in rbind (tryInvertUintMod coeff_count (modulus_value modulus)) (\<lambda>r2.
                    case r2 of
                      None \<Rightarrow> Inl (Invalid_argument ''invalid modulus'')
                    | Some d \<Rightarrow>
                        Inr \<lparr>ntt_root = root, ntt_inv_root = inv_root, ntt_coeff_count_power = coeff_count_power,
                          ntt_coeff_count = n, ntt_modulus = modulus,
                          ntt_inv_degree_modulo = setQuotient \<lparr>mop_operand = d, mop_quotient = 0\<rparr> modulus,
                          ntt_root_powers = root_powers, ntt_inv_root_powers = inv_root_powers,
                          ntt_handler = mod_arith modulus\<rparr>)))"

fun CreateNTTTables_loop :: "(nat \<Rightarrow> nat \<Rightarrow> u32) \<Rightarrow> nat \<Rightarrow> nat \<Rightarrow> Modulus list \<Rightarrow> NTTTables list res" where
  "CreateNTTTables_loop rd coeff_count_power i [] = Inr []"
| "CreateNTTTables_loop rd coeff_count_power i (m # modulus) =
     rbind (NTTTables_initialize (rd i) coeff_count_power m) (\<lambda>t.
     rbind (CreateNTTTables_loop rd coeff_count_power (i + 1) modulus) (\<lambda>ts. Inr (t # ts)))"

definition CreateNTTTables :: "(nat \<Rightarrow> nat \<Rightarrow> u32) \<Rightarrow> nat \<Rightarrow> Modulus list \<Rightarrow> NTTTables list res" where
  "CreateNTTTables rd coeff_count_power modulus =
     (if modulus = [] then Inl (Invalid_argument ''invalid modulus'')
      else CreateNTTTables_loop rd coeff_count_power 0 modulus)"

text \<open>
  The copy constructor does not list the inverse root, the arithmetic and the handler, which take their
  initial values: a zero modulus and, in \<open>two_times_modulus_\<close>, the word \<open>junk\<close> that the memory holds.
\<close>

definition unset_arith :: "u64 \<Rightarrow> (u64, MultiplyUIntModOperand, MultiplyUIntModOperand) Arithmetic" where
  "unset_arith junk =
     (let modulus = \<lparr>mod_value = 0, mod_const_ratio = [0, 0, 0], mod_uint64_count = 1, mod_bit_count = 0, mod_is_prime = False\<rparr>
      in (mod_arith modulus)
        \<lparr>ar_sub := \<lambda>a b. a + junk - b, ar_guard := \<lambda>a. if a \<ge> junk then a - junk else a\<rparr>)"

definition NTTTables_copy :: "u64 \<Rightarrow> NTTTables \<Rightarrow> NTTTables" where
  "NTTTables_copy junk source =
     \<lparr>ntt_root = ntt_root source, ntt_inv_root = 0, ntt_coeff_count_power = ntt_coeff_count_power source,
      ntt_coeff_count = ntt_coeff_count source, ntt_modulus = ntt_modulus source,
      ntt_inv_degree_modulo = ntt_inv_degree_modulo source,
      ntt_root_powers = take (ntt_coeff_count source) (ntt_root_powers source),
      ntt_inv_root_powers = take (ntt_coeff_count source) (ntt_inv_root_powers source),
      ntt_handler = unset_arith junk\<rparr>"

section \<open>The transforms of one polynomial\<close>

definition nttNegacyclicHarveyLazy :: "u64 list \<Rightarrow> NTTTables \<Rightarrow> u64 list" where
  "nttNegacyclicHarveyLazy operand tables =
     transformToRev (ntt_handler tables) operand (ntt_coeff_count_power tables) (ntt_root_powers tables) None"

definition nttNegacyclicHarvey :: "u64 list \<Rightarrow> NTTTables \<Rightarrow> u64 list" where
  "nttNegacyclicHarvey operand tables =
     (let operand = nttNegacyclicHarveyLazy operand tables;
          modulus = modulus_value (ntt_modulus tables);
          two_times_modulus = modulus * 2;
          n = push_bit (ntt_coeff_count_power tables) 1
      in map (\<lambda>x. let x = (if x \<ge> two_times_modulus then x - two_times_modulus else x)
                  in if x \<ge> modulus then x - modulus else x) (take n operand) @ drop n operand)"

definition inverseNttNegacyclicHarveyLazy :: "u64 list \<Rightarrow> NTTTables \<Rightarrow> u64 list" where
  "inverseNttNegacyclicHarveyLazy operand tables =
     transformFromRev (ntt_handler tables) operand (ntt_coeff_count_power tables)
       (ntt_inv_root_powers tables) (Some (ntt_inv_degree_modulo tables))"

definition inverseNttNegacyclicHarvey :: "u64 list \<Rightarrow> NTTTables \<Rightarrow> u64 list" where
  "inverseNttNegacyclicHarvey operand tables =
     (let operand = inverseNttNegacyclicHarveyLazy operand tables;
          modulus = modulus_value (ntt_modulus tables);
          n = push_bit (ntt_coeff_count_power tables) 1
      in map (\<lambda>x. if x \<ge> modulus then x - modulus else x) (take n operand) @ drop n operand)"

section \<open>Several polynomials\<close>

text \<open>
  A call on \<open>operand + offset\<close> changes the \<open>d\<close> words from there on. The distance is the \<open>int\<close> shift
  \<open>1 << tables[0].coeffCountPower()\<close>, which is defined for powers up to 30.
\<close>

definition on_slice :: "nat \<Rightarrow> nat \<Rightarrow> (u64 list \<Rightarrow> u64 list) \<Rightarrow> u64 list \<Rightarrow> u64 list" where
  "on_slice offset d f operand =
     take offset operand @ f (take d (drop offset operand)) @ drop (offset + d) operand"

fun rns_loop :: "(u64 list \<Rightarrow> NTTTables \<Rightarrow> u64 list) \<Rightarrow> nat \<Rightarrow> nat \<Rightarrow> NTTTables list \<Rightarrow> nat \<Rightarrow> u64 list \<Rightarrow> u64 list" where
  "rns_loop f d 0 tables i operand = operand"
| "rns_loop f d (Suc k) tables i operand =
     rns_loop f d k tables (i + 1) (on_slice (d * i) d (\<lambda>x. f x (tables ! i)) operand)"

definition ntt_rns :: "(u64 list \<Rightarrow> NTTTables \<Rightarrow> u64 list) \<Rightarrow> u64 list \<Rightarrow> nat \<Rightarrow> NTTTables list \<Rightarrow> u64 list" where
  "ntt_rns f operand coeff_modulus_size tables =
     rns_loop f (push_bit (ntt_coeff_count_power (tables ! 0)) 1) coeff_modulus_size tables 0 operand"

fun polys_loop :: "(u64 list \<Rightarrow> u64 list) \<Rightarrow> nat \<Rightarrow> nat \<Rightarrow> nat \<Rightarrow> u64 list \<Rightarrow> u64 list" where
  "polys_loop f d 0 i operand = operand"
| "polys_loop f d (Suc k) i operand = polys_loop f d k (i + 1) (on_slice (d * i) d f operand)"

definition ntt_polys :: "(u64 list \<Rightarrow> NTTTables \<Rightarrow> u64 list) \<Rightarrow> u64 list \<Rightarrow> nat \<Rightarrow> nat \<Rightarrow> NTTTables list \<Rightarrow> u64 list" where
  "ntt_polys f operand poly_size coeff_modulus_size tables =
     (if poly_size = 0 then operand
      else polys_loop (\<lambda>x. ntt_rns f x coeff_modulus_size tables)
        (push_bit (ntt_coeff_count_power (tables ! 0)) 1 * coeff_modulus_size) poly_size 0 operand)"

definition nttNegacyclicHarveyLazy_rns where "nttNegacyclicHarveyLazy_rns = ntt_rns nttNegacyclicHarveyLazy"
definition nttNegacyclicHarveyLazy_polys where "nttNegacyclicHarveyLazy_polys = ntt_polys nttNegacyclicHarveyLazy"
definition nttNegacyclicHarvey_rns where "nttNegacyclicHarvey_rns = ntt_rns nttNegacyclicHarvey"
definition nttNegacyclicHarvey_polys where "nttNegacyclicHarvey_polys = ntt_polys nttNegacyclicHarvey"
definition inverseNttNegacyclicHarveyLazy_rns where
  "inverseNttNegacyclicHarveyLazy_rns = ntt_rns inverseNttNegacyclicHarveyLazy"
definition inverseNttNegacyclicHarveyLazy_polys where
  "inverseNttNegacyclicHarveyLazy_polys = ntt_polys inverseNttNegacyclicHarveyLazy"
definition inverseNttNegacyclicHarvey_rns where
  "inverseNttNegacyclicHarvey_rns = ntt_rns inverseNttNegacyclicHarvey"
definition inverseNttNegacyclicHarvey_polys where
  "inverseNttNegacyclicHarvey_polys = ntt_polys inverseNttNegacyclicHarvey"


section \<open>The lazy arithmetic keeps the contract\<close>

lemma wf_modulus_bound:
  assumes "wf_modulus m"
  shows "0 < unat (mod_value m)" "unat (mod_value m) \<le> 9223372036854775808" "4 * unat (mod_value m) < 2 ^ 63"
  using wf_modulusD [OF assms] by simp_all

lemma unat_two_times: "wf_modulus m \<Longrightarrow> unat (two_times_modulus m) = 2 * unat (mod_value m)"
  using wf_modulusD(3) [of m] by (simp add: two_times_modulus_def modulus_value_def unat_mul64)

text \<open>A value below \<open>k\<close> times the modulus.\<close>

definition below :: "nat \<Rightarrow> Modulus \<Rightarrow> u64 \<Rightarrow> bool" where
  "below k m x \<longleftrightarrow> wf_modulus m \<and> unat x < k * unat (mod_value m)"

lemma eqm_nat: "eqm (int q) (int x) (int y) \<longleftrightarrow> x mod q = y mod q"
  unfolding eqm_def by (metis of_nat_mod of_nat_eq_iff)

lemma lazy_product:
  assumes "wf_modulus m" "operand_for m r"
  shows "below 2 m (multiplyUintModLazy x r m) \<and>
    eqm (int (unat (mod_value m))) (int (unat (multiplyUintModLazy x r m))) (int (unat x) * int (unat (mop_operand r)))"
  using multiplyUintModLazy_value [OF assms(2) wf_modulus_bound(2) [OF assms(1)], of x] assms(1)
  unfolding of_nat_mult [symmetric] eqm_nat by (simp add: below_def)

interpretation ntt: dwt_arith "mod_arith m" "int (unat (mod_value m))" "\<lambda>x. int (unat x)"
  "\<lambda>r. int (unat (mop_operand r))" "\<lambda>s. int (unat (mop_operand s))" "below 2 m" "below 4 m"
  "\<lambda>r. wf_modulus m \<and> operand_for m r" "\<lambda>s. wf_modulus m \<and> operand_for m s" for m :: Modulus
proof
  let ?q = "unat (mod_value m)"
  note sel = mod_arith_def Arithmetic.select_convs
  show "below 4 m x" if "below 2 m x" for x using that by (auto simp: below_def)
  show "below 2 m (ar_guard (mod_arith m) x) \<and> eqm (int ?q) (int (unat (ar_guard (mod_arith m) x))) (int (unat x))"
    if "below 4 m x" for x
  proof -
    have m: "wf_modulus m" and x: "unat x < 4 * ?q" using that by (simp_all add: below_def)
    note two = unat_two_times [OF m]
    show ?thesis
    proof (cases "x \<ge> two_times_modulus m")
      case True
      then have le: "2 * ?q \<le> unat x" by (simp add: word_le_nat_alt two)
      have "unat (x - two_times_modulus m) = unat x - 2 * ?q" using le two by (simp add: unat_sub_if')
      moreover have "(unat x - 2 * ?q) mod ?q = unat x mod ?q"
        using le by (rule mod_minus_mult)
      ultimately show ?thesis using True x m le unfolding sel eqm_nat by (simp add: below_def)
    next
      case False
      then show ?thesis using m unfolding sel by (simp add: below_def word_le_nat_alt two)
    qed
  qed
  show "below 2 m (ar_mulRoot (mod_arith m) x r) \<and> eqm (int ?q) (int (unat (ar_mulRoot (mod_arith m) x r))) (int (unat x) * int (unat (mop_operand r)))"
    if "below 4 m x" "wf_modulus m \<and> operand_for m r" for x r
    using lazy_product [of m r x] that unfolding sel by blast
  show "below 2 m (ar_mulScalar (mod_arith m) x s) \<and> eqm (int ?q) (int (unat (ar_mulScalar (mod_arith m) x s))) (int (unat x) * int (unat (mop_operand s)))"
    if "below 4 m x" "wf_modulus m \<and> operand_for m s" for x s
    using lazy_product [of m s x] that unfolding sel by blast
  show "(wf_modulus m \<and> operand_for m (ar_mulRootScalar (mod_arith m) r s)) \<and>
      eqm (int ?q) (int (unat (mop_operand (ar_mulRootScalar (mod_arith m) r s)))) (int (unat (mop_operand r)) * int (unat (mop_operand s)))"
    if "wf_modulus m \<and> operand_for m r" "wf_modulus m \<and> operand_for m s" for r s
  proof -
    have m: "wf_modulus m" and s: "operand_for m s" using that by simp_all
    let ?c = "multiplyUintMod_operand (mop_operand r) s m"
    have c: "unat ?c = unat (mop_operand r) * unat (mop_operand s) mod ?q"
      by (rule multiplyUintMod_operand_value [OF s wf_modulus_bound(2) [OF m]])
    have lt: "?c < mod_value m" unfolding word_less_nat_alt c using wf_modulus_bound(1) [OF m] by simp
    show ?thesis
      using set_operand_for [OF lt] m c unfolding sel of_nat_mult [symmetric] eqm_nat by simp
  qed
  show "below 4 m (ar_add (mod_arith m) x y) \<and> eqm (int ?q) (int (unat (ar_add (mod_arith m) x y))) (int (unat x) + int (unat y))"
    if "below 2 m x" "below 2 m y" for x y
  proof -
    have m: "wf_modulus m" and x: "unat x < 2 * ?q" and y: "unat y < 2 * ?q" using that by (simp_all add: below_def)
    have "unat (x + y) = unat x + unat y" using x y wf_modulus_bound(3) [OF m] by (simp add: unat_add64)
    then show ?thesis using m x y unfolding sel by (simp add: below_def)
  qed
  show "below 4 m (ar_sub (mod_arith m) x y) \<and> eqm (int ?q) (int (unat (ar_sub (mod_arith m) x y))) (int (unat x) - int (unat y))"
    if "below 2 m x" "below 2 m y" for x y
  proof -
    have m: "wf_modulus m" and x: "unat x < 2 * ?q" and y: "unat y < 2 * ?q" using that by (simp_all add: below_def)
    note two = unat_two_times [OF m]
    have "unat (x + two_times_modulus m) = unat x + 2 * ?q"
      using x two wf_modulus_bound(3) [OF m] by (simp add: unat_add64)
    then have u: "unat (x + two_times_modulus m - y) = unat x + 2 * ?q - unat y"
      using y by (simp add: unat_sub_if')
    have "int (unat x + 2 * ?q - unat y) = int (unat x) - int (unat y) + 2 * int ?q" using y by linarith
    then have "eqm (int ?q) (int (unat x + 2 * ?q - unat y)) (int (unat x) - int (unat y))"
      by (simp only: eqm_def mod_mult_self2 mult.commute [of 2])
    then show ?thesis using m x u unfolding sel by (simp only: below_def) simp
  qed
qed


section \<open>The tables\<close>

lemma bit_revn: "bit (revn s i) k \<longleftrightarrow> k < s \<and> bit i (s - 1 - k)"
proof (induction s arbitrary: i k)
  case (Suc s)
  have "i mod 2 = take_bit 1 i" by (simp add: take_bit_eq_mod)
  then have or: "revn (Suc s) i = revn s (i div 2) OR push_bit s (take_bit 1 i)"
    using add_shift_eq_or [OF revn_less] by simp
  have half: "bit (i div 2) n \<longleftrightarrow> bit i (Suc n)" for n by (simp add: bit_Suc)
  have "s \<le> k \<and> k - s < 1 \<and> bit i (k - s) \<longleftrightarrow> k = s \<and> bit i (s - k)" by auto
  then show ?case
    unfolding or bit_or_iff bit_push_bit_iff bit_take_bit_iff Suc.IH half by (auto simp: Suc_diff_Suc less_Suc_eq)
qed simp

lemma rev_index_revn:
  assumes "i < 2 ^ p" "p \<le> 63"
  shows "rev_index p i = revn p i"
proof (rule bit_eqI)
  fix k
  have "(2 :: nat) ^ p \<le> 2 ^ 63" using assms(2) by (intro power_increasing) simp_all
  then have i: "unat (of_nat i :: u64) = i" using assms(1) by (simp add: unat_of_nat)
  have "bit (of_nat i :: u64) j \<longleftrightarrow> bit i j" for j
    using bit_unsigned_iff [where 'a = nat, of "of_nat i :: u64" j] i bit_imp_le_length by auto
  then show "bit (rev_index p i) k \<longleftrightarrow> bit (revn p i) k"
    using assms(2) bit_imp_le_length [of "reverseBits64_count (of_nat i) (int p)" k]
    by (auto simp: rev_index_def bit_unsigned_iff bit_reverseBits64_count bit_revn)
qed

lemma revn_top: "revn s (2 ^ s - 1) = 2 ^ s - 1"
proof (induction s)
  case (Suc s)
  have "(2 * x - 1) div 2 = x - 1 \<and> (2 * x - 1) mod 2 = 1" if "0 < x" for x :: nat
    using that by presburger
  from this [of "2 ^ s"] have "(2 * 2 ^ s - 1) div 2 = (2 :: nat) ^ s - 1" "(2 * 2 ^ s - 1) mod 2 = (1 :: nat)"
    by simp_all
  then show ?case using Suc zero_less_power [of "2 :: nat" s] by simp
qed simp

lemma fill_powers_value:
  assumes m: "wf_modulus m" and root: "operand_for m root"
  shows "unat pow = unat (mop_operand root) ^ i mod unat (mod_value m) \<Longrightarrow> inj_on place {i..<n} \<Longrightarrow>
    \<forall>j\<in>{i..<n}. place j < length tb \<Longrightarrow>
    length (fill_powers m root place n i pow tb) = length tb \<and>
    (\<forall>j\<in>{i..<n}. operand_for m (fill_powers m root place n i pow tb ! place j) \<and>
       unat (mop_operand (fill_powers m root place n i pow tb ! place j)) = unat (mop_operand root) ^ j mod unat (mod_value m)) \<and>
    (\<forall>k. k \<notin> place ` {i..<n} \<longrightarrow> fill_powers m root place n i pow tb ! k = tb ! k)"
proof (induction "n - i" arbitrary: i pow tb)
  case 0
  then show ?case by (subst (1 2 3 4) fill_powers.simps) simp
next
  case (Suc d)
  let ?q = "unat (mod_value m)" and ?\<rho> = "unat (mop_operand root)"
  let ?tb = "tb[place i := set_operand pow m (tb ! place i)]"
  let ?res = "fill_powers m root place n (i + 1) (multiplyUintMod_operand pow root m) ?tb"
  have i: "i < n" using Suc.hyps(2) by simp
  have step: "fill_powers m root place n i pow tb = ?res"
    using i by (subst fill_powers.simps) (simp add: Let_def)
  have "unat (multiplyUintMod_operand pow root m) = ?\<rho> ^ (i + 1) mod ?q"
    unfolding multiplyUintMod_operand_value [OF root wf_modulus_bound(2) [OF m]] Suc.prems(1)
    by (simp add: mod_mult_left_eq mod_mult_right_eq mult.commute)
  moreover have "d = n - (i + 1)" using Suc.hyps(2) by simp
  moreover have "inj_on place {i + 1..<n}" by (rule inj_on_subset [OF Suc.prems(2)]) auto
  moreover have "\<forall>j\<in>{i + 1..<n}. place j < length ?tb" using Suc.prems(3) by simp
  ultimately have IH: "length ?res = length ?tb"
    "\<forall>j\<in>{i + 1..<n}. operand_for m (?res ! place j) \<and> unat (mop_operand (?res ! place j)) = ?\<rho> ^ j mod ?q"
    "\<forall>k. k \<notin> place ` {i + 1..<n} \<longrightarrow> ?res ! k = ?tb ! k"
    using Suc.hyps(1) [of "i + 1" "multiplyUintMod_operand pow root m" ?tb] by blast+
  have lt: "pow < mod_value m"
    unfolding word_less_nat_alt Suc.prems(1) using wf_modulus_bound(1) [OF m] by simp
  have "place i \<notin> place ` {i + 1..<n}" using Suc.prems(2) i by (auto dest: inj_onD)
  then have "?res ! place i = set_operand pow m (tb ! place i)" using IH(3) Suc.prems(3) i by simp
  then have new: "operand_for m (?res ! place i)" "unat (mop_operand (?res ! place i)) = ?\<rho> ^ i mod ?q"
    using set_operand_for [OF lt] Suc.prems(1) by simp_all
  have split: "{i..<n} = insert i {i + 1..<n}" using i by auto
  show ?case unfolding step split using IH new by auto
qed

lemma root_table_roots:
  assumes m: "wf_modulus m" and p: "p \<le> 63" and \<rho>: "\<rho> < mod_value m"
  shows "ntt.roots_of m p (int (unat \<rho>)) (root_table (2 ^ p) p \<rho> m)"
    and "ntt.inv_roots_of m p (int (unat \<rho>)) (inv_root_table (2 ^ p) p \<rho> m)"
proof -
  let ?q = "unat (mod_value m)" and ?z = "\<lparr>mop_operand = 0, mop_quotient = 0\<rparr> :: MultiplyUIntModOperand"
  let ?root = "set_operand \<rho> m ?z"
  have root: "operand_for m ?root" "mop_operand ?root = \<rho>" using set_operand_for [OF \<rho>] by simp_all
  have one: "unat \<rho> = unat (mop_operand ?root) ^ 1 mod ?q" using root(2) \<rho> by (simp add: word_less_nat_alt)
  have cong: "eqm (int ?q) (int x) (int (unat \<rho>) ^ e)" if "x = unat (mop_operand ?root) ^ e mod ?q" for x e
    using that unfolding of_nat_power [symmetric] eqm_nat root(2) by simp
  have rev0: "revn p 0 = 0" by (induction p) simp_all
  show "ntt.roots_of m p (int (unat \<rho>)) (root_table (2 ^ p) p \<rho> m)"
    unfolding ntt.roots_of_def
  proof (intro allI impI)
    fix t :: nat
    assume t: "0 < t \<and> t < 2 ^ p"
    let ?tb = "fill_powers m ?root (\<lambda>i. rev_index p i) (2 ^ p) 1 \<rho> (replicate (2 ^ p) ?z)"
    have place: "rev_index p i = revn p i" if "i \<in> {1..<2 ^ p}" for i using that rev_index_revn [OF _ p] by simp
    have inj: "inj_on (\<lambda>i. rev_index p i) {1..<2 ^ p}"
      using revn_inj place by (intro inj_onI) auto
    note fill = fill_powers_value [OF m root(1) one inj, of "replicate (2 ^ p) ?z"]
    have "revn p t \<noteq> 0" using t revn_involution [of t p] rev0 by (metis less_irrefl)
    then have j: "revn p t \<in> {1..<2 ^ p}" using revn_less [of p t] by (simp add: Suc_le_eq)
    then have "rev_index p (revn p t) = t" using place revn_involution t by simp
    then have "operand_for m (?tb ! t) \<and> unat (mop_operand (?tb ! t)) = unat (mop_operand ?root) ^ revn p t mod ?q"
      using fill j place revn_less by (metis (no_types, lifting) length_replicate)
    moreover have "root_table (2 ^ p) p \<rho> m ! t = ?tb ! t" using t by (simp add: root_table_def Let_def)
    ultimately show "(wf_modulus m \<and> operand_for m (root_table (2 ^ p) p \<rho> m ! t)) \<and>
      eqm (int ?q) (int (unat (mop_operand (root_table (2 ^ p) p \<rho> m ! t)))) (int (unat \<rho>) ^ revn p t)"
      using m cong by simp
  qed
  show "ntt.inv_roots_of m p (int (unat \<rho>)) (inv_root_table (2 ^ p) p \<rho> m)"
    unfolding ntt.inv_roots_of_def
  proof (intro allI impI)
    fix t :: nat
    assume t: "0 < t \<and> t < 2 ^ p"
    let ?place = "\<lambda>i. rev_index p (i - 1) + 1"
    let ?tb = "fill_powers m ?root ?place (2 ^ p) 1 \<rho> (replicate (2 ^ p) ?z)"
    have place: "?place i = revn p (i - 1) + 1" if "i \<in> {1..<2 ^ p}" for i
      using that rev_index_revn [of "i - 1" p] p by auto
    have top: "revn p (i - 1) + 1 < 2 ^ p" if "i \<in> {1..<2 ^ p}" for i
    proof -
      have "i - 1 < 2 ^ p" "i - 1 \<noteq> 2 ^ p - 1" using that by auto
      then have "revn p (i - 1) \<noteq> 2 ^ p - 1" using revn_inj [of "i - 1" p "2 ^ p - 1"] revn_top [of p] by auto
      then show ?thesis using revn_less [of p "i - 1"] by linarith
    qed
    have inj: "inj_on ?place {1..<2 ^ p}"
    proof (rule inj_onI)
      fix x y
      assume xy: "x \<in> {1..<2 ^ p}" "y \<in> {1..<2 ^ p}" "?place x = ?place y"
      then have "revn p (x - 1) = revn p (y - 1)" using place by simp
      moreover have "x - 1 < 2 ^ p" "y - 1 < 2 ^ p" "1 \<le> x" "1 \<le> y" using xy(1,2) by auto
      ultimately show "x = y" using revn_inj [of "x - 1" p "y - 1"] by linarith
    qed
    note fill = fill_powers_value [OF m root(1) one inj, of "replicate (2 ^ p) ?z"]
    have j: "revn p (t - 1) + 1 \<in> {1..<2 ^ p}" using top [of t] t by simp
    have "t - 1 < 2 ^ p" using t by linarith
    then have "?place (revn p (t - 1) + 1) = t" using place [OF j] revn_involution [of "t - 1" p] t by simp
    then have "operand_for m (?tb ! t) \<and>
        unat (mop_operand (?tb ! t)) = unat (mop_operand ?root) ^ (revn p (t - 1) + 1) mod ?q"
      using fill j place top by (metis (no_types, lifting) length_replicate)
    moreover have "inv_root_table (2 ^ p) p \<rho> m ! t = ?tb ! t" using t by (simp add: inv_root_table_def Let_def)
    ultimately have at: "operand_for m (inv_root_table (2 ^ p) p \<rho> m ! t)"
      "unat (mop_operand (inv_root_table (2 ^ p) p \<rho> m ! t)) = unat (mop_operand ?root) ^ (revn p (t - 1) + 1) mod ?q"
      by (simp_all del: power_Suc power_add)
    show "(wf_modulus m \<and> operand_for m (inv_root_table (2 ^ p) p \<rho> m ! t)) \<and>
      eqm (int ?q) (int (unat (mop_operand (inv_root_table (2 ^ p) p \<rho> m ! t)))) (int (unat \<rho>) ^ (revn p (t - 1) + 1))"
      by (intro conjI m at(1) cong [OF at(2)])
  qed
qed


section \<open>What the constructor builds\<close>

text \<open>
  Well-formed tables: the root is a \<open>2 ^ p\<close>-th root of minus one, the inverses are inverses, and the
  tables hold the powers at the places that the transforms read.
\<close>

definition wf_tables :: "nat \<Rightarrow> Modulus \<Rightarrow> NTTTables \<Rightarrow> bool" where
  "wf_tables p m t \<longleftrightarrow>
     (let q = int (unat (mod_value m)); \<psi> = int (unat (ntt_root t)); \<phi> = int (unat (ntt_inv_root t))
      in wf_modulus m \<and> 0 < p \<and> p \<le> 62 \<and> ntt_modulus t = m \<and> ntt_handler t = mod_arith m \<and>
         ntt_coeff_count_power t = p \<and> ntt_coeff_count t = 2 ^ p \<and>
         eqm q (\<psi> ^ 2 ^ p) (- 1) \<and> eqm q (\<psi> * \<phi>) 1 \<and>
         operand_for m (ntt_inv_degree_modulo t) \<and>
         eqm q (int (unat (mop_operand (ntt_inv_degree_modulo t))) * 2 ^ p) 1 \<and>
         ntt.roots_of m p \<psi> (ntt_root_powers t) \<and> ntt.inv_roots_of m p \<phi> (ntt_inv_root_powers t))"

lemma len64: "LENGTH(64) = 64"
  by simp

lemma setQuotient_for:
  "c < mod_value m \<Longrightarrow> operand_for m (setQuotient \<lparr>mop_operand = c, mop_quotient = 0\<rparr> m) \<and>
    mop_operand (setQuotient \<lparr>mop_operand = c, mop_quotient = 0\<rparr> m) = c"
  using set_operand_for [of c m "\<lparr>mop_operand = 0, mop_quotient = 0\<rparr>"] by (simp add: set_operand_def)

lemma push_bit_one_u64: "p \<le> 63 \<Longrightarrow> unat (push_bit p (1 :: u64)) = 2 ^ p"
proof -
  assume "p \<le> 63"
  then have "(2 :: nat) ^ p \<le> 2 ^ 63" by (intro power_increasing) simp_all
  moreover have "take_bit 64 ((2 :: nat) ^ p) = 2 ^ p" using calculation by (intro take_bit_nat_eq_self) simp
  ultimately show ?thesis unfolding unsigned_push_bit_eq by (simp only: len64 unsigned_1 push_bit_eq_mult mult_1)
qed

lemma minus_one_mod: "0 < q \<Longrightarrow> int (q - 1) = - 1 mod int q"
  by (simp add: zmod_minus1 of_nat_diff)

lemma two_times_degree: "p \<le> 62 \<Longrightarrow> unat (2 * push_bit p (1 :: u64)) = 2 ^ Suc p"
proof -
  assume p: "p \<le> 62"
  then have "2 * push_bit p (1 :: u64) = push_bit (Suc p) 1" by (simp add: push_bit_eq_mult)
  then show ?thesis using push_bit_one_u64 [of "Suc p"] p by simp
qed

lemma root_divides:
  assumes m: "wf_modulus m" and p: "0 < p" "p \<le> 62"
    and r: "tryPrimitiveRoot rd (2 * push_bit p 1) m = Some r"
  shows "2 ^ Suc p dvd unat (mod_value m) - 1" "2 < unat (mod_value m)"
proof -
  let ?q = "unat (mod_value m)" and ?d = "2 * push_bit p (1 :: u64)"
  have q1: "unat (mod_value m - 1) = ?q - 1" using wf_modulus_bound(1) [OF m] by (simp add: unat_sub_if')
  have d: "unat ?d = 2 ^ Suc p" by (rule two_times_degree [OF p(2)])
  have "mod_value m - 1 - (mod_value m - 1) div ?d * ?d = 0"
    using r by (auto simp: tryPrimitiveRoot_def Let_def modulus_value_def split: if_splits)
  then have "(mod_value m - 1) mod ?d = 0" by (simp add: minus_div_mult_eq_mod)
  then have "(?q - 1) mod 2 ^ Suc p = 0" using q1 d by (metis unat_0 unat_mod)
  then show dvd: "2 ^ Suc p dvd ?q - 1" by (simp add: dvd_eq_mod_eq_0)
  have "(2 :: nat) ^ 2 \<le> 2 ^ Suc p" using p(1) by (intro power_increasing) simp_all
  moreover have "2 ^ Suc p \<le> ?q - 1" using wf_modulusD(2) [OF m] by (intro dvd_imp_le [OF dvd]) simp
  ultimately show "2 < ?q" unfolding power2_eq_square by linarith
qed

lemma initialize_ok:
  assumes m: "wf_modulus m" and p: "0 < p" "p \<le> 62"
    and r: "tryMinimalPrimitiveRoot rd (2 * push_bit p 1) m = Some r"
  shows "\<exists>t. NTTTables_initialize rd p m = Inr t \<and> wf_tables p m t \<and> ntt_root t = r"
proof -
  let ?q = "unat (mod_value m)" and ?n = "push_bit p (1 :: u64)"
  note b = wf_modulusD [OF m]
  obtain g where "tryPrimitiveRoot rd (2 * ?n) m = Some g"
    using r by (auto simp: tryMinimalPrimitiveRoot_def split: option.splits)
  note q = root_divides [OF m p this]
  note least = tryMinimalPrimitiveRoot_least [OF b(1) q(2) two_times_degree [OF p(2)] r]
  have n: "unat ?n = 2 ^ p" using push_bit_one_u64 p(2) by simp
  have q63: "?q < 2 ^ 63" using b(3) by simp
  have rq: "unat r < ?q" using least(1) by (simp add: word_less_nat_alt)
  have r0: "unat r \<noteq> 0"
  proof
    assume "unat r = 0"
    then have "unat r ^ 2 ^ p mod ?q = 0" by (simp add: power_0_left)
    then show False using least(4) q(2) by linarith
  qed
  have rne: "r \<noteq> 0" using r0 by auto
  have psi: "eqm (int ?q) (int (unat r) ^ 2 ^ p) (- 1)"
    proof -
    have "int (unat r ^ 2 ^ p) mod int ?q = int (?q - 1)" unfolding zmod_int [symmetric] least(4) by (rule refl)
    also have "\<dots> = - 1 mod int ?q" by (rule minus_one_mod) (use q(2) in linarith)
    finally show ?thesis unfolding of_nat_power eqm_def .
  qed
  have "coprime (unat r) ?q"
  proof (rule coprimeI)
    fix d assume d: "d dvd unat r" "d dvd ?q"
    have "d dvd unat r ^ 2 ^ p" using d(1) by (rule dvd_trans) (simp add: dvd_power)
    then have "d dvd ?q - 1" using dvd_mod [OF _ d(2)] least(4) by metis
    with d(2) show "is_unit d" using q(2) dvd_diff_nat [of d ?q "?q - 1"] by simp
  qed
  then obtain \<phi> where \<phi>: "tryInvertUintMod r (mod_value m) = Inr (Some \<phi>)" "\<phi> < mod_value m" "unat r * unat \<phi> mod ?q = 1"
    using tryInvertUintMod_value [of r "mod_value m"] rne rq q(2) q63 by auto
  have "coprime (unat ?n) ?q"
  proof (rule coprimeI)
    fix d assume d: "d dvd unat ?n" "d dvd ?q"
    have "d dvd 2 ^ Suc p" using d(1) unfolding n by (rule dvd_trans) simp
    then have "d dvd ?q - 1" using q(1) dvd_trans by blast
    with d(2) show "is_unit d" using q(2) dvd_diff_nat [of d ?q "?q - 1"] by simp
  qed
  moreover have "unat ?n < 2 ^ 63" unfolding n using p(2) by (intro power_strict_increasing) simp_all
  moreover have "?n \<noteq> 0" using n by (metis power_not_zero unat_0 zero_neq_numeral)
  ultimately obtain d where d: "tryInvertUintMod ?n (mod_value m) = Inr (Some d)" "d < mod_value m" "2 ^ p * unat d mod ?q = 1"
    using tryInvertUintMod_value [of ?n "mod_value m"] q(2) q63 unfolding n by auto
  let ?t = "\<lparr>ntt_root = r, ntt_inv_root = \<phi>, ntt_coeff_count_power = p, ntt_coeff_count = 2 ^ p, ntt_modulus = m,
     ntt_inv_degree_modulo = setQuotient \<lparr>mop_operand = d, mop_quotient = 0\<rparr> m,
     ntt_root_powers = root_table (2 ^ p) p r m, ntt_inv_root_powers = inv_root_table (2 ^ p) p \<phi> m,
     ntt_handler = mod_arith m\<rparr>"
  have "NTTTables_initialize rd p m = Inr ?t"
    unfolding NTTTables_initialize_def Let_def r option.case modulus_value_def \<phi>(1) d(1) rbind_simps n by (rule refl)
  moreover have "wf_tables p m ?t"
  proof -
    have "eqm (int ?q) (int (unat r) * int (unat \<phi>)) 1" "eqm (int ?q) (int (unat d) * 2 ^ p) 1"
      using \<phi>(3) d(3) q(2) eqm_nat [of ?q "unat r * unat \<phi>" 1] eqm_nat [of ?q "unat d * 2 ^ p" 1] by (simp_all add: mult.commute)
    then show ?thesis
      using m p psi setQuotient_for [OF d(2)] root_table_roots(1) [OF m _ least(1), of p] root_table_roots(2) [OF m _ \<phi>(2), of p]
      by (simp add: wf_tables_def Let_def)
  qed
  ultimately show ?thesis by (intro exI [of _ ?t]) simp
qed


section \<open>The transforms of one polynomial\<close>

lemma reduce_4q:
  assumes "below 4 m x"
  shows "unat (let x = (if x \<ge> mod_value m * 2 then x - mod_value m * 2 else x)
               in if x \<ge> mod_value m then x - mod_value m else x) = unat x mod unat (mod_value m)"
proof -
  let ?q = "unat (mod_value m)"
  have m: "wf_modulus m" and x: "unat x < 4 * ?q" using assms by (simp_all add: below_def)
  have two: "unat (mod_value m * 2) = 2 * ?q" using wf_modulus_bound(3) [OF m] by (simp add: unat_mul64)
  have sub: "unat (y - mod_value m) = unat y - ?q" if "mod_value m \<le> y" for y
    using that by (simp add: unat_sub)
  have one: "unat (if y \<ge> mod_value m then y - mod_value m else y) = unat y mod ?q" if "unat y < 2 * ?q" for y
    using that sub by (auto simp: word_le_nat_alt le_mod_geq)
  show ?thesis
  proof (cases "x \<ge> mod_value m * 2")
    case True
    then have le: "2 * ?q \<le> unat x" by (simp add: word_le_nat_alt two)
    have u: "unat (x - mod_value m * 2) = unat x - 2 * ?q" using le two by (simp add: unat_sub_if')
    then show ?thesis using True one [of "x - mod_value m * 2"] x mod_minus_mult [OF le] by (simp add: Let_def u)
  next
    case False
    then show ?thesis using one [of x] by (simp add: Let_def word_le_nat_alt two)
  qed
qed

lemma reduce_2q:
  assumes "below 2 m x"
  shows "unat (if x \<ge> mod_value m then x - mod_value m else x) = unat x mod unat (mod_value m)"
  using assms by (auto simp: below_def word_le_nat_alt unat_sub le_mod_geq)

lemma wf_tablesD:
  assumes "wf_tables p m t"
  shows "wf_modulus m" "0 < p" "p \<le> 62" "ntt_modulus t = m" "ntt_handler t = mod_arith m"
    "ntt_coeff_count_power t = p" "ntt_coeff_count t = 2 ^ p"
    "eqm (int (unat (mod_value m))) (int (unat (ntt_root t)) ^ 2 ^ p) (- 1)"
    "eqm (int (unat (mod_value m))) (int (unat (ntt_root t)) * int (unat (ntt_inv_root t))) 1"
    "operand_for m (ntt_inv_degree_modulo t)"
    "eqm (int (unat (mod_value m))) (int (unat (mop_operand (ntt_inv_degree_modulo t))) * 2 ^ p) 1"
    "ntt.roots_of m p (int (unat (ntt_root t))) (ntt_root_powers t)"
    "ntt.inv_roots_of m p (int (unat (ntt_inv_root t))) (ntt_inv_root_powers t)"
  using assms unfolding wf_tables_def Let_def by blast+

definition reduced :: "Modulus \<Rightarrow> u64 list \<Rightarrow> bool" where
  "reduced m xs \<longleftrightarrow> (\<forall>x\<in>set xs. unat x < unat (mod_value m))"

text \<open>The polynomial at the odd power of the root that belongs to place \<open>k\<close>.\<close>

definition value_at :: "nat \<Rightarrow> NTTTables \<Rightarrow> u64 list \<Rightarrow> nat \<Rightarrow> int" where
  "value_at p t a k = evaluation p (int (unat (ntt_root t))) (\<lambda>c. int (unat (a ! c))) k"

lemma nttNegacyclicHarveyLazy_stage:
  assumes t: "wf_tables p m t" and a: "length a = 2 ^ p" "\<forall>x\<in>set a. unat x < 4 * unat (mod_value m)"
  shows "ntt.at_stage m (below 4 m) p (int (unat (ntt_root t))) (\<lambda>c. int (unat (a ! c))) 1 p (nttNegacyclicHarveyLazy a t)"
  unfolding nttNegacyclicHarveyLazy_def wf_tablesD(5,6) [OF t]
proof (rule ntt.transformToRev_evaluates(1) [OF _ a(1) _ wf_tablesD(12,8) [OF t]])
  show "\<forall>x\<in>set a. below 4 m x" using a(2) wf_tablesD(1) [OF t] by (simp add: below_def)
qed (rule wf_tablesD(2) [OF t])

lemma nttNegacyclicHarvey_value:
  assumes t: "wf_tables p m t" and a: "length a = 2 ^ p" "\<forall>x\<in>set a. unat x < 4 * unat (mod_value m)"
  shows "length (nttNegacyclicHarvey a t) = 2 ^ p"
    "k < 2 ^ p \<Longrightarrow> int (unat (nttNegacyclicHarvey a t ! k)) = value_at p t a k mod int (unat (mod_value m))"
    "reduced m (nttNegacyclicHarvey a t)"
proof -
  let ?q = "unat (mod_value m)" and ?l = "nttNegacyclicHarveyLazy a t"
  note st = nttNegacyclicHarveyLazy_stage [OF t a, unfolded ntt.at_stage_p]
  have len: "length ?l = 2 ^ p" using st by blast
  have n: "push_bit p (1 :: nat) = 2 ^ p" by (simp add: push_bit_eq_mult)
  have eq: "nttNegacyclicHarvey a t = map (\<lambda>x. let x = (if x \<ge> mod_value m * 2 then x - mod_value m * 2 else x)
               in if x \<ge> mod_value m then x - mod_value m else x) ?l"
    unfolding nttNegacyclicHarvey_def Let_def wf_tablesD(4,6) [OF t] n modulus_value_def using len by simp
  show length: "length (nttNegacyclicHarvey a t) = 2 ^ p" unfolding eq using len by simp
  have at: "unat (nttNegacyclicHarvey a t ! k) = unat (?l ! k) mod ?q" if "k < 2 ^ p" for k
    unfolding eq nth_map [OF that [folded len]] by (rule reduce_4q) (use st that in blast)
  show "int (unat (nttNegacyclicHarvey a t ! k)) = value_at p t a k mod int ?q" if "k < 2 ^ p"
    using st that unfolding at [OF that] zmod_int eqm_def value_at_def mult_1 by blast
  show "reduced m (nttNegacyclicHarvey a t)"
    unfolding reduced_def
  proof
    fix x assume "x \<in> set (nttNegacyclicHarvey a t)"
    then obtain k where "k < 2 ^ p" "x = nttNegacyclicHarvey a t ! k" by (metis in_set_conv_nth length)
    then show "unat x < ?q" using at wf_modulus_bound(1) [OF wf_tablesD(1) [OF t]] by simp
  qed
qed

lemma inverseNtt_stage:
  assumes t: "wf_tables p m t"
    and v: "length v = 2 ^ p" "\<forall>k<2 ^ p. unat (v ! k) < 2 * unat (mod_value m) \<and>
      eqm (int (unat (mod_value m))) (int (unat (v ! k))) (evaluation p (int (unat (ntt_root t))) a k)"
  shows "length (inverseNttNegacyclicHarvey v t) = 2 ^ p"
    "k < 2 ^ p \<Longrightarrow> int (unat (inverseNttNegacyclicHarvey v t ! k)) = a k mod int (unat (mod_value m))"
proof -
  let ?q = "unat (mod_value m)" and ?l = "inverseNttNegacyclicHarveyLazy v t"
  let ?d = "int (unat (mop_operand (ntt_inv_degree_modulo t)))"
  note w = wf_tablesD [OF t]
  have "ntt.at_stage m (below 2 m) p (int (unat (ntt_root t))) a 1 p v"
    unfolding ntt.at_stage_p using v w(1) by (simp add: below_def)
  then have st: "ntt.at_stage m (below 2 m) p (int (unat (ntt_root t))) a (?d * 2 ^ p) 0 ?l"
    unfolding inverseNttNegacyclicHarveyLazy_def w(5,6)
    by (rule ntt.transformFromRev_inverts(2) [OF w(2) _ w(13,8,9)]) (use w in blast)
  have len: "length ?l = 2 ^ p" using st by (simp only: ntt.at_stage_def)
  have n: "push_bit p (1 :: nat) = 2 ^ p" by (simp add: push_bit_eq_mult)
  have eq: "inverseNttNegacyclicHarvey v t = map (\<lambda>x. if x \<ge> mod_value m then x - mod_value m else x) ?l"
    unfolding inverseNttNegacyclicHarvey_def Let_def w(4,6) n modulus_value_def using len by simp
  show "length (inverseNttNegacyclicHarvey v t) = 2 ^ p" unfolding eq using len by simp
  show "int (unat (inverseNttNegacyclicHarvey v t ! k)) = a k mod int ?q" if k: "k < 2 ^ p"
  proof -
    have l: "below 2 m (?l ! k)" "eqm (int ?q) (int (unat (?l ! k))) (?d * 2 ^ p * a k)"
      using st k unfolding ntt.at_stage_def stage_at_def by (simp_all add: stage_0)
    have "eqm (int ?q) (?d * 2 ^ p * a k) (1 * a k)" by (intro eqm_mult w(11) eqm_refl)
    from eqm_trans [OF l(2) this] show ?thesis
      unfolding eq nth_map [OF k [folded len]] reduce_2q [OF l(1)] zmod_int eqm_def by simp
  qed
qed

lemma nth_words_eq: "length xs = n \<Longrightarrow> length ys = n \<Longrightarrow> (\<And>k. k < n \<Longrightarrow> unat (xs ! k) = unat (ys ! k)) \<Longrightarrow> xs = (ys :: u64 list)"
  by (rule nth_equalityI) (simp_all add: word_unat_eq_iff)

lemma reduced_nth: "reduced m xs \<Longrightarrow> k < length xs \<Longrightarrow> unat (xs ! k) < unat (mod_value m)"
  by (simp add: reduced_def)

lemma inverse_of_ntt:
  assumes t: "wf_tables p m t" and a: "length a = 2 ^ p" "reduced m a"
  shows "inverseNttNegacyclicHarvey (nttNegacyclicHarvey a t) t = a"
proof (rule nth_words_eq)
  let ?q = "unat (mod_value m)"
  have a4: "\<forall>x\<in>set a. unat x < 4 * ?q" using a(2) by (auto simp: reduced_def)
  note n = nttNegacyclicHarvey_value [OF t a(1) a4]
  have v: "\<forall>k<2 ^ p. unat (nttNegacyclicHarvey a t ! k) < 2 * ?q \<and>
      eqm (int ?q) (int (unat (nttNegacyclicHarvey a t ! k))) (evaluation p (int (unat (ntt_root t))) (\<lambda>c. int (unat (a ! c))) k)"
  proof (intro allI impI conjI)
    fix k :: nat assume k: "k < 2 ^ p"
    show "unat (nttNegacyclicHarvey a t ! k) < 2 * ?q" using reduced_nth [OF n(3), of k] n(1) k by simp
    show "eqm (int ?q) (int (unat (nttNegacyclicHarvey a t ! k))) (evaluation p (int (unat (ntt_root t))) (\<lambda>c. int (unat (a ! c))) k)"
      unfolding n(2) [OF k] value_at_def eqm_def by simp
  qed
  note i = inverseNtt_stage [OF t n(1) v]
  show "length (inverseNttNegacyclicHarvey (nttNegacyclicHarvey a t) t) = 2 ^ p" by (rule i(1))
  show "length a = 2 ^ p" by (rule a(1))
  show "unat (inverseNttNegacyclicHarvey (nttNegacyclicHarvey a t) t ! k) = unat (a ! k)" if k: "k < 2 ^ p" for k
  proof -
    have "unat (a ! k) < ?q" using reduced_nth [OF a(2), of k] a(1) k by simp
    then have "int (unat (a ! k)) mod int ?q = int (unat (a ! k))" by (simp only: zmod_int [symmetric] mod_less)
    then show ?thesis using i(2) [OF k] by (metis of_nat_eq_iff)
  qed
qed

text \<open>The transform is injective on a finite set that it maps to itself, so it has the same inverse on the other side.\<close>

lemma ntt_of_inverse:
  assumes t: "wf_tables p m t" and v: "length v = 2 ^ p" "reduced m v"
  shows "reduced m (inverseNttNegacyclicHarvey v t)" "length (inverseNttNegacyclicHarvey v t) = 2 ^ p"
    "nttNegacyclicHarvey (inverseNttNegacyclicHarvey v t) t = v"
proof -
  let ?S = "{xs. set xs \<subseteq> {x. unat x < unat (mod_value m)} \<and> length xs = 2 ^ p}" and ?f = "\<lambda>a. nttNegacyclicHarvey a t"
  have S: "xs \<in> ?S \<longleftrightarrow> reduced m xs \<and> length xs = 2 ^ p" for xs by (auto simp: reduced_def)
  have "finite ?S" by (rule finite_lists_length_eq) simp
  moreover have "inj_on ?f ?S"
    by (rule inj_on_inverseI [of _ "\<lambda>v. inverseNttNegacyclicHarvey v t"]) (use inverse_of_ntt [OF t] S in blast)
  moreover have "?f ` ?S \<subseteq> ?S"
  proof
    fix y assume "y \<in> ?f ` ?S"
    then obtain x where x: "y = ?f x" "reduced m x" "length x = 2 ^ p" using S by blast
    then have "\<forall>z\<in>set x. unat z < 4 * unat (mod_value m)" by (auto simp: reduced_def)
    from nttNegacyclicHarvey_value(1,3) [OF t x(3) this] show "y \<in> ?S" using S x(1) by blast
  qed
  ultimately have "?f ` ?S = ?S" by (intro endo_inj_surj)
  then obtain a where a: "v = ?f a" "reduced m a" "length a = 2 ^ p" using v S by (metis (no_types, lifting) imageE)
  have "inverseNttNegacyclicHarvey v t = a" unfolding a(1) by (rule inverse_of_ntt [OF t a(3,2)])
  then show "reduced m (inverseNttNegacyclicHarvey v t)" "length (inverseNttNegacyclicHarvey v t) = 2 ^ p"
    "nttNegacyclicHarvey (inverseNttNegacyclicHarvey v t) t = v" using a by simp_all
qed


section \<open>Several polynomials\<close>

definition poly_slice :: "nat \<Rightarrow> nat \<Rightarrow> 'a list \<Rightarrow> 'a list" where
  "poly_slice d j xs = take d (drop (d * j) xs)"

lemma slice_end: "j + 1 \<le> (n :: nat) \<Longrightarrow> d * j + d \<le> d * n"
  using mult_le_mono2 [of "j + 1" n d] by (simp add: algebra_simps)

lemma length_slice: "length xs = d * n \<Longrightarrow> j < n \<Longrightarrow> length (poly_slice d j xs) = d"
  using slice_end [of j n d] by (simp add: poly_slice_def)

lemma nth_slice: "length xs = d * n \<Longrightarrow> j < n \<Longrightarrow> k < d \<Longrightarrow> poly_slice d j xs ! k = xs ! (d * j + k)"
  using slice_end [of j n d] by (simp add: poly_slice_def)

lemma length_on_slice:
  assumes "length xs = d * n" "i < n" "length (f (poly_slice d i xs)) = d"
  shows "length (on_slice (d * i) d f xs) = d * n"
  using assms slice_end [of i n d] by (simp add: on_slice_def poly_slice_def)

lemma slice_on_slice:
  assumes "length xs = d * n" "i < n" "j < n" "length (f (poly_slice d i xs)) = d"
  shows "poly_slice d j (on_slice (d * i) d f xs) = (if j = i then f (poly_slice d i xs) else poly_slice d j xs)"
proof (rule nth_equalityI)
  note len = length_on_slice [where f = f, OF assms(1,2,4)]
  show l: "length (poly_slice d j (on_slice (d * i) d f xs)) = length (if j = i then f (poly_slice d i xs) else poly_slice d j xs)"
    using length_slice [OF len assms(3)] length_slice [OF assms(1,3)] assms(4) by simp
  fix k assume "k < length (poly_slice d j (on_slice (d * i) d f xs))"
  then have k: "k < d" using length_slice [OF len assms(3)] by simp
  have b: "d * i + d \<le> length xs" using slice_end [of i n d] assms(1,2) by simp
  have split: "on_slice (d * i) d f xs ! l =
      (if l < d * i then xs ! l else if l < d * i + d then f (poly_slice d i xs) ! (l - d * i) else xs ! l)" if "l < d * n" for l
  proof -
    have "min (d * n) (d * i) = d * i" using b assms(1) by simp
    then show ?thesis using that b assms(1,4) by (auto simp: on_slice_def poly_slice_def nth_append)
  qed
  have jk: "d * j + k < d * n" using slice_end [of j n d] assms(3) k by simp
  consider "j = i" | "j < i" | "i < j" by linarith
  then show "poly_slice d j (on_slice (d * i) d f xs) ! k = (if j = i then f (poly_slice d i xs) else poly_slice d j xs) ! k"
  proof cases
    case 2
    then have "d * j + k < d * i" using slice_end [of j i d] k by simp
    then show ?thesis using 2 nth_slice [OF len assms(3) k] nth_slice [OF assms(1,3) k] split [OF jk] by simp
  next
    case 3
    then have "d * i + d \<le> d * j + k" using slice_end [of i j d] by simp
    then show ?thesis using 3 nth_slice [OF len assms(3) k] nth_slice [OF assms(1,3) k] split [OF jk] by simp
  qed (use nth_slice [OF len assms(3) k] split [OF jk] k in simp)
qed

lemma polys_loop_slices:
  assumes f: "\<And>ys. P ys \<Longrightarrow> length (f ys) = d"
  shows "length xs = d * n \<Longrightarrow> i + k \<le> n \<Longrightarrow> \<forall>j. i \<le> j \<and> j < i + k \<longrightarrow> P (poly_slice d j xs) \<Longrightarrow>
    length (polys_loop f d k i xs) = d * n \<and>
    (\<forall>j<n. poly_slice d j (polys_loop f d k i xs) =
      (if i \<le> j \<and> j < i + k then f (poly_slice d j xs) else poly_slice d j xs))"
proof (induction k arbitrary: i xs)
  case (Suc k)
  let ?xs = "on_slice (d * i) d f xs"
  have i: "i < n" "length (f (poly_slice d i xs)) = d" using Suc.prems f by simp_all
  note s = slice_on_slice [where f = f, OF Suc.prems(1) i(1) _ i(2)]
  have "length (polys_loop f d k (i + 1) ?xs) = d * n \<and>
    (\<forall>j<n. poly_slice d j (polys_loop f d k (i + 1) ?xs) =
      (if i + 1 \<le> j \<and> j < i + 1 + k then f (poly_slice d j ?xs) else poly_slice d j ?xs))"
  proof (rule Suc.IH)
    show "length ?xs = d * n" by (rule length_on_slice [where f = f, OF Suc.prems(1) i])
    show "\<forall>j. i + 1 \<le> j \<and> j < i + 1 + k \<longrightarrow> P (poly_slice d j ?xs)" using s Suc.prems(2,3) by simp
  qed (use Suc.prems(2) in simp)
  then show ?case using s by auto
qed auto

lemma rns_loop_slices:
  assumes f: "\<And>j ys. P j ys \<Longrightarrow> length (f ys (ts ! j)) = d"
  shows "length xs = d * n \<Longrightarrow> i + k \<le> n \<Longrightarrow> \<forall>j. i \<le> j \<and> j < i + k \<longrightarrow> P j (poly_slice d j xs) \<Longrightarrow>
    length (rns_loop f d k ts i xs) = d * n \<and>
    (\<forall>j<n. poly_slice d j (rns_loop f d k ts i xs) =
      (if i \<le> j \<and> j < i + k then f (poly_slice d j xs) (ts ! j) else poly_slice d j xs))"
proof (induction k arbitrary: i xs)
  case (Suc k)
  let ?xs = "on_slice (d * i) d (\<lambda>x. f x (ts ! i)) xs"
  have i: "i < n" "length (f (poly_slice d i xs) (ts ! i)) = d" using Suc.prems f by simp_all
  note s = slice_on_slice [where f = "\<lambda>x. f x (ts ! i)", OF Suc.prems(1) i(1) _ i(2)]
  have "length (rns_loop f d k ts (i + 1) ?xs) = d * n \<and>
    (\<forall>j<n. poly_slice d j (rns_loop f d k ts (i + 1) ?xs) =
      (if i + 1 \<le> j \<and> j < i + 1 + k then f (poly_slice d j ?xs) (ts ! j) else poly_slice d j ?xs))"
  proof (rule Suc.IH)
    show "length ?xs = d * n" by (rule length_on_slice [where f = "\<lambda>x. f x (ts ! i)", OF Suc.prems(1) i])
    show "\<forall>j. i + 1 \<le> j \<and> j < i + 1 + k \<longrightarrow> P j (poly_slice d j ?xs)" using s Suc.prems(2,3) by simp
  qed (use Suc.prems(2) in simp)
  then show ?case using s by auto
qed auto

lemma slice_slice:
  assumes "i < K"
  shows "poly_slice d i (poly_slice (d * K) j xs) = poly_slice d (j * K + i) xs"
proof -
  have "d * i + d \<le> d * K" using slice_end [of i K d] assms by simp
  then have "take d (drop (d * i) (take (d * K) ys)) = take d (drop (d * i) ys)" for ys :: "'a list"
    by (simp add: drop_take min_def)
  then show ?thesis by (simp add: poly_slice_def add.commute algebra_simps)
qed

lemma ntt_polys_slices:
  assumes f: "\<And>j ys. j < K \<Longrightarrow> P j ys \<Longrightarrow> length (f ys (ts ! j)) = d"
    and d: "push_bit (ntt_coeff_count_power (ts ! 0)) 1 = d"
    and xs: "length xs = d * K * N" and P: "\<forall>j<N. \<forall>i<K. P i (poly_slice d (j * K + i) xs)"
  shows "length (ntt_polys f xs N K ts) = d * K * N \<and>
    (\<forall>j<N. \<forall>i<K. poly_slice d (j * K + i) (ntt_polys f xs N K ts) = f (poly_slice d (j * K + i) xs) (ts ! i))"
proof (cases "N = 0")
  case False
  let ?Q = "\<lambda>ys. length ys = d * K \<and> (\<forall>i<K. P i (poly_slice d i ys))"
  have R: "length (ntt_rns f ys K ts) = d * K \<and> (\<forall>j<K. poly_slice d j (ntt_rns f ys K ts) = f (poly_slice d j ys) (ts ! j))"
    if "?Q ys" for ys
    using rns_loop_slices [of "\<lambda>j ys. j < K \<and> P j ys" f ts d ys K 0 K] that f
    unfolding ntt_rns_def d by auto
  have "\<forall>j<N. ?Q (poly_slice (d * K) j xs)" using P xs by (simp add: length_slice [of _ _ N] slice_slice)
  then have L: "length (polys_loop (\<lambda>x. ntt_rns f x K ts) (d * K) N 0 xs) = d * K * N"
    "\<forall>j<N. poly_slice (d * K) j (polys_loop (\<lambda>x. ntt_rns f x K ts) (d * K) N 0 xs) = ntt_rns f (poly_slice (d * K) j xs) K ts"
    using polys_loop_slices [of ?Q "\<lambda>x. ntt_rns f x K ts" "d * K" xs N 0 N] R xs by auto
  have eq: "ntt_polys f xs N K ts = polys_loop (\<lambda>x. ntt_rns f x K ts) (d * K) N 0 xs"
    using False unfolding ntt_polys_def d by simp
  show ?thesis
  proof (intro conjI allI impI)
    fix j i assume ji: "j < N" "i < K"
    have "poly_slice d (j * K + i) (ntt_polys f xs N K ts) = poly_slice d i (ntt_rns f (poly_slice (d * K) j xs) K ts)"
      unfolding slice_slice [OF ji(2), symmetric] eq using L(2) ji(1) by simp
    also have "\<dots> = f (poly_slice d i (poly_slice (d * K) j xs)) (ts ! i)" using R \<open>\<forall>j<N. ?Q (poly_slice (d * K) j xs)\<close> ji by blast
    finally show "poly_slice d (j * K + i) (ntt_polys f xs N K ts) = f (poly_slice d (j * K + i) xs) (ts ! i)"
      unfolding slice_slice [OF ji(2)] .
  qed (use L(1) eq in simp)
qed (use xs in \<open>simp add: ntt_polys_def\<close>)


section \<open>Properties\<close>

lemma initialize_wf:
  assumes "wf_modulus m" "0 < p" "p \<le> 62" "NTTTables_initialize rd p m = Inr t"
  shows "wf_tables p m t"
proof (cases "tryMinimalPrimitiveRoot rd (2 * push_bit p 1) m")
  case None
  then show ?thesis using assms(4) by (simp add: NTTTables_initialize_def)
next
  case (Some r)
  then show ?thesis using initialize_ok [OF assms(1-3) Some] assms(4) by auto
qed

lemma operand_power:
  assumes "wf_modulus m" "operand_for m r" "eqm (int (unat (mod_value m))) (int (unat (mop_operand r))) (int x ^ e)"
  shows "unat (mop_operand r) = x ^ e mod unat (mod_value m)"
proof -
  have "unat (mop_operand r) mod unat (mod_value m) = x ^ e mod unat (mod_value m)"
    using assms(3) unfolding of_nat_power [symmetric] eqm_nat .
  then show ?thesis using assms(2) by (simp add: operand_for_def word_less_nat_alt)
qed

text \<open>The tables with other operands at the place 0.\<close>

definition with_entry0 :: "MultiplyUIntModOperand \<Rightarrow> MultiplyUIntModOperand \<Rightarrow> NTTTables \<Rightarrow> NTTTables" where
  "with_entry0 x y t = t\<lparr>ntt_root_powers := (ntt_root_powers t)[0 := x], ntt_inv_root_powers := (ntt_inv_root_powers t)[0 := y]\<rparr>"

lemma wf_with_entry0:
  assumes "wf_tables p m t"
  shows "wf_tables p m (with_entry0 x y t)"
proof -
  have "ntt.roots_of m p \<psi> (rs[0 := z]) = ntt.roots_of m p \<psi> rs" "ntt.inv_roots_of m p \<psi> (rs[0 := z]) = ntt.inv_roots_of m p \<psi> rs"
    for \<psi> z rs unfolding ntt.roots_of_def ntt.inv_roots_of_def by auto
  moreover have "ntt_root (with_entry0 x y t) = ntt_root t" "ntt_inv_root (with_entry0 x y t) = ntt_inv_root t"
      "ntt_coeff_count_power (with_entry0 x y t) = ntt_coeff_count_power t" "ntt_coeff_count (with_entry0 x y t) = ntt_coeff_count t"
      "ntt_modulus (with_entry0 x y t) = ntt_modulus t" "ntt_inv_degree_modulo (with_entry0 x y t) = ntt_inv_degree_modulo t"
      "ntt_handler (with_entry0 x y t) = ntt_handler t" "ntt_root_powers (with_entry0 x y t) = (ntt_root_powers t)[0 := x]"
      "ntt_inv_root_powers (with_entry0 x y t) = (ntt_inv_root_powers t)[0 := y]"
    by (simp_all add: with_entry0_def)
  ultimately show ?thesis using assms unfolding wf_tables_def Let_def by metis
qed

lemma entry0_unused:
  assumes t: "wf_tables p m t" and a: "length a = 2 ^ p" "reduced m a"
  shows "nttNegacyclicHarvey a (with_entry0 x y t) = nttNegacyclicHarvey a t"
    "inverseNttNegacyclicHarvey a (with_entry0 x y t) = inverseNttNegacyclicHarvey a t"
proof -
  let ?t = "with_entry0 x y t"
  note w = wf_with_entry0 [OF t, of x y]
  have same: "nttNegacyclicHarvey b ?t = nttNegacyclicHarvey b t" if b: "length b = 2 ^ p" "reduced m b" for b
  proof -
    have b4: "\<forall>x\<in>set b. unat x < 4 * unat (mod_value m)" using b(2) by (auto simp: reduced_def)
    note u = nttNegacyclicHarvey_value [OF t b(1) b4] and v = nttNegacyclicHarvey_value [OF w b(1) b4]
    have "value_at p ?t b k = value_at p t b k" for k by (simp add: value_at_def with_entry0_def)
    then have "int (unat (nttNegacyclicHarvey b ?t ! k)) = int (unat (nttNegacyclicHarvey b t ! k))" if "k < 2 ^ p" for k
      using u(2) [OF that] v(2) [OF that] by (simp only:)
    then show ?thesis by (intro nth_words_eq [OF v(1) u(1)]) (simp only: of_nat_eq_iff)
  qed
  show "nttNegacyclicHarvey a ?t = nttNegacyclicHarvey a t" by (rule same [OF a])
  note i = ntt_of_inverse [OF t a]
  have "nttNegacyclicHarvey (inverseNttNegacyclicHarvey a t) ?t = a" using same [OF i(2,1)] i(3) by simp
  then show "inverseNttNegacyclicHarvey a ?t = inverseNttNegacyclicHarvey a t"
    using inverse_of_ntt [OF w i(2,1)] by simp
qed

text \<open>
  C27. The constructor of the tables fails only where the search for a root fails, in particular where the
  modulus is not one modulo twice the degree; otherwise the root has order twice the degree, the
  inverses are inverses, and each of the places \<open>1\<close> to \<open>2 ^ p - 1\<close> of the two tables holds the power that the transforms expect
  there, reduced and with its quotient. The place \<open>0\<close> is not used: whatever it holds, both transforms are the same.
\<close>

theorem NTTTables_initialize_correct:
  assumes m: "wf_modulus m" and p: "0 < p" "p \<le> 62"
  defines "q \<equiv> unat (mod_value m)"
  shows "case tryMinimalPrimitiveRoot rd (2 * push_bit p 1) m of
      None \<Rightarrow> NTTTables_initialize rd p m = Inl (Invalid_argument ''invalid modulus'')
    | Some r \<Rightarrow> q mod 2 ^ Suc p = 1 \<and>
        (\<exists>t. NTTTables_initialize rd p m = Inr t \<and> ntt_root t = r \<and> has_order q (2 ^ Suc p) (unat r) \<and>
          unat r * unat (ntt_inv_root t) mod q = 1 \<and> unat (mop_operand (ntt_inv_degree_modulo t)) * 2 ^ p mod q = 1 \<and>
          (\<forall>i. 0 < i \<and> i < 2 ^ p \<longrightarrow>
            operand_for m (ntt_root_powers t ! i) \<and>
            unat (mop_operand (ntt_root_powers t ! i)) = unat r ^ revn p i mod q \<and>
            operand_for m (ntt_inv_root_powers t ! i) \<and>
            unat (mop_operand (ntt_inv_root_powers t ! i)) = unat (ntt_inv_root t) ^ (revn p (i - 1) + 1) mod q) \<and>
          (\<forall>x y a. length a = 2 ^ p \<and> reduced m a \<longrightarrow>
            nttNegacyclicHarvey a (with_entry0 x y t) = nttNegacyclicHarvey a t \<and>
            inverseNttNegacyclicHarvey a (with_entry0 x y t) = inverseNttNegacyclicHarvey a t))"
proof (cases "tryMinimalPrimitiveRoot rd (2 * push_bit p 1) m")
  case None
  then show ?thesis by (simp add: NTTTables_initialize_def)
next
  case (Some r)
  obtain t where t: "NTTTables_initialize rd p m = Inr t" "wf_tables p m t" "ntt_root t = r"
    using initialize_ok [OF m p Some] by blast
  note w = wf_tablesD [OF t(2)]
  obtain g where "tryPrimitiveRoot rd (2 * push_bit p 1) m = Some g"
    using Some by (auto simp: tryMinimalPrimitiveRoot_def split: option.splits)
  note d = root_divides [OF m p this]
  note order = tryMinimalPrimitiveRoot_least(2) [OF wf_modulusD(1) [OF m] d(2) two_times_degree [OF p(2)] Some]
  have "q mod 2 ^ Suc p = 1"
  proof -
    have "q = (q - 1) + 1" using d(2) unfolding q_def by linarith
    moreover have "(q - 1 + 1) mod 2 ^ Suc p = (0 + 1) mod 2 ^ Suc p"
      by (rule mod_add_cong) (use d(1) in \<open>simp_all add: q_def mod_eq_0_iff_dvd\<close>)
    ultimately show ?thesis by simp
  qed
  moreover have "unat r * unat (ntt_inv_root t) mod q = 1" "unat (mop_operand (ntt_inv_degree_modulo t)) * 2 ^ p mod q = 1"
    using w(9,11) eqm_nat [of q "unat r * unat (ntt_inv_root t)" 1] d(2)
      eqm_nat [of q "unat (mop_operand (ntt_inv_degree_modulo t)) * 2 ^ p" 1] unfolding q_def t(3) by simp_all
  moreover have "operand_for m (ntt_root_powers t ! i) \<and> unat (mop_operand (ntt_root_powers t ! i)) = unat r ^ revn p i mod q"
    if "0 < i \<and> i < 2 ^ p" for i
    using w(12) that operand_power [OF m] unfolding ntt.roots_of_def q_def t(3) by blast
  moreover have "operand_for m (ntt_inv_root_powers t ! i) \<and>
      unat (mop_operand (ntt_inv_root_powers t ! i)) = unat (ntt_inv_root t) ^ (revn p (i - 1) + 1) mod q"
    if "0 < i \<and> i < 2 ^ p" for i
    using w(13) that operand_power [OF m] unfolding ntt.inv_roots_of_def q_def t(3) by blast
  moreover have "has_order q (2 ^ Suc p) (unat r)" using order unfolding q_def two_times_degree [OF p(2)] .
  moreover have "nttNegacyclicHarvey a (with_entry0 x y t) = nttNegacyclicHarvey a t \<and>
      inverseNttNegacyclicHarvey a (with_entry0 x y t) = inverseNttNegacyclicHarvey a t"
    if "length a = 2 ^ p \<and> reduced m a" for x y a
    using entry0_unused [OF t(2)] that by blast
  ultimately show ?thesis unfolding Some option.case using t(1,3) by blast
qed

lemma wf_modulus_17: "wf_modulus modulus_17"
  by (simp add: wf_modulus_def has_ratio_def modulus_17_def) code_simp

lemma root_17: "tryMinimalPrimitiveRoot (\<lambda>n. 6) (2 * push_bit 2 1) modulus_17 = Some 2"
  by code_simp

theorem NTTTables_initialize_correct_witness:
  "\<exists>t. NTTTables_initialize (\<lambda>n. 6) 2 modulus_17 = Inr t \<and> ntt_root t = 2 \<and>
    has_order (unat (mod_value modulus_17)) (2 ^ Suc 2) (unat (2 :: u64))"
  using NTTTables_initialize_correct [OF wf_modulus_17, of 2 "\<lambda>n. 6"] root_17 by auto

text \<open>
  C1. The transform maps the coefficients to the values of the polynomial at the odd powers of the root, place
  \<open>k\<close> holding the value at the power with the bit-reversed number; the results are fully reduced, and the
  inputs need only be below four times the modulus.
\<close>

theorem nttNegacyclicHarvey_correct:
  assumes m: "wf_modulus m" and p: "0 < p" "p \<le> 62" and t: "NTTTables_initialize rd p m = Inr t"
    and a: "length a = 2 ^ p" "\<forall>x\<in>set a. unat x < 4 * unat (mod_value m)"
  shows "length (nttNegacyclicHarvey a t) = 2 ^ p \<and>
    (\<forall>k<2 ^ p. int (unat (nttNegacyclicHarvey a t ! k)) =
      (\<Sum>c<2 ^ p. int (unat (a ! c)) * int (unat (ntt_root t)) ^ ((2 * revn p k + 1) * c)) mod int (unat (mod_value m)))"
  using nttNegacyclicHarvey_value(1,2) [OF initialize_wf [OF m p t] a] by (simp add: value_at_def evaluation_def)

theorem nttNegacyclicHarvey_correct_witness:
  "\<exists>t. NTTTables_initialize (\<lambda>n. 6) 2 modulus_17 = Inr t \<and> length (nttNegacyclicHarvey [1, 2, 67, 4] t) = 2 ^ 2 \<and>
    (\<forall>k<2 ^ 2. int (unat (nttNegacyclicHarvey [1, 2, 67, 4] t ! k)) =
      (\<Sum>c<2 ^ 2. int (unat ([1, 2, 67, 4 :: u64] ! c)) * int (unat (ntt_root t)) ^ ((2 * revn 2 k + 1) * c))
        mod int (unat (mod_value modulus_17)))"
proof -
  obtain t where t: "NTTTables_initialize (\<lambda>n. 6) 2 modulus_17 = Inr t"
    using initialize_ok [OF wf_modulus_17 _ _ root_17] by auto
  have "\<forall>x\<in>set [1, 2, 67, 4 :: u64]. unat x < 4 * unat (mod_value modulus_17)" by (simp add: modulus_17_def)
  with nttNegacyclicHarvey_correct [OF wf_modulus_17 _ _ t, of "[1, 2, 67, 4]"] t show ?thesis by auto
qed

text \<open>
  C26. On reduced words the two transforms are inverse to each other, in both orders.
\<close>

theorem ntt_roundtrip:
  assumes m: "wf_modulus m" and p: "0 < p" "p \<le> 62" and t: "NTTTables_initialize rd p m = Inr t"
    and a: "length a = 2 ^ p" "\<forall>x\<in>set a. unat x < unat (mod_value m)"
  shows "inverseNttNegacyclicHarvey (nttNegacyclicHarvey a t) t = a \<and>
    nttNegacyclicHarvey (inverseNttNegacyclicHarvey a t) t = a"
  using inverse_of_ntt [OF initialize_wf [OF m p t] a(1)] ntt_of_inverse(3) [OF initialize_wf [OF m p t] a(1)] a(2)
  by (simp add: reduced_def)

theorem ntt_roundtrip_witness:
  "\<exists>t. NTTTables_initialize (\<lambda>n. 6) 2 modulus_17 = Inr t \<and>
    inverseNttNegacyclicHarvey (nttNegacyclicHarvey [1, 2, 3, 16] t) t = [1, 2, 3, 16] \<and>
    nttNegacyclicHarvey (inverseNttNegacyclicHarvey [1, 2, 3, 16] t) t = [1, 2, 3, 16]"
proof -
  obtain t where t: "NTTTables_initialize (\<lambda>n. 6) 2 modulus_17 = Inr t"
    using initialize_ok [OF wf_modulus_17 _ _ root_17] by auto
  have "\<forall>x\<in>set [1, 2, 3, 16 :: u64]. unat x < unat (mod_value modulus_17)" by (simp add: modulus_17_def)
  with ntt_roundtrip [OF wf_modulus_17 _ _ t, of "[1, 2, 3, 16]"] t show ?thesis by auto
qed


lemma CreateNTTTables_loop_nth:
  "CreateNTTTables_loop rd p i ms = Inr ts \<Longrightarrow>
   length ts = length ms \<and> (\<forall>j<length ms. NTTTables_initialize (rd (i + j)) p (ms ! j) = Inr (ts ! j))"
proof (induction ms arbitrary: i ts)
  case (Cons m ms)
  then obtain t us where t: "NTTTables_initialize (rd i) p m = Inr t" "CreateNTTTables_loop rd p (i + 1) ms = Inr us" "ts = t # us"
    by (auto simp: rbind_Inr_iff)
  show ?case using Cons.IH [OF t(2)] t(1,3) by (auto simp: less_Suc_eq_0_disj)
qed simp

lemma slices_eq:
  assumes "length xs = d * n" "length ys = d * n" "\<And>j. j < n \<Longrightarrow> poly_slice d j xs = poly_slice d j ys"
  shows "xs = ys"
proof (rule nth_equalityI)
  fix i assume "i < length xs"
  then have i: "i < d * n" using assms(1) by simp
  then have j: "i div d < n" "i mod d < d" by (auto simp: less_mult_imp_div_less mult.commute intro!: mod_less_divisor) (cases d; simp)
  show "xs ! i = ys ! i"
    using nth_slice [OF assms(1) j] nth_slice [OF assms(2) j] assms(3) [OF j(1)] by simp
qed (use assms in simp)

text \<open>
  On the residues of several polynomials, polynomial by polynomial and within each modulus by modulus, the
  transform works on each residue with the tables of its modulus, and the inverse transform restores
  the whole array.
\<close>

theorem ntt_polys_correct:
  assumes ms: "\<forall>m\<in>set ms. wf_modulus m" and p: "0 < p" "p \<le> 30" and ts: "CreateNTTTables rd p ms = Inr ts"
    and xs: "length xs = 2 ^ p * length ms * n"
      "\<forall>j<n. \<forall>i<length ms. \<forall>x\<in>set (poly_slice (2 ^ p) (j * length ms + i) xs). unat x < unat (mod_value (ms ! i))"
  shows "(\<forall>j<n. \<forall>i<length ms. poly_slice (2 ^ p) (j * length ms + i) (nttNegacyclicHarvey_polys xs n (length ms) ts) =
      nttNegacyclicHarvey (poly_slice (2 ^ p) (j * length ms + i) xs) (ts ! i)) \<and>
    inverseNttNegacyclicHarvey_polys (nttNegacyclicHarvey_polys xs n (length ms) ts) n (length ms) ts = xs"
proof -
  let ?K = "length ms" and ?d = "2 ^ p :: nat"
  let ?P = "\<lambda>i ys. length ys = ?d \<and> reduced (ms ! i) ys"
  have K: "ms \<noteq> []" using ts by (auto simp: CreateNTTTables_def)
  then have t: "NTTTables_initialize (rd i) p (ms ! i) = Inr (ts ! i)" if "i < ?K" for i
    using CreateNTTTables_loop_nth [of rd p 0 ms ts] ts that by (simp add: CreateNTTTables_def)
  have w: "wf_tables p (ms ! i) (ts ! i)" if "i < ?K" for i
    by (rule initialize_wf [OF _ p(1) _ t [OF that]]) (use ms that p(2) in simp_all)
  have d: "push_bit (ntt_coeff_count_power (ts ! 0)) 1 = ?d"
    using wf_tablesD(6) [OF w [of 0]] K by (simp add: push_bit_eq_mult)
  have n: "?P i (nttNegacyclicHarvey ys (ts ! i))" "inverseNttNegacyclicHarvey (nttNegacyclicHarvey ys (ts ! i)) (ts ! i) = ys"
    "length (inverseNttNegacyclicHarvey ys (ts ! i)) = ?d" if "i < ?K" "?P i ys" for i ys
  proof -
    have "\<forall>x\<in>set ys. unat x < 4 * unat (mod_value (ms ! i))" using that(2) by (auto simp: reduced_def)
    then show "?P i (nttNegacyclicHarvey ys (ts ! i))"
      using nttNegacyclicHarvey_value(1,3) [OF w [OF that(1)]] that(2) by blast
    show "inverseNttNegacyclicHarvey (nttNegacyclicHarvey ys (ts ! i)) (ts ! i) = ys"
      using inverse_of_ntt [OF w [OF that(1)]] that(2) by blast
    show "length (inverseNttNegacyclicHarvey ys (ts ! i)) = ?d"
      using ntt_of_inverse(2) [OF w [OF that(1)]] that(2) by blast
  qed
  let ?ys = "nttNegacyclicHarvey_polys xs n ?K ts"
  have at: "j * ?K + i < ?K * n" if "j < n" "i < ?K" for i j
    using slice_end [of j n ?K] that by (simp add: mult.commute)
  have P: "\<forall>j<n. \<forall>i<?K. ?P i (poly_slice ?d (j * ?K + i) xs)"
    using xs(2) length_slice [of xs ?d "?K * n"] at xs(1) by (simp add: reduced_def mult.assoc)
  have A: "length ?ys = ?d * ?K * n"
    "\<forall>j<n. \<forall>i<?K. poly_slice ?d (j * ?K + i) ?ys = nttNegacyclicHarvey (poly_slice ?d (j * ?K + i) xs) (ts ! i)"
    using ntt_polys_slices [of ?K ?P nttNegacyclicHarvey ts ?d xs n] n(1) d xs(1) P
    unfolding nttNegacyclicHarvey_polys_def by blast+
  then have "\<forall>j<n. \<forall>i<?K. ?P i (poly_slice ?d (j * ?K + i) ?ys)" using n(1) P by simp
  then have B: "length (inverseNttNegacyclicHarvey_polys ?ys n ?K ts) = ?d * ?K * n"
    "\<forall>j<n. \<forall>i<?K. poly_slice ?d (j * ?K + i) (inverseNttNegacyclicHarvey_polys ?ys n ?K ts) =
      inverseNttNegacyclicHarvey (poly_slice ?d (j * ?K + i) ?ys) (ts ! i)"
    using ntt_polys_slices [of ?K ?P inverseNttNegacyclicHarvey ts ?d ?ys n] n(3) d A(1)
    unfolding inverseNttNegacyclicHarvey_polys_def by blast+
  have "inverseNttNegacyclicHarvey_polys ?ys n ?K ts = xs"
  proof (rule slices_eq)
    fix l assume l: "l < ?K * n"
    then have K0: "0 < ?K" by (cases ?K) simp_all
    have ji: "l div ?K < n" "l mod ?K < ?K" "l = l div ?K * ?K + l mod ?K"
      using l K0 by (simp_all add: less_mult_imp_div_less mult.commute)
    show "poly_slice ?d l (inverseNttNegacyclicHarvey_polys ?ys n ?K ts) = poly_slice ?d l xs"
      using A(2) B(2) n(2) P ji by metis
  qed (use B(1) xs(1) in \<open>simp_all add: mult.assoc\<close>)
  then show ?thesis using A(2) by blast
qed

theorem ntt_polys_correct_witness:
  "\<exists>ts. CreateNTTTables (\<lambda>i n. 6) 2 [modulus_17, modulus_17] = Inr ts \<and>
    inverseNttNegacyclicHarvey_polys (nttNegacyclicHarvey_polys [1, 2, 3, 4, 5, 6, 7, 8, 9, 10, 11, 12, 13, 14, 15, 16] 2 2 ts) 2 2 ts =
      [1, 2, 3, 4, 5, 6, 7, 8, 9, 10, 11, 12, 13, 14, 15, 16]"
proof -
  obtain t where "NTTTables_initialize (\<lambda>n. 6) 2 modulus_17 = Inr t"
    using initialize_ok [OF wf_modulus_17 _ _ root_17] by auto
  then have t: "CreateNTTTables (\<lambda>i n. 6) 2 [modulus_17, modulus_17] = Inr [t, t]" by (simp add: CreateNTTTables_def)
  let ?xs = "[1, 2, 3, 4, 5, 6, 7, 8, 9, 10, 11, 12, 13, 14, 15, 16] :: u64 list"
  have "\<forall>x\<in>set ?xs. unat x < unat (mod_value modulus_17)" by (simp add: modulus_17_def)
  then have b: "\<forall>x\<in>set (poly_slice 4 j ?xs). unat x < unat (mod_value modulus_17)" for j
    unfolding poly_slice_def by (meson in_set_dropD in_set_takeD)
  have "\<forall>j<2. \<forall>i<length [modulus_17, modulus_17]. \<forall>x\<in>set (poly_slice (2 ^ 2) (j * length [modulus_17, modulus_17] + i) ?xs).
      unat x < unat (mod_value ([modulus_17, modulus_17] ! i))"
    using b by (simp add: All_less_Suc nth_Cons')
  from ntt_polys_correct [OF _ _ _ t _ this] t wf_modulus_17 show ?thesis by (simp add: numeral_2_eq_2)
qed

section \<open>The copy of the tables\<close>

lemma unset_arith_sel:
  "ar_add (unset_arith j) a b = a + b"
  "ar_sub (unset_arith j) a b = a + j - b"
  "ar_mulRoot (unset_arith j) a r = mop_operand r * a"
  "ar_guard (unset_arith j) 0 = 0"
  by (simp_all add: unset_arith_def mod_arith_def multiplyUintModLazy_def modulus_value_def Let_def)

lemma transform_4:
  "transformToRev A [a, b, c, d] 2 roots None =
   (let bf = to_rev_bf A;
        (a, c) = bf (roots ! 1) a c; (b, d) = bf (roots ! 1) b d;
        (a, b) = bf (roots ! 2) a b; (c, d) = bf (roots ! 3) c d
    in [a, b, c, d])"
proof -
  have first: "blocks (to_rev_bf A) roots 2 1 0 0 0 vs = (1, butterflies (to_rev_bf A (roots ! 1)) 2 0 vs)" for vs
    by (subst blocks.simps, subst blocks.simps) (simp add: Let_def)
  have l: "to_rev_levels A roots 4 2 1 0 vs = (2, 1, butterflies (to_rev_bf A (roots ! 1)) 2 0 vs)" for vs
    unfolding to_rev_levels.simps [of A roots 4 2 1] by (simp add: first [unfolded One_nat_def], subst to_rev_levels.simps, simp)
  have b: "butterflies bf 2 0 vs = butterfly bf 1 3 (butterfly bf 0 2 vs)" for bf vs
    unfolding butterflies_def by (simp, subst butterflies1.simps, subst butterflies1.simps, subst butterflies1.simps) (simp add: numeral_2_eq_2 numeral_3_eq_3)
  have e: "last_blocks bf roots 2 0 0 1 vs = butterfly (bf (roots ! 3)) 2 3 (butterfly (bf (roots ! 2)) 0 1 vs)" for bf vs
    by (subst last_blocks.simps, subst last_blocks.simps, subst last_blocks.simps) (simp add: Let_def numeral_2_eq_2 numeral_3_eq_3)
  have n: "push_bit 2 1 = (4 :: nat)" and d: "4 div 2 = (2 :: nat)" by (simp_all add: push_bit_eq_mult)
  show ?thesis
    unfolding transformToRev_def Let_def n d l prod.case option.case b e
    by (simp add: butterfly_def split: prod.splits)
qed

text \<open>
  A copy of the tables does not transform as the tables do: the place where the tables hold the value at the
  root modulo 17, which is nine, gets 77, whatever the uninitialised word.
\<close>

theorem NTTTables_copy_wrong:
  "\<exists>t. NTTTables_initialize (\<lambda>n. 6) 2 modulus_17 = Inr t \<and>
    nttNegacyclicHarvey [0, 0, 0, 16] t ! 0 = 9 \<and>
    (\<forall>junk. nttNegacyclicHarvey [0, 0, 0, 16] (NTTTables_copy junk t) ! 0 = 77)"
proof -
  obtain t where t: "NTTTables_initialize (\<lambda>n. 6) 2 modulus_17 = Inr t" "wf_tables 2 modulus_17 t" "ntt_root t = 2"
    using initialize_ok [OF wf_modulus_17 _ _ root_17] by auto
  note w = wf_tablesD [OF t(2)]
  have op: "unat (mop_operand (ntt_root_powers t ! i)) = 2 ^ revn 2 i mod 17" if "0 < i" "i < 4" for i
    using operand_power [OF wf_modulus_17, of "ntt_root_powers t ! i" 2 "revn 2 i"] w(12) that
    unfolding ntt.roots_of_def t(3) by (simp add: modulus_17_def)
  have "revn (Suc (Suc 0)) 1 = 2" "revn (Suc (Suc 0)) 2 = 1" by simp_all
  then have rev: "revn 2 1 = 2" "revn 2 2 = 1" "revn 2 0 = 0" by (simp_all add: numeral_2_eq_2)
  have "unat (mop_operand (ntt_root_powers t ! 1)) = unat (4 :: u64)" "unat (mop_operand (ntt_root_powers t ! 2)) = unat (2 :: u64)"
    using op [of 1] op [of 2] rev by simp_all
  then have r: "mop_operand (ntt_root_powers t ! 1) = 4" "mop_operand (ntt_root_powers t ! 2) = 2"
    by (simp_all only: word_unat_eq_iff)
  have "\<forall>x\<in>set [0, 0, 0, 16 :: u64]. unat x < 4 * unat (mod_value modulus_17)" by (simp add: modulus_17_def)
  from nttNegacyclicHarvey_value(2) [OF t(2) _ this, of 0]
  have "int (unat (nttNegacyclicHarvey [0, 0, 0, 16] t ! 0)) = 9"
    by (simp add: value_at_def evaluation_def rev t(3) modulus_17_def lessThan_nat_numeral lessThan_Suc)
  then have "uint (nttNegacyclicHarvey [0, 0, 0, 16] t ! 0) = uint (9 :: u64)" by simp
  then have "nttNegacyclicHarvey [0, 0, 0, 16] t ! 0 = 9" by (simp only: word_uint_eq_iff)
  moreover have "nttNegacyclicHarvey [0, 0, 0, 16] (NTTTables_copy j t) ! 0 = 77" for j
    by (simp add: nttNegacyclicHarvey_def nttNegacyclicHarveyLazy_def NTTTables_copy_def w(4,6,7) transform_4
      to_rev_bf_def unset_arith_sel r r [unfolded One_nat_def] modulus_value_def modulus_17_def Let_def push_bit_eq_mult split: prod.splits)
  ultimately show ?thesis using t(1) by blast
qed

end
