(* ===== verification/Poly_Small_Mod.thy ===== *)
theory Poly_Small_Mod
  imports Ntt
begin

unbundle bit_operations_syntax

text \<open>
  Polynomials with coefficients modulo a word: \<open>utils/polyarithsmallmod.h\<close> and \<open>.cpp\<close> of
  \<open>heu/library/algorithms/seal_gpu/\<close>. Every operation has three forms: one polynomial, its residues for
  several moduli, and an array of such polynomials. An operand is the list of the words from its pointer
  on, the result the memory written; the coefficient-wise loops read coefficient \<open>i\<close> before they write
  it, so the result may be an operand.
\<close>

section \<open>Loops\<close>

text \<open>\<open>for (i = 0; i < coeff_count; i++) result[i] = f(i)\<close>\<close>

fun coeff_loop :: "(nat \<Rightarrow> u64) \<Rightarrow> nat \<Rightarrow> nat \<Rightarrow> u64 list \<Rightarrow> u64 list" where
  "coeff_loop f 0 i result = result"
| "coeff_loop f (Suc k) i result = coeff_loop f k (i + 1) (result[i := f i])"

text \<open>The loops that call a function on the parts \<open>result + i * d\<close>.\<close>

fun parts_loop :: "(nat \<Rightarrow> u64 list \<Rightarrow> u64 list) \<Rightarrow> nat \<Rightarrow> nat \<Rightarrow> nat \<Rightarrow> u64 list \<Rightarrow> u64 list" where
  "parts_loop f d 0 i result = result"
| "parts_loop f d (Suc k) i result = parts_loop f d k (i + 1) (on_slice (d * i) d (f i) result)"

section \<open>Operations on one polynomial\<close>

definition moduloPolyCoeffs :: "u64 list \<Rightarrow> nat \<Rightarrow> Modulus \<Rightarrow> u64 list \<Rightarrow> u64 list" where
  "moduloPolyCoeffs poly coeff_count modulus =
     coeff_loop (\<lambda>i. barrettReduce64 (poly ! i) modulus) coeff_count 0"

definition negatePolyCoeffmod :: "u64 list \<Rightarrow> nat \<Rightarrow> Modulus \<Rightarrow> u64 list \<Rightarrow> u64 list" where
  "negatePolyCoeffmod poly coeff_count modulus =
     coeff_loop (\<lambda>i. let coeff = poly ! i; non_zero = of_bool (coeff \<noteq> 0)
                      in (modulus_value modulus - coeff) AND - non_zero) coeff_count 0"

definition addPolyCoeffmod :: "u64 list \<Rightarrow> u64 list \<Rightarrow> nat \<Rightarrow> Modulus \<Rightarrow> u64 list \<Rightarrow> u64 list" where
  "addPolyCoeffmod operand1 operand2 coeff_count modulus =
     coeff_loop (\<lambda>i. let s = operand1 ! i + operand2 ! i
                      in if s \<ge> modulus_value modulus then s - modulus_value modulus else s) coeff_count 0"

definition subPolyCoeffmod :: "u64 list \<Rightarrow> u64 list \<Rightarrow> nat \<Rightarrow> Modulus \<Rightarrow> u64 list \<Rightarrow> u64 list" where
  "subPolyCoeffmod operand1 operand2 coeff_count modulus =
     coeff_loop (\<lambda>i. let (borrow, temp_result) = subUint64 (operand1 ! i) (operand2 ! i)
                      in temp_result + (modulus_value modulus AND - ucast borrow)) coeff_count 0"

definition addPolyScalarCoeffmod :: "u64 list \<Rightarrow> nat \<Rightarrow> u64 \<Rightarrow> Modulus \<Rightarrow> u64 list \<Rightarrow> u64 list" where
  "addPolyScalarCoeffmod poly coeff_count scalar modulus =
     coeff_loop (\<lambda>i. let x = poly ! i in addUintMod x scalar modulus) coeff_count 0"

definition subPolyScalarCoeffmod :: "u64 list \<Rightarrow> nat \<Rightarrow> u64 \<Rightarrow> Modulus \<Rightarrow> u64 list \<Rightarrow> u64 list" where
  "subPolyScalarCoeffmod poly coeff_count scalar modulus =
     coeff_loop (\<lambda>i. let x = poly ! i in subUintMod x scalar modulus) coeff_count 0"

definition multiplyPolyScalarCoeffmod_operand ::
    "u64 list \<Rightarrow> nat \<Rightarrow> MultiplyUIntModOperand \<Rightarrow> Modulus \<Rightarrow> u64 list \<Rightarrow> u64 list" where
  "multiplyPolyScalarCoeffmod_operand poly coeff_count scalar modulus =
     coeff_loop (\<lambda>i. let x = poly ! i in multiplyUintMod_operand x scalar modulus) coeff_count 0"

definition multiplyPolyScalarCoeffmod :: "u64 list \<Rightarrow> nat \<Rightarrow> u64 \<Rightarrow> Modulus \<Rightarrow> u64 list \<Rightarrow> u64 list" where
  "multiplyPolyScalarCoeffmod poly coeff_count scalar modulus =
     (let temp_scalar = set_operand (barrettReduce64 scalar modulus) modulus \<lparr>mop_operand = 0, mop_quotient = 0\<rparr>
      in multiplyPolyScalarCoeffmod_operand poly coeff_count temp_scalar modulus)"

text \<open>The product has the Barrett reduction of two words written out.\<close>

definition dyadicProduct_coeff :: "u64 \<Rightarrow> u64 \<Rightarrow> Modulus \<Rightarrow> u64" where
  "dyadicProduct_coeff x y modulus =
     (let const_ratio_0 = constRatio modulus ! 0;
          const_ratio_1 = constRatio modulus ! 1;
          (z0, z1) = multiplyUint64 x y;
          carry = multiplyUint64HW64 z0 const_ratio_0;
          (tmp2_0, tmp2_1) = multiplyUint64 z0 const_ratio_1;
          (c, tmp1) = addUint64 tmp2_0 carry;
          tmp3 = tmp2_1 + ucast c;
          (tmp2_0, tmp2_1) = multiplyUint64 z1 const_ratio_0;
          (c, tmp1) = addUint64 tmp1 tmp2_0;
          carry = tmp2_1 + ucast c;
          tmp1 = z1 * const_ratio_1 + tmp3 + carry;
          tmp3 = z0 - tmp1 * modulus_value modulus
      in if tmp3 \<ge> modulus_value modulus then tmp3 - modulus_value modulus else tmp3)"

definition dyadicProductCoeffmod :: "u64 list \<Rightarrow> u64 list \<Rightarrow> nat \<Rightarrow> Modulus \<Rightarrow> u64 list \<Rightarrow> u64 list" where
  "dyadicProductCoeffmod operand1 operand2 coeff_count modulus =
     coeff_loop (\<lambda>i. dyadicProduct_coeff (operand1 ! i) (operand2 ! i) modulus) coeff_count 0"

fun inftyNorm_loop :: "u64 list \<Rightarrow> Modulus \<Rightarrow> u64 \<Rightarrow> nat \<Rightarrow> nat \<Rightarrow> u64 \<Rightarrow> u64" where
  "inftyNorm_loop operand modulus modulus_neg_threshold 0 i result = result"
| "inftyNorm_loop operand modulus modulus_neg_threshold (Suc k) i result =
     (let poly_coeff = barrettReduce64 (operand ! i) modulus;
          poly_coeff = (if poly_coeff \<ge> modulus_neg_threshold then modulus_value modulus - poly_coeff else poly_coeff);
          result = (if poly_coeff > result then poly_coeff else result)
      in inftyNorm_loop operand modulus modulus_neg_threshold k (i + 1) result)"

definition polyInftyNormCoeffmod :: "u64 list \<Rightarrow> nat \<Rightarrow> Modulus \<Rightarrow> u64" where
  "polyInftyNormCoeffmod operand coeff_count modulus =
     (let modulus_neg_threshold = drop_bit 1 (modulus_value modulus + 1)
      in inftyNorm_loop operand modulus modulus_neg_threshold coeff_count 0 0)"

fun negacyclicShift_loop ::
    "u64 list \<Rightarrow> u64 \<Rightarrow> u64 \<Rightarrow> Modulus \<Rightarrow> nat \<Rightarrow> nat \<Rightarrow> u64 \<Rightarrow> u64 list \<Rightarrow> u64 list" where
  "negacyclicShift_loop poly coeff_count coeff_count_mod_mask modulus 0 i index_raw result = result"
| "negacyclicShift_loop poly coeff_count coeff_count_mod_mask modulus (Suc k) i index_raw result =
     (let index = index_raw AND coeff_count_mod_mask;
          result =
            (if index_raw AND coeff_count = 0 \<or> poly ! i = 0 then result[unat index := poly ! i]
             else result[unat index := modulus_value modulus - poly ! i])
      in negacyclicShift_loop poly coeff_count coeff_count_mod_mask modulus k (i + 1) (index_raw + 1) result)"

definition negacyclicShiftPolyCoeffmod :: "u64 list \<Rightarrow> nat \<Rightarrow> nat \<Rightarrow> Modulus \<Rightarrow> u64 list \<Rightarrow> u64 list" where
  "negacyclicShiftPolyCoeffmod poly coeff_count shift modulus result =
     (if shift = 0 then setUint (take coeff_count poly) @ drop coeff_count result
      else negacyclicShift_loop poly (of_nat coeff_count) (of_nat coeff_count - 1) modulus coeff_count 0 (of_nat shift) result)"

definition negacyclicMultiplyPolyMonoCoeffmod ::
    "u64 list \<Rightarrow> nat \<Rightarrow> u64 \<Rightarrow> nat \<Rightarrow> Modulus \<Rightarrow> u64 list \<Rightarrow> u64 list" where
  "negacyclicMultiplyPolyMonoCoeffmod poly coeff_count mono_coeff mono_exponent modulus result =
     (let temp = multiplyPolyScalarCoeffmod poly coeff_count mono_coeff modulus (replicate coeff_count 0)
      in negacyclicShiftPolyCoeffmod temp coeff_count mono_exponent modulus result)"

section \<open>Residues for several moduli\<close>

definition moduloPolyCoeffs_rns :: "u64 list \<Rightarrow> nat \<Rightarrow> nat \<Rightarrow> Modulus list \<Rightarrow> u64 list \<Rightarrow> u64 list" where
  "moduloPolyCoeffs_rns poly coeff_modulus_size degree modulus =
     parts_loop (\<lambda>i. moduloPolyCoeffs (drop (degree * i) poly) degree (modulus ! i)) degree coeff_modulus_size 0"

definition negatePolyCoeffmod_rns :: "u64 list \<Rightarrow> nat \<Rightarrow> nat \<Rightarrow> Modulus list \<Rightarrow> u64 list \<Rightarrow> u64 list" where
  "negatePolyCoeffmod_rns poly coeff_modulus_size degree modulus =
     parts_loop (\<lambda>i. negatePolyCoeffmod (drop (degree * i) poly) degree (modulus ! i)) degree coeff_modulus_size 0"

definition addPolyCoeffmod_rns :: "u64 list \<Rightarrow> u64 list \<Rightarrow> nat \<Rightarrow> nat \<Rightarrow> Modulus list \<Rightarrow> u64 list \<Rightarrow> u64 list" where
  "addPolyCoeffmod_rns operand1 operand2 coeff_modulus_size degree modulus =
     parts_loop (\<lambda>i. addPolyCoeffmod (drop (degree * i) operand1) (drop (degree * i) operand2) degree (modulus ! i))
       degree coeff_modulus_size 0"

definition subPolyCoeffmod_rns :: "u64 list \<Rightarrow> u64 list \<Rightarrow> nat \<Rightarrow> nat \<Rightarrow> Modulus list \<Rightarrow> u64 list \<Rightarrow> u64 list" where
  "subPolyCoeffmod_rns operand1 operand2 coeff_modulus_size degree modulus =
     parts_loop (\<lambda>i. subPolyCoeffmod (drop (degree * i) operand1) (drop (degree * i) operand2) degree (modulus ! i))
       degree coeff_modulus_size 0"

definition addPolyScalarCoeffmod_rns :: "u64 list \<Rightarrow> nat \<Rightarrow> nat \<Rightarrow> u64 \<Rightarrow> Modulus list \<Rightarrow> u64 list \<Rightarrow> u64 list" where
  "addPolyScalarCoeffmod_rns poly coeff_modulus_size degree scalar modulus =
     parts_loop (\<lambda>i. addPolyScalarCoeffmod (drop (degree * i) poly) degree scalar (modulus ! i)) degree coeff_modulus_size 0"

definition subPolyScalarCoeffmod_rns :: "u64 list \<Rightarrow> nat \<Rightarrow> nat \<Rightarrow> u64 \<Rightarrow> Modulus list \<Rightarrow> u64 list \<Rightarrow> u64 list" where
  "subPolyScalarCoeffmod_rns poly coeff_modulus_size degree scalar modulus =
     parts_loop (\<lambda>i. subPolyScalarCoeffmod (drop (degree * i) poly) degree scalar (modulus ! i)) degree coeff_modulus_size 0"

definition multiplyPolyScalarCoeffmod_rns :: "u64 list \<Rightarrow> nat \<Rightarrow> nat \<Rightarrow> u64 \<Rightarrow> Modulus list \<Rightarrow> u64 list \<Rightarrow> u64 list" where
  "multiplyPolyScalarCoeffmod_rns poly coeff_modulus_size degree scalar modulus =
     parts_loop (\<lambda>i. multiplyPolyScalarCoeffmod (drop (degree * i) poly) degree scalar (modulus ! i)) degree coeff_modulus_size 0"

definition dyadicProductCoeffmod_rns :: "u64 list \<Rightarrow> u64 list \<Rightarrow> nat \<Rightarrow> nat \<Rightarrow> Modulus list \<Rightarrow> u64 list \<Rightarrow> u64 list" where
  "dyadicProductCoeffmod_rns operand1 operand2 coeff_modulus_size degree modulus =
     parts_loop (\<lambda>i. dyadicProductCoeffmod (drop (degree * i) operand1) (drop (degree * i) operand2) degree (modulus ! i))
       degree coeff_modulus_size 0"

definition negacyclicShiftPolyCoeffmod_rns :: "u64 list \<Rightarrow> nat \<Rightarrow> nat \<Rightarrow> nat \<Rightarrow> Modulus list \<Rightarrow> u64 list \<Rightarrow> u64 list" where
  "negacyclicShiftPolyCoeffmod_rns poly coeff_modulus_size degree shift modulus =
     parts_loop (\<lambda>i. negacyclicShiftPolyCoeffmod (drop (degree * i) poly) degree shift (modulus ! i)) degree coeff_modulus_size 0"

definition negacyclicMultiplyPolyMonoCoeffmod_rns ::
    "u64 list \<Rightarrow> nat \<Rightarrow> nat \<Rightarrow> u64 \<Rightarrow> nat \<Rightarrow> Modulus list \<Rightarrow> u64 list \<Rightarrow> u64 list" where
  "negacyclicMultiplyPolyMonoCoeffmod_rns poly coeff_modulus_size degree mono_coeff mono_exponent modulus =
     parts_loop (\<lambda>i. negacyclicMultiplyPolyMonoCoeffmod (drop (degree * i) poly) degree mono_coeff mono_exponent (modulus ! i))
       degree coeff_modulus_size 0"

definition negacyclicMultiplyPolyMonoCoeffmod_rns_coeffs ::
    "u64 list \<Rightarrow> nat \<Rightarrow> nat \<Rightarrow> u64 list \<Rightarrow> nat \<Rightarrow> Modulus list \<Rightarrow> u64 list \<Rightarrow> u64 list" where
  "negacyclicMultiplyPolyMonoCoeffmod_rns_coeffs poly coeff_modulus_size degree mono_coeff mono_exponent modulus =
     parts_loop (\<lambda>i. negacyclicMultiplyPolyMonoCoeffmod (drop (degree * i) poly) degree (mono_coeff ! i) mono_exponent (modulus ! i))
       degree coeff_modulus_size 0"

section \<open>Arrays of polynomials\<close>

definition moduloPolyCoeffs_polys :: "u64 list \<Rightarrow> nat \<Rightarrow> nat \<Rightarrow> nat \<Rightarrow> Modulus list \<Rightarrow> u64 list \<Rightarrow> u64 list" where
  "moduloPolyCoeffs_polys poly_array poly_size coeff_modulus_size degree modulus =
     (let d = degree * coeff_modulus_size
      in parts_loop (\<lambda>i. moduloPolyCoeffs_rns (drop (d * i) poly_array) coeff_modulus_size degree modulus) d poly_size 0)"

definition negatePolyCoeffmod_polys :: "u64 list \<Rightarrow> nat \<Rightarrow> nat \<Rightarrow> nat \<Rightarrow> Modulus list \<Rightarrow> u64 list \<Rightarrow> u64 list" where
  "negatePolyCoeffmod_polys poly_array poly_size coeff_modulus_size degree modulus =
     (let d = degree * coeff_modulus_size
      in parts_loop (\<lambda>i. negatePolyCoeffmod_rns (drop (d * i) poly_array) coeff_modulus_size degree modulus) d poly_size 0)"

definition addPolyCoeffmod_polys ::
    "u64 list \<Rightarrow> u64 list \<Rightarrow> nat \<Rightarrow> nat \<Rightarrow> nat \<Rightarrow> Modulus list \<Rightarrow> u64 list \<Rightarrow> u64 list" where
  "addPolyCoeffmod_polys operand1 operand2 poly_size coeff_modulus_size degree modulus =
     (let d = degree * coeff_modulus_size
      in parts_loop (\<lambda>i. addPolyCoeffmod_rns (drop (d * i) operand1) (drop (d * i) operand2) coeff_modulus_size degree modulus)
           d poly_size 0)"

definition subPolyCoeffmod_polys ::
    "u64 list \<Rightarrow> u64 list \<Rightarrow> nat \<Rightarrow> nat \<Rightarrow> nat \<Rightarrow> Modulus list \<Rightarrow> u64 list \<Rightarrow> u64 list" where
  "subPolyCoeffmod_polys operand1 operand2 poly_size coeff_modulus_size degree modulus =
     (let d = degree * coeff_modulus_size
      in parts_loop (\<lambda>i. subPolyCoeffmod_rns (drop (d * i) operand1) (drop (d * i) operand2) coeff_modulus_size degree modulus)
           d poly_size 0)"

definition addPolyScalarCoeffmod_polys ::
    "u64 list \<Rightarrow> nat \<Rightarrow> nat \<Rightarrow> nat \<Rightarrow> u64 \<Rightarrow> Modulus list \<Rightarrow> u64 list \<Rightarrow> u64 list" where
  "addPolyScalarCoeffmod_polys poly_array poly_size coeff_modulus_size degree scalar modulus =
     (let d = degree * coeff_modulus_size
      in parts_loop (\<lambda>i. addPolyScalarCoeffmod_rns (drop (d * i) poly_array) coeff_modulus_size degree scalar modulus) d poly_size 0)"

definition subPolyScalarCoeffmod_polys ::
    "u64 list \<Rightarrow> nat \<Rightarrow> nat \<Rightarrow> nat \<Rightarrow> u64 \<Rightarrow> Modulus list \<Rightarrow> u64 list \<Rightarrow> u64 list" where
  "subPolyScalarCoeffmod_polys poly_array poly_size coeff_modulus_size degree scalar modulus =
     (let d = degree * coeff_modulus_size
      in parts_loop (\<lambda>i. subPolyScalarCoeffmod_rns (drop (d * i) poly_array) coeff_modulus_size degree scalar modulus) d poly_size 0)"

definition multiplyPolyScalarCoeffmod_polys ::
    "u64 list \<Rightarrow> nat \<Rightarrow> nat \<Rightarrow> nat \<Rightarrow> u64 \<Rightarrow> Modulus list \<Rightarrow> u64 list \<Rightarrow> u64 list" where
  "multiplyPolyScalarCoeffmod_polys poly_array poly_size coeff_modulus_size degree scalar modulus =
     (let d = degree * coeff_modulus_size
      in parts_loop (\<lambda>i. multiplyPolyScalarCoeffmod_rns (drop (d * i) poly_array) coeff_modulus_size degree scalar modulus) d poly_size 0)"

definition dyadicProductCoeffmod_polys ::
    "u64 list \<Rightarrow> u64 list \<Rightarrow> nat \<Rightarrow> nat \<Rightarrow> nat \<Rightarrow> Modulus list \<Rightarrow> u64 list \<Rightarrow> u64 list" where
  "dyadicProductCoeffmod_polys operand1 operand2 poly_size coeff_modulus_size degree modulus =
     (let d = degree * coeff_modulus_size
      in parts_loop (\<lambda>i. dyadicProductCoeffmod_rns (drop (d * i) operand1) (drop (d * i) operand2) coeff_modulus_size degree modulus)
           d poly_size 0)"

definition negacyclicShiftPolyCoeffmod_polys ::
    "u64 list \<Rightarrow> nat \<Rightarrow> nat \<Rightarrow> nat \<Rightarrow> nat \<Rightarrow> Modulus list \<Rightarrow> u64 list \<Rightarrow> u64 list" where
  "negacyclicShiftPolyCoeffmod_polys poly_array poly_size coeff_modulus_size degree shift modulus =
     (let d = degree * coeff_modulus_size
      in parts_loop (\<lambda>i. negacyclicShiftPolyCoeffmod_rns (drop (d * i) poly_array) coeff_modulus_size degree shift modulus) d poly_size 0)"

definition negacyclicMultiplyPolyMonoCoeffmod_polys ::
    "u64 list \<Rightarrow> nat \<Rightarrow> nat \<Rightarrow> nat \<Rightarrow> u64 \<Rightarrow> nat \<Rightarrow> Modulus list \<Rightarrow> u64 list \<Rightarrow> u64 list" where
  "negacyclicMultiplyPolyMonoCoeffmod_polys poly_array poly_size coeff_modulus_size degree mono_coeff mono_exponent modulus =
     (let d = degree * coeff_modulus_size
      in parts_loop (\<lambda>i. negacyclicMultiplyPolyMonoCoeffmod_rns (drop (d * i) poly_array) coeff_modulus_size degree
           mono_coeff mono_exponent modulus) d poly_size 0)"

definition negacyclicMultiplyPolyMonoCoeffmod_polys_coeffs ::
    "u64 list \<Rightarrow> nat \<Rightarrow> nat \<Rightarrow> nat \<Rightarrow> u64 list \<Rightarrow> nat \<Rightarrow> Modulus list \<Rightarrow> u64 list \<Rightarrow> u64 list" where
  "negacyclicMultiplyPolyMonoCoeffmod_polys_coeffs poly_array poly_size coeff_modulus_size degree mono_coeff mono_exponent modulus =
     (let d = degree * coeff_modulus_size
      in parts_loop (\<lambda>i. negacyclicMultiplyPolyMonoCoeffmod_rns_coeffs (drop (d * i) poly_array) coeff_modulus_size degree
           mono_coeff mono_exponent modulus) d poly_size 0)"


section \<open>The loops by index\<close>

lemma length_coeff_loop [simp]: "length (coeff_loop f k i r) = length r"
  by (induction k arbitrary: i r) simp_all

lemma nth_coeff_loop:
  "i + k \<le> length r \<Longrightarrow> j < length r \<Longrightarrow>
   coeff_loop f k i r ! j = (if i \<le> j \<and> j < i + k then f j else r ! j)"
  by (induction k arbitrary: i r) (auto simp: nth_list_update)

lemma coeff_loop_map: "length r = n \<Longrightarrow> coeff_loop f n 0 r = map f [0..<n]"
  by (rule nth_equalityI) (simp_all add: nth_coeff_loop)

lemma parts_loop_slices:
  assumes f: "\<And>i ys. i < n \<Longrightarrow> length ys = d \<Longrightarrow> length (f i ys) = d"
  shows "length xs = d * n \<Longrightarrow> i + k \<le> n \<Longrightarrow>
    length (parts_loop f d k i xs) = d * n \<and>
    (\<forall>j<n. poly_slice d j (parts_loop f d k i xs) =
      (if i \<le> j \<and> j < i + k then f j (poly_slice d j xs) else poly_slice d j xs))"
proof (induction k arbitrary: i xs)
  case (Suc k)
  let ?xs = "on_slice (d * i) d (f i) xs"
  have i: "i < n" "length (f i (poly_slice d i xs)) = d"
    using Suc.prems f length_slice [OF Suc.prems(1)] by simp_all
  note s = slice_on_slice [where f = "f i", OF Suc.prems(1) i(1) _ i(2)]
  have "length (parts_loop f d k (i + 1) ?xs) = d * n \<and>
    (\<forall>j<n. poly_slice d j (parts_loop f d k (i + 1) ?xs) =
      (if i + 1 \<le> j \<and> j < i + 1 + k then f j (poly_slice d j ?xs) else poly_slice d j ?xs))"
    using length_on_slice [where f = "f i", OF Suc.prems(1) i] Suc.prems(2) by (intro Suc.IH) simp_all
  then show ?case using s by auto
qed auto

text \<open>The two nested loops over polynomials and moduli, with a coefficient loop inside.\<close>

lemma polys_coeffs:
  assumes r: "length r = d * K * N" and jic: "j < N" "i < K" "c < d"
  shows "parts_loop (\<lambda>j. parts_loop (\<lambda>i. coeff_loop (g j i) d 0) d K 0) (d * K) N 0 r ! (d * (j * K + i) + c) = g j i c"
proof -
  let ?f = "\<lambda>j i. coeff_loop (g j i) d 0" and ?F = "\<lambda>j. parts_loop (\<lambda>i. coeff_loop (g j i) d 0) d K 0"
  have inner: "length (?F j ys) = d * K \<and> (\<forall>i<K. poly_slice d i (?F j ys) = ?f j i (poly_slice d i ys))"
    if "length ys = d * K" for j ys
    using parts_loop_slices [of K d "?f j" ys 0 K] that by simp
  have outer: "length (parts_loop ?F (d * K) N 0 r) = d * K * N"
    "poly_slice (d * K) j (parts_loop ?F (d * K) N 0 r) = ?F j (poly_slice (d * K) j r)"
    using parts_loop_slices [of N "d * K" ?F r 0 N] inner r jic by simp_all
  have l: "length (poly_slice (d * K) j r) = d * K" by (rule length_slice [OF r jic(1)])
  have "poly_slice d (j * K + i) (parts_loop ?F (d * K) N 0 r) = poly_slice d i (?F j (poly_slice (d * K) j r))"
    unfolding slice_slice [OF jic(2), symmetric] outer(2) by (rule refl)
  also have "\<dots> = ?f j i (poly_slice d i (poly_slice (d * K) j r))" using inner [OF l] jic(2) by blast
  also have "\<dots> = map (g j i) [0..<d]" by (rule coeff_loop_map) (rule length_slice [OF l jic(2)])
  finally have at: "poly_slice d (j * K + i) (parts_loop ?F (d * K) N 0 r) ! c = g j i c" using jic(3) by simp
  have "j * K + i < K * N" using slice_end [of j N K] jic(1,2) by (simp add: mult.commute)
  from nth_slice [OF outer(1) [unfolded mult.assoc] this jic(3)] at show ?thesis unfolding mult.assoc by simp
qed

lemma nth_drop_drop:
  assumes "length xs = d * K * N" "j < N" "i < K" "c < d"
  shows "drop (d * i) (drop (d * K * j) xs) ! c = xs ! (d * (j * K + i) + c)"
proof -
  have "d * i + d \<le> d * K" by (rule slice_end) (use assms(3) in simp)
  moreover have "d * K * j + d * K \<le> d * K * N" by (rule slice_end) (use assms(2) in simp)
  ultimately have "d * K * j + d * i \<le> length xs" using assms(1) by linarith
  moreover have "d * K * j + d * i + c = d * (j * K + i) + c" by (simp add: algebra_simps)
  ultimately show ?thesis by (simp add: add.commute)
qed

section \<open>Operations coefficient by coefficient\<close>

lemma dyadicProduct_coeff_eq: "dyadicProduct_coeff x y m = multiplyUintMod x y m"
  by (simp add: dyadicProduct_coeff_def multiplyUintMod_def barrettReduce128_def Let_def split: prod.splits)

lemma subPoly_coeff_eq:
  "(let (borrow, temp_result) = subUint64 x y in temp_result + (modulus_value m AND - ucast borrow)) = subUintMod x y m"
  by (simp add: subUint64_def subUintMod_def)

lemma negatePoly_coeff_value:
  assumes "unat x < unat (mod_value m)"
  shows "unat (let coeff = x; non_zero = of_bool (coeff \<noteq> 0) in (modulus_value m - coeff) AND - non_zero)
    = (unat (mod_value m) - unat x) mod unat (mod_value m)"
proof (cases "x = 0")
  case False
  then have "0 < unat x" by (simp add: unat_gt_0)
  then show ?thesis using assms False by (simp add: modulus_value_def unat_sub64 word_and_mask)
qed simp

text \<open>
  On arrays of polynomials in residue form the operations are those of the integers modulo the modulus of
  each residue, coefficient by coefficient: sum, difference, negation, sum and difference with a
  scalar and product with a scalar, product of two polynomials in transformed form, and reduction. The
  reduction, the scaling and the product do not need reduced operands.
\<close>

theorem poly_operations_correct:
  assumes ms: "\<forall>m\<in>set ms. wf_modulus m"
    and len: "length a = d * length ms * n" "length b = d * length ms * n" "length r = d * length ms * n"
    and jic: "j < n" "i < length ms" "c < d"
  defines "k \<equiv> d * (j * length ms + i) + c" and "q \<equiv> unat (mod_value (ms ! i))"
  shows "unat (dyadicProductCoeffmod_polys a b n (length ms) d ms r ! k) = unat (a ! k) * unat (b ! k) mod q \<and>
    unat (moduloPolyCoeffs_polys a n (length ms) d ms r ! k) = unat (a ! k) mod q \<and>
    unat (multiplyPolyScalarCoeffmod_polys a n (length ms) d s ms r ! k) = unat (a ! k) * unat s mod q \<and>
    (unat (a ! k) < q \<longrightarrow>
      unat (negatePolyCoeffmod_polys a n (length ms) d ms r ! k) = (q - unat (a ! k)) mod q \<and>
      (unat s < q \<longrightarrow>
        unat (addPolyScalarCoeffmod_polys a n (length ms) d s ms r ! k) = (unat (a ! k) + unat s) mod q \<and>
        unat (subPolyScalarCoeffmod_polys a n (length ms) d s ms r ! k) = (unat (a ! k) + q - unat s) mod q) \<and>
      (unat (b ! k) < q \<longrightarrow>
        unat (addPolyCoeffmod_polys a b n (length ms) d ms r ! k) = (unat (a ! k) + unat (b ! k)) mod q \<and>
        unat (subPolyCoeffmod_polys a b n (length ms) d ms r ! k) = (unat (a ! k) + q - unat (b ! k)) mod q))"
proof -
  let ?m = "ms ! i"
  have m: "wf_modulus ?m" using ms jic(2) by simp
  note h = wf_modulusD(1) [OF m] and q = wf_modulus_bound [OF m]
  note at = polys_coeffs [OF len(3) jic] nth_drop_drop [OF len(1) jic] nth_drop_drop [OF len(2) jic]
  note defs = dyadicProductCoeffmod_polys_def dyadicProductCoeffmod_rns_def dyadicProductCoeffmod_def
    moduloPolyCoeffs_polys_def moduloPolyCoeffs_rns_def moduloPolyCoeffs_def
    multiplyPolyScalarCoeffmod_polys_def multiplyPolyScalarCoeffmod_rns_def multiplyPolyScalarCoeffmod_def
    multiplyPolyScalarCoeffmod_operand_def
    negatePolyCoeffmod_polys_def negatePolyCoeffmod_rns_def negatePolyCoeffmod_def
    addPolyScalarCoeffmod_polys_def addPolyScalarCoeffmod_rns_def addPolyScalarCoeffmod_def
    subPolyScalarCoeffmod_polys_def subPolyScalarCoeffmod_rns_def subPolyScalarCoeffmod_def
    addPolyCoeffmod_polys_def addPolyCoeffmod_rns_def addPolyCoeffmod_def
    subPolyCoeffmod_polys_def subPolyCoeffmod_rns_def subPolyCoeffmod_def
  have op: "operand_for ?m (set_operand (barrettReduce64 s ?m) ?m z) \<and>
      mop_operand (set_operand (barrettReduce64 s ?m) ?m z) = barrettReduce64 s ?m" for z
    by (rule set_operand_for) (use barrettReduce64_value [OF h, of s] q(1) in \<open>simp add: word_less_nat_alt\<close>)
  have "unat (multiplyPolyScalarCoeffmod_polys a n (length ms) d s ms r ! k) = unat (a ! k) * unat s mod q"
    unfolding defs Let_def k_def at q_def
    using multiplyUintMod_operand_value [OF conjunct1 [OF op] q(2)] op barrettReduce64_value [OF h, of s]
    by (simp add: mod_mult_right_eq)
  moreover have "unat (addPolyCoeffmod_polys a b n (length ms) d ms r ! k) = (unat (a ! k) + unat (b ! k)) mod q"
    if "unat (a ! k) < q" "unat (b ! k) < q"
    using addUintMod_value [of "a ! k" "b ! k" ?m] that q(2)
    unfolding defs Let_def k_def at q_def addUintMod_def by simp
  moreover have "unat (subPolyCoeffmod_polys a b n (length ms) d ms r ! k) = (unat (a ! k) + q - unat (b ! k)) mod q"
    if "unat (a ! k) < q" "unat (b ! k) < q"
    using subUintMod_value [of "a ! k" ?m "b ! k"] that
    unfolding defs subPoly_coeff_eq unfolding Let_def k_def at q_def by simp
  moreover have "unat (negatePolyCoeffmod_polys a n (length ms) d ms r ! k) = (q - unat (a ! k)) mod q" if "unat (a ! k) < q"
    using negatePoly_coeff_value [of "a ! k" ?m] that unfolding defs Let_def k_def at q_def by simp
  moreover have "unat (addPolyScalarCoeffmod_polys a n (length ms) d s ms r ! k) = (unat (a ! k) + unat s) mod q"
    "unat (subPolyScalarCoeffmod_polys a n (length ms) d s ms r ! k) = (unat (a ! k) + q - unat s) mod q"
    if "unat (a ! k) < q" "unat s < q"
    using addUintMod_value [of "a ! k" s ?m] subUintMod_value [of "a ! k" ?m s] that q(2)
    unfolding defs Let_def k_def at q_def by simp_all
  moreover have "unat (dyadicProductCoeffmod_polys a b n (length ms) d ms r ! k) = unat (a ! k) * unat (b ! k) mod q"
    "unat (moduloPolyCoeffs_polys a n (length ms) d ms r ! k) = unat (a ! k) mod q"
    unfolding defs Let_def k_def at q_def dyadicProduct_coeff_eq
    by (rule multiplyUintMod_value [OF h] barrettReduce64_value [OF h])+
  ultimately show ?thesis by blast
qed

theorem poly_operations_correct_witness:
  "let a = [1, 2, 3, 4]; b = [16, 15, 14, 13]; ms = [modulus_17]; r = [0, 0, 0, 0]
   in unat (dyadicProductCoeffmod_polys a b 2 1 2 ms r ! 3) = 4 * 13 mod 17 \<and>
      unat (addPolyCoeffmod_polys a b 2 1 2 ms r ! 3) = (4 + 13) mod 17 \<and>
      unat (subPolyCoeffmod_polys a b 2 1 2 ms r ! 3) = (4 + 17 - 13) mod 17"
proof -
  let ?a = "[1, 2, 3, 4] :: u64 list" and ?b = "[16, 15, 14, 13] :: u64 list"
  have n: "?a ! Suc (Suc (Suc 0)) = 4" "?b ! Suc (Suc (Suc 0)) = 13" by simp_all
  have c: "j < (2 :: nat)" "i < length [modulus_17]" "c < (2 :: nat)" if "j = 1" "i = 0" "c = 1" for j i c
    using that by simp_all
  from poly_operations_correct [of "[modulus_17]" ?a 2 2 ?b "[0, 0, 0, 0]" 1 0 1 5] wf_modulus_17
  show ?thesis by (simp add: Let_def modulus_17_def n)
qed


section \<open>Products of polynomials\<close>

text \<open>The product modulo \<open>X\<close> to the power \<open>n\<close> plus one, coefficient by coefficient.\<close>

definition negacyclic :: "nat \<Rightarrow> (nat \<Rightarrow> int) \<Rightarrow> (nat \<Rightarrow> int) \<Rightarrow> nat \<Rightarrow> int" where
  "negacyclic n a b k = (\<Sum>i<n. a i * (if i \<le> k then b (k - i) else - b (n + k - i)))"

lemma sum_lessThan_add: "(\<Sum>j<m + n. g j) = (\<Sum>j<m. g j) + (\<Sum>k<n. g (m + k))" for g :: "nat \<Rightarrow> int"
  by (induction n) simp_all

lemma eqm_factor: "eqm q x y \<Longrightarrow> eqm q (z * x) (z * y)"
  by (intro eqm_mult eqm_refl)

lemma negacyclic_row:
  assumes w: "eqm q (w ^ n) (- 1)" and i: "i < n"
  shows "eqm q (\<Sum>k<n. (if i \<le> k then b (k - i) else - b (n + k - i)) * w ^ k) (w ^ i * (\<Sum>j<n. b j * w ^ j))"
proof -
  let ?f = "\<lambda>k. (if i \<le> k then b (k - i) else - b (n + k - i)) * w ^ k"
  have n: "n = i + (n - i)" using i by simp
  have "(\<Sum>k<n. ?f k) = (\<Sum>k<i. - b (n + k - i) * w ^ k) + (\<Sum>j<n - i. b j * w ^ (i + j))"
    by (subst n, subst sum_lessThan_add) simp
  also have "eqm q \<dots> ((\<Sum>k<i. b (n - i + k) * w ^ (n + k)) + (\<Sum>j<n - i. b j * w ^ (i + j)))"
  proof (intro eqm_add eqm_sum eqm_refl)
    fix k
    assume "k \<in> {..<i}"
    have "eqm q (w ^ n * w ^ k) (- 1 * w ^ k)" by (intro eqm_mult w eqm_refl)
    then have "eqm q (b (n - i + k) * (- 1 * w ^ k)) (b (n - i + k) * (w ^ n * w ^ k))" by (rule eqm_factor [OF eqm_sym])
    moreover have "n + k - i = n - i + k" using i by simp
    ultimately show "eqm q (- b (n + k - i) * w ^ k) (b (n - i + k) * w ^ (n + k))" by (simp add: power_add)
  qed
  also have "(\<Sum>k<i. b (n - i + k) * w ^ (n + k)) + (\<Sum>j<n - i. b j * w ^ (i + j)) = (\<Sum>j<n - i + i. b j * w ^ (i + j))"
    using i by (subst sum_lessThan_add) (simp add: add.commute)
  also have "n - i + i = n" using i by simp
  also have "(\<Sum>j<n. b j * w ^ (i + j)) = w ^ i * (\<Sum>j<n. b j * w ^ j)"
    by (simp add: sum_distrib_left power_add mult_ac)
  finally show ?thesis .
qed

lemma negacyclic_evaluation:
  assumes "eqm q (w ^ n) (- 1)"
  shows "eqm q (\<Sum>k<n. negacyclic n a b k * w ^ k) ((\<Sum>i<n. a i * w ^ i) * (\<Sum>j<n. b j * w ^ j))"
proof -
  have "(\<Sum>k<n. negacyclic n a b k * w ^ k)
      = (\<Sum>i<n. a i * (\<Sum>k<n. (if i \<le> k then b (k - i) else - b (n + k - i)) * w ^ k))"
    unfolding negacyclic_def sum_distrib_right sum_distrib_left by (subst sum.swap) (simp only: mult.assoc)
  also have "eqm q \<dots> (\<Sum>i<n. a i * (w ^ i * (\<Sum>j<n. b j * w ^ j)))"
    by (intro eqm_sum eqm_factor negacyclic_row assms) simp
  finally show ?thesis by (simp only: sum_distrib_right mult.assoc)
qed

lemma evaluation_negacyclic:
  assumes "eqm q (\<psi> ^ 2 ^ p) (- 1)"
  shows "eqm q (evaluation p \<psi> (negacyclic (2 ^ p) a b) k) (evaluation p \<psi> a k * evaluation p \<psi> b k)"
proof -
  let ?w = "\<psi> ^ (2 * revn p k + 1)"
  have "?w ^ 2 ^ p = (\<psi> ^ 2 ^ p) ^ (2 * revn p k + 1)" by (simp only: mult.commute flip: power_mult)
  also have "eqm q \<dots> ((- 1) ^ (2 * revn p k + 1))" by (rule eqm_power [OF assms])
  finally have "eqm q (?w ^ 2 ^ p) (- 1)" by simp
  from negacyclic_evaluation [OF this] show ?thesis by (simp only: evaluation_def power_mult)
qed

text \<open>
  C2. Transforming two polynomials, multiplying the results place by place and transforming back multiplies the
  polynomials modulo \<open>X\<close> to the power \<open>n\<close> plus one.
\<close>

theorem ntt_multiplies_polynomials:
  assumes m: "wf_modulus m" and p: "0 < p" "p \<le> 62" and t: "NTTTables_initialize rd p m = Inr t"
    and a: "length a = 2 ^ p" "\<forall>x\<in>set a. unat x < 4 * unat (mod_value m)"
    and b: "length b = 2 ^ p" "\<forall>x\<in>set b. unat x < 4 * unat (mod_value m)" and r: "length r = 2 ^ p" and k: "k < 2 ^ p"
  shows "int (unat (inverseNttNegacyclicHarvey
      (dyadicProductCoeffmod (nttNegacyclicHarvey a t) (nttNegacyclicHarvey b t) (2 ^ p) m r) t ! k)) =
    negacyclic (2 ^ p) (\<lambda>i. int (unat (a ! i))) (\<lambda>i. int (unat (b ! i))) k mod int (unat (mod_value m))"
proof -
  let ?q = "unat (mod_value m)" and ?\<psi> = "int (unat (ntt_root t))"
  let ?a = "\<lambda>i. int (unat (a ! i))" and ?b = "\<lambda>i. int (unat (b ! i))"
  let ?v = "dyadicProductCoeffmod (nttNegacyclicHarvey a t) (nttNegacyclicHarvey b t) (2 ^ p) m r"
  note w = initialize_wf [OF m p t]
  have v: "?v = map (\<lambda>k. multiplyUintMod (nttNegacyclicHarvey a t ! k) (nttNegacyclicHarvey b t ! k) m) [0..<2 ^ p]"
    unfolding dyadicProductCoeffmod_def dyadicProduct_coeff_eq by (rule coeff_loop_map [OF r])
  have "\<forall>k<2 ^ p. unat (?v ! k) < 2 * ?q \<and> eqm (int ?q) (int (unat (?v ! k))) (evaluation p ?\<psi> (negacyclic (2 ^ p) ?a ?b) k)"
  proof (intro allI impI conjI)
    fix k :: nat
    assume k: "k < 2 ^ p"
    have vk: "unat (?v ! k) = unat (nttNegacyclicHarvey a t ! k) * unat (nttNegacyclicHarvey b t ! k) mod ?q"
      unfolding v using k by (simp add: multiplyUintMod_value [OF wf_modulusD(1) [OF m]])
    have "unat (?v ! k) < ?q" unfolding vk using wf_modulus_bound(1) [OF m] by simp
    then show "unat (?v ! k) < 2 * ?q" by simp
    have "eqm (int ?q) (int (unat (?v ! k))) (evaluation p ?\<psi> ?a k * evaluation p ?\<psi> ?b k)"
      unfolding vk zmod_int of_nat_mult nttNegacyclicHarvey_value(2) [OF w a k] nttNegacyclicHarvey_value(2) [OF w b k]
        value_at_def eqm_def by (simp only: mod_mod_trivial mod_mult_eq)
    then show "eqm (int ?q) (int (unat (?v ! k))) (evaluation p ?\<psi> (negacyclic (2 ^ p) ?a ?b) k)"
      by (rule eqm_trans [OF _ eqm_sym [OF evaluation_negacyclic [OF wf_tablesD(8) [OF w]]]])
  qed
  moreover have "length ?v = 2 ^ p" unfolding v by simp
  ultimately show ?thesis by (intro inverseNtt_stage(2) [OF w _ _ k])
qed

theorem ntt_multiplies_polynomials_witness:
  "\<exists>t. NTTTables_initialize (\<lambda>n. 6) 2 modulus_17 = Inr t \<and>
    int (unat (inverseNttNegacyclicHarvey (dyadicProductCoeffmod (nttNegacyclicHarvey [1, 2, 3, 4] t)
      (nttNegacyclicHarvey [5, 6, 7, 8] t) (2 ^ 2) modulus_17 [0, 0, 0, 0]) t ! 1)) = (6 + 10 - 24 - 28) mod 17"
proof -
  obtain t where t: "NTTTables_initialize (\<lambda>n. 6) 2 modulus_17 = Inr t"
    using initialize_ok [OF wf_modulus_17 _ _ root_17] by auto
  have b: "\<forall>x\<in>set [1, 2, 3, 4 :: u64]. unat x < 4 * unat (mod_value modulus_17)"
    "\<forall>x\<in>set [5, 6, 7, 8 :: u64]. unat x < 4 * unat (mod_value modulus_17)" by (simp_all add: modulus_17_def)
  from ntt_multiplies_polynomials [OF wf_modulus_17 _ _ t _ b(1) _ b(2), of "[0, 0, 0, 0]" 1] t
  show ?thesis
    by (simp add: negacyclic_def modulus_17_def lessThan_nat_numeral lessThan_Suc)
qed


section \<open>Shifts\<close>

lemma u64_power: "p \<le> 63 \<Longrightarrow> (of_nat (2 ^ p) :: u64) = push_bit p 1" "p \<le> 63 \<Longrightarrow> (2 :: nat) ^ p < 2 ^ 64"
proof -
  assume p: "p \<le> 63"
  show "(of_nat (2 ^ p) :: u64) = push_bit p 1" by (simp add: push_bit_eq_mult)
  show "(2 :: nat) ^ p < 2 ^ 64" using p by (intro power_strict_increasing) simp_all
qed

lemma and_power_of_two:
  fixes x :: u64
  assumes "p \<le> 63"
  shows "x AND of_nat (2 ^ p) = 0 \<longleftrightarrow> even (unat x div 2 ^ p)" "unat (x AND (of_nat (2 ^ p) - 1)) = unat x mod 2 ^ p"
proof -
  have "x AND of_nat (2 ^ p) = 0 \<longleftrightarrow> \<not> bit x p"
    by (simp add: and_exp_eq_0_iff_not_bit)
  also have "bit x p \<longleftrightarrow> bit (unat x) p" by (simp add: bit_unsigned_iff)
  finally show "x AND of_nat (2 ^ p) = 0 \<longleftrightarrow> even (unat x div 2 ^ p)" by (simp add: bit_iff_odd)
  have "(of_nat (2 ^ p) - 1 :: u64) = mask p" unfolding u64_power(1) [OF assms] by (simp add: mask_eq_exp_minus_1 push_bit_eq_mult)
  then have low: "x AND (of_nat (2 ^ p) - 1) = take_bit p x" by (simp only: take_bit_eq_mask)
  show "unat (x AND (of_nat (2 ^ p) - 1)) = unat x mod 2 ^ p"
    unfolding low unsigned_take_bit_eq unfolding take_bit_eq_mod by (rule refl)
qed

definition shift_sign :: "nat \<Rightarrow> Modulus \<Rightarrow> nat \<Rightarrow> u64 \<Rightarrow> u64" where
  "shift_sign n m e x = (if even (e div n) \<or> x = 0 then x else mod_value m - x)"

lemma negacyclicShift_loop_value:
  assumes p: "p \<le> 63" and s: "s + 2 ^ p \<le> 2 ^ 64"
  shows "i + k = 2 ^ p \<Longrightarrow> length r = 2 ^ p \<Longrightarrow>
    \<forall>j<i. r ! ((s + j) mod 2 ^ p) = shift_sign (2 ^ p) m (s + j) (xs ! j) \<Longrightarrow>
    \<forall>j<2 ^ p. negacyclicShift_loop xs (of_nat (2 ^ p)) (of_nat (2 ^ p) - 1) m k i (of_nat (s + i)) r ! ((s + j) mod 2 ^ p)
      = shift_sign (2 ^ p) m (s + j) (xs ! j)"
proof (induction k arbitrary: i r)
  case (Suc k)
  let ?e = "of_nat (s + i) :: u64"
  have "s + i < 2 ^ 64" using Suc.prems(1) s by linarith
  then have e: "unat ?e = s + i" using unat_of_nat [of "s + i", where 'a = 64] by (simp only: len64 mod_less)
  note bits = and_power_of_two [OF p, of ?e, unfolded e]
  let ?r = "r[(s + i) mod 2 ^ p := shift_sign (2 ^ p) m (s + i) (xs ! i)]"
  have step: "negacyclicShift_loop xs (of_nat (2 ^ p)) (of_nat (2 ^ p) - 1) m (Suc k) i ?e r
      = negacyclicShift_loop xs (of_nat (2 ^ p)) (of_nat (2 ^ p) - 1) m k (i + 1) (of_nat (s + (i + 1))) ?r"
    unfolding negacyclicShift_loop.simps Let_def bits by (simp add: shift_sign_def modulus_value_def add.assoc add.commute [of 1])
  have other: "(s + j) mod 2 ^ p \<noteq> (s + i) mod 2 ^ p" if "j < i" for j
  proof
    assume "(s + j) mod 2 ^ p = (s + i) mod 2 ^ p"
    then have "2 ^ p dvd (s + i) - (s + j)" using that by (intro mod_eq_dvd_iff_nat [THEN iffD1]) simp_all
    then have "2 ^ p dvd i - j" by simp
    from dvd_imp_le [OF this] show False using that Suc.prems(1) by simp
  qed
  have "\<forall>j<i + 1. ?r ! ((s + j) mod 2 ^ p) = shift_sign (2 ^ p) m (s + j) (xs ! j)"
  proof (intro allI impI)
    fix j
    assume j: "j < i + 1"
    show "?r ! ((s + j) mod 2 ^ p) = shift_sign (2 ^ p) m (s + j) (xs ! j)"
    proof (cases "j = i")
      case False
      with j have "j < i" by simp
      with other [OF this] Suc.prems(3) show ?thesis by (subst nth_list_update_neq) simp_all
    qed (simp add: Suc.prems(2))
  qed
  then show ?case unfolding step using Suc.prems(1,2) by (intro Suc.IH) simp_all
qed simp

lemma negacyclicShift_value:
  assumes p: "p \<le> 63" and s: "s + 2 ^ p \<le> 2 ^ 64" and len: "length xs = 2 ^ p" "length r = 2 ^ p" and j: "j < 2 ^ p"
  shows "negacyclicShiftPolyCoeffmod xs (2 ^ p) s m r ! ((s + j) mod 2 ^ p) = shift_sign (2 ^ p) m (s + j) (xs ! j)"
proof (cases "s = 0")
  case True
  then show ?thesis using len j by (simp add: negacyclicShiftPolyCoeffmod_def setUint_def shift_sign_def)
next
  case False
  then show ?thesis
    using negacyclicShift_loop_value [OF p s, of 0 "2 ^ p" r m xs] len j
    by (simp add: negacyclicShiftPolyCoeffmod_def)
qed

lemma shift_sign_value:
  assumes "unat x < unat (mod_value m)"
  shows "int (unat (shift_sign n m e x)) = (- 1) ^ (e div n) * int (unat x) mod int (unat (mod_value m))"
proof (cases "even (e div n) \<or> x = 0")
  case True
  then have "int (unat (shift_sign n m e x)) = int (unat x)" by (simp add: shift_sign_def)
  moreover have s: "(- 1) ^ (e div n) * int (unat x) = int (unat x)" using True by auto
  moreover have "int (unat x) mod int (unat (mod_value m)) = int (unat x)" using assms by (simp only: zmod_int [symmetric] mod_less)
  ultimately show ?thesis unfolding s by (simp only:)
next
  case False
  then have x: "0 < unat x" by (simp add: unat_gt_0)
  have "unat (shift_sign n m e x) = unat (mod_value m) - unat x"
    using False assms by (simp add: shift_sign_def unat_sub_if')
  then have "int (unat (shift_sign n m e x)) = - int (unat x) + int (unat (mod_value m))" using assms by simp
  also have "\<dots> = (- int (unat x) + int (unat (mod_value m))) mod int (unat (mod_value m))"
    using assms x by (intro mod_pos_pos_trivial [symmetric]) linarith+
  also have "\<dots> = (- 1) ^ (e div n) * int (unat x) mod int (unat (mod_value m))" using False by simp
  finally show ?thesis .
qed

text \<open>
  The shift multiplies a reduced polynomial by a power of \<open>X\<close> modulo \<open>X\<close> to the power \<open>n\<close> plus one, for every
  exponent up to the range of the index, and the product with a monomial multiplies by the coefficient
  too, for any coefficients.
\<close>

theorem negacyclicShift_correct:
  assumes m: "wf_modulus m" and p: "p \<le> 63" and s: "s + 2 ^ p \<le> 2 ^ 64"
    and len: "length xs = 2 ^ p" "length r = 2 ^ p" and j: "j < 2 ^ p"
  defines "q \<equiv> int (unat (mod_value m))"
  shows "int (unat (negacyclicMultiplyPolyMonoCoeffmod xs (2 ^ p) c s m r ! ((s + j) mod 2 ^ p))) =
      (- 1) ^ ((s + j) div 2 ^ p) * int (unat (xs ! j)) * int (unat c) mod q \<and>
    (int (unat (xs ! j)) < q \<longrightarrow>
      int (unat (negacyclicShiftPolyCoeffmod xs (2 ^ p) s m r ! ((s + j) mod 2 ^ p))) =
        (- 1) ^ ((s + j) div 2 ^ p) * int (unat (xs ! j)) mod q)"
proof
  let ?c = "set_operand (barrettReduce64 c m) m \<lparr>mop_operand = 0, mop_quotient = 0\<rparr>"
  let ?xs = "multiplyPolyScalarCoeffmod xs (2 ^ p) c m (replicate (2 ^ p) 0)" and ?x = "unat (xs ! j)"
  note w = wf_modulusD(1) [OF m] and b = wf_modulus_bound [OF m]
  have op: "operand_for m ?c" "mop_operand ?c = barrettReduce64 c m"
    using set_operand_for [of "barrettReduce64 c m" m] barrettReduce64_value [OF w, of c] b(1) by (simp_all add: word_less_nat_alt)
  have x: "length ?xs = 2 ^ p" "unat (?xs ! j) = ?x * unat c mod unat (mod_value m)"
    unfolding multiplyPolyScalarCoeffmod_def multiplyPolyScalarCoeffmod_operand_def Let_def
    using j multiplyUintMod_operand_value [OF op(1) b(2), of "xs ! j"] op(2) barrettReduce64_value [OF w, of c]
    by (simp_all add: nth_coeff_loop mod_mult_right_eq)
  have lt: "unat (?xs ! j) < unat (mod_value m)" unfolding x(2) using b(1) by simp
  have "int (unat (negacyclicMultiplyPolyMonoCoeffmod xs (2 ^ p) c s m r ! ((s + j) mod 2 ^ p)))
      = (- 1) ^ ((s + j) div 2 ^ p) * int (?x * unat c mod unat (mod_value m)) mod q"
    unfolding negacyclicMultiplyPolyMonoCoeffmod_def Let_def negacyclicShift_value [OF p s x(1) len(2) j]
      shift_sign_value [OF lt] x(2) q_def by (rule refl)
  also have "\<dots> = (- 1) ^ ((s + j) div 2 ^ p) * int ?x * int (unat c) mod q"
    unfolding zmod_int q_def by (simp only: mod_mult_right_eq of_nat_mult mult.assoc)
  finally show "int (unat (negacyclicMultiplyPolyMonoCoeffmod xs (2 ^ p) c s m r ! ((s + j) mod 2 ^ p))) =
      (- 1) ^ ((s + j) div 2 ^ p) * int ?x * int (unat c) mod q" .
  show "int ?x < q \<longrightarrow> int (unat (negacyclicShiftPolyCoeffmod xs (2 ^ p) s m r ! ((s + j) mod 2 ^ p))) =
        (- 1) ^ ((s + j) div 2 ^ p) * int ?x mod q"
    unfolding negacyclicShift_value [OF p s len j] q_def of_nat_less_iff by (intro impI shift_sign_value)
qed

theorem negacyclicShift_correct_witness:
  "int (unat (negacyclicMultiplyPolyMonoCoeffmod [1, 2, 3, 40] (2 ^ 2) 5 3 modulus_17 [0, 0, 0, 0] ! 2)) = - 40 * 5 mod 17 \<and>
   int (unat (negacyclicShiftPolyCoeffmod [1, 2, 3, 4] (2 ^ 2) 3 modulus_17 [0, 0, 0, 0] ! 2)) = - 4 mod 17"
  using negacyclicShift_correct [OF wf_modulus_17, of 2 3 "[1, 2, 3, 40]" "[0, 0, 0, 0]" 3 5]
    negacyclicShift_correct [OF wf_modulus_17, of 2 3 "[1, 2, 3, 4]" "[0, 0, 0, 0]" 3 5]
  by (simp add: modulus_17_def)

section \<open>The norm\<close>

lemma inftyNorm_loop_max:
  assumes m: "wf_modulus m"
  shows "unat (inftyNorm_loop xs m (drop_bit 1 (modulus_value m + 1)) k i r) =
    Max (insert (unat r) ((\<lambda>j. min (unat (xs ! j) mod unat (mod_value m)) (unat (mod_value m) - unat (xs ! j) mod unat (mod_value m))) ` {i..<i + k}))"
proof (induction k arbitrary: i r)
  case (Suc k)
  let ?q = "unat (mod_value m)" and ?x = "barrettReduce64 (xs ! i) m"
  let ?f = "\<lambda>j. min (unat (xs ! j) mod ?q) (?q - unat (xs ! j) mod ?q)"
  let ?c = "if ?x \<ge> drop_bit 1 (modulus_value m + 1) then modulus_value m - ?x else ?x"
  note b = wf_modulus_bound [OF m]
  have x: "unat ?x = unat (xs ! i) mod ?q" by (rule barrettReduce64_value [OF wf_modulusD(1) [OF m]])
  have "unat (mod_value m + 1) = ?q + 1" using b(3) by (simp add: unat_add64)
  then have t: "unat (drop_bit 1 (modulus_value m + 1)) = (?q + 1) div 2"
    by (simp only: modulus_value_def unat_drop64 power_one_right)
  have lt: "unat ?x < ?q" unfolding x using b(1) by simp
  have c: "unat ?c = ?f i"
  proof (cases "?x \<ge> drop_bit 1 (modulus_value m + 1)")
    case True
    then have "(?q + 1) div 2 \<le> unat ?x" unfolding word_le_nat_alt t .
    then have "?q - unat ?x \<le> unat ?x" by linarith
    moreover have "unat ?c = ?q - unat ?x" using True lt by (simp add: modulus_value_def unat_sub_if')
    ultimately show ?thesis unfolding x [symmetric] by (simp only: min.absorb2)
  next
    case False
    then have "unat ?x < (?q + 1) div 2" unfolding word_le_nat_alt t by simp
    then have "unat ?x \<le> ?q - unat ?x" by linarith
    then show ?thesis unfolding x [symmetric] if_not_P [OF False] by (simp only: min.absorb1)
  qed
  have r: "unat (if ?c > r then ?c else r) = max (unat r) (?f i)"
    unfolding word_less_nat_alt c [symmetric] by (simp add: max_def)
  have set: "{i..<i + Suc k} = insert i {i + 1..<i + 1 + k}" by auto
  have "unat (inftyNorm_loop xs m (drop_bit 1 (modulus_value m + 1)) (Suc k) i r)
      = Max (insert (max (unat r) (?f i)) (?f ` {i + 1..<i + 1 + k}))"
    unfolding inftyNorm_loop.simps Let_def Suc.IH r by (rule refl)
  also have "\<dots> = Max (insert (unat r) (?f ` {i..<i + Suc k}))"
    unfolding set image_insert by (cases k) (simp_all add: max.assoc max.left_commute)
  finally show ?case .
qed simp

text \<open>
  The norm is the largest distance of a coefficient from the nearest multiple of the modulus, and at most half
  the modulus.
\<close>

theorem polyInftyNormCoeffmod_correct:
  assumes m: "wf_modulus m" and n: "0 < n"
  defines "q \<equiv> unat (mod_value m)"
  shows "unat (polyInftyNormCoeffmod xs n m) = Max ((\<lambda>j. min (unat (xs ! j) mod q) (q - unat (xs ! j) mod q)) ` {..<n}) \<and>
    unat (polyInftyNormCoeffmod xs n m) \<le> q div 2"
proof -
  let ?f = "\<lambda>j. min (unat (xs ! j) mod q) (q - unat (xs ! j) mod q)"
  have "unat (polyInftyNormCoeffmod xs n m) = Max (insert 0 (?f ` {..<n}))"
    unfolding polyInftyNormCoeffmod_def Let_def inftyNorm_loop_max [OF m] q_def by (simp add: lessThan_atLeast0)
  also have "\<dots> = Max (?f ` {..<n})" using n by (subst Max_insert) auto
  finally have v: "unat (polyInftyNormCoeffmod xs n m) = Max (?f ` {..<n})" .
  have "?f j \<le> q div 2" for j by (simp add: min_def) linarith
  then have "Max (?f ` {..<n}) \<le> q div 2" using n by (subst Max_le_iff) auto
  with v show ?thesis by simp
qed

theorem polyInftyNormCoeffmod_correct_witness:
  "unat (polyInftyNormCoeffmod [1, 30, 9] 3 modulus_17) \<le> 17 div 2"
  using polyInftyNormCoeffmod_correct [OF wf_modulus_17, of 3 "[1, 30, 9]"] by (simp add: modulus_17_def)

end
