(* ===== verification/Uint_Mod.thy ===== *)
theory Uint_Mod
  imports Small_Mod
begin

unbundle bit_operations_syntax

text \<open>
  Arithmetic modulo a number of several words: the inline functions of \<open>utils/uintarithmod.h\<close> of
  \<open>heu/library/algorithms/seal_gpu/\<close>, with the suffix \<open>words\<close>. The operands have the length of the modulus.
\<close>

section \<open>The functions of the code\<close>

definition incrementUintMod_words :: "u64 list \<Rightarrow> u64 list \<Rightarrow> u64 list" where
  "incrementUintMod_words operand modulus =
     (let (carry, result) = incrementUint operand
      in if carry \<noteq> 0 \<or> isGreaterThanOrEqualUint result modulus then snd (subUint result modulus) else result)"

definition decrementUintMod_words :: "u64 list \<Rightarrow> u64 list \<Rightarrow> u64 list" where
  "decrementUintMod_words operand modulus =
     (let (borrow, result) = decrementUint operand
      in if borrow \<noteq> 0 then snd (addUint result modulus) else result)"

definition negateUintMod_words :: "u64 list \<Rightarrow> u64 list \<Rightarrow> u64 list" where
  "negateUintMod_words operand modulus =
     (if isZeroUint operand then setZeroUint (length operand) else snd (subUint modulus operand))"

definition div2UintMod_words :: "u64 list \<Rightarrow> u64 list \<Rightarrow> u64 list" where
  "div2UintMod_words operand modulus =
     (if operand ! 0 AND 1 \<noteq> 0 then
        let (carry, result) = addUint operand modulus;
            result = rightShiftUint result 1
        in if carry \<noteq> 0 then setBitUint result (length operand * 64 - 1) else result
      else rightShiftUint operand 1)"

definition addUintUintMod :: "u64 list \<Rightarrow> u64 list \<Rightarrow> u64 list \<Rightarrow> u64 list" where
  "addUintUintMod operand1 operand2 modulus =
     (let (carry, result) = addUint operand1 operand2
      in if carry \<noteq> 0 \<or> isGreaterThanOrEqualUint result modulus then snd (subUint result modulus) else result)"

definition subUintUintMod :: "u64 list \<Rightarrow> u64 list \<Rightarrow> u64 list \<Rightarrow> u64 list" where
  "subUintUintMod operand1 operand2 modulus =
     (let (borrow, result) = subUint operand1 operand2
      in if borrow \<noteq> 0 then snd (addUint result modulus) else result)"

section \<open>Their values\<close>

lemma carry_01:
  assumes "unat (c :: u8) \<le> 1"
  shows "c = 0 \<or> c = 1"
proof -
  have "unat c = unat (0 :: u8) \<or> unat c = unat (1 :: u8)" using assms by auto
  then show ?thesis by (simp only: word_unat_eq_iff)
qed

text \<open>A sum with its carry, reduced by one subtraction.\<close>

lemma reduce_sum:
  assumes len: "length r = length m" "m \<noteq> []" and c: "unat (c :: u8) \<le> 1"
    and s: "uval r + 18446744073709551616 ^ length m * unat c = s" and lt: "s < 2 * uval m"
  shows "length (if c \<noteq> 0 \<or> isGreaterThanOrEqualUint r m then snd (subUint r m) else r) = length m"
    "uval (if c \<noteq> 0 \<or> isGreaterThanOrEqualUint r m then snd (subUint r m) else r) = s mod uval m"
proof -
  obtain b d where d: "subUint r m = (b, d)" by fastforce
  have ne: "r \<noteq> []" using len by auto
  note v = subUint_value [OF d len(1) ne]
  have bound: "uval d < 18446744073709551616 ^ length m" "uval r < 18446744073709551616 ^ length m"
    using uval_lt [of d] uval_lt [of r] v(1) len(1) by simp_all
  show "length (if c \<noteq> 0 \<or> isGreaterThanOrEqualUint r m then snd (subUint r m) else r) = length m"
    using d v(1) len(1) by simp
  show "uval (if c \<noteq> 0 \<or> isGreaterThanOrEqualUint r m then snd (subUint r m) else r) = s mod uval m"
  proof (cases "c \<noteq> 0 \<or> isGreaterThanOrEqualUint r m")
    case True
    have ge: "uval m \<le> s"
    proof (cases "c = 0")
      case False
      then have "c = 1" using carry_01 [OF c] by blast
      then have "18446744073709551616 ^ length m \<le> s" using s by simp
      then show ?thesis using uval_lt [of m] by simp
    next
      case zero: True
      then show ?thesis using True comparisons(2) [OF len(1)] s by simp
    qed
    have "uval d + uval m = s"
    proof -
      let ?B = "18446744073709551616 ^ length m :: nat"
      have e: "uval d + uval m = uval r + ?B * unat b" using v(3) len(1) by simp
      have "s < uval m + ?B" using lt uval_lt [of m] by linarith
      consider "c = 0" "b = 0" | "c = 0" "b = 1" | "c = 1" "b = 0" | "c = 1" "b = 1"
        using carry_01 [OF c] carry_01 [OF v(2)] by blast
      then show ?thesis
      proof cases
        case 2
        then have "uval r = s" "uval d + uval m = uval r + ?B" using e s by simp_all
        then show ?thesis using ge bound(1) by linarith
      next
        case 3
        then have "uval r + ?B = s" "uval d + uval m = uval r" using e s by simp_all
        then show ?thesis using \<open>s < uval m + ?B\<close> by linarith
      qed (use e s in simp_all)
    qed
    then have "uval d = s - uval m" "s - uval m < uval m" using lt by linarith+
    then show ?thesis using True d ge by (simp add: le_mod_geq)
  next
    case False
    then have "uval r = s" "uval r < uval m" using s comparisons(2) [OF len(1)] by auto
    then show ?thesis using False by simp
  qed
qed

lemma addUintUintMod_value:
  assumes "length xs = length m" "length ys = length m" "m \<noteq> []" "uval xs + uval ys < 2 * uval m"
  shows "length (addUintUintMod xs ys m) = length m" "uval (addUintUintMod xs ys m) = (uval xs + uval ys) mod uval m"
proof -
  obtain c r where r: "addUint xs ys = (c, r)" by fastforce
  have "xs \<noteq> []" using assms(1,3) by auto
  note v = addUint_value [OF r _ this]
  have "length r = length m" "unat c \<le> 1" "uval r + 18446744073709551616 ^ length m * unat c = uval xs + uval ys"
    using v assms(1,2) by simp_all
  from reduce_sum [OF this(1) assms(3) this(2,3) assms(4)]
  show "length (addUintUintMod xs ys m) = length m" "uval (addUintUintMod xs ys m) = (uval xs + uval ys) mod uval m"
    unfolding addUintUintMod_def r by simp_all
qed

text \<open>A difference with its borrow, corrected by one addition.\<close>

lemma correct_difference:
  assumes len: "length r = length m" "m \<noteq> []" and b: "unat (b :: u8) \<le> 1"
    and s: "uval r + y = x + 18446744073709551616 ^ length m * unat b" and lt: "x < uval m" "y \<le> uval m"
  shows "length (if b \<noteq> 0 then snd (addUint r m) else r) = length m"
    "uval (if b \<noteq> 0 then snd (addUint r m) else r) = (x + uval m - y) mod uval m"
proof -
  let ?B = "18446744073709551616 ^ length m :: nat"
  obtain c d where d: "addUint r m = (c, d)" by fastforce
  have ne: "r \<noteq> []" using len by auto
  note v = addUint_value [OF d len(1) ne]
  have e: "uval d + ?B * unat c = uval r + uval m" using v(3) len(1) by simp
  have bound: "uval d < ?B" "uval r < ?B" "uval m < ?B" using uval_lt [of d] uval_lt [of r] uval_lt [of m] v(1) len(1) by simp_all
  show "length (if b \<noteq> 0 then snd (addUint r m) else r) = length m" using d v(1) len(1) by simp
  show "uval (if b \<noteq> 0 then snd (addUint r m) else r) = (x + uval m - y) mod uval m"
  proof (cases "b = 0")
    case True
    then have "uval r + y = x" using s by simp
    then have "x + uval m - y = uval r + uval m" "uval r < uval m" using lt by linarith+
    then show ?thesis using True by simp
  next
    case False
    then have b1: "b = 1" using carry_01 [OF b] by blast
    then have r: "uval r + y = x + ?B" using s by simp
    then have "y > x" using bound(2) by linarith
    have "c = 1"
    proof (rule ccontr)
      assume "c \<noteq> 1"
      then have "c = 0" using carry_01 [OF v(2)] by blast
      then have "uval d = uval r + uval m" using e by simp
      then show False using r bound(1) lt(2) by linarith
    qed
    then have "uval d + y = x + uval m" using e r by simp
    then have "uval d = x + uval m - y" "x + uval m - y < uval m" using \<open>y > x\<close> lt by linarith+
    then show ?thesis using False d by simp
  qed
qed

lemma subUintUintMod_value:
  assumes "length xs = length m" "length ys = length m" "m \<noteq> []" "uval xs < uval m" "uval ys \<le> uval m"
  shows "length (subUintUintMod xs ys m) = length m" "uval (subUintUintMod xs ys m) = (uval xs + uval m - uval ys) mod uval m"
proof -
  obtain b r where r: "subUint xs ys = (b, r)" by fastforce
  have "xs \<noteq> []" using assms(1,3) by auto
  note v = subUint_value [OF r _ this]
  have "length r = length m" "unat b \<le> 1" "uval r + uval ys = uval xs + 18446744073709551616 ^ length m * unat b"
    using v assms(1,2) by simp_all
  from correct_difference [OF this(1) assms(3) this(2,3) assms(4,5)]
  show "length (subUintUintMod xs ys m) = length m" "uval (subUintUintMod xs ys m) = (uval xs + uval m - uval ys) mod uval m"
    unfolding subUintUintMod_def r by simp_all
qed

lemma incrementUintMod_words_value:
  assumes "length xs = length m" "m \<noteq> []" "uval xs < uval m"
  shows "length (incrementUintMod_words xs m) = length m" "uval (incrementUintMod_words xs m) = (uval xs + 1) mod uval m"
proof -
  obtain c r where r: "addUint_word xs 1 = (c, r)" by fastforce
  have "xs \<noteq> []" using assms(1,2) by auto
  note v = addUint_word_value [OF r this]
  have "length r = length m" "unat c \<le> 1" "uval r + 18446744073709551616 ^ length m * unat c = uval xs + 1" "uval xs + 1 < 2 * uval m"
    using v assms by simp_all
  from reduce_sum [OF this(1) assms(2) this(2,3,4)]
  show "length (incrementUintMod_words xs m) = length m" "uval (incrementUintMod_words xs m) = (uval xs + 1) mod uval m"
    unfolding incrementUintMod_words_def incrementUint_def r by simp_all
qed

lemma decrementUintMod_words_value:
  assumes "length xs = length m" "m \<noteq> []" "uval xs < uval m"
  shows "length (decrementUintMod_words xs m) = length m" "uval (decrementUintMod_words xs m) = (uval xs + uval m - 1) mod uval m"
proof -
  obtain b r where r: "subUint_word xs 1 = (b, r)" by fastforce
  have "xs \<noteq> []" using assms(1,2) by auto
  note v = subUint_word_value [OF r this]
  have "length r = length m" "unat b \<le> 1" "uval r + 1 = uval xs + 18446744073709551616 ^ length m * unat b" "1 \<le> uval m"
    using v assms by simp_all
  from correct_difference [OF this(1) assms(2) this(2,3) assms(3) this(4)]
  show "length (decrementUintMod_words xs m) = length m" "uval (decrementUintMod_words xs m) = (uval xs + uval m - 1) mod uval m"
    unfolding decrementUintMod_words_def decrementUint_def r by simp_all
qed

lemma negateUintMod_words_value:
  assumes "length xs = length m" "m \<noteq> []" "uval xs < uval m"
  shows "length (negateUintMod_words xs m) = length m" "uval (negateUintMod_words xs m) = (uval m - uval xs) mod uval m"
proof -
  obtain b r where r: "subUint m xs = (b, r)" by fastforce
  note v = subUint_value [OF r assms(1) [symmetric] assms(2)]
  show "length (negateUintMod_words xs m) = length m"
    using v(1) assms(1) by (simp add: negateUintMod_words_def r setZeroUint_def)
  show "uval (negateUintMod_words xs m) = (uval m - uval xs) mod uval m"
  proof (cases "uval xs = 0")
    case True
    then show ?thesis by (simp add: negateUintMod_words_def isZeroUint_iff setZeroUint_def)
  next
    case False
    have "uval r < 18446744073709551616 ^ length m" using uval_lt [of r] v(1) by simp
    then have "b \<noteq> 1" using v(3) assms(3) by auto
    then have "b = 0" using carry_01 [OF v(2)] by blast
    then have "uval r = uval m - uval xs" using v(3) by simp
    then show ?thesis using False assms(3) by (simp add: negateUintMod_words_def isZeroUint_iff r)
  qed
qed

lemma or_top_bit: "x < 2 ^ n \<Longrightarrow> x OR 2 ^ n = x + (2 :: nat) ^ n"
  using add_shift_eq_or [of x n 1] by (simp add: push_bit_eq_mult)

lemma div2UintMod_words_value:
  assumes "length xs = length m" "m \<noteq> []" "uval xs < uval m" "odd (uval m)"
  shows "length (div2UintMod_words xs m) = length m" "uval (div2UintMod_words xs m) = (if even (uval xs) then uval xs else uval xs + uval m) div 2"
proof -
  let ?n = "length m"
  obtain c r where r: "addUint xs m = (c, r)" by fastforce
  have ne: "xs \<noteq> []" using assms(1,2) by auto
  note v = addUint_value [OF r assms(1) ne]
  have len: "length r = ?n" using v(1) assms(1) by simp
  have n: "0 < ?n" using assms(2) by simp
  have pow: "18446744073709551616 ^ ?n = 2 * (2 :: nat) ^ (?n * 64 - 1)"
  proof -
    have "(18446744073709551616 :: nat) ^ ?n = (2 ^ 64) ^ ?n" by simp
    also have "\<dots> = 2 ^ Suc (?n * 64 - 1)" using n by (simp only: power_mult [symmetric]) (simp add: mult.commute)
    finally show ?thesis by simp
  qed
  have odd: "xs ! 0 AND 1 \<noteq> 0 \<longleftrightarrow> odd (uval xs)"
    unfolding odd_word_iff using ne by (cases xs) simp_all
  have small: "1 \<le> 64 * length r" "1 \<le> 64 * length xs"
    unfolding len assms(1) using n by linarith+
  show "length (div2UintMod_words xs m) = ?n"
    using len assms(1) by (simp add: div2UintMod_words_def r setBitUint_def Let_def)
  show "uval (div2UintMod_words xs m) = (if even (uval xs) then uval xs else uval xs + uval m) div 2"
  proof (cases "even (uval xs)")
    case True
    then show ?thesis using odd rightShiftUint_value [OF small(2)] by (simp add: div2UintMod_words_def)
  next
    case False
    have rs: "uval (rightShiftUint r 1) = uval r div 2" using rightShiftUint_value [OF small(1)] by simp
    have e: "uval r + 18446744073709551616 ^ ?n * unat c = uval xs + uval m" using v(3) assms(1) by simp
    have res: "div2UintMod_words xs m = (if c \<noteq> 0 then setBitUint (rightShiftUint r 1) (?n * 64 - 1) else rightShiftUint r 1)"
      using False odd assms(1) by (simp add: div2UintMod_words_def r)
    consider "c = 0" | "c = 1" using carry_01 [OF v(2)] by blast
    then have "uval (div2UintMod_words xs m) = (uval xs + uval m) div 2"
    proof cases
      case 1
      then show ?thesis using e rs res by simp
    next
      case 2
      have "uval r < 2 * 2 ^ (?n * 64 - 1)" using uval_lt [of r] len pow by simp
      then have lt: "uval (rightShiftUint r 1) < 2 ^ (?n * 64 - 1)" unfolding rs by linarith
      have idx: "?n * 64 - 1 < 64 * length (rightShiftUint r 1)"
        unfolding length_rightShiftUint len using n by linarith
      have "uval (div2UintMod_words xs m) = uval r div 2 + 2 ^ (?n * 64 - 1)"
        using 2 res setBitUint_uval [OF idx] or_top_bit [OF lt] rs by simp
      also have "\<dots> = (uval r + 2 * 2 ^ (?n * 64 - 1)) div 2" by simp
      also have "uval r + 2 * 2 ^ (?n * 64 - 1) = uval xs + uval m" using e 2 pow by simp
      finally show ?thesis .
    qed
    then show ?thesis using False by simp
  qed
qed

text \<open>
  Sum, difference, negation, increment, decrement and halving of numbers of several words below the modulus
  are those of the integers modulo the modulus, whatever carries leave the last word.
\<close>

theorem uint_mod_operations_correct:
  assumes len: "length xs = length m" "length ys = length m" "m \<noteq> []" and lt: "uval xs < uval m" "uval ys < uval m"
  shows "uval (addUintUintMod xs ys m) = (uval xs + uval ys) mod uval m \<and>
    uval (subUintUintMod xs ys m) = (uval xs + uval m - uval ys) mod uval m \<and>
    uval (negateUintMod_words xs m) = (uval m - uval xs) mod uval m \<and>
    uval (incrementUintMod_words xs m) = (uval xs + 1) mod uval m \<and>
    uval (decrementUintMod_words xs m) = (uval xs + uval m - 1) mod uval m \<and>
    (odd (uval m) \<longrightarrow> uval (div2UintMod_words xs m) < uval m \<and> 2 * uval (div2UintMod_words xs m) mod uval m = uval xs)"
proof (intro conjI impI)
  show "uval (addUintUintMod xs ys m) = (uval xs + uval ys) mod uval m" using lt by (intro addUintUintMod_value(2) len) simp
  show "uval (subUintUintMod xs ys m) = (uval xs + uval m - uval ys) mod uval m" using lt by (intro subUintUintMod_value(2) len) simp_all
  show "uval (negateUintMod_words xs m) = (uval m - uval xs) mod uval m" by (rule negateUintMod_words_value(2) [OF len(1,3) lt(1)])
  show "uval (incrementUintMod_words xs m) = (uval xs + 1) mod uval m" by (rule incrementUintMod_words_value(2) [OF len(1,3) lt(1)])
  show "uval (decrementUintMod_words xs m) = (uval xs + uval m - 1) mod uval m" by (rule decrementUintMod_words_value(2) [OF len(1,3) lt(1)])
  assume odd: "odd (uval m)"
  note d = div2UintMod_words_value(2) [OF len(1,3) lt(1) odd]
  have "2 * uval (div2UintMod_words xs m) = (if even (uval xs) then uval xs else uval xs + uval m)"
    unfolding d using odd by simp
  then show "uval (div2UintMod_words xs m) < uval m" "2 * uval (div2UintMod_words xs m) mod uval m = uval xs"
    using lt(1) by (auto split: if_splits)
qed

theorem uint_mod_operations_correct_witness:
  "uval (addUintUintMod [18446744073709551615, 1] [5, 1] [7, 2]) = (uval [18446744073709551615, 1] + uval [5, 1]) mod uval [7, 2] \<and>
   2 * uval (div2UintMod_words [5, 1] [7, 2]) mod uval [7, 2] = uval [5, 1]"
proof -
  have "uval [18446744073709551615, 1] < uval [7, 2]" "uval [5, 1] < uval [7, 2]" "odd (uval [7, 2])" by simp_all
  with uint_mod_operations_correct [of "[18446744073709551615, 1]" "[7, 2]" "[5, 1]"]
    uint_mod_operations_correct [of "[5, 1]" "[7, 2]" "[5, 1]"]
  show ?thesis by (simp del: uval.simps)
qed

end
