(* ===== verification/Crt.thy ===== *)
theory Crt
  imports Main
begin

text \<open>
  The Chinese remainder theorem in the form the residue number systems use: \<open>k\<close> pairwise coprime
  moduli \<open>m i\<close>, their product, and the crt_punctured products with their inverses. Nothing here depends on the code.
\<close>

definition crt_moduli :: "(nat \<Rightarrow> nat) \<Rightarrow> nat \<Rightarrow> bool" where
  "crt_moduli m k \<longleftrightarrow> (\<forall>i<k. 1 < m i) \<and> (\<forall>i<k. \<forall>j<i. coprime (m i) (m j))"

definition crt_prod :: "(nat \<Rightarrow> nat) \<Rightarrow> nat \<Rightarrow> nat" where
  "crt_prod m k = (\<Prod>i<k. m i)"

definition crt_punctured :: "(nat \<Rightarrow> nat) \<Rightarrow> nat \<Rightarrow> nat \<Rightarrow> nat" where
  "crt_punctured m k i = (\<Prod>j\<in>{..<k} - {i}. m j)"

lemma crt_moduliD:
  assumes "crt_moduli m k"
  shows "i < k \<Longrightarrow> 1 < m i" "i < k \<Longrightarrow> j < k \<Longrightarrow> i \<noteq> j \<Longrightarrow> coprime (m i) (m j)"
proof -
  show "1 < m i" if "i < k" using assms that by (simp add: crt_moduli_def)
  show "coprime (m i) (m j)" if "i < k" "j < k" "i \<noteq> j"
    using assms that by (cases "j < i") (auto simp: crt_moduli_def coprime_commute)
qed

lemma crt_moduli_Suc:
  "crt_moduli m (Suc k) \<longleftrightarrow> crt_moduli m k \<and> 1 < m k \<and> (\<forall>j<k. coprime (m k) (m j))"
  by (auto simp: crt_moduli_def less_Suc_eq)

lemma crt_moduli_cong: "(\<And>i. i < k \<Longrightarrow> m i = n i) \<Longrightarrow> crt_moduli m k \<longleftrightarrow> crt_moduli n k"
  by (auto simp: crt_moduli_def)

lemma crt_prod_Suc [simp]: "crt_prod m (Suc k) = crt_prod m k * m k"
  by (simp add: crt_prod_def mult.commute)

lemma crt_prod_0 [simp]: "crt_prod m 0 = 1"
  by (simp add: crt_prod_def)

lemma crt_prod_2: "crt_prod m 2 = m 0 * m 1"
  by (simp add: numeral_2_eq_2)

lemma crt_prod_cong: "(\<And>i. i < k \<Longrightarrow> m i = n i) \<Longrightarrow> crt_prod m k = crt_prod n k"
  by (simp add: crt_prod_def)

lemma crt_punctured_cong: "(\<And>i. i < k \<Longrightarrow> m i = n i) \<Longrightarrow> crt_punctured m k j = crt_punctured n k j"
  by (simp add: crt_punctured_def)

lemma crt_prod_pos: "crt_moduli m k \<Longrightarrow> 0 < crt_prod m k"
  by (induction k) (simp_all add: crt_moduli_Suc)

lemma crt_punctured_prod: "i < k \<Longrightarrow> crt_punctured m k i * m i = crt_prod m k"
  by (simp add: crt_punctured_def crt_prod_def prod.remove [of "{..<k}" i] mult.commute)

lemma crt_punctured_dvd: "i < k \<Longrightarrow> j < k \<Longrightarrow> i \<noteq> j \<Longrightarrow> m j dvd crt_punctured m k i"
  unfolding crt_punctured_def by (rule dvd_prodI) auto

lemma crt_prod_dvd: "i < k \<Longrightarrow> m i dvd crt_prod m k"
  unfolding crt_prod_def by (rule dvd_prodI) auto

lemma crt_punctured_coprime: "crt_moduli m k \<Longrightarrow> i < k \<Longrightarrow> coprime (crt_punctured m k i) (m i)"
  unfolding crt_punctured_def by (rule prod_coprime_left) (auto intro: crt_moduliD(2))

lemma crt_prod_coprime: "(\<And>i. i < k \<Longrightarrow> coprime (m i) a) \<Longrightarrow> coprime (crt_prod m k) a"
  unfolding crt_prod_def by (rule prod_coprime_left) auto

lemma crt_prod_dvdI:
  fixes a :: nat
  shows "crt_moduli m k \<Longrightarrow> (\<And>i. i < k \<Longrightarrow> m i dvd a) \<Longrightarrow> crt_prod m k dvd a"
proof (induction k)
  case (Suc k)
  have "crt_prod m k dvd a" using Suc by (simp add: crt_moduli_Suc)
  moreover have "m k dvd a" using Suc.prems by simp
  moreover have "coprime (crt_prod m k) (m k)"
    using Suc.prems(1) by (intro crt_prod_coprime) (simp add: crt_moduli_Suc coprime_commute)
  ultimately show ?case using divides_mult by simp
qed simp

text \<open>A number below the product is determined by its residues.\<close>

lemma crt_mod_unique:
  assumes m: "crt_moduli m k" and eq: "\<And>i. i < k \<Longrightarrow> x mod m i = y mod m i"
  shows "x mod crt_prod m k = y mod crt_prod m k"
proof -
  have "crt_prod m k dvd nat \<bar>int x - int y\<bar>" (is "_ dvd ?d")
  proof (rule crt_prod_dvdI [OF m])
    fix i assume "i < k"
    then have "int x mod int (m i) = int y mod int (m i)" using eq by (simp flip: zmod_int)
    then have "int (m i) dvd int x - int y" by (simp add: mod_eq_dvd_iff)
    then show "m i dvd nat \<bar>int x - int y\<bar>" by (subst int_dvd_int_iff [symmetric]) simp
  qed
  then have "int (crt_prod m k) dvd int x - int y" by (subst (asm) int_dvd_int_iff [symmetric]) simp
  then have "int x mod int (crt_prod m k) = int y mod int (crt_prod m k)" by (simp add: mod_eq_dvd_iff)
  then show ?thesis by (simp flip: zmod_int)
qed

lemma crt_unique:
  assumes "crt_moduli m k" "x < crt_prod m k" "y < crt_prod m k" "\<And>i. i < k \<Longrightarrow> x mod m i = y mod m i"
  shows "x = y"
  using crt_mod_unique [OF assms(1,4)] assms(2,3) by simp

text \<open>The sum that puts the residues together.\<close>

definition crt_sum :: "(nat \<Rightarrow> nat) \<Rightarrow> nat \<Rightarrow> (nat \<Rightarrow> nat) \<Rightarrow> nat" where
  "crt_sum m k c = (\<Sum>i<k. crt_punctured m k i * c i)"

lemma crt_sum_mod:
  assumes "i < k"
  shows "crt_sum m k c mod m i = crt_punctured m k i * c i mod m i"
proof -
  have z: "(\<Sum>j\<in>{..<k} - {i}. crt_punctured m k j * c j) mod m i = 0"
    using assms by (intro dvd_imp_mod_0 dvd_sum) (auto intro: crt_punctured_dvd dvd_mult2)
  have "crt_sum m k c = crt_punctured m k i * c i + (\<Sum>j\<in>{..<k} - {i}. crt_punctured m k j * c j)"
    unfolding crt_sum_def using assms by (subst sum.remove [of _ i]) auto
  then show ?thesis using z mod_add_right_eq [of "crt_punctured m k i * c i" "\<Sum>j\<in>{..<k} - {i}. crt_punctured m k j * c j" "m i"] by simp
qed

text \<open>With \<open>c i = (x i * h i) mod m i\<close> the sum has the residues \<open>x i\<close> and is less than \<open>k\<close> times the product.\<close>

lemma crt_sum_residue:
  assumes "i < k" "crt_punctured m k i * h i mod m i = 1" "c i = x i * h i mod m i"
  shows "crt_sum m k c mod m i = x i mod m i"
proof -
  have "crt_sum m k c mod m i = crt_punctured m k i * (x i * h i) mod m i"
    unfolding crt_sum_mod [OF assms(1)] assms(3) by (simp add: mod_mult_right_eq)
  also have "\<dots> = x i * (crt_punctured m k i * h i mod m i) mod m i" by (simp add: mod_mult_right_eq ac_simps)
  finally show ?thesis by (simp add: assms(2))
qed

lemma crt_sum_lt:
  assumes k: "0 < k" and c: "\<And>i. i < k \<Longrightarrow> c i < m i"
  shows "crt_sum m k c < k * crt_prod m k"
proof -
  have "crt_punctured m k i * c i < crt_prod m k" if "i < k" for i
  proof -
    have "0 < crt_punctured m k i" unfolding crt_punctured_def by (rule prod_pos) (use c in force)
    then show ?thesis using c [OF that] by (subst crt_punctured_prod [OF that, symmetric]) simp
  qed
  then have "crt_sum m k c < (\<Sum>i<k. crt_prod m k)"
    unfolding crt_sum_def using k by (intro sum_strict_mono) auto
  then show ?thesis by simp
qed

lemma crt_sum_combines:
  assumes m: "crt_moduli m k" and h: "\<And>i. i < k \<Longrightarrow> crt_punctured m k i * h i mod m i = 1"
    and c: "\<And>i. i < k \<Longrightarrow> c i = x mod m i * h i mod m i" and x: "x < crt_prod m k"
  shows "crt_sum m k c mod crt_prod m k = x"
proof -
  have "crt_sum m k c mod crt_prod m k = x mod crt_prod m k"
  proof (rule crt_mod_unique [OF m])
    fix i assume i: "i < k"
    show "crt_sum m k c mod m i = x mod m i"
      using crt_sum_residue [where h = h and x = "\<lambda>i. x mod m i" and m = m and k = k and i = i and c = c] h [OF i] c [OF i] i
      by simp
  qed
  then show ?thesis using x by simp
qed

end
