(* ===== verification/Rns_Base.thy ===== *)
theory Rns_Base
  imports Poly_Small_Mod Uint_Mod Crt
begin

unbundle bit_operations_syntax

text \<open>
  Bases of a residue number system: the class \<open>RNSBase\<close> of \<open>utils/rns.h\<close> and \<open>utils/rns.cpp\<close> of
  \<open>heu/library/algorithms/seal_gpu/\<close>. A base of \<open>k\<close> moduli keeps its product and the products of all
  but one modulus as numbers of \<open>k\<close> words, the latter in rows of one array, with the inverses that
  the reconstruction of a number from its residues needs.
\<close>

section \<open>The class\<close>

record RNSBase =
  rns_size :: nat
  rns_base :: "Modulus list"
  rns_base_prod :: "u64 list"
  rns_punctured_prod_array :: "u64 list"
  rns_inv_punctured_prod_mod_base_array :: "MultiplyUIntModOperand list"

definition empty_RNSBase :: RNSBase where
  "empty_RNSBase = \<lparr>rns_size = 0, rns_base = [], rns_base_prod = [], rns_punctured_prod_array = [],
     rns_inv_punctured_prod_mod_base_array = []\<rparr>"

definition RNSBase_at :: "RNSBase \<Rightarrow> nat \<Rightarrow> Modulus res" where
  "RNSBase_at b index =
     (if index \<ge> rns_size b then Inl (Out_of_range ''index is out of range'') else Inr (rns_base b ! index))"

text \<open>The inverses of the punctured products; after a failure the rest is still filled in.\<close>

fun RNSBase_inverses_loop ::
    "Modulus list \<Rightarrow> u64 list \<Rightarrow> nat \<Rightarrow> nat \<Rightarrow> nat \<Rightarrow> bool \<Rightarrow> MultiplyUIntModOperand list
     \<Rightarrow> (bool \<times> MultiplyUIntModOperand list) res" where
  "RNSBase_inverses_loop base punctured sz 0 i invertible invs = Inr (invertible, invs)"
| "RNSBase_inverses_loop base punctured sz (Suc k) i invertible invs =
     (let temp = moduloUint (take sz (drop (i * sz) punctured)) (base ! i)
      in rbind (if invertible then tryInvertUintMod temp (modulus_value (base ! i)) else Inr None) (\<lambda>r.
           let invertible = (r \<noteq> None);
               temp = (case r of Some t \<Rightarrow> t | None \<Rightarrow> temp)
           in RNSBase_inverses_loop base punctured sz k (i + 1) invertible
                (invs[i := set_operand temp (base ! i) (invs ! i)])))"

definition RNSBase_initialize :: "RNSBase \<Rightarrow> (bool \<times> RNSBase) res" where
  "RNSBase_initialize b =
     (let size = rns_size b in
      rbind (productFitsIn uint64_t (int size) (int size)) (\<lambda>fits.
        if \<not> fits then Inr (False, b)
        else
          let b = b\<lparr>rns_base_prod := replicate size 0,
                    rns_punctured_prod_array := replicate (size * size) 0,
                    rns_inv_punctured_prod_mod_base_array := replicate size \<lparr>mop_operand = 0, mop_quotient = 0\<rparr>\<rparr>
          in if size > 1 then
               let rnsbase_values = map (\<lambda>i. modulus_value (rns_base b ! i)) [0..<size];
                   punctured = parts_loop (\<lambda>i row. multiplyManyUint64Except rnsbase_values i) size size 0
                                 (rns_punctured_prod_array b);
                   temp_mpi = multiplyUint_word (take size punctured) (modulus_value (rns_base b ! 0)) size;
                   b = b\<lparr>rns_punctured_prod_array := punctured, rns_base_prod := setUint temp_mpi\<rparr>
               in rbind (RNSBase_inverses_loop (rns_base b) punctured size size 0 True
                           (rns_inv_punctured_prod_mod_base_array b)) (\<lambda>(invertible, inv).
                    Inr (invertible, b\<lparr>rns_inv_punctured_prod_mod_base_array := inv\<rparr>))
             else
               Inr (True, b\<lparr>rns_base_prod := (rns_base_prod b)[0 := modulus_value (rns_base b ! 0)],
                            rns_punctured_prod_array := (rns_punctured_prod_array b)[0 := 1],
                            rns_inv_punctured_prod_mod_base_array :=
                              (rns_inv_punctured_prod_mod_base_array b)
                                [0 := set_operand 1 (rns_base b ! 0) (rns_inv_punctured_prod_mod_base_array b ! 0)]\<rparr>)))"

definition new_RNSBase :: "Modulus list \<Rightarrow> RNSBase res" where
  "new_RNSBase rnsbase =
     (if length rnsbase = 0 then Inl (Invalid_argument ''rnsbase cannot be empty'')
      else if list_ex (\<lambda>i. modulus_isZero (rnsbase ! i) \<or>
                list_ex (\<lambda>j. \<not> areCoprime (modulus_value (rnsbase ! i)) (modulus_value (rnsbase ! j))) [0..<i])
              [0..<length rnsbase]
      then Inl (Invalid_argument ''rnsbase is invalid'')
      else rbind (RNSBase_initialize (empty_RNSBase\<lparr>rns_size := length rnsbase, rns_base := rnsbase\<rparr>)) (\<lambda>(ok, b).
        if \<not> ok then Inl (Invalid_argument ''rnsbase is invalid'') else Inr b))"

definition copy_RNSBase :: "RNSBase \<Rightarrow> RNSBase" where
  "copy_RNSBase copy =
     (let size = rns_size copy in
      \<lparr>rns_size = size, rns_base = take size (rns_base copy),
       rns_base_prod = setUint (take size (rns_base_prod copy)),
       rns_punctured_prod_array = setUint (take (size * size) (rns_punctured_prod_array copy)),
       rns_inv_punctured_prod_mod_base_array = take size (rns_inv_punctured_prod_mod_base_array copy)\<rparr>)"

definition contains :: "RNSBase \<Rightarrow> Modulus \<Rightarrow> bool" where
  "contains b value = fold (\<lambda>i result. result \<or> modulus_eq (rns_base b ! i) value) [0..<rns_size b] False"

definition isSubbaseOf :: "RNSBase \<Rightarrow> RNSBase \<Rightarrow> bool" where
  "isSubbaseOf b superbase = fold (\<lambda>i result. result \<and> contains superbase (rns_base b ! i)) [0..<rns_size b] True"

definition isSuperbaseOf :: "RNSBase \<Rightarrow> RNSBase \<Rightarrow> bool" where
  "isSuperbaseOf b subbase = isSubbaseOf subbase b"

definition isProperSubbaseOf :: "RNSBase \<Rightarrow> RNSBase \<Rightarrow> bool" where
  "isProperSubbaseOf b superbase = (rns_size b < rns_size superbase \<and> isSubbaseOf b superbase)"

definition isProperSuperbaseOf :: "RNSBase \<Rightarrow> RNSBase \<Rightarrow> bool" where
  "isProperSuperbaseOf b subbase = (rns_size b > rns_size subbase \<and> \<not> isSubbaseOf b subbase)"

section \<open>Larger and smaller bases\<close>

definition RNSBase_extend_value :: "RNSBase \<Rightarrow> Modulus \<Rightarrow> RNSBase res" where
  "RNSBase_extend_value b value =
     (if modulus_isZero value then Inl (Invalid_argument ''value cannot be zero'')
      else if list_ex (\<lambda>i. \<not> areCoprime (modulus_value (rns_base b ! i)) (modulus_value value)) [0..<rns_size b]
      then Inl (Logic_error ''cannot extend by given value'')
      else rbind (add_safe uint64_t (int (rns_size b)) 1) (\<lambda>n.
        rbind (RNSBase_initialize (empty_RNSBase\<lparr>rns_size := nat n, rns_base := take (rns_size b) (rns_base b) @ [value]\<rparr>))
          (\<lambda>(ok, newbase). if \<not> ok then Inl (Logic_error ''cannot extend by given value'') else Inr newbase)))"

definition RNSBase_extend :: "RNSBase \<Rightarrow> RNSBase \<Rightarrow> RNSBase res" where
  "RNSBase_extend b other =
     (if list_ex (\<lambda>i. list_ex (\<lambda>j. \<not> areCoprime (modulus_value (rns_base other ! i)) (modulus_value (rns_base b ! j)))
              [0..<rns_size b]) [0..<rns_size other]
      then Inl (Invalid_argument ''rnsbase is invalid'')
      else rbind (add_safe uint64_t (int (rns_size b)) (int (rns_size other))) (\<lambda>n.
        rbind (RNSBase_initialize (empty_RNSBase\<lparr>rns_size := nat n,
            rns_base := take (rns_size b) (rns_base b) @ take (rns_size other) (rns_base other)\<rparr>))
          (\<lambda>(ok, newbase). if \<not> ok then Inl (Logic_error ''cannot extend by given base'') else Inr newbase)))"

definition RNSBase_drop :: "RNSBase \<Rightarrow> RNSBase res" where
  "RNSBase_drop b =
     (if rns_size b = 1 then Inl (Logic_error ''cannot drop from base of size 1'')
      else rbind (RNSBase_initialize (empty_RNSBase\<lparr>rns_size := rns_size b - 1,
            rns_base := take (rns_size b - 1) (rns_base b)\<rparr>)) (\<lambda>(ok, newbase). Inr newbase))"

text \<open>The copying loop reads past the base when too few moduli differ from the value: the result is then \<open>None\<close>.\<close>

function drop_loop :: "Modulus list \<Rightarrow> Modulus \<Rightarrow> nat \<Rightarrow> nat \<Rightarrow> Modulus list \<Rightarrow> Modulus list option" where
  "drop_loop base value count source_index newbase =
     (if length newbase < count then
        if source_index \<ge> length base then None
        else drop_loop base value count (source_index + 1)
               (if modulus_neq (base ! source_index) value then newbase @ [base ! source_index] else newbase)
      else Some newbase)"
  by pat_completeness auto
termination
  by (relation "measure (\<lambda>(base, value, count, source_index, newbase). length base - source_index)") auto

definition RNSBase_drop_value :: "RNSBase \<Rightarrow> Modulus \<Rightarrow> RNSBase res option" where
  "RNSBase_drop_value b value =
     (if rns_size b = 1 then Some (Inl (Logic_error ''cannot drop from base of size 1''))
      else if \<not> contains b value then Some (Inl (Logic_error ''base does not contain value''))
      else case drop_loop (take (rns_size b) (rns_base b)) value (rns_size b - 1) 0 [] of
             None \<Rightarrow> None
           | Some base \<Rightarrow>
               Some (rbind (RNSBase_initialize (empty_RNSBase\<lparr>rns_size := rns_size b - 1, rns_base := base\<rparr>))
                       (\<lambda>(ok, newbase). Inr newbase)))"

section \<open>Residues and numbers\<close>

text \<open>A null pointer is the array \<open>None\<close>.\<close>

definition decompose :: "RNSBase \<Rightarrow> u64 list option \<Rightarrow> u64 list res" where
  "decompose b value =
     (case value of
        None \<Rightarrow> Inl (Invalid_argument ''value cannot be null'')
      | Some value \<Rightarrow> Inr
          (if rns_size b > 1 then
             let value_copy = setUint (take (rns_size b) value)
             in coeff_loop (\<lambda>i. moduloUint value_copy (rns_base b ! i)) (rns_size b) 0 value
           else value))"

definition decomposeArray :: "RNSBase \<Rightarrow> u64 list option \<Rightarrow> nat \<Rightarrow> u64 list res" where
  "decomposeArray b value count =
     (case value of
        None \<Rightarrow> Inl (Invalid_argument ''value cannot be null'')
      | Some value \<Rightarrow>
          if rns_size b > 1 then
            rbind (productFitsIn uint64_t (int count) (int (rns_size b))) (\<lambda>fits.
              if \<not> fits then Inl (Logic_error ''invalid parameters'')
              else
                let size = rns_size b;
                    value_copy = setUint (take (count * size) value)
                in Inr (parts_loop (\<lambda>i. coeff_loop (\<lambda>j. moduloUint (take size (drop (j * size) value_copy)) (rns_base b ! i)) count 0)
                          count size 0 value))
          else Inr value)"

fun compose_loop :: "RNSBase \<Rightarrow> u64 list \<Rightarrow> nat \<Rightarrow> nat \<Rightarrow> u64 list \<Rightarrow> u64 list" where
  "compose_loop b temp_value 0 i value = value"
| "compose_loop b temp_value (Suc k) i value =
     (let size = rns_size b;
          temp_prod = multiplyUintMod_operand (temp_value ! i) (rns_inv_punctured_prod_mod_base_array b ! i) (rns_base b ! i);
          temp_mpi = multiplyUint_word (take size (drop (i * size) (rns_punctured_prod_array b))) temp_prod size
      in compose_loop b temp_value k (i + 1) (addUintUintMod temp_mpi value (rns_base_prod b)))"

definition compose :: "RNSBase \<Rightarrow> u64 list option \<Rightarrow> u64 list res" where
  "compose b value =
     (case value of
        None \<Rightarrow> Inl (Invalid_argument ''value cannot be null'')
      | Some value \<Rightarrow> Inr
          (if rns_size b > 1 then
             let size = rns_size b;
                 temp_value = setUint (take size value)
             in compose_loop b temp_value size 0 (setZeroUint size) @ drop size value
           else value))"

definition composeArray :: "RNSBase \<Rightarrow> u64 list option \<Rightarrow> nat \<Rightarrow> u64 list res" where
  "composeArray b value count =
     (case value of
        None \<Rightarrow> Inl (Invalid_argument ''value cannot be null'')
      | Some value \<Rightarrow>
          if rns_size b > 1 then
            rbind (productFitsIn uint64_t (int count) (int (rns_size b))) (\<lambda>fits.
              if \<not> fits then Inl (Logic_error ''invalid parameters'')
              else
                let size = rns_size b;
                    temp_array = parts_loop (\<lambda>i. coeff_loop (\<lambda>j. value ! (j * count + i)) size 0) size count 0
                                   (replicate (size * count) 0);
                    value = setZeroUint (count * size) @ drop (count * size) value
                in Inr (parts_loop (\<lambda>i. compose_loop b (take size (drop (i * size) temp_array)) size 0) size count 0 value))
          else Inr value)"
section \<open>The invariant\<close>

abbreviation modn :: "Modulus list \<Rightarrow> nat \<Rightarrow> nat" where
  "modn ms i \<equiv> unat (mod_value (ms ! i))"

definition rns_inv_ok :: "Modulus list \<Rightarrow> nat \<Rightarrow> nat \<Rightarrow> MultiplyUIntModOperand \<Rightarrow> bool" where
  "rns_inv_ok ms n i y \<longleftrightarrow> operand_for (ms ! i) y \<and>
     crt_punctured (modn ms) n i * unat (mop_operand y) mod modn ms i = 1"

definition good_moduli :: "Modulus list \<Rightarrow> bool" where
  "good_moduli ms \<longleftrightarrow> ms \<noteq> [] \<and> (\<forall>i<length ms. wf_modulus (ms ! i)) \<and> crt_moduli (modn ms) (length ms)"

definition wf_rns :: "RNSBase \<Rightarrow> bool" where
  "wf_rns b \<longleftrightarrow>
     (let n = rns_size b; ms = rns_base b in
      length ms = n \<and> n * n < 9223372036854775808 \<and> good_moduli ms \<and>
      length (rns_base_prod b) = n \<and> uval (rns_base_prod b) = crt_prod (modn ms) n \<and>
      length (rns_punctured_prod_array b) = n * n \<and>
      (\<forall>i<n. uval (poly_slice n i (rns_punctured_prod_array b)) = crt_punctured (modn ms) n i) \<and>
      length (rns_inv_punctured_prod_mod_base_array b) = n \<and>
      (\<forall>i<n. rns_inv_ok ms n i (rns_inv_punctured_prod_mod_base_array b ! i)))"

lemma wf_rnsD:
  assumes "wf_rns b" "n = rns_size b" "ms = rns_base b"
  shows "length ms = n" "n * n < 9223372036854775808" "good_moduli ms"
    "length (rns_base_prod b) = n" "uval (rns_base_prod b) = crt_prod (modn ms) n"
    "length (rns_punctured_prod_array b) = n * n"
    "i < n \<Longrightarrow> uval (poly_slice n i (rns_punctured_prod_array b)) = crt_punctured (modn ms) n i"
    "length (rns_inv_punctured_prod_mod_base_array b) = n"
    "i < n \<Longrightarrow> rns_inv_ok ms n i (rns_inv_punctured_prod_mod_base_array b ! i)"
    "0 < n" "i < n \<Longrightarrow> wf_modulus (ms ! i)" "crt_moduli (modn ms) n"
  using assms by (auto simp: wf_rns_def good_moduli_def Let_def simp flip: length_greater_0_conv)

text \<open>The test of the size has three outcomes: products of 64 bits are refused, larger ones throw.\<close>

lemma product_fits:
  assumes a: "a < 18446744073709551616" and b: "b < 18446744073709551616"
  shows "productFitsIn uint64_t (int a) (int b) =
    (if a * b < 9223372036854775808 then Inr True
     else if a * b < 18446744073709551616 then Inr False
     else Inl (Logic_error ''unsigned overflow''))"
proof -
  have u64: "in_type uint64_t (int x) \<longleftrightarrow> x < 18446744073709551616" for x
    by (simp add: in_type_def type_min_def type_max_def) linarith
  have t: "wf_ctype uint64_t" "in_type uint64_t (int a)" "in_type uint64_t (int b)"
    using a b unfolding u64 by (simp_all add: wf_ctype_def)
  have ms: "mul_safe uint64_t (int a) (int b) = Inr r \<longleftrightarrow> r = int (a * b) \<and> in_type uint64_t (int (a * b))" for r
    using mul_safe_unsigned [OF t(1) _ t(2,3), of r] unfolding of_nat_mult by simp
  show ?thesis
  proof (cases "a * b < 18446744073709551616")
    case True
    then have m: "mul_safe uint64_t (int a) (int b) = Inr (int (a * b))" using ms u64 by blast
    have "fitsIn uint64_t uint64_t (int (a * b)) \<longleftrightarrow> int (a * b) < 2 ^ 63"
      by (rule fitsIn_unsigned_source) (use True t(1) in \<open>simp_all add: u64 del: of_nat_mult\<close>)
    also have "\<dots> \<longleftrightarrow> a * b < 9223372036854775808" by (simp del: of_nat_mult)
    finally show ?thesis using True by (simp add: productFitsIn_def m)
  next
    case False
    then have "mul_safe uint64_t (int a) (int b) \<noteq> Inr r" for r using ms [of r] u64 by blast
    then obtain e where e: "mul_safe uint64_t (int a) (int b) = Inl e" by (cases "mul_safe uint64_t (int a) (int b)") auto
    then have "e = Logic_error ''unsigned overflow''" by (simp add: mul_safe_def split: if_splits)
    with e have "mul_safe uint64_t (int a) (int b) = Inl (Logic_error ''unsigned overflow'')" by simp
    then show ?thesis using False by (simp add: productFitsIn_def)
  qed
qed

section \<open>Construction\<close>

lemma inverses_loop_ok:
  assumes wf: "\<forall>i<n. wf_modulus (ms ! i)" and m: "crt_moduli (modn ms) n"
    and p: "length p = n * n" "\<forall>i<n. uval (poly_slice n i p) = crt_punctured (modn ms) n i"
  shows "i + k = n \<Longrightarrow> length invs = n \<Longrightarrow> \<forall>j<i. rns_inv_ok ms n j (invs ! j) \<Longrightarrow>
    \<exists>invs'. RNSBase_inverses_loop ms p n k i True invs = Inr (True, invs') \<and> length invs' = n \<and>
      (\<forall>j<n. rns_inv_ok ms n j (invs' ! j))"
proof (induction k arbitrary: i invs)
  case 0
  then show ?case by simp
next
  case (Suc k)
  let ?P = "crt_punctured (modn ms) n i" and ?m = "ms ! i"
  have i: "i < n" using Suc.prems(1) by simp
  note w = wf_modulusD [OF wf [rule_format, OF i]]
  define t where "t = moduloUint (take n (drop (i * n) p)) ?m"
  have row: "poly_slice n i p \<noteq> []" using length_slice [OF p(1) i] i by auto
  have t: "unat t = ?P mod unat (mod_value ?m)"
    using moduloUint_value [OF w(1) row] p(2) i by (simp add: t_def poly_slice_def mult.commute)
  have cop: "coprime (unat t) (unat (mod_value ?m))"
    using crt_punctured_coprime [OF m i] w(2) unfolding t by (simp add: coprime_iff_gcd_eq_1 gcd.commute flip: gcd_red_nat)
  have "t \<noteq> 0" using cop w(2) by auto
  moreover have "unat t < unat (mod_value ?m)" unfolding t using w(2) by simp
  ultimately obtain r where r: "tryInvertUintMod t (mod_value ?m) = Inr (Some r)" "r < mod_value ?m"
      "unat t * unat r mod unat (mod_value ?m) = 1"
    using tryInvertUintMod_value [of t "mod_value ?m"] w(2,3) cop by auto
  let ?invs = "invs[i := set_operand r ?m (invs ! i)]"
  have "rns_inv_ok ms n i (set_operand r ?m (invs ! i))"
    using set_operand_for [OF r(2), of "invs ! i"] r(3) unfolding t rns_inv_ok_def by (simp add: mod_mult_left_eq)
  then have "\<forall>j<i + 1. rns_inv_ok ms n j (?invs ! j)" using Suc.prems(2,3) i by (auto simp: nth_list_update less_Suc_eq)
  with Suc.IH [of "i + 1" ?invs] Suc.prems(1,2) obtain invs' where
    "RNSBase_inverses_loop ms p n k (i + 1) True ?invs = Inr (True, invs')" "length invs' = n"
    "\<forall>j<n. rns_inv_ok ms n j (invs' ! j)" by auto
  then show ?case using r(1) by (simp add: Let_def modulus_value_def flip: t_def)
qed

lemma crt_prod_words: "0 < n \<Longrightarrow> crt_prod (modn ms) n < 18446744073709551616 ^ n"
proof (induction n rule: nat_induct_non_zero)
  case (Suc n)
  have "crt_prod (modn ms) n * modn ms n < 18446744073709551616 ^ n * 18446744073709551616"
    by (rule mult_strict_mono) (use Suc in simp_all)
  then show ?case by (simp add: mult.commute)
qed (simp add: crt_prod_def)

lemma RNSBase_initialize_ok:
  assumes ms: "good_moduli ms" and n: "length ms = n" "n * n < 9223372036854775808"
  shows "\<exists>b. RNSBase_initialize (empty_RNSBase\<lparr>rns_size := n, rns_base := ms\<rparr>) = Inr (True, b) \<and> wf_rns b \<and> rns_base b = ms"
proof -
  have n0: "0 < n" "ms \<noteq> []" using ms n(1) by (auto simp: good_moduli_def)
  have m: "crt_moduli (modn ms) n" and wf: "\<forall>i<n. wf_modulus (ms ! i)" using ms n(1) by (simp_all add: good_moduli_def)
  have "n \<le> n * n" by simp
  then have lt: "n < 18446744073709551616" using n(2) by linarith
  have fits: "productFitsIn uint64_t (int n) (int n) = Inr True" using product_fits [OF lt lt] n(2) by simp
  let ?zero = "\<lparr>mop_operand = 0, mop_quotient = 0\<rparr>"
  show ?thesis
  proof (cases "n > 1")
    case True
    define vals where "vals = map (\<lambda>i. modulus_value (ms ! i)) [0..<n]"
    define p where "p = parts_loop (\<lambda>i row. multiplyManyUint64Except vals i) n n 0 (replicate (n * n) 0)"
    have v: "length vals = n" "vals \<noteq> []" using n0 by (auto simp: vals_def)
    have "length p = n * n \<and> (\<forall>j<n. poly_slice n j p = multiplyManyUint64Except vals j)"
      using parts_loop_slices [of n n "\<lambda>i row. multiplyManyUint64Except vals i" "replicate (n * n) 0" 0 n]
        multiplyManyUint64Except_value(1) [OF v(2)] v(1) by (simp add: p_def)
    then have p: "length p = n * n" "\<And>j. j < n \<Longrightarrow> poly_slice n j p = multiplyManyUint64Except vals j" by blast+
    have pv: "\<forall>j<n. uval (poly_slice n j p) = crt_punctured (modn ms) n j"
      using p(2) multiplyManyUint64Except_value(2) [OF v(2)] v(1)
      by (auto simp: crt_punctured_def vals_def modulus_value_def intro!: prod.cong)
    obtain invs where l: "RNSBase_inverses_loop ms p n n 0 True (replicate n ?zero) = Inr (True, invs)"
      "length invs = n" "\<forall>j<n. rns_inv_ok ms n j (invs ! j)"
      using inverses_loop_ok [OF wf m p(1) pv, of 0 n "replicate n ?zero"] by auto
    have prod: "length (multiplyUint_word (take n p) (modulus_value (ms ! 0)) n) = n"
      "uval (multiplyUint_word (take n p) (modulus_value (ms ! 0)) n) = crt_prod (modn ms) n"
    proof -
      have "uval (take n p) = crt_punctured (modn ms) n 0" using pv [rule_format, OF n0(1)] by (simp add: poly_slice_def)
      then show "length (multiplyUint_word (take n p) (modulus_value (ms ! 0)) n) = n"
        "uval (multiplyUint_word (take n p) (modulus_value (ms ! 0)) n) = crt_prod (modn ms) n"
        using multiplyUint_word_value [of "take n p" "modulus_value (ms ! 0)" n] crt_punctured_prod [of 0 n "modn ms"] n0(1)
          crt_prod_words [OF n0(1), of ms] by (simp_all add: modulus_value_def)
    qed
    let ?b = "\<lparr>rns_size = n, rns_base = ms, rns_base_prod = setUint (multiplyUint_word (take n p) (modulus_value (ms ! 0)) n),
      rns_punctured_prod_array = p, rns_inv_punctured_prod_mod_base_array = invs\<rparr>"
    have "RNSBase_initialize (empty_RNSBase\<lparr>rns_size := n, rns_base := ms\<rparr>) = Inr (True, ?b)"
      using True fits l(1) by (simp add: RNSBase_initialize_def empty_RNSBase_def Let_def flip: vals_def p_def)
    moreover have "wf_rns ?b" using ms n p(1) pv prod l(2,3) by (simp add: wf_rns_def setUint_def)
    ultimately show ?thesis by auto
  next
    case False
    then have n1: "n = 1" using n0(1) by simp
    have w: "wf_modulus (ms ! 0)" using wf n1 by simp
    then have one: "1 < mod_value (ms ! 0)" by (simp add: wf_modulus_def word_less_nat_alt)
    let ?b = "\<lparr>rns_size = 1, rns_base = ms, rns_base_prod = [modulus_value (ms ! 0)], rns_punctured_prod_array = [1],
      rns_inv_punctured_prod_mod_base_array = [set_operand 1 (ms ! 0) ?zero]\<rparr>"
    have "RNSBase_initialize (empty_RNSBase\<lparr>rns_size := n, rns_base := ms\<rparr>) = Inr (True, ?b)"
      using n1 fits by (simp add: RNSBase_initialize_def empty_RNSBase_def Let_def)
    moreover have "wf_rns ?b"
      using ms n n1 set_operand_for [OF one, of ?zero] w
      by (simp add: wf_rns_def modulus_value_def poly_slice_def crt_punctured_def crt_prod_def rns_inv_ok_def wf_modulus_def
          lessThan_Suc)
    ultimately show ?thesis by auto
  qed
qed

text \<open>What the constructor accepts is what \<open>good_moduli\<close> asks for.\<close>

lemma constructor_checks:
  assumes ne: "ms \<noteq> []" and ok: "\<forall>i<length ms. modulus_isZero (ms ! i) \<or> wf_modulus (ms ! i)"
  shows "\<not> list_ex (\<lambda>i. modulus_isZero (ms ! i) \<or>
      list_ex (\<lambda>j. \<not> areCoprime (modulus_value (ms ! i)) (modulus_value (ms ! j))) [0..<i]) [0..<length ms]
    \<longleftrightarrow> good_moduli ms"
proof -
  have cop: "areCoprime (modulus_value (ms ! i)) (modulus_value (ms ! j)) \<longleftrightarrow> coprime (modn ms i) (modn ms j)"
    if "\<not> modulus_isZero (ms ! i)" for i j
    using that areCoprime_iff by (simp add: modulus_isZero_def modulus_value_def)
  have nz: "\<not> modulus_isZero (ms ! i) \<longleftrightarrow> wf_modulus (ms ! i)" "\<not> modulus_isZero (ms ! i) \<Longrightarrow> 1 < modn ms i" if "i < length ms" for i
    using ok that by (auto simp: wf_modulus_def modulus_isZero_def)
  have "\<not> list_ex (\<lambda>i. modulus_isZero (ms ! i) \<or>
      list_ex (\<lambda>j. \<not> areCoprime (modulus_value (ms ! i)) (modulus_value (ms ! j))) [0..<i]) [0..<length ms]
    \<longleftrightarrow> (\<forall>i<length ms. \<not> modulus_isZero (ms ! i) \<and> (\<forall>j<i. areCoprime (modulus_value (ms ! i)) (modulus_value (ms ! j))))"
    by (auto simp: list_ex_iff)
  also have "\<dots> \<longleftrightarrow> good_moduli ms"
    using ne nz cop unfolding good_moduli_def crt_moduli_def by blast
  finally show ?thesis .
qed
lemma initialize_cases:
  assumes "length ms = n" "n < 18446744073709551616" "good_moduli ms"
  shows "if n * n < 9223372036854775808
      then \<exists>b. RNSBase_initialize (empty_RNSBase\<lparr>rns_size := n, rns_base := ms\<rparr>) = Inr (True, b) \<and> wf_rns b \<and> rns_base b = ms
    else if n * n < 18446744073709551616
      then \<exists>b. RNSBase_initialize (empty_RNSBase\<lparr>rns_size := n, rns_base := ms\<rparr>) = Inr (False, b)
    else RNSBase_initialize (empty_RNSBase\<lparr>rns_size := n, rns_base := ms\<rparr>) = Inl (Logic_error ''unsigned overflow'')"
proof (cases "n * n < 9223372036854775808")
  case True
  then show ?thesis using RNSBase_initialize_ok [OF assms(3,1)] by simp
next
  case False
  then show ?thesis
    using product_fits [OF assms(2,2)] by (simp add: RNSBase_initialize_def empty_RNSBase_def)
qed

lemma new_RNSBase_ok:
  assumes "good_moduli ms" "length ms * length ms < 9223372036854775808"
  shows "\<exists>b. new_RNSBase ms = Inr b \<and> wf_rns b \<and> rns_base b = ms \<and> rns_size b = length ms"
proof -
  have ne: "ms \<noteq> []" "\<forall>i<length ms. modulus_isZero (ms ! i) \<or> wf_modulus (ms ! i)"
    using assms(1) by (simp_all add: good_moduli_def)
  obtain b where b: "RNSBase_initialize (empty_RNSBase\<lparr>rns_size := length ms, rns_base := ms\<rparr>) = Inr (True, b)" "wf_rns b" "rns_base b = ms"
    using RNSBase_initialize_ok [OF assms(1) refl assms(2)] by blast
  have "\<not> list_ex (\<lambda>i. modulus_isZero (ms ! i) \<or>
      list_ex (\<lambda>j. \<not> areCoprime (modulus_value (ms ! i)) (modulus_value (ms ! j))) [0..<i]) [0..<length ms]"
    using constructor_checks [OF ne] assms(1) by blast
  then have "new_RNSBase ms = Inr b" using ne(1) b(1) by (simp add: new_RNSBase_def)
  then show ?thesis using b wf_rnsD(1) [OF b(2) refl refl] by auto
qed

text \<open>A base of two moduli, for the concrete instances.\<close>

definition modulus_97 :: Modulus where
  "modulus_97 = \<lparr>mod_value = 97, mod_const_ratio = [11600529778312192253, 190172619316593315, 35],
     mod_uint64_count = 1, mod_bit_count = 7, mod_is_prime = True\<rparr>"

lemma wf_modulus_97: "wf_modulus modulus_97"
  by (simp add: wf_modulus_def has_ratio_def modulus_97_def) code_simp

definition modulus_19 :: Modulus where
  "modulus_19 = \<lparr>mod_value = 19, mod_const_ratio = [16504981539634861972, 970881267037344821, 4],
     mod_uint64_count = 1, mod_bit_count = 5, mod_is_prime = True\<rparr>"

lemma wf_modulus_19: "wf_modulus modulus_19"
  by (simp add: wf_modulus_def has_ratio_def modulus_19_def) code_simp

lemma good_17_97: "good_moduli [modulus_17, modulus_97]"
proof -
  have "gcd (97 :: nat) 17 = 1" by code_simp
  then have "coprime (97 :: nat) 17" by (simp only: coprime_iff_gcd_eq_1)
  then show ?thesis
    using wf_modulus_17 wf_modulus_97 by (auto simp: good_moduli_def crt_moduli_def less_Suc_eq modulus_17_def modulus_97_def)
qed

lemma base_17_97:
  "\<exists>b. new_RNSBase [modulus_17, modulus_97] = Inr b \<and> wf_rns b \<and> rns_base b = [modulus_17, modulus_97] \<and> rns_size b = 2"
  using new_RNSBase_ok [OF good_17_97] by (simp add: numeral_2_eq_2)

lemma base_19: "\<exists>b. new_RNSBase [modulus_19] = Inr b \<and> wf_rns b \<and> rns_base b = [modulus_19] \<and> rns_size b = 1"
proof -
  have "good_moduli [modulus_19]" using wf_modulus_19 by (simp add: good_moduli_def crt_moduli_def wf_modulus_def)
  then show ?thesis using new_RNSBase_ok [of "[modulus_19]"] by simp
qed

text \<open>
  C22. The constructor of a base takes a non-empty list of pairwise coprime non-zero moduli and computes
  the product, the punctured products and their inverses; every other list is refused with the exception
  of the code, as is a list so long that the table of the punctured products does not fit.
\<close>

theorem new_RNSBase_correct:
  assumes "length ms < 18446744073709551616" "\<forall>i<length ms. modulus_isZero (ms ! i) \<or> wf_modulus (ms ! i)"
  shows "if good_moduli ms \<and> length ms * length ms < 9223372036854775808
    then \<exists>b. new_RNSBase ms = Inr b \<and> wf_rns b \<and> rns_base b = ms
    else new_RNSBase ms = Inl
      (if ms = [] then Invalid_argument ''rnsbase cannot be empty''
       else if good_moduli ms \<and> length ms * length ms \<ge> 18446744073709551616 then Logic_error ''unsigned overflow''
       else Invalid_argument ''rnsbase is invalid'')"
proof (cases "ms = []")
  case True
  then show ?thesis by (simp add: new_RNSBase_def good_moduli_def)
next
  case False
  let ?I = "RNSBase_initialize (empty_RNSBase\<lparr>rns_size := length ms, rns_base := ms\<rparr>)"
  have ex: "list_ex (\<lambda>i. modulus_isZero (ms ! i) \<or>
      list_ex (\<lambda>j. \<not> areCoprime (modulus_value (ms ! i)) (modulus_value (ms ! j))) [0..<i]) [0..<length ms] \<longleftrightarrow> \<not> good_moduli ms"
    using constructor_checks [OF False assms(2)] by blast
  have c: "new_RNSBase ms = (if \<not> good_moduli ms then Inl (Invalid_argument ''rnsbase is invalid'')
    else rbind ?I (\<lambda>(ok, b). if \<not> ok then Inl (Invalid_argument ''rnsbase is invalid'') else Inr b))"
    using False unfolding new_RNSBase_def ex by simp
  show ?thesis
  proof (cases "good_moduli ms")
    case True
    then show ?thesis using initialize_cases [OF refl assms(1) True] c False by (auto split: if_splits)
  qed (use c False in simp)
qed

theorem new_RNSBase_correct_witness:
  "(\<exists>b. new_RNSBase [modulus_17, modulus_97] = Inr b \<and> wf_rns b \<and> rns_base b = [modulus_17, modulus_97]) \<and>
   new_RNSBase [modulus_17, modulus_17] = Inl (Invalid_argument ''rnsbase is invalid'')"
proof -
  have "\<not> good_moduli [modulus_17, modulus_17]" by (auto simp: good_moduli_def crt_moduli_def modulus_17_def)
  with new_RNSBase_correct [of "[modulus_17, modulus_97]"] new_RNSBase_correct [of "[modulus_17, modulus_17]"]
    wf_modulus_17 wf_modulus_97 good_17_97 show ?thesis by (auto simp: less_Suc_eq split: if_splits)
qed

section \<open>The relations between bases\<close>

lemma fold_or: "fold (\<lambda>i r. r \<or> P i) xs r = (r \<or> (\<exists>i\<in>set xs. P i))"
  by (induction xs arbitrary: r) auto

lemma fold_and: "fold (\<lambda>i r. r \<and> P i) xs r = (r \<and> (\<forall>i\<in>set xs. P i))"
  by (induction xs arbitrary: r) auto

definition base_values :: "RNSBase \<Rightarrow> u64 set" where
  "base_values b = mod_value ` set (take (rns_size b) (rns_base b))"

lemma base_values_nth:
  assumes "rns_size b \<le> length (rns_base b)"
  shows "base_values b = (\<lambda>i. mod_value (rns_base b ! i)) ` {..<rns_size b}"
proof -
  have "set (take (rns_size b) (rns_base b)) = (!) (rns_base b) ` {..<rns_size b}"
    using assms nth_image [of "rns_size b" "rns_base b"] by (simp add: atLeast0LessThan)
  then show ?thesis by (simp add: base_values_def image_image)
qed

lemma contains_iff:
  assumes "rns_size b \<le> length (rns_base b)"
  shows "contains b v \<longleftrightarrow> mod_value v \<in> base_values b"
  unfolding base_values_nth [OF assms] by (auto simp: contains_def fold_or modulus_eq_def image_iff) (metis lessThan_iff)

lemma isSubbaseOf_iff:
  assumes "rns_size b \<le> length (rns_base b)" "rns_size s \<le> length (rns_base s)"
  shows "isSubbaseOf b s \<longleftrightarrow> base_values b \<subseteq> base_values s"
proof -
  have "isSubbaseOf b s \<longleftrightarrow> (\<forall>i<rns_size b. mod_value (rns_base b ! i) \<in> base_values s)"
    by (auto simp: isSubbaseOf_def fold_and contains_iff [OF assms(2)])
  also have "\<dots> \<longleftrightarrow> base_values b \<subseteq> base_values s"
    unfolding base_values_nth [OF assms(1)] by blast
  finally show ?thesis .
qed

lemma good_moduli_sorted:
  "good_moduli ms \<longleftrightarrow> ms \<noteq> [] \<and> (\<forall>m\<in>set ms. wf_modulus m) \<and>
     sorted_wrt (\<lambda>a b. coprime (unat (mod_value b)) (unat (mod_value a))) ms"
proof -
  have "1 < modn ms i" if "\<forall>i<length ms. wf_modulus (ms ! i)" "i < length ms" for i
    using that by (simp add: wf_modulus_def)
  then show ?thesis
    by (auto simp: good_moduli_def crt_moduli_def sorted_wrt_iff_nth_less all_set_conv_all_nth)
qed

lemma good_moduli_distinct:
  assumes "good_moduli ms"
  shows "distinct (map mod_value ms)"
proof -
  have "ms ! i \<noteq> ms ! j \<and> mod_value (ms ! i) \<noteq> mod_value (ms ! j)" if "i < length ms" "j < length ms" "i \<noteq> j" for i j
  proof -
    have "coprime (modn ms i) (modn ms j)" "1 < modn ms i"
      using assms that crt_moduliD by (auto simp: good_moduli_def)
    then show ?thesis by auto
  qed
  then show ?thesis by (simp add: distinct_conv_nth)
qed

lemma card_base_values: "wf_rns b \<Longrightarrow> card (base_values b) = rns_size b"
  using good_moduli_distinct [OF wf_rnsD(3)] wf_rnsD(1)
  by (simp add: base_values_def distinct_card flip: set_map)

lemma finite_base_values [simp]: "finite (base_values b)"
  by (simp add: base_values_def)

text \<open>
  The relations between two bases are those of their sets of values, except for
  \<open>isProperSuperbaseOf\<close>, which only compares the sizes: it holds of bases that have nothing in common.
\<close>

theorem base_relations_correct:
  assumes "wf_rns b" "wf_rns s"
  shows "(contains b m \<longleftrightarrow> mod_value m \<in> base_values b) \<and>
    (isSubbaseOf b s \<longleftrightarrow> base_values b \<subseteq> base_values s) \<and>
    (isSuperbaseOf b s \<longleftrightarrow> base_values s \<subseteq> base_values b) \<and>
    (isProperSubbaseOf b s \<longleftrightarrow> base_values b \<subset> base_values s) \<and>
    (isProperSuperbaseOf b s \<longleftrightarrow> rns_size b > rns_size s)"
proof (intro conjI)
  have len: "rns_size b \<le> length (rns_base b)" "rns_size s \<le> length (rns_base s)"
    using wf_rnsD(1) [OF assms(1)] wf_rnsD(1) [OF assms(2)] by simp_all
  note card = card_base_values [OF assms(1)] card_base_values [OF assms(2)]
  show "contains b m \<longleftrightarrow> mod_value m \<in> base_values b" by (rule contains_iff [OF len(1)])
  show sub: "isSubbaseOf b s \<longleftrightarrow> base_values b \<subseteq> base_values s" by (rule isSubbaseOf_iff [OF len])
  show "isSuperbaseOf b s \<longleftrightarrow> base_values s \<subseteq> base_values b"
    unfolding isSuperbaseOf_def by (rule isSubbaseOf_iff [OF len(2,1)])
  show "isProperSubbaseOf b s \<longleftrightarrow> base_values b \<subset> base_values s"
    unfolding isProperSubbaseOf_def sub using card psubset_card_mono [of "base_values s" "base_values b"]
      card_subset_eq [of "base_values s" "base_values b"] card_mono [of "base_values s" "base_values b"] by fastforce
  show "isProperSuperbaseOf b s \<longleftrightarrow> rns_size b > rns_size s"
    unfolding isProperSuperbaseOf_def sub using card card_mono [of "base_values s" "base_values b"] by auto
qed

theorem base_relations_correct_witness:
  "\<exists>b c. new_RNSBase [modulus_17, modulus_97] = Inr b \<and> new_RNSBase [modulus_19] = Inr c \<and>
     \<not> isSubbaseOf c b \<and> isProperSuperbaseOf b c"
proof -
  obtain b where b: "new_RNSBase [modulus_17, modulus_97] = Inr b" "wf_rns b" "rns_base b = [modulus_17, modulus_97]" "rns_size b = 2"
    using base_17_97 by blast
  have "good_moduli [modulus_19]" using wf_modulus_19 by (simp add: good_moduli_sorted)
  then obtain c where c: "new_RNSBase [modulus_19] = Inr c" "wf_rns c" "rns_base c = [modulus_19]" "rns_size c = 1"
    using new_RNSBase_ok [of "[modulus_19]"] by auto
  have "base_values b = {17, 97}" "base_values c = {19}"
    using b c by (simp_all add: base_values_def modulus_17_def modulus_97_def modulus_19_def)
  then show ?thesis
    using b(1,4) c(1,4) base_relations_correct [OF b(2) c(2)] base_relations_correct [OF c(2) b(2)] by auto
qed
section \<open>Extension and removal\<close>

lemma list_ex_upt: "list_ex P [0..<n] \<longleftrightarrow> (\<exists>i<n. P i)"
  by (auto simp: list_ex_iff)

lemma filter_neq_base:
  assumes "good_moduli ms" "m \<in> set ms" "mod_value m = mod_value v"
  shows "length (filter (\<lambda>x. modulus_neq x v) ms) = length ms - 1"
proof -
  have "filter (\<lambda>x. \<not> modulus_neq x v) ms = [m]"
  proof -
    obtain xs ys where split: "ms = xs @ m # ys" using assms(2) by (auto simp: in_set_conv_decomp)
    have "mod_value m \<notin> mod_value ` set (xs @ ys)" using good_moduli_distinct [OF assms(1)] unfolding split by auto
    then have "mod_value x \<noteq> mod_value v" if "x \<in> set (xs @ ys)" for x
      using that unfolding assms(3) [symmetric] by (metis image_eqI)
    then show ?thesis using assms(3) by (simp add: split modulus_neq_def modulus_eq_def)
  qed
  then show ?thesis using sum_length_filter_compl [of "\<lambda>x. modulus_neq x v" ms] by simp
qed

lemma drop_loop_filter:
  "i \<le> length base \<Longrightarrow> newbase = filter (\<lambda>x. modulus_neq x v) (take i base) \<Longrightarrow> count = length (filter (\<lambda>x. modulus_neq x v) base) \<Longrightarrow>
    drop_loop base v count i newbase = Some (filter (\<lambda>x. modulus_neq x v) base)"
proof (induction base v count i newbase rule: drop_loop.induct)
  case (1 base v count i newbase)
  show ?case
  proof (cases "length newbase < count")
    case True
    then have i: "i < length base" using "1.prems" by (cases "i = length base") auto
    have "(if modulus_neq (base ! i) v then newbase @ [base ! i] else newbase) = filter (\<lambda>x. modulus_neq x v) (take (i + 1) base)"
      using i "1.prems"(2) by (simp add: take_Suc_conv_app_nth)
    then show ?thesis using "1.IH" [OF True] i True "1.prems"(3) by (subst drop_loop.simps) simp
  next
    case False
    have "filter (\<lambda>x. modulus_neq x v) base = filter (\<lambda>x. modulus_neq x v) (take i base) @ filter (\<lambda>x. modulus_neq x v) (drop i base)" by (simp flip: filter_append)
    with False "1.prems" have "newbase = filter (\<lambda>x. modulus_neq x v) base" by simp
    then show ?thesis using False by (subst drop_loop.simps) simp
  qed
qed

lemma good_moduli_snoc:
  assumes "good_moduli ms" "\<not> modulus_isZero v" "modulus_isZero v \<or> wf_modulus v"
  shows "good_moduli (ms @ [v]) \<longleftrightarrow> (\<forall>i<length ms. areCoprime (modulus_value (ms ! i)) (modulus_value v))"
proof -
  have "areCoprime (modulus_value (ms ! i)) (modulus_value v) \<longleftrightarrow> coprime (modn ms i) (unat (mod_value v))" for i
    using areCoprime_iff assms(2) by (simp add: modulus_value_def modulus_isZero_def)
  then have "(\<forall>i<length ms. areCoprime (modulus_value (ms ! i)) (modulus_value v))
      \<longleftrightarrow> (\<forall>a\<in>set ms. coprime (unat (mod_value v)) (unat (mod_value a)))"
    by (simp add: all_set_conv_all_nth coprime_commute)
  then show ?thesis
    using assms by (auto simp: good_moduli_sorted sorted_wrt_append)
qed

lemma good_moduli_append:
  assumes "good_moduli ms" "good_moduli ns"
  shows "good_moduli (ms @ ns) \<longleftrightarrow>
    (\<forall>i<length ns. \<forall>j<length ms. areCoprime (modulus_value (ns ! i)) (modulus_value (ms ! j)))"
proof -
  have "areCoprime (modulus_value (ns ! i)) (modulus_value (ms ! j)) \<longleftrightarrow> coprime (modn ns i) (modn ms j)"
    if "i < length ns" for i j
  proof -
    have "wf_modulus (ns ! i)" using assms(2) that by (simp add: good_moduli_def)
    then have "modulus_value (ns ! i) \<noteq> 0" by (auto simp: modulus_value_def wf_modulus_def)
    then show ?thesis using areCoprime_iff by (simp add: modulus_value_def)
  qed
  then have "(\<forall>i<length ns. \<forall>j<length ms. areCoprime (modulus_value (ns ! i)) (modulus_value (ms ! j)))
      \<longleftrightarrow> (\<forall>b\<in>set ns. \<forall>a\<in>set ms. coprime (unat (mod_value b)) (unat (mod_value a)))"
    by (simp add: all_set_conv_all_nth)
  then show ?thesis
    using assms by (auto simp: good_moduli_sorted sorted_wrt_append)
qed

lemma RNSBase_extend_value_cases:
  assumes b: "wf_rns b" and v: "modulus_isZero v \<or> wf_modulus v"
    and small: "(rns_size b + 1) * (rns_size b + 1) < 9223372036854775808"
  shows "if \<not> modulus_isZero v \<and> good_moduli (rns_base b @ [v])
     then \<exists>b'. RNSBase_extend_value b v = Inr b' \<and> wf_rns b' \<and> rns_base b' = rns_base b @ [v]
     else RNSBase_extend_value b v = Inl (if modulus_isZero v then Invalid_argument ''value cannot be zero''
                                          else Logic_error ''cannot extend by given value'')"
proof -
  let ?n = "rns_size b" and ?ms = "rns_base b"
  note wb = wf_rnsD [OF b refl refl]
  show ?thesis
  proof (cases "modulus_isZero v")
    case False
    have ex: "list_ex (\<lambda>i. \<not> areCoprime (modulus_value (?ms ! i)) (modulus_value v)) [0..<?n] \<longleftrightarrow> \<not> good_moduli (?ms @ [v])"
      using good_moduli_snoc [OF wb(3) False v] wb(1) by (auto simp: list_ex_upt)
    have "?n \<le> (?n + 1) * (?n + 1)" by simp
    then have "?n + 1 < 18446744073709551616" using small by linarith
    then have a1: "add_safe uint64_t (int ?n) 1 = Inr (int (?n + 1))"
      by (intro add_safe_Inr_iff [THEN iffD2]) (simp_all add: wf_ctype_def in_type_def type_min_def type_max_def)
    have ext: "RNSBase_extend_value b v = (if \<not> good_moduli (?ms @ [v]) then Inl (Logic_error ''cannot extend by given value'')
      else rbind (RNSBase_initialize (empty_RNSBase\<lparr>rns_size := ?n + 1, rns_base := ?ms @ [v]\<rparr>))
        (\<lambda>(ok, newbase). if \<not> ok then Inl (Logic_error ''cannot extend by given value'') else Inr newbase))"
      unfolding RNSBase_extend_value_def ex a1 rbind_simps nat_int using False wb(1) by simp
    show ?thesis
      using False RNSBase_initialize_ok [of "?ms @ [v]" "?n + 1"] small wb(1) unfolding ext by auto
  qed (simp add: RNSBase_extend_value_def)
qed

text \<open>
  C23. Copying, extending by a modulus or by a base, and removing the last or a given modulus keep the invariant
  and give the base the operation names, and an extension is refused exactly when the result would not be a
  base.
\<close>

theorem RNSBase_operations_correct:
  assumes b: "wf_rns b" and o: "wf_rns c" and v: "modulus_isZero v \<or> wf_modulus v"
    and small: "(rns_size b + rns_size c) * (rns_size b + rns_size c) < 9223372036854775808"
  shows "copy_RNSBase b = b \<and>
    (if \<not> modulus_isZero v \<and> good_moduli (rns_base b @ [v])
     then \<exists>b'. RNSBase_extend_value b v = Inr b' \<and> wf_rns b' \<and> rns_base b' = rns_base b @ [v]
     else RNSBase_extend_value b v = Inl (if modulus_isZero v then Invalid_argument ''value cannot be zero''
                                          else Logic_error ''cannot extend by given value'')) \<and>
    (if good_moduli (rns_base b @ rns_base c)
     then \<exists>b'. RNSBase_extend b c = Inr b' \<and> wf_rns b' \<and> rns_base b' = rns_base b @ rns_base c
     else RNSBase_extend b c = Inl (Invalid_argument ''rnsbase is invalid'')) \<and>
    (if rns_size b = 1 then RNSBase_drop b = Inl (Logic_error ''cannot drop from base of size 1'')
     else \<exists>b'. RNSBase_drop b = Inr b' \<and> wf_rns b' \<and> rns_base b' = butlast (rns_base b)) \<and>
    (if rns_size b = 1 then RNSBase_drop_value b v = Some (Inl (Logic_error ''cannot drop from base of size 1''))
     else if \<not> contains b v then RNSBase_drop_value b v = Some (Inl (Logic_error ''base does not contain value''))
     else \<exists>b'. RNSBase_drop_value b v = Some (Inr b') \<and> wf_rns b' \<and>
       rns_base b' = filter (\<lambda>m. mod_value m \<noteq> mod_value v) (rns_base b))"
proof (intro conjI)
  let ?n = "rns_size b" and ?k = "rns_size c" and ?ms = "rns_base b"
  note wb = wf_rnsD [OF b refl refl] and wo = wf_rnsD [OF o refl refl]
  have "?n + ?k \<le> (?n + ?k) * (?n + ?k)" by simp
  then have nk: "?n + ?k < 9223372036854775808" using small by linarith
  have sq: "x * x < 9223372036854775808" if "x \<le> ?n + ?k" for x
    using mult_le_mono [OF that that] small by linarith
  have add: "add_safe uint64_t (int x) (int y) = Inr (int (x + y))" if "x + y \<le> ?n + ?k" for x y
    using that nk by (intro add_safe_Inr_iff [THEN iffD2]) (simp_all add: wf_ctype_def in_type_def type_min_def type_max_def)
  show "copy_RNSBase b = b" using wb by (simp add: copy_RNSBase_def Let_def setUint_def)
  have "(?n + 1) * (?n + 1) < 9223372036854775808" using sq [of "?n + 1"] wo(10) by simp
  then show "if \<not> modulus_isZero v \<and> good_moduli (?ms @ [v])
     then \<exists>b'. RNSBase_extend_value b v = Inr b' \<and> wf_rns b' \<and> rns_base b' = ?ms @ [v]
     else RNSBase_extend_value b v = Inl (if modulus_isZero v then Invalid_argument ''value cannot be zero''
                                          else Logic_error ''cannot extend by given value'')"
    by (rule RNSBase_extend_value_cases [OF b v])
  show "if good_moduli (?ms @ rns_base c)
     then \<exists>b'. RNSBase_extend b c = Inr b' \<and> wf_rns b' \<and> rns_base b' = ?ms @ rns_base c
     else RNSBase_extend b c = Inl (Invalid_argument ''rnsbase is invalid'')"
  proof -
    have ex: "list_ex (\<lambda>i. list_ex (\<lambda>j. \<not> areCoprime (modulus_value (rns_base c ! i)) (modulus_value (?ms ! j))) [0..<?n]) [0..<?k]
      \<longleftrightarrow> \<not> good_moduli (?ms @ rns_base c)"
      using good_moduli_append [OF wb(3) wo(3)] wb(1) wo(1) by (auto simp: list_ex_upt)
    have ext: "RNSBase_extend b c = (if \<not> good_moduli (?ms @ rns_base c) then Inl (Invalid_argument ''rnsbase is invalid'')
      else rbind (RNSBase_initialize (empty_RNSBase\<lparr>rns_size := ?n + ?k, rns_base := ?ms @ rns_base c\<rparr>))
        (\<lambda>(ok, newbase). if \<not> ok then Inl (Logic_error ''cannot extend by given base'') else Inr newbase))"
      unfolding RNSBase_extend_def ex add [OF order_refl] rbind_simps nat_int using wb(1) wo(1) by simp
    show ?thesis
      using RNSBase_initialize_ok [of "?ms @ rns_base c" "?n + ?k"] small wb(1) wo(1) unfolding ext by auto
  qed
  show "if ?n = 1 then RNSBase_drop b = Inl (Logic_error ''cannot drop from base of size 1'')
     else \<exists>b'. RNSBase_drop b = Inr b' \<and> wf_rns b' \<and> rns_base b' = butlast ?ms"
  proof (cases "?n = 1")
    case False
    then have "good_moduli (butlast ?ms)"
      using wb(1,3,10) by (cases ?ms rule: rev_cases) (auto simp: good_moduli_sorted sorted_wrt_append)
    then show ?thesis
      using False RNSBase_initialize_ok [of "butlast ?ms" "?n - 1"] sq [of "?n - 1"] wb(1)
      by (auto simp: RNSBase_drop_def butlast_conv_take)
  qed (simp add: RNSBase_drop_def)
  show "if ?n = 1 then RNSBase_drop_value b v = Some (Inl (Logic_error ''cannot drop from base of size 1''))
     else if \<not> contains b v then RNSBase_drop_value b v = Some (Inl (Logic_error ''base does not contain value''))
     else \<exists>b'. RNSBase_drop_value b v = Some (Inr b') \<and> wf_rns b' \<and>
       rns_base b' = filter (\<lambda>m. mod_value m \<noteq> mod_value v) ?ms"
  proof (cases "?n = 1 \<or> \<not> contains b v")
    case False
    let ?f = "filter (\<lambda>m. modulus_neq m v) ?ms"
    obtain m where "m \<in> set ?ms" "mod_value m = mod_value v"
      using False contains_iff [of b v] wb(1) by (auto simp: base_values_def)
    then have len: "length ?f = ?n - 1" using filter_neq_base [OF wb(3)] wb(1) by simp
    then have "good_moduli ?f"
      using False wb(1,3,10) by (auto simp: good_moduli_sorted sorted_wrt_filter simp flip: length_greater_0_conv)
    then show ?thesis
      using False RNSBase_initialize_ok [of ?f "?n - 1"] sq [of "?n - 1"] len wb(1) drop_loop_filter [of 0 ?ms "[]" v "?n - 1"]
      by (auto simp: RNSBase_drop_value_def modulus_neq_def modulus_eq_def)
  next
    case True
    then show ?thesis by (cases "?n = 1") (simp_all add: RNSBase_drop_value_def)
  qed
qed

theorem RNSBase_operations_correct_witness:
  "\<exists>b b'. new_RNSBase [modulus_17, modulus_97] = Inr b \<and> RNSBase_drop b = Inr b' \<and> rns_base b' = [modulus_17] \<and>
     RNSBase_extend b b = Inl (Invalid_argument ''rnsbase is invalid'')"
proof -
  obtain b where b: "new_RNSBase [modulus_17, modulus_97] = Inr b" "wf_rns b" "rns_base b = [modulus_17, modulus_97]" "rns_size b = 2"
    using base_17_97 by blast
  have "\<not> good_moduli [modulus_17, modulus_97, modulus_17, modulus_97]" by (auto simp: good_moduli_sorted modulus_17_def)
  with RNSBase_operations_correct [OF b(2) b(2), of modulus_17] wf_modulus_17 b show ?thesis by (auto split: if_splits)
qed
section \<open>Residues\<close>

lemma moduloUint_base:
  assumes "wf_rns b" "i < rns_size b" "xs \<noteq> []"
  shows "unat (moduloUint xs (rns_base b ! i)) = uval xs mod modn (rns_base b) i"
  by (rule moduloUint_value [OF wf_modulusD(1) [OF wf_rnsD(11) [OF assms(1) refl refl assms(2)]] assms(3)])

text \<open>The factor of a punctured product in the sum that \<open>compose\<close> forms.\<close>

definition crt_digit :: "RNSBase \<Rightarrow> u64 list \<Rightarrow> nat \<Rightarrow> nat" where
  "crt_digit b xs i = unat (xs ! i) * unat (mop_operand (rns_inv_punctured_prod_mod_base_array b ! i)) mod modn (rns_base b) i"

lemma compose_loop_value:
  assumes b: "wf_rns b" and n: "n = rns_size b" and ms: "ms = rns_base b"
  shows "i + k = n \<Longrightarrow> length v = n \<Longrightarrow> uval v < crt_prod (modn ms) n \<Longrightarrow>
    length (compose_loop b xs k i v) = n \<and>
    uval (compose_loop b xs k i v) =
      (uval v + (\<Sum>j\<in>{i..<n}. crt_punctured (modn ms) n j * crt_digit b xs j)) mod crt_prod (modn ms) n"
proof (induction k arbitrary: i v)
  case 0
  then show ?case by simp
next
  case (Suc k)
  let ?Q = "crt_prod (modn ms) n" and ?P = "crt_punctured (modn ms) n i" and ?c = "crt_digit b xs i"
  note w = wf_rnsD [OF b n ms]
  have i: "i < n" using Suc.prems(1) by simp
  note m = wf_modulusD [OF w(11) [OF i]]
  let ?t = "multiplyUintMod_operand (xs ! i) (rns_inv_punctured_prod_mod_base_array b ! i) (ms ! i)"
  have "operand_for (ms ! i) (rns_inv_punctured_prod_mod_base_array b ! i)"
    using w(9) [OF i] by (simp add: rns_inv_ok_def)
  then have t: "unat ?t = ?c" using multiplyUintMod_operand_value m(3) unfolding crt_digit_def ms by simp
  have lt: "?P * ?c < ?Q"
  proof -
    have "?c < modn ms i" using m(2) by (simp add: crt_digit_def ms)
    moreover have "0 < ?P" using crt_punctured_prod [OF i, of "modn ms"] crt_prod_pos [OF w(12)] by (cases ?P) auto
    ultimately show ?thesis unfolding crt_punctured_prod [OF i, symmetric] by simp
  qed
  define row where "row = multiplyUint_word (poly_slice n i (rns_punctured_prod_array b)) ?t n"
  have row: "length row = n" "uval row = ?P * ?c"
    using multiplyUint_word_value [of "poly_slice n i (rns_punctured_prod_array b)" ?t n] w(7) [OF i] lt
      crt_prod_words [OF w(10), of ms] by (simp_all add: row_def t)
  define v' where "v' = addUintUintMod row v (rns_base_prod b)"
  have ne: "rns_base_prod b \<noteq> []" using w(4,10) by auto
  have v': "length v' = n" "uval v' = (?P * ?c + uval v) mod ?Q"
    using addUintUintMod_value [of row "rns_base_prod b" v] row Suc.prems(2,3) w(4,5) ne lt by (simp_all add: v'_def)
  have step: "compose_loop b xs (Suc k) i v = compose_loop b xs k (i + 1) v'"
    using i by (simp add: Let_def v'_def row_def poly_slice_def mult.commute flip: n ms)
  have "length (compose_loop b xs k (i + 1) v') = n \<and> uval (compose_loop b xs k (i + 1) v') =
      (uval v' + (\<Sum>j\<in>{i + 1..<n}. crt_punctured (modn ms) n j * crt_digit b xs j)) mod ?Q"
    using Suc.IH [of "i + 1" v'] Suc.prems(1) v' crt_prod_pos [OF w(12)] by simp
  moreover have "(\<Sum>j\<in>{i..<n}. crt_punctured (modn ms) n j * crt_digit b xs j) =
      ?P * ?c + (\<Sum>j\<in>{i + 1..<n}. crt_punctured (modn ms) n j * crt_digit b xs j)"
    using i by (simp add: sum.atLeast_Suc_lessThan)
  ultimately show ?case unfolding step v' by (simp only: mod_add_left_eq) (simp only: ac_simps)
qed

lemma compose_row:
  assumes b: "wf_rns b" and n: "n = rns_size b" and ms: "ms = rns_base b"
  shows "length (compose_loop b xs n 0 (replicate n 0)) = n"
    "uval (compose_loop b xs n 0 (replicate n 0)) = crt_sum (modn ms) n (crt_digit b xs) mod crt_prod (modn ms) n"
  using compose_loop_value [OF assms, of 0 n "replicate n 0" xs] crt_prod_pos [OF wf_rnsD(12) [OF assms]]
  by (simp_all add: crt_sum_def atLeast0LessThan)

text \<open>Two numbers below the product with the residues \<open>xs\<close> agree: the row is the number with these residues.\<close>

lemma compose_row_residue:
  assumes b: "wf_rns b" and n: "n = rns_size b" and ms: "ms = rns_base b" and i: "i < n"
  shows "uval (compose_loop b xs n 0 (replicate n 0)) mod modn ms i = unat (xs ! i) mod modn ms i"
proof -
  note w = wf_rnsD [OF b n ms]
  let ?h = "\<lambda>i. unat (mop_operand (rns_inv_punctured_prod_mod_base_array b ! i))"
  have h: "crt_punctured (modn ms) n i * ?h i mod modn ms i = 1" using w(9) [OF i] by (simp add: rns_inv_ok_def)
  have "crt_sum (modn ms) n (crt_digit b xs) mod modn ms i = unat (xs ! i) mod modn ms i"
    by (rule crt_sum_residue [where h = ?h and x = "\<lambda>i. unat (xs ! i)", OF i h]) (simp add: crt_digit_def ms)
  then show ?thesis
    unfolding compose_row [OF b n ms] using crt_prod_dvd [OF i, of "modn ms"] by (simp add: mod_mod_cancel)
qed

lemma compose_row_inverse:
  assumes b: "wf_rns b" and n: "n = rns_size b" and ms: "ms = rns_base b"
    and v: "length v = n" "uval v < crt_prod (modn ms) n" and xs: "\<And>i. i < n \<Longrightarrow> unat (xs ! i) = uval v mod modn ms i"
  shows "compose_loop b xs n 0 (replicate n 0) = v"
proof (rule uval_inj)
  note w = wf_rnsD [OF b n ms]
  show "length (compose_loop b xs n 0 (replicate n 0)) = length v" using compose_row(1) [OF b n ms] v(1) by simp
  show "uval (compose_loop b xs n 0 (replicate n 0)) = uval v"
  proof (rule crt_unique [OF w(12)])
    show "uval (compose_loop b xs n 0 (replicate n 0)) < crt_prod (modn ms) n"
      unfolding compose_row [OF b n ms] using crt_prod_pos [OF w(12)] by simp
    show "uval (compose_loop b xs n 0 (replicate n 0)) mod modn ms i = uval v mod modn ms i" if "i < n" for i
      using compose_row_residue [OF b n ms that] xs [OF that] by simp
  qed (rule v(2))
qed

lemma single_row:
  assumes "length xs = 1" shows "xs = [xs ! 0]" "uval xs = unat (xs ! 0)"
  using assms by (auto simp: length_Suc_conv)

lemma decompose_value:
  assumes b: "wf_rns b" and v: "length v = rns_size b" "uval v < crt_prod (modn (rns_base b)) (rns_size b)"
  shows "\<exists>xs. decompose b (Some v) = Inr xs \<and> length xs = rns_size b \<and> (\<forall>i<rns_size b. unat (xs ! i) = uval v mod modn (rns_base b) i)"
proof (cases "rns_size b > 1")
  case True
  then have "v \<noteq> []" using v(1) by auto
  then show ?thesis
    using True v(1) moduloUint_base [OF b] by (simp add: decompose_def setUint_def coeff_loop_map)
next
  case False
  then have n1: "rns_size b = 1" using wf_rnsD(10) [OF b refl refl] by simp
  then show ?thesis using v single_row [of v] by (simp add: decompose_def crt_prod_def)
qed

lemma compose_value:
  assumes b: "wf_rns b" and xs: "length xs = rns_size b" "\<forall>i<rns_size b. unat (xs ! i) < modn (rns_base b) i"
  shows "\<exists>v. compose b (Some xs) = Inr v \<and> length v = rns_size b \<and> uval v < crt_prod (modn (rns_base b)) (rns_size b) \<and>
    (\<forall>i<rns_size b. uval v mod modn (rns_base b) i = unat (xs ! i))"
proof (cases "rns_size b > 1")
  case True
  then show ?thesis
    using xs compose_row [OF b refl refl, of xs] compose_row_residue [OF b refl refl, of _ xs]
      crt_prod_pos [OF wf_rnsD(12) [OF b refl refl]]
    by (simp add: compose_def setUint_def setZeroUint_def Let_def)
next
  case False
  then have n1: "rns_size b = 1" using wf_rnsD(10) [OF b refl refl] by simp
  then show ?thesis using xs single_row [of xs] by (simp add: compose_def crt_prod_def)
qed

text \<open>
  C21. The residues of a number below the product determine it: \<open>decompose\<close> gives its residues and \<open>compose\<close>
  recovers it, and \<open>compose\<close> gives the one number below the product that has given residues. A null pointer is refused.
\<close>

theorem compose_decompose:
  assumes b: "wf_rns b" and v: "length v = rns_size b" "uval v < crt_prod (modn (rns_base b)) (rns_size b)"
    and xs: "length xs = rns_size b" "\<forall>i<rns_size b. unat (xs ! i) < modn (rns_base b) i"
  shows "rbind (decompose b (Some v)) (\<lambda>r. compose b (Some r)) = Inr v \<and>
    rbind (compose b (Some xs)) (\<lambda>r. decompose b (Some r)) = Inr xs \<and>
    (\<forall>i<rns_size b. \<exists>r. decompose b (Some v) = Inr r \<and> unat (r ! i) = uval v mod modn (rns_base b) i) \<and>
    decompose b None = Inl (Invalid_argument ''value cannot be null'') \<and>
    compose b None = Inl (Invalid_argument ''value cannot be null'')"
proof (intro conjI allI impI)
  note m = wf_rnsD(11,12) [OF b refl refl]
  obtain r where r: "decompose b (Some v) = Inr r" "length r = rns_size b"
      "\<forall>i<rns_size b. unat (r ! i) = uval v mod modn (rns_base b) i"
    using decompose_value [OF b v] by blast
  have lt: "uval v mod modn (rns_base b) i < modn (rns_base b) i" if "i < rns_size b" for i
    using wf_modulusD(2) [OF m(1) [OF that]] by simp
  obtain v' where v': "compose b (Some r) = Inr v'" "length v' = rns_size b" "uval v' < crt_prod (modn (rns_base b)) (rns_size b)"
      "\<forall>i<rns_size b. uval v' mod modn (rns_base b) i = unat (r ! i)"
    using compose_value [OF b r(2)] r(3) lt by auto
  have "uval v' = uval v" by (rule crt_unique [OF m(2) v'(3) v(2)]) (use v'(4) r(3) in simp)
  then have "v' = v" using uval_inj v'(2) v(1) by simp
  then show "rbind (decompose b (Some v)) (\<lambda>r. compose b (Some r)) = Inr v" using r(1) v'(1) by simp
  obtain u where u: "compose b (Some xs) = Inr u" "length u = rns_size b" "uval u < crt_prod (modn (rns_base b)) (rns_size b)"
      "\<forall>i<rns_size b. uval u mod modn (rns_base b) i = unat (xs ! i)"
    using compose_value [OF b xs] by blast
  obtain ys where ys: "decompose b (Some u) = Inr ys" "length ys = rns_size b"
      "\<forall>i<rns_size b. unat (ys ! i) = uval u mod modn (rns_base b) i"
    using decompose_value [OF b u(2,3)] by blast
  have "ys = xs" by (rule nth_equalityI) (use ys(2,3) u(4) xs(1) in \<open>simp_all add: word_unat_eq_iff\<close>)
  then show "rbind (compose b (Some xs)) (\<lambda>r. decompose b (Some r)) = Inr xs" using u(1) ys(1) by simp
  show "\<exists>r. decompose b (Some v) = Inr r \<and> unat (r ! i) = uval v mod modn (rns_base b) i" if "i < rns_size b" for i
    using r that by blast
  show "decompose b None = Inl (Invalid_argument ''value cannot be null'')"
    "compose b None = Inl (Invalid_argument ''value cannot be null'')"
    by (simp_all add: decompose_def compose_def)
qed

theorem compose_decompose_witness:
  "\<exists>b. new_RNSBase [modulus_17, modulus_97] = Inr b \<and>
     rbind (decompose b (Some [1000, 0])) (\<lambda>r. compose b (Some r)) = Inr [1000, 0]"
proof -
  obtain b where b: "new_RNSBase [modulus_17, modulus_97] = Inr b" "wf_rns b" "rns_base b = [modulus_17, modulus_97]" "rns_size b = 2"
    using base_17_97 by blast
  have "crt_prod (modn [modulus_17, modulus_97]) 2 = 1649"
    by (simp add: crt_prod_2 modulus_17_def modulus_97_def)
  with compose_decompose [OF b(2), of "[1000, 0]" "[3, 4]"] b show ?thesis
    by (simp add: less_2_cases_iff modulus_17_def modulus_97_def)
qed
section \<open>Arrays of numbers\<close>

lemma slice_at: "length xs = d * n \<Longrightarrow> j < n \<Longrightarrow> k < d \<Longrightarrow> xs ! (j * d + k) = poly_slice d j xs ! k"
  using nth_slice [of xs d n j k] by (simp add: mult.commute)

lemma slice_replicate: "j < n \<Longrightarrow> poly_slice d j (replicate (d * n) x) = replicate d x"
  using slice_end [of j n d] by (simp add: poly_slice_def min_def)

lemma decomposeArray_value:
  assumes b: "wf_rns b" and n: "n = rns_size b" "1 < n" and fits: "count * n < 9223372036854775808" "count < 18446744073709551616"
    and v: "length v = count * n"
  shows "\<exists>r. decomposeArray b (Some v) count = Inr r \<and> length r = count * n \<and>
    (\<forall>i<n. \<forall>j<count. unat (r ! (i * count + j)) = uval (poly_slice n j v) mod modn (rns_base b) i)"
proof -
  let ?row = "\<lambda>i. map (\<lambda>j. moduloUint (take n (drop (j * n) v)) (rns_base b ! i)) [0..<count]"
  let ?f = "\<lambda>i. coeff_loop (\<lambda>j. moduloUint (take n (drop (j * n) v)) (rns_base b ! i)) count 0"
  let ?r = "parts_loop ?f count n 0 v"
  have "n \<le> n * n" by simp
  then have "n < 9223372036854775808" using wf_rnsD(2) [OF b n(1) refl] by linarith
  then have fit: "productFitsIn uint64_t (int count) (int n) = Inr True"
    using product_fits [OF fits(2), of n] fits(1) by simp
  have r: "decomposeArray b (Some v) count = Inr ?r"
    using n fit v by (simp add: decomposeArray_def setUint_def Let_def)
  have f: "?f i ys = ?row i" if "length ys = count" for i ys by (rule coeff_loop_map [OF that])
  have s: "length ?r = count * n \<and> (\<forall>i<n. poly_slice count i ?r = ?f i (poly_slice count i v))"
    using parts_loop_slices [of n count ?f v 0 n] f v by simp
  have "unat (?r ! (i * count + j)) = uval (poly_slice n j v) mod modn (rns_base b) i" if i: "i < n" and j: "j < count" for i j
  proof -
    have "?r ! (i * count + j) = ?row i ! j"
      using s slice_at [of ?r count n i j] f [OF length_slice [OF v i]] i j by simp
    also have "\<dots> = moduloUint (poly_slice n j v) (rns_base b ! i)"
      using j by (simp add: poly_slice_def mult.commute)
    finally have at: "?r ! (i * count + j) = moduloUint (poly_slice n j v) (rns_base b ! i)" .
    have "poly_slice n j v \<noteq> []" using length_slice [of v n count j] v j n(2) by (auto simp: mult.commute)
    then show ?thesis using moduloUint_base [OF b, of i "poly_slice n j v"] i n(1) unfolding at by simp
  qed
  then show ?thesis using r s by blast
qed

lemma length_addUintUintMod:
  assumes "length xs = length m" "length ys = length m" "m \<noteq> []"
  shows "length (addUintUintMod xs ys m) = length m"
proof -
  obtain c r where r: "addUint xs ys = (c, r)" by fastforce
  have "xs \<noteq> []" using assms by auto
  then have len: "length r = length m" using addUint_value(1) [OF r _ \<open>xs \<noteq> []\<close>] assms by simp
  obtain c' d where d: "subUint r m = (c', d)" by fastforce
  have "r \<noteq> []" using len assms(3) by auto
  from subUint_value(1) [OF d len this] show ?thesis unfolding addUintUintMod_def r using len by (simp add: d)
qed

lemma length_compose_loop:
  assumes "wf_rns b" "n = rns_size b"
  shows "length v = n \<Longrightarrow> length (compose_loop b xs k i v) = n"
proof (induction k arbitrary: i v)
  case (Suc k)
  have "rns_base_prod b \<noteq> []" "length (rns_base_prod b) = n" using wf_rnsD(4,10) [OF assms(1,2) refl] by auto
  then show ?case
    using Suc.prems length_addUintUintMod multiplyUint_word_value by (simp add: Let_def Suc.IH flip: assms(2))
qed simp

lemma composeArray_value:
  assumes b: "wf_rns b" and n: "n = rns_size b" "1 < n" and fits: "count * n < 9223372036854775808" "count < 18446744073709551616"
    and r: "length r = count * n"
  shows "\<exists>v. composeArray b (Some r) count = Inr v \<and> length v = count * n \<and>
    (\<forall>j<count. poly_slice n j v = compose_loop b (map (\<lambda>i. r ! (i * count + j)) [0..<n]) n 0 (replicate n 0))"
proof -
  let ?row = "\<lambda>j. map (\<lambda>i. r ! (i * count + j)) [0..<n]"
  let ?g = "\<lambda>j. coeff_loop (\<lambda>i. r ! (i * count + j)) n 0"
  let ?t = "parts_loop ?g n count 0 (replicate (n * count) 0)"
  let ?f = "\<lambda>j. compose_loop b (take n (drop (j * n) ?t)) n 0"
  let ?v = "parts_loop ?f n count 0 (replicate (n * count) 0)"
  have "n \<le> n * n" by simp
  then have "n < 9223372036854775808" using wf_rnsD(2) [OF b n(1) refl] by linarith
  then have fit: "productFitsIn uint64_t (int count) (int n) = Inr True"
    using product_fits [OF fits(2), of n] fits(1) by simp
  have v: "composeArray b (Some r) count = Inr ?v"
    using n fit r by (simp add: composeArray_def setZeroUint_def Let_def mult.commute)
  have g: "?g j ys = ?row j" if "length ys = n" for j ys by (rule coeff_loop_map [OF that])
  have t: "length ?t = n * count \<and> (\<forall>j<count. poly_slice n j ?t = ?g j (poly_slice n j (replicate (n * count) 0)))"
    using parts_loop_slices [of count n ?g "replicate (n * count) 0" 0 count] g by simp
  have row: "take n (drop (j * n) ?t) = ?row j" if "j < count" for j
    using t g [of "replicate n 0" j] that by (simp add: slice_replicate) (simp add: poly_slice_def mult.commute)
  have s: "length ?v = n * count \<and> (\<forall>j<count. poly_slice n j ?v = ?f j (poly_slice n j (replicate (n * count) 0)))"
    using parts_loop_slices [of count n ?f "replicate (n * count) 0" 0 count] length_compose_loop [OF b n(1)] by simp
  have "poly_slice n j ?v = compose_loop b (?row j) n 0 (replicate n 0)" if "j < count" for j
    using s that row [OF that] by (simp add: slice_replicate)
  then show ?thesis using v s by (auto simp: mult.commute)
qed

text \<open>
  On an array of numbers \<open>decomposeArray\<close> gives the residues of all of them modulus by modulus, and
  \<open>composeArray\<close> puts the numbers together again; the arrays whose size does not fit are refused.
\<close>

theorem composeArray_decomposeArray:
  assumes b: "wf_rns b" and count: "count < 18446744073709551616" and v: "length v = count * rns_size b"
    and lt: "\<forall>j<count. uval (poly_slice (rns_size b) j v) < crt_prod (modn (rns_base b)) (rns_size b)"
  shows "if rns_size b > 1 \<and> count * rns_size b \<ge> 9223372036854775808
    then \<exists>msg. decomposeArray b (Some v) count = Inl (Logic_error msg) \<and> composeArray b (Some v) count = Inl (Logic_error msg)
    else \<exists>r. decomposeArray b (Some v) count = Inr r \<and> length r = count * rns_size b \<and>
      (\<forall>i<rns_size b. \<forall>j<count. unat (r ! (i * count + j)) = uval (poly_slice (rns_size b) j v) mod modn (rns_base b) i) \<and>
      composeArray b (Some r) count = Inr v"
proof -
  define n where "n = rns_size b"
  note w = wf_rnsD [OF b n_def refl]
  have "n \<le> n * n" by simp
  then have n64: "n < 18446744073709551616" using w(2) by linarith
  consider "n > 1" "count * n \<ge> 9223372036854775808" | "n > 1" "count * n < 9223372036854775808" | "n = 1" using w(10) by linarith
  then show ?thesis
  proof cases
    case 1
    then show ?thesis
      using product_fits [OF count n64] by (auto simp: decomposeArray_def composeArray_def simp flip: n_def)
  next
    case 2
    obtain r where r: "decomposeArray b (Some v) count = Inr r" "length r = count * n"
        "\<forall>i<n. \<forall>j<count. unat (r ! (i * count + j)) = uval (poly_slice n j v) mod modn (rns_base b) i"
      using decomposeArray_value [OF b n_def 2 count] v unfolding n_def by blast
    obtain v' where v': "composeArray b (Some r) count = Inr v'" "length v' = count * n"
        "\<forall>j<count. poly_slice n j v' = compose_loop b (map (\<lambda>i. r ! (i * count + j)) [0..<n]) n 0 (replicate n 0)"
      using composeArray_value [OF b n_def 2 count r(2)] by blast
    have "v' = v"
    proof (rule slices_eq)
      show len: "length v' = n * count" "length v = n * count" using v' v by (simp_all add: n_def mult.commute)
      show "poly_slice n j v' = poly_slice n j v" if j: "j < count" for j
      proof -
        have "compose_loop b (map (\<lambda>i. r ! (i * count + j)) [0..<n]) n 0 (replicate n 0) = poly_slice n j v"
          by (rule compose_row_inverse [OF b n_def refl length_slice [OF len(2) j]]) (use lt r(3) j in \<open>simp_all add: n_def\<close>)
        then show ?thesis using v'(3) j by simp
      qed
    qed
    then show ?thesis using r v'(1) 2 by (auto simp flip: n_def)
  next
    case 3
    have "unat (v ! j) = uval (poly_slice 1 j v) mod modn (rns_base b) 0" if "j < count" for j
    proof -
      have "length (poly_slice 1 j v) = 1" by (rule length_slice [of v 1 count]) (use v that 3 in \<open>simp_all add: n_def\<close>)
      moreover have "v ! j = poly_slice 1 j v ! 0" using slice_at [of v 1 count j 0] v that 3 by (simp add: n_def)
      ultimately have "uval (poly_slice 1 j v) = unat (v ! j)" using single_row(2) [of "poly_slice 1 j v"] by simp
      moreover have "uval (poly_slice 1 j v) < modn (rns_base b) 0" using lt that 3 by (simp add: crt_prod_def flip: n_def)
      ultimately show ?thesis by simp
    qed
    then show ?thesis using 3 v by (simp add: decomposeArray_def composeArray_def flip: n_def)
  qed
qed

theorem composeArray_decomposeArray_witness:
  "\<exists>b r. new_RNSBase [modulus_17, modulus_97] = Inr b \<and> decomposeArray b (Some [1000, 0, 20, 0, 96, 0]) 3 = Inr r \<and>
     composeArray b (Some r) 3 = Inr [1000, 0, 20, 0, 96, 0]"
proof -
  obtain b where b: "new_RNSBase [modulus_17, modulus_97] = Inr b" "wf_rns b" "rns_base b = [modulus_17, modulus_97]" "rns_size b = 2"
    using base_17_97 by blast
  have "crt_prod (modn [modulus_17, modulus_97]) 2 = 1649"
    by (simp add: crt_prod_2 modulus_17_def modulus_97_def)
  then have "\<forall>j<3. uval (poly_slice (rns_size b) j [1000, 0, 20, 0, 96, 0]) < crt_prod (modn (rns_base b)) (rns_size b)"
    by (simp add: b poly_slice_def numeral_3_eq_3 less_Suc_eq)
  with composeArray_decomposeArray [OF b(2), of 3 "[1000, 0, 20, 0, 96, 0]"] b show ?thesis by auto
qed

end
