(* ===== verification/Binary64.thy ===== *)
theory Binary64
  imports Complex_Main Heu_Prelude
begin

text \<open>
  The arithmetic of non-negative \<open>double\<close> numbers that the exact base conversion of \<open>utils/rns.cpp\<close> (in
  \<open>heu/library/algorithms/seal_gpu/\<close>) uses: the conversion from words, division and addition in the format binary64 of
  IEEE 754, rounded to nearest with ties to even, and the truncation to a word. A number is the rational number it stands for.
  The exponents are not bounded: the numbers that occur are zero or between \<open>2 ^ (- 62)\<close> and \<open>2 ^ 64\<close>, so neither an overflow
  nor a subnormal number occurs. Expressions are evaluated in the type \<open>double\<close>, as on x86-64, where \<open>double_t\<close> is \<open>double\<close>.
\<close>

section \<open>Rounding\<close>

definition nearest_even :: "rat \<Rightarrow> int" where
  "nearest_even x =
     (let f = \<lfloor>x\<rfloor>; d = x - of_int f
      in if d < 1 / 2 then f else if d > 1 / 2 then f + 1 else if even f then f else f + 1)"

text \<open>The exponent \<open>e\<close> with \<open>2 ^ e \<le> x < 2 ^ (e + 1)\<close>.\<close>

definition binary_exponent :: "rat \<Rightarrow> int" where
  "binary_exponent x =
     (let (a, b) = quotient_of x; k = int (nbits (nat a)) - int (nbits (nat b))
      in if power_int 2 k \<le> x then k else k - 1)"

text \<open>A significand of 53 bits.\<close>

definition binary64 :: "rat \<Rightarrow> rat" where
  "binary64 x =
     (if x = 0 then 0
      else let ulp = power_int 2 (binary_exponent x - 52) in of_int (nearest_even (x / ulp)) * ulp)"

definition double_of_u64 :: "u64 \<Rightarrow> rat" where "double_of_u64 x = binary64 (of_nat (unat x))"
definition double_div :: "rat \<Rightarrow> rat \<Rightarrow> rat" where "double_div x y = binary64 (x / y)"
definition double_add :: "rat \<Rightarrow> rat \<Rightarrow> rat" where "double_add x y = binary64 (x + y)"
definition u64_of_double :: "rat \<Rightarrow> u64" where "u64_of_double x = word_of_int \<lfloor>x\<rfloor>"

section \<open>The error of one rounding\<close>

lemma nearest_even_error: "\<bar>of_int (nearest_even x) - x\<bar> \<le> 1 / 2"
proof -
  define f where "f = \<lfloor>x\<rfloor>"
  have "of_int f \<le> x" "x < of_int f + 1" using floor_correct [of x] by (simp_all add: f_def)
  then show ?thesis unfolding nearest_even_def Let_def f_def [symmetric] by (auto simp: abs_if)
qed

lemma nearest_even_nonneg: "0 \<le> x \<Longrightarrow> 0 \<le> nearest_even x"
  by (auto simp: nearest_even_def Let_def)

lemma nbits_rat:
  assumes "0 < (a :: nat)"
  shows "power_int 2 (int (nbits a) - 1) \<le> (of_nat a :: rat)" "(of_nat a :: rat) < power_int 2 (int (nbits a))"
proof -
  obtain k where k: "nbits a = Suc k" using assms nbits_pos_iff [of a] by (cases "nbits a") auto
  have "2 ^ k \<le> a" "a < 2 ^ Suc k" using exp_nbits_le [OF assms] less_exp_nbits [of a] by (simp_all add: k)
  then have "of_nat (2 ^ k) \<le> (of_nat a :: rat)" "(of_nat a :: rat) < of_nat (2 ^ Suc k)" by (simp_all only: of_nat_le_iff of_nat_less_iff)
  then show "power_int 2 (int (nbits a) - 1) \<le> (of_nat a :: rat)" "(of_nat a :: rat) < power_int 2 (int (nbits a))"
    by (simp_all add: k power_int_add)
qed

lemma binary_exponent_bounds:
  assumes "0 < x"
  shows "power_int 2 (binary_exponent x) \<le> x" "x < power_int 2 (binary_exponent x + 1)"
proof -
  obtain a b where q: "quotient_of x = (a, b)" by fastforce
  have b: "0 < b" and x: "x = of_int a / of_int b"
    using quotient_of_denom_pos [OF q] quotient_of_div [OF q] by simp_all
  have a: "0 < a" using assms b by (simp add: x zero_less_divide_iff)
  define m n where "m = nat a" and "n = nat b"
  have ab: "of_int a = (of_nat m :: rat)" "of_int b = (of_nat n :: rat)" "0 < m" "0 < n"
    using a b by (simp_all add: m_def n_def)
  let ?k = "int (nbits m) - int (nbits n)"
  note bm = nbits_rat [OF ab(3)] and bn = nbits_rat [OF ab(4)]
  have pos: "0 < (power_int 2 i :: rat)" for i by simp
  have lower: "power_int 2 (?k - 1) < x"
  proof -
    have "power_int 2 (?k - 1) * (of_nat n :: rat) < power_int 2 (?k - 1) * power_int 2 (int (nbits n))"
      using bn(2) pos by (intro mult_strict_left_mono) simp_all
    also have "\<dots> = power_int 2 (int (nbits m) - 1)" by (subst power_int_add [symmetric]) simp_all
    also have "\<dots> \<le> of_nat m" by (rule bm(1))
    finally show ?thesis using ab(4) by (simp add: x ab(1,2) pos_less_divide_eq)
  qed
  have upper: "x < power_int 2 (?k + 1)"
  proof -
    have "(of_nat m :: rat) < power_int 2 (int (nbits m))" by (rule bm(2))
    also have "\<dots> = power_int 2 (?k + 1) * power_int 2 (int (nbits n) - 1)" by (subst power_int_add [symmetric]) simp_all
    also have "\<dots> \<le> power_int 2 (?k + 1) * of_nat n" using bn(1) by (intro mult_left_mono) simp_all
    finally show ?thesis using ab(4) by (simp add: x ab(1,2) pos_divide_less_eq)
  qed
  have e: "binary_exponent x = (if power_int 2 ?k \<le> x then ?k else ?k - 1)"
    by (simp add: binary_exponent_def q m_def n_def Let_def)
  show "power_int 2 (binary_exponent x) \<le> x" "x < power_int 2 (binary_exponent x + 1)"
    using lower upper by (auto simp: e)
qed

text \<open>The relative error is at most \<open>2 ^ (- 53)\<close>.\<close>

definition half_ulp :: rat where "half_ulp = 1 / 9007199254740992"

lemma binary64_error:
  assumes "0 \<le> x"
  shows "0 \<le> binary64 x" "\<bar>binary64 x - x\<bar> \<le> half_ulp * x"
proof -
  let ?e = "binary_exponent x" and ?u = "power_int 2 (binary_exponent x - 52) :: rat"
  have u: "0 < ?u" by simp
  show "0 \<le> binary64 x"
    using nearest_even_nonneg [of "x / ?u"] assms u by (simp add: binary64_def Let_def)
  show "\<bar>binary64 x - x\<bar> \<le> half_ulp * x"
  proof (cases "x = 0")
    case False
    then have x: "0 < x" using assms by simp
    have "binary64 x - x = (of_int (nearest_even (x / ?u)) - x / ?u) * ?u"
      using False u by (simp add: binary64_def Let_def left_diff_distrib)
    then have "\<bar>binary64 x - x\<bar> = \<bar>of_int (nearest_even (x / ?u)) - x / ?u\<bar> * ?u" using u by (simp add: abs_mult)
    also have "\<dots> \<le> 1 / 2 * ?u" using nearest_even_error u by (intro mult_right_mono) simp_all
    also have "?u = power_int 2 ?e / 4503599627370496" by (simp add: power_int_diff)
    also have "1 / 2 * (power_int 2 ?e / 4503599627370496) \<le> half_ulp * x"
      using binary_exponent_bounds(1) [OF x] by (simp add: half_ulp_def)
    finally show ?thesis .
  qed (simp add: binary64_def)
qed

section \<open>The rounded sum of quotients\<close>

text \<open>
  The quotients of the pairs, added from left to right, and one half, truncated: the loop over \<open>aggregated_v\<close> with the
  divisions that fill \<open>v\<close>.
\<close>

definition add_quotient :: "u64 \<times> u64 \<Rightarrow> rat \<Rightarrow> rat" where
  "add_quotient p aggregated_v = double_add aggregated_v (double_div (double_of_u64 (fst p)) (double_of_u64 (snd p)))"

definition round_sum :: "(u64 \<times> u64) list \<Rightarrow> u64" where
  "round_sum ps = u64_of_double (double_add (fold add_quotient ps 0) (1 / 2))"

lemma quotient_error:
  assumes "x < m"
  shows "0 \<le> double_div (double_of_u64 x) (double_of_u64 m)"
    "\<bar>double_div (double_of_u64 x) (double_of_u64 m) - of_nat (unat x) / of_nat (unat m)\<bar> \<le> 4 * half_ulp"
proof -
  define a b X M :: rat where "a = double_of_u64 x" "b = double_of_u64 m" "X = of_nat (unat x)" "M = of_nat (unat m)"
  note d = this
  have xm: "unat x < unat m" using assms by (simp add: word_less_nat_alt)
  have M: "1 \<le> M" "X \<le> M" "0 \<le> X"
    using of_nat_0_le_iff [of "unat x", where 'a = rat] xm of_nat_le_iff [of 1 "unat m", where 'a = rat] of_nat_le_iff [of "unat x" "unat m", where 'a = rat]
    unfolding d(3,4) by (simp_all del: of_nat_le_iff)
  have h: "0 < half_ulp" "half_ulp \<le> 1 / 1000" by (simp_all add: half_ulp_def)
  have a: "0 \<le> a" "\<bar>a - X\<bar> \<le> half_ulp * X" and b: "\<bar>b - M\<bar> \<le> half_ulp * M"
    using binary64_error [OF M(3)] binary64_error [of M] M by (simp_all add: d double_of_u64_def)
  have hM: "half_ulp * M \<le> 1 / 1000 * M" using h(2) M(1) by (intro mult_right_mono) simp_all
  have b1: "999 / 1000 * M \<le> b" using b hM by linarith
  then have b0: "0 < b" using M(1) by linarith
  define r where "r = X / M"
  have r: "0 \<le> r" "r \<le> 1" "X = r * M" using M by (simp_all add: r_def)
  have "a - r * b = (a - X) + r * (M - b)" by (simp add: r(3) algebra_simps)
  then have "\<bar>a - r * b\<bar> \<le> \<bar>a - X\<bar> + r * \<bar>b - M\<bar>"
    using abs_triangle_ineq [of "a - X" "r * (M - b)"] r(1) by (simp add: abs_mult abs_minus_commute)
  also have "r * \<bar>b - M\<bar> \<le> r * (half_ulp * M)" using b r(1) by (intro mult_left_mono)
  also have "\<bar>a - X\<bar> + r * (half_ulp * M) \<le> 2 * half_ulp * (r * M)" using a(2) by (simp add: r(3) algebra_simps)
  also have "\<dots> \<le> 2 * half_ulp * M"
    using r(2) M(1) h(1) by (intro mult_left_mono) (simp_all add: mult_left_le_one_le)
  also have "\<dots> \<le> 5 / 2 * half_ulp * b"
  proof -
    have "half_ulp * (4 / 5 * M) \<le> half_ulp * b" using b1 M(1) h(1) by (intro mult_left_mono) linarith+
    then show ?thesis by simp
  qed
  finally have "\<bar>a - r * b\<bar> \<le> 5 / 2 * half_ulp * b" by simp
  moreover have "a / b - r = (a - r * b) / b" using b0 by (simp add: field_simps)
  ultimately have q: "\<bar>a / b - r\<bar> \<le> 5 / 2 * half_ulp" using b0 by (simp add: abs_divide pos_divide_le_eq)
  have q0: "0 \<le> a / b" using a(1) b0 by simp
  have "half_ulp * (a / b) \<le> half_ulp * (3 / 2)" using q r(2) h by (intro mult_left_mono) linarith+
  then have "\<bar>binary64 (a / b) - r\<bar> \<le> 4 * half_ulp" using binary64_error(2) [OF q0] q by linarith
  then show "\<bar>double_div (double_of_u64 x) (double_of_u64 m) - of_nat (unat x) / of_nat (unat m)\<bar> \<le> 4 * half_ulp"
    unfolding double_div_def d(1,2) [symmetric] d(3,4) [symmetric] r_def .
  show "0 \<le> double_div (double_of_u64 x) (double_of_u64 m)"
    unfolding double_div_def d(1,2) [symmetric] by (rule binary64_error(1) [OF q0])
qed

lemma quotient_le_one:
  assumes "(x :: u64) < m"
  shows "0 \<le> (of_nat (unat x) / of_nat (unat m) :: rat)" "(of_nat (unat x) / of_nat (unat m) :: rat) \<le> 1"
proof -
  have "unat x < unat m" using assms by (simp add: word_less_nat_alt)
  moreover have "(0 :: rat) \<le> of_nat i / of_nat j \<and> (of_nat i / of_nat j :: rat) \<le> 1" if "i < j" for i j
    using that by (simp add: divide_le_eq_1)
  ultimately show "0 \<le> (of_nat (unat x) / of_nat (unat m) :: rat)" "(of_nat (unat x) / of_nat (unat m) :: rat) \<le> 1" by blast+
qed

definition quotient_sum :: "(u64 \<times> u64) list \<Rightarrow> rat" where
  "quotient_sum ps = (\<Sum>p\<leftarrow>ps. of_nat (unat (fst p)) / of_nat (unat (snd p)))"

text \<open>Each addition brings at most \<open>72\<close> halves of a unit in the last place of one.\<close>

lemma sum_error:
  assumes "\<forall>p\<in>set ps. fst p < snd p" "k + length ps \<le> 64"
    and "0 \<le> s" "s \<le> of_nat k" "0 \<le> a" "\<bar>a - s\<bar> \<le> of_nat k * (72 * half_ulp)"
  shows "0 \<le> fold add_quotient ps a" "quotient_sum ps + s \<le> of_nat (k + length ps)"
    "\<bar>fold add_quotient ps a - (s + quotient_sum ps)\<bar> \<le> of_nat (k + length ps) * (72 * half_ulp)"
proof -
  have "0 \<le> fold add_quotient ps a \<and> quotient_sum ps + s \<le> of_nat (k + length ps) \<and>
    \<bar>fold add_quotient ps a - (s + quotient_sum ps)\<bar> \<le> of_nat (k + length ps) * (72 * half_ulp)"
    using assms
  proof (induction ps arbitrary: k s a)
    case (Cons p ps)
    define q r where "q = double_div (double_of_u64 (fst p)) (double_of_u64 (snd p))"
      and "r = (of_nat (unat (fst p)) / of_nat (unat (snd p)) :: rat)"
    have lt: "fst p < snd p" using Cons.prems(1) by simp
    have q: "0 \<le> q" "\<bar>q - r\<bar> \<le> 4 * half_ulp" using quotient_error [OF lt] by (simp_all add: q_def r_def)
    have r: "0 \<le> r" "r \<le> 1" using quotient_le_one [OF lt] by (simp_all only: r_def)
    have k: "(of_nat k :: rat) \<le> 63" using Cons.prems(2) of_nat_le_iff [of k 63, where 'a = rat] by simp
    have ah: "0 < half_ulp" "half_ulp \<le> 1 / 100000" by (simp_all add: half_ulp_def)
    have "of_nat k * (72 * half_ulp) \<le> 63 * (72 * half_ulp)" using k ah by (intro mult_right_mono) simp_all
    then have "a \<le> 64" using Cons.prems(4,6) k ah by linarith
    then have s67: "a + q \<le> 67" "0 \<le> a + q" using q r ah Cons.prems(5) by linarith+
    have b: "0 \<le> add_quotient p a" "\<bar>add_quotient p a - (a + q)\<bar> \<le> half_ulp * (a + q)"
      using binary64_error [OF s67(2)] by (simp_all add: add_quotient_def double_add_def q_def)
    have "half_ulp * (a + q) \<le> half_ulp * 67" using s67(1) ah by (intro mult_left_mono) simp_all
    then have e: "\<bar>add_quotient p a - (s + r)\<bar> \<le> of_nat (Suc k) * (72 * half_ulp)"
      using b(2) q(2) Cons.prems(6) ah(1) unfolding of_nat_Suc distrib_right mult_1 by linarith
    have "Suc k + length ps \<le> 64" "\<forall>p\<in>set ps. fst p < snd p" using Cons.prems(1,2) by simp_all
    moreover have "0 \<le> s + r" "s + r \<le> of_nat (Suc k)" using Cons.prems(3,4) r by simp_all
    ultimately have IH: "0 \<le> fold add_quotient ps (add_quotient p a) \<and> quotient_sum ps + (s + r) \<le> of_nat (Suc k + length ps) \<and>
        \<bar>fold add_quotient ps (add_quotient p a) - (s + r + quotient_sum ps)\<bar> \<le> of_nat (Suc k + length ps) * (72 * half_ulp)"
      using Cons.IH [of "Suc k" "s + r" "add_quotient p a"] b(1) e by blast
    have "quotient_sum (p # ps) = r + quotient_sum ps" by (simp add: quotient_sum_def r_def)
    then show ?case using IH by (simp add: add_ac)
  qed (simp add: quotient_sum_def)
  then show "0 \<le> fold add_quotient ps a" "quotient_sum ps + s \<le> of_nat (k + length ps)"
    "\<bar>fold add_quotient ps a - (s + quotient_sum ps)\<bar> \<le> of_nat (k + length ps) * (72 * half_ulp)" by blast+
qed

text \<open>
  The sum is rounded to the nearest integer, unless it is closer to the middle of two integers than \<open>2 ^ (- 40)\<close>.
\<close>

lemma round_sum_nearest:
  assumes ps: "\<forall>p\<in>set ps. fst p < snd p" "length ps \<le> 64"
    and n: "of_nat n + 1 / 1099511627776 \<le> quotient_sum ps + 1 / 2"
      "quotient_sum ps + 1 / 2 < of_nat n + 1 - 1 / 1099511627776"
  shows "unat (round_sum ps) = n"
proof -
  define a where "a = fold add_quotient ps 0"
  note e = sum_error [of ps 0 0 0, OF ps(1)]
  have e: "0 \<le> a" "quotient_sum ps \<le> of_nat (length ps)" "\<bar>a - quotient_sum ps\<bar> \<le> of_nat (length ps) * (72 * half_ulp)"
    using e ps(2) by (simp_all add: a_def)
  have l: "(of_nat (length ps) :: rat) \<le> 64" using ps(2) of_nat_le_iff [of "length ps" 64, where 'a = rat] by simp
  have h: "0 < half_ulp" by (simp add: half_ulp_def)
  have "of_nat (length ps) * (72 * half_ulp) \<le> 64 * (72 * half_ulp)" using l h by (intro mult_right_mono) simp_all
  then have e64: "\<bar>a - quotient_sum ps\<bar> \<le> 4608 * half_ulp" using e(3) by linarith
  have "4608 * half_ulp \<le> 1" by (simp add: half_ulp_def)
  then have "a + 1 / 2 \<le> 66" using e(2) e64 l by linarith
  then have "half_ulp * (a + 1 / 2) \<le> half_ulp * 66" using h by (intro mult_left_mono) simp_all
  moreover have "\<bar>binary64 (a + 1 / 2) - (a + 1 / 2)\<bar> \<le> half_ulp * (a + 1 / 2)" using e(1) by (intro binary64_error(2)) simp
  moreover have half: "4674 * half_ulp \<le> 1 / 1099511627776" by (simp add: half_ulp_def)
  ultimately have "\<bar>binary64 (a + 1 / 2) - (quotient_sum ps + 1 / 2)\<bar> \<le> 4674 * half_ulp" using e64 by linarith
  then have b: "of_nat n \<le> binary64 (a + 1 / 2)" "binary64 (a + 1 / 2) < of_nat n + 1"
    using n half by linarith+
  have f: "\<lfloor>binary64 (a + 1 / 2)\<rfloor> = int n" by (rule floor_unique) (use b in simp_all)
  have "(of_nat n :: rat) \<le> 66" using n(1) e(2) l by simp
  then have "n \<le> 66" using of_nat_le_iff [of n 66, where 'a = rat] by simp
  then show ?thesis by (simp add: round_sum_def double_add_def u64_of_double_def a_def [symmetric] f unat_of_nat)
qed

end
