(* ===== verification/Rns_Converter.thy ===== *)
theory Rns_Converter
  imports Rns_Base Binary64
begin

unbundle bit_operations_syntax

text \<open>
  The conversion between bases: the class \<open>BaseConverter\<close> of \<open>utils/rns.h\<close> and \<open>utils/rns.cpp\<close> of
  \<open>heu/library/algorithms/seal_gpu/\<close>. The fast conversion of a number from its residues gives the residues of the
  number plus a small multiple of the product of the first base; the exact one removes the multiple with
  the help of floating-point numbers, whose rounding errors are bounded in \<open>Binary64\<close>.
\<close>

section \<open>The class\<close>

record BaseConverter =
  bc_ibase :: RNSBase
  bc_obase :: RNSBase
  bc_matrix :: "u64 list list"

definition ibaseSize :: "BaseConverter \<Rightarrow> nat" where "ibaseSize c = rns_size (bc_ibase c)"
definition obaseSize :: "BaseConverter \<Rightarrow> nat" where "obaseSize c = rns_size (bc_obase c)"

definition BaseConverter_initialize :: "BaseConverter \<Rightarrow> BaseConverter res" where
  "BaseConverter_initialize c =
     (let ibase = bc_ibase c; obase = bc_obase c in
      rbind (productFitsIn uint64_t (int (rns_size ibase)) (int (rns_size obase))) (\<lambda>fits.
        if \<not> fits then Inl (Logic_error ''invalid parameters'')
        else Inr (c\<lparr>bc_matrix :=
               map (\<lambda>i. map (\<lambda>j. moduloUint (take (rns_size ibase) (drop (rns_size ibase * j) (rns_punctured_prod_array ibase)))
                                           (rns_base obase ! i)) [0..<rns_size ibase])
                   [0..<rns_size obase]\<rparr>)))"

definition new_BaseConverter :: "RNSBase \<Rightarrow> RNSBase \<Rightarrow> BaseConverter res" where
  "new_BaseConverter ibase obase =
     BaseConverter_initialize \<lparr>bc_ibase = copy_RNSBase ibase, bc_obase = copy_RNSBase obase, bc_matrix = []\<rparr>"

section \<open>The fast conversion\<close>

definition fastConvert :: "BaseConverter \<Rightarrow> u64 list \<Rightarrow> u64 list \<Rightarrow> u64 list" where
  "fastConvert c inp out =
     (let ibase = bc_ibase c;
          temp = coeff_loop (\<lambda>i. multiplyUintMod_operand (inp ! i) (rns_inv_punctured_prod_mod_base_array ibase ! i)
                                   (rns_base ibase ! i)) (rns_size ibase) 0 (replicate (rns_size ibase) 0)
      in coeff_loop (\<lambda>i. dotProductMod temp (bc_matrix c ! i) (rns_base (bc_obase c) ! i)) (rns_size (bc_obase c)) 0 out)"

text \<open>A loop that writes the entries \<open>index j\<close> of an array.\<close>

fun place_loop :: "(nat \<Rightarrow> nat) \<Rightarrow> (nat \<Rightarrow> u64) \<Rightarrow> nat \<Rightarrow> nat \<Rightarrow> u64 list \<Rightarrow> u64 list" where
  "place_loop index f 0 j a = a"
| "place_loop index f (Suc k) j a = place_loop index f k (j + 1) (a[index j := f j])"

fun digits_loop :: "RNSBase \<Rightarrow> u64 list \<Rightarrow> nat \<Rightarrow> nat \<Rightarrow> nat \<Rightarrow> u64 list \<Rightarrow> u64 list" where
  "digits_loop ibase inp count 0 i temp = temp"
| "digits_loop ibase inp count (Suc k) i temp =
     (let sz = rns_size ibase;
          inv_op = rns_inv_punctured_prod_mod_base_array ibase ! i;
          temp = (if mop_operand inv_op = 1
                  then place_loop (\<lambda>j. j * sz + i) (\<lambda>j. barrettReduce64 (inp ! (i * count + j)) (rns_base ibase ! i)) count 0 temp
                  else place_loop (\<lambda>j. j * sz + i)
                         (\<lambda>j. multiplyUintMod_operand (inp ! (i * count + j)) inv_op (rns_base ibase ! i)) count 0 temp)
      in digits_loop ibase inp count k (i + 1) temp)"

definition fastConvertArray :: "BaseConverter \<Rightarrow> u64 list \<Rightarrow> nat \<Rightarrow> u64 list \<Rightarrow> u64 list" where
  "fastConvertArray c inp count out =
     (let ibase = bc_ibase c; obase = bc_obase c; sz = rns_size ibase;
          temp = digits_loop ibase inp count sz 0 (replicate (count * sz) 0)
      in parts_loop (\<lambda>i. coeff_loop (\<lambda>j. dotProductMod (take sz (drop (j * sz) temp)) (bc_matrix c ! i) (rns_base obase ! i)) count 0)
           count (rns_size obase) 0 out)"

section \<open>The exact conversion\<close>

text \<open>
  \<open>round_sum\<close> is the floating-point computation on the pairs of a digit and its modulus: they are divided
  as doubles, the quotients and one half are added from left to right, and the sum is truncated to a word.
\<close>

definition exactConvertArray ::
    "BaseConverter \<Rightarrow> u64 list \<Rightarrow> nat \<Rightarrow> u64 list \<Rightarrow> u64 list res" where
  "exactConvertArray c inp count out =
     (let ibase = bc_ibase c; obase = bc_obase c; sz = rns_size ibase in
      if rns_size obase \<noteq> 1 then Inl (Invalid_argument ''out base in exact_convert_array must be one.'')
      else
        let temp = digits_loop ibase inp count sz 0 (replicate (count * sz) 0);
            aggregated_rounded_v = map (\<lambda>j. round_sum (map (\<lambda>i. (temp ! (j * sz + i), modulus_value (rns_base ibase ! i))) [0..<sz]))
                                       [0..<count];
            p = rns_base obase ! 0;
            q_mod_p = moduloUint (take sz (rns_base_prod ibase)) p
        in Inr (coeff_loop (\<lambda>j.
             let sum_mod_obase = dotProductMod (take sz (drop (j * sz) temp)) (bc_matrix c ! 0) p;
                 v_q_mod_p = multiplyUintMod (aggregated_rounded_v ! j) q_mod_p p
             in subUintMod sum_mod_obase v_q_mod_p p) count 0 out))"

section \<open>The tables\<close>

definition wf_converter :: "BaseConverter \<Rightarrow> bool" where
  "wf_converter c \<longleftrightarrow>
     (let ib = bc_ibase c; ob = bc_obase c; k = rns_size ib in
      wf_rns ib \<and> wf_rns ob \<and> length (bc_matrix c) = rns_size ob \<and>
      (\<forall>i<rns_size ob. length (bc_matrix c ! i) = k \<and>
         (\<forall>j<k. unat (bc_matrix c ! i ! j) = crt_punctured (modn (rns_base ib)) k j mod modn (rns_base ob) i)))"

lemma wf_converterD:
  assumes "wf_converter c"
  shows "wf_rns (bc_ibase c)" "wf_rns (bc_obase c)" "length (bc_matrix c) = rns_size (bc_obase c)"
    "i < rns_size (bc_obase c) \<Longrightarrow> length (bc_matrix c ! i) = rns_size (bc_ibase c)"
    "i < rns_size (bc_obase c) \<Longrightarrow> j < rns_size (bc_ibase c) \<Longrightarrow>
      unat (bc_matrix c ! i ! j) = crt_punctured (modn (rns_base (bc_ibase c))) (rns_size (bc_ibase c)) j mod modn (rns_base (bc_obase c)) i"
  using assms by (simp_all add: wf_converter_def Let_def)

lemma copy_wf: "wf_rns b \<Longrightarrow> copy_RNSBase b = b"
  using wf_rnsD [of b] by (simp add: copy_RNSBase_def Let_def setUint_def)

lemma wf_rns_size: "wf_rns b \<Longrightarrow> rns_size b < 3037000500"
proof (rule ccontr)
  assume b: "wf_rns b" "\<not> rns_size b < 3037000500"
  then have "3037000500 * 3037000500 \<le> rns_size b * rns_size b" by (intro mult_le_mono) simp_all
  then show False using wf_rnsD(2) [OF b(1) refl refl] by simp
qed

lemma new_BaseConverter_ok:
  assumes i: "wf_rns ib" and ob: "wf_rns ob"
  shows "\<exists>c. new_BaseConverter ib ob = Inr c \<and> wf_converter c \<and> bc_ibase c = ib \<and> bc_obase c = ob"
proof -
  let ?k = "rns_size ib" and ?l = "rns_size ob"
  note s = wf_rns_size [OF i] wf_rns_size [OF ob]
  have "?k * ?l < 9223372036854775808"
    using mult_le_mono [of ?k 3037000499 ?l 3037000499] s by simp
  then have fits: "productFitsIn uint64_t (int ?k) (int ?l) = Inr True" using product_fits [of ?k ?l] s by simp
  note wi = wf_rnsD [OF i refl refl] and wo = wf_rnsD [OF ob refl refl]
  have "unat (moduloUint (poly_slice ?k j (rns_punctured_prod_array ib)) (rns_base ob ! l))
      = crt_punctured (modn (rns_base ib)) ?k j mod modn (rns_base ob) l" if "l < ?l" "j < ?k" for l j
  proof -
    have "poly_slice ?k j (rns_punctured_prod_array ib) \<noteq> []"
      using length_slice [OF wi(6) that(2)] wi(10) by auto
    from moduloUint_base [OF ob that(1) this] wi(7) [OF that(2)] show ?thesis by simp
  qed
  then show ?thesis
    using i ob fits copy_wf [OF i] copy_wf [OF ob]
    by (simp add: new_BaseConverter_def BaseConverter_initialize_def wf_converter_def Let_def poly_slice_def)
qed

section \<open>The digits\<close>

lemma length_place_loop [simp]: "length (place_loop index f k j a) = length a"
  by (induction k arbitrary: j a) simp_all

lemma stride_lt: "j + 1 \<le> n \<Longrightarrow> i < s \<Longrightarrow> j * s + i < n * (s :: nat)"
  using mult_le_mono1 [of "j + 1" n s] by simp

lemma stride_eq_iff: "i < s \<Longrightarrow> i' < s \<Longrightarrow> j * s + i = j' * s + i' \<longleftrightarrow> j = j' \<and> i = (i' :: nat)"
proof (intro iffI)
  assume s: "i < s" "i' < s" and eq: "j * s + i = j' * s + i'"
  have "(j * s + i) div s = (j' * s + i') div s" "(j * s + i) mod s = (j' * s + i') mod s" using eq by simp_all
  then show "j = j' \<and> i = i'" using s by simp
qed simp

lemma nth_place_loop:
  assumes "i < s" "i' < s" "j' < n"
  shows "length a = n * s \<Longrightarrow> j + k \<le> n \<Longrightarrow>
    place_loop (\<lambda>j. j * s + i) f k j a ! (j' * s + i') = (if i' = i \<and> j \<le> j' \<and> j' < j + k then f j' else a ! (j' * s + i'))"
proof (induction k arbitrary: j a)
  case (Suc k)
  have "j * s + i < n * s" using stride_lt [of j n i s] Suc.prems(2) assms(1) by simp
  then have "a[j * s + i := f j] ! (j' * s + i') = (if i' = i \<and> j' = j then f j' else a ! (j' * s + i'))"
    using Suc.prems(1) stride_eq_iff [OF assms(1,2), of j j'] by (auto simp: nth_list_update)
  then show ?case using Suc.IH [of "a[j * s + i := f j]" "j + 1"] Suc.prems by auto
qed auto

lemma length_digits_loop [simp]: "length (digits_loop ib inp count k i temp) = length temp"
  by (induction k arbitrary: i temp) (simp_all add: Let_def)

text \<open>The entry \<open>(j, i)\<close> of the table is the digit of the residues of the number \<open>j\<close>.\<close>

lemma digits_loop_value:
  assumes b: "wf_rns ib" and s: "s = rns_size ib" and j: "j < count" and i': "i' < s"
  shows "length temp = count * s \<Longrightarrow> i + k \<le> s \<Longrightarrow>
    unat (digits_loop ib inp count k i temp ! (j * s + i')) =
      (if i \<le> i' \<and> i' < i + k
       then unat (inp ! (i' * count + j)) * unat (mop_operand (rns_inv_punctured_prod_mod_base_array ib ! i')) mod modn (rns_base ib) i'
       else unat (temp ! (j * s + i')))"
proof (induction k arbitrary: i temp)
  case (Suc k)
  have i: "i < s" using Suc.prems by simp
  let ?y = "rns_inv_punctured_prod_mod_base_array ib ! i" and ?m = "rns_base ib ! i"
  note m = wf_modulusD [OF wf_rnsD(11) [OF b s refl i]]
  define f where "f = (\<lambda>j. if mop_operand ?y = 1 then barrettReduce64 (inp ! (i * count + j)) ?m
    else multiplyUintMod_operand (inp ! (i * count + j)) ?y ?m)"
  have f: "unat (f j) = unat (inp ! (i * count + j)) * unat (mop_operand ?y) mod unat (mod_value ?m)"
    using barrettReduce64_value [OF m(1), of "inp ! (i * count + j)"]
      multiplyUintMod_operand_value [of ?m ?y "inp ! (i * count + j)"] m(3) wf_rnsD(9) [OF b s refl i]
    by (simp add: f_def rns_inv_ok_def)
  let ?temp = "place_loop (\<lambda>j. j * s + i) f count 0 temp"
  have step: "digits_loop ib inp count (Suc k) i temp = digits_loop ib inp count k (i + 1) ?temp"
    by (simp add: f_def Let_def if_distrib flip: s)
  have "?temp ! (j * s + i') = (if i' = i then f j else temp ! (j * s + i'))"
    using nth_place_loop [OF i i' j, of temp 0 count f] Suc.prems(1) j by simp
  then show ?case using Suc.IH [of ?temp "i + 1"] Suc.prems f unfolding step by (auto simp: not_less_eq_eq)
qed simp
lemma dot_sum: "length xs = length ys \<Longrightarrow> dot xs ys = (\<Sum>i<length xs. unat (xs ! i) * unat (ys ! i))"
  by (simp add: dot_def sum_list_sum_nth atLeast0LessThan)

lemma dot_row:
  assumes c: "wf_converter c" and k: "k = rns_size (bc_ibase c)" and ms: "ms = rns_base (bc_ibase c)" and l: "l < rns_size (bc_obase c)"
    and t: "length t = k" "\<And>i. i < k \<Longrightarrow> unat (t ! i) = d i" and d: "\<And>i. i < k \<Longrightarrow> d i < modn ms i"
  shows "unat (dotProductMod t (bc_matrix c ! l) (rns_base (bc_obase c) ! l)) = crt_sum (modn ms) k d mod modn (rns_base (bc_obase c)) l"
proof -
  let ?p = "rns_base (bc_obase c) ! l" and ?row = "bc_matrix c ! l"
  note w = wf_converterD [OF c]
  note mi = wf_modulusD(3) [OF wf_rnsD(11) [OF w(1) k ms]] and mo = wf_modulusD [OF wf_rnsD(11) [OF w(2) refl refl l]]
  have row: "length ?row = k" "\<And>j. j < k \<Longrightarrow> unat (?row ! j) = crt_punctured (modn ms) k j mod unat (mod_value ?p)"
    using w(4,5) [OF l] k ms by simp_all
  have small: "\<forall>x\<in>set t. unat x < 2 ^ 61" "\<forall>y\<in>set ?row. unat y < 2 ^ 61"
  proof -
    have "unat (t ! i) < 2 ^ 61" if "i < k" for i using t(2) [OF that] d [OF that] mi [OF that] by simp
    then show "\<forall>x\<in>set t. unat x < 2 ^ 61" using t(1) by (simp add: all_set_conv_all_nth)
    have "unat (?row ! i) < 2 ^ 61" if "i < k" for i
    proof -
      have "unat (?row ! i) < unat (mod_value ?p)" using row(2) [OF that] mo(2) by simp
      then show ?thesis using mo(3) by simp
    qed
    then show "\<forall>y\<in>set ?row. unat y < 2 ^ 61" using row(1) by (simp add: all_set_conv_all_nth)
  qed
  have "unat (dotProductMod t ?row ?p) = (\<Sum>i<k. d i * (crt_punctured (modn ms) k i mod unat (mod_value ?p))) mod unat (mod_value ?p)"
    using dotProductMod_value [OF mo(1) _ small] dot_sum [of t ?row] t row by simp
  also have "\<dots> = (\<Sum>i<k. d i * crt_punctured (modn ms) k i) mod unat (mod_value ?p)"
    by (subst mod_sum_eq [symmetric]) (simp add: mod_mult_right_eq mod_sum_eq)
  finally show ?thesis by (simp add: crt_sum_def mult.commute)
qed

text \<open>The column \<open>j\<close> of the residues, and the number it stands for.\<close>

definition column :: "u64 list \<Rightarrow> nat \<Rightarrow> nat \<Rightarrow> nat \<Rightarrow> u64 list" where
  "column inp count k j = map (\<lambda>i. inp ! (i * count + j)) [0..<k]"

definition rns_number :: "RNSBase \<Rightarrow> u64 list \<Rightarrow> nat" where
  "rns_number b xs = crt_sum (modn (rns_base b)) (rns_size b) (crt_digit b xs) mod crt_prod (modn (rns_base b)) (rns_size b)"

lemma rns_number_unique:
  assumes b: "wf_rns b" and x: "x < crt_prod (modn (rns_base b)) (rns_size b)"
    "\<And>i. i < rns_size b \<Longrightarrow> x mod modn (rns_base b) i = unat (xs ! i) mod modn (rns_base b) i"
  shows "rns_number b xs = x"
proof (rule crt_unique [OF wf_rnsD(12) [OF b refl refl]])
  show "rns_number b xs < crt_prod (modn (rns_base b)) (rns_size b)"
    using crt_prod_pos [OF wf_rnsD(12) [OF b refl refl]] by (simp add: rns_number_def)
  show "rns_number b xs mod modn (rns_base b) i = x mod modn (rns_base b) i" if "i < rns_size b" for i
    using compose_row_residue [OF b refl refl that, of xs] compose_row(2) [OF b refl refl, of xs] x(2) [OF that]
    by (simp add: rns_number_def)
qed (rule x(1))

lemma crt_digit_lt:
  assumes "wf_rns b" "i < rns_size b"
  shows "crt_digit b xs i < modn (rns_base b) i"
  using wf_modulusD(2) [OF wf_rnsD(11) [OF assms(1) refl refl assms(2)]] by (simp add: crt_digit_def)

lemma crt_sum_number:
  fixes xs :: "u64 list"
  assumes b: "wf_rns b"
  defines "Q \<equiv> crt_prod (modn (rns_base b)) (rns_size b)" and "S \<equiv> crt_sum (modn (rns_base b)) (rns_size b) (crt_digit b xs)"
  shows "S = rns_number b xs + S div Q * Q" "S div Q < rns_size b"
proof -
  show "S = rns_number b xs + S div Q * Q"
    unfolding rns_number_def Q_def S_def by (rule mod_div_mult_eq [symmetric])
  have "S < rns_size b * Q"
    unfolding S_def Q_def by (rule crt_sum_lt [OF wf_rnsD(10) [OF b refl refl]]) (rule crt_digit_lt [OF b])
  then show "S div Q < rns_size b" by (simp add: less_mult_imp_div_less)
qed

lemma digits_row:
  assumes b: "wf_rns ib" and s: "s = rns_size ib" and j: "j < count" and i: "i < s"
  shows "length (take s (drop (j * s) (digits_loop ib inp count s 0 (replicate (count * s) 0)))) = s"
    "unat (take s (drop (j * s) (digits_loop ib inp count s 0 (replicate (count * s) 0))) ! i) = crt_digit ib (column inp count s j) i"
    "unat (digits_loop ib inp count s 0 (replicate (count * s) 0) ! (j * s + i)) = crt_digit ib (column inp count s j) i"
proof -
  let ?t = "digits_loop ib inp count s 0 (replicate (count * s) 0)"
  have "poly_slice s j ?t = take s (drop (j * s) ?t)" by (simp add: poly_slice_def mult.commute)
  moreover have len: "length ?t = s * count" by simp
  moreover have "?t ! (j * s + i) = poly_slice s j ?t ! i" by (rule slice_at [OF len j i])
  moreover show "unat (?t ! (j * s + i)) = crt_digit ib (column inp count s j) i"
    using digits_loop_value [OF b s j i, of "replicate (count * s) 0" 0 s inp] i by (simp add: crt_digit_def column_def)
  ultimately show "length (take s (drop (j * s) ?t)) = s" "unat (take s (drop (j * s) ?t) ! i) = crt_digit ib (column inp count s j) i"
    using length_slice [OF len j] by simp_all
qed

lemma fastConvertArray_value:
  assumes c: "wf_converter c" and l: "l = rns_size (bc_obase c)" and out: "length out = count * l"
  shows "length (fastConvertArray c inp count out) = count * l \<and>
    (\<forall>i<l. \<forall>j<count. unat (fastConvertArray c inp count out ! (i * count + j)) =
       crt_sum (modn (rns_base (bc_ibase c))) (rns_size (bc_ibase c)) (crt_digit (bc_ibase c) (column inp count (rns_size (bc_ibase c)) j))
       mod modn (rns_base (bc_obase c)) i)"
proof -
  let ?ib = "bc_ibase c" and ?ob = "bc_obase c" and ?k = "rns_size (bc_ibase c)"
  let ?t = "digits_loop ?ib inp count ?k 0 (replicate (count * ?k) 0)"
  let ?g = "\<lambda>i j. dotProductMod (take ?k (drop (j * ?k) ?t)) (bc_matrix c ! i) (rns_base ?ob ! i)"
  let ?f = "\<lambda>i. coeff_loop (?g i) count 0"
  let ?r = "parts_loop ?f count l 0 out"
  note w = wf_converterD [OF c]
  have f: "?f i ys = map (?g i) [0..<count]" if "length ys = count" for i ys by (rule coeff_loop_map [OF that])
  have s: "length ?r = count * l \<and> (\<forall>i<l. poly_slice count i ?r = ?f i (poly_slice count i out))"
    using parts_loop_slices [of l count ?f out 0 l] f out by simp
  have "unat (?r ! (i * count + j)) = crt_sum (modn (rns_base ?ib)) ?k (crt_digit ?ib (column inp count ?k j)) mod modn (rns_base ?ob) i"
    if i: "i < l" and j: "j < count" for i j
  proof -
    have "?r ! (i * count + j) = ?g i j"
      using s slice_at [of ?r count l i j] f [OF length_slice [OF out i]] i j by simp
    moreover have "unat (?g i j) = crt_sum (modn (rns_base ?ib)) ?k (crt_digit ?ib (column inp count ?k j)) mod modn (rns_base ?ob) i"
      using digits_row [OF w(1) refl j] wf_rnsD(10) [OF w(1) refl refl] i l crt_digit_lt [OF w(1)]
      by (intro dot_row [OF c]) blast+
    ultimately show ?thesis by simp
  qed
  then show ?thesis using s by (simp add: fastConvertArray_def Let_def flip: l)
qed

lemma fastConvert_value:
  assumes c: "wf_converter c" and l: "l = rns_size (bc_obase c)" and out: "length out = l"
  shows "length (fastConvert c xs out) = l \<and>
    (\<forall>i<l. unat (fastConvert c xs out ! i) =
       crt_sum (modn (rns_base (bc_ibase c))) (rns_size (bc_ibase c)) (crt_digit (bc_ibase c) xs) mod modn (rns_base (bc_obase c)) i)"
proof -
  let ?ib = "bc_ibase c" and ?ob = "bc_obase c" and ?k = "rns_size (bc_ibase c)"
  note w = wf_converterD [OF c]
  let ?t = "map (\<lambda>i. multiplyUintMod_operand (xs ! i) (rns_inv_punctured_prod_mod_base_array ?ib ! i) (rns_base ?ib ! i)) [0..<?k]"
  have t: "unat (?t ! i) = crt_digit ?ib xs i" if "i < ?k" for i
    using multiplyUintMod_operand_value wf_modulusD(3) [OF wf_rnsD(11) [OF w(1) refl refl that]] wf_rnsD(9) [OF w(1) refl refl that] that
    by (simp add: crt_digit_def rns_inv_ok_def)
  have "unat (dotProductMod ?t (bc_matrix c ! i) (rns_base ?ob ! i)) =
      crt_sum (modn (rns_base ?ib)) ?k (crt_digit ?ib xs) mod modn (rns_base ?ob) i" if "i < l" for i
    using that l t crt_digit_lt [OF w(1)] by (intro dot_row [OF c]) simp_all
  then show ?thesis using out by (simp add: fastConvert_def coeff_loop_map Let_def flip: l)
qed

text \<open>
  C19. The fast conversion of residues, one number at a time or an array of numbers, gives the residues of the
  number they stand for plus the same small multiple of the product of the first base for all moduli of
  the second; the multiple is less than the number of moduli of the first base.
\<close>

theorem fastConvert_correct:
  assumes ib: "wf_rns ib" and ob: "wf_rns ob" and out: "length out = count * rns_size ob" "length out1 = rns_size ob"
    and x: "\<forall>j<count. x j < crt_prod (modn (rns_base ib)) (rns_size ib) \<and>
      (\<forall>i<rns_size ib. x j mod modn (rns_base ib) i = unat (inp ! (i * count + j)) mod modn (rns_base ib) i)"
  shows "\<exists>c. new_BaseConverter ib ob = Inr c \<and>
    length (fastConvertArray c inp count out) = count * rns_size ob \<and>
    (\<forall>j<count. \<exists>\<alpha><rns_size ib. \<forall>i<rns_size ob.
       unat (fastConvertArray c inp count out ! (i * count + j)) =
         (x j + \<alpha> * crt_prod (modn (rns_base ib)) (rns_size ib)) mod modn (rns_base ob) i \<and>
       fastConvert c (column inp count (rns_size ib) j) out1 ! i = fastConvertArray c inp count out ! (i * count + j))"
proof -
  obtain c where c: "new_BaseConverter ib ob = Inr c" "wf_converter c" "bc_ibase c = ib" "bc_obase c = ob"
    using new_BaseConverter_ok [OF ib ob] by blast
  note arr = fastConvertArray_value [OF c(2) refl, unfolded c(3,4), OF out(1), of inp]
  let ?Q = "crt_prod (modn (rns_base ib)) (rns_size ib)"
  have "\<exists>\<alpha><rns_size ib. \<forall>i<rns_size ob.
       unat (fastConvertArray c inp count out ! (i * count + j)) = (x j + \<alpha> * ?Q) mod modn (rns_base ob) i \<and>
       fastConvert c (column inp count (rns_size ib) j) out1 ! i = fastConvertArray c inp count out ! (i * count + j)" if j: "j < count" for j
  proof -
    let ?xs = "column inp count (rns_size ib) j" and ?S = "crt_sum (modn (rns_base ib)) (rns_size ib) (crt_digit ib (column inp count (rns_size ib) j))"
    have "rns_number ib ?xs = x j"
      by (rule rns_number_unique [OF ib]) (use x j in \<open>simp_all add: column_def\<close>)
    then have S: "?S = x j + ?S div ?Q * ?Q" "?S div ?Q < rns_size ib" using crt_sum_number [OF ib, of ?xs] by simp_all
    have "unat (fastConvertArray c inp count out ! (i * count + j)) = ?S mod modn (rns_base ob) i" if "i < rns_size ob" for i
      using arr j that by blast
    moreover have "unat (fastConvert c ?xs out1 ! i) = ?S mod modn (rns_base ob) i" if "i < rns_size ob" for i
      using fastConvert_value [OF c(2) refl, unfolded c(3,4), OF out(2), of ?xs] that by blast
    ultimately show ?thesis using S by (intro exI [of _ "?S div ?Q"]) (simp add: word_unat_eq_iff flip: S(1))
  qed
  then show ?thesis using c(1) arr by blast
qed
theorem fastConvert_correct_witness:
  "\<exists>b ob c. new_RNSBase [modulus_17, modulus_97] = Inr b \<and> new_RNSBase [modulus_19] = Inr ob \<and> new_BaseConverter b ob = Inr c \<and>
     (\<exists>\<alpha><2. unat (fastConvertArray c [14, 3, 30, 3] 2 [0, 0] ! 0) = (1000 + \<alpha> * 1649) mod 19)"
proof -
  obtain b where b: "new_RNSBase [modulus_17, modulus_97] = Inr b" "wf_rns b" "rns_base b = [modulus_17, modulus_97]" "rns_size b = 2"
    using base_17_97 by blast
  obtain ob where ob: "new_RNSBase [modulus_19] = Inr ob" "wf_rns ob" "rns_base ob = [modulus_19]" "rns_size ob = 1"
    using base_19 by blast
  define x where "x = (\<lambda>j :: nat. if j = 0 then 1000 else 3 :: nat)"
  have "crt_prod (modn [modulus_17, modulus_97]) 2 = 1649"
    by (simp add: crt_prod_2 modulus_17_def modulus_97_def)
  moreover have "\<forall>j<2. \<forall>i<2. x j mod modn [modulus_17, modulus_97] i = unat ([14, 3, 30, 3 :: u64] ! (i * 2 + j)) mod modn [modulus_17, modulus_97] i"
  proof (intro allI impI)
    fix j i :: nat assume "j < 2" "i < 2"
    then have "j = 0 \<or> j = 1" "i = 0 \<or> i = 1" by linarith+
    then show "x j mod modn [modulus_17, modulus_97] i = unat ([14, 3, 30, 3 :: u64] ! (i * 2 + j)) mod modn [modulus_17, modulus_97] i"
      by (elim disjE) (simp_all add: x_def modulus_17_def modulus_97_def)
  qed
  ultimately have x: "\<forall>j<2. x j < crt_prod (modn (rns_base b)) (rns_size b) \<and>
      (\<forall>i<rns_size b. x j mod modn (rns_base b) i = unat ([14, 3, 30, 3 :: u64] ! (i * 2 + j)) mod modn (rns_base b) i)"
    and Q: "crt_prod (modn (rns_base b)) (rns_size b) = 1649"
    using b by (auto simp: x_def)
  have o: "length [0, 0 :: u64] = 2 * rns_size ob" "length [0 :: u64] = rns_size ob" using ob by simp_all
  obtain c where c: "new_BaseConverter b ob = Inr c"
    "\<forall>j<2. \<exists>\<alpha><rns_size b. \<forall>i<rns_size ob. unat (fastConvertArray c [14, 3, 30, 3] 2 [0, 0] ! (i * 2 + j)) =
      (x j + \<alpha> * 1649) mod modn (rns_base ob) i"
    using fastConvert_correct [OF b(2) ob(2) o x] unfolding Q by blast
  then have "\<exists>\<alpha><rns_size b. \<forall>i<rns_size ob. unat (fastConvertArray c [14, 3, 30, 3] 2 [0, 0] ! (i * 2 + 0)) =
      (x 0 + \<alpha> * 1649) mod modn (rns_base ob) i" by (meson zero_less_numeral)
  then have "\<exists>\<alpha><2. unat (fastConvertArray c [14, 3, 30, 3] 2 [0, 0] ! 0) = (1000 + \<alpha> * 1649) mod 19"
    using b ob by (simp add: x_def modulus_19_def)
  then show ?thesis using b(1) ob(1) c(1) by blast
qed

section \<open>The exact conversion is exact\<close>

text \<open>The pairs that the floating-point computation gets, and their exact sum.\<close>

definition digit_pairs :: "RNSBase \<Rightarrow> u64 list \<Rightarrow> (u64 \<times> u64) list" where
  "digit_pairs b xs = map (\<lambda>i. (of_nat (crt_digit b xs i), mod_value (rns_base b ! i))) [0..<rns_size b]"

lemma crt_digit_word:
  assumes "wf_rns b" "i < rns_size b"
  shows "unat (of_nat (crt_digit b xs i) :: u64) = crt_digit b xs i"
  using crt_digit_lt [OF assms, of xs] wf_modulusD(3) [OF wf_rnsD(11) [OF assms(1) refl refl assms(2)]] by (simp add: unat_of_nat)

lemma digit_pairs_sum:
  assumes b: "wf_rns b"
  shows "quotient_sum (digit_pairs b xs) =
    of_nat (crt_sum (modn (rns_base b)) (rns_size b) (crt_digit b xs)) / of_nat (crt_prod (modn (rns_base b)) (rns_size b))"
proof -
  let ?k = "rns_size b" and ?m = "modn (rns_base b)"
  let ?Q = "crt_prod ?m ?k" and ?P = "crt_punctured ?m ?k"
  have Q: "0 < ?Q" by (rule crt_prod_pos [OF wf_rnsD(12) [OF b refl refl]])
  have "(of_nat (unat (of_nat (crt_digit b xs i) :: u64)) / of_nat (?m i) :: rat) = of_nat (?P i * crt_digit b xs i) / of_nat ?Q"
    if i: "i < ?k" for i
  proof -
    let ?d = "crt_digit b xs i"
    have P: "0 < ?P i" using Q unfolding crt_punctured_prod [OF i, symmetric] by (cases "?P i") simp_all
    have "(of_nat (?P i * ?d) / of_nat ?Q :: rat) = (of_nat (?P i) * of_nat ?d) / (of_nat (?P i) * of_nat (?m i))"
      unfolding crt_punctured_prod [OF i, symmetric] of_nat_mult ..
    also have "\<dots> = of_nat ?d / of_nat (?m i)" using P by (intro mult_divide_mult_cancel_left) simp
    finally show ?thesis unfolding crt_digit_word [OF b i] ..
  qed
  then have "quotient_sum (digit_pairs b xs) = (\<Sum>i<?k. of_nat (?P i * crt_digit b xs i) / of_nat ?Q)"
    unfolding quotient_sum_def digit_pairs_def map_map comp_def fst_conv snd_conv sum_list_distinct_conv_sum_set [OF distinct_upt]
      set_upt atLeast0LessThan
    by (intro sum.cong) (simp_all only: lessThan_iff)
  then show ?thesis by (simp add: crt_sum_def sum_divide_distrib)
qed

text \<open>Away from half of the product, by one part in \<open>2 ^ 40\<close>, the rounding errors do not change the rounded sum.\<close>

lemma round_digits:
  assumes b: "wf_rns b" "rns_size b \<le> 64" and x: "x = rns_number b xs"
    and Q: "Q = crt_prod (modn (rns_base b)) (rns_size b)" and margin: "int Q < 549755813888 * \<bar>2 * int x - int Q\<bar>"
    and S: "S = crt_sum (modn (rns_base b)) (rns_size b) (crt_digit b xs)"
  shows "unat (round_sum (digit_pairs b xs)) = S div Q + (if 2 * x < Q then 0 else 1)"
proof (rule round_sum_nearest)
  have "of_nat (crt_digit b xs i) < mod_value (rns_base b ! i)" if "i < rns_size b" for i
    using crt_digit_lt [OF b(1) that, of xs] unfolding word_less_nat_alt crt_digit_word [OF b(1) that] .
  then show "\<forall>p\<in>set (digit_pairs b xs). fst p < snd p" by (auto simp: digit_pairs_def)
  show "length (digit_pairs b xs) \<le> 64" using b(2) by (simp add: digit_pairs_def)
  have Qp: "0 < Q" unfolding Q by (rule crt_prod_pos [OF wf_rnsD(12) [OF b(1) refl refl]])
  define y where "y = (of_nat x / of_nat Q :: rat)"
  have "S = x + S div Q * Q" unfolding S Q x by (rule crt_sum_number(1) [OF b(1)])
  then have "(of_nat S :: rat) = of_nat x + of_nat (S div Q) * of_nat Q" by (metis of_nat_add of_nat_mult)
  then have s: "quotient_sum (digit_pairs b xs) = of_nat (S div Q) + y"
    unfolding digit_pairs_sum [OF b(1)] S [symmetric] Q [symmetric] using Qp by (simp add: y_def field_simps)
  have "x < Q" unfolding x rns_number_def Q [symmetric] using Qp by simp
  then have y1: "0 \<le> y" "y < 1" using Qp by (simp_all add: y_def)
  have "of_int (int Q) < (of_int (549755813888 * \<bar>2 * int x - int Q\<bar>) :: rat)" using margin by (simp only: of_int_less_iff)
  then have "(of_nat Q :: rat) < 549755813888 * \<bar>2 * of_nat x - of_nat Q\<bar>" by simp
  also have "\<bar>2 * of_nat x - of_nat Q\<bar> = \<bar>2 * y - 1\<bar> * (of_nat Q :: rat)"
  proof -
    have "2 * of_nat x - of_nat Q = (2 * y - 1) * (of_nat Q :: rat)" using Qp by (simp add: y_def field_simps)
    then show ?thesis by (simp add: abs_mult)
  qed
  finally have m: "1 < 549755813888 * \<bar>2 * y - 1\<bar>" using Qp by simp
  have c: "2 * x < Q \<longleftrightarrow> 2 * y < 1"
  proof -
    have "2 * x < Q \<longleftrightarrow> (of_nat (2 * x) :: rat) < of_nat Q" by (simp only: of_nat_less_iff)
    also have "\<dots> \<longleftrightarrow> 2 * y < 1" using Qp by (simp add: y_def field_simps)
    finally show ?thesis .
  qed
  show "of_nat (S div Q + (if 2 * x < Q then 0 else 1)) + 1 / 1099511627776 \<le> quotient_sum (digit_pairs b xs) + 1 / 2"
    "quotient_sum (digit_pairs b xs) + 1 / 2 < of_nat (S div Q + (if 2 * x < Q then 0 else 1)) + 1 - 1 / 1099511627776"
    unfolding s c using m y1 by (auto simp: abs_if split: if_splits)
qed

lemma int_mod_diff:
  assumes "0 < (p :: nat)"
  shows "int ((a mod p + p - b mod p) mod p) = (int a - int b) mod int p"
proof -
  have "b mod p \<le> a mod p + p" using mod_less_divisor [OF assms, of b] by linarith
  then have "int ((a mod p + p - b mod p) mod p) = (int a mod int p - int b mod int p + int p) mod int p"
    by (simp add: of_nat_diff zmod_int algebra_simps)
  also have "\<dots> = (int a - int b) mod int p" by (simp add: mod_diff_eq)
  finally show ?thesis .
qed

text \<open>
  C20. The exact conversion to a single modulus gives the residue of the number of least absolute value that the residues
  stand for, whatever multiple of the product the fast conversion would add, in spite of the rounding errors of the doubles:
  for up to 64 moduli and a number whose distance to half of the product \<open>Q\<close> is more than \<open>Q / 2 ^ 40\<close>. More than one output modulus is refused.
\<close>

theorem exactConvertArray_correct:
  assumes ib: "wf_rns ib" and ob: "wf_rns ob" and out: "length out = count"
    and x: "\<forall>j<count. x j < crt_prod (modn (rns_base ib)) (rns_size ib) \<and>
      (\<forall>i<rns_size ib. x j mod modn (rns_base ib) i = unat (inp ! (i * count + j)) mod modn (rns_base ib) i)"
    and margin: "rns_size ib \<le> 64"
      "\<forall>j<count. int (crt_prod (modn (rns_base ib)) (rns_size ib)) <
         549755813888 * \<bar>2 * int (x j) - int (crt_prod (modn (rns_base ib)) (rns_size ib))\<bar>"
  shows "\<exists>c. new_BaseConverter ib ob = Inr c \<and>
    (if rns_size ob \<noteq> 1 then exactConvertArray c inp count out = Inl (Invalid_argument ''out base in exact_convert_array must be one.'')
     else \<exists>res. exactConvertArray c inp count out = Inr res \<and> length res = count \<and>
       (\<forall>j<count. int (unat (res ! j)) =
          (if 2 * x j < crt_prod (modn (rns_base ib)) (rns_size ib) then int (x j)
           else int (x j) - int (crt_prod (modn (rns_base ib)) (rns_size ib))) mod int (modn (rns_base ob) 0)))"
proof -
  obtain c where c: "new_BaseConverter ib ob = Inr c" "wf_converter c" "bc_ibase c = ib" "bc_obase c = ob"
    using new_BaseConverter_ok [OF ib ob] by blast
  show ?thesis
  proof (cases "rns_size ob = 1")
    case False
    then show ?thesis using c by (simp add: exactConvertArray_def Let_def)
  next
    case True
    let ?k = "rns_size ib" and ?Q = "crt_prod (modn (rns_base ib)) (rns_size ib)" and ?p = "rns_base ob ! 0"
    let ?t = "digits_loop ib inp count ?k 0 (replicate (count * ?k) 0)" and ?col = "column inp count ?k"
    define v where "v = (\<lambda>j. round_sum (map (\<lambda>i. (?t ! (j * ?k + i), modulus_value (rns_base ib ! i))) [0..<?k]))"
    define q where "q = moduloUint (take ?k (rns_base_prod ib)) ?p"
    define e where "e = (\<lambda>j. subUintMod (dotProductMod (take ?k (drop (j * ?k) ?t)) (bc_matrix c ! 0) ?p) (multiplyUintMod (v j) q ?p) ?p)"
    have res: "exactConvertArray c inp count out = Inr (map e [0..<count])"
    proof -
      have "exactConvertArray c inp count out = Inr (coeff_loop (\<lambda>j. subUintMod
          (dotProductMod (take ?k (drop (j * ?k) ?t)) (bc_matrix c ! 0) ?p) (multiplyUintMod (map v [0..<count] ! j) q ?p) ?p) count 0 out)"
        using True c(3,4) by (simp add: exactConvertArray_def Let_def v_def q_def)
      then show ?thesis using out by (simp add: coeff_loop_map e_def)
    qed
    have o0: "0 < rns_size ob" using True by simp
    note w = wf_rnsD [OF ib refl refl] and mo = wf_modulusD [OF wf_rnsD(11) [OF ob refl refl o0]]
    have q: "unat q = ?Q mod unat (mod_value ?p)"
    proof -
      have "rns_base_prod ib \<noteq> []" using w(4,10) by auto
      then show ?thesis unfolding q_def using moduloUint_value [OF mo(1)] w(4,5) by simp
    qed
    have "int (unat (e j)) = (if 2 * x j < ?Q then int (x j) else int (x j) - int ?Q) mod int (unat (mod_value ?p))" if j: "j < count" for j
    proof -
      let ?S = "crt_sum (modn (rns_base ib)) ?k (crt_digit ib (?col j))"
      have n: "rns_number ib (?col j) = x j"
        by (rule rns_number_unique [OF ib]) (use x j in \<open>simp_all add: column_def\<close>)
      have S: "?S = x j + ?S div ?Q * ?Q" using crt_sum_number(1) [OF ib, of "?col j"] n by simp
      have pairs: "map (\<lambda>i. (?t ! (j * ?k + i), modulus_value (rns_base ib ! i))) [0..<?k] = digit_pairs ib (?col j)"
        using digits_row(3) [OF ib refl j] crt_digit_word [OF ib] by (simp add: digit_pairs_def modulus_value_def word_unat_eq_iff)
      have v: "unat (v j) = ?S div ?Q + (if 2 * x j < ?Q then 0 else 1)"
        unfolding v_def pairs by (rule round_digits [OF ib margin(1) n [symmetric] refl _ refl]) (use margin(2) j in blast)
      have d: "unat (dotProductMod (take ?k (drop (j * ?k) ?t)) (bc_matrix c ! 0) ?p) = ?S mod unat (mod_value ?p)"
        using dot_row [OF c(2) refl refl, unfolded c(3,4), OF o0] digits_row(1,2) [OF ib refl j] w(10) crt_digit_lt [OF ib] by blast
      have m: "unat (multiplyUintMod (v j) q ?p) = unat (v j) * ?Q mod unat (mod_value ?p)"
        by (simp add: multiplyUintMod_value [OF mo(1)] q mod_mult_right_eq)
      have "int (unat (e j)) = int ((?S mod unat (mod_value ?p) + unat (mod_value ?p) - unat (v j) * ?Q mod unat (mod_value ?p)) mod unat (mod_value ?p))"
        unfolding e_def using subUintMod_value d m mo(2) by simp
      also have "\<dots> = (int ?S - int (unat (v j) * ?Q)) mod int (unat (mod_value ?p))"
        by (rule int_mod_diff) (use mo(2) in simp)
      finally have "int (unat (e j)) = (int ?S - int (unat (v j) * ?Q)) mod int (unat (mod_value ?p))" .
      also have "int ?S - int (unat (v j) * ?Q) = (if 2 * x j < ?Q then int (x j) else int (x j) - int ?Q)"
        unfolding v by (subst S) (simp add: algebra_simps)
      finally show ?thesis .
    qed
    then show ?thesis using True c(1) res by simp
  qed
qed

theorem exactConvertArray_correct_witness:
  "\<exists>b ob c res. new_RNSBase [modulus_17, modulus_97] = Inr b \<and> new_RNSBase [modulus_19] = Inr ob \<and> new_BaseConverter b ob = Inr c \<and>
     exactConvertArray c [14, 30] 1 [0] = Inr res \<and> int (unat (res ! 0)) = (1000 - 1649) mod 19"
proof -
  obtain b where b: "new_RNSBase [modulus_17, modulus_97] = Inr b" "wf_rns b" "rns_base b = [modulus_17, modulus_97]" "rns_size b = 2"
    using base_17_97 by blast
  obtain ob where ob: "new_RNSBase [modulus_19] = Inr ob" "wf_rns ob" "rns_base ob = [modulus_19]" "rns_size ob = 1"
    using base_19 by blast
  have Q: "crt_prod (modn (rns_base b)) (rns_size b) = 1649"
    using b by (simp add: crt_prod_2 modulus_17_def modulus_97_def)
  have x: "\<forall>j<1. 1000 < crt_prod (modn (rns_base b)) (rns_size b) \<and>
      (\<forall>i<rns_size b. 1000 mod modn (rns_base b) i = unat ([14, 30 :: u64] ! (i * 1 + j)) mod modn (rns_base b) i)"
    unfolding Q using b by (simp add: less_2_cases_iff modulus_17_def modulus_97_def)
  have r: "rns_size b \<le> 64" "\<forall>j<1. int (crt_prod (modn (rns_base b)) (rns_size b)) <
      549755813888 * \<bar>2 * int 1000 - int (crt_prod (modn (rns_base b)) (rns_size b))\<bar>"
    unfolding Q using b(4) by simp_all
  obtain c res where "new_BaseConverter b ob = Inr c" "exactConvertArray c [14, 30] 1 [0] = Inr res"
    "int (unat (res ! 0)) = (1000 - 1649) mod int (modn (rns_base ob) 0)"
    using exactConvertArray_correct [OF b(2) ob(2) _ x r, of "[0]"] ob(4) unfolding Q by auto
  then show ?thesis using b(1) ob(1,3) by (auto simp: modulus_19_def)
qed

end
