(* ===== verification/Coeff_Modulus.thy ===== *)
theory Coeff_Modulus
  imports Num_Th
begin

unbundle bit_operations_syntax

text \<open>
  The construction of moduli: \<open>Modulus::setValue\<close> and \<open>reduce\<close>, \<open>CoeffModulus::Create\<close> and
  \<open>PlainModulus::Batching\<close> of \<open>heu/library/algorithms/seal_gpu/modulus.h\<close> and \<open>modulus.cpp\<close>, and
  \<open>getPrimes\<close> of \<open>utils/numth.cpp\<close>. The bases that the primality test of the value \<open>v\<close> draws are
  \<open>rnd v 1\<close>, \<open>rnd v 2\<close> and so on. \<open>None\<close> is a call that does not return, that
  divides by zero or that takes the last element of an empty vector.
\<close>

section \<open>The constructor\<close>

definition setValue :: "(u64 \<Rightarrow> nat \<Rightarrow> u64) \<Rightarrow> u64 \<Rightarrow> Modulus \<Rightarrow> Modulus res option" where
  "setValue rnd value m =
     (if value = 0 then
        Some (Inr (m\<lparr>mod_bit_count := 0, mod_uint64_count := 1, mod_value := 0,
          mod_const_ratio := [0, 0, 0], mod_is_prime := False\<rparr>))
      else if drop_bit 61 value \<noteq> 0 \<or> value = 1 then
        Some (Inl (Invalid_argument ''Value can be at most 61-bit and cannot be 1.''))
      else
        let m = m\<lparr>mod_value := value, mod_bit_count := getSignificantBitCount value\<rparr> in
        Option.bind (divideUint192Inplace [0, 0, 1] value) (\<lambda>r.
          case r of
            Inl e \<Rightarrow> Some (Inl e)
          | Inr (numerator, q) \<Rightarrow>
              let m = m\<lparr>mod_const_ratio := [q ! 0, q ! 1, numerator ! 0], mod_uint64_count := 1\<rparr>
              in map_option (\<lambda>p. Inr (m\<lparr>mod_is_prime := p\<rparr>)) (isPrime (rnd value) m 40)))"

definition new_Modulus :: "(u64 \<Rightarrow> nat \<Rightarrow> u64) \<Rightarrow> u64 \<Rightarrow> Modulus res option" where
  "new_Modulus rnd value =
     setValue rnd value \<lparr>mod_value = 0, mod_const_ratio = [0, 0, 0], mod_uint64_count = 0,
       mod_bit_count = 0, mod_is_prime = False\<rparr>"

definition reduce :: "Modulus \<Rightarrow> u64 \<Rightarrow> u64 res" where
  "reduce m value =
     (if mod_value m = 0 then Inl (Logic_error ''cannot reduce modulo a zero modulus'')
      else Inr (barrettReduce64 value m))"

section \<open>Searching primes\<close>

partial_function (option) getPrimes_loop ::
    "(u64 \<Rightarrow> nat \<Rightarrow> u64) \<Rightarrow> u64 \<Rightarrow> u64 \<Rightarrow> u64 \<Rightarrow> nat \<Rightarrow> Modulus list \<Rightarrow> (nat \<times> Modulus list) res option" where
  "getPrimes_loop rnd factor lower_bound value count destination =
     (if count > 0 \<and> value > lower_bound then
        Option.bind (new_Modulus rnd value) (\<lambda>r.
          case r of
            Inl e \<Rightarrow> Some (Inl e)
          | Inr new_mod \<Rightarrow>
              if modulus_isPrime new_mod
              then getPrimes_loop rnd factor lower_bound (value - factor) (count - 1) (destination @ [new_mod])
              else getPrimes_loop rnd factor lower_bound (value - factor) count destination)
      else Some (Inr (count, destination)))"

declare getPrimes_loop.simps [code]

definition getPrimes :: "(u64 \<Rightarrow> nat \<Rightarrow> u64) \<Rightarrow> u64 \<Rightarrow> nat \<Rightarrow> nat \<Rightarrow> Modulus list res option" where
  "getPrimes rnd factor bit_size count =
     (if factor = 0 then None
      else
      let value = (push_bit bit_size 1 - 1) div factor * factor + 1;
          lower_bound = push_bit (bit_size - 1) 1
      in map_option (\<lambda>r. rbind r (\<lambda>(count, destination).
           if count > 0 then Inl (Logic_error ''failed to find enough qualifying primes'')
           else Inr destination))
         (getPrimes_loop rnd factor lower_bound value count []))"

definition getPrime :: "(u64 \<Rightarrow> nat \<Rightarrow> u64) \<Rightarrow> u64 \<Rightarrow> nat \<Rightarrow> Modulus res option" where
  "getPrime rnd factor bit_size =
     map_option (\<lambda>r. rbind r (\<lambda>ms. Inr (ms ! 0))) (getPrimes rnd factor bit_size 1)"

section \<open>Coefficient moduli\<close>

text \<open>The checks that both overloads of \<open>Create\<close> make.\<close>

definition Create_checks :: "u64 \<Rightarrow> int list \<Rightarrow> unit res" where
  "Create_checks poly_modulus_degree bit_sizes =
     (if poly_modulus_degree > 131072 \<or> poly_modulus_degree < 2 \<or> getPowerOfTwo poly_modulus_degree < 0
        then Inl (Invalid_argument ''poly_modulus_degree is invalid'')
      else if length bit_sizes > 64 then Inl (Invalid_argument ''bit_sizes is invalid'')
      else if foldl max 2 bit_sizes > 60 \<or> foldl min 60 bit_sizes < 2
        then Inl (Invalid_argument ''bit_sizes is invalid'')
      else Inr ())"

definition count_sizes :: "int list \<Rightarrow> int \<Rightarrow> nat" where
  "count_sizes bit_sizes = foldl (\<lambda>count_table bsize. count_table(bsize := count_table bsize + 1)) (\<lambda>_. 0) bit_sizes"

text \<open>
  \<open>prime_table\<close>: one vector per bit size. The order in which the standard library runs through
  \<open>count_table\<close> is an argument.
\<close>

fun fill_table ::
    "(u64 \<Rightarrow> nat \<Rightarrow> u64) \<Rightarrow> u64 \<Rightarrow> (int \<Rightarrow> nat) \<Rightarrow> int list \<Rightarrow> (int \<Rightarrow> Modulus list) \<Rightarrow> (int \<Rightarrow> Modulus list) res option" where
  "fill_table rnd factor count_table [] prime_table = Some (Inr prime_table)"
| "fill_table rnd factor count_table (bsize # order) prime_table =
     Option.bind (getPrimes rnd factor (nat bsize) (count_table bsize)) (\<lambda>r.
       case r of
         Inl e \<Rightarrow> Some (Inl e)
       | Inr primes \<Rightarrow> fill_table rnd factor count_table order (prime_table(bsize := primes)))"

fun take_primes :: "int list \<Rightarrow> (int \<Rightarrow> Modulus list) \<Rightarrow> Modulus list \<Rightarrow> Modulus list option" where
  "take_primes [] prime_table result = Some result"
| "take_primes (bsize # bit_sizes) prime_table result =
     (if prime_table bsize = [] then None
      else take_primes bit_sizes (prime_table(bsize := butlast (prime_table bsize)))
        (result @ [last (prime_table bsize)]))"

definition Create_with :: "(u64 \<Rightarrow> nat \<Rightarrow> u64) \<Rightarrow> int list \<Rightarrow> u64 \<Rightarrow> int list \<Rightarrow> Modulus list res option" where
  "Create_with rnd order factor bit_sizes =
     Option.bind (fill_table rnd factor (count_sizes bit_sizes) order (\<lambda>_. [])) (\<lambda>r.
       case r of
         Inl e \<Rightarrow> Some (Inl e)
       | Inr prime_table \<Rightarrow> map_option Inr (take_primes bit_sizes prime_table []))"

definition Create :: "(u64 \<Rightarrow> nat \<Rightarrow> u64) \<Rightarrow> int list \<Rightarrow> u64 \<Rightarrow> int list \<Rightarrow> Modulus list res option" where
  "Create rnd order poly_modulus_degree bit_sizes =
     (case rbind (Create_checks poly_modulus_degree bit_sizes)
        (\<lambda>_. mul_safe uint64_t 2 (uint poly_modulus_degree)) of
        Inl e \<Rightarrow> Some (Inl e)
      | Inr factor \<Rightarrow> Create_with rnd order (word_of_int factor) bit_sizes)"

definition Create_plain ::
    "(u64 \<Rightarrow> nat \<Rightarrow> u64) \<Rightarrow> int list \<Rightarrow> u64 \<Rightarrow> Modulus \<Rightarrow> int list \<Rightarrow> Modulus list res option" where
  "Create_plain rnd order poly_modulus_degree plain_modulus bit_sizes =
     (case rbind (Create_checks poly_modulus_degree bit_sizes) (\<lambda>_.
        rbind (mul_safe uint64_t 2 (uint poly_modulus_degree)) (\<lambda>factor.
        mul_safe uint64_t factor
          (uint (modulus_value plain_modulus div gcd64 (modulus_value plain_modulus) (word_of_int factor))))) of
        Inl e \<Rightarrow> Some (Inl e)
      | Inr factor \<Rightarrow> Create_with rnd order (word_of_int factor) bit_sizes)"

definition Batching :: "(u64 \<Rightarrow> nat \<Rightarrow> u64) \<Rightarrow> u64 \<Rightarrow> int \<Rightarrow> Modulus res option" where
  "Batching rnd poly_modulus_degree bit_size =
     map_option (\<lambda>r. rbind r (\<lambda>ms. Inr (ms ! 0))) (Create rnd [bit_size] poly_modulus_degree [bit_size])"

definition Batching_many :: "(u64 \<Rightarrow> nat \<Rightarrow> u64) \<Rightarrow> int list \<Rightarrow> u64 \<Rightarrow> int list \<Rightarrow> Modulus list res option" where
  "Batching_many rnd order poly_modulus_degree bit_sizes = Create rnd order poly_modulus_degree bit_sizes"

section \<open>What the constructor returns\<close>

lemma isPrime_total:
  assumes "1 < unat (mod_value m)"
  shows "\<exists>b. isPrime dist m n = Some b"
proof -
  have "mod_value m - 1 \<noteq> 0" using assms by auto
  from odd_part_loop_value [OF this, of 0] obtain d r where "odd_part_loop (mod_value m - 1) 0 = Some (d, r)" by blast
  then show ?thesis unfolding isPrime_trial [OF assms] by auto
qed

lemma wf_modulusI:
  assumes "1 < unat v" "unat v < 2 ^ 61" "uval [c0, c1] = 2 ^ 128 div unat v" "unat c2 = 2 ^ 128 mod unat v"
    and "mod_value m = v" "mod_const_ratio m = [c0, c1, c2]" "mod_bit_count m = getSignificantBitCount v"
    "mod_uint64_count m = 1"
  shows "wf_modulus m"
  using assms by (simp add: wf_modulus_def has_ratio_def word_bits)

lemma ratio_words:
  assumes "1 < unat v" "unat v < 2 ^ 61"
  obtains r q where "divideUint192Inplace [0, 0, 1] v = Some (Inr (r, q))"
    "uval [q ! 0, q ! 1] = 2 ^ 128 div unat v" "unat (r ! 0) = 2 ^ 128 mod unat v"
proof -
  have n: "uval [0, 0, 1] = 2 ^ 128" by simp
  have "v \<noteq> 0" using assms(1) by auto
  from divideUint192Inplace_spec [OF _ this, of "[0, 0, 1]"] n
  obtain r q where rq: "divideUint192Inplace [0, 0, 1] v = Some (Inr (r, q))" "length r = 3" "length q = 3"
    "uval q = 2 ^ 128 div unat v" "uval r = 2 ^ 128 mod unat v" by auto
  obtain q0 q1 q2 where q: "q = [q0, q1, q2]" using rq(3) by (auto simp: numeral_3_eq_3 length_Suc_conv)
  obtain r0 r1 r2 where r: "r = [r0, r1, r2]" using rq(2) by (auto simp: numeral_3_eq_3 length_Suc_conv)
  have "uval q < 2 ^ 128" unfolding rq(4) using assms(1) by (intro div_less_dividend) simp_all
  then have "\<not> 0 < unat q2" unfolding q by simp
  then have "q2 = 0" by (simp add: unat_gt_0)
  moreover have "uval r < 2 ^ 61" unfolding rq(5) using assms by (intro order_less_trans [OF mod_less_divisor]) simp_all
  then have "\<not> 0 < unat r1" "\<not> 0 < unat r2" unfolding r by simp_all
  then have "r1 = 0" "r2 = 0" by (simp_all add: unat_gt_0)
  ultimately show ?thesis using rq q r by (intro that [OF rq(1)]) simp_all
qed

lemma new_Modulus_value:
  assumes "1 < unat v" "unat v < 2 ^ 61"
  obtains m where "new_Modulus rnd v = Some (Inr m)" "wf_modulus m" "mod_value m = v"
    "isPrime (rnd v) (m\<lparr>mod_is_prime := False\<rparr>) 40 = Some (mod_is_prime m)"
proof -
  obtain r q where rq: "divideUint192Inplace [0, 0, 1] v = Some (Inr (r, q))"
    "uval [q ! 0, q ! 1] = 2 ^ 128 div unat v" "unat (r ! 0) = 2 ^ 128 mod unat v"
    by (rule ratio_words [OF assms])
  define m where "m = \<lparr>mod_value = v, mod_const_ratio = [q ! 0, q ! 1, r ! 0], mod_uint64_count = 1,
    mod_bit_count = getSignificantBitCount v, mod_is_prime = False\<rparr>"
  obtain b where b: "isPrime (rnd v) m 40 = Some b"
    using isPrime_total [of m "rnd v" 40] assms(1) by (auto simp: m_def)
  have hi: "drop_bit 61 v = 0" using assms(2) by (simp add: word_unat_eq_iff unat_drop64)
  have "v \<noteq> 0" "v \<noteq> 1" using assms(1) by auto
  then have new: "new_Modulus rnd v = Some (Inr (m\<lparr>mod_is_prime := b\<rparr>))"
    using hi rq(1) b by (simp add: new_Modulus_def setValue_def m_def)
  show ?thesis
    by (rule that [OF new])
      (use b in \<open>auto intro!: wf_modulusI [OF assms rq(2,3)] simp: m_def\<close>)
qed

section \<open>What the search finds\<close>

text \<open>The values the search tries, from above, the test each has to pass, and those that pass.\<close>

fun tried :: "nat \<Rightarrow> nat \<Rightarrow> nat \<Rightarrow> nat list" where
  "tried f lo v = (if 0 < f \<and> lo < v then v # tried f lo (v - f) else [])"

declare tried.simps [simp del]

definition qualifies :: "(u64 \<Rightarrow> nat \<Rightarrow> u64) \<Rightarrow> nat \<Rightarrow> bool" where
  "qualifies rnd v =
     (case new_Modulus rnd (of_nat v) of
        None \<Rightarrow> False
      | Some r \<Rightarrow> (case r of Inl e \<Rightarrow> False | Inr m \<Rightarrow> mod_is_prime m))"

lemma tried_set:
  "0 < f \<Longrightarrow> set (tried f lo v) = {x. lo < x \<and> x \<le> v \<and> x mod f = v mod f}"
proof (induction f lo v rule: tried.induct)
  case (1 f lo v)
  show ?case
  proof (cases "lo < v")
    case True
    have gap: "x = v \<or> x \<le> v - f \<and> f \<le> v" if "x \<le> v" "x mod f = v mod f" for x
    proof -
      have "f dvd v - x" using that mod_eq_dvd_iff_nat [of x v f] by simp
      then show ?thesis using that(1) "1.prems" dvd_imp_le [of f "v - x"] by linarith
    qed
    have "(v - f) mod f = v mod f" if "f \<le> v" using that by (simp add: le_mod_geq)
    then show ?thesis
      using 1 True gap by (subst tried.simps) (auto, (metis diff_le_self le_trans not_less_zero diff_is_0_eq' nle_le)+)
  next
    case False
    then show ?thesis by (subst tried.simps) auto
  qed
qed

lemma tried_sorted: "sorted_wrt (>) (tried f lo v)"
proof (induction f lo v rule: tried.induct)
  case (1 f lo v)
  show ?case
  proof (cases "0 < f \<and> lo < v")
    case True
    then have "x < v" if "x \<in> set (tried f lo (v - f))" for x
    proof -
      have "x \<le> v - f" using that tried_set [of f lo "v - f"] True by simp
      then show ?thesis using True by linarith
    qed
    moreover have "sorted_wrt (>) (tried f lo (v - f))" using 1 True by blast
    ultimately show ?thesis using True by (subst tried.simps) simp
  next
    case False
    then show ?thesis by (subst tried.simps) auto
  qed
qed

lemma getPrimes_loop_value:
  assumes "unat value < 2 ^ 61" "unat value mod unat factor = 1 mod unat factor" "0 < unat factor" "0 < unat lo"
  shows "\<exists>ms. getPrimes_loop rnd factor lo value count dest =
      Some (Inr (count - length (filter (qualifies rnd) (tried (unat factor) (unat lo) (unat value))), dest @ ms)) \<and>
    map (\<lambda>m. unat (mod_value m)) ms =
      take count (filter (qualifies rnd) (tried (unat factor) (unat lo) (unat value))) \<and>
    (\<forall>m\<in>set ms. wf_modulus m \<and> mod_is_prime m)"
  using assms
proof (induction "unat value" arbitrary: "value" count dest rule: less_induct)
  case less
  let ?f = "unat factor" and ?v = "unat value"
  let ?A = "\<lambda>v. filter (qualifies rnd) (tried ?f (unat lo) v)"
  show ?case
  proof (cases "0 < count \<and> value > lo")
    case False
    then have "getPrimes_loop rnd factor lo value count dest = Some (Inr (count, dest))"
      by (subst getPrimes_loop.simps) (rule if_not_P)
    moreover have "count = 0 \<or> tried ?f (unat lo) ?v = []"
      using False by (subst tried.simps) (auto simp: word_less_nat_alt)
    ultimately show ?thesis by (intro exI [of _ "[]"]) auto
  next
    case True
    then have lo: "unat lo < ?v" by (simp add: word_less_nat_alt)
    obtain m where m: "new_Modulus rnd value = Some (Inr m)" "wf_modulus m" "mod_value m = value"
      using new_Modulus_value [of "value" rnd] less.prems(1,4) lo by (metis One_nat_def Suc_leI le_less_trans)
    have q: "qualifies rnd ?v = mod_is_prime m" using m(1) by (simp add: qualifies_def)
    have f: "?f < ?v"
    proof -
      have "1 \<le> ?v" using lo by linarith
      then have "?f dvd ?v - 1" using less.prems(2) by (simp only: mod_eq_dvd_iff_nat)
      then show ?thesis using dvd_imp_le [of ?f "?v - 1"] lo less.prems(4) by linarith
    qed
    then have s: "unat (value - factor) = ?v - ?f" by (simp add: unat_sub_if')
    have mod: "(?v - ?f) mod ?f = 1 mod ?f" using less.prems(2) f by (simp add: le_mod_geq)
    have step: "\<exists>ms. getPrimes_loop rnd factor lo (value - factor) count' dest' =
          Some (Inr (count' - length (?A (?v - ?f)), dest' @ ms)) \<and>
        map (\<lambda>m. unat (mod_value m)) ms = take count' (?A (?v - ?f)) \<and>
        (\<forall>m\<in>set ms. wf_modulus m \<and> mod_is_prime m)" for count' dest'
      using less.hyps [of "value - factor" count' dest'] less.prems f mod unfolding s by simp
    have A: "?A ?v = (if mod_is_prime m then ?v # ?A (?v - ?f) else ?A (?v - ?f))"
      using lo less.prems(3) q by (subst tried.simps) simp
    have loop: "getPrimes_loop rnd factor lo value count dest =
      (if mod_is_prime m then getPrimes_loop rnd factor lo (value - factor) (count - 1) (dest @ [m])
       else getPrimes_loop rnd factor lo (value - factor) count dest)"
      using True m(1) by (subst getPrimes_loop.simps) (simp add: modulus_isPrime_def)
    show ?thesis
    proof (cases "mod_is_prime m")
      case False
      then show ?thesis using step [of count dest] unfolding loop A by simp
    next
      case prime: True
      obtain ms where ms: "getPrimes_loop rnd factor lo (value - factor) (count - 1) (dest @ [m]) =
          Some (Inr (count - 1 - length (?A (?v - ?f)), (dest @ [m]) @ ms))"
        "map (\<lambda>m. unat (mod_value m)) ms = take (count - 1) (?A (?v - ?f))"
        "\<forall>m\<in>set ms. wf_modulus m \<and> mod_is_prime m"
        using step [of "count - 1" "dest @ [m]"] by blast
      show ?thesis
        unfolding loop A using ms prime True m(2,3)
        by (intro exI [of _ "m # ms"]) (auto simp: take_Cons')
    qed
  qed
qed

definition prime_list :: "(u64 \<Rightarrow> nat \<Rightarrow> u64) \<Rightarrow> nat \<Rightarrow> nat \<Rightarrow> nat list" where
  "prime_list rnd f b = filter (qualifies rnd) (tried f (2 ^ (b - 1)) ((2 ^ b - 1) div f * f + 1))"

lemma getPrimes_value:
  fixes rnd factor b n
  assumes "2 \<le> b" "b \<le> 61" "even (unat factor)" "0 < unat factor"
  defines "A \<equiv> prime_list rnd (unat factor) b"
  shows "if n \<le> length A
    then \<exists>ms. getPrimes rnd factor b n = Some (Inr ms) \<and> map (\<lambda>m. unat (mod_value m)) ms = take n A \<and>
      (\<forall>m\<in>set ms. wf_modulus m \<and> mod_is_prime m)
    else getPrimes rnd factor b n = Some (Inl (Logic_error ''failed to find enough qualifying primes''))"
proof -
  let ?f = "unat factor" and ?lo = "push_bit (b - 1) 1 :: u64"
  let ?start = "(push_bit b 1 - 1) div factor * factor + 1 :: u64"
  have exp: "unat (push_bit k 1 :: u64) = 2 ^ k" if "k < 64" for k
  proof -
    have "(2 :: nat) ^ k < 2 ^ 64" using that by (intro power_strict_increasing) simp_all
    then show ?thesis by (subst unat_push64) simp
  qed
  have "(2 :: nat) ^ b \<le> 2 ^ 61" using assms(2) by (intro power_increasing) simp_all
  moreover have "(2 ^ b - 1) div ?f * ?f < 2 ^ b - 1"
  proof -
    have "odd ((2 :: nat) ^ b - 1)" using assms(1) by simp
    then have "\<not> ?f dvd 2 ^ b - 1" using assms(3) dvd_trans by blast
    then have "(2 ^ b - 1) mod ?f \<noteq> 0" by (simp add: dvd_eq_mod_eq_0)
    then show ?thesis using div_mult_mod_eq [of "2 ^ b - 1" ?f] by linarith
  qed
  ultimately have small: "(2 ^ b - 1) div ?f * ?f + 1 < (2 :: nat) ^ 61" by linarith
  have "unat (push_bit b 1 - 1 :: u64) = 2 ^ b - 1" using exp [of b] assms(2) by (simp add: unat_minus_one)
  then have start: "unat ?start = (2 ^ b - 1) div ?f * ?f + 1"
    using small by (simp add: unat_add64 unat_mul64 unat_div)
  have lo: "unat ?lo = 2 ^ (b - 1)" using exp [of "b - 1"] assms(2) by simp
  have "((2 ^ b - 1) div ?f * ?f + 1) mod ?f = 1 mod ?f" by (rule mod_mult_self3)
  then obtain ms where ms: "getPrimes_loop rnd factor ?lo ?start n [] = Some (Inr (n - length A, ms))"
    "map (\<lambda>m. unat (mod_value m)) ms = take n A" "\<forall>m\<in>set ms. wf_modulus m \<and> mod_is_prime m"
    using getPrimes_loop_value [of ?start factor ?lo rnd n "[]"] small assms(4) unfolding start lo A_def prime_list_def by auto
  have "factor \<noteq> 0" using assms(4) by auto
  then have "getPrimes rnd factor b n =
    Some (if n - length A > 0 then Inl (Logic_error ''failed to find enough qualifying primes'') else Inr ms)"
    unfolding getPrimes_def Let_def ms(1) by simp
  then show ?thesis using ms(2,3) by auto
qed

lemma prime_list_props:
  assumes "2 \<le> b" "even f" "0 < f"
  shows "sorted_wrt (>) (prime_list rnd f b)"
    "v \<in> set (prime_list rnd f b) \<longleftrightarrow> 2 ^ (b - 1) < v \<and> v < 2 ^ b \<and> v mod f = 1 \<and> qualifies rnd v"
proof -
  show "sorted_wrt (>) (prime_list rnd f b)"
    unfolding prime_list_def by (intro sorted_wrt_filter tried_sorted)
  let ?s = "(2 ^ b - 1) div f * f + 1"
  have f2: "1 < f" using assms(2,3) by (cases "f = 1") auto
  have s: "?s mod f = 1" using f2 by (simp only: mod_mult_self3 mod_less)
  have lt: "?s \<le> 2 ^ b" using div_times_less_eq_dividend [of "2 ^ b - 1" f] one_le_power [of "2 :: nat" b] by linarith
  have ne: "v \<noteq> 2 ^ b" if "v mod f = 1"
  proof
    assume v: "v = 2 ^ b"
    have "even v" using v assms(1) by simp
    then have "even (v mod f)" using assms(2) by (simp add: dvd_mod)
    then show False using that by simp
  qed
  have le: "v \<le> ?s" if "v < 2 ^ b" "v mod f = 1"
  proof -
    have "v = v div f * f + 1" using that(2) by (metis div_mult_mod_eq)
    moreover have "v div f * f \<le> (2 ^ b - 1) div f * f"
      using that(1) by (intro mult_le_mono1 div_le_mono) simp
    ultimately show ?thesis by linarith
  qed
  show "v \<in> set (prime_list rnd f b) \<longleftrightarrow> 2 ^ (b - 1) < v \<and> v < 2 ^ b \<and> v mod f = 1 \<and> qualifies rnd v"
    unfolding prime_list_def set_filter tried_set [OF assms(3)] s
    using lt ne le by (auto dest: le_neq_trans order_trans)
qed

section \<open>What the creation returns\<close>

lemma count_sizes_count: "count_sizes xs s = count_list xs s"
proof -
  have "foldl (\<lambda>t s. t(s := t s + 1)) g xs s = g s + count_list xs s" for g :: "int \<Rightarrow> nat"
    by (induction xs arbitrary: g) auto
  then show ?thesis by (simp add: count_sizes_def)
qed

lemma Create_checks_value:
  "Create_checks N sizes = Inr () \<longleftrightarrow>
     (\<exists>k\<in>{1..17}. unat N = 2 ^ k) \<and> length sizes \<le> 64 \<and> (\<forall>s\<in>set sizes. 2 \<le> s \<and> s \<le> 60)"
  "Create_checks N sizes \<noteq> Inr () \<Longrightarrow> \<exists>msg. Create_checks N sizes = Inl (Invalid_argument msg)"
proof -
  have max: "foldl max m xs > (60 :: int) \<longleftrightarrow> m > 60 \<or> (\<exists>s\<in>set xs. s > 60)" for m xs
    by (induction xs arbitrary: m) auto
  have min: "foldl min m xs < (2 :: int) \<longleftrightarrow> m < 2 \<or> (\<exists>s\<in>set xs. s < 2)" for m xs
    by (induction xs arbitrary: m) auto
  have deg: "\<not> (N > 131072 \<or> N < 2 \<or> getPowerOfTwo N < 0) \<longleftrightarrow> (\<exists>k\<in>{1..17}. unat N = 2 ^ k)"
  proof
    assume *: "\<not> (N > 131072 \<or> N < 2 \<or> getPowerOfTwo N < 0)"
    then have "getPowerOfTwo N = int (nat (getPowerOfTwo N))" by simp
    then have k: "unat N = 2 ^ nat (getPowerOfTwo N)" unfolding getPowerOfTwo_spec .
    have "2 \<le> unat N" "unat N \<le> 131072" using * by (simp_all add: word_less_nat_alt)
    then have "(2 :: nat) ^ 1 \<le> 2 ^ nat (getPowerOfTwo N)" "2 ^ nat (getPowerOfTwo N) \<le> (2 :: nat) ^ 17"
      unfolding k by simp_all
    then have "1 \<le> nat (getPowerOfTwo N)" "nat (getPowerOfTwo N) \<le> 17"
      by (simp_all only: power_increasing_iff one_less_numeral_iff num.simps semiring_norm)
    then show "\<exists>k\<in>{1..17}. unat N = 2 ^ k" using k by auto
  next
    assume "\<exists>k\<in>{1..17}. unat N = 2 ^ k"
    then obtain k where k: "1 \<le> k" "k \<le> 17" "unat N = 2 ^ k" by auto
    have "(2 :: nat) ^ 1 \<le> 2 ^ k" "2 ^ k \<le> (2 :: nat) ^ 17" using k by (intro power_increasing; simp)+
    moreover have "getPowerOfTwo N = int k" unfolding getPowerOfTwo_spec by (rule k(3))
    ultimately show "\<not> (N > 131072 \<or> N < 2 \<or> getPowerOfTwo N < 0)"
      using k(3) by (simp add: word_less_nat_alt)
  qed
  show "Create_checks N sizes = Inr () \<longleftrightarrow>
     (\<exists>k\<in>{1..17}. unat N = 2 ^ k) \<and> length sizes \<le> 64 \<and> (\<forall>s\<in>set sizes. 2 \<le> s \<and> s \<le> 60)"
  proof -
    have "(\<forall>s\<in>set sizes. 2 \<le> s \<and> s \<le> 60) \<longleftrightarrow> \<not> ((2 :: int) > 60 \<or> (\<exists>s\<in>set sizes. s > 60)) \<and> \<not> ((60 :: int) < 2 \<or> (\<exists>s\<in>set sizes. s < 2))"
      by (simp add: not_less) blast
    then show ?thesis unfolding Create_checks_def max min deg [symmetric] by simp
  qed
  show "\<exists>msg. Create_checks N sizes = Inl (Invalid_argument msg)" if "Create_checks N sizes \<noteq> Inr ()"
    using that by (auto simp: Create_checks_def split: if_splits)
qed

lemma fill_table_value:
  assumes "\<forall>s\<in>set order. 2 \<le> s \<and> s \<le> 60" "even (unat factor)" "0 < unat factor" "distinct order"
  shows "if \<forall>s\<in>set order. ct s \<le> length (prime_list rnd (unat factor) (nat s))
    then \<exists>tb'. fill_table rnd factor ct order tb = Some (Inr tb') \<and> (\<forall>s. s \<notin> set order \<longrightarrow> tb' s = tb s) \<and>
      (\<forall>s\<in>set order. map (\<lambda>m. unat (mod_value m)) (tb' s) = take (ct s) (prime_list rnd (unat factor) (nat s)) \<and>
        (\<forall>m\<in>set (tb' s). wf_modulus m \<and> mod_is_prime m))
    else fill_table rnd factor ct order tb = Some (Inl (Logic_error ''failed to find enough qualifying primes''))"
  using assms(1,4)
proof (induction order arbitrary: tb)
  case Nil
  then show ?case by simp
next
  case (Cons s order)
  let ?P = "\<lambda>s. prime_list rnd (unat factor) (nat s)"
  have s: "2 \<le> nat s" "nat s \<le> 61" using Cons.prems(1) by auto
  note v = getPrimes_value [OF s assms(2,3), of "ct s" rnd]
  show ?case
  proof (cases "ct s \<le> length (?P s)")
    case False
    then show ?thesis using v by auto
  next
    case True
    then obtain ms where ms: "getPrimes rnd factor (nat s) (ct s) = Some (Inr ms)"
      "map (\<lambda>m. unat (mod_value m)) ms = take (ct s) (?P s)" "\<forall>m\<in>set ms. wf_modulus m \<and> mod_is_prime m"
      using v by auto
    show ?thesis
    proof (cases "\<forall>s\<in>set order. ct s \<le> length (?P s)")
      case False
      then show ?thesis using Cons.IH [of "tb(s := ms)"] Cons.prems ms(1) True by auto
    next
      case all: True
      then obtain tb' where tb': "fill_table rnd factor ct order (tb(s := ms)) = Some (Inr tb')"
        "\<forall>t. t \<notin> set order \<longrightarrow> tb' t = (tb(s := ms)) t"
        "\<forall>s\<in>set order. map (\<lambda>m. unat (mod_value m)) (tb' s) = take (ct s) (?P s) \<and> (\<forall>m\<in>set (tb' s). wf_modulus m \<and> mod_is_prime m)"
        using Cons.IH [of "tb(s := ms)"] Cons.prems by auto
      have "tb' s = ms" using tb'(2) Cons.prems(2) by simp
      then show ?thesis using tb' ms True all Cons.prems(2) by auto
    qed
  qed
qed

lemma take_primes_value:
  assumes "\<forall>s. length (tb s) = count_list sizes s" "\<forall>s. distinct (map h (tb s))"
    "\<forall>s t. s \<noteq> t \<longrightarrow> h ` set (tb s) \<inter> h ` set (tb t) = {}"
  shows "\<exists>ms. take_primes sizes tb res = Some (res @ ms) \<and> length ms = length sizes \<and>
    (\<forall>s. map snd (filter (\<lambda>p. fst p = s) (zip sizes ms)) = rev (tb s)) \<and> distinct (map h ms)"
  using assms
proof (induction sizes arbitrary: tb res)
  case Nil
  then show ?case by simp
next
  case (Cons b sizes)
  let ?tb = "tb(b := butlast (tb b))" and ?m = "last (tb b)"
  have ne: "tb b \<noteq> []" using Cons.prems(1) by (metis count_list.simps(2) list.size(3) Zero_neq_Suc add.commute plus_1_eq_Suc)
  then have tb: "tb b = butlast (tb b) @ [?m]" by simp
  have sub: "set (?tb s) \<subseteq> set (tb s)" for s by (auto dest: in_set_butlastD)
  have 1: "\<forall>s. length (?tb s) = count_list sizes s" using Cons.prems(1) by auto
  have 2: "\<forall>s. distinct (map h (?tb s))"
    using Cons.prems(2) by (auto simp: map_butlast distinct_butlast)
  have 3: "\<forall>s t. s \<noteq> t \<longrightarrow> h ` set (?tb s) \<inter> h ` set (?tb t) = {}"
    using Cons.prems(3) sub by blast
  obtain ms where ms: "take_primes sizes ?tb (res @ [?m]) = Some ((res @ [?m]) @ ms)" "length ms = length sizes"
    "\<forall>s. map snd (filter (\<lambda>p. fst p = s) (zip sizes ms)) = rev (?tb s)" "distinct (map h ms)"
    using Cons.IH [OF 1 2 3, of "res @ [?m]"] by blast
  have rev: "map snd (filter (\<lambda>p. fst p = s) (zip (b # sizes) (?m # ms))) = rev (tb s)" for s
  proof (cases "s = b")
    case True
    have "rev (tb b) = ?m # rev (butlast (tb b))" by (subst tb) simp
    then show ?thesis using True ms(3) by (simp del: rev_eq_Cons_iff)
  next
    case False
    then show ?thesis using ms(3) by simp
  qed
  have in_tb: "\<exists>s. m \<in> set (?tb s)" if m: "m \<in> set ms" for m
  proof -
    obtain i where i: "i < length ms" "ms ! i = m" using m by (auto simp: in_set_conv_nth)
    then have "(sizes ! i, m) \<in> set (zip sizes ms)" using ms(2) by (auto simp: in_set_zip)
    then have "m \<in> set (map snd (filter (\<lambda>p. fst p = sizes ! i) (zip sizes ms)))" by force
    then have "m \<in> set (?tb (sizes ! i))" using ms(3) by (metis set_rev)
    then show ?thesis by blast
  qed
  have "h ?m \<notin> h ` set (?tb s)" for s
  proof (cases "s = b")
    case True
    have "distinct (map h (butlast (tb b) @ [?m]))" using Cons.prems(2) tb by metis
    then show ?thesis using True by auto
  next
    case False
    then show ?thesis using Cons.prems(3) ne by (metis IntI empty_iff fun_upd_other imageI last_in_set)
  qed
  then have "distinct (map h (?m # ms))" using ms(4) in_tb by fastforce
  then show ?case
    using ms(1,2) rev ne by (intro exI [of _ "?m # ms"]) simp
qed

text \<open>
  What \<open>Create\<close> promises: the moduli come in the order of the sizes asked for, and those of one size are
  the largest qualifying values of that size, the smallest of them first.
\<close>

definition coeff_moduli :: "(u64 \<Rightarrow> nat \<Rightarrow> u64) \<Rightarrow> nat \<Rightarrow> int list \<Rightarrow> Modulus list \<Rightarrow> bool" where
  "coeff_moduli rnd f sizes ms \<longleftrightarrow>
     length ms = length sizes \<and> distinct (map mod_value ms) \<and>
     (\<forall>i<length sizes. wf_modulus (ms ! i) \<and> mod_is_prime (ms ! i) \<and>
        mod_bit_count (ms ! i) = sizes ! i \<and> unat (mod_value (ms ! i)) mod f = 1) \<and>
     (\<forall>s\<in>set sizes. map (\<lambda>p. unat (mod_value (snd p))) (filter (\<lambda>p. fst p = s) (zip sizes ms)) =
        rev (take (count_list sizes s) (prime_list rnd f (nat s))))"

lemma Create_with_value:
  assumes sizes: "\<forall>s\<in>set sizes. 2 \<le> s \<and> s \<le> 60" and order: "distinct order" "set order = set sizes"
    and f: "even (unat factor)" "0 < unat factor"
  shows "if \<forall>s\<in>set sizes. count_list sizes s \<le> length (prime_list rnd (unat factor) (nat s))
    then \<exists>ms. Create_with rnd order factor sizes = Some (Inr ms) \<and> coeff_moduli rnd (unat factor) sizes ms
    else Create_with rnd order factor sizes =
      Some (Inl (Logic_error ''failed to find enough qualifying primes''))"
proof -
  let ?f = "unat factor" and ?h = "\<lambda>m. unat (mod_value m)"
  let ?P = "\<lambda>s. prime_list rnd ?f (nat s)" and ?n = "count_list sizes"
  have cs: "count_sizes sizes = ?n" by (rule ext) (rule count_sizes_count)
  have fo: "\<forall>s\<in>set order. 2 \<le> s \<and> s \<le> 60" using sizes order(2) by simp
  note fill = fill_table_value [OF fo f order(1), of "count_sizes sizes" rnd "\<lambda>_. []", unfolded order(2) cs]
  show ?thesis
  proof (cases "\<forall>s\<in>set sizes. ?n s \<le> length (?P s)")
    case False
    then have "fill_table rnd factor ?n order (\<lambda>_. []) =
        Some (Inl (Logic_error ''failed to find enough qualifying primes''))" using fill by (simp only: if_False)
    then show ?thesis unfolding if_not_P [OF False] by (simp add: Create_with_def cs)
  next
    case True
    then obtain tb where tb: "fill_table rnd factor ?n order (\<lambda>_. []) = Some (Inr tb)"
      "\<forall>s. s \<notin> set sizes \<longrightarrow> tb s = []"
      "\<forall>s\<in>set sizes. map ?h (tb s) = take (?n s) (?P s) \<and> (\<forall>m\<in>set (tb s). wf_modulus m \<and> mod_is_prime m)"
      using fill by auto
    have sz: "2 \<le> nat s" if "s \<in> set sizes" for s using that sizes by auto
    note P = prime_list_props [OF sz f]
    have 1: "\<forall>s. length (tb s) = ?n s"
    proof
      fix s
      show "length (tb s) = ?n s"
      proof (cases "s \<in> set sizes")
        case in_sizes: True
        then have "length (map ?h (tb s)) = ?n s" using tb(3) True by simp
        then show ?thesis by simp
      next
        case False
        then show ?thesis using tb(2) by simp
      qed
    qed
    have mem: "?h m \<in> set (?P s)" if "m \<in> set (tb s)" "s \<in> set sizes" for m s
      using that tb(3) by (metis (no_types, lifting) image_eqI in_set_takeD list.set_map)
    have 2: "\<forall>s. distinct (map ?h (tb s))"
    proof
      fix s
      show "distinct (map ?h (tb s))"
      proof (cases "s \<in> set sizes")
        case True
        have "sorted_wrt (<) (rev (?P s))" unfolding sorted_wrt_rev by (rule P(1) [OF True])
        then have "distinct (?P s)" by (simp only: strict_sorted_iff distinct_rev)
        then show ?thesis using tb(3) True by (simp add: distinct_take)
      qed (use tb(2) in simp)
    qed
    have bits: "nbits (?h m) = nat s" if "m \<in> set (tb s)" "s \<in> set sizes" for m s
      using mem [OF that] sz [OF that(2)] unfolding P(2) [OF that(2)] by (intro nbits_eqI) auto
    have 3: "\<forall>s t. s \<noteq> t \<longrightarrow> ?h ` set (tb s) \<inter> ?h ` set (tb t) = {}"
    proof (intro allI impI)
      fix s t :: int
      assume st: "s \<noteq> t"
      show "?h ` set (tb s) \<inter> ?h ` set (tb t) = {}"
      proof (cases "s \<in> set sizes \<and> t \<in> set sizes")
        case True
        then have "nat s \<noteq> nat t" using st sizes by fastforce
        then have "?h m \<noteq> ?h n" if "m \<in> set (tb s)" "n \<in> set (tb t)" for m n
          using bits [OF that(1)] bits [OF that(2)] True by metis
        then show ?thesis by blast
      qed (use tb(2) in auto)
    qed
    obtain ms where ms: "take_primes sizes tb [] = Some ([] @ ms)" "length ms = length sizes"
      "\<forall>s. map snd (filter (\<lambda>p. fst p = s) (zip sizes ms)) = rev (tb s)" "distinct (map ?h ms)"
      using take_primes_value [OF 1 2 3] by blast
    have "coeff_moduli rnd ?f sizes ms"
      unfolding coeff_moduli_def
    proof (intro conjI allI ballI impI)
      show "length ms = length sizes" by (rule ms(2))
      show "distinct (map mod_value ms)"
        using ms(4) by (simp add: distinct_map inj_on_def)
      fix s
      assume s: "s \<in> set sizes"
      have "map (\<lambda>p. ?h (snd p)) (filter (\<lambda>p. fst p = s) (zip sizes ms))
          = map ?h (map snd (filter (\<lambda>p. fst p = s) (zip sizes ms)))" by simp
      also have "\<dots> = rev (take (?n s) (?P s))" unfolding ms(3) [rule_format] using tb(3) s by (simp flip: rev_map)
      finally show "map (\<lambda>p. ?h (snd p)) (filter (\<lambda>p. fst p = s) (zip sizes ms)) = rev (take (?n s) (?P s))" .
    next
      fix i
      assume i: "i < length sizes"
      let ?s = "sizes ! i" and ?m = "ms ! i"
      have s: "?s \<in> set sizes" using i by simp
      have "(?s, ?m) \<in> set (zip sizes ms)" using i ms(2) by (auto simp: in_set_zip)
      then have "?m \<in> set (map snd (filter (\<lambda>p. fst p = ?s) (zip sizes ms)))" by force
      then have m: "?m \<in> set (tb ?s)" unfolding ms(3) [rule_format] by simp
      then show wf: "wf_modulus ?m" and "mod_is_prime ?m" using tb(3) s by blast+
      show "?h ?m mod ?f = 1" using mem [OF m s] unfolding P(2) [OF s] by simp
      show "mod_bit_count ?m = ?s"
        using wf bits [OF m s] sz [OF s] by (simp add: wf_modulus_def)
    qed
    then show ?thesis using True tb(1) ms(1) by (simp add: Create_with_def cs)
  qed
qed

lemma gcd64_cofactor:
  assumes "p \<noteq> 0"
  shows "uint (p div gcd64 p f) = uint p div gcd (uint p) (uint f)"
proof -
  have "uint (gcd64 p f) = gcd (uint p) (uint f)"
    using arg_cong [OF gcd64_value [of p f], of int] by (simp flip: gcd_int_int_eq)
  then show ?thesis by (simp add: uint_div)
qed

lemma u64_of_int: "0 \<le> k \<Longrightarrow> k < 2 ^ 64 \<Longrightarrow> unat (word_of_int k :: u64) = nat k"
  by (simp add: unat_eq_nat_uint uint_word_of_int)

lemma mul_safe_u64:
  assumes "0 \<le> a" "a < 2 ^ 64" "0 \<le> b" "b < 2 ^ 64"
  shows "mul_safe uint64_t a b = (if a * b < 2 ^ 64 then Inr (a * b) else Inl (Logic_error ''unsigned overflow''))"
proof (cases "a = 0")
  case False
  then have "tdiv 18446744073709551615 a < b \<longleftrightarrow> 18446744073709551615 < a * b"
    using assms(1) by (simp add: tdiv_nonneg int_div_less_iff mult.commute)
  then show ?thesis using False assms
    by (auto simp: mul_safe_def type_max_def static_cast_def take_bit_int_eq_self_iff not_less)
qed (simp add: mul_safe_def static_cast_def)

lemma degree_factor:
  assumes "unat N = 2 ^ k" "k \<le> 17"
  shows "mul_safe uint64_t 2 (uint N) = Inr (2 * uint N)" "unat (word_of_int (2 * uint N) :: u64) = 2 * unat N"
    "0 \<le> 2 * uint N" "2 * uint N < 2 ^ 64"
proof -
  have "(2 :: nat) ^ k \<le> 2 ^ 17" using assms(2) by (intro power_increasing) simp_all
  then have "int (unat N) \<le> int 131072" unfolding of_nat_le_iff assms(1) by simp
  then have u: "uint N \<le> 131072" by simp
  then show "mul_safe uint64_t 2 (uint N) = Inr (2 * uint N)" by (simp add: mul_safe_u64)
  show "unat (word_of_int (2 * uint N) :: u64) = 2 * unat N"
    using u by (subst u64_of_int) (simp_all add: nat_mult_distrib)
  show "0 \<le> 2 * uint N" "2 * uint N < 2 ^ 64" using u by simp_all
qed

text \<open>Every prime qualifies when the bases are drawn from the range of the distribution.\<close>

lemma prime_qualifies:
  assumes "prime_nat v" "v < 2 ^ 61"
    and "v \<notin> set small_primes \<longrightarrow> (\<forall>i. 1 \<le> i \<and> i < 40 \<longrightarrow> 3 \<le> rnd (of_nat v) i \<and> rnd (of_nat v) i \<le> of_nat v - 1)"
  shows "qualifies rnd v"
proof -
  have v: "1 < v" "unat (of_nat v :: u64) = v"
    using prime_natD(1) [OF assms(1)] assms(2) by (simp_all add: unat_of_nat)
  then obtain m where m: "new_Modulus rnd (of_nat v) = Some (Inr m)" "wf_modulus m" "mod_value m = of_nat v"
    "isPrime (rnd (of_nat v)) (m\<lparr>mod_is_prime := False\<rparr>) 40 = Some (mod_is_prime m)"
    using new_Modulus_value [of "of_nat v" rnd] assms(2) by metis
  let ?m = "m\<lparr>mod_is_prime := False\<rparr>"
  have val: "unat (mod_value ?m) = v" using m(3) v(2) by simp
  have "isPrime (rnd (of_nat v)) ?m 40 = Some True"
  proof (cases "v \<in> set small_primes")
    case True
    then show ?thesis using isPrime_trial [of ?m "rnd (of_nat v)" 40] v(1) unfolding val by simp
  next
    case False
    have "has_ratio ?m" using wf_modulusD(1) [OF m(2)] by (simp add: has_ratio_def)
    then show ?thesis
      using isPrime_complete [of ?m 40 "rnd (of_nat v)"] assms(1,3) False m(3) val by simp
  qed
  then show ?thesis using m(1,4) by (simp add: qualifies_def)
qed

lemma small_primes_prime: "v \<in> set small_primes \<Longrightarrow> prime_nat v"
proof -
  assume v: "v \<in> set small_primes"
  have "\<forall>v\<in>set small_primes. 1 < v \<and> (\<forall>d\<in>set [0..<Suc v]. d dvd v \<longrightarrow> d = 1 \<or> d = v)" by code_simp
  then have *: "1 < v" "\<forall>d\<in>set [0..<Suc v]. d dvd v \<longrightarrow> d = 1 \<or> d = v" using v by blast+
  have "d = 1 \<or> d = v" if "d dvd v" for d
    using *(2) that dvd_imp_le [OF that] *(1) by (simp del: upt_Suc)
  then show "prime_nat v" using *(1) by (simp add: prime_nat_def)
qed

section \<open>Properties\<close>

text \<open>
  C38. The constructor: zero gives the zero modulus, one and values of more than 61 bits are refused,
  and for every other value it returns a well-formed modulus whose flag is the result of the
  primality test, whatever bases are drawn.
\<close>

theorem new_Modulus_correct:
  "if v = 0 then \<exists>m. new_Modulus rnd v = Some (Inr m) \<and> modulus_isZero m \<and> \<not> modulus_isPrime m \<and> reduce m x = Inl (Logic_error ''cannot reduce modulo a zero modulus'')
   else if v = 1 \<or> 2 ^ 61 \<le> unat v then
     new_Modulus rnd v = Some (Inl (Invalid_argument ''Value can be at most 61-bit and cannot be 1.''))
   else \<exists>m r. new_Modulus rnd v = Some (Inr m) \<and> wf_modulus m \<and> modulus_value m = v \<and>
     isPrime (rnd v) (m\<lparr>mod_is_prime := False\<rparr>) 40 = Some (modulus_isPrime m) \<and>
     reduce m x = Inr r \<and> unat r = unat x mod unat v"
proof -
  consider "v = 0" | "v = 1 \<or> 2 ^ 61 \<le> unat v" "v \<noteq> 0" | "1 < unat v" "unat v < 2 ^ 61"
    by (metis One_nat_def not_le unat_1 unat_eq_zero less_one linorder_neqE_nat word_unat_eq_iff)
  then show ?thesis
  proof cases
    case 1
    then show ?thesis
      by (simp add: new_Modulus_def setValue_def modulus_isZero_def modulus_isPrime_def reduce_def)
  next
    case 2
    have "drop_bit 61 v \<noteq> 0" if "2 ^ 61 \<le> unat v"
      using that by (simp add: word_unat_eq_iff unat_drop64 div_eq_0_iff)
    then show ?thesis using 2 by (auto simp: new_Modulus_def setValue_def)
  next
    case 3
    have v: "v \<noteq> 0" "\<not> (v = 1 \<or> 2 ^ 61 \<le> unat v)" using 3 by auto
    obtain m where m: "new_Modulus rnd v = Some (Inr m)" "wf_modulus m" "mod_value m = v"
      "isPrime (rnd v) (m\<lparr>mod_is_prime := False\<rparr>) 40 = Some (mod_is_prime m)"
      by (rule new_Modulus_value [OF 3])
    have "unat (barrettReduce64 x m) = unat x mod unat v"
      using barrettReduce64_value [OF wf_modulusD(1) [OF m(2)]] m(3) by simp
    then show ?thesis
      unfolding if_not_P [OF v(1)] if_not_P [OF v(2)]
      using m v(1) by (intro exI [of _ m] exI [of _ "barrettReduce64 x m"])
        (simp add: modulus_value_def modulus_isPrime_def reduce_def)
  qed
qed

text \<open>
  C37. \<open>CoeffModulus::Create\<close> keeps its contract: it refuses a degree that is not a power of two between 2
  and 131072, more than 64 sizes and sizes outside 2 to 60; otherwise it either finds too few values
  of some size that pass the test and throws, or returns distinct well-formed moduli, one per size in
  the order given, of exactly that size and congruent to one modulo twice the degree, which are the
  largest of their size that pass the test. The order in which the standard library visits the sizes
  makes no difference.
\<close>

theorem Create_correct:
  assumes "distinct order" "set order = set sizes"
  shows "if \<not> ((\<exists>k\<in>{1..17}. unat N = 2 ^ k) \<and> length sizes \<le> 64 \<and> (\<forall>s\<in>set sizes. 2 \<le> s \<and> s \<le> 60))
    then \<exists>msg. Create rnd order N sizes = Some (Inl (Invalid_argument msg))
    else if \<forall>s\<in>set sizes. count_list sizes s \<le> length (prime_list rnd (2 * unat N) (nat s))
    then \<exists>ms. Create rnd order N sizes = Some (Inr ms) \<and> coeff_moduli rnd (2 * unat N) sizes ms
    else Create rnd order N sizes = Some (Inl (Logic_error ''failed to find enough qualifying primes''))"
proof (cases "Create_checks N sizes = Inr ()")
  case False
  then have no: "\<not> ((\<exists>k\<in>{1..17}. unat N = 2 ^ k) \<and> length sizes \<le> 64 \<and> (\<forall>s\<in>set sizes. 2 \<le> s \<and> s \<le> 60))"
    by (simp only: Create_checks_value(1) not_False_eq_True)
  show ?thesis
    unfolding if_P [OF no] using Create_checks_value(2) [OF False] by (auto simp: Create_def)
next
  case True
  note ok = True [unfolded Create_checks_value(1)]
  then obtain k where k: "1 \<le> k" "k \<le> 17" "unat N = 2 ^ k" by auto
  note f = degree_factor [OF k(3,2)]
  have Create: "Create rnd order N sizes = Create_with rnd order (word_of_int (2 * uint N)) sizes"
    by (simp add: Create_def True f(1))
  have "\<forall>s\<in>set sizes. 2 \<le> s \<and> s \<le> 60" using ok by blast
  from Create_with_value [OF this assms, of "word_of_int (2 * uint N)" rnd]
  show ?thesis using ok k unfolding Create f(2) by simp
qed

lemma create_example: "\<forall>s\<in>set [4, 3]. count_list [4, 3] s \<le> length (prime_list (\<lambda>v i. 3) 4 (nat s))"
proof -
  have "13 \<in> set (prime_list (\<lambda>v i. 3) 4 4)" "5 \<in> set (prime_list (\<lambda>v i. 3) 4 3)"
    using prime_qualifies [of 13 "\<lambda>v i. 3"] prime_qualifies [of 5 "\<lambda>v i. 3"]
      small_primes_prime [of 13] small_primes_prime [of 5]
    by (simp_all add: prime_list_props(2) small_primes_def)
  then show ?thesis by (auto simp: Suc_le_eq dest: length_pos_if_in_set)
qed

theorem Create_correct_witness:
  "\<exists>ms. Create (\<lambda>v i. 3) [3, 4] 2 [4, 3] = Some (Inr ms) \<and> coeff_moduli (\<lambda>v i. 3) (2 * unat (2 :: u64)) [4, 3] ms"
proof -
  have ok: "(\<exists>k\<in>{1..17}. unat (2 :: u64) = 2 ^ k) \<and> length [4 :: int, 3] \<le> 64 \<and> (\<forall>s\<in>set [4 :: int, 3]. 2 \<le> s \<and> s \<le> 60)"
    by (auto intro: bexI [of _ 1])
  have four: "2 * unat (2 :: u64) = 4" by simp
  have "distinct [3 :: int, 4]" "set [3 :: int, 4] = set [4, 3]" by auto
  from Create_correct [OF this, of "2 :: u64" "\<lambda>v i. 3"] show ?thesis
    unfolding four if_not_P [OF iffD2 [OF not_not ok]] if_P [OF create_example] .
qed

definition modulus_4 :: Modulus where
  "modulus_4 = \<lparr>mod_value = 4, mod_const_ratio = [0, 4611686018427387904, 0],
     mod_uint64_count = 1, mod_bit_count = 3, mod_is_prime = False\<rparr>"

text \<open>The factor of the second overload is the least common multiple.\<close>

lemma plain_factor:
  assumes N: "unat N = 2 ^ k" "k \<le> 17" and p: "p \<noteq> 0"
  shows "mul_safe uint64_t (2 * uint N) (uint (p div gcd64 p (word_of_int (2 * uint N)))) =
    (if lcm (2 * unat N) (unat p) < 2 ^ 64 then Inr (int (lcm (2 * unat N) (unat p)))
     else Inl (Logic_error ''unsigned overflow''))"
proof -
  let ?f = "word_of_int (2 * uint N) :: u64"
  let ?c = "uint (p div gcd64 p ?f)"
  note f = degree_factor [OF N]
  have u: "uint ?f = 2 * uint N" using f(3,4) by (intro uint_word_of_int_id) simp_all
  have c: "0 \<le> ?c" "?c < 2 ^ 64" using unsigned_less [of "p div gcd64 p ?f", where 'a=int] by simp_all
  have "2 * uint N * ?c = int (2 * unat N * (unat p div gcd (unat p) (2 * unat N)))"
    unfolding gcd64_cofactor [OF p] u by (simp add: zdiv_int flip: gcd_int_int_eq)
  also have "2 * unat N * (unat p div gcd (unat p) (2 * unat N)) = lcm (2 * unat N) (unat p)"
    unfolding lcm_nat_def by (simp add: div_mult_swap gcd.commute)
  finally show ?thesis using mul_safe_u64 [OF f(3,4) c] by simp
qed

text \<open>
  The overload with a plaintext modulus does the same for the least common multiple of twice the
  degree and the plaintext modulus, and throws when that does not fit in 64 bits. With the zero
  plaintext modulus and at least one size the code divides by zero.
\<close>

theorem Create_plain_correct:
  fixes N :: u64 and p :: Modulus
  assumes "distinct order" "set order = set sizes" "Create_checks N sizes = Inr ()"
  defines "L \<equiv> lcm (2 * unat N) (unat (modulus_value p))"
  shows "if modulus_value p = 0 then sizes \<noteq> [] \<longrightarrow> Create_plain rnd order N p sizes = None
    else if 2 ^ 64 \<le> L then Create_plain rnd order N p sizes = Some (Inl (Logic_error ''unsigned overflow''))
    else if \<forall>s\<in>set sizes. count_list sizes s \<le> length (prime_list rnd L (nat s))
    then \<exists>ms. Create_plain rnd order N p sizes = Some (Inr ms) \<and> coeff_moduli rnd L sizes ms
    else Create_plain rnd order N p sizes = Some (Inl (Logic_error ''failed to find enough qualifying primes''))"
proof -
  let ?p = "modulus_value p" and ?f = "word_of_int (2 * uint N) :: u64"
  note ok = assms(3) [unfolded Create_checks_value(1)]
  then obtain k where k: "1 \<le> k" "k \<le> 17" "unat N = 2 ^ k" by auto
  note f = degree_factor [OF k(3,2)]
  have Cp: "Create_plain rnd order N p sizes = (case mul_safe uint64_t (2 * uint N) (uint (?p div gcd64 ?p ?f)) of
      Inl e \<Rightarrow> Some (Inl e) | Inr factor \<Rightarrow> Create_with rnd order (word_of_int factor) sizes)"
    by (simp only: Create_plain_def assms(3) f(1) rbind_simps)
  consider "?p = 0" | "?p \<noteq> 0" "2 ^ 64 \<le> L" | "?p \<noteq> 0" "L < 2 ^ 64" by linarith
  then show ?thesis
  proof cases
    case 1
    have "mul_safe uint64_t (2 * uint N) 0 = Inr 0" using mul_safe_u64 [OF f(3,4), of 0] by simp
    then have Create: "Create_plain rnd order N p sizes = Create_with rnd order 0 sizes"
      unfolding Cp 1 by simp
    have "Create_with rnd order 0 sizes = None" if "sizes \<noteq> []"
      using that assms(2) by (cases order) (simp_all add: Create_with_def getPrimes_def)
    then show ?thesis unfolding if_P [OF 1] Create by blast
  next
    case 2
    then show ?thesis unfolding Cp plain_factor [OF k(3,2) 2(1)] L_def by simp
  next
    case 3
    then have uL: "unat (word_of_int (int L) :: u64) = L" by (subst u64_of_int) simp_all
    have Create: "Create_plain rnd order N p sizes = Create_with rnd order (word_of_int (int L)) sizes"
      using 3(2) unfolding Cp plain_factor [OF k(3,2) 3(1)] L_def by simp
    have L: "0 < L" "even L" using 3(1) k unfolding L_def by (auto simp: unat_gt_0 lcm_pos_nat)
    have "\<forall>s\<in>set sizes. 2 \<le> s \<and> s \<le> 60" using ok by blast
    from Create_with_value [OF this assms(1,2), of "word_of_int (int L)" rnd]
    show ?thesis using 3 L unfolding Create uL by simp
  qed
qed

theorem Create_plain_correct_witness:
  "\<exists>ms. Create_plain (\<lambda>v i. 3) [3, 4] 2 modulus_4 [4, 3] = Some (Inr ms) \<and> coeff_moduli (\<lambda>v i. 3) 4 [4, 3] ms"
proof -
  have d: "distinct [3 :: int, 4]" "set [3 :: int, 4] = set [4, 3]" by auto
  have c: "Create_checks 2 [4, 3] = Inr ()" by (auto simp: Create_checks_value(1) intro: bexI [of _ 1])
  have p: "modulus_value modulus_4 \<noteq> 0" "\<not> 2 ^ 64 \<le> lcm (2 * unat (2 :: u64)) (unat (modulus_value modulus_4))"
    "lcm (2 * unat (2 :: u64)) (unat (modulus_value modulus_4)) = 4"
    by (simp_all add: modulus_4_def modulus_value_def)
  from Create_plain_correct [OF d c, where p = modulus_4 and rnd = "\<lambda>v i. 3"] show ?thesis
    unfolding if_not_P [OF p(1)] if_not_P [OF p(2)] unfolding p(3) if_P [OF create_example] .
qed

end
