(* ===== verification/Rns_Tool.thy ===== *)
theory Rns_Tool
  imports Rns_Converter Coeff_Modulus
begin

unbundle bit_operations_syntax

text \<open>
  The class \<open>RNSTool\<close> of \<open>utils/rns.h\<close> and \<open>utils/rns.cpp\<close> of \<open>heu/library/algorithms/seal_gpu/\<close>: the bases and
  constants that the schemes need to work on ciphertexts in residue form, and the operations that divide, round and
  change the base of the coefficients. Polynomials of \<open>n\<close> coefficients are stored modulus by modulus.
\<close>

section \<open>The class\<close>

definition SEAL_INTERNAL_MOD_BIT_COUNT :: nat where "SEAL_INTERNAL_MOD_BIT_COUNT = 61"
definition SEAL_COEFF_MOD_COUNT_MAX :: nat where "SEAL_COEFF_MOD_COUNT_MAX = 64"
definition SEAL_COEFF_MOD_COUNT_MIN :: nat where "SEAL_COEFF_MOD_COUNT_MIN = 1"

abbreviation zero_operand :: MultiplyUIntModOperand where
  "zero_operand \<equiv> \<lparr>mop_operand = 0, mop_quotient = 0\<rparr>"

record RNSTool =
  rt_coeff_count :: nat
  rt_base_q :: RNSBase
  rt_base_B :: RNSBase
  rt_base_Bsk :: RNSBase
  rt_base_Bsk_m_tilde :: RNSBase
  rt_base_t_gamma :: "RNSBase option"
  rt_base_q_to_Bsk_conv :: BaseConverter
  rt_base_q_to_m_tilde_conv :: BaseConverter
  rt_base_B_to_q_conv :: BaseConverter
  rt_base_B_to_m_sk_conv :: BaseConverter
  rt_base_q_to_t_gamma_conv :: "BaseConverter option"
  rt_base_q_to_t_conv :: "BaseConverter option"
  rt_inv_prod_q_mod_Bsk :: "MultiplyUIntModOperand list"
  rt_neg_inv_prod_q_mod_m_tilde :: MultiplyUIntModOperand
  rt_inv_prod_B_mod_m_sk :: MultiplyUIntModOperand
  rt_inv_gamma_mod_t :: MultiplyUIntModOperand
  rt_prod_B_mod_q :: "u64 list"
  rt_inv_m_tilde_mod_Bsk :: "MultiplyUIntModOperand list"
  rt_prod_q_mod_Bsk :: "u64 list"
  rt_neg_inv_q_mod_t_gamma :: "MultiplyUIntModOperand list"
  rt_prod_t_gamma_mod_q :: "MultiplyUIntModOperand list"
  rt_inv_q_last_mod_q :: "MultiplyUIntModOperand list"
  rt_base_Bsk_ntt_tables :: "NTTTables list"
  rt_m_tilde :: Modulus
  rt_m_sk :: Modulus
  rt_t :: Modulus
  rt_gamma :: Modulus
  rt_inv_q_last_mod_t :: u64
  rt_q_last_mod_t :: u64

section \<open>The precomputation\<close>

text \<open>The array of the results of a loop whose body may throw.\<close>

fun rmap :: "('a \<Rightarrow> 'b res) \<Rightarrow> 'a list \<Rightarrow> 'b list res" where
  "rmap f [] = Inr []"
| "rmap f (x # xs) = rbind (f x) (\<lambda>y. rbind (rmap f xs) (\<lambda>ys. Inr (y # ys)))"

text \<open>\<open>if (!tryInvertUintMod(v, m, temp)) throw logic_error("invalid rns bases")\<close>.\<close>

definition invert_or_throw :: "u64 \<Rightarrow> Modulus \<Rightarrow> u64 res" where
  "invert_or_throw v m =
     rbind (tryInvertUintMod v (modulus_value m)) (\<lambda>r.
       case r of None \<Rightarrow> Inl (Logic_error ''invalid rns bases'') | Some x \<Rightarrow> Inr x)"

text \<open>
  \<open>catch (const logic_error &)\<close> also catches the classes derived from \<open>logic_error\<close>: \<open>invalid_argument\<close> and
  \<open>out_of_range\<close>.
\<close>

definition catch_logic_error :: "exn \<Rightarrow> 'a res \<Rightarrow> 'a res" where
  "catch_logic_error e r =
     (case r of
        Inr a \<Rightarrow> Inr a
      | Inl e' \<Rightarrow> Inl (case e' of Logic_error _ \<Rightarrow> e | Invalid_argument _ \<Rightarrow> e | Out_of_range _ \<Rightarrow> e | _ \<Rightarrow> e'))"

text \<open>
  The constants of the tool, once the bases and the converters are there; the initial values of the
  members that a zero plaintext modulus leaves alone are those of the class.
\<close>

definition RNSTool_constants :: "RNSTool \<Rightarrow> RNSTool res" where
  "RNSTool_constants T =
     (let q = rt_base_q T; B = rt_base_B T; Bsk = rt_base_Bsk T; t = rt_t T; gamma = rt_gamma T;
          m_sk = rt_m_sk T; m_tilde = rt_m_tilde T;
          base_q_size = rns_size q; base_B_size = rns_size B; base_Bsk_size = rns_size Bsk;
          prod_B_mod_q = map (\<lambda>i. moduloUint (take base_B_size (rns_base_prod B)) (rns_base q ! i)) [0..<base_q_size]
      in rbind (rmap (\<lambda>i. rbind (invert_or_throw (moduloUint (take base_q_size (rns_base_prod q)) (rns_base Bsk ! i)) (rns_base Bsk ! i))
                 (\<lambda>temp. Inr (set_operand temp (rns_base Bsk ! i) zero_operand))) [0..<base_Bsk_size]) (\<lambda>inv_prod_q_mod_Bsk.
      rbind (invert_or_throw (moduloUint (take base_B_size (rns_base_prod B)) m_sk) m_sk) (\<lambda>inv_prod_B.
      rbind (rmap (\<lambda>i. rbind (invert_or_throw (barrettReduce64 (modulus_value m_tilde) (rns_base Bsk ! i)) (rns_base Bsk ! i))
                 (\<lambda>temp. Inr (set_operand temp (rns_base Bsk ! i) zero_operand))) [0..<base_Bsk_size]) (\<lambda>inv_m_tilde_mod_Bsk.
      rbind (invert_or_throw (moduloUint (take base_q_size (rns_base_prod q)) m_tilde) m_tilde) (\<lambda>inv_prod_q.
      let prod_q_mod_Bsk = map (\<lambda>i. moduloUint (take base_q_size (rns_base_prod q)) (rns_base Bsk ! i)) [0..<base_Bsk_size];
          T = T\<lparr>rt_prod_B_mod_q := prod_B_mod_q, rt_inv_prod_q_mod_Bsk := inv_prod_q_mod_Bsk,
                rt_inv_prod_B_mod_m_sk := set_operand inv_prod_B m_sk zero_operand,
                rt_inv_m_tilde_mod_Bsk := inv_m_tilde_mod_Bsk,
                rt_neg_inv_prod_q_mod_m_tilde := set_operand (negateUintMod inv_prod_q m_tilde) m_tilde zero_operand,
                rt_prod_q_mod_Bsk := prod_q_mod_Bsk\<rparr>
      in rbind (case rt_base_t_gamma T of
           None \<Rightarrow> Inr T
         | Some t_gamma \<Rightarrow>
             rbind (invert_or_throw (barrettReduce64 (modulus_value gamma) t) t) (\<lambda>inv_gamma.
             rbind (rmap (\<lambda>i. let b = rns_base t_gamma ! i in
                        rbind (invert_or_throw (moduloUint (take base_q_size (rns_base_prod q)) b) b)
                          (\<lambda>temp. Inr (set_operand (negateUintMod temp b) b zero_operand))) [0..<2]) (\<lambda>neg_inv_q_mod_t_gamma.
             Inr (T\<lparr>rt_inv_gamma_mod_t := set_operand inv_gamma t zero_operand,
                    rt_prod_t_gamma_mod_q := map (\<lambda>i. set_operand
                      (multiplyUintMod (modulus_value (rns_base t_gamma ! 0)) (modulus_value (rns_base t_gamma ! 1)) (rns_base q ! i))
                      (rns_base q ! i) zero_operand) [0..<base_q_size],
                    rt_neg_inv_q_mod_t_gamma := neg_inv_q_mod_t_gamma\<rparr>)))) (\<lambda>T.
      rbind (rmap (\<lambda>i. rbind (invert_or_throw (modulus_value (rns_base q ! (base_q_size - 1))) (rns_base q ! i))
                 (\<lambda>temp. Inr (set_operand temp (rns_base q ! i) zero_operand))) [0..<base_q_size - 1]) (\<lambda>inv_q_last_mod_q.
      let T = T\<lparr>rt_inv_q_last_mod_q := inv_q_last_mod_q\<rparr>
      in if modulus_value t \<noteq> 0 then
           rbind (invert_or_throw (modulus_value (rns_base q ! (base_q_size - 1))) t) (\<lambda>inv_q_last_mod_t.
           Inr (T\<lparr>rt_inv_q_last_mod_t := inv_q_last_mod_t,
                  rt_q_last_mod_t := barrettReduce64 (modulus_value (rns_base q ! (base_q_size - 1))) t\<rparr>))
         else Inr T)))))))"

text \<open>
  The bases and converters from the primes that the search found: \<open>m_sk\<close>, \<open>gamma\<close> and then the base \<open>B\<close>.
  \<open>rd\<close> are the words drawn in the search for roots of unity.
\<close>

definition RNSTool_bases ::
    "(nat \<Rightarrow> nat \<Rightarrow> u32) \<Rightarrow> nat \<Rightarrow> nat \<Rightarrow> nat \<Rightarrow> RNSBase \<Rightarrow> Modulus \<Rightarrow> Modulus list \<Rightarrow> Modulus \<Rightarrow> RNSTool res" where
  "RNSTool_bases rd coeff_count_power coeff_count base_B_size q t baseconv_primes m_tilde =
     (let m_sk = baseconv_primes ! 0; gamma = baseconv_primes ! 1;
          base_B_primes = take base_B_size (drop 2 baseconv_primes);
          base_q = copy_RNSBase q
      in rbind (new_RNSBase base_B_primes) (\<lambda>base_B.
         rbind (RNSBase_extend_value base_B m_sk) (\<lambda>base_Bsk.
         rbind (RNSBase_extend_value base_Bsk m_tilde) (\<lambda>base_Bsk_m_tilde.
         rbind (if \<not> modulus_isZero t then rbind (new_RNSBase [t, gamma]) (\<lambda>b. Inr (Some b)) else Inr None) (\<lambda>base_t_gamma.
         rbind (catch_logic_error (Logic_error ''invalid rns bases'')
                  (CreateNTTTables rd coeff_count_power (take (base_B_size + 1) (rns_base base_Bsk)))) (\<lambda>tables.
         rbind (if \<not> modulus_isZero t
                then rbind (new_RNSBase [t]) (\<lambda>base_t. rbind (new_BaseConverter base_q base_t) (\<lambda>c. Inr (Some c)))
                else Inr None) (\<lambda>q_to_t.
         rbind (new_BaseConverter base_q base_Bsk) (\<lambda>q_to_Bsk.
         rbind (new_RNSBase [m_tilde]) (\<lambda>base_m_tilde.
         rbind (new_BaseConverter base_q base_m_tilde) (\<lambda>q_to_m_tilde.
         rbind (new_BaseConverter base_B base_q) (\<lambda>B_to_q.
         rbind (new_RNSBase [m_sk]) (\<lambda>base_m_sk.
         rbind (new_BaseConverter base_B base_m_sk) (\<lambda>B_to_m_sk.
         rbind (case base_t_gamma of None \<Rightarrow> Inr None
                | Some b \<Rightarrow> rbind (new_BaseConverter base_q b) (\<lambda>c. Inr (Some c))) (\<lambda>q_to_t_gamma.
         RNSTool_constants
           \<lparr>rt_coeff_count = coeff_count, rt_base_q = base_q, rt_base_B = base_B, rt_base_Bsk = base_Bsk,
            rt_base_Bsk_m_tilde = base_Bsk_m_tilde, rt_base_t_gamma = base_t_gamma,
            rt_base_q_to_Bsk_conv = q_to_Bsk, rt_base_q_to_m_tilde_conv = q_to_m_tilde,
            rt_base_B_to_q_conv = B_to_q, rt_base_B_to_m_sk_conv = B_to_m_sk,
            rt_base_q_to_t_gamma_conv = q_to_t_gamma, rt_base_q_to_t_conv = q_to_t,
            rt_inv_prod_q_mod_Bsk = [], rt_neg_inv_prod_q_mod_m_tilde = zero_operand,
            rt_inv_prod_B_mod_m_sk = zero_operand, rt_inv_gamma_mod_t = zero_operand, rt_prod_B_mod_q = [],
            rt_inv_m_tilde_mod_Bsk = [], rt_prod_q_mod_Bsk = [], rt_neg_inv_q_mod_t_gamma = [],
            rt_prod_t_gamma_mod_q = [], rt_inv_q_last_mod_q = [], rt_base_Bsk_ntt_tables = tables,
            rt_m_tilde = m_tilde, rt_m_sk = m_sk, rt_t = t, rt_gamma = gamma,
            rt_inv_q_last_mod_t = 1, rt_q_last_mod_t = 1\<rparr>))))))))))))))"

text \<open>
  The checks of the parameters, the number of primes, and the search for them; \<open>None\<close> when the search divides by zero.
  \<open>rnd\<close> are the bases that the primality test draws.
\<close>

definition base_B_size_of :: "RNSBase \<Rightarrow> Modulus \<Rightarrow> nat" where
  "base_B_size_of q t =
     (let base_q_size = rns_size q;
          total_coeff_bit_count = getSignificantBitCountUint (take base_q_size (rns_base_prod q))
      in if 32 + bitCount t + total_coeff_bit_count
            \<ge> int SEAL_INTERNAL_MOD_BIT_COUNT * int base_q_size + int SEAL_INTERNAL_MOD_BIT_COUNT
         then base_q_size + 1 else base_q_size)"

definition RNSTool_initialize ::
    "(u64 \<Rightarrow> nat \<Rightarrow> u64) \<Rightarrow> (nat \<Rightarrow> nat \<Rightarrow> u32) \<Rightarrow> u64 \<Rightarrow> RNSBase \<Rightarrow> Modulus \<Rightarrow> RNSTool res option" where
  "RNSTool_initialize rnd rd poly_modulus_degree q t =
     (if rns_size q < SEAL_COEFF_MOD_COUNT_MIN \<or> rns_size q > SEAL_COEFF_MOD_COUNT_MAX
      then Some (Inl (Invalid_argument ''rnsbase is invalid''))
      else
        let coeff_count_power = getPowerOfTwo poly_modulus_degree in
        if coeff_count_power < 0 \<or> poly_modulus_degree > 131072 \<or> poly_modulus_degree < 2
        then Some (Inl (Invalid_argument ''poly_modulus_degree is invalid''))
        else
          let coeff_count = unat poly_modulus_degree;
              base_B_size = base_B_size_of q t;
              base_Bsk_m_tilde_size = base_B_size + 1 + 1
          in case productFitsIn uint64_t (int coeff_count) (int base_Bsk_m_tilde_size) of
               Inl e \<Rightarrow> Some (Inl e)
             | Inr fits \<Rightarrow>
                 if \<not> fits then Some (Inl (Logic_error ''invalid parameters''))
                 else case mul_safe uint64_t 2 (int coeff_count) of
                        Inl e \<Rightarrow> Some (Inl e)
                      | Inr factor \<Rightarrow>
                          Option.bind (getPrimes rnd (word_of_int factor) SEAL_INTERNAL_MOD_BIT_COUNT base_Bsk_m_tilde_size) (\<lambda>r.
                          case r of
                            Inl e \<Rightarrow> Some (Inl e)
                          | Inr baseconv_primes \<Rightarrow>
                              Option.bind (new_Modulus rnd (push_bit 32 1)) (\<lambda>r.
                              case r of
                                Inl e \<Rightarrow> Some (Inl e)
                              | Inr m_tilde \<Rightarrow>
                                  Some (RNSTool_bases rd (nat coeff_count_power) coeff_count base_B_size q t baseconv_primes m_tilde))))"

section \<open>Division by the last modulus\<close>

definition divideAndRoundqLastInplace :: "RNSTool \<Rightarrow> u64 list \<Rightarrow> u64 list" where
  "divideAndRoundqLastInplace T input =
     (let n = rt_coeff_count T; q = rt_base_q T; last = rns_size q - 1;
          last_modulus = rns_base q ! last;
          half = drop_bit 1 (modulus_value last_modulus);
          input = on_slice (last * n) n (\<lambda>x. addPolyScalarCoeffmod x n half last_modulus x) input;
          last_input = drop (last * n) input
      in parts_loop (\<lambda>i x.
           let b = rns_base q ! i;
               temp = moduloPolyCoeffs last_input n b (replicate n 0);
               half_mod = barrettReduce64 half b;
               temp = subPolyScalarCoeffmod temp n half_mod b temp;
               x = subPolyCoeffmod x temp n b x
           in multiplyPolyScalarCoeffmod_operand x n (rt_inv_q_last_mod_q T ! i) b x) n last 0 input)"

definition divideAndRoundqLastNttInplace :: "RNSTool \<Rightarrow> NTTTables list \<Rightarrow> u64 list \<Rightarrow> u64 list" where
  "divideAndRoundqLastNttInplace T rns_ntt_tables input =
     (let n = rt_coeff_count T; q = rt_base_q T; last = rns_size q - 1;
          last_modulus = rns_base q ! last;
          half = drop_bit 1 (modulus_value last_modulus);
          input = on_slice (last * n) n (\<lambda>x. inverseNttNegacyclicHarvey x (rns_ntt_tables ! last)) input;
          input = on_slice (last * n) n (\<lambda>x. addPolyScalarCoeffmod x n half last_modulus x) input;
          last_input = drop (last * n) input
      in parts_loop (\<lambda>i x.
           let b = rns_base q ! i;
               temp = (if modulus_value b < modulus_value last_modulus
                       then moduloPolyCoeffs last_input n b (replicate n 0)
                       else setUint (take n last_input));
               neg_half_mod = modulus_value b - barrettReduce64 half b;
               temp = coeff_loop (\<lambda>j. temp ! j + neg_half_mod) n 0 temp;
               qi_lazy = push_bit 2 (modulus_value b);
               temp = nttNegacyclicHarveyLazy temp (rns_ntt_tables ! i);
               x = coeff_loop (\<lambda>j. x ! j + (qi_lazy - temp ! j)) n 0 x
           in multiplyPolyScalarCoeffmod_operand x n (rt_inv_q_last_mod_q T ! i) b x) n last 0 input)"

definition modTAndDivideqLastInplace :: "RNSTool \<Rightarrow> u64 list \<Rightarrow> u64 list" where
  "modTAndDivideqLastInplace T input =
     (let n = rt_coeff_count T; q = rt_base_q T; last = rns_size q - 1; plain_modulus = rt_t T;
          last_modulus_value = modulus_value (rns_base q ! last);
          last_input = drop (last * n) input;
          neg_c_last_mod_t = moduloPolyCoeffs last_input n plain_modulus (replicate n 0);
          neg_c_last_mod_t = negatePolyCoeffmod neg_c_last_mod_t n plain_modulus neg_c_last_mod_t;
          neg_c_last_mod_t = (if rt_inv_q_last_mod_t T \<noteq> 1
            then multiplyPolyScalarCoeffmod neg_c_last_mod_t n (rt_inv_q_last_mod_t T) plain_modulus neg_c_last_mod_t
            else neg_c_last_mod_t)
      in parts_loop (\<lambda>i x.
           let b = rns_base q ! i;
               delta_mod_q_i = moduloPolyCoeffs neg_c_last_mod_t n b (replicate n 0);
               delta_mod_q_i = multiplyPolyScalarCoeffmod delta_mod_q_i n last_modulus_value b delta_mod_q_i;
               two_times_q_i = push_bit 1 (modulus_value b);
               x = coeff_loop (\<lambda>j. x ! j + (two_times_q_i - barrettReduce64 (last_input ! j) b - delta_mod_q_i ! j)) n 0 x
           in multiplyPolyScalarCoeffmod_operand x n (rt_inv_q_last_mod_q T ! i) b x) n last 0 input)"

section \<open>Changes of base\<close>

definition fastbconvSk :: "RNSTool \<Rightarrow> u64 list \<Rightarrow> u64 list \<Rightarrow> u64 list" where
  "fastbconvSk T input destination =
     (let n = rt_coeff_count T; q = rt_base_q T; base_B_size = rns_size (rt_base_B T); m_sk = rt_m_sk T;
          destination = fastConvertArray (rt_base_B_to_q_conv T) input n destination;
          temp = fastConvertArray (rt_base_B_to_m_sk_conv T) input n (replicate n 0);
          alpha_sk = coeff_loop (\<lambda>i. multiplyUintMod_operand (temp ! i + (modulus_value m_sk - input ! (base_B_size * n + i)))
                                       (rt_inv_prod_B_mod_m_sk T) m_sk) n 0 (replicate n 0);
          m_sk_div_2 = drop_bit 1 (modulus_value m_sk)
      in parts_loop (\<lambda>i dest.
           let b = rns_base q ! i;
               prod_B_mod_q_elt = set_operand (rt_prod_B_mod_q T ! i) b zero_operand;
               neg_prod_B_mod_q_elt = set_operand (modulus_value b - rt_prod_B_mod_q T ! i) b zero_operand
           in coeff_loop (\<lambda>j.
                if alpha_sk ! j > m_sk_div_2
                then multiplyAddUintMod_operand (negateUintMod (alpha_sk ! j) m_sk) prod_B_mod_q_elt (dest ! j) b
                else multiplyAddUintMod_operand (alpha_sk ! j) neg_prod_B_mod_q_elt (dest ! j) b) n 0 dest)
           n (rns_size q) 0 destination)"

definition smMrq :: "RNSTool \<Rightarrow> u64 list \<Rightarrow> u64 list \<Rightarrow> u64 list" where
  "smMrq T input destination =
     (let n = rt_coeff_count T; Bsk = rt_base_Bsk T; m_tilde = rt_m_tilde T;
          input_m_tilde = drop (rns_size Bsk * n) input;
          m_tilde_div_2 = drop_bit 1 (modulus_value m_tilde);
          r_m_tilde = multiplyPolyScalarCoeffmod_operand input_m_tilde n (rt_neg_inv_prod_q_mod_m_tilde T) m_tilde (replicate n 0)
      in parts_loop (\<lambda>i.
           let b = rns_base Bsk ! i;
               prod_q_mod_Bsk_elt = set_operand (rt_prod_q_mod_Bsk T ! i) b zero_operand
           in coeff_loop (\<lambda>j.
                let temp = r_m_tilde ! j;
                    temp = (if temp \<ge> m_tilde_div_2 then temp + (modulus_value b - modulus_value m_tilde) else temp)
                in multiplyUintMod_operand (multiplyAddUintMod_operand temp prod_q_mod_Bsk_elt (input ! (i * n + j)) b)
                     (rt_inv_m_tilde_mod_Bsk T ! i) b) n 0) n (rns_size Bsk) 0 destination)"

definition fastFloor :: "RNSTool \<Rightarrow> u64 list \<Rightarrow> u64 list \<Rightarrow> u64 list" where
  "fastFloor T input destination =
     (let n = rt_coeff_count T; q = rt_base_q T; Bsk = rt_base_Bsk T;
          destination = fastConvertArray (rt_base_q_to_Bsk_conv T) input n destination;
          input = drop (rns_size q * n) input
      in parts_loop (\<lambda>i dest. coeff_loop (\<lambda>j.
           multiplyUintMod_operand (input ! (i * n + j) + (modulus_value (rns_base Bsk ! i) - dest ! j))
             (rt_inv_prod_q_mod_Bsk T ! i) (rns_base Bsk ! i)) n 0 dest) n (rns_size Bsk) 0 destination)"

definition fastbconvmTilde :: "RNSTool \<Rightarrow> u64 list \<Rightarrow> u64 list \<Rightarrow> u64 list" where
  "fastbconvmTilde T input destination =
     (let n = rt_coeff_count T; q = rt_base_q T; Bsk_size = rns_size (rt_base_Bsk T);
          temp = multiplyPolyScalarCoeffmod_rns input (rns_size q) n (modulus_value (rt_m_tilde T)) (rns_base q)
                   (replicate (n * rns_size q) 0)
      in fastConvertArray (rt_base_q_to_Bsk_conv T) temp n (take (Bsk_size * n) destination) @
         fastConvertArray (rt_base_q_to_m_tilde_conv T) temp n (drop (Bsk_size * n) destination))"

section \<open>Decryption\<close>

text \<open>Without a plaintext modulus the base \<open>{t, gamma}\<close> and the converters are null pointers: the result is then \<open>None\<close>.\<close>

definition decryptScaleAndRound :: "RNSTool \<Rightarrow> u64 list \<Rightarrow> u64 list \<Rightarrow> u64 list option" where
  "decryptScaleAndRound T input destination =
     (case (rt_base_t_gamma T, rt_base_q_to_t_gamma_conv T) of
        (Some t_gamma, Some conv) \<Rightarrow>
          let n = rt_coeff_count T; q = rt_base_q T; t = rt_t T; gamma = rt_gamma T;
              temp = parts_loop (\<lambda>i. multiplyPolyScalarCoeffmod_operand (drop (i * n) input) n (rt_prod_t_gamma_mod_q T ! i) (rns_base q ! i))
                       n (rns_size q) 0 (replicate (n * rns_size q) 0);
              temp_t_gamma = fastConvertArray conv temp n (replicate (n * rns_size t_gamma) 0);
              temp_t_gamma = parts_loop (\<lambda>i x. multiplyPolyScalarCoeffmod_operand x n (rt_neg_inv_q_mod_t_gamma T ! i)
                                                 (rns_base t_gamma ! i) x) n (rns_size t_gamma) 0 temp_t_gamma;
              gamma_div_2 = drop_bit 1 (modulus_value (rns_base t_gamma ! 1))
          in Some (coeff_loop (\<lambda>i.
               let d = (if temp_t_gamma ! (n + i) > gamma_div_2
                        then addUintMod (temp_t_gamma ! i) (barrettReduce64 (modulus_value gamma - temp_t_gamma ! (n + i)) t) t
                        else subUintMod (temp_t_gamma ! i) (barrettReduce64 (temp_t_gamma ! (n + i)) t) t)
               in if d \<noteq> 0 then multiplyUintMod_operand d (rt_inv_gamma_mod_t T) t else d) n 0 destination)
      | _ \<Rightarrow> None)"

definition decryptModt :: "RNSTool \<Rightarrow> u64 list \<Rightarrow> u64 list \<Rightarrow> u64 list res option" where
  "decryptModt T phase destination =
     map_option (\<lambda>conv. exactConvertArray conv phase (rt_coeff_count T) destination) (rt_base_q_to_t_conv T)"

end
