(* ===== verification/Enc_Parms.thy ===== *)
theory Enc_Parms
  imports Random_Gen Rns_Tool
begin

text \<open>
  The encryption parameters of \<open>encryptionparams.h\<close> and \<open>encryptionparams.cpp\<close> and the hash function of
  \<open>utils/hash.h\<close> that identifies them, in \<open>heu/library/algorithms/seal_gpu/\<close>. A setter that throws leaves
  through the exception; the object that it may have changed by then is not observed.
\<close>

section \<open>The hash function\<close>

type_synonym ParmsID = "u64 list"

definition hash_block_uint64_count :: nat where "hash_block_uint64_count = 4"
definition hash_block_byte_count :: nat where "hash_block_byte_count = hash_block_uint64_count * 8"

text \<open>The bytes of an array of words, and the words of an array of bytes.\<close>

definition bytes_of_words :: "u64 list \<Rightarrow> u8 list" where
  "bytes_of_words ws = concat (map store64 ws)"

definition words_of_bytes :: "u8 list \<Rightarrow> u64 list" where
  "words_of_bytes bs = map (\<lambda>i. load64 (take 8 (drop (8 * i) bs))) [0..<length bs div 8]"

text \<open>\<open>S0\<close> is the uninitialised state on the stack of \<open>blake2b\<close>.\<close>

definition HashFunction_hash :: "blake2b_state \<Rightarrow> u64 list \<Rightarrow> nat \<Rightarrow> ParmsID \<Rightarrow> ParmsID res" where
  "HashFunction_hash S0 input uint64_count destination =
     (let (r, out) = blake2b S0 (Some (bytes_of_words destination)) hash_block_byte_count
                       (Some (bytes_of_words (take uint64_count input))) (uint64_count * 8) None 0
      in if r \<noteq> 0 then Inl (Runtime_error ''blake2b failed'')
         else case out of None \<Rightarrow> Inr destination | Some bs \<Rightarrow> Inr (words_of_bytes bs))"

section \<open>The class\<close>

datatype SchemeType = scheme_none | bfv | ckks | bgv

definition scheme_code :: "SchemeType \<Rightarrow> u64" where
  "scheme_code s = (case s of scheme_none \<Rightarrow> 0 | bfv \<Rightarrow> 1 | ckks \<Rightarrow> 2 | bgv \<Rightarrow> 3)"

definition isValidScheme :: "u8 \<Rightarrow> bool" where
  "isValidScheme scheme = (scheme = 0 \<or> scheme = 1 \<or> scheme = 2 \<or> scheme = 3)"

definition scheme_of_code :: "u8 \<Rightarrow> SchemeType" where
  "scheme_of_code c = (if c = 0 then scheme_none else if c = 1 then bfv else if c = 2 then ckks else bgv)"

definition parmsIDZero :: ParmsID where "parmsIDZero = [0, 0, 0, 0]"

record EncryptionParameters =
  ep_scheme :: SchemeType
  ep_poly_modulus_degree :: u64
  ep_coeff_modulus :: "Modulus list"
  ep_random_generator :: "UniformRandomGeneratorFactory option"
  ep_plain_modulus :: Modulus
  ep_parms_id :: ParmsID

definition zero_modulus :: Modulus where
  "zero_modulus = \<lparr>mod_value = 0, mod_const_ratio = [0, 0, 0], mod_uint64_count = 1, mod_bit_count = 0, mod_is_prime = False\<rparr>"

text \<open>The words that are hashed: the scheme, the degree, the coefficient moduli and the plaintext modulus.\<close>

definition param_data :: "EncryptionParameters \<Rightarrow> u64 list" where
  "param_data E =
     [scheme_code (ep_scheme E), ep_poly_modulus_degree E] @ map modulus_value (ep_coeff_modulus E) @
     take (uint64Count (ep_plain_modulus E)) [modulus_value (ep_plain_modulus E)]"

definition computeParmsID :: "blake2b_state \<Rightarrow> EncryptionParameters \<Rightarrow> EncryptionParameters res" where
  "computeParmsID S0 E =
     (let total_uint64_count = 1 + 1 + length (ep_coeff_modulus E) + uint64Count (ep_plain_modulus E)
      in rbind (HashFunction_hash S0 (param_data E) total_uint64_count (ep_parms_id E)) (\<lambda>parms_id.
         if parms_id = parmsIDZero then Inl (Logic_error ''parms_id cannot be zero'')
         else Inr (E\<lparr>ep_parms_id := parms_id\<rparr>)))"

definition default_parameters :: "SchemeType \<Rightarrow> EncryptionParameters" where
  "default_parameters scheme =
     \<lparr>ep_scheme = scheme, ep_poly_modulus_degree = 0, ep_coeff_modulus = [], ep_random_generator = None,
      ep_plain_modulus = zero_modulus, ep_parms_id = parmsIDZero\<rparr>"

definition new_EncryptionParameters :: "blake2b_state \<Rightarrow> SchemeType \<Rightarrow> EncryptionParameters res" where
  "new_EncryptionParameters S0 scheme = computeParmsID S0 (default_parameters scheme)"

definition new_EncryptionParameters_code :: "blake2b_state \<Rightarrow> u8 \<Rightarrow> EncryptionParameters res" where
  "new_EncryptionParameters_code S0 scheme =
     (if \<not> isValidScheme scheme then Inl (Invalid_argument ''unsupported scheme'')
      else computeParmsID S0 (default_parameters (scheme_of_code scheme)))"

definition setPolyModulusDegree :: "blake2b_state \<Rightarrow> u64 \<Rightarrow> EncryptionParameters \<Rightarrow> EncryptionParameters res" where
  "setPolyModulusDegree S0 poly_modulus_degree E =
     (if ep_scheme E = scheme_none \<and> poly_modulus_degree \<noteq> 0
      then Inl (Logic_error ''poly_modulus_degree is not supported for this scheme'')
      else computeParmsID S0 (E\<lparr>ep_poly_modulus_degree := poly_modulus_degree\<rparr>))"

definition setCoeffModulus :: "blake2b_state \<Rightarrow> Modulus list \<Rightarrow> EncryptionParameters \<Rightarrow> EncryptionParameters res" where
  "setCoeffModulus S0 coeff_modulus E =
     (if ep_scheme E = scheme_none \<and> coeff_modulus \<noteq> []
      then Inl (Logic_error ''coeff_modulus is not supported for this scheme'')
      else if ep_scheme E \<noteq> scheme_none \<and>
        (length coeff_modulus > SEAL_COEFF_MOD_COUNT_MAX \<or> length coeff_modulus < SEAL_COEFF_MOD_COUNT_MIN)
      then Inl (Invalid_argument ''coeff_modulus is invalid'')
      else computeParmsID S0 (E\<lparr>ep_coeff_modulus := coeff_modulus\<rparr>))"

definition setPlainModulus :: "blake2b_state \<Rightarrow> Modulus \<Rightarrow> EncryptionParameters \<Rightarrow> EncryptionParameters res" where
  "setPlainModulus S0 plain_modulus E =
     (if ep_scheme E \<noteq> bfv \<and> ep_scheme E \<noteq> bgv \<and> \<not> modulus_isZero plain_modulus
      then Inl (Logic_error ''plain_modulus is not supported for this scheme'')
      else computeParmsID S0 (E\<lparr>ep_plain_modulus := plain_modulus\<rparr>))"

definition setPlainModulus_word ::
    "blake2b_state \<Rightarrow> (u64 \<Rightarrow> nat \<Rightarrow> u64) \<Rightarrow> u64 \<Rightarrow> EncryptionParameters \<Rightarrow> EncryptionParameters res option" where
  "setPlainModulus_word S0 rnd plain_modulus E =
     Option.bind (new_Modulus rnd plain_modulus) (\<lambda>r. case r of
       Inl e \<Rightarrow> Some (Inl e)
     | Inr m \<Rightarrow> Some (setPlainModulus S0 m E))"

definition setRandomGenerator :: "UniformRandomGeneratorFactory option \<Rightarrow> EncryptionParameters \<Rightarrow> EncryptionParameters" where
  "setRandomGenerator random_generator E = E\<lparr>ep_random_generator := random_generator\<rparr>"

definition parameters_eq :: "EncryptionParameters \<Rightarrow> EncryptionParameters \<Rightarrow> bool" where
  "parameters_eq E other = (ep_parms_id E = ep_parms_id other)"

definition TroyHashParmsID :: "ParmsID \<Rightarrow> u64" where
  "TroyHashParmsID parms_id =
     (let result = 17; result = 31 * result + parms_id ! 0; result = 31 * result + parms_id ! 1;
          result = 31 * result + parms_id ! 2 in 31 * result + parms_id ! 3)"

section \<open>What the identifier is\<close>

text \<open>
  The reference, on the values of the parameters: a number as eight bytes, the lowest first, and the 32 bytes of BLAKE2b, as
  RFC 7693 defines it, on the number of the scheme, the degree, the coefficient moduli and the plaintext modulus.
\<close>

definition le64 :: "nat \<Rightarrow> u8 list" where
  "le64 n = map (\<lambda>i. of_nat (n div 256 ^ i)) [0..<8]"

fun scheme_number :: "SchemeType \<Rightarrow> nat" where
  "scheme_number scheme_none = 0"
| "scheme_number bfv = 1"
| "scheme_number ckks = 2"
| "scheme_number bgv = 3"

definition fields_message :: "SchemeType \<Rightarrow> nat \<Rightarrow> nat list \<Rightarrow> nat \<Rightarrow> u8 list" where
  "fields_message scheme degree moduli plain = concat (map le64 ([scheme_number scheme, degree] @ moduli @ [plain]))"

definition fields_id :: "SchemeType \<Rightarrow> nat \<Rightarrow> nat list \<Rightarrow> nat \<Rightarrow> ParmsID" where
  "fields_id scheme degree moduli plain = words_of_bytes (rfc_blake2b 32 [] (fields_message scheme degree moduli plain))"

definition parms_digest :: "EncryptionParameters \<Rightarrow> ParmsID" where
  "parms_digest E = fields_id (ep_scheme E) (unat (ep_poly_modulus_degree E))
     (map (\<lambda>m. unat (mod_value m)) (ep_coeff_modulus E)) (unat (mod_value (ep_plain_modulus E)))"

lemma length_bytes_of_words [simp]: "length (bytes_of_words ws) = 8 * length ws"
  by (simp add: bytes_of_words_def length_concat_store64)

lemma length_words_of_bytes [simp]: "length (words_of_bytes bs) = length bs div 8"
  by (simp add: words_of_bytes_def)

lemma length_digest32 [simp]: "length (rfc_blake2b 32 [] msg) = 32"
  by (simp add: rfc_blake2b_def Let_def length_concat_store64)

text \<open>The shape that every object of the class has.\<close>

definition parms_shape :: "EncryptionParameters \<Rightarrow> bool" where
  "parms_shape E \<longleftrightarrow> length (ep_parms_id E) = 4 \<and> uint64Count (ep_plain_modulus E) = 1"

lemma store64_le64: "store64 w = le64 (unat w)"
proof -
  have "ucast (drop_bit k w) = (of_nat (unat w div 2 ^ k) :: u8)" for k
    unfolding unat_drop64 [symmetric] by simp
  from this [of 0] this [of 8] this [of 16] this [of 24] this [of 32] this [of 40] this [of 48] this [of 56]
  show ?thesis by (simp add: store64_def le64_def upt_rec)
qed

lemma message_param_data:
  assumes "parms_shape E"
  shows "parms_digest E = words_of_bytes (rfc_blake2b 32 [] (bytes_of_words (param_data E)))"
proof -
  have "scheme_number s = unat (scheme_code s)" for s by (cases s) (simp_all add: scheme_code_def)
  then show ?thesis
    using assms
    by (simp add: parms_digest_def fields_id_def fields_message_def bytes_of_words_def param_data_def parms_shape_def store64_le64
        modulus_value_def comp_def)
qed

lemma computeParmsID_eq:
  assumes "parms_shape E"
  shows "computeParmsID S0 E =
    (if parms_digest E = parmsIDZero then Inl (Logic_error ''parms_id cannot be zero'')
     else Inr (E\<lparr>ep_parms_id := parms_digest E\<rparr>))"
proof -
  have n: "length (param_data E) = 1 + 1 + length (ep_coeff_modulus E) + uint64Count (ep_plain_modulus E)"
    using assms by (simp add: param_data_def parms_shape_def)
  have "blake2b S0 (Some (bytes_of_words (ep_parms_id E))) 32 (Some (bytes_of_words (param_data E)))
      (length (bytes_of_words (param_data E))) None (length ([] :: u8 list)) =
      (0, Some (memcpy_at (bytes_of_words (ep_parms_id E)) 0 (rfc_blake2b 32 [] (bytes_of_words (param_data E)))))"
    by (rule blake2b_rfc) simp_all
  moreover have "memcpy_at (bytes_of_words (ep_parms_id E)) 0 (rfc_blake2b 32 [] (bytes_of_words (param_data E))) =
      rfc_blake2b 32 [] (bytes_of_words (param_data E))"
    using assms by (simp add: memcpy_at_def parms_shape_def)
  ultimately have "HashFunction_hash S0 (param_data E) (length (param_data E)) (ep_parms_id E) = Inr (parms_digest E)"
    by (simp add: HashFunction_hash_def hash_block_byte_count_def hash_block_uint64_count_def message_param_data [OF assms] mult.commute)
  then show ?thesis unfolding computeParmsID_def Let_def n [symmetric] by simp
qed

text \<open>What a program can do with an object of the class: the setters, one after the other.\<close>

datatype parms_op =
    SetDegree u64
  | SetCoeff "Modulus list"
  | SetPlain u64
  | SetGenerator "UniformRandomGeneratorFactory option"

primrec parms_step ::
    "blake2b_state \<Rightarrow> (u64 \<Rightarrow> nat \<Rightarrow> u64) \<Rightarrow> parms_op \<Rightarrow> EncryptionParameters \<Rightarrow> EncryptionParameters res option" where
  "parms_step S0 rnd (SetDegree n) E = Some (setPolyModulusDegree S0 n E)"
| "parms_step S0 rnd (SetCoeff ms) E = Some (setCoeffModulus S0 ms E)"
| "parms_step S0 rnd (SetPlain t) E = setPlainModulus_word S0 rnd t E"
| "parms_step S0 rnd (SetGenerator g) E = Some (Inr (setRandomGenerator g E))"

fun parms_run ::
    "blake2b_state \<Rightarrow> (u64 \<Rightarrow> nat \<Rightarrow> u64) \<Rightarrow> parms_op list \<Rightarrow> EncryptionParameters res option \<Rightarrow> EncryptionParameters res option" where
  "parms_run S0 rnd [] r = r"
| "parms_run S0 rnd (x # ops) r =
     parms_run S0 rnd ops (Option.bind r (\<lambda>r. case r of Inl e \<Rightarrow> Some (Inl e) | Inr E \<Rightarrow> parms_step S0 rnd x E))"

definition parms_result :: "(EncryptionParameters \<Rightarrow> bool) \<Rightarrow> EncryptionParameters res option \<Rightarrow> bool" where
  "parms_result P r = (case r of Some (Inr E) \<Rightarrow> P E | _ \<Rightarrow> True)"

text \<open>What all of them satisfy.\<close>

definition wf_parms :: "EncryptionParameters \<Rightarrow> bool" where
  "wf_parms E \<longleftrightarrow> parms_shape E \<and> ep_parms_id E = parms_digest E \<and> ep_parms_id E \<noteq> parmsIDZero \<and>
     (ep_scheme E = scheme_none \<longrightarrow> ep_poly_modulus_degree E = 0 \<and> ep_coeff_modulus E = []) \<and>
     (ep_scheme E \<in> {scheme_none, ckks} \<longrightarrow> modulus_isZero (ep_plain_modulus E)) \<and>
     length (ep_coeff_modulus E) \<le> SEAL_COEFF_MOD_COUNT_MAX"

lemma parms_digest_simps [simp]:
  "parms_digest (E\<lparr>ep_parms_id := i\<rparr>) = parms_digest E"
  "parms_digest (E\<lparr>ep_random_generator := g\<rparr>) = parms_digest E"
  by (simp_all add: parms_digest_def)

lemma length_parms_digest [simp]: "length (parms_digest E) = 4"
  by (simp add: parms_digest_def fields_id_def)

lemma computeParmsID_Inr:
  assumes "computeParmsID S0 E = Inr E'" "parms_shape E"
  shows "E' = E\<lparr>ep_parms_id := parms_digest E\<rparr>" "parms_digest E \<noteq> parmsIDZero"
proof -
  show "E' = E\<lparr>ep_parms_id := parms_digest E\<rparr>" "parms_digest E \<noteq> parmsIDZero"
    using assms by (auto simp: computeParmsID_eq split: if_splits)
qed

lemma shape_updates [simp]:
  "parms_shape (E\<lparr>ep_poly_modulus_degree := n\<rparr>) = parms_shape E"
  "parms_shape (E\<lparr>ep_coeff_modulus := ms\<rparr>) = parms_shape E"
  "parms_shape (E\<lparr>ep_random_generator := g\<rparr>) = parms_shape E"
  by (simp_all add: parms_shape_def)

lemma wf_setCoeffModulus:
  assumes "wf_parms E" "setCoeffModulus S0 ms E = Inr E'"
  shows "wf_parms E' \<and> E' = E\<lparr>ep_coeff_modulus := ms, ep_parms_id := parms_digest (E\<lparr>ep_coeff_modulus := ms\<rparr>)\<rparr>"
proof -
  have s: "parms_shape (E\<lparr>ep_coeff_modulus := ms\<rparr>)" using assms(1) by (simp add: wf_parms_def)
  have c: "computeParmsID S0 (E\<lparr>ep_coeff_modulus := ms\<rparr>) = Inr E'"
    using assms(2) by (auto simp: setCoeffModulus_def split: if_splits)
  note d = computeParmsID_Inr [OF c s]
  show ?thesis
    using assms d by (auto simp: wf_parms_def setCoeffModulus_def SEAL_COEFF_MOD_COUNT_MAX_def parms_shape_def split: if_splits)
qed

lemma default_parameters_sel [simp]:
  "ep_scheme (default_parameters s) = s" "ep_poly_modulus_degree (default_parameters s) = 0"
  "ep_coeff_modulus (default_parameters s) = []" "ep_plain_modulus (default_parameters s) = zero_modulus"
  "modulus_isZero zero_modulus" "parms_shape (default_parameters s)"
  by (simp_all add: default_parameters_def zero_modulus_def modulus_isZero_def parms_shape_def parmsIDZero_def uint64Count_def)

lemma wf_default:
  assumes "computeParmsID S0 (default_parameters s) = Inr E"
  shows "wf_parms E"
  using computeParmsID_Inr [OF assms] default_parameters_sel(6) [of s] by (simp add: wf_parms_def parms_shape_def)

text \<open>A modulus that the constructor made has one word.\<close>

lemma new_Modulus_count: "new_Modulus rnd v = Some (Inr m) \<Longrightarrow> uint64Count m = 1"
  apply (auto simp: new_Modulus_def setValue_def uint64Count_def Let_def bind_eq_Some_conv split: if_splits sum.splits prod.splits)
  subgoal for y by (cases y) auto
  done

lemma wf_parms_step:
  assumes "wf_parms E" "parms_step S0 rnd x E = Some (Inr E')"
  shows "wf_parms E'"
proof (cases x)
  case (SetDegree n)
  have s: "parms_shape (E\<lparr>ep_poly_modulus_degree := n\<rparr>)" using assms(1) by (simp add: wf_parms_def)
  have c: "computeParmsID S0 (E\<lparr>ep_poly_modulus_degree := n\<rparr>) = Inr E'"
    using assms(2) by (auto simp: SetDegree setPolyModulusDegree_def split: if_splits)
  from computeParmsID_Inr [OF c s] show ?thesis
    using assms by (auto simp: SetDegree wf_parms_def setPolyModulusDegree_def parms_shape_def split: if_splits)
next
  case (SetCoeff ms)
  then show ?thesis using assms wf_setCoeffModulus by fastforce
next
  case (SetPlain v)
  then obtain t where t: "new_Modulus rnd v = Some (Inr t)" "setPlainModulus S0 t E = Inr E'"
    using assms(2)
    apply (clarsimp simp: setPlainModulus_word_def bind_eq_Some_conv)
    subgoal for r by (cases r) auto
    done
  have s: "parms_shape (E\<lparr>ep_plain_modulus := t\<rparr>)"
    using assms(1) new_Modulus_count [OF t(1)] by (simp add: wf_parms_def parms_shape_def)
  have c: "computeParmsID S0 (E\<lparr>ep_plain_modulus := t\<rparr>) = Inr E'"
    using t(2) by (auto simp: setPlainModulus_def split: if_splits)
  from computeParmsID_Inr [OF c s] show ?thesis
    using assms(1) s t(2) by (auto simp: wf_parms_def setPlainModulus_def parms_shape_def split: if_splits)
next
  case (SetGenerator g)
  then show ?thesis using assms by (auto simp: wf_parms_def setRandomGenerator_def parms_shape_def)
qed

lemma wf_parms_run: "parms_result wf_parms r \<Longrightarrow> parms_result wf_parms (parms_run S0 rnd ops r)"
proof (induction ops arbitrary: r)
  case (Cons x ops)
  have "parms_result wf_parms (Option.bind r (\<lambda>r. case r of Inl e \<Rightarrow> Some (Inl e) | Inr E \<Rightarrow> parms_step S0 rnd x E))"
    using Cons.prems wf_parms_step [of _ S0 rnd x] by (auto simp: parms_result_def split: option.splits sum.splits)
  then show ?case unfolding parms_run.simps by (rule Cons.IH)
qed simp

section \<open>The abstract machine\<close>

text \<open>
  A set of parameters as its values alone: the scheme, the degree, the moduli, the generator and the plaintext modulus. A change of
  the hashed values is published under their identifier, which must not be zero; the generator is not hashed.
\<close>

record ParmsFields =
  pf_scheme :: SchemeType
  pf_degree :: u64
  pf_moduli :: "Modulus list"
  pf_generator :: "UniformRandomGeneratorFactory option"
  pf_plain :: Modulus

definition id_of_fields :: "ParmsFields \<Rightarrow> ParmsID" where
  "id_of_fields f = fields_id (pf_scheme f) (unat (pf_degree f)) (map (\<lambda>m. unat (mod_value m)) (pf_moduli f)) (unat (mod_value (pf_plain f)))"

definition object_of :: "ParmsFields \<Rightarrow> EncryptionParameters" where
  "object_of f = \<lparr>ep_scheme = pf_scheme f, ep_poly_modulus_degree = pf_degree f, ep_coeff_modulus = pf_moduli f,
     ep_random_generator = pf_generator f, ep_plain_modulus = pf_plain f, ep_parms_id = id_of_fields f\<rparr>"

definition publish :: "ParmsFields \<Rightarrow> ParmsFields res" where
  "publish f = (if id_of_fields f = [0, 0, 0, 0] then Inl (Logic_error ''parms_id cannot be zero'') else Inr f)"

fun fields_step :: "(u64 \<Rightarrow> nat \<Rightarrow> u64) \<Rightarrow> parms_op \<Rightarrow> ParmsFields \<Rightarrow> ParmsFields res option" where
  "fields_step rnd (SetDegree n) f =
     Some (if pf_scheme f = scheme_none \<and> n \<noteq> 0 then Inl (Logic_error ''poly_modulus_degree is not supported for this scheme'')
           else publish (f\<lparr>pf_degree := n\<rparr>))"
| "fields_step rnd (SetCoeff ms) f =
     Some (if pf_scheme f = scheme_none
           then (if ms = [] then publish (f\<lparr>pf_moduli := []\<rparr>)
                 else Inl (Logic_error ''coeff_modulus is not supported for this scheme''))
           else if length ms \<in> {1..64} then publish (f\<lparr>pf_moduli := ms\<rparr>) else Inl (Invalid_argument ''coeff_modulus is invalid''))"
| "fields_step rnd (SetPlain v) f =
     map_option (\<lambda>r. rbind r (\<lambda>m.
       if v = 0 \<or> pf_scheme f \<in> {bfv, bgv} then publish (f\<lparr>pf_plain := m\<rparr>)
       else Inl (Logic_error ''plain_modulus is not supported for this scheme''))) (new_Modulus rnd v)"
| "fields_step rnd (SetGenerator g) f = Some (Inr (f\<lparr>pf_generator := g\<rparr>))"

fun fields_run :: "(u64 \<Rightarrow> nat \<Rightarrow> u64) \<Rightarrow> parms_op list \<Rightarrow> ParmsFields res option \<Rightarrow> ParmsFields res option" where
  "fields_run rnd [] r = r"
| "fields_run rnd (x # ops) (Some (Inr f)) = fields_run rnd ops (fields_step rnd x f)"
| "fields_run rnd (x # ops) r = r"

definition empty_fields :: "SchemeType \<Rightarrow> ParmsFields" where
  "empty_fields s = \<lparr>pf_scheme = s, pf_degree = 0, pf_moduli = [], pf_generator = None, pf_plain = zero_modulus\<rparr>"

definition objects :: "ParmsFields res option \<Rightarrow> EncryptionParameters res option" where
  "objects r = map_option (\<lambda>r. rbind r (\<lambda>f. Inr (object_of f))) r"

text \<open>The shape of the values: the plaintext modulus has one word.\<close>

definition fields_shape :: "ParmsFields res option \<Rightarrow> bool" where
  "fields_shape r = (case r of Some (Inr f) \<Rightarrow> uint64Count (pf_plain f) = 1 | _ \<Rightarrow> True)"

lemma object_shape: "uint64Count (pf_plain f) = 1 \<Longrightarrow> parms_shape (object_of f)"
  by (simp add: parms_shape_def object_of_def id_of_fields_def fields_id_def)

lemma publish_computes:
  assumes "uint64Count (pf_plain f) = 1" "E = object_of f\<lparr>ep_parms_id := i\<rparr>" "length i = 4"
  shows "computeParmsID S0 E = rbind (publish f) (\<lambda>f. Inr (object_of f))"
proof -
  have s: "parms_shape E" using assms by (simp add: parms_shape_def object_of_def)
  have "parms_digest E = id_of_fields f" by (simp add: assms(2) parms_digest_def object_of_def id_of_fields_def)
  then show ?thesis unfolding computeParmsID_eq [OF s] by (simp add: assms(2) publish_def object_of_def parmsIDZero_def)
qed

lemma object_of_sel:
  "ep_scheme (object_of f) = pf_scheme f" "length (ep_parms_id (object_of f)) = 4"
  "object_of f\<lparr>ep_poly_modulus_degree := n\<rparr> = object_of (f\<lparr>pf_degree := n\<rparr>)\<lparr>ep_parms_id := ep_parms_id (object_of f)\<rparr>"
  "object_of f\<lparr>ep_coeff_modulus := ms\<rparr> = object_of (f\<lparr>pf_moduli := ms\<rparr>)\<lparr>ep_parms_id := ep_parms_id (object_of f)\<rparr>"
  "object_of f\<lparr>ep_plain_modulus := t\<rparr> = object_of (f\<lparr>pf_plain := t\<rparr>)\<lparr>ep_parms_id := ep_parms_id (object_of f)\<rparr>"
  by (simp_all add: object_of_def id_of_fields_def fields_id_def)

lemma new_Modulus_zero: "new_Modulus rnd v = Some (Inr m) \<Longrightarrow> modulus_isZero m \<longleftrightarrow> v = 0"
  apply (auto simp: new_Modulus_def setValue_def modulus_isZero_def Let_def bind_eq_Some_conv split: if_splits sum.splits prod.splits)
  subgoal for y by (cases y) auto
  done

lemma scheme_code_cases:
  assumes "(c :: u8) < 4"
  obtains "c = 0" | "c = 1" | "c = 2" | "c = 3"
proof -
  have "unat c < 4" using assms by (simp add: word_less_nat_alt)
  then consider "unat c = 0" | "unat c = 1" | "unat c = 2" | "unat c = 3" by linarith
  then show ?thesis using that by cases (simp_all add: word_unat_eq_iff)
qed

lemma parms_step_fields:
  assumes "uint64Count (pf_plain f) = 1"
  shows "parms_step S0 rnd x (object_of f) = objects (fields_step rnd x f) \<and> fields_shape (fields_step rnd x f)"
proof (cases x)
  case (SetDegree n)
  have "computeParmsID S0 (object_of f\<lparr>ep_poly_modulus_degree := n\<rparr>) = rbind (publish (f\<lparr>pf_degree := n\<rparr>)) (\<lambda>f. Inr (object_of f))"
    by (rule publish_computes [OF _ object_of_sel(3,2)]) (simp add: assms)
  then show ?thesis
    using assms by (simp add: SetDegree setPolyModulusDegree_def object_of_sel(1) objects_def fields_shape_def publish_def)
next
  case (SetCoeff ms)
  have "computeParmsID S0 (object_of f\<lparr>ep_coeff_modulus := ms\<rparr>) = rbind (publish (f\<lparr>pf_moduli := ms\<rparr>)) (\<lambda>f. Inr (object_of f))"
    by (rule publish_computes [OF _ object_of_sel(4,2)]) (simp add: assms)
  then show ?thesis
    using assms
    by (auto simp: SetCoeff setCoeffModulus_def object_of_sel(1) objects_def fields_shape_def publish_def SEAL_COEFF_MOD_COUNT_MAX_def
        SEAL_COEFF_MOD_COUNT_MIN_def not_less Suc_le_eq)
next
  case (SetPlain v)
  show ?thesis
  proof (cases "new_Modulus rnd v")
    case None
    then show ?thesis by (simp add: SetPlain setPlainModulus_word_def objects_def fields_shape_def)
  next
    case (Some r)
    show ?thesis
    proof (cases r)
      case (Inl e)
      then show ?thesis using Some by (simp add: SetPlain setPlainModulus_word_def objects_def fields_shape_def)
    next
      case (Inr t)
      note n = Some [unfolded Inr]
      have "computeParmsID S0 (object_of f\<lparr>ep_plain_modulus := t\<rparr>) = rbind (publish (f\<lparr>pf_plain := t\<rparr>)) (\<lambda>f. Inr (object_of f))"
        by (rule publish_computes [OF _ object_of_sel(5,2)]) (simp add: new_Modulus_count [OF n])
      then show ?thesis
        using new_Modulus_count [OF n] new_Modulus_zero [OF n]
        by (auto simp: SetPlain n setPlainModulus_word_def setPlainModulus_def object_of_sel(1) objects_def fields_shape_def publish_def)
    qed
  qed
next
  case (SetGenerator g)
  then show ?thesis
    using assms by (simp add: setRandomGenerator_def objects_def fields_shape_def object_of_def id_of_fields_def)
qed

lemma parms_run_fields: "fields_shape r \<Longrightarrow> parms_run S0 rnd ops (objects r) = objects (fields_run rnd ops r)"
proof (induction ops arbitrary: r)
  case (Cons x ops)
  show ?case
  proof (cases r)
    case None
    have "parms_run S0 rnd ops None = None" by (induction ops) simp_all
    then show ?thesis by (simp add: None objects_def)
  next
    case (Some y)
    show ?thesis
    proof (cases y)
      case (Inl e)
      have "parms_run S0 rnd ops (Some (Inl e)) = Some (Inl e)" by (induction ops) simp_all
      then show ?thesis by (simp add: Some Inl objects_def)
    next
      case (Inr f)
      have f: "uint64Count (pf_plain f) = 1" using Cons.prems by (simp add: Some Inr fields_shape_def)
      have "parms_run S0 rnd (x # ops) (objects r) = parms_run S0 rnd ops (parms_step S0 rnd x (object_of f))"
        by (simp add: Some Inr objects_def)
      then show ?thesis using parms_step_fields [OF f, of S0 rnd x] Cons.IH by (simp add: Some Inr)
    qed
  qed
qed simp

lemma new_parameters_fields:
  "computeParmsID S0 (default_parameters s) = rbind (publish (empty_fields s)) (\<lambda>f. Inr (object_of f))"
  "fields_shape (Some (publish (empty_fields s)))"
  by (rule publish_computes [where i = parmsIDZero])
    (simp_all add: empty_fields_def object_of_def default_parameters_def zero_modulus_def parmsIDZero_def uint64Count_def
      fields_shape_def publish_def)

section \<open>Properties\<close>



end
