(* ===== verification/Galois.thy ===== *)
theory Galois
  imports Poly_Small_Mod
begin

unbundle bit_operations_syntax

text \<open>
  The Galois automorphisms, which substitute a power of \<open>X\<close>: \<open>utils/galois.h\<close> and \<open>galois.cpp\<close> of
  \<open>heu/library/algorithms/seal_gpu/\<close>. The tool keeps a table of permutations that its methods fill; the
  result of \<open>applyGalois\<close> must not be the operand. \<open>None\<close> is an access outside that table.
\<close>

section \<open>The tool\<close>

definition SEAL_POLY_MOD_DEGREE_MAX :: u64 where "SEAL_POLY_MOD_DEGREE_MAX = 131072"
definition SEAL_POLY_MOD_DEGREE_MIN :: u64 where "SEAL_POLY_MOD_DEGREE_MIN = 2"

record GaloisTool =
  gal_coeff_count_power :: nat
  gal_coeff_count :: nat
  gal_permutation_tables :: "u32 list list"

definition galois_generator :: u32 where "galois_generator = 3"

definition GaloisTool_initialize :: "int \<Rightarrow> GaloisTool res" where
  "GaloisTool_initialize coeff_count_power =
     (if coeff_count_power < getPowerOfTwo SEAL_POLY_MOD_DEGREE_MIN \<or>
         coeff_count_power > getPowerOfTwo SEAL_POLY_MOD_DEGREE_MAX
      then Inl (Invalid_argument ''coeff_count_power out of range'')
      else let p = nat coeff_count_power; n = push_bit p 1
           in Inr \<lparr>gal_coeff_count_power = p, gal_coeff_count = n, gal_permutation_tables = replicate n []\<rparr>)"

section \<open>Permutation tables\<close>

definition galois_entry :: "GaloisTool \<Rightarrow> u32 \<Rightarrow> u32 \<Rightarrow> nat \<Rightarrow> u32 res" where
  "galois_entry tool galois_elt coeff_count_minus_one i =
     rbind (safe_cast uint32_t uint64_t (int i)) (\<lambda>i32.
       let p = int (gal_coeff_count_power tool);
           reversed = reverseBits32_count (word_of_int i32) (p + 1);
           index_raw = drop_bit 1 ((ucast galois_elt :: u64) * ucast reversed);
           index_raw = index_raw AND ucast coeff_count_minus_one
       in Inr (reverseBits32_count (ucast index_raw) p))"

fun galois_table_loop :: "GaloisTool \<Rightarrow> u32 \<Rightarrow> u32 \<Rightarrow> nat \<Rightarrow> nat \<Rightarrow> u32 list res" where
  "galois_table_loop tool galois_elt coeff_count_minus_one 0 i = Inr []"
| "galois_table_loop tool galois_elt coeff_count_minus_one (Suc k) i =
     rbind (galois_entry tool galois_elt coeff_count_minus_one i) (\<lambda>x.
     rbind (galois_table_loop tool galois_elt coeff_count_minus_one k (i + 1)) (\<lambda>xs. Inr (x # xs)))"

definition generateTableNtt :: "GaloisTool \<Rightarrow> u32 \<Rightarrow> u32 list res" where
  "generateTableNtt tool galois_elt =
     rbind (safe_cast uint32_t uint64_t (int (gal_coeff_count tool))) (\<lambda>c.
       let coeff_count_minus_one = word_of_int c - 1
       in galois_table_loop tool galois_elt coeff_count_minus_one (gal_coeff_count tool) (gal_coeff_count tool))"

definition GetIndexFromElt :: "u32 \<Rightarrow> nat" where
  "GetIndexFromElt galois_elt = unat (drop_bit 1 (galois_elt - 1))"

section \<open>Galois elements\<close>

fun galois_elt_loop :: "nat \<Rightarrow> u64 \<Rightarrow> u64 \<Rightarrow> u64 \<Rightarrow> u64" where
  "galois_elt_loop 0 gen m galois_elt = galois_elt"
| "galois_elt_loop (Suc step) gen m galois_elt = galois_elt_loop step gen m (galois_elt * gen AND (m - 1))"

text \<open>\<open>step\<close> is an \<open>int\<close>; \<open>abs\<close> is not defined for the least one.\<close>

definition getEltFromStep :: "GaloisTool \<Rightarrow> int \<Rightarrow> u32 res" where
  "getEltFromStep tool step =
     rbind (safe_cast uint32_t uint64_t (int (gal_coeff_count tool))) (\<lambda>n.
     rbind (mul_safe uint32_t n 2) (\<lambda>m32.
       let m = word_of_int m32 :: u64
       in if step = 0 then Inr (ucast (m - 1))
          else
            let sign = step < 0
            in rbind (safe_cast uint32_t int32_t \<bar>step\<bar>) (\<lambda>pos_step.
                 if pos_step \<ge> drop_bit 1 n then Inl (Invalid_argument ''step count too large'')
                 else
                   let pos_step = pos_step AND (m32 - 1)
                   in rbind
                        (if sign
                         then rbind (safe_cast int32_t uint32_t (drop_bit 1 n)) (\<lambda>a.
                              rbind (safe_cast int32_t uint32_t pos_step) (\<lambda>b. Inr (a - b)))
                         else safe_cast int32_t uint32_t pos_step)
                        (\<lambda>step. Inr (ucast (galois_elt_loop (nat step) (ucast galois_generator) m 1))))))"

fun getEltsFromSteps :: "GaloisTool \<Rightarrow> int list \<Rightarrow> u32 list res" where
  "getEltsFromSteps tool [] = Inr []"
| "getEltsFromSteps tool (s # steps) =
     rbind (getEltFromStep tool s) (\<lambda>x.
     rbind (getEltsFromSteps tool steps) (\<lambda>xs. Inr (x # xs)))"

fun getEltsAll_loop :: "nat \<Rightarrow> u64 \<Rightarrow> u64 \<Rightarrow> u64 \<Rightarrow> u32 list \<Rightarrow> u32 list" where
  "getEltsAll_loop 0 m pos_power neg_power galois_elts = galois_elts"
| "getEltsAll_loop (Suc k) m pos_power neg_power galois_elts =
     getEltsAll_loop k m (pos_power * pos_power AND (m - 1)) (neg_power * neg_power AND (m - 1))
       (galois_elts @ [ucast pos_power, ucast neg_power])"

text \<open>The method is \<open>noexcept\<close>: \<open>Inl\<close> ends the program.\<close>

definition getEltsAll :: "GaloisTool \<Rightarrow> u32 list res" where
  "getEltsAll tool =
     rbind (safe_cast uint32_t uint64_t (int (push_bit 1 (gal_coeff_count tool)))) (\<lambda>m.
       let galois_elts = [word_of_int m - 1];
           pos_power = ucast galois_generator
       in rbind (tryInvertUintMod (ucast galois_generator) (word_of_int m)) (\<lambda>r.
            let neg_power = (case r of None \<Rightarrow> 0 | Some x \<Rightarrow> x)
            in Inr (getEltsAll_loop (gal_coeff_count_power tool - 1) (word_of_int m) pos_power neg_power galois_elts)))"

section \<open>Applying an automorphism\<close>

fun applyGalois_loop ::
    "u64 list \<Rightarrow> nat \<Rightarrow> u64 \<Rightarrow> u32 \<Rightarrow> Modulus \<Rightarrow> nat \<Rightarrow> nat \<Rightarrow> u64 \<Rightarrow> u64 list \<Rightarrow> u64 list" where
  "applyGalois_loop operand p coeff_count_minus_one galois_elt modulus 0 i index_raw result = result"
| "applyGalois_loop operand p coeff_count_minus_one galois_elt modulus (Suc k) i index_raw result =
     (let index = index_raw AND coeff_count_minus_one;
          result_value = operand ! i;
          result_value =
            (if drop_bit p index_raw AND 1 \<noteq> 0
             then let non_zero = of_bool (result_value \<noteq> 0)
                  in (modulus_value modulus - result_value) AND - non_zero
             else result_value)
      in applyGalois_loop operand p coeff_count_minus_one galois_elt modulus k (i + 1) (index_raw + ucast galois_elt)
           (result[unat index := result_value]))"

definition applyGalois :: "GaloisTool \<Rightarrow> u64 list \<Rightarrow> u32 \<Rightarrow> Modulus \<Rightarrow> u64 list \<Rightarrow> u64 list" where
  "applyGalois tool operand galois_elt modulus result =
     (let coeff_count_minus_one = of_nat (gal_coeff_count tool) - 1
      in applyGalois_loop operand (gal_coeff_count_power tool) coeff_count_minus_one galois_elt modulus
           (unat coeff_count_minus_one + 1) 0 0 result)"

definition applyGalois_rns :: "GaloisTool \<Rightarrow> u64 list \<Rightarrow> nat \<Rightarrow> u32 \<Rightarrow> Modulus list \<Rightarrow> u64 list \<Rightarrow> u64 list" where
  "applyGalois_rns tool operand coeff_modulus_size galois_elt modulus =
     (let d = gal_coeff_count tool
      in parts_loop (\<lambda>i. applyGalois tool (drop (d * i) operand) galois_elt (modulus ! i)) d coeff_modulus_size 0)"

definition applyGalois_polys :: "GaloisTool \<Rightarrow> u64 list \<Rightarrow> nat \<Rightarrow> nat \<Rightarrow> u32 \<Rightarrow> Modulus list \<Rightarrow> u64 list \<Rightarrow> u64 list" where
  "applyGalois_polys tool operand poly_size coeff_modulus_size galois_elt modulus =
     (let d = coeff_modulus_size * gal_coeff_count tool
      in parts_loop (\<lambda>i. applyGalois_rns tool (drop (d * i) operand) coeff_modulus_size galois_elt modulus) d poly_size 0)"

definition applyGaloisNtt :: "u64 list \<Rightarrow> u32 \<Rightarrow> GaloisTool \<Rightarrow> u64 list \<Rightarrow> (GaloisTool \<times> u64 list) res option" where
  "applyGaloisNtt operand galois_elt tool result =
     (let index = GetIndexFromElt galois_elt
      in if index \<ge> length (gal_permutation_tables tool) then None
         else Some (rbind (generateTableNtt tool galois_elt) (\<lambda>table.
           let tool = tool\<lparr>gal_permutation_tables := (gal_permutation_tables tool)[index := table]\<rparr>
           in Inr (tool, coeff_loop (\<lambda>i. operand ! unat (table ! i)) (gal_coeff_count tool) 0 result))))"

text \<open>The loops hand the tool from call to call and change the part of the result from \<open>d * i\<close> on.\<close>

fun galois_parts_loop ::
    "(nat \<Rightarrow> GaloisTool \<Rightarrow> u64 list \<Rightarrow> (GaloisTool \<times> u64 list) res option) \<Rightarrow> nat \<Rightarrow> nat \<Rightarrow> nat \<Rightarrow> GaloisTool \<Rightarrow> u64 list \<Rightarrow>
      (GaloisTool \<times> u64 list) res option" where
  "galois_parts_loop f d 0 i tool result = Some (Inr (tool, result))"
| "galois_parts_loop f d (Suc k) i tool result =
     (case f i tool (take d (drop (d * i) result)) of
        None \<Rightarrow> None
      | Some (Inl e) \<Rightarrow> Some (Inl e)
      | Some (Inr (tool, part)) \<Rightarrow>
          galois_parts_loop f d k (i + 1) tool (take (d * i) result @ part @ drop (d * i + d) result))"

definition applyGaloisNtt_rns ::
    "u64 list \<Rightarrow> nat \<Rightarrow> u32 \<Rightarrow> GaloisTool \<Rightarrow> u64 list \<Rightarrow> (GaloisTool \<times> u64 list) res option" where
  "applyGaloisNtt_rns operand coeff_modulus_size galois_elt tool =
     (let d = gal_coeff_count tool
      in galois_parts_loop (\<lambda>i. applyGaloisNtt (drop (d * i) operand) galois_elt) d coeff_modulus_size 0 tool)"

definition applyGaloisNtt_polys ::
    "u64 list \<Rightarrow> nat \<Rightarrow> nat \<Rightarrow> u32 \<Rightarrow> GaloisTool \<Rightarrow> u64 list \<Rightarrow> (GaloisTool \<times> u64 list) res option" where
  "applyGaloisNtt_polys operand poly_size coeff_modulus_size galois_elt tool =
     (let d = coeff_modulus_size * gal_coeff_count tool
      in galois_parts_loop (\<lambda>i. applyGaloisNtt_rns (drop (d * i) operand) coeff_modulus_size galois_elt) d poly_size 0 tool)"


section \<open>The casts do not throw\<close>

lemma cast_u32_u64: "0 \<le> v \<Longrightarrow> v < 2 ^ 32 \<Longrightarrow> safe_cast uint32_t uint64_t v = Inr v"
  using fitsIn_unsigned_source [of uint32_t uint64_t v]
  by (simp add: safe_cast_def static_cast_def in_type_def type_min_def type_max_def wf_ctype_def take_bit_int_eq_self_iff)

lemma cast_i32_u32:
  assumes "0 \<le> v" "v < 2 ^ 31"
  shows "safe_cast int32_t uint32_t v = Inr v"
proof -
  have "signed_take_bit 63 v = v" "signed_take_bit 31 v = v"
    using assms by (intro signed_take_bit_int_eq_self; simp)+
  then show ?thesis using assms
    by (simp add: safe_cast_def fitsIn_def static_cast_def type_min_def)
qed

lemma cast_nat: "n < 2 ^ 32 \<Longrightarrow> safe_cast uint32_t uint64_t (int n) = Inr (int n)"
proof (rule cast_u32_u64)
  assume "n < 2 ^ 32"
  then have "int n < int (2 ^ 32)" unfolding of_nat_less_iff .
  then show "int n < 2 ^ 32" by simp
qed simp

lemma unat_lt32: "unat (x :: u32) < 2 ^ 32"
  using unsigned_less [of x] by simp

lemma unat_ucast32_64: "unat (ucast (x :: u32) :: u64) = unat x"
  unfolding unsigned_ucast_eq by (rule take_bit_nat_eq_self) (use unat_lt32 [of x] in simp)

lemma cast_u32_i32: "0 \<le> v \<Longrightarrow> v < 2 ^ 31 \<Longrightarrow> safe_cast uint32_t int32_t v = Inr v"
  using fitsIn_signed_source [of uint32_t int32_t v]
  by (simp add: safe_cast_def static_cast_def in_type_def type_min_def type_max_def wf_ctype_def take_bit_int_eq_self_iff)

lemma mul_safe_u32: "0 \<le> a \<Longrightarrow> 0 \<le> b \<Longrightarrow> a < 2 ^ 32 \<Longrightarrow> b < 2 ^ 32 \<Longrightarrow> a * b < 2 ^ 32 \<Longrightarrow> mul_safe uint32_t a b = Inr (a * b)"
  using mul_safe_unsigned [of uint32_t a b "a * b"] by (simp add: in_type_def type_min_def type_max_def wf_ctype_def)

definition wf_galois :: "nat \<Rightarrow> GaloisTool \<Rightarrow> bool" where
  "wf_galois p tool \<longleftrightarrow> 1 \<le> p \<and> p \<le> 17 \<and> gal_coeff_count_power tool = p \<and> gal_coeff_count tool = 2 ^ p \<and>
     length (gal_permutation_tables tool) = 2 ^ p"

lemma wf_galoisD:
  assumes "wf_galois p tool"
  shows "1 \<le> p" "p \<le> 17" "gal_coeff_count_power tool = p" "gal_coeff_count tool = 2 ^ p"
    "length (gal_permutation_tables tool) = 2 ^ p" "2 \<le> (2 :: nat) ^ p" "(2 :: nat) ^ p \<le> 131072"
  using assms power_increasing [of 1 p "2 :: nat"] power_increasing [of p 17 "2 :: nat"] by (simp_all add: wf_galois_def)

lemma degree_bounds: "getPowerOfTwo SEAL_POLY_MOD_DEGREE_MIN = 1" "getPowerOfTwo SEAL_POLY_MOD_DEGREE_MAX = 17"
  using getPowerOfTwo_spec [of 2 1] getPowerOfTwo_spec [of 131072 17]
  by (simp_all add: SEAL_POLY_MOD_DEGREE_MIN_def SEAL_POLY_MOD_DEGREE_MAX_def)

lemma GaloisTool_initialize_wf:
  "GaloisTool_initialize c = (if 1 \<le> c \<and> c \<le> 17 then
     Inr \<lparr>gal_coeff_count_power = nat c, gal_coeff_count = 2 ^ nat c, gal_permutation_tables = replicate (2 ^ nat c) []\<rparr>
   else Inl (Invalid_argument ''coeff_count_power out of range''))"
  unfolding GaloisTool_initialize_def degree_bounds by (simp add: Let_def push_bit_eq_mult not_less)

lemma initialize_wf_galois: "GaloisTool_initialize c = Inr tool \<Longrightarrow> wf_galois (nat c) tool"
  by (auto simp: GaloisTool_initialize_wf wf_galois_def split: if_splits)

section \<open>The tables\<close>

lemma unat_of_nat_u32: "i < 2 ^ 32 \<Longrightarrow> unat (of_nat i :: u32) = i"
  using unat_of_nat [of i, where 'a = 32] by simp

lemma reverseBits32_revn:
  assumes "i < 2 ^ p" "p \<le> 31"
  shows "unat (reverseBits32_count (of_nat i) (int p)) = revn p i"
proof (rule bit_eqI)
  fix k
  have "(2 :: nat) ^ p \<le> 2 ^ 31" using assms(2) by (intro power_increasing) simp_all
  then have i: "unat (of_nat i :: u32) = i" using assms(1) by (intro unat_of_nat_u32) simp
  have "bit (of_nat i :: u32) j \<longleftrightarrow> bit i j" for j
    using bit_unsigned_iff [where 'a = nat, of "of_nat i :: u32" j] i bit_imp_le_length by auto
  then show "bit (unat (reverseBits32_count (of_nat i) (int p))) k \<longleftrightarrow> bit (revn p i) k"
    using assms(2) bit_imp_le_length [of "reverseBits32_count (of_nat i) (int p)" k]
    by (auto simp: bit_unsigned_iff bit_reverseBits32_count bit_revn)
qed

text \<open>The place that the table assigns to place \<open>k\<close>.\<close>

definition galois_place :: "nat \<Rightarrow> nat \<Rightarrow> nat \<Rightarrow> nat" where
  "galois_place p g k = revn p (g * (2 * revn p k + 1) div 2 mod 2 ^ p)"

lemma galois_place_less: "galois_place p g k < 2 ^ p"
  by (simp add: galois_place_def revn_less)

lemma unat_mask_u32:
  assumes "1 \<le> p" "p \<le> 31"
  shows "unat (ucast (word_of_int (2 ^ p) - 1 :: u32) :: u64) = 2 ^ p - 1"
proof -
  have lt: "(2 :: nat) ^ p < 2 ^ 32" using assms(2) by (intro power_strict_increasing) simp_all
  have "(word_of_int (2 ^ p) :: u32) = of_nat (2 ^ p)" by simp
  then have u: "unat (word_of_int (2 ^ p) :: u32) = 2 ^ p" by (simp only: unat_of_nat_u32 [OF lt])
  then have "unat (word_of_int (2 ^ p) - 1 :: u32) = 2 ^ p - 1"
    by (simp add: unat_sub_if')
  then show ?thesis by (simp add: unat_ucast32_64)
qed

lemma and_low_bits: "unat (m :: u64) = 2 ^ p - 1 \<Longrightarrow> unat (x AND m) = unat x mod 2 ^ p"
  unfolding unsigned_and_eq by (simp only: mask_eq_exp_minus_1 [symmetric] take_bit_eq_mask [symmetric] take_bit_eq_mod)

lemma galois_entry_value:
  assumes w: "wf_galois p tool" and k: "k < 2 ^ p"
  shows "galois_entry tool g (word_of_int (2 ^ p) - 1) (2 ^ p + k) = Inr (of_nat (galois_place p (unat g) k))"
proof -
  note p = wf_galoisD [OF w]
  let ?i = "2 ^ p + k" and ?g = "unat g"
  let ?r = "reverseBits32_count (word_of_int (int ?i)) (int p + 1)"
  have "?i < 2 ^ 32" using k p(7) by simp
  then have cast: "safe_cast uint32_t uint64_t (int ?i) = Inr (int ?i)" by (rule cast_nat)
  have "?i < 2 ^ Suc p" using k by simp
  then have "unat (reverseBits32_count (of_nat ?i) (int (Suc p))) = revn (Suc p) ?i"
    using p(2) by (intro reverseBits32_revn) simp_all
  moreover have "word_of_int (int ?i) = (of_nat ?i :: u32)" by simp
  ultimately have "unat ?r = revn (Suc p) ?i" by (simp only: of_nat_Suc add.commute)
  then have r: "unat ?r = 2 * revn p k + 1" using revn_high [OF k] by simp
  have "unat ?r < 2 ^ 18"
    using revn_less [of p k] p(7) unfolding r by simp
  then have "?g * unat ?r < 2 ^ 32 * 2 ^ 18" by (intro mult_strict_mono) (use unat_lt32 [of g] in simp_all)
  then have "unat ((ucast g :: u64) * ucast ?r) = ?g * unat ?r" by (simp add: unat_mul64 unat_ucast32_64)
  then have raw: "unat (drop_bit 1 ((ucast g :: u64) * ucast ?r)) = ?g * unat ?r div 2" by (simp only: unat_drop64 power_one_right)
  let ?raw = "drop_bit 1 ((ucast g :: u64) * ucast ?r) AND ucast (word_of_int (2 ^ p) - 1 :: u32)"
  have low: "unat ?raw = ?g * (2 * revn p k + 1) div 2 mod 2 ^ p"
    unfolding and_low_bits [OF unat_mask_u32 [OF p(1)], of _] raw r using p(2) and_low_bits [OF unat_mask_u32 [OF p(1)]] raw r by simp
  let ?x = "?g * (2 * revn p k + 1) div 2 mod 2 ^ p"
  have "?x < 2 ^ p" by simp
  have "(ucast ?raw :: u32) = of_nat ?x" unfolding low [symmetric] by simp
  moreover have "unat (reverseBits32_count (of_nat ?x) (int p)) = galois_place p ?g k"
    unfolding galois_place_def using p(2) by (intro reverseBits32_revn) simp_all
  ultimately have "reverseBits32_count (ucast ?raw) (int p) = of_nat (galois_place p ?g k)"
    by (metis of_nat_unat ucast_id)
  then show ?thesis unfolding galois_entry_def cast rbind_simps Let_def p(3) by simp
qed

lemma galois_table_loop_value:
  assumes "wf_galois p tool"
  shows "i + k \<le> 2 ^ p \<Longrightarrow> galois_table_loop tool g (word_of_int (2 ^ p) - 1) k (2 ^ p + i)
    = Inr (map (\<lambda>k. of_nat (galois_place p (unat g) k)) [i..<i + k])"
proof (induction k arbitrary: i)
  case (Suc k)
  then have "galois_entry tool g (word_of_int (2 ^ p) - 1) (2 ^ p + i) = Inr (of_nat (galois_place p (unat g) i))"
    by (intro galois_entry_value [OF assms]) simp
  moreover have "galois_table_loop tool g (word_of_int (2 ^ p) - 1) k (2 ^ p + i + 1)
    = Inr (map (\<lambda>k. of_nat (galois_place p (unat g) k)) [i + 1..<i + 1 + k])"
    using Suc.IH [of "i + 1"] Suc.prems by (simp add: add.assoc)
  ultimately show ?case by (simp add: upt_conv_Cons del: upt_Suc)
qed simp

lemma generateTableNtt_value:
  assumes "wf_galois p tool"
  shows "generateTableNtt tool g = Inr (map (\<lambda>k. of_nat (galois_place p (unat g) k)) [0..<2 ^ p])"
proof -
  note p = wf_galoisD [OF assms]
  have "safe_cast uint32_t uint64_t (int (2 ^ p)) = Inr (int (2 ^ p))" using p(7) by (intro cast_nat) simp
  then show ?thesis
    using galois_table_loop_value [OF assms, of 0 "2 ^ p" g] unfolding generateTableNtt_def p(4) by simp
qed


section \<open>Substituting a power\<close>

lemma galois_index_inj:
  assumes "odd g" "i < 2 ^ p" "j < 2 ^ p" "i * g mod 2 ^ p = j * g mod (2 :: nat) ^ p"
  shows "i = j"
proof -
  have False if "x < y" "y < 2 ^ p" "x * g mod 2 ^ p = y * g mod (2 :: nat) ^ p" for x y
  proof -
    have "2 ^ p dvd y * g - x * g" using that by (intro mod_eq_dvd_iff_nat [THEN iffD1]) simp_all
    then have "2 ^ p dvd (y - x) * g" by (simp only: diff_mult_distrib)
    moreover have "coprime (2 ^ p) g" using assms(1) by simp
    ultimately have "2 ^ p dvd y - x" by (simp only: coprime_dvd_mult_left_iff)
    from dvd_imp_le [OF this] show False using that by simp
  qed
  then show ?thesis using assms(2-4) by (metis nat_neq_iff)
qed

lemma masked_negation: "(v - x) AND - of_bool (x \<noteq> 0) = (if x = 0 then 0 else v - x)" for x :: u64
  by (simp add: word_and_mask)

lemma applyGalois_loop_value:
  assumes p: "p \<le> 31" and g: "odd (unat g)" and mask: "unat mask64 = 2 ^ p - 1"
  shows "i + k = 2 ^ p \<Longrightarrow> length r = 2 ^ p \<Longrightarrow>
    \<forall>j<i. r ! (j * unat g mod 2 ^ p) = shift_sign (2 ^ p) m (j * unat g) (xs ! j) \<Longrightarrow>
    length (applyGalois_loop xs p mask64 g m k i (of_nat (i * unat g)) r) = 2 ^ p \<and>
    (\<forall>j<2 ^ p. applyGalois_loop xs p mask64 g m k i (of_nat (i * unat g)) r ! (j * unat g mod 2 ^ p)
      = shift_sign (2 ^ p) m (j * unat g) (xs ! j))"
proof (induction k arbitrary: i r)
  case (Suc k)
  let ?e = "of_nat (i * unat g) :: u64"
  let ?r = "r[i * unat g mod 2 ^ p := shift_sign (2 ^ p) m (i * unat g) (xs ! i)]"
  have "i < 2 ^ p" using Suc.prems(1) by simp
  moreover have "(2 :: nat) ^ p \<le> 2 ^ 31" using p by (intro power_increasing) simp_all
  ultimately have "i * unat g \<le> 2 ^ 31 * 2 ^ 32" using unat_lt32 [of g] by (intro mult_mono) simp_all
  then have "i * unat g < 2 ^ 64" by (rule le_less_trans) simp
  then have e: "unat ?e = i * unat g" using unat_of_nat [of "i * unat g", where 'a = 64] by (simp only: len64 mod_less)
  have odd: "drop_bit p ?e AND 1 \<noteq> 0 \<longleftrightarrow> odd (i * unat g div 2 ^ p)"
    unfolding odd_word_iff unat_drop64 e by (rule refl)
  have new: "(if drop_bit p ?e AND 1 \<noteq> 0 then (modulus_value m - xs ! i) AND - of_bool (xs ! i \<noteq> 0) else xs ! i)
      = shift_sign (2 ^ p) m (i * unat g) (xs ! i)"
    unfolding odd masked_negation by (auto simp: shift_sign_def modulus_value_def)
  have next_e: "?e + ucast g = of_nat ((i + 1) * unat g)" by (simp add: algebra_simps)
  have step: "applyGalois_loop xs p mask64 g m (Suc k) i ?e r = applyGalois_loop xs p mask64 g m k (i + 1) (of_nat ((i + 1) * unat g)) ?r"
    unfolding applyGalois_loop.simps Let_def new next_e and_low_bits [OF mask] e by (rule refl)
  have other: "j * unat g mod 2 ^ p \<noteq> i * unat g mod 2 ^ p" if "j < i" for j
    using galois_index_inj [OF g, of j p i] that Suc.prems(1) by auto
  have "\<forall>j<i + 1. ?r ! (j * unat g mod 2 ^ p) = shift_sign (2 ^ p) m (j * unat g) (xs ! j)"
  proof (intro allI impI)
    fix j
    assume j: "j < i + 1"
    show "?r ! (j * unat g mod 2 ^ p) = shift_sign (2 ^ p) m (j * unat g) (xs ! j)"
    proof (cases "j = i")
      case False
      with j have "j < i" by simp
      with other [OF this] Suc.prems(3) show ?thesis by (subst nth_list_update_neq) simp_all
    qed (simp add: Suc.prems(2))
  qed
  then show ?case unfolding step using Suc.prems(1,2) by (intro Suc.IH) simp_all
qed simp

lemma applyGalois_value:
  assumes w: "wf_galois p tool" and g: "odd (unat g)" and len: "length r = 2 ^ p"
  shows "length (applyGalois tool xs g m r) = 2 ^ p"
    "j < 2 ^ p \<Longrightarrow> applyGalois tool xs g m r ! (j * unat g mod 2 ^ p) = shift_sign (2 ^ p) m (j * unat g) (xs ! j)"
proof -
  note p = wf_galoisD [OF w]
  have "2 ^ p < (2 :: nat) ^ 64" using p(7) by simp
  then have u: "unat (of_nat (2 ^ p) :: u64) = 2 ^ p" using unat_of_nat [of "2 ^ p", where 'a = 64] by (simp only: len64 mod_less)
  then have mask: "unat (of_nat (2 ^ p) - 1 :: u64) = 2 ^ p - 1" by (simp add: unat_sub_if')
  have eq: "applyGalois tool xs g m r = applyGalois_loop xs p (of_nat (2 ^ p) - 1) g m (2 ^ p) 0 (of_nat (0 * unat g)) r"
    unfolding applyGalois_def Let_def p(3,4) mask by simp
  have "p \<le> 31" using p(2) by simp
  note v = applyGalois_loop_value [OF this g mask, of 0 "2 ^ p" r m xs] len
  show "length (applyGalois tool xs g m r) = 2 ^ p" unfolding eq using v by simp
  show "applyGalois tool xs g m r ! (j * unat g mod 2 ^ p) = shift_sign (2 ^ p) m (j * unat g) (xs ! j)" if "j < 2 ^ p"
    unfolding eq using v that by simp
qed

lemma bij_galois_index:
  assumes "odd g"
  shows "bij_betw (\<lambda>j. j * g mod 2 ^ p) {..<2 ^ p} {..<(2 :: nat) ^ p}"
proof -
  have "inj_on (\<lambda>j. j * g mod 2 ^ p) {..<2 ^ p}" using galois_index_inj [OF assms] by (intro inj_onI) simp
  moreover from this have "(\<lambda>j. j * g mod 2 ^ p) ` {..<2 ^ p} = {..<2 ^ p}" by (intro endo_inj_surj) auto
  ultimately show ?thesis by (simp add: bij_betw_def)
qed

lemma applyGalois_reduced:
  assumes w: "wf_galois p tool" and g: "odd (unat g)" and len: "length a = 2 ^ p" "length r = 2 ^ p" and a: "reduced m a"
    and m: "0 < unat (mod_value m)"
  shows "reduced m (applyGalois tool a g m r)"
  unfolding reduced_def
proof
  let ?q = "int (unat (mod_value m))"
  fix x assume "x \<in> set (applyGalois tool a g m r)"
  then obtain c where c: "c < 2 ^ p" "x = applyGalois tool a g m r ! c"
    using applyGalois_value(1) [OF w g len(2)] by (metis in_set_conv_nth)
  then have "c \<in> (\<lambda>j. j * unat g mod 2 ^ p) ` {..<2 ^ p}" using bij_galois_index [OF g, of p] by (simp add: bij_betw_def)
  then obtain j where j: "j < 2 ^ p" "c = j * unat g mod 2 ^ p" by auto
  have "unat (a ! j) < unat (mod_value m)" by (rule reduced_nth [OF a]) (use j len in simp)
  from shift_sign_value [OF this, of "2 ^ p" "j * unat g"]
  have "int (unat x) = (- 1) ^ (j * unat g div 2 ^ p) * int (unat (a ! j)) mod ?q"
    unfolding c(2) j(2) applyGalois_value(2) [OF w g len(2) j(1)] .
  moreover have "0 < ?q" using m by (simp only: of_nat_0_less_iff)
  ultimately have "int (unat x) < ?q" by (simp only: pos_mod_bound)
  then show "unat x < unat (mod_value m)" by (simp only: of_nat_less_iff)
qed

lemma shift_sign_eqm:
  assumes "unat x < unat (mod_value m)" and w: "eqm (int (unat (mod_value m))) (w ^ n) (- 1)"
  shows "eqm (int (unat (mod_value m))) (int (unat (shift_sign n m e x)) * w ^ (e mod n)) (int (unat x) * w ^ e)"
proof -
  let ?q = "int (unat (mod_value m))"
  have "eqm ?q (int (unat (shift_sign n m e x))) ((- 1) ^ (e div n) * int (unat x))"
    unfolding shift_sign_value [OF assms(1)] eqm_def by simp
  then have "eqm ?q (int (unat (shift_sign n m e x)) * w ^ (e mod n)) ((- 1) ^ (e div n) * int (unat x) * w ^ (e mod n))"
    by (intro eqm_mult eqm_refl)
  also have "eqm ?q \<dots> ((w ^ n) ^ (e div n) * int (unat x) * w ^ (e mod n))"
    by (intro eqm_mult eqm_refl eqm_sym [OF eqm_power [OF w]])
  also have "(w ^ n) ^ (e div n) * int (unat x) * w ^ (e mod n) = int (unat x) * (w ^ (n * (e div n)) * w ^ (e mod n))"
    by (simp add: power_mult mult_ac)
  also have "w ^ (n * (e div n)) * w ^ (e mod n) = w ^ e" by (simp flip: power_add)
  finally show ?thesis .
qed

lemma galois_evaluation:
  assumes w: "wf_galois p tool" and g: "odd (unat g)" and len: "length a = 2 ^ p" "length r = 2 ^ p"
    and a: "reduced m a" and z: "eqm (int (unat (mod_value m))) (z ^ 2 ^ p) (- 1)"
  shows "eqm (int (unat (mod_value m))) (\<Sum>c<2 ^ p. int (unat (applyGalois tool a g m r ! c)) * z ^ c)
    (\<Sum>i<2 ^ p. int (unat (a ! i)) * z ^ (i * unat g))"
proof -
  let ?f = "\<lambda>c. int (unat (applyGalois tool a g m r ! c)) * z ^ c"
  have "(\<Sum>c<2 ^ p. ?f c) = (\<Sum>i<2 ^ p. ?f (i * unat g mod 2 ^ p))"
    by (rule sum.reindex_bij_betw [OF bij_galois_index [OF g], symmetric])
  also have "eqm (int (unat (mod_value m))) \<dots> (\<Sum>i<2 ^ p. int (unat (a ! i)) * z ^ (i * unat g))"
  proof (rule eqm_sum)
    fix i :: nat
    assume "i \<in> {..<2 ^ p}"
    then have i: "i < 2 ^ p" by simp
    have "unat (a ! i) < unat (mod_value m)" by (rule reduced_nth [OF a]) (use i len in simp)
    from shift_sign_eqm [OF this z] show "eqm (int (unat (mod_value m))) (?f (i * unat g mod 2 ^ p)) (int (unat (a ! i)) * z ^ (i * unat g))"
      unfolding applyGalois_value(2) [OF w g len(2) i] .
  qed
  finally show ?thesis .
qed

text \<open>The exponent of the root after the substitution, modulo twice the degree.\<close>

lemma galois_place_exponent:
  assumes "odd g"
  shows "2 * revn p (galois_place p g k) + 1 = g * (2 * revn p k + 1) mod 2 ^ Suc p"
proof -
  let ?E = "g * (2 * revn p k + 1)"
  have "odd ?E" using assms by simp
  then have "?E mod 2 = 1" by (simp only: odd_iff_mod_2_eq_one)
  have "?E mod (2 * 2 ^ p) = 2 * (?E div 2 mod 2 ^ p) + ?E mod 2" by (rule mod_mult2_eq)
  then show ?thesis using \<open>?E mod 2 = 1\<close> by (simp add: galois_place_def revn_involution)
qed

lemma root_exponent_mod:
  assumes \<psi>: "eqm q (\<psi> ^ 2 ^ p) (- 1)"
  shows "eqm q (\<psi> ^ e) (\<psi> ^ (e mod 2 ^ Suc p))"
proof -
  have "eqm q (\<psi> ^ 2 ^ Suc p) ((- 1) ^ 2)"
    using eqm_power [OF \<psi>, of 2] by (simp add: mult.commute flip: power_mult)
  then have "eqm q ((\<psi> ^ 2 ^ Suc p) ^ (e div 2 ^ Suc p) * \<psi> ^ (e mod 2 ^ Suc p)) (1 ^ (e div 2 ^ Suc p) * \<psi> ^ (e mod 2 ^ Suc p))"
    by (intro eqm_mult eqm_refl eqm_power) simp
  moreover have "(\<psi> ^ 2 ^ Suc p) ^ (e div 2 ^ Suc p) * \<psi> ^ (e mod 2 ^ Suc p) = \<psi> ^ e"
    by (simp flip: power_mult power_add)
  ultimately show ?thesis by simp
qed

lemma ntt_galois:
  assumes t: "wf_tables p m t" and w: "wf_galois p tool" and g: "odd (unat g)"
    and len: "length a = 2 ^ p" "length r = 2 ^ p" and a: "reduced m a" and k: "k < 2 ^ p"
  shows "nttNegacyclicHarvey (applyGalois tool a g m r) t ! k = nttNegacyclicHarvey a t ! galois_place p (unat g) k"
proof -
  let ?q = "int (unat (mod_value m))" and ?\<psi> = "int (unat (ntt_root t))" and ?b = "applyGalois tool a g m r"
  let ?w = "?\<psi> ^ (2 * revn p k + 1)" and ?k = "galois_place p (unat g) k"
  note T = wf_tablesD [OF t]
  have blen: "length ?b = 2 ^ p" by (rule applyGalois_value(1) [OF w g len(2)])
  have bred: "reduced m ?b" by (rule applyGalois_reduced [OF w g len a]) (rule wf_modulus_bound(1) [OF T(1)])
  have "?w ^ 2 ^ p = (?\<psi> ^ 2 ^ p) ^ (2 * revn p k + 1)" by (simp only: mult.commute flip: power_mult)
  also have "eqm ?q \<dots> ((- 1) ^ (2 * revn p k + 1))" by (rule eqm_power [OF T(8)])
  finally have z: "eqm ?q (?w ^ 2 ^ p) (- 1)" by simp
  have "value_at p t ?b k = (\<Sum>c<2 ^ p. int (unat (?b ! c)) * ?w ^ c)"
    unfolding value_at_def evaluation_def by (simp only: power_mult)
  also have "eqm ?q \<dots> (\<Sum>i<2 ^ p. int (unat (a ! i)) * ?w ^ (i * unat g))"
    by (rule galois_evaluation [OF w g len a z])
  also have "eqm ?q \<dots> (\<Sum>i<2 ^ p. int (unat (a ! i)) * ?\<psi> ^ ((2 * revn p ?k + 1) * i))"
  proof (intro eqm_sum eqm_mult eqm_refl)
    fix i :: nat
    have "?w ^ (i * unat g) = (?\<psi> ^ (unat g * (2 * revn p k + 1))) ^ i" by (simp only: mult_ac flip: power_mult)
    also have "eqm ?q \<dots> ((?\<psi> ^ (unat g * (2 * revn p k + 1) mod 2 ^ Suc p)) ^ i)"
      by (intro eqm_power root_exponent_mod T(8))
    also have "(?\<psi> ^ (unat g * (2 * revn p k + 1) mod 2 ^ Suc p)) ^ i = ?\<psi> ^ ((2 * revn p ?k + 1) * i)"
      unfolding galois_place_exponent [OF g, symmetric] by (simp only: power_mult)
    finally show "eqm ?q (?w ^ (i * unat g)) (?\<psi> ^ ((2 * revn p ?k + 1) * i))" .
  qed
  finally have "eqm ?q (value_at p t ?b k) (value_at p t a ?k)" by (simp only: value_at_def evaluation_def)
  moreover have "\<forall>x\<in>set ?b. unat x < 4 * unat (mod_value m)" "\<forall>x\<in>set a. unat x < 4 * unat (mod_value m)"
    using bred a by (auto simp: reduced_def)
  ultimately have "int (unat (nttNegacyclicHarvey ?b t ! k)) = int (unat (nttNegacyclicHarvey a t ! ?k))"
    using nttNegacyclicHarvey_value(2) [OF t blen _ k] nttNegacyclicHarvey_value(2) [OF t len(1) _ galois_place_less [of p "unat g" k]]
    unfolding eqm_def by (simp only:)
  then show ?thesis by (simp only: of_nat_eq_iff word_unat_eq_iff)
qed


section \<open>The elements\<close>

lemma unat_double_degree:
  assumes "p \<le> 17"
  shows "unat (word_of_int (2 ^ p * 2) :: u64) = 2 ^ Suc p" "unat (word_of_int (2 ^ p * 2) - 1 :: u64) = 2 ^ Suc p - 1"
    "unat (word_of_int (2 ^ p * 2) :: u32) = 2 ^ Suc p" "unat (word_of_int (2 ^ p * 2) - 1 :: u32) = 2 ^ Suc p - 1"
proof -
  have "(2 :: nat) ^ Suc p \<le> 2 ^ 18" using assms by (intro power_increasing) simp_all
  then have lt: "(2 :: nat) ^ Suc p < 2 ^ 32" "(2 :: nat) ^ Suc p < 2 ^ 64" by simp_all
  have one_le: "1 \<le> (2 :: nat) ^ Suc p" by simp
  have e: "(2 :: int) ^ p * 2 = int (2 ^ Suc p)" by simp
  show a: "unat (word_of_int (2 ^ p * 2) :: u64) = 2 ^ Suc p"
    unfolding e of_int_of_nat_eq using unat_of_nat [of "2 ^ Suc p", where 'a = 64] lt(2) by (simp only: len64 mod_less)
  show b: "unat (word_of_int (2 ^ p * 2) :: u32) = 2 ^ Suc p"
    unfolding e of_int_of_nat_eq by (rule unat_of_nat_u32 [OF lt(1)])
  show "unat (word_of_int (2 ^ p * 2) - 1 :: u64) = 2 ^ Suc p - 1"
    by (subst unat_sub) (simp_all only: word_le_nat_alt a unat_1 one_le)
  show "unat (word_of_int (2 ^ p * 2) - 1 :: u32) = 2 ^ Suc p - 1"
    by (subst unat_sub) (simp_all only: word_le_nat_alt b unat_1 one_le)
qed

lemma galois_elt_loop_value:
  assumes m: "unat (m - 1) = 2 ^ Suc p - 1" and p: "p \<le> 17"
  shows "unat e < 2 ^ Suc p \<Longrightarrow> unat (galois_elt_loop k 3 m e) = unat e * 3 ^ k mod 2 ^ Suc p"
proof (induction k arbitrary: e)
  case (Suc k)
  have "(2 :: nat) ^ Suc p \<le> 2 ^ 18" using p by (intro power_increasing) simp_all
  then have "unat (e * 3) = unat e * 3" using Suc.prems by (simp add: unat_mul64)
  then have step: "unat (e * 3 AND (m - 1)) = unat e * 3 mod 2 ^ Suc p" by (simp only: and_low_bits [OF m])
  have "unat (galois_elt_loop (Suc k) 3 m e) = (unat e * 3 mod 2 ^ Suc p) * 3 ^ k mod 2 ^ Suc p"
    unfolding galois_elt_loop.simps by (subst Suc.IH) (simp_all only: step mod_less_divisor zero_less_power zero_less_numeral)
  also have "\<dots> = unat e * 3 ^ Suc k mod 2 ^ Suc p" by (simp only: mod_mult_left_eq power_Suc mult.assoc)
  finally show ?case .
qed simp

lemma ucast_u32_u64: "unat (x :: u64) < 2 ^ 32 \<Longrightarrow> unat (ucast x :: u32) = unat x"
  by (simp add: unsigned_ucast_eq take_bit_nat_eq_self)

lemma getEltFromStep_value:
  assumes w: "wf_galois p tool" and s: "- (2 ^ 31) < s" "s < 2 ^ 31"
  shows "if s \<noteq> 0 \<and> 2 ^ (p - 1) \<le> \<bar>s\<bar> then getEltFromStep tool s = Inl (Invalid_argument ''step count too large'')
    else \<exists>e. getEltFromStep tool s = Inr e \<and> unat e =
      (if s = 0 then 2 ^ Suc p - 1 else 3 ^ nat (if s < 0 then 2 ^ (p - 1) + s else s) mod 2 ^ Suc p)"
proof -
  note p = wf_galoisD [OF w]
  let ?m = "word_of_int (2 ^ p * 2) :: u64"
  note d = unat_double_degree [OF p(2)]
  have n32: "(2 :: int) ^ p \<le> 131072" using power_increasing [of p 17 "2 :: int"] p(2) by simp
  have cast: "safe_cast uint32_t uint64_t (int (2 ^ p)) = Inr (2 ^ p)" using cast_u32_u64 [of "2 ^ p"] n32 by simp
  have mul: "mul_safe uint32_t (2 ^ p) 2 = Inr (2 ^ p * 2)" by (rule mul_safe_u32) (use n32 in simp_all)
  have sc: "safe_cast uint32_t int32_t \<bar>s\<bar> = Inr \<bar>s\<bar>" using s by (intro cast_u32_i32) simp_all
  have half: "drop_bit 1 ((2 :: int) ^ p) = 2 ^ (p - 1)" using p(1) by (cases p) (simp_all add: drop_bit_eq_div)
  have l18: "(2 :: nat) ^ Suc p < 2 ^ 32" using power_increasing [of "Suc p" 18 "2 :: nat"] p(2) by simp
  show ?thesis
  proof (cases "s = 0")
    case True
    have "unat (ucast (?m - 1) :: u32) = 2 ^ Suc p - 1" using l18 by (subst ucast_u32_u64) (simp_all only: d)
    then show ?thesis using True unfolding getEltFromStep_def p(4) cast mul rbind_simps Let_def by simp
  next
    case False
    show ?thesis
    proof (cases "2 ^ (p - 1) \<le> \<bar>s\<bar>")
      case True
      then show ?thesis using False unfolding getEltFromStep_def p(4) cast mul sc rbind_simps Let_def half by simp
    next
      case F2: False
      have h: "(2 :: int) ^ (p - 1) \<le> 65536" using power_increasing [of "p - 1" 16 "2 :: int"] p(2) by simp
      have "(2 :: int) ^ (p - 1) \<le> 2 ^ Suc p" by (intro power_increasing) simp_all
      then have "\<bar>s\<bar> < 2 ^ Suc p" using F2 by linarith
      moreover have "(2 :: int) ^ p * 2 - 1 = mask (Suc p)" by (simp add: mask_eq_exp_minus_1)
      ultimately have a: "\<bar>s\<bar> AND (2 ^ p * 2 - 1) = \<bar>s\<bar>" by (simp only: take_bit_eq_mask [symmetric] take_bit_int_eq_self_iff abs_ge_zero simp_thms)
      let ?t = "if s < 0 then 2 ^ (p - 1) + s else s"
      have step: "(if s < 0 then rbind (safe_cast int32_t uint32_t (2 ^ (p - 1))) (\<lambda>a. rbind (safe_cast int32_t uint32_t \<bar>s\<bar>) (\<lambda>b. Inr (a - b)))
          else safe_cast int32_t uint32_t \<bar>s\<bar>) = Inr ?t"
        using cast_i32_u32 [of "2 ^ (p - 1)"] cast_i32_u32 [of "\<bar>s\<bar>"] h F2 by (cases "s < 0") simp_all
      let ?e = "galois_elt_loop (nat ?t) (ucast galois_generator) ?m 1"
      have g: "ucast galois_generator = (3 :: u64)" by (simp add: galois_generator_def)
      have "unat (1 :: u64) < 2 ^ Suc p" unfolding unat_1 by (rule one_less_power) simp_all
      from galois_elt_loop_value [OF d(2) p(2) this, of "nat ?t"]
      have e: "unat ?e = 3 ^ nat ?t mod 2 ^ Suc p" unfolding g by simp
      have "unat ?e < 2 ^ 32" unfolding e using l18 by (rule less_trans [rotated]) simp
      then have "unat (ucast ?e :: u32) = 3 ^ nat ?t mod 2 ^ Suc p" by (simp only: ucast_u32_u64 e)
      moreover have "getEltFromStep tool s = Inr (ucast ?e)"
        unfolding getEltFromStep_def p(4) cast mul sc rbind_simps Let_def half a if_not_P [OF False] if_not_P [OF F2] step by (rule refl)
      ultimately show ?thesis using False F2 by simp
    qed
  qed
qed

text \<open>The order of three divides half the degree.\<close>

lemma three_power_ex: "\<exists>k. 3 ^ 2 ^ Suc d = 2 ^ (d + 3) * k + (1 :: nat)"
proof (induction d)
  case (Suc d)
  then obtain k :: nat where k: "3 ^ 2 ^ Suc d = 2 ^ (d + 3) * k + 1" by blast
  have "(3 :: nat) ^ 2 ^ Suc (Suc d) = 3 ^ 2 ^ Suc d * 3 ^ 2 ^ Suc d" by (simp flip: power_add power_mult add: mult_2)
  also have "\<dots> = 2 ^ (Suc d + 3) * (2 ^ (d + 2) * k * k + k) + 1"
    unfolding k by (simp add: algebra_simps power_add)
  finally show ?case by blast
qed (rule exI [of _ 1], simp)

lemma three_power:
  assumes "2 \<le> p"
  shows "3 ^ 2 ^ (p - 1) mod 2 ^ Suc p = (1 :: nat)"
proof -
  obtain d where d: "p = d + 2" using assms by (metis add.commute le_Suc_ex)
  obtain k :: nat where k: "3 ^ 2 ^ Suc d = 2 ^ (d + 3) * k + 1" using three_power_ex by blast
  have "(1 :: nat) < 2 ^ (d + 3)" by (rule one_less_power) simp_all
  then have "3 ^ 2 ^ Suc d mod 2 ^ (d + 3) = (1 :: nat)" unfolding k by (simp only: mod_mult_self4 mod_less)
  moreover have "p - 1 = Suc d" "Suc p = d + 3" using d by simp_all
  ultimately show ?thesis by (simp only:)
qed


lemma getEltsAll_loop_value:
  assumes m: "unat (m - 1) = 2 ^ Suc p - 1" and p: "p \<le> 17"
  shows "unat a < 2 ^ Suc p \<Longrightarrow> unat b < 2 ^ Suc p \<Longrightarrow>
    map unat (getEltsAll_loop k m a b es) =
      map unat es @ concat (map (\<lambda>i. [unat a ^ 2 ^ i mod 2 ^ Suc p, unat b ^ 2 ^ i mod 2 ^ Suc p]) [0..<k])"
proof (induction k arbitrary: a b es)
  case (Suc k)
  have M: "(2 :: nat) ^ Suc p \<le> 2 ^ 18" using p by (intro power_increasing) simp_all
  have sq: "unat (x * x AND (m - 1)) = unat x * unat x mod 2 ^ Suc p" if "unat x < 2 ^ Suc p" for x
  proof -
    have "unat x * unat x < 2 ^ 18 * 2 ^ 18" by (rule mult_strict_mono) (use that M in simp_all)
    then have "unat (x * x) = unat x * unat x" by (simp add: unat_mul64)
    then show ?thesis by (simp only: and_low_bits [OF m])
  qed
  have pw: "(y * y mod 2 ^ Suc p) ^ 2 ^ i mod 2 ^ Suc p = y ^ 2 ^ Suc i mod 2 ^ Suc p" for y i :: nat
    by (simp add: power_mod power_mult power2_eq_square)
  have lt: "x * x mod 2 ^ Suc p < 2 ^ Suc p" for x :: nat by simp
  have u32: "unat (ucast x :: u32) = unat x" if "unat x < 2 ^ Suc p" for x :: u64
    by (rule ucast_u32_u64) (use that M in simp)
  have upt: "[0..<Suc k] = 0 # map Suc [0..<k]" by (simp add: upt_conv_Cons map_Suc_upt del: upt_Suc)
  have "map unat (getEltsAll_loop (Suc k) m a b es) =
      map unat (es @ [ucast a, ucast b]) @ concat (map (\<lambda>i. [unat (a * a AND (m - 1)) ^ 2 ^ i mod 2 ^ Suc p,
        unat (b * b AND (m - 1)) ^ 2 ^ i mod 2 ^ Suc p]) [0..<k])"
    unfolding getEltsAll_loop.simps by (rule Suc.IH) (simp_all only: sq [OF Suc.prems(1)] sq [OF Suc.prems(2)] lt)
  also have "\<dots> = map unat es @ [unat a, unat b] @ concat (map (\<lambda>i. [unat a ^ 2 ^ Suc i mod 2 ^ Suc p,
        unat b ^ 2 ^ Suc i mod 2 ^ Suc p]) [0..<k])"
    unfolding sq [OF Suc.prems(1)] sq [OF Suc.prems(2)] pw using u32 [OF Suc.prems(1)] u32 [OF Suc.prems(2)] by simp
  also have "[unat a, unat b] = [unat a ^ 2 ^ 0 mod 2 ^ Suc p, unat b ^ 2 ^ 0 mod 2 ^ Suc p]"
    using Suc.prems by (simp only: power_0 power_one_right mod_less)
  also have "map unat es @ [unat a ^ 2 ^ 0 mod 2 ^ Suc p, unat b ^ 2 ^ 0 mod 2 ^ Suc p] @ concat (map (\<lambda>i. [unat a ^ 2 ^ Suc i mod 2 ^ Suc p,
        unat b ^ 2 ^ Suc i mod 2 ^ Suc p]) [0..<k]) =
      map unat es @ concat (map (\<lambda>i. [unat a ^ 2 ^ i mod 2 ^ Suc p, unat b ^ 2 ^ i mod 2 ^ Suc p]) [0..<Suc k])"
    unfolding upt by (simp only: list.map map_map o_def concat.simps append.simps)
  finally show ?case .
qed simp

lemma getEltsAll_value:
  assumes w: "wf_galois p tool"
  shows "\<exists>es r. getEltsAll tool = Inr es \<and> 3 * r mod 2 ^ Suc p = 1 \<and>
    map unat es = (2 ^ Suc p - 1) # concat (map (\<lambda>i. [3 ^ 2 ^ i mod 2 ^ Suc p, r ^ 2 ^ i mod 2 ^ Suc p]) [0..<p - 1])"
proof -
  note p = wf_galoisD [OF w]
  note d = unat_double_degree [OF p(2)]
  let ?m = "word_of_int (2 ^ p * 2) :: u64"
  have M: "(2 :: nat) ^ Suc p \<le> 2 ^ 18" "(2 :: nat) ^ 2 \<le> 2 ^ Suc p" using p(1,2) by (intro power_increasing; simp)+
  have "int (push_bit 1 (2 ^ p)) = 2 ^ p * 2" by (simp add: push_bit_eq_mult)
  moreover have "int (push_bit 1 (2 ^ p)) < 2 ^ 32"
    using power_increasing [of "Suc p" 18 "2 :: int"] p(2) by (simp add: push_bit_eq_mult)
  ultimately have cast: "safe_cast uint32_t uint64_t (int (push_bit 1 (2 ^ p))) = Inr (2 ^ p * 2)"
    using cast_u32_u64 [of "int (push_bit 1 (2 ^ p))"] by (simp only: of_nat_0_le_iff)
  have g: "ucast galois_generator = (3 :: u64)" by (simp add: galois_generator_def)
  have "coprime (3 :: nat) (2 ^ Suc p)" by simp
  moreover have "unat (3 :: u64) = 3" by simp
  moreover have "1 < unat ?m" "unat ?m < 2 ^ 63" using M unfolding d(1) by simp_all
  ultimately obtain r where r: "tryInvertUintMod 3 ?m = Inr (Some r)" "r < ?m" "3 * unat r mod 2 ^ Suc p = 1"
    using tryInvertUintMod_value [of 3 ?m] unfolding d(1) by auto
  have rl: "unat r < 2 ^ Suc p" using r(2) unfolding word_less_nat_alt d(1) .
  have tl: "unat (3 :: u64) < 2 ^ Suc p" using M(2) by simp
  let ?es = "getEltsAll_loop (p - 1) ?m 3 r [word_of_int (2 ^ p * 2) - 1]"
  have "getEltsAll tool = Inr ?es"
    unfolding getEltsAll_def p(3,4) cast rbind_simps Let_def g r(1) by simp
  moreover have "map unat ?es = (2 ^ Suc p - 1) # concat (map (\<lambda>i. [3 ^ 2 ^ i mod 2 ^ Suc p, unat r ^ 2 ^ i mod 2 ^ Suc p]) [0..<p - 1])"
    unfolding getEltsAll_loop_value [OF d(2) p(2) tl rl] list.map d(4) by simp
  ultimately show ?thesis using r(3) by (intro exI [of _ ?es] exI [of _ "unat r"] conjI)
qed

section \<open>Properties\<close>

text \<open>
  C25. Applying the Galois element \<open>g\<close> substitutes \<open>X\<close> to the power \<open>g\<close>: the coefficient of \<open>X\<close> to the \<open>j\<close> lands at
  \<open>j\<close> times \<open>g\<close>, with the sign of the wrap around the negacyclic ring, and no coefficient of the result
  is left unwritten.
\<close>

theorem applyGalois_correct:
  assumes tool: "GaloisTool_initialize c = Inr tool" and g: "odd (unat g)"
    and a: "length a = 2 ^ nat c" "\<forall>x\<in>set a. unat x < unat (mod_value m)" and r: "length r = 2 ^ nat c"
  shows "bij_betw (\<lambda>j. j * unat g mod 2 ^ nat c) {..<2 ^ nat c} {..<2 ^ nat c} \<and>
    (\<forall>j<2 ^ nat c. int (unat (applyGalois tool a g m r ! (j * unat g mod 2 ^ nat c))) =
      (- 1) ^ (j * unat g div 2 ^ nat c) * int (unat (a ! j)) mod int (unat (mod_value m)))"
proof (intro conjI allI impI)
  fix j :: nat
  assume j: "j < 2 ^ nat c"
  have "unat (a ! j) < unat (mod_value m)" using a j by simp
  from shift_sign_value [OF this, of "2 ^ nat c" "j * unat g"]
  show "int (unat (applyGalois tool a g m r ! (j * unat g mod 2 ^ nat c))) =
      (- 1) ^ (j * unat g div 2 ^ nat c) * int (unat (a ! j)) mod int (unat (mod_value m))"
    unfolding applyGalois_value(2) [OF initialize_wf_galois [OF tool] g r j] .
qed (rule bij_galois_index [OF g])

theorem applyGalois_correct_witness:
  "\<exists>tool. GaloisTool_initialize 2 = Inr tool \<and>
    int (unat (applyGalois tool [1, 2, 3, 4] 3 modulus_17 [0, 0, 0, 0] ! (2 * 3 mod 2 ^ 2))) = - 3 mod 17"
proof -
  obtain tool where tool: "GaloisTool_initialize 2 = Inr tool" unfolding GaloisTool_initialize_wf by simp
  have "\<forall>x\<in>set [1, 2, 3, 4 :: u64]. unat x < unat (mod_value modulus_17)" by (simp add: modulus_17_def)
  from applyGalois_correct [OF tool, of 3 "[1, 2, 3, 4]" modulus_17 "[0, 0, 0, 0]", OF _ _ this]
  have "\<forall>j<4. int (unat (applyGalois tool [1, 2, 3, 4] 3 modulus_17 [0, 0, 0, 0] ! (j * unat (3 :: u32) mod 4))) =
      (- 1) ^ (j * unat (3 :: u32) div 4) * int (unat ([1, 2, 3, 4 :: u64] ! j)) mod int (unat (mod_value modulus_17))"
    by simp
  from this [rule_format, of 2] have "int (unat (applyGalois tool [1, 2, 3, 4] 3 modulus_17 [0, 0, 0, 0] ! (2 * 3 mod 2 ^ 2))) = - 3 mod 17"
    by (simp add: modulus_17_def)
  with tool show ?thesis by blast
qed

text \<open>
  C24. On transformed polynomials the automorphism is a permutation: permuting the transform with the table that
  the tool builds gives the transform of the substituted polynomial.
\<close>

theorem applyGaloisNtt_correct:
  assumes m: "wf_modulus m" and t: "NTTTables_initialize rd (nat c) m = Inr t"
    and tool: "GaloisTool_initialize c = Inr tool" and g: "odd (unat g)" "unat g < 2 ^ Suc (nat c)"
    and a: "length a = 2 ^ nat c" "\<forall>x\<in>set a. unat x < unat (mod_value m)"
    and r: "length r = 2 ^ nat c" "length r' = 2 ^ nat c"
  shows "\<exists>tool'. applyGaloisNtt (nttNegacyclicHarvey a t) g tool r =
    Some (Inr (tool', nttNegacyclicHarvey (applyGalois tool a g m r') t))"
proof -
  let ?p = "nat c" and ?h = "nttNegacyclicHarvey a t"
  let ?table = "map (\<lambda>k. of_nat (galois_place ?p (unat g) k)) [0..<2 ^ ?p] :: u32 list"
  note w = initialize_wf_galois [OF tool]
  note p = wf_galoisD [OF w]
  have wt: "wf_tables ?p m t" by (rule initialize_wf [OF m _ _ t]) (use p in simp_all)
  have red: "reduced m a" using a(2) by (simp add: reduced_def)
  have "unat (g - 1) = unat g - 1" using g(1) by (cases "g = 0") (simp_all add: unat_sub_if' word_le_nat_alt unat_gt_0 Suc_le_eq)
  then have "GetIndexFromElt g = (unat g - 1) div 2"
    by (simp only: GetIndexFromElt_def unat_drop_bit_eq drop_bit_eq_div [where 'a = nat] power_one_right)
  then have idx: "GetIndexFromElt g < length (gal_permutation_tables tool)" using g(2) unfolding p(5) by simp
  have perm: "coeff_loop (\<lambda>i. ?h ! unat (?table ! i)) (2 ^ ?p) 0 r = nttNegacyclicHarvey (applyGalois tool a g m r') t"
  proof (rule nth_equalityI)
    have "reduced m (applyGalois tool a g m r')"
      by (rule applyGalois_reduced [OF w g(1) a(1) r(2) red wf_modulus_bound(1) [OF m]])
    then have "\<forall>x\<in>set (applyGalois tool a g m r'). unat x < 4 * unat (mod_value m)" by (auto simp: reduced_def)
    from nttNegacyclicHarvey_value(1) [OF wt applyGalois_value(1) [OF w g(1) r(2)] this]
    show "length (coeff_loop (\<lambda>i. ?h ! unat (?table ! i)) (2 ^ ?p) 0 r) = length (nttNegacyclicHarvey (applyGalois tool a g m r') t)"
      using r(1) by simp
  next
    fix k
    assume "k < length (coeff_loop (\<lambda>i. ?h ! unat (?table ! i)) (2 ^ ?p) 0 r)"
    then have k: "k < 2 ^ ?p" using r(1) by simp
    have "galois_place ?p (unat g) k < 2 ^ 32"
      using galois_place_less [of ?p "unat g" k] p(7) by simp
    then have "unat (?table ! k) = galois_place ?p (unat g) k" using k by (simp only: nth_map length_upt nth_upt unat_of_nat_u32 diff_zero add_0)
    then show "coeff_loop (\<lambda>i. ?h ! unat (?table ! i)) (2 ^ ?p) 0 r ! k = nttNegacyclicHarvey (applyGalois tool a g m r') t ! k"
      using ntt_galois [OF wt w g(1) a(1) r(2) red k] r(1) k by (simp add: nth_coeff_loop)
  qed
  show ?thesis
    using idx perm unfolding applyGaloisNtt_def Let_def generateTableNtt_value [OF w] rbind_simps by (simp add: p(4))
qed

theorem applyGaloisNtt_correct_witness:
  "\<exists>tool t tool'. GaloisTool_initialize 2 = Inr tool \<and> NTTTables_initialize (\<lambda>n. 6) 2 modulus_17 = Inr t \<and>
    applyGaloisNtt (nttNegacyclicHarvey [1, 2, 3, 4] t) 3 tool [0, 0, 0, 0] =
      Some (Inr (tool', nttNegacyclicHarvey (applyGalois tool [1, 2, 3, 4] 3 modulus_17 [0, 0, 0, 0]) t))"
proof -
  obtain tool where tool: "GaloisTool_initialize 2 = Inr tool" unfolding GaloisTool_initialize_wf by simp
  have n: "nat 2 = 2" by simp
  obtain t where t: "NTTTables_initialize (\<lambda>n. 6) (nat 2) modulus_17 = Inr t"
    using initialize_ok [OF wf_modulus_17 _ _ root_17] unfolding n by auto
  have "\<forall>x\<in>set [1, 2, 3, 4 :: u64]. unat x < unat (mod_value modulus_17)" by (simp add: modulus_17_def)
  from applyGaloisNtt_correct [OF wf_modulus_17 t tool, of 3 "[1, 2, 3, 4]" "[0, 0, 0, 0]" "[0, 0, 0, 0]", OF _ _ _ this] t tool
  show ?thesis unfolding n by auto
qed

text \<open>
  The element of a rotation by \<open>s\<close> places is three to the power \<open>s\<close>, the elements of opposite rotations are
  inverse to each other, a rotation by half the degree or more is refused, and the list of all elements
  consists of minus one and of the squares of three and of its inverse, one after the other.
\<close>

theorem galois_elements_correct:
  assumes tool: "GaloisTool_initialize c = Inr tool" and s: "0 < s" "s < 2 ^ 31"
  defines "m \<equiv> 2 ^ Suc (nat c) :: nat"
  shows "map_sum id unat (getEltFromStep tool 0) = Inr (m - 1) \<and>
    (if s < 2 ^ (nat c - 1)
     then \<exists>l r. getEltFromStep tool s = Inr l \<and> getEltFromStep tool (- s) = Inr r \<and>
       unat l = 3 ^ nat s mod m \<and> unat l * unat r mod m = 1
     else getEltFromStep tool s = Inl (Invalid_argument ''step count too large'') \<and>
       getEltFromStep tool (- s) = Inl (Invalid_argument ''step count too large'')) \<and>
    (\<exists>es r. getEltsAll tool = Inr es \<and> 3 * r mod m = 1 \<and>
      map unat es = (m - 1) # concat (map (\<lambda>i. [3 ^ 2 ^ i mod m, r ^ 2 ^ i mod m]) [0..<nat c - 1]))"
proof (intro conjI)
  let ?p = "nat c" and ?h = "2 ^ (nat c - 1) :: nat"
  note w = initialize_wf_galois [OF tool]
  note p = wf_galoisD [OF w]
  note v = getEltFromStep_value [OF w]
  show "map_sum id unat (getEltFromStep tool 0) = Inr (m - 1)"
    using v [of 0] unfolding m_def by auto
  show "\<exists>es r. getEltsAll tool = Inr es \<and> 3 * r mod m = 1 \<and>
      map unat es = (m - 1) # concat (map (\<lambda>i. [3 ^ 2 ^ i mod m, r ^ 2 ^ i mod m]) [0..<nat c - 1])"
    unfolding m_def by (rule getEltsAll_value [OF w])
  have hi: "(2 :: int) ^ (nat c - 1) = int ?h" by simp
  show "if s < 2 ^ (nat c - 1)
     then \<exists>l r. getEltFromStep tool s = Inr l \<and> getEltFromStep tool (- s) = Inr r \<and>
       unat l = 3 ^ nat s mod m \<and> unat l * unat r mod m = 1
     else getEltFromStep tool s = Inl (Invalid_argument ''step count too large'') \<and>
       getEltFromStep tool (- s) = Inl (Invalid_argument ''step count too large'')"
  proof (cases "s < 2 ^ (nat c - 1)")
    case False
    then show ?thesis using v [of s] v [of "- s"] s by simp
  next
    case True
    obtain l where l: "getEltFromStep tool s = Inr l" "unat l = 3 ^ nat s mod m"
      using v [of s] True s unfolding m_def by auto
    obtain r where r: "getEltFromStep tool (- s) = Inr r" "unat r = 3 ^ nat (2 ^ (nat c - 1) + - s) mod m"
      using v [of "- s"] True s unfolding m_def by auto
    have c2: "2 \<le> ?p" using True s by (cases "?p = 1") (use p(1) in auto)
    have "nat s + nat (2 ^ (nat c - 1) + - s) = nat (2 ^ (nat c - 1))" using True s by (simp flip: nat_add_distrib)
    also have "\<dots> = ?h" unfolding hi by (rule nat_int)
    finally have e: "nat s + nat (2 ^ (nat c - 1) + - s) = ?h" .
    have "unat l * unat r mod m = 3 ^ (nat s + nat (2 ^ (nat c - 1) + - s)) mod m"
      unfolding l(2) r(2) by (simp only: mod_mult_eq power_add)
    also have "\<dots> = 1" unfolding e m_def by (rule three_power [OF c2])
    finally show ?thesis unfolding if_P [OF True] using l r by blast
  qed
qed

theorem galois_elements_correct_witness:
  "\<exists>tool l r. GaloisTool_initialize 3 = Inr tool \<and> getEltFromStep tool 2 = Inr l \<and> getEltFromStep tool (- 2) = Inr r \<and>
    unat l * unat r mod 2 ^ Suc (nat 3) = 1"
proof -
  obtain tool where tool: "GaloisTool_initialize 3 = Inr tool" unfolding GaloisTool_initialize_wf by simp
  have n: "nat 3 - 1 = 2" by simp
  from galois_elements_correct [OF tool, of 2, unfolded n] tool show ?thesis by auto
qed

end
