(* ===== verification/Rns_Round.thy ===== *)
theory Rns_Round
  imports Rns_Tool
begin

unbundle bit_operations_syntax

text \<open>
  What the divisions by the last modulus of \<open>RNSTool\<close> compute. A polynomial in residue form stands for integer
  coefficients; the divisions are those of the integers, whatever representatives the residues have.
\<close>

section \<open>Polynomials in residue form\<close>

abbreviation modi :: "Modulus list \<Rightarrow> nat \<Rightarrow> int" where
  "modi ms i \<equiv> uint (mod_value (ms ! i))"

definition rns_poly :: "RNSBase \<Rightarrow> nat \<Rightarrow> (nat \<Rightarrow> int) \<Rightarrow> u64 list \<Rightarrow> bool" where
  "rns_poly b n X a \<longleftrightarrow> length a = n * rns_size b \<and>
     (\<forall>i<rns_size b. \<forall>j<n. uint (a ! (i * n + j)) = X j mod modi (rns_base b) i)"

definition inverse_operand :: "Modulus \<Rightarrow> int \<Rightarrow> MultiplyUIntModOperand \<Rightarrow> bool" where
  "inverse_operand m v y \<longleftrightarrow> operand_for m y \<and> v * uint (mop_operand y) mod uint (mod_value m) = 1"

lemma rns_poly_slice:
  assumes "rns_poly b n X a" "i < rns_size b"
  shows "length (poly_slice n i a) = n" "j < n \<Longrightarrow> uint (poly_slice n i a ! j) = X j mod modi (rns_base b) i"
proof -
  have len: "length a = n * rns_size b" using assms(1) by (simp add: rns_poly_def)
  show "length (poly_slice n i a) = n" by (rule length_slice [OF len assms(2)])
  assume j: "j < n"
  show "uint (poly_slice n i a ! j) = X j mod modi (rns_base b) i"
    using assms j by (simp add: rns_poly_def slice_at [OF len assms(2) j, symmetric])
qed

lemma subPoly_map: "length r = n \<Longrightarrow> subPolyCoeffmod x y n m r = map (\<lambda>j. subUintMod (x ! j) (y ! j) m) [0..<n]"
  by (simp only: subPolyCoeffmod_def subPoly_coeff_eq coeff_loop_map)

lemmas poly_maps = moduloPolyCoeffs_def addPolyScalarCoeffmod_def subPolyScalarCoeffmod_def
  multiplyPolyScalarCoeffmod_operand_def coeff_loop_map subPoly_map Let_def

lemma int_unat_mod:
  assumes "unat w = e mod unat m"
  shows "uint w = int e mod uint m"
proof -
  have "int (unat w) = int (e mod unat m)" using assms by (rule arg_cong)
  then show ?thesis by (simp add: zmod_int)
qed

lemma unat_less_uint:
  fixes v w :: "'a::len word"
  shows "unat v < unat w \<longleftrightarrow> uint v < uint w" "unat v \<le> unat w \<longleftrightarrow> uint v \<le> uint w"
  using word_less_def [of v w] word_less_nat_alt [of v w] word_le_def [of v w] word_le_nat_alt [of v w] by simp_all

lemma wf_modulus_int:
  assumes "wf_modulus m"
  shows "1 < uint (mod_value m)" "uint (mod_value m) < 2305843009213693952"
proof -
  have "int 1 < int (unat (mod_value m))" "int (unat (mod_value m)) < int 2305843009213693952"
    using wf_modulusD(2,3) [OF assms] by (simp_all only: of_nat_less_iff)
  then show "1 < uint (mod_value m)" "uint (mod_value m) < 2305843009213693952" by simp_all
qed

lemma barrett_int: "has_ratio m \<Longrightarrow> uint (barrettReduce64 x m) = uint x mod uint (mod_value m)"
  using int_unat_mod [OF barrettReduce64_value [of m x]] by simp

lemma multiply_operand_int:
  assumes "wf_modulus m" "operand_for m y"
  shows "uint (multiplyUintMod_operand x y m) = uint x * uint (mop_operand y) mod uint (mod_value m)"
proof -
  have "unat (mod_value m) \<le> 9223372036854775808" using wf_modulusD(3) [OF assms(1)] by simp
  from int_unat_mod [OF multiplyUintMod_operand_value [OF assms(2) this]] show ?thesis by simp
qed

lemma add_int:
  assumes "wf_modulus m" "uint x < uint (mod_value m)" "uint y \<le> uint (mod_value m)"
  shows "uint (addUintMod x y m) = (uint x + uint y) mod uint (mod_value m)"
proof -
  have "unat x + unat y < 2 * unat (mod_value m)" "unat (mod_value m) \<le> 9223372036854775808"
    using assms(2,3) wf_modulusD(3) [OF assms(1)] unfolding unat_less_uint [symmetric] by linarith+
  from int_unat_mod [OF addUintMod_value [OF this]] show ?thesis by simp
qed

lemma sub_int:
  assumes "uint x < uint (mod_value m)" "uint y \<le> uint (mod_value m)"
  shows "uint (subUintMod x y m) = (uint x - uint y) mod uint (mod_value m)"
proof -
  have le: "unat x < unat (mod_value m)" "unat y \<le> unat (mod_value m)" using assms unfolding unat_less_uint .
  have "int (unat x + unat (mod_value m) - unat y) = uint x - uint y + uint (mod_value m)"
    using le(2) by (simp add: of_nat_diff)
  then show ?thesis using int_unat_mod [OF subUintMod_value [OF le]] by simp
qed

lemma mod_word: "uint w = e mod uint (mod_value m) \<Longrightarrow> wf_modulus m \<Longrightarrow> uint w < uint (mod_value m)"
  using wf_modulus_int(1) [of m] by simp

text \<open>The multiple of the divisor that is left after the remainder, times the inverse, is the quotient.\<close>

lemma eqm_quotient:
  assumes "eqm q (inv_d * d) 1" "eqm q z (N - N mod d)"
  shows "eqm q (z * inv_d) (N div d)"
proof -
  have "eqm q (z * inv_d) ((N - N mod d) * inv_d)" by (intro eqm_mult assms(2) eqm_refl)
  also have "(N - N mod d) * inv_d = N div d * (inv_d * d)" by (simp add: minus_mod_eq_mult_div)
  also have "eqm q \<dots> (N div d * 1)" by (intro eqm_mult assms(1) eqm_refl)
  finally show ?thesis by simp
qed

lemma inverse_eqm: "inverse_operand m v y \<Longrightarrow> wf_modulus m \<Longrightarrow> eqm (uint (mod_value m)) (uint (mop_operand y) * v) 1"
  using wf_modulus_int(1) [of m] by (simp add: inverse_operand_def eqm_def mult.commute)

section \<open>Rounding division\<close>

definition wf_qlast :: "RNSTool \<Rightarrow> bool" where
  "wf_qlast T \<longleftrightarrow>
     (let q = rt_base_q T; k = rns_size q in
      wf_rns q \<and> 0 < rt_coeff_count T \<and> length (rt_inv_q_last_mod_q T) = k - 1 \<and>
      (\<forall>i<k - 1. inverse_operand (rns_base q ! i) (modi (rns_base q) (k - 1)) (rt_inv_q_last_mod_q T ! i)))"

lemma wf_qlastD:
  assumes "wf_qlast T" "q = rt_base_q T" "k = rns_size q"
  shows "wf_rns q" "i < k - 1 \<Longrightarrow> inverse_operand (rns_base q ! i) (modi (rns_base q) (k - 1)) (rt_inv_q_last_mod_q T ! i)"
    "0 < k" "i < k \<Longrightarrow> wf_modulus (rns_base q ! i)"
  using assms wf_rnsD(10,11) [of q k] by (simp_all add: wf_qlast_def Let_def)

text \<open>One coefficient of the rounding division.\<close>

lemma round_word:
  assumes b: "wf_modulus b" and x: "uint x < uint (mod_value b)" and op: "operand_for b op"
  shows "uint (multiplyUintMod_operand (subUintMod x (subUintMod (barrettReduce64 y b) (barrettReduce64 half b) b) b) op b)
    = (uint x - (uint y - uint half)) * uint (mop_operand op) mod uint (mod_value b)"
proof -
  let ?q = "uint (mod_value b)"
  note r = wf_modulusD(1) [OF b]
  define t where "t = subUintMod (barrettReduce64 y b) (barrettReduce64 half b) b"
  have lt: "uint (barrettReduce64 z b) < uint (mod_value b)" for z using mod_word [OF barrett_int [OF r] b] .
  have t: "uint t = (uint y - uint half) mod ?q"
    unfolding t_def sub_int [OF lt less_imp_le [OF lt]] barrett_int [OF r] by (simp add: mod_diff_eq)
  have "uint (subUintMod x t b) = (uint x - (uint y - uint half)) mod ?q"
    using sub_int [OF x less_imp_le [OF mod_word [OF t b]]] t by (simp add: mod_diff_right_eq)
  then show ?thesis
    using multiply_operand_int [OF b op] by (simp add: mod_mult_left_eq flip: t_def)
qed

lemma round_coeff:
  assumes b: "wf_modulus b" and x: "uint x = X mod uint (mod_value b)" and y: "uint y = (X + h) mod d"
    and half: "uint half = h" and op: "inverse_operand b d op"
  shows "uint (multiplyUintMod_operand (subUintMod x (subUintMod (barrettReduce64 y b) (barrettReduce64 half b) b) b) op b)
    = ((X + h) div d) mod uint (mod_value b)"
proof -
  let ?q = "uint (mod_value b)"
  have "eqm ?q (uint x - (uint y - uint half)) (X - ((X + h) mod d - h))"
    unfolding x y half eqm_def by (rule mod_diff_left_eq)
  also have "X - ((X + h) mod d - h) = X + h - (X + h) mod d" by simp
  finally have "eqm ?q (uint x - (uint y - uint half)) (X + h - (X + h) mod d)" .
  from eqm_quotient [OF inverse_eqm [OF op b] this]
  have "eqm ?q ((uint x - (uint y - uint half)) * uint (mop_operand op)) ((X + h) div d)" .
  then show ?thesis
    using round_word [OF b mod_word [OF x b], of op] op by (simp add: inverse_operand_def eqm_def)
qed

lemma half_value: "uint (drop_bit 1 (w :: u64)) = uint w div 2"
  using arg_cong [OF unat_drop64 [of 1 w], of int] by (simp add: zdiv_int)

text \<open>A change of the last part of the array.\<close>

lemma last_slice:
  fixes a :: "u64 list"
  assumes len: "length a = n * k" "0 < k" and f: "length (f (poly_slice n (k - 1) a)) = n"
  defines "r \<equiv> on_slice ((k - 1) * n) n f a"
  shows "length r = n * k" "i < k - 1 \<Longrightarrow> poly_slice n i r = poly_slice n i a"
    "poly_slice n (k - 1) r = f (poly_slice n (k - 1) a)" "j < n \<Longrightarrow> drop ((k - 1) * n) r ! j = f (poly_slice n (k - 1) a) ! j"
    "take n (drop ((k - 1) * n) r) = f (poly_slice n (k - 1) a)"
proof -
  have comm: "(k - 1) * n = n * (k - 1)" by simp
  have l: "k - 1 < k" using len(2) by simp
  show lr: "length r = n * k" unfolding r_def comm by (rule length_on_slice [where f = f, OF len(1) l f])
  show "poly_slice n i r = poly_slice n i a" if "i < k - 1"
    using slice_on_slice [where f = f, OF len(1) l _ f, of i] that unfolding r_def comm by simp
  show s: "poly_slice n (k - 1) r = f (poly_slice n (k - 1) a)"
    using slice_on_slice [where f = f, OF len(1) l l f] unfolding r_def comm by simp
  then show t: "take n (drop ((k - 1) * n) r) = f (poly_slice n (k - 1) a)" by (simp add: poly_slice_def mult.commute)
  show "drop ((k - 1) * n) r ! j = f (poly_slice n (k - 1) a) ! j" if "j < n"
    unfolding t [symmetric] using that by simp
qed

text \<open>The last residues with one half added, and the parts of the result.\<close>

definition rounded_last :: "RNSTool \<Rightarrow> u64 list \<Rightarrow> nat \<Rightarrow> u64" where
  "rounded_last T a j =
     (let last = rns_size (rt_base_q T) - 1; m = rns_base (rt_base_q T) ! last
      in addUintMod (poly_slice (rt_coeff_count T) last a ! j) (drop_bit 1 (mod_value m)) m)"

definition rounded_part :: "RNSTool \<Rightarrow> u64 list \<Rightarrow> nat \<Rightarrow> u64 list" where
  "rounded_part T a i =
     (let q = rt_base_q T; b = rns_base q ! i; half = drop_bit 1 (mod_value (rns_base q ! (rns_size q - 1)))
      in map (\<lambda>j. multiplyUintMod_operand (subUintMod (poly_slice (rt_coeff_count T) i a ! j)
               (subUintMod (barrettReduce64 (rounded_last T a j) b) (barrettReduce64 half b) b) b) (rt_inv_q_last_mod_q T ! i) b)
             [0..<rt_coeff_count T])"

lemma divideAndRound_part:
  assumes len: "length a = rt_coeff_count T * rns_size (rt_base_q T)" and i: "i < rns_size (rt_base_q T) - 1"
  shows "length (divideAndRoundqLastInplace T a) = rt_coeff_count T * rns_size (rt_base_q T)"
    "poly_slice (rt_coeff_count T) i (divideAndRoundqLastInplace T a) = rounded_part T a i"
proof -
  define n where "n = rt_coeff_count T"
  define q where "q = rt_base_q T"
  define k where "k = rns_size q"
  let ?m = "rns_base q ! (k - 1)"
  define half where "half = drop_bit 1 (mod_value ?m)"
  define f where "f = (\<lambda>x. addPolyScalarCoeffmod x n half ?m x)"
  define r where "r = on_slice ((k - 1) * n) n f a"
  define g where "g = (\<lambda>i x. let b = rns_base q ! i;
      temp = subPolyScalarCoeffmod (moduloPolyCoeffs (drop ((k - 1) * n) r) n b (replicate n 0)) n (barrettReduce64 half b) b
        (moduloPolyCoeffs (drop ((k - 1) * n) r) n b (replicate n 0));
      x = subPolyCoeffmod x temp n b x
    in multiplyPolyScalarCoeffmod_operand x n (rt_inv_q_last_mod_q T ! i) b x)"
  have res: "divideAndRoundqLastInplace T a = parts_loop g n (k - 1) 0 r"
    unfolding divideAndRoundqLastInplace_def Let_def g_def r_def f_def half_def n_def k_def q_def modulus_value_def by (rule refl)
  have a: "length a = n * k" "0 < k" "i < k - 1" using len i by (simp_all add: n_def q_def k_def)
  have ls: "length (poly_slice n (k - 1) a) = n" by (rule length_slice [OF a(1)]) (use a in simp)
  then have f: "f (poly_slice n (k - 1) a) = map (rounded_last T a) [0..<n]"
    by (simp add: f_def poly_maps rounded_last_def half_def n_def q_def k_def)
  then have fl: "length (f (poly_slice n (k - 1) a)) = n" by simp
  note lp = last_slice [where f = f, OF a(1,2) fl, folded r_def]
  have y: "drop ((k - 1) * n) r ! j = rounded_last T a j" if "j < n" for j using lp(4) [OF that] that unfolding f by simp
  have g: "g i x = map (\<lambda>j. multiplyUintMod_operand (subUintMod (x ! j) (subUintMod (barrettReduce64 (rounded_last T a j) (rns_base q ! i))
      (barrettReduce64 half (rns_base q ! i)) (rns_base q ! i)) (rns_base q ! i)) (rt_inv_q_last_mod_q T ! i) (rns_base q ! i)) [0..<n]"
    if "length x = n" for i x
    using that y by (simp add: g_def poly_maps)
  have s: "length (parts_loop g n (k - 1) 0 r) = n * k \<and> (\<forall>l<k. poly_slice n l (parts_loop g n (k - 1) 0 r) =
      (if 0 \<le> l \<and> l < 0 + (k - 1) then g l (poly_slice n l r) else poly_slice n l r))"
    by (rule parts_loop_slices [OF _ lp(1)]) (use g in simp_all)
  then show "length (divideAndRoundqLastInplace T a) = rt_coeff_count T * rns_size (rt_base_q T)"
    unfolding res by (simp add: n_def q_def k_def)
  have "poly_slice n i (parts_loop g n (k - 1) 0 r) = g i (poly_slice n i a)" using s a lp(2) by simp
  also have "\<dots> = rounded_part T a i"
    using g length_slice [OF a(1), of i] a(3) by (simp add: rounded_part_def Let_def n_def q_def k_def half_def)
  finally show "poly_slice (rt_coeff_count T) i (divideAndRoundqLastInplace T a) = rounded_part T a i"
    unfolding res by (simp only: n_def)
qed

lemma rounded_last_value:
  assumes T: "wf_qlast T" and a: "rns_poly (rt_base_q T) (rt_coeff_count T) X a" and j: "j < rt_coeff_count T"
  defines "d \<equiv> modi (rns_base (rt_base_q T)) (rns_size (rt_base_q T) - 1)"
  shows "uint (rounded_last T a j) = (X j + d div 2) mod d"
proof -
  define m where "m = rns_base (rt_base_q T) ! (rns_size (rt_base_q T) - 1)"
  note w = wf_qlastD [OF T refl refl]
  have m: "wf_modulus m" using w(4) [of "rns_size (rt_base_q T) - 1"] w(3) by (simp add: m_def)
  have x: "uint (poly_slice (rt_coeff_count T) (rns_size (rt_base_q T) - 1) a ! j) = X j mod uint (mod_value m)"
    using rns_poly_slice(2) [OF a _ j, of "rns_size (rt_base_q T) - 1"] w(3) by (simp add: m_def)
  have h: "uint (drop_bit 1 (mod_value m)) \<le> uint (mod_value m)"
    unfolding half_value using wf_modulus_int(1) [OF m] by linarith
  have d: "d = uint (mod_value m)" by (simp add: d_def m_def)
  show ?thesis
    unfolding rounded_last_def Let_def m_def [symmetric] add_int [OF m mod_word [OF x m] h] half_value x d by (rule mod_add_left_eq)
qed

text \<open>
  C16. The division by the last modulus rounds to the nearest integer: when the residues stand for the integers
  \<open>X j\<close>, the residues of the result by the other moduli stand for the quotients of \<open>X j\<close> by the last modulus, rounded.
\<close>

theorem divideAndRoundqLast_correct:
  assumes T: "wf_qlast T" and a: "rns_poly (rt_base_q T) (rt_coeff_count T) X a"
    and i: "i < rns_size (rt_base_q T) - 1" and j: "j < rt_coeff_count T"
  defines "d \<equiv> modi (rns_base (rt_base_q T)) (rns_size (rt_base_q T) - 1)"
  shows "uint (divideAndRoundqLastInplace T a ! (i * rt_coeff_count T + j)) =
    ((X j + d div 2) div d) mod modi (rns_base (rt_base_q T)) i"
proof -
  let ?q = "rt_base_q T" and ?n = "rt_coeff_count T"
  let ?k = "rns_size ?q"
  note w = wf_qlastD [OF T refl refl]
  have len: "length a = ?n * ?k" using a by (simp add: rns_poly_def)
  have ik: "i < ?k" using i by simp
  note part = divideAndRound_part [OF len i]
  have "divideAndRoundqLastInplace T a ! (i * ?n + j) = rounded_part T a i ! j"
    unfolding part(2) [symmetric] by (rule slice_at [OF part(1) ik j])
  moreover have "uint (rounded_part T a i ! j) = ((X j + d div 2) div d) mod modi (rns_base ?q) i"
  proof -
    have half: "uint (drop_bit 1 (mod_value (rns_base ?q ! (?k - 1)))) = d div 2" unfolding half_value d_def by (rule refl)
    have op: "inverse_operand (rns_base ?q ! i) d (rt_inv_q_last_mod_q T ! i)" using w(2) [OF i] by (simp only: d_def)
    have y: "uint (rounded_last T a j) = (X j + d div 2) mod d" unfolding d_def by (rule rounded_last_value [OF T a j])
    have x: "uint (poly_slice ?n i a ! j) = X j mod uint (mod_value (rns_base ?q ! i))" by (rule rns_poly_slice(2) [OF a ik j])
    show ?thesis
      using j round_coeff [OF w(4) [OF ik] x y half op] by (simp add: rounded_part_def Let_def)
  qed
  ultimately show ?thesis by simp
qed
text \<open>The tool of the concrete instances: two moduli and two coefficients.\<close>

definition tool_17_97 :: "RNSTool \<Rightarrow> RNSBase \<Rightarrow> RNSTool" where
  "tool_17_97 T b = T\<lparr>rt_coeff_count := 2, rt_base_q := b, rt_inv_q_last_mod_q := [set_operand 10 modulus_17 zero_operand]\<rparr>"

lemma tool_17_97_wf:
  assumes "wf_rns b" "rns_base b = [modulus_17, modulus_97]" "rns_size b = 2"
  shows "wf_qlast (tool_17_97 T b)"
proof -
  have "operand_for modulus_17 (set_operand 10 modulus_17 zero_operand) \<and> mop_operand (set_operand 10 modulus_17 zero_operand) = 10"
    by (rule set_operand_for) (simp add: modulus_17_def)
  then have "inverse_operand modulus_17 97 (set_operand 10 modulus_17 zero_operand)"
    by (simp add: inverse_operand_def) (simp add: modulus_17_def)
  then show ?thesis using assms by (simp add: wf_qlast_def tool_17_97_def modulus_97_def)
qed

theorem divideAndRoundqLast_correct_witness:
  "\<forall>T. \<exists>b. new_RNSBase [modulus_17, modulus_97] = Inr b \<and>
    uint (divideAndRoundqLastInplace (tool_17_97 T b) [14, 14, 30, 94] ! 0) = 10 \<and>
    uint (divideAndRoundqLastInplace (tool_17_97 T b) [14, 14, 30, 94] ! 1) = 0"
  (is "\<forall>T. ?P T")
proof
  fix T :: RNSTool
  obtain b where b: "new_RNSBase [modulus_17, modulus_97] = Inr b" "wf_rns b" "rns_base b = [modulus_17, modulus_97]" "rns_size b = 2"
    using base_17_97 by blast
  let ?X = "\<lambda>j :: nat. if j = 0 then 1000 else - 3 :: int"
  have a: "rns_poly (rt_base_q (tool_17_97 T b)) (rt_coeff_count (tool_17_97 T b)) ?X [14, 14, 30, 94]"
    unfolding rns_poly_def
  proof (intro conjI allI impI)
    fix i j assume "i < rns_size (rt_base_q (tool_17_97 T b))" "j < rt_coeff_count (tool_17_97 T b)"
    then have "i = 0 \<or> i = 1" "j = 0 \<or> j = 1" using b(4) by (simp_all add: tool_17_97_def less_2_cases_iff)
    then show "uint ([14, 14, 30, 94 :: u64] ! (i * rt_coeff_count (tool_17_97 T b) + j)) =
        ?X j mod modi (rns_base (rt_base_q (tool_17_97 T b))) i"
      using b(3) by (elim disjE) (simp_all add: tool_17_97_def modulus_17_def modulus_97_def)
  qed (use b(4) in \<open>simp add: tool_17_97_def\<close>)
  note t = tool_17_97_wf [OF b(2,3,4), of T]
  show "?P T"
    using divideAndRoundqLast_correct [OF t a, of 0 0] divideAndRoundqLast_correct [OF t a, of 0 1] b
    by (simp add: tool_17_97_def modulus_17_def modulus_97_def)
qed

section \<open>Rounding division in the transformed form\<close>

text \<open>A transform is linear.\<close>

lemma evaluation_linear:
  assumes "\<And>c. c < 2 ^ p \<Longrightarrow> eqm q (f c) (z * (g c - h c))"
  shows "eqm q (evaluation p \<psi> f k) (z * (evaluation p \<psi> g k - evaluation p \<psi> h k))"
proof -
  have "eqm q (evaluation p \<psi> f k) (\<Sum>c<2 ^ p. (z * (g c - h c)) * \<psi> ^ ((2 * revn p k + 1) * c))"
    unfolding evaluation_def by (intro eqm_sum eqm_mult eqm_refl assms) simp
  also have "\<dots> = z * (evaluation p \<psi> g k - evaluation p \<psi> h k)"
    unfolding evaluation_def sum_distrib_left sum_subtractf [symmetric] by (rule sum.cong) (simp_all add: algebra_simps)
  finally show ?thesis .
qed

lemma reduced_int: "reduced m xs \<Longrightarrow> j < length xs \<Longrightarrow> uint (xs ! j) < uint (mod_value m)"
  by (simp add: reduced_def unat_less_uint)

lemma ntt_value_int:
  assumes t: "wf_tables p m t" and a: "length a = 2 ^ p" "reduced m a" and k: "k < 2 ^ p"
  shows "uint (nttNegacyclicHarvey a t ! k) = evaluation p (uint (ntt_root t)) (\<lambda>c. uint (a ! c)) k mod uint (mod_value m)"
proof -
  have "\<forall>x\<in>set a. unat x < 4 * unat (mod_value m)" using a(2) by (auto simp: reduced_def)
  from nttNegacyclicHarvey_value(2) [OF t a(1) this k] show ?thesis by (simp add: value_at_def)
qed

lemma lazy_value_int:
  assumes t: "wf_tables p m t" and a: "length a = 2 ^ p" "\<forall>j<2 ^ p. uint (a ! j) < 4 * uint (mod_value m)"
  shows "length (nttNegacyclicHarveyLazy a t) = 2 ^ p"
    "k < 2 ^ p \<Longrightarrow> uint (nttNegacyclicHarveyLazy a t ! k) < 4 * uint (mod_value m)"
    "k < 2 ^ p \<Longrightarrow> eqm (uint (mod_value m)) (uint (nttNegacyclicHarveyLazy a t ! k)) (evaluation p (uint (ntt_root t)) (\<lambda>c. uint (a ! c)) k)"
proof -
  have four: "unat x < 4 * unat (mod_value m) \<longleftrightarrow> uint x < 4 * uint (mod_value m)" for x :: u64
  proof -
    have "unat x < 4 * unat (mod_value m) \<longleftrightarrow> int (unat x) < int (4 * unat (mod_value m))" by (simp only: of_nat_less_iff)
    then show ?thesis by simp
  qed
  have "\<forall>x\<in>set a. unat x < 4 * unat (mod_value m)" unfolding four using a by (simp add: all_set_conv_all_nth)
  note st = nttNegacyclicHarveyLazy_stage [OF t a(1) this, unfolded ntt.at_stage_p below_def four]
  show "length (nttNegacyclicHarveyLazy a t) = 2 ^ p" using st by blast
  show "uint (nttNegacyclicHarveyLazy a t ! k) < 4 * uint (mod_value m)" if "k < 2 ^ p" using st that by blast
  show "eqm (uint (mod_value m)) (uint (nttNegacyclicHarveyLazy a t ! k)) (evaluation p (uint (ntt_root t)) (\<lambda>c. uint (a ! c)) k)"
    if "k < 2 ^ p" using st that by simp
qed

text \<open>The slice of one modulus: the transformed correction is subtracted lazily and reduced by the product.\<close>

lemma round_ntt_slice:
  assumes t: "wf_tables p b t" and x: "length x = 2 ^ p" "reduced b x" and op: "operand_for b op"
    and c: "length c = 2 ^ p" "\<forall>j<2 ^ p. uint (c ! j) < 4 * uint (mod_value b)"
      "\<forall>j<2 ^ p. eqm (uint (mod_value b)) (uint (c ! j)) (uint (y j) - uint half)"
  shows "map (\<lambda>k. multiplyUintMod_operand (nttNegacyclicHarvey x t ! k + (push_bit 2 (mod_value b) - nttNegacyclicHarveyLazy c t ! k)) op b) [0..<2 ^ p]
    = nttNegacyclicHarvey (map (\<lambda>j. multiplyUintMod_operand (subUintMod (x ! j) (subUintMod (barrettReduce64 (y j) b) (barrettReduce64 half b) b) b) op b) [0..<2 ^ p]) t"
    (is "?l = nttNegacyclicHarvey ?r t")
proof (rule nth_equalityI)
  let ?q = "uint (mod_value b)" and ?o = "uint (mop_operand op)" and ?ev = "\<lambda>f k. evaluation p (uint (ntt_root t)) f k"
  note m = wf_tablesD(1) [OF t]
  have rj: "uint (?r ! j) = (uint (x ! j) - (uint (y j) - uint half)) * ?o mod ?q" if "j < 2 ^ p" for j
    using that round_word [OF m reduced_int [OF x(2)] op, of j] x(1) by simp
  have red: "reduced b ?r"
    unfolding reduced_def unat_less_uint all_set_conv_all_nth using rj wf_modulus_int(1) [OF m] by simp
  have lr: "length ?r = 2 ^ p" by simp
  have "\<forall>z\<in>set ?r. unat z < 4 * unat (mod_value b)" using red by (auto simp: reduced_def)
  from nttNegacyclicHarvey_value(1) [OF t lr this] show len: "length ?l = length (nttNegacyclicHarvey ?r t)" by simp
  fix k assume "k < length ?l"
  then have k: "k < 2 ^ p" by simp
  let ?u = "nttNegacyclicHarvey x t ! k" and ?v = "nttNegacyclicHarveyLazy c t ! k"
  have u: "uint ?u = ?ev (\<lambda>j. uint (x ! j)) k mod ?q" by (rule ntt_value_int [OF t x k])
  note v = lazy_value_int(2,3) [OF t c(1,2) k]
  have four: "uint (push_bit 2 (mod_value b)) = 4 * ?q"
  proof -
    have "4 * ?q < 18446744073709551616" using wf_modulus_int(2) [OF m] by simp
    moreover have "uint (push_bit 2 (mod_value b)) = int (unat (push_bit 2 (mod_value b)))" by simp
    moreover have "int (unat (push_bit 2 (mod_value b))) = int (unat (mod_value b) * 2 ^ 2 mod 18446744073709551616)"
      by (simp only: unat_push64)
    ultimately show ?thesis by (simp add: zmod_int)
  qed
  have w: "uint (?u + (push_bit 2 (mod_value b) - ?v)) = uint ?u + (4 * ?q - uint ?v)"
  proof -
    have bd: "0 \<le> uint ?v" "0 \<le> uint ?u" "uint ?u < ?q" "?q < 2305843009213693952"
      using wf_modulus_int [OF m] unfolding u by simp_all
    have "(4 * ?q - uint ?v) mod 18446744073709551616 = 4 * ?q - uint ?v"
      "(uint ?u + (4 * ?q - uint ?v)) mod 18446744073709551616 = uint ?u + (4 * ?q - uint ?v)"
      using bd v(1) by (intro mod_pos_pos_trivial; linarith)+
    then show ?thesis using four by (simp add: uint_word_ariths)
  qed
  have "eqm ?q (uint ?u + (4 * ?q - uint ?v)) (?ev (\<lambda>j. uint (x ! j)) k - ?ev (\<lambda>j. uint (c ! j)) k)"
  proof -
    have "eqm ?q (uint ?u) (?ev (\<lambda>j. uint (x ! j)) k)" unfolding u by (simp add: eqm_def)
    moreover have "eqm ?q (4 * ?q - uint ?v) (0 - ?ev (\<lambda>j. uint (c ! j)) k)"
      by (intro eqm_diff v(2)) (simp add: eqm_def)
    ultimately have "eqm ?q (uint ?u + (4 * ?q - uint ?v)) (?ev (\<lambda>j. uint (x ! j)) k + (0 - ?ev (\<lambda>j. uint (c ! j)) k))"
      by (rule eqm_add)
    then show ?thesis by simp
  qed
  from eqm_mult [OF eqm_refl this] have "eqm ?q (?o * (uint ?u + (4 * ?q - uint ?v)))
      (?o * (?ev (\<lambda>j. uint (x ! j)) k - ?ev (\<lambda>j. uint (c ! j)) k))" .
  also have "eqm ?q (?o * (?ev (\<lambda>j. uint (x ! j)) k - ?ev (\<lambda>j. uint (c ! j)) k)) (?ev (\<lambda>j. uint (?r ! j)) k)"
  proof (rule eqm_sym, rule evaluation_linear)
    fix j :: nat assume j: "j < 2 ^ p"
    have "eqm ?q (uint (?r ! j)) (?o * (uint (x ! j) - (uint (y j) - uint half)))" unfolding rj [OF j] by (simp add: eqm_def mult.commute)
    also have "eqm ?q \<dots> (?o * (uint (x ! j) - uint (c ! j)))"
      by (intro eqm_mult eqm_diff eqm_refl) (use c(3) j in \<open>simp add: eqm_def\<close>)
    finally show "eqm ?q (uint (?r ! j)) (?o * (uint (x ! j) - uint (c ! j)))" .
  qed
  finally have "?o * (uint ?u + (4 * ?q - uint ?v)) mod ?q = ?ev (\<lambda>j. uint (?r ! j)) k mod ?q" unfolding eqm_def .
  moreover have "uint (?l ! k) = (uint ?u + (4 * ?q - uint ?v)) * ?o mod ?q"
    using k multiply_operand_int [OF m op, of "?u + (push_bit 2 (mod_value b) - ?v)"] unfolding w by simp
  moreover have "uint (nttNegacyclicHarvey ?r t ! k) = ?ev (\<lambda>j. uint (?r ! j)) k mod ?q"
    by (rule ntt_value_int [OF t lr red k])
  ultimately have "uint (?l ! k) = uint (nttNegacyclicHarvey ?r t ! k)" by (simp only: mult.commute)
  then show "?l ! k = nttNegacyclicHarvey ?r t ! k" by (simp only: word_uint_eq_iff)
qed
text \<open>The correction that is transformed: the last residues minus one half, not fully reduced.\<close>

lemma correction_word:
  assumes b: "wf_modulus b" and z: "uint z < uint (mod_value b)" "eqm (uint (mod_value b)) (uint z) (uint y)"
  shows "uint (z + (mod_value b - barrettReduce64 half b)) < 4 * uint (mod_value b)"
    "eqm (uint (mod_value b)) (uint (z + (mod_value b - barrettReduce64 half b))) (uint y - uint half)"
proof -
  let ?q = "uint (mod_value b)" and ?h = "uint half mod uint (mod_value b)"
  have h: "uint (barrettReduce64 half b) = ?h" by (rule barrett_int [OF wf_modulusD(1) [OF b]])
  have bd: "0 \<le> ?h" "?h < ?q" "?q < 2305843009213693952" "0 \<le> uint z" using wf_modulus_int [OF b] by simp_all
  have "(?q - ?h) mod 18446744073709551616 = ?q - ?h" "(uint z + (?q - ?h)) mod 18446744073709551616 = uint z + (?q - ?h)"
    using bd z(1) by (intro mod_pos_pos_trivial; linarith)+
  then have w: "uint (z + (mod_value b - barrettReduce64 half b)) = uint z + (?q - ?h)" by (simp add: uint_word_ariths h)
  then show "uint (z + (mod_value b - barrettReduce64 half b)) < 4 * ?q" using bd z(1) by linarith
  have "eqm ?q (uint z + (?q - ?h)) (uint y + (0 - uint half))"
    by (intro eqm_add eqm_diff z(2)) (simp_all add: eqm_def)
  then show "eqm ?q (uint (z + (mod_value b - barrettReduce64 half b))) (uint y - uint half)" unfolding w by simp
qed

text \<open>
  C17. On ciphertexts in transformed form the division works without leaving the form: on the transforms of the residues it
  gives the transforms of what the division on coefficients gives; the lazily reduced sums never wrap around.
\<close>

theorem divideAndRoundqLastNtt_correct:
  assumes T: "wf_qlast T" and n: "rt_coeff_count T = 2 ^ p" and p: "0 < p" "p \<le> 30"
    and ts: "CreateNTTTables rd p (rns_base (rt_base_q T)) = Inr tabs"
    and a: "rns_poly (rt_base_q T) (2 ^ p) X a" and na: "length na = 2 ^ p * rns_size (rt_base_q T)"
      "\<forall>i<rns_size (rt_base_q T). poly_slice (2 ^ p) i na = nttNegacyclicHarvey (poly_slice (2 ^ p) i a) (tabs ! i)"
    and i: "i < rns_size (rt_base_q T) - 1"
  shows "poly_slice (2 ^ p) i (divideAndRoundqLastNttInplace T tabs na) =
    nttNegacyclicHarvey (poly_slice (2 ^ p) i (divideAndRoundqLastInplace T a)) (tabs ! i)"
proof -
  define q where "q = rt_base_q T"
  define k where "k = rns_size q"
  let ?n = "2 ^ p :: nat" and ?m = "rns_base q ! (k - 1)"
  define half where "half = drop_bit 1 (mod_value ?m)"
  note w = wf_qlastD [OF T q_def k_def]
  have len: "length a = ?n * k" "length na = ?n * k" "0 < k" "k - 1 < k" "i < k" "i < k - 1" "length (rns_base q) = k"
    using a na(1) w(3) i wf_rnsD(1) [OF w(1) refl refl] by (simp_all add: rns_poly_def q_def k_def)
  have tab: "wf_tables p (rns_base q ! l) (tabs ! l)" if "l < k" for l
  proof -
    have "rns_base q \<noteq> []" using len by auto
    then have "NTTTables_initialize (rd l) p (rns_base q ! l) = Inr (tabs ! l)"
      using CreateNTTTables_loop_nth [of rd p 0 "rns_base q" tabs] ts that len(7) by (simp add: CreateNTTTables_def q_def)
    then show ?thesis using initialize_wf [OF w(4) [OF that] p(1)] p(2) by simp
  qed
  have sl: "length (poly_slice ?n l a) = ?n" "reduced (rns_base q ! l) (poly_slice ?n l a)" if "l < k" for l
  proof -
    show s: "length (poly_slice ?n l a) = ?n" by (rule length_slice [OF len(1) that])
    have "uint (poly_slice ?n l a ! j) < modi (rns_base q) l" if "j < ?n" for j
      using rns_poly_slice(2) [OF a, of l j] that \<open>l < k\<close> wf_modulus_int(1) [OF w(4) [OF \<open>l < k\<close>]] by (simp add: q_def k_def)
    then show "reduced (rns_base q ! l) (poly_slice ?n l a)"
      using s unfolding reduced_def unat_less_uint all_set_conv_all_nth by simp
  qed
  define f1 where "f1 = (\<lambda>x. inverseNttNegacyclicHarvey x (tabs ! (k - 1)))"
  define r1 where "r1 = on_slice ((k - 1) * ?n) ?n f1 na"
  define f2 where "f2 = (\<lambda>x. addPolyScalarCoeffmod x ?n half ?m x)"
  define r2 where "r2 = on_slice ((k - 1) * ?n) ?n f2 r1"
  have na': "poly_slice ?n l na = nttNegacyclicHarvey (poly_slice ?n l a) (tabs ! l)" if "l < k" for l
    using na(2) that by (simp add: q_def k_def)
  have f1: "f1 (poly_slice ?n (k - 1) na) = poly_slice ?n (k - 1) a"
    unfolding f1_def na' [OF len(4)] by (rule inverse_of_ntt [OF tab sl]) (rule len(4))+
  have f1l: "length (f1 (poly_slice ?n (k - 1) na)) = ?n" unfolding f1 by (rule sl(1) [OF len(4)])
  note lp1 = last_slice [where f = f1, OF len(2,3) f1l, folded r1_def, unfolded f1]
  have f2: "f2 (poly_slice ?n (k - 1) r1) = map (rounded_last T a) [0..<?n]"
    unfolding lp1(3) using sl(1) [OF len(4)] by (simp add: f2_def poly_maps rounded_last_def half_def q_def k_def n)
  have f2l: "length (f2 (poly_slice ?n (k - 1) r1)) = ?n" unfolding f2 by simp
  note lp2 = last_slice [where f = f2, OF lp1(1) len(3) f2l, folded r2_def, unfolded f2]
  define temp where "temp = (\<lambda>b. if modulus_value b < modulus_value ?m
    then moduloPolyCoeffs (drop ((k - 1) * ?n) r2) ?n b (replicate ?n 0) else setUint (take ?n (drop ((k - 1) * ?n) r2)))"
  define cor where "cor = (\<lambda>b. coeff_loop (\<lambda>j. temp b ! j + (modulus_value b - barrettReduce64 half b)) ?n 0 (temp b))"
  define g where "g = (\<lambda>i x. let b = rns_base q ! i; temp = nttNegacyclicHarveyLazy (cor b) (tabs ! i);
      x = coeff_loop (\<lambda>j. x ! j + (push_bit 2 (modulus_value b) - temp ! j)) ?n 0 x
    in multiplyPolyScalarCoeffmod_operand x ?n (rt_inv_q_last_mod_q T ! i) b x)"
  have res: "divideAndRoundqLastNttInplace T tabs na = parts_loop g ?n (k - 1) 0 r2"
    unfolding divideAndRoundqLastNttInplace_def Let_def g_def cor_def temp_def r2_def r1_def f1_def f2_def half_def k_def q_def modulus_value_def n
    by (rule refl)
  have g: "g i x = map (\<lambda>j. multiplyUintMod_operand (x ! j + (push_bit 2 (modulus_value (rns_base q ! i)) -
      nttNegacyclicHarveyLazy (cor (rns_base q ! i)) (tabs ! i) ! j)) (rt_inv_q_last_mod_q T ! i) (rns_base q ! i)) [0..<?n]"
    if "length x = ?n" for i x
    using that by (simp add: g_def poly_maps)
  have s: "length (parts_loop g ?n (k - 1) 0 r2) = ?n * k \<and> (\<forall>l<k. poly_slice ?n l (parts_loop g ?n (k - 1) 0 r2) =
      (if 0 \<le> l \<and> l < 0 + (k - 1) then g l (poly_slice ?n l r2) else poly_slice ?n l r2))"
    by (rule parts_loop_slices [OF _ lp2(1)]) (use g in simp_all)
  let ?b = "rns_base q ! i"
  note b = w(4) [OF len(5)]
  have y: "uint (rounded_last T a j) < uint (mod_value ?m)" if "j < ?n" for j
    using rounded_last_value [OF T a [folded n], of j] that wf_modulus_int(1) [OF w(4) [OF len(4)]] n by (simp add: q_def k_def)
  have tl: "length (temp ?b) = ?n" using lp2(5) by (simp add: temp_def poly_maps setUint_def)
  have temp: "uint (temp ?b ! j) < uint (mod_value ?b)" "eqm (uint (mod_value ?b)) (uint (temp ?b ! j)) (uint (rounded_last T a j))" if j: "j < ?n" for j
  proof -
    have "uint (temp ?b ! j) < uint (mod_value ?b) \<and> eqm (uint (mod_value ?b)) (uint (temp ?b ! j)) (uint (rounded_last T a j))"
    proof (cases "modulus_value ?b < modulus_value ?m")
      case True
      have "temp ?b ! j = barrettReduce64 (rounded_last T a j) ?b" using True j lp2(4) [OF j] by (simp add: temp_def poly_maps)
      then show ?thesis using barrett_int [OF wf_modulusD(1) [OF b], of "rounded_last T a j"] wf_modulus_int(1) [OF b] by (simp add: eqm_def)
    next
      case False
      then have "temp ?b ! j = rounded_last T a j" using j lp2(4,5) by (simp add: temp_def setUint_def)
      moreover have "uint (mod_value ?m) \<le> uint (mod_value ?b)" using False by (simp add: modulus_value_def word_less_def)
      ultimately show ?thesis using y [OF j] by simp
    qed
    then show "uint (temp ?b ! j) < uint (mod_value ?b)" "eqm (uint (mod_value ?b)) (uint (temp ?b ! j)) (uint (rounded_last T a j))" by blast+
  qed
  have c: "length (cor ?b) = ?n" "\<forall>j<?n. uint (cor ?b ! j) < 4 * uint (mod_value ?b)"
      "\<forall>j<?n. eqm (uint (mod_value ?b)) (uint (cor ?b ! j)) (uint (rounded_last T a j) - uint half)"
    using tl correction_word [OF b temp] by (simp_all add: cor_def coeff_loop_map modulus_value_def)
  have "operand_for ?b (rt_inv_q_last_mod_q T ! i)" using w(2) [OF len(6)] by (simp add: inverse_operand_def)
  note slice = round_ntt_slice [OF tab [OF len(5)] sl [OF len(5)] this c]
  have nal: "length (poly_slice ?n i na) = ?n" by (rule length_slice [OF len(2,5)])
  have "poly_slice ?n i (parts_loop g ?n (k - 1) 0 r2) = g i (poly_slice ?n i na)" using s len(5,6) lp2(2) lp1(2) by simp
  also have "\<dots> = nttNegacyclicHarvey (rounded_part T a i) (tabs ! i)"
    unfolding g [OF nal] unfolding na' [OF len(5)] modulus_value_def slice by (simp add: rounded_part_def Let_def n half_def q_def k_def)
  also have "rounded_part T a i = poly_slice ?n i (divideAndRoundqLastInplace T a)"
    using divideAndRound_part(2) [of a T i] len(1) i by (simp add: n q_def k_def)
  finally show ?thesis unfolding res .
qed

lemma roots_17_97:
  "tryMinimalPrimitiveRoot (\<lambda>n. 5) (2 * push_bit 1 1) modulus_17 = Some 4"
  "tryMinimalPrimitiveRoot (\<lambda>n. 5) (2 * push_bit 1 1) modulus_97 = Some 22"
  by code_simp+

theorem divideAndRoundqLastNtt_correct_witness:
  "\<forall>T. \<exists>b t u. new_RNSBase [modulus_17, modulus_97] = Inr b \<and> CreateNTTTables (\<lambda>i n. 5) 1 [modulus_17, modulus_97] = Inr [t, u] \<and>
    poly_slice 2 0 (divideAndRoundqLastNttInplace (tool_17_97 T b) [t, u] (nttNegacyclicHarvey [14, 14] t @ nttNegacyclicHarvey [30, 94] u)) =
    nttNegacyclicHarvey (poly_slice 2 0 (divideAndRoundqLastInplace (tool_17_97 T b) [14, 14, 30, 94])) t"
  (is "\<forall>T. ?P T")
proof
  fix T :: RNSTool
  obtain b where b: "new_RNSBase [modulus_17, modulus_97] = Inr b" "wf_rns b" "rns_base b = [modulus_17, modulus_97]" "rns_size b = 2"
    using base_17_97 by blast
  obtain t u where t: "NTTTables_initialize (\<lambda>n. 5) 1 modulus_17 = Inr t" "wf_tables 1 modulus_17 t"
      "NTTTables_initialize (\<lambda>n. 5) 1 modulus_97 = Inr u" "wf_tables 1 modulus_97 u"
    using Ntt.initialize_ok [OF wf_modulus_17 _ _ roots_17_97(1)] Ntt.initialize_ok [OF wf_modulus_97 _ _ roots_17_97(2)] by auto
  then have ts: "CreateNTTTables (\<lambda>i n. 5) 1 [modulus_17, modulus_97] = Inr [t, u]" by (simp add: CreateNTTTables_def)
  let ?X = "\<lambda>j :: nat. if j = 0 then 1000 else - 3 :: int" and ?T = "tool_17_97 T b"
  have a: "rns_poly (rt_base_q ?T) (2 ^ 1) ?X [14, 14, 30, 94]"
    unfolding rns_poly_def
  proof (intro conjI allI impI)
    fix i j :: nat assume "i < rns_size (rt_base_q ?T)" "j < 2 ^ 1"
    then have "i = 0 \<or> i = 1" "j = 0 \<or> j = 1" using b(4) by (simp_all add: tool_17_97_def less_2_cases_iff)
    then show "uint ([14, 14, 30, 94 :: u64] ! (i * 2 ^ 1 + j)) = ?X j mod modi (rns_base (rt_base_q ?T)) i"
      using b(3) by (elim disjE) (simp_all add: tool_17_97_def modulus_17_def modulus_97_def)
  qed (use b(4) in \<open>simp add: tool_17_97_def\<close>)
  let ?na = "nttNegacyclicHarvey [14, 14] t @ nttNegacyclicHarvey [30, 94] u"
  have l: "length (nttNegacyclicHarvey [14, 14] t) = 2" "length (nttNegacyclicHarvey [30, 94] u) = 2"
    using nttNegacyclicHarvey_value(1) [OF t(2), of "[14, 14]"] nttNegacyclicHarvey_value(1) [OF t(4), of "[30, 94]"]
    by (simp_all add: modulus_17_def modulus_97_def)
  have na: "length ?na = 2 ^ 1 * rns_size (rt_base_q ?T)"
      "\<forall>i<rns_size (rt_base_q ?T). poly_slice (2 ^ 1) i ?na = nttNegacyclicHarvey (poly_slice (2 ^ 1) i [14, 14, 30, 94]) ([t, u] ! i)"
    using l b(4) by (auto simp: tool_17_97_def less_2_cases_iff poly_slice_def)
  have "rt_coeff_count ?T = 2 ^ 1" "CreateNTTTables (\<lambda>i n. 5) 1 (rns_base (rt_base_q ?T)) = Inr [t, u]"
      "0 < rns_size (rt_base_q ?T) - 1"
    using ts b(3,4) by (simp_all add: tool_17_97_def)
  from divideAndRoundqLastNtt_correct [OF tool_17_97_wf [OF b(2,3,4), of T] this(1) _ _ this(2) a na this(3)] b(1) ts
  show "?P T" by auto
qed

end
