(* ===== verification/Rns_Init.thy ===== *)
theory Rns_Init
  imports Rns_Round
begin

unbundle bit_operations_syntax

text \<open>
  The invariant of \<open>RNSTool\<close>: what its bases, converters and constants are, and that \<open>initialize\<close> establishes it or throws.
\<close>

section \<open>The tool\<close>

definition base_product :: "RNSBase \<Rightarrow> int" where
  "base_product b = int (crt_prod (modn (rns_base b)) (rns_size b))"

lemma base_product_pos: "wf_rns b \<Longrightarrow> 0 < base_product b"
  using crt_prod_pos [OF wf_rnsD(12) [OF _ refl refl], of b] by (simp add: base_product_def)

lemma modn_modi: "int (modn ms i) = modi ms i" by simp

lemma wf_rns_modulus: "wf_rns b \<Longrightarrow> i < rns_size b \<Longrightarrow> wf_modulus (rns_base b ! i)"
  by (rule wf_rnsD(11) [OF _ refl refl])

definition converts :: "BaseConverter \<Rightarrow> RNSBase \<Rightarrow> Modulus list \<Rightarrow> bool" where
  "converts c b ms \<longleftrightarrow> wf_converter c \<and> bc_ibase c = b \<and> rns_base (bc_obase c) = ms"

text \<open>An operand that stands for the negative inverse of a number, and the array of the residues of a number.\<close>

definition neg_inverse_operand :: "Modulus \<Rightarrow> int \<Rightarrow> MultiplyUIntModOperand \<Rightarrow> bool" where
  "neg_inverse_operand m v y \<longleftrightarrow> operand_for m y \<and> (v * uint (mop_operand y) + 1) mod uint (mod_value m) = 0"

definition inverses :: "Modulus list \<Rightarrow> int \<Rightarrow> MultiplyUIntModOperand list \<Rightarrow> bool" where
  "inverses ms v ys \<longleftrightarrow> length ys = length ms \<and> (\<forall>i<length ms. inverse_operand (ms ! i) v (ys ! i))"

definition residue_list :: "Modulus list \<Rightarrow> int \<Rightarrow> u64 list \<Rightarrow> bool" where
  "residue_list ms v xs \<longleftrightarrow> length xs = length ms \<and> (\<forall>i<length ms. uint (xs ! i) = v mod modi ms i)"

text \<open>The bases and converters, with a base for the plaintext exactly when there is a plaintext modulus.\<close>

definition wf_bases :: "RNSTool \<Rightarrow> bool" where
  "wf_bases T \<longleftrightarrow>
     (let q = rt_base_q T; B = rt_base_B T; Bsk = rt_base_Bsk T; t = rt_t T; t_gamma = [t, rt_gamma T] in
      0 < rt_coeff_count T \<and> wf_rns q \<and> wf_rns B \<and> wf_rns Bsk \<and> wf_rns (rt_base_Bsk_m_tilde T) \<and>
      rns_base Bsk = rns_base B @ [rt_m_sk T] \<and> rns_base (rt_base_Bsk_m_tilde T) = rns_base Bsk @ [rt_m_tilde T] \<and>
      converts (rt_base_q_to_Bsk_conv T) q (rns_base Bsk) \<and> converts (rt_base_q_to_m_tilde_conv T) q [rt_m_tilde T] \<and>
      converts (rt_base_B_to_q_conv T) B (rns_base q) \<and> converts (rt_base_B_to_m_sk_conv T) B [rt_m_sk T] \<and>
      (if modulus_isZero t
       then rt_base_t_gamma T = None \<and> rt_base_q_to_t_gamma_conv T = None \<and> rt_base_q_to_t_conv T = None
       else \<exists>b c d. rt_base_t_gamma T = Some b \<and> wf_rns b \<and> rns_base b = t_gamma \<and>
         rt_base_q_to_t_gamma_conv T = Some c \<and> converts c q t_gamma \<and> rt_base_q_to_t_conv T = Some d \<and> converts d q [t]))"

text \<open>The constants: each is the residue or the inverse its name says.\<close>

definition wf_constants :: "RNSTool \<Rightarrow> bool" where
  "wf_constants T \<longleftrightarrow>
     (let q = rt_base_q T; ms = rns_base q; Bsk = rns_base (rt_base_Bsk T); Q = base_product q; PB = base_product (rt_base_B T);
          t = rt_t T; t_gamma = [t, rt_gamma T]; q_last = uint (mod_value (last ms)) in
      inverses Bsk Q (rt_inv_prod_q_mod_Bsk T) \<and> inverses Bsk (uint (mod_value (rt_m_tilde T))) (rt_inv_m_tilde_mod_Bsk T) \<and>
      neg_inverse_operand (rt_m_tilde T) Q (rt_neg_inv_prod_q_mod_m_tilde T) \<and>
      inverse_operand (rt_m_sk T) PB (rt_inv_prod_B_mod_m_sk T) \<and>
      residue_list Bsk Q (rt_prod_q_mod_Bsk T) \<and> residue_list ms PB (rt_prod_B_mod_q T) \<and>
      inverses (butlast ms) q_last (rt_inv_q_last_mod_q T) \<and>
      (\<not> modulus_isZero t \<longrightarrow>
         inverse_operand t (uint (mod_value (rt_gamma T))) (rt_inv_gamma_mod_t T) \<and>
         length (rt_neg_inv_q_mod_t_gamma T) = 2 \<and> (\<forall>i<2. neg_inverse_operand (t_gamma ! i) Q (rt_neg_inv_q_mod_t_gamma T ! i)) \<and>
         length (rt_prod_t_gamma_mod_q T) = rns_size q \<and>
         (\<forall>i<rns_size q. operand_for (ms ! i) (rt_prod_t_gamma_mod_q T ! i) \<and> uint (mop_operand (rt_prod_t_gamma_mod_q T ! i)) =
            uint (mod_value t) * uint (mod_value (rt_gamma T)) mod modi ms i) \<and>
         rt_inv_q_last_mod_t T < mod_value t \<and> q_last * uint (rt_inv_q_last_mod_t T) mod uint (mod_value t) = 1 \<and>
         uint (rt_q_last_mod_t T) = q_last mod uint (mod_value t)))"

definition wf_tool :: "RNSTool \<Rightarrow> bool" where
  "wf_tool T \<longleftrightarrow> wf_bases T \<and> wf_constants T"

lemma wf_basesD:
  assumes "wf_bases T"
  shows "0 < rt_coeff_count T" "wf_rns (rt_base_q T)" "wf_rns (rt_base_B T)" "wf_rns (rt_base_Bsk T)" "wf_rns (rt_base_Bsk_m_tilde T)"
    "rns_base (rt_base_Bsk T) = rns_base (rt_base_B T) @ [rt_m_sk T]"
    "rns_base (rt_base_Bsk_m_tilde T) = rns_base (rt_base_Bsk T) @ [rt_m_tilde T]"
    "converts (rt_base_q_to_Bsk_conv T) (rt_base_q T) (rns_base (rt_base_Bsk T))"
    "converts (rt_base_q_to_m_tilde_conv T) (rt_base_q T) [rt_m_tilde T]"
    "converts (rt_base_B_to_q_conv T) (rt_base_B T) (rns_base (rt_base_q T))"
    "converts (rt_base_B_to_m_sk_conv T) (rt_base_B T) [rt_m_sk T]"
  using assms unfolding wf_bases_def Let_def by blast+

lemma wf_basesD_sizes:
  assumes "wf_bases T"
  shows "rns_size (rt_base_Bsk T) = rns_size (rt_base_B T) + 1" "rns_size (rt_base_Bsk_m_tilde T) = rns_size (rt_base_B T) + 2"
    "length (rns_base (rt_base_q T)) = rns_size (rt_base_q T)" "length (rns_base (rt_base_B T)) = rns_size (rt_base_B T)"
    "length (rns_base (rt_base_Bsk T)) = rns_size (rt_base_B T) + 1"
  using wf_basesD(6,7) [OF assms] wf_rnsD(1) [OF wf_basesD(2) [OF assms] refl refl] wf_rnsD(1) [OF wf_basesD(3) [OF assms] refl refl]
    wf_rnsD(1) [OF wf_basesD(4) [OF assms] refl refl] wf_rnsD(1) [OF wf_basesD(5) [OF assms] refl refl] by auto

lemma wf_bases_moduli:
  assumes "wf_bases T"
  shows "wf_modulus (rt_m_sk T)" "wf_modulus (rt_m_tilde T)"
proof -
  note s = wf_basesD_sizes [OF assms] and b = wf_basesD [OF assms]
  have "rns_base (rt_base_Bsk T) ! rns_size (rt_base_B T) = rt_m_sk T" using b(6) s(4) by (simp add: nth_append)
  then show "wf_modulus (rt_m_sk T)" using wf_rns_modulus [OF b(4), of "rns_size (rt_base_B T)"] s(1) by simp
  have "rns_base (rt_base_Bsk_m_tilde T) ! (rns_size (rt_base_B T) + 1) = rt_m_tilde T" using b(7) s(5) by (simp add: nth_append)
  then show "wf_modulus (rt_m_tilde T)" using wf_rns_modulus [OF b(5), of "rns_size (rt_base_B T) + 1"] s(2) by simp
qed

lemma inversesD: "inverses ms v ys \<Longrightarrow> i < length ms \<Longrightarrow> inverse_operand (ms ! i) v (ys ! i)"
  by (simp add: inverses_def)

lemma neg_inverse_eqm: "neg_inverse_operand m v y \<Longrightarrow> eqm (uint (mod_value m)) (v * uint (mop_operand y)) (- 1)"
  using mod_diff_cong [of "v * uint (mop_operand y) + 1" "uint (mod_value m)" 0 1 1] by (simp add: neg_inverse_operand_def eqm_def)

lemma residue_listD: "residue_list ms v xs \<Longrightarrow> i < length ms \<Longrightarrow> uint (xs ! i) = v mod modi ms i"
  by (simp add: residue_list_def)

lemma residue_operand:
  assumes "wf_modulus m" "uint v = V mod uint (mod_value m)"
  shows "operand_for m (set_operand v m zero_operand)" "uint (mop_operand (set_operand v m zero_operand)) = V mod uint (mod_value m)"
proof -
  have "v < mod_value m" using mod_word [OF assms(2,1)] by (simp add: word_less_def)
  from set_operand_for [OF this, of zero_operand] assms(2)
  show "operand_for m (set_operand v m zero_operand)" "uint (mop_operand (set_operand v m zero_operand)) = V mod uint (mod_value m)"
    by simp_all
qed

lemma negate_int:
  assumes "uint a < uint (mod_value m)" "a \<noteq> 0"
  shows "uint (negateUintMod a m) = uint (mod_value m) - uint a"
proof -
  have le: "unat a \<le> unat (mod_value m)" using assms(1) unfolding unat_less_uint [symmetric] by simp
  have "int (unat (negateUintMod a m)) = int (unat (mod_value m) - unat a)"
    using negateUintMod_value [OF le] assms(2) by simp
  then show ?thesis using le by (simp add: of_nat_diff)
qed

lemma wf_bases_plain:
  assumes "wf_bases T" "\<not> modulus_isZero (rt_t T)"
  obtains b c d where "rt_base_t_gamma T = Some b" "wf_rns b" "rns_base b = [rt_t T, rt_gamma T]" "rns_size b = 2"
    "rt_base_q_to_t_gamma_conv T = Some c" "converts c (rt_base_q T) [rt_t T, rt_gamma T]"
    "rt_base_q_to_t_conv T = Some d" "converts d (rt_base_q T) [rt_t T]" "wf_modulus (rt_t T)" "wf_modulus (rt_gamma T)"
proof -
  obtain b c d where b: "rt_base_t_gamma T = Some b" "wf_rns b" "rns_base b = [rt_t T, rt_gamma T]"
    "rt_base_q_to_t_gamma_conv T = Some c" "converts c (rt_base_q T) [rt_t T, rt_gamma T]"
    "rt_base_q_to_t_conv T = Some d" "converts d (rt_base_q T) [rt_t T]"
    using assms unfolding wf_bases_def Let_def by auto
  have s: "rns_size b = 2" using wf_rnsD(1) [OF b(2) refl refl] b(3) by simp
  have m: "wf_modulus (rt_t T)" "wf_modulus (rt_gamma T)"
    using wf_rns_modulus [OF b(2), of 0] wf_rns_modulus [OF b(2), of 1] b(3) s by simp_all
  show thesis by (rule that [OF b(1-3) s b(4-7) m])
qed

lemma inverse_operand_coprime:
  assumes "inverse_operand m v y" "wf_modulus m"
  shows "coprime (uint (mod_value m)) v"
proof (rule coprimeI)
  fix d assume d: "d dvd uint (mod_value m)" "d dvd v"
  have "uint (mod_value m) dvd v * uint (mop_operand y) - 1"
    using inverse_eqm [OF assms] by (simp add: eqm_def mod_eq_dvd_iff mult.commute)
  then have "d dvd v * uint (mop_operand y) - 1" by (rule dvd_trans [OF d(1)])
  moreover have "d dvd v * uint (mop_operand y)" using d(2) by simp
  ultimately have "d dvd v * uint (mop_operand y) - (v * uint (mop_operand y) - 1)" by (rule dvd_diff [rotated])
  then show "is_unit d" by simp
qed

lemma modulus_dvd_product: "i < rns_size b \<Longrightarrow> modi (rns_base b) i dvd base_product b"
  unfolding base_product_def modn_modi [symmetric] by (rule of_nat_dvd_iff [THEN iffD2], rule crt_prod_dvd)

lemma base_product_coprime:
  assumes "\<And>i. i < rns_size b \<Longrightarrow> coprime (modi (rns_base b) i) v"
  shows "coprime (base_product b) v"
proof -
  have "base_product b = (\<Prod>i<rns_size b. modi (rns_base b) i)"
    by (simp add: base_product_def crt_prod_def)
  moreover have "coprime (\<Prod>i<rns_size b. modi (rns_base b) i) v" by (rule prod_coprime_left) (use assms in simp)
  ultimately show ?thesis by simp
qed

lemma neg_inverse_coprime:
  assumes "neg_inverse_operand m v y"
  shows "coprime (uint (mod_value m)) v"
proof (rule coprimeI)
  fix d assume d: "d dvd uint (mod_value m)" "d dvd v"
  have "uint (mod_value m) dvd v * uint (mop_operand y) + 1" using assms by (simp add: neg_inverse_operand_def dvd_eq_mod_eq_0)
  then have "d dvd v * uint (mop_operand y) + 1" by (rule dvd_trans [OF d(1)])
  moreover have "d dvd v * uint (mop_operand y)" using d(2) by simp
  ultimately show "is_unit d" by (simp add: dvd_add_right_iff)
qed

section \<open>The constants\<close>

lemma rmap_Inr:
  "rmap f xs = Inr ys \<Longrightarrow> length ys = length xs \<and> (\<forall>i<length xs. f (xs ! i) = Inr (ys ! i))"
proof (induction xs arbitrary: ys)
  case (Cons x xs)
  then obtain y zs where "f x = Inr y" "rmap f xs = Inr zs" "ys = y # zs" by (auto simp: rbind_Inr_iff)
  then show ?case using Cons.IH by (auto simp: nth_Cons split: nat.splits)
qed simp

lemma rmap_upt:
  assumes "rmap f [0..<n] = Inr ys"
  shows "length ys = n" "i < n \<Longrightarrow> f i = Inr (ys ! i)"
  using rmap_Inr [OF assms] by simp_all

lemma rmap_total: "(\<And>x. x \<in> set xs \<Longrightarrow> \<exists>y. f x = Inr y) \<Longrightarrow> \<exists>ys. rmap f xs = Inr ys"
proof (induction xs)
  case (Cons x xs)
  then obtain y ys where "f x = Inr y" "rmap f xs = Inr ys" by (metis list.set_intros)
  then show ?case by simp
qed simp

lemma invert_or_throw_value:
  assumes m: "wf_modulus m" and v: "uint v < 9223372036854775808" and r: "invert_or_throw v m = Inr r"
  shows "uint r < uint (mod_value m)" "uint v * uint r mod uint (mod_value m) = 1"
proof -
  note b = wf_modulusD [OF m]
  have v0: "v \<noteq> 0" using r by (auto simp: invert_or_throw_def tryInvertUintMod_def)
  have "int (unat v) < int (2 ^ 63)" using v by simp
  then have v63: "unat v < 2 ^ 63" by (simp only: of_nat_less_iff)
  have m63: "unat (mod_value m) < 2 ^ 63" using b(3) by simp
  have "r < mod_value m \<and> unat v * unat r mod unat (mod_value m) = 1"
    using tryInvertUintMod_value [OF v0 b(2) v63 m63] r
    by (auto simp: invert_or_throw_def modulus_value_def split: if_splits)
  moreover from this have "int (unat v * unat r mod unat (mod_value m)) = 1" by simp
  ultimately show "uint r < uint (mod_value m)" "uint v * uint r mod uint (mod_value m) = 1"
    by (simp_all add: zmod_int word_less_def)
qed

lemma invert_or_throw_total:
  assumes m: "wf_modulus m" and v: "uint v < 9223372036854775808" and c: "coprime (uint v) (uint (mod_value m))"
  shows "\<exists>r. invert_or_throw v m = Inr r"
proof -
  note b = wf_modulusD [OF m]
  have v0: "v \<noteq> 0" using c wf_modulus_int(1) [OF m] by auto
  have "int (unat v) < int (2 ^ 63)" using v by simp
  then have v63: "unat v < 2 ^ 63" by (simp only: of_nat_less_iff)
  have m63: "unat (mod_value m) < 2 ^ 63" using b(3) by simp
  have "coprime (int (unat v)) (int (unat (mod_value m)))" using c by simp
  then have "coprime (unat v) (unat (mod_value m))" by (simp only: coprime_int_iff)
  then show ?thesis
    using tryInvertUintMod_value [OF v0 b(2) v63 m63] by (auto simp: invert_or_throw_def modulus_value_def)
qed

text \<open>The operands of the inverse and of the negative inverse of a residue.\<close>

lemma small_residue: "wf_modulus m \<Longrightarrow> uint v = V mod uint (mod_value m) \<Longrightarrow> uint v < 9223372036854775808"
  using mod_word [of v V m] wf_modulus_int(2) [of m] by simp

lemma invert_residue:
  assumes m: "wf_modulus m" and v: "eqm (uint (mod_value m)) (uint v) V" "uint v < 9223372036854775808" and r: "invert_or_throw v m = Inr r"
  shows "inverse_operand m V (set_operand r m zero_operand)" "neg_inverse_operand m V (set_operand (negateUintMod r m) m zero_operand)"
    "r < mod_value m" "V * uint r mod uint (mod_value m) = 1"
proof -
  let ?m = "uint (mod_value m)"
  note i = invert_or_throw_value [OF m v(2) r]
  note m1 = wf_modulus_int(1) [OF m]
  have "eqm ?m (V * uint r) (uint v * uint r)" by (intro eqm_mult eqm_sym [OF v(1)] eqm_refl)
  also have "eqm ?m (uint v * uint r) 1" using i(2) m1 by (simp add: eqm_def)
  finally have e: "eqm ?m (V * uint r) 1" .
  show "V * uint r mod ?m = 1" using e m1 by (simp add: eqm_def)
  show lt: "r < mod_value m" using i(1) by (simp add: word_less_def)
  then show "inverse_operand m V (set_operand r m zero_operand)"
    using set_operand_for [OF lt, of zero_operand] e m1 by (simp add: inverse_operand_def eqm_def)
  have "r \<noteq> 0" using i(2) m1 by auto
  note n = negate_int [OF i(1) this]
  have "0 < uint r" using \<open>r \<noteq> 0\<close> by (simp add: word_neq_0_conv [symmetric] uint_0_iff less_le)
  then have nlt: "negateUintMod r m < mod_value m" using n by (simp add: word_less_def)
  have "eqm ?m (V * (?m - uint r) + 1) (V * (0 - uint r) + 1)"
    by (intro eqm_add eqm_mult eqm_diff eqm_refl) (simp add: eqm_def)
  also have "V * (0 - uint r) + 1 = 0 - V * uint r + 1" by simp
  also have "eqm ?m \<dots> (0 - 1 + 1)" by (intro eqm_add eqm_diff eqm_refl e)
  finally have "(V * (?m - uint r) + 1) mod ?m = 0" by (simp add: eqm_def)
  then show "neg_inverse_operand m V (set_operand (negateUintMod r m) m zero_operand)"
    using set_operand_for [OF nlt, of zero_operand] n by (simp add: neg_inverse_operand_def)
qed

lemma product_mod:
  assumes b: "wf_rns b" and m: "wf_modulus m"
  shows "uint (moduloUint (take (rns_size b) (rns_base_prod b)) m) = base_product b mod uint (mod_value m)"
proof -
  note w = wf_rnsD [OF b refl refl]
  have "rns_base_prod b \<noteq> []" using w(4,10) by auto
  from int_unat_mod [OF moduloUint_value [OF wf_modulusD(1) [OF m] this]] w(4,5)
  show ?thesis by (simp add: base_product_def)
qed

lemma rbind_invert:
  assumes m: "wf_modulus m" and b: "wf_rns b"
    and r: "rbind (invert_or_throw (moduloUint (take (rns_size b) (rns_base_prod b)) m) m) (\<lambda>temp. Inr (set_operand temp m zero_operand)) = Inr y"
  shows "inverse_operand m (base_product b) y"
proof -
  note p = product_mod [OF b m]
  have "eqm (uint (mod_value m)) (uint (moduloUint (take (rns_size b) (rns_base_prod b)) m)) (base_product b)" by (simp add: eqm_def p)
  from invert_residue(1) [OF m this small_residue [OF m p]] r show ?thesis by (auto simp: rbind_Inr_iff)
qed

lemma rbind_InrE:
  assumes "rbind r f = Inr b"
  obtains a where "r = Inr a" "f a = Inr b"
  using assms by (auto simp: rbind_Inr_iff)

lemma rmap_inverses:
  assumes r: "rmap (\<lambda>i. rbind (invert_or_throw (v i) (ms ! i)) (\<lambda>temp. Inr (set_operand temp (ms ! i) zero_operand))) [0..<n] = Inr ys"
    and v: "\<And>i. i < n \<Longrightarrow> wf_modulus (ms ! i) \<and> eqm (modi ms i) (uint (v i)) V \<and> uint (v i) < 9223372036854775808"
  shows "length ys = n" "i < n \<Longrightarrow> inverse_operand (ms ! i) V (ys ! i)"
proof -
  show "length ys = n" by (rule rmap_upt(1) [OF r])
  assume i: "i < n"
  note vi = v [OF i]
  show "inverse_operand (ms ! i) V (ys ! i)"
    using rmap_upt(2) [OF r i] invert_residue(1) [of "ms ! i" "v i" V] vi by (auto elim!: rbind_InrE)
qed

lemma product_ok:
  assumes "wf_rns b" "wf_modulus m"
  shows "wf_modulus m \<and> eqm (uint (mod_value m)) (uint (moduloUint (take (rns_size b) (rns_base_prod b)) m)) (base_product b) \<and>
    uint (moduloUint (take (rns_size b) (rns_base_prod b)) m) < 9223372036854775808"
  using assms product_mod [OF assms] small_residue [OF assms(2) product_mod [OF assms]] by (simp add: eqm_def)

lemma barrett_ok:
  assumes "wf_modulus m"
  shows "wf_modulus m \<and> eqm (uint (mod_value m)) (uint (barrettReduce64 x m)) (uint x) \<and> uint (barrettReduce64 x m) < 9223372036854775808"
  using assms barrett_int [OF wf_modulusD(1) [OF assms], of x] small_residue [OF assms barrett_int [OF wf_modulusD(1) [OF assms]], of x]
  by (simp add: eqm_def)

lemma modulus_ok:
  assumes "wf_modulus m" "wf_modulus m'"
  shows "wf_modulus m \<and> eqm (uint (mod_value m)) (uint (mod_value m')) (uint (mod_value m')) \<and> uint (mod_value m') < 9223372036854775808"
  using assms(1) wf_modulus_int(2) [OF assms(2)] by simp

lemma plain_constants:
  assumes T: "wf_bases T" and t: "\<not> modulus_isZero (rt_t T)" and b: "rt_base_t_gamma T = Some b"
    and r1: "invert_or_throw (barrettReduce64 (modulus_value (rt_gamma T)) (rt_t T)) (rt_t T) = Inr ig"
    and r2: "rmap (\<lambda>i. rbind (invert_or_throw (moduloUint (take (rns_size (rt_base_q T)) (rns_base_prod (rt_base_q T))) (rns_base b ! i)) (rns_base b ! i))
      (\<lambda>temp. Inr (set_operand (negateUintMod temp (rns_base b ! i)) (rns_base b ! i) zero_operand))) [0..<2] = Inr nq"
  shows "inverse_operand (rt_t T) (uint (mod_value (rt_gamma T))) (set_operand ig (rt_t T) zero_operand)"
    "length nq = 2" "i < 2 \<Longrightarrow> neg_inverse_operand ([rt_t T, rt_gamma T] ! i) (base_product (rt_base_q T)) (nq ! i)"
    "k < rns_size (rt_base_q T) \<Longrightarrow>
      (let m = rns_base (rt_base_q T) ! k;
           y = set_operand (multiplyUintMod (modulus_value (rns_base b ! 0)) (modulus_value (rns_base b ! 1)) m) m zero_operand
       in operand_for m y \<and> uint (mop_operand y) = uint (mod_value (rt_t T)) * uint (mod_value (rt_gamma T)) mod uint (mod_value m))"
proof -
  note q = wf_basesD(2) [OF T]
  have w: "wf_rns b" "rns_base b = [rt_t T, rt_gamma T]" "wf_modulus (rt_t T)" "wf_modulus (rt_gamma T)"
    using T t b wf_rns_modulus [of b 0] wf_rns_modulus [of b 1] wf_rnsD(1) [of b, OF _ refl refl] by (auto simp: wf_bases_def Let_def)
  note bg = barrett_int [OF wf_modulusD(1) [OF w(3)], of "mod_value (rt_gamma T)"]
  show "inverse_operand (rt_t T) (uint (mod_value (rt_gamma T))) (set_operand ig (rt_t T) zero_operand)"
    by (rule invert_residue(1) [OF w(3) _ small_residue [OF w(3) bg] r1 [unfolded modulus_value_def]]) (simp add: eqm_def bg)
  show "length nq = 2" by (rule rmap_upt(1) [OF r2])
  show "neg_inverse_operand ([rt_t T, rt_gamma T] ! i) (base_product (rt_base_q T)) (nq ! i)" if "i < 2"
  proof -
    let ?m = "rns_base b ! i"
    have m: "wf_modulus ?m" using that w by (auto simp: less_2_cases_iff)
    note p = product_mod [OF q m]
    have "eqm (uint (mod_value ?m)) (uint (moduloUint (take (rns_size (rt_base_q T)) (rns_base_prod (rt_base_q T))) ?m)) (base_product (rt_base_q T))"
      by (simp add: eqm_def p)
    from invert_residue(2) [OF m this small_residue [OF m p]] rmap_upt(2) [OF r2 that] w(2)
    show ?thesis by (auto elim!: rbind_InrE)
  qed
  assume k: "k < rns_size (rt_base_q T)"
  let ?m = "rns_base (rt_base_q T) ! k"
  note m = wf_rns_modulus [OF q k]
  have "uint (multiplyUintMod (modulus_value (rns_base b ! 0)) (modulus_value (rns_base b ! 1)) ?m) =
      uint (mod_value (rt_t T)) * uint (mod_value (rt_gamma T)) mod uint (mod_value ?m)"
    using int_unat_mod [OF multiplyUintMod_value [OF wf_modulusD(1) [OF m]]] w(2) by (simp add: modulus_value_def)
  from residue_operand [OF m this] show "let m = ?m;
       y = set_operand (multiplyUintMod (modulus_value (rns_base b ! 0)) (modulus_value (rns_base b ! 1)) m) m zero_operand
    in operand_for m y \<and> uint (mop_operand y) = uint (mod_value (rt_t T)) * uint (mod_value (rt_gamma T)) mod uint (mod_value m)"
    unfolding Let_def by blast
qed

lemma RNSTool_constants_wf:
  assumes T: "wf_bases T" and r: "RNSTool_constants T = Inr T'"
  shows "wf_tool T' \<and> rt_coeff_count T' = rt_coeff_count T \<and> rt_base_q T' = rt_base_q T \<and> rt_base_B T' = rt_base_B T \<and>
    rt_m_sk T' = rt_m_sk T \<and> rt_m_tilde T' = rt_m_tilde T \<and> rt_t T' = rt_t T \<and> rt_gamma T' = rt_gamma T"
proof -
  let ?q = "rt_base_q T" and ?k = "rns_size (rt_base_q T)" and ?Bsk = "rt_base_Bsk T" and ?l = "rns_size (rt_base_Bsk T)"
  let ?qs = "rns_base ?q" and ?bs = "rns_base ?Bsk" and ?t = "rt_t T"
  note b = wf_basesD [OF T] and s = wf_basesD_sizes [OF T] and ms = wf_bases_moduli [OF T]
  note mb = wf_rns_modulus [OF b(4)] and mq = wf_rns_modulus [OF b(2)]
  have k0: "?k - 1 < ?k" using wf_rnsD(10) [OF b(2) refl refl] by simp
  have lst: "last ?qs = ?qs ! (?k - 1)" using k0 s(3) by (cases "?qs = []") (simp_all add: last_conv_nth)
  show ?thesis
    using r unfolding RNSTool_constants_def Let_def
    apply (elim rbind_InrE)
    subgoal premises prems for ipq ipb imt ipm T2 iql
    proof -
      have c1: "inverses ?bs (base_product ?q) ipq"
        unfolding inverses_def s(5) s(1) [symmetric]
        using rmap_inverses [OF prems(1) product_ok [OF b(2) mb]] by blast
      have c2: "inverses ?bs (uint (mod_value (rt_m_tilde T))) imt"
        unfolding inverses_def s(5) s(1) [symmetric]
        using rmap_inverses [OF prems(3) [unfolded modulus_value_def] barrett_ok [OF mb]] by blast
      have c3: "inverse_operand (rt_m_sk T) (base_product (rt_base_B T)) (set_operand ipb (rt_m_sk T) zero_operand)"
        by (rule invert_residue(1) [OF ms(1) _ small_residue [OF ms(1) product_mod [OF b(3) ms(1)]] prems(2)])
          (simp add: eqm_def product_mod [OF b(3) ms(1)])
      have c4: "neg_inverse_operand (rt_m_tilde T) (base_product ?q) (set_operand (negateUintMod ipm (rt_m_tilde T)) (rt_m_tilde T) zero_operand)"
        by (rule invert_residue(2) [OF ms(2) _ small_residue [OF ms(2) product_mod [OF b(2) ms(2)]] prems(4)])
          (simp add: eqm_def product_mod [OF b(2) ms(2)])
      have c5: "residue_list ?bs (base_product ?q) (map (\<lambda>i. moduloUint (take ?k (rns_base_prod ?q)) (?bs ! i)) [0..<?l])"
        unfolding residue_list_def s(5) s(1) [symmetric] using product_mod [OF b(2) mb] by simp
      have c6: "residue_list ?qs (base_product (rt_base_B T))
          (map (\<lambda>i. moduloUint (take (rns_size (rt_base_B T)) (rns_base_prod (rt_base_B T))) (?qs ! i)) [0..<?k])"
        using product_mod [OF b(3) mq] s(3) by (simp add: residue_list_def)
      have c7: "inverses (butlast ?qs) (uint (mod_value (last ?qs))) iql"
        unfolding inverses_def lst length_butlast s(3)
        using rmap_inverses [OF prems(6) [unfolded modulus_value_def] modulus_ok [OF mq mq [OF k0]]] s(3)
        by (simp add: nth_butlast)
      note c = c1 c2 c3 c4 c5 c6 c7
      define T1 where "T1 = T\<lparr>rt_prod_B_mod_q := map (\<lambda>i. moduloUint (take (rns_size (rt_base_B T)) (rns_base_prod (rt_base_B T))) (?qs ! i)) [0..<?k],
        rt_inv_prod_q_mod_Bsk := ipq, rt_inv_prod_B_mod_m_sk := set_operand ipb (rt_m_sk T) zero_operand, rt_inv_m_tilde_mod_Bsk := imt,
        rt_neg_inv_prod_q_mod_m_tilde := set_operand (negateUintMod ipm (rt_m_tilde T)) (rt_m_tilde T) zero_operand,
        rt_prod_q_mod_Bsk := map (\<lambda>i. moduloUint (take ?k (rns_base_prod ?q)) (?bs ! i)) [0..<?l]\<rparr>"
      note p5 = prems(5) [folded T1_def]
      have tg1: "rt_base_t_gamma T1 = rt_base_t_gamma T" by (simp add: T1_def)
      show ?thesis
      proof (cases "modulus_isZero ?t")
        case True
        then have n: "rt_base_t_gamma T = None" "rt_base_q_to_t_gamma_conv T = None" "rt_base_q_to_t_conv T = None"
          and t0: "\<not> modulus_value ?t \<noteq> 0" using T by (simp_all add: wf_bases_def modulus_isZero_def modulus_value_def Let_def)
        have T': "T' = T1\<lparr>rt_inv_q_last_mod_q := iql\<rparr>" using prems(7) p5 tg1 t0 n by simp
        have "wf_bases T' = wf_bases T" by (simp add: T' T1_def wf_bases_def Let_def)
        moreover have "wf_constants T'" unfolding T' T1_def wf_constants_def Let_def using c True by simp
        ultimately show ?thesis using T by (simp add: wf_tool_def T' T1_def)
      next
        case False
        then obtain tg where tg: "rt_base_t_gamma T = Some tg" and t0: "modulus_value ?t \<noteq> 0" and mt: "wf_modulus ?t"
          using wf_bases_plain [OF T] by (metis modulus_isZero_def modulus_value_def)
        obtain ig nq where i: "invert_or_throw (barrettReduce64 (modulus_value (rt_gamma T)) ?t) ?t = Inr ig"
          "rmap (\<lambda>i. rbind (invert_or_throw (moduloUint (take ?k (rns_base_prod ?q)) (rns_base tg ! i)) (rns_base tg ! i))
            (\<lambda>temp. Inr (set_operand (negateUintMod temp (rns_base tg ! i)) (rns_base tg ! i) zero_operand))) [0..<2] = Inr nq"
          and T2: "T2 = T1\<lparr>rt_inv_gamma_mod_t := set_operand ig ?t zero_operand,
                    rt_prod_t_gamma_mod_q := map (\<lambda>i. set_operand
                      (multiplyUintMod (modulus_value (rns_base tg ! 0)) (modulus_value (rns_base tg ! 1)) (?qs ! i))
                      (?qs ! i) zero_operand) [0..<?k],
                    rt_neg_inv_q_mod_t_gamma := nq\<rparr>"
          using p5 unfolding tg1 tg option.case by (elim rbind_InrE) simp
        obtain il where il: "invert_or_throw (modulus_value (?qs ! (?k - 1))) ?t = Inr il"
          and T': "T' = T2\<lparr>rt_inv_q_last_mod_q := iql, rt_inv_q_last_mod_t := il,
            rt_q_last_mod_t := barrettReduce64 (modulus_value (?qs ! (?k - 1))) ?t\<rparr>"
          using prems(7) t0 by (auto elim: rbind_InrE)
        note pc = plain_constants [OF T False tg i]
        note ok = modulus_ok [OF mt mq [OF k0], THEN conjunct2]
        note ql = invert_residue(3,4) [OF mt conjunct1 [OF ok] conjunct2 [OF ok] il [unfolded modulus_value_def]]
        have "wf_bases T' = wf_bases T" by (simp add: T' T2 T1_def wf_bases_def Let_def)
        moreover have "wf_constants T'"
          using c pc(1-3) pc(4) [unfolded Let_def] ql False barrett_int [OF wf_modulusD(1) [OF mt]] s(3)
          unfolding T' T2 T1_def wf_constants_def Let_def by (simp add: lst modulus_value_def)
        ultimately show ?thesis using T by (simp add: wf_tool_def T' T2 T1_def)
      qed
    qed
    done
qed

text \<open>The constants exist when the moduli are coprime where they have to be inverted.\<close>

lemma rmap_upt_total: "(\<And>i. i < n \<Longrightarrow> \<exists>y. f i = Inr y) \<Longrightarrow> \<exists>ys. rmap f [0..<n] = Inr ys"
  by (rule rmap_total) simp

lemma invert_total:
  assumes "wf_modulus m \<and> eqm (uint (mod_value m)) (uint v) V \<and> uint v < 9223372036854775808" "coprime V (uint (mod_value m))"
  shows "\<exists>r. invert_or_throw v m = Inr r"
proof (rule invert_or_throw_total)
  let ?m = "uint (mod_value m)"
  have "?m \<noteq> 0" using wf_modulus_int(1) [of m] assms(1) by simp
  then have "coprime (uint v mod ?m) ?m \<longleftrightarrow> coprime (uint v) ?m" "coprime (V mod ?m) ?m \<longleftrightarrow> coprime V ?m"
    by (simp_all add: coprime_mod_left_iff)
  then show "coprime (uint v) ?m" using assms by (simp add: eqm_def)
qed (use assms in simp_all)

lemma rbind_total: "\<exists>a. r = Inr a \<Longrightarrow> (\<And>a. r = Inr a \<Longrightarrow> \<exists>b. f a = Inr b) \<Longrightarrow> \<exists>b. rbind r f = Inr b"
  by auto

lemma rmap_inverses_total:
  assumes "\<And>i. i < n \<Longrightarrow> wf_modulus (ms ! i) \<and> eqm (modi ms i) (uint (v i)) V \<and> uint (v i) < 9223372036854775808"
    "\<And>i. i < n \<Longrightarrow> coprime V (modi ms i)"
  shows "\<exists>ys. rmap (\<lambda>i. rbind (invert_or_throw (v i) (ms ! i)) (\<lambda>temp. Inr (F i temp))) [0..<n] = Inr ys"
  by (intro rmap_upt_total rbind_total invert_total [OF assms(1) assms(2)]) simp_all

lemma wf_rns_coprime:
  assumes "wf_rns b" "i < rns_size b" "j < rns_size b" "i \<noteq> j"
  shows "coprime (modi (rns_base b) i) (modi (rns_base b) j)"
proof -
  have "coprime (int (modn (rns_base b) i)) (int (modn (rns_base b) j))"
    unfolding coprime_int_iff by (rule crt_moduliD(2) [OF wf_rnsD(12) [OF assms(1) refl refl] assms(2-4)])
  then show ?thesis by simp
qed

lemma RNSTool_constants_total:
  assumes T: "wf_bases T" and Q: "\<And>m. m \<in> set (rns_base (rt_base_Bsk_m_tilde T)) \<Longrightarrow> coprime (base_product (rt_base_q T)) (uint (mod_value m))"
    and Qt: "\<And>m. \<not> modulus_isZero (rt_t T) \<Longrightarrow> m \<in> {rt_t T, rt_gamma T} \<Longrightarrow> coprime (base_product (rt_base_q T)) (uint (mod_value m))"
  shows "\<exists>T'. RNSTool_constants T = Inr T'"
proof -
  let ?q = "rt_base_q T" and ?k = "rns_size (rt_base_q T)" and ?Bsk = "rt_base_Bsk T" and ?l = "rns_size (rt_base_Bsk T)"
  let ?qs = "rns_base ?q" and ?bs = "rns_base ?Bsk" and ?t = "rt_t T"
  note b = wf_basesD [OF T] and s = wf_basesD_sizes [OF T] and ms = wf_bases_moduli [OF T]
  note mb = wf_rns_modulus [OF b(4)] and mq = wf_rns_modulus [OF b(2)]
  have k0: "?k - 1 < ?k" using wf_rnsD(10) [OF b(2) refl refl] by simp
  have inm: "?bs ! i \<in> set (rns_base (rt_base_Bsk_m_tilde T))" if "i < ?l" for i using that b(7) s(1,5) by simp
  have mt: "rt_m_tilde T \<in> set (rns_base (rt_base_Bsk_m_tilde T))" using b(7) by simp
  have c1: "coprime (base_product (rt_base_B T)) (uint (mod_value (rt_m_sk T)))"
  proof (rule base_product_coprime)
    fix i assume "i < rns_size (rt_base_B T)"
    then show "coprime (modi (rns_base (rt_base_B T)) i) (uint (mod_value (rt_m_sk T)))"
      using wf_rns_coprime [OF b(4), of i "rns_size (rt_base_B T)"] b(6) s by (simp add: nth_append)
  qed
  have c2: "coprime (uint (mod_value (rt_m_tilde T))) (modi ?bs i)" if "i < ?l" for i
    using wf_rns_coprime [OF b(5), of ?l i] b(7) s that by (simp add: nth_append)
  have c3: "coprime (modi ?qs (?k - 1)) (modi ?qs i)" if "i < ?k - 1" for i
    using wf_rns_coprime [OF b(2) k0, of i] that by simp
  have c4: "coprime (modi ?qs (?k - 1)) (uint (mod_value ?t))" if "\<not> modulus_isZero ?t"
    by (rule coprime_divisors [OF modulus_dvd_product [OF k0] dvd_refl]) (use Qt that in simp)
  obtain ipq where r1: "rmap (\<lambda>i. rbind (invert_or_throw (moduloUint (take ?k (rns_base_prod ?q)) (?bs ! i)) (?bs ! i))
      (\<lambda>temp. Inr (set_operand temp (?bs ! i) zero_operand))) [0..<?l] = Inr ipq"
    using rmap_inverses_total [where n = ?l and F = "\<lambda>i temp. set_operand temp (?bs ! i) zero_operand", OF product_ok [OF b(2) mb] Q [OF inm]] by blast
  obtain ipb where r2: "invert_or_throw (moduloUint (take (rns_size (rt_base_B T)) (rns_base_prod (rt_base_B T))) (rt_m_sk T)) (rt_m_sk T) = Inr ipb"
    using invert_total [OF product_ok [OF b(3) ms(1)] c1] by blast
  obtain imt where r3: "rmap (\<lambda>i. rbind (invert_or_throw (barrettReduce64 (modulus_value (rt_m_tilde T)) (?bs ! i)) (?bs ! i))
      (\<lambda>temp. Inr (set_operand temp (?bs ! i) zero_operand))) [0..<?l] = Inr imt"
    unfolding modulus_value_def using rmap_inverses_total [where n = ?l and F = "\<lambda>i temp. set_operand temp (?bs ! i) zero_operand", OF barrett_ok [OF mb] c2] by blast
  obtain ipm where r4: "invert_or_throw (moduloUint (take ?k (rns_base_prod ?q)) (rt_m_tilde T)) (rt_m_tilde T) = Inr ipm"
    using invert_total [OF product_ok [OF b(2) ms(2)] Q [OF mt]] by blast
  obtain iql where r6: "rmap (\<lambda>i. rbind (invert_or_throw (modulus_value (?qs ! (?k - 1))) (?qs ! i))
      (\<lambda>temp. Inr (set_operand temp (?qs ! i) zero_operand))) [0..<?k - 1] = Inr iql"
    unfolding modulus_value_def using rmap_inverses_total [where n = "?k - 1" and F = "\<lambda>i temp. set_operand temp (?qs ! i) zero_operand", OF modulus_ok [OF mq mq [OF k0]] c3] by fastforce
  show ?thesis
  proof (cases "modulus_isZero ?t")
    case True
    then have "rt_base_t_gamma T = None" "modulus_value ?t = 0"
      using T by (simp_all add: wf_bases_def modulus_isZero_def modulus_value_def Let_def)
    then show ?thesis unfolding RNSTool_constants_def Let_def r1 r2 r3 r4 r6 by simp
  next
    case False
    then obtain tg where tg: "rt_base_t_gamma T = Some tg" "wf_rns tg" "rns_base tg = [?t, rt_gamma T]" "rns_size tg = 2"
      and wt: "wf_modulus ?t" by (rule wf_bases_plain [OF T])
    have t0: "modulus_value ?t \<noteq> 0" using False by (simp add: modulus_isZero_def modulus_value_def)
    have "coprime (uint (mod_value (rt_gamma T))) (uint (mod_value ?t))"
      using wf_rns_coprime [OF tg(2), of 1 0] tg(3,4) by simp
    then obtain ig where r7: "invert_or_throw (barrettReduce64 (modulus_value (rt_gamma T)) ?t) ?t = Inr ig"
      unfolding modulus_value_def using invert_total [OF barrett_ok [OF wt]] by blast
    have "coprime (base_product ?q) (modi (rns_base tg) i)" if "i < 2" for i
      using that tg(3) Qt [OF False] by (auto simp: less_2_cases_iff)
    then obtain nq where r8: "rmap (\<lambda>i. rbind (invert_or_throw (moduloUint (take ?k (rns_base_prod ?q)) (rns_base tg ! i)) (rns_base tg ! i))
        (\<lambda>temp. Inr (set_operand (negateUintMod temp (rns_base tg ! i)) (rns_base tg ! i) zero_operand))) [0..<2] = Inr nq"
      using rmap_inverses_total [where n = 2 and F = "\<lambda>i temp. set_operand (negateUintMod temp (rns_base tg ! i)) (rns_base tg ! i) zero_operand", OF product_ok [OF b(2) wf_rns_modulus [OF tg(2)]], unfolded tg(4)]
      by blast
    obtain il where r9: "invert_or_throw (modulus_value (?qs ! (?k - 1))) ?t = Inr il"
      unfolding modulus_value_def using invert_total [OF modulus_ok [OF wt mq [OF k0]] c4 [OF False]] by blast
    show ?thesis unfolding RNSTool_constants_def Let_def r1 r2 r3 r4 r6 using t0 r7 r8 r9 tg(1) by simp
  qed
qed

section \<open>The bases\<close>

lemma new_RNSBase_Inr:
  assumes "\<forall>m\<in>set ms. wf_modulus m" "length ms \<le> 66" and r: "new_RNSBase ms = Inr b"
  shows "wf_rns b" "rns_base b = ms" "good_moduli ms"
proof -
  have ne: "ms \<noteq> []" using r by (auto simp: new_RNSBase_def)
  have m: "\<forall>i<length ms. modulus_isZero (ms ! i) \<or> wf_modulus (ms ! i)" using assms(1) by simp
  show g: "good_moduli ms"
    using r constructor_checks [OF ne m] by (auto simp: new_RNSBase_def split: if_splits)
  have "length ms * length ms \<le> 66 * 66" by (intro mult_le_mono assms(2))
  then show "wf_rns b" "rns_base b = ms" using new_RNSBase_ok [OF g] r by auto
qed

lemma extend_Inr:
  assumes b: "wf_rns b" and v: "wf_modulus v" and small: "rns_size b \<le> 66" and r: "RNSBase_extend_value b v = Inr c"
  shows "wf_rns c" "rns_base c = rns_base b @ [v]"
proof -
  have "(rns_size b + 1) * (rns_size b + 1) \<le> 67 * 67" using small by (intro mult_le_mono) simp_all
  then show "wf_rns c" "rns_base c = rns_base b @ [v]"
    using RNSBase_extend_value_cases [OF b, of v] v r by (auto split: if_splits)
qed

lemma converter_Inr:
  assumes "wf_rns b" "wf_rns c" "new_BaseConverter b c = Inr v"
  shows "converts v b (rns_base c)"
  using new_BaseConverter_ok [OF assms(1,2)] assms(3) by (auto simp: converts_def)

lemma bases_finish:
  assumes "RNSTool_constants T0 = Inr T" "wf_bases T0" "rt_coeff_count T0 = n" "rt_base_q T0 = q" "rt_t T0 = t"
    "rt_m_tilde T0 = m_tilde" "rt_m_sk T0 = m_sk" "rt_gamma T0 = g" "rns_base (rt_base_B T0) = B"
  shows "wf_tool T \<and> rt_coeff_count T = n \<and> rt_base_q T = q \<and> rt_t T = t \<and> rt_m_tilde T = m_tilde \<and>
    rt_m_sk T = m_sk \<and> rt_gamma T = g \<and> rns_base (rt_base_B T) = B"
  using RNSTool_constants_wf [OF assms(2,1)] assms(3-) by simp

lemma RNSTool_bases_wf:
  assumes q: "wf_rns q" and t: "modulus_isZero t \<or> wf_modulus t" and n: "0 < n"
    and primes: "length primes = size_B + 2" "\<forall>m\<in>set primes. wf_modulus m" "size_B \<le> 65" and m_tilde: "wf_modulus m_tilde"
    and r: "RNSTool_bases rd p n size_B q t primes m_tilde = Inr T"
  shows "wf_tool T \<and> rt_coeff_count T = n \<and> rt_base_q T = q \<and> rt_t T = t \<and> rt_m_tilde T = m_tilde \<and>
    rt_m_sk T = primes ! 0 \<and> rt_gamma T = primes ! 1 \<and> rns_base (rt_base_B T) = drop 2 primes"
proof -
  have in_primes: "primes ! 0 \<in> set primes" "primes ! 1 \<in> set primes" using primes(1) by (auto intro: nth_mem)
  note wf = bspec [OF primes(2)]
  have B: "take size_B (drop 2 primes) = drop 2 primes" using primes(1) by simp
  have Bm: "\<forall>m\<in>set (drop 2 primes). wf_modulus m" using primes(2) by (meson in_set_dropD)
  have Bl: "length (drop 2 primes) \<le> 66" "length (drop 2 primes) = size_B" using primes by simp_all
  show ?thesis
    using r unfolding RNSTool_bases_def Let_def copy_wf [OF q] B
    apply (elim rbind_InrE)
    subgoal premises prems for bB bsk bskm tg tabs qt qbsk bm qm Bq bms Bms qtg
    proof -
      note b1 = new_RNSBase_Inr [OF Bm Bl(1) prems(1)]
      have s1: "rns_size bB = size_B" using wf_rnsD(1) [OF b1(1) refl refl] b1(2) Bl(2) by simp
      have s1': "rns_size bB \<le> 66" using s1 primes(3) by simp
      note b2 = extend_Inr [OF b1(1) wf [OF in_primes(1)] s1' prems(2)]
      have s2: "rns_size bsk \<le> 66" using wf_rnsD(1) [OF b2(1) refl refl] b2(2) b1(2) Bl(2) primes(3) by simp
      note b3 = extend_Inr [OF b2(1) m_tilde s2 prems(3)]
      have m1: "\<forall>m\<in>set [m_tilde]. wf_modulus m" "\<forall>m\<in>set [primes ! 0]. wf_modulus m"
        using m_tilde wf [OF in_primes(1)] by simp_all
      note b8 = new_RNSBase_Inr [OF m1(1) _ prems(8)] and b11 = new_RNSBase_Inr [OF m1(2) _ prems(11)]
      have c: "converts qbsk q (rns_base bsk)" "converts qm q [m_tilde]" "converts Bq bB (rns_base q)" "converts Bms bB [primes ! 0]"
        using converter_Inr [OF q b2(1) prems(7)] converter_Inr [OF q b8(1) prems(9)] converter_Inr [OF b1(1) q prems(10)]
          converter_Inr [OF b1(1) b11(1) prems(12)] b8(2) b11(2) by simp_all
      have p: "if modulus_isZero t then tg = None \<and> qtg = None \<and> qt = None
         else \<exists>b c d. tg = Some b \<and> wf_rns b \<and> rns_base b = [t, primes ! 1] \<and> qtg = Some c \<and> converts c q [t, primes ! 1] \<and>
           qt = Some d \<and> converts d q [t]"
      proof (cases "modulus_isZero t")
        case True
        then show ?thesis using prems(4,6,13) by simp
      next
        case False
        then have mt: "\<forall>m\<in>set [t, primes ! 1]. wf_modulus m" "\<forall>m\<in>set [t]. wf_modulus m" using t wf [OF in_primes(2)] by simp_all
        obtain b where b: "new_RNSBase [t, primes ! 1] = Inr b" "tg = Some b" using prems(4) False by (auto elim: rbind_InrE)
        obtain bt d where d: "new_RNSBase [t] = Inr bt" "new_BaseConverter q bt = Inr d" "qt = Some d"
          using prems(6) False by (auto elim!: rbind_InrE)
        obtain c where c: "new_BaseConverter q b = Inr c" "qtg = Some c" using prems(13) b(2) by (auto elim: rbind_InrE)
        note wb = new_RNSBase_Inr [OF mt(1) _ b(1)] and wd = new_RNSBase_Inr [OF mt(2) _ d(1)]
        have "converts c q [t, primes ! 1]" "converts d q [t]"
          using converter_Inr [OF q wb(1) c(1)] converter_Inr [OF q wd(1) d(2)] wb(2) wd(2) by simp_all
        then show ?thesis using False wb b(2) c(2) d(3) by simp
      qed
      show ?thesis
        by (rule bases_finish [OF prems(14)]) (use n q b1 b2 b3 c p in \<open>simp_all add: wf_bases_def Let_def del: One_nat_def split: if_splits\<close>)
    qed
    done
qed

text \<open>A tool needs the tables of the base \<open>Bsk\<close>.\<close>

lemma RNSTool_bases_tables:
  assumes q: "wf_rns q" and primes: "length primes = size_B + 2" "\<forall>m\<in>set primes. wf_modulus m" "size_B \<le> 65"
    and r: "RNSTool_bases rd p n size_B q t primes m_tilde = Inr T"
  shows "\<exists>tabs. CreateNTTTables rd p (drop 2 primes @ [primes ! 0]) = Inr tabs"
proof -
  have B: "take size_B (drop 2 primes) = drop 2 primes" using primes(1) by simp
  have Bm: "\<forall>m\<in>set (drop 2 primes). wf_modulus m" using primes(2) by (meson in_set_dropD)
  have Bl: "length (drop 2 primes) \<le> 66" "length (drop 2 primes) = size_B" using primes by simp_all
  have m0: "wf_modulus (primes ! 0)" using primes(1,2) by (auto intro: nth_mem)
  show ?thesis
    using r unfolding RNSTool_bases_def Let_def copy_wf [OF q] B
    apply (elim rbind_InrE)
    subgoal premises prems for bB bsk bskm tg tabs
    proof -
      note b1 = new_RNSBase_Inr [OF Bm Bl(1) prems(1)]
      have s1: "rns_size bB = size_B" using wf_rnsD(1) [OF b1(1) refl refl] b1(2) Bl(2) by simp
      then have "rns_size bB \<le> 66" using primes(3) by simp
      note b2 = extend_Inr [OF b1(1) m0 this prems(2)]
      have "take (size_B + 1) (rns_base bsk) = drop 2 primes @ [primes ! 0]" using b2(2) b1(2) Bl(2) by simp
      then show ?thesis using prems(5) by (auto simp: catch_logic_error_def split: sum.splits exn.splits)
    qed
    done
qed

text \<open>The moduli are as coprime as the tool needs them.\<close>

definition tool_moduli :: "RNSBase \<Rightarrow> Modulus \<Rightarrow> Modulus list \<Rightarrow> Modulus \<Rightarrow> bool" where
  "tool_moduli q t primes m_tilde \<longleftrightarrow>
     good_moduli (drop 2 primes @ [primes ! 0, m_tilde]) \<and> (\<not> modulus_isZero t \<longrightarrow> good_moduli [t, primes ! 1]) \<and>
     (\<forall>m\<in>set (drop 2 primes @ [primes ! 0, m_tilde] @ (if modulus_isZero t then [] else [t, primes ! 1])).
        coprime (base_product q) (uint (mod_value m)))"

lemma RNSTool_bases_total:
  assumes q: "wf_rns q" and n: "0 < n" and primes: "length primes = size_B + 2" "0 < size_B" "size_B \<le> 65"
    and m: "tool_moduli q t primes m_tilde" and tabs: "CreateNTTTables rd p (drop 2 primes @ [primes ! 0]) = Inr tabs"
  shows "\<exists>T. RNSTool_bases rd p n size_B q t primes m_tilde = Inr T"
proof -
  let ?B = "drop 2 primes" and ?m0 = "primes ! 0" and ?m1 = "primes ! 1"
  have B: "take size_B (drop 2 primes) = drop 2 primes" "length ?B = size_B" using primes(1) by simp_all
  have g: "good_moduli (?B @ [?m0, m_tilde])" and gt: "\<not> modulus_isZero t \<Longrightarrow> good_moduli [t, ?m1]"
    and c: "\<And>m. m \<in> set (?B @ [?m0, m_tilde]) \<Longrightarrow> coprime (base_product q) (uint (mod_value m))"
      "\<And>m. \<not> modulus_isZero t \<Longrightarrow> m \<in> {t, ?m1} \<Longrightarrow> coprime (base_product q) (uint (mod_value m))"
    using m by (auto simp: tool_moduli_def)
  have nz: "\<not> modulus_isZero m" if "wf_modulus m" for m using that by (auto simp: modulus_isZero_def wf_modulus_def)
  have g0: "good_moduli ?B" "good_moduli (?B @ [?m0])" "good_moduli [?m0]" "good_moduli [m_tilde]" "wf_modulus ?m0" "wf_modulus m_tilde"
    using g primes by (auto simp: good_moduli_sorted sorted_wrt_append)
  have sq: "k * k < 9223372036854775808" if "k \<le> 67" for k :: nat
    using mult_le_mono [OF that that] by simp
  obtain bB where bB: "new_RNSBase ?B = Inr bB" "wf_rns bB" "rns_base bB = ?B" "rns_size bB = size_B"
    using new_RNSBase_ok [OF g0(1)] sq [of size_B] B(2) primes(3) by auto
  obtain bsk where bsk: "RNSBase_extend_value bB ?m0 = Inr bsk" "wf_rns bsk" "rns_base bsk = ?B @ [?m0]"
    using RNSBase_extend_value_cases [OF bB(2), of ?m0] g0 nz bB sq [of "size_B + 1"] primes(3) by auto
  have s2: "rns_size bsk = size_B + 1" using wf_rnsD(1) [OF bsk(2) refl refl] bsk(3) B(2) by simp
  obtain bskm where bskm: "RNSBase_extend_value bsk m_tilde = Inr bskm" "wf_rns bskm" "rns_base bskm = ?B @ [?m0, m_tilde]"
    using RNSBase_extend_value_cases [OF bsk(2), of m_tilde] g g0 nz bsk(3) s2 sq [of "size_B + 1 + 1"] primes(3) by auto
  obtain bm where bm: "new_RNSBase [m_tilde] = Inr bm" "wf_rns bm" "rns_base bm = [m_tilde]" using new_RNSBase_ok [OF g0(4)] by auto
  obtain bms where bms: "new_RNSBase [?m0] = Inr bms" "wf_rns bms" "rns_base bms = [?m0]" using new_RNSBase_ok [OF g0(3)] by auto
  obtain c1 where c1: "new_BaseConverter q bsk = Inr c1" using new_BaseConverter_ok [OF q bsk(2)] by blast
  obtain c2 where c2: "new_BaseConverter q bm = Inr c2" using new_BaseConverter_ok [OF q bm(2)] by blast
  obtain c3 where c3: "new_BaseConverter bB q = Inr c3" using new_BaseConverter_ok [OF bB(2) q] by blast
  obtain c4 where c4: "new_BaseConverter bB bms = Inr c4" using new_BaseConverter_ok [OF bB(2) bms(2)] by blast
  note cv = converter_Inr [OF q bsk(2) c1] converter_Inr [OF q bm(2) c2] converter_Inr [OF bB(2) q c3] converter_Inr [OF bB(2) bms(2) c4]
  have tables: "CreateNTTTables rd p (take (size_B + 1) (rns_base bsk)) = Inr tabs" using tabs bsk(3) B(2) by simp
  show ?thesis
  proof (cases "modulus_isZero t")
    case True
    show ?thesis
      unfolding RNSTool_bases_def Let_def copy_wf [OF q] B(1) bB(1) bsk(1) bskm(1) tables bm(1) bms(1) c1 c2 c3 c4 catch_logic_error_def
        sum.case rbind_simps using True
      apply (simp del: One_nat_def)
      apply (rule RNSTool_constants_total)
        apply (use n q bB bsk(2,3) bskm(2,3) bm(3) bms(3) cv c True in \<open>simp_all add: wf_bases_def Let_def del: One_nat_def\<close>)
      done
  next
    case False
    have gt1: "good_moduli [t]" using gt [OF False] by (simp add: good_moduli_sorted)
    obtain tg where tg: "new_RNSBase [t, ?m1] = Inr tg" "wf_rns tg" "rns_base tg = [t, ?m1]"
      using new_RNSBase_ok [OF gt [OF False]] by auto
    obtain bt where bt: "new_RNSBase [t] = Inr bt" "wf_rns bt" "rns_base bt = [t]" using new_RNSBase_ok [OF gt1] by auto
    obtain c5 where c5: "new_BaseConverter q tg = Inr c5" using new_BaseConverter_ok [OF q tg(2)] by blast
    obtain c6 where c6: "new_BaseConverter q bt = Inr c6" using new_BaseConverter_ok [OF q bt(2)] by blast
    note cv2 = converter_Inr [OF q tg(2) c5] converter_Inr [OF q bt(2) c6]
    show ?thesis
      unfolding RNSTool_bases_def Let_def copy_wf [OF q] B(1) bB(1) bsk(1) bskm(1) tables bm(1) bms(1) c1 c2 c3 c4 catch_logic_error_def
        tg(1) bt(1) c5 c6 sum.case rbind_simps using False
      apply (simp add: c5 del: One_nat_def)
      apply (rule RNSTool_constants_total)
        apply (use n q bB bsk(2,3) bskm(2,3) bm(3) bms(3) cv cv2 c False tg(2,3) bt(3) in \<open>simp_all add: wf_bases_def Let_def del: One_nat_def\<close>)
      done
  qed
qed

lemma tool_moduli_necessary:
  assumes T: "wf_tool T" and eq: "rt_base_q T = q" "rt_t T = t" "rt_m_tilde T = m_tilde" "rt_m_sk T = primes ! 0" "rt_gamma T = primes ! 1"
    "rns_base (rt_base_B T) = drop 2 primes"
  shows "tool_moduli q t primes m_tilde"
proof -
  have w: "wf_bases T" "wf_constants T" using T by (simp_all add: wf_tool_def)
  note b = wf_basesD [OF w(1)] and s = wf_basesD_sizes [OF w(1)]
  have base: "rns_base (rt_base_Bsk T) = drop 2 primes @ [primes ! 0]" "rns_base (rt_base_Bsk_m_tilde T) = drop 2 primes @ [primes ! 0, m_tilde]"
    using b(6,7) eq by simp_all
  have c: "inverses (rns_base (rt_base_Bsk T)) (base_product q) (rt_inv_prod_q_mod_Bsk T)"
      "neg_inverse_operand m_tilde (base_product q) (rt_neg_inv_prod_q_mod_m_tilde T)"
      "\<not> modulus_isZero t \<Longrightarrow> i < 2 \<Longrightarrow> neg_inverse_operand ([t, primes ! 1] ! i) (base_product q) (rt_neg_inv_q_mod_t_gamma T ! i)" for i
    using w(2) eq by (auto simp: wf_constants_def Let_def)
  have "coprime (base_product q) (uint (mod_value m))" if m: "m \<in> set (drop 2 primes @ [primes ! 0])" for m
  proof -
    obtain i where i: "i < length (rns_base (rt_base_Bsk T))" "m = rns_base (rt_base_Bsk T) ! i" using m base(1) by (metis in_set_conv_nth)
    then have "wf_modulus m" using wf_rns_modulus [OF b(4)] s(1,5) by simp
    then show ?thesis using inverse_operand_coprime [OF inversesD [OF c(1) i(1)]] i(2) by (simp add: coprime_commute)
  qed
  moreover have "coprime (base_product q) (uint (mod_value m_tilde))" using neg_inverse_coprime [OF c(2)] by (simp add: coprime_commute)
  moreover have "coprime (base_product q) (uint (mod_value t)) \<and> coprime (base_product q) (uint (mod_value (primes ! 1)))" if "\<not> modulus_isZero t"
    using neg_inverse_coprime [OF c(3) [OF that, of 0]] neg_inverse_coprime [OF c(3) [OF that, of 1]] by (simp add: coprime_commute)
  moreover have "good_moduli [t, primes ! 1]" if "\<not> modulus_isZero t"
  proof -
    have "\<not> modulus_isZero (rt_t T)" using that eq by simp
    then obtain tg where "wf_rns tg" "rns_base tg = [rt_t T, rt_gamma T]" by (rule wf_bases_plain [OF w(1)])
    then show ?thesis using wf_rnsD(3) [of tg, OF _ refl refl] eq by simp
  qed
  moreover have "good_moduli (drop 2 primes @ [primes ! 0, m_tilde])" using wf_rnsD(3) [OF b(5) refl refl] base(2) by simp
  ultimately show ?thesis by (auto simp: tool_moduli_def)
qed

text \<open>
  C18. The precomputation succeeds exactly when the moduli are coprime where it needs it and the tables of the transforms modulo the
  base \<open>Bsk\<close> can be built; the tool it returns then keeps the invariant:
  the base \<open>q\<close> is the given one, the others consist of the given primes, and every constant is the residue or the inverse that
  the operations use. In every other case the code throws.
\<close>

theorem RNSTool_bases_correct:
  assumes q: "wf_rns q" and t: "modulus_isZero t \<or> wf_modulus t" and n: "0 < n"
    and primes: "length primes = size_B + 2" "0 < size_B" "size_B \<le> 65" "\<forall>m\<in>set primes. wf_modulus m" and m: "wf_modulus m_tilde"
  shows "if tool_moduli q t primes m_tilde \<and> (\<exists>tabs. CreateNTTTables rd p (drop 2 primes @ [primes ! 0]) = Inr tabs)
    then \<exists>T. RNSTool_bases rd p n size_B q t primes m_tilde = Inr T \<and> wf_tool T \<and> rt_coeff_count T = n \<and> rt_base_q T = q \<and>
      rt_t T = t \<and> rt_m_tilde T = m_tilde \<and> rt_m_sk T = primes ! 0 \<and> rt_gamma T = primes ! 1 \<and> rns_base (rt_base_B T) = drop 2 primes
    else \<exists>e. RNSTool_bases rd p n size_B q t primes m_tilde = Inl e"
proof (cases "RNSTool_bases rd p n size_B q t primes m_tilde")
  case (Inl e)
  then show ?thesis using RNSTool_bases_total [OF q n primes(1-3), of t m_tilde rd p] by auto
next
  case (Inr T)
  have w: "wf_tool T" "rt_coeff_count T = n" "rt_base_q T = q" "rt_t T = t" "rt_m_tilde T = m_tilde" "rt_m_sk T = primes ! 0"
      "rt_gamma T = primes ! 1" "rns_base (rt_base_B T) = drop 2 primes"
    using RNSTool_bases_wf [OF q t n primes(1,4,3) m Inr] by blast+
  have "tool_moduli q t primes m_tilde" by (rule tool_moduli_necessary [OF w(1,3-8)])
  then show ?thesis using Inr w RNSTool_bases_tables [OF q primes(1,4,3) Inr] by auto
qed

text \<open>The whole of \<open>initialize\<close>: a tool that it returns keeps the invariant, with an auxiliary modulus of \<open>2\<^sup>3\<^sup>2\<close>.\<close>

lemma base_B_size_le: "base_B_size_of q t \<le> rns_size q + 1" "rns_size q \<le> base_B_size_of q t"
  by (simp_all add: base_B_size_of_def Let_def)

lemma bind_caseE:
  assumes "Option.bind x (\<lambda>r. case r of Inl e \<Rightarrow> Some (Inl e) | Inr a \<Rightarrow> f a) = Some (Inr b)"
  obtains a where "x = Some (Inr a)" "f a = Some (Inr b)"
  using assms by (cases x) (auto split: sum.splits)

theorem RNSTool_initialize_wf:
  assumes q: "wf_rns q" and t: "modulus_isZero t \<or> wf_modulus t"
    and r: "RNSTool_initialize rnd rd degree q t = Some (Inr T)"
  shows "wf_tool T \<and> rt_coeff_count T = unat degree \<and> rt_base_q T = q \<and> rt_t T = t \<and> mod_value (rt_m_tilde T) = 4294967296"
proof -
  let ?B = "base_B_size_of q t"
  have k: "\<not> (rns_size q < SEAL_COEFF_MOD_COUNT_MIN \<or> rns_size q > SEAL_COEFF_MOD_COUNT_MAX)"
    and d: "\<not> (getPowerOfTwo degree < 0 \<or> degree > 131072 \<or> degree < 2)"
    using r by (auto simp: RNSTool_initialize_def Let_def split: if_splits)
  have dn: "2 \<le> unat degree" "unat degree \<le> 131072"
    using d by (simp_all add: word_le_nat_alt word_less_nat_alt not_less)
  have du: "uint degree \<le> 131072" using d by (simp add: not_less word_le_def)
  have mul: "mul_safe uint64_t 2 (int (unat degree)) = Inr (int (2 * unat degree))"
    by (rule mul_safe_unsigned [THEN iffD2]) (use dn du in \<open>simp_all add: wf_ctype_def in_type_def type_min_def type_max_def\<close>)
  obtain b where fits: "productFitsIn uint64_t (int (unat degree)) (int (?B + 1 + 1)) = Inr b" and bT: "b"
    and r1: "Option.bind (getPrimes rnd (word_of_int (int (2 * unat degree))) SEAL_INTERNAL_MOD_BIT_COUNT (?B + 1 + 1)) (\<lambda>r. case r of
        Inl e \<Rightarrow> Some (Inl e)
      | Inr primes \<Rightarrow> Option.bind (new_Modulus rnd (push_bit 32 1)) (\<lambda>r. case r of
          Inl e \<Rightarrow> Some (Inl e)
        | Inr m_tilde \<Rightarrow> Some (RNSTool_bases rd (nat (getPowerOfTwo degree)) (unat degree) ?B q t primes m_tilde))) = Some (Inr T)"
    using r unfolding RNSTool_initialize_def Let_def mul if_not_P [OF k] if_not_P [OF d] sum.case
    by (cases "productFitsIn uint64_t (int (unat degree)) (int (?B + 1 + 1))") (auto simp only: sum.case split: if_splits)
  obtain primes where p: "getPrimes rnd (word_of_int (int (2 * unat degree))) SEAL_INTERNAL_MOD_BIT_COUNT (?B + 1 + 1) = Some (Inr primes)"
    and r2: "Option.bind (new_Modulus rnd (push_bit 32 1)) (\<lambda>r. case r of
          Inl e \<Rightarrow> Some (Inl e)
        | Inr m_tilde \<Rightarrow> Some (RNSTool_bases rd (nat (getPowerOfTwo degree)) (unat degree) ?B q t primes m_tilde)) = Some (Inr T)"
    using r1 by (rule bind_caseE)
  obtain m_tilde where m: "new_Modulus rnd (push_bit 32 1) = Some (Inr m_tilde)"
    and b: "Some (RNSTool_bases rd (nat (getPowerOfTwo degree)) (unat degree) ?B q t primes m_tilde) = Some (Inr T)"
    using r2 by (rule bind_caseE)
  have f: "unat (word_of_int (int (2 * unat degree)) :: u64) = 2 * unat degree"
    unfolding of_int_of_nat_eq using dn by (simp only: unat_of_nat) simp
  have primes: "length primes = ?B + 2" "\<forall>m\<in>set primes. wf_modulus m"
    using getPrimes_value [where b = 61 and factor = "word_of_int (int (2 * unat degree))" and rnd = rnd and n = "?B + 1 + 1"] p dn unfolding SEAL_INTERNAL_MOD_BIT_COUNT_def f
    by (auto split: if_splits) (metis length_map length_take min.absorb2)
  have mt: "wf_modulus m_tilde" "mod_value m_tilde = 4294967296"
    using m by (rule_tac new_Modulus_value [of "push_bit 32 1" rnd]; simp)+
  have "?B \<le> 65" using k base_B_size_le(1) [of q t] by (simp add: SEAL_COEFF_MOD_COUNT_MAX_def)
  from RNSTool_bases_wf [OF q t _ primes this mt(1) b [unfolded option.inject]] show ?thesis using dn mt(2) by auto
qed

text \<open>A concrete tool with small moduli.\<close>

definition modulus_29 :: Modulus where
  "modulus_29 = \<lparr>mod_value = 29, mod_const_ratio = [15266270957552732371, 636094623231363848, 25],
     mod_uint64_count = 1, mod_bit_count = 5, mod_is_prime = True\<rparr>"

definition modulus_37 :: Modulus where
  "modulus_37 = \<lparr>mod_value = 37, mod_const_ratio = [5982727807689584307, 498560650640798692, 33],
     mod_uint64_count = 1, mod_bit_count = 6, mod_is_prime = True\<rparr>"

definition modulus_41 :: Modulus where
  "modulus_41 = \<lparr>mod_value = 41, mod_const_ratio = [7198729394618361606, 449920587163647600, 10],
     mod_uint64_count = 1, mod_bit_count = 6, mod_is_prime = True\<rparr>"

definition modulus_5 :: Modulus where
  "modulus_5 = \<lparr>mod_value = 5, mod_const_ratio = [3689348814741910323, 3689348814741910323, 1],
     mod_uint64_count = 1, mod_bit_count = 3, mod_is_prime = True\<rparr>"

definition modulus_16 :: Modulus where
  "modulus_16 = \<lparr>mod_value = 16, mod_const_ratio = [0, 1152921504606846976, 0],
     mod_uint64_count = 1, mod_bit_count = 5, mod_is_prime = False\<rparr>"

lemma wf_modulus_examples:
  "wf_modulus modulus_29" "wf_modulus modulus_37" "wf_modulus modulus_41" "wf_modulus modulus_5" "wf_modulus modulus_16"
  by (simp add: wf_modulus_def has_ratio_def modulus_29_def modulus_37_def modulus_41_def modulus_5_def modulus_16_def, rule nbits_eqI; simp)+

lemma example_roots:
  "tryMinimalPrimitiveRoot (\<lambda>n. 7) (2 * push_bit 1 1) modulus_29 = Some 12"
  "tryMinimalPrimitiveRoot (\<lambda>n. 7) (2 * push_bit 1 1) modulus_37 = Some 6"
  by code_simp+

lemma example_tables: "\<exists>tabs. CreateNTTTables (\<lambda>i n. 7) 1 [modulus_29, modulus_37] = Inr tabs"
  using Ntt.initialize_ok [OF wf_modulus_examples(1) _ _ example_roots(1)] Ntt.initialize_ok [OF wf_modulus_examples(2) _ _ example_roots(2)]
  by (auto simp: CreateNTTTables_def)

lemma example_coprime:
  "coprime (37 :: nat) 29" "coprime (16 :: nat) 29" "coprime (16 :: nat) 37" "coprime (41 :: nat) 5"
  "coprime (1649 :: int) 29" "coprime (1649 :: int) 37" "coprime (1649 :: int) 16" "coprime (1649 :: int) 5" "coprime (1649 :: int) 41"
  unfolding coprime_iff_gcd_eq_1 by code_simp+

lemma example_good: "good_moduli [modulus_29, modulus_37, modulus_16]" "good_moduli [modulus_5, modulus_41]"
  using example_coprime wf_modulus_examples
  by (simp_all add: good_moduli_sorted) (simp_all add: modulus_29_def modulus_37_def modulus_16_def modulus_5_def modulus_41_def)

lemma base_product_17_97:
  assumes "wf_rns b" "rns_base b = [modulus_17, modulus_97]"
  shows "base_product b = 1649" "rns_size b = 2"
proof -
  show "rns_size b = 2" using wf_rnsD(1) [OF assms(1) refl refl] assms(2) by simp
  then show "base_product b = 1649" using assms(2) by (simp add: base_product_def crt_prod_2 modulus_17_def modulus_97_def)
qed

lemma example_moduli:
  assumes "wf_rns b" "rns_base b = [modulus_17, modulus_97]"
  shows "tool_moduli b modulus_5 [modulus_37, modulus_41, modulus_29] modulus_16"
  unfolding tool_moduli_def base_product_17_97 [OF assms] using example_good
  by (simp add: modulus_isZero_def) (simp add: modulus_29_def modulus_37_def modulus_16_def modulus_5_def modulus_41_def example_coprime)

theorem RNSTool_bases_correct_witness:
  "\<exists>b T. new_RNSBase [modulus_17, modulus_97] = Inr b \<and>
    RNSTool_bases (\<lambda>i n. 7) 1 2 1 b modulus_5 [modulus_37, modulus_41, modulus_29] modulus_16 = Inr T \<and> wf_tool T \<and> rt_gamma T = modulus_41"
proof -
  obtain b where b: "new_RNSBase [modulus_17, modulus_97] = Inr b" "wf_rns b" "rns_base b = [modulus_17, modulus_97]"
    using base_17_97 by blast
  obtain tabs where tabs: "CreateNTTTables (\<lambda>i n. 7) 1 (drop 2 [modulus_37, modulus_41, modulus_29] @ [[modulus_37, modulus_41, modulus_29] ! 0]) = Inr tabs"
    using example_tables by auto
  show ?thesis
    using RNSTool_bases_correct [OF b(2), of modulus_5 2 "[modulus_37, modulus_41, modulus_29]" 1 modulus_16 "\<lambda>i n. 7" 1]
      example_moduli [OF b(2,3)] wf_modulus_examples b(1) tabs
    by auto
qed

text \<open>The tool of the instances.\<close>

lemma example_tool:
  obtains T where "wf_tool T" "rt_coeff_count T = 2" "rns_base (rt_base_q T) = [modulus_17, modulus_97]" "rns_size (rt_base_q T) = 2"
    "base_product (rt_base_q T) = 1649" "rns_base (rt_base_Bsk T) = [modulus_29, modulus_37]" "rns_size (rt_base_Bsk T) = 2"
    "rns_size (rt_base_B T) = 1" "base_product (rt_base_B T) = 29" "rns_size (rt_base_Bsk_m_tilde T) = 3"
    "rt_t T = modulus_5" "rt_gamma T = modulus_41" "rt_m_tilde T = modulus_16" "rt_m_sk T = modulus_37"
proof -
  obtain b where b: "new_RNSBase [modulus_17, modulus_97] = Inr b" "wf_rns b" "rns_base b = [modulus_17, modulus_97]"
    using base_17_97 by blast
  obtain tabs where tabs: "CreateNTTTables (\<lambda>i n. 7) 1 (drop 2 [modulus_37, modulus_41, modulus_29] @ [[modulus_37, modulus_41, modulus_29] ! 0]) = Inr tabs"
    using example_tables by auto
  have "\<exists>T. RNSTool_bases (\<lambda>i n. 7) 1 2 1 b modulus_5 [modulus_37, modulus_41, modulus_29] modulus_16 = Inr T"
    by (rule RNSTool_bases_total [OF b(2) _ _ _ _ example_moduli [OF b(2,3)] tabs]) simp_all
  then obtain T where r: "RNSTool_bases (\<lambda>i n. 7) 1 2 1 b modulus_5 [modulus_37, modulus_41, modulus_29] modulus_16 = Inr T" ..
  have w: "wf_tool T" "rt_coeff_count T = 2" "rt_base_q T = b" "rt_t T = modulus_5" "rt_m_tilde T = modulus_16" "rt_m_sk T = modulus_37"
      "rt_gamma T = modulus_41" "rns_base (rt_base_B T) = [modulus_29]"
    using RNSTool_bases_wf [OF b(2) _ _ _ _ _ _ r] wf_modulus_examples by simp_all
  then have wb: "wf_bases T" by (simp add: wf_tool_def)
  have bsk: "rns_base (rt_base_Bsk T) = [modulus_29, modulus_37]" using wf_basesD(6) [OF wb] w by simp
  have s: "rns_size (rt_base_B T) = 1" using wf_basesD_sizes(4) [OF wb] w(8) by simp
  then have p: "base_product (rt_base_B T) = 29" using w(8) by (simp add: base_product_def modulus_29_def)
  show thesis
    by (rule that [OF w(1,2)]) (use w b base_product_17_97 [OF b(2,3)] bsk s p wf_basesD_sizes(1,2) [OF wb] in simp_all)
qed

end
