(* ===== verification/Seal_Context.thy ===== *)
theory Seal_Context
  imports Enc_Parms Galois Rns_Init
begin

unbundle bit_operations_syntax

text \<open>
  The class \<open>SEALContext\<close> of \<open>context.h\<close> and \<open>context.cpp\<close> in \<open>heu/library/algorithms/seal_gpu/\<close>: the validation
  of encryption parameters with the precomputation that belongs to them, and the chain of the parameters that remain
  when the last coefficient modulus is dropped, again and again. A pointer to a \<open>ContextData\<close> is the identifier
  under which the map of the context holds it.
\<close>

section \<open>Qualifiers\<close>

datatype ErrorType =
    err_none
  | success
  | invalid_scheme
  | invalid_coeff_modulus_size
  | invalid_coeff_modulus_bit_count
  | invalid_coeff_modulus_no_ntt
  | invalid_poly_modulus_degree
  | invalid_poly_modulus_degree_non_power_of_two
  | invalid_parameters_too_large
  | invalid_parameters_insecure
  | failed_creating_rns_base
  | invalid_plain_modulus_bit_count
  | invalid_plain_modulus_coprimality
  | invalid_plain_modulus_too_large
  | invalid_plain_modulus_nonzero
  | failed_creating_rns_tool

record EncryptionParameterQualifiers =
  parameter_error :: ErrorType
  using_fft :: bool
  using_ntt :: bool
  using_batching :: bool
  using_fast_plain_lift :: bool
  using_descending_modulus_chain :: bool
  sec_level :: SecurityLevel

definition new_qualifiers :: EncryptionParameterQualifiers where
  "new_qualifiers =
     \<lparr>parameter_error = err_none, using_fft = False, using_ntt = False, using_batching = False,
      using_fast_plain_lift = False, using_descending_modulus_chain = False, sec_level = SecurityLevel.none\<rparr>"

definition parametersSet :: "EncryptionParameterQualifiers \<Rightarrow> bool" where
  "parametersSet Q = (parameter_error Q = success)"

fun parameterErrorName :: "ErrorType \<Rightarrow> string" where
  "parameterErrorName err_none = ''none''"
| "parameterErrorName success = ''success''"
| "parameterErrorName invalid_scheme = ''invalid_scheme''"
| "parameterErrorName invalid_coeff_modulus_size = ''invalid_coeff_modulus_size''"
| "parameterErrorName invalid_coeff_modulus_bit_count = ''invalid_coeff_modulus_bit_count''"
| "parameterErrorName invalid_coeff_modulus_no_ntt = ''invalid_coeff_modulus_no_ntt''"
| "parameterErrorName invalid_poly_modulus_degree = ''invalid_poly_modulus_degree''"
| "parameterErrorName invalid_poly_modulus_degree_non_power_of_two = ''invalid_poly_modulus_degree_non_power_of_two''"
| "parameterErrorName invalid_parameters_too_large = ''invalid_parameters_too_large''"
| "parameterErrorName invalid_parameters_insecure = ''invalid_parameters_insecure''"
| "parameterErrorName failed_creating_rns_base = ''failed_creating_rns_base''"
| "parameterErrorName invalid_plain_modulus_bit_count = ''invalid_plain_modulus_bit_count''"
| "parameterErrorName invalid_plain_modulus_coprimality = ''invalid_plain_modulus_coprimality''"
| "parameterErrorName invalid_plain_modulus_too_large = ''invalid_plain_modulus_too_large''"
| "parameterErrorName invalid_plain_modulus_nonzero = ''invalid_plain_modulus_nonzero''"
| "parameterErrorName failed_creating_rns_tool = ''failed_creating_rns_tool''"

fun parameterErrorMessage :: "ErrorType \<Rightarrow> string" where
  "parameterErrorMessage err_none = ''constructed but not yet validated''"
| "parameterErrorMessage success = ''valid''"
| "parameterErrorMessage invalid_scheme = ''scheme must be BFV or CKKS or BGV''"
| "parameterErrorMessage invalid_coeff_modulus_size =
    ''coeff_modulus's primes' count is not bounded by SEAL_COEFF_MOD_COUNT_MIN(MAX)''"
| "parameterErrorMessage invalid_coeff_modulus_bit_count =
    ''coeff_modulus's primes' bit counts are not bounded by SEAL_USER_MOD_BIT_COUNT_MIN(MAX)''"
| "parameterErrorMessage invalid_coeff_modulus_no_ntt =
    ''coeff_modulus's primes are not congruent to 1 modulo (2 * poly_modulus_degree)''"
| "parameterErrorMessage invalid_poly_modulus_degree = ''poly_modulus_degree is not bounded by SEAL_POLY_MOD_DEGREE_MIN(MAX)''"
| "parameterErrorMessage invalid_poly_modulus_degree_non_power_of_two = ''poly_modulus_degree is not a power of two''"
| "parameterErrorMessage invalid_parameters_too_large = ''parameters are too large to fit in size_t type''"
| "parameterErrorMessage invalid_parameters_insecure =
    ''parameters are not compliant with HomomorphicEncryption.org security standard''"
| "parameterErrorMessage failed_creating_rns_base = ''RNSBase cannot be constructed''"
| "parameterErrorMessage invalid_plain_modulus_bit_count =
    ''plain_modulus's bit count is not bounded by SEAL_PLAIN_MOD_BIT_COUNT_MIN(MAX)''"
| "parameterErrorMessage invalid_plain_modulus_coprimality = ''plain_modulus is not coprime to coeff_modulus''"
| "parameterErrorMessage invalid_plain_modulus_too_large = ''plain_modulus is not smaller than coeff_modulus''"
| "parameterErrorMessage invalid_plain_modulus_nonzero = ''plain_modulus is not zero''"
| "parameterErrorMessage failed_creating_rns_tool = ''RNSTool cannot be constructed''"

section \<open>The data of one set of parameters\<close>

record ContextData =
  cd_parms :: EncryptionParameters
  cd_qualifiers :: EncryptionParameterQualifiers
  cd_rns_tool :: "RNSTool option"
  cd_small_ntt_tables :: "NTTTables list"
  cd_plain_ntt_tables :: "NTTTables list"
  cd_galois_tool :: "GaloisTool option"
  cd_total_coeff_modulus :: "u64 list"
  cd_total_coeff_modulus_bit_count :: int
  cd_coeff_div_plain_modulus :: "MultiplyUIntModOperand list"
  cd_plain_upper_half_threshold :: u64
  cd_plain_upper_half_increment :: "u64 list"
  cd_upper_half_threshold :: "u64 list"
  cd_upper_half_increment :: "u64 list"
  cd_coeff_modulus_mod_plain_modulus :: u64
  cd_prev_context_data :: "ParmsID option"
  cd_next_context_data :: "ParmsID option"
  cd_chain_index :: u64

definition new_ContextData :: "EncryptionParameters \<Rightarrow> ContextData" where
  "new_ContextData parms =
     \<lparr>cd_parms = parms, cd_qualifiers = new_qualifiers, cd_rns_tool = None, cd_small_ntt_tables = [],
      cd_plain_ntt_tables = [], cd_galois_tool = None, cd_total_coeff_modulus = [], cd_total_coeff_modulus_bit_count = 0,
      cd_coeff_div_plain_modulus = [], cd_plain_upper_half_threshold = 0, cd_plain_upper_half_increment = [],
      cd_upper_half_threshold = [], cd_upper_half_increment = [], cd_coeff_modulus_mod_plain_modulus = 0,
      cd_prev_context_data = None, cd_next_context_data = None, cd_chain_index = 0\<rparr>"

definition with_error :: "ErrorType \<Rightarrow> ContextData \<Rightarrow> ContextData" where
  "with_error e cd = cd\<lparr>cd_qualifiers := (cd_qualifiers cd)\<lparr>parameter_error := e\<rparr>\<rparr>"

text \<open>The words that one validation draws: in the primality tests, and in the searches for the roots of the three kinds of tables.\<close>

record draws =
  draw_prime :: "u64 \<Rightarrow> nat \<Rightarrow> u64"
  draw_coeff :: "nat \<Rightarrow> nat \<Rightarrow> u32"
  draw_plain :: "nat \<Rightarrow> nat \<Rightarrow> u32"
  draw_tool :: "nat \<Rightarrow> nat \<Rightarrow> u32"

definition SEAL_USER_MOD_BIT_COUNT_MAX :: nat where "SEAL_USER_MOD_BIT_COUNT_MAX = 60"
definition SEAL_USER_MOD_BIT_COUNT_MIN :: nat where "SEAL_USER_MOD_BIT_COUNT_MIN = 2"
definition SEAL_PLAIN_MOD_BIT_COUNT_MAX :: nat where "SEAL_PLAIN_MOD_BIT_COUNT_MAX = SEAL_USER_MOD_BIT_COUNT_MAX"
definition SEAL_PLAIN_MOD_BIT_COUNT_MIN :: nat where "SEAL_PLAIN_MOD_BIT_COUNT_MIN = SEAL_USER_MOD_BIT_COUNT_MIN"

section \<open>The validation\<close>

text \<open>
  Each stage returns the data it has filled in and whether the validation goes on; when it does not, the data carry
  the error.
\<close>

text \<open>The constants of the scaling of plaintexts: the quotient of the moduli and what surrounds it.\<close>

definition plain_constants :: "Modulus list \<Rightarrow> Modulus \<Rightarrow> RNSBase \<Rightarrow> ContextData \<Rightarrow> ContextData res option" where
  "plain_constants coeff_modulus plain_modulus coeff_modulus_base cd =
     (let coeff_modulus_size = length coeff_modulus;
          total = cd_total_coeff_modulus cd;
          wide_plain_modulus = duplicateUintIfNeeded [modulus_value plain_modulus] coeff_modulus_size False
      in case divideUint total wide_plain_modulus of
           None \<Rightarrow> None
         | Some (Inl e) \<Rightarrow> Some (Inl e)
         | Some (Inr (upper_half_increment, temp_coeff_div_plain_modulus)) \<Rightarrow>
             Some (rbind (decompose coeff_modulus_base (Some temp_coeff_div_plain_modulus)) (\<lambda>delta.
                   rbind (decompose coeff_modulus_base (Some upper_half_increment)) (\<lambda>increment.
                   Inr (cd\<lparr>cd_coeff_modulus_mod_plain_modulus := upper_half_increment ! 0,
                          cd_coeff_div_plain_modulus := map (\<lambda>i. set_operand (delta ! i) (rns_base coeff_modulus_base ! i) zero_operand)
                            [0..<coeff_modulus_size],
                          cd_upper_half_increment := increment,
                          cd_plain_upper_half_threshold := drop_bit 1 (modulus_value plain_modulus + 1),
                          cd_plain_upper_half_increment :=
                            (if using_fast_plain_lift (cd_qualifiers cd)
                             then map (\<lambda>m. modulus_value m - modulus_value plain_modulus) coeff_modulus
                             else snd (subUint total wide_plain_modulus))\<rparr>)))))"

definition validate_plain :: "draws \<Rightarrow> nat \<Rightarrow> RNSBase \<Rightarrow> ContextData \<Rightarrow> (bool \<times> ContextData) res option" where
  "validate_plain D coeff_count_power coeff_modulus_base cd =
     (let coeff_modulus = ep_coeff_modulus (cd_parms cd);
          plain_modulus = ep_plain_modulus (cd_parms cd);
          t = modulus_value plain_modulus
      in if drop_bit SEAL_PLAIN_MOD_BIT_COUNT_MAX t \<noteq> 0 \<or> drop_bit (SEAL_PLAIN_MOD_BIT_COUNT_MIN - 1) t = 0
         then Some (Inr (False, with_error invalid_plain_modulus_bit_count cd))
         else if list_ex (\<lambda>m. \<not> areCoprime (modulus_value m) t) coeff_modulus
         then Some (Inr (False, with_error invalid_plain_modulus_coprimality cd))
         else if \<not> isLessThanUint_counts (take (uint64Count plain_modulus) [t]) (cd_total_coeff_modulus cd)
         then Some (Inr (False, with_error invalid_plain_modulus_too_large cd))
         else
           case (case CreateNTTTables (draw_plain D) coeff_count_power [plain_modulus] of
                   Inr tables \<Rightarrow> Inr (True, tables)
                 | Inl (Invalid_argument _) \<Rightarrow> Inr (False, [])
                 | Inl e \<Rightarrow> Inl e) of
             Inl e \<Rightarrow> Some (Inl e)
           | Inr (batching, tables) \<Rightarrow>
               let cd = cd\<lparr>cd_plain_ntt_tables := tables,
                          cd_qualifiers := (cd_qualifiers cd)\<lparr>using_batching := batching,
                            using_fast_plain_lift := list_all (\<lambda>m. modulus_value m > t) coeff_modulus\<rparr>\<rparr>
               in map_option (\<lambda>r. rbind r (\<lambda>cd. Inr (True, cd))) (plain_constants coeff_modulus plain_modulus coeff_modulus_base cd))"

definition validate_ckks :: "ContextData \<Rightarrow> (bool \<times> ContextData) res" where
  "validate_ckks cd =
     (let coeff_modulus = ep_coeff_modulus (cd_parms cd) in
      if \<not> modulus_isZero (ep_plain_modulus (cd_parms cd))
      then Inr (False, with_error invalid_plain_modulus_nonzero cd)
      else
        rbind (rmap (\<lambda>m. rbind (sub_safe uint64_t (uint (modulus_value m)) 2) (\<lambda>d.
                 Inr (multiplyUintMod (barrettReduce64 (push_bit 63 1) m) (word_of_int d) m))) coeff_modulus) (\<lambda>increment.
        Inr (True,
          cd\<lparr>cd_qualifiers := (cd_qualifiers cd)\<lparr>using_batching := True, using_fast_plain_lift := False\<rparr>,
             cd_plain_upper_half_threshold := push_bit 63 1,
             cd_plain_upper_half_increment := increment,
             cd_upper_half_threshold := rightShiftUint (snd (incrementUint (cd_total_coeff_modulus cd))) 1\<rparr>)))"

definition validate_scheme :: "draws \<Rightarrow> nat \<Rightarrow> RNSBase \<Rightarrow> ContextData \<Rightarrow> (bool \<times> ContextData) res option" where
  "validate_scheme D coeff_count_power coeff_modulus_base cd =
     (case ep_scheme (cd_parms cd) of
        bfv \<Rightarrow> validate_plain D coeff_count_power coeff_modulus_base cd
      | bgv \<Rightarrow> validate_plain D coeff_count_power coeff_modulus_base cd
      | ckks \<Rightarrow> Some (validate_ckks cd)
      | scheme_none \<Rightarrow> Some (Inr (False, with_error invalid_scheme cd)))"

text \<open>The end of the validation; every exception of the constructor of \<open>RNSTool\<close> is caught.\<close>

definition validate_tools :: "draws \<Rightarrow> nat \<Rightarrow> RNSBase \<Rightarrow> ContextData \<Rightarrow> ContextData res option" where
  "validate_tools D coeff_count_power coeff_modulus_base cd =
     (let coeff_modulus = ep_coeff_modulus (cd_parms cd) in
      case RNSTool_initialize (draw_prime D) (draw_tool D) (ep_poly_modulus_degree (cd_parms cd))
             coeff_modulus_base (ep_plain_modulus (cd_parms cd)) of
        None \<Rightarrow> None
      | Some (Inl e) \<Rightarrow> Some (Inr (with_error failed_creating_rns_tool cd))
      | Some (Inr T) \<Rightarrow>
          Some (rbind (GaloisTool_initialize (int coeff_count_power)) (\<lambda>G.
            Inr (cd\<lparr>cd_rns_tool := Some T,
                   cd_qualifiers := (cd_qualifiers cd)\<lparr>using_descending_modulus_chain :=
                     list_all (\<lambda>i. modulus_value (coeff_modulus ! i) > modulus_value (coeff_modulus ! (i + 1)))
                       [0..<length coeff_modulus - 1]\<rparr>,
                   cd_galois_tool := Some G\<rparr>))))"

text \<open>The base and the tables of the coefficient moduli, then the stages that depend on the scheme.\<close>

definition validate_bases :: "draws \<Rightarrow> nat \<Rightarrow> ContextData \<Rightarrow> ContextData res option" where
  "validate_bases D coeff_count_power cd =
     (let coeff_modulus = ep_coeff_modulus (cd_parms cd) in
      case new_RNSBase coeff_modulus of
        Inl (Invalid_argument _) \<Rightarrow> Some (Inr (with_error failed_creating_rns_base cd))
      | Inl e \<Rightarrow> Some (Inl e)
      | Inr coeff_modulus_base \<Rightarrow>
          (case CreateNTTTables (draw_coeff D) coeff_count_power coeff_modulus of
             Inl (Invalid_argument _) \<Rightarrow>
               Some (Inr (with_error invalid_coeff_modulus_no_ntt (cd\<lparr>cd_qualifiers := (cd_qualifiers cd)\<lparr>using_ntt := False\<rparr>\<rparr>)))
           | Inl e \<Rightarrow> Some (Inl e)
           | Inr tables \<Rightarrow>
               (case validate_scheme D coeff_count_power coeff_modulus_base
                       (cd\<lparr>cd_small_ntt_tables := tables, cd_qualifiers := (cd_qualifiers cd)\<lparr>using_ntt := True\<rparr>\<rparr>) of
                  None \<Rightarrow> None
                | Some (Inl e) \<Rightarrow> Some (Inl e)
                | Some (Inr (False, cd)) \<Rightarrow> Some (Inr cd)
                | Some (Inr (True, cd)) \<Rightarrow> validate_tools D coeff_count_power coeff_modulus_base cd)))"

definition validate :: "draws \<Rightarrow> SecurityLevel \<Rightarrow> EncryptionParameters \<Rightarrow> ContextData res option" where
  "validate D sec parms =
     (let cd = with_error success (new_ContextData parms);
          coeff_modulus = ep_coeff_modulus parms;
          coeff_modulus_size = length coeff_modulus;
          poly_modulus_degree = ep_poly_modulus_degree parms
      in if ep_scheme parms = scheme_none then Some (Inr (with_error invalid_scheme cd))
         else if coeff_modulus_size > SEAL_COEFF_MOD_COUNT_MAX \<or> coeff_modulus_size < SEAL_COEFF_MOD_COUNT_MIN
         then Some (Inr (with_error invalid_coeff_modulus_size cd))
         else if list_ex (\<lambda>m. drop_bit SEAL_USER_MOD_BIT_COUNT_MAX (modulus_value m) \<noteq> 0 \<or>
                   drop_bit (SEAL_USER_MOD_BIT_COUNT_MIN - 1) (modulus_value m) = 0) coeff_modulus
         then Some (Inr (with_error invalid_coeff_modulus_bit_count cd))
         else
           let total = multiplyManyUint64 (map modulus_value coeff_modulus);
               bits = getSignificantBitCountUint total;
               cd = cd\<lparr>cd_total_coeff_modulus := total, cd_total_coeff_modulus_bit_count := bits\<rparr>
           in if poly_modulus_degree < SEAL_POLY_MOD_DEGREE_MIN \<or> poly_modulus_degree > SEAL_POLY_MOD_DEGREE_MAX
              then Some (Inr (with_error invalid_poly_modulus_degree cd))
              else
                let coeff_count_power = getPowerOfTwo poly_modulus_degree in
                if coeff_count_power < 0
                then Some (Inr (with_error invalid_poly_modulus_degree_non_power_of_two cd))
                else case productFitsIn uint64_t (int coeff_modulus_size) (uint poly_modulus_degree) of
                       Inl e \<Rightarrow> Some (Inl e)
                     | Inr fits \<Rightarrow>
                         if \<not> fits then Some (Inr (with_error invalid_parameters_too_large cd))
                         else
                           let insecure = bits > MaxBitCount poly_modulus_degree sec;
                               cd = cd\<lparr>cd_qualifiers := (cd_qualifiers cd)\<lparr>using_fft := True,
                                      sec_level := (if insecure then SecurityLevel.none else sec)\<rparr>\<rparr>
                           in if insecure \<and> sec \<noteq> SecurityLevel.none
                              then Some (Inr (with_error invalid_parameters_insecure cd))
                              else validate_bases D (nat coeff_count_power) cd)"

section \<open>The chain\<close>

record SEALContext =
  ctx_key_parms_id :: ParmsID
  ctx_first_parms_id :: ParmsID
  ctx_last_parms_id :: ParmsID
  ctx_context_data_map :: "(ParmsID \<times> ContextData) list"
  ctx_sec_level :: SecurityLevel
  ctx_using_keyswitching :: bool

definition getContextData :: "SEALContext \<Rightarrow> ParmsID \<Rightarrow> ContextData option" where
  "getContextData c parms_id = map_of (ctx_context_data_map c) parms_id"

definition keyContextData :: "SEALContext \<Rightarrow> ContextData option" where
  "keyContextData c = map_of (ctx_context_data_map c) (ctx_key_parms_id c)"

definition firstContextData :: "SEALContext \<Rightarrow> ContextData option" where
  "firstContextData c = map_of (ctx_context_data_map c) (ctx_first_parms_id c)"

definition lastContextData :: "SEALContext \<Rightarrow> ContextData option" where
  "lastContextData c = map_of (ctx_context_data_map c) (ctx_last_parms_id c)"

definition context_parametersSet :: "SEALContext \<Rightarrow> bool" where
  "context_parametersSet c =
     (case firstContextData c of None \<Rightarrow> False | Some cd \<Rightarrow> parametersSet (cd_qualifiers cd))"

definition context_parameterErrorName :: "SEALContext \<Rightarrow> string" where
  "context_parameterErrorName c =
     (case firstContextData c of None \<Rightarrow> ''SEALContext is empty'' | Some cd \<Rightarrow> parameterErrorName (parameter_error (cd_qualifiers cd)))"

definition context_parameterErrorMessage :: "SEALContext \<Rightarrow> string" where
  "context_parameterErrorMessage c =
     (case firstContextData c of None \<Rightarrow> ''SEALContext is empty'' | Some cd \<Rightarrow> parameterErrorMessage (parameter_error (cd_qualifiers cd)))"

text \<open>\<open>emplace\<close> leaves an entry that is there alone; \<open>change\<close> writes through the pointer of an entry.\<close>

definition emplace :: "'k \<Rightarrow> 'v \<Rightarrow> ('k \<times> 'v) list \<Rightarrow> ('k \<times> 'v) list" where
  "emplace k v m = (if map_of m k = None then m @ [(k, v)] else m)"

definition change :: "'k \<Rightarrow> ('v \<Rightarrow> 'v) \<Rightarrow> ('k \<times> 'v) list \<Rightarrow> ('k \<times> 'v) list" where
  "change k f m = map (\<lambda>(k', v). if k' = k then (k', f v) else (k', v)) m"

text \<open>\<open>D n\<close> are the words drawn by the validation of parameters with \<open>n\<close> coefficient moduli.\<close>

definition createNextContextData ::
    "blake2b_state \<Rightarrow> (nat \<Rightarrow> draws) \<Rightarrow> SEALContext \<Rightarrow> ParmsID \<Rightarrow> (ParmsID \<times> SEALContext) res option" where
  "createNextContextData S0 D c prev_parms_id =
     (case map_of (ctx_context_data_map c) prev_parms_id of
        None \<Rightarrow> Some (Inl (Out_of_range ''_Map_base::at''))
      | Some prev \<Rightarrow>
          let next_coeff_modulus = butlast (ep_coeff_modulus (cd_parms prev)) in
          case setCoeffModulus S0 next_coeff_modulus (cd_parms prev) of
            Inl e \<Rightarrow> Some (Inl e)
          | Inr next_parms \<Rightarrow>
              let next_parms_id = ep_parms_id next_parms in
              (case validate (D (length next_coeff_modulus)) (ctx_sec_level c) next_parms of
                 None \<Rightarrow> None
               | Some (Inl e) \<Rightarrow> Some (Inl e)
               | Some (Inr next) \<Rightarrow>
                   if \<not> parametersSet (cd_qualifiers next) then Some (Inr (parmsIDZero, c))
                   else
                     let m = emplace next_parms_id next (ctx_context_data_map c);
                         m = change prev_parms_id (\<lambda>cd. cd\<lparr>cd_next_context_data := Some next_parms_id\<rparr>) m;
                         m = change next_parms_id (\<lambda>cd. cd\<lparr>cd_prev_context_data := Some prev_parms_id\<rparr>) m
                     in Some (Inr (next_parms_id, c\<lparr>ctx_context_data_map := m\<rparr>))))"

text \<open>The expansion of the chain. It ends when one modulus is left or the parameters are no longer valid.\<close>

partial_function (option) expand_chain ::
    "blake2b_state \<Rightarrow> (nat \<Rightarrow> draws) \<Rightarrow> ParmsID \<Rightarrow> SEALContext \<Rightarrow> SEALContext res option" where
  "expand_chain S0 D prev_parms_id c =
     (case map_of (ctx_context_data_map c) prev_parms_id of
        None \<Rightarrow> Some (Inl (Out_of_range ''_Map_base::at''))
      | Some prev \<Rightarrow>
          if length (ep_coeff_modulus (cd_parms prev)) > 1 then
            Option.bind (createNextContextData S0 D c prev_parms_id) (\<lambda>r. case r of
              Inl e \<Rightarrow> Some (Inl e)
            | Inr (next_parms_id, c) \<Rightarrow>
                if next_parms_id = parmsIDZero then Some (Inr c)
                else expand_chain S0 D next_parms_id (c\<lparr>ctx_last_parms_id := next_parms_id\<rparr>))
          else Some (Inr c))"

text \<open>The indices: the first entry of the chain gets the greatest. A chain with a cycle would have no end.\<close>

partial_function (option) index_chain ::
    "ParmsID option \<Rightarrow> u64 \<Rightarrow> (ParmsID \<times> ContextData) list \<Rightarrow> (ParmsID \<times> ContextData) list option" where
  "index_chain p parms_count m =
     (case p of
        None \<Rightarrow> Some m
      | Some parms_id \<Rightarrow>
          let parms_count = parms_count - 1;
              m = change parms_id (\<lambda>cd. cd\<lparr>cd_chain_index := parms_count\<rparr>) m
          in index_chain (Option.bind (map_of m parms_id) cd_next_context_data) parms_count m)"

definition set_indices :: "SEALContext \<Rightarrow> SEALContext option" where
  "set_indices c =
     map_option (\<lambda>m. c\<lparr>ctx_context_data_map := m\<rparr>)
       (index_chain (Some (ctx_key_parms_id c)) (of_nat (length (ctx_context_data_map c))) (ctx_context_data_map c))"

text \<open>The first step of the chain, from the parameters of the keys to those of the data.\<close>

definition first_step :: "blake2b_state \<Rightarrow> (nat \<Rightarrow> draws) \<Rightarrow> SEALContext \<Rightarrow> ContextData \<Rightarrow> SEALContext res option" where
  "first_step S0 D c cd =
     (if \<not> parametersSet (cd_qualifiers cd) \<or> length (ep_coeff_modulus (cd_parms cd)) = 1
      then Some (Inr (c\<lparr>ctx_first_parms_id := ctx_key_parms_id c\<rparr>))
      else map_option (\<lambda>r. rbind r (\<lambda>(next_parms_id, c). Inr (c\<lparr>ctx_first_parms_id :=
             (if next_parms_id = parmsIDZero then ctx_key_parms_id c else next_parms_id)\<rparr>)))
             (createNextContextData S0 D c (ctx_key_parms_id c)))"

text \<open>\<open>D i n\<close> are the words drawn by the validation of \<open>n\<close> moduli for the keys (0), for the data (1) and in the expansion (2).\<close>

definition new_SEALContext ::
    "blake2b_state \<Rightarrow> (nat \<Rightarrow> nat \<Rightarrow> draws) \<Rightarrow> EncryptionParameters \<Rightarrow> bool \<Rightarrow> SecurityLevel \<Rightarrow> SEALContext res option" where
  "new_SEALContext S0 D parms expand_mod_chain sec =
     (let parms = (if ep_random_generator parms = None then setRandomGenerator (Some DefaultFactory) parms else parms)
      in case validate (D 0 (length (ep_coeff_modulus parms))) sec parms of
           None \<Rightarrow> None
         | Some (Inl e) \<Rightarrow> Some (Inl e)
         | Some (Inr cd) \<Rightarrow>
             let key = ep_parms_id parms;
                 c = \<lparr>ctx_key_parms_id = key, ctx_first_parms_id = [], ctx_last_parms_id = [],
                      ctx_context_data_map = [(key, cd)], ctx_sec_level = sec, ctx_using_keyswitching = False\<rparr>
             in Option.bind (first_step S0 (D 1) c cd) (\<lambda>r. case r of
                  Inl e \<Rightarrow> Some (Inl e)
                | Inr c \<Rightarrow>
                    let c = c\<lparr>ctx_last_parms_id := ctx_first_parms_id c,
                              ctx_using_keyswitching := (ctx_first_parms_id c \<noteq> ctx_key_parms_id c)\<rparr>
                    in Option.bind (if expand_mod_chain \<and> context_parametersSet c
                                    then expand_chain S0 (D 2) (ctx_first_parms_id c) c else Some (Inr c)) (\<lambda>r. case r of
                         Inl e \<Rightarrow> Some (Inl e)
                       | Inr c \<Rightarrow> map_option Inr (set_indices c))))"

end
