(* ===== verification/Plaintexts.thy ===== *)
theory Plaintexts
  imports Seal_Context
begin

unbundle bit_operations_syntax

text \<open>
  The growing arrays of \<open>utils/hostarray.h\<close>, the class \<open>Plaintext\<close> of \<open>plaintext.h\<close> and the checks of plaintexts in
  \<open>valcheck.cpp\<close>, in \<open>heu/library/algorithms/seal_gpu/\<close>. The scale, a \<open>double\<close>, is kept as its 64 bits.
\<close>

section \<open>Growing arrays\<close>

text \<open>An array with the memory it owns, whose length is the capacity, and the number of elements in use.\<close>

record 'a HostDynamicArray =
  hd_internal :: "'a list"
  hd_size :: nat

definition hd_capacity :: "('a, 'b) HostDynamicArray_scheme \<Rightarrow> nat" where
  "hd_capacity a = length (hd_internal a)"

definition new_HostDynamicArray :: "nat \<Rightarrow> 'a::zero HostDynamicArray" where
  "new_HostDynamicArray len = \<lparr>hd_internal = replicate len 0, hd_size = len\<rparr>"

definition new_HostDynamicArray_capacity :: "nat \<Rightarrow> nat \<Rightarrow> 'a::zero HostDynamicArray" where
  "new_HostDynamicArray_capacity capacity used = \<lparr>hd_internal = replicate capacity 0, hd_size = used\<rparr>"

definition hd_move :: "nat \<Rightarrow> 'a::zero HostDynamicArray \<Rightarrow> 'a HostDynamicArray" where
  "hd_move newCapacity a =
     (if newCapacity = length (hd_internal a) then a
      else let used = (if newCapacity < hd_size a then newCapacity else hd_size a)
           in \<lparr>hd_internal = take used (hd_internal a) @ replicate (newCapacity - used) 0, hd_size = used\<rparr>)"

definition hd_reserve :: "nat \<Rightarrow> 'a::zero HostDynamicArray \<Rightarrow> 'a HostDynamicArray" where
  "hd_reserve newCapacity a = (if hd_capacity a \<ge> newCapacity then a else hd_move newCapacity a)"

definition hd_shrinkToFit :: "'a::zero HostDynamicArray \<Rightarrow> 'a HostDynamicArray" where
  "hd_shrinkToFit a = (if hd_capacity a = hd_size a then a else hd_move (hd_size a) a)"

definition hd_release :: "'a HostDynamicArray \<Rightarrow> 'a HostDynamicArray" where
  "hd_release a = \<lparr>hd_internal = [], hd_size = 0\<rparr>"

definition hd_resize :: "nat \<Rightarrow> 'a::zero HostDynamicArray \<Rightarrow> 'a HostDynamicArray" where
  "hd_resize newSize a =
     (let a = (if newSize > hd_capacity a then hd_move newSize a else a) in a\<lparr>hd_size := newSize\<rparr>)"

section \<open>The class\<close>

record Plaintext =
  pt_parms_id :: ParmsID
  pt_coeff_count :: nat
  pt_scale :: u64
  pt_data :: "u64 HostDynamicArray"

text \<open>\<open>1.0\<close> as the bits of a \<open>double\<close>.\<close>

definition scale_one :: u64 where "scale_one = 4607182418800017408"

definition new_Plaintext :: Plaintext where
  "new_Plaintext = \<lparr>pt_parms_id = parmsIDZero, pt_coeff_count = 0, pt_scale = scale_one,
     pt_data = \<lparr>hd_internal = [], hd_size = 0\<rparr>\<rparr>"

definition new_Plaintext_count :: "nat \<Rightarrow> Plaintext" where
  "new_Plaintext_count coeff_count =
     new_Plaintext\<lparr>pt_coeff_count := coeff_count, pt_data := new_HostDynamicArray coeff_count\<rparr>"

definition new_Plaintext_capacity :: "nat \<Rightarrow> nat \<Rightarrow> Plaintext" where
  "new_Plaintext_capacity capacity coeff_count =
     new_Plaintext\<lparr>pt_coeff_count := coeff_count, pt_data := new_HostDynamicArray_capacity capacity coeff_count\<rparr>"

definition plain_isNttForm :: "Plaintext \<Rightarrow> bool" where
  "plain_isNttForm p = (pt_parms_id p \<noteq> parmsIDZero)"

definition plain_reserve :: "nat \<Rightarrow> Plaintext \<Rightarrow> Plaintext res" where
  "plain_reserve capacity p =
     (if plain_isNttForm p then Inl (Logic_error ''cannot reserve for an NTT transformed Plaintext'')
      else let d = hd_reserve capacity (pt_data p) in Inr (p\<lparr>pt_data := d, pt_coeff_count := hd_size d\<rparr>))"

definition plain_shrinkToFit :: "Plaintext \<Rightarrow> Plaintext" where
  "plain_shrinkToFit p = p\<lparr>pt_data := hd_shrinkToFit (pt_data p)\<rparr>"

definition plain_release :: "Plaintext \<Rightarrow> Plaintext" where
  "plain_release p = p\<lparr>pt_parms_id := parmsIDZero, pt_coeff_count := 0, pt_scale := scale_one, pt_data := hd_release (pt_data p)\<rparr>"

definition plain_resize :: "nat \<Rightarrow> Plaintext \<Rightarrow> Plaintext res" where
  "plain_resize coeff_count p =
     (if plain_isNttForm p then Inl (Logic_error ''cannot reserve for an NTT transformed Plaintext'')
      else Inr (p\<lparr>pt_data := hd_resize coeff_count (pt_data p), pt_coeff_count := coeff_count\<rparr>))"

definition plain_assign :: "u64 \<Rightarrow> Plaintext \<Rightarrow> Plaintext" where
  "plain_assign const_coeff p =
     (let d = hd_resize 1 (pt_data p)
      in p\<lparr>pt_data := d\<lparr>hd_internal := (hd_internal d)[0 := const_coeff]\<rparr>, pt_coeff_count := 1, pt_parms_id := parmsIDZero\<rparr>)"

text \<open>
  \<open>setZero\<close> on a range, on the coefficients from a place on, and on all. The end of the range is computed in 64 bits;
  a range that passes the check and leaves the memory of the array is undefined behaviour.
\<close>

definition zero_range :: "nat \<Rightarrow> nat \<Rightarrow> 'a::zero list \<Rightarrow> 'a list" where
  "zero_range start stop xs = map (\<lambda>i. if start \<le> i \<and> i < stop then 0 else xs ! i) [0..<length xs]"

definition plain_setZero_range :: "u64 \<Rightarrow> u64 \<Rightarrow> Plaintext \<Rightarrow> Plaintext res option" where
  "plain_setZero_range start_coeff len p =
     (if len = 0 then Some (Inr p)
      else if unat (start_coeff + len - 1) \<ge> pt_coeff_count p
      then Some (Inl (Out_of_range ''length must be non-negative and start_coeff + length - 1 must be within [0, coeff_count)''))
      else if unat start_coeff + unat len > hd_capacity (pt_data p) then None
      else Some (Inr (p\<lparr>pt_data := (pt_data p)\<lparr>hd_internal :=
             zero_range (unat start_coeff) (unat start_coeff + unat len) (hd_internal (pt_data p))\<rparr>\<rparr>)))"

definition plain_setZero_from :: "nat \<Rightarrow> Plaintext \<Rightarrow> Plaintext res" where
  "plain_setZero_from start_coeff p =
     (if start_coeff \<ge> pt_coeff_count p then Inl (Out_of_range ''start_coeff must be within [0, coeff_count)'')
      else Inr (p\<lparr>pt_data := (pt_data p)\<lparr>hd_internal :=
             zero_range start_coeff (hd_size (pt_data p)) (hd_internal (pt_data p))\<rparr>\<rparr>))"

definition plain_setZero :: "Plaintext \<Rightarrow> Plaintext" where
  "plain_setZero p = p\<lparr>pt_data := (pt_data p)\<lparr>hd_internal := zero_range 0 (hd_size (pt_data p)) (hd_internal (pt_data p))\<rparr>\<rparr>"

text \<open>The pointer to a coefficient, as its index; \<open>None\<close> is the null pointer.\<close>

definition plain_data_at :: "nat \<Rightarrow> Plaintext \<Rightarrow> nat option res" where
  "plain_data_at coeff_index p =
     (if pt_coeff_count p = 0 then Inr None
      else if coeff_index \<ge> pt_coeff_count p then Inl (Out_of_range ''coeff_index must be within [0, coeff_count)'')
      else Inr (Some coeff_index))"

definition plain_isZero :: "Plaintext \<Rightarrow> bool" where
  "plain_isZero p = (pt_coeff_count p = 0 \<or> list_all (\<lambda>x. x = 0) (take (hd_size (pt_data p)) (hd_internal (pt_data p))))"

definition plain_significantCoeffCount :: "Plaintext \<Rightarrow> nat" where
  "plain_significantCoeffCount p =
     (if pt_coeff_count p = 0 then 0 else getSignificantUint64CountUint (take (pt_coeff_count p) (hd_internal (pt_data p))))"

definition plain_nonzeroCoeffCount :: "Plaintext \<Rightarrow> nat" where
  "plain_nonzeroCoeffCount p =
     (if pt_coeff_count p = 0 then 0 else getNonzeroUint64CountUint (take (pt_coeff_count p) (hd_internal (pt_data p))))"

text \<open>The comparison; \<open>close\<close> is the comparison of the scales, which the code makes in floating point.\<close>

definition plain_eq :: "(u64 \<Rightarrow> u64 \<Rightarrow> bool) \<Rightarrow> Plaintext \<Rightarrow> Plaintext \<Rightarrow> bool" where
  "plain_eq close p compare =
     (let sig_coeff_count = plain_significantCoeffCount p;
          sig_coeff_count_compare = plain_significantCoeffCount compare;
          d = take (hd_size (pt_data p)) (hd_internal (pt_data p));
          d' = take (hd_size (pt_data compare)) (hd_internal (pt_data compare));
          parms_id_compare = (plain_isNttForm p \<and> plain_isNttForm compare \<and> pt_parms_id p = pt_parms_id compare) \<or>
            (\<not> plain_isNttForm p \<and> \<not> plain_isNttForm compare)
      in parms_id_compare \<and> sig_coeff_count = sig_coeff_count_compare \<and>
         take sig_coeff_count (hd_internal (pt_data p)) = take sig_coeff_count (hd_internal (pt_data compare)) \<and>
         list_all (\<lambda>x. x = 0) (drop sig_coeff_count d) \<and> list_all (\<lambda>x. x = 0) (drop sig_coeff_count d') \<and>
         close (pt_scale p) (pt_scale compare))"

section \<open>Validity\<close>

text \<open>The checks use the context only after \<open>parametersSet\<close>, which finds the first context data.\<close>

definition plain_isMetadataValidFor :: "Plaintext \<Rightarrow> SEALContext \<Rightarrow> bool \<Rightarrow> bool res" where
  "plain_isMetadataValidFor p context allow_pure_key_levels =
     (case firstContextData context of
        None \<Rightarrow> Inr False
      | Some first \<Rightarrow>
          if \<not> context_parametersSet context then Inr False
          else if plain_isNttForm p then
            (case getContextData context (pt_parms_id p) of
               None \<Rightarrow> Inr False
             | Some cd \<Rightarrow>
                 let is_parms_pure_key = cd_chain_index cd > cd_chain_index first in
                 if \<not> allow_pure_key_levels \<and> is_parms_pure_key then Inr False
                 else rbind (mul_safe uint64_t (int (length (ep_coeff_modulus (cd_parms cd))))
                               (uint (ep_poly_modulus_degree (cd_parms cd)))) (\<lambda>n.
                      Inr (n = int (pt_coeff_count p))))
          else Inr (pt_coeff_count p \<le> unat (ep_poly_modulus_degree (cd_parms first))))"

definition plain_isBufferValid :: "Plaintext \<Rightarrow> bool" where
  "plain_isBufferValid p = (pt_coeff_count p = hd_size (pt_data p))"

definition plain_isDataValidFor :: "Plaintext \<Rightarrow> SEALContext \<Rightarrow> bool res" where
  "plain_isDataValidFor p context =
     rbind (plain_isMetadataValidFor p context False) (\<lambda>ok.
       if \<not> ok then Inr False
       else if plain_isNttForm p then
         (case getContextData context (pt_parms_id p) of
            None \<Rightarrow> Inr False
          | Some cd \<Rightarrow>
              let n = unat (ep_poly_modulus_degree (cd_parms cd)) in
              Inr (list_all (\<lambda>j. list_all (\<lambda>x. x < modulus_value (ep_coeff_modulus (cd_parms cd) ! j))
                     (take n (drop (j * n) (hd_internal (pt_data p))))) [0..<length (ep_coeff_modulus (cd_parms cd))]))
       else
         (case firstContextData context of
            None \<Rightarrow> Inr False
          | Some first \<Rightarrow>
              Inr (list_all (\<lambda>x. x < modulus_value (ep_plain_modulus (cd_parms first)))
                     (take (pt_coeff_count p) (hd_internal (pt_data p))))))"

definition plain_isValidFor :: "Plaintext \<Rightarrow> SEALContext \<Rightarrow> bool res" where
  "plain_isValidFor p context =
     (if \<not> plain_isBufferValid p then Inr False else plain_isDataValidFor p context)"

end
