(* ===== verification/Rns_Behz.thy ===== *)
theory Rns_Behz
  imports Rns_Init
begin

unbundle bit_operations_syntax

text \<open>
  What the changes of base, the divisions and the scaled decryption of \<open>RNSTool\<close> compute, for every tool that keeps the
  invariant. The numbers behind the residues are arbitrary integers; the approximate conversions
  add a small multiple of the product of the first base, and the statements say how the operations keep it small or remove it.
\<close>

section \<open>The conversion of residues\<close>

text \<open>The residues of the numbers \<open>X\<close> stand in the array from the place \<open>off\<close> on.\<close>

definition residues :: "RNSBase \<Rightarrow> nat \<Rightarrow> (nat \<Rightarrow> int) \<Rightarrow> u64 list \<Rightarrow> nat \<Rightarrow> bool" where
  "residues b n X a off \<longleftrightarrow>
     (\<forall>i<rns_size b. \<forall>j<n. uint (a ! (off + (i * n + j))) = X j mod modi (rns_base b) i)"

lemma rns_poly_residues: "rns_poly b n X a \<longleftrightarrow> length a = n * rns_size b \<and> residues b n X a 0"
  by (simp add: rns_poly_def residues_def)

text \<open>The number that the fast conversion represents, and the multiple of the product that it adds.\<close>

definition fast_number :: "RNSBase \<Rightarrow> u64 list \<Rightarrow> nat \<Rightarrow> nat \<Rightarrow> int" where
  "fast_number b a n j = int (crt_sum (modn (rns_base b)) (rns_size b) (crt_digit b (column a n (rns_size b) j)))"

definition excess :: "RNSBase \<Rightarrow> u64 list \<Rightarrow> nat \<Rightarrow> nat \<Rightarrow> int" where
  "excess b a n j = fast_number b a n j div base_product b"

lemma fast_number_value:
  assumes b: "wf_rns b" and a: "residues b n X a 0" and j: "j < n"
  shows "fast_number b a n j = X j mod base_product b + excess b a n j * base_product b"
    "0 \<le> excess b a n j" "excess b a n j < int (rns_size b)"
proof -
  let ?Q = "crt_prod (modn (rns_base b)) (rns_size b)" and ?xs = "column a n (rns_size b) j"
  note Q = base_product_pos [OF b]
  have r: "rns_number b ?xs = nat (X j mod base_product b)"
  proof (rule rns_number_unique [OF b])
    show "nat (X j mod base_product b) < ?Q" using Q by (simp add: nat_less_iff base_product_def)
    fix i assume i: "i < rns_size b"
    have d: "modi (rns_base b) i dvd base_product b"
      unfolding base_product_def modn_modi [symmetric] by (rule of_nat_dvd_iff [THEN iffD2], rule crt_prod_dvd [OF i])
    have "int (nat (X j mod base_product b) mod modn (rns_base b) i) = X j mod modi (rns_base b) i"
      using Q d by (simp add: zmod_int mod_mod_cancel)
    moreover have "int (unat (?xs ! i) mod modn (rns_base b) i) = X j mod modi (rns_base b) i"
      using a i j by (simp add: zmod_int column_def residues_def)
    ultimately show "nat (X j mod base_product b) mod modn (rns_base b) i = unat (?xs ! i) mod modn (rns_base b) i"
      by (simp only: of_nat_eq_iff [where 'a = int, symmetric])
  qed
  note s = crt_sum_number [OF b, of ?xs]
  have e: "excess b a n j = int (crt_sum (modn (rns_base b)) (rns_size b) (crt_digit b ?xs) div ?Q)"
    by (simp add: excess_def fast_number_def base_product_def zdiv_int)
  show "fast_number b a n j = X j mod base_product b + excess b a n j * base_product b"
    using arg_cong [OF s(1), of int] r Q unfolding e by (simp add: fast_number_def base_product_def)
  show "0 \<le> excess b a n j" "excess b a n j < int (rns_size b)" unfolding e using s(2) by simp_all
qed

lemma fastConvertArray_rns:
  assumes c: "wf_converter c" and out: "length out = n * rns_size (bc_obase c)"
  shows "rns_poly (bc_obase c) n (fast_number (bc_ibase c) a n) (fastConvertArray c a n out)"
proof -
  note v = fastConvertArray_value [OF c refl out, of a]
  have "uint (fastConvertArray c a n out ! (i * n + j)) = fast_number (bc_ibase c) a n j mod modi (rns_base (bc_obase c)) i"
    if "i < rns_size (bc_obase c)" "j < n" for i j
    using arg_cong [of _ _ int] v that unfolding fast_number_def modn_modi [symmetric] by (metis uint_nat zmod_int)
  then show ?thesis using v by (simp add: rns_poly_def)
qed

section \<open>Arithmetic on residues\<close>

lemma exact_quotient:
  assumes "eqm q (inv_d * d) 1" "eqm q z (N * d)"
  shows "eqm q (z * inv_d) N"
proof -
  have "eqm q (z * inv_d) (N * d * inv_d)" by (intro eqm_mult assms(2) eqm_refl)
  also have "N * d * inv_d = N * (inv_d * d)" by simp
  also have "eqm q \<dots> (N * 1)" by (intro eqm_mult assms(1) eqm_refl)
  finally show ?thesis by simp
qed

lemma lazy_sub_int:
  assumes "wf_modulus b" "uint x < uint (mod_value b)" "uint y \<le> uint (mod_value b)"
  shows "uint (x + (mod_value b - y)) = uint x + (uint (mod_value b) - uint y)"
proof -
  note m = wf_modulus_int [OF assms(1)]
  have "0 \<le> uint x" "0 \<le> uint y" by simp_all
  then have "(uint (mod_value b) - uint y) mod 18446744073709551616 = uint (mod_value b) - uint y"
    "(uint x + (uint (mod_value b) - uint y)) mod 18446744073709551616 = uint x + (uint (mod_value b) - uint y)"
    using m assms(2,3) by (intro mod_pos_pos_trivial; linarith)+
  then show ?thesis by (simp add: uint_word_ariths)
qed

text \<open>The parts of an array, computed one by one from the parts of another.\<close>

lemma parts_loop_rns:
  assumes len: "length xs = n * rns_size b"
    and f: "\<And>i ys. i < rns_size b \<Longrightarrow> length ys = n \<Longrightarrow> length (f i ys) = n"
    and v: "\<And>i j. i < rns_size b \<Longrightarrow> j < n \<Longrightarrow> uint (f i (poly_slice n i xs) ! j) = X j mod modi (rns_base b) i"
  shows "rns_poly b n X (parts_loop f n (rns_size b) 0 xs)"
proof -
  let ?r = "parts_loop f n (rns_size b) 0 xs"
  have s: "length ?r = n * rns_size b \<and> (\<forall>i<rns_size b. poly_slice n i ?r =
      (if 0 \<le> i \<and> i < 0 + rns_size b then f i (poly_slice n i xs) else poly_slice n i xs))"
    by (rule parts_loop_slices [OF f len]) simp_all
  have "uint (?r ! (i * n + j)) = X j mod modi (rns_base b) i" if "i < rns_size b" "j < n" for i j
    using s slice_at [of ?r n "rns_size b" i j] v that by simp
  then show ?thesis using s by (simp add: rns_poly_def)
qed

lemma convertsD:
  assumes "converts c b ms" "length out = n * length ms"
  shows "i < length ms \<Longrightarrow> j < n \<Longrightarrow> uint (fastConvertArray c a n out ! (i * n + j)) = fast_number b a n j mod modi ms i"
    "length (fastConvertArray c a n out) = n * length ms"
proof -
  have c: "wf_converter c" "bc_ibase c = b" "rns_base (bc_obase c) = ms" using assms(1) by (simp_all add: converts_def)
  have "rns_size (bc_obase c) = length ms" using wf_rnsD(1) [OF wf_converterD(2) [OF c(1)] refl refl] c(3) by simp
  then have "rns_poly (bc_obase c) n (fast_number b a n) (fastConvertArray c a n out)"
    using fastConvertArray_rns [OF c(1), of out n a] assms(2) c(2) by simp
  then show "i < length ms \<Longrightarrow> j < n \<Longrightarrow> uint (fastConvertArray c a n out ! (i * n + j)) = fast_number b a n j mod modi ms i"
    "length (fastConvertArray c a n out) = n * length ms"
    using \<open>rns_size (bc_obase c) = length ms\<close> c(3) by (simp_all add: rns_poly_def)
qed

section \<open>The division by the product\<close>

lemma floor_coeff:
  assumes b: "wf_modulus b" and x: "uint x = X mod uint (mod_value b)" and d: "uint d = (X mod Q + e * Q) mod uint (mod_value b)"
    and op: "inverse_operand b Q op"
  shows "uint (multiplyUintMod_operand (x + (mod_value b - d)) op b) = (X div Q - e) mod uint (mod_value b)"
proof -
  let ?q = "uint (mod_value b)"
  have "operand_for b op" using op by (simp add: inverse_operand_def)
  note mult = multiply_operand_int [OF b this]
  have "eqm ?q (uint x + (?q - uint d)) (X + (0 - (X mod Q + e * Q)))"
    unfolding x d by (intro eqm_add eqm_diff) (simp_all add: eqm_def)
  also have "X + (0 - (X mod Q + e * Q)) = (X div Q - e) * Q" by (simp add: algebra_simps flip: minus_mod_eq_div_mult)
  finally have "eqm ?q (uint x + (?q - uint d)) ((X div Q - e) * Q)" .
  from exact_quotient [OF inverse_eqm [OF op b] this]
  show ?thesis
    using mult lazy_sub_int [OF b mod_word [OF x b] less_imp_le [OF mod_word [OF d b]]] by (simp add: eqm_def)
qed

text \<open>
  C14. \<open>fastFloor\<close> divides the numbers, whose residues modulo both bases are given, by the product of the base \<open>q\<close> and rounds
  down, up to an error of less than the number of moduli; the result is in residue form in the base \<open>Bsk\<close>.
\<close>

theorem fastFloor_correct:
  assumes T: "wf_tool T" and n: "n = rt_coeff_count T" and q: "residues (rt_base_q T) n X a 0"
    and bsk: "residues (rt_base_Bsk T) n X a (rns_size (rt_base_q T) * n)"
    and a: "rns_size (rt_base_q T) * n \<le> length a" and dest: "length dest = n * rns_size (rt_base_Bsk T)"
  shows "\<exists>e. (\<forall>j<n. 0 \<le> e j \<and> e j < int (rns_size (rt_base_q T))) \<and>
    rns_poly (rt_base_Bsk T) n (\<lambda>j. X j div base_product (rt_base_q T) - e j) (fastFloor T a dest)"
proof (intro exI conjI allI impI)
  let ?q = "rt_base_q T" and ?Bsk = "rt_base_Bsk T"
  have w: "wf_bases T" "wf_constants T" using T by (simp_all add: wf_tool_def)
  note b = wf_basesD [OF w(1)] and s = wf_basesD_sizes [OF w(1)]
  show "0 \<le> excess ?q a n j" "excess ?q a n j < int (rns_size ?q)" if "j < n" for j
    using fast_number_value [OF b(2) q that] by simp_all
  define d where "d = fastConvertArray (rt_base_q_to_Bsk_conv T) a n dest"
  have out: "length dest = n * length (rns_base ?Bsk)" using dest s by simp
  note d = convertsD [where a = a, OF b(8) out, folded d_def]
  have dl: "length d = n * rns_size ?Bsk" using d(2) s by simp
  have "rns_poly ?Bsk n (\<lambda>j. X j div base_product ?q - excess ?q a n j) (parts_loop (\<lambda>i dest. coeff_loop (\<lambda>j.
      multiplyUintMod_operand (drop (rns_size ?q * n) a ! (i * n + j) + (modulus_value (rns_base ?Bsk ! i) - dest ! j))
        (rt_inv_prod_q_mod_Bsk T ! i) (rns_base ?Bsk ! i)) n 0 dest) n (rns_size ?Bsk) 0 d)"
  proof (rule parts_loop_rns [OF dl])
    fix i j assume i: "i < rns_size ?Bsk" and j: "j < n"
    let ?x = "a ! (rns_size ?q * n + (i * n + j))" and ?y = "d ! (i * n + j)" and ?b = "rns_base ?Bsk ! i"
    have sl: "poly_slice n i d ! j = ?y" "length (poly_slice n i d) = n"
      using slice_at [OF dl i j] length_slice [OF dl i] by simp_all
    have il: "i < length (rns_base ?Bsk)" using i s by simp
    have dr: "drop (rns_size ?q * n) a ! (i * n + j) = ?x" using a by simp
    have x: "uint ?x = X j mod modi (rns_base ?Bsk) i" using bsk i j by (simp add: residues_def)
    have y: "uint ?y = (X j mod base_product ?q + excess ?q a n j * base_product ?q) mod modi (rns_base ?Bsk) i"
      using d(1) [OF il j] fast_number_value(1) [OF b(2) q j] by simp
    have "inverse_operand ?b (base_product ?q) (rt_inv_prod_q_mod_Bsk T ! i)"
      using w(2) inversesD [OF _ il] by (simp add: wf_constants_def Let_def)
    from floor_coeff [OF wf_rns_modulus [OF b(4) i] x y this]
    show "uint (coeff_loop (\<lambda>ja. multiplyUintMod_operand (drop (rns_size ?q * n) a ! (i * n + ja) + (modulus_value ?b - poly_slice n i d ! ja))
        (rt_inv_prod_q_mod_Bsk T ! i) ?b) n 0 (poly_slice n i d) ! j) = (X j div base_product ?q - excess ?q a n j) mod modi (rns_base ?Bsk) i"
      using j sl dr by (simp add: coeff_loop_map modulus_value_def)
  qed simp
  then show "rns_poly ?Bsk n (\<lambda>j. X j div base_product ?q - excess ?q a n j) (fastFloor T a dest)"
    by (simp add: fastFloor_def Let_def d_def flip: n)
qed

lemma less_2_all: "(\<forall>i<2 :: nat. P i) \<longleftrightarrow> P 0 \<and> P 1"
  by (auto simp: less_2_cases_iff)

theorem fastFloor_correct_witness:
  "\<exists>T e. wf_tool T \<and> base_product (rt_base_q T) = 1649 \<and> (\<forall>j<2. 0 \<le> e j \<and> e j < 2) \<and>
    rns_poly (rt_base_Bsk T) 2 (\<lambda>j. 100000 div 1649 - e j) (fastFloor T [6, 6, 90, 90, 8, 8, 26, 26] [0, 0, 0, 0])"
proof (rule example_tool)
  fix T
  assume T: "wf_tool T" "rt_coeff_count T = 2" "rns_base (rt_base_q T) = [modulus_17, modulus_97]" "rns_size (rt_base_q T) = 2"
    "base_product (rt_base_q T) = 1649" "rns_base (rt_base_Bsk T) = [modulus_29, modulus_37]" "rns_size (rt_base_Bsk T) = 2"
  have "residues (rt_base_q T) 2 (\<lambda>j. 100000) [6, 6, 90, 90, 8, 8, 26, 26] 0"
    "residues (rt_base_Bsk T) 2 (\<lambda>j. 100000) [6, 6, 90, 90, 8, 8, 26, 26] (rns_size (rt_base_q T) * 2)"
    unfolding residues_def T(3,4,6,7) by (simp_all add: less_2_all modulus_17_def modulus_97_def modulus_29_def modulus_37_def)
  from fastFloor_correct [OF T(1) T(2) [symmetric] this, of "[0, 0, 0, 0]"] T show ?thesis by auto
qed

section \<open>The reduction modulo \<open>q\<close>\<close>

lemma multiply_add_int:
  assumes "wf_modulus m" "operand_for m y"
  shows "uint (multiplyAddUintMod_operand x y c m) = (uint x * uint (mop_operand y) + uint c) mod uint (mod_value m)"
  using int_unat_mod [OF multiplyAddUintMod_operand_value [OF wf_modulusD(1) [OF assms(1)] assms(2), of x c]] by simp

text \<open>The representative of a residue nearest to zero, and the multiple of the product that makes a number divisible.\<close>

definition centred :: "int \<Rightarrow> int \<Rightarrow> int" where
  "centred m r = (if r \<ge> m div 2 then r - m else r)"

lemma centred_bounds:
  assumes "1 < m" "0 \<le> r" "r < m"
  shows "centred m r < m div 2" "- (m - m div 2) \<le> centred m r" "eqm m (centred m r) r"
proof -
  have "0 < m div 2" "m div 2 < m" using assms by simp_all
  then show "centred m r < m div 2" "- (m - m div 2) \<le> centred m r" using assms unfolding centred_def by (simp_all split: if_splits)
  show "eqm m (centred m r) r" by (simp add: centred_def eqm_def)
qed

definition mrq_digit :: "RNSTool \<Rightarrow> (nat \<Rightarrow> int) \<Rightarrow> nat \<Rightarrow> int" where
  "mrq_digit T X j =
     (let m = uint (mod_value (rt_m_tilde T)) in centred m (X j * uint (mop_operand (rt_neg_inv_prod_q_mod_m_tilde T)) mod m))"

lemma mrq_digit_bounds:
  assumes "wf_tool T"
  shows "mrq_digit T X j < uint (mod_value (rt_m_tilde T)) div 2"
    "- (uint (mod_value (rt_m_tilde T)) - uint (mod_value (rt_m_tilde T)) div 2) \<le> mrq_digit T X j"
    "uint (mod_value (rt_m_tilde T)) dvd X j + base_product (rt_base_q T) * mrq_digit T X j"
proof -
  let ?m = "uint (mod_value (rt_m_tilde T))" and ?o = "uint (mop_operand (rt_neg_inv_prod_q_mod_m_tilde T))" and ?Q = "base_product (rt_base_q T)"
  have w: "wf_bases T" "neg_inverse_operand (rt_m_tilde T) ?Q (rt_neg_inv_prod_q_mod_m_tilde T)"
    using assms by (simp_all add: wf_tool_def wf_constants_def Let_def)
  have m: "1 < ?m" by (rule wf_modulus_int(1) [OF wf_bases_moduli(2) [OF w(1)]])
  have r: "0 \<le> X j * ?o mod ?m" "X j * ?o mod ?m < ?m" using m by simp_all
  note c = centred_bounds [OF m r]
  show "mrq_digit T X j < ?m div 2" "- (?m - ?m div 2) \<le> mrq_digit T X j"
    unfolding mrq_digit_def Let_def by (rule c)+
  have "eqm ?m (mrq_digit T X j) (X j * ?o)" using c(3) by (simp add: mrq_digit_def Let_def eqm_def)
  then have "eqm ?m (X j + ?Q * mrq_digit T X j) (X j + ?Q * (X j * ?o))" by (intro eqm_add eqm_mult eqm_refl)
  also have "X j + ?Q * (X j * ?o) = X j + X j * (?Q * ?o)" by simp
  also have "eqm ?m \<dots> (X j + X j * (- 1))" by (intro eqm_add eqm_mult eqm_refl neg_inverse_eqm [OF w(2)])
  finally show "?m dvd X j + ?Q * mrq_digit T X j" by (simp add: eqm_def dvd_eq_mod_eq_0)
qed

lemma centred_word:
  assumes b: "wf_modulus b" and m: "wf_modulus m" "mod_value m \<le> mod_value b" and r: "uint r < uint (mod_value m)"
  shows "eqm (uint (mod_value b)) (uint (if r \<ge> drop_bit 1 (modulus_value m) then r + (modulus_value b - modulus_value m) else r))
    (centred (uint (mod_value m)) (uint r))"
proof -
  have le: "uint (mod_value m) \<le> uint (mod_value b)" using m(2) by (simp add: word_le_def)
  have "uint (r + (mod_value b - mod_value m)) = uint r + (uint (mod_value b) - uint (mod_value m))"
  proof -
    have "0 \<le> uint r" "uint (mod_value b) < 2305843009213693952" using wf_modulus_int [OF b] by simp_all
    then have "(uint (mod_value b) - uint (mod_value m)) mod 18446744073709551616 = uint (mod_value b) - uint (mod_value m)"
      "(uint r + (uint (mod_value b) - uint (mod_value m))) mod 18446744073709551616 = uint r + (uint (mod_value b) - uint (mod_value m))"
      using le r wf_modulus_int [OF m(1)] by (intro mod_pos_pos_trivial; linarith)+
    then show ?thesis by (simp add: uint_word_ariths)
  qed
  moreover have "r \<ge> drop_bit 1 (mod_value m) \<longleftrightarrow> uint r \<ge> uint (mod_value m) div 2"
    unfolding word_le_def half_value by (rule refl)
  moreover have "eqm (uint (mod_value b)) (uint r + (uint (mod_value b) - uint (mod_value m))) (uint r - uint (mod_value m))"
  proof -
    have "uint r + (uint (mod_value b) - uint (mod_value m)) = uint r - uint (mod_value m) + uint (mod_value b)" by simp
    then show ?thesis by (simp only: eqm_def mod_add_self2)
  qed
  ultimately show ?thesis unfolding centred_def modulus_value_def by simp
qed

lemma mrq_coeff:
  assumes b: "wf_modulus b" and t: "eqm (uint (mod_value b)) (uint t) r" and x: "uint x = X mod uint (mod_value b)"
    and p: "uint p = Q mod uint (mod_value b)" and op: "inverse_operand b m op" and d: "m dvd X + Q * r"
  shows "uint (multiplyUintMod_operand (multiplyAddUintMod_operand t (set_operand p b zero_operand) x b) op b)
    = ((X + Q * r) div m) mod uint (mod_value b)"
proof -
  let ?q = "uint (mod_value b)"
  have "operand_for b op" using op by (simp add: inverse_operand_def)
  note mult = multiply_operand_int [OF b this]
  note o = residue_operand [OF b p]
  have "eqm ?q (uint (multiplyAddUintMod_operand t (set_operand p b zero_operand) x b)) (r * Q + X)"
  proof -
    have "eqm ?q (uint t * (Q mod ?q) + X mod ?q) (r * Q + X)" by (intro eqm_add eqm_mult t) (simp_all add: eqm_def)
    then show ?thesis using multiply_add_int [OF b o(1), of t x] o(2) x by (simp add: eqm_def)
  qed
  moreover have "r * Q + X = (X + Q * r) div m * m" using d by (simp add: mult.commute add.commute)
  ultimately have "eqm ?q (uint (multiplyAddUintMod_operand t (set_operand p b zero_operand) x b)) ((X + Q * r) div m * m)" by simp
  from exact_quotient [OF inverse_eqm [OF op b] this] mult show ?thesis by (simp add: eqm_def)
qed

lemma smMrq_value:
  assumes T: "wf_tool T" and n: "n = rt_coeff_count T" and x: "rns_poly (rt_base_Bsk_m_tilde T) n X a"
    and big: "\<forall>b\<in>set (rns_base (rt_base_Bsk T)). mod_value (rt_m_tilde T) \<le> mod_value b"
    and dest: "length dest = n * rns_size (rt_base_Bsk T)"
  shows "rns_poly (rt_base_Bsk T) n (\<lambda>j. (X j + base_product (rt_base_q T) * mrq_digit T X j) div uint (mod_value (rt_m_tilde T)))
    (smMrq T a dest)"
proof -
  let ?Bsk = "rt_base_Bsk T" and ?k = "rns_size (rt_base_Bsk T)" and ?m = "rt_m_tilde T" and ?Q = "base_product (rt_base_q T)"
  have w: "wf_bases T" "wf_constants T" using T by (simp_all add: wf_tool_def)
  note b = wf_basesD [OF w(1)] and s = wf_basesD_sizes [OF w(1)] and m = wf_bases_moduli(2) [OF w(1)]
  define r where "r = multiplyPolyScalarCoeffmod_operand (drop (?k * n) a) n (rt_neg_inv_prod_q_mod_m_tilde T) ?m (replicate n 0)"
  have op: "operand_for ?m (rt_neg_inv_prod_q_mod_m_tilde T)"
    using w(2) by (simp add: wf_constants_def neg_inverse_operand_def Let_def)
  have len: "length a = n * (?k + 1)" using x s by (simp add: rns_poly_def)
  have base: "rns_base (rt_base_Bsk_m_tilde T) ! i = (if i < ?k then rns_base ?Bsk ! i else ?m)" if "i < ?k + 1" for i
    using b(7) s that by (simp add: nth_append)
  have residue: "uint (a ! (i * n + j)) = X j mod uint (mod_value (rns_base (rt_base_Bsk_m_tilde T) ! i))" if "i < ?k + 1" "j < n" for i j
    using x that s(1,2) by (simp add: rns_poly_def)
  have r: "uint (r ! j) = X j * uint (mop_operand (rt_neg_inv_prod_q_mod_m_tilde T)) mod uint (mod_value ?m)" if "j < n" for j
  proof -
    have "uint (a ! (?k * n + j)) = X j mod uint (mod_value ?m)"
      using residue [of ?k j] that base [of ?k] by simp
    moreover have "r ! j = multiplyUintMod_operand (a ! (?k * n + j)) (rt_neg_inv_prod_q_mod_m_tilde T) ?m"
      using that len by (simp add: r_def poly_maps)
    ultimately show ?thesis using multiply_operand_int [OF m op] by (simp add: mod_mult_left_eq)
  qed
  have "rns_poly ?Bsk n (\<lambda>j. (X j + ?Q * mrq_digit T X j) div uint (mod_value ?m)) (parts_loop (\<lambda>i. let b = rns_base ?Bsk ! i;
      prod_q_mod_Bsk_elt = set_operand (rt_prod_q_mod_Bsk T ! i) b zero_operand
    in coeff_loop (\<lambda>j. let temp = r ! j;
         temp = (if temp \<ge> drop_bit 1 (modulus_value ?m) then temp + (modulus_value b - modulus_value ?m) else temp)
       in multiplyUintMod_operand (multiplyAddUintMod_operand temp prod_q_mod_Bsk_elt (a ! (i * n + j)) b)
            (rt_inv_m_tilde_mod_Bsk T ! i) b) n 0) n ?k 0 dest)" (is "rns_poly _ _ ?Y _")
  proof (rule parts_loop_rns [OF dest])
    fix i j assume i: "i < ?k" and j: "j < n"
    let ?b = "rns_base ?Bsk ! i" and ?dest = "poly_slice n i dest"
    have il: "i < length (rns_base ?Bsk)" using i s by simp
    note bm = wf_rns_modulus [OF b(4) i]
    have le: "mod_value ?m \<le> mod_value ?b" using big il by simp
    define t where "t = (if r ! j \<ge> drop_bit 1 (modulus_value ?m) then r ! j + (modulus_value ?b - modulus_value ?m) else r ! j)"
    have t: "eqm (uint (mod_value ?b)) (uint t) (mrq_digit T X j)"
      using centred_word [OF bm m le mod_word [OF r [OF j] m]] r [OF j] by (simp add: t_def mrq_digit_def Let_def)
    have x: "uint (a ! (i * n + j)) = X j mod modi (rns_base ?Bsk) i"
      using residue [of i j] i j base [of i] by simp
    have c: "uint (rt_prod_q_mod_Bsk T ! i) = ?Q mod modi (rns_base ?Bsk) i" "inverse_operand ?b (uint (mod_value ?m)) (rt_inv_m_tilde_mod_Bsk T ! i)"
      using w(2) inversesD [OF _ il] residue_listD [OF _ il] by (simp_all add: wf_constants_def Let_def)
    from mrq_coeff [OF bm t x c mrq_digit_bounds(3) [OF T]]
    show "uint ((let b = ?b; prod_q_mod_Bsk_elt = set_operand (rt_prod_q_mod_Bsk T ! i) b zero_operand
      in coeff_loop (\<lambda>j. let temp = r ! j;
           temp = (if temp \<ge> drop_bit 1 (modulus_value ?m) then temp + (modulus_value b - modulus_value ?m) else temp)
         in multiplyUintMod_operand (multiplyAddUintMod_operand temp prod_q_mod_Bsk_elt (a ! (i * n + j)) b)
              (rt_inv_m_tilde_mod_Bsk T ! i) b) n 0) ?dest ! j) = ?Y j mod modi (rns_base ?Bsk) i"
      using j length_slice [OF dest i] unfolding Let_def t_def by (simp add: coeff_loop_map split: if_splits)
  qed (simp add: Let_def)
  then show ?thesis unfolding smMrq_def Let_def r_def n .
qed

text \<open>Products with a scalar, and the residues that two conversions put side by side.\<close>

lemma operand_parts:
  assumes b: "wf_rns b" and a: "rns_poly b n X a" and r: "length r = n * rns_size b"
    and op: "\<And>i. i < rns_size b \<Longrightarrow> operand_for (rns_base b ! i) (op i) \<and> uint (mop_operand (op i)) = c mod modi (rns_base b) i"
  shows "rns_poly b n (\<lambda>j. c * X j)
    (parts_loop (\<lambda>i. multiplyPolyScalarCoeffmod_operand (drop (i * n) a) n (op i) (rns_base b ! i)) n (rns_size b) 0 r)"
proof (rule parts_loop_rns [OF r])
  fix i j assume i: "i < rns_size b" and j: "j < n"
  have le: "i * n \<le> length a" using a i mult_le_mono1 [of i "rns_size b" n] by (simp add: rns_poly_def mult.commute)
  have x: "uint (a ! (i * n + j)) = X j mod modi (rns_base b) i" using a i j by (simp add: rns_poly_def)
  have "uint (multiplyUintMod_operand (a ! (i * n + j)) (op i) (rns_base b ! i)) = c * X j mod modi (rns_base b) i"
    using multiply_operand_int [OF wf_rns_modulus [OF b i], of "op i"] op [OF i] x by (simp add: mod_mult_eq mult.commute [of c])
  then show "uint (multiplyPolyScalarCoeffmod_operand (drop (i * n) a) n (op i) (rns_base b ! i) (poly_slice n i r) ! j)
      = c * X j mod modi (rns_base b) i"
    using j length_slice [OF r i] le by (simp add: poly_maps)
qed (simp add: poly_maps)

lemma scalar_rns:
  assumes b: "wf_rns b" and a: "rns_poly b n X a" and r: "length r = n * rns_size b"
  shows "rns_poly b n (\<lambda>j. uint s * X j) (multiplyPolyScalarCoeffmod_rns a (rns_size b) n s (rns_base b) r)"
proof -
  let ?op = "\<lambda>i. set_operand (barrettReduce64 s (rns_base b ! i)) (rns_base b ! i) zero_operand"
  have "operand_for (rns_base b ! i) (?op i) \<and> uint (mop_operand (?op i)) = uint s mod modi (rns_base b) i" if "i < rns_size b" for i
    using residue_operand [OF wf_rns_modulus [OF b that] barrett_int [OF wf_modulusD(1) [OF wf_rns_modulus [OF b that]]], of s] by simp
  from operand_parts [OF b a r this] show ?thesis
    by (simp add: multiplyPolyScalarCoeffmod_rns_def multiplyPolyScalarCoeffmod_def Let_def mult.commute)
qed

lemma coprime_mod_cancel:
  fixes m :: int
  assumes "coprime m Q" "(m * x) mod Q = (m * y) mod Q"
  shows "x mod Q = y mod Q"
proof -
  have "Q dvd m * (x - y)" using assms(2) by (simp add: mod_eq_dvd_iff right_diff_distrib)
  then have "Q dvd x - y" using assms(1) by (simp add: coprime_dvd_mult_right_iff coprime_commute)
  then show ?thesis by (simp add: mod_eq_dvd_iff)
qed

lemma fastbconvmTilde_value:
  assumes T: "wf_tool T" and n: "n = rt_coeff_count T" and x: "rns_poly (rt_base_q T) n X a"
    and dest: "length d = n * rns_size (rt_base_Bsk_m_tilde T)"
  defines "m \<equiv> uint (mod_value (rt_m_tilde T))" and "Q \<equiv> base_product (rt_base_q T)"
  shows "\<exists>Z. rns_poly (rt_base_Bsk_m_tilde T) n Z (fastbconvmTilde T a d) \<and>
    (\<forall>j<n. Z j mod Q = m * X j mod Q \<and> 0 \<le> Z j \<and> Z j < int (rns_size (rt_base_q T)) * Q)"
proof -
  let ?q = "rt_base_q T" and ?k = "rns_size (rt_base_q T)" and ?Bsk = "rt_base_Bsk T" and ?l = "rns_size (rt_base_Bsk T)"
  have w: "wf_bases T" using T by (simp add: wf_tool_def)
  note b = wf_basesD [OF w] and s = wf_basesD_sizes [OF w]
  define temp where "temp = multiplyPolyScalarCoeffmod_rns a ?k n (mod_value (rt_m_tilde T)) (rns_base ?q) (replicate (n * ?k) 0)"
  have "rns_poly ?q n (\<lambda>j. m * X j) temp"
    unfolding temp_def m_def by (rule scalar_rns [OF b(2) x]) simp
  then have temp: "residues ?q n (\<lambda>j. m * X j) temp 0" by (simp add: rns_poly_residues)
  define Z where "Z = fast_number ?q temp n"
  have Q: "0 < Q" unfolding Q_def by (rule base_product_pos [OF b(2)])
  have Z: "Z j mod Q = m * X j mod Q \<and> 0 \<le> Z j \<and> Z j < int ?k * Q" if "j < n" for j
  proof -
    note z = fast_number_value [OF b(2) temp that, folded Z_def Q_def]
    let ?r = "m * X j mod Q" and ?e = "excess ?q temp n j"
    have r: "0 \<le> ?r" "?r < Q" using Q by simp_all
    have "(?e + 1) * Q \<le> int ?k * Q" using z(3) Q by (intro mult_right_mono) simp_all
    moreover have "0 \<le> ?e * Q" using z(2) Q by simp
    ultimately have "0 \<le> Z j" "Z j < int ?k * Q" unfolding z(1) using r by (simp_all add: algebra_simps)
    then show ?thesis unfolding z(1) by simp
  qed
  let ?c1 = "fastConvertArray (rt_base_q_to_Bsk_conv T) temp n (take (?l * n) d)"
    and ?c2 = "fastConvertArray (rt_base_q_to_m_tilde_conv T) temp n (drop (?l * n) d)"
  have dl: "length (take (?l * n) d) = n * length (rns_base ?Bsk)" "length (drop (?l * n) d) = n * length [rt_m_tilde T]"
    using dest s by (simp_all add: algebra_simps)
  note c1 = convertsD [where a = temp, OF b(8) dl(1), folded Z_def] and c2 = convertsD [where a = temp, OF b(9) dl(2), folded Z_def]
  have l: "length (rns_base ?Bsk) = ?l" using s by simp
  have "uint ((?c1 @ ?c2) ! (i * n + j)) = Z j mod modi (rns_base (rt_base_Bsk_m_tilde T)) i"
    if i: "i < ?l + 1" and j: "j < n" for i j
  proof (cases "i < ?l")
    case True
    have "i * n + j < ?l * n" by (rule stride_lt) (use True j in simp_all)
    then show ?thesis using c1(1) [of i j] c1(2) True j b(7) l by (simp add: nth_append mult.commute)
  next
    case False
    then have "i = ?l" using i by simp
    then show ?thesis using c2(1) [of 0 j] c1(2) j b(7) l by (simp add: nth_append mult.commute)
  qed
  then have "rns_poly (rt_base_Bsk_m_tilde T) n Z (?c1 @ ?c2)"
    using c1(2) c2(2) s by (simp add: rns_poly_def algebra_simps)
  then show ?thesis using Z unfolding fastbconvmTilde_def Let_def temp_def modulus_value_def n by blast
qed

text \<open>
  C12. The Montgomery extension of a base: \<open>fastbconvmTilde\<close> followed by \<open>smMrq\<close> takes residues modulo the base \<open>q\<close> to residues
  modulo \<open>Bsk\<close> of a number that is congruent to the given one modulo the product \<open>Q\<close>, and, up to the number of moduli over
  \<open>m_tilde\<close>, between minus and plus one half of \<open>Q\<close>.
\<close>

theorem montgomery_extension_correct:
  assumes T: "wf_tool T" and n: "n = rt_coeff_count T" and x: "rns_poly (rt_base_q T) n X a"
    and big: "\<forall>b\<in>set (rns_base (rt_base_Bsk T)). mod_value (rt_m_tilde T) \<le> mod_value b"
    and dest: "length d1 = n * rns_size (rt_base_Bsk_m_tilde T)" "length d2 = n * rns_size (rt_base_Bsk T)"
    and m: "m = uint (mod_value (rt_m_tilde T))" and Q: "Q = base_product (rt_base_q T)"
  shows "\<exists>Y. rns_poly (rt_base_Bsk T) n Y (smMrq T (fastbconvmTilde T a d1) d2) \<and>
    (\<forall>j<n. Y j mod Q = X j mod Q \<and> - (m - m div 2) * Q \<le> m * Y j \<and> m * Y j < (int (rns_size (rt_base_q T)) + m div 2) * Q)"
proof -
  have w: "wf_bases T" "neg_inverse_operand (rt_m_tilde T) Q (rt_neg_inv_prod_q_mod_m_tilde T)"
    using T by (simp_all add: wf_tool_def wf_constants_def Let_def Q)
  obtain Z where Z: "rns_poly (rt_base_Bsk_m_tilde T) n Z (fastbconvmTilde T a d1)"
      "\<forall>j<n. Z j mod Q = m * X j mod Q \<and> 0 \<le> Z j \<and> Z j < int (rns_size (rt_base_q T)) * Q"
    using fastbconvmTilde_value [OF T n x dest(1)] unfolding m Q by blast
  define Y where "Y = (\<lambda>j. (Z j + Q * mrq_digit T Z j) div m)"
  have Y: "m * Y j = Z j + Q * mrq_digit T Z j" for j
    using mrq_digit_bounds(3) [OF T, of Z j] by (simp add: Y_def m Q)
  have Qpos: "0 < Q" unfolding Q by (rule base_product_pos [OF wf_basesD(2) [OF w(1)]])
  have "Y j mod Q = X j mod Q \<and> - (m - m div 2) * Q \<le> m * Y j \<and> m * Y j < (int (rns_size (rt_base_q T)) + m div 2) * Q"
    if j: "j < n" for j
  proof (intro conjI)
    note zj = Z(2) [rule_format, OF j] and d = mrq_digit_bounds(1,2) [OF T, of Z j, folded m]
    have "(m * Y j) mod Q = (m * X j) mod Q" using zj unfolding Y by simp
    then show "Y j mod Q = X j mod Q" by (rule coprime_mod_cancel [OF neg_inverse_coprime [OF w(2), folded m]])
    have "- (m - m div 2) * Q \<le> mrq_digit T Z j * Q" using d(2) Qpos by (intro mult_right_mono) simp_all
    moreover have "mrq_digit T Z j * Q < (m div 2) * Q" using d(1) Qpos by simp
    ultimately show "- (m - m div 2) * Q \<le> m * Y j" "m * Y j < (int (rns_size (rt_base_q T)) + m div 2) * Q"
      using zj unfolding Y by (simp_all add: algebra_simps)
  qed
  moreover have "rns_poly (rt_base_Bsk T) n Y (smMrq T (fastbconvmTilde T a d1) d2)"
    unfolding Y_def Q m by (rule smMrq_value [OF T n Z(1) big dest(2)])
  ultimately show ?thesis by blast
qed

theorem montgomery_extension_correct_witness:
  "\<exists>T Y. wf_tool T \<and> base_product (rt_base_q T) = 1649 \<and>
    rns_poly (rt_base_Bsk T) 2 Y (smMrq T (fastbconvmTilde T [14, 14, 30, 94] [0, 0, 0, 0, 0, 0]) [0, 0, 0, 0]) \<and>
    Y 0 mod 1649 = 1000 \<and> Y 1 mod 1649 = 1646 \<and> (\<forall>j<2. - 8 * 1649 \<le> 16 * Y j \<and> 16 * Y j < 10 * 1649)"
proof (rule example_tool)
  fix T
  assume T: "wf_tool T" "rt_coeff_count T = 2" "rns_base (rt_base_q T) = [modulus_17, modulus_97]" "rns_size (rt_base_q T) = 2"
    "base_product (rt_base_q T) = 1649" "rns_base (rt_base_Bsk T) = [modulus_29, modulus_37]" "rns_size (rt_base_Bsk T) = 2"
    "rns_size (rt_base_B T) = 1" "base_product (rt_base_B T) = 29" "rns_size (rt_base_Bsk_m_tilde T) = 3"
    "rt_t T = modulus_5" "rt_gamma T = modulus_41" "rt_m_tilde T = modulus_16"
  let ?X = "\<lambda>j :: nat. if j = 0 then 1000 else 1646 :: int"
  have x: "rns_poly (rt_base_q T) 2 ?X [14, 14, 30, 94]"
    unfolding rns_poly_def T(3,4) by (simp add: less_2_all modulus_17_def modulus_97_def)
  have big: "\<forall>b\<in>set (rns_base (rt_base_Bsk T)). mod_value (rt_m_tilde T) \<le> mod_value b"
    unfolding T(6,13) by (simp add: modulus_29_def modulus_37_def modulus_16_def)
  show ?thesis
    using montgomery_extension_correct [OF T(1) T(2) [symmetric] x big _ _ refl refl, of "[0, 0, 0, 0, 0, 0]" "[0, 0, 0, 0]"] T
    by (auto simp: modulus_16_def less_2_all)
qed

section \<open>The conversion back to \<open>q\<close>\<close>

text \<open>No modulus of \<open>q\<close> divides the product of \<open>B\<close>.\<close>

lemma product_B_residue:
  assumes T: "wf_tool T" and i: "i < rns_size (rt_base_q T)"
  shows "0 < base_product (rt_base_B T) mod modi (rns_base (rt_base_q T)) i"
proof -
  have w: "wf_bases T" "inverses (rns_base (rt_base_Bsk T)) (base_product (rt_base_q T)) (rt_inv_prod_q_mod_Bsk T)"
    using T by (simp_all add: wf_tool_def wf_constants_def Let_def)
  note b = wf_basesD [OF w(1)] and s = wf_basesD_sizes [OF w(1)]
  have "coprime (modi (rns_base (rt_base_B T)) l) (base_product (rt_base_q T))" if l: "l < rns_size (rt_base_B T)" for l
    using inverse_operand_coprime [OF inversesD [OF w(2), of l]] wf_rns_modulus [OF b(3) l] l s(4,5) b(6) by (simp add: nth_append)
  from base_product_coprime [OF this] have c: "coprime (base_product (rt_base_B T)) (base_product (rt_base_q T))" .
  show ?thesis
  proof (rule ccontr)
    note m = wf_modulus_int(1) [OF wf_rns_modulus [OF b(2) i]]
    assume "\<not> ?thesis"
    moreover have "0 \<le> base_product (rt_base_B T) mod modi (rns_base (rt_base_q T)) i" using m by simp
    ultimately have "modi (rns_base (rt_base_q T)) i dvd base_product (rt_base_B T)" by (simp add: dvd_eq_mod_eq_0)
    then have "is_unit (modi (rns_base (rt_base_q T)) i)" by (rule coprime_common_divisor [OF c _ modulus_dvd_product [OF i]])
    then show False using m by simp
  qed
qed

text \<open>The correction with the centred excess.\<close>

lemma centred_excess:
  assumes "1 < m" "A mod m = r" "\<bar>A\<bar> \<le> (m - 1) div 2"
  shows "A = (if r > m div 2 then r - m else (r :: int))"
proof (cases "0 \<le> A")
  case True
  have "(m - 1) div 2 \<le> m div 2" using assms(1) by simp
  moreover have "A < m" using assms(1,3) True by linarith
  ultimately show ?thesis using assms True by simp
next
  case False
  have "0 \<le> A + m" "A + m < m" "m div 2 < A + m" using assms(1,3) False by linarith+
  moreover have "r = A + m"
  proof -
    have "(A + m) mod m = A + m" by (rule mod_pos_pos_trivial) fact+
    then show ?thesis using assms(2) by simp
  qed
  ultimately show ?thesis by simp
qed

lemma excess_word:
  assumes m: "wf_modulus m" and x: "uint x = X mod uint (mod_value m)" and d: "uint d = (X mod P + e * P) mod uint (mod_value m)"
    and op: "inverse_operand m P op"
  shows "uint (multiplyUintMod_operand (d + (mod_value m - x)) op m) = (e - X div P) mod uint (mod_value m)"
proof -
  let ?m = "uint (mod_value m)"
  have "operand_for m op" using op by (simp add: inverse_operand_def)
  note mult = multiply_operand_int [OF m this]
  have "eqm ?m (uint d + (?m - uint x)) (X mod P + e * P + (0 - X))"
    unfolding x d by (intro eqm_add eqm_diff) (simp_all add: eqm_def)
  also have "X mod P + e * P + (0 - X) = (e - X div P) * P" by (simp add: algebra_simps flip: minus_mod_eq_div_mult)
  finally have "eqm ?m (uint d + (?m - uint x)) ((e - X div P) * P)" .
  from exact_quotient [OF inverse_eqm [OF op m] this]
  show ?thesis
    using mult lazy_sub_int [OF m mod_word [OF d m] less_imp_le [OF mod_word [OF x m]]] by (simp add: eqm_def)
qed

lemma sk_coeff:
  assumes b: "wf_modulus b" and m: "wf_modulus m" and r: "uint r = A mod uint (mod_value m)" and A: "\<bar>A\<bar> \<le> (uint (mod_value m) - 1) div 2"
    and p: "uint p = P mod uint (mod_value b)" "0 < uint p" and d: "uint d = (X + A * P) mod uint (mod_value b)"
  shows "uint (if r > drop_bit 1 (modulus_value m)
      then multiplyAddUintMod_operand (negateUintMod r m) (set_operand p b zero_operand) d b
      else multiplyAddUintMod_operand r (set_operand (modulus_value b - p) b zero_operand) d b) = X mod uint (mod_value b)"
proof -
  let ?q = "uint (mod_value b)" and ?m = "uint (mod_value m)"
  note A = centred_excess [OF wf_modulus_int(1) [OF m] r [symmetric] A]
  have half: "r > drop_bit 1 (modulus_value m) \<longleftrightarrow> uint r > ?m div 2"
    unfolding word_less_def half_value modulus_value_def by (rule refl)
  show ?thesis
  proof (cases "uint r > ?m div 2")
    case True
    have "r \<noteq> 0" using True by (auto simp: not_less)
    have n: "uint (negateUintMod r m) = - A"
      using negate_int [OF mod_word [OF r m] \<open>r \<noteq> 0\<close>] A True by simp
    note o = residue_operand [OF b p(1)]
    have "eqm ?q (- A * (P mod ?q) + uint d) (- A * P + (X + A * P))"
      unfolding d by (intro eqm_add eqm_mult eqm_refl) (simp_all add: eqm_def)
    then show ?thesis using True half multiply_add_int [OF b o(1), of "negateUintMod r m" d] o(2) n by (simp add: eqm_def)
  next
    case False
    have le: "p \<le> mod_value b" using mod_word [OF p(1) b] by (simp add: word_le_def)
    have np: "uint (mod_value b - p) = ?q - uint p" using uint_sub_if' [of "mod_value b" p] le by (simp add: word_le_def)
    moreover have "(?q - uint p) mod ?q = ?q - uint p" using p(2) mod_word [OF p(1) b] by (intro mod_pos_pos_trivial) simp_all
    ultimately have "uint (mod_value b - p) = (?q - uint p) mod ?q" by simp
    note o = residue_operand [OF b this]
    have "eqm ?q (A * ((?q - uint p) mod ?q) + uint d) (A * (0 - P) + (X + A * P))"
    proof (intro eqm_add eqm_mult eqm_refl)
      have "eqm ?q ((?q - uint p) mod ?q) (?q - uint p)" by (simp add: eqm_def)
      also have "eqm ?q (?q - uint p) (0 - P)" unfolding p(1) by (intro eqm_diff) (simp_all add: eqm_def)
      finally show "eqm ?q ((?q - uint p) mod ?q) (0 - P)" .
      show "eqm ?q (uint d) (X + A * P)" unfolding d by (simp add: eqm_def)
    qed
    moreover have "A = uint r" using A False by simp
    ultimately show ?thesis
      using False half multiply_add_int [OF b o(1), of r d] o(2) by (simp add: eqm_def modulus_value_def)
  qed
qed

text \<open>
  C13. \<open>fastbconvSk\<close> takes numbers from the base \<open>Bsk\<close> back to the base \<open>q\<close> without any error: the excess of the
  fast conversion from \<open>B\<close> is found modulo \<open>m_sk\<close> and taken off. The numbers may be negative, and as large as the product of \<open>B\<close>
  times almost one half of \<open>m_sk\<close>.
\<close>

theorem fastbconvSk_correct:
  assumes T: "wf_tool T" and n: "n = rt_coeff_count T" and x: "rns_poly (rt_base_Bsk T) n X a"
    and bound: "\<forall>j<n. \<bar>X j div base_product (rt_base_B T)\<bar> + int (rns_size (rt_base_B T)) \<le> (uint (mod_value (rt_m_sk T)) - 1) div 2"
    and dest: "length d = n * rns_size (rt_base_q T)"
  shows "rns_poly (rt_base_q T) n X (fastbconvSk T a d)"
proof -
  let ?q = "rt_base_q T" and ?k = "rns_size (rt_base_q T)" and ?B = "rt_base_B T" and ?l = "rns_size (rt_base_B T)"
  let ?m = "rt_m_sk T" and ?P = "base_product (rt_base_B T)"
  have w: "wf_bases T" "wf_constants T" using T by (simp_all add: wf_tool_def)
  note b = wf_basesD [OF w(1)] and s = wf_basesD_sizes [OF w(1)] and m = wf_bases_moduli(1) [OF w(1)]
  have base: "rns_base (rt_base_Bsk T) ! i = (if i < ?l then rns_base ?B ! i else ?m)" if "i < ?l + 1" for i
    using b(6) s that by (simp add: nth_append)
  have residue: "uint (a ! (i * n + j)) = X j mod modi (rns_base (rt_base_Bsk T)) i" if "i < ?l + 1" "j < n" for i j
    using x that s(1) by (simp add: rns_poly_def)
  have inB: "residues ?B n X a 0" using residue base by (simp add: residues_def)
  note f = fast_number_value [OF b(3) inB]
  define A where "A j = excess ?B a n j - X j div ?P" for j
  have A: "\<bar>A j\<bar> \<le> (uint (mod_value ?m) - 1) div 2" if "j < n" for j
    using bound [rule_format, OF that] f(2,3) [OF that] unfolding A_def by linarith
  have F: "fast_number ?B a n j = X j + A j * ?P" if "j < n" for j
    unfolding f(1) [OF that] A_def by (simp add: algebra_simps flip: minus_mod_eq_div_mult)
  define temp where "temp = fastConvertArray (rt_base_B_to_m_sk_conv T) a n (replicate n 0)"
  define alpha where "alpha = coeff_loop (\<lambda>i. multiplyUintMod_operand (temp ! i + (modulus_value ?m - a ! (?l * n + i)))
    (rt_inv_prod_B_mod_m_sk T) ?m) n 0 (replicate n 0)"
  have alpha: "uint (alpha ! j) = A j mod uint (mod_value ?m)" if j: "j < n" for j
  proof -
    have x: "uint (a ! (?l * n + j)) = X j mod uint (mod_value ?m)" using residue [of ?l j] base [of ?l] j by simp
    have "length (replicate n (0 :: u64)) = n * length [rt_m_sk T]" by simp
    note c = convertsD(1) [where a = a and i = 0, OF b(11) this]
    have d: "uint (temp ! j) = (X j mod ?P + excess ?B a n j * ?P) mod uint (mod_value ?m)"
      using c j f(1) [OF j] by (simp add: temp_def)
    have "inverse_operand ?m ?P (rt_inv_prod_B_mod_m_sk T)" using w(2) by (simp add: wf_constants_def Let_def)
    from excess_word [OF m x d this] show ?thesis using j by (simp add: alpha_def coeff_loop_map A_def modulus_value_def)
  qed
  define dd where "dd = fastConvertArray (rt_base_B_to_q_conv T) a n d"
  have out: "length d = n * length (rns_base ?q)" using dest s by simp
  note dd = convertsD [where a = a, OF b(10) out, folded dd_def]
  have dl: "length dd = n * ?k" using dd(2) s by simp
  have "rns_poly ?q n X (parts_loop (\<lambda>i dest.
           let b = rns_base ?q ! i;
               prod_B_mod_q_elt = set_operand (rt_prod_B_mod_q T ! i) b zero_operand;
               neg_prod_B_mod_q_elt = set_operand (modulus_value b - rt_prod_B_mod_q T ! i) b zero_operand
           in coeff_loop (\<lambda>j.
                if alpha ! j > drop_bit 1 (modulus_value ?m)
                then multiplyAddUintMod_operand (negateUintMod (alpha ! j) ?m) prod_B_mod_q_elt (dest ! j) b
                else multiplyAddUintMod_operand (alpha ! j) neg_prod_B_mod_q_elt (dest ! j) b) n 0 dest) n ?k 0 dd)"
  proof (rule parts_loop_rns [OF dl])
    fix i j assume i: "i < ?k" and j: "j < n"
    let ?b = "rns_base ?q ! i" and ?dest = "poly_slice n i dd"
    have il: "i < length (rns_base ?q)" using i s by simp
    have y: "uint (?dest ! j) = (X j + A j * ?P) mod modi (rns_base ?q) i"
      using dd(1) [OF il j] F [OF j] slice_at [OF dl i j] by simp
    have "residue_list (rns_base ?q) ?P (rt_prod_B_mod_q T)" using w(2) by (simp add: wf_constants_def Let_def)
    from residue_listD [OF this il] have p: "uint (rt_prod_B_mod_q T ! i) = ?P mod modi (rns_base ?q) i" .
    then have "0 < uint (rt_prod_B_mod_q T ! i)" using product_B_residue [OF T i] by simp
    from sk_coeff [OF wf_rns_modulus [OF b(2) i] m alpha [OF j] A [OF j] p this y]
    show "uint ((let b = ?b; prod_B_mod_q_elt = set_operand (rt_prod_B_mod_q T ! i) b zero_operand;
            neg_prod_B_mod_q_elt = set_operand (modulus_value b - rt_prod_B_mod_q T ! i) b zero_operand
        in coeff_loop (\<lambda>j.
                if alpha ! j > drop_bit 1 (modulus_value ?m)
                then multiplyAddUintMod_operand (negateUintMod (alpha ! j) ?m) prod_B_mod_q_elt (?dest ! j) b
                else multiplyAddUintMod_operand (alpha ! j) neg_prod_B_mod_q_elt (?dest ! j) b) n 0 ?dest) ! j) = X j mod modi (rns_base ?q) i"
      using j length_slice [OF dl i] unfolding Let_def by (simp add: coeff_loop_map split: if_splits)
  qed (simp add: Let_def)
  then show ?thesis unfolding fastbconvSk_def Let_def alpha_def temp_def dd_def n .
qed

theorem fastbconvSk_correct_witness:
  "\<exists>T. wf_tool T \<and> rns_base (rt_base_q T) = [modulus_17, modulus_97] \<and>
    rns_poly (rt_base_q T) 2 (\<lambda>j. if j = 0 then 400 else - 400) (fastbconvSk T [23, 6, 30, 7] [0, 0, 0, 0])"
proof (rule example_tool)
  fix T
  assume T: "wf_tool T" "rt_coeff_count T = 2" "rns_base (rt_base_q T) = [modulus_17, modulus_97]" "rns_size (rt_base_q T) = 2"
    "base_product (rt_base_q T) = 1649" "rns_base (rt_base_Bsk T) = [modulus_29, modulus_37]" "rns_size (rt_base_Bsk T) = 2"
    "rns_size (rt_base_B T) = 1" "base_product (rt_base_B T) = 29" "rns_size (rt_base_Bsk_m_tilde T) = 3"
    "rt_t T = modulus_5" "rt_gamma T = modulus_41" "rt_m_tilde T = modulus_16" "rt_m_sk T = modulus_37"
  let ?X = "\<lambda>j :: nat. if j = 0 then 400 else - 400 :: int"
  have x: "rns_poly (rt_base_Bsk T) 2 ?X [23, 6, 30, 7]"
    unfolding rns_poly_def T(6,7) by (simp add: less_2_all modulus_29_def modulus_37_def)
  have "\<forall>j<2. \<bar>?X j div base_product (rt_base_B T)\<bar> + int (rns_size (rt_base_B T)) \<le> (uint (mod_value (rt_m_sk T)) - 1) div 2"
    unfolding T(8,9,14) by (simp add: less_2_all modulus_37_def)
  from fastbconvSk_correct [OF T(1) T(2) [symmetric] x this, of "[0, 0, 0, 0]"] T show ?thesis by auto
qed

section \<open>Decryption\<close>

text \<open>The scaled number: the product with \<open>t gamma\<close> divided by \<open>Q\<close>, less the excess of the conversion.\<close>

lemma scaled_residue:
  fixes m :: int
  assumes "m dvd Y" "eqm m (Q * o') (- 1)"
  shows "eqm m ((Y mod Q + e * Q) * o') (Y div Q - e)"
proof -
  have "(Y mod Q + e * Q) * o' = Y * o' - (Y div Q - e) * (Q * o')"
    by (simp add: algebra_simps flip: minus_mult_div_eq_mod)
  also have "eqm m \<dots> (0 * o' - (Y div Q - e) * (- 1))"
    by (intro eqm_diff eqm_mult eqm_refl assms(2)) (use assms(1) in \<open>simp add: eqm_def dvd_eq_mod_eq_0\<close>)
  finally show ?thesis by simp
qed

lemma nearest_quotient:
  fixes g :: int
  assumes "1 < g" "N mod g = s"
  defines "c \<equiv> if s > g div 2 then s - g else s"
  shows "(N - c) div g = (N + (g - 1) div 2) div g" "g * ((N - c) div g) = N - c"
proof -
  have s: "0 \<le> s" "s < g" using assms(1,2) by auto
  have "g dvd N - s" unfolding assms(2) [symmetric] by (rule dvd_minus_mod)
  then have "g dvd N - s + g" "g dvd N - s" by simp_all
  then have "g dvd N - c" by (simp add: c_def algebra_simps)
  then show e: "g * ((N - c) div g) = N - c" by simp
  have h: "(g - 1) div 2 + g div 2 = g - 1" by linarith
  have "0 \<le> c + (g - 1) div 2" "c + (g - 1) div 2 < g" using s h assms(1) unfolding c_def by auto
  then have "(g * ((N - c) div g) + (c + (g - 1) div 2)) div g = (N - c) div g" using assms(1) by simp
  moreover have "g * ((N - c) div g) + (c + (g - 1) div 2) = N + (g - 1) div 2" using e by simp
  ultimately show "(N - c) div g = (N + (g - 1) div 2) div g" by simp
qed

lemma decrypt_coeff:
  assumes t: "wf_modulus t" and g: "wf_modulus g" and s: "uint st = N mod uint (mod_value t)" and sg: "uint sg = N mod uint (mod_value g)"
    and op: "inverse_operand t (uint (mod_value g)) op"
  shows "uint (let d = (if sg > drop_bit 1 (modulus_value g) then addUintMod st (barrettReduce64 (modulus_value g - sg) t) t
      else subUintMod st (barrettReduce64 sg t) t) in if d \<noteq> 0 then multiplyUintMod_operand d op t else d)
    = ((N + (uint (mod_value g) - 1) div 2) div uint (mod_value g)) mod uint (mod_value t)"
proof -
  let ?t = "uint (mod_value t)" and ?g = "uint (mod_value g)"
  define c where "c = (if uint sg > ?g div 2 then uint sg - ?g else uint sg)"
  define d where "d = (if sg > drop_bit 1 (modulus_value g) then addUintMod st (barrettReduce64 (modulus_value g - sg) t) t
      else subUintMod st (barrettReduce64 sg t) t)"
  note br = barrett_int [OF wf_modulusD(1) [OF t]]
  note w = nearest_quotient [OF wf_modulus_int(1) [OF g] sg [symmetric], folded c_def]
  have half: "sg > drop_bit 1 (modulus_value g) \<longleftrightarrow> uint sg > ?g div 2"
    unfolding word_less_def half_value modulus_value_def by (rule refl)
  have sub: "uint (mod_value g - sg) = ?g - uint sg"
    using uint_sub_if' [of "mod_value g" sg] mod_word [OF sg g] by simp
  have lt: "uint st < ?t" "uint (barrettReduce64 x t) \<le> ?t" for x using mod_word [OF s t] mod_word [OF br t] by (simp_all add: less_imp_le)
  have d: "uint d = (N - c) mod ?t"
  proof (cases "uint sg > ?g div 2")
    case True
    then have "uint d = (N mod ?t + (?g - uint sg) mod ?t) mod ?t"
      using half add_int [OF t lt] br sub s by (simp add: d_def modulus_value_def)
    also have "\<dots> = (N + (?g - uint sg)) mod ?t" by (rule mod_add_eq)
    also have "N + (?g - uint sg) = N - c" using True by (simp add: c_def)
    finally show ?thesis .
  next
    case False
    then have "uint d = (N mod ?t - uint sg mod ?t) mod ?t"
      using half sub_int [OF lt] br s by (simp add: d_def)
    also have "\<dots> = (N - uint sg) mod ?t" by (rule mod_diff_eq)
    also have "N - uint sg = N - c" using False by (simp add: c_def)
    finally show ?thesis .
  qed
  have o: "operand_for t op" using op by (simp add: inverse_operand_def)
  have "eqm ?t (uint d) ((N - c) div ?g * ?g)" unfolding d using w(2) by (simp add: eqm_def mult.commute)
  from exact_quotient [OF inverse_eqm [OF op t] this]
  have e: "eqm ?t (uint d * uint (mop_operand op)) ((N + (?g - 1) div 2) div ?g)" unfolding w(1) .
  show ?thesis
  proof (cases "d = 0")
    case True
    have "((N + (?g - 1) div 2) div ?g) mod ?t = 0" using e True by (simp add: eqm_def)
    then show ?thesis using True unfolding Let_def d_def [symmetric] by simp
  next
    case False
    then show ?thesis using multiply_operand_int [OF t o, of d] e unfolding Let_def d_def [symmetric] by (simp add: eqm_def)
  qed
qed

lemma decryptScaleAndRound_value:
  assumes T: "wf_tool T" and t: "\<not> modulus_isZero (rt_t T)" and n: "n = rt_coeff_count T"
    and x: "rns_poly (rt_base_q T) n X a" and dest: "length d = n"
  defines "tv \<equiv> uint (mod_value (rt_t T))" and "g \<equiv> uint (mod_value (rt_gamma T))" and "Q \<equiv> base_product (rt_base_q T)"
  shows "\<exists>r e. decryptScaleAndRound T a d = Some r \<and> length r = n \<and>
    (\<forall>j<n. 0 \<le> e j \<and> e j < int (rns_size (rt_base_q T)) \<and>
      uint (r ! j) = (((tv * g * X j) div Q - e j + (g - 1) div 2) div g) mod tv)"
proof -
  let ?q = "rt_base_q T" and ?k = "rns_size (rt_base_q T)"
  have w: "wf_bases T" "wf_constants T" using T by (simp_all add: wf_tool_def)
  note b = wf_basesD [OF w(1)]
  obtain tg cv where tg: "rt_base_t_gamma T = Some tg" "wf_rns tg" "rns_base tg = [rt_t T, rt_gamma T]" "rns_size tg = 2"
    and cv: "rt_base_q_to_t_gamma_conv T = Some cv" "converts cv ?q [rt_t T, rt_gamma T]"
    and m: "wf_modulus (rt_t T)" "wf_modulus (rt_gamma T)"
    by (rule wf_bases_plain [OF w(1) t])
  have c: "inverse_operand (rt_t T) g (rt_inv_gamma_mod_t T)"
      "\<And>i. i < 2 \<Longrightarrow> neg_inverse_operand (rns_base tg ! i) Q (rt_neg_inv_q_mod_t_gamma T ! i)"
      "\<And>i. i < ?k \<Longrightarrow> operand_for (rns_base ?q ! i) (rt_prod_t_gamma_mod_q T ! i) \<and>
        uint (mop_operand (rt_prod_t_gamma_mod_q T ! i)) = tv * g mod modi (rns_base ?q) i"
    using w(2) t unfolding wf_constants_def Let_def tg(3) tv_def g_def Q_def by blast+
  define temp where "temp = parts_loop (\<lambda>i. multiplyPolyScalarCoeffmod_operand (drop (i * n) a) n (rt_prod_t_gamma_mod_q T ! i) (rns_base ?q ! i))
    n ?k 0 (replicate (n * ?k) 0)"
  have "rns_poly ?q n (\<lambda>j. tv * g * X j) temp"
    unfolding temp_def by (rule operand_parts [OF b(2) x _ c(3)]) simp_all
  then have temp: "residues ?q n (\<lambda>j. tv * g * X j) temp 0" by (simp add: rns_poly_residues)
  define N where "N j = (tv * g * X j) div Q - excess ?q temp n j" for j
  note f = fast_number_value [OF b(2) temp, folded Q_def]
  define u where "u = fastConvertArray cv temp n (replicate (n * rns_size tg) 0)"
  have "length (replicate (n * rns_size tg) (0 :: u64)) = n * length [rt_t T, rt_gamma T]" using tg(4) by simp
  note u = convertsD [where a = temp, OF cv(2) this, folded u_def]
  have ul: "length u = n * rns_size tg" using u(2) tg(4) by simp
  define v where "v = parts_loop (\<lambda>i x. multiplyPolyScalarCoeffmod_operand x n (rt_neg_inv_q_mod_t_gamma T ! i) (rns_base tg ! i) x) n (rns_size tg) 0 u"
  have v: "rns_poly tg n N v"
    unfolding v_def
  proof (rule parts_loop_rns [OF ul])
    fix i j assume i: "i < rns_size tg" and j: "j < n"
    let ?b = "rns_base tg ! i" and ?o = "rt_neg_inv_q_mod_t_gamma T ! i"
    have i2: "i < 2" using i tg(4) by simp
    have o: "operand_for ?b ?o" using c(2) [OF i2] by (simp add: neg_inverse_operand_def)
    have "uint (u ! (i * n + j)) = (tv * g * X j mod Q + excess ?q temp n j * Q) mod modi (rns_base tg) i"
      using u(1) [of i j] f(1) [OF j] i2 j tg(3) by simp
    moreover have "modi (rns_base tg) i dvd tv * g * X j" using i2 tg(3) by (auto simp: less_2_cases_iff tv_def g_def)
    note scaled_residue [OF this neg_inverse_eqm [OF c(2) [OF i2]], of "excess ?q temp n j"]
    ultimately have "uint (multiplyUintMod_operand (u ! (i * n + j)) ?o ?b) = N j mod modi (rns_base tg) i"
      using multiply_operand_int [OF wf_rns_modulus [OF tg(2) i] o] by (simp add: N_def eqm_def mod_mult_left_eq)
    then show "uint (multiplyPolyScalarCoeffmod_operand (poly_slice n i u) n ?o ?b (poly_slice n i u) ! j) = N j mod modi (rns_base tg) i"
      using j length_slice [OF ul i] slice_at [OF ul i j] by (simp add: poly_maps)
  qed (simp add: poly_maps)
  have vt: "uint (v ! j) = N j mod tv" "uint (v ! (n + j)) = N j mod g" if "j < n" for j
  proof -
    have r: "uint (v ! (i * n + j)) = N j mod modi (rns_base tg) i" if "i < 2" for i
      using v that \<open>j < n\<close> tg(4) by (simp add: rns_poly_def)
    show "uint (v ! j) = N j mod tv" "uint (v ! (n + j)) = N j mod g"
      using r [of 0] r [of 1] tg(3) by (simp_all add: tv_def g_def)
  qed
  define F where "F i = (let d = (if v ! (n + i) > drop_bit 1 (modulus_value (rt_gamma T))
      then addUintMod (v ! i) (barrettReduce64 (modulus_value (rt_gamma T) - v ! (n + i)) (rt_t T)) (rt_t T)
      else subUintMod (v ! i) (barrettReduce64 (v ! (n + i)) (rt_t T)) (rt_t T))
    in if d \<noteq> 0 then multiplyUintMod_operand d (rt_inv_gamma_mod_t T) (rt_t T) else d)" for i
  have F: "uint (F j) = ((N j + (g - 1) div 2) div g) mod tv" if "j < n" for j
    using decrypt_coeff [OF m vt(1) [OF that, unfolded tv_def] vt(2) [OF that, unfolded g_def] c(1) [unfolded g_def]]
    unfolding F_def g_def tv_def .
  have tg1: "rns_base tg ! 1 = rt_gamma T" using tg(3) by simp
  have "decryptScaleAndRound T a d = Some (coeff_loop F n 0 d)"
    unfolding decryptScaleAndRound_def Let_def tg(1) cv(1) tg1 option.case prod.case F_def v_def u_def temp_def n by (rule refl)
  then have res: "decryptScaleAndRound T a d = Some (map F [0..<n])" using dest by (simp add: coeff_loop_map)
  show ?thesis
  proof (intro exI conjI allI impI)
    show "decryptScaleAndRound T a d = Some (map F [0..<n])" by (rule res)
    show "0 \<le> excess ?q temp n j" "excess ?q temp n j < int ?k" if "j < n" for j using f(2,3) [OF that] .
    show "uint (map F [0..<n] ! j) = ((tv * g * X j div Q - excess ?q temp n j + (g - 1) div 2) div g) mod tv" if "j < n" for j
      using F [OF that] that by (simp add: N_def)
  qed simp
qed

lemma decryptScaleAndRound_message:
  assumes T: "wf_tool T" and t: "\<not> modulus_isZero (rt_t T)" and n: "n = rt_coeff_count T"
    and x: "rns_poly (rt_base_q T) n X a" and dest: "length d = n"
    and g: "g = uint (mod_value (rt_gamma T))" and Q: "Q = base_product (rt_base_q T)"
    and phase: "\<forall>j<n. uint (mod_value (rt_t T)) * X j = Q * M j + v j"
    and noise: "\<forall>j<n. g * \<bar>v j\<bar> \<le> ((g - 1) div 2 - int (rns_size (rt_base_q T))) * Q"
  shows "\<exists>r. decryptScaleAndRound T a d = Some r \<and> length r = n \<and>
    (\<forall>j<n. uint (r ! j) = M j mod uint (mod_value (rt_t T)))"
proof -
  let ?t = "uint (mod_value (rt_t T))" and ?k = "int (rns_size (rt_base_q T))"
  have w: "wf_bases T" using T by (simp add: wf_tool_def)
  obtain r e where r: "decryptScaleAndRound T a d = Some r" "length r = n"
    "\<forall>j<n. 0 \<le> e j \<and> e j < ?k \<and> uint (r ! j) = (((?t * g * X j) div Q - e j + (g - 1) div 2) div g) mod ?t"
    using decryptScaleAndRound_value [OF T t n x dest] unfolding g Q by blast
  have Qpos: "0 < Q" unfolding Q by (rule base_product_pos [OF wf_basesD(2) [OF w]])
  have gpos: "1 < g" using wf_bases_plain [OF w t] wf_modulus_int(1) unfolding g by blast
  have "((?t * g * X j) div Q - e j + (g - 1) div 2) div g = M j" if j: "j < n" for j
  proof -
    let ?h = "(g - 1) div 2" and ?D = "g * v j div Q"
    have "?t * g * X j = g * (?t * X j)" by simp
    also have "\<dots> = g * v j + g * M j * Q" using phase j by (simp add: algebra_simps)
    finally have div: "(?t * g * X j) div Q = ?D + g * M j" using Qpos by simp
    have a: "\<bar>g * v j\<bar> \<le> (?h - ?k) * Q" using noise j gpos by (simp add: abs_mult)
    have "?D \<le> ?h - ?k"
    proof -
      have "?D \<le> (?h - ?k) * Q div Q" by (rule zdiv_mono1) (use a Qpos in simp_all)
      then show ?thesis using Qpos by simp
    qed
    moreover have "- (?h - ?k) \<le> ?D"
    proof -
      have "- (?h - ?k) * Q \<le> g * v j" using a unfolding minus_mult_left [symmetric] by linarith
      from zdiv_mono1 [OF this Qpos] have "- (?h - ?k) * Q div Q \<le> ?D" .
      then show ?thesis using Qpos by simp
    qed
    moreover have "0 \<le> e j" "e j < ?k" using r(3) j by blast+
    moreover have "2 * ?h \<le> g - 1" by linarith
    ultimately have "0 \<le> ?D - e j + ?h" "?D - e j + ?h < g" using gpos by linarith+
    then have "(g * M j + (?D - e j + ?h)) div g = M j" using gpos by simp
    then show ?thesis unfolding div by (simp add: algebra_simps)
  qed
  then show ?thesis using r by auto
qed

text \<open>
  C11. Decryption: when the phase is \<open>Q / t\<close> times the message plus a noise \<open>v / t\<close> that is smaller than \<open>Q\<close> times almost one half,
  the scaled and rounded phase is the message modulo \<open>t\<close>; the margin that the exact result needs is the number of moduli over \<open>gamma\<close>.
\<close>

theorem decryptScaleAndRound_correct:
  assumes T: "wf_tool T" and t: "\<not> modulus_isZero (rt_t T)" and n: "n = rt_coeff_count T"
    and x: "rns_poly (rt_base_q T) n X a" and dest: "length d = n"
    and g: "g = uint (mod_value (rt_gamma T))" and Q: "Q = base_product (rt_base_q T)"
    and phase: "\<forall>j<n. uint (mod_value (rt_t T)) * X j = Q * M j + v j"
    and noise: "\<forall>j<n. g * \<bar>v j\<bar> \<le> ((g - 1) div 2 - int (rns_size (rt_base_q T))) * Q"
  shows "\<exists>r. decryptScaleAndRound T a d = Some r \<and> length r = n \<and>
    (\<forall>j<n. uint (r ! j) = M j mod uint (mod_value (rt_t T)))"
  using assms by (rule decryptScaleAndRound_message)

theorem decryptScaleAndRound_correct_witness:
  "\<exists>T r. wf_tool T \<and> base_product (rt_base_q T) = 1649 \<and> rt_t T = modulus_5 \<and>
    decryptScaleAndRound T [10, 7, 26, 38] [0, 0] = Some r \<and> uint (r ! 0) = 3 \<and> uint (r ! 1) = 4"
proof (rule example_tool)
  fix T
  assume T: "wf_tool T" "rt_coeff_count T = 2" "rns_base (rt_base_q T) = [modulus_17, modulus_97]" "rns_size (rt_base_q T) = 2"
    "base_product (rt_base_q T) = 1649" "rns_base (rt_base_Bsk T) = [modulus_29, modulus_37]" "rns_size (rt_base_Bsk T) = 2"
    "rns_size (rt_base_B T) = 1" "base_product (rt_base_B T) = 29" "rns_size (rt_base_Bsk_m_tilde T) = 3"
    "rt_t T = modulus_5" "rt_gamma T = modulus_41" "rt_m_tilde T = modulus_16" "rt_m_sk T = modulus_37"
  let ?X = "\<lambda>j :: nat. if j = 0 then 996 else 1299 :: int" and ?M = "\<lambda>j :: nat. if j = 0 then 3 else 4 :: int"
  let ?v = "\<lambda>j. 5 * ?X j - 1649 * ?M j"
  have x: "rns_poly (rt_base_q T) 2 ?X [10, 7, 26, 38]"
    unfolding rns_poly_def T(3,4) by (simp add: less_2_all modulus_17_def modulus_97_def)
  have t: "\<not> modulus_isZero (rt_t T)" "uint (mod_value (rt_t T)) = 5" "uint (mod_value (rt_gamma T)) = 41"
    unfolding T(11,12) by (simp_all add: modulus_isZero_def modulus_5_def modulus_41_def)
  have "\<forall>j<2. 41 * \<bar>?v j\<bar> \<le> ((41 - 1) div 2 - int (rns_size (rt_base_q T))) * 1649" unfolding T(4) by (simp add: less_2_all)
  from decryptScaleAndRound_correct [where M = ?M, OF T(1) t(1) T(2) [symmetric] x _ t(3) [symmetric] T(5) [symmetric] _ this, of "[0, 0]"] t(2) T(5,11)
  show ?thesis using T(1) by (auto simp: less_2_all)
qed

section \<open>Division that keeps the plaintext\<close>

lemma negate_coeff_int:
  assumes "uint x < uint (mod_value m)"
  shows "uint (let coeff = x; non_zero = of_bool (coeff \<noteq> 0) in (modulus_value m - coeff) AND - non_zero) = (- uint x) mod uint (mod_value m)"
    (is "uint ?w = _")
proof -
  have lt: "unat x < unat (mod_value m)" using assms unfolding unat_less_uint .
  have "int (unat ?w) = int ((unat (mod_value m) - unat x) mod unat (mod_value m))"
    using negatePoly_coeff_value [OF lt] by (rule arg_cong)
  also have "\<dots> = (uint (mod_value m) - uint x) mod uint (mod_value m)" using lt by (simp add: zmod_int of_nat_diff)
  finally show ?thesis by simp
qed

lemma multiplyPolyScalar_map:
  assumes "wf_modulus m" "length r = n" "j < n"
  shows "uint (multiplyPolyScalarCoeffmod p n s m r ! j) = uint (p ! j) * uint s mod uint (mod_value m)"
proof -
  let ?o = "set_operand (barrettReduce64 s m) m zero_operand"
  note o = residue_operand [OF assms(1) barrett_int [OF wf_modulusD(1) [OF assms(1)]], of s]
  have "multiplyPolyScalarCoeffmod p n s m r ! j = multiplyUintMod_operand (p ! j) ?o m"
    using assms(2,3) by (simp add: multiplyPolyScalarCoeffmod_def poly_maps)
  then show ?thesis using multiply_operand_int [OF assms(1) o(1), of "p ! j"] o(2) by (simp add: mod_mult_right_eq)
qed

text \<open>The words that make the last residues divisible: multiples of the last modulus that are negated residues modulo \<open>t\<close>.\<close>

definition correction_words :: "RNSTool \<Rightarrow> u64 list \<Rightarrow> u64 list" where
  "correction_words T last_input =
     (let n = rt_coeff_count T; c = moduloPolyCoeffs last_input n (rt_t T) (replicate n 0);
          c = negatePolyCoeffmod c n (rt_t T) c
      in if rt_inv_q_last_mod_t T \<noteq> 1 then multiplyPolyScalarCoeffmod c n (rt_inv_q_last_mod_t T) (rt_t T) c else c)"

lemma correction_words_value:
  assumes t: "wf_modulus (rt_t T)" and j: "j < rt_coeff_count T"
    and inv: "ql * uint (rt_inv_q_last_mod_t T) mod uint (mod_value (rt_t T)) = 1"
  shows "uint (correction_words T y ! j) < uint (mod_value (rt_t T))" "length (correction_words T y) = rt_coeff_count T"
    "uint (mod_value (rt_t T)) dvd uint (y ! j) + uint (correction_words T y ! j) * ql"
proof -
  let ?n = "rt_coeff_count T" and ?t = "rt_t T" and ?m = "uint (mod_value (rt_t T))" and ?i = "rt_inv_q_last_mod_t T"
  define c where "c = negatePolyCoeffmod (moduloPolyCoeffs y ?n ?t (replicate ?n 0)) ?n ?t (moduloPolyCoeffs y ?n ?t (replicate ?n 0))"
  note br = barrett_int [OF wf_modulusD(1) [OF t]] and m = wf_modulus_int(1) [OF t]
  have cl: "length c = ?n" by (simp add: c_def negatePolyCoeffmod_def moduloPolyCoeffs_def)
  have c: "uint (c ! j) = (- uint (y ! j)) mod ?m"
    using j negate_coeff_int [OF mod_word [OF br t], of "y ! j"] br [of "y ! j"]
    by (simp add: c_def negatePolyCoeffmod_def moduloPolyCoeffs_def coeff_loop_map mod_minus_eq)
  have w: "correction_words T y = (if ?i \<noteq> 1 then multiplyPolyScalarCoeffmod c ?n ?i ?t c else c)"
    unfolding correction_words_def Let_def c_def by (rule refl)
  have v: "uint (correction_words T y ! j) = uint (c ! j) * uint ?i mod ?m"
  proof (cases "?i = 1")
    case True
    then show ?thesis unfolding w using c by simp
  next
    case False
    then show ?thesis unfolding w using multiplyPolyScalar_map [OF t cl j] by simp
  qed
  show "uint (correction_words T y ! j) < ?m" unfolding v using m by simp
  show "length (correction_words T y) = ?n" unfolding w using cl by (simp add: multiplyPolyScalarCoeffmod_def poly_maps)
  have "eqm ?m (uint (y ! j) + uint (correction_words T y ! j) * ql) (uint (y ! j) + (- uint (y ! j) * uint ?i) * ql)"
    unfolding v c by (intro eqm_add eqm_mult eqm_refl) (simp add: eqm_def mod_mult_left_eq)
  also have "uint (y ! j) + (- uint (y ! j) * uint ?i) * ql = uint (y ! j) - uint (y ! j) * (ql * uint ?i)" by simp
  also have "eqm ?m \<dots> (uint (y ! j) - uint (y ! j) * 1)"
    by (intro eqm_diff eqm_mult eqm_refl) (use inv m in \<open>simp add: eqm_def\<close>)
  finally show "?m dvd uint (y ! j) + uint (correction_words T y ! j) * ql" by (simp add: eqm_def dvd_eq_mod_eq_0)
qed

lemma divide_t_coeff:
  assumes b: "wf_modulus b" and x: "uint x = X mod uint (mod_value b)" and y: "uint y = X mod ql"
    and d: "uint d = u * ql mod uint (mod_value b)" and op: "inverse_operand b ql op"
  shows "uint (multiplyUintMod_operand (x + (push_bit 1 (modulus_value b) - barrettReduce64 y b - d)) op b)
    = (X div ql - u) mod uint (mod_value b)"
proof -
  let ?q = "uint (mod_value b)" and ?y = "barrettReduce64 y b"
  have o: "operand_for b op" using op by (simp add: inverse_operand_def)
  have ry: "uint ?y = uint y mod ?q" by (rule barrett_int [OF wf_modulusD(1) [OF b]])
  note lt = mod_word [OF x b] mod_word [OF ry b] mod_word [OF d b]
  have two: "uint (push_bit 1 (mod_value b)) = 2 * ?q"
  proof -
    have "2 * ?q < 18446744073709551616" using wf_modulus_int(2) [OF b] by simp
    moreover have "uint (push_bit 1 (mod_value b)) = int (unat (push_bit 1 (mod_value b)))" by simp
    moreover have "int (unat (push_bit 1 (mod_value b))) = int (unat (mod_value b) * 2 ^ 1 mod 18446744073709551616)"
      by (simp only: unat_push64)
    ultimately show ?thesis by (simp add: zmod_int)
  qed
  have w: "uint (x + (push_bit 1 (mod_value b) - ?y - d)) = uint x + (2 * ?q - uint ?y - uint d)"
  proof -
    have bd: "0 \<le> uint x" "0 \<le> uint ?y" "0 \<le> uint d" "?q < 2305843009213693952" using wf_modulus_int(2) [OF b] by simp_all
    have "(2 * ?q - uint ?y) mod 18446744073709551616 = 2 * ?q - uint ?y"
      "(2 * ?q - uint ?y - uint d) mod 18446744073709551616 = 2 * ?q - uint ?y - uint d"
      "(uint x + (2 * ?q - uint ?y - uint d)) mod 18446744073709551616 = uint x + (2 * ?q - uint ?y - uint d)"
      using bd lt by (intro mod_pos_pos_trivial; linarith)+
    then show ?thesis using two by (simp only: uint_word_ariths word_size len_of_numeral_defs) simp
  qed
  have "eqm ?q (uint x + (2 * ?q - uint ?y - uint d)) (X + (0 - uint y - u * ql))"
    unfolding x ry d by (intro eqm_add eqm_diff) (simp_all add: eqm_def)
  also have "X + (0 - uint y - u * ql) = (X div ql - u) * ql" unfolding y by (simp add: algebra_simps flip: minus_mod_eq_div_mult)
  finally have "eqm ?q (uint x + (2 * ?q - uint ?y - uint d)) ((X div ql - u) * ql)" .
  from exact_quotient [OF inverse_eqm [OF op b] this]
  show ?thesis using multiply_operand_int [OF b o, of "x + (push_bit 1 (mod_value b) - ?y - d)"] w
    unfolding modulus_value_def by (simp only: eqm_def)
qed

text \<open>
  C15. \<open>modTAndDivideqLastInplace\<close> divides by the last modulus and subtracts, from each quotient, a number below \<open>t\<close>, chosen so that
  the result times the last modulus is congruent to the given number modulo \<open>t\<close>: the plaintext survives up to that factor.
\<close>

theorem modTAndDivideqLast_correct:
  assumes T: "wf_tool T" and t: "\<not> modulus_isZero (rt_t T)" and n: "n = rt_coeff_count T"
    and x: "rns_poly (rt_base_q T) n X a" and k: "k = rns_size (rt_base_q T)"
    and ql: "ql = modi (rns_base (rt_base_q T)) (k - 1)" and tv: "tv = uint (mod_value (rt_t T))"
  shows "length (modTAndDivideqLastInplace T a) = length a \<and> (\<exists>Y. \<forall>j<n.
    (\<forall>i<k - 1. uint (modTAndDivideqLastInplace T a ! (i * n + j)) = Y j mod modi (rns_base (rt_base_q T)) i) \<and>
    ql * Y j mod tv = X j mod tv \<and> X j div ql - tv < Y j \<and> Y j \<le> X j div ql)"
proof -
  let ?q = "rt_base_q T"
  have w: "wf_bases T" "wf_constants T" using T by (simp_all add: wf_tool_def)
  note b = wf_basesD [OF w(1)] and s = wf_basesD_sizes [OF w(1)]
  have m: "wf_modulus (rt_t T)" using wf_bases_plain [OF w(1) t] by blast
  have k0: "0 < k" "k - 1 < k" using wf_rnsD(10) [OF b(2) refl refl] k by simp_all
  have lst: "last (rns_base ?q) = rns_base ?q ! (k - 1)" using k0 s(3) k by (cases "rns_base ?q = []") (simp_all add: last_conv_nth)
  have inv: "ql * uint (rt_inv_q_last_mod_t T) mod uint (mod_value (rt_t T)) = 1"
    and invs: "inverses (butlast (rns_base ?q)) ql (rt_inv_q_last_mod_q T)"
    using w(2) t lst ql by (simp_all add: wf_constants_def Let_def)
  define y where "y = drop ((k - 1) * n) a"
  have len: "length a = n * k" using x k by (simp add: rns_poly_def)
  have yj: "uint (y ! j) = X j mod ql" if "j < n" for j
  proof -
    have "(k - 1) * n \<le> length a" using len by (simp add: mult.commute)
    then have "y ! j = a ! ((k - 1) * n + j)" by (simp add: y_def)
    then show ?thesis using x k0 that ql k by (simp add: rns_poly_def)
  qed
  define u where "u = correction_words T y"
  note uj = correction_words_value [OF m _ inv, folded n, of _ y, folded u_def tv]
  define g where "g = (\<lambda>i x. let b = rns_base ?q ! i; delta_mod_q_i = moduloPolyCoeffs u n b (replicate n 0);
               delta_mod_q_i = multiplyPolyScalarCoeffmod delta_mod_q_i n (modulus_value (rns_base ?q ! (k - 1))) b delta_mod_q_i;
               two_times_q_i = push_bit 1 (modulus_value b);
               x = coeff_loop (\<lambda>j. x ! j + (two_times_q_i - barrettReduce64 (y ! j) b - delta_mod_q_i ! j)) n 0 x
           in multiplyPolyScalarCoeffmod_operand x n (rt_inv_q_last_mod_q T ! i) b x)"
  have res: "modTAndDivideqLastInplace T a = parts_loop g n (k - 1) 0 a"
    unfolding modTAndDivideqLastInplace_def Let_def g_def u_def y_def correction_words_def k n by (rule refl)
  have gl: "length (g i x) = n" if "length x = n" for i x using that by (simp add: g_def poly_maps)
  have sl: "length (parts_loop g n (k - 1) 0 a) = n * k \<and> (\<forall>i<k. poly_slice n i (parts_loop g n (k - 1) 0 a) =
      (if 0 \<le> i \<and> i < 0 + (k - 1) then g i (poly_slice n i a) else poly_slice n i a))"
    by (rule parts_loop_slices [OF gl len]) simp_all
  have val: "uint (g i (poly_slice n i a) ! j) = (X j div ql - uint (u ! j)) mod modi (rns_base ?q) i" if i: "i < k - 1" and j: "j < n" for i j
  proof -
    let ?b = "rns_base ?q ! i" and ?x = "poly_slice n i a"
    have ik: "i < rns_size ?q" "i < k" using i k by simp_all
    note bm = wf_rns_modulus [OF b(2) ik(1)]
    have xl: "length ?x = n" by (rule length_slice [OF len ik(2)])
    have xj: "uint (?x ! j) = X j mod modi (rns_base ?q) i" using rns_poly_slice(2) [OF x ik(1) j] .
    define d where "d = multiplyPolyScalarCoeffmod (moduloPolyCoeffs u n ?b (replicate n 0)) n (modulus_value (rns_base ?q ! (k - 1))) ?b
      (moduloPolyCoeffs u n ?b (replicate n 0))"
    have "uint (d ! j) = uint (moduloPolyCoeffs u n ?b (replicate n 0) ! j) * uint (modulus_value (rns_base ?q ! (k - 1))) mod modi (rns_base ?q) i"
      unfolding d_def by (rule multiplyPolyScalar_map [OF bm _ j]) (simp add: moduloPolyCoeffs_def)
    moreover have "uint (moduloPolyCoeffs u n ?b (replicate n 0) ! j) = uint (u ! j) mod modi (rns_base ?q) i"
      using j barrett_int [OF wf_modulusD(1) [OF bm]] by (simp add: poly_maps)
    ultimately have d: "uint (d ! j) = uint (u ! j) * ql mod modi (rns_base ?q) i"
      by (simp add: ql modulus_value_def mod_mult_left_eq)
    have "inverse_operand (butlast (rns_base ?q) ! i) ql (rt_inv_q_last_mod_q T ! i)"
      using inversesD [OF invs, of i] i s(3) k by simp
    then have op: "inverse_operand ?b ql (rt_inv_q_last_mod_q T ! i)" using i s(3) k by (simp add: nth_butlast)
    have "g i ?x ! j = multiplyUintMod_operand (?x ! j + (push_bit 1 (modulus_value ?b) - barrettReduce64 (y ! j) ?b - d ! j)) (rt_inv_q_last_mod_q T ! i) ?b"
      unfolding g_def Let_def d_def [symmetric] using j xl by (simp add: multiplyPolyScalarCoeffmod_operand_def coeff_loop_map Let_def)
    then show ?thesis using divide_t_coeff [OF bm xj yj [OF j] d op] by simp
  qed
  have "(\<forall>i<k - 1. uint (modTAndDivideqLastInplace T a ! (i * n + j)) = (X j div ql - uint (u ! j)) mod modi (rns_base ?q) i) \<and>
      ql * (X j div ql - uint (u ! j)) mod tv = X j mod tv \<and> X j div ql - tv < X j div ql - uint (u ! j) \<and> X j div ql - uint (u ! j) \<le> X j div ql"
    if j: "j < n" for j
  proof (intro conjI allI impI)
    have v: "parts_loop g n (k - 1) 0 a ! (i * n + j) = g i (poly_slice n i a) ! j" if "i < k - 1" for i
      using that sl slice_at [of "parts_loop g n (k - 1) 0 a" n k i j] j by simp
    show "uint (modTAndDivideqLastInplace T a ! (i * n + j)) = (X j div ql - uint (u ! j)) mod modi (rns_base ?q) i" if "i < k - 1" for i
      unfolding res v [OF that] by (rule val [OF that j])
    have "tv dvd X j mod ql + uint (u ! j) * ql" using uj(3) [OF j] yj [OF j] by simp
    moreover have "X j - ql * (X j div ql - uint (u ! j)) = X j mod ql + uint (u ! j) * ql" by (simp add: algebra_simps flip: minus_mult_div_eq_mod)
    ultimately show "ql * (X j div ql - uint (u ! j)) mod tv = X j mod tv" by (metis mod_eq_dvd_iff)
    show "X j div ql - tv < X j div ql - uint (u ! j)" using uj(1) [OF j] by simp
  qed simp
  then show ?thesis using sl len unfolding res by (intro conjI exI [of _ "\<lambda>j. X j div ql - uint (u ! j)"]) simp_all
qed

theorem modTAndDivideqLast_correct_witness:
  "\<exists>T y. wf_tool T \<and> rns_base (rt_base_q T) = [modulus_17, modulus_97] \<and> rt_t T = modulus_5 \<and>
    uint (modTAndDivideqLastInplace T [14, 14, 30, 94] ! 0) = y mod 17 \<and> 97 * y mod 5 = 0 \<and> 5 < y \<and> y \<le> 10"
proof (rule example_tool)
  fix T
  assume T: "wf_tool T" "rt_coeff_count T = 2" "rns_base (rt_base_q T) = [modulus_17, modulus_97]" "rns_size (rt_base_q T) = 2"
    "base_product (rt_base_q T) = 1649" "rns_base (rt_base_Bsk T) = [modulus_29, modulus_37]" "rns_size (rt_base_Bsk T) = 2"
    "rns_size (rt_base_B T) = 1" "base_product (rt_base_B T) = 29" "rns_size (rt_base_Bsk_m_tilde T) = 3"
    "rt_t T = modulus_5" "rt_gamma T = modulus_41" "rt_m_tilde T = modulus_16" "rt_m_sk T = modulus_37"
  let ?X = "\<lambda>j :: nat. if j = 0 then 1000 else - 3 :: int"
  have x: "rns_poly (rt_base_q T) 2 ?X [14, 14, 30, 94]"
    unfolding rns_poly_def T(3,4) by (simp add: less_2_all modulus_17_def modulus_97_def)
  have t: "\<not> modulus_isZero (rt_t T)" "uint (mod_value (rt_t T)) = 5" "modi (rns_base (rt_base_q T)) (2 - 1) = 97"
    unfolding T(3,11) by (simp_all add: modulus_isZero_def modulus_5_def modulus_97_def)
  from modTAndDivideqLast_correct [OF T(1) t(1) T(2) [symmetric] x T(4) [symmetric] t(3) [symmetric] t(2) [symmetric]]
  obtain Y where "\<forall>j<2. (\<forall>i<2 - 1. uint (modTAndDivideqLastInplace T [14, 14, 30, 94] ! (i * 2 + j)) = Y j mod modi (rns_base (rt_base_q T)) i) \<and>
    97 * Y j mod 5 = ?X j mod 5 \<and> ?X j div 97 - 5 < Y j \<and> Y j \<le> ?X j div 97" by blast
  then show ?thesis using T(1,3,11) by (intro exI [of _ T] exI [of _ "Y 0"]) (simp add: less_2_all modulus_17_def)
qed

end
