(* ===== verification/Scaling_Variant.thy ===== *)
theory Scaling_Variant
  imports Plaintexts Rns_Behz
begin

unbundle bit_operations_syntax

text \<open>
  The embedding of plaintexts into the ring of the coefficient moduli, \<open>utils/scalingvariant.cpp\<close> of
  \<open>heu/library/algorithms/seal_gpu/\<close>, and what the constants of the context must be for it.
\<close>

section \<open>The code\<close>

text \<open>
  The loops over the coefficients of the plaintext and over the moduli; \<open>f i j x\<close> is the new value of the word \<open>x\<close>
  at coefficient \<open>i\<close> and modulus \<open>j\<close>.
\<close>

definition at_modulus :: "nat \<Rightarrow> nat \<Rightarrow> nat \<Rightarrow> (u64 \<Rightarrow> u64) \<Rightarrow> u64 list \<Rightarrow> u64 list" where
  "at_modulus coeff_count i j f destination =
     destination[j * coeff_count + i := f (destination ! (j * coeff_count + i))]"

definition addPlainWithoutScalingVariant :: "Plaintext \<Rightarrow> ContextData \<Rightarrow> u64 list \<Rightarrow> u64 list" where
  "addPlainWithoutScalingVariant plain cd destination =
     (let q = ep_coeff_modulus (cd_parms cd); n = unat (ep_poly_modulus_degree (cd_parms cd)); m = hd_internal (pt_data plain)
      in fold (\<lambda>i. fold (\<lambda>j. at_modulus n j i (\<lambda>x. addUintMod x (barrettReduce64 (m ! j) (q ! i)) (q ! i)))
           [0..<pt_coeff_count plain]) [0..<length q] destination)"

definition subPlainWithoutScalingVariant :: "Plaintext \<Rightarrow> ContextData \<Rightarrow> u64 list \<Rightarrow> u64 list" where
  "subPlainWithoutScalingVariant plain cd destination =
     (let q = ep_coeff_modulus (cd_parms cd); n = unat (ep_poly_modulus_degree (cd_parms cd)); m = hd_internal (pt_data plain)
      in fold (\<lambda>i. fold (\<lambda>j. at_modulus n j i (\<lambda>x. subUintMod x (barrettReduce64 (m ! j) (q ! i)) (q ! i)))
           [0..<pt_coeff_count plain]) [0..<length q] destination)"

text \<open>\<open>fix[0]\<close>, the rounded quotient of \<open>(q mod t) m + (t + 1) / 2\<close> by \<open>t\<close>.\<close>

definition scaling_fix :: "ContextData \<Rightarrow> u64 \<Rightarrow> u64" where
  "scaling_fix cd m =
     (let (prod0, prod1) = multiplyUint64 m (cd_coeff_modulus_mod_plain_modulus cd);
          (carry, numerator0) = addUint64 prod0 (cd_plain_upper_half_threshold cd);
          numerator1 = prod1 + ucast carry;
          (numerator, quot) = divideUint128Inplace [numerator0, numerator1] (modulus_value (ep_plain_modulus (cd_parms cd)))
      in quot ! 0)"

definition multiplyAddPlainWithScalingVariant :: "Plaintext \<Rightarrow> ContextData \<Rightarrow> u64 list \<Rightarrow> u64 list" where
  "multiplyAddPlainWithScalingVariant plain cd destination =
     (let q = ep_coeff_modulus (cd_parms cd); n = unat (ep_poly_modulus_degree (cd_parms cd)); m = hd_internal (pt_data plain)
      in fold (\<lambda>i. let f = scaling_fix cd (m ! i) in
           fold (\<lambda>j. at_modulus n i j (\<lambda>x.
             let scaled_rounded_coeff = multiplyAddUintMod_operand (m ! i) (cd_coeff_div_plain_modulus cd ! j) f (q ! j)
             in addUintMod x scaled_rounded_coeff (q ! j))) [0..<length q]) [0..<pt_coeff_count plain] destination)"

definition multiplySubPlainWithScalingVariant :: "Plaintext \<Rightarrow> ContextData \<Rightarrow> u64 list \<Rightarrow> u64 list" where
  "multiplySubPlainWithScalingVariant plain cd destination =
     (let q = ep_coeff_modulus (cd_parms cd); n = unat (ep_poly_modulus_degree (cd_parms cd)); m = hd_internal (pt_data plain)
      in fold (\<lambda>i. let f = scaling_fix cd (m ! i) in
           fold (\<lambda>j. at_modulus n i j (\<lambda>x.
             let scaled_rounded_coeff = multiplyAddUintMod_operand (m ! i) (cd_coeff_div_plain_modulus cd ! j) f (q ! j)
             in subUintMod x scaled_rounded_coeff (q ! j))) [0..<length q]) [0..<pt_coeff_count plain] destination)"

section \<open>The constants\<close>

text \<open>The constants that belong to the product \<open>Q\<close> of the moduli of a base and the plaintext modulus \<open>t\<close>.\<close>

definition wf_scaling :: "RNSBase \<Rightarrow> nat \<Rightarrow> ContextData \<Rightarrow> bool" where
  "wf_scaling b t cd \<longleftrightarrow>
     (let Q = crt_prod (modn (rns_base b)) (rns_size b) in
      length (cd_coeff_div_plain_modulus cd) = rns_size b \<and>
      (\<forall>i<rns_size b. operand_for (rns_base b ! i) (cd_coeff_div_plain_modulus cd ! i) \<and>
         unat (mop_operand (cd_coeff_div_plain_modulus cd ! i)) = (Q div t) mod modn (rns_base b) i) \<and>
      unat (cd_coeff_modulus_mod_plain_modulus cd) = Q mod t \<and>
      length (cd_upper_half_increment cd) = rns_size b \<and>
      (\<forall>i<rns_size b. unat (cd_upper_half_increment cd ! i) = (Q mod t) mod modn (rns_base b) i) \<and>
      unat (cd_plain_upper_half_threshold cd) = (t + 1) div 2)"

text \<open>The increments that lift the upper half of the plaintext coefficients to negative numbers.\<close>

definition wf_lift :: "RNSBase \<Rightarrow> nat \<Rightarrow> ContextData \<Rightarrow> bool" where
  "wf_lift b t cd \<longleftrightarrow>
     length (cd_plain_upper_half_increment cd) = rns_size b \<and>
     (if using_fast_plain_lift (cd_qualifiers cd)
      then \<forall>i<rns_size b. unat (cd_plain_upper_half_increment cd ! i) = modn (rns_base b) i - t
      else uval (cd_plain_upper_half_increment cd) = crt_prod (modn (rns_base b)) (rns_size b) - t)"

lemma plain_constants_value:
  assumes b: "wf_rns b" "rns_base b = ms" "rns_size b \<le> 64" and t: "wf_modulus tm" "t = unat (mod_value tm)"
    and total: "length (cd_total_coeff_modulus cd) = rns_size b"
      "uval (cd_total_coeff_modulus cd) = crt_prod (modn ms) (rns_size b)" "t < crt_prod (modn ms) (rns_size b)"
    and fast: "using_fast_plain_lift (cd_qualifiers cd) = list_all (\<lambda>m. modulus_value m > mod_value tm) ms"
  shows "\<exists>cd'. plain_constants ms tm b cd = Some (Inr cd') \<and> wf_scaling b t cd' \<and> wf_lift b t cd' \<and>
    (\<exists>x d i th pinc. cd' = cd\<lparr>cd_coeff_modulus_mod_plain_modulus := x, cd_coeff_div_plain_modulus := d,
      cd_upper_half_increment := i, cd_plain_upper_half_threshold := th, cd_plain_upper_half_increment := pinc\<rparr>)"
proof -
  let ?k = "rns_size b" and ?Q = "crt_prod (modn ms) (rns_size b)"
  note w = wf_rnsD [OF b(1) refl refl, unfolded b(2)]
  have t1: "1 < t" "t < 2305843009213693952" using wf_modulusD(2,3) [OF t(1)] by (simp_all add: t(2))
  define wide where "wide = duplicateUintIfNeeded [modulus_value tm] ?k False"
  have wide: "length wide = ?k" "uval wide = t"
  proof -
    have "wide = (if ?k = 1 then [mod_value tm] else setUint_counts [mod_value tm] ?k)"
      using w(10) by (auto simp: wide_def duplicateUintIfNeeded_def modulus_value_def)
    moreover have "t mod 18446744073709551616 ^ ?k = t"
      using t1 w(10) less_le_trans [of t 18446744073709551616 "18446744073709551616 ^ ?k"] self_le_power [of "18446744073709551616 :: nat" ?k]
      by simp
    ultimately show "length wide = ?k" "uval wide = t"
      by (auto simp: uval_setUint_counts t(2))
  qed
  have "0 < uval wide" "64 * length (cd_total_coeff_modulus cd) + 63 < 2 ^ 31" using t1(1) wide b(3) total(1) by simp_all
  then obtain r q where rq: "divideUint (cd_total_coeff_modulus cd) wide = Some (Inr (r, q))" "length r = ?k" "length q = ?k"
      "uval q = ?Q div t" "uval r = ?Q mod t"
    using divideUintInplace_spec [of wide "cd_total_coeff_modulus cd"] wide total(1,2)
    by (auto simp: divideUint_def setUint_def)
  have qlt: "uval q < ?Q" using total(3) t1(1) by (simp add: rq(4))
  have rlt: "uval r < ?Q" using total(3) t1(1) mod_less_divisor [of t ?Q] by (simp only: rq(5)) linarith
  obtain dl where dl: "decompose b (Some q) = Inr dl" "length dl = ?k" "\<And>i. i < ?k \<Longrightarrow> unat (dl ! i) = (?Q div t) mod modn ms i"
    using decompose_value [OF b(1) rq(3)] qlt rq(4) b(2) by auto
  obtain ic where ic: "decompose b (Some r) = Inr ic" "length ic = ?k" "\<And>i. i < ?k \<Longrightarrow> unat (ic ! i) = (?Q mod t) mod modn ms i"
    using decompose_value [OF b(1) rq(2)] rlt rq(5) b(2) by auto
  have r0: "unat (r ! 0) = ?Q mod t"
  proof -
    have "?Q mod t < 18446744073709551616" using t1 mod_less_divisor [of t ?Q] by linarith
    then have lt: "uval r < 18446744073709551616" by (simp only: rq(5))
    obtain x r' where r: "r = x # r'" using rq(2) w(10) by (cases r) auto
    have "uval r' = 0" using lt by (simp add: r) 
    then show ?thesis using rq(5) by (simp add: r)
  qed
  have op: "operand_for (ms ! i) (set_operand (dl ! i) (ms ! i) zero_operand) \<and>
      mop_operand (set_operand (dl ! i) (ms ! i) zero_operand) = dl ! i" if "i < ?k" for i
  proof (rule set_operand_for)
    have "0 < modn ms i" using wf_modulusD(2) [OF w(11) [OF that]] by simp
    then show "dl ! i < mod_value (ms ! i)" using dl(3) [OF that] by (simp add: word_less_nat_alt)
  qed
  have th: "unat (drop_bit 1 (modulus_value tm + 1)) = (t + 1) div 2"
    using t1 by (simp add: unat_drop64 unat_add64 modulus_value_def t(2))
  let ?pinc = "if using_fast_plain_lift (cd_qualifiers cd) then map (\<lambda>m. modulus_value m - modulus_value tm) ms
    else snd (subUint (cd_total_coeff_modulus cd) wide)"
  let ?cd = "cd\<lparr>cd_coeff_modulus_mod_plain_modulus := r ! 0,
      cd_coeff_div_plain_modulus := map (\<lambda>i. set_operand (dl ! i) (rns_base b ! i) zero_operand) [0..<?k],
      cd_upper_half_increment := ic, cd_plain_upper_half_threshold := drop_bit 1 (modulus_value tm + 1),
      cd_plain_upper_half_increment := ?pinc\<rparr>"
  have "plain_constants ms tm b cd = Some (Inr ?cd)"
    using rq(1) dl(1) ic(1) by (simp add: plain_constants_def w(1) wide_def [symmetric])
  moreover have "wf_scaling b t ?cd"
    using op dl(3) ic r0 th by (simp add: wf_scaling_def b(2))
  moreover have "wf_lift b t ?cd"
  proof (cases "using_fast_plain_lift (cd_qualifiers cd)")
    case True
    have "unat (modulus_value (ms ! i) - modulus_value tm) = modn ms i - t" if "i < ?k" for i
    proof -
      have "mod_value tm < mod_value (ms ! i)" using True fast that w(1) by (simp add: list_all_length modulus_value_def)
      then show ?thesis by (simp add: unat_sub64 modulus_value_def t(2) word_less_nat_alt)
    qed
    then show ?thesis using True w(1) by (simp add: wf_lift_def b(2))
  next
    case False
    obtain c s where s: "subUint (cd_total_coeff_modulus cd) wide = (c, s)" by fastforce
    have ne: "cd_total_coeff_modulus cd \<noteq> []" using total(1) w(10) by auto
    note v = subUint_value [OF s _ ne, unfolded wide total(1), OF refl]
    have "unat c = 0"
    proof (rule ccontr)
      assume "unat c \<noteq> 0"
      then have "unat c = 1" using v(2) by simp
      then have "uval s + t = ?Q + 18446744073709551616 ^ ?k" using v(3) total(2) by simp
      moreover have "uval s < 18446744073709551616 ^ ?k" using uval_lt [of s] v(1) by simp
      ultimately show False using total(3) by linarith
    qed
    then have "uval s = ?Q - t" using v(3) total(2) by simp
    then show ?thesis using False v(1) by (simp add: wf_lift_def b(2) s)
  qed
  ultimately show ?thesis by blast
qed

section \<open>The loops\<close>

text \<open>Updates at distinct places do not see each other.\<close>

lemma length_fold_write: "length (fold (\<lambda>x d. d[g x := h x (d ! g x)]) xs d) = length d"
  by (induction xs arbitrary: d) simp_all

lemma fold_update_other:
  "p \<notin> g ` set xs \<Longrightarrow> fold (\<lambda>x d. d[g x := h x (d ! g x)]) xs d ! p = d ! p"
  by (induction xs arbitrary: d) auto

lemma fold_update_at:
  assumes "inj_on g (set xs)" "distinct xs" "x \<in> set xs" "g x < length d"
  shows "fold (\<lambda>x d. d[g x := h x (d ! g x)]) xs d ! g x = h x (d ! g x)"
  using assms
proof (induction xs arbitrary: d)
  case (Cons y ys)
  show ?case
  proof (cases "x = y")
    case True
    then have "g x \<notin> g ` set ys" using Cons.prems(1,2) by (auto simp: inj_on_def)
    then show ?thesis using True Cons.prems(4) by (simp add: fold_update_other)
  next
    case False
    then have x: "x \<in> set ys" using Cons.prems(3) by simp
    moreover have "g x \<noteq> g y" using x False Cons.prems(1) by (auto simp: inj_on_def)
    ultimately show ?thesis using Cons.prems by (simp add: Cons.IH)
  qed
qed simp

lemma fold_product: "fold (\<lambda>i. fold (\<lambda>j. F i j) ys) xs d = fold (\<lambda>(i, j). F i j) (List.product xs ys) d"
  by (induction xs arbitrary: d) (simp_all add: fold_map comp_def)

lemma grid_place: "i < (n :: nat) \<Longrightarrow> j * n + i = j' * n + i' \<Longrightarrow> i' < n \<Longrightarrow> i = i' \<and> j = j'"
proof -
  assume a: "i < n" "j * n + i = j' * n + i'" "i' < n"
  have "(j * n + i) mod n = i" "(j * n + i) div n = j" using a(1) by simp_all
  moreover have "(j' * n + i') mod n = i'" "(j' * n + i') div n = j'" using a(3) by simp_all
  ultimately show ?thesis unfolding a(2) by simp
qed

lemma grid_inj: "c \<le> (n :: nat) \<Longrightarrow> inj_on (\<lambda>(i, j). j * n + i) ({0..<c} \<times> K)"
proof (rule inj_onI)
  fix x y assume c: "c \<le> (n :: nat)" and x: "x \<in> {0..<c} \<times> K" and y: "y \<in> {0..<c} \<times> K"
    and e: "(case x of (i, j) \<Rightarrow> j * n + i) = (case y of (i, j) \<Rightarrow> j * n + i)"
  obtain i j i' j' where "x = (i, j)" "y = (i', j')" by fastforce
  then show "x = y" using grid_place [of i n j j' i'] c x y e by simp
qed

lemma grid_inj': "c \<le> (n :: nat) \<Longrightarrow> inj_on (\<lambda>(j, i). j * n + i) (K \<times> {0..<c})"
proof (rule inj_onI)
  fix x y assume c: "c \<le> (n :: nat)" and x: "x \<in> K \<times> {0..<c}" and y: "y \<in> K \<times> {0..<c}"
    and e: "(case x of (j, i) \<Rightarrow> j * n + i) = (case y of (j, i) \<Rightarrow> j * n + i)"
  obtain i j i' j' where "x = (j, i)" "y = (j', i')" by fastforce
  then show "x = y" using grid_place [of i n j j' i'] c x y e by simp
qed

text \<open>The loops change the words of the coefficients below \<open>c\<close>, for each modulus, and no others.\<close>

lemma grid_loops:
  assumes "c \<le> n" "length d = k * n" "i < n" "j < k"
  shows "fold (\<lambda>i. fold (\<lambda>j. at_modulus n i j (f i j)) [0..<k]) [0..<c] d ! (j * n + i) =
      (if i < c then f i j (d ! (j * n + i)) else d ! (j * n + i))"
    and "fold (\<lambda>j. fold (\<lambda>i. at_modulus n i j (f i j)) [0..<c]) [0..<k] d ! (j * n + i) =
      (if i < c then f i j (d ! (j * n + i)) else d ! (j * n + i))"
proof -
  let ?g = "\<lambda>(i, j). j * n + i" and ?h = "\<lambda>(i, j). f i j"
  have in_range: "j * n + i < length d"
    using assms(2,3,4) mult_le_mono1 [of "Suc j" k n] by simp
  have inj: "inj_on ?g (set (List.product [0..<c] [0..<k]))"
    using grid_inj [OF assms(1)] by simp
  have e: "fold (\<lambda>i. fold (\<lambda>j. at_modulus n i j (f i j)) [0..<k]) [0..<c] d =
      fold (\<lambda>x d. d[?g x := ?h x (d ! ?g x)]) (List.product [0..<c] [0..<k]) d"
    unfolding fold_product by (rule fold_cong) (auto simp: at_modulus_def fun_eq_iff)
  show "fold (\<lambda>i. fold (\<lambda>j. at_modulus n i j (f i j)) [0..<k]) [0..<c] d ! (j * n + i) =
      (if i < c then f i j (d ! (j * n + i)) else d ! (j * n + i))"
  proof (cases "i < c")
    case True
    then show ?thesis
      using fold_update_at [OF inj distinct_product, of "(i, j)" d ?h] in_range assms(4) by (simp add: e)
  next
    case False
    have "j * n + i \<notin> ?g ` set (List.product [0..<c] [0..<k])"
    proof
      assume "j * n + i \<in> ?g ` set (List.product [0..<c] [0..<k])"
      then obtain i' j' where "i' < c" "j * n + i = j' * n + i'" by force
      then show False using grid_place [of i n j j' i'] False assms(1,3) by simp
    qed
    then show ?thesis using False by (simp add: e fold_update_other del: set_product)
  qed
  let ?g' = "\<lambda>(j, i). j * n + i" and ?h' = "\<lambda>(j, i). f i j"
  have inj': "inj_on ?g' (set (List.product [0..<k] [0..<c]))"
    using grid_inj' [OF assms(1)] by simp
  have e': "fold (\<lambda>j. fold (\<lambda>i. at_modulus n i j (f i j)) [0..<c]) [0..<k] d =
      fold (\<lambda>x d. d[?g' x := ?h' x (d ! ?g' x)]) (List.product [0..<k] [0..<c]) d"
    unfolding fold_product by (rule fold_cong) (auto simp: at_modulus_def fun_eq_iff)
  show "fold (\<lambda>j. fold (\<lambda>i. at_modulus n i j (f i j)) [0..<c]) [0..<k] d ! (j * n + i) =
      (if i < c then f i j (d ! (j * n + i)) else d ! (j * n + i))"
  proof (cases "i < c")
    case True
    then show ?thesis
      using fold_update_at [OF inj' distinct_product, of "(j, i)" d ?h'] in_range assms(4) by (simp add: e')
  next
    case False
    have "j * n + i \<notin> ?g' ` set (List.product [0..<k] [0..<c])"
    proof
      assume "j * n + i \<in> ?g' ` set (List.product [0..<k] [0..<c])"
      then obtain i' j' where "i' < c" "j * n + i = j' * n + i'" by force
      then show False using grid_place [of i n j j' i'] False assms(1,3) by simp
    qed
    then show ?thesis using False by (simp add: e' fold_update_other del: set_product)
  qed
qed

lemma length_grid_loops:
  "length (fold (\<lambda>i. fold (\<lambda>j. at_modulus n i j (f i j)) ys) xs d) = length d"
  "length (fold (\<lambda>j. fold (\<lambda>i. at_modulus n i j (f i j)) xs) ys d) = length d"
proof -
  have "fold (\<lambda>i. fold (\<lambda>j. at_modulus n i j (f i j)) ys) xs d =
      fold (\<lambda>x d. d[(\<lambda>(i, j). j * n + i) x := (\<lambda>(i, j). f i j) x (d ! (\<lambda>(i, j). j * n + i) x)]) (List.product xs ys) d"
    unfolding fold_product by (rule fold_cong) (auto simp: at_modulus_def fun_eq_iff)
  then show "length (fold (\<lambda>i. fold (\<lambda>j. at_modulus n i j (f i j)) ys) xs d) = length d"
    by (simp only: length_fold_write)
  have "fold (\<lambda>j. fold (\<lambda>i. at_modulus n i j (f i j)) xs) ys d =
      fold (\<lambda>x d. d[(\<lambda>(j, i). j * n + i) x := (\<lambda>(j, i). f i j) x (d ! (\<lambda>(j, i). j * n + i) x)]) (List.product ys xs) d"
    unfolding fold_product by (rule fold_cong) (auto simp: at_modulus_def fun_eq_iff)
  then show "length (fold (\<lambda>j. fold (\<lambda>i. at_modulus n i j (f i j)) xs) ys d) = length d"
    by (simp only: length_fold_write)
qed

section \<open>The scaled plaintext\<close>

text \<open>The abstract value: \<open>Q\<close> times the coefficient, divided by \<open>t\<close> and rounded to the nearest integer.\<close>

definition scaled :: "nat \<Rightarrow> nat \<Rightarrow> nat \<Rightarrow> nat" where
  "scaled Q t m = (Q * m + (t + 1) div 2) div t"

lemma scaled_split:
  assumes "0 < t"
  shows "scaled Q t m = Q div t * m + ((Q mod t) * m + (t + 1) div 2) div t"
proof -
  have "Q * m + (t + 1) div 2 = t * (Q div t * m) + ((Q mod t) * m + (t + 1) div 2)"
    using div_mult_mod_eq [of Q t] by (metis add.assoc distrib_right mult.assoc mult.commute)
  then show ?thesis unfolding scaled_def using assms by (simp only:) simp
qed

lemma scaling_fix_value:
  assumes t: "wf_modulus (ep_plain_modulus (cd_parms cd))" "t = unat (mod_value (ep_plain_modulus (cd_parms cd)))"
    and m: "unat m < t" and r: "unat (cd_coeff_modulus_mod_plain_modulus cd) = r" "r < t"
    and th: "unat (cd_plain_upper_half_threshold cd) = (t + 1) div 2"
  shows "unat (scaling_fix cd m) = (r * unat m + (t + 1) div 2) div t"
proof -
  let ?t = "mod_value (ep_plain_modulus (cd_parms cd))"
  have t1: "1 < t" "t < 2305843009213693952" using wf_modulusD(2,3) [OF t(1)] by (simp_all add: t(2))
  obtain p0 p1 where p: "multiplyUint64 m (cd_coeff_modulus_mod_plain_modulus cd) = (p0, p1)" by fastforce
  obtain c n0 where c: "addUint64 p0 (cd_plain_upper_half_threshold cd) = (c, n0)" by fastforce
  obtain nm quot where d: "divideUint128Inplace [n0, p1 + ucast c] ?t = (nm, quot)" by fastforce
  note pv = multiplyUint64_value [OF p] and cv = addUint64_value [OF c]
  have rm: "r * unat m \<le> (t - 1) * (t - 1)" using m r(2) by (intro mult_le_mono) simp_all
  have sq: "(t - 1) * (t - 1) + t \<le> t * t"
  proof -
    obtain s where "t = Suc s" using t1(1) by (cases t) auto
    then show ?thesis by simp
  qed
  have big: "t * t < 2305843009213693952 * 2305843009213693952"
    using mult_strict_mono [OF t1(2) t1(2)] t1(1) by simp
  have p1: "unat p1 < 2305843009213693952"
  proof (rule ccontr)
    assume "\<not> unat p1 < 2305843009213693952"
    then have "18446744073709551616 * 2305843009213693952 \<le> 18446744073709551616 * unat p1" by simp
    then have "18446744073709551616 * 2305843009213693952 \<le> r * unat m" using pv r(1) by (simp add: mult.commute)
    then show False using rm sq big by linarith
  qed
  have n1: "unat (p1 + ucast c) = unat p1 + unat c"
    using p1 cv(2) by (simp add: unat_add64 mod_if)
  have num: "uval [n0, p1 + ucast c] = r * unat m + (t + 1) div 2"
    using pv cv(1) r(1) th by (simp add: n1 algebra_simps)
  have tn: "?t \<noteq> 0" using t1(1) t(2) by auto
  note dv = divideUint128Inplace_spec [OF tn d, folded t(2)]
  obtain q0 q1 where q: "quot = [q0, q1]" using dv(2) by (auto simp: numeral_2_eq_2 length_Suc_conv)
  have "r * unat m + (t + 1) div 2 \<le> t * t" using rm sq t1(1) by linarith
  then have "uval quot \<le> t" unfolding dv(3) num using div_le_mono [of _ "t * t" t] t1(1) by fastforce
  then have "unat q1 = 0" using t1(2) by (simp add: q)
  then have "unat q0 = (r * unat m + (t + 1) div 2) div t" using dv(3) num by (simp add: q)
  then show ?thesis using p c d by (simp add: scaling_fix_def q modulus_value_def)
qed

section \<open>The loops on residue polynomials\<close>

definition plain_fits :: "nat \<Rightarrow> nat \<Rightarrow> Plaintext \<Rightarrow> bool" where
  "plain_fits n t p \<longleftrightarrow> pt_coeff_count p \<le> n \<and> (\<forall>i<pt_coeff_count p. unat (hd_internal (pt_data p) ! i) < t)"

text \<open>The coefficients of a plaintext as numbers, with zeros from its coefficient count on.\<close>

definition plain_coeff :: "Plaintext \<Rightarrow> nat \<Rightarrow> nat" where
  "plain_coeff p i = (if i < pt_coeff_count p then unat (hd_internal (pt_data p) ! i) else 0)"

lemma grid_rns_poly:
  assumes b: "wf_rns b" and d: "rns_poly b n X d" and c: "c \<le> n"
    and f: "\<And>i j x. i < c \<Longrightarrow> j < rns_size b \<Longrightarrow> uint x = X i mod modi (rns_base b) j \<Longrightarrow>
      uint (f i j x) = (X i + Y i) mod modi (rns_base b) j"
    and Y: "\<And>i. c \<le> i \<Longrightarrow> Y i = 0"
  shows "rns_poly b n (\<lambda>i. X i + Y i) (fold (\<lambda>i. fold (\<lambda>j. at_modulus n i j (f i j)) [0..<rns_size b]) [0..<c] d)"
    and "rns_poly b n (\<lambda>i. X i + Y i) (fold (\<lambda>j. fold (\<lambda>i. at_modulus n i j (f i j)) [0..<c]) [0..<rns_size b] d)"
proof -
  have len: "length d = rns_size b * n" and x: "\<And>i j. i < n \<Longrightarrow> j < rns_size b \<Longrightarrow> uint (d ! (j * n + i)) = X i mod modi (rns_base b) j"
    using d by (simp_all add: rns_poly_def mult.commute)
  have "uint (if i < c then f i j (d ! (j * n + i)) else d ! (j * n + i)) = (X i + Y i) mod modi (rns_base b) j"
    if "i < n" "j < rns_size b" for i j
    using f [OF _ that(2) x [OF that]] Y [of i] x [OF that] by (cases "i < c") simp_all
  then show "rns_poly b n (\<lambda>i. X i + Y i) (fold (\<lambda>i. fold (\<lambda>j. at_modulus n i j (f i j)) [0..<rns_size b]) [0..<c] d)"
    "rns_poly b n (\<lambda>i. X i + Y i) (fold (\<lambda>j. fold (\<lambda>i. at_modulus n i j (f i j)) [0..<c]) [0..<rns_size b] d)"
    using d by (simp_all add: rns_poly_def length_grid_loops grid_loops [OF c len])
qed

lemma scaled_coeff_residue:
  assumes b: "wf_rns b" "j < rns_size b" and c: "wf_scaling b t cd" and t: "0 < t" "unat m < t"
    and f: "unat f = ((crt_prod (modn (rns_base b)) (rns_size b) mod t) * unat m + (t + 1) div 2) div t"
  shows "uint (multiplyAddUintMod_operand m (cd_coeff_div_plain_modulus cd ! j) f (rns_base b ! j)) =
    int (scaled (crt_prod (modn (rns_base b)) (rns_size b)) t (unat m)) mod modi (rns_base b) j"
proof -
  let ?Q = "crt_prod (modn (rns_base b)) (rns_size b)" and ?q = "modi (rns_base b) j"
  have m: "wf_modulus (rns_base b ! j)" by (rule wf_rns_modulus [OF b])
  have o: "operand_for (rns_base b ! j) (cd_coeff_div_plain_modulus cd ! j)"
    "unat (mop_operand (cd_coeff_div_plain_modulus cd ! j)) = ?Q div t mod modn (rns_base b) j"
    using c b(2) by (simp_all add: wf_scaling_def Let_def)
  have "uint (mop_operand (cd_coeff_div_plain_modulus cd ! j)) = int (?Q div t) mod ?q"
    using arg_cong [OF o(2), of int] by (simp add: zmod_int)
  then have "uint (multiplyAddUintMod_operand m (cd_coeff_div_plain_modulus cd ! j) f (rns_base b ! j)) =
      (uint m * (int (?Q div t) mod ?q) + uint f) mod ?q"
    by (simp add: multiply_add_int [OF m o(1)])
  also have "\<dots> = (uint m * int (?Q div t) + uint f) mod ?q" by (rule mod_add_cong [OF mod_mult_right_eq refl])
  also have "uint m * int (?Q div t) + uint f = int (?Q div t * unat m + unat f)" by (simp add: mult.commute)
  also have "?Q div t * unat m + unat f = scaled ?Q t (unat m)" by (simp only: scaled_split [OF t(1)] f)
  finally show ?thesis .
qed

lemma scaling_rns_poly:
  assumes b: "wf_rns b" "rns_base b = ep_coeff_modulus (cd_parms cd)" and n: "n = unat (ep_poly_modulus_degree (cd_parms cd))"
    and t: "wf_modulus (ep_plain_modulus (cd_parms cd))" "t = unat (mod_value (ep_plain_modulus (cd_parms cd)))"
    and c: "wf_scaling b t cd" and p: "plain_fits n t p" and d: "rns_poly b n X d"
    and S: "S = (\<lambda>i. int (if i < pt_coeff_count p then scaled (crt_prod (modn (rns_base b)) (rns_size b)) t (plain_coeff p i) else 0))"
  shows "rns_poly b n (\<lambda>i. X i + S i) (multiplyAddPlainWithScalingVariant p cd d)"
    "rns_poly b n (\<lambda>i. X i - S i) (multiplySubPlainWithScalingVariant p cd d)"
    "rns_poly b n (\<lambda>i. X i + int (plain_coeff p i)) (addPlainWithoutScalingVariant p cd d)"
    "rns_poly b n (\<lambda>i. X i - int (plain_coeff p i)) (subPlainWithoutScalingVariant p cd d)"
proof -
  let ?m = "hd_internal (pt_data p)" and ?Q = "crt_prod (modn (rns_base b)) (rns_size b)" and ?k = "rns_size b"
  have k: "length (ep_coeff_modulus (cd_parms cd)) = ?k" using wf_rnsD(1) [OF b(1) refl refl] b(2) by simp
  have t0: "0 < t" using wf_modulusD(2) [OF t(1)] t(2) by simp
  have cnt: "pt_coeff_count p \<le> n" using p by (simp add: plain_fits_def)
  have wf: "wf_modulus (rns_base b ! j)" if "j < ?k" for j by (rule wf_rns_modulus [OF b(1) that])
  have lt: "uint x < modi (rns_base b) j" if "uint x = Z mod modi (rns_base b) j" "j < ?k" for x Z j
    using mod_word [OF that(1) wf [OF that(2)]] .
  have sc: "uint (multiplyAddUintMod_operand (?m ! i) (cd_coeff_div_plain_modulus cd ! j) (scaling_fix cd (?m ! i)) (rns_base b ! j)) =
      S i mod modi (rns_base b) j" if "i < pt_coeff_count p" "j < ?k" for i j
  proof -
    have m: "unat (?m ! i) < t" using p that(1) by (simp add: plain_fits_def)
    have "unat (scaling_fix cd (?m ! i)) = ((?Q mod t) * unat (?m ! i) + (t + 1) div 2) div t"
      by (rule scaling_fix_value [OF t m]) (use c t0 in \<open>simp_all add: wf_scaling_def Let_def\<close>)
    from scaled_coeff_residue [OF b(1) that(2) c t0 m this] show ?thesis using that(1) by (simp add: S plain_coeff_def)
  qed
  have br: "uint (barrettReduce64 (?m ! i) (rns_base b ! j)) = int (plain_coeff p i) mod modi (rns_base b) j"
    if "i < pt_coeff_count p" "j < ?k" for i j
    using barrett_int [OF wf_modulusD(1) [OF wf [OF that(2)]], of "?m ! i"] that(1) by (simp add: plain_coeff_def)
  have add: "uint (addUintMod x y (rns_base b ! j)) = (Z + W) mod modi (rns_base b) j"
    if "uint x = Z mod modi (rns_base b) j" "uint y = W mod modi (rns_base b) j" "j < ?k" for x y Z W j
    using add_int [OF wf [OF that(3)] lt [OF that(1,3)] less_imp_le [OF lt [OF that(2,3)]]] that(1,2) by (simp add: mod_simps)
  have sub: "uint (subUintMod x y (rns_base b ! j)) = (Z + - W) mod modi (rns_base b) j"
    if "uint x = Z mod modi (rns_base b) j" "uint y = W mod modi (rns_base b) j" "j < ?k" for x y Z W j
    using sub_int [OF lt [OF that(1,3)] less_imp_le [OF lt [OF that(2,3)]]] that(1,2) by (simp add: mod_simps)
  note defs = Let_def b(2) [symmetric] n [symmetric] k [unfolded b(2) [symmetric]]
  show "rns_poly b n (\<lambda>i. X i + S i) (multiplyAddPlainWithScalingVariant p cd d)"
    unfolding multiplyAddPlainWithScalingVariant_def defs
    by (rule grid_rns_poly(1) [OF b(1) d cnt]) (use add sc in \<open>simp_all add: S\<close>)
  have "rns_poly b n (\<lambda>i. X i + - S i) (multiplySubPlainWithScalingVariant p cd d)"
    unfolding multiplySubPlainWithScalingVariant_def defs
    by (rule grid_rns_poly(1) [OF b(1) d cnt]) (use sub sc in \<open>simp_all add: S\<close>)
  then show "rns_poly b n (\<lambda>i. X i - S i) (multiplySubPlainWithScalingVariant p cd d)" by simp
  show "rns_poly b n (\<lambda>i. X i + int (plain_coeff p i)) (addPlainWithoutScalingVariant p cd d)"
    unfolding addPlainWithoutScalingVariant_def defs
    by (rule grid_rns_poly(2) [OF b(1) d cnt]) (use add br in \<open>simp_all add: plain_coeff_def\<close>)
  have "rns_poly b n (\<lambda>i. X i + - int (plain_coeff p i)) (subPlainWithoutScalingVariant p cd d)"
    unfolding subPlainWithoutScalingVariant_def defs
    by (rule grid_rns_poly(2) [OF b(1) d cnt]) (use sub br in \<open>simp_all add: plain_coeff_def\<close>)
  then show "rns_poly b n (\<lambda>i. X i - int (plain_coeff p i)) (subPlainWithoutScalingVariant p cd d)" by simp
qed

section \<open>A concrete context\<close>

definition example_parms :: EncryptionParameters where
  "example_parms = (default_parameters bfv)\<lparr>ep_poly_modulus_degree := 2, ep_coeff_modulus := [modulus_17, modulus_97],
     ep_plain_modulus := modulus_5\<rparr>"

definition example_data :: ContextData where
  "example_data = (new_ContextData example_parms)\<lparr>cd_total_coeff_modulus := [1649, 0],
     cd_qualifiers := new_qualifiers\<lparr>using_fast_plain_lift := True\<rparr>\<rparr>"

lemma example_data_sel:
  "ep_coeff_modulus (cd_parms example_data) = [modulus_17, modulus_97]" "ep_plain_modulus (cd_parms example_data) = modulus_5"
  "unat (ep_poly_modulus_degree (cd_parms example_data)) = 2" "cd_total_coeff_modulus example_data = [1649, 0]"
  "using_fast_plain_lift (cd_qualifiers example_data)"
  by (simp_all add: example_data_def example_parms_def new_ContextData_def)

text \<open>The constants are filled in; the parameters and the qualifiers stay.\<close>

definition same_parms :: "ContextData \<Rightarrow> ContextData \<Rightarrow> bool" where
  "same_parms cd cd' \<longleftrightarrow> cd_parms cd = cd_parms cd' \<and> cd_qualifiers cd = cd_qualifiers cd'"

section \<open>Properties\<close>

text \<open>
  The validation computes the constants of the BFV scaling: the quotient of the product of the moduli by the
  plaintext modulus, as a prepared operand for each modulus, its remainder, in residues and modulo \<open>t\<close>, the threshold
  of the upper half, and the increments that lift it: the differences of the moduli and \<open>t\<close> when all moduli are
  larger, the difference of the product and \<open>t\<close> otherwise. It cannot fail.
\<close>

theorem plain_constants_correct:
  assumes "wf_rns b" "rns_base b = ms" "rns_size b \<le> 64" and "wf_modulus tm" "t = unat (mod_value tm)"
    and "length (cd_total_coeff_modulus cd) = rns_size b"
      "uval (cd_total_coeff_modulus cd) = crt_prod (modn ms) (rns_size b)" "t < crt_prod (modn ms) (rns_size b)"
    and "using_fast_plain_lift (cd_qualifiers cd) = list_all (\<lambda>m. modulus_value m > mod_value tm) ms"
  shows "\<exists>cd'. plain_constants ms tm b cd = Some (Inr cd') \<and> wf_scaling b t cd' \<and> wf_lift b t cd' \<and> same_parms cd cd'"
  using plain_constants_value [OF assms] by (auto simp: same_parms_def)

lemma example_crt:
  assumes "rns_base b = [modulus_17, modulus_97]" "rns_size b = 2"
  shows "crt_prod (modn (rns_base b)) (rns_size b) = 1649"
  by (simp add: assms crt_prod_def numeral_2_eq_2) (simp add: modulus_17_def modulus_97_def)

theorem plain_constants_correct_witness:
  "\<exists>b cd. new_RNSBase [modulus_17, modulus_97] = Inr b \<and> plain_constants [modulus_17, modulus_97] modulus_5 b example_data = Some (Inr cd) \<and>
    unat (cd_coeff_modulus_mod_plain_modulus cd) = 4 \<and> unat (mop_operand (cd_coeff_div_plain_modulus cd ! 0)) = 329 mod 17 \<and>
    unat (cd_plain_upper_half_increment cd ! 0) = 12"
proof -
  obtain b where b: "new_RNSBase [modulus_17, modulus_97] = Inr b" "wf_rns b" "rns_base b = [modulus_17, modulus_97]" "rns_size b = 2"
    using base_17_97 by blast
  have f: "using_fast_plain_lift (cd_qualifiers example_data) = list_all (\<lambda>m. modulus_value m > mod_value modulus_5) [modulus_17, modulus_97]"
    by (simp add: example_data_sel modulus_value_def modulus_17_def modulus_97_def modulus_5_def)
  have t: "unat (mod_value modulus_5) = 5" by (simp add: modulus_5_def)
  obtain cd where cd: "plain_constants [modulus_17, modulus_97] modulus_5 b example_data = Some (Inr cd)"
      "wf_scaling b 5 cd" "wf_lift b 5 cd" "same_parms example_data cd"
    using plain_constants_correct [OF b(2,3) _ wf_modulus_examples(4) t [symmetric] _ _ _ f] example_crt [OF b(3,4)] b(3,4)
    by (auto simp: example_data_sel)
  have q: "using_fast_plain_lift (cd_qualifiers cd)" using cd(4) example_data_sel(5) by (simp add: same_parms_def)
  have "unat (mop_operand (cd_coeff_div_plain_modulus cd ! 0)) = 329 mod 17"
    using cd(2) example_crt [OF b(3,4)] b(3,4) by (simp add: wf_scaling_def Let_def modulus_17_def)
  moreover have "unat (cd_plain_upper_half_increment cd ! 0) = 12"
    using cd(3) q b(3,4) by (simp add: wf_lift_def modulus_17_def)
  moreover have "unat (cd_coeff_modulus_mod_plain_modulus cd) = 4"
    using cd(2) example_crt [OF b(3,4)] by (simp add: wf_scaling_def Let_def)
  ultimately show ?thesis using b(1) cd(1) by blast
qed

lemma scaled_distance:
  assumes "0 < (t :: nat)"
  shows "2 * \<bar>int t * int (scaled Q t m) - int (Q * m)\<bar> \<le> int (if even t then t else t + 1)"
proof -
  define h x where "h = (t + 1) div 2" and "x = Q * m + h"
  have "t * (x div t) + x mod t = x" by (rule mult_div_mod_eq)
  then have "int (t * (x div t)) + int (x mod t) = int (Q * m) + int h" by (simp only: x_def of_nat_add [symmetric])
  then have d: "int t * int (scaled Q t m) - int (Q * m) = int h - int (x mod t)"
    unfolding scaled_def h_def [symmetric] x_def [symmetric] by simp
  have r: "int (x mod t) < int t" "0 \<le> int (x mod t)" using assms by simp_all
  show ?thesis
  proof (cases "even t")
    case True
    then have "2 * int h = int t" by (auto simp: h_def elim!: evenE)
    then show ?thesis using r True unfolding d by (auto simp: abs_if)
  next
    case False
    then have "2 * int h = int t + 1" by (auto simp: h_def elim!: oddE)
    then show ?thesis using r False unfolding d by (auto simp: abs_if)
  qed
qed

text \<open>
  C9. The loops over a ciphertext polynomial add or subtract, in residues of every modulus, \<open>\<lfloor>(Q m + \<lfloor>(t + 1) / 2\<rfloor>) / t\<rfloor>\<close> for a plaintext
  coefficient \<open>m\<close>, on the coefficients that the plaintext has and on no others; without the scaling they add or subtract the
  plaintext itself. No plaintext coefficient overflows the 128 bits in which the correction is computed. The scaled coefficient is the
  nearest integer to \<open>Q m / t\<close> when \<open>t\<close> is even, and within \<open>1 / 2 + 1 / (2 t)\<close> of it when \<open>t\<close> is odd.
\<close>

theorem scaling_correct:
  assumes "wf_rns b" "rns_base b = ep_coeff_modulus (cd_parms cd)" and "n = unat (ep_poly_modulus_degree (cd_parms cd))"
    and "wf_modulus (ep_plain_modulus (cd_parms cd))" "t = unat (mod_value (ep_plain_modulus (cd_parms cd)))"
    and "wf_scaling b t cd" "plain_fits n t p" "rns_poly b n X d"
  defines "Q \<equiv> crt_prod (modn (rns_base b)) (rns_size b)"
  defines "S i \<equiv> int (if i < pt_coeff_count p then (Q * plain_coeff p i + (t + 1) div 2) div t else 0)"
  shows "rns_poly b n (\<lambda>i. X i + S i) (multiplyAddPlainWithScalingVariant p cd d) \<and>
    rns_poly b n (\<lambda>i. X i - S i) (multiplySubPlainWithScalingVariant p cd d) \<and>
    rns_poly b n (\<lambda>i. X i + int (plain_coeff p i)) (addPlainWithoutScalingVariant p cd d) \<and>
    rns_poly b n (\<lambda>i. X i - int (plain_coeff p i)) (subPlainWithoutScalingVariant p cd d) \<and>
    (\<forall>i<pt_coeff_count p. 2 * \<bar>int t * S i - int (Q * plain_coeff p i)\<bar> \<le> int (if even t then t else t + 1))"
proof -
  have "0 < t" using wf_modulusD(2) [OF assms(4)] assms(5) by simp
  then have "\<forall>i<pt_coeff_count p. 2 * \<bar>int t * S i - int (Q * plain_coeff p i)\<bar> \<le> int (if even t then t else t + 1)"
    using scaled_distance by (simp add: S_def scaled_def)
  moreover have "S = (\<lambda>i. int (if i < pt_coeff_count p
      then scaled (crt_prod (modn (rns_base b)) (rns_size b)) t (plain_coeff p i) else 0))"
    by (rule ext) (simp only: S_def scaled_def Q_def)
  ultimately show ?thesis using scaling_rns_poly [OF assms(1-8), of S] by blast
qed

definition example_plain :: Plaintext where
  "example_plain = new_Plaintext\<lparr>pt_coeff_count := 2, pt_data := \<lparr>hd_internal = [3, 4], hd_size = 2\<rparr>\<rparr>"

lemma example_plain_fits: "plain_fits 2 5 example_plain" "plain_coeff example_plain 0 = 3" "plain_coeff example_plain 1 = 4"
  by (simp_all add: plain_fits_def plain_coeff_def example_plain_def less_2_all)

lemma example_scaling:
  assumes "wf_rns b" "rns_base b = [modulus_17, modulus_97]" "rns_size b = 2"
  obtains cd where "wf_scaling b 5 cd" "cd_parms cd = cd_parms example_data"
proof -
  have f: "using_fast_plain_lift (cd_qualifiers example_data) = list_all (\<lambda>m. modulus_value m > mod_value modulus_5) [modulus_17, modulus_97]"
    by (simp add: example_data_sel modulus_value_def modulus_17_def modulus_97_def modulus_5_def)
  have t: "unat (mod_value modulus_5) = 5" by (simp add: modulus_5_def)
  show ?thesis
    using that plain_constants_value [OF assms(1,2) _ wf_modulus_examples(4) t [symmetric] _ _ _ f] example_crt [OF assms(2,3)] assms(2,3)
    by (auto simp: example_data_sel)
qed

theorem scaling_correct_witness:
  "\<exists>b cd. new_RNSBase [modulus_17, modulus_97] = Inr b \<and> wf_scaling b 5 cd \<and>
    uint (multiplyAddPlainWithScalingVariant example_plain cd [1, 2, 1, 2] ! 1) = (2 + 1319) mod 17"
proof -
  obtain b where b: "new_RNSBase [modulus_17, modulus_97] = Inr b" "wf_rns b" "rns_base b = [modulus_17, modulus_97]" "rns_size b = 2"
    using base_17_97 by blast
  obtain cd where cd: "wf_scaling b 5 cd" "cd_parms cd = cd_parms example_data" by (rule example_scaling [OF b(2-4)])
  note sel = example_data_sel(1-3) [folded cd(2)]
  have t: "5 = unat (mod_value (ep_plain_modulus (cd_parms cd)))" unfolding sel by (simp add: modulus_5_def)
  have x: "rns_poly b 2 (\<lambda>j. if j = 0 then 1 else 2) [1, 2, 1, 2]"
    unfolding rns_poly_def b(3,4) by (simp add: less_2_all modulus_17_def modulus_97_def)
  have m: "wf_modulus (ep_plain_modulus (cd_parms cd))" unfolding sel by (rule wf_modulus_examples(4))
  have ms: "rns_base b = ep_coeff_modulus (cd_parms cd)" by (simp add: b(3) sel)
  note c = scaling_correct [OF b(2) ms sel(3) [symmetric] m t cd(1) example_plain_fits(1) x, unfolded example_crt [OF b(3,4)]]
  have "rns_poly b 2 (\<lambda>i. (if i = 0 then 1 else 2) + int (if i < pt_coeff_count example_plain
      then (1649 * plain_coeff example_plain i + (5 + 1) div 2) div 5 else 0)) (multiplyAddPlainWithScalingVariant example_plain cd [1, 2, 1, 2])"
    using c by (rule conjunct1)
  then have "uint (multiplyAddPlainWithScalingVariant example_plain cd [1, 2, 1, 2] ! (0 * 2 + 1)) =
      (2 + int ((1649 * 4 + (5 + 1) div 2) div 5)) mod modi [modulus_17, modulus_97] 0"
    unfolding rns_poly_def b(3,4) using example_plain_fits(3) by (simp add: less_2_all example_plain_def)
  then have "uint (multiplyAddPlainWithScalingVariant example_plain cd [1, 2, 1, 2] ! 1) = (2 + 1319) mod 17"
    by (simp add: modulus_17_def)
  then show ?thesis using b(1) cd(1) by blast
qed

text \<open>
  C3. A plaintext that is added to the residues of a noise polynomial comes back from the decryption of the phase,
  padded with zeros, as long as the noise is smaller than about \<open>Q / (2 t)\<close>; the margin that the exact result needs is the
  number of moduli over \<open>gamma\<close>.
\<close>

theorem scaling_decrypts:
  assumes T: "wf_tool T" "rns_base (rt_base_q T) = ep_coeff_modulus (cd_parms cd)" "rt_t T = ep_plain_modulus (cd_parms cd)"
      "rt_coeff_count T = n" and n: "n = unat (ep_poly_modulus_degree (cd_parms cd))"
    and t: "wf_modulus (rt_t T)" "t = unat (mod_value (rt_t T))"
    and c: "wf_scaling (rt_base_q T) t cd" and p: "plain_fits n t p"
    and e: "rns_poly (rt_base_q T) n E d"
    and g: "g = uint (mod_value (rt_gamma T))" and Q: "Q = base_product (rt_base_q T)"
    and noise: "\<forall>j<n. g * (int t * \<bar>E j\<bar> + int t) \<le> ((g - 1) div 2 - int (rns_size (rt_base_q T))) * Q"
    and dest: "length dest = n"
  shows "\<exists>r. decryptScaleAndRound T (multiplyAddPlainWithScalingVariant p cd d) dest = Some r \<and> length r = n \<and>
    (\<forall>j<n. unat (r ! j) = plain_coeff p j)"
proof -
  let ?b = "rt_base_q T" and ?q = "crt_prod (modn (rns_base (rt_base_q T))) (rns_size (rt_base_q T))"
  define S where "S = (\<lambda>i. int (if i < pt_coeff_count p then scaled ?q t (plain_coeff p i) else 0))"
  have b: "wf_rns ?b" using T(1) wf_basesD(2) by (simp add: wf_tool_def)
  have t0: "1 < t" using wf_modulusD(2) [OF t(1)] t(2) by simp
  have x: "rns_poly ?b n (\<lambda>i. E i + S i) (multiplyAddPlainWithScalingVariant p cd d)"
    by (rule scaling_rns_poly(1) [OF b T(2) n _ _ c p e S_def]) (use T(3) t in simp_all)
  define v where "v j = int t * (E j + S j) - Q * int (plain_coeff p j)" for j
  have v: "\<bar>v j\<bar> \<le> int t * \<bar>E j\<bar> + int t" for j
  proof (cases "j < pt_coeff_count p")
    case True
    let ?N = "?q * plain_coeff p j + (t + 1) div 2"
    have h: "(t + 1) div 2 \<le> t" using t0 by simp
    have "int t * S j = int (t * (?N div t))" using True by (simp add: S_def scaled_def)
    also have "t * (?N div t) = ?N - ?N mod t" by (simp add: minus_mod_eq_mult_div)
    also have "int (?N - ?N mod t) = int ?N - int (?N mod t)" by (simp add: of_nat_diff)
    finally have "v j = int t * E j + int ((t + 1) div 2) - int (?N mod t)"
      by (simp add: v_def Q base_product_def distrib_left)
    moreover have "\<bar>int t * E j\<bar> = int t * \<bar>E j\<bar>" by (simp add: abs_mult)
    moreover have "0 \<le> int (?N mod t)" "int (?N mod t) < int t" using t0 by simp_all
    moreover have "0 \<le> int ((t + 1) div 2)" "int ((t + 1) div 2) \<le> int t" using h by simp_all
    ultimately show ?thesis by linarith
  next
    case False
    then have "v j = int t * E j" by (simp add: v_def S_def plain_coeff_def)
    then show ?thesis by (simp add: abs_mult)
  qed
  have g0: "0 \<le> g" by (simp add: g)
  have nz: "\<not> modulus_isZero (rt_t T)" using t0 t(2) by (auto simp: modulus_isZero_def)
  have phase: "\<forall>j<n. uint (mod_value (rt_t T)) * (E j + S j) = Q * int (plain_coeff p j) + v j"
    by (simp add: v_def t(2))
  have small: "\<forall>j<n. g * \<bar>v j\<bar> \<le> ((g - 1) div 2 - int (rns_size ?b)) * Q"
    using noise v mult_left_mono [OF v g0] order_trans by blast
  obtain r where r: "decryptScaleAndRound T (multiplyAddPlainWithScalingVariant p cd d) dest = Some r" "length r = n"
      "\<forall>j<n. uint (r ! j) = int (plain_coeff p j) mod uint (mod_value (rt_t T))"
    using decryptScaleAndRound_message [OF T(1) nz T(4) [symmetric] x dest g Q phase small] by blast
  have "unat (r ! j) = plain_coeff p j" if "j < n" for j
  proof -
    have "plain_coeff p j < t" using p t0 by (auto simp: plain_fits_def plain_coeff_def)
    moreover have "uint (mod_value (rt_t T)) = int t" by (simp add: t(2))
    ultimately have "int (unat (r ! j)) = int (plain_coeff p j)"
      using r(3) that by (simp only: uint_nat [symmetric] zmod_int [symmetric] mod_less)
    then show ?thesis by (simp only: of_nat_eq_iff)
  qed
  then show ?thesis using r(1,2) by blast
qed

theorem scaling_decrypts_witness:
  "\<exists>T cd r. wf_tool T \<and> wf_scaling (rt_base_q T) 5 cd \<and>
    decryptScaleAndRound T (multiplyAddPlainWithScalingVariant example_plain cd [15, 7, 3, 2]) [0, 0] = Some r \<and>
    unat (r ! 0) = 3 \<and> unat (r ! 1) = 4"
proof (rule example_tool)
  fix T
  assume T: "wf_tool T" "rt_coeff_count T = 2" "rns_base (rt_base_q T) = [modulus_17, modulus_97]" "rns_size (rt_base_q T) = 2"
    "base_product (rt_base_q T) = 1649" "rns_base (rt_base_Bsk T) = [modulus_29, modulus_37]" "rns_size (rt_base_Bsk T) = 2"
    "rns_size (rt_base_B T) = 1" "base_product (rt_base_B T) = 29" "rns_size (rt_base_Bsk_m_tilde T) = 3"
    "rt_t T = modulus_5" "rt_gamma T = modulus_41" "rt_m_tilde T = modulus_16" "rt_m_sk T = modulus_37"
  have b: "wf_rns (rt_base_q T)" using T(1) wf_basesD(2) by (simp add: wf_tool_def)
  obtain cd where cd: "wf_scaling (rt_base_q T) 5 cd" "cd_parms cd = cd_parms example_data"
    by (rule example_scaling [OF b T(3,4)])
  note sel = example_data_sel(1-3) [folded cd(2)]
  have t: "wf_modulus (rt_t T)" "5 = unat (mod_value (rt_t T))"
    unfolding T(11) by (rule wf_modulus_examples(4), simp add: modulus_5_def)
  have g: "41 = uint (mod_value (rt_gamma T))" unfolding T(12) by (simp add: modulus_41_def)
  let ?E = "\<lambda>j :: nat. if j = 0 then 100 else - 95 :: int"
  have e: "rns_poly (rt_base_q T) 2 ?E [15, 7, 3, 2]"
    unfolding rns_poly_def T(3,4) by (simp add: less_2_all modulus_17_def modulus_97_def)
  have noise: "\<forall>j<2. 41 * (int 5 * \<bar>?E j\<bar> + int 5) \<le> ((41 - 1) div 2 - int (rns_size (rt_base_q T))) * 1649"
    unfolding T(4) by (simp add: less_2_all)
  show ?thesis
    using scaling_decrypts [OF T(1) _ _ T(2) _ t cd(1) example_plain_fits(1) e g T(5) [symmetric] noise, of "[0, 0]"]
      T(1,3,11) cd(1) example_plain_fits(2,3) by (auto simp: sel less_2_all)
qed

end
