(* ===== verification/Context_Valid.thy ===== *)
theory Context_Valid
  imports Scaling_Variant
begin

unbundle bit_operations_syntax

text \<open>
  What the validation of \<open>context.cpp\<close> guarantees: the data of parameters that it accepts satisfy the invariants of
  every object that they hold, and each error it reports has the reason that its name gives.
\<close>

section \<open>The stages\<close>

lemma CreateNTTTables_cases:
  assumes ne: "ms \<noteq> []" and wf: "\<forall>m\<in>set ms. wf_modulus m" and p: "0 < p" "p \<le> 62"
  shows "(\<exists>ts. CreateNTTTables rd p ms = Inr ts \<and> length ts = length ms \<and> (\<forall>i<length ms. wf_tables p (ms ! i) (ts ! i))) \<or>
    (CreateNTTTables rd p ms = Inl (Invalid_argument ''invalid modulus'') \<and>
     (\<exists>i<length ms. tryMinimalPrimitiveRoot (rd i) (2 * push_bit p 1) (ms ! i) = None))"
proof -
  have "(\<exists>ts. CreateNTTTables_loop rd p k ms = Inr ts \<and> length ts = length ms \<and> (\<forall>i<length ms. wf_tables p (ms ! i) (ts ! i))) \<or>
    (CreateNTTTables_loop rd p k ms = Inl (Invalid_argument ''invalid modulus'') \<and>
     (\<exists>i<length ms. tryMinimalPrimitiveRoot (rd (k + i)) (2 * push_bit p 1) (ms ! i) = None))" for k
    using wf
  proof (induction ms arbitrary: k)
    case (Cons m ms)
    show ?case
    proof (cases "tryMinimalPrimitiveRoot (rd k) (2 * push_bit p 1) m")
      case None
      then have "CreateNTTTables_loop rd p k (m # ms) = Inl (Invalid_argument ''invalid modulus'')"
        by (simp add: NTTTables_initialize_def)
      then show ?thesis using None by (intro disjI2 conjI exI [of _ 0]) simp_all
    next
      case (Some r)
      have m: "wf_modulus m" using Cons.prems by simp
      obtain t where t: "NTTTables_initialize (rd k) p m = Inr t" "wf_tables p m t"
        using Ntt.initialize_ok [OF m p Some] by blast
      have wf': "\<forall>m\<in>set ms. wf_modulus m" using Cons.prems by simp
      from Cons.IH [OF wf', of "k + 1"] show ?thesis
      proof (elim disjE exE conjE)
        fix ts assume "CreateNTTTables_loop rd p (k + 1) ms = Inr ts" "length ts = length ms"
          "\<forall>i<length ms. wf_tables p (ms ! i) (ts ! i)"
        then show ?thesis using t by (intro disjI1 exI [of _ "t # ts"]) (auto simp: nth_Cons split: nat.splits)
      next
        fix i assume "CreateNTTTables_loop rd p (k + 1) ms = Inl (Invalid_argument ''invalid modulus'')"
          "i < length ms" "tryMinimalPrimitiveRoot (rd (k + 1 + i)) (2 * push_bit p 1) (ms ! i) = None"
        then show ?thesis using t(1) by (intro disjI2 conjI exI [of _ "Suc i"]) simp_all
      qed
    qed
  qed simp
  from this [of 0] show ?thesis using ne by (simp add: CreateNTTTables_def)
qed

lemma new_RNSBase_cases:
  assumes ne: "ms \<noteq> []" and wf: "\<forall>m\<in>set ms. wf_modulus m" and len: "length ms \<le> 64"
  shows "(\<exists>b. new_RNSBase ms = Inr b \<and> wf_rns b \<and> rns_base b = ms \<and> rns_size b = length ms) \<or>
    (new_RNSBase ms = Inl (Invalid_argument ''rnsbase is invalid'') \<and> \<not> good_moduli ms)"
proof (cases "good_moduli ms")
  case True
  have "length ms * length ms \<le> 64 * 64" by (rule mult_le_mono [OF len len])
  then have "length ms * length ms < 9223372036854775808" by simp
  from new_RNSBase_ok [OF True this] show ?thesis by auto
next
  case False
  then show ?thesis using constructor_checks [OF ne] wf ne by (simp add: new_RNSBase_def)
qed

lemma rmap_Inr_map: "(\<And>x. x \<in> set xs \<Longrightarrow> f x = Inr (g x)) \<Longrightarrow> rmap f xs = Inr (map g xs)"
  by (induction xs) simp_all

section \<open>Acceptance\<close>

text \<open>The part of the guarantee that the schemes with a plaintext modulus add.\<close>

definition valid_plain :: "nat \<Rightarrow> RNSBase \<Rightarrow> ContextData \<Rightarrow> bool" where
  "valid_plain p b cd \<longleftrightarrow>
     (let tm = ep_plain_modulus (cd_parms cd); t = unat (mod_value tm) in
      wf_modulus tm \<and> t < 2 ^ 60 \<and> (\<forall>i<rns_size b. coprime (modn (rns_base b) i) t) \<and>
      t < crt_prod (modn (rns_base b)) (rns_size b) \<and> wf_scaling b t cd \<and> wf_lift b t cd \<and>
      using_fast_plain_lift (cd_qualifiers cd) = list_all (\<lambda>m. modulus_value m > mod_value tm) (rns_base b) \<and>
      (if using_batching (cd_qualifiers cd)
       then \<exists>T. cd_plain_ntt_tables cd = [T] \<and> wf_tables p tm T else cd_plain_ntt_tables cd = []))"

text \<open>The constants of CKKS. The increments are residues; which ones is the subject of \<open>ckks_increment\<close>.\<close>

definition valid_ckks :: "RNSBase \<Rightarrow> ContextData \<Rightarrow> bool" where
  "valid_ckks b cd \<longleftrightarrow>
     modulus_isZero (ep_plain_modulus (cd_parms cd)) \<and> using_batching (cd_qualifiers cd) \<and> \<not> using_fast_plain_lift (cd_qualifiers cd) \<and>
     cd_plain_upper_half_threshold cd = 2 ^ 63 \<and> length (cd_plain_upper_half_increment cd) = rns_size b \<and>
     (\<forall>i<rns_size b. cd_plain_upper_half_increment cd ! i < mod_value (rns_base b ! i)) \<and>
     uval (cd_upper_half_threshold cd) = (crt_prod (modn (rns_base b)) (rns_size b) + 1) div 2"

text \<open>The security level of the parameters: the one asked for, or none when the product of the moduli is too long for it.\<close>

definition level_reached :: "SecurityLevel \<Rightarrow> u64 \<Rightarrow> nat \<Rightarrow> SecurityLevel" where
  "level_reached sec degree Q = (if MaxBitCount degree sec < int (nbits Q) then SecurityLevel.none else sec)"

definition valid_context :: "SecurityLevel \<Rightarrow> ContextData \<Rightarrow> bool" where
  "valid_context sec cd \<longleftrightarrow>
     (\<exists>b p T G. let parms = cd_parms cd; Q = crt_prod (modn (rns_base b)) (rns_size b) in
        wf_rns b \<and> rns_base b = ep_coeff_modulus parms \<and> 1 \<le> rns_size b \<and> rns_size b \<le> 64 \<and>
        (\<forall>m\<in>set (rns_base b). unat (mod_value m) < 2 ^ 60) \<and>
        1 \<le> p \<and> p \<le> 17 \<and> unat (ep_poly_modulus_degree parms) = 2 ^ p \<and>
        length (cd_total_coeff_modulus cd) = rns_size b \<and> uval (cd_total_coeff_modulus cd) = Q \<and>
        cd_total_coeff_modulus_bit_count cd = int (nbits Q) \<and>
        (sec \<noteq> SecurityLevel.none \<longrightarrow> int (nbits Q) \<le> MaxBitCount (ep_poly_modulus_degree parms) sec) \<and>
        sec_level (cd_qualifiers cd) = level_reached sec (ep_poly_modulus_degree parms) Q \<and>
        using_fft (cd_qualifiers cd) \<and> using_ntt (cd_qualifiers cd) \<and>
        length (cd_small_ntt_tables cd) = rns_size b \<and>
        (\<forall>i<rns_size b. wf_tables p (rns_base b ! i) (cd_small_ntt_tables cd ! i)) \<and>
        cd_rns_tool cd = Some T \<and> wf_tool T \<and> rt_base_q T = b \<and> rt_t T = ep_plain_modulus parms \<and> rt_coeff_count T = 2 ^ p \<and>
        cd_galois_tool cd = Some G \<and> wf_galois p G \<and>
        (if ep_scheme parms = ckks then valid_ckks b cd else ep_scheme parms \<in> {bfv, bgv} \<and> valid_plain p b cd))"

text \<open>
  The reasons of the errors. No primitive root of unity is found when the modulus is not one modulo twice the degree, or when all of
  the hundred numbers drawn fail the test of Euler for quadratic non-residues, which a prime modulus makes as unlikely as
  \<open>2 ^ (- 100)\<close>.
\<close>

definition root_draw :: "(nat \<Rightarrow> u32) \<Rightarrow> nat \<Rightarrow> nat" where
  "root_draw rd k = unat (push_bit 32 (ucast (rd (2 * k))) OR ucast (rd (2 * k + 1)) :: u64)"

definition no_root_found :: "nat \<Rightarrow> nat \<Rightarrow> (nat \<Rightarrow> u32) \<Rightarrow> bool" where
  "no_root_found n q rd \<longleftrightarrow> q mod (2 * n) \<noteq> 1 \<or> (\<forall>k<100. root_draw rd k ^ ((q - 1) div 2) mod q \<noteq> q - 1)"

lemma root_loop_fails:
  "\<not> isPrimitiveRoot (root_loop rd degree g m i) degree m \<Longrightarrow> i \<le> k \<Longrightarrow> k < 100 \<Longrightarrow> \<not> isPrimitiveRoot (root_candidate rd g m k) degree m"
proof (induction rd degree g m i rule: root_loop.induct)
  case (1 rd degree g m i)
  let ?c = "root_candidate rd g m i"
  have loop: "root_loop rd degree g m i =
      (if \<not> isPrimitiveRoot ?c degree m \<and> i + 1 < 100 then root_loop rd degree g m (i + 1) else ?c)"
    by (subst root_loop.simps) (simp add: Let_def)
  show ?case
  proof (cases "k = i")
    case True
    then show ?thesis using 1(2) unfolding loop by (auto split: if_splits)
  next
    case False
    then have k: "i + 1 \<le> k" "i + 1 < 100" using 1(3,4) by linarith+
    have c: "\<not> isPrimitiveRoot ?c degree m" using 1(2) unfolding loop by (auto split: if_splits)
    show ?thesis by (rule 1(1) [OF refl refl _ _ k(1) 1(4)]) (use c k 1(2) loop in auto)
  qed
qed

lemma no_root_reason:
  assumes m: "wf_modulus m" and p: "p \<le> 62" and none: "tryMinimalPrimitiveRoot rd (2 * push_bit p 1) m = None"
  shows "no_root_found (2 ^ p) (unat (mod_value m)) rd"
proof (cases "unat (mod_value m) mod 2 ^ Suc p = 1")
  case False
  then show ?thesis by (simp add: no_root_found_def)
next
  case True
  define q d where "q = unat (mod_value m)" and "d = 2 * push_bit p (1 :: u64)"
  let ?e = "mod_value m - 1"
  note b = wf_modulusD [OF m]
  have d: "unat d = 2 ^ Suc p" unfolding d_def by (rule two_times_degree [OF p])
  have q: "1 < q" using b(2) by (simp add: q_def)
  have e: "unat ?e = q - 1" using q unfolding q_def by (simp add: unat_sub64 word_le_nat_alt)
  have dvd: "2 ^ Suc p dvd q - 1" using True q unfolding q_def by (metis dvd_minus_mod)
  have "?e - ?e div d * d = 0"
  proof -
    have "unat (?e mod d) = 0" using dvd unfolding unat_mod e d by simp
    then show ?thesis by (simp add: minus_div_mult_eq_mod unat_eq_0)
  qed
  moreover have "tryPrimitiveRoot rd d m = None"
    using none unfolding d_def [symmetric] by (auto simp: tryMinimalPrimitiveRoot_def Let_def split: option.splits)
  ultimately have fails: "\<not> isPrimitiveRoot (root_loop rd d (?e div d) m 0) d m"
    by (auto simp: tryPrimitiveRoot_def Let_def modulus_value_def split: if_splits)
  have "root_draw rd k ^ ((q - 1) div 2) mod q \<noteq> q - 1" if k: "k < 100" for k
  proof -
    define x where "x = barrettReduce64 (push_bit 32 (ucast (rd (2 * k))) OR ucast (rd (2 * k + 1))) m"
    have x: "unat x = root_draw rd k mod q" "unat x < q"
      using q by (simp_all add: x_def root_draw_def barrettReduce64_value [OF b(1)] q_def)
    have c: "root_candidate rd (?e div d) m k = exponentiateUintMod x (?e div d) m" by (simp add: root_candidate_def x_def)
    have h: "(q - 1) div 2 ^ Suc p * 2 ^ p = (q - 1) div 2" using dvd by (auto elim!: dvdE)
    have v: "unat (root_candidate rd (?e div d) m k) = root_draw rd k ^ ((q - 1) div 2 ^ Suc p) mod q"
      unfolding c using exponentiateUintMod_value [OF b(1), of "?e div d" x] q x
      by (simp add: q_def [symmetric] unat_div e d power_mod)
    have "\<not> isPrimitiveRoot (root_candidate rd (?e div d) m k) d m" by (rule root_loop_fails [OF fails _ k]) simp
    moreover have "root_candidate rd (?e div d) m k < mod_value m"
      using v q by (simp add: word_less_nat_alt q_def [symmetric])
    ultimately have "unat (root_candidate rd (?e div d) m k) ^ 2 ^ p mod q \<noteq> q - 1"
      using isPrimitiveRoot_iff [OF b(1) _ _ d] q unfolding q_def by blast
    then show ?thesis unfolding v power_mod power_mult [symmetric] h .
  qed
  then show ?thesis by (simp add: no_root_found_def q_def)
qed

definition error_reason :: "draws \<Rightarrow> SecurityLevel \<Rightarrow> EncryptionParameters \<Rightarrow> ErrorType \<Rightarrow> bool" where
  "error_reason D sec parms e \<longleftrightarrow>
     (let ms = ep_coeff_modulus parms; n = unat (ep_poly_modulus_degree parms); tm = ep_plain_modulus parms;
          t = unat (mod_value tm); Q = crt_prod (modn ms) (length ms); plain = ep_scheme parms \<in> {bfv, bgv}
      in case e of
           invalid_scheme \<Rightarrow> ep_scheme parms = scheme_none
         | invalid_coeff_modulus_size \<Rightarrow> length ms = 0 \<or> 64 < length ms
         | invalid_coeff_modulus_bit_count \<Rightarrow> \<exists>m\<in>set ms. 2 ^ 60 \<le> unat (mod_value m)
         | invalid_poly_modulus_degree \<Rightarrow> n < 2 \<or> 131072 < n
         | invalid_poly_modulus_degree_non_power_of_two \<Rightarrow> \<forall>p. n \<noteq> 2 ^ p
         | invalid_parameters_insecure \<Rightarrow> sec \<noteq> SecurityLevel.none \<and> MaxBitCount (ep_poly_modulus_degree parms) sec < int (nbits Q)
         | failed_creating_rns_base \<Rightarrow> \<not> good_moduli ms
         | invalid_coeff_modulus_no_ntt \<Rightarrow> \<exists>i<length ms. no_root_found n (unat (mod_value (ms ! i))) (draw_coeff D i)
         | invalid_plain_modulus_bit_count \<Rightarrow> plain \<and> (t = 0 \<or> 2 ^ 60 \<le> t)
         | invalid_plain_modulus_coprimality \<Rightarrow> plain \<and> (\<exists>m\<in>set ms. \<not> coprime (unat (mod_value m)) t)
         | invalid_plain_modulus_too_large \<Rightarrow> plain \<and> Q \<le> t
         | invalid_plain_modulus_nonzero \<Rightarrow> ep_scheme parms = ckks \<and> t \<noteq> 0
         | failed_creating_rns_tool \<Rightarrow>
             \<exists>b e. new_RNSBase ms = Inr b \<and> RNSTool_initialize (draw_prime D) (draw_tool D) (ep_poly_modulus_degree parms) b tm = Some (Inl e)
         | invalid_parameters_too_large \<Rightarrow> False
         | err_none \<Rightarrow> False
         | success \<Rightarrow> False)"

definition validation_report :: "draws \<Rightarrow> SecurityLevel \<Rightarrow> EncryptionParameters \<Rightarrow> ContextData \<Rightarrow> bool" where
  "validation_report D sec parms cd \<longleftrightarrow> cd_parms cd = parms \<and>
     (if parameter_error (cd_qualifiers cd) = success then valid_context sec cd
      else error_reason D sec parms (parameter_error (cd_qualifiers cd)) \<and>
        (parameter_error (cd_qualifiers cd) = invalid_parameters_insecure \<longrightarrow> sec_level (cd_qualifiers cd) = SecurityLevel.none))"

lemma with_error_sel [simp]:
  "cd_parms (with_error e cd) = cd_parms cd" "parameter_error (cd_qualifiers (with_error e cd)) = e"
  by (simp_all add: with_error_def)

text \<open>What the stages that depend on the scheme leave as it is.\<close>

definition same_base :: "ContextData \<Rightarrow> ContextData \<Rightarrow> bool" where
  "same_base cd cd' \<longleftrightarrow> cd_parms cd' = cd_parms cd \<and> cd_total_coeff_modulus cd' = cd_total_coeff_modulus cd \<and>
     cd_total_coeff_modulus_bit_count cd' = cd_total_coeff_modulus_bit_count cd \<and> cd_small_ntt_tables cd' = cd_small_ntt_tables cd \<and>
     parameter_error (cd_qualifiers cd') = parameter_error (cd_qualifiers cd) \<and>
     sec_level (cd_qualifiers cd') = sec_level (cd_qualifiers cd) \<and> using_fft (cd_qualifiers cd') = using_fft (cd_qualifiers cd) \<and> using_ntt (cd_qualifiers cd') = using_ntt (cd_qualifiers cd)"

text \<open>The base of the coefficient moduli with their product, as the stages find it.\<close>

definition base_of :: "RNSBase \<Rightarrow> ContextData \<Rightarrow> bool" where
  "base_of b cd \<longleftrightarrow> wf_rns b \<and> rns_base b = ep_coeff_modulus (cd_parms cd) \<and> rns_size b = length (rns_base b) \<and> rns_size b \<le> 64 \<and>
     length (cd_total_coeff_modulus cd) = rns_size b \<and>
     uval (cd_total_coeff_modulus cd) = crt_prod (modn (rns_base b)) (rns_size b)"

lemma base_same_base:
  assumes "same_base cd cd'" "base_of b cd"
  shows "base_of b cd'"
proof -
  have e: "cd_parms cd' = cd_parms cd" "cd_total_coeff_modulus cd' = cd_total_coeff_modulus cd"
    using assms(1) unfolding same_base_def by blast+
  have "base_of b cd' = base_of b cd" unfolding base_of_def e ..
  with assms(2) show ?thesis by simp
qed

definition stage_result :: "draws \<Rightarrow> SecurityLevel \<Rightarrow> (ContextData \<Rightarrow> bool) \<Rightarrow> ContextData \<Rightarrow> (bool \<times> ContextData) res option \<Rightarrow> bool" where
  "stage_result D sec P cd r \<longleftrightarrow>
     (\<exists>e. r = Some (Inr (False, with_error e cd)) \<and> e \<noteq> success \<and> error_reason D sec (cd_parms cd) e \<and>
       e \<noteq> invalid_parameters_insecure) \<or>
     (\<exists>cd'. r = Some (Inr (True, cd')) \<and> same_base cd cd' \<and> P cd')"

lemma stage_error: "e \<noteq> success \<Longrightarrow> error_reason D sec (cd_parms cd) e \<Longrightarrow> e \<noteq> invalid_parameters_insecure \<Longrightarrow>
    stage_result D sec P cd (Some (Inr (False, with_error e cd)))"
  by (auto simp: stage_result_def)

lemma drop_bit_zero: "(drop_bit n (x :: u64) = 0) = (unat x < 2 ^ n)"
proof -
  have "(drop_bit n x = 0) = (unat (drop_bit n x) = 0)" by (simp add: unat_eq_0)
  also have "\<dots> = (unat x div 2 ^ n = 0)" by (simp only: unat_drop64)
  also have "\<dots> = (unat x < 2 ^ n)" by (simp add: div_eq_0_iff)
  finally show ?thesis .
qed

lemma validate_plain_stage:
  assumes b: "base_of b cd" and p: "1 \<le> p" "p \<le> 17" and scheme: "ep_scheme (cd_parms cd) \<in> {bfv, bgv}"
    and t: "modulus_isZero (ep_plain_modulus (cd_parms cd)) \<or> wf_modulus (ep_plain_modulus (cd_parms cd))"
  shows "stage_result D sec (valid_plain p b) cd (validate_plain D p b cd)"
proof -
  define ms tm t where "ms = ep_coeff_modulus (cd_parms cd)" and "tm = ep_plain_modulus (cd_parms cd)" and "t = unat (mod_value tm)"
  note bs = b [unfolded base_of_def, folded ms_def]
  have w: "wf_rns b" "rns_base b = ms" "rns_size b = length ms" "rns_size b \<le> 64" using bs by auto
  define Q where "Q = crt_prod (modn ms) (length ms)"
  have bits: "SEAL_PLAIN_MOD_BIT_COUNT_MAX = 60" "SEAL_PLAIN_MOD_BIT_COUNT_MIN - 1 = 1"
    by (simp_all add: SEAL_PLAIN_MOD_BIT_COUNT_MAX_def SEAL_PLAIN_MOD_BIT_COUNT_MIN_def SEAL_USER_MOD_BIT_COUNT_MAX_def SEAL_USER_MOD_BIT_COUNT_MIN_def)
  have pb: "ms \<noteq> []" using wf_rnsD(10) [OF w(1) refl refl] w(3) by auto
  show ?thesis
  proof (cases "t < 2 ^ 60 \<and> \<not> t < 2 ^ 1")
    case False
    have "t = 0 \<or> 2 ^ 60 \<le> t" using False t wf_modulusD(2) [of tm] by (auto simp: t_def tm_def modulus_isZero_def)
    then have "error_reason D sec (cd_parms cd) invalid_plain_modulus_bit_count"
      using scheme by (simp add: error_reason_def Let_def t_def tm_def)
    moreover have "validate_plain D p b cd = Some (Inr (False, with_error invalid_plain_modulus_bit_count cd))"
      using False unfolding validate_plain_def Let_def bits drop_bit_zero modulus_value_def tm_def [symmetric] t_def [symmetric] by auto
    ultimately show ?thesis by (simp add: stage_error)
  next
    case True
    note t60 = True
    have tm: "wf_modulus tm" using t t60 by (auto simp: tm_def t_def modulus_isZero_def)
    have bits_ok: "\<not> (drop_bit SEAL_PLAIN_MOD_BIT_COUNT_MAX (mod_value tm) \<noteq> 0 \<or> drop_bit (SEAL_PLAIN_MOD_BIT_COUNT_MIN - 1) (mod_value tm) = 0)"
      using t60 unfolding bits drop_bit_zero t_def by simp
    have cop: "areCoprime (mod_value m) (mod_value tm) = coprime (unat (mod_value m)) t" for m
    proof -
      have "mod_value tm \<noteq> 0" using t60 by (auto simp: t_def)
      then show ?thesis using areCoprime_iff [of "mod_value m" "mod_value tm"] by (simp add: t_def)
    qed
    show ?thesis
    proof (cases "\<forall>m\<in>set ms. coprime (unat (mod_value m)) t")
      case False
      then have ex: "list_ex (\<lambda>m. \<not> areCoprime (mod_value m) (mod_value tm)) ms" by (auto simp: list_ex_iff cop)
      from False have "error_reason D sec (cd_parms cd) invalid_plain_modulus_coprimality"
        using scheme by (auto simp: error_reason_def Let_def t_def tm_def ms_def)
      moreover have "validate_plain D p b cd = Some (Inr (False, with_error invalid_plain_modulus_coprimality cd))"
        using ex bits_ok unfolding validate_plain_def Let_def modulus_value_def tm_def [symmetric] ms_def [symmetric] by simp
      ultimately show ?thesis by (simp add: stage_error)
    next
      case True
      note coprime = True
      have ex: "\<not> list_ex (\<lambda>m. \<not> areCoprime (mod_value m) (mod_value tm)) ms" using coprime by (simp add: list_ex_iff cop)
      have one: "take (uint64Count tm) [mod_value tm] = [mod_value tm]" using tm by (simp add: uint64Count_def wf_modulus_def)
      have less: "isLessThanUint_counts [mod_value tm] (cd_total_coeff_modulus cd) = (t < Q)"
        using bs w by (simp add: comparisons_counts t_def Q_def)
      show ?thesis
      proof (cases "t < Q")
        case False
        then have "error_reason D sec (cd_parms cd) invalid_plain_modulus_too_large"
          using scheme by (auto simp: error_reason_def Let_def t_def tm_def ms_def Q_def)
        moreover have "validate_plain D p b cd = Some (Inr (False, with_error invalid_plain_modulus_too_large cd))"
          using False bits_ok ex less one unfolding validate_plain_def Let_def modulus_value_def tm_def [symmetric] ms_def [symmetric]
          by simp
        ultimately show ?thesis by (simp add: stage_error)
      next
        case True
        define fast where "fast = list_all (\<lambda>m. modulus_value m > mod_value tm) ms"
        obtain batching tables where bt: "(case CreateNTTTables (draw_plain D) p [tm] of
                   Inr tables \<Rightarrow> Inr (True, tables) | Inl (Invalid_argument _) \<Rightarrow> Inr (False, []) | Inl e \<Rightarrow> Inl e) = Inr (batching, tables)"
            "if batching then \<exists>T. tables = [T] \<and> wf_tables p tm T else tables = []"
          using CreateNTTTables_cases [of "[tm]" p "draw_plain D"] tm p by (fastforce simp: length_Suc_conv)
        let ?cd = "cd\<lparr>cd_plain_ntt_tables := tables,
                          cd_qualifiers := (cd_qualifiers cd)\<lparr>using_batching := batching, using_fast_plain_lift := fast\<rparr>\<rparr>"
        have "\<exists>cd'. plain_constants ms tm b ?cd = Some (Inr cd') \<and> wf_scaling b t cd' \<and> wf_lift b t cd' \<and>
          (\<exists>x d i th u. cd' = ?cd\<lparr>cd_coeff_modulus_mod_plain_modulus := x, cd_coeff_div_plain_modulus := d,
            cd_upper_half_increment := i, cd_plain_upper_half_threshold := th, cd_plain_upper_half_increment := u\<rparr>)"
          by (rule plain_constants_value [OF w(1,2,4) tm t_def]) (use bs w True in \<open>simp_all add: Q_def fast_def\<close>)
        then obtain cd' where cd': "plain_constants ms tm b ?cd = Some (Inr cd')" "wf_scaling b t cd'" "wf_lift b t cd'"
          "\<exists>x d i th u. cd' = ?cd\<lparr>cd_coeff_modulus_mod_plain_modulus := x, cd_coeff_div_plain_modulus := d,
            cd_upper_half_increment := i, cd_plain_upper_half_threshold := th, cd_plain_upper_half_increment := u\<rparr>" by blast
        have "validate_plain D p b cd = Some (Inr (True, cd'))"
          using bits_ok ex less one True bt(1) cd'(1)
          unfolding validate_plain_def Let_def modulus_value_def tm_def [symmetric] ms_def [symmetric] fast_def by simp
        moreover have "same_base cd cd'" using cd'(4) by (auto simp: same_base_def)
        moreover have "valid_plain p b cd'"
          using cd'(4) cd'(2,3) tm t60 True coprime bt(2) w
          by (auto simp: valid_plain_def Let_def Q_def fast_def t_def [symmetric] tm_def [symmetric] ms_def [symmetric])
        ultimately show ?thesis unfolding stage_result_def by blast
      qed
    qed
  qed
qed

lemma crt_prod_61:
  assumes "wf_rns b"
  shows "crt_prod (modn (rns_base b)) (rns_size b) + 1 < 18446744073709551616 ^ rns_size b"
proof -
  have k: "0 < rns_size b" by (rule wf_rnsD(10) [OF assms refl refl])
  have "crt_prod (modn (rns_base b)) n \<le> 2305843009213693952 ^ n" if "n \<le> rns_size b" for n
    using that
  proof (induction n)
    case (Suc n)
    have "modn (rns_base b) n \<le> 2305843009213693952"
      using wf_modulusD(3) [OF wf_rns_modulus [OF assms, of n]] Suc.prems by simp
    from mult_le_mono [OF Suc.IH this] Suc.prems show ?case by (simp add: mult.commute)
  qed simp
  from this [OF order_refl] have "crt_prod (modn (rns_base b)) (rns_size b) \<le> 2305843009213693952 ^ rns_size b" .
  moreover have "(2305843009213693952 :: nat) ^ rns_size b + 1 < 18446744073709551616 ^ rns_size b"
  proof -
    have "2305843009213693952 ^ rns_size b * 8 ^ 1 \<le> 2305843009213693952 ^ rns_size b * (8 :: nat) ^ rns_size b"
      using k by (intro mult_le_mono power_increasing) simp_all
    also have "\<dots> = 18446744073709551616 ^ rns_size b" unfolding power_mult_distrib [symmetric] by simp
    finally have "2305843009213693952 ^ rns_size b * 8 \<le> (18446744073709551616 :: nat) ^ rns_size b" by simp
    moreover have "(1 :: nat) \<le> 2305843009213693952 ^ rns_size b" by simp
    ultimately show ?thesis by linarith
  qed
  ultimately show ?thesis by linarith
qed

lemma upper_half_value:
  assumes b: "wf_rns b" and tot: "length tot = rns_size b" "uval tot = crt_prod (modn (rns_base b)) (rns_size b)"
  shows "uval (rightShiftUint (snd (incrementUint tot)) 1) = (crt_prod (modn (rns_base b)) (rns_size b) + 1) div 2"
proof -
  let ?Q = "crt_prod (modn (rns_base b)) (rns_size b)"
  have ne: "tot \<noteq> []" using tot(1) wf_rnsD(10) [OF b refl refl] by auto
  obtain c r where r: "incrementUint tot = (c, r)" by fastforce
  then have a: "addUint_word tot 1 = (c, r)" by (simp add: incrementUint_def)
  note v = addUint_word_value [OF a ne]
  have one: "unat (1 :: u64) = 1" by (rule unat_1)
  have v3: "uval r + 18446744073709551616 ^ rns_size b * unat c = ?Q + 1"
    using v(3) unfolding tot one .
  have "unat c = 0"
  proof (rule ccontr)
    assume "unat c \<noteq> 0"
    then have "unat c = 1" using v(2) by simp
    then show False using v3 crt_prod_61 [OF b] by simp
  qed
  then have "uval r = ?Q + 1" using v3 by simp
  moreover have "1 \<le> 64 * length r" using v(1) ne by (cases tot) auto
  ultimately show ?thesis using rightShiftUint_value [of 1 r] by (simp add: r)
qed

text \<open>The code stores the residue of the negative of \<open>2 ^ 64\<close> as the increment of CKKS.\<close>

lemma ckks_increment:
  assumes m: "wf_modulus m"
  shows "\<exists>d. sub_safe uint64_t (uint (modulus_value m)) 2 = Inr d \<and>
    uint (multiplyUintMod (barrettReduce64 (push_bit 63 1) m) (word_of_int d) m) = - (2 ^ 64) mod uint (mod_value m)"
proof -
  let ?q = "uint (mod_value m)"
  have q: "1 < ?q" "?q < 2305843009213693952" using wf_modulus_int [OF m] by simp_all
  have d: "sub_safe uint64_t (uint (modulus_value m)) 2 = Inr (?q - 2)"
    by (rule sub_safe_unsigned [THEN iffD2])
      (use q in \<open>simp_all add: wf_ctype_def in_type_def type_min_def type_max_def modulus_value_def\<close>)
  have u: "uint (word_of_int (?q - 2) :: u64) = ?q - 2"
    using q by (subst uint_word_of_int, subst mod_pos_pos_trivial) simp_all
  have h: "uint (barrettReduce64 (push_bit 63 1) m) = 2 ^ 63 mod ?q"
    using barrett_int [OF wf_modulusD(1) [OF m], of "push_bit 63 1"] by simp
  have "uint (multiplyUintMod (barrettReduce64 (push_bit 63 1) m) (word_of_int (?q - 2)) m) = (2 ^ 63 mod ?q) * (?q - 2) mod ?q"
    using int_unat_mod [OF multiplyUintMod_value [OF wf_modulusD(1) [OF m], of "barrettReduce64 (push_bit 63 1) m" "word_of_int (?q - 2)"]]
    unfolding of_nat_mult by (simp only: u h uint_nat [symmetric])
  also have "\<dots> = 2 ^ 63 * (?q - 2) mod ?q" by (rule mod_mult_left_eq)
  also have "2 ^ 63 * (?q - 2) = - (2 ^ 64) + ?q * 2 ^ 63" by (simp add: algebra_simps)
  also have "\<dots> mod ?q = - (2 ^ 64) mod ?q" by (rule mod_mult_self2)
  finally show ?thesis using d by blast
qed

lemma rmap_values:
  assumes "\<And>x. x \<in> set xs \<Longrightarrow> \<exists>y. f x = Inr y \<and> P x y"
  shows "\<exists>ys. rmap f xs = Inr ys \<and> length ys = length xs \<and> (\<forall>i<length xs. P (xs ! i) (ys ! i))"
  using assms
proof (induction xs)
  case (Cons x xs)
  obtain y where "f x = Inr y" "P x y" using Cons.prems [of x] by auto
  moreover obtain ys where "rmap f xs = Inr ys" "length ys = length xs" "\<forall>i<length xs. P (xs ! i) (ys ! i)"
    using Cons by auto
  ultimately show ?case by (intro exI [of _ "y # ys"]) (auto simp: nth_Cons split: nat.splits)
qed simp

lemma validate_ckks_stage:
  assumes b: "base_of b cd" and scheme: "ep_scheme (cd_parms cd) = ckks"
  shows "stage_result D sec (valid_ckks b) cd (Some (validate_ckks cd))"
proof (cases "modulus_isZero (ep_plain_modulus (cd_parms cd))")
  case False
  then have "error_reason D sec (cd_parms cd) invalid_plain_modulus_nonzero"
    using scheme by (auto simp: error_reason_def Let_def modulus_isZero_def unat_gt_0)
  then show ?thesis using False by (simp add: validate_ckks_def stage_error)
next
  case True
  let ?ms = "ep_coeff_modulus (cd_parms cd)"
  let ?f = "\<lambda>m. rbind (sub_safe uint64_t (uint (modulus_value m)) 2) (\<lambda>d.
                 Inr (multiplyUintMod (barrettReduce64 (push_bit 63 1) m) (word_of_int d) m))"
  have w: "wf_rns b" "rns_base b = ?ms" "rns_size b = length ?ms" using b by (auto simp: base_of_def)
  have "\<exists>y. ?f m = Inr y \<and> uint y = - (2 ^ 64) mod uint (mod_value m)" if "m \<in> set ?ms" for m
  proof -
    have "wf_modulus m" using that wf_rns_modulus [OF w(1)] w(2,3) by (metis in_set_conv_nth)
    from ckks_increment [OF this] show ?thesis by auto
  qed
  from rmap_values [of ?ms ?f, OF this] obtain inc where inc: "rmap ?f ?ms = Inr inc" "length inc = length ?ms"
    "\<forall>i<length ?ms. uint (inc ! i) = - (2 ^ 64) mod uint (mod_value (?ms ! i))" by blast
  let ?cd = "cd\<lparr>cd_qualifiers := (cd_qualifiers cd)\<lparr>using_batching := True, using_fast_plain_lift := False\<rparr>,
             cd_plain_upper_half_threshold := push_bit 63 1, cd_plain_upper_half_increment := inc,
             cd_upper_half_threshold := rightShiftUint (snd (incrementUint (cd_total_coeff_modulus cd))) 1\<rparr>"
  have "validate_ckks cd = Inr (True, ?cd)"
    unfolding validate_ckks_def Let_def inc(1) using True by simp
  moreover have "same_base cd ?cd" by (simp add: same_base_def)
  moreover have "inc ! i < mod_value (?ms ! i)" if "i < length ?ms" for i
  proof -
    have "0 < uint (mod_value (?ms ! i))" using wf_modulus_int(1) [OF wf_rns_modulus [OF w(1)], of i] that w(2,3) by simp
    then have "uint (inc ! i) < uint (mod_value (?ms ! i))" using inc(3) that by simp
    then show ?thesis by (simp only: word_less_def)
  qed
  moreover have "valid_ckks b ?cd"
    using True inc(2) calculation(3) upper_half_value [OF w(1), of "cd_total_coeff_modulus cd"] b
    by (simp add: valid_ckks_def base_of_def)
  ultimately show ?thesis unfolding stage_result_def by blast
qed

section \<open>The whole validation\<close>

definition report_of :: "draws \<Rightarrow> SecurityLevel \<Rightarrow> EncryptionParameters \<Rightarrow> ContextData res option \<Rightarrow> bool" where
  "report_of D sec parms r = (case r of None \<Rightarrow> False | Some (Inl e) \<Rightarrow> False | Some (Inr cd) \<Rightarrow> validation_report D sec parms cd)"

lemma report_error:
  "e \<noteq> success \<Longrightarrow> error_reason D sec parms e \<Longrightarrow> cd_parms cd = parms \<Longrightarrow>
    e = invalid_parameters_insecure \<longrightarrow> sec_level (cd_qualifiers cd) = SecurityLevel.none \<Longrightarrow> report_of D sec parms (Some (Inr (with_error e cd)))"
  by (auto simp: report_of_def validation_report_def with_error_def)

text \<open>The tool is always made or refused: the searches behind it end.\<close>

lemma bind_case_total:
  assumes "x \<noteq> None" "\<And>a. f a \<noteq> None"
  shows "Option.bind x (\<lambda>r. case r of Inl e \<Rightarrow> Some (Inl e) | Inr a \<Rightarrow> f a) \<noteq> None"
  using assms by (cases x) (auto split: sum.splits)

lemma RNSTool_initialize_total: "RNSTool_initialize rnd rd degree q t \<noteq> None"
proof (cases "rns_size q < SEAL_COEFF_MOD_COUNT_MIN \<or> rns_size q > SEAL_COEFF_MOD_COUNT_MAX \<or>
    getPowerOfTwo degree < 0 \<or> degree > 131072 \<or> degree < 2")
  case True
  then show ?thesis unfolding RNSTool_initialize_def Let_def by (elim disjE) simp_all
next
  case False
  let ?B = "base_B_size_of q t + 1 + 1" and ?f = "word_of_int (int (2 * unat degree)) :: u64"
  have d: "2 \<le> unat degree" "unat degree \<le> 131072" using False by (simp_all add: word_le_nat_alt word_less_nat_alt not_less)
  have du: "uint degree \<le> 131072" using False by (simp add: not_less word_le_def)
  have mul: "mul_safe uint64_t 2 (int (unat degree)) = Inr (int (2 * unat degree))"
    by (rule mul_safe_unsigned [THEN iffD2]) (use d du in \<open>simp_all add: wf_ctype_def in_type_def type_min_def type_max_def\<close>)
  have f: "unat ?f = 2 * unat degree" unfolding of_int_of_nat_eq using d by (simp only: unat_of_nat) simp
  have primes: "getPrimes rnd ?f SEAL_INTERNAL_MOD_BIT_COUNT ?B \<noteq> None"
    using getPrimes_value [where b = 61 and factor = ?f and rnd = rnd and n = ?B] d
    unfolding SEAL_INTERNAL_MOD_BIT_COUNT_def f by (auto split: if_splits)
  obtain m where m: "new_Modulus rnd (push_bit 32 1) = Some (Inr m)"
    by (rule new_Modulus_value [of "push_bit 32 1" rnd]) simp_all
  show ?thesis
  proof (cases "productFitsIn uint64_t (int (unat degree)) (int ?B)")
    case (Inl e)
    then show ?thesis using False unfolding RNSTool_initialize_def Let_def by simp
  next
    case (Inr fits)
    have "Option.bind (getPrimes rnd ?f SEAL_INTERNAL_MOD_BIT_COUNT ?B) (\<lambda>r. case r of Inl e \<Rightarrow> Some (Inl e)
      | Inr primes \<Rightarrow> Option.bind (new_Modulus rnd (push_bit 32 1)) (\<lambda>r. case r of Inl e \<Rightarrow> Some (Inl e)
      | Inr m_tilde \<Rightarrow> Some (RNSTool_bases rd (nat (getPowerOfTwo degree)) (unat degree) (base_B_size_of q t) q t primes m_tilde))) \<noteq> None"
      by (rule bind_case_total [OF primes]) (unfold m, simp)
    then show ?thesis using False Inr mul unfolding RNSTool_initialize_def Let_def by simp
  qed
qed

text \<open>What holds of the data when the bases are made.\<close>

definition entry_ok :: "SecurityLevel \<Rightarrow> nat \<Rightarrow> ContextData \<Rightarrow> bool" where
  "entry_ok sec p cd \<longleftrightarrow>
     (let parms = cd_parms cd; ms = ep_coeff_modulus parms; Q = crt_prod (modn ms) (length ms) in
      1 \<le> length ms \<and> length ms \<le> 64 \<and> (\<forall>m\<in>set ms. unat (mod_value m) < 2 ^ 60) \<and>
      1 \<le> p \<and> p \<le> 17 \<and> unat (ep_poly_modulus_degree parms) = 2 ^ p \<and>
      length (cd_total_coeff_modulus cd) = length ms \<and> uval (cd_total_coeff_modulus cd) = Q \<and>
      cd_total_coeff_modulus_bit_count cd = int (nbits Q) \<and>
      (sec \<noteq> SecurityLevel.none \<longrightarrow> int (nbits Q) \<le> MaxBitCount (ep_poly_modulus_degree parms) sec) \<and>
      sec_level (cd_qualifiers cd) = level_reached sec (ep_poly_modulus_degree parms) Q \<and>
      using_fft (cd_qualifiers cd) \<and> parameter_error (cd_qualifiers cd) = success)"

lemma entry_same_base: "same_base cd cd' \<Longrightarrow> entry_ok sec p cd \<Longrightarrow> entry_ok sec p cd'"
  by (simp add: same_base_def entry_ok_def)

lemma validate_tools_report:
  assumes e: "entry_ok sec p cd" and b: "new_RNSBase (ep_coeff_modulus (cd_parms cd)) = Inr b" "base_of b cd"
    and t: "modulus_isZero (ep_plain_modulus (cd_parms cd)) \<or> wf_modulus (ep_plain_modulus (cd_parms cd))"
    and ntt: "using_ntt (cd_qualifiers cd)" "length (cd_small_ntt_tables cd) = rns_size b"
      "\<forall>i<rns_size b. wf_tables p (rns_base b ! i) (cd_small_ntt_tables cd ! i)"
    and s: "if ep_scheme (cd_parms cd) = ckks then valid_ckks b cd else ep_scheme (cd_parms cd) \<in> {bfv, bgv} \<and> valid_plain p b cd"
  shows "report_of D sec (cd_parms cd) (validate_tools D p b cd)"
proof -
  let ?parms = "cd_parms cd"
  let ?R = "RNSTool_initialize (draw_prime D) (draw_tool D) (ep_poly_modulus_degree ?parms) b (ep_plain_modulus ?parms)"
  have p: "1 \<le> p" "p \<le> 17" using e by (simp_all add: entry_ok_def Let_def)
  consider "?R = None" | x where "?R = Some (Inl x)" | T where "?R = Some (Inr T)" by (metis option.exhaust sum.exhaust)
  then show ?thesis
  proof cases
    case 1
    then show ?thesis using RNSTool_initialize_total by blast
  next
    case 2
    then have "error_reason D sec ?parms failed_creating_rns_tool" using b(1) by (auto simp: error_reason_def Let_def)
    then show ?thesis using 2 by (simp add: validate_tools_def report_error)
  next
    case (3 T)
    have wb: "wf_rns b" using b(2) by (simp add: base_of_def)
    note wt = RNSTool_initialize_wf [OF wb t 3]
    let ?G = "\<lparr>gal_coeff_count_power = p, gal_coeff_count = 2 ^ p, gal_permutation_tables = replicate (2 ^ p) []\<rparr>"
    have g: "GaloisTool_initialize (int p) = Inr ?G" using p by (simp add: GaloisTool_initialize_wf)
    then have G: "wf_galois p ?G" using initialize_wf_galois by fastforce
    define cd' where "cd' = cd\<lparr>cd_rns_tool := Some T,
                   cd_qualifiers := (cd_qualifiers cd)\<lparr>using_descending_modulus_chain :=
                     list_all (\<lambda>i. modulus_value (ep_coeff_modulus ?parms ! i) > modulus_value (ep_coeff_modulus ?parms ! (i + 1)))
                       [0..<length (ep_coeff_modulus ?parms) - 1]\<rparr>,
                   cd_galois_tool := Some ?G\<rparr>"
    have r: "validate_tools D p b cd = Some (Inr cd')" using 3 g by (simp add: validate_tools_def cd'_def Let_def)
    have vp: "valid_plain p b cd' = valid_plain p b cd" "valid_ckks b cd' = valid_ckks b cd"
      by (simp_all add: valid_plain_def valid_ckks_def wf_scaling_def wf_lift_def cd'_def)
    have sel: "cd_parms cd' = ?parms" "cd_total_coeff_modulus cd' = cd_total_coeff_modulus cd"
        "cd_total_coeff_modulus_bit_count cd' = cd_total_coeff_modulus_bit_count cd"
        "sec_level (cd_qualifiers cd') = sec_level (cd_qualifiers cd)"
        "using_fft (cd_qualifiers cd') = using_fft (cd_qualifiers cd)" "using_ntt (cd_qualifiers cd')"
        "cd_small_ntt_tables cd' = cd_small_ntt_tables cd" "cd_rns_tool cd' = Some T" "cd_galois_tool cd' = Some ?G"
        "parameter_error (cd_qualifiers cd') = success"
      using e ntt(1) by (simp_all add: cd'_def entry_ok_def Let_def)
    have k: "rns_base b = ep_coeff_modulus ?parms" "length (ep_coeff_modulus ?parms) = rns_size b"
      using b(2) by (simp_all add: base_of_def)
    note e' = e [unfolded entry_ok_def Let_def k(2)]
    have s': "if ep_scheme ?parms = ckks then valid_ckks b cd' else ep_scheme ?parms \<in> {bfv, bgv} \<and> valid_plain p b cd'"
      using s unfolding vp .
    have f: "1 \<le> rns_size b" "rns_size b \<le> 64" "\<forall>m\<in>set (rns_base b). unat (mod_value m) < 2 ^ 60"
        "unat (ep_poly_modulus_degree ?parms) = 2 ^ p" "length (cd_total_coeff_modulus cd) = rns_size b"
        "uval (cd_total_coeff_modulus cd) = crt_prod (modn (rns_base b)) (rns_size b)"
        "cd_total_coeff_modulus_bit_count cd = int (nbits (crt_prod (modn (rns_base b)) (rns_size b)))"
        "sec \<noteq> SecurityLevel.none \<longrightarrow> int (nbits (crt_prod (modn (rns_base b)) (rns_size b))) \<le>
          MaxBitCount (ep_poly_modulus_degree ?parms) sec" "using_fft (cd_qualifiers cd)"
        "sec_level (cd_qualifiers cd) = level_reached sec (ep_poly_modulus_degree ?parms) (crt_prod (modn (rns_base b)) (rns_size b))"
      unfolding k(1) using e' by blast+
    have wt': "wf_tool T" "rt_base_q T = b" "rt_t T = ep_plain_modulus ?parms" "rt_coeff_count T = 2 ^ p"
      using wt f(4) by simp_all
    have "valid_context sec cd'"
      unfolding valid_context_def Let_def sel
      by (intro exI [of _ b] exI [of _ p] exI [of _ T] exI [of _ ?G])
        (use f wb p ntt(2,3) wt' G s' sel(6) k(1) in blast)
    then show ?thesis unfolding r by (simp add: report_of_def validation_report_def sel)
  qed
qed

lemma validate_scheme_stage:
  assumes b: "base_of b cd" and p: "1 \<le> p" "p \<le> 17" and scheme: "ep_scheme (cd_parms cd) \<noteq> scheme_none"
    and t: "modulus_isZero (ep_plain_modulus (cd_parms cd)) \<or> wf_modulus (ep_plain_modulus (cd_parms cd))"
  shows "stage_result D sec (\<lambda>cd'. if ep_scheme (cd_parms cd') = ckks then valid_ckks b cd'
    else ep_scheme (cd_parms cd') \<in> {bfv, bgv} \<and> valid_plain p b cd') cd (validate_scheme D p b cd)"
proof (cases "ep_scheme (cd_parms cd) = ckks")
  case True
  then show ?thesis
    using validate_ckks_stage [OF b True, of D sec] by (auto simp: validate_scheme_def stage_result_def same_base_def)
next
  case False
  then have s: "ep_scheme (cd_parms cd) \<in> {bfv, bgv}" using scheme by (cases "ep_scheme (cd_parms cd)") auto
  then have "validate_scheme D p b cd = validate_plain D p b cd" by (auto simp: validate_scheme_def)
  then show ?thesis using validate_plain_stage [OF b p s t, of D sec] False s by (auto simp: stage_result_def same_base_def)
qed

lemma validate_bases_report:
  assumes e: "entry_ok sec p cd" and wf: "\<forall>m\<in>set (ep_coeff_modulus (cd_parms cd)). wf_modulus m"
    and t: "modulus_isZero (ep_plain_modulus (cd_parms cd)) \<or> wf_modulus (ep_plain_modulus (cd_parms cd))"
    and scheme: "ep_scheme (cd_parms cd) \<noteq> scheme_none"
  shows "report_of D sec (cd_parms cd) (validate_bases D p cd)"
proof -
  let ?ms = "ep_coeff_modulus (cd_parms cd)"
  have ne: "?ms \<noteq> []" "length ?ms \<le> 64" and p: "1 \<le> p" "p \<le> 17" "0 < p" "p \<le> 62"
    using e by (auto simp: entry_ok_def Let_def)
  from new_RNSBase_cases [OF ne(1) wf ne(2)] show ?thesis
  proof (elim disjE exE conjE)
    assume "new_RNSBase ?ms = Inl (Invalid_argument ''rnsbase is invalid'')" "\<not> good_moduli ?ms"
    then show ?thesis by (simp add: validate_bases_def report_error error_reason_def Let_def)
  next
    fix b assume b: "new_RNSBase ?ms = Inr b" "wf_rns b" "rns_base b = ?ms" "rns_size b = length ?ms"
    from CreateNTTTables_cases [OF ne(1) wf p(3,4), of "draw_coeff D"] show ?thesis
    proof (elim disjE exE conjE)
      fix i assume i: "CreateNTTTables (draw_coeff D) p ?ms = Inl (Invalid_argument ''invalid modulus'')"
        "i < length ?ms" "tryMinimalPrimitiveRoot (draw_coeff D i) (2 * push_bit p 1) (?ms ! i) = None"
      have "wf_modulus (?ms ! i)" using wf i(2) by simp
      from no_root_reason [OF this p(4) i(3)] have "no_root_found (2 ^ p) (unat (mod_value (?ms ! i))) (draw_coeff D i)" .
      moreover have "unat (ep_poly_modulus_degree (cd_parms cd)) = 2 ^ p" using e by (simp only: entry_ok_def Let_def)
      ultimately have "error_reason D sec (cd_parms cd) invalid_coeff_modulus_no_ntt" using i(2) by (auto simp: error_reason_def Let_def)
      then show ?thesis using b(1) i(1) by (simp add: validate_bases_def report_error)
    next
      fix ts assume ts: "CreateNTTTables (draw_coeff D) p ?ms = Inr ts" "length ts = length ?ms"
        "\<forall>i<length ?ms. wf_tables p (?ms ! i) (ts ! i)"
      let ?cd = "cd\<lparr>cd_small_ntt_tables := ts, cd_qualifiers := (cd_qualifiers cd)\<lparr>using_ntt := True\<rparr>\<rparr>"
      have e': "entry_ok sec p ?cd" using e by (simp add: entry_ok_def)
      have bo: "base_of b ?cd" using e b by (simp add: base_of_def entry_ok_def Let_def)
      have r: "validate_bases D p cd = (case validate_scheme D p b ?cd of
          None \<Rightarrow> None | Some (Inl e) \<Rightarrow> Some (Inl e) | Some (Inr (False, cd)) \<Rightarrow> Some (Inr cd)
        | Some (Inr (True, cd)) \<Rightarrow> validate_tools D p b cd)"
        by (simp add: validate_bases_def b(1) ts(1))
      have t': "modulus_isZero (ep_plain_modulus (cd_parms ?cd)) \<or> wf_modulus (ep_plain_modulus (cd_parms ?cd))"
        and s': "ep_scheme (cd_parms ?cd) \<noteq> scheme_none" using t scheme by simp_all
      from validate_scheme_stage [OF bo p(1,2) s' t', of D sec] show ?thesis
        unfolding stage_result_def
      proof (elim disjE exE conjE)
        fix x assume "validate_scheme D p b ?cd = Some (Inr (False, with_error x ?cd))" "x \<noteq> success"
          "error_reason D sec (cd_parms ?cd) x" "x \<noteq> invalid_parameters_insecure"
        then show ?thesis unfolding r by (simp add: report_error)
      next
        fix cd' assume cd': "validate_scheme D p b ?cd = Some (Inr (True, cd'))" "same_base ?cd cd'"
          "if ep_scheme (cd_parms cd') = ckks then valid_ckks b cd' else ep_scheme (cd_parms cd') \<in> {bfv, bgv} \<and> valid_plain p b cd'"
        have sb: "cd_parms cd' = cd_parms cd" "using_ntt (cd_qualifiers cd')" "cd_small_ntt_tables cd' = ts"
          using cd'(2) by (simp_all add: same_base_def)
        have bo': "base_of b cd'" by (rule base_same_base [OF cd'(2) bo])
        have "report_of D sec (cd_parms cd') (validate_tools D p b cd')"
          by (rule validate_tools_report [OF entry_same_base [OF cd'(2) e'] _ bo'])
            (use b t ts cd'(3) sb in simp_all)
        then show ?thesis unfolding r cd'(1) by (simp add: sb(1))
      qed
    qed
  qed
qed

lemma degree_power:
  assumes "getPowerOfTwo n = int p" "2 \<le> unat n" "unat n \<le> 131072"
  shows "1 \<le> p" "p \<le> 17" "unat n = 2 ^ p"
proof -
  show n: "unat n = 2 ^ p" using assms(1) by (simp add: getPowerOfTwo_spec)
  show "1 \<le> p" using assms(2) n by (cases p) simp_all
  show "p \<le> 17"
  proof (rule ccontr)
    assume "\<not> p \<le> 17"
    then have "(2 :: nat) ^ 18 \<le> 2 ^ p" by (intro power_increasing) simp_all
    then show False using assms(3) n by simp
  qed
qed

lemma validate_report:
  assumes wf: "\<forall>m\<in>set (ep_coeff_modulus parms). wf_modulus m"
    and t: "modulus_isZero (ep_plain_modulus parms) \<or> wf_modulus (ep_plain_modulus parms)"
  shows "report_of D sec parms (validate D sec parms)"
proof -
  define ms n cd0 where "ms = ep_coeff_modulus parms" and "n = ep_poly_modulus_degree parms" and "cd0 = with_error success (new_ContextData parms)"
  define Q where "Q = crt_prod (modn ms) (length ms)"
  have cd0: "cd_parms cd0 = parms" "parameter_error (cd_qualifiers cd0) = success" by (simp_all add: cd0_def new_ContextData_def)
  have bits: "SEAL_USER_MOD_BIT_COUNT_MAX = 60" "SEAL_USER_MOD_BIT_COUNT_MIN - 1 = 1"
    by (simp_all add: SEAL_USER_MOD_BIT_COUNT_MAX_def SEAL_USER_MOD_BIT_COUNT_MIN_def)
  have small: "list_ex (\<lambda>m. drop_bit SEAL_USER_MOD_BIT_COUNT_MAX (modulus_value m) \<noteq> 0 \<or>
      drop_bit (SEAL_USER_MOD_BIT_COUNT_MIN - 1) (modulus_value m) = 0) ms = (\<exists>m\<in>set ms. 2 ^ 60 \<le> unat (mod_value m))"
    unfolding list_ex_iff bits drop_bit_zero modulus_value_def
    using wf wf_modulusD(2) by (fastforce simp: ms_def not_less)
  let ?tot = "multiplyManyUint64 (map modulus_value ms)"
  let ?cd1 = "cd0\<lparr>cd_total_coeff_modulus := ?tot, cd_total_coeff_modulus_bit_count := getSignificantBitCountUint ?tot\<rparr>"
  let ?ins = "getSignificantBitCountUint ?tot > MaxBitCount n sec"
  let ?cd2 = "?cd1\<lparr>cd_qualifiers := (cd_qualifiers ?cd1)\<lparr>using_fft := True, sec_level := (if ?ins then SecurityLevel.none else sec)\<rparr>\<rparr>"
  have v: "validate D sec parms =
     (if ep_scheme parms = scheme_none then Some (Inr (with_error invalid_scheme cd0))
      else if length ms > SEAL_COEFF_MOD_COUNT_MAX \<or> length ms < SEAL_COEFF_MOD_COUNT_MIN
      then Some (Inr (with_error invalid_coeff_modulus_size cd0))
      else if \<exists>m\<in>set ms. 2 ^ 60 \<le> unat (mod_value m) then Some (Inr (with_error invalid_coeff_modulus_bit_count cd0))
      else if n < SEAL_POLY_MOD_DEGREE_MIN \<or> n > SEAL_POLY_MOD_DEGREE_MAX then Some (Inr (with_error invalid_poly_modulus_degree ?cd1))
      else if getPowerOfTwo n < 0 then Some (Inr (with_error invalid_poly_modulus_degree_non_power_of_two ?cd1))
      else case productFitsIn uint64_t (int (length ms)) (uint n) of
             Inl e \<Rightarrow> Some (Inl e)
           | Inr fits \<Rightarrow> if \<not> fits then Some (Inr (with_error invalid_parameters_too_large ?cd1))
               else if ?ins \<and> sec \<noteq> SecurityLevel.none then Some (Inr (with_error invalid_parameters_insecure ?cd2))
               else validate_bases D (nat (getPowerOfTwo n)) ?cd2)"
    unfolding validate_def Let_def ms_def [symmetric] n_def [symmetric] cd0_def [symmetric] small by (simp only: )
  show ?thesis
  proof (cases "ep_scheme parms = scheme_none")
    case True
    then show ?thesis unfolding v by (simp add: report_error error_reason_def cd0(1))
  next
    case scheme: False
    show ?thesis
    proof (cases "length ms = 0 \<or> 64 < length ms")
      case True
      then have "error_reason D sec parms invalid_coeff_modulus_size" by (auto simp: error_reason_def Let_def ms_def)
      then show ?thesis using scheme True unfolding v
        by (auto simp: SEAL_COEFF_MOD_COUNT_MAX_def SEAL_COEFF_MOD_COUNT_MIN_def cd0(1) intro!: report_error)
    next
      case count: False
      then have c: "\<not> (length ms > SEAL_COEFF_MOD_COUNT_MAX \<or> length ms < SEAL_COEFF_MOD_COUNT_MIN)"
        by (simp add: SEAL_COEFF_MOD_COUNT_MAX_def SEAL_COEFF_MOD_COUNT_MIN_def Suc_le_eq not_less)
      show ?thesis
      proof (cases "\<exists>m\<in>set ms. 2 ^ 60 \<le> unat (mod_value m)")
        case True
        then have "error_reason D sec parms invalid_coeff_modulus_bit_count" by (simp add: error_reason_def Let_def ms_def)
        then show ?thesis using scheme c True unfolding v by (simp add: report_error cd0(1))
      next
        case mods: False
        have deg: "n < SEAL_POLY_MOD_DEGREE_MIN \<or> n > SEAL_POLY_MOD_DEGREE_MAX \<longleftrightarrow> unat n < 2 \<or> 131072 < unat n"
          by (simp add: SEAL_POLY_MOD_DEGREE_MIN_def SEAL_POLY_MOD_DEGREE_MAX_def word_less_nat_alt)
        show ?thesis
        proof (cases "unat n < 2 \<or> 131072 < unat n")
          case True
          then have "error_reason D sec parms invalid_poly_modulus_degree" by (simp add: error_reason_def Let_def n_def)
          then show ?thesis using scheme c mods True unfolding v deg by (simp add: report_error cd0(1))
        next
          case range: False
          show ?thesis
          proof (cases "getPowerOfTwo n < 0")
            case True
            then have "error_reason D sec parms invalid_poly_modulus_degree_non_power_of_two"
              using getPowerOfTwo_spec [of n] by (force simp: error_reason_def Let_def n_def)
            then show ?thesis using scheme c mods range True unfolding v deg by (simp add: report_error cd0(1))
          next
            case False
            define p where "p = nat (getPowerOfTwo n)"
            have gp: "getPowerOfTwo n = int p" using False by (simp add: p_def)
            have p: "1 \<le> p" "p \<le> 17" "unat n = 2 ^ p" using degree_power [OF gp] range by simp_all
            have "length ms * unat n \<le> 64 * 131072" using count range by (intro mult_le_mono) simp_all
            then have fits: "productFitsIn uint64_t (int (length ms)) (uint n) = Inr True"
              using product_fits [of "length ms" "unat n"] count by simp
            have ne: "ms \<noteq> []" using count by auto
            have Qv: "uval ?tot = Q" "length ?tot = length ms"
              using multiplyManyUint64_value [of "map modulus_value ms"] ne
              by (simp_all add: Q_def crt_prod_def modulus_value_def)
            have tb: "getSignificantBitCountUint ?tot = int (nbits Q)"
              using getSignificantBitCountUint_nbits [of ?tot] Qv ne by (cases ?tot) auto
            show ?thesis
            proof (cases "?ins \<and> sec \<noteq> SecurityLevel.none")
              case True
              then have "sec \<noteq> SecurityLevel.none \<and> MaxBitCount n sec < int (nbits Q)" using tb by simp
              then have "error_reason D sec parms invalid_parameters_insecure"
                by (simp add: error_reason_def Let_def n_def Q_def ms_def)
              then show ?thesis using scheme c mods range False fits True unfolding v deg by (simp add: report_error cd0(1))
            next
              case secure: False
              have "entry_ok sec p ?cd2"
                using count mods p Qv tb secure cd0
                by (auto simp: entry_ok_def level_reached_def Let_def ms_def [symmetric] n_def [symmetric] Q_def [symmetric] not_le Suc_le_eq)
              from validate_bases_report [OF this] wf t scheme
              have "report_of D sec (cd_parms ?cd2) (validate_bases D p ?cd2)" using cd0(1) by simp
              moreover have "validate D sec parms = validate_bases D p ?cd2"
                unfolding v deg if_not_P [OF scheme] if_not_P [OF c] if_not_P [OF mods] if_not_P [OF range] if_not_P [OF False]
                  fits sum.case not_True_eq_False if_False if_not_P [OF secure] p_def ..
              moreover have "cd_parms ?cd2 = parms" by (simp add: cd0(1))
              ultimately show ?thesis by (simp only: )
            qed
          qed
        qed
      qed
    qed
  qed
qed

text \<open>
  C5. Whatever the encryption parameters, the security level and the random draws are, the validation of a context lets no
  exception escape when the moduli are ones the library builds. Either the error it records has the reason that
  \<open>error_reason\<close> gives for it (for a modulus without a transform: it is not one modulo twice the degree, or none of the hundred
  numbers drawn gives a root), or it records success, and then the record it returns carries the parameters unchanged, a degree that is
  a power of two, the tables of every coefficient modulus, an RNS tool for the base, the product of the moduli and its bit
  count, and the constants of the scheme. The level it records is the one asked for, reset to none when the bit
  count is beyond its bound; unless no level was asked for this is an error. For CKKS the increments of the upper half are only stated to be residues.
\<close>

theorem validate_correct:
  assumes "\<forall>m\<in>set (ep_coeff_modulus parms). wf_modulus m"
    and "modulus_isZero (ep_plain_modulus parms) \<or> wf_modulus (ep_plain_modulus parms)"
  shows "\<exists>cd. validate D sec parms = Some (Inr cd) \<and> validation_report D sec parms cd"
  using validate_report [OF assms, of D sec] by (auto simp: report_of_def split: option.splits sum.splits)

theorem validate_correct_witness:
  "\<forall>D sec. \<exists>cd. validate D sec example_parms = Some (Inr cd) \<and> validation_report D sec example_parms cd"
proof (intro allI)
  fix D sec
  have "\<forall>m\<in>set (ep_coeff_modulus example_parms). wf_modulus m" "wf_modulus (ep_plain_modulus example_parms)"
    using wf_modulus_examples(4) wf_modulus_17 wf_modulus_97 by (simp_all add: example_parms_def)
  then show "\<exists>cd. validate D sec example_parms = Some (Inr cd) \<and> validation_report D sec example_parms cd"
    using validate_correct [of example_parms D sec] by blast
qed

end
