(* ===== verification/Batch_Encoder.thy ===== *)
theory Batch_Encoder
  imports Context_Valid
begin

unbundle bit_operations_syntax

text \<open>
  The batch encoder, \<open>batchencoder.cpp\<close> of \<open>heu/library/algorithms/seal_gpu/\<close>: vectors of numbers modulo the plaintext
  modulus become polynomials whose values at the primitive roots of unity they are, in an order in which the
  automorphisms of the ring rotate the two rows of the vector.
\<close>

section \<open>The code\<close>

record BatchEncoder =
  be_context :: SEALContext
  be_slots :: u64
  be_roots_of_unity :: "u64 list"
  be_matrix_reps_index_map :: "nat list"

definition populateRootsOfUnityVector :: "u64 \<Rightarrow> ContextData \<Rightarrow> u64 list" where
  "populateRootsOfUnityVector slots cd =
     (let root = ntt_root (cd_plain_ntt_tables cd ! 0); modulus = ep_plain_modulus (cd_parms cd);
          generator_sq = multiplyUintMod root root modulus
      in fold (\<lambda>i roots. roots[i := multiplyUintMod (roots ! (i - 1)) generator_sq modulus]) [1..<unat slots]
           ((replicate (unat slots) 0)[0 := root]))"

fun index_map_loop :: "nat \<Rightarrow> nat \<Rightarrow> u64 \<Rightarrow> int \<Rightarrow> nat \<Rightarrow> u64 \<Rightarrow> nat list \<Rightarrow> nat list res" where
  "index_map_loop 0 row_size m logn i pos index_map = Inr index_map"
| "index_map_loop (Suc k) row_size m logn i pos index_map =
     (let index1 = drop_bit 1 (pos - 1); index2 = drop_bit 1 (m - pos - 1)
      in rbind (safe_cast uint64_t uint64_t (uint (reverseBits64_count index1 logn))) (\<lambda>a.
         rbind (safe_cast uint64_t uint64_t (uint (reverseBits64_count index2 logn))) (\<lambda>b.
           index_map_loop k row_size m logn (i + 1) (pos * 3 AND (m - 1))
             (index_map[i := nat a, (row_size OR i) := nat b]))))"

definition populateMatrixRepsIndexMap :: "u64 \<Rightarrow> nat list res" where
  "populateMatrixRepsIndexMap slots =
     (let logn = getPowerOfTwo slots; row_size = unat (drop_bit 1 slots); m = push_bit 1 slots
      in index_map_loop row_size row_size m logn 0 1 (replicate (unat slots) 0))"

definition new_BatchEncoder :: "SEALContext \<Rightarrow> BatchEncoder res" where
  "new_BatchEncoder c =
     (case firstContextData c of
        None \<Rightarrow> Inl (Invalid_argument ''encryption parameters are not set correctly'')
      | Some cd \<Rightarrow>
          if \<not> context_parametersSet c then Inl (Invalid_argument ''encryption parameters are not set correctly'')
          else if ep_scheme (cd_parms cd) \<noteq> bfv \<and> ep_scheme (cd_parms cd) \<noteq> bgv
          then Inl (Invalid_argument ''unsupported scheme'')
          else
            let slots = ep_poly_modulus_degree (cd_parms cd) in
            if using_batching (cd_qualifiers cd)
            then rbind (populateMatrixRepsIndexMap slots) (\<lambda>index_map.
                   Inr \<lparr>be_context = c, be_slots = slots, be_roots_of_unity = populateRootsOfUnityVector slots cd,
                        be_matrix_reps_index_map = index_map\<rparr>)
            else Inr \<lparr>be_context = c, be_slots = slots, be_roots_of_unity = [], be_matrix_reps_index_map = []\<rparr>)"

definition batch_reverseBits :: "BatchEncoder \<Rightarrow> u64 list \<Rightarrow> u64 list option" where
  "batch_reverseBits e input =
     (case firstContextData (be_context e) of
        None \<Rightarrow> None
      | Some cd \<Rightarrow>
          let coeff_count = ep_poly_modulus_degree (cd_parms cd); logn = getPowerOfTwo coeff_count
          in Some (fold (\<lambda>i xs.
               let reversed_i = unat (reverseBits64_count (of_nat i) logn)
               in if i < reversed_i then xs[i := xs ! reversed_i, reversed_i := xs ! i] else xs)
               [0..<unat coeff_count] input))"

text \<open>
  Both encoders write the values, reduced or not, to the places of the index map and transform back. Without batching
  the index map is a null pointer.
\<close>

definition write_slots :: "nat list \<Rightarrow> nat \<Rightarrow> u64 list \<Rightarrow> u64 list \<Rightarrow> u64 list" where
  "write_slots index_map slots vs d =
     fold (\<lambda>i d. d[index_map ! i := 0]) [length vs..<slots]
       (fold (\<lambda>i d. d[index_map ! i := vs ! i]) [0..<length vs] d)"

definition batch_encode :: "BatchEncoder \<Rightarrow> u64 list \<Rightarrow> Plaintext \<Rightarrow> Plaintext res option" where
  "batch_encode e values_matrix destination =
     (case firstContextData (be_context e) of
        None \<Rightarrow> None
      | Some cd \<Rightarrow>
          let slots = unat (be_slots e) in
          if length values_matrix > slots then Some (Inl (Invalid_argument ''values_matrix size is too large''))
          else case plain_resize slots destination of
                 Inl x \<Rightarrow> Some (Inl x)
               | Inr p \<Rightarrow>
                   if be_matrix_reps_index_map e = [] then None
                   else
                     let d = write_slots (be_matrix_reps_index_map e) slots values_matrix (hd_internal (pt_data p));
                         d = on_slice 0 slots (\<lambda>x. inverseNttNegacyclicHarvey x (cd_plain_ntt_tables cd ! 0)) d
                     in Some (Inr (p\<lparr>pt_parms_id := parmsIDZero, pt_data := (pt_data p)\<lparr>hd_internal := d\<rparr>\<rparr>)))"

definition batch_encode_signed :: "BatchEncoder \<Rightarrow> u64 list \<Rightarrow> Plaintext \<Rightarrow> Plaintext res option" where
  "batch_encode_signed e values_matrix destination =
     (case firstContextData (be_context e) of
        None \<Rightarrow> None
      | Some cd \<Rightarrow>
          let modulus = modulus_value (ep_plain_modulus (cd_parms cd))
          in batch_encode e (map (\<lambda>v. if sint v < 0 then modulus + v else v) values_matrix) destination)"

definition batch_decode :: "BatchEncoder \<Rightarrow> Plaintext \<Rightarrow> u64 list res option" where
  "batch_decode e plain =
     (case plain_isValidFor plain (be_context e) of
        Inl x \<Rightarrow> Some (Inl x)
      | Inr ok \<Rightarrow>
          if \<not> ok then Some (Inl (Invalid_argument ''plain is not valid for encryption parameters''))
          else if plain_isNttForm plain then Some (Inl (Invalid_argument ''plain cannot be in NTT form''))
          else
            case firstContextData (be_context e) of
              None \<Rightarrow> None
            | Some cd \<Rightarrow>
                if be_matrix_reps_index_map e = [] then None
                else
                  let slots = unat (be_slots e);
                      plain_coeff_count = min (pt_coeff_count plain) slots;
                      temp_dest = take plain_coeff_count (hd_internal (pt_data plain)) @ replicate (slots - plain_coeff_count) 0;
                      temp_dest = nttNegacyclicHarvey temp_dest (cd_plain_ntt_tables cd ! 0)
                  in Some (Inr (map (\<lambda>i. temp_dest ! (be_matrix_reps_index_map e ! i)) [0..<slots])))"

definition batch_decode_signed :: "BatchEncoder \<Rightarrow> Plaintext \<Rightarrow> u64 list res option" where
  "batch_decode_signed e plain =
     (case batch_decode e plain of
        Some (Inr vs) \<Rightarrow>
          (case firstContextData (be_context e) of
             None \<Rightarrow> None
           | Some cd \<Rightarrow>
               let modulus = modulus_value (ep_plain_modulus (cd_parms cd)); plain_modulus_div_two = drop_bit 1 modulus
               in Some (Inr (map (\<lambda>curr_value. if curr_value > plain_modulus_div_two then curr_value - modulus else curr_value) vs)))
      | r \<Rightarrow> r)"

section \<open>The order of the slots\<close>

text \<open>The powers of three modulo a power of two: how often two divides their difference from one.\<close>

lemma odd_sum_powers: "odd x \<Longrightarrow> odd (\<Sum>i<n. x ^ i) \<longleftrightarrow> odd n" for x :: nat
  by (induction n) auto

lemma power_geometric: "(y + 1) ^ n = y * (\<Sum>i<n. (y + 1) ^ i) + 1" for y :: nat
  by (induction n) (simp_all add: algebra_simps)

lemma three_power_odd: "\<exists>u. odd u \<and> 3 ^ 2 ^ Suc j = 2 ^ (j + 3) * u + (1 :: nat)"
proof (induction j)
  case (Suc j)
  then obtain u :: nat where u: "odd u" "3 ^ 2 ^ Suc j = 2 ^ (j + 3) * u + 1" by blast
  have "(3 :: nat) ^ 2 ^ Suc (Suc j) = 3 ^ 2 ^ Suc j * 3 ^ 2 ^ Suc j" by (simp flip: power_add power_mult add: mult_2)
  also have "\<dots> = 2 ^ (Suc j + 3) * (2 ^ (j + 2) * u * u + u) + 1" unfolding u(2) by (simp add: algebra_simps power_add)
  finally show ?case using u(1) by (intro exI [of _ "2 ^ (j + 2) * u * u + u"]) simp
qed (rule exI [of _ 1], simp)

lemma three_power_dvd:
  assumes d: "0 < d" "2 ^ (k + 3) dvd (3 ^ d - 1 :: nat)"
  shows "2 ^ Suc k dvd d"
proof -
  obtain j r where jr: "d = 2 ^ j * r" "odd r" by (rule odd_part [OF d(1)])
  show ?thesis
  proof (cases j)
    case 0
    have "(3 :: nat) ^ d - 1 = 2 * (\<Sum>i<d. 3 ^ i)" using power_geometric [of 2 d] by simp
    moreover have o: "odd (\<Sum>i<d. (3 :: nat) ^ i)" using jr 0 by (simp add: odd_sum_powers)
    moreover have "(2 :: nat) ^ (k + 3) = 2 * (2 * 2 ^ (k + 1))" by (simp add: power_add)
    ultimately have "2 * (2 * 2 ^ (k + 1)) dvd 2 * (\<Sum>i<d. (3 :: nat) ^ i)" using d(2) by (simp only:)
    then have "2 * 2 ^ (k + 1) dvd (\<Sum>i<d. (3 :: nat) ^ i)" by (simp only: nat_mult_dvd_cancel_disj) simp
    then have "2 dvd (\<Sum>i<d. (3 :: nat) ^ i)" by (rule dvd_mult_left)
    then show ?thesis using o by contradiction
  next
    case (Suc i)
    obtain u :: nat where u: "odd u" "3 ^ 2 ^ Suc i = 2 ^ (i + 3) * u + 1" using three_power_odd by blast
    let ?x = "2 ^ (i + 3) * u"
    have "(3 :: nat) ^ d = (?x + 1) ^ r" unfolding jr(1) Suc u(2) [symmetric] by (simp flip: power_mult)
    also have "\<dots> = ?x * (\<Sum>i<r. (?x + 1) ^ i) + 1" by (rule power_geometric)
    finally have e: "(3 :: nat) ^ d - 1 = 2 ^ (i + 3) * (u * (\<Sum>i<r. (?x + 1) ^ i))" by (simp only: add_diff_cancel_right' mult.assoc)
    have "odd (\<Sum>i<r. (?x + 1) ^ i)" using odd_sum_powers [of "?x + 1" r] jr(2) by simp
    then have o: "odd (u * (\<Sum>i<r. (?x + 1) ^ i))" using u(1) by simp
    have "k + 3 \<le> i + 3"
    proof (rule ccontr)
      assume "\<not> k + 3 \<le> i + 3"
      then have "(2 :: nat) ^ Suc (i + 3) dvd 2 ^ (k + 3)" by (intro le_imp_power_dvd) simp
      from dvd_trans [OF this d(2)] have "2 ^ (i + 3) * 2 dvd 2 ^ (i + 3) * (u * (\<Sum>i<r. (?x + 1) ^ i))" unfolding e power_Suc2 .
      then have "2 dvd u * (\<Sum>i<r. (?x + 1) ^ i)" by (simp only: nat_mult_dvd_cancel_disj) simp
      then show False using o by contradiction
    qed
    then have "(2 :: nat) ^ Suc k dvd 2 ^ j" unfolding Suc by (intro le_imp_power_dvd) simp
    then show ?thesis unfolding jr(1) by (rule dvd_mult2)
  qed
qed

text \<open>Powers of three are never congruent to minus one modulo eight.\<close>

lemma three_power_mod_8: "3 ^ d mod 8 \<in> {1, 3 :: nat}"
proof (induction d)
  case (Suc d)
  have "(3 :: nat) ^ Suc d mod 8 = 3 * (3 ^ d mod 8) mod 8" by (simp add: mod_mult_right_eq)
  with Suc show ?case by auto
qed simp

definition slot_exponent :: "nat \<Rightarrow> nat \<Rightarrow> nat" where
  "slot_exponent p i =
     (if i < 2 ^ (p - 1) then 3 ^ i mod 2 ^ Suc p else 2 ^ Suc p - 3 ^ (i - 2 ^ (p - 1)) mod 2 ^ Suc p)"

definition slot_place :: "nat \<Rightarrow> nat \<Rightarrow> nat" where
  "slot_place p i = revn p (slot_exponent p i div 2)"

lemma three_power_mod_odd: "odd (3 ^ i mod 2 ^ Suc p :: nat)"
  by (simp add: dvd_mod_iff)

lemma slot_exponent_odd: "odd (slot_exponent p i)" "slot_exponent p i < 2 ^ Suc p"
proof -
  have lt: "(3 :: nat) ^ i mod 2 ^ Suc p < 2 ^ Suc p" for i by simp
  have pos: "0 < (3 :: nat) ^ i mod 2 ^ Suc p" for i using three_power_mod_odd [of i p] by (metis dvd_0_right neq0_conv)
  have ev: "even (2 ^ Suc p :: nat)" by simp
  have "odd (2 ^ Suc p - (3 :: nat) ^ i mod 2 ^ Suc p)" for i
    using three_power_mod_odd [of i p] less_not_sym [OF lt [of i]] ev by (simp only: even_diff_nat even_add simp_thms)
  then show "odd (slot_exponent p i)" using three_power_mod_odd unfolding slot_exponent_def by simp
  show "slot_exponent p i < 2 ^ Suc p" unfolding slot_exponent_def using lt pos by (simp add: diff_less del: power_Suc)
qed

lemma power_diff_dvd:
  assumes "(3 :: nat) ^ a mod 2 ^ n = 3 ^ b mod 2 ^ n" "a \<le> b"
  shows "2 ^ n dvd (3 ^ (b - a) - 1 :: nat)"
proof -
  have "(3 :: nat) ^ b = 3 ^ a * 3 ^ (b - a)" using assms(2) by (simp flip: power_add)
  then have "(3 :: nat) ^ b - 3 ^ a = 3 ^ a * (3 ^ (b - a) - 1)" by (simp add: diff_mult_distrib2)
  moreover have "2 ^ n dvd (3 :: nat) ^ b - 3 ^ a"
    using assms by (metis mod_eq_dvd_iff_nat power_increasing one_le_numeral)
  moreover have "coprime ((2 :: nat) ^ n) (3 ^ a)" by simp
  ultimately show ?thesis by (metis coprime_dvd_mult_right_iff)
qed

lemma three_power_inj:
  assumes p: "0 < p" and "a < 2 ^ (p - 1)" "b < 2 ^ (p - 1)" "(3 :: nat) ^ a mod 2 ^ Suc p = 3 ^ b mod 2 ^ Suc p"
  shows "a = b"
proof -
  have *: "a = b" if "a \<le> b" "b < 2 ^ (p - 1)" "(3 :: nat) ^ a mod 2 ^ Suc p = 3 ^ b mod 2 ^ Suc p" for a b
  proof (rule ccontr)
    assume "a \<noteq> b"
    then have d: "0 < b - a" "b - a < 2 ^ (p - 1)" using that by simp_all
    show False
    proof (cases "p = 1")
      case False
      then obtain k where k: "p = k + 2" using p by (metis One_nat_def Suc_1 add.commute le_Suc_ex Suc_leI le_neq_implies_less)
      have "2 ^ (k + 3) dvd (3 ^ (b - a) - 1 :: nat)" using power_diff_dvd [OF that(3,1)] unfolding k by (simp add: numeral_3_eq_3)
      from three_power_dvd [OF d(1) this] have "2 ^ Suc k \<le> b - a" using d(1) by (rule dvd_imp_le)
      then show False using d(2) unfolding k by simp
    qed (use d in simp)
  qed
  show ?thesis using *[of a b] *[of b a] assms by (metis nat_le_linear)
qed

lemma three_power_no_minus:
  assumes p: "0 < p" and "a < 2 ^ (p - 1)" "b < 2 ^ (p - 1)"
  shows "(3 :: nat) ^ a mod 2 ^ Suc p \<noteq> 2 ^ Suc p - 3 ^ b mod 2 ^ Suc p"
proof
  assume e: "(3 :: nat) ^ a mod 2 ^ Suc p = 2 ^ Suc p - 3 ^ b mod 2 ^ Suc p"
  have "(3 :: nat) ^ b mod 2 ^ Suc p \<le> 2 ^ Suc p" by (simp add: less_imp_le)
  with e have s: "(3 :: nat) ^ a mod 2 ^ Suc p + 3 ^ b mod 2 ^ Suc p = 2 ^ Suc p" by linarith
  show False
  proof (cases "p = 1")
    case True
    then have "a = 0" "b = 0" using assms by simp_all
    then show False using s True by simp
  next
    case False
    then have "3 \<le> Suc p" using p by simp
    then have dv: "(8 :: nat) dvd 2 ^ Suc p" using le_imp_power_dvd [of 3 "Suc p" "2 :: nat"] by simp
    have "(3 ^ a mod 8 + 3 ^ b mod 8) mod 8 = ((3 :: nat) ^ a mod 2 ^ Suc p + 3 ^ b mod 2 ^ Suc p) mod 8"
      using dv by (simp only: mod_add_eq mod_mod_cancel) (metis dv mod_add_eq mod_mod_cancel)
    also have "\<dots> = 0" unfolding s using dv by (rule dvd_imp_mod_0)
    finally show False using three_power_mod_8 [of a] three_power_mod_8 [of b] by (auto simp del: One_nat_def)
  qed
qed

lemma slot_exponent_inj:
  assumes p: "0 < p" and "i < 2 ^ p" "j < 2 ^ p" and e: "slot_exponent p i = slot_exponent p j"
  shows "i = j"
proof -
  have d: "(2 :: nat) ^ p = 2 ^ (p - 1) + 2 ^ (p - 1)" using p by (cases p) simp_all
  have lt: "(3 :: nat) ^ i mod 2 ^ Suc p < 2 ^ Suc p" for i by simp
  note low = three_power_inj [OF p] and no = three_power_no_minus [OF p]
  show ?thesis
  proof (cases "i < 2 ^ (p - 1)")
    case True
    note i = this
    show ?thesis
    proof (cases "j < 2 ^ (p - 1)")
      case True
      then show ?thesis using low [OF i] e i unfolding slot_exponent_def by simp
    next
      case False
      then have "j - 2 ^ (p - 1) < 2 ^ (p - 1)" using assms(3) d by linarith
      then show ?thesis using no [OF i, of "j - 2 ^ (p - 1)"] e i False unfolding slot_exponent_def if_P [OF i] if_not_P [OF False] by blast
    qed
  next
    case i: False
    show ?thesis
    proof (cases "j < 2 ^ (p - 1)")
      case True
      moreover have "i - 2 ^ (p - 1) < 2 ^ (p - 1)" using i assms(2) d by linarith
      ultimately show ?thesis
        using no [of j "i - 2 ^ (p - 1)"] e unfolding slot_exponent_def if_P [OF True] if_not_P [OF i] by metis
    next
      case False
      let ?i = "i - 2 ^ (p - 1)" and ?j = "j - 2 ^ (p - 1)"
      have "2 ^ Suc p - (3 :: nat) ^ ?i mod 2 ^ Suc p = 2 ^ Suc p - 3 ^ ?j mod 2 ^ Suc p"
        using e i False unfolding slot_exponent_def by simp
      then have "(3 :: nat) ^ ?i mod 2 ^ Suc p = 3 ^ ?j mod 2 ^ Suc p" using lt [of ?i] lt [of ?j] by linarith
      moreover have "?i < 2 ^ (p - 1)" "?j < 2 ^ (p - 1)" using assms(2,3) d by linarith+
      ultimately have "?i = ?j" using low by blast
      then show ?thesis using i False by linarith
    qed
  qed
qed

lemma slot_place_exponent: "2 * revn p (slot_place p i) + 1 = slot_exponent p i"
proof -
  have "slot_exponent p i div 2 < 2 ^ p" using slot_exponent_odd(2) [of p i] by simp
  then have "revn p (slot_place p i) = slot_exponent p i div 2" unfolding slot_place_def by (rule revn_involution)
  then show ?thesis using odd_two_times_div_two_succ [OF slot_exponent_odd(1) [of p i]] by simp
qed

lemma bij_slot_place:
  assumes "0 < p"
  shows "bij_betw (slot_place p) {..<2 ^ p} {..<2 ^ p}"
proof -
  have inj: "inj_on (slot_place p) {..<2 ^ p}"
    by (rule inj_onI, rule slot_exponent_inj [OF assms]) (auto simp flip: slot_place_exponent)
  moreover have "slot_place p ` {..<2 ^ p} \<subseteq> {..<2 ^ p}" by (auto simp: slot_place_def revn_less)
  ultimately have "slot_place p ` {..<2 ^ p} = {..<2 ^ p}" by (intro endo_inj_surj) auto
  with inj show ?thesis by (simp add: bij_betw_def)
qed

lemma index_cast:
  assumes "unat x < 2 ^ p" "p \<le> 17"
  shows "safe_cast uint64_t uint64_t (uint (reverseBits64_count x (int p))) = Inr (int (revn p (unat x)))"
proof -
  have "rev_index p (unat x) = revn p (unat x)" by (rule rev_index_revn) (use assms in simp_all)
  then have r: "uint (reverseBits64_count x (int p)) = int (revn p (unat x))"
    unfolding rev_index_def by (simp add: uint_nat)
  have "revn p (unat x) < 2 ^ p" by (rule revn_less)
  also have "(2 :: nat) ^ p \<le> 2 ^ 17" using assms(2) by (intro power_increasing) simp_all
  finally have v: "int (revn p (unat x)) < 2 ^ 32" by simp
  then have "static_cast uint64_t (int (revn p (unat x))) = int (revn p (unat x))"
    by (simp add: static_cast_def take_bit_int_eq_self)
  with v show ?thesis unfolding r by (simp add: safe_cast_def fitsIn_def type_min_def type_max_def)
qed

lemma index_map_loop_value:
  assumes p: "0 < p" "p \<le> 17" and m: "unat (m :: u64) = 2 ^ Suc p"
  shows "i + k = 2 ^ (p - 1) \<Longrightarrow> unat pos = 3 ^ i mod 2 ^ Suc p \<Longrightarrow> length xs = 2 ^ p \<Longrightarrow>
    \<forall>j<i. xs ! j = slot_place p j \<and> xs ! (2 ^ (p - 1) + j) = slot_place p (2 ^ (p - 1) + j) \<Longrightarrow>
    index_map_loop k (2 ^ (p - 1)) m (int p) i pos xs = Inr (map (slot_place p) [0..<2 ^ p])"
proof (induction k arbitrary: i pos xs)
  case 0
  have d: "(2 :: nat) ^ p = 2 ^ (p - 1) + 2 ^ (p - 1)" using p by (cases p) simp_all
  have "xs ! j = slot_place p j" if "j < 2 ^ p" for j
  proof (cases "j < 2 ^ (p - 1)")
    case False
    then have "j = 2 ^ (p - 1) + (j - 2 ^ (p - 1))" "j - 2 ^ (p - 1) < i" using that d 0(1) by linarith+
    then show ?thesis using 0(4) by metis
  qed (use 0 in simp)
  then have "xs = map (slot_place p) [0..<2 ^ p]" using 0(3) by (intro nth_equalityI) simp_all
  then show ?case by simp
next
  case (Suc k)
  let ?h = "2 ^ (p - 1) :: nat" and ?M = "2 ^ Suc p :: nat"
  have d: "(2 :: nat) ^ p = ?h + ?h" using p by (cases p) simp_all
  have M: "?M = 2 * 2 ^ p" "?M \<le> 2 ^ 18" using p(2) power_increasing [of "Suc p" 18 "2 :: nat"] by simp_all
  have i: "i < ?h" using Suc.prems(1) by simp
  have pos: "odd (unat pos)" "unat pos < ?M" unfolding Suc.prems(2) using three_power_mod_odd by simp_all
  then have pos1: "1 \<le> unat pos" by (cases "unat pos") simp_all
  have e1: "slot_exponent p i = unat pos" using i Suc.prems(2) by (simp add: slot_exponent_def)
  have e2: "slot_exponent p (?h + i) = ?M - unat pos" using Suc.prems(2) by (simp add: slot_exponent_def)
  have sub1: "unat (pos - 1) = unat pos - 1" using pos1 by (simp add: unat_sub64)
  have sub2: "unat (m - pos - 1) = ?M - unat pos - 1"
    using pos(2) m by (simp add: unat_sub64 word_le_nat_alt)
  have half: "(x - 1) div 2 = x div 2" if "odd x" for x :: nat using that by (elim oddE) simp
  have o2: "odd (?M - unat pos)" using slot_exponent_odd(1) [of p "?h + i"] unfolding e2 .
  have i1: "unat (drop_bit 1 (pos - 1)) = slot_exponent p i div 2"
    unfolding unat_drop64 sub1 e1 using half [OF pos(1)] by simp
  have i2: "unat (drop_bit 1 (m - pos - 1)) = slot_exponent p (?h + i) div 2"
    unfolding unat_drop64 sub2 e2 using half [OF o2] by simp
  have c: "safe_cast uint64_t uint64_t (uint (reverseBits64_count (drop_bit 1 (pos - 1)) (int p))) = Inr (int (slot_place p i))"
      "safe_cast uint64_t uint64_t (uint (reverseBits64_count (drop_bit 1 (m - pos - 1)) (int p))) = Inr (int (slot_place p (?h + i)))"
  proof -
    have "slot_exponent p i div 2 < 2 ^ p" "slot_exponent p (?h + i) div 2 < 2 ^ p"
      using slot_exponent_odd(2) [of p i] slot_exponent_odd(2) [of p "?h + i"] by (simp_all only: power_Suc less_mult_imp_div_less mult.commute)
    then show "safe_cast uint64_t uint64_t (uint (reverseBits64_count (drop_bit 1 (pos - 1)) (int p))) = Inr (int (slot_place p i))"
        "safe_cast uint64_t uint64_t (uint (reverseBits64_count (drop_bit 1 (m - pos - 1)) (int p))) = Inr (int (slot_place p (?h + i)))"
      unfolding slot_place_def i1 [symmetric] i2 [symmetric] by (simp_all only: index_cast p(2))
  qed
  have or: "?h OR i = ?h + i" using add_shift_eq_or [OF i, of 1] by (simp add: or.commute push_bit_eq_mult add.commute)
  let ?xs = "xs[i := slot_place p i, ?h + i := slot_place p (?h + i)]" and ?pos = "pos * 3 AND (m - 1)"
  have m1: "unat (m - 1) = ?M - 1" using m M pos(2) by (simp add: unat_sub64)
  have "unat (pos * 3) = unat pos * 3" using pos(2) M by (simp add: unat_mul64)
  then have "unat ?pos = 3 ^ i mod ?M * 3 mod ?M" unfolding and_low_bits [OF m1] Suc.prems(2) by (rule arg_cong)
  then have pos': "unat ?pos = 3 ^ Suc i mod ?M" by (simp only: mod_mult_left_eq power_Suc2)
  have "index_map_loop k ?h m (int p) (i + 1) ?pos ?xs = Inr (map (slot_place p) [0..<2 ^ p])"
  proof (rule Suc.IH)
    show "\<forall>j<i + 1. ?xs ! j = slot_place p j \<and> ?xs ! (?h + j) = slot_place p (?h + j)"
      using Suc.prems(3,4) i d by (auto simp: nth_list_update less_Suc_eq)
  qed (use Suc.prems pos' in simp_all)
  then show ?case unfolding index_map_loop.simps Let_def c rbind_simps or by simp
qed

lemma populateMatrixRepsIndexMap_value:
  assumes p: "0 < p" "p \<le> 17" and n: "unat slots = 2 ^ p"
  shows "populateMatrixRepsIndexMap slots = Inr (map (slot_place p) [0..<2 ^ p])"
proof -
  have l: "getPowerOfTwo slots = int p" using getPowerOfTwo_spec n by simp
  have M: "(2 :: nat) ^ Suc p \<le> 2 ^ 18" using p(2) by (intro power_increasing) simp_all
  have h: "unat (drop_bit 1 slots) = 2 ^ (p - 1)" unfolding unat_drop64 n using p(1) by (cases p) simp_all
  have m: "unat (push_bit 1 slots) = 2 ^ Suc p" using M n by (simp add: unat_mul64)
  show ?thesis unfolding populateMatrixRepsIndexMap_def Let_def l h
    by (rule index_map_loop_value [OF p m]) (simp_all add: n)
qed


section \<open>Encoding and decoding\<close>

text \<open>A context whose data level batches, with the degree \<open>2 ^ p\<close>, and an encoder made for it.\<close>

definition batch_context :: "nat \<Rightarrow> SEALContext \<Rightarrow> ContextData \<Rightarrow> NTTTables \<Rightarrow> bool" where
  "batch_context p c cd T \<longleftrightarrow> firstContextData c = Some cd \<and> parametersSet (cd_qualifiers cd) \<and>
     ep_scheme (cd_parms cd) \<in> {bfv, bgv} \<and> using_batching (cd_qualifiers cd) \<and> cd_plain_ntt_tables cd = [T] \<and>
     wf_tables p (ep_plain_modulus (cd_parms cd)) T \<and> p \<le> 17 \<and> unat (ep_poly_modulus_degree (cd_parms cd)) = 2 ^ p"

definition batch_encoder :: "nat \<Rightarrow> SEALContext \<Rightarrow> BatchEncoder \<Rightarrow> bool" where
  "batch_encoder p c e \<longleftrightarrow> be_context e = c \<and> unat (be_slots e) = 2 ^ p \<and>
     be_matrix_reps_index_map e = map (slot_place p) [0..<2 ^ p]"

lemma batch_contextD:
  assumes "batch_context p c cd T"
  shows "firstContextData c = Some cd" "context_parametersSet c" "ep_scheme (cd_parms cd) = bfv \<or> ep_scheme (cd_parms cd) = bgv"
    "using_batching (cd_qualifiers cd)" "cd_plain_ntt_tables cd = [T]" "wf_tables p (ep_plain_modulus (cd_parms cd)) T"
    "0 < p" "p \<le> 17" "unat (ep_poly_modulus_degree (cd_parms cd)) = 2 ^ p"
  using assms wf_tablesD(2) by (auto simp: batch_context_def context_parametersSet_def)

lemma valid_context_batching:
  assumes "valid_context sec cd" "firstContextData c = Some cd" "parametersSet (cd_qualifiers cd)"
    "ep_scheme (cd_parms cd) \<noteq> ckks" "using_batching (cd_qualifiers cd)"
  shows "\<exists>p T. batch_context p c cd T"
  using assms by (auto simp: valid_context_def valid_plain_def batch_context_def Let_def)

lemma new_BatchEncoder_value:
  assumes c: "batch_context p c cd T"
  shows "\<exists>e. new_BatchEncoder c = Inr e \<and> batch_encoder p c e"
  using batch_contextD [OF c] populateMatrixRepsIndexMap_value [of p "ep_poly_modulus_degree (cd_parms cd)"]
  by (simp add: new_BatchEncoder_def batch_encoder_def Let_def)

text \<open>Plaintexts whose array holds their coefficients, and the words that the transform sees.\<close>

definition plain_wf :: "Plaintext \<Rightarrow> bool" where
  "plain_wf P \<longleftrightarrow> pt_coeff_count P = hd_size (pt_data P) \<and> hd_size (pt_data P) \<le> hd_capacity (pt_data P)"

definition plain_words :: "nat \<Rightarrow> Plaintext \<Rightarrow> u64 list" where
  "plain_words n P = take (min (pt_coeff_count P) n) (hd_internal (pt_data P)) @ replicate (n - min (pt_coeff_count P) n) 0"

lemma plain_isValidFor_value:
  assumes c: "batch_context p c cd T" and "plain_wf P" "\<not> plain_isNttForm P"
  shows "plain_isValidFor P c = Inr (pt_coeff_count P \<le> 2 ^ p \<and>
    (\<forall>i<pt_coeff_count P. unat (hd_internal (pt_data P) ! i) < unat (mod_value (ep_plain_modulus (cd_parms cd)))))"
proof -
  note b = batch_contextD [OF c]
  have "set (take (pt_coeff_count P) (hd_internal (pt_data P))) = (\<lambda>i. hd_internal (pt_data P) ! i) ` {..<pt_coeff_count P}"
    using assms(2) nth_image [of "pt_coeff_count P" "hd_internal (pt_data P)"]
    by (simp add: plain_wf_def hd_capacity_def lessThan_atLeast0)
  then show ?thesis
    using assms(2,3) b(1,2,9)
    by (auto simp: plain_isValidFor_def plain_isBufferValid_def plain_isDataValidFor_def plain_isMetadataValidFor_def
        plain_wf_def list_all_iff word_less_nat_alt modulus_value_def)
qed

lemma plain_words_reduced:
  assumes c: "batch_context p c cd T" and P: "plain_wf P" "\<not> plain_isNttForm P" "plain_isValidFor P c = Inr True"
  shows "length (plain_words (2 ^ p) P) = 2 ^ p" "reduced (ep_plain_modulus (cd_parms cd)) (plain_words (2 ^ p) P)"
    "i < 2 ^ p \<Longrightarrow> unat (plain_words (2 ^ p) P ! i) = plain_coeff P i"
proof -
  have q: "0 < unat (mod_value (ep_plain_modulus (cd_parms cd)))"
    using wf_modulus_bound(1) [OF wf_tablesD(1) [OF batch_contextD(6) [OF c]]] .
  have v: "pt_coeff_count P \<le> 2 ^ p"
    "\<forall>i<pt_coeff_count P. unat (hd_internal (pt_data P) ! i) < unat (mod_value (ep_plain_modulus (cd_parms cd)))"
    using P(3) unfolding plain_isValidFor_value [OF c P(1,2)] by simp_all
  have l: "pt_coeff_count P \<le> length (hd_internal (pt_data P))" using P(1) by (simp add: plain_wf_def hd_capacity_def)
  show "length (plain_words (2 ^ p) P) = 2 ^ p" using l v(1) by (simp add: plain_words_def)
  show "reduced (ep_plain_modulus (cd_parms cd)) (plain_words (2 ^ p) P)"
    using v l q by (auto simp: reduced_def plain_words_def min_absorb1 in_set_conv_nth)
  show "unat (plain_words (2 ^ p) P ! i) = plain_coeff P i" if "i < 2 ^ p"
    using that l v(1) by (auto simp: plain_words_def plain_coeff_def min_absorb1 nth_append)
qed

lemma batch_decode_value:
  assumes c: "batch_context p c cd T" and e: "batch_encoder p c e"
    and P: "\<not> plain_isNttForm P" "plain_isValidFor P c = Inr True"
  shows "batch_decode e P = Some (Inr (map (\<lambda>i. nttNegacyclicHarvey (plain_words (2 ^ p) P) T ! slot_place p i) [0..<2 ^ p]))"
  using P e batch_contextD [OF c] by (simp add: batch_decode_def batch_encoder_def plain_words_def Let_def)

lemma write_slots_value:
  assumes f: "inj_on f {..<n}" "\<forall>i<n. f i < length d" and v: "length vs \<le> n" and i: "i < n"
  shows "write_slots (map f [0..<n]) n vs d ! f i = (if i < length vs then vs ! i else 0)"
proof -
  let ?M = "map f [0..<n]"
  let ?d = "fold (\<lambda>i d. d[?M ! i := vs ! i]) [0..<length vs] d"
  have inj: "inj_on ((!) ?M) {..<n}" using f(1) by (auto simp: inj_on_def)
  have sub: "set [0..<length vs] \<subseteq> {..<n}" "set [length vs..<n] \<subseteq> {..<n}" using v by auto
  have len: "length ?d = length d" by (rule length_fold_write [of "(!) ?M" "\<lambda>i _. vs ! i"])
  show ?thesis
  proof (cases "i < length vs")
    case True
    have "?M ! i \<notin> (!) ?M ` set [length vs..<n]"
      using True i sub(2) inj_on_image_mem_iff [OF inj, of i "set [length vs..<n]"] by simp
    from fold_update_other [OF this, of "\<lambda>_ _. 0"] have "write_slots ?M n vs d ! (?M ! i) = ?d ! (?M ! i)"
      unfolding write_slots_def .
    also have "\<dots> = vs ! i"
      by (rule fold_update_at [OF inj_on_subset [OF inj sub(1)], where h = "\<lambda>i _. vs ! i"]) (use True i f(2) in auto)
    finally show ?thesis using True i by simp
  next
    case False
    have "write_slots ?M n vs d ! (?M ! i) = 0"
      unfolding write_slots_def
      by (rule fold_update_at [OF inj_on_subset [OF inj sub(2)], where h = "\<lambda>_ _. 0"]) (use False i f(2) len in auto)
    then show ?thesis using False i by simp
  qed
qed

lemma length_write_slots [simp]: "length (write_slots M n vs d) = length d"
proof -
  have "length (fold (\<lambda>i d. d[M ! i := h i]) xs d) = length d" for h :: "nat \<Rightarrow> u64" and xs d
    by (induction xs arbitrary: d) simp_all
  then show ?thesis unfolding write_slots_def by (simp only: )
qed

lemma length_resize: "hd_size a \<le> hd_capacity a \<Longrightarrow> n \<le> length (hd_internal (hd_resize n a))"
  by (simp add: hd_resize_def hd_capacity_def hd_move_def Let_def)

text \<open>The words that the values make in the places of the transform.\<close>

definition slot_words :: "nat \<Rightarrow> u64 list \<Rightarrow> u64 list" where
  "slot_words p vs = take (2 ^ p) (write_slots (map (slot_place p) [0..<2 ^ p]) (2 ^ p) vs (replicate (2 ^ p) 0))"

lemma slot_place_less: "slot_place p i < 2 ^ p"
  by (simp add: slot_place_def revn_less)

lemma slot_place_surj: "0 < p \<Longrightarrow> k < 2 ^ p \<Longrightarrow> \<exists>i<2 ^ p. k = slot_place p i"
  using bij_slot_place [of p] by (auto simp: bij_betw_def image_iff set_eq_iff)

lemma take_write_slots:
  assumes p: "0 < p" and v: "length vs \<le> 2 ^ p" and d: "2 ^ p \<le> length d"
  shows "length (take (2 ^ p) (write_slots (map (slot_place p) [0..<2 ^ p]) (2 ^ p) vs d)) = 2 ^ p"
    "i < 2 ^ p \<Longrightarrow> take (2 ^ p) (write_slots (map (slot_place p) [0..<2 ^ p]) (2 ^ p) vs d) ! slot_place p i =
      (if i < length vs then vs ! i else 0)"
proof -
  show "length (take (2 ^ p) (write_slots (map (slot_place p) [0..<2 ^ p]) (2 ^ p) vs d)) = 2 ^ p" using d by simp
  have inj: "inj_on (slot_place p) {..<2 ^ p}" using bij_slot_place [OF p] by (simp add: bij_betw_def)
  have l: "\<forall>i<2 ^ p. slot_place p i < length d" using slot_place_less [of p] d by (meson less_le_trans)
  show "take (2 ^ p) (write_slots (map (slot_place p) [0..<2 ^ p]) (2 ^ p) vs d) ! slot_place p i =
      (if i < length vs then vs ! i else 0)" if "i < 2 ^ p"
    unfolding nth_take [OF slot_place_less] by (rule write_slots_value [OF inj l v that])
qed

lemma batch_encode_value:
  assumes c: "batch_context p c cd T" and e: "batch_encoder p c e"
    and v: "length vs \<le> 2 ^ p" "\<forall>x\<in>set vs. unat x < unat (mod_value (ep_plain_modulus (cd_parms cd)))"
    and d: "\<not> plain_isNttForm dest" "hd_size (pt_data dest) \<le> hd_capacity (pt_data dest)"
  shows "\<exists>P. batch_encode e vs dest = Some (Inr P) \<and> plain_wf P \<and> \<not> plain_isNttForm P \<and> pt_coeff_count P = 2 ^ p \<and>
    plain_isValidFor P c = Inr True \<and>
    (\<forall>i<2 ^ p. nttNegacyclicHarvey (plain_words (2 ^ p) P) T ! slot_place p i = (if i < length vs then vs ! i else 0))"
proof -
  note b = batch_contextD [OF c] and w = wf_tablesD(1) [OF batch_contextD(6) [OF c]]
  let ?m = "ep_plain_modulus (cd_parms cd)" and ?M = "map (slot_place p) [0..<2 ^ p]"
  let ?d = "hd_internal (hd_resize (2 ^ p) (pt_data dest))"
  let ?W = "write_slots ?M (2 ^ p) vs ?d" and ?S = "take (2 ^ p) (write_slots ?M (2 ^ p) vs ?d)"
  note S = take_write_slots [OF b(7) v(1) length_resize [OF d(2)]]
  have red: "reduced ?m ?S"
    unfolding reduced_def
  proof
    fix x assume "x \<in> set ?S"
    then obtain k where "k < 2 ^ p" "x = ?S ! k" by (metis S(1) in_set_conv_nth)
    then obtain i where i: "i < 2 ^ p" "x = (if i < length vs then vs ! i else 0)"
      using slot_place_surj [OF b(7)] S(2) by metis
    show "unat x < unat (mod_value ?m)" using i v(2) wf_modulus_bound(1) [OF w] by simp
  qed
  note X = ntt_of_inverse [OF b(6) S(1) red]
  let ?X = "inverseNttNegacyclicHarvey ?S T"
  define P where "P = dest\<lparr>pt_data := hd_resize (2 ^ p) (pt_data dest), pt_coeff_count := 2 ^ p, pt_parms_id := parmsIDZero,
    pt_data := (hd_resize (2 ^ p) (pt_data dest))\<lparr>hd_internal := ?X @ drop (2 ^ p) ?W\<rparr>\<rparr>"
  have sel: "pt_coeff_count P = 2 ^ p" "pt_parms_id P = parmsIDZero" "hd_internal (pt_data P) = ?X @ drop (2 ^ p) ?W"
      "hd_size (pt_data P) = 2 ^ p"
    by (simp_all add: P_def hd_resize_def Let_def)
  have enc: "batch_encode e vs dest = Some (Inr P)"
    using e b d v(1) length_resize [OF d(2), of "2 ^ p"]
    by (simp add: batch_encode_def batch_encoder_def Let_def plain_resize_def on_slice_def P_def)
  have ntt: "\<not> plain_isNttForm P" by (simp add: plain_isNttForm_def sel)
  have wf: "plain_wf P" using X(2) by (simp add: plain_wf_def hd_capacity_def sel)
  have valid: "plain_isValidFor P c = Inr True"
    unfolding plain_isValidFor_value [OF c wf ntt] sel using reduced_nth [OF X(1)] X(2) by (simp add: nth_append)
  have "plain_words (2 ^ p) P = ?X" using X(2) by (simp add: plain_words_def sel)
  then have "\<forall>i<2 ^ p. nttNegacyclicHarvey (plain_words (2 ^ p) P) T ! slot_place p i = (if i < length vs then vs ! i else 0)"
    using S(2) X(3) by simp
  then show ?thesis using enc wf ntt valid sel(1) by blast
qed

text \<open>A decoded value is the value of the polynomial at the power of the root that belongs to the slot.\<close>

lemma decode_evaluation:
  assumes c: "batch_context p c cd T" and e: "batch_encoder p c e"
    and P: "plain_wf P" "\<not> plain_isNttForm P" "plain_isValidFor P c = Inr True"
  shows "\<exists>a. batch_decode e P = Some (Inr a) \<and> length a = 2 ^ p \<and>
    (\<forall>i<2 ^ p. uint (a ! i) = evaluation p (int (unat (ntt_root T))) (\<lambda>c. int (plain_coeff P c)) (slot_place p i)
      mod int (unat (mod_value (ep_plain_modulus (cd_parms cd)))))"
proof -
  let ?w = "plain_words (2 ^ p) P"
  note b = batch_contextD [OF c] and w = plain_words_reduced [OF c P]
  have w4: "\<forall>x\<in>set ?w. unat x < 4 * unat (mod_value (ep_plain_modulus (cd_parms cd)))" using w(2) by (auto simp: reduced_def)
  have "value_at p T ?w k = evaluation p (int (unat (ntt_root T))) (\<lambda>c. int (plain_coeff P c)) k" for k
    unfolding value_at_def evaluation_def by (rule sum.cong) (simp_all add: w(3))
  then have "uint (nttNegacyclicHarvey ?w T ! slot_place p i) =
      evaluation p (int (unat (ntt_root T))) (\<lambda>c. int (plain_coeff P c)) (slot_place p i)
        mod int (unat (mod_value (ep_plain_modulus (cd_parms cd))))" for i
    using nttNegacyclicHarvey_value(2) [OF b(6) w(1) w4 slot_place_less [of p i]] unfolding uint_nat by simp
  then show ?thesis using batch_decode_value [OF c e P(2,3)] by simp
qed

lemma padded_nth: "length vs \<le> n \<Longrightarrow> map (\<lambda>i. if i < length vs then vs ! i else 0) [0..<n] = vs @ replicate (n - length vs) (0 :: u64)"
  by (rule nth_equalityI) (auto simp: nth_append)

lemma batch_roundtrip_value:
  assumes c: "batch_context p c cd T" and e: "batch_encoder p c e"
    and v: "length vs \<le> 2 ^ p" "\<forall>x\<in>set vs. unat x < unat (mod_value (ep_plain_modulus (cd_parms cd)))"
    and d: "\<not> plain_isNttForm dest" "hd_size (pt_data dest) \<le> hd_capacity (pt_data dest)"
  shows "\<exists>P. batch_encode e vs dest = Some (Inr P) \<and> plain_isValidFor P c = Inr True \<and>
    batch_decode e P = Some (Inr (vs @ replicate (2 ^ p - length vs) 0))"
proof -
  obtain P where P: "batch_encode e vs dest = Some (Inr P)" "\<not> plain_isNttForm P" "plain_isValidFor P c = Inr True"
      "\<forall>i<2 ^ p. nttNegacyclicHarvey (plain_words (2 ^ p) P) T ! slot_place p i = (if i < length vs then vs ! i else 0)"
    using batch_encode_value [OF c e v d] by blast
  have "map (\<lambda>i. nttNegacyclicHarvey (plain_words (2 ^ p) P) T ! slot_place p i) [0..<2 ^ p] =
      map (\<lambda>i. if i < length vs then vs ! i else 0) [0..<2 ^ p]"
    by (rule map_cong) (use P(4) in simp_all)
  then show ?thesis using P(1,3) batch_decode_value [OF c e P(2,3)] padded_nth [OF v(1)] by simp
qed

text \<open>The representatives of signed numbers.\<close>

lemma signed_residue:
  fixes v m :: u64
  assumes t: "1 < unat m" "unat m < 2305843009213693952"
    and v: "- int ((unat m - 1) div 2) \<le> sint v" "sint v \<le> int (unat m div 2)"
  shows "unat (if sint v < 0 then m + v else v) < unat m"
    "(let x = (if sint v < 0 then m + v else v) in if x > drop_bit 1 m then x - m else x) = v"
proof -
  have h: "unat (drop_bit 1 m) = unat m div 2" by (simp add: unat_drop64)
  have "unat (if sint v < 0 then m + v else v) < unat m \<and>
    (if (if sint v < 0 then m + v else v) > drop_bit 1 m then (if sint v < 0 then m + v else v) - m else (if sint v < 0 then m + v else v)) = v"
  proof (cases "sint v < 0")
    case True
    have "m + v = word_of_int (uint m + sint v)" by simp
    then have "uint (m + v) = (uint m + sint v) mod 2 ^ 64" by (simp only: uint_word_of_int len64)
    also have "\<dots> = int (unat m) + sint v"
    proof -
      have "(unat m - 1) div 2 \<le> unat m" by simp
      then have "int ((unat m - 1) div 2) \<le> int (unat m)" by (simp only: of_nat_le_iff)
      moreover have "int (unat m) < 2305843009213693952" using t(2) by linarith
      ultimately have "0 \<le> int (unat m) + sint v" "int (unat m) + sint v < 2305843009213693952" using v(1) True by linarith+
      then show ?thesis unfolding uint_nat by (intro mod_pos_pos_trivial) simp_all
    qed
    finally have x: "uint (m + v) = int (unat m) + sint v" .
    have "int ((unat m - 1) div 2) + int (unat m div 2) < int (unat m)" using t(1) by linarith
    then have "int (unat m div 2) < uint (m + v)" using v(1) unfolding x by linarith
    then have "drop_bit 1 m < m + v" unfolding word_less_nat_alt h uint_nat by (simp only: of_nat_less_iff)
    moreover have "int (unat (m + v)) < int (unat m)" using x True unfolding uint_nat by linarith
    then have "unat (m + v) < unat m" by (simp only: of_nat_less_iff)
    ultimately show ?thesis using True by simp
  next
    case False
    then have "sint v = int (unat v)" unfolding uint_nat [symmetric]
      using sint_lt [of v] by (simp add: uint_sint take_bit_int_eq_self)
    then have "unat v \<le> unat m div 2" using v(2) by linarith
    moreover from this have "unat v < unat m" using t(1) by linarith
    ultimately show ?thesis using False h by (simp add: word_less_nat_alt not_less)
  qed
  then show "unat (if sint v < 0 then m + v else v) < unat m"
    "(let x = (if sint v < 0 then m + v else v) in if x > drop_bit 1 m then x - m else x) = v" by (simp_all only: Let_def)
qed

lemma batch_signed_roundtrip:
  assumes c: "batch_context p c cd T" and e: "batch_encoder p c e" and m: "m = mod_value (ep_plain_modulus (cd_parms cd))"
    and v: "length vs \<le> 2 ^ p" "\<forall>x\<in>set vs. - int ((unat m - 1) div 2) \<le> sint x \<and> sint x \<le> int (unat m div 2)"
    and d: "\<not> plain_isNttForm dest" "hd_size (pt_data dest) \<le> hd_capacity (pt_data dest)"
  shows "\<exists>P. batch_encode_signed e vs dest = Some (Inr P) \<and> plain_isValidFor P c = Inr True \<and>
    batch_decode_signed e P = Some (Inr (vs @ replicate (2 ^ p - length vs) 0))"
proof -
  note w = wf_modulusD(2,3) [OF wf_tablesD(1) [OF batch_contextD(6) [OF c]], folded m]
  let ?f = "\<lambda>v. if sint v < 0 then m + v else v" and ?g = "\<lambda>x. if x > drop_bit 1 m then x - m else x"
  have r: "\<forall>x\<in>set vs. unat (?f x) < unat m \<and> ?g (?f x) = x"
    using signed_residue [of m, unfolded Let_def] w v(2) by blast
  have f: "length (map ?f vs) \<le> 2 ^ p" "\<forall>x\<in>set (map ?f vs). unat x < unat (mod_value (ep_plain_modulus (cd_parms cd)))"
    using v(1) r unfolding m [symmetric] by auto
  obtain P where P: "batch_encode e (map ?f vs) dest = Some (Inr P)" "plain_isValidFor P c = Inr True"
      "batch_decode e P = Some (Inr (map ?f vs @ replicate (2 ^ p - length (map ?f vs)) 0))"
    using batch_roundtrip_value [OF c e f d] by blast
  have be: "firstContextData (be_context e) = Some cd" using e batch_contextD(1) [OF c] by (simp add: batch_encoder_def)
  have "map ?g (map ?f vs @ replicate (2 ^ p - length vs) 0) = vs @ replicate (2 ^ p - length vs) 0"
    using r by (simp add: map_idI)
  then have "batch_decode_signed e P = Some (Inr (vs @ replicate (2 ^ p - length vs) 0))"
    unfolding batch_decode_signed_def P(3) by (simp add: be modulus_value_def m [symmetric] Let_def)
  moreover have "batch_encode_signed e vs dest = Some (Inr P)"
    unfolding batch_encode_signed_def using P(1) by (simp add: be modulus_value_def m [symmetric] Let_def)
  ultimately show ?thesis using P(2) by blast
qed

section \<open>Automorphisms move the slots\<close>

lemma galois_slot_place:
  assumes g: "odd g" and e: "g * slot_exponent p i mod 2 ^ Suc p = slot_exponent p j"
  shows "galois_place p g (slot_place p i) = slot_place p j"
proof -
  have "2 * revn p (galois_place p g (slot_place p i)) + 1 = 2 * revn p (slot_place p j) + 1"
    unfolding galois_place_exponent [OF g] slot_place_exponent by (rule e)
  then have "revn p (galois_place p g (slot_place p i)) = revn p (slot_place p j)" by simp
  then show ?thesis by (metis galois_place_less revn_involution slot_place_less)
qed

text \<open>A factor and the complement of the other factor.\<close>

lemma mult_complement_mod:
  fixes g x M :: nat
  assumes "x \<le> M" "0 < g * x mod M"
  shows "g * (M - x) mod M = M - g * x mod M"
proof -
  let ?a = "g * (M - x) mod M" and ?y = "g * x mod M"
  have M: "0 < M" using assms by (cases M) auto
  have "g * (M - x) + g * x = g * M" using assms(1) by (simp flip: add_mult_distrib2)
  then have "(?a + ?y) mod M = 0" by (simp add: mod_add_eq)
  moreover have "?a < M" "?y < M" using M by simp_all
  moreover from this have "?a + ?y - M < M" by linarith
  ultimately have "?a + ?y = M"
    using assms(2) mod_less [of "?a + ?y" M] le_mod_geq [of M "?a + ?y"] mod_less [of "?a + ?y - M" M] by linarith
  then show ?thesis by linarith
qed

text \<open>Three to the power \<open>s\<close> moves the slots along both rows.\<close>

lemma three_power_row:
  assumes p: "2 \<le> p"
  shows "3 ^ s mod 2 ^ Suc p * (3 ^ i mod 2 ^ Suc p) mod 2 ^ Suc p = (3 :: nat) ^ ((i + s) mod 2 ^ (p - 1)) mod 2 ^ Suc p"
proof -
  let ?M = "2 ^ Suc p :: nat" and ?h = "2 ^ (p - 1) :: nat"
  have "(3 :: nat) ^ (i + s) = (3 ^ ?h) ^ ((i + s) div ?h) * 3 ^ ((i + s) mod ?h)" by (simp flip: power_mult power_add)
  then have "(3 :: nat) ^ (i + s) mod ?M = ((3 ^ ?h mod ?M) ^ ((i + s) div ?h) mod ?M) * 3 ^ ((i + s) mod ?h) mod ?M"
    by (simp only: power_mod mod_mult_left_eq)
  also have "\<dots> = 3 ^ ((i + s) mod ?h) mod ?M" unfolding three_power [OF p] by (simp only: power_one mod_mult_left_eq mult_1)
  finally show ?thesis by (simp only: mod_mult_eq power_add mult.commute)
qed

lemma slot_galois_row:
  fixes s :: nat
  assumes p: "2 \<le> p" and i: "i < 2 ^ (p - 1)"
  defines "g \<equiv> 3 ^ s mod 2 ^ Suc p :: nat"
  shows "g * slot_exponent p i mod 2 ^ Suc p = slot_exponent p ((i + s) mod 2 ^ (p - 1))"
    "g * slot_exponent p (2 ^ (p - 1) + i) mod 2 ^ Suc p = slot_exponent p (2 ^ (p - 1) + (i + s) mod 2 ^ (p - 1))"
proof -
  let ?M = "2 ^ Suc p :: nat" and ?x = "3 ^ i mod 2 ^ Suc p :: nat"
  note r = three_power_row [OF p, of s i, folded g_def]
  have l: "(i + s) mod 2 ^ (p - 1) < 2 ^ (p - 1)" by simp
  show "g * slot_exponent p i mod ?M = slot_exponent p ((i + s) mod 2 ^ (p - 1))"
    unfolding slot_exponent_def if_P [OF i] if_P [OF l] by (rule r)
  have "odd (g * ?x mod ?M)" unfolding r by (rule three_power_mod_odd)
  then have "0 < g * ?x mod ?M" by (cases "g * ?x mod ?M") simp_all
  moreover have "?x \<le> ?M" by (simp add: less_imp_le)
  ultimately have "g * (?M - ?x) mod ?M = ?M - g * ?x mod ?M" by (intro mult_complement_mod)
  then show "g * slot_exponent p (2 ^ (p - 1) + i) mod ?M = slot_exponent p (2 ^ (p - 1) + (i + s) mod 2 ^ (p - 1))"
    unfolding r slot_exponent_def by simp
qed

text \<open>Minus one exchanges the rows.\<close>

lemma slot_galois_swap:
  assumes i: "i < 2 ^ (p - 1)"
  shows "(2 ^ Suc p - 1) * slot_exponent p i mod 2 ^ Suc p = slot_exponent p (2 ^ (p - 1) + i)"
    "(2 ^ Suc p - 1) * slot_exponent p (2 ^ (p - 1) + i) mod 2 ^ Suc p = slot_exponent p i"
proof -
  let ?M = "2 ^ Suc p :: nat" and ?x = "3 ^ i mod 2 ^ Suc p :: nat"
  have neg: "(?M - 1) * y mod ?M = ?M - y" if "0 < y" "y < ?M" for y
    using mult_complement_mod [of 1 ?M y] that by (simp add: mult.commute)
  have "odd ?x" by (rule three_power_mod_odd)
  then have x: "0 < ?x" "?x < ?M" by (rule odd_pos, simp)
  show "(?M - 1) * slot_exponent p i mod ?M = slot_exponent p (2 ^ (p - 1) + i)"
    using neg [OF x] i by (simp add: slot_exponent_def)
  have y: "0 < ?M - ?x" "?M - ?x < ?M" using x by linarith+
  show "(?M - 1) * slot_exponent p (2 ^ (p - 1) + i) mod ?M = slot_exponent p i"
    using neg [OF y] x i by (simp add: slot_exponent_def)
qed

lemma batch_galois_slots:
  assumes c: "batch_context p c cd T" and e: "batch_encoder p c e" and w: "wf_galois p tool" and g: "odd (unat g)"
    and P: "plain_wf P" "\<not> plain_isNttForm P" "plain_isValidFor P c = Inr True" "batch_decode e P = Some (Inr a)"
    and R: "plain_wf R" "\<not> plain_isNttForm R" "plain_isValidFor R c = Inr True" "batch_decode e R = Some (Inr r)"
      "plain_words (2 ^ p) R = applyGalois tool (plain_words (2 ^ p) P) g (ep_plain_modulus (cd_parms cd)) r0" "length r0 = 2 ^ p"
    and i: "i < 2 ^ p" "j < 2 ^ p" "unat g * slot_exponent p i mod 2 ^ Suc p = slot_exponent p j"
  shows "r ! i = a ! j"
proof -
  note b = batch_contextD [OF c] and wP = plain_words_reduced [OF c P(1-3)]
  have "r ! i = nttNegacyclicHarvey (plain_words (2 ^ p) R) T ! slot_place p i"
    using R(4) i(1) unfolding batch_decode_value [OF c e R(2,3)] by auto
  also have "\<dots> = nttNegacyclicHarvey (plain_words (2 ^ p) P) T ! slot_place p j"
    unfolding R(5) ntt_galois [OF b(6) w g wP(1) R(6) wP(2) slot_place_less] galois_slot_place [OF g i(3)] ..
  also have "\<dots> = a ! j" using P(4) i(2) unfolding batch_decode_value [OF c e P(2,3)] by auto
  finally show ?thesis .
qed

lemma new_BatchEncoder_eq: "batch_context p c cd T \<Longrightarrow> new_BatchEncoder c = Inr e \<Longrightarrow> batch_encoder p c e"
  using new_BatchEncoder_value by fastforce

text \<open>A plaintext that the code may decode.\<close>

definition decodable :: "SEALContext \<Rightarrow> Plaintext \<Rightarrow> bool" where
  "decodable c P \<longleftrightarrow> plain_wf P \<and> \<not> plain_isNttForm P \<and> plain_isValidFor P c = Inr True"

text \<open>A small context: degree four and plaintext modulus 17.\<close>

definition example_batch_data :: "NTTTables \<Rightarrow> ContextData" where
  "example_batch_data T = (new_ContextData ((default_parameters bfv)\<lparr>ep_poly_modulus_degree := 4, ep_plain_modulus := modulus_17\<rparr>))
     \<lparr>cd_plain_ntt_tables := [T], cd_qualifiers := new_qualifiers\<lparr>parameter_error := success, using_batching := True\<rparr>\<rparr>"

definition example_batch_context :: "NTTTables \<Rightarrow> SEALContext" where
  "example_batch_context T = \<lparr>ctx_key_parms_id = [1, 0, 0, 0], ctx_first_parms_id = [1, 0, 0, 0], ctx_last_parms_id = [1, 0, 0, 0],
     ctx_context_data_map = [([1, 0, 0, 0], example_batch_data T)], ctx_sec_level = SecurityLevel.none, ctx_using_keyswitching = False\<rparr>"

lemma example_batch:
  obtains T e where "NTTTables_initialize (\<lambda>n. 6) 2 modulus_17 = Inr T"
    "batch_context 2 (example_batch_context T) (example_batch_data T) T" "new_BatchEncoder (example_batch_context T) = Inr e"
    "ep_plain_modulus (cd_parms (example_batch_data T)) = modulus_17"
proof -
  obtain T where T: "NTTTables_initialize (\<lambda>n. 6) 2 modulus_17 = Inr T"
    using initialize_ok [OF wf_modulus_17 _ _ root_17] by auto
  have w: "wf_tables 2 modulus_17 T" by (rule initialize_wf [OF wf_modulus_17 _ _ T]) simp_all
  have c: "batch_context 2 (example_batch_context T) (example_batch_data T) T"
    using w by (simp add: batch_context_def firstContextData_def example_batch_context_def example_batch_data_def new_ContextData_def
        parametersSet_def)
  obtain e where "new_BatchEncoder (example_batch_context T) = Inr e" using new_BatchEncoder_value [OF c] by blast
  then show ?thesis using that T c by (simp add: example_batch_data_def new_ContextData_def)
qed

definition example_words :: "u64 list \<Rightarrow> Plaintext" where
  "example_words ws = new_Plaintext\<lparr>pt_coeff_count := length ws, pt_data := \<lparr>hd_internal = ws, hd_size = length ws\<rparr>\<rparr>"

lemma example_words_sel:
  "pt_coeff_count (example_words ws) = length ws" "hd_internal (pt_data (example_words ws)) = ws"
  "plain_coeff (example_words ws) i = (if i < length ws then unat (ws ! i) else 0)"
  "plain_wf (example_words ws)" "\<not> plain_isNttForm (example_words ws)"
  by (simp_all add: example_words_def plain_coeff_def plain_wf_def hd_capacity_def plain_isNttForm_def new_Plaintext_def)

lemma example_words_decodable:
  assumes c: "batch_context 2 (example_batch_context T) (example_batch_data T) T"
    "ep_plain_modulus (cd_parms (example_batch_data T)) = modulus_17" and w: "length ws \<le> 4" "\<forall>x\<in>set ws. unat x < 17"
  shows "decodable (example_batch_context T) (example_words ws)"
  unfolding decodable_def plain_isValidFor_value [OF c(1) example_words_sel(4,5)] example_words_sel c(2)
  using w by (simp add: example_words_sel modulus_17_def)

section \<open>Properties\<close>

text \<open>
  C6. Encoding a vector of at most as many numbers as there are slots gives a plaintext that is valid for the context and
  that decodes to the vector, padded with zeros; the same holds of signed numbers up to half the plaintext modulus. A
  vector that is too long is refused.
\<close>

theorem batching_roundtrip:
  assumes c: "batch_context p c cd T" and e: "new_BatchEncoder c = Inr e" and m: "m = mod_value (ep_plain_modulus (cd_parms cd))"
    and d: "\<not> plain_isNttForm dest" "hd_size (pt_data dest) \<le> hd_capacity (pt_data dest)"
  shows "(length vs \<le> 2 ^ p \<and> (\<forall>x\<in>set vs. x < m) \<longrightarrow>
      (\<exists>P. batch_encode e vs dest = Some (Inr P) \<and> plain_isValidFor P c = Inr True \<and>
        batch_decode e P = Some (Inr (vs @ replicate (2 ^ p - length vs) 0)))) \<and>
    (length vs \<le> 2 ^ p \<and> (\<forall>x\<in>set vs. - int ((unat m - 1) div 2) \<le> sint x \<and> sint x \<le> int (unat m div 2)) \<longrightarrow>
      (\<exists>P. batch_encode_signed e vs dest = Some (Inr P) \<and> plain_isValidFor P c = Inr True \<and>
        batch_decode_signed e P = Some (Inr (vs @ replicate (2 ^ p - length vs) 0)))) \<and>
    (2 ^ p < length vs \<longrightarrow> batch_encode e vs dest = Some (Inl (Invalid_argument ''values_matrix size is too large'')))"
proof (intro conjI impI)
  note b = new_BatchEncoder_eq [OF c e]
  {
    assume "length vs \<le> 2 ^ p \<and> (\<forall>x\<in>set vs. x < m)"
    then show "\<exists>P. batch_encode e vs dest = Some (Inr P) \<and> plain_isValidFor P c = Inr True \<and>
        batch_decode e P = Some (Inr (vs @ replicate (2 ^ p - length vs) 0))"
      unfolding m word_less_nat_alt by (elim conjE) (rule batch_roundtrip_value [OF c b _ _ d])
  next
    assume "length vs \<le> 2 ^ p \<and> (\<forall>x\<in>set vs. - int ((unat m - 1) div 2) \<le> sint x \<and> sint x \<le> int (unat m div 2))"
    then show "\<exists>P. batch_encode_signed e vs dest = Some (Inr P) \<and> plain_isValidFor P c = Inr True \<and>
        batch_decode_signed e P = Some (Inr (vs @ replicate (2 ^ p - length vs) 0))"
      by (elim conjE) (rule batch_signed_roundtrip [OF c b m _ _ d])
  next
    assume "2 ^ p < length vs"
    then show "batch_encode e vs dest = Some (Inl (Invalid_argument ''values_matrix size is too large''))"
      using b batch_contextD(1) [OF c] by (simp add: batch_encode_def batch_encoder_def)
  }
qed

theorem batching_roundtrip_witness:
  "\<exists>T e P. NTTTables_initialize (\<lambda>n. 6) 2 modulus_17 = Inr T \<and> new_BatchEncoder (example_batch_context T) = Inr e \<and>
    batch_encode_signed e [5, - 8] new_Plaintext = Some (Inr P) \<and> batch_decode_signed e P = Some (Inr [5, - 8, 0, 0])"
proof (rule example_batch)
  fix T e
  assume c: "NTTTables_initialize (\<lambda>n. 6) 2 modulus_17 = Inr T" "batch_context 2 (example_batch_context T) (example_batch_data T) T"
    "new_BatchEncoder (example_batch_context T) = Inr e" "ep_plain_modulus (cd_parms (example_batch_data T)) = modulus_17"
  have d: "\<not> plain_isNttForm new_Plaintext" "hd_size (pt_data new_Plaintext) \<le> hd_capacity (pt_data new_Plaintext)"
    by (simp_all add: plain_isNttForm_def new_Plaintext_def hd_capacity_def)
  have m: "17 = mod_value (ep_plain_modulus (cd_parms (example_batch_data T)))" unfolding c(4) by (simp add: modulus_17_def)
  have v: "[5, - 8] @ replicate (2 ^ 2 - length [5, - 8 :: u64]) 0 = [5, - 8, 0, 0 :: u64]" by (simp add: numeral_2_eq_2)
  have "\<exists>P. batch_encode_signed e [5, - 8] new_Plaintext = Some (Inr P) \<and> plain_isValidFor P (example_batch_context T) = Inr True \<and>
      batch_decode_signed e P = Some (Inr ([5, - 8] @ replicate (2 ^ 2 - length [5, - 8 :: u64]) 0))"
    by (rule batching_roundtrip [OF c(2,3) m d, THEN conjunct2, THEN conjunct1, rule_format]) simp
  then show ?thesis using c(1,3) unfolding v by blast
qed

text \<open>
  C7. Slots compute in parallel: a plaintext whose polynomial is the sum of two others, modulo \<open>t\<close>, decodes to the sums of
  their values, one slot at a time, and a plaintext whose polynomial is their product modulo \<open>X\<close> to the power \<open>n\<close> plus one
  decodes to the products.
\<close>

theorem batching_parallel:
  assumes c: "batch_context p c cd T" and e: "new_BatchEncoder c = Inr e" and t: "t = int (unat (mod_value (ep_plain_modulus (cd_parms cd))))"
    and P: "decodable c P" and Q: "decodable c Q" and R: "decodable c R" and S: "decodable c S"
    and sum: "\<forall>k<2 ^ p. int (plain_coeff R k) = (int (plain_coeff P k) + int (plain_coeff Q k)) mod t"
    and prod: "\<forall>k<2 ^ p. int (plain_coeff S k) = negacyclic (2 ^ p) (\<lambda>i. int (plain_coeff P i)) (\<lambda>i. int (plain_coeff Q i)) k mod t"
  shows "\<exists>a b r s. batch_decode e P = Some (Inr a) \<and> batch_decode e Q = Some (Inr b) \<and>
    batch_decode e R = Some (Inr r) \<and> batch_decode e S = Some (Inr s) \<and> length r = 2 ^ p \<and> length s = 2 ^ p \<and>
    (\<forall>i<2 ^ p. uint (r ! i) = (uint (a ! i) + uint (b ! i)) mod t \<and> uint (s ! i) = uint (a ! i) * uint (b ! i) mod t)"
proof -
  note b = new_BatchEncoder_eq [OF c e] and T = wf_tablesD(8) [OF batch_contextD(6) [OF c], folded t]
  let ?\<psi> = "int (unat (ntt_root T))"
  let ?v = "\<lambda>X i. evaluation p ?\<psi> (\<lambda>c. int (plain_coeff X c)) (slot_place p i)"
  have dec: "\<exists>a. batch_decode e X = Some (Inr a) \<and> length a = 2 ^ p \<and> (\<forall>i<2 ^ p. uint (a ! i) = ?v X i mod t)"
    if "decodable c X" for X
    using decode_evaluation [OF c b, of X, folded t] that by (simp add: decodable_def)
  obtain a b' r s where d: "batch_decode e P = Some (Inr a)" "\<forall>i<2 ^ p. uint (a ! i) = ?v P i mod t"
      "batch_decode e Q = Some (Inr b')" "\<forall>i<2 ^ p. uint (b' ! i) = ?v Q i mod t"
      "batch_decode e R = Some (Inr r)" "length r = 2 ^ p" "\<forall>i<2 ^ p. uint (r ! i) = ?v R i mod t"
      "batch_decode e S = Some (Inr s)" "length s = 2 ^ p" "\<forall>i<2 ^ p. uint (s ! i) = ?v S i mod t"
    using dec [OF P] dec [OF Q] dec [OF R] dec [OF S] by blast
  have cong: "eqm t (evaluation p ?\<psi> f k) (evaluation p ?\<psi> g k)" if "\<forall>k<2 ^ p. f k = g k mod t" for f g k
    unfolding evaluation_def using that by (intro eqm_sum eqm_mult eqm_refl) (simp add: eqm_def)
  have "?v R i mod t = (?v P i + ?v Q i) mod t" for i
  proof -
    have "eqm t (?v R i) (evaluation p ?\<psi> (\<lambda>k. int (plain_coeff P k) + int (plain_coeff Q k)) (slot_place p i))"
      by (rule cong [OF sum])
    also have "evaluation p ?\<psi> (\<lambda>k. int (plain_coeff P k) + int (plain_coeff Q k)) (slot_place p i) = ?v P i + ?v Q i"
      unfolding evaluation_def by (simp only: distrib_right sum.distrib)
    finally show ?thesis by (simp only: eqm_def)
  qed
  moreover have "?v S i mod t = ?v P i * ?v Q i mod t" for i
    using eqm_trans [OF cong [OF prod] evaluation_negacyclic [OF T]] by (simp only: eqm_def)
  ultimately have "uint (r ! i) = (uint (a ! i) + uint (b' ! i)) mod t \<and> uint (s ! i) = uint (a ! i) * uint (b' ! i) mod t"
    if "i < 2 ^ p" for i
    using d(2,4,7,10) [rule_format, OF that] mod_add_eq [of "?v P i" t "?v Q i"] mod_mult_eq [of "?v P i" t "?v Q i"] by metis
  then show ?thesis using d by blast
qed

theorem batching_parallel_witness:
  "\<exists>T e a b r s. NTTTables_initialize (\<lambda>n. 6) 2 modulus_17 = Inr T \<and> new_BatchEncoder (example_batch_context T) = Inr e \<and>
    batch_decode e (example_words [12]) = Some (Inr a) \<and> batch_decode e (example_words [0, 3]) = Some (Inr b) \<and>
    batch_decode e (example_words [12, 3]) = Some (Inr r) \<and> batch_decode e (example_words [0, 2]) = Some (Inr s) \<and>
    (\<forall>i<2 ^ 2. uint (r ! i) = (uint (a ! i) + uint (b ! i)) mod 17 \<and> uint (s ! i) = uint (a ! i) * uint (b ! i) mod 17)"
proof (rule example_batch)
  fix T e
  assume c: "NTTTables_initialize (\<lambda>n. 6) 2 modulus_17 = Inr T" "batch_context 2 (example_batch_context T) (example_batch_data T) T"
    "new_BatchEncoder (example_batch_context T) = Inr e" "ep_plain_modulus (cd_parms (example_batch_data T)) = modulus_17"
  note d = example_words_decodable [OF c(2,4)]
  have four: "{..<4} = {0, 1, 2, 3 :: nat}" "(2 :: nat) ^ 2 = 4" by auto
  have t: "17 = int (unat (mod_value (ep_plain_modulus (cd_parms (example_batch_data T)))))" unfolding c(4) by (simp add: modulus_17_def)
  have sum: "\<forall>k<2 ^ 2. int (plain_coeff (example_words [12, 3]) k) =
      (int (plain_coeff (example_words [12]) k) + int (plain_coeff (example_words [0, 3]) k)) mod 17"
    by (auto simp: example_words_sel nth_Cons split: nat.splits)
  have prod: "\<forall>k<2 ^ 2. int (plain_coeff (example_words [0, 2]) k) =
      negacyclic (2 ^ 2) (\<lambda>i. int (plain_coeff (example_words [12]) i)) (\<lambda>i. int (plain_coeff (example_words [0, 3]) i)) k mod 17"
    unfolding negacyclic_def four by (auto simp: example_words_sel nth_Cons split: nat.splits)
  show ?thesis
    using batching_parallel [OF c(2,3) t d d d d sum prod] c(1,3) by auto
qed

text \<open>
  C8. Rotations: the automorphism with the element of a step moves the values of both rows by that many places, cyclically
  and to the left for a positive step; the step zero exchanges the rows.
\<close>

theorem batching_rotates:
  assumes c: "batch_context p c cd T" and e: "new_BatchEncoder c = Inr e" and tool: "GaloisTool_initialize (int p) = Inr tool"
    and s: "- (2 ^ 31) < s" "s < 2 ^ 31" "getEltFromStep tool s = Inr g"
    and P: "decodable c P" and R: "decodable c R"
      "plain_words (2 ^ p) R = applyGalois tool (plain_words (2 ^ p) P) g (ep_plain_modulus (cd_parms cd)) r0" "length r0 = 2 ^ p"
  defines "h \<equiv> 2 ^ (p - 1)"
  shows "\<exists>a r. batch_decode e P = Some (Inr a) \<and> batch_decode e R = Some (Inr r) \<and>
    (\<forall>i<h. if s = 0 then r ! i = a ! (h + i) \<and> r ! (h + i) = a ! i
      else r ! i = a ! nat ((int i + s) mod int h) \<and> r ! (h + i) = a ! (h + nat ((int i + s) mod int h)))"
proof -
  note b = new_BatchEncoder_eq [OF c e] and bc = batch_contextD [OF c]
  have w: "wf_galois p tool" using initialize_wf_galois [OF tool] by simp
  have P': "plain_wf P" "\<not> plain_isNttForm P" "plain_isValidFor P c = Inr True" using P by (simp_all add: decodable_def)
  have R': "plain_wf R" "\<not> plain_isNttForm R" "plain_isValidFor R c = Inr True" using R(1) by (simp_all add: decodable_def)
  obtain a r where d: "batch_decode e P = Some (Inr a)" "batch_decode e R = Some (Inr r)"
    using batch_decode_value [OF c b] P' R' by blast
  have h: "(2 :: nat) ^ p = h + h" "0 < h" "int h = 2 ^ (p - 1)" using bc(7) unfolding h_def by (cases p; simp)+
  note v = getEltFromStep_value [OF w s(1,2), unfolded s(3), folded h(3)]
  have v': "\<not> (s \<noteq> 0 \<and> int h \<le> \<bar>s\<bar>)" "unat g = (if s = 0 then 2 ^ Suc p - 1 else 3 ^ nat (if s < 0 then int h + s else s) mod 2 ^ Suc p)"
    using v by (auto split: if_splits)
  have g: "odd (unat g)" unfolding v'(2) using three_power_mod_odd by simp
  note slots = batch_galois_slots [OF c b w g P' d(1) R' d(2) R(2,3)]
  have "if s = 0 then r ! i = a ! (h + i) \<and> r ! (h + i) = a ! i
      else r ! i = a ! nat ((int i + s) mod int h) \<and> r ! (h + i) = a ! (h + nat ((int i + s) mod int h))" if i: "i < h" for i
  proof (cases "s = 0")
    case True
    then have "unat g = 2 ^ Suc p - 1" using v'(2) by simp
    then show ?thesis
      using True slots [of i "h + i"] slots [of "h + i" i] slot_galois_swap [OF i [unfolded h_def]] i h(1) by (simp add: h_def)
  next
    case False
    let ?t = "nat (if s < 0 then int h + s else s)"
    have p2: "2 \<le> p"
    proof (rule ccontr)
      assume "\<not> 2 \<le> p"
      then have "h = 1" using bc(7) by (cases p) (auto simp: h_def)
      then show False using v'(1) False by simp
    qed
    have "int ?t mod int h = s mod int h" using v'(1) False by simp
    then have m: "int ((i + ?t) mod h) = (int i + s) mod int h" 
      unfolding zmod_int of_nat_add by (rule mod_add_cong [OF refl])
    from arg_cong [OF this, of nat] have m: "(i + ?t) mod h = nat ((int i + s) mod int h)" unfolding nat_int .
    have "unat g = 3 ^ ?t mod 2 ^ Suc p" using v'(2) False by simp
    note row = slot_galois_row [OF p2 i [unfolded h_def], of ?t, folded this, folded h_def, unfolded m]
    have l: "nat ((int i + s) mod int h) < h" unfolding m [symmetric] using h(2) by simp
    show ?thesis using False slots [OF _ _ row(1)] slots [OF _ _ row(2)] i l h(1) by simp
  qed
  then show ?thesis using d by blast
qed

theorem batching_rotates_witness:
  "\<exists>T e tool g a r. NTTTables_initialize (\<lambda>n. 6) 2 modulus_17 = Inr T \<and> new_BatchEncoder (example_batch_context T) = Inr e \<and>
    GaloisTool_initialize 2 = Inr tool \<and> getEltFromStep tool 1 = Inr g \<and>
    batch_decode e (example_words [1, 2, 3, 4]) = Some (Inr a) \<and>
    batch_decode e (example_words (applyGalois tool [1, 2, 3, 4] g modulus_17 [0, 0, 0, 0])) = Some (Inr r) \<and>
    r ! 0 = a ! 1 \<and> r ! 1 = a ! 0 \<and> r ! 2 = a ! 3 \<and> r ! 3 = a ! 2"
proof (rule example_batch)
  fix T e
  assume c: "NTTTables_initialize (\<lambda>n. 6) 2 modulus_17 = Inr T" "batch_context 2 (example_batch_context T) (example_batch_data T) T"
    "new_BatchEncoder (example_batch_context T) = Inr e" "ep_plain_modulus (cd_parms (example_batch_data T)) = modulus_17"
  obtain tool where tool: "GaloisTool_initialize (int 2) = Inr tool" unfolding GaloisTool_initialize_wf by simp
  have w: "wf_galois 2 tool" using initialize_wf_galois [OF tool] by simp
  obtain g where g: "getEltFromStep tool 1 = Inr g" "unat g = 3" using getEltFromStep_value [OF w, of 1] by auto
  let ?a = "[1, 2, 3, 4 :: u64]" and ?z = "[0, 0, 0, 0 :: u64]"
  have a: "length ?a = 2 ^ 2" "length ?z = 2 ^ 2" "reduced modulus_17 ?a" "0 < unat (mod_value modulus_17)"
    by (simp_all add: reduced_def modulus_17_def)
  have og: "odd (unat g)" using g(2) by simp
  let ?R = "applyGalois tool ?a g modulus_17 ?z"
  have l: "length ?R = 4" using applyGalois_value(1) [OF w og a(2)] by simp
  have "reduced modulus_17 ?R" by (rule applyGalois_reduced [OF w og a])
  then have r: "\<forall>x\<in>set ?R. unat x < 17" by (simp add: reduced_def modulus_17_def)
  have d: "decodable (example_batch_context T) (example_words ?a)" "decodable (example_batch_context T) (example_words ?R)"
    using l r by (auto intro!: example_words_decodable [OF c(2,4)])
  have words: "plain_words (2 ^ 2) (example_words ?R) =
      applyGalois tool (plain_words (2 ^ 2) (example_words ?a)) g (ep_plain_modulus (cd_parms (example_batch_data T))) ?z"
    using l by (simp add: plain_words_def example_words_sel c(4))
  have two: "(2 :: nat) ^ (2 - 1) = 2" by simp
  have s: "- (2 ^ 31) < (1 :: int)" "(1 :: int) < 2 ^ 31" by simp_all
  obtain x y where xy: "batch_decode e (example_words ?a) = Some (Inr x)" "batch_decode e (example_words ?R) = Some (Inr y)"
      "\<forall>i<2. if (1 :: int) = 0 then y ! i = x ! (2 + i) \<and> y ! (2 + i) = x ! i
        else y ! i = x ! nat ((int i + 1) mod int 2) \<and> y ! (2 + i) = x ! (2 + nat ((int i + 1) mod int 2))"
    using batching_rotates [OF c(2,3) tool s g(1) d(1) d(2) words a(2), unfolded two] by blast
  have "y ! 0 = x ! 1 \<and> y ! 2 = x ! 3" using xy(3) [rule_format, of 0] by simp
  moreover have "y ! 1 = x ! 0 \<and> y ! 3 = x ! 2" using xy(3) [rule_format, of 1] by simp
  ultimately show ?thesis using c(1,3) tool g(1) xy(1,2) by auto
qed

end
