(* ===== verification/Rns_Forms.thy ===== *)
theory Rns_Forms
  imports Rns_Round
begin

text \<open>
  Integer polynomials and the two forms in which the code keeps their residues, coefficients or values of the
  number-theoretic transform, with the effect of the operations of \<open>utils/polyarithsmallmod.h\<close> and \<open>utils/ntt.h\<close> in
  \<open>heu/library/algorithms/seal_gpu/\<close> on both.
\<close>

section \<open>The two forms of a polynomial\<close>

definition form :: "bool \<Rightarrow> nat \<Rightarrow> int \<Rightarrow> (nat \<Rightarrow> int) \<Rightarrow> nat \<Rightarrow> int" where
  "form ntt p \<psi> X k = (if ntt then evaluation p \<psi> X k else X k)"

lemma form_simps [simp]: "form True p \<psi> X = evaluation p \<psi> X" "form False p \<psi> X = X"
  by (simp_all add: form_def fun_eq_iff)

lemma evaluation_add: "evaluation p \<psi> (\<lambda>j. X j + Y j) k = evaluation p \<psi> X k + evaluation p \<psi> Y k"
  by (simp add: evaluation_def distrib_right sum.distrib)

lemma evaluation_diff: "evaluation p \<psi> (\<lambda>j. X j - Y j) k = evaluation p \<psi> X k - evaluation p \<psi> Y k"
  by (simp add: evaluation_def left_diff_distrib sum_subtractf)

lemma evaluation_minus: "evaluation p \<psi> (\<lambda>j. - X j) k = - evaluation p \<psi> X k"
  by (simp add: evaluation_def sum_negf)

lemma evaluation_scale: "evaluation p \<psi> (\<lambda>j. c * X j) k = c * evaluation p \<psi> X k"
  by (simp add: evaluation_def sum_distrib_left mult.assoc)

lemma evaluation_zero: "evaluation p \<psi> (\<lambda>j. 0) k = 0"
  by (simp add: evaluation_def)

lemma form_linear:
  "form ntt p \<psi> (\<lambda>j. X j + Y j) k = form ntt p \<psi> X k + form ntt p \<psi> Y k"
  "form ntt p \<psi> (\<lambda>j. X j - Y j) k = form ntt p \<psi> X k - form ntt p \<psi> Y k"
  "form ntt p \<psi> (\<lambda>j. - X j) k = - form ntt p \<psi> X k"
  "form ntt p \<psi> (\<lambda>j. c * X j) k = c * form ntt p \<psi> X k"
  "form ntt p \<psi> (\<lambda>j. 0) k = 0"
  by (simp_all add: form_def evaluation_add evaluation_diff evaluation_minus evaluation_scale evaluation_zero)

lemma eqm_evaluation:
  "(\<And>j. j < 2 ^ p \<Longrightarrow> eqm q (X j) (Y j)) \<Longrightarrow> eqm q (evaluation p \<psi> X k) (evaluation p \<psi> Y k)"
  unfolding evaluation_def by (intro eqm_sum eqm_mult eqm_refl) simp

lemma eqm_form:
  "k < 2 ^ p \<Longrightarrow> (\<And>j. j < 2 ^ p \<Longrightarrow> eqm q (X j) (Y j)) \<Longrightarrow> eqm q (form ntt p \<psi> X k) (form ntt p \<psi> Y k)"
  by (simp add: form_def eqm_evaluation)

section \<open>One modulus\<close>

text \<open>The words at the start of a list are the residues of a polynomial; and, not yet reduced, congruent to its values.\<close>

definition vals :: "bool \<Rightarrow> nat \<Rightarrow> Modulus \<Rightarrow> int \<Rightarrow> (nat \<Rightarrow> int) \<Rightarrow> u64 list \<Rightarrow> bool" where
  "vals ntt p m \<psi> X a \<longleftrightarrow> 2 ^ p \<le> length a \<and> (\<forall>k<2 ^ p. uint (a ! k) = form ntt p \<psi> X k mod uint (mod_value m))"

definition congs :: "nat \<Rightarrow> Modulus \<Rightarrow> int \<Rightarrow> (nat \<Rightarrow> int) \<Rightarrow> u64 list \<Rightarrow> bool" where
  "congs p m \<psi> X a \<longleftrightarrow> 2 ^ p \<le> length a \<and> (\<forall>k<2 ^ p. eqm (uint (mod_value m)) (uint (a ! k)) (evaluation p \<psi> X k))"

lemma vals_congs: "vals True p m \<psi> X a \<Longrightarrow> congs p m \<psi> X a"
  by (simp add: vals_def congs_def eqm_def)

lemma vals_take: "2 ^ p \<le> l \<Longrightarrow> vals ntt p m \<psi> X (take l a) \<longleftrightarrow> vals ntt p m \<psi> X a"
  by (auto simp: vals_def)

lemma congs_take: "2 ^ p \<le> l \<Longrightarrow> congs p m \<psi> X (take l a) \<longleftrightarrow> congs p m \<psi> X a"
  by (auto simp: congs_def)

lemma vals_eqm:
  assumes "vals ntt p m \<psi> X a" "\<And>j. j < 2 ^ p \<Longrightarrow> eqm (uint (mod_value m)) (X j) (Y j)"
  shows "vals ntt p m \<psi> Y a"
  using assms eqm_form [of _ p "uint (mod_value m)" X Y ntt \<psi>] unfolding vals_def eqm_def by metis

lemma wf_modulus_pos: "wf_modulus m \<Longrightarrow> 0 < uint (mod_value m)"
  using wf_modulus_bound(1) [of m] by (simp only: uint_nat of_nat_0_less_iff)

lemma vals_less:
  assumes "wf_modulus m" "vals ntt p m \<psi> X a" "k < 2 ^ p"
  shows "unat (a ! k) < unat (mod_value m)"
proof -
  have "uint (a ! k) < uint (mod_value m)" using assms wf_modulus_pos [OF assms(1)] unfolding vals_def by simp
  then show ?thesis by (simp add: word_less_def [symmetric] word_less_nat_alt)
qed

text \<open>The coefficient loops.\<close>

lemma loop_vals:
  assumes r: "length r = 2 ^ p" and f: "\<And>k. k < 2 ^ p \<Longrightarrow> uint (f k) = form ntt p \<psi> X k mod uint (mod_value m)"
  shows "vals ntt p m \<psi> X (coeff_loop f (2 ^ p) 0 r)"
  using f unfolding coeff_loop_map [OF r] vals_def by simp

lemma vals_add:
  assumes m: "wf_modulus m" and a: "vals ntt p m \<psi> X a" and b: "vals ntt p m \<psi> Y b" and r: "length r = 2 ^ p"
  shows "vals ntt p m \<psi> (\<lambda>j. X j + Y j) (addPolyCoeffmod a b (2 ^ p) m r)"
  unfolding addPolyCoeffmod_def
proof (rule loop_vals [OF r])
  fix k :: nat
  assume k: "k < 2 ^ p"
  let ?q = "unat (mod_value m)"
  have s: "unat (a ! k) + unat (b ! k) < 2 * ?q" using vals_less [OF m a k] vals_less [OF m b k] by simp
  have "unat (addUintMod (a ! k) (b ! k) m) = (unat (a ! k) + unat (b ! k)) mod ?q"
    by (rule addUintMod_value [OF s wf_modulus_bound(2) [OF m]])
  then have "uint (addUintMod (a ! k) (b ! k) m) = (uint (a ! k) + uint (b ! k)) mod uint (mod_value m)"
    by (simp only: uint_nat zmod_int of_nat_add)
  also have "\<dots> = form ntt p \<psi> (\<lambda>j. X j + Y j) k mod uint (mod_value m)"
    using a b k unfolding vals_def form_linear by (simp add: mod_add_eq)
  finally show "uint (let s = a ! k + b ! k in if s \<ge> modulus_value m then s - modulus_value m else s)
      = form ntt p \<psi> (\<lambda>j. X j + Y j) k mod uint (mod_value m)"
    by (simp add: addUintMod_def Let_def)
qed

lemma vals_sub:
  assumes m: "wf_modulus m" and a: "vals ntt p m \<psi> X a" and b: "vals ntt p m \<psi> Y b" and r: "length r = 2 ^ p"
  shows "vals ntt p m \<psi> (\<lambda>j. X j - Y j) (subPolyCoeffmod a b (2 ^ p) m r)"
  unfolding subPolyCoeffmod_def subPoly_coeff_eq
proof (rule loop_vals [OF r])
  fix k :: nat
  assume k: "k < 2 ^ p"
  let ?q = "unat (mod_value m)"
  note l = vals_less [OF m a k] vals_less [OF m b k]
  have "unat (subUintMod (a ! k) (b ! k) m) = (unat (a ! k) + ?q - unat (b ! k)) mod ?q"
    by (rule subUintMod_value) (use l in simp_all)
  then have "uint (subUintMod (a ! k) (b ! k) m) = int ((unat (a ! k) + ?q - unat (b ! k)) mod ?q)"
    by (simp only: uint_nat)
  also have "\<dots> = (int (unat (a ! k)) - int (unat (b ! k)) + int ?q) mod int ?q"
    using l by (simp only: zmod_int of_nat_diff of_nat_add) (simp add: of_nat_diff algebra_simps)
  also have "\<dots> = (uint (a ! k) - uint (b ! k)) mod uint (mod_value m)" by (simp only: mod_add_self2 uint_nat)
  also have "\<dots> = form ntt p \<psi> (\<lambda>j. X j - Y j) k mod uint (mod_value m)"
    using a b k unfolding vals_def form_linear by (simp add: mod_diff_eq)
  finally show "uint (subUintMod (a ! k) (b ! k) m) = form ntt p \<psi> (\<lambda>j. X j - Y j) k mod uint (mod_value m)" .
qed

lemma vals_negate:
  assumes m: "wf_modulus m" and a: "vals ntt p m \<psi> X a" and r: "length r = 2 ^ p"
  shows "vals ntt p m \<psi> (\<lambda>j. - X j) (negatePolyCoeffmod a (2 ^ p) m r)"
  unfolding negatePolyCoeffmod_def
proof (rule loop_vals [OF r])
  fix k :: nat
  assume k: "k < 2 ^ p"
  note l = vals_less [OF m a k]
  have "uint (let coeff = a ! k; non_zero = of_bool (coeff \<noteq> 0) in (modulus_value m - coeff) AND - non_zero)
      = (uint (mod_value m) - uint (a ! k)) mod uint (mod_value m)"
    unfolding uint_nat negatePoly_coeff_value [OF l] using l by (simp only: zmod_int of_nat_diff less_imp_le)
  also have "\<dots> = (- uint (a ! k)) mod uint (mod_value m)" by (simp add: mod_diff_left_eq [symmetric, of "uint (mod_value m)"])
  also have "\<dots> = form ntt p \<psi> (\<lambda>j. - X j) k mod uint (mod_value m)"
    using a k unfolding vals_def form_linear by (simp add: mod_minus_eq)
  finally show "uint (let coeff = a ! k; non_zero = of_bool (coeff \<noteq> 0) in (modulus_value m - coeff) AND - non_zero)
      = form ntt p \<psi> (\<lambda>j. - X j) k mod uint (mod_value m)" .
qed

lemma vals_scalar:
  assumes m: "wf_modulus m" and a: "vals ntt p m \<psi> X a" and r: "length r = 2 ^ p"
  shows "vals ntt p m \<psi> (\<lambda>j. uint s * X j) (multiplyPolyScalarCoeffmod a (2 ^ p) s m r)"
  unfolding multiplyPolyScalarCoeffmod_def multiplyPolyScalarCoeffmod_operand_def Let_def
proof (rule loop_vals [OF r])
  fix k :: nat
  assume k: "k < 2 ^ p"
  note h = wf_modulusD(1) [OF m] and q = wf_modulus_bound [OF m]
  let ?o = "set_operand (barrettReduce64 s m) m \<lparr>mop_operand = 0, mop_quotient = 0\<rparr>"
  have op: "operand_for m ?o \<and> mop_operand ?o = barrettReduce64 s m"
    by (rule set_operand_for) (use barrettReduce64_value [OF h, of s] q(1) in \<open>simp add: word_less_nat_alt\<close>)
  have "unat (multiplyUintMod_operand (a ! k) ?o m) = unat (a ! k) * (unat s mod unat (mod_value m)) mod unat (mod_value m)"
    using multiplyUintMod_operand_value [OF conjunct1 [OF op] q(2)] op barrettReduce64_value [OF h, of s] by simp
  then have "uint (multiplyUintMod_operand (a ! k) ?o m) = uint s * uint (a ! k) mod uint (mod_value m)"
    by (simp only: uint_nat zmod_int of_nat_mult mod_mult_right_eq mult.commute)
  also have "\<dots> = form ntt p \<psi> (\<lambda>j. uint s * X j) k mod uint (mod_value m)"
    using a k unfolding vals_def form_linear by (simp add: mod_mult_right_eq)
  finally show "uint (multiplyUintMod_operand (a ! k) ?o m) = form ntt p \<psi> (\<lambda>j. uint s * X j) k mod uint (mod_value m)" .
qed

lemma vals_dyadic:
  assumes t: "wf_tables p m t" and \<psi>: "\<psi> = uint (ntt_root t)" and a: "congs p m \<psi> X a" and b: "congs p m \<psi> Y b"
    and r: "length r = 2 ^ p"
  shows "vals True p m \<psi> (negacyclic (2 ^ p) X Y) (dyadicProductCoeffmod a b (2 ^ p) m r)"
  unfolding dyadicProductCoeffmod_def dyadicProduct_coeff_eq
proof (rule loop_vals [OF r])
  fix k :: nat
  assume k: "k < 2 ^ p"
  let ?q = "uint (mod_value m)"
  have "uint (multiplyUintMod (a ! k) (b ! k) m) = uint (a ! k) * uint (b ! k) mod ?q"
    unfolding uint_nat multiplyUintMod_value [OF wf_modulusD(1) [OF wf_tablesD(1) [OF t]]] zmod_int of_nat_mult ..
  moreover have "eqm ?q (uint (a ! k) * uint (b ! k)) (evaluation p \<psi> X k * evaluation p \<psi> Y k)"
    using a b k by (intro eqm_mult) (simp_all add: congs_def)
  moreover have "eqm ?q (\<psi> ^ 2 ^ p) (- 1)" using wf_tablesD(8) [OF t] unfolding \<psi> uint_nat .
  then have "eqm ?q (evaluation p \<psi> (negacyclic (2 ^ p) X Y) k) (evaluation p \<psi> X k * evaluation p \<psi> Y k)"
    by (rule evaluation_negacyclic)
  ultimately show "uint (multiplyUintMod (a ! k) (b ! k) m) = form True p \<psi> (negacyclic (2 ^ p) X Y) k mod ?q"
    unfolding form_simps eqm_def by simp
qed

text \<open>The transforms.\<close>

lemma vals_bounded:
  assumes m: "wf_modulus m" and a: "vals ntt p m \<psi> X a" "length a = 2 ^ p"
  shows "\<forall>x\<in>set a. unat x < 4 * unat (mod_value m)"
proof
  fix x
  assume "x \<in> set a"
  then obtain k where "k < 2 ^ p" "x = a ! k" using a(2) by (metis in_set_conv_nth)
  then have "unat x < unat (mod_value m)" using vals_less [OF m a(1)] by blast
  then show "unat x < 4 * unat (mod_value m)" by simp
qed

lemma value_at_vals:
  assumes "vals False p m \<psi> X a" "\<psi> = uint (ntt_root t)"
  shows "eqm (uint (mod_value m)) (value_at p t a k) (evaluation p \<psi> X k)"
  unfolding value_at_def assms(2) uint_nat [symmetric]
  by (rule eqm_evaluation) (use assms(1) in \<open>simp add: vals_def eqm_def\<close>)

lemma vals_ntt:
  assumes t: "wf_tables p m t" and \<psi>: "\<psi> = uint (ntt_root t)" and a: "vals False p m \<psi> X a" "length a = 2 ^ p"
  shows "length (nttNegacyclicHarvey a t) = 2 ^ p" "vals True p m \<psi> X (nttNegacyclicHarvey a t)"
proof -
  note n = nttNegacyclicHarvey_value [OF t a(2) vals_bounded [OF wf_tablesD(1) [OF t] a]]
  show "length (nttNegacyclicHarvey a t) = 2 ^ p" by (rule n(1))
  show "vals True p m \<psi> X (nttNegacyclicHarvey a t)"
    using n(1,2) value_at_vals [OF a(1) \<psi>] unfolding vals_def form_simps eqm_def uint_nat [of "mod_value m"] uint_nat [of "_ ! _"]
    by (simp only: order_refl simp_thms) blast
qed

lemma vals_ntt_lazy:
  assumes t: "wf_tables p m t" and \<psi>: "\<psi> = uint (ntt_root t)" and a: "vals False p m \<psi> X a" "length a = 2 ^ p"
  shows "length (nttNegacyclicHarveyLazy a t) = 2 ^ p" "congs p m \<psi> X (nttNegacyclicHarveyLazy a t)"
proof -
  note st = nttNegacyclicHarveyLazy_stage [OF t a(2) vals_bounded [OF wf_tablesD(1) [OF t] a], unfolded ntt.at_stage_p]
  then show l: "length (nttNegacyclicHarveyLazy a t) = 2 ^ p" by blast
  have "eqm (uint (mod_value m)) (uint (nttNegacyclicHarveyLazy a t ! k)) (evaluation p \<psi> X k)" if "k < 2 ^ p" for k
  proof (rule eqm_trans [OF _ value_at_vals [OF a(1) \<psi>]])
    show "eqm (uint (mod_value m)) (uint (nttNegacyclicHarveyLazy a t ! k)) (value_at p t a k)"
      using st that unfolding value_at_def uint_nat [of "mod_value m"] uint_nat [of "_ ! _"] by simp
  qed
  then show "congs p m \<psi> X (nttNegacyclicHarveyLazy a t)" using l by (simp add: congs_def)
qed

lemma vals_inverse:
  assumes t: "wf_tables p m t" and \<psi>: "\<psi> = uint (ntt_root t)" and a: "vals True p m \<psi> X a" "length a = 2 ^ p"
  shows "length (inverseNttNegacyclicHarvey a t) = 2 ^ p" "vals False p m \<psi> X (inverseNttNegacyclicHarvey a t)"
proof -
  have v: "\<forall>k<2 ^ p. unat (a ! k) < 2 * unat (mod_value m) \<and>
      eqm (int (unat (mod_value m))) (int (unat (a ! k))) (evaluation p (int (unat (ntt_root t))) X k)"
  proof (intro allI impI conjI)
    fix k :: nat
    assume k: "k < 2 ^ p"
    show "unat (a ! k) < 2 * unat (mod_value m)" using vals_less [OF wf_tablesD(1) [OF t] a(1) k] by simp
    have "uint (a ! k) = evaluation p \<psi> X k mod uint (mod_value m)" using a(1) k by (simp add: vals_def)
    then have "eqm (uint (mod_value m)) (uint (a ! k)) (evaluation p \<psi> X k)" by (simp add: eqm_def)
    then show "eqm (int (unat (mod_value m))) (int (unat (a ! k))) (evaluation p (int (unat (ntt_root t))) X k)"
      unfolding uint_nat [symmetric] \<psi> .
  qed
  note i = inverseNtt_stage [OF t a(2) v]
  show "length (inverseNttNegacyclicHarvey a t) = 2 ^ p" by (rule i(1))
  then show "vals False p m \<psi> X (inverseNttNegacyclicHarvey a t)"
    using i(2) unfolding vals_def form_simps uint_nat [of "mod_value m"] uint_nat [of "_ ! _"] by simp
qed

section \<open>Several moduli\<close>

text \<open>The residues one after the other, at the start of a list; \<open>\<psi> i\<close> is the root of the transform for the modulus \<open>i\<close>.\<close>

definition rns_vals :: "bool \<Rightarrow> nat \<Rightarrow> (nat \<Rightarrow> int) \<Rightarrow> Modulus list \<Rightarrow> (nat \<Rightarrow> int) \<Rightarrow> u64 list \<Rightarrow> bool" where
  "rns_vals ntt p \<psi> ms X a \<longleftrightarrow> 2 ^ p * length ms \<le> length a \<and> (\<forall>i<length ms. vals ntt p (ms ! i) (\<psi> i) X (drop (2 ^ p * i) a))"

definition rns_congs :: "nat \<Rightarrow> (nat \<Rightarrow> int) \<Rightarrow> Modulus list \<Rightarrow> (nat \<Rightarrow> int) \<Rightarrow> u64 list \<Rightarrow> bool" where
  "rns_congs p \<psi> ms X a \<longleftrightarrow> 2 ^ p * length ms \<le> length a \<and> (\<forall>i<length ms. congs p (ms ! i) (\<psi> i) X (drop (2 ^ p * i) a))"

text \<open>The tables of the moduli.\<close>

definition tables_for :: "nat \<Rightarrow> (nat \<Rightarrow> int) \<Rightarrow> Modulus list \<Rightarrow> NTTTables list \<Rightarrow> bool" where
  "tables_for p \<psi> ms ts \<longleftrightarrow> (\<forall>i<length ms. wf_tables p (ms ! i) (ts ! i) \<and> \<psi> i = uint (ntt_root (ts ! i)))"

lemma tables_forD:
  assumes "tables_for p \<psi> ms ts" "i < length ms"
  shows "wf_tables p (ms ! i) (ts ! i)" "\<psi> i = uint (ntt_root (ts ! i))" "wf_modulus (ms ! i)"
  using assms wf_tablesD(1) by (auto simp: tables_for_def)

lemma rns_valsD: "rns_vals ntt p \<psi> ms X a \<Longrightarrow> i < length ms \<Longrightarrow> vals ntt p (ms ! i) (\<psi> i) X (drop (2 ^ p * i) a)"
  by (simp add: rns_vals_def)

lemma rns_vals_congs: "rns_vals True p \<psi> ms X a \<Longrightarrow> rns_congs p \<psi> ms X a"
  by (simp add: rns_vals_def rns_congs_def vals_congs)

lemma slice_drop: "i < K \<Longrightarrow> d * K \<le> l \<Longrightarrow> take d (drop (d * i) (take l a)) = take d (drop (d * i) a)"
  using slice_end [of i K d] by (simp add: drop_take min_def)

lemma rns_vals_take:
  assumes "2 ^ p * length ms \<le> l"
  shows "rns_vals ntt p \<psi> ms X (take l a) \<longleftrightarrow> rns_vals ntt p \<psi> ms X a"
proof -
  have "vals ntt p (ms ! i) (\<psi> i) X (drop (2 ^ p * i) (take l a)) = vals ntt p (ms ! i) (\<psi> i) X (drop (2 ^ p * i) a)"
    if "i < length ms" for i
    using slice_drop [OF that assms] vals_take [OF order_refl, of ntt p "ms ! i" "\<psi> i" X] by metis
  then show ?thesis using assms unfolding rns_vals_def by auto
qed

text \<open>A loop over the moduli writes residues when each round does.\<close>

lemma parts_rns_vals:
  assumes r: "length r = 2 ^ p * length ms"
    and f: "\<And>i ys. i < length ms \<Longrightarrow> length ys = 2 ^ p \<Longrightarrow> length (f i ys) = 2 ^ p"
    and v: "\<And>i ys. i < length ms \<Longrightarrow> ys = poly_slice (2 ^ p) i r \<Longrightarrow> length ys = 2 ^ p \<Longrightarrow> vals ntt p (ms ! i) (\<psi> i) X (f i ys)"
  shows "length (parts_loop f (2 ^ p) (length ms) 0 r) = 2 ^ p * length ms"
    "rns_vals ntt p \<psi> ms X (parts_loop f (2 ^ p) (length ms) 0 r)"
proof -
  let ?r = "parts_loop f (2 ^ p) (length ms) 0 r"
  have s: "length ?r = 2 ^ p * length ms" "\<forall>j<length ms. poly_slice (2 ^ p) j ?r = f j (poly_slice (2 ^ p) j r)"
    using parts_loop_slices [of "length ms" "2 ^ p" f r 0 "length ms"] f r by auto
  show "length ?r = 2 ^ p * length ms" by (rule s(1))
  have "vals ntt p (ms ! i) (\<psi> i) X (drop (2 ^ p * i) ?r)" if i: "i < length ms" for i
  proof -
    have "vals ntt p (ms ! i) (\<psi> i) X (f i (poly_slice (2 ^ p) i r))"
      by (rule v [OF i refl]) (rule length_slice [OF r i])
    then have "vals ntt p (ms ! i) (\<psi> i) X (poly_slice (2 ^ p) i ?r)" using s(2) i by simp
    then show ?thesis unfolding poly_slice_def vals_take [OF order_refl] .
  qed
  then show "rns_vals ntt p \<psi> ms X ?r" using s(1) by (simp add: rns_vals_def)
qed

lemma length_poly_ops [simp]:
  "length (addPolyCoeffmod a b n m r) = length r" "length (subPolyCoeffmod a b n m r) = length r"
  "length (negatePolyCoeffmod a n m r) = length r" "length (multiplyPolyScalarCoeffmod a n s m r) = length r"
  "length (dyadicProductCoeffmod a b n m r) = length r"
  by (simp_all add: addPolyCoeffmod_def subPolyCoeffmod_def negatePolyCoeffmod_def multiplyPolyScalarCoeffmod_def
      multiplyPolyScalarCoeffmod_operand_def dyadicProductCoeffmod_def Let_def)

definition wf_moduli :: "Modulus list \<Rightarrow> bool" where
  "wf_moduli ms \<longleftrightarrow> (\<forall>i<length ms. wf_modulus (ms ! i))"

lemma wf_moduliD: "wf_moduli ms \<Longrightarrow> i < length ms \<Longrightarrow> wf_modulus (ms ! i)"
  by (simp add: wf_moduli_def)

lemma rns_vals_add:
  assumes "wf_moduli ms" "rns_vals ntt p \<psi> ms X a" "rns_vals ntt p \<psi> ms Y b" and r: "length r = 2 ^ p * length ms"
  shows "length (addPolyCoeffmod_rns a b (length ms) (2 ^ p) ms r) = 2 ^ p * length ms"
    "rns_vals ntt p \<psi> ms (\<lambda>j. X j + Y j) (addPolyCoeffmod_rns a b (length ms) (2 ^ p) ms r)"
  unfolding addPolyCoeffmod_rns_def
  by (rule parts_rns_vals [OF r]; use assms in \<open>auto intro!: vals_add rns_valsD wf_moduliD\<close>)+

lemma rns_vals_sub:
  assumes "wf_moduli ms" "rns_vals ntt p \<psi> ms X a" "rns_vals ntt p \<psi> ms Y b" and r: "length r = 2 ^ p * length ms"
  shows "length (subPolyCoeffmod_rns a b (length ms) (2 ^ p) ms r) = 2 ^ p * length ms"
    "rns_vals ntt p \<psi> ms (\<lambda>j. X j - Y j) (subPolyCoeffmod_rns a b (length ms) (2 ^ p) ms r)"
  unfolding subPolyCoeffmod_rns_def
  by (rule parts_rns_vals [OF r]; use assms in \<open>auto intro!: vals_sub rns_valsD wf_moduliD\<close>)+

lemma rns_vals_negate:
  assumes "wf_moduli ms" "rns_vals ntt p \<psi> ms X a" and r: "length r = 2 ^ p * length ms"
  shows "length (negatePolyCoeffmod_rns a (length ms) (2 ^ p) ms r) = 2 ^ p * length ms"
    "rns_vals ntt p \<psi> ms (\<lambda>j. - X j) (negatePolyCoeffmod_rns a (length ms) (2 ^ p) ms r)"
  unfolding negatePolyCoeffmod_rns_def
  by (rule parts_rns_vals [OF r]; use assms in \<open>auto intro!: vals_negate rns_valsD wf_moduliD\<close>)+

lemma rns_vals_scalar:
  assumes "wf_moduli ms" "rns_vals ntt p \<psi> ms X a" and r: "length r = 2 ^ p * length ms"
  shows "length (multiplyPolyScalarCoeffmod_rns a (length ms) (2 ^ p) s ms r) = 2 ^ p * length ms"
    "rns_vals ntt p \<psi> ms (\<lambda>j. uint s * X j) (multiplyPolyScalarCoeffmod_rns a (length ms) (2 ^ p) s ms r)"
  unfolding multiplyPolyScalarCoeffmod_rns_def
  by (rule parts_rns_vals [OF r]; use assms in \<open>auto intro!: vals_scalar rns_valsD wf_moduliD\<close>)+

lemma rns_vals_dyadic:
  assumes t: "tables_for p \<psi> ms ts" and "rns_congs p \<psi> ms X a" "rns_congs p \<psi> ms Y b" and r: "length r = 2 ^ p * length ms"
  shows "length (dyadicProductCoeffmod_rns a b (length ms) (2 ^ p) ms r) = 2 ^ p * length ms"
    "rns_vals True p \<psi> ms (negacyclic (2 ^ p) X Y) (dyadicProductCoeffmod_rns a b (length ms) (2 ^ p) ms r)"
  unfolding dyadicProductCoeffmod_rns_def
  by (rule parts_rns_vals [OF r]; use assms in \<open>auto intro!: vals_dyadic [OF tables_forD(1,2) [OF t]] simp: rns_congs_def\<close>)+

lemma rns_vals_zero:
  assumes "wf_moduli ms" "length a = 2 ^ p * length ms" "\<forall>x\<in>set a. x = 0"
  shows "rns_vals ntt p \<psi> ms (\<lambda>j. 0) a"
proof -
  have "vals ntt p (ms ! i) (\<psi> i) (\<lambda>j. 0) (drop (2 ^ p * i) a)" if i: "i < length ms" for i
  proof -
    have e: "2 ^ p * i + 2 ^ p \<le> length a" using slice_end [of i "length ms" "2 ^ p"] i assms(2) by simp
    then have "drop (2 ^ p * i) a ! k = 0" if "k < 2 ^ p" for k using assms(3) that by simp
    then show ?thesis using e by (simp add: vals_def form_linear)
  qed
  then show ?thesis using assms(2) by (simp add: rns_vals_def)
qed

text \<open>The transforms of all residues.\<close>

lemma tables_degree:
  assumes "tables_for p \<psi> ms ts" "ms \<noteq> []"
  shows "push_bit (ntt_coeff_count_power (ts ! 0)) 1 = (2 :: nat) ^ p"
  using tables_forD(1) [OF assms(1), of 0] assms(2) by (simp add: push_bit_eq_mult wf_tables_def Let_def)

lemma rns_loop_vals:
  assumes t: "tables_for p \<psi> ms ts" and ms: "ms \<noteq> []" and a: "rns_vals ntt p \<psi> ms X a" "length a = 2 ^ p * length ms"
    and f: "\<And>i ys. i < length ms \<Longrightarrow> vals ntt p (ms ! i) (\<psi> i) X ys \<Longrightarrow> length ys = 2 ^ p \<Longrightarrow> length (f ys (ts ! i)) = 2 ^ p \<and> R i (f ys (ts ! i))"
  shows "length (ntt_rns f a (length ms) ts) = 2 ^ p * length ms"
    "i < length ms \<Longrightarrow> R i (poly_slice (2 ^ p) i (ntt_rns f a (length ms) ts))"
proof -
  let ?P = "\<lambda>i ys. i < length ms \<and> vals ntt p (ms ! i) (\<psi> i) X ys \<and> length ys = 2 ^ p"
  have P: "\<forall>i. 0 \<le> i \<and> i < 0 + length ms \<longrightarrow> ?P i (poly_slice (2 ^ p) i a)"
    using rns_valsD [OF a(1)] length_slice [OF a(2)] by (simp add: poly_slice_def vals_take)
  have f': "length (f ys (ts ! i)) = 2 ^ p" if "?P i ys" for i ys using f that by blast
  have s: "length (ntt_rns f a (length ms) ts) = 2 ^ p * length ms \<and>
      (\<forall>j<length ms. poly_slice (2 ^ p) j (ntt_rns f a (length ms) ts) =
        (if 0 \<le> j \<and> j < 0 + length ms then f (poly_slice (2 ^ p) j a) (ts ! j) else poly_slice (2 ^ p) j a))"
    unfolding ntt_rns_def tables_degree [OF t ms] by (rule rns_loop_slices [of ?P f ts, OF f' a(2) _ P]) simp_all
  then show "length (ntt_rns f a (length ms) ts) = 2 ^ p * length ms" by blast
  show "R i (poly_slice (2 ^ p) i (ntt_rns f a (length ms) ts))" if "i < length ms"
    using s P f that by simp
qed

lemma rns_vals_ntt:
  assumes t: "tables_for p \<psi> ms ts" and ms: "ms \<noteq> []" and a: "rns_vals False p \<psi> ms X a" "length a = 2 ^ p * length ms"
  shows "length (nttNegacyclicHarvey_rns a (length ms) ts) = 2 ^ p * length ms"
    "rns_vals True p \<psi> ms X (nttNegacyclicHarvey_rns a (length ms) ts)"
proof -
  note l = rns_loop_vals [OF t ms a, of nttNegacyclicHarvey "\<lambda>i. vals True p (ms ! i) (\<psi> i) X"]
  have f: "length (nttNegacyclicHarvey ys (ts ! i)) = 2 ^ p \<and> vals True p (ms ! i) (\<psi> i) X (nttNegacyclicHarvey ys (ts ! i))"
    if "i < length ms" "vals False p (ms ! i) (\<psi> i) X ys" "length ys = 2 ^ p" for i ys
    using vals_ntt [OF tables_forD(1,2) [OF t that(1)] that(2,3)] by blast
  show len: "length (nttNegacyclicHarvey_rns a (length ms) ts) = 2 ^ p * length ms"
    unfolding nttNegacyclicHarvey_rns_def by (rule l(1)) (use f in blast)
  show "rns_vals True p \<psi> ms X (nttNegacyclicHarvey_rns a (length ms) ts)"
    using l(2) f len unfolding nttNegacyclicHarvey_rns_def rns_vals_def poly_slice_def vals_take [OF order_refl] by simp
qed

lemma rns_vals_inverse:
  assumes t: "tables_for p \<psi> ms ts" and ms: "ms \<noteq> []" and a: "rns_vals True p \<psi> ms X a" "length a = 2 ^ p * length ms"
  shows "length (inverseNttNegacyclicHarvey_rns a (length ms) ts) = 2 ^ p * length ms"
    "rns_vals False p \<psi> ms X (inverseNttNegacyclicHarvey_rns a (length ms) ts)"
proof -
  note l = rns_loop_vals [OF t ms a, of inverseNttNegacyclicHarvey "\<lambda>i. vals False p (ms ! i) (\<psi> i) X"]
  have f: "length (inverseNttNegacyclicHarvey ys (ts ! i)) = 2 ^ p \<and> vals False p (ms ! i) (\<psi> i) X (inverseNttNegacyclicHarvey ys (ts ! i))"
    if "i < length ms" "vals True p (ms ! i) (\<psi> i) X ys" "length ys = 2 ^ p" for i ys
    using vals_inverse [OF tables_forD(1,2) [OF t that(1)] that(2,3)] by blast
  show len: "length (inverseNttNegacyclicHarvey_rns a (length ms) ts) = 2 ^ p * length ms"
    unfolding inverseNttNegacyclicHarvey_rns_def by (rule l(1)) (use f in blast)
  show "rns_vals False p \<psi> ms X (inverseNttNegacyclicHarvey_rns a (length ms) ts)"
    using l(2) f len unfolding inverseNttNegacyclicHarvey_rns_def rns_vals_def poly_slice_def vals_take [OF order_refl] by simp
qed

lemma rns_congs_ntt_lazy:
  assumes t: "tables_for p \<psi> ms ts" and ms: "ms \<noteq> []" and a: "rns_vals False p \<psi> ms X a" "length a = 2 ^ p * length ms"
  shows "length (nttNegacyclicHarveyLazy_rns a (length ms) ts) = 2 ^ p * length ms"
    "rns_congs p \<psi> ms X (nttNegacyclicHarveyLazy_rns a (length ms) ts)"
proof -
  note l = rns_loop_vals [OF t ms a, of nttNegacyclicHarveyLazy "\<lambda>i. congs p (ms ! i) (\<psi> i) X"]
  have f: "length (nttNegacyclicHarveyLazy ys (ts ! i)) = 2 ^ p \<and> congs p (ms ! i) (\<psi> i) X (nttNegacyclicHarveyLazy ys (ts ! i))"
    if "i < length ms" "vals False p (ms ! i) (\<psi> i) X ys" "length ys = 2 ^ p" for i ys
    using vals_ntt_lazy [OF tables_forD(1,2) [OF t that(1)] that(2,3)] by blast
  show len: "length (nttNegacyclicHarveyLazy_rns a (length ms) ts) = 2 ^ p * length ms"
    unfolding nttNegacyclicHarveyLazy_rns_def by (rule l(1)) (use f in blast)
  show "rns_congs p \<psi> ms X (nttNegacyclicHarveyLazy_rns a (length ms) ts)"
    using l(2) f len unfolding nttNegacyclicHarveyLazy_rns_def rns_congs_def poly_slice_def congs_take [OF order_refl] by simp
qed

section \<open>Arrays of polynomials\<close>

lemma fold_parts: "fold (\<lambda>i. on_slice (i * d) d (f i)) [i..<i + k] a = parts_loop f d k i a"
proof (induction k arbitrary: i a)
  case (Suc k)
  have "[i..<i + Suc k] = i # [Suc i..<Suc i + k]" by (simp add: upt_rec)
  then show ?case using Suc.IH [of "Suc i" "on_slice (i * d) d (f i) a"] by (simp add: mult.commute)
qed simp

lemma fold_parts0: "fold (\<lambda>i. on_slice (i * d) d (f i)) [0..<k] a = parts_loop f d k 0 a"
  using fold_parts [of d f 0 k a] by simp

lemma rns_vals_slice: "length ms = K \<Longrightarrow> rns_vals ntt p \<psi> ms X (poly_slice (2 ^ p * K) j a) \<longleftrightarrow> rns_vals ntt p \<psi> ms X (drop (2 ^ p * K * j) a)"
  by (simp add: poly_slice_def rns_vals_take)

lemma rns_congs_take:
  assumes "2 ^ p * length ms \<le> l"
  shows "rns_congs p \<psi> ms X (take l a) \<longleftrightarrow> rns_congs p \<psi> ms X a"
proof -
  have "congs p (ms ! i) (\<psi> i) X (drop (2 ^ p * i) (take l a)) = congs p (ms ! i) (\<psi> i) X (drop (2 ^ p * i) a)"
    if "i < length ms" for i
    using slice_drop [OF that assms] congs_take [OF order_refl, of p "ms ! i" "\<psi> i" X] by metis
  then show ?thesis using assms unfolding rns_congs_def by auto
qed

lemma rns_vals_prefix:
  assumes "rns_vals ntt p \<psi> kms X a" "ms = take K kms"
  shows "rns_vals ntt p \<psi> ms X a"
proof -
  have "length ms \<le> length kms" using assms(2) by simp
  then have "2 ^ p * length ms \<le> 2 ^ p * length kms" by simp
  moreover have "2 ^ p * length kms \<le> length a" using assms(1) by (simp add: rns_vals_def)
  moreover have "\<forall>i<length ms. vals ntt p (ms ! i) (\<psi> i) X (drop (2 ^ p * i) a)" using assms by (simp add: rns_vals_def)
  ultimately show ?thesis unfolding rns_vals_def by (meson order_trans)
qed

lemma rns_congs_ntt_lazy_polys:
  assumes t: "tables_for p \<psi> ms ts" and ms: "ms \<noteq> []" and len: "length a = 2 ^ p * length ms * k"
    and a: "\<And>i. i < k \<Longrightarrow> rns_vals False p \<psi> ms (X i) (drop (2 ^ p * length ms * i) a)"
  shows "length (nttNegacyclicHarveyLazy_polys a k (length ms) ts) = 2 ^ p * length ms * k"
    "i < k \<Longrightarrow> rns_congs p \<psi> ms (X i) (poly_slice (2 ^ p * length ms) i (nttNegacyclicHarveyLazy_polys a k (length ms) ts))"
proof -
  let ?d = "2 ^ p * length ms" and ?f = "\<lambda>x. nttNegacyclicHarveyLazy_rns x (length ms) ts"
  let ?r = "nttNegacyclicHarveyLazy_polys a k (length ms) ts"
  let ?P = "\<lambda>ys. length ys = ?d \<and> (\<exists>X. rns_vals False p \<psi> ms X ys)"
  have v: "rns_vals False p \<psi> ms (X i) (poly_slice ?d i a)" "length (poly_slice ?d i a) = ?d" if "i < k" for i
    using a [OF that] length_slice [OF len that] by (simp_all add: rns_vals_slice)
  have eq: "?r = polys_loop ?f ?d k 0 a"
    unfolding nttNegacyclicHarveyLazy_polys_def nttNegacyclicHarveyLazy_rns_def ntt_polys_def tables_degree [OF t ms] by simp
  have l: "length (?f ys) = ?d" if "?P ys" for ys using rns_congs_ntt_lazy(1) [OF t ms] that by blast
  have s: "length ?r = ?d * k \<and> (\<forall>j<k. poly_slice ?d j ?r = (if 0 \<le> j \<and> j < 0 + k then ?f (poly_slice ?d j a) else poly_slice ?d j a))"
    unfolding eq by (rule polys_loop_slices [of ?P ?f, OF l len]) (use v in auto)
  then show "length ?r = ?d * k" by blast
  show "rns_congs p \<psi> ms (X i) (poly_slice ?d i ?r)" if "i < k"
    using s that rns_congs_ntt_lazy(2) [OF t ms v [OF that]] by simp
qed

text \<open>Loops that treat every polynomial of an array.\<close>

lemma polys_parts:
  assumes len: "length a = d * k" and f: "\<And>i ys. i < k \<Longrightarrow> length ys = d \<Longrightarrow> length (f i ys) = d"
  shows "length (parts_loop f d k 0 a) = d * k" "i < k \<Longrightarrow> poly_slice d i (parts_loop f d k 0 a) = f i (poly_slice d i a)"
  using parts_loop_slices [of k d f a 0 k] f len by simp_all

lemma rns_vals_sum:
  assumes m: "wf_moduli ms" and a: "\<And>i. i < k \<Longrightarrow> rns_vals ntt p \<psi> ms (X i) (f i)"
  shows "length (fold (\<lambda>i d. addPolyCoeffmod_rns d (f i) (length ms) (2 ^ p) ms d) [0..<k] (replicate (2 ^ p * length ms) 0)) = 2 ^ p * length ms \<and>
    rns_vals ntt p \<psi> ms (\<lambda>j. \<Sum>i<k. X i j)
      (fold (\<lambda>i d. addPolyCoeffmod_rns d (f i) (length ms) (2 ^ p) ms d) [0..<k] (replicate (2 ^ p * length ms) 0))"
  using a
proof (induction k)
  case 0
  then show ?case using rns_vals_zero [OF m, of "replicate (2 ^ p * length ms) 0"] by simp
next
  case (Suc k)
  let ?r = "fold (\<lambda>i d. addPolyCoeffmod_rns d (f i) (length ms) (2 ^ p) ms d) [0..<k] (replicate (2 ^ p * length ms) 0)"
  have r: "length ?r = 2 ^ p * length ms" "rns_vals ntt p \<psi> ms (\<lambda>j. \<Sum>i<k. X i j) ?r" using Suc by simp_all
  show ?case using rns_vals_add [OF m r(2) Suc.prems [of k] r(1)] by simp
qed

end
