(* ===== verification/Ciphertexts.thy ===== *)
theory Ciphertexts
  imports Plaintexts Rns_Forms
begin

unbundle bit_operations_syntax

text \<open>
  The class \<open>Ciphertext\<close> of \<open>ciphertext.h\<close> and \<open>ciphertext.cpp\<close>, the keys that are made of plaintexts and ciphertexts
  (\<open>secretkey.h\<close>, \<open>publickey.h\<close>, \<open>kswitchkeys.h\<close>, \<open>relinkeys.h\<close>, \<open>galoiskeys.h\<close>), and their checks in \<open>valcheck.cpp\<close>, all in
  \<open>heu/library/algorithms/seal_gpu/\<close>. The scale, a \<open>double\<close>, is kept as its 64 bits.
\<close>

section \<open>The class\<close>

record Ciphertext =
  ct_parms_id :: ParmsID
  ct_is_ntt_form :: bool
  ct_size :: nat
  ct_poly_modulus_degree :: nat
  ct_coeff_modulus_size :: nat
  ct_scale :: u64
  ct_correction_factor :: u64
  ct_data :: "u64 HostDynamicArray"

definition SEAL_CIPHERTEXT_SIZE_MAX :: nat where "SEAL_CIPHERTEXT_SIZE_MAX = 16"
definition SEAL_CIPHERTEXT_SIZE_MIN :: nat where "SEAL_CIPHERTEXT_SIZE_MIN = 2"

definition new_Ciphertext :: Ciphertext where
  "new_Ciphertext = \<lparr>ct_parms_id = parmsIDZero, ct_is_ntt_form = False, ct_size = 0, ct_poly_modulus_degree = 0,
     ct_coeff_modulus_size = 0, ct_scale = scale_one, ct_correction_factor = 1, ct_data = \<lparr>hd_internal = [], hd_size = 0\<rparr>\<rparr>"

text \<open>The number of words of so many polynomials, with the two checked products.\<close>

definition poly_words :: "nat \<Rightarrow> nat \<Rightarrow> nat \<Rightarrow> nat res" where
  "poly_words count degree moduli =
     rbind (mul_safe uint64_t (int degree) (int moduli)) (\<lambda>n. rbind (mul_safe uint64_t (int count) n) (\<lambda>m. Inr (nat m)))"

definition ct_reserveInternal :: "nat \<Rightarrow> nat \<Rightarrow> nat \<Rightarrow> Ciphertext \<Rightarrow> Ciphertext res" where
  "ct_reserveInternal size_capacity poly_modulus_degree coeff_modulus_size c =
     (if size_capacity < SEAL_CIPHERTEXT_SIZE_MIN \<or> size_capacity > SEAL_CIPHERTEXT_SIZE_MAX
      then Inl (Invalid_argument ''invalid size_capacity'')
      else rbind (poly_words size_capacity poly_modulus_degree coeff_modulus_size) (\<lambda>new_data_capacity.
        let new_data_size = min new_data_capacity (hd_size (ct_data c))
        in Inr (c\<lparr>ct_data := hd_resize new_data_size (hd_reserve new_data_capacity (ct_data c)),
                  ct_size := min size_capacity (ct_size c), ct_poly_modulus_degree := poly_modulus_degree,
                  ct_coeff_modulus_size := coeff_modulus_size\<rparr>)))"

definition ct_resizeInternal :: "nat \<Rightarrow> nat \<Rightarrow> nat \<Rightarrow> Ciphertext \<Rightarrow> Ciphertext res" where
  "ct_resizeInternal n poly_modulus_degree coeff_modulus_size c =
     (if (n < SEAL_CIPHERTEXT_SIZE_MIN \<and> n \<noteq> 0) \<or> n > SEAL_CIPHERTEXT_SIZE_MAX then Inl (Invalid_argument ''invalid size'')
      else rbind (poly_words n poly_modulus_degree coeff_modulus_size) (\<lambda>new_data_size.
        Inr (c\<lparr>ct_data := hd_resize new_data_size (ct_data c), ct_size := n,
               ct_poly_modulus_degree := poly_modulus_degree, ct_coeff_modulus_size := coeff_modulus_size\<rparr>)))"

text \<open>The parameters of a context with an identifier; the first check also finds the first context data.\<close>

definition checked_parms :: "SEALContext \<Rightarrow> ParmsID \<Rightarrow> EncryptionParameters res" where
  "checked_parms context parms_id =
     (if \<not> context_parametersSet context then Inl (Invalid_argument ''encryption parameters are not set correctly'')
      else case getContextData context parms_id of
             None \<Rightarrow> Inl (Invalid_argument ''parms_id is not valid for encryption parameters'')
           | Some cd \<Rightarrow> Inr (cd_parms cd))"

definition ct_reserve :: "SEALContext \<Rightarrow> ParmsID \<Rightarrow> nat \<Rightarrow> Ciphertext \<Rightarrow> Ciphertext res" where
  "ct_reserve context parms_id size_capacity c =
     rbind (checked_parms context parms_id) (\<lambda>parms.
       ct_reserveInternal size_capacity (unat (ep_poly_modulus_degree parms)) (length (ep_coeff_modulus parms))
         (c\<lparr>ct_parms_id := ep_parms_id parms\<rparr>))"

definition ct_resize :: "SEALContext \<Rightarrow> ParmsID \<Rightarrow> nat \<Rightarrow> Ciphertext \<Rightarrow> Ciphertext res" where
  "ct_resize context parms_id n c =
     rbind (checked_parms context parms_id) (\<lambda>parms.
       ct_resizeInternal n (unat (ep_poly_modulus_degree parms)) (length (ep_coeff_modulus parms))
         (c\<lparr>ct_parms_id := ep_parms_id parms\<rparr>))"

definition new_Ciphertext_capacity :: "SEALContext \<Rightarrow> ParmsID \<Rightarrow> nat \<Rightarrow> Ciphertext res" where
  "new_Ciphertext_capacity context parms_id size_capacity = ct_reserve context parms_id size_capacity new_Ciphertext"

definition ct_release :: "Ciphertext \<Rightarrow> Ciphertext" where
  "ct_release c = \<lparr>ct_parms_id = parmsIDZero, ct_is_ntt_form = False, ct_size = 0, ct_poly_modulus_degree = 0,
     ct_coeff_modulus_size = 0, ct_scale = scale_one, ct_correction_factor = 1, ct_data = hd_release (ct_data c)\<rparr>"

text \<open>
  The assignment. The words are copied into the memory that fits the size of the ciphertext; it is undefined when the
  buffer of the source is longer.
\<close>

definition ct_assign :: "Ciphertext \<Rightarrow> Ciphertext \<Rightarrow> Ciphertext res option" where
  "ct_assign assign c =
     (let c = c\<lparr>ct_parms_id := ct_parms_id assign, ct_is_ntt_form := ct_is_ntt_form assign, ct_scale := ct_scale assign,
                ct_correction_factor := ct_correction_factor assign\<rparr>
      in case ct_resizeInternal (ct_size assign) (ct_poly_modulus_degree assign) (ct_coeff_modulus_size assign) c of
           Inl e \<Rightarrow> Some (Inl e)
         | Inr c \<Rightarrow>
             let n = hd_size (ct_data assign)
             in if n > hd_capacity (ct_data c) then None
                else Some (Inr (c\<lparr>ct_data := (ct_data c)\<lparr>hd_internal :=
                       take n (hd_internal (ct_data assign)) @ drop n (hd_internal (ct_data c))\<rparr>\<rparr>)))"

text \<open>The pointer to a polynomial, as an offset into the data; \<open>None\<close> is the null pointer.\<close>

definition ct_data_at :: "Ciphertext \<Rightarrow> nat \<Rightarrow> nat option res" where
  "ct_data_at c poly_index =
     rbind (mul_safe uint64_t (int (ct_poly_modulus_degree c)) (int (ct_coeff_modulus_size c))) (\<lambda>n.
       if n = 0 then Inr None
       else if poly_index \<ge> ct_size c then Inl (Out_of_range ''poly_index must be within [0, size)'')
       else rbind (mul_safe uint64_t (int poly_index) n) (\<lambda>m. rbind (safe_cast uint64_t uint64_t m) (\<lambda>k. Inr (Some (nat k)))))"

definition ct_sizeCapacity :: "Ciphertext \<Rightarrow> nat" where
  "ct_sizeCapacity c =
     (let poly_uint64_count = unat (of_nat (ct_poly_modulus_degree c) * of_nat (ct_coeff_modulus_size c) :: u64)
      in if poly_uint64_count \<noteq> 0 then hd_capacity (ct_data c) div poly_uint64_count else 0)"

definition ct_isTransparent :: "Ciphertext \<Rightarrow> bool res option" where
  "ct_isTransparent c =
     (if hd_size (ct_data c) = 0 \<or> ct_size c < SEAL_CIPHERTEXT_SIZE_MIN then Some (Inr True)
      else case ct_data_at c 1 of
             Inl e \<Rightarrow> Some (Inl e)
           | Inr None \<Rightarrow> None
           | Inr (Some k) \<Rightarrow> Some (Inr (list_all (\<lambda>x. x = 0) (drop k (take (hd_size (ct_data c)) (hd_internal (ct_data c)))))))"

section \<open>Keys\<close>

type_synonym SecretKey = Plaintext
type_synonym PublicKey = Ciphertext

record KSwitchKeys =
  ks_parms_id :: ParmsID
  ks_keys :: "PublicKey list list"

definition ks_size :: "KSwitchKeys \<Rightarrow> nat" where
  "ks_size k = length (filter (\<lambda>keys. keys \<noteq> []) (ks_keys k))"

definition ks_data :: "KSwitchKeys \<Rightarrow> nat \<Rightarrow> PublicKey list res" where
  "ks_data k index =
     (if index \<ge> length (ks_keys k) \<or> ks_keys k ! index = [] then Inl (Invalid_argument ''keyswitching key does not exist'')
      else Inr (ks_keys k ! index))"

definition relin_getIndex :: "nat \<Rightarrow> nat res" where
  "relin_getIndex key_power =
     (if key_power < 2 then Inl (Invalid_argument ''key_power cannot be less than 2'') else Inr (key_power - 2))"

definition relin_hasKey :: "KSwitchKeys \<Rightarrow> nat \<Rightarrow> bool res" where
  "relin_hasKey k key_power =
     rbind (relin_getIndex key_power) (\<lambda>index. Inr (length (ks_keys k) > index \<and> ks_keys k ! index \<noteq> []))"

definition relin_key :: "KSwitchKeys \<Rightarrow> nat \<Rightarrow> PublicKey list res" where
  "relin_key k key_power = rbind (relin_getIndex key_power) (ks_data k)"

definition galois_hasKey :: "KSwitchKeys \<Rightarrow> u32 \<Rightarrow> bool" where
  "galois_hasKey k galois_elt =
     (let index = GetIndexFromElt galois_elt in length (ks_keys k) > index \<and> ks_keys k ! index \<noteq> [])"

definition galois_key :: "KSwitchKeys \<Rightarrow> u32 \<Rightarrow> PublicKey list res" where
  "galois_key k galois_elt = ks_data k (GetIndexFromElt galois_elt)"

section \<open>Validity\<close>

text \<open>The checks of the metadata; those of the buffers can throw in the product of the sizes.\<close>

definition scale_is_zero :: "u64 \<Rightarrow> bool" where
  "scale_is_zero x = (x = 0 \<or> x = push_bit 63 1)"

definition ct_isMetadataValidFor :: "Ciphertext \<Rightarrow> SEALContext \<Rightarrow> bool \<Rightarrow> bool" where
  "ct_isMetadataValidFor c context allow_pure_key_levels =
     (case firstContextData context of
        None \<Rightarrow> False
      | Some first \<Rightarrow>
          context_parametersSet context \<and>
          (case getContextData context (ct_parms_id c) of
             None \<Rightarrow> False
           | Some cd \<Rightarrow>
               let is_parms_pure_key = cd_chain_index cd > cd_chain_index first;
                   scheme = ep_scheme (cd_parms first);
                   plain_modulus = modulus_value (ep_plain_modulus (cd_parms first))
               in (allow_pure_key_levels \<or> \<not> is_parms_pure_key) \<and>
                  length (ep_coeff_modulus (cd_parms cd)) = ct_coeff_modulus_size c \<and>
                  unat (ep_poly_modulus_degree (cd_parms cd)) = ct_poly_modulus_degree c \<and>
                  \<not> ((ct_size c < SEAL_CIPHERTEXT_SIZE_MIN \<and> ct_size c \<noteq> 0) \<or> ct_size c > SEAL_CIPHERTEXT_SIZE_MAX) \<and>
                  \<not> ((ct_scale c \<noteq> scale_one \<and> (scheme = bfv \<or> scheme = bgv)) \<or> (scale_is_zero (ct_scale c) \<and> scheme = ckks)) \<and>
                  \<not> ((ct_correction_factor c \<noteq> 1 \<and> (scheme = bfv \<or> scheme = ckks)) \<or>
                     ((ct_correction_factor c = 0 \<or> ct_correction_factor c \<ge> plain_modulus) \<and> scheme = bgv))))"

definition ct_isBufferValid :: "Ciphertext \<Rightarrow> bool res" where
  "ct_isBufferValid c =
     rbind (poly_words (ct_size c) (ct_coeff_modulus_size c) (ct_poly_modulus_degree c)) (\<lambda>n. Inr (hd_size (ct_data c) = n))"

text \<open>All words of \<open>count\<close> polynomials of so many coefficients are below their moduli.\<close>

definition words_below :: "u64 list \<Rightarrow> nat \<Rightarrow> nat \<Rightarrow> Modulus list \<Rightarrow> bool" where
  "words_below data count n ms =
     list_all (\<lambda>i. list_all (\<lambda>j. list_all (\<lambda>x. x < modulus_value (ms ! j)) (take n (drop ((i * length ms + j) * n) data)))
       [0..<length ms]) [0..<count]"

definition ct_isDataValidFor :: "Ciphertext \<Rightarrow> SEALContext \<Rightarrow> bool" where
  "ct_isDataValidFor c context =
     (ct_isMetadataValidFor c context False \<and>
      (case getContextData context (ct_parms_id c) of
         None \<Rightarrow> False
       | Some cd \<Rightarrow> words_below (hd_internal (ct_data c)) (ct_size c) (ct_poly_modulus_degree c) (ep_coeff_modulus (cd_parms cd))))"

definition ct_isValidFor :: "Ciphertext \<Rightarrow> SEALContext \<Rightarrow> bool res" where
  "ct_isValidFor c context = rbind (ct_isBufferValid c) (\<lambda>ok. Inr (ok \<and> ct_isDataValidFor c context))"

definition secret_isMetadataValidFor :: "SecretKey \<Rightarrow> SEALContext \<Rightarrow> bool res" where
  "secret_isMetadataValidFor k context =
     rbind (plain_isMetadataValidFor k context True) (\<lambda>ok. Inr (ok \<and> pt_parms_id k = ctx_key_parms_id context))"

definition secret_isDataValidFor :: "SecretKey \<Rightarrow> SEALContext \<Rightarrow> bool res" where
  "secret_isDataValidFor k context =
     rbind (secret_isMetadataValidFor k context) (\<lambda>ok.
       Inr (ok \<and> (case keyContextData context of
                     None \<Rightarrow> False
                   | Some cd \<Rightarrow> words_below (hd_internal (pt_data k)) 1 (unat (ep_poly_modulus_degree (cd_parms cd)))
                       (ep_coeff_modulus (cd_parms cd)))))"

definition secret_isValidFor :: "SecretKey \<Rightarrow> SEALContext \<Rightarrow> bool res" where
  "secret_isValidFor k context = (if \<not> plain_isBufferValid k then Inr False else secret_isDataValidFor k context)"

definition public_isMetadataValidFor :: "PublicKey \<Rightarrow> SEALContext \<Rightarrow> bool" where
  "public_isMetadataValidFor k context =
     (ct_isMetadataValidFor k context True \<and> ct_is_ntt_form k \<and> ct_parms_id k = ctx_key_parms_id context \<and>
      ct_size k = SEAL_CIPHERTEXT_SIZE_MIN)"

definition public_isDataValidFor :: "PublicKey \<Rightarrow> SEALContext \<Rightarrow> bool" where
  "public_isDataValidFor k context =
     (public_isMetadataValidFor k context \<and>
      (case keyContextData context of
         None \<Rightarrow> False
       | Some cd \<Rightarrow> words_below (hd_internal (ct_data k)) (ct_size k) (ct_poly_modulus_degree k) (ep_coeff_modulus (cd_parms cd))))"

definition public_isValidFor :: "PublicKey \<Rightarrow> SEALContext \<Rightarrow> bool res" where
  "public_isValidFor k context = rbind (ct_isBufferValid k) (\<lambda>ok. Inr (ok \<and> public_isDataValidFor k context))"

definition kswitch_isMetadataValidFor :: "KSwitchKeys \<Rightarrow> SEALContext \<Rightarrow> bool" where
  "kswitch_isMetadataValidFor k context =
     (case firstContextData context of
        None \<Rightarrow> False
      | Some first \<Rightarrow>
          context_parametersSet context \<and> ks_parms_id k = ctx_key_parms_id context \<and>
          list_all (\<lambda>a. (a = [] \<or> length a = length (ep_coeff_modulus (cd_parms first))) \<and>
            list_all (\<lambda>b. public_isMetadataValidFor b context) a) (ks_keys k))"

definition kswitch_isDataValidFor :: "KSwitchKeys \<Rightarrow> SEALContext \<Rightarrow> bool" where
  "kswitch_isDataValidFor k context =
     (context_parametersSet context \<and> ks_parms_id k = ctx_key_parms_id context \<and>
      list_all (list_all (\<lambda>b. public_isDataValidFor b context)) (ks_keys k))"

fun all_buffers_valid :: "PublicKey list \<Rightarrow> bool res" where
  "all_buffers_valid [] = Inr True"
| "all_buffers_valid (b # bs) = rbind (ct_isBufferValid b) (\<lambda>ok. if ok then all_buffers_valid bs else Inr False)"

definition kswitch_isBufferValid :: "KSwitchKeys \<Rightarrow> bool res" where
  "kswitch_isBufferValid k = all_buffers_valid (concat (ks_keys k))"

definition kswitch_isValidFor :: "KSwitchKeys \<Rightarrow> SEALContext \<Rightarrow> bool res" where
  "kswitch_isValidFor k context = rbind (kswitch_isBufferValid k) (\<lambda>ok. Inr (ok \<and> kswitch_isDataValidFor k context))"

definition relin_isMetadataValidFor :: "KSwitchKeys \<Rightarrow> SEALContext \<Rightarrow> bool" where
  "relin_isMetadataValidFor k context =
     (let size_check = ks_size k = 0 \<or>
            (ks_size k \<le> SEAL_CIPHERTEXT_SIZE_MAX - 2 \<and> ks_size k \<ge> SEAL_CIPHERTEXT_SIZE_MIN - 2)
      in kswitch_isMetadataValidFor k context \<and> size_check)"

text \<open>The size of Galois keys is compared with the degree of the keys, a null dereference in a context without them.\<close>

definition galois_isMetadataValidFor :: "KSwitchKeys \<Rightarrow> SEALContext \<Rightarrow> bool option" where
  "galois_isMetadataValidFor k context =
     (let metadata_check = kswitch_isMetadataValidFor k context
      in if ks_size k = 0 then Some metadata_check
         else map_option (\<lambda>cd. metadata_check \<and> ks_size k \<le> unat (ep_poly_modulus_degree (cd_parms cd))) (keyContextData context))"

section \<open>Sizes\<close>

lemma mul_safe_fits:
  assumes "0 \<le> a" "a < 2 ^ 64" "0 \<le> b" "b < 2 ^ 64" "a * b < 2 ^ 64"
  shows "mul_safe uint64_t a b = Inr (a * b)"
  by (rule mul_safe_unsigned [THEN iffD2]) (use assms in \<open>simp_all add: wf_ctype_def in_type_def type_min_def type_max_def\<close>)

lemma poly_words_ok:
  assumes "count \<le> 1024" "degree \<le> 131072" "moduli \<le> 131072" "degree * moduli \<le> 8388608"
  shows "poly_words count degree moduli = Inr (count * (degree * moduli))"
proof -
  let ?n = "int degree * int moduli"
  have n: "?n \<le> 8388608" "0 \<le> ?n" using assms(4) by (simp_all only: of_nat_mult [symmetric] of_nat_le_iff of_nat_0_le_iff)
  have c: "int count * ?n \<le> 1024 * 8388608" by (rule mult_mono) (use n assms(1) in simp_all)
  have "mul_safe uint64_t (int degree) (int moduli) = Inr ?n" using assms(2,3) n by (intro mul_safe_fits) simp_all
  moreover have "mul_safe uint64_t (int count) ?n = Inr (int count * ?n)" using assms(1) n c by (intro mul_safe_fits) simp_all
  moreover have "nat (int count * ?n) = count * (degree * moduli)" by (simp only: of_nat_mult [symmetric] nat_int)
  ultimately show ?thesis by (simp add: poly_words_def)
qed

text \<open>A ciphertext whose polynomials are the residues of \<open>X 0\<close>, \<open>X 1\<close> and so on, in the form that its flag says.\<close>

definition ct_sized :: "nat \<Rightarrow> Modulus list \<Rightarrow> Ciphertext \<Rightarrow> bool" where
  "ct_sized n ms c \<longleftrightarrow> ct_poly_modulus_degree c = n \<and> ct_coeff_modulus_size c = length ms \<and>
     hd_size (ct_data c) = ct_size c * (n * length ms) \<and> hd_size (ct_data c) \<le> hd_capacity (ct_data c)"

definition ct_poly :: "nat \<Rightarrow> Modulus list \<Rightarrow> Ciphertext \<Rightarrow> nat \<Rightarrow> u64 list" where
  "ct_poly n ms c i = drop (n * length ms * i) (hd_internal (ct_data c))"

definition ct_holds :: "nat \<Rightarrow> (nat \<Rightarrow> int) \<Rightarrow> Modulus list \<Rightarrow> (nat \<Rightarrow> nat \<Rightarrow> int) \<Rightarrow> Ciphertext \<Rightarrow> bool" where
  "ct_holds p \<psi> ms X c \<longleftrightarrow> ct_sized (2 ^ p) ms c \<and>
     (\<forall>i<ct_size c. rns_vals (ct_is_ntt_form c) p \<psi> ms (X i) (ct_poly (2 ^ p) ms c i))"

lemma ct_data_at_value:
  assumes c: "ct_sized n ms c" and n: "0 < n" "n \<le> 131072" and ms: "ms \<noteq> []" "length ms \<le> 64" and i: "i < ct_size c" "i \<le> 1024"
  shows "ct_data_at c i = Inr (Some (n * length ms * i))"
proof -
  let ?m = "int n * int (length ms)"
  have "n * length ms \<le> 131072 * 64" using n(2) ms(2) by (rule mult_mono) simp_all
  then have m: "?m \<le> 8388608" by (simp only: of_nat_mult [symmetric] of_nat_le_iff)
  have m0: "0 < ?m" using n(1) ms(1) by simp
  have im: "int i * ?m \<le> 1024 * 8388608" by (rule mult_mono) (use m m0 i in simp_all)
  have e1: "mul_safe uint64_t (int n) (int (length ms)) = Inr ?m" using n ms m m0 by (intro mul_safe_fits) simp_all
  have e2: "mul_safe uint64_t (int i) ?m = Inr (int i * ?m)" using i m m0 im by (intro mul_safe_fits) simp_all
  have r: "in_type uint64_t (int i * ?m)" using im m0 by (simp add: in_type_def type_min_def type_max_def)
  then have e3: "safe_cast uint64_t uint64_t (int i * ?m) = Inr (int i * ?m)"
    by (simp add: safe_cast_def fitsIn_def static_cast_id)
  have "nat (int i * ?m) = n * length ms * i" by (simp only: of_nat_mult [symmetric] nat_int mult_ac)
  then show ?thesis using c i(1) n(1) ms(1) e1 e2 e3 by (simp add: ct_data_at_def ct_sized_def)
qed

end
