(* ===== verification/Context_Chain.thy ===== *)
theory Context_Chain
  imports Context_Valid
begin

text \<open>
  The chain of contexts that the constructor of \<open>SEALContext\<close> makes (\<open>context.cpp\<close> in
  \<open>heu/library/algorithms/seal_gpu/\<close>): one level for each prefix of the list of coefficient moduli, from the parameters
  of the keys down to the last valid ones.
\<close>

section \<open>The levels\<close>

text \<open>The parameters with the first \<open>k\<close> coefficient moduli, and their identifier.\<close>

definition level_id :: "EncryptionParameters \<Rightarrow> nat \<Rightarrow> ParmsID" where
  "level_id E k = parms_digest (E\<lparr>ep_coeff_modulus := take k (ep_coeff_modulus E)\<rparr>)"

definition level :: "EncryptionParameters \<Rightarrow> nat \<Rightarrow> EncryptionParameters" where
  "level E k = E\<lparr>ep_coeff_modulus := take k (ep_coeff_modulus E), ep_parms_id := level_id E k\<rparr>"

text \<open>
  Distinct identifiers: no two levels have the same digest, and none has the digest that stands for plaintexts. A
  collision of the hash function would break the chain.
\<close>

definition distinct_ids :: "EncryptionParameters \<Rightarrow> bool" where
  "distinct_ids E \<longleftrightarrow> inj_on (level_id E) {1..length (ep_coeff_modulus E)} \<and>
     (\<forall>k\<in>{1..<length (ep_coeff_modulus E)}. level_id E k \<noteq> parmsIDZero)"

text \<open>Parameters as the class makes them: the identifier is up to date, and the moduli are those of the constructor.\<close>

definition context_parms :: "EncryptionParameters \<Rightarrow> bool" where
  "context_parms E \<longleftrightarrow> parms_shape E \<and> ep_parms_id E = parms_digest E \<and> length (ep_coeff_modulus E) \<le> 64 \<and>
     (\<forall>m\<in>set (ep_coeff_modulus E). wf_modulus m) \<and>
     (modulus_isZero (ep_plain_modulus E) \<or> wf_modulus (ep_plain_modulus E))"

text \<open>A level in the chain that goes down to \<open>lo\<close>: its parameters, its validation and its links.\<close>

definition chain_node :: "SecurityLevel \<Rightarrow> EncryptionParameters \<Rightarrow> nat \<Rightarrow> nat \<Rightarrow> ContextData \<Rightarrow> bool" where
  "chain_node sec E lo k cd \<longleftrightarrow> cd_parms cd = level E k \<and>
     (parametersSet (cd_qualifiers cd) \<longrightarrow> valid_context sec cd) \<and>
     (k < length (ep_coeff_modulus E) \<longrightarrow> parametersSet (cd_qualifiers cd)) \<and>
     cd_next_context_data cd = (if lo < k then Some (level_id E (k - 1)) else None) \<and>
     cd_prev_context_data cd = (if k < length (ep_coeff_modulus E) then Some (level_id E (k + 1)) else None)"

definition chain_map :: "SecurityLevel \<Rightarrow> EncryptionParameters \<Rightarrow> nat \<Rightarrow> (ParmsID \<times> ContextData) list \<Rightarrow> bool" where
  "chain_map sec E lo m \<longleftrightarrow>
     (\<forall>k\<in>{lo..length (ep_coeff_modulus E)}. \<exists>cd. map_of m (level_id E k) = Some cd \<and> chain_node sec E lo k cd) \<and>
     (\<forall>x. map_of m x \<noteq> None \<longrightarrow> (\<exists>k\<in>{lo..length (ep_coeff_modulus E)}. x = level_id E k)) \<and>
     length m = length (ep_coeff_modulus E) - lo + 1"

section \<open>The links of a validated context\<close>

definition links :: "ContextData \<Rightarrow> ParmsID option \<times> ParmsID option \<times> u64" where
  "links cd = (cd_next_context_data cd, cd_prev_context_data cd, cd_chain_index cd)"

lemma links_with_error [simp]: "links (with_error e cd) = links cd"
  by (simp add: links_def with_error_def)

lemma plain_constants_links: "plain_constants ms tm b cd = Some (Inr cd') \<Longrightarrow> links cd' = links cd"
  by (auto simp: plain_constants_def Let_def links_def rbind_Inr_iff split: option.splits sum.splits)

lemma validate_plain_links: "validate_plain D p b cd = Some (Inr (ok, cd')) \<Longrightarrow> links cd' = links cd"
  by (auto simp: validate_plain_def Let_def rbind_Inr_iff links_def [of "_\<lparr>cd_plain_ntt_tables := _, cd_qualifiers := _\<rparr>"]
      dest!: plain_constants_links split: if_splits sum.splits exn.splits) (simp_all add: links_def)

lemma validate_ckks_links: "validate_ckks cd = Inr (ok, cd') \<Longrightarrow> links cd' = links cd"
  by (auto simp: validate_ckks_def Let_def rbind_Inr_iff split: if_splits) (simp add: links_def)

lemma validate_scheme_links: "validate_scheme D p b cd = Some (Inr (ok, cd')) \<Longrightarrow> links cd' = links cd"
  using validate_plain_links validate_ckks_links by (auto simp: validate_scheme_def split: SchemeType.splits)

lemma validate_tools_links: "validate_tools D p b cd = Some (Inr cd') \<Longrightarrow> links cd' = links cd"
  by (auto simp: validate_tools_def Let_def rbind_Inr_iff links_def with_error_def split: option.splits sum.splits)

lemma validate_bases_links:
  assumes "validate_bases D p cd = Some (Inr cd')"
  shows "links cd' = links cd"
proof -
  have q: "links (cd\<lparr>cd_qualifiers := q\<rparr>) = links cd" "links (cd\<lparr>cd_small_ntt_tables := ts, cd_qualifiers := q\<rparr>) = links cd" for q ts
    by (simp_all add: links_def)
  show ?thesis
    using assms
    by (auto simp: validate_bases_def Let_def q split: sum.splits exn.splits option.splits bool.splits prod.splits
        dest!: validate_scheme_links validate_tools_links)
qed

lemma validate_links: "validate D sec parms = Some (Inr cd) \<Longrightarrow> links cd = (None, None, 0)"
proof -
  have n: "links (new_ContextData parms) = (None, None, 0)" by (simp add: links_def new_ContextData_def)
  have u: "links (cd\<lparr>cd_total_coeff_modulus := a, cd_total_coeff_modulus_bit_count := b\<rparr>) = links cd"
      "links (cd\<lparr>cd_qualifiers := q\<rparr>) = links cd" for cd :: ContextData and a b q
    by (simp_all add: links_def)
  assume "validate D sec parms = Some (Inr cd)"
  then show ?thesis
    by (auto simp: validate_def Let_def u n split: if_splits sum.splits dest!: validate_bases_links)
qed

section \<open>One step\<close>

lemma level_sel [simp]:
  "ep_coeff_modulus (level E k) = take k (ep_coeff_modulus E)" "ep_parms_id (level E k) = level_id E k"
  "ep_scheme (level E k) = ep_scheme E" "ep_plain_modulus (level E k) = ep_plain_modulus E"
  by (simp_all add: level_def)

lemma level_shape: "parms_shape E \<Longrightarrow> parms_shape (level E k)"
  by (simp add: parms_shape_def level_id_def)

lemma level_step:
  assumes E: "context_parms E" and s: "ep_scheme E \<noteq> scheme_none" and k: "2 \<le> k" "k \<le> length (ep_coeff_modulus E)"
    and z: "level_id E (k - 1) \<noteq> parmsIDZero"
  shows "setCoeffModulus S0 (butlast (ep_coeff_modulus (level E k))) (level E k) = Inr (level E (k - 1))"
proof -
  have b: "butlast (take k (ep_coeff_modulus E)) = take (k - 1) (ep_coeff_modulus E)" using k(2) by (simp add: butlast_take)
  let ?L = "(level E k)\<lparr>ep_coeff_modulus := take (k - 1) (ep_coeff_modulus E)\<rparr>"
  have shape: "parms_shape ?L" using level_shape [of E k] E by (simp add: context_parms_def)
  have d: "parms_digest ?L = level_id E (k - 1)" by (simp add: parms_digest_def level_id_def level_def)
  have "computeParmsID S0 ?L = Inr (?L\<lparr>ep_parms_id := level_id E (k - 1)\<rparr>)"
    unfolding computeParmsID_eq [OF shape] d using z by simp
  moreover have "?L\<lparr>ep_parms_id := level_id E (k - 1)\<rparr> = level E (k - 1)" by (simp add: level_def)
  moreover have "1 \<le> k - 1" "k - 1 \<le> 64" using k E unfolding context_parms_def by linarith+
  ultimately show ?thesis
    using s k unfolding level_sel b by (simp add: setCoeffModulus_def SEAL_COEFF_MOD_COUNT_MAX_def SEAL_COEFF_MOD_COUNT_MIN_def)
qed

lemma level_validated:
  assumes E: "context_parms E"
  obtains cd where "validate D sec (level E k) = Some (Inr cd)" "cd_parms cd = level E k" "links cd = (None, None, 0)"
    "parametersSet (cd_qualifiers cd) \<longrightarrow> valid_context sec cd \<and> ep_scheme E \<noteq> scheme_none"
proof -
  have "\<forall>m\<in>set (ep_coeff_modulus (level E k)). wf_modulus m" using E by (auto simp: context_parms_def dest: in_set_takeD)
  moreover have "modulus_isZero (ep_plain_modulus (level E k)) \<or> wf_modulus (ep_plain_modulus (level E k))"
    using E by (simp add: context_parms_def)
  ultimately have "report_of D sec (level E k) (validate D sec (level E k))" by (rule validate_report)
  then obtain cd where cd: "validate D sec (level E k) = Some (Inr cd)" "validation_report D sec (level E k) cd"
    by (auto simp: report_of_def split: option.splits sum.splits)
  have p: "cd_parms cd = level E k" using cd(2) by (simp add: validation_report_def)
  have "valid_context sec cd \<and> ep_scheme E \<noteq> scheme_none" if "parametersSet (cd_qualifiers cd)"
  proof -
    have v: "valid_context sec cd" using cd(2) that by (simp add: validation_report_def parametersSet_def)
    moreover have "ep_scheme (cd_parms cd) \<noteq> scheme_none"
      using v by (auto simp: valid_context_def Let_def split: if_splits)
    ultimately show ?thesis unfolding p by simp
  qed
  then show ?thesis using that [OF cd(1) p validate_links [OF cd(1)]] by blast
qed

lemma map_of_change: "map_of (change k f m) x = (if x = k then map_option f (map_of m x) else map_of m x)"
  by (induction m) (auto simp: change_def)

lemma length_change [simp]: "length (change k f m) = length m"
  by (simp add: change_def)

lemma valid_parts_links:
  "valid_plain p b (cd\<lparr>cd_next_context_data := x\<rparr>) = valid_plain p b cd" "valid_ckks b (cd\<lparr>cd_next_context_data := x\<rparr>) = valid_ckks b cd"
  "valid_plain p b (cd\<lparr>cd_prev_context_data := x\<rparr>) = valid_plain p b cd" "valid_ckks b (cd\<lparr>cd_prev_context_data := x\<rparr>) = valid_ckks b cd"
  "valid_plain p b (cd\<lparr>cd_chain_index := i\<rparr>) = valid_plain p b cd" "valid_ckks b (cd\<lparr>cd_chain_index := i\<rparr>) = valid_ckks b cd"
  by (simp_all add: valid_plain_def valid_ckks_def wf_scaling_def wf_lift_def)

lemma valid_context_links [simp]:
  "valid_context sec (cd\<lparr>cd_next_context_data := x\<rparr>) = valid_context sec cd"
  "valid_context sec (cd\<lparr>cd_prev_context_data := x\<rparr>) = valid_context sec cd"
  "valid_context sec (cd\<lparr>cd_chain_index := i\<rparr>) = valid_context sec cd"
  by (simp_all add: valid_context_def valid_parts_links)

lemma level_id_eq_iff:
  "distinct_ids E \<Longrightarrow> 1 \<le> j \<Longrightarrow> j \<le> length (ep_coeff_modulus E) \<Longrightarrow> 1 \<le> k \<Longrightarrow> k \<le> length (ep_coeff_modulus E) \<Longrightarrow>
    level_id E j = level_id E k \<longleftrightarrow> j = k"
  by (auto simp: distinct_ids_def inj_on_def)

lemma chain_map_step:
  assumes d: "distinct_ids E" and lo: "2 \<le> lo" "lo \<le> length (ep_coeff_modulus E)" and m: "chain_map sec E lo m"
    and cd: "cd_parms cd = level E (lo - 1)" "links cd = (None, None, 0)" "parametersSet (cd_qualifiers cd)" "valid_context sec cd"
  shows "chain_map sec E (lo - 1)
    (change (level_id E (lo - 1)) (\<lambda>cd. cd\<lparr>cd_prev_context_data := Some (level_id E lo)\<rparr>)
      (change (level_id E lo) (\<lambda>cd. cd\<lparr>cd_next_context_data := Some (level_id E (lo - 1))\<rparr>)
        (emplace (level_id E (lo - 1)) cd m)))" (is "chain_map sec E (lo - 1) ?m")
proof -
  let ?n = "length (ep_coeff_modulus E)" and ?i = "level_id E (lo - 1)"
  note eq = level_id_eq_iff [OF d]
  have l: "1 \<le> lo - 1" "lo - 1 \<le> ?n" "1 \<le> lo" using lo by linarith+
  have ne: "level_id E k \<noteq> ?i" if "lo \<le> k" "k \<le> ?n" for k
  proof -
    have "k \<noteq> lo - 1" "1 \<le> k" using that lo by linarith+
    then show ?thesis using eq [OF _ that(2) l(1,2)] by blast
  qed
  have new: "map_of m ?i = None"
  proof (rule ccontr)
    assume "map_of m ?i \<noteq> None"
    then obtain k where "k \<in> {lo..?n}" "?i = level_id E k" using m unfolding chain_map_def by blast
    then show False using ne [of k] by simp
  qed
  have map: "map_of ?m x = (if x = ?i then Some (cd\<lparr>cd_prev_context_data := Some (level_id E lo)\<rparr>)
      else if x = level_id E lo then map_option (\<lambda>cd. cd\<lparr>cd_next_context_data := Some ?i\<rparr>) (map_of m x) else map_of m x)" for x
    using new ne [OF order_refl lo(2)] by (auto simp: map_of_change emplace_def map_add_def split: option.splits)
  have node: "\<exists>cd. map_of ?m (level_id E k) = Some cd \<and> chain_node sec E (lo - 1) k cd" if k: "k \<in> {lo - 1..?n}" for k
  proof (cases "k = lo - 1")
    case True
    then show ?thesis using cd lo unfolding map by (auto simp: chain_node_def links_def)
  next
    case False
    then have k': "k \<in> {lo..?n}" using k by auto
    then obtain ck where ck: "map_of m (level_id E k) = Some ck" "chain_node sec E lo k ck" using m unfolding chain_map_def by blast
    have "level_id E k \<noteq> ?i" using ne [of k] k' by simp
    moreover have "level_id E k = level_id E lo \<longleftrightarrow> k = lo" using eq [of k lo] k' l by simp
    ultimately show ?thesis using ck lo k' unfolding map by (auto simp: chain_node_def)
  qed
  have dom: "\<exists>k\<in>{lo - 1..?n}. x = level_id E k" if "map_of ?m x \<noteq> None" for x
  proof (cases "x = ?i")
    case False
    then have "map_of m x \<noteq> None" using that unfolding map by (auto split: if_splits)
    then show ?thesis using m lo unfolding chain_map_def by fastforce
  qed (use lo in auto)
  have "length ?m = ?n - (lo - 1) + 1" using m new lo by (simp add: chain_map_def emplace_def)
  then show ?thesis unfolding chain_map_def using node dom by blast
qed

lemma createNextContextData_value:
  assumes E: "context_parms E" "distinct_ids E" "ep_scheme E \<noteq> scheme_none" and lo: "2 \<le> lo" "lo \<le> length (ep_coeff_modulus E)"
    and c: "chain_map sec E lo (ctx_context_data_map c)" "ctx_sec_level c = sec"
  shows "\<exists>cd. validate (D (lo - 1)) sec (level E (lo - 1)) = Some (Inr cd) \<and>
    (if parametersSet (cd_qualifiers cd)
     then \<exists>m. createNextContextData S0 D c (level_id E lo) = Some (Inr (level_id E (lo - 1), c\<lparr>ctx_context_data_map := m\<rparr>)) \<and>
       chain_map sec E (lo - 1) m
     else createNextContextData S0 D c (level_id E lo) = Some (Inr (parmsIDZero, c)))"
proof -
  obtain cl where cl: "map_of (ctx_context_data_map c) (level_id E lo) = Some cl" "cd_parms cl = level E lo"
  proof -
    have "lo \<in> {lo..length (ep_coeff_modulus E)}" using lo by simp
    then obtain cl where "map_of (ctx_context_data_map c) (level_id E lo) = Some cl" "chain_node sec E lo lo cl"
      using c(1) unfolding chain_map_def by blast
    then show ?thesis using that by (simp add: chain_node_def)
  qed
  have "lo - 1 \<in> {1..<length (ep_coeff_modulus E)}" using lo by simp linarith
  then have z: "level_id E (lo - 1) \<noteq> parmsIDZero" using E(2) unfolding distinct_ids_def by blast
  note step = level_step [OF E(1,3) lo z]
  have len: "length (butlast (ep_coeff_modulus (level E lo))) = lo - 1" using lo by simp
  obtain cd where cd: "validate (D (lo - 1)) sec (level E (lo - 1)) = Some (Inr cd)" "cd_parms cd = level E (lo - 1)"
      "links cd = (None, None, 0)" "parametersSet (cd_qualifiers cd) \<longrightarrow> valid_context sec cd \<and> ep_scheme E \<noteq> scheme_none"
    using level_validated [OF E(1)] by blast
  note next' = createNextContextData_def [of S0 D c "level_id E lo", unfolded cl(1) option.case cl(2) Let_def step sum.case len c(2) cd(1) level_sel(2)]
  show ?thesis
  proof (cases "parametersSet (cd_qualifiers cd)")
    case True
    then have "chain_map sec E (lo - 1) (change (level_id E (lo - 1)) (\<lambda>cd. cd\<lparr>cd_prev_context_data := Some (level_id E lo)\<rparr>)
      (change (level_id E lo) (\<lambda>cd. cd\<lparr>cd_next_context_data := Some (level_id E (lo - 1))\<rparr>)
        (emplace (level_id E (lo - 1)) cd (ctx_context_data_map c))))"
      using cd by (intro chain_map_step [OF E(2) lo c(1)]) simp_all
    then show ?thesis using cd(1) True next' by auto
  next
    case False
    then show ?thesis using cd(1) next' by auto
  qed
qed

section \<open>The expansion\<close>

text \<open>The next level down does not exist, or it was validated and refused.\<close>

definition refused :: "(nat \<Rightarrow> draws) \<Rightarrow> SecurityLevel \<Rightarrow> EncryptionParameters \<Rightarrow> nat \<Rightarrow> bool" where
  "refused D sec E lo \<longleftrightarrow> lo \<le> 1 \<or>
     (\<exists>cd. validate (D (lo - 1)) sec (level E (lo - 1)) = Some (Inr cd) \<and> \<not> parametersSet (cd_qualifiers cd))"

lemma chain_mapD:
  assumes "chain_map sec E lo m" "lo \<le> k" "k \<le> length (ep_coeff_modulus E)"
  obtains cd where "map_of m (level_id E k) = Some cd" "chain_node sec E lo k cd"
  using assms unfolding chain_map_def by (meson atLeastAtMost_iff)

lemma expand_chain_value:
  assumes E: "context_parms E" "distinct_ids E" "ep_scheme E \<noteq> scheme_none"
  shows "lo \<le> length (ep_coeff_modulus E) \<Longrightarrow> chain_map sec E lo (ctx_context_data_map c) \<Longrightarrow> ctx_sec_level c = sec \<Longrightarrow>
    \<exists>lo' m. expand_chain S0 D (level_id E lo) c = Some (Inr (c\<lparr>ctx_last_parms_id := (if lo' < lo then level_id E lo' else ctx_last_parms_id c),
        ctx_context_data_map := m\<rparr>)) \<and> lo' \<le> lo \<and> (1 \<le> lo \<longrightarrow> 1 \<le> lo') \<and> chain_map sec E lo' m \<and> refused D sec E lo'"
proof (induction lo arbitrary: c)
  case 0
  obtain cl where cl: "map_of (ctx_context_data_map c) (level_id E 0) = Some cl" "chain_node sec E 0 0 cl"
    by (rule chain_mapD [OF 0(2) order_refl 0(1)])
  have "expand_chain S0 D (level_id E 0) c = Some (Inr c)"
    using cl by (subst expand_chain.simps) (simp add: chain_node_def)
  then show ?case using 0 by (intro exI [of _ 0] exI [of _ "ctx_context_data_map c"]) (simp add: refused_def)
next
  case (Suc k)
  obtain cl where cl: "map_of (ctx_context_data_map c) (level_id E (Suc k)) = Some cl" "chain_node sec E (Suc k) (Suc k) cl"
    by (rule chain_mapD [OF Suc.prems(2) order_refl Suc.prems(1)])
  have len: "length (ep_coeff_modulus (cd_parms cl)) = Suc k" using cl(2) Suc.prems(1) by (simp add: chain_node_def)
  have stop: ?case if "expand_chain S0 D (level_id E (Suc k)) c = Some (Inr c)" "refused D sec E (Suc k)"
    using that Suc.prems by (intro exI [of _ "Suc k"] exI [of _ "ctx_context_data_map c"]) simp
  show ?case
  proof (cases "k = 0")
    case True
    then have "expand_chain S0 D (level_id E (Suc k)) c = Some (Inr c)"
      using cl len by (subst expand_chain.simps) simp
    then show ?thesis using True by (intro stop) (simp_all add: refused_def)
  next
    case False
    then have k: "2 \<le> Suc k" "1 \<le> k" "Suc k - 1 = k" by linarith+
    have "k \<in> {1..<length (ep_coeff_modulus E)}" using k Suc.prems(1) by simp
    then have z: "level_id E k \<noteq> parmsIDZero" using E(2) unfolding distinct_ids_def by blast
    obtain cd where cd: "validate (D k) sec (level E k) = Some (Inr cd)"
      "if parametersSet (cd_qualifiers cd)
       then \<exists>m. createNextContextData S0 D c (level_id E (Suc k)) = Some (Inr (level_id E k, c\<lparr>ctx_context_data_map := m\<rparr>)) \<and>
         chain_map sec E k m
       else createNextContextData S0 D c (level_id E (Suc k)) = Some (Inr (parmsIDZero, c))"
      using createNextContextData_value [OF E k(1) Suc.prems(1-3), of D S0] unfolding k(3) by blast
    have gt: "length (ep_coeff_modulus (cd_parms cl)) > 1" using len k by linarith
    note exp = expand_chain.simps [of S0 D "level_id E (Suc k)" c, unfolded cl(1) option.case if_P [OF gt]]
    show ?thesis
    proof (cases "parametersSet (cd_qualifiers cd)")
      case False
      then have "expand_chain S0 D (level_id E (Suc k)) c = Some (Inr c)" using cd(2) unfolding exp by simp
      then show ?thesis using False cd(1) by (intro stop) (auto simp: refused_def)
    next
      case True
      then obtain m where m: "createNextContextData S0 D c (level_id E (Suc k)) = Some (Inr (level_id E k, c\<lparr>ctx_context_data_map := m\<rparr>))"
          "chain_map sec E k m"
        using cd(2) by auto
      let ?c = "c\<lparr>ctx_context_data_map := m, ctx_last_parms_id := level_id E k\<rparr>"
      have e: "expand_chain S0 D (level_id E (Suc k)) c = expand_chain S0 D (level_id E k) ?c"
        unfolding exp m(1) using z by simp
      obtain lo' m' where IH: "expand_chain S0 D (level_id E k) ?c = Some (Inr (?c\<lparr>ctx_last_parms_id :=
          (if lo' < k then level_id E lo' else ctx_last_parms_id ?c), ctx_context_data_map := m'\<rparr>))"
          "lo' \<le> k" "1 \<le> lo'" "chain_map sec E lo' m'" "refused D sec E lo'"
        using Suc.IH [of ?c] m(2) k(2) Suc.prems(1,3) by auto
      have "(if lo' < k then level_id E lo' else level_id E k) = level_id E lo'" using IH(2) by auto
      then show ?thesis using IH unfolding e by (intro exI [of _ lo'] exI [of _ m']) simp
    qed
  qed
qed

section \<open>The indices\<close>

lemma chain_map_index:
  assumes "chain_map sec E lo m"
  shows "chain_map sec E lo (change x (\<lambda>cd. cd\<lparr>cd_chain_index := i\<rparr>) m)"
proof -
  let ?m = "change x (\<lambda>cd. cd\<lparr>cd_chain_index := i\<rparr>) m"
  have "chain_node sec E lo k (cd\<lparr>cd_chain_index := i\<rparr>) = chain_node sec E lo k cd" for k cd by (simp add: chain_node_def)
  then have "\<exists>cd. map_of ?m (level_id E k) = Some cd \<and> chain_node sec E lo k cd" if "k \<in> {lo..length (ep_coeff_modulus E)}" for k
    using assms that unfolding chain_map_def map_of_change by fastforce
  moreover have "\<exists>k\<in>{lo..length (ep_coeff_modulus E)}. y = level_id E k" if "map_of ?m y \<noteq> None" for y
  proof -
    have "map_of m y \<noteq> None" using that unfolding map_of_change by (auto split: if_splits)
    then show ?thesis using assms unfolding chain_map_def by blast
  qed
  moreover have "length ?m = length (ep_coeff_modulus E) - lo + 1" using assms by (simp add: chain_map_def)
  ultimately show ?thesis unfolding chain_map_def by blast
qed

definition chain_index_at :: "EncryptionParameters \<Rightarrow> (ParmsID \<times> ContextData) list \<Rightarrow> nat \<Rightarrow> u64 option" where
  "chain_index_at E m k = map_option cd_chain_index (map_of m (level_id E k))"

lemma index_chain_value:
  assumes d: "distinct_ids E"
  shows "chain_map sec E lo m \<Longrightarrow> lo + j \<le> length (ep_coeff_modulus E) \<Longrightarrow> 1 \<le> lo \<or> j = 0 \<Longrightarrow>
    \<exists>m'. index_chain (Some (level_id E (lo + j))) (of_nat (j + 1)) m = Some m' \<and> chain_map sec E lo m' \<and>
      (\<forall>i\<le>j. chain_index_at E m' (lo + i) = Some (of_nat i)) \<and>
      (\<forall>x. x \<notin> level_id E ` {lo..lo + j} \<longrightarrow> map_of m' x = map_of m x)"
proof (induction j arbitrary: m)
  case 0
  let ?m = "change (level_id E lo) (\<lambda>cd. cd\<lparr>cd_chain_index := 0\<rparr>) m"
  obtain cd where cd: "map_of m (level_id E lo) = Some cd" "chain_node sec E lo lo cd"
    by (rule chain_mapD [OF 0(1), of lo]) (use 0(2) in simp_all)
  then have "index_chain (Some (level_id E lo)) 1 m = Some ?m"
    by (subst index_chain.simps) (simp add: map_of_change chain_node_def index_chain.simps)
  then show ?case using cd chain_map_index [OF 0(1)] by (auto simp: chain_index_at_def map_of_change)
next
  case (Suc j)
  let ?k = "lo + Suc j" and ?w = "of_nat (Suc j) :: u64"
  let ?m = "change (level_id E ?k) (\<lambda>cd. cd\<lparr>cd_chain_index := ?w\<rparr>) m"
  have lo: "1 \<le> lo" using Suc.prems(3) by simp
  obtain cd where cd: "map_of m (level_id E ?k) = Some cd" "chain_node sec E lo ?k cd"
    by (rule chain_mapD [OF Suc.prems(1), of ?k]) (use Suc.prems(2) in simp_all)
  have nxt: "cd_next_context_data cd = Some (level_id E (lo + j))" using cd(2) by (simp add: chain_node_def)
  have step: "index_chain (Some (level_id E ?k)) (of_nat (Suc j + 1)) m = index_chain (Some (level_id E (lo + j))) (of_nat (j + 1)) ?m"
    using cd(1) nxt by (subst index_chain.simps) (simp add: map_of_change Let_def)
  have "lo + j \<le> length (ep_coeff_modulus E)" "1 \<le> lo \<or> j = 0" using Suc.prems(2) lo by simp_all
  from Suc.IH [OF chain_map_index [OF Suc.prems(1)] this, of "level_id E ?k" ?w] obtain m' where
    m': "index_chain (Some (level_id E (lo + j))) (of_nat (j + 1)) ?m = Some m'" "chain_map sec E lo m'"
      "\<forall>i\<le>j. chain_index_at E m' (lo + i) = Some (of_nat i)"
      "\<forall>x. x \<notin> level_id E ` {lo..lo + j} \<longrightarrow> map_of m' x = map_of ?m x" by blast
  have out: "level_id E ?k \<notin> level_id E ` {lo..lo + j}"
  proof
    assume "level_id E ?k \<in> level_id E ` {lo..lo + j}"
    then obtain i where "lo \<le> i" "i \<le> lo + j" "level_id E ?k = level_id E i" by auto
    then show False using level_id_eq_iff [OF d, of ?k i] lo Suc.prems(2) by simp
  qed
  then have top: "chain_index_at E m' ?k = Some ?w" using m'(4) cd(1) by (simp add: chain_index_at_def map_of_change)
  have "\<forall>i\<le>Suc j. chain_index_at E m' (lo + i) = Some (of_nat i)"
  proof (intro allI impI)
    fix i assume "i \<le> Suc j"
    then show "chain_index_at E m' (lo + i) = Some (of_nat i)" using m'(3) top by (cases "i = Suc j") simp_all
  qed
  moreover have "\<forall>x. x \<notin> level_id E ` {lo..?k} \<longrightarrow> map_of m' x = map_of m x"
  proof (intro allI impI)
    fix x assume "x \<notin> level_id E ` {lo..?k}"
    then have "x \<notin> level_id E ` {lo..lo + j}" "x \<noteq> level_id E ?k" by auto
    then show "map_of m' x = map_of m x" using m'(4) by (simp add: map_of_change)
  qed
  ultimately show ?case using m'(1,2) unfolding step by blast
qed

section \<open>The constructor\<close>

text \<open>
  What the constructor makes of parameters with \<open>n\<close> coefficient moduli: the levels from \<open>n\<close> down to \<open>lo\<close>, linked both
  ways, with the indices from \<open>n - lo\<close> down to zero; the keys live on the level \<open>n\<close>, the data start at the level \<open>f\<close>.
\<close>

definition context_chain :: "SecurityLevel \<Rightarrow> EncryptionParameters \<Rightarrow> nat \<Rightarrow> nat \<Rightarrow> SEALContext \<Rightarrow> bool" where
  "context_chain sec E f lo c \<longleftrightarrow>
     (let n = length (ep_coeff_modulus E) in
      lo \<le> f \<and> f \<le> n \<and> n \<le> f + 1 \<and> chain_map sec E lo (ctx_context_data_map c) \<and>
      (\<forall>k\<in>{lo..n}. chain_index_at E (ctx_context_data_map c) k = Some (of_nat (k - lo))) \<and>
      ctx_key_parms_id c = level_id E n \<and> ctx_first_parms_id c = level_id E f \<and> ctx_last_parms_id c = level_id E lo \<and>
      ctx_sec_level c = sec \<and> ctx_using_keyswitching c = (f < n))"

definition with_generator :: "EncryptionParameters \<Rightarrow> EncryptionParameters" where
  "with_generator E = (if ep_random_generator E = None then setRandomGenerator (Some DefaultFactory) E else E)"

lemma with_generator_sel [simp]:
  "ep_coeff_modulus (with_generator E) = ep_coeff_modulus E" "ep_parms_id (with_generator E) = ep_parms_id E"
  "ep_scheme (with_generator E) = ep_scheme E" "ep_plain_modulus (with_generator E) = ep_plain_modulus E"
  "parms_digest (with_generator E) = parms_digest E" "parms_shape (with_generator E) = parms_shape E"
  by (simp_all add: with_generator_def setRandomGenerator_def)

lemma wf_parms_context:
  "wf_parms E \<Longrightarrow> \<forall>m\<in>set (ep_coeff_modulus E). wf_modulus m \<Longrightarrow>
    modulus_isZero (ep_plain_modulus E) \<or> wf_modulus (ep_plain_modulus E) \<Longrightarrow> context_parms E"
  by (simp add: wf_parms_def context_parms_def SEAL_COEFF_MOD_COUNT_MAX_def)

lemma context_parms_generator: "context_parms E \<Longrightarrow> context_parms (with_generator E)"
  by (simp add: context_parms_def)

lemma level_id_generator [simp]: "level_id (with_generator E) = level_id E"
  by (rule ext) (simp add: level_id_def parms_digest_def with_generator_def setRandomGenerator_def)

lemma distinct_ids_generator: "distinct_ids E \<Longrightarrow> distinct_ids (with_generator E)"
  by (simp add: distinct_ids_def)

lemma top_level: "context_parms E \<Longrightarrow> level E (length (ep_coeff_modulus E)) = E"
  by (simp add: level_def level_id_def context_parms_def)

lemma set_indices_value:
  assumes d: "distinct_ids E" and c: "chain_map sec E lo (ctx_context_data_map c)" "lo \<le> length (ep_coeff_modulus E)"
    "1 \<le> lo \<or> lo = length (ep_coeff_modulus E)" and k: "ctx_key_parms_id c = level_id E (length (ep_coeff_modulus E))"
  shows "\<exists>m. set_indices c = Some (c\<lparr>ctx_context_data_map := m\<rparr>) \<and> chain_map sec E lo m \<and>
    (\<forall>k\<in>{lo..length (ep_coeff_modulus E)}. chain_index_at E m k = Some (of_nat (k - lo)))"
proof -
  let ?n = "length (ep_coeff_modulus E)"
  have n: "lo + (?n - lo) = ?n" using c(2) by simp
  have l: "length (ctx_context_data_map c) = ?n - lo + 1" using c(1) by (simp add: chain_map_def)
  obtain m where m: "index_chain (Some (level_id E ?n)) (of_nat (?n - lo + 1)) (ctx_context_data_map c) = Some m" "chain_map sec E lo m"
      "\<forall>i\<le>?n - lo. chain_index_at E m (lo + i) = Some (of_nat i)"
    using index_chain_value [OF d c(1), of "?n - lo"] c(3) unfolding n by auto
  have "chain_index_at E m k = Some (of_nat (k - lo))" if "k \<in> {lo..?n}" for k
  proof -
    have "k - lo \<le> ?n - lo" "lo + (k - lo) = k" using that by (auto intro: diff_le_mono)
    then show ?thesis using m(3) by metis
  qed
  then show ?thesis using m(1,2) unfolding set_indices_def k l by (intro exI [of _ m]) simp
qed

text \<open>Whether the level of the keys is valid.\<close>

definition key_valid :: "(nat \<Rightarrow> draws) \<Rightarrow> SecurityLevel \<Rightarrow> EncryptionParameters \<Rightarrow> bool" where
  "key_valid D sec E \<longleftrightarrow>
     (\<exists>cd. validate (D (length (ep_coeff_modulus E))) sec E = Some (Inr cd) \<and> parametersSet (cd_qualifiers cd))"

lemma no_moduli_refused:
  assumes "ep_coeff_modulus E = []" "validate D sec E = Some (Inr cd)"
  shows "\<not> parametersSet (cd_qualifiers cd)"
  using assms(2) by (auto simp: validate_def Let_def assms(1) SEAL_COEFF_MOD_COUNT_MIN_def with_error_def parametersSet_def split: if_splits)

lemma first_step_value:
  assumes E: "context_parms E" "distinct_ids E" and n: "n = length (ep_coeff_modulus E)"
    and cd: "validate D0 sec E = Some (Inr cd)" and c: "chain_map sec E n (ctx_context_data_map c)" "ctx_sec_level c = sec"
      "ctx_key_parms_id c = level_id E n"
  shows "\<exists>f m. first_step S0 D c cd = Some (Inr (c\<lparr>ctx_context_data_map := m, ctx_first_parms_id := level_id E f\<rparr>)) \<and>
    chain_map sec E f m \<and> f \<le> n \<and> n \<le> f + 1 \<and> (1 \<le> f \<or> f = n) \<and>
    (f < n \<longrightarrow> parametersSet (cd_qualifiers cd)) \<and>
    (f = n \<longrightarrow> m = ctx_context_data_map c \<and> (\<not> parametersSet (cd_qualifiers cd) \<or> refused D sec E n))"
proof -
  have E0: "level E n = E" unfolding n by (rule top_level [OF E(1)])
  have cdn: "cd_parms cd = E" "parametersSet (cd_qualifiers cd) \<Longrightarrow> ep_scheme E \<noteq> scheme_none"
    using level_validated [OF E(1), of D0 sec n] cd unfolding E0 by force+
  have stay: ?thesis if "first_step S0 D c cd = Some (Inr (c\<lparr>ctx_first_parms_id := ctx_key_parms_id c\<rparr>))"
    "\<not> parametersSet (cd_qualifiers cd) \<or> refused D sec E n"
    using that c by (intro exI [of _ n] exI [of _ "ctx_context_data_map c"]) simp
  show ?thesis
  proof (cases "\<not> parametersSet (cd_qualifiers cd) \<or> n = 1")
    case True
    then have "first_step S0 D c cd = Some (Inr (c\<lparr>ctx_first_parms_id := ctx_key_parms_id c\<rparr>))"
      by (simp add: first_step_def cdn(1) n)
    moreover have "\<not> parametersSet (cd_qualifiers cd) \<or> refused D sec E n" using True by (auto simp: refused_def)
    ultimately show ?thesis by (rule stay)
  next
    case False
    have "n \<noteq> 0" using no_moduli_refused [OF _ cd] False n by auto
    then have n2: "2 \<le> n" "n \<le> length (ep_coeff_modulus E)" "1 \<le> n - 1" using False n by linarith+
    have "n - 1 \<in> {1..<length (ep_coeff_modulus E)}" using n2 n by simp
    then have z: "level_id E (n - 1) \<noteq> parmsIDZero" using E(2) unfolding distinct_ids_def by blast
    have fs: "first_step S0 D c cd = map_option (\<lambda>r. rbind r (\<lambda>(next_parms_id, c). Inr (c\<lparr>ctx_first_parms_id :=
             (if next_parms_id = parmsIDZero then ctx_key_parms_id c else next_parms_id)\<rparr>)))
             (createNextContextData S0 D c (level_id E n))"
      using False n unfolding first_step_def cdn(1) c(3) by simp
    have scheme: "ep_scheme E \<noteq> scheme_none" using cdn(2) False by blast
    obtain cn where cn: "validate (D (n - 1)) sec (level E (n - 1)) = Some (Inr cn)"
      "if parametersSet (cd_qualifiers cn)
       then \<exists>m. createNextContextData S0 D c (level_id E n) = Some (Inr (level_id E (n - 1), c\<lparr>ctx_context_data_map := m\<rparr>)) \<and>
         chain_map sec E (n - 1) m
       else createNextContextData S0 D c (level_id E n) = Some (Inr (parmsIDZero, c))"
      using createNextContextData_value [OF E scheme n2(1,2) c(1,2), of D S0] by blast
    show ?thesis
    proof (cases "parametersSet (cd_qualifiers cn)")
      case True
      then obtain m where m: "createNextContextData S0 D c (level_id E n) = Some (Inr (level_id E (n - 1), c\<lparr>ctx_context_data_map := m\<rparr>))"
          "chain_map sec E (n - 1) m"
        using cn(2) by auto
      have "n - 1 \<noteq> n" using n2 by linarith
      then show ?thesis unfolding fs m(1) using m(2) z n2 False by (intro exI [of _ "n - 1"] exI [of _ m]) simp
    next
      case False
      then have "refused D sec E n" using cn(1) by (auto simp: refused_def)
      moreover have "createNextContextData S0 D c (level_id E n) = Some (Inr (parmsIDZero, c))" using cn(2) False by simp
      ultimately show ?thesis by (intro stay) (simp_all add: fs)
    qed
  qed
qed

section \<open>Properties\<close>

text \<open>
  When no two levels have the same identifier, the constructor of a context returns: it makes the chain of the levels from
  all coefficient moduli down to some number of them, one entry for each, all valid except possibly the first, linked in
  both directions, with indices that count down to zero along the chain. The data start one level below the keys unless
  the keys' level is invalid or that level is refused. With the expansion the chain ends only at one modulus or above a
  level that is refused; without it the chain ends where the data start.
\<close>

theorem context_chain_correct:
  assumes E: "context_parms E" "distinct_ids E" and n: "n = length (ep_coeff_modulus E)" and U: "U = with_generator E"
  shows "\<exists>c f lo. new_SEALContext S0 D E expand sec = Some (Inr c) \<and> context_chain sec U f lo c \<and>
    (f = n \<longrightarrow> \<not> key_valid (D 0) sec U \<or> refused (D 1) sec U n) \<and>
    (if expand \<and> key_valid (D 0) sec U then refused (D 2) sec U lo else lo = f)"
proof -
  note U' = context_parms_generator [OF E(1), folded U] distinct_ids_generator [OF E(2), folded U]
  have nU: "n = length (ep_coeff_modulus U)" unfolding n U by simp
  have top: "level U n = U" unfolding nU by (rule top_level [OF U'(1)])
  obtain cd where cd: "validate (D 0 n) sec U = Some (Inr cd)" "cd_parms cd = U" "links cd = (None, None, 0)"
      "parametersSet (cd_qualifiers cd) \<longrightarrow> valid_context sec cd \<and> ep_scheme U \<noteq> scheme_none"
    using level_validated [OF U'(1), of "D 0 n" sec n] unfolding top by blast
  have key: "key_valid (D 0) sec U = parametersSet (cd_qualifiers cd)" using cd(1) by (simp add: key_valid_def nU [symmetric])
  have id: "ep_parms_id U = level_id U n" using level_sel(2) [of U n] unfolding top by simp
  let ?c = "\<lparr>ctx_key_parms_id = level_id U n, ctx_first_parms_id = [], ctx_last_parms_id = [],
    ctx_context_data_map = [(level_id U n, cd)], ctx_sec_level = sec, ctx_using_keyswitching = False\<rparr>"
  have c: "chain_map sec U n (ctx_context_data_map ?c)"
    using cd(2-4) unfolding chain_map_def nU [symmetric] by (auto simp: chain_node_def links_def nU [symmetric] top)
  obtain f m where f: "first_step S0 (D 1) ?c cd = Some (Inr (?c\<lparr>ctx_context_data_map := m, ctx_first_parms_id := level_id U f\<rparr>))"
      "chain_map sec U f m" "f \<le> n" "n \<le> f + 1" "1 \<le> f \<or> f = n" "f < n \<longrightarrow> parametersSet (cd_qualifiers cd)"
      "f = n \<longrightarrow> m = ctx_context_data_map ?c \<and> (\<not> parametersSet (cd_qualifiers cd) \<or> refused (D 1) sec U n)"
    using first_step_value [OF U' nU cd(1) c, of S0 "D 1"] by auto
  have ks: "(level_id U f \<noteq> level_id U n) = (f < n)"
    using f(3,5) level_id_eq_iff [OF U'(2), of f n] nU by (cases "f = n") auto
  let ?d = "?c\<lparr>ctx_context_data_map := m, ctx_first_parms_id := level_id U f, ctx_last_parms_id := level_id U f,
    ctx_using_keyswitching := (f < n)\<rparr>"
  have set: "context_parametersSet ?d = parametersSet (cd_qualifiers cd)"
  proof (cases "f = n")
    case True
    then show ?thesis using f(7) by (simp add: context_parametersSet_def firstContextData_def)
  next
    case False
    obtain cf where "map_of m (level_id U f) = Some cf" "chain_node sec U f f cf"
      by (rule chain_mapD [OF f(2) order_refl]) (use f(3) nU in simp)
    then show ?thesis using False f(3,6) by (simp add: context_parametersSet_def firstContextData_def chain_node_def nU [symmetric])
  qed
  let ?x = "if expand \<and> context_parametersSet ?d then expand_chain S0 (D 2) (level_id U f) ?d else Some (Inr ?d)"
  obtain lo m' where x: "?x = Some (Inr (?d\<lparr>ctx_last_parms_id := level_id U lo, ctx_context_data_map := m'\<rparr>))"
      "lo \<le> f" "1 \<le> lo \<or> lo = n" "chain_map sec U lo m'"
      "if expand \<and> key_valid (D 0) sec U then refused (D 2) sec U lo else lo = f"
  proof (cases "expand \<and> context_parametersSet ?d")
    case True
    then have k: "key_valid (D 0) sec U" "ep_scheme U \<noteq> scheme_none" using cd(4) unfolding set key by blast+
    have n0: "1 \<le> f"
    proof (rule ccontr)
      assume "\<not> 1 \<le> f"
      then have "ep_coeff_modulus U = []" using f(5) nU by (simp add: Suc_le_eq)
      then show False using no_moduli_refused [OF _ cd(1)] True unfolding set by blast
    qed
    obtain lo m' where e: "expand_chain S0 (D 2) (level_id U f) ?d = Some (Inr (?d\<lparr>ctx_last_parms_id :=
        (if lo < f then level_id U lo else ctx_last_parms_id ?d), ctx_context_data_map := m'\<rparr>))"
        "lo \<le> f" "1 \<le> lo" "chain_map sec U lo m'" "refused (D 2) sec U lo"
      using expand_chain_value [OF U' k(2), of f sec ?d S0 "D 2"] f(2,3) n0 nU by auto
    have "(if lo < f then level_id U lo else ctx_last_parms_id ?d) = level_id U lo" using e(2) by auto
    then have "?x = Some (Inr (?d\<lparr>ctx_last_parms_id := level_id U lo, ctx_context_data_map := m'\<rparr>))"
      unfolding if_P [OF True] e(1) by simp
    then show ?thesis using e(2-5) k(1) True by (intro that [of m' lo]) simp_all
  next
    case False
    have "?x = Some (Inr (?d\<lparr>ctx_last_parms_id := level_id U f, ctx_context_data_map := m\<rparr>))"
      unfolding if_not_P [OF False] by simp
    moreover have "if expand \<and> key_valid (D 0) sec U then refused (D 2) sec U f else f = f"
      using False unfolding set key by auto
    ultimately show ?thesis using f(2,5) by (intro that [of m f] order_refl)
  qed
  let ?e = "?d\<lparr>ctx_last_parms_id := level_id U lo, ctx_context_data_map := m'\<rparr>"
  have key_id: "ctx_key_parms_id ?e = level_id U (length (ep_coeff_modulus U))" by (simp add: nU [symmetric])
  have em: "chain_map sec U lo (ctx_context_data_map ?e)" using x(4) by simp
  have le: "lo \<le> length (ep_coeff_modulus U)" and lo: "1 \<le> lo \<or> lo = length (ep_coeff_modulus U)"
    using x(2,3) f(3) unfolding nU [symmetric] by linarith+
  obtain m2 where m2: "set_indices ?e = Some (?e\<lparr>ctx_context_data_map := m2\<rparr>)" "chain_map sec U lo m2"
      "\<forall>k\<in>{lo..n}. chain_index_at U m2 k = Some (of_nat (k - lo))"
    using set_indices_value [OF U'(2) em le lo key_id] unfolding nU [symmetric] by blast
  let ?b = "?c\<lparr>ctx_context_data_map := m, ctx_first_parms_id := level_id U f\<rparr>"
  have d: "?b\<lparr>ctx_last_parms_id := ctx_first_parms_id ?b, ctx_using_keyswitching := (ctx_first_parms_id ?b \<noteq> ctx_key_parms_id ?b)\<rparr> = ?d"
    using ks by simp
  have fd: "ctx_first_parms_id ?d = level_id U f" by simp
  have "new_SEALContext S0 D E expand sec = Some (Inr (?e\<lparr>ctx_context_data_map := m2\<rparr>))"
    unfolding new_SEALContext_def with_generator_def [symmetric] U [symmetric] nU [symmetric] Let_def cd(1) option.case sum.case id f(1)
      Option.bind.bind_lunit d fd x(1) m2(1) option.map ..
  moreover have "context_chain sec U f lo (?e\<lparr>ctx_context_data_map := m2\<rparr>)"
    unfolding context_chain_def Let_def nU [symmetric] using x(2) f(3,4) m2(2,3) by simp
  ultimately show ?thesis using f(7) x(5) unfolding key by blast
qed

text \<open>One modulus: the constructor makes a chain of one level, whatever is drawn.\<close>

definition one_level :: EncryptionParameters where
  "one_level =
     (let E = (default_parameters bfv)\<lparr>ep_poly_modulus_degree := 2, ep_coeff_modulus := [modulus_97], ep_plain_modulus := modulus_17\<rparr>
      in E\<lparr>ep_parms_id := parms_digest E\<rparr>)"

theorem context_chain_correct_witness:
  "\<forall>S0 D expand sec. \<exists>c f lo. new_SEALContext S0 D one_level expand sec = Some (Inr c) \<and>
     context_chain sec (with_generator one_level) f lo c \<and>
     (f = 1 \<longrightarrow> \<not> key_valid (D 0) sec (with_generator one_level) \<or> refused (D 1) sec (with_generator one_level) 1) \<and>
     (if expand \<and> key_valid (D 0) sec (with_generator one_level) then refused (D 2) sec (with_generator one_level) lo else lo = f)"
proof (intro allI)
  fix S0 D expand sec
  have len: "length (parms_digest E) = 4" for E by (rule length_parms_digest)
  have count: "uint64Count modulus_17 = 1" by (simp add: modulus_17_def uint64Count_def)
  have "context_parms one_level" "distinct_ids one_level" "1 = length (ep_coeff_modulus one_level)"
    using wf_modulus_17 wf_modulus_97
    by (simp_all add: one_level_def Let_def context_parms_def parms_shape_def distinct_ids_def len count)
  then show "\<exists>c f lo. new_SEALContext S0 D one_level expand sec = Some (Inr c) \<and>
     context_chain sec (with_generator one_level) f lo c \<and>
     (f = 1 \<longrightarrow> \<not> key_valid (D 0) sec (with_generator one_level) \<or> refused (D 1) sec (with_generator one_level) 1) \<and>
     (if expand \<and> key_valid (D 0) sec (with_generator one_level) then refused (D 2) sec (with_generator one_level) lo else lo = f)"
    using context_chain_correct [OF _ _ _ refl, of one_level 1 S0 D expand sec] by blast
qed

end
