(* ===== verification/Decryption.thy ===== *)
theory Decryption
  imports Ciphertexts Scaling_Variant Context_Chain Rns_Forms
begin

unbundle bit_operations_syntax

text \<open>
  The class \<open>Decryptor\<close> of \<open>decryptor.h\<close> and \<open>decryptor.cpp\<close> in \<open>heu/library/algorithms/seal_gpu/\<close>. The object keeps the powers
  of the secret key that have been needed so far, in transformed form. The lock around the powers is not modelled.
\<close>

section \<open>Norms\<close>

fun noise_norm_loop :: "u64 list \<Rightarrow> nat \<Rightarrow> u64 list \<Rightarrow> u64 list \<Rightarrow> nat \<Rightarrow> nat \<Rightarrow> u64 list \<Rightarrow> u64 list" where
  "noise_norm_loop poly n modulus modulus_neg_threshold 0 i result = result"
| "noise_norm_loop poly n modulus modulus_neg_threshold (Suc k) i result =
     (let polyi = take n (drop (i * n) poly);
          coeff_abs_value = (if isGreaterThanOrEqualUint polyi modulus_neg_threshold then snd (subUint modulus polyi)
                             else setUint polyi);
          result = (if isGreaterThanUint coeff_abs_value result then setUint coeff_abs_value else result)
      in noise_norm_loop poly n modulus modulus_neg_threshold k (i + 1) result)"

definition noise_infty_norm :: "u64 list \<Rightarrow> nat \<Rightarrow> nat \<Rightarrow> u64 list \<Rightarrow> u64 list" where
  "noise_infty_norm poly coeff_uint64_count coeff_count modulus =
     noise_norm_loop poly coeff_uint64_count modulus (halfRoundUpUint modulus) coeff_count 0 (setZeroUint coeff_uint64_count)"

section \<open>The object\<close>

record Decryptor =
  dec_context :: SEALContext
  dec_secret_key_array :: "u64 list"
  dec_secret_key_array_size :: nat

definition new_Decryptor :: "SEALContext \<Rightarrow> SecretKey \<Rightarrow> Decryptor res option" where
  "new_Decryptor context secret_key =
     (if \<not> context_parametersSet context then Some (Inl (Invalid_argument ''encryption parameters are not set correctly''))
      else case secret_isValidFor secret_key context of
        Inl e \<Rightarrow> Some (Inl e)
      | Inr False \<Rightarrow> Some (Inl (Invalid_argument ''secret key is not valid for encryption parameters''))
      | Inr True \<Rightarrow>
          map_option (\<lambda>cd.
            rbind (poly_words 1 (unat (ep_poly_modulus_degree (cd_parms cd))) (length (ep_coeff_modulus (cd_parms cd)))) (\<lambda>n.
              Inr \<lparr>dec_context = context, dec_secret_key_array = take n (hd_internal (pt_data secret_key)),
                   dec_secret_key_array_size = 1\<rparr>))
            (keyContextData context))"

text \<open>The next power is the product of the last one with the first, place by place.\<close>

definition next_power :: "nat \<Rightarrow> Modulus list \<Rightarrow> nat \<Rightarrow> u64 list \<Rightarrow> u64 list" where
  "next_power n ms i a =
     on_slice (i * (n * length ms)) (n * length ms)
       (dyadicProductCoeffmod_rns (drop ((i - 1) * (n * length ms)) a) a (length ms) n ms) a"

definition computeSecretKeyArray :: "nat \<Rightarrow> Decryptor \<Rightarrow> Decryptor res option" where
  "computeSecretKeyArray max_power D =
     map_option (\<lambda>cd.
       let n = unat (ep_poly_modulus_degree (cd_parms cd)); ms = ep_coeff_modulus (cd_parms cd);
           old_size = dec_secret_key_array_size D;
           new_size = max max_power old_size
       in if old_size = new_size then Inr D
          else rbind (poly_words new_size n (length ms)) (\<lambda>len.
                 let old = take (old_size * (n * length ms)) (dec_secret_key_array D);
                     a = fold (next_power n ms) [old_size..<new_size] (old @ replicate (len - length old) 0)
                 in Inr (D\<lparr>dec_secret_key_array := a, dec_secret_key_array_size := new_size\<rparr>)))
       (keyContextData (dec_context D))"

section \<open>The phase\<close>

text \<open>The words from a polynomial of a ciphertext on, empty for a null pointer.\<close>

definition ct_from :: "Ciphertext \<Rightarrow> nat \<Rightarrow> u64 list res" where
  "ct_from c i = rbind (ct_data_at c i) (\<lambda>k. Inr (case k of None \<Rightarrow> [] | Some k \<Rightarrow> drop k (hd_internal (ct_data c))))"

text \<open>Two polynomials: modulus by modulus, in the memory of the result.\<close>

definition phase_step :: "nat \<Rightarrow> bool \<Rightarrow> Modulus list \<Rightarrow> NTTTables list \<Rightarrow> u64 list \<Rightarrow> u64 list \<Rightarrow> u64 list \<Rightarrow> nat \<Rightarrow> u64 list \<Rightarrow> u64 list" where
  "phase_step n ntt_form ms tables sk c0 c1 i r =
     (let d = i * n;
          r = (if ntt_form then dyadicProductCoeffmod (drop d c1) (drop d sk) n (ms ! i) r
               else
                 let r = setUint (take n (drop d c1));
                     r = nttNegacyclicHarveyLazy r (tables ! i);
                     r = dyadicProductCoeffmod r (drop d sk) n (ms ! i) r
                 in inverseNttNegacyclicHarvey r (tables ! i))
      in addPolyCoeffmod r (drop d c0) n (ms ! i) r)"

definition phase_two :: "nat \<Rightarrow> bool \<Rightarrow> Modulus list \<Rightarrow> NTTTables list \<Rightarrow> u64 list \<Rightarrow> u64 list \<Rightarrow> u64 list \<Rightarrow> u64 list \<Rightarrow> u64 list" where
  "phase_two n ntt_form ms tables sk c0 c1 destination =
     fold (\<lambda>i. on_slice (i * n) n (phase_step n ntt_form ms tables sk c0 c1 i)) [0..<length ms] destination"

text \<open>Any number of polynomials: \<open>k\<close> of them after the first, with the powers of the key at the distance \<open>key_words\<close>.\<close>

definition phase_many ::
    "nat \<Rightarrow> bool \<Rightarrow> Modulus list \<Rightarrow> NTTTables list \<Rightarrow> nat \<Rightarrow> nat \<Rightarrow> u64 list \<Rightarrow> u64 list \<Rightarrow> u64 list \<Rightarrow> u64 list" where
  "phase_many n ntt_form ms tables k key_words sk c0 c1 =
     (let K = length ms; words = n * K;
          copy = take (k * words) c1;
          copy = (if ntt_form then copy else nttNegacyclicHarveyLazy_polys copy k K tables);
          copy = fold (\<lambda>i. on_slice (i * words) words (\<lambda>r. dyadicProductCoeffmod_rns r (drop (i * key_words) sk) K n ms r)) [0..<k] copy;
          destination = replicate words 0;
          destination = fold (\<lambda>i d. addPolyCoeffmod_rns d (drop (i * words) copy) K n ms d) [0..<k] destination;
          destination = (if ntt_form then destination else inverseNttNegacyclicHarvey_rns destination K tables)
      in addPolyCoeffmod_rns destination c0 K n ms destination)"

text \<open>\<open>destination\<close> is the memory for one polynomial.\<close>

definition dotProductCtSkArray :: "Ciphertext \<Rightarrow> u64 list \<Rightarrow> Decryptor \<Rightarrow> (u64 list \<times> Decryptor) res option" where
  "dotProductCtSkArray encrypted destination D =
     (case (getContextData (dec_context D) (ct_parms_id encrypted), keyContextData (dec_context D)) of
        (Some cd, Some key) \<Rightarrow>
          let n = unat (ep_poly_modulus_degree (cd_parms cd)); ms = ep_coeff_modulus (cd_parms cd);
              key_words = n * length (ep_coeff_modulus (cd_parms key));
              tables = cd_small_ntt_tables cd
          in map_option (\<lambda>r.
               rbind r (\<lambda>D.
               rbind (ct_from encrypted 0) (\<lambda>c0.
               rbind (ct_from encrypted 1) (\<lambda>c1.
               if ct_size encrypted = 2
               then Inr (phase_two n (ct_is_ntt_form encrypted) ms tables (dec_secret_key_array D) c0 c1 destination, D)
               else rbind (poly_words (ct_size encrypted - 1) n (length ms)) (\<lambda>_.
                 Inr (phase_many n (ct_is_ntt_form encrypted) ms tables (ct_size encrypted - 1) key_words (dec_secret_key_array D) c0 c1, D))))))
               (computeSecretKeyArray (ct_size encrypted - 1) D)
      | _ \<Rightarrow> None)"

section \<open>Decryption\<close>

text \<open>Words written at the start of the coefficients of a plaintext, and the resize to the significant ones.\<close>

definition plain_write :: "u64 list \<Rightarrow> Plaintext \<Rightarrow> Plaintext" where
  "plain_write ws p = p\<lparr>pt_data := (pt_data p)\<lparr>hd_internal := ws @ drop (length ws) (hd_internal (pt_data p))\<rparr>\<rparr>"

definition plain_trim :: "nat \<Rightarrow> Plaintext \<Rightarrow> Plaintext res" where
  "plain_trim coeff_count p =
     (let plain_coeff_count = getSignificantUint64CountUint (take coeff_count (hd_internal (pt_data p)))
      in plain_resize (max plain_coeff_count 1) p)"

definition bfvDecrypt :: "Ciphertext \<Rightarrow> Plaintext \<Rightarrow> Decryptor \<Rightarrow> (Plaintext \<times> Decryptor) res option" where
  "bfvDecrypt encrypted destination D =
     (if ct_is_ntt_form encrypted then Some (Inl (Invalid_argument ''encrypted cannot be in NTT form''))
      else case getContextData (dec_context D) (ct_parms_id encrypted) of
        None \<Rightarrow> None
      | Some cd \<Rightarrow>
          let n = unat (ep_poly_modulus_degree (cd_parms cd)) in
          (case poly_words 1 n (length (ep_coeff_modulus (cd_parms cd))) of
             Inl e \<Rightarrow> Some (Inl e)
           | Inr words \<Rightarrow>
               Option.bind (dotProductCtSkArray encrypted (replicate words 0) D) (\<lambda>r. case r of
                 Inl e \<Rightarrow> Some (Inl e)
               | Inr (phase, D) \<Rightarrow>
                   (case plain_resize n (destination\<lparr>pt_parms_id := parmsIDZero\<rparr>) of
                      Inl e \<Rightarrow> Some (Inl e)
                    | Inr p \<Rightarrow>
                        Option.bind (cd_rns_tool cd) (\<lambda>T.
                        map_option (\<lambda>r. rbind (plain_trim n (plain_write r p)) (\<lambda>p. Inr (p, D)))
                          (decryptScaleAndRound T phase (take n (hd_internal (pt_data p)))))))))"

definition ckksDecrypt :: "Ciphertext \<Rightarrow> Plaintext \<Rightarrow> Decryptor \<Rightarrow> (Plaintext \<times> Decryptor) res option" where
  "ckksDecrypt encrypted destination D =
     (if \<not> ct_is_ntt_form encrypted then Some (Inl (Invalid_argument ''encrypted must be in NTT form''))
      else case getContextData (dec_context D) (ct_parms_id encrypted) of
        None \<Rightarrow> None
      | Some cd \<Rightarrow>
          (case poly_words 1 (unat (ep_poly_modulus_degree (cd_parms cd))) (length (ep_coeff_modulus (cd_parms cd))) of
             Inl e \<Rightarrow> Some (Inl e)
           | Inr words \<Rightarrow>
               (case plain_resize words (destination\<lparr>pt_parms_id := parmsIDZero\<rparr>) of
                  Inl e \<Rightarrow> Some (Inl e)
                | Inr p \<Rightarrow>
                    map_option (\<lambda>r. rbind r (\<lambda>(phase, D).
                      Inr ((plain_write phase p)\<lparr>pt_parms_id := ct_parms_id encrypted, pt_scale := ct_scale encrypted\<rparr>, D)))
                      (dotProductCtSkArray encrypted (take words (hd_internal (pt_data p))) D))))"

definition bgvDecrypt ::
    "Ciphertext \<Rightarrow> Plaintext \<Rightarrow> Decryptor \<Rightarrow> (Plaintext \<times> Decryptor) res option" where
  "bgvDecrypt encrypted destination D =
     (if ct_is_ntt_form encrypted then Some (Inl (Invalid_argument ''encrypted cannot be in NTT form''))
      else case getContextData (dec_context D) (ct_parms_id encrypted) of
        None \<Rightarrow> None
      | Some cd \<Rightarrow>
          let n = unat (ep_poly_modulus_degree (cd_parms cd)); plain_modulus = ep_plain_modulus (cd_parms cd) in
          Option.bind (dotProductCtSkArray encrypted (replicate (n * length (ep_coeff_modulus (cd_parms cd))) 0) D) (\<lambda>r. case r of
            Inl e \<Rightarrow> Some (Inl e)
          | Inr (phase, D) \<Rightarrow>
              (case plain_resize n (destination\<lparr>pt_parms_id := parmsIDZero\<rparr>) of
                 Inl e \<Rightarrow> Some (Inl e)
               | Inr p \<Rightarrow>
                   Option.bind (cd_rns_tool cd) (\<lambda>T.
                   map_option (\<lambda>r.
                     rbind r (\<lambda>r.
                     rbind (if ct_correction_factor encrypted \<noteq> 1
                            then rbind (tryInvertUintMod (ct_correction_factor encrypted) (modulus_value plain_modulus)) (\<lambda>inv_factor.
                                   case inv_factor of
                                     None \<Rightarrow> Inl (Logic_error ''invalid correction factor'')
                                   | Some fix \<Rightarrow> Inr (multiplyPolyScalarCoeffmod r n fix plain_modulus r))
                            else Inr r) (\<lambda>r.
                     rbind (plain_trim n (plain_write r p)) (\<lambda>p. Inr (p, D)))))
                     (decryptModt T phase (take n (hd_internal (pt_data p))))))))"

definition decrypt ::
    "Ciphertext \<Rightarrow> Plaintext \<Rightarrow> Decryptor \<Rightarrow> (Plaintext \<times> Decryptor) res option" where
  "decrypt encrypted destination D =
     (case ct_isValidFor encrypted (dec_context D) of
        Inl e \<Rightarrow> Some (Inl e)
      | Inr False \<Rightarrow> Some (Inl (Invalid_argument ''encrypted is not valid for encryption parameters''))
      | Inr True \<Rightarrow>
          if ct_size encrypted < SEAL_CIPHERTEXT_SIZE_MIN then Some (Inl (Invalid_argument ''encrypted is empty''))
          else Option.bind (firstContextData (dec_context D)) (\<lambda>first. case ep_scheme (cd_parms first) of
                 bfv \<Rightarrow> bfvDecrypt encrypted destination D
               | ckks \<Rightarrow> ckksDecrypt encrypted destination D
               | bgv \<Rightarrow> bgvDecrypt encrypted destination D
               | scheme_none \<Rightarrow> Some (Inl (Invalid_argument ''unsupported scheme''))))"

definition invariantNoiseBudget :: "Ciphertext \<Rightarrow> Decryptor \<Rightarrow> (int \<times> Decryptor) res option" where
  "invariantNoiseBudget encrypted D =
     (case ct_isValidFor encrypted (dec_context D) of
        Inl e \<Rightarrow> Some (Inl e)
      | Inr False \<Rightarrow> Some (Inl (Invalid_argument ''encrypted is not valid for encryption parameters''))
      | Inr True \<Rightarrow>
          if ct_size encrypted < SEAL_CIPHERTEXT_SIZE_MIN then Some (Inl (Invalid_argument ''encrypted is empty''))
          else Option.bind (keyContextData (dec_context D)) (\<lambda>key.
            let scheme = ep_scheme (cd_parms key) in
            if scheme \<noteq> bfv \<and> scheme \<noteq> bgv then Some (Inl (Logic_error ''unsupported scheme''))
            else if ct_is_ntt_form encrypted then Some (Inl (Invalid_argument ''encrypted cannot be in NTT form''))
            else Option.bind (getContextData (dec_context D) (ct_parms_id encrypted)) (\<lambda>cd.
              let n = unat (ep_poly_modulus_degree (cd_parms cd)); ms = ep_coeff_modulus (cd_parms cd); K = length ms in
              Option.bind (dotProductCtSkArray encrypted (replicate (n * K) 0) D) (\<lambda>r. case r of
                Inl e \<Rightarrow> Some (Inl e)
              | Inr (noise_poly, D) \<Rightarrow>
                  let noise_poly = (if scheme = bfv
                        then multiplyPolyScalarCoeffmod_rns noise_poly K n (modulus_value (ep_plain_modulus (cd_parms cd))) ms noise_poly
                        else noise_poly)
                  in map_option (\<lambda>T. rbind (composeArray (rt_base_q T) (Some noise_poly) n) (\<lambda>noise_poly.
                       let norm = noise_infty_norm noise_poly K n (cd_total_coeff_modulus cd);
                           bit_count_diff = cd_total_coeff_modulus_bit_count cd - getSignificantBitCountUint norm - 1
                       in Inr (max 0 bit_count_diff, D))) (cd_rns_tool cd)))))"

section \<open>The phase is the polynomial in the key\<close>

text \<open>The powers of a polynomial, from the first on, and the phase of the polynomials of a ciphertext.\<close>

fun key_power :: "nat \<Rightarrow> (nat \<Rightarrow> int) \<Rightarrow> nat \<Rightarrow> nat \<Rightarrow> int" where
  "key_power n S 0 = S"
| "key_power n S (Suc i) = negacyclic n (key_power n S i) S"

definition phase :: "nat \<Rightarrow> (nat \<Rightarrow> int) \<Rightarrow> (nat \<Rightarrow> nat \<Rightarrow> int) \<Rightarrow> nat \<Rightarrow> nat \<Rightarrow> int" where
  "phase n S X count j = X 0 j + (\<Sum>i<count - 1. negacyclic n (X (Suc i)) (key_power n S i) j)"

text \<open>The powers of the key in the array of the object.\<close>

definition key_powers :: "nat \<Rightarrow> (nat \<Rightarrow> int) \<Rightarrow> (nat \<Rightarrow> int) \<Rightarrow> Modulus list \<Rightarrow> nat \<Rightarrow> u64 list \<Rightarrow> bool" where
  "key_powers p \<psi> S ms k a \<longleftrightarrow> length a = 2 ^ p * length ms * k \<and>
     (\<forall>i<k. rns_vals True p \<psi> ms (key_power (2 ^ p) S i) (drop (2 ^ p * length ms * i) a))"

lemma phase_step_vals:
  assumes t: "tables_for p \<psi> ms ts" and i: "i < length ms" and r: "length r = 2 ^ p"
    and c0: "rns_vals ntt p \<psi> ms X0 c0" and c1: "rns_vals ntt p \<psi> ms X1 c1" and sk: "rns_vals True p \<psi> ms S sk"
  shows "length (phase_step (2 ^ p) ntt ms ts sk c0 c1 i r) = 2 ^ p"
    "vals ntt p (ms ! i) (\<psi> i) (\<lambda>j. negacyclic (2 ^ p) X1 S j + X0 j) (phase_step (2 ^ p) ntt ms ts sk c0 c1 i r)"
proof -
  let ?m = "ms ! i" and ?\<psi> = "\<psi> i" and ?n = "2 ^ p :: nat"
  note T = tables_forD [OF t i]
  note v = c0 [THEN rns_valsD, OF i] c1 [THEN rns_valsD, OF i] sk [THEN rns_valsD, OF i]
  note y = vals_congs [OF v(3)]
  define x where "x = (if ntt then dyadicProductCoeffmod (drop (?n * i) c1) (drop (?n * i) sk) ?n ?m r
      else inverseNttNegacyclicHarvey (dyadicProductCoeffmod (nttNegacyclicHarveyLazy (take ?n (drop (?n * i) c1)) (ts ! i))
             (drop (?n * i) sk) ?n ?m (nttNegacyclicHarveyLazy (take ?n (drop (?n * i) c1)) (ts ! i))) (ts ! i))"
  have x: "length x = ?n \<and> vals ntt p ?m ?\<psi> (negacyclic ?n X1 S) x"
  proof (cases ntt)
    case True
    have "congs p ?m ?\<psi> X1 (drop (?n * i) c1)" by (rule vals_congs) (use v(2) True in simp)
    then show ?thesis using vals_dyadic [OF T(1,2) _ y r] True r by (simp add: x_def)
  next
    case False
    have c: "vals False p ?m ?\<psi> X1 (take ?n (drop (?n * i) c1))" "length (take ?n (drop (?n * i) c1)) = ?n"
      using v(2) False unfolding vals_take [OF order_refl] by (simp_all add: vals_def)
    note l = vals_ntt_lazy [OF T(1,2) c]
    note d = vals_dyadic [OF T(1,2) l(2) y l(1)]
    show ?thesis using vals_inverse [OF T(1,2) d] l(1) False by (simp add: x_def)
  qed
  have eq: "phase_step ?n ntt ms ts sk c0 c1 i r = addPolyCoeffmod x (drop (?n * i) c0) ?n ?m x"
    by (simp add: phase_step_def x_def Let_def setUint_def mult.commute [of i])
  show "length (phase_step ?n ntt ms ts sk c0 c1 i r) = ?n" using x by (simp add: eq)
  show "vals ntt p ?m ?\<psi> (\<lambda>j. negacyclic ?n X1 S j + X0 j) (phase_step ?n ntt ms ts sk c0 c1 i r)"
    unfolding eq using vals_add [OF T(3) _ v(1)] x by blast
qed

lemma phase_two_vals:
  assumes t: "tables_for p \<psi> ms ts" and r: "length r = 2 ^ p * length ms"
    and c: "rns_vals ntt p \<psi> ms X0 c0" "rns_vals ntt p \<psi> ms X1 c1" "rns_vals True p \<psi> ms S sk"
  shows "length (phase_two (2 ^ p) ntt ms ts sk c0 c1 r) = 2 ^ p * length ms"
    "rns_vals ntt p \<psi> ms (\<lambda>j. negacyclic (2 ^ p) X1 S j + X0 j) (phase_two (2 ^ p) ntt ms ts sk c0 c1 r)"
  unfolding phase_two_def fold_parts0
  by (rule parts_rns_vals [OF r]; use phase_step_vals [OF t _ _ c] in blast)+

lemma phase_many_vals:
  assumes t: "tables_for p \<psi> ms ts" and ms: "ms \<noteq> []" and c0: "rns_vals ntt p \<psi> ms X0 c0"
    and c1: "\<And>i. i < k \<Longrightarrow> rns_vals ntt p \<psi> ms (X i) (drop (2 ^ p * length ms * i) c1)" and l: "2 ^ p * length ms * k \<le> length c1"
    and sk: "\<And>i. i < k \<Longrightarrow> rns_vals True p \<psi> ms (P i) (drop (i * key_words) sk)"
  shows "length (phase_many (2 ^ p) ntt ms ts k key_words sk c0 c1) = 2 ^ p * length ms"
    "rns_vals ntt p \<psi> ms (\<lambda>j. (\<Sum>i<k. negacyclic (2 ^ p) (X i) (P i) j) + X0 j) (phase_many (2 ^ p) ntt ms ts k key_words sk c0 c1)"
proof -
  let ?d = "2 ^ p * length ms" and ?K = "length ms" and ?n = "2 ^ p :: nat"
  have m: "wf_moduli ms" using tables_forD(3) [OF t] by (simp add: wf_moduli_def)
  define b where "b = take (k * ?d) c1"
  define c where "c = (if ntt then b else nttNegacyclicHarveyLazy_polys b k ?K ts)"
  define e where "e = parts_loop (\<lambda>i r. dyadicProductCoeffmod_rns r (drop (i * key_words) sk) ?K ?n ms r) ?d k 0 c"
  define s where "s = fold (\<lambda>i d. addPolyCoeffmod_rns d (drop (i * ?d) e) ?K ?n ms d) [0..<k] (replicate ?d 0)"
  define r where "r = (if ntt then s else inverseNttNegacyclicHarvey_rns s ?K ts)"
  have eq: "phase_many ?n ntt ms ts k key_words sk c0 c1 = addPolyCoeffmod_rns r c0 ?K ?n ms r"
    by (simp add: phase_many_def Let_def fold_parts0 b_def c_def e_def s_def r_def)
  have bl: "length b = ?d * k" using l by (simp add: b_def mult.commute)
  have bv: "rns_vals ntt p \<psi> ms (X i) (drop (?d * i) b)" if "i < k" for i
  proof -
    have "?d \<le> k * ?d - ?d * i" using slice_end [of i k ?d] that by (simp add: mult.commute)
    then show ?thesis unfolding b_def drop_take using c1 [OF that] by (simp add: rns_vals_take)
  qed
  have c: "length c = ?d * k" "\<And>i. i < k \<Longrightarrow> rns_congs p \<psi> ms (X i) (poly_slice ?d i c)"
  proof -
    show "length c = ?d * k" using bl rns_congs_ntt_lazy_polys(1) [OF t ms bl, of X] bv by (cases ntt) (simp_all add: c_def)
    show "rns_congs p \<psi> ms (X i) (poly_slice ?d i c)" if "i < k" for i
      using rns_vals_congs [of p \<psi> ms "X i"] rns_congs_ntt_lazy_polys(2) [OF t ms bl, of X i] bv that
      by (cases ntt) (simp_all add: c_def rns_vals_slice)
  qed
  have dy: "length (dyadicProductCoeffmod_rns ys (drop (i * key_words) sk) ?K ?n ms ys) = ?d" if "length ys = ?d" for i ys
    using that unfolding dyadicProductCoeffmod_rns_def
    by (intro conjunct1 [OF parts_loop_slices, of ?K ?n _ ys 0 ?K]) simp_all
  have e: "length e = ?d * k" "\<And>i. i < k \<Longrightarrow> rns_vals True p \<psi> ms (negacyclic ?n (X i) (P i)) (drop (?d * i) e)"
  proof -
    have pl: "length e = ?d * k"
      "\<And>i. i < k \<Longrightarrow> poly_slice ?d i e = dyadicProductCoeffmod_rns (poly_slice ?d i c) (drop (i * key_words) sk) ?K ?n ms (poly_slice ?d i c)"
      unfolding e_def by (rule polys_parts [OF c(1)], erule dy, assumption?)+
    show "length e = ?d * k" by (rule pl(1))
    fix i
    assume i: "i < k"
    have "rns_vals True p \<psi> ms (negacyclic ?n (X i) (P i)) (poly_slice ?d i e)"
      unfolding pl(2) [OF i]
      by (rule rns_vals_dyadic(2) [OF t c(2) [OF i] rns_vals_congs [OF sk [OF i]] length_slice [OF c(1) i]])
    then show "rns_vals True p \<psi> ms (negacyclic ?n (X i) (P i)) (drop (?d * i) e)" by (simp add: rns_vals_slice)
  qed
  have s: "length s = ?d" "rns_vals True p \<psi> ms (\<lambda>j. \<Sum>i<k. negacyclic ?n (X i) (P i) j) s"
    using rns_vals_sum [OF m, of k True p \<psi> "\<lambda>i. negacyclic ?n (X i) (P i)" "\<lambda>i. drop (i * ?d) e"] e(2)
    unfolding s_def by (simp_all add: mult.commute)
  have r: "length r = ?d" "rns_vals ntt p \<psi> ms (\<lambda>j. \<Sum>i<k. negacyclic ?n (X i) (P i) j) r"
    using s rns_vals_inverse [OF t ms s(2,1)] by (cases ntt; simp add: r_def)+
  show "length (phase_many ?n ntt ms ts k key_words sk c0 c1) = ?d" unfolding eq by (rule rns_vals_add(1) [OF m r(2) c0 r(1)])
  show "rns_vals ntt p \<psi> ms (\<lambda>j. (\<Sum>i<k. negacyclic ?n (X i) (P i) j) + X0 j) (phase_many ?n ntt ms ts k key_words sk c0 c1)"
    unfolding eq by (rule rns_vals_add(2) [OF m r(2) c0 r(1)])
qed

text \<open>The powers are extended by products with the first.\<close>

lemma next_power_vals:
  assumes t: "tables_for p \<psi> ms ts" and i: "1 \<le> i" "i < N" and a: "length a = 2 ^ p * length ms * N"
    and v: "\<And>j. j < i \<Longrightarrow> rns_vals True p \<psi> ms (key_power (2 ^ p) S j) (poly_slice (2 ^ p * length ms) j a)"
  shows "length (next_power (2 ^ p) ms i a) = 2 ^ p * length ms * N"
    "j \<le> i \<Longrightarrow> rns_vals True p \<psi> ms (key_power (2 ^ p) S j) (poly_slice (2 ^ p * length ms) j (next_power (2 ^ p) ms i a))"
proof -
  let ?d = "2 ^ p * length ms" and ?n = "2 ^ p :: nat"
  let ?f = "dyadicProductCoeffmod_rns (drop ((i - 1) * ?d) a) a (length ms) ?n ms"
  have eq: "next_power ?n ms i a = on_slice (?d * i) ?d ?f a" by (simp add: next_power_def mult.commute)
  have s: "length (poly_slice ?d i a) = ?d" by (rule length_slice [OF a i(2)])
  have x: "rns_congs p \<psi> ms (key_power ?n S (i - 1)) (drop ((i - 1) * ?d) a)"
    unfolding mult.commute [of "i - 1"] using v [of "i - 1"] i(1) by (intro rns_vals_congs) (simp add: rns_vals_slice)
  have y: "rns_congs p \<psi> ms S a" using v [of 0] i(1) by (intro rns_vals_congs) (simp add: rns_vals_slice)
  note d = rns_vals_dyadic [OF t x y s]
  have pw: "key_power ?n S i = negacyclic ?n (key_power ?n S (i - 1)) S" using i(1) by (cases i) simp_all
  show "length (next_power ?n ms i a) = ?d * N" unfolding eq by (rule length_on_slice [where f = ?f, OF a i(2) d(1)])
  show "rns_vals True p \<psi> ms (key_power ?n S j) (poly_slice ?d j (next_power ?n ms i a))" if "j \<le> i"
  proof -
    have j: "j < N" using that i(2) by simp
    show ?thesis
      unfolding eq slice_on_slice [where f = ?f, OF a i(2) j d(1)] using d(2) v [of j] that pw by (cases "j = i") simp_all
  qed
qed

lemma fold_next_power:
  assumes t: "tables_for p \<psi> ms ts" and k: "1 \<le> k"
  shows "k + e \<le> N \<Longrightarrow> length a = 2 ^ p * length ms * N \<Longrightarrow>
    (\<And>j. j < k \<Longrightarrow> rns_vals True p \<psi> ms (key_power (2 ^ p) S j) (poly_slice (2 ^ p * length ms) j a)) \<Longrightarrow>
    length (fold (next_power (2 ^ p) ms) [k..<k + e] a) = 2 ^ p * length ms * N \<and>
    (\<forall>j<k + e. rns_vals True p \<psi> ms (key_power (2 ^ p) S j)
      (poly_slice (2 ^ p * length ms) j (fold (next_power (2 ^ p) ms) [k..<k + e] a)))"
proof (induction e)
  case (Suc e)
  let ?r = "fold (next_power (2 ^ p) ms) [k..<k + e] a"
  have i: "1 \<le> k + e" "k + e < N" using k Suc.prems(1) by simp_all
  have r: "length ?r = 2 ^ p * length ms * N"
    "\<And>j. j < k + e \<Longrightarrow> rns_vals True p \<psi> ms (key_power (2 ^ p) S j) (poly_slice (2 ^ p * length ms) j ?r)"
    using Suc by auto
  show ?case using next_power_vals [OF t i r] by (simp add: less_Suc_eq_le)
qed simp

definition wf_decryptor :: "nat \<Rightarrow> (nat \<Rightarrow> int) \<Rightarrow> Modulus list \<Rightarrow> (nat \<Rightarrow> int) \<Rightarrow> Decryptor \<Rightarrow> bool" where
  "wf_decryptor p \<psi> kms S D \<longleftrightarrow>
     (\<exists>cd ts. keyContextData (dec_context D) = Some cd \<and> unat (ep_poly_modulus_degree (cd_parms cd)) = 2 ^ p \<and>
        ep_coeff_modulus (cd_parms cd) = kms \<and> tables_for p \<psi> kms ts) \<and>
     1 \<le> p \<and> p \<le> 17 \<and> kms \<noteq> [] \<and> length kms \<le> 64 \<and> 1 \<le> dec_secret_key_array_size D \<and>
     key_powers p \<psi> S kms (dec_secret_key_array_size D) (dec_secret_key_array D)"

lemma two_power_17: "p \<le> 17 \<Longrightarrow> (2 :: nat) ^ p \<le> 131072"
  using power_increasing [of p 17 "2 :: nat"] by simp

text \<open>The constructor makes such an object from a valid key that holds the transformed secret.\<close>

lemma new_Decryptor_wf:
  assumes set: "context_parametersSet context" and valid: "secret_isValidFor key context = Inr True"
    and cd: "keyContextData context = Some cd" "unat (ep_poly_modulus_degree (cd_parms cd)) = 2 ^ p" "ep_coeff_modulus (cd_parms cd) = kms"
    and p: "1 \<le> p" "p \<le> 17" and kms: "kms \<noteq> []" "length kms \<le> 64" and ts: "tables_for p \<psi> kms ts"
    and data: "2 ^ p * length kms \<le> length (hd_internal (pt_data key))" "rns_vals True p \<psi> kms S (hd_internal (pt_data key))"
  shows "\<exists>D. new_Decryptor context key = Some (Inr D) \<and> wf_decryptor p \<psi> kms S D \<and> dec_context D = context"
proof -
  have "2 ^ p * length kms \<le> 131072 * 64" using two_power_17 [OF p(2)] kms(2) by (rule mult_mono) simp_all
  then have w: "poly_words 1 (2 ^ p) (length kms) = Inr (1 * (2 ^ p * length kms))"
    using two_power_17 [OF p(2)] kms(2) by (intro poly_words_ok) simp_all
  let ?D = "\<lparr>dec_context = context, dec_secret_key_array = take (2 ^ p * length kms) (hd_internal (pt_data key)),
      dec_secret_key_array_size = 1\<rparr>"
  have "new_Decryptor context key = Some (Inr ?D)"
    using set valid w by (simp add: new_Decryptor_def cd)
  moreover have "key_powers p \<psi> S kms 1 (take (2 ^ p * length kms) (hd_internal (pt_data key)))"
    using data by (simp add: key_powers_def rns_vals_take)
  then have "wf_decryptor p \<psi> kms S ?D" using cd p kms ts unfolding wf_decryptor_def by auto
  ultimately show ?thesis by auto
qed

lemma computeSecretKeyArray_value:
  assumes D: "wf_decryptor p \<psi> kms S D" and k: "k \<le> 1024"
  shows "\<exists>D'. computeSecretKeyArray k D = Some (Inr D') \<and> wf_decryptor p \<psi> kms S D' \<and> dec_context D' = dec_context D \<and>
    k \<le> dec_secret_key_array_size D'"
proof (cases "k \<le> dec_secret_key_array_size D")
  case True
  then have "max k (dec_secret_key_array_size D) = dec_secret_key_array_size D" by simp
  then show ?thesis using D True by (auto simp: computeSecretKeyArray_def wf_decryptor_def Let_def)
next
  case False
  let ?old = "dec_secret_key_array_size D" and ?d = "2 ^ p * length kms" and ?a = "dec_secret_key_array D"
  obtain cd ts where cd: "keyContextData (dec_context D) = Some cd" "unat (ep_poly_modulus_degree (cd_parms cd)) = 2 ^ p"
      "ep_coeff_modulus (cd_parms cd) = kms" "tables_for p \<psi> kms ts"
    and pk: "1 \<le> p" "p \<le> 17" "kms \<noteq> []" "length kms \<le> 64" "1 \<le> ?old" "key_powers p \<psi> S kms ?old ?a"
    using D unfolding wf_decryptor_def by blast
  have len: "length ?a = ?d * ?old" and v: "\<And>i. i < ?old \<Longrightarrow> rns_vals True p \<psi> kms (key_power (2 ^ p) S i) (drop (?d * i) ?a)"
    using pk(6) by (simp_all add: key_powers_def)
  have m: "max k ?old = k" "?old \<noteq> k" using False by simp_all
  have "?d \<le> 131072 * 64" using two_power_17 [OF pk(2)] pk(4) by (rule mult_mono) simp_all
  then have w: "poly_words k (2 ^ p) (length kms) = Inr (k * ?d)"
    using k two_power_17 [OF pk(2)] pk(4) by (intro poly_words_ok) simp_all
  have old: "take (?old * ?d) ?a = ?a" using len by (simp add: mult.commute)
  let ?b = "?a @ replicate (k * ?d - length ?a) 0"
  have le: "length ?a \<le> ?d * k" unfolding len using False by (intro mult_le_mono2) simp
  have b: "length ?b = ?d * k" using le by (simp add: mult.commute)
  have bv: "rns_vals True p \<psi> kms (key_power (2 ^ p) S j) (poly_slice ?d j ?b)" if "j < ?old" for j
  proof -
    have "?d * j + ?d \<le> length ?a" unfolding len using slice_end [of j ?old ?d] that by simp
    then have "poly_slice ?d j ?b = poly_slice ?d j ?a" by (simp add: poly_slice_def)
    then show ?thesis using v [OF that] by (simp add: rns_vals_slice)
  qed
  have e: "?old + (k - ?old) = k" using False by simp
  let ?r = "fold (next_power (2 ^ p) kms) [?old..<k] ?b"
  have r: "length ?r = ?d * k" "\<forall>j<k. rns_vals True p \<psi> kms (key_power (2 ^ p) S j) (poly_slice ?d j ?r)"
    using fold_next_power [OF cd(4) pk(5) _ b bv, of "k - ?old"] unfolding e by simp_all
  then have kp: "key_powers p \<psi> S kms k ?r" by (simp add: key_powers_def rns_vals_slice)
  have "computeSecretKeyArray k D = Some (Inr (D\<lparr>dec_secret_key_array := ?r, dec_secret_key_array_size := k\<rparr>))"
    unfolding computeSecretKeyArray_def cd(1) option.map cd(2,3) m(1) Let_def if_not_P [OF m(2)] w old by simp
  moreover have "wf_decryptor p \<psi> kms S (D\<lparr>dec_secret_key_array := ?r, dec_secret_key_array_size := k\<rparr>)"
    using cd pk False kp by (auto simp: wf_decryptor_def)
  ultimately show ?thesis by (intro exI conjI) (assumption, assumption, simp_all)
qed

text \<open>The level of a ciphertext: its moduli are the first ones of the key, with the same roots.\<close>

definition ct_level :: "nat \<Rightarrow> (nat \<Rightarrow> int) \<Rightarrow> Modulus list \<Rightarrow> Modulus list \<Rightarrow> SEALContext \<Rightarrow> ParmsID \<Rightarrow> ContextData \<Rightarrow> bool" where
  "ct_level p \<psi> kms ms context parms_id cd \<longleftrightarrow>
     getContextData context parms_id = Some cd \<and> unat (ep_poly_modulus_degree (cd_parms cd)) = 2 ^ p \<and>
     ep_coeff_modulus (cd_parms cd) = ms \<and> ms = take (length ms) kms \<and> ms \<noteq> [] \<and>
     tables_for p \<psi> ms (cd_small_ntt_tables cd)"

lemma ct_from_value:
  assumes "ct_sized (2 ^ p) ms c" "p \<le> 17" "ms \<noteq> []" "length ms \<le> 64" "i < ct_size c" "ct_size c \<le> 16"
  shows "ct_from c i = Inr (ct_poly (2 ^ p) ms c i)"
  using ct_data_at_value [OF assms(1) _ two_power_17 [OF assms(2)] assms(3-5)] assms(5,6) by (simp add: ct_from_def ct_poly_def)

lemma ct_poly_length:
  assumes "ct_sized n ms c" "i \<le> ct_size c"
  shows "n * length ms * (ct_size c - i) \<le> length (ct_poly n ms c i)"
proof -
  have "n * length ms * ct_size c \<le> length (hd_internal (ct_data c))"
    using assms(1) by (simp add: ct_sized_def hd_capacity_def mult.commute)
  then show ?thesis by (simp add: ct_poly_def diff_mult_distrib2)
qed

lemma ct_poly_drop: "drop (n * length ms * i) (ct_poly n ms c j) = ct_poly n ms c (i + j)"
  by (simp add: ct_poly_def distrib_left)

lemma dotProductCtSkArray_value:
  assumes D: "wf_decryptor p \<psi> kms S D" and l: "ct_level p \<psi> kms ms (dec_context D) (ct_parms_id c) cd"
    and c: "ct_holds p \<psi> ms X c" "2 \<le> ct_size c" "ct_size c \<le> 16" and dest: "length destination = 2 ^ p * length ms"
  shows "\<exists>r D'. dotProductCtSkArray c destination D = Some (Inr (r, D')) \<and> wf_decryptor p \<psi> kms S D' \<and>
    dec_context D' = dec_context D \<and> length r = 2 ^ p * length ms \<and>
    rns_vals (ct_is_ntt_form c) p \<psi> ms (phase (2 ^ p) S X (ct_size c)) r"
proof -
  let ?n = "2 ^ p :: nat" and ?f = "ct_is_ntt_form c" and ?m = "ct_size c"
  have ms: "ep_coeff_modulus (cd_parms cd) = ms" "unat (ep_poly_modulus_degree (cd_parms cd)) = ?n" "ms \<noteq> []" "ms = take (length ms) kms"
    "getContextData (dec_context D) (ct_parms_id c) = Some cd" "tables_for p \<psi> ms (cd_small_ntt_tables cd)"
    using l by (simp_all add: ct_level_def)
  obtain kd where kd: "keyContextData (dec_context D) = Some kd" "ep_coeff_modulus (cd_parms kd) = kms"
    using D unfolding wf_decryptor_def by blast
  have pk: "p \<le> 17" "length kms \<le> 64" using D by (simp_all add: wf_decryptor_def)
  have K: "length ms \<le> 64" using arg_cong [OF ms(4), of length] pk(2) by simp
  obtain D' where D': "computeSecretKeyArray (?m - 1) D = Some (Inr D')" "wf_decryptor p \<psi> kms S D'" "dec_context D' = dec_context D"
      "?m - 1 \<le> dec_secret_key_array_size D'"
  proof -
    have "?m - 1 \<le> 1024" using c(3) by linarith
    from computeSecretKeyArray_value [OF D this] show ?thesis using that by blast
  qed
  have sized: "ct_sized ?n ms c" using c(1) by (simp add: ct_holds_def)
  note frm = ct_from_value [OF sized pk(1) ms(3) K _ c(3)]
  have f: "ct_from c 0 = Inr (ct_poly ?n ms c 0)" "ct_from c 1 = Inr (ct_poly ?n ms c 1)" using c(2) by (simp_all add: frm)
  have X: "rns_vals ?f p \<psi> ms (X i) (ct_poly ?n ms c i)" if "i < ?m" for i using c(1) that by (simp add: ct_holds_def)
  have sk: "rns_vals True p \<psi> ms (key_power ?n S i) (drop (i * (?n * length kms)) (dec_secret_key_array D'))" if "i < ?m - 1" for i
    using D'(2,4) that unfolding wf_decryptor_def key_powers_def mult.commute [of i] by (intro rns_vals_prefix [OF _ ms(4)]) simp
  note eq = dotProductCtSkArray_def [of c destination D, unfolded ms(5) kd option.case prod.case Let_def D'(1) option.map rbind_simps f ms(1,2)]
  have ph: "phase ?n S X ?m = (\<lambda>j. (\<Sum>i<?m - 1. negacyclic ?n (X (Suc i)) (key_power ?n S i) j) + X 0 j)"
    by (simp add: phase_def fun_eq_iff)
  show ?thesis
  proof (cases "?m = 2")
    case True
    let ?r = "phase_two ?n ?f ms (cd_small_ntt_tables cd) (dec_secret_key_array D') (ct_poly ?n ms c 0) (ct_poly ?n ms c 1) destination"
    have ph2: "phase ?n S X ?m = (\<lambda>j. negacyclic ?n (X 1) S j + X 0 j)" unfolding True by (simp add: phase_def fun_eq_iff)
    have "rns_vals True p \<psi> ms S (dec_secret_key_array D')" using sk [of 0] True by simp
    note r = phase_two_vals [OF ms(6) dest X [of 0] X [of 1] this]
    have "dotProductCtSkArray c destination D = Some (Inr (?r, D'))" unfolding eq if_P [OF True] ..
    then show ?thesis using r True D'(2,3) unfolding ph2 by (intro exI conjI) (assumption, simp_all)
  next
    case False
    let ?r = "phase_many ?n ?f ms (cd_small_ntt_tables cd) (?m - 1) (?n * length kms) (dec_secret_key_array D')
      (ct_poly ?n ms c 0) (ct_poly ?n ms c 1)"
    have c1: "rns_vals ?f p \<psi> ms (X (Suc i)) (drop (?n * length ms * i) (ct_poly ?n ms c 1))" if "i < ?m - 1" for i
      unfolding ct_poly_drop using X [of "Suc i"] that by simp
    have len: "?n * length ms * (?m - 1) \<le> length (ct_poly ?n ms c 1)" by (rule ct_poly_length [OF sized]) (use c(2) in simp)
    have X0: "rns_vals ?f p \<psi> ms (X 0) (ct_poly ?n ms c 0)" using X [of 0] c(2) by simp
    note r = phase_many_vals [OF ms(6,3) X0, of "?m - 1" "\<lambda>i. X (Suc i)", OF c1 len sk]
    have "?n * length ms \<le> 131072 * 64" using two_power_17 [OF pk(1)] K by (rule mult_mono) simp_all
    then have w: "poly_words (?m - 1) ?n (length ms) = Inr ((?m - 1) * (?n * length ms))"
      using c(3) two_power_17 [OF pk(1)] K by (intro poly_words_ok) simp_all
    have "dotProductCtSkArray c destination D = Some (Inr (?r, D'))" unfolding eq if_not_P [OF False] w by simp
    then show ?thesis using r D'(2,3) unfolding ph by (intro exI conjI) (assumption, simp_all)
  qed
qed

section \<open>The plaintext that is returned\<close>

lemma significant_zeros: "k \<le> j \<Longrightarrow> j < n \<Longrightarrow> k = getSignificantUint64CountUint_loop xs n \<Longrightarrow> xs ! j = 0"
  by (induction n arbitrary: k) (auto simp: less_Suc_eq split: if_splits)

text \<open>A plaintext that is not transformed, with room for its coefficients, which are those of \<open>M\<close>, padded with zeros.\<close>

definition plain_is :: "nat \<Rightarrow> (nat \<Rightarrow> nat) \<Rightarrow> Plaintext \<Rightarrow> bool" where
  "plain_is n M p \<longleftrightarrow> pt_parms_id p = parmsIDZero \<and> 1 \<le> pt_coeff_count p \<and> pt_coeff_count p \<le> n \<and>
     hd_size (pt_data p) = pt_coeff_count p \<and> pt_coeff_count p \<le> hd_capacity (pt_data p) \<and>
     (1 < pt_coeff_count p \<longrightarrow> M (pt_coeff_count p - 1) \<noteq> 0) \<and> (\<forall>j<n. plain_coeff p j = M j)"

lemma plain_is_cong:
  assumes "plain_is n M p" "\<And>j. j < n \<Longrightarrow> M j = M' j"
  shows "plain_is n M' p"
proof -
  have "1 < pt_coeff_count p \<longrightarrow> M (pt_coeff_count p - 1) = M' (pt_coeff_count p - 1)"
    using assms unfolding plain_is_def by (intro impI assms(2)) linarith
  then show ?thesis using assms unfolding plain_is_def by auto
qed

lemma plain_resize_value:
  assumes "pt_parms_id p = parmsIDZero" "hd_size (pt_data p) \<le> hd_capacity (pt_data p)"
  shows "\<exists>q. plain_resize n p = Inr q \<and> pt_parms_id q = parmsIDZero \<and> n \<le> length (hd_internal (pt_data q))"
  using assms by (auto simp: plain_resize_def plain_isNttForm_def hd_resize_def hd_move_def hd_capacity_def Let_def)

lemma plain_trim_value:
  assumes p: "pt_parms_id p = parmsIDZero" and n: "1 \<le> n" "n \<le> length (hd_internal (pt_data p))" and r: "length r = n"
  shows "\<exists>q. plain_trim n (plain_write r p) = Inr q \<and> plain_is n (\<lambda>j. unat (r ! j)) q"
proof -
  let ?k = "getSignificantUint64CountUint r"
  have k: "?k \<le> n" "?k \<noteq> 0 \<Longrightarrow> r ! (?k - 1) \<noteq> 0" using getSignificantUint64CountUint_spec(1,3) [of r] r by simp_all
  have z: "r ! j = 0" if "?k \<le> j" "j < n" for j
    using significant_zeros [OF that(1), of n r] that(2) r by (simp add: getSignificantUint64CountUint_def)
  have t: "take n (hd_internal (pt_data (plain_write r p))) = r" using r by (simp add: plain_write_def)
  let ?q = "(plain_write r p)\<lparr>pt_data := (pt_data (plain_write r p))\<lparr>hd_size := max ?k 1\<rparr>, pt_coeff_count := max ?k 1\<rparr>"
  have cap: "length r + (length (hd_internal (pt_data p)) - length r) = length (hd_internal (pt_data p))" using n r by simp
  have m: "max ?k 1 \<le> n" using k(1) n(1) by simp
  have nle: "\<not> length (hd_internal (pt_data p)) < max ?k (Suc 0)" using m n(2) by linarith
  have e: "plain_trim n (plain_write r p) = Inr ?q"
    unfolding plain_trim_def t Let_def using p nle
    by (simp add: plain_resize_def plain_isNttForm_def hd_resize_def hd_capacity_def plain_write_def cap)
  have c: "plain_coeff ?q j = unat (r ! j)" if "j < n" for j
    using that r z [of j] by (auto simp: plain_coeff_def plain_write_def nth_append)
  have "plain_is n (\<lambda>j. unat (r ! j)) ?q"
    using p n m c k(2) cap unfolding plain_is_def by (auto simp: plain_write_def hd_capacity_def max_def unat_eq_0)
  then show ?thesis using e by blast
qed

lemma rns_vals_poly:
  assumes "rns_vals False p \<psi> ms X r" "length r = 2 ^ p * length ms" "rns_base b = ms" "rns_size b = length ms"
  shows "rns_poly b (2 ^ p) X r"
  unfolding rns_poly_def
proof (intro conjI allI impI)
  fix i j :: nat
  assume ij: "i < rns_size b" "j < 2 ^ p"
  have "vals False p (ms ! i) (\<psi> i) X (drop (2 ^ p * i) r)" using assms(1,4) ij(1) by (simp add: rns_vals_def)
  then have v: "uint (drop (2 ^ p * i) r ! j) = X j mod uint (mod_value (ms ! i))" using ij(2) by (simp add: vals_def)
  have "2 ^ p * i + 2 ^ p \<le> 2 ^ p * length ms" using slice_end [of i "length ms" "2 ^ p"] ij(1) assms(4) by simp
  then have "2 ^ p * i \<le> length r" using assms(2) by linarith
  then have "drop (2 ^ p * i) r ! j = r ! (i * 2 ^ p + j)" by (simp add: mult.commute)
  then show "uint (r ! (i * 2 ^ p + j)) = X j mod modi (rns_base b) i" using v assms(3) by simp
qed (simp add: assms(2,4))

section \<open>BFV\<close>

text \<open>The tool of a level.\<close>

definition level_tool :: "nat \<Rightarrow> Modulus list \<Rightarrow> ContextData \<Rightarrow> RNSTool \<Rightarrow> bool" where
  "level_tool p ms cd T \<longleftrightarrow> cd_rns_tool cd = Some T \<and> wf_tool T \<and> rns_base (rt_base_q T) = ms \<and>
     rt_t T = ep_plain_modulus (cd_parms cd) \<and> rt_coeff_count T = 2 ^ p"

lemma valid_context_tool:
  assumes "valid_context sec cd" "unat (ep_poly_modulus_degree (cd_parms cd)) = 2 ^ p"
  obtains T where "level_tool p (ep_coeff_modulus (cd_parms cd)) cd T"
  using assms by (auto simp: valid_context_def level_tool_def Let_def)

lemma bfvDecrypt_value:
  assumes D: "wf_decryptor p \<psi> kms S D" and l: "ct_level p \<psi> kms ms (dec_context D) (ct_parms_id c) cd"
    and T: "level_tool p ms cd T" and t: "\<not> modulus_isZero (rt_t T)"
    and c: "ct_holds p \<psi> ms X c" "2 \<le> ct_size c" "ct_size c \<le> 16" "\<not> ct_is_ntt_form c"
    and g: "g = uint (mod_value (rt_gamma T))" and Q: "Q = base_product (rt_base_q T)"
    and ph: "\<forall>j<2 ^ p. uint (mod_value (rt_t T)) * phase (2 ^ p) S X (ct_size c) j = Q * M j + v j"
    and noise: "\<forall>j<2 ^ p. g * \<bar>v j\<bar> \<le> ((g - 1) div 2 - int (length ms)) * Q"
    and dest: "hd_size (pt_data destination) \<le> hd_capacity (pt_data destination)"
  shows "\<exists>P D'. bfvDecrypt c destination D = Some (Inr (P, D')) \<and> wf_decryptor p \<psi> kms S D' \<and> dec_context D' = dec_context D \<and>
    plain_is (2 ^ p) (\<lambda>j. nat (M j mod uint (mod_value (rt_t T)))) P"
proof -
  let ?n = "2 ^ p :: nat"
  have cd: "getContextData (dec_context D) (ct_parms_id c) = Some cd" "unat (ep_poly_modulus_degree (cd_parms cd)) = ?n"
    "ep_coeff_modulus (cd_parms cd) = ms" "ms = take (length ms) kms" using l by (simp_all add: ct_level_def)
  have pk: "p \<le> 17" "length kms \<le> 64" using D by (simp_all add: wf_decryptor_def)
  have K: "length ms \<le> 64" using arg_cong [OF cd(4), of length] pk(2) by simp
  have Tw: "wf_tool T" "cd_rns_tool cd = Some T" "rns_base (rt_base_q T) = ms" "?n = rt_coeff_count T"
    using T by (simp_all add: level_tool_def)
  have "wf_rns (rt_base_q T)" using Tw(1) wf_basesD(2) by (simp add: wf_tool_def)
  then have bs: "rns_size (rt_base_q T) = length ms" using Tw(3) by (simp add: wf_rns_def Let_def)
  have "?n * length ms \<le> 131072 * 64" using two_power_17 [OF pk(1)] K by (rule mult_mono) simp_all
  then have w: "poly_words 1 ?n (length ms) = Inr (1 * (?n * length ms))"
    using two_power_17 [OF pk(1)] K by (intro poly_words_ok) simp_all
  obtain r D' where r: "dotProductCtSkArray c (replicate (1 * (?n * length ms)) 0) D = Some (Inr (r, D'))" "wf_decryptor p \<psi> kms S D'"
      "dec_context D' = dec_context D" "length r = ?n * length ms" "rns_vals False p \<psi> ms (phase ?n S X (ct_size c)) r"
    using dotProductCtSkArray_value [OF D l c(1-3), of "replicate (1 * (?n * length ms)) 0"] c(4) by auto
  obtain q where q: "plain_resize ?n (destination\<lparr>pt_parms_id := parmsIDZero\<rparr>) = Inr q" "pt_parms_id q = parmsIDZero"
      "?n \<le> length (hd_internal (pt_data q))"
    using plain_resize_value [of "destination\<lparr>pt_parms_id := parmsIDZero\<rparr>" ?n] dest by auto
  have len: "length (take ?n (hd_internal (pt_data q))) = ?n" using q(3) by simp
  obtain s where s: "decryptScaleAndRound T r (take ?n (hd_internal (pt_data q))) = Some s" "length s = ?n"
      "\<forall>j<?n. uint (s ! j) = M j mod uint (mod_value (rt_t T))"
    using decryptScaleAndRound_message [OF Tw(1) t Tw(4) rns_vals_poly [OF r(5,4) Tw(3) bs] len g Q ph] noise unfolding bs by blast
  have sM: "unat (s ! j) = nat (M j mod uint (mod_value (rt_t T)))" if "j < ?n" for j
    using s(3) that by (simp only: unat_eq_nat_uint)
  obtain P where P: "plain_trim ?n (plain_write s q) = Inr P" "plain_is ?n (\<lambda>j. unat (s ! j)) P"
    using plain_trim_value [OF q(2) _ q(3) s(2)] by auto
  have "bfvDecrypt c destination D = Some (Inr (P, D'))"
    unfolding bfvDecrypt_def if_not_P [OF c(4)] cd(1) option.case Let_def cd(2,3) w sum.case r(1) Option.bind.bind_lunit prod.case
      q(1) Tw(2) s(1) option.map P(1) rbind_simps ..
  moreover have "plain_is ?n (\<lambda>j. nat (M j mod uint (mod_value (rt_t T)))) P" by (rule plain_is_cong [OF P(2) sM])
  ultimately show ?thesis using r(2,3) by blast
qed

section \<open>The noise budget\<close>

text \<open>The distance of a number to the nearest multiple of \<open>Q\<close>.\<close>

definition centred :: "nat \<Rightarrow> int \<Rightarrow> nat" where
  "centred Q x = (let r = nat (x mod int Q) in if r \<ge> (Q + 1) div 2 then Q - r else r)"

lemma noise_norm_loop_value:
  assumes n: "1 \<le> n" "length modulus = n" "length threshold = n" "uval threshold = (uval modulus + 1) div 2"
    and poly: "\<And>j. j < count \<Longrightarrow> length (take n (drop (j * n) poly)) = n \<and> uval (take n (drop (j * n) poly)) < uval modulus"
  shows "i + k \<le> count \<Longrightarrow> length result = n \<Longrightarrow>
    length (noise_norm_loop poly n modulus threshold k i result) = n \<and>
    uval (noise_norm_loop poly n modulus threshold k i result) =
      fold max (map (\<lambda>j. centred (uval modulus) (int (uval (take n (drop (j * n) poly))))) [i..<i + k]) (uval result)"
proof (induction k arbitrary: i result)
  case (Suc k)
  let ?x = "take n (drop (i * n) poly)" and ?Q = "uval modulus"
  have x: "length ?x = n" "uval ?x < ?Q" using poly [of i] Suc.prems(1) by simp_all
  define a where "a = (if isGreaterThanOrEqualUint ?x threshold then snd (subUint modulus ?x) else setUint ?x)"
  define r where "r = (if isGreaterThanUint a result then setUint a else result)"
  have ge: "isGreaterThanOrEqualUint ?x threshold \<longleftrightarrow> (?Q + 1) div 2 \<le> uval ?x"
    using x(1) n by (simp add: isGreaterThanOrEqualUint_def compareUint_sgn sgn_if)
  obtain c d where cd: "subUint modulus ?x = (c, d)" by fastforce
  have "modulus \<noteq> []" using n by auto
  from subUint_value [OF cd _ this] x(1) n(2)
  have d: "length d = n" "uval d + uval ?x = ?Q + 18446744073709551616 ^ n * unat c" "unat c \<le> 1" by simp_all
  have ub: "uval d < 18446744073709551616 ^ n" using uval_lt [of d] d(1) by simp
  have "unat c = 0"
  proof (rule ccontr)
    assume "unat c \<noteq> 0"
    then have "unat c = 1" using d(3) by linarith
    then have "uval d + uval ?x = ?Q + 18446744073709551616 ^ n" using d(2) by simp
    then show False using ub x(2) by linarith
  qed
  then have dv: "uval d = ?Q - uval ?x" using d(2) by simp
  have al: "length a = n" using x(1) d(1) by (simp add: a_def cd setUint_def)
  have av: "uval a = centred ?Q (int (uval ?x))"
    using ge dv x(2) unfolding a_def cd by (simp add: centred_def setUint_def Let_def flip: zmod_int)
  have rl: "length r = n" using al Suc.prems(2) by (simp add: r_def setUint_def)
  have rv: "uval r = max (uval result) (uval a)"
    using al Suc.prems(2) by (simp add: r_def isGreaterThanUint_def compareUint_sgn sgn_if setUint_def max_def)
  have e: "noise_norm_loop poly n modulus threshold (Suc k) i result = noise_norm_loop poly n modulus threshold k (i + 1) r"
    by (simp add: Let_def a_def r_def)
  have l: "[i..<i + Suc k] = i # [i + 1..<i + 1 + k]" by (simp add: upt_rec)
  have "i + 1 + k \<le> count" using Suc.prems(1) by simp
  from Suc.IH [OF this rl] show ?case unfolding e l rv av by (simp add: max.commute)
qed simp

lemma length_halfRoundUpUint:
  assumes "xs \<noteq> []"
  shows "length (halfRoundUpUint xs) = length xs"
proof -
  obtain c u where u: "addUint_word (rightShiftUint xs 1) 1 = (c, u)" by fastforce
  have l: "length (rightShiftUint xs 1) = length xs" by simp
  then have "rightShiftUint xs 1 \<noteq> []" using assms by (metis length_0_conv)
  then have "length u = length xs" using addUint_word_value(1) [OF u] l by simp
  then show ?thesis using assms u by (simp add: halfRoundUpUint_eq incrementUint_def)
qed

lemma noise_infty_norm_value:
  assumes n: "1 \<le> n" "length modulus = n" and poly: "length poly = count * n"
    "\<And>j. j < count \<Longrightarrow> uval (take n (drop (j * n) poly)) < uval modulus"
  shows "length (noise_infty_norm poly n count modulus) = n"
    "uval (noise_infty_norm poly n count modulus) =
       Max (insert 0 ((\<lambda>j. centred (uval modulus) (int (uval (take n (drop (j * n) poly))))) ` {..<count}))"
proof -
  have t: "length (halfRoundUpUint modulus) = n" "uval (halfRoundUpUint modulus) = (uval modulus + 1) div 2"
  proof -
    have "modulus \<noteq> []" using n by auto
    then show "length (halfRoundUpUint modulus) = n" "uval (halfRoundUpUint modulus) = (uval modulus + 1) div 2"
      using n(2) by (simp_all add: length_halfRoundUpUint halfRoundUpUint_value)
  qed
  have p: "length (take n (drop (j * n) poly)) = n \<and> uval (take n (drop (j * n) poly)) < uval modulus" if "j < count" for j
  proof -
    have "n * j + n \<le> n * count" using slice_end [of j count n] that by simp
    then show ?thesis using poly that by (simp add: mult.commute)
  qed
  note v = noise_norm_loop_value [OF n t p, of count 0 count "setZeroUint n"]
  show "length (noise_infty_norm poly n count modulus) = n" using v by (simp add: noise_infty_norm_def setZeroUint_def)
  have z: "uval (replicate n 0) = 0" by simp
  show "uval (noise_infty_norm poly n count modulus) =
       Max (insert 0 ((\<lambda>j. centred (uval modulus) (int (uval (take n (drop (j * n) poly))))) ` {..<count}))"
    using v unfolding noise_infty_norm_def setZeroUint_def z Max.set_eq_fold [symmetric] by (simp add: atLeast0LessThan)
qed

text \<open>The composition of the residues of a polynomial.\<close>

lemma composeArray_poly:
  assumes b: "wf_rns b" and r: "rns_poly b count X r" and sz: "1 \<le> rns_size b" "rns_size b \<le> 64" "count \<le> 131072"
  shows "\<exists>v. composeArray b (Some r) count = Inr v \<and> length v = count * rns_size b \<and>
    (\<forall>j<count. int (uval (take (rns_size b) (drop (j * rns_size b) v))) = X j mod base_product b)"
proof -
  let ?n = "rns_size b"
  let ?Q = "crt_prod (modn (rns_base b)) ?n"
  have len: "length r = count * ?n" and x: "\<And>i j. i < ?n \<Longrightarrow> j < count \<Longrightarrow> uint (r ! (i * count + j)) = X j mod modi (rns_base b) i"
    using r by (simp_all add: rns_poly_def)
  note m = wf_rnsD(11,12) [OF b refl refl]
  have Qpos: "0 < ?Q" using base_product_pos [OF b] by (simp add: base_product_def)
  have un: "u = nat (X j mod base_product b)"
    if "u < ?Q" "\<And>i. i < ?n \<Longrightarrow> u mod modn (rns_base b) i = unat (r ! (i * count + j))" "j < count" for u j
  proof (rule crt_unique [OF m(2) that(1)])
    show "nat (X j mod base_product b) < ?Q" using Qpos by (simp add: base_product_def nat_less_iff)
    fix i
    assume i: "i < ?n"
    have "modi (rns_base b) i dvd base_product b" 
      unfolding base_product_def uint_nat of_nat_dvd_iff by (rule crt_prod_dvd [OF i])
    then have "(X j mod base_product b) mod modi (rns_base b) i = uint (r ! (i * count + j))"
      using x [OF i that(3)] by (simp add: mod_mod_cancel)
    moreover have "int (nat (X j mod base_product b) mod modn (rns_base b) i) = (X j mod base_product b) mod modi (rns_base b) i"
      using Qpos by (simp add: zmod_int base_product_def)
    ultimately show "u mod modn (rns_base b) i = nat (X j mod base_product b) mod modn (rns_base b) i"
      using that(2) [OF i] by (simp only: uint_nat of_nat_eq_iff)
  qed
  have lt: "0 \<le> X j mod base_product b" for j using Qpos by (simp add: base_product_def)
  show ?thesis
  proof (cases "1 < ?n")
    case True
    have "count * ?n \<le> 131072 * 64" using sz(3,2) by (rule mult_mono) simp_all
    then obtain v where v: "composeArray b (Some r) count = Inr v" "length v = count * ?n"
        "\<forall>j<count. poly_slice ?n j v = compose_loop b (map (\<lambda>i. r ! (i * count + j)) [0..<?n]) ?n 0 (replicate ?n 0)"
      using composeArray_value [OF b refl True _ _ len] sz(3) by auto
    have "int (uval (take ?n (drop (j * ?n) v))) = X j mod base_product b" if j: "j < count" for j
    proof -
      let ?u = "compose_loop b (map (\<lambda>i. r ! (i * count + j)) [0..<?n]) ?n 0 (replicate ?n 0)"
      have "uval ?u < ?Q" unfolding compose_row(2) [OF b refl refl] using Qpos by simp
      moreover have "uval ?u mod modn (rns_base b) i = unat (r ! (i * count + j))" if i: "i < ?n" for i
      proof -
        have "uint (r ! (i * count + j)) < modi (rns_base b) i" unfolding x [OF i j] using wf_modulus_pos [OF m(1) [OF i]] by simp
        then have "unat (r ! (i * count + j)) < modn (rns_base b) i" by (simp only: uint_nat of_nat_less_iff)
        then show ?thesis using compose_row_residue [OF b refl refl i] i by simp
      qed
      ultimately have "uval ?u = nat (X j mod base_product b)" using un [OF _ _ j] by blast
      moreover have "take ?n (drop (j * ?n) v) = ?u" using v(3) j by (simp add: poly_slice_def mult.commute)
      ultimately show ?thesis using lt by simp
    qed
    then show ?thesis using v(1,2) by blast
  next
    case False
    then have one: "?n = 1" using sz(1) by linarith
    have "int (uval (take 1 (drop (j * 1) r))) = X j mod base_product b" if j: "j < count" for j
    proof -
      have "length (take 1 (drop j r)) = 1" using len j one by simp
      from single_row(2) [OF this] have "uval (take 1 (drop j r)) = unat (r ! j)" using len j one by simp
      then show ?thesis using x [of 0 j] j one by (simp add: base_product_def crt_prod_def)
    qed
    then show ?thesis using one len by (simp add: composeArray_def)
  qed
qed

lemma centred_nearest:
  assumes "0 < Q"
  shows "int (centred Q x) = \<bar>x - int Q * ((x + int Q div 2) div int Q)\<bar>"
proof -
  define q k r where "q = int Q" "k = x div q" "r = x mod q"
  have q: "0 < q" using assms by (simp add: q_k_r_def)
  have x: "x = q * k + r" by (simp add: q_k_r_def)
  have r: "0 \<le> r" "r < q" using q by (simp_all add: q_k_r_def(3))
  have d: "(x + q div 2) div q = k + (r + q div 2) div q" unfolding x using q by (simp add: add.assoc)
  have c: "int (centred Q x) = (if (q + 1) div 2 \<le> r then q - r else r)"
    using r unfolding q_k_r_def(1,3) centred_def Let_def by (auto simp: nat_le_iff zdiv_int of_nat_diff nat_less_iff le_nat_iff)
  show ?thesis
  proof (cases "(q + 1) div 2 \<le> r")
    case True
    then have "q \<le> r + q div 2" by linarith
    then have "(r + q div 2) div q = 1" using r q by (simp add: div_pos_geq)
    then show ?thesis unfolding c q_k_r_def(1) [symmetric] d using True x r by (simp add: algebra_simps)
  next
    case False
    then have "(r + q div 2) div q = 0" using r by (intro div_pos_pos_trivial) linarith+
    then show ?thesis unfolding c q_k_r_def(1) [symmetric] d using False x r by (simp add: algebra_simps)
  qed
qed

lemma centred_mod: "centred Q (x mod int Q) = centred Q x"
  by (simp add: centred_def)

text \<open>What the noise is measured on: \<open>t\<close> times the phase for BFV, the phase for BGV.\<close>

definition noise_poly_of :: "SchemeType \<Rightarrow> int \<Rightarrow> (nat \<Rightarrow> int) \<Rightarrow> nat \<Rightarrow> int" where
  "noise_poly_of scheme t ph j = (if scheme = bfv then t * ph j else ph j)"

definition noise_norm :: "nat \<Rightarrow> nat \<Rightarrow> (nat \<Rightarrow> int) \<Rightarrow> nat" where
  "noise_norm n Q Y = Max (insert 0 ((\<lambda>j. centred Q (Y j)) ` {..<n}))"

definition noise_budget :: "nat \<Rightarrow> nat \<Rightarrow> int" where
  "noise_budget Q N = max 0 (int (nbits Q) - int (nbits N) - 1)"

lemma noise_budget_bound:
  assumes "0 < Q" "2 \<le> noise_budget Q N"
  shows "4 * N < Q"
proof -
  have "nbits N + 2 \<le> nbits Q - 1" using assms(2) by (simp add: noise_budget_def max_def split: if_splits)
  then have "2 ^ (nbits N + 2) \<le> (2 :: nat) ^ (nbits Q - 1)" by (intro power_increasing) simp_all
  also have "\<dots> \<le> Q" by (rule exp_nbits_le [OF assms(1)])
  finally show ?thesis using less_exp_nbits [of N] by (simp add: power_add)
qed

lemma noise_norm_ge: "j < n \<Longrightarrow> centred Q (Y j) \<le> noise_norm n Q Y"
  unfolding noise_norm_def by (intro Max_ge) simp_all

lemma invariantNoiseBudget_value:
  assumes D: "wf_decryptor p \<psi> kms S D" and l: "ct_level p \<psi> kms ms (dec_context D) (ct_parms_id c) cd"
    and T: "level_tool p ms cd T" and key: "keyContextData (dec_context D) = Some key" "ep_scheme (cd_parms key) \<in> {bfv, bgv}"
    and c: "ct_isValidFor c (dec_context D) = Inr True" "ct_holds p \<psi> ms X c" "2 \<le> ct_size c" "ct_size c \<le> 16" "\<not> ct_is_ntt_form c"
    and Q: "length (cd_total_coeff_modulus cd) = length ms" "uval (cd_total_coeff_modulus cd) = Q"
      "cd_total_coeff_modulus_bit_count cd = int (nbits Q)" "int Q = base_product (rt_base_q T)"
    and t: "t = uint (mod_value (rt_t T))"
  shows "\<exists>D'. invariantNoiseBudget c D =
      Some (Inr (noise_budget Q (noise_norm (2 ^ p) Q (noise_poly_of (ep_scheme (cd_parms key)) t (phase (2 ^ p) S X (ct_size c)))), D')) \<and>
    wf_decryptor p \<psi> kms S D' \<and> dec_context D' = dec_context D"
proof -
  let ?n = "2 ^ p :: nat" and ?s = "ep_scheme (cd_parms key)" and ?P = "phase (2 ^ p) S X (ct_size c)"
  let ?K = "length ms"
  have cd: "getContextData (dec_context D) (ct_parms_id c) = Some cd" "unat (ep_poly_modulus_degree (cd_parms cd)) = ?n"
    "ep_coeff_modulus (cd_parms cd) = ms" "ms = take (length ms) kms" "ms \<noteq> []" "tables_for p \<psi> ms (cd_small_ntt_tables cd)"
    using l by (simp_all add: ct_level_def)
  have pk: "p \<le> 17" "length kms \<le> 64" using D by (simp_all add: wf_decryptor_def)
  have K: "1 \<le> ?K" "?K \<le> 64" using arg_cong [OF cd(4), of length] pk(2) cd(5) by (simp_all add: Suc_le_eq)
  have Tw: "wf_tool T" "cd_rns_tool cd = Some T" "rns_base (rt_base_q T) = ms" "rt_t T = ep_plain_modulus (cd_parms cd)"
    using T by (simp_all add: level_tool_def)
  have wb: "wf_rns (rt_base_q T)" using Tw(1) wf_basesD(2) by (simp add: wf_tool_def)
  then have bs: "rns_size (rt_base_q T) = ?K" using Tw(3) by (simp add: wf_rns_def Let_def)
  obtain r D' where r: "dotProductCtSkArray c (replicate (?n * ?K) 0) D = Some (Inr (r, D'))" "wf_decryptor p \<psi> kms S D'"
      "dec_context D' = dec_context D" "length r = ?n * ?K" "rns_vals False p \<psi> ms ?P r"
    using dotProductCtSkArray_value [OF D l c(2-4), of "replicate (?n * ?K) 0"] c(5) by auto
  have wm: "wf_moduli ms" using tables_forD(3) [OF cd(6)] by (simp add: wf_moduli_def)
  define a where "a = (if ?s = bfv
      then multiplyPolyScalarCoeffmod_rns r ?K ?n (modulus_value (ep_plain_modulus (cd_parms cd))) ms r else r)"
  define Y where "Y = noise_poly_of ?s t ?P"
  have a: "length a = ?n * ?K" "rns_vals False p \<psi> ms Y a"
  proof -
    note s = rns_vals_scalar [OF wm r(5,4), of "modulus_value (ep_plain_modulus (cd_parms cd))"]
    show "length a = ?n * ?K" using s(1) r(4) by (simp add: a_def)
    have "Y = (if ?s = bfv then (\<lambda>j. t * ?P j) else ?P)" by (auto simp: Y_def noise_poly_of_def)
    then show "rns_vals False p \<psi> ms Y a" using s(2) r(5) by (simp add: a_def t Tw(4) modulus_value_def)
  qed
  obtain v where v: "composeArray (rt_base_q T) (Some a) ?n = Inr v" "length v = ?n * ?K"
      "\<forall>j<?n. int (uval (take ?K (drop (j * ?K) v))) = Y j mod int Q"
    using composeArray_poly [OF wb rns_vals_poly [OF a(2,1) Tw(3) bs]] K two_power_17 [OF pk(1)] unfolding bs Q(4) by blast
  have Qp: "0 < Q" using base_product_pos [OF wb] Q(4) by simp
  have vQ: "uval (take ?K (drop (j * ?K) v)) < Q" if "j < ?n" for j
  proof -
    have "int (uval (take ?K (drop (j * ?K) v))) < int Q" using v(3) that Qp by simp
    then show ?thesis by (simp only: of_nat_less_iff)
  qed
  define N where "N = noise_infty_norm v ?K ?n (cd_total_coeff_modulus cd)"
  have N: "length N = ?K" "uval N = noise_norm ?n Q Y"
  proof -
    note w = noise_infty_norm_value [OF K(1) Q(1) v(2) vQ [folded Q(2)], folded N_def, unfolded Q(2)]
    show "length N = ?K" by (rule w)
    have "(\<lambda>j. centred Q (int (uval (take ?K (drop (j * ?K) v))))) ` {..<?n} = (\<lambda>j. centred Q (Y j)) ` {..<?n}"
      using v(3) by (intro image_cong) (simp_all add: centred_mod)
    then show "uval N = noise_norm ?n Q Y" using w(2) by (simp add: noise_norm_def)
  qed
  have "N \<noteq> []" using N(1) K(1) by auto
  note b = getSignificantBitCountUint_nbits [OF this]
  have sch: "\<not> (?s \<noteq> bfv \<and> ?s \<noteq> bgv)" using key(2) by blast
  have sz: "\<not> ct_size c < SEAL_CIPHERTEXT_SIZE_MIN" using c(3) by (simp add: SEAL_CIPHERTEXT_SIZE_MIN_def)
  have "invariantNoiseBudget c D = Some (Inr (max 0 (cd_total_coeff_modulus_bit_count cd - getSignificantBitCountUint N - 1), D'))"
    unfolding invariantNoiseBudget_def c(1) sum.case bool.case if_not_P [OF sz] key(1) Option.bind.bind_lunit Let_def if_not_P [OF sch]
      if_not_P [OF c(5)] cd(1) cd(2,3) r(1) prod.case a_def [symmetric] Tw(2) option.map v(1) rbind_simps N_def [symmetric] ..
  then show ?thesis using r(2,3) unfolding b N(2) Q(3) noise_budget_def [symmetric] Y_def by blast
qed

section \<open>Properties\<close>

lemma ct_isValidFor_size: "ct_isValidFor c context = Inr True \<Longrightarrow> ct_size c \<le> 16"
  by (auto simp: ct_isValidFor_def rbind_Inr_iff ct_isDataValidFor_def ct_isMetadataValidFor_def SEAL_CIPHERTEXT_SIZE_MAX_def
      Let_def split: option.splits)

text \<open>A budget of two bits is enough noise to spare.\<close>

lemma decrypt_budget:
  assumes D: "wf_decryptor p \<psi> kms S D" and l: "ct_level p \<psi> kms ms (dec_context D) (ct_parms_id c) cd"
    and T: "level_tool p ms cd T" and t: "t = uint (mod_value (rt_t T))" "t \<noteq> 0"
    and first: "firstContextData (dec_context D) = Some fd" "ep_scheme (cd_parms fd) = bfv"
    and c: "ct_isValidFor c (dec_context D) = Inr True" "ct_holds p \<psi> ms X c" "2 \<le> ct_size c" "\<not> ct_is_ntt_form c"
    and Q: "int Q = base_product (rt_base_q T)"
    and b: "2 \<le> noise_budget Q (noise_norm (2 ^ p) Q (\<lambda>j. t * phase (2 ^ p) S X (ct_size c) j))"
    and g: "4 * int (length ms) + 4 \<le> uint (mod_value (rt_gamma T))"
    and dest: "hd_size (pt_data destination) \<le> hd_capacity (pt_data destination)"
  shows "\<exists>P D'. decrypt c destination D = Some (Inr (P, D')) \<and>
    plain_is (2 ^ p) (\<lambda>j. nat ((t * phase (2 ^ p) S X (ct_size c) j + int Q div 2) div int Q mod t)) P"
proof -
  let ?P = "phase (2 ^ p) S X (ct_size c)" and ?g = "uint (mod_value (rt_gamma T))"
  define M v where "M j = (t * ?P j + int Q div 2) div int Q" and "v j = t * ?P j - int Q * M j" for j
  have z: "\<not> modulus_isZero (rt_t T)" using t by (auto simp: modulus_isZero_def)
  have "wf_rns (rt_base_q T)" using T wf_basesD(2) by (simp add: level_tool_def wf_tool_def)
  from base_product_pos [OF this] have Qp: "0 < Q" using Q by simp
  have noise: "?g * \<bar>v j\<bar> \<le> ((?g - 1) div 2 - int (length ms)) * int Q" if j: "j < 2 ^ p" for j
  proof -
    have "4 * centred Q (t * ?P j) < Q"
      using noise_norm_ge [OF j, of Q "\<lambda>j. t * ?P j"] noise_budget_bound [OF Qp b] by linarith
    then have v: "4 * \<bar>v j\<bar> \<le> int Q" using centred_nearest [OF Qp, of "t * ?P j"] by (simp add: v_def M_def)
    have "x \<le> 4 * ((x - 1) div 2 - k)" if "4 * k + 4 \<le> x" for x k :: int using that by presburger
    from this [OF g] have h: "?g \<le> 4 * ((?g - 1) div 2 - int (length ms))" .
    have "?g * (4 * \<bar>v j\<bar>) \<le> ?g * int Q" using v by (intro mult_left_mono) simp_all
    also have "\<dots> \<le> 4 * ((?g - 1) div 2 - int (length ms)) * int Q" using h by (intro mult_right_mono) simp_all
    finally have "4 * (?g * \<bar>v j\<bar>) \<le> 4 * (((?g - 1) div 2 - int (length ms)) * int Q)" by (simp only: mult_ac)
    then show ?thesis by linarith
  qed
  have ph: "\<forall>j<2 ^ p. uint (mod_value (rt_t T)) * ?P j = int Q * M j + v j" by (simp add: v_def t)
  have "decrypt c destination D = bfvDecrypt c destination D"
    using c(1,3) first by (simp add: decrypt_def SEAL_CIPHERTEXT_SIZE_MIN_def)
  then show ?thesis
    using bfvDecrypt_value [OF D l T z c(2,3) ct_isValidFor_size [OF c(1)] c(4) refl Q ph _ dest] noise
    by (auto simp: t M_def)
qed

text \<open>
  C4. BFV decryption. When the phase of a valid ciphertext, that is the polynomial with the coefficients of the ciphertext
  at the secret key, is a multiple \<open>Q / t\<close> of a message up to a small noise, the decryption returns exactly the message:
  a plaintext that is not transformed and has its coefficients, without leading zeros. This holds for ciphertexts of any
  size, on every level, and the object remains good for further decryptions.
\<close>

theorem decrypt_correct:
  assumes D: "wf_decryptor p \<psi> kms S D" and l: "ct_level p \<psi> kms ms (dec_context D) (ct_parms_id c) cd"
    and T: "level_tool p ms cd T" and t: "t = uint (mod_value (rt_t T))" "t \<noteq> 0"
    and first: "firstContextData (dec_context D) = Some fd" "ep_scheme (cd_parms fd) = bfv"
    and c: "ct_isValidFor c (dec_context D) = Inr True" "ct_holds p \<psi> ms X c" "2 \<le> ct_size c" "\<not> ct_is_ntt_form c"
    and g: "g = uint (mod_value (rt_gamma T))" and Q: "Q = base_product (rt_base_q T)"
    and ph: "\<forall>j<2 ^ p. t * phase (2 ^ p) S X (ct_size c) j = Q * M j + v j"
    and noise: "\<forall>j<2 ^ p. g * \<bar>v j\<bar> \<le> ((g - 1) div 2 - int (length ms)) * Q"
    and dest: "hd_size (pt_data destination) \<le> hd_capacity (pt_data destination)"
  shows "\<exists>P D'. decrypt c destination D = Some (Inr (P, D')) \<and> wf_decryptor p \<psi> kms S D' \<and>
    dec_context D' = dec_context D \<and> plain_is (2 ^ p) (\<lambda>j. nat (M j mod t)) P"
proof -
  have z: "\<not> modulus_isZero (rt_t T)" using t by (auto simp: modulus_isZero_def)
  have "decrypt c destination D = bfvDecrypt c destination D"
    using c(1,3) first by (simp add: decrypt_def SEAL_CIPHERTEXT_SIZE_MIN_def)
  then show ?thesis
    using bfvDecrypt_value [OF D l T z c(2,3) ct_isValidFor_size [OF c(1)] c(4) g Q ph [unfolded t(1)] noise dest] t(1) by simp
qed

text \<open>
  The noise budget of BFV. For a valid ciphertext on any level, the budget is one less than the difference of the bit
  lengths of the coefficient modulus \<open>Q\<close> and of the noise, that is the greatest distance of a coefficient of \<open>t\<close> times the phase
  to a multiple of \<open>Q\<close>, and zero where this is negative. A budget of two bits or more is a promise:
  as long as \<open>\<gamma>\<close> is not too small for the number of moduli, decryption returns the phase scaled by \<open>t / Q\<close> and rounded.
\<close>

theorem noise_budget_correct:
  assumes D: "wf_decryptor p \<psi> kms S D" and l: "ct_level p \<psi> kms ms (dec_context D) (ct_parms_id c) cd"
    and T: "level_tool p ms cd T" and t: "t = uint (mod_value (rt_t T))" "t \<noteq> 0"
    and scheme: "keyContextData (dec_context D) = Some key" "ep_scheme (cd_parms key) = bfv"
      "firstContextData (dec_context D) = Some fd" "ep_scheme (cd_parms fd) = bfv"
    and c: "ct_isValidFor c (dec_context D) = Inr True" "ct_holds p \<psi> ms X c" "2 \<le> ct_size c" "\<not> ct_is_ntt_form c"
    and Q: "length (cd_total_coeff_modulus cd) = length ms" "uval (cd_total_coeff_modulus cd) = Q"
      "cd_total_coeff_modulus_bit_count cd = int (nbits Q)" "int Q = base_product (rt_base_q T)"
    and dest: "hd_size (pt_data destination) \<le> hd_capacity (pt_data destination)"
  shows "\<exists>b D'. invariantNoiseBudget c D = Some (Inr (b, D')) \<and> wf_decryptor p \<psi> kms S D' \<and> dec_context D' = dec_context D \<and>
    b = noise_budget Q (noise_norm (2 ^ p) Q (\<lambda>j. t * phase (2 ^ p) S X (ct_size c) j)) \<and>
    (2 \<le> b \<and> 4 * int (length ms) + 4 \<le> uint (mod_value (rt_gamma T)) \<longrightarrow>
     (\<exists>P D''. decrypt c destination D' = Some (Inr (P, D'')) \<and>
        plain_is (2 ^ p) (\<lambda>j. nat ((t * phase (2 ^ p) S X (ct_size c) j + int Q div 2) div int Q mod t)) P))"
proof -
  let ?P = "phase (2 ^ p) S X (ct_size c)"
  let ?b = "noise_budget Q (noise_norm (2 ^ p) Q (\<lambda>j. t * ?P j))"
  have Y: "noise_poly_of (ep_scheme (cd_parms key)) t ?P = (\<lambda>j. t * ?P j)" by (simp add: noise_poly_of_def scheme(2) fun_eq_iff)
  have "ep_scheme (cd_parms key) \<in> {bfv, bgv}" using scheme(2) by simp
  then obtain D' where D': "invariantNoiseBudget c D = Some (Inr (?b, D'))" "wf_decryptor p \<psi> kms S D'" "dec_context D' = dec_context D"
    using invariantNoiseBudget_value [OF D l T scheme(1) _ c(1-3) ct_isValidFor_size [OF c(1)] c(4) Q t(1)] unfolding Y by blast
  have "\<exists>P D''. decrypt c destination D' = Some (Inr (P, D'')) \<and>
      plain_is (2 ^ p) (\<lambda>j. nat ((t * ?P j + int Q div 2) div int Q mod t)) P"
    if b: "2 \<le> ?b" and g: "4 * int (length ms) + 4 \<le> uint (mod_value (rt_gamma T))"
    by (rule decrypt_budget [OF D'(2) _ T t _ scheme(4) _ c(2-4) Q(4) b g dest]) (use l scheme(3) c(1) in \<open>simp_all add: D'(3)\<close>)
  then show ?thesis using D' by blast
qed

text \<open>An instance: two moduli, degree two, the secret \<open>X\<close>, a ciphertext of three polynomials with noise in both coefficients.\<close>

definition example_level :: "NTTTables list \<Rightarrow> RNSTool \<Rightarrow> ContextData" where
  "example_level ts T =
     (new_ContextData ((default_parameters bfv)\<lparr>ep_poly_modulus_degree := 2, ep_coeff_modulus := [modulus_17, modulus_97],
        ep_plain_modulus := modulus_5\<rparr>))\<lparr>cd_qualifiers := new_qualifiers\<lparr>parameter_error := success\<rparr>,
        cd_small_ntt_tables := ts, cd_rns_tool := Some T,
        cd_total_coeff_modulus := [1649, 0], cd_total_coeff_modulus_bit_count := 11\<rparr>"

definition example_context :: "NTTTables list \<Rightarrow> RNSTool \<Rightarrow> SEALContext" where
  "example_context ts T = \<lparr>ctx_key_parms_id = [1, 2, 3, 4], ctx_first_parms_id = [1, 2, 3, 4], ctx_last_parms_id = [1, 2, 3, 4],
     ctx_context_data_map = [([1, 2, 3, 4], example_level ts T)], ctx_sec_level = SecurityLevel.none, ctx_using_keyswitching = False\<rparr>"

definition example_decryptor :: "NTTTables list \<Rightarrow> RNSTool \<Rightarrow> Decryptor" where
  "example_decryptor ts T = \<lparr>dec_context = example_context ts T, dec_secret_key_array = [4, 13, 22, 75], dec_secret_key_array_size = 1\<rparr>"

definition example_ct :: Ciphertext where
  "example_ct = \<lparr>ct_parms_id = [1, 2, 3, 4], ct_is_ntt_form = False, ct_size = 3, ct_poly_modulus_degree = 2,
     ct_coeff_modulus_size = 2, ct_scale = scale_one, ct_correction_factor = 1,
     ct_data = \<lparr>hd_internal = [11, 6, 83, 54, 7, 15, 7, 3, 16, 3, 50, 3], hd_size = 12\<rparr>\<rparr>"

definition example_root :: "nat \<Rightarrow> int" where "example_root i = (if i = 0 then 4 else 22)"
definition example_secret :: "nat \<Rightarrow> int" where "example_secret j = (if j = 1 then 1 else 0)"
definition example_polys :: "nat \<Rightarrow> nat \<Rightarrow> int" where
  "example_polys i j = [[1150, 1315], [7, 100], [50, 3]] ! i ! j"

lemma example_level_tables:
  obtains ts where "tables_for 1 example_root [modulus_17, modulus_97] ts" "length ts = 2"
proof -
  have r: "tryMinimalPrimitiveRoot (\<lambda>n. 7) (2 * push_bit 1 1) modulus_17 = Some 4"
    "tryMinimalPrimitiveRoot (\<lambda>n. 7) (2 * push_bit 1 1) modulus_97 = Some 22" by code_simp+
  obtain t u where "wf_tables 1 modulus_17 t" "ntt_root t = 4" "wf_tables 1 modulus_97 u" "ntt_root u = 22"
    using initialize_ok [OF wf_modulus_17 _ _ r(1)] initialize_ok [OF wf_modulus_97 _ _ r(2)] by auto
  then have "tables_for 1 example_root [modulus_17, modulus_97] [t, u]"
    by (auto simp: tables_for_def example_root_def less_2_cases_iff nth_Cons')
  then show ?thesis using that by simp
qed

lemma example_decryptor_wf:
  assumes "tables_for 1 example_root [modulus_17, modulus_97] ts"
  shows "wf_decryptor 1 example_root [modulus_17, modulus_97] example_secret (example_decryptor ts T)"
proof -
  have "key_powers 1 example_root example_secret [modulus_17, modulus_97] 1 [4, 13, 22, 75]"
    by (auto simp: key_powers_def rns_vals_def vals_def less_2_all evaluation_def example_secret_def example_root_def modulus_17_def modulus_97_def less_Suc_eq
        lessThan_nat_numeral lessThan_Suc nth_Cons')
  then show ?thesis using assms
    by (auto simp: wf_decryptor_def example_decryptor_def example_context_def example_level_def new_ContextData_def keyContextData_def)
qed

lemma example_level_sel:
  "getContextData (example_context ts T) [1, 2, 3, 4] = Some (example_level ts T)"
  "firstContextData (example_context ts T) = Some (example_level ts T)"
  "ep_scheme (cd_parms (example_level ts T)) = bfv" "unat (ep_poly_modulus_degree (cd_parms (example_level ts T))) = 2"
  "ep_coeff_modulus (cd_parms (example_level ts T)) = [modulus_17, modulus_97]"
  "ep_plain_modulus (cd_parms (example_level ts T)) = modulus_5"
  "cd_small_ntt_tables (example_level ts T) = ts" "cd_rns_tool (example_level ts T) = Some T"
  "context_parametersSet (example_context ts T)" "cd_chain_index (example_level ts T) = 0"
  "keyContextData (example_context ts T) = Some (example_level ts T)"
  "cd_total_coeff_modulus (example_level ts T) = [1649, 0]" "cd_total_coeff_modulus_bit_count (example_level ts T) = 11"
  by (simp_all add: example_context_def example_level_def new_ContextData_def getContextData_def firstContextData_def keyContextData_def
      context_parametersSet_def parametersSet_def)

lemma example_ct_valid: "ct_isValidFor example_ct (example_context ts T) = Inr True"
proof -
  have "poly_words 3 2 2 = Inr (3 * (2 * 2))" by (rule poly_words_ok) simp_all
  moreover have "words_below [11, 6, 83, 54, 7, 15, 7, 3, 16, 3, 50, 3] 3 2 [modulus_17, modulus_97]"
    by (simp add: words_below_def upt_rec modulus_17_def modulus_97_def modulus_value_def)
  ultimately show ?thesis
    by (simp add: ct_isValidFor_def ct_isBufferValid_def ct_isDataValidFor_def ct_isMetadataValidFor_def Let_def example_ct_def
        example_level_sel SEAL_CIPHERTEXT_SIZE_MIN_def SEAL_CIPHERTEXT_SIZE_MAX_def)
qed

lemma less_3_all: "(\<forall>i<3 :: nat. P i) \<longleftrightarrow> P 0 \<and> P 1 \<and> P 2"
  by (auto simp: less_Suc_eq numeral_3_eq_3 numeral_2_eq_2)

lemma example_ct_holds: "ct_holds 1 \<psi> [modulus_17, modulus_97] example_polys example_ct"
  by (simp add: ct_holds_def ct_sized_def ct_poly_def example_ct_def hd_capacity_def rns_vals_def vals_def less_2_all less_3_all All_less_Suc example_polys_def
      modulus_17_def modulus_97_def)

theorem decrypt_correct_witness:
  "\<exists>ts T P D'. decrypt example_ct new_Plaintext (example_decryptor ts T) = Some (Inr (P, D')) \<and>
     plain_coeff P 0 = 3 \<and> plain_coeff P 1 = 4"
proof (rule example_level_tables, rule example_tool)
  fix ts T
  assume ts: "tables_for 1 example_root [modulus_17, modulus_97] ts"
    and T: "wf_tool T" "rt_coeff_count T = 2" "rns_base (rt_base_q T) = [modulus_17, modulus_97]"
    "base_product (rt_base_q T) = 1649" "rt_t T = modulus_5" "rt_gamma T = modulus_41"
  let ?D = "example_decryptor ts T" and ?cd = "example_level ts T" and ?M = "\<lambda>j :: nat. if j = 0 then 3 else 4 :: int"
  let ?v = "\<lambda>j :: nat. if j = 0 then 53 else - 1 :: int"
  have ctx: "dec_context ?D = example_context ts T" by (simp add: example_decryptor_def)
  have id: "ct_parms_id example_ct = [1, 2, 3, 4]" "ct_size example_ct = 3" "\<not> ct_is_ntt_form example_ct"
    by (simp_all add: example_ct_def)
  have l: "ct_level 1 example_root [modulus_17, modulus_97] [modulus_17, modulus_97] (dec_context ?D) (ct_parms_id example_ct) ?cd"
    using ts by (simp add: ct_level_def ctx id example_level_sel)
  have lt: "level_tool 1 [modulus_17, modulus_97] ?cd T" using T by (simp add: level_tool_def example_level_sel)
  have m: "uint (mod_value modulus_5) = 5" "uint (mod_value modulus_41) = 41" by (simp_all add: modulus_5_def modulus_41_def)
  have ph: "\<forall>j<2 ^ 1. 5 * phase (2 ^ 1) example_secret example_polys (ct_size example_ct) j = 1649 * ?M j + ?v j"
    by (simp add: id phase_def negacyclic_def less_2_all example_polys_def example_secret_def lessThan_nat_numeral lessThan_Suc)
  have first: "firstContextData (dec_context ?D) = Some ?cd" "ep_scheme (cd_parms ?cd) = bfv" by (simp_all add: ctx example_level_sel)
  have valid: "ct_isValidFor example_ct (dec_context ?D) = Inr True" unfolding ctx by (rule example_ct_valid)
  have dest: "hd_size (pt_data new_Plaintext) \<le> hd_capacity (pt_data new_Plaintext)" by (simp add: new_Plaintext_def)
  obtain P D' where P: "decrypt example_ct new_Plaintext ?D = Some (Inr (P, D'))" "plain_is (2 ^ 1) (\<lambda>j. nat (?M j mod 5)) P"
    using decrypt_correct [OF example_decryptor_wf [OF ts] l lt _ _ first valid example_ct_holds _ id(3) _ _ ph _ dest, of 41] id(2)
    by (auto simp: T m less_2_all)
  have "plain_coeff P 0 = 3 \<and> plain_coeff P 1 = 4" using P(2) by (simp add: plain_is_def less_2_all)
  then show "\<exists>ts T P D'. decrypt example_ct new_Plaintext (example_decryptor ts T) = Some (Inr (P, D')) \<and>
     plain_coeff P 0 = 3 \<and> plain_coeff P 1 = 4" using P(1) by blast
qed

text \<open>The example ciphertext has a noise of 53, six bits against the eleven of 1649.\<close>

theorem noise_budget_correct_witness:
  "\<exists>ts T D' P D''. invariantNoiseBudget example_ct (example_decryptor ts T) = Some (Inr (4, D')) \<and>
     decrypt example_ct new_Plaintext D' = Some (Inr (P, D'')) \<and> plain_coeff P 0 = 3 \<and> plain_coeff P 1 = 4"
proof (rule example_level_tables, rule example_tool)
  fix ts T
  assume ts: "tables_for 1 example_root [modulus_17, modulus_97] ts"
    and T: "wf_tool T" "rt_coeff_count T = 2" "rns_base (rt_base_q T) = [modulus_17, modulus_97]"
    "base_product (rt_base_q T) = 1649" "rt_t T = modulus_5" "rt_gamma T = modulus_41"
  let ?D = "example_decryptor ts T" and ?cd = "example_level ts T"
  let ?Y = "\<lambda>j. 5 * phase (2 ^ 1) example_secret example_polys (ct_size example_ct) j"
  have ctx: "dec_context ?D = example_context ts T" by (simp add: example_decryptor_def)
  have id: "ct_parms_id example_ct = [1, 2, 3, 4]" "ct_size example_ct = 3" "\<not> ct_is_ntt_form example_ct"
    by (simp_all add: example_ct_def)
  have l: "ct_level 1 example_root [modulus_17, modulus_97] [modulus_17, modulus_97] (dec_context ?D) (ct_parms_id example_ct) ?cd"
    using ts by (simp add: ct_level_def ctx id example_level_sel)
  have lt: "level_tool 1 [modulus_17, modulus_97] ?cd T" using T by (simp add: level_tool_def example_level_sel)
  have m: "5 = uint (mod_value (rt_t T))" "uint (mod_value (rt_gamma T)) = 41" by (simp_all add: T modulus_5_def modulus_41_def)
  have key: "keyContextData (dec_context ?D) = Some ?cd" "firstContextData (dec_context ?D) = Some ?cd" "ep_scheme (cd_parms ?cd) = bfv"
    by (simp_all add: ctx example_level_sel)
  have valid: "ct_isValidFor example_ct (dec_context ?D) = Inr True" unfolding ctx by (rule example_ct_valid)
  have nb: "nbits 1649 = 11" "nbits 53 = 6" by (rule nbits_eqI; simp)+
  have Q: "length (cd_total_coeff_modulus ?cd) = length [modulus_17, modulus_97]" "uval (cd_total_coeff_modulus ?cd) = 1649"
    "cd_total_coeff_modulus_bit_count ?cd = int (nbits 1649)" "int 1649 = base_product (rt_base_q T)"
    by (simp_all add: example_level_sel T nb)
  have dest: "hd_size (pt_data new_Plaintext) \<le> hd_capacity (pt_data new_Plaintext)" by (simp add: new_Plaintext_def)
  have Y: "?Y 0 = 5000" "?Y 1 = 6595"
    by (simp_all add: id phase_def negacyclic_def example_polys_def example_secret_def lessThan_nat_numeral lessThan_Suc)
  have norm: "noise_norm (2 ^ 1) 1649 ?Y = 53" unfolding noise_norm_def using Y by (simp add: lessThan_Suc lessThan_nat_numeral centred_def)
  obtain b D' where b: "invariantNoiseBudget example_ct ?D = Some (Inr (b, D'))" "b = noise_budget 1649 (noise_norm (2 ^ 1) 1649 ?Y)"
    "2 \<le> b \<Longrightarrow> \<exists>P D''. decrypt example_ct new_Plaintext D' = Some (Inr (P, D'')) \<and>
        plain_is (2 ^ 1) (\<lambda>j. nat ((?Y j + int 1649 div 2) div int 1649 mod 5)) P"
    using noise_budget_correct [OF example_decryptor_wf [OF ts] l lt m(1) _ key(1,3,2,3) valid example_ct_holds _ id(3) Q dest] id(2) m(2)
    by auto
  have b4: "b = 4" unfolding b(2) norm by (simp add: noise_budget_def nb)
  then obtain P D'' where P: "decrypt example_ct new_Plaintext D' = Some (Inr (P, D''))"
      "plain_is (2 ^ 1) (\<lambda>j. nat ((?Y j + int 1649 div 2) div int 1649 mod 5)) P" using b(3) by auto
  have "plain_coeff P 0 = 3 \<and> plain_coeff P 1 = 4" using P(2) Y by (simp add: plain_is_def less_2_all)
  then show "\<exists>ts T D' P D''. invariantNoiseBudget example_ct (example_decryptor ts T) = Some (Inr (4, D')) \<and>
     decrypt example_ct new_Plaintext D' = Some (Inr (P, D'')) \<and> plain_coeff P 0 = 3 \<and> plain_coeff P 1 = 4"
    using b(1) b4 P(1) by blast
qed

end
