(* ===== verification/Spec2Isabelle.thy ===== *)
theory Spec2Isabelle
  imports Blake2xb Batch_Encoder Decryption
begin

text \<open>
  HEU is a library of homomorphic encryption. Its lattice schemes (BFV, BGV and CKKS) are implemented in
  \<open>heu/library/algorithms/seal_gpu/\<close>, a port of Microsoft SEAL, and everything these schemes compute rests on the
  code under \<open>seal_gpu/utils/\<close>: multi-word integers, modular arithmetic on words, number-theoretic transforms,
  residue number systems, hash functions and random generators. This development models that computational core, and
  on top of it the parameters, the context, plaintexts and ciphertexts, batching and decryption.
  All paths below are relative to \<open>src/heu/library/algorithms/seal_gpu/\<close>.

  \<^bold>\<open>Conventions.\<close> A \<open>uint64_t\<close> is a word of 64 bits (\<open>u64\<close>), with the wrap-around of the machine; an \<open>int\<close> is an
  \<open>int\<close> where the code cannot overflow and is reduced explicitly where it can. A buffer is the list of the
  elements that the function may read or write, so that a function that writes through a pointer takes the old
  contents and returns the new ones; a possibly null pointer is an \<open>option\<close>. A C++ exception is a value: \<open>'a res\<close>
  is \<open>exn + 'a\<close>, with \<open>Inl\<close> for the exception and its message. Undefined behaviour (a division by zero, the use
  of a null pointer) and a loop that does not end are \<open>None\<close> of a further \<open>option\<close>. A size is a \<open>nat\<close>, or a
  \<open>u64\<close> where the code computes with it. What comes from outside the code is a parameter of the definitions that
  use it: the words drawn from \<open>random_device\<close> (\<open>rd\<close>, \<open>rnd\<close>), the contents of uninitialised memory (\<open>junk\<close>,
  \<open>S0\<close>). A \<open>double\<close> is a rational number, and every operation on doubles rounds its exact result.

  \<^bold>\<open>Theories\<close>, from the bottom up.

  \<^item> \<open>Heu_Prelude\<close>: word types, exceptions and their sequencing \<open>rbind\<close>, the value \<open>uval\<close> of a list of limbs,
    the rule collections \<open>word_nat\<close> and \<open>limb\<close>. \<open>Byte_Stream\<close>: words as little-endian bytes.
  \<^item> \<open>Seal_Common\<close>: \<open>utils/common.h\<close>. Checked casts and checked arithmetic for every integer type, bit counts,
    reversals. The lemmas give each function its value or its exception.
  \<^item> \<open>Uint_Core\<close>, \<open>Uint_Arith\<close>, \<open>Uint_Divide\<close>: \<open>utils/uintcore.h\<close>, \<open>utils/uintarith.h\<close>, \<open>utils/uintarith.cpp\<close>.
    Integers as lists of limbs: each operation computes the operation on the values \<open>uval\<close>; the long division ends
    with the quotient and the remainder for every divisor that is not zero, and is undefined for zero.
  \<^item> \<open>Uint_Mod\<close>: \<open>utils/uintarithmod.h\<close>, modular arithmetic on several limbs.
  \<^item> \<open>Seal_Modulus\<close>, \<open>Small_Mod\<close>: the class \<open>Modulus\<close> of \<open>modulus.h\<close>, the security tables, and
    \<open>utils/uintarithsmallmod.h\<close>. \<open>wf_modulus\<close> is the class invariant; the Barrett reductions are exact under it.
  \<^item> \<open>Prime_Facts\<close>, \<open>Num_Th\<close>, \<open>Coeff_Modulus\<close>: \<open>utils/numth.cpp\<close> and \<open>modulus.cpp\<close>. Inverses, the probabilistic
    primality test, the search for primes and roots of unity, the creation of coefficient moduli. The searches are
    partial functions; the theorems that state their results also state when they return.
  \<^item> \<open>Blake2b\<close>, \<open>Blake2xb\<close>, \<open>Fips202\<close>, \<open>Random_Gen\<close>: \<open>utils/blake2b.c\<close>, \<open>utils/blake2xb.c\<close>, \<open>utils/fips202.c\<close>,
    \<open>randomgen.cpp\<close>. The hash functions are refinements of RFC 7693 and FIPS 202 written as reference definitions;
    the generators are state machines that refine a stream with a position.
  \<^item> \<open>Dwt\<close>, \<open>Ntt\<close>, \<open>Poly_Small_Mod\<close>, \<open>Galois\<close>: \<open>utils/dwthandler.h\<close>, \<open>utils/ntt.cpp\<close>,
    \<open>utils/polyarithsmallmod.cpp\<close>, \<open>utils/galois.cpp\<close>. The transform of a polynomial is its list of values at the
    odd powers of the root in bit-reversed order; hence products, rotations and the inverse.
  \<^item> \<open>Binary64\<close>: the operations of IEEE 754 double precision that \<open>utils/rns.cpp\<close> uses, each the exact result rounded to
    53 bits, to nearest with ties to even; the lemmas bound the error of one operation and of the sum of quotients.
  \<^item> \<open>Crt\<close>, \<open>Rns_Base\<close>, \<open>Rns_Converter\<close>: the classes \<open>RNSBase\<close> and \<open>BaseConverter\<close> of \<open>utils/rns.cpp\<close>. \<open>wf_rns\<close>
    is the invariant of a base; decomposition and composition are inverse to each other, the fast conversion is exact
    up to a bounded multiple of the product, the exact one, with its sum in doubles, for numbers not too near to half of it.
  \<^item> \<open>Rns_Tool\<close>, \<open>Rns_Round\<close>, \<open>Rns_Init\<close>, \<open>Rns_Behz\<close>: the class \<open>RNSTool\<close> of \<open>utils/rns.cpp\<close>. \<open>wf_tool\<close> is the
    invariant that the initialization establishes; under it follow the rounding divisions, the changes of base and
    the decryption.
  \<^item> \<open>Enc_Parms\<close>: \<open>encryptionparams.h\<close>, \<open>encryptionparams.cpp\<close>, \<open>utils/hash.h\<close>. The setters refine an abstract machine
    on the values of the parameters; the identifier is the digest of these values, written out byte by byte.
  \<^item> \<open>Seal_Context\<close>, \<open>Context_Valid\<close>: \<open>context.h\<close>, \<open>context.cpp\<close>. The validation of parameters is a sequence of
    stages that fill in the record \<open>ContextData\<close> or record an error; \<open>valid_context\<close> is what holds of the record on
    success, \<open>error_reason\<close> what each error means. \<open>Context_Chain\<close>: what the constructor of a context makes, the chain of
    the levels with fewer and fewer moduli, linked both ways, down to the last valid one (for parameters whose levels
    have distinct identifiers).
  \<^item> \<open>Plaintexts\<close>: the growing arrays of \<open>utils/hostarray.h\<close>, the class of \<open>plaintext.h\<close>, its checks in \<open>valcheck.cpp\<close>.
  \<^item> \<open>Scaling_Variant\<close>: \<open>utils/scalingvariant.cpp\<close>. A coefficient \<open>m\<close> becomes \<open>(Q * m + (t + 1) div 2) div t\<close>
    modulo every modulus, with the constants of the context, and the decryption of \<open>RNSTool\<close> undoes it.
  \<^item> \<open>Batch_Encoder\<close>: \<open>batchencoder.cpp\<close>. The slots are the values at the powers of the root with the exponents plus
    and minus the powers of three; encoding and decoding are inverse to each other, arithmetic is slotwise, and the
    automorphisms rotate the rows.
  \<^item> \<open>Ciphertexts\<close>: \<open>ciphertext.h\<close>, \<open>ciphertext.cpp\<close>, the records of the keys, and the checks of both in \<open>valcheck.cpp\<close>.
    A valid ciphertext has as many polynomials of the right length as it says, with reduced coefficients.
  \<^item> \<open>Rns_Forms\<close>, \<open>Decryption\<close>: \<open>decryptor.h\<close>, \<open>decryptor.cpp\<close>. \<open>rns_vals\<close> says that an array holds the residues of an
    integer polynomial, transformed or not, and the operations on arrays are operations on these polynomials; so the
    phase that the code computes is the polynomial \<open>c\<^sub>0 + c\<^sub>1 s + c\<^sub>2 s\<^sup>2 + ...\<close>, BFV decryption returns the message, and
    the noise budget is the number of bits between the noise and the modulus. \<open>wf_decryptor\<close> is the invariant of the
    object, which the constructor establishes and every decryption keeps.

  \<^bold>\<open>Interaction.\<close> Every class that precomputes tables (\<open>Modulus\<close>, \<open>NTTTables\<close>, \<open>GaloisTool\<close>, \<open>RNSBase\<close>,
  \<open>BaseConverter\<close>, \<open>RNSTool\<close>, \<open>Decryptor\<close>) has an invariant (\<open>wf_modulus\<close>, \<open>wf_tables\<close>, \<open>wf_galois\<close>, \<open>wf_rns\<close>,
  \<open>converts\<close>, \<open>wf_tool\<close>, \<open>wf_decryptor\<close>). Its constructor is shown to establish it or to throw, and each operation is proved
  from the invariants of the objects that it uses.

  \<^bold>\<open>Bounds.\<close> A modulus has at most 61 bits, so that four times it fits a word (the lazy transforms); the degree is
  \<open>2 ^ p\<close> with \<open>1 \<le> p \<le> 17\<close>; a base has at most 64 moduli. Loops of the code with a counter are structural or
  have a measure; the loops that search (primes, roots, coprime bases) are \<open>partial_function (option)\<close>, or are
  bounded by the number of trials that the code itself has. No fuel is used.

  \<^bold>\<open>Not modelled.\<close> The stream and file serialization (commented out in the repository); the reading and printing of
  plaintexts as strings; memory management and locks, among them the one around the decryptor's powers of the key;
  the range of the exponents of doubles, which the sums of quotients do not leave; the samplers, which rest on the
  normal distribution of the C++ library, and with them key generation and encryption; the evaluator, which composes
  modelled operations; the CUDA kernels, which repeat the host code; CKKS encoding, which computes with complex
  floating-point numbers; the Paillier, OU, DGK, Damgard-Jurik and ElGamal layers, thin calls of the YACL library,
  which is not part of the repository; device drivers; the dispatch layers and the Python bindings.
\<close>

end
